(* ===== verification/Prelude.thy ===== *)
theory Prelude
  imports Main "HOL-Library.Word"
begin

text \<open>
  The types, named collections and generic lemmas that the component theories share:
  names for the C integer types at their width, the little-endian and big-endian reading of a
  byte string, and facts about slices of lists and about words that several proofs use.
\<close>

unbundle bit_operations_syntax

type_synonym u8 = "8 word"
type_synonym u16 = "16 word"
type_synonym u32 = "32 word"
type_synonym u64 = "64 word"

definition INT_MAX :: nat where
  "INT_MAX = 2147483647"

named_theorems frame_simps "fields that an operation leaves alone"

section \<open>Words\<close>

lemma unat_of_nat_small [simp]:
  "n < 2 ^ LENGTH('a::len) \<Longrightarrow> unat (of_nat n :: 'a word) = n"
  by (simp add: unat_of_nat take_bit_nat_eq_self)

lemma unat_add_no_overflow:
  "unat x + unat y < 2 ^ LENGTH('a::len) \<Longrightarrow> unat (x + y :: 'a word) = unat x + unat y"
  by (simp add: unat_word_ariths)

lemma unat_sub_le:
  "(y :: 'a::len word) \<le> x \<Longrightarrow> unat (x - y) = unat x - unat y"
  by (rule unat_sub)

lemma unat_diff_less:
  assumes "(n :: 'a::len word) \<le> m" "0 < n"
  shows "unat (m - n) < unat m"
proof -
  have "unat (m - n) = unat m - unat n" using assms(1) by (rule unat_sub)
  with assms show ?thesis by (simp add: word_less_nat_alt word_le_nat_alt)
qed

lemma unat_lt_len: "unat (w :: 'a::len word) < 2 ^ LENGTH('a)"
  by (rule unsigned_less)

lemma unat_ucast_up:
  assumes "LENGTH('a::len) \<le> LENGTH('b::len)"
  shows "unat (ucast (w :: 'a word) :: 'b word) = unat w"
proof -
  have "unat w < 2 ^ LENGTH('b)"
    using unat_lt_len [of w] assms by (meson less_le_trans one_le_numeral power_increasing)
  then show ?thesis by (simp add: unsigned_ucast_eq take_bit_nat_eq_self)
qed

lemma ucast_up_down:
  "LENGTH('a::len) \<le> LENGTH('b::len) \<Longrightarrow> ucast (ucast (w :: 'a word) :: 'b word) = w"
  by (rule bit_word_eqI) (auto simp: bit_simps)

lemma unat_u8_less: "unat (b :: u8) < 256"
  using unat_lt_len [of b] by simp

lemma unat_u32_less: "unat (w :: u32) < 4294967296"
  using unat_lt_len [of w] by simp

lemma unat_u64_less: "unat (w :: u64) < 18446744073709551616"
  using unat_lt_len [of w] by simp

lemma unat_drop_bit: "unat (drop_bit n (w :: 'a::len word)) = unat w div 2 ^ n"
  by (metis drop_bit_eq_div unat_drop_bit_eq)

lemma unat_and_mask: "unat (w AND mask n :: 'a::len word) = unat w mod 2 ^ n"
  by (metis take_bit_eq_mask take_bit_eq_mod unsigned_take_bit_eq)

text \<open>Shifting in \<open>n\<close> low bits, as \<open>(r << n) | d\<close> does, is arithmetic when nothing is lost.\<close>

lemma unat_push_or:
  fixes r d :: "'a::len word"
  assumes "unat r * 2 ^ n + unat d < 2 ^ LENGTH('a)" "unat d < 2 ^ n"
  shows "unat (push_bit n r OR d) = unat r * 2 ^ n + unat d"
proof -
  have "push_bit n r AND d = 0"
  proof (rule bit_word_eqI)
    fix m assume "m < LENGTH('a)"
    have "\<not> bit d m" if "n \<le> m"
    proof -
      have "unat d < 2 ^ m" using assms(2) that by (meson less_le_trans one_le_numeral power_increasing)
      then have "unat (drop_bit m d) = 0" by (simp add: unat_drop_bit)
      then show ?thesis by (simp add: unat_eq_zero bit_iff_odd_drop_bit)
    qed
    then show "bit (push_bit n r AND d) m = bit (0 :: 'a word) m" by (auto simp: bit_simps)
  qed
  then have "push_bit n r OR d = r * 2 ^ n + d"
    by (simp add: disjunctive_add_eq_or [symmetric] push_bit_eq_mult)
  moreover have "unat (r * 2 ^ n + d) = unat r * 2 ^ n + unat d"
  proof (cases "n < LENGTH('a)")
    case True
    have "unat (of_nat (2 ^ n) :: 'a word) = 2 ^ n" using True by (intro unat_of_nat_small) simp
    then have p: "unat (2 ^ n :: 'a word) = 2 ^ n" by (simp only: of_nat_power of_nat_numeral)
    have "unat (r * 2 ^ n) = unat r * 2 ^ n"
      using assms(1) by (simp only: unat_word_ariths p) simp
    then show ?thesis using assms(1) by (simp only: unat_add_no_overflow)
  next
    case False
    have "unat r = 0"
    proof (rule ccontr)
      assume "unat r \<noteq> 0"
      then have "2 ^ n \<le> unat r * 2 ^ n" by simp
      moreover have "(2 :: nat) ^ LENGTH('a) \<le> 2 ^ n" using False by (simp add: power_increasing)
      ultimately show False using assms(1) by linarith
    qed
    then have "r = 0" by (simp add: unat_eq_zero)
    then show ?thesis by simp
  qed
  ultimately show ?thesis by simp
qed

section \<open>Big-endian byte strings\<close>

fun be_val :: "u8 list \<Rightarrow> nat" where
  "be_val [] = 0"
| "be_val (b # bs) = unat b * 256 ^ length bs + be_val bs"

fun be_bytes :: "nat \<Rightarrow> nat \<Rightarrow> u8 list" where
  "be_bytes 0 n = []"
| "be_bytes (Suc k) n = of_nat (n div 256 ^ k) # be_bytes k n"

lemma length_be_bytes [simp]: "length (be_bytes k n) = k"
  by (induction k) simp_all

lemma be_val_append: "be_val (xs @ ys) = be_val xs * 256 ^ length ys + be_val ys"
  by (induction xs) (simp_all add: algebra_simps power_add)

lemma be_val_less: "be_val bs < 256 ^ length bs"
proof (induction bs)
  case (Cons b bs)
  let ?P = "(256 :: nat) ^ length bs"
  have "unat b + 1 \<le> 256" using unat_lt_len [of b] by simp
  then have "(unat b + 1) * ?P \<le> 256 * ?P" by (rule mult_le_mono1)
  then have "unat b * ?P + ?P \<le> 256 * ?P" by (simp only: add_mult_distrib nat_mult_1)
  with Cons have "unat b * ?P + be_val bs < 256 * ?P" by linarith
  then show ?case by simp
qed simp

lemma unat_of_nat_u8: "unat (of_nat n :: u8) = n mod 256"
  by (simp add: unat_of_nat take_bit_eq_mod)

lemma be_val_be_bytes: "be_val (be_bytes k n) = n mod 256 ^ k"
proof (induction k)
  case (Suc k)
  have "n mod (256 ^ k * 256) = 256 ^ k * (n div 256 ^ k mod 256) + n mod 256 ^ k"
    by (rule mod_mult2_eq)
  then show ?case using Suc by (simp add: unat_of_nat_u8 mult.commute)
qed simp

lemma be_bytes_add: "j \<le> k \<Longrightarrow> be_bytes j (x * 256 ^ k + n) = be_bytes j n"
proof (induction j)
  case (Suc j)
  define d where "d = k - Suc j"
  have "k = j + Suc d" using Suc.prems by (simp add: d_def)
  then have "x * 256 ^ k + n = n + x * 256 ^ d * 256 * 256 ^ j"
    by (simp add: power_add algebra_simps)
  then have "(x * 256 ^ k + n) div 256 ^ j = x * 256 ^ d * 256 + n div 256 ^ j"
    by (simp only: div_mult_self1 [of "256 ^ j"]) simp
  then have "(of_nat ((x * 256 ^ k + n) div 256 ^ j) :: u8) = of_nat (n div 256 ^ j)"
    by (simp add: word_unat_eq_iff unat_of_nat_u8 del: of_nat_add of_nat_mult)
  then show ?case using Suc by simp
qed simp

lemma be_bytes_be_val: "be_bytes (length bs) (be_val bs) = bs"
proof (induction bs)
  case (Cons b bs)
  then show ?case using be_val_less [of bs] by (simp add: be_bytes_add)
qed simp

lemma be_bytes_split: "be_bytes (j + k) n = be_bytes j (n div 256 ^ k) @ be_bytes k n"
  by (induction j) (simp_all add: power_add div_mult2_eq [symmetric] mult.commute)

lemma be_bytes_last: "be_bytes (Suc k) n = be_bytes k (n div 256) @ [of_nat n]"
  using be_bytes_split [of k 1 n] by simp

lemma be_val_snoc: "be_val (xs @ [b]) = be_val xs * 256 + unat b"
  by (simp add: be_val_append)

section \<open>The top bit and the low seven bits of a byte\<close>

lemma low7_u8: "(0x7f :: u8) = mask 7" "(0x7f :: u32) = mask 7" "(0x7f :: u64) = mask 7"
  by (simp_all add: mask_numeral)

lemma bit_128_int: "bit (128 :: int) n \<longleftrightarrow> n = 7"
proof -
  have "(128 :: int) = 2 ^ 7" by simp
  then show ?thesis by (simp only: bit_exp_iff) auto
qed

lemma top_bit_iff: "(b :: u8) AND 0x80 \<noteq> 0 \<longleftrightarrow> bit b 7"
proof
  assume "b AND 0x80 \<noteq> 0"
  then obtain n where "bit (b AND 0x80) n" using bit_eqI [of "b AND 0x80" 0] by auto
  then show "bit b 7" by (auto simp: bit_simps bit_128_int)
next
  assume "bit b 7"
  then have "bit (b AND 0x80) 7" by (simp add: bit_simps bit_128_int)
  then show "b AND 0x80 \<noteq> 0" by auto
qed

lemma unat_low7: "unat ((b :: u8) AND 0x7f) = unat b mod 128"
  unfolding low7_u8 using unat_and_mask [of b 7] by simp

lemma top_bit_unat: "bit (b :: u8) 7 \<longleftrightarrow> 128 \<le> unat b"
proof -
  have "bit b 7 \<longleftrightarrow> bit (unat b) 7" by (simp add: bit_unsigned_iff)
  also have "\<dots> \<longleftrightarrow> odd (unat b div 2 ^ 7)" by (rule bit_iff_odd)
  also have "\<dots> \<longleftrightarrow> 128 \<le> unat b"
  proof (cases "unat b < 128")
    case True
    then show ?thesis by simp
  next
    case False
    then have "unat b div 2 ^ 7 = 1" using unat_lt_len [of b] by (simp add: div_nat_eqI)
    then show ?thesis using False by simp
  qed
  finally show ?thesis .
qed

lemma no_top_bit:
  assumes "\<not> bit (b :: u8) 7"
  shows "b AND 0x7f = b"
  unfolding low7_u8
proof (rule bit_word_eqI)
  fix n :: nat assume "n < LENGTH(8)"
  then consider "n < 7" | "n = 7" by fastforce
  then show "bit (b AND mask 7) n = bit b n"
    using assms by cases (simp_all add: bit_and_iff bit_mask_iff)
qed

lemma byte_continues: "(b :: u8) AND 0x80 \<noteq> 0 \<longleftrightarrow> 128 \<le> unat b"
  by (simp only: top_bit_iff top_bit_unat)

section \<open>Lists\<close>

lemma map_nth_upt_take:
  "n \<le> length xs \<Longrightarrow> map (\<lambda>i. xs ! i) [0..<n] = take n xs"
  by (simp add: list_eq_iff_nth_eq)

end
