(* ===== verification/PbOstream.thy ===== *)
theory PbOstream
  imports Prelude
begin

text \<open>
  nanopb, the output side: \<open>pb_ostream_t\<close>, the memory buffer behind \<open>buf_write\<close>, and the
  primitive encoders of \<open>nanopb/pb_encode.c\<close> (varint, zigzag, fixed width, tag, string).
  The build defines \<open>PB_FIELD_32BIT\<close> and \<open>PB_ENABLE_MALLOC\<close> and neither
  \<open>PB_BUFFER_ONLY\<close>, \<open>PB_NO_ERRMSG\<close> nor \<open>PB_WITHOUT_64BIT\<close>; \<open>size_t\<close> is 64 bits wide.
  A function that returns \<open>bool\<close> and updates \<open>*stream\<close> returns the pair of both.
\<close>

unbundle bit_operations_syntax

section \<open>Streams and the memory buffer\<close>

text \<open>
  \<open>callback\<close> is a nullable function pointer that gets the bytes and their count and updates
  \<open>state\<close>; by the rules of \<open>pb_encode.h\<close> it uses no other field of the stream.
\<close>

record 's pb_ostream =
  os_callback :: "('s \<Rightarrow> u8 list \<Rightarrow> u64 \<Rightarrow> bool \<times> 's) option"
  os_state :: "'s"
  os_max_size :: u64
  os_bytes_written :: u64
  os_errmsg :: "string option"

text \<open>\<open>PB_SET_ERROR\<close>: the first message is kept.\<close>

definition pb_set_error :: "string \<Rightarrow> string option \<Rightarrow> string option" where
  "pb_set_error msg old = (case old of None \<Rightarrow> Some msg | Some m \<Rightarrow> Some m)"

definition os_return_error :: "string \<Rightarrow> 's pb_ostream \<Rightarrow> bool \<times> 's pb_ostream" where
  "os_return_error msg s = (False, s\<lparr>os_errmsg := pb_set_error msg (os_errmsg s)\<rparr>)"

text \<open>The state of a buffer stream: the memory and the write pointer \<open>stream->state\<close>.\<close>

record obuf =
  ob_mem :: "nat \<Rightarrow> u8"
  ob_dest :: nat

function copy_bytes :: "(nat \<Rightarrow> u8) \<Rightarrow> nat \<Rightarrow> u8 list \<Rightarrow> nat \<Rightarrow> nat \<Rightarrow> (nat \<Rightarrow> u8)" where
  "copy_bytes mem dest buf i count =
     (if i < count then copy_bytes (mem(dest + i := buf ! i)) dest buf (Suc i) count else mem)"
  by pat_completeness auto
termination
  by (relation "measure (\<lambda>(mem, dest, buf, i, count). count - i)") auto

definition buf_write :: "obuf \<Rightarrow> u8 list \<Rightarrow> u64 \<Rightarrow> bool \<times> obuf" where
  "buf_write st buf count =
     (let dest = ob_dest st;
          st1 = st\<lparr>ob_dest := dest + unat count\<rparr>
      in (True, st1\<lparr>ob_mem := copy_bytes (ob_mem st1) dest buf 0 (unat count)\<rparr>))"

definition pb_ostream_from_buffer :: "(nat \<Rightarrow> u8) \<Rightarrow> nat \<Rightarrow> u64 \<Rightarrow> obuf pb_ostream" where
  "pb_ostream_from_buffer mem buf bufsize =
     \<lparr>os_callback = Some buf_write, os_state = \<lparr>ob_mem = mem, ob_dest = buf\<rparr>,
      os_max_size = bufsize, os_bytes_written = 0, os_errmsg = None\<rparr>"

text \<open>\<open>PB_OSTREAM_SIZING\<close>: no callback, all fields zero; \<open>state\<close> is never used.\<close>

definition pb_ostream_sizing :: "'s \<Rightarrow> 's pb_ostream" where
  "pb_ostream_sizing st =
     \<lparr>os_callback = None, os_state = st, os_max_size = 0, os_bytes_written = 0,
      os_errmsg = None\<rparr>"

definition pb_write :: "'s pb_ostream \<Rightarrow> u8 list \<Rightarrow> u64 \<Rightarrow> bool \<times> 's pb_ostream" where
  "pb_write s buf count =
     (case os_callback s of
        None \<Rightarrow> (True, s\<lparr>os_bytes_written := os_bytes_written s + count\<rparr>)
      | Some callback \<Rightarrow>
          if os_bytes_written s + count > os_max_size s then os_return_error ''stream full'' s
          else (case callback (os_state s) buf count of (ok, st) \<Rightarrow>
            let s1 = s\<lparr>os_state := st\<rparr> in
            if \<not> ok then os_return_error ''io error'' s1
            else (True, s1\<lparr>os_bytes_written := os_bytes_written s1 + count\<rparr>)))"

section \<open>Primitive encoders\<close>

text \<open>
  The loop \<open>while (value)\<close> of \<open>pb_encode_varint\<close>: the bytes it stores in \<open>buffer[0]\<close>,
  \<open>buffer[1]\<close>, and so on.
\<close>

function varint_loop :: "u64 \<Rightarrow> u8 list" where
  "varint_loop value =
     (if value = 0 then []
      else (ucast (value AND 0x7F) OR 0x80) # varint_loop (drop_bit 7 value))"
  by pat_completeness auto
termination
  by (relation "measure unat") (auto simp: unat_drop_bit unat_gt_0)

declare varint_loop.simps [simp del]

definition pb_encode_varint :: "'s pb_ostream \<Rightarrow> u64 \<Rightarrow> bool \<times> 's pb_ostream" where
  "pb_encode_varint s value =
     (if value \<le> 0x7F then pb_write s [ucast value] 1
      else
        let buffer = varint_loop value;
            i = length buffer;
            buffer' = buffer[i - 1 := buffer ! (i - 1) AND 0x7F]
        in pb_write s buffer' (of_nat i))"

definition pb_encode_svarint :: "'s pb_ostream \<Rightarrow> u64 \<Rightarrow> bool \<times> 's pb_ostream" where
  "pb_encode_svarint s value =
     (let zigzagged = (if sint value < 0 then NOT (push_bit 1 value) else push_bit 1 value)
      in pb_encode_varint s zigzagged)"

definition pb_encode_fixed32 :: "'s pb_ostream \<Rightarrow> u32 \<Rightarrow> bool \<times> 's pb_ostream" where
  "pb_encode_fixed32 s val =
     pb_write s
       [ucast (val AND 0xFF), ucast (drop_bit 8 val AND 0xFF),
        ucast (drop_bit 16 val AND 0xFF), ucast (drop_bit 24 val AND 0xFF)] 4"

definition pb_encode_fixed64 :: "'s pb_ostream \<Rightarrow> u64 \<Rightarrow> bool \<times> 's pb_ostream" where
  "pb_encode_fixed64 s val =
     pb_write s
       [ucast (val AND 0xFF), ucast (drop_bit 8 val AND 0xFF),
        ucast (drop_bit 16 val AND 0xFF), ucast (drop_bit 24 val AND 0xFF),
        ucast (drop_bit 32 val AND 0xFF), ucast (drop_bit 40 val AND 0xFF),
        ucast (drop_bit 48 val AND 0xFF), ucast (drop_bit 56 val AND 0xFF)] 8"

text \<open>
  \<open>pb_wire_type_t\<close> is a C enum: any value of the underlying integer may turn up in a
  variable of that type (the decoder casts three bits to it), so it is a number here, with the
  enum's names for the four defined values.
\<close>

type_synonym pb_wire_type = u32

abbreviation PB_WT_VARINT :: pb_wire_type where "PB_WT_VARINT \<equiv> 0"
abbreviation PB_WT_64BIT :: pb_wire_type where "PB_WT_64BIT \<equiv> 1"
abbreviation PB_WT_STRING :: pb_wire_type where "PB_WT_STRING \<equiv> 2"
abbreviation PB_WT_32BIT :: pb_wire_type where "PB_WT_32BIT \<equiv> 5"

definition pb_encode_tag ::
    "'s pb_ostream \<Rightarrow> pb_wire_type \<Rightarrow> u32 \<Rightarrow> bool \<times> 's pb_ostream" where
  "pb_encode_tag s wiretype field_number =
     (let tag = push_bit 3 (ucast field_number :: u64) OR ucast wiretype
      in pb_encode_varint s tag)"

definition pb_encode_string ::
    "'s pb_ostream \<Rightarrow> u8 list \<Rightarrow> u64 \<Rightarrow> bool \<times> 's pb_ostream" where
  "pb_encode_string s buffer sz =
     (case pb_encode_varint s sz of (ok, s1) \<Rightarrow>
        if \<not> ok then (False, s1) else pb_write s1 buffer sz)"

section \<open>Varint bytes\<close>

text \<open>The bytes that \<open>pb_encode_varint\<close> hands to \<open>pb_write\<close>.\<close>

definition varint_bytes :: "u64 \<Rightarrow> u8 list" where
  "varint_bytes value =
     (if value \<le> 0x7F then [ucast value]
      else let buffer = varint_loop value; i = length buffer
           in buffer[i - 1 := buffer ! (i - 1) AND 0x7F])"

lemma varint_loop_0 [simp]: "varint_loop 0 = []"
  by (subst varint_loop.simps) simp

lemma varint_loop_step:
  "v \<noteq> 0 \<Longrightarrow> varint_loop v = (ucast (v AND 0x7F) OR 0x80) # varint_loop (drop_bit 7 v)"
  by (subst varint_loop.simps) simp

lemma drop_bit_7_eq_0: "drop_bit 7 (v :: u64) = 0 \<longleftrightarrow> v \<le> 0x7F"
proof -
  have "drop_bit 7 v = 0 \<longleftrightarrow> unat (drop_bit 7 v) = 0"
    by (simp add: unat_eq_zero)
  also have "\<dots> \<longleftrightarrow> unat v div 128 = 0"
    by (simp only: unat_drop_bit power_numeral) simp
  also have "\<dots> \<longleftrightarrow> v \<le> 0x7F" by (auto simp add: word_le_nat_alt)
  finally show ?thesis .
qed

lemma varint_loop_small:
  assumes "v \<noteq> 0" "v \<le> 0x7F"
  shows "varint_loop v = [ucast (v AND 0x7F) OR 0x80]"
  using assms by (simp add: varint_loop_step drop_bit_7_eq_0 [THEN iffD2])

lemma low7_masks:
  "(0x7F :: u64) = mask 7" "(0x7F :: u8) = mask 7" "(0x7F :: u32) = mask 7"
  by (simp_all add: mask_numeral)

lemma bit_u8_128: "bit (0x80 :: u8) n \<longleftrightarrow> n = 7"
proof -
  have "(0x80 :: u8) = 2 ^ 7" by simp
  then show ?thesis by (simp only: bit_exp_iff) auto
qed

lemma ucast_low7: "(ucast (v AND 0x7F :: u64) OR 0x80) AND 0x7F = (ucast (v AND 0x7F) :: u8)"
  unfolding low7_masks by (auto intro!: bit_word_eqI simp: bit_simps bit_128_int)

lemma and_low7_id: "v \<le> 0x7F \<Longrightarrow> v AND 0x7F = (v :: u64)"
  by (metis drop_bit_7_eq_0 low7_masks(1) take_bit_eq_mask take_bit_eq_self_iff_drop_bit_eq_0)

lemma varint_bytes_small: "v \<le> 0x7F \<Longrightarrow> varint_bytes v = [ucast v]"
  by (simp add: varint_bytes_def)

lemma varint_bytes_step:
  assumes "\<not> v \<le> 0x7F"
  shows "varint_bytes v = (ucast (v AND 0x7F) OR 0x80) # varint_bytes (drop_bit 7 v)"
proof -
  let ?w = "drop_bit 7 v"
  have nz: "v \<noteq> 0" "?w \<noteq> 0" using assms by (auto simp: drop_bit_7_eq_0)
  have loop: "varint_loop v = (ucast (v AND 0x7F) OR 0x80) # varint_loop ?w"
    by (rule varint_loop_step [OF nz(1)])
  show ?thesis
  proof (cases "?w \<le> 0x7F")
    case True
    then show ?thesis
      using assms ucast_low7 [of ?w]
      by (simp add: varint_bytes_def loop varint_loop_small [OF nz(2)] and_low7_id)
  next
    case False
    have "varint_loop ?w \<noteq> []" by (simp add: varint_loop_step [OF nz(2)])
    then obtain m where "length (varint_loop ?w) = Suc m"
      by (cases "length (varint_loop ?w)") auto
    then show ?thesis using assms False
      by (simp add: varint_bytes_def loop Let_def)
  qed
qed

lemma varint_loop_length: "unat v < 128 ^ k \<Longrightarrow> length (varint_loop v) \<le> k"
proof (induction k arbitrary: v)
  case 0
  then show ?case by (simp add: unat_eq_zero)
next
  case (Suc k)
  have "unat (drop_bit 7 v) < 128 ^ k"
    using Suc.prems by (simp add: unat_drop_bit less_mult_imp_div_less mult.commute)
  from Suc.IH [OF this] show ?case
    by (cases "v = 0") (simp_all add: varint_loop_step)
qed

lemma varint_bytes_length_bounds: "0 < length (varint_bytes v) \<and> length (varint_bytes v) \<le> 10"
proof -
  have "unat v < 2 ^ 64" using unat_u64_less [of v] by simp
  then have "unat v < 128 ^ 10" by simp
  then have "length (varint_loop v) \<le> 10" by (rule varint_loop_length)
  moreover have "v \<noteq> 0 \<Longrightarrow> varint_loop v \<noteq> []" by (simp add: varint_loop_step)
  ultimately show ?thesis
    by (cases "v = 0") (simp_all add: varint_bytes_def Let_def)
qed

lemma pb_encode_varint_write:
  "pb_encode_varint s v = pb_write s (varint_bytes v) (of_nat (length (varint_bytes v)))"
  by (simp add: pb_encode_varint_def varint_bytes_def Let_def)

section \<open>Writing through a lawful callback\<close>

text \<open>
  The promise a client of \<open>pb_write\<close> relies on: in a good state, the callback takes all the
  bytes it is given and succeeds. \<open>out\<close> is what the sink has received so far.
\<close>

locale pb_sink =
  fixes cb :: "'s \<Rightarrow> u8 list \<Rightarrow> u64 \<Rightarrow> bool \<times> 's"
    and good :: "'s \<Rightarrow> bool"
    and out :: "'s \<Rightarrow> u8 list"
  assumes sink_takes: "good st \<Longrightarrow> unat n = length bs \<Longrightarrow>
    \<exists>st'. cb st bs n = (True, st') \<and> good st' \<and> out st' = out st @ bs"
begin

definition opened :: "'s pb_ostream \<Rightarrow> bool" where
  "opened s \<longleftrightarrow> os_callback s = Some cb \<and> good (os_state s)"

definition room :: "'s pb_ostream \<Rightarrow> nat \<Rightarrow> bool" where
  "room s n \<longleftrightarrow> unat (os_bytes_written s) + n \<le> unat (os_max_size s)"

definition emits :: "'s pb_ostream \<Rightarrow> u8 list \<Rightarrow> 's pb_ostream \<Rightarrow> bool" where
  "emits s bs s' \<longleftrightarrow> opened s' \<and> out (os_state s') = out (os_state s) @ bs \<and>
     unat (os_bytes_written s') = unat (os_bytes_written s) + length bs \<and>
     os_max_size s' = os_max_size s \<and> os_errmsg s' = os_errmsg s"

lemma emits_trans: "emits s as t \<Longrightarrow> emits t bs u \<Longrightarrow> emits s (as @ bs) u"
  by (simp add: emits_def)

lemma emits_room: "emits s as t \<Longrightarrow> room s (length as + n) \<Longrightarrow> room t n"
  by (simp add: emits_def room_def)

lemma emits_opened: "emits s as t \<Longrightarrow> opened t"
  by (simp add: emits_def)

lemma write_emits:
  assumes "opened s" "room s (length bs)" "unat n = length bs"
  shows "\<exists>s'. pb_write s bs n = (True, s') \<and> emits s bs s'"
proof -
  from assms(1,3) sink_takes obtain st' where
    st': "cb (os_state s) bs n = (True, st')" "good st'" "out st' = out (os_state s) @ bs"
    unfolding opened_def by blast
  have fits: "unat (os_bytes_written s) + unat n \<le> unat (os_max_size s)"
    using assms(2,3) by (simp add: room_def)
  then have sum: "unat (os_bytes_written s + n) = unat (os_bytes_written s) + unat n"
    using unat_u64_less [of "os_max_size s"] by (intro unat_add_no_overflow) simp
  with fits have "\<not> os_bytes_written s + n > os_max_size s"
    by (simp add: word_less_nat_alt)
  with st' sum assms(1,3) show ?thesis
    by (simp add: pb_write_def opened_def emits_def)
qed

lemma write_full:
  assumes "opened s" "\<not> room s (unat n)" "unat (os_bytes_written s) + unat n < 2 ^ 64"
  shows "pb_write s bs n = os_return_error ''stream full'' s"
proof -
  have "unat (os_bytes_written s + n) = unat (os_bytes_written s) + unat n"
    using assms(3) by (intro unat_add_no_overflow) simp
  with assms show ?thesis
    by (simp add: pb_write_def opened_def room_def word_less_nat_alt)
qed

lemma varint_emits:
  assumes "opened s" "room s (length (varint_bytes v))"
  shows "\<exists>s'. pb_encode_varint s v = (True, s') \<and> emits s (varint_bytes v) s'"
proof -
  have "length (varint_bytes v) < 2 ^ 64"
    using varint_bytes_length_bounds [of v] by simp
  then show ?thesis
    using write_emits [OF assms] by (simp add: pb_encode_varint_write)
qed

lemma string_emits:
  assumes "opened s" "room s (length (varint_bytes n) + length bs)" "unat n = length bs"
  shows "\<exists>s'. pb_encode_string s bs n = (True, s') \<and> emits s (varint_bytes n @ bs) s'"
proof -
  have "room s (length (varint_bytes n))" using assms(2) by (simp add: room_def)
  from varint_emits [OF assms(1) this] obtain t where
    t: "pb_encode_varint s n = (True, t)" "emits s (varint_bytes n) t" by blast
  from write_emits [OF emits_opened [OF t(2)] emits_room [OF t(2) assms(2)] assms(3)]
  obtain u where "pb_write t bs n = (True, u)" "emits t bs u" by blast
  with t show ?thesis by (auto simp: pb_encode_string_def intro: emits_trans)
qed

end

section \<open>The memory buffer is a lawful sink\<close>

declare copy_bytes.simps [simp del]

lemma copy_bytes_nth:
  "copy_bytes mem dest buf i count a =
     (if dest + i \<le> a \<and> a < dest + count then buf ! (a - dest) else mem a)"
proof (induction mem dest buf i count rule: copy_bytes.induct)
  case (1 mem dest buf i count)
  show ?case
  proof (cases "i < count")
    case True
    show ?thesis
      by (subst copy_bytes.simps, simp only: True if_True "1.IH" [OF True]) (use True in auto)
  next
    case False
    then show ?thesis by (auto simp: copy_bytes.simps [of mem dest buf i count])
  qed
qed

lemma copy_bytes_range:
  "map (copy_bytes mem dest buf 0 (length buf)) [dest..<dest + length buf] = buf"
  by (rule nth_equalityI) (simp_all add: copy_bytes_nth)

definition ob_out :: "nat \<Rightarrow> obuf \<Rightarrow> u8 list" where
  "ob_out base st = map (ob_mem st) [base..<ob_dest st]"

definition ob_good :: "nat \<Rightarrow> obuf \<Rightarrow> bool" where
  "ob_good base st \<longleftrightarrow> base \<le> ob_dest st"

lemma buf_write_takes:
  assumes "ob_good base st" "unat n = length bs"
  shows "\<exists>st'. buf_write st bs n = (True, st') \<and> ob_good base st' \<and>
           ob_out base st' = ob_out base st @ bs"
proof -
  let ?d = "ob_dest st" and ?m = "copy_bytes (ob_mem st) (ob_dest st) bs 0 (length bs)"
  have "[base..<?d + length bs] = [base..<?d] @ [?d..<?d + length bs]"
    using assms(1) by (intro upt_add_eq_append) (simp add: ob_good_def)
  then have "map ?m [base..<?d + length bs] = map ?m [base..<?d] @ bs"
    by (simp only: map_append copy_bytes_range)
  also have "map ?m [base..<?d] = map (ob_mem st) [base..<?d]"
    by (simp add: copy_bytes_nth)
  finally have "ob_out base \<lparr>ob_mem = ?m, ob_dest = ?d + length bs\<rparr> = ob_out base st @ bs"
    by (simp only: ob_out_def obuf.simps)
  moreover have "buf_write st bs n = (True, \<lparr>ob_mem = ?m, ob_dest = ?d + length bs\<rparr>)"
    using assms(2) by (simp add: buf_write_def Let_def)
  ultimately show ?thesis
    using assms(1) by (simp add: ob_good_def)
qed

interpretation buf_sink: pb_sink buf_write "ob_good base" "ob_out base" for base
  by unfold_locales (rule buf_write_takes)

end
