(* ===== verification/PbIstream.thy ===== *)
theory PbIstream
  imports PbOstream
begin

text \<open>
  nanopb, the input side: \<open>pb_istream_t\<close>, the memory buffer behind \<open>buf_read\<close>, and the
  primitive decoders and skippers of \<open>nanopb/pb_decode.c\<close>. The result of a function that
  returns \<open>bool\<close>, fills a \<open>*dest\<close> and updates \<open>*stream\<close> is the triple of the three.
\<close>

unbundle bit_operations_syntax

section \<open>Streams and the memory buffer\<close>

text \<open>
  \<open>callback(stream, buf, count)\<close> gets whether \<open>buf\<close> is non-null and the count, and gives the
  return value, the bytes stored in \<open>buf\<close>, and the new \<open>state\<close>. \<open>is_buf_read\<close> says whether the
  pointer is \<open>&buf_read\<close>, which \<open>pb_read\<close> asks.
\<close>

record 's pb_istream =
  is_callback :: "'s \<Rightarrow> bool \<Rightarrow> u64 \<Rightarrow> bool \<times> u8 list \<times> 's"
  is_buf_read :: bool
  is_state :: "'s"
  is_bytes_left :: u64
  is_errmsg :: "string option"

definition is_set_error :: "string \<Rightarrow> 's pb_istream \<Rightarrow> 's pb_istream" where
  "is_set_error msg s = s\<lparr>is_errmsg := pb_set_error msg (is_errmsg s)\<rparr>"

record ibuf =
  ib_mem :: "nat \<Rightarrow> u8"
  ib_src :: nat

definition buf_read :: "ibuf \<Rightarrow> bool \<Rightarrow> u64 \<Rightarrow> bool \<times> u8 list \<times> ibuf" where
  "buf_read st buf count =
     (let source = ib_src st;
          st1 = st\<lparr>ib_src := ib_src st + unat count\<rparr>
      in (True, (if buf then map (\<lambda>i. ib_mem st (source + i)) [0..<unat count] else []), st1))"

definition pb_istream_from_buffer :: "(nat \<Rightarrow> u8) \<Rightarrow> nat \<Rightarrow> u64 \<Rightarrow> ibuf pb_istream" where
  "pb_istream_from_buffer mem buf bufsize =
     \<lparr>is_callback = buf_read, is_buf_read = True,
      is_state = \<lparr>ib_mem = mem, ib_src = buf\<rparr>, is_bytes_left = bufsize, is_errmsg = None\<rparr>"

text \<open>The part of \<open>pb_read\<close> after the branch for a null \<open>buf\<close>.\<close>

definition pb_read_call :: "'s pb_istream \<Rightarrow> bool \<Rightarrow> u64 \<Rightarrow> bool \<times> u8 list \<times> 's pb_istream" where
  "pb_read_call s buf count =
     (if is_bytes_left s < count then (False, [], is_set_error ''end-of-stream'' s)
      else (case is_callback s (is_state s) buf count of (ok, bytes, st) \<Rightarrow>
        let s1 = s\<lparr>is_state := st\<rparr> in
        if \<not> ok then (False, bytes, is_set_error ''io error'' s1)
        else (True, bytes, s1\<lparr>is_bytes_left := is_bytes_left s1 - count\<rparr>)))"

text \<open>
  The branch for a null \<open>buf\<close> and a user callback: the bytes go to \<open>tmp[16]\<close>, sixteen at a
  time. The recursive calls of the C pass \<open>tmp\<close>, so they are the direct case.
\<close>

function pb_read_skip :: "'s pb_istream \<Rightarrow> u64 \<Rightarrow> bool \<times> u8 list \<times> 's pb_istream" where
  "pb_read_skip s count =
     (if count > 16 then
        (case pb_read_call s True 16 of (ok, _, s1) \<Rightarrow>
           if \<not> ok then (False, [], s1) else pb_read_skip s1 (count - 16))
      else (case pb_read_call s True count of (ok, _, s1) \<Rightarrow> (ok, [], s1)))"
  by pat_completeness auto
termination
  by (relation "measure (\<lambda>(s, count). unat count)")
    (auto intro!: unat_diff_less)

declare pb_read_skip.simps [simp del]

definition pb_read :: "'s pb_istream \<Rightarrow> bool \<Rightarrow> u64 \<Rightarrow> bool \<times> u8 list \<times> 's pb_istream" where
  "pb_read s buf count =
     (if \<not> buf \<and> \<not> is_buf_read s then pb_read_skip s count else pb_read_call s buf count)"

text \<open>One byte into the caller's non-null \<open>buf\<close>.\<close>

definition pb_readbyte :: "'s pb_istream \<Rightarrow> bool \<times> u8 \<times> 's pb_istream" where
  "pb_readbyte s =
     (if is_bytes_left s = 0 then (False, 0, is_set_error ''end-of-stream'' s)
      else (case is_callback s (is_state s) True 1 of (ok, bytes, st) \<Rightarrow>
        let s1 = s\<lparr>is_state := st\<rparr> in
        if \<not> ok then (False, 0, is_set_error ''io error'' s1)
        else (True, bytes ! 0, s1\<lparr>is_bytes_left := is_bytes_left s1 - 1\<rparr>)))"

lemma pb_readbyte_dec:
  "pb_readbyte s = (True, b, s1) \<Longrightarrow> unat (is_bytes_left s1) < unat (is_bytes_left s)"
  by (auto simp: pb_readbyte_def Let_def unat_minus_one unat_gt_0 split: if_splits prod.splits)

lemma pb_read_call_dec:
  "pb_read_call s buf n = (True, bs, s1) \<Longrightarrow>
   unat (is_bytes_left s1) = unat (is_bytes_left s) - unat n \<and> n \<le> is_bytes_left s"
  by (auto simp: pb_read_call_def Let_def unat_sub split: if_splits prod.splits)

section \<open>Primitive decoders\<close>

text \<open>
  The \<open>do ... while (byte & 0x80)\<close> loop of \<open>pb_decode_varint32_eof\<close>. \<open>bitpos\<close> is a
  \<open>uint_fast8_t\<close>, eight bits wide on the target. The result is the status, \<open>result\<close>,
  \<open>bitpos\<close>, the last \<open>byte\<close> and the stream.
\<close>

function varint32_loop ::
    "'s pb_istream \<Rightarrow> u32 \<Rightarrow> u8 \<Rightarrow> bool \<times> u32 \<times> u8 \<times> u8 \<times> 's pb_istream" where
  "varint32_loop s result bitpos =
     (case pb_readbyte s of (ok, byte, s1) \<Rightarrow>
        if \<not> ok then (False, result, bitpos, byte, s1)
        else if bitpos \<ge> 32 \<and>
            (let sign_extension = (if bitpos < 63 then 0xFF else 0x01)
             in byte AND 0x7F \<noteq> 0 \<and> (drop_bit 31 result = 0 \<or> byte \<noteq> sign_extension))
          then (False, result, bitpos, byte, is_set_error ''varint overflow'' s1)
        else
          let result' = (if bitpos \<ge> 32 then result
                         else result OR push_bit (unat bitpos) (ucast (byte AND 0x7F)));
              bitpos' = bitpos + 7
          in if byte AND 0x80 \<noteq> 0 then varint32_loop s1 result' bitpos'
             else (True, result', bitpos', byte, s1))"
  by pat_completeness auto
termination
  by (relation "measure (\<lambda>(s, r, b). unat (is_bytes_left s))")
    (auto dest: sym [THEN pb_readbyte_dec])

declare varint32_loop.simps [simp del]

text \<open>The second component of the result says whether \<open>*eof = true\<close> is executed.\<close>

definition pb_decode_varint32_eof ::
    "'s pb_istream \<Rightarrow> bool \<times> bool \<times> u32 \<times> 's pb_istream" where
  "pb_decode_varint32_eof s =
     (case pb_readbyte s of (ok, byte, s1) \<Rightarrow>
        if \<not> ok then (False, is_bytes_left s1 = 0, 0, s1)
        else if byte AND 0x80 = 0 then (True, False, ucast byte, s1)
        else (case varint32_loop s1 (ucast (byte AND 0x7F)) 7 of (ok, result, bitpos, byte, s2) \<Rightarrow>
          if \<not> ok then (False, False, 0, s2)
          else if bitpos = 35 \<and> byte AND 0x70 \<noteq> 0
            then (False, False, 0, is_set_error ''varint overflow'' s2)
          else (True, False, result, s2)))"

definition pb_decode_varint32 :: "'s pb_istream \<Rightarrow> bool \<times> u32 \<times> 's pb_istream" where
  "pb_decode_varint32 s = (case pb_decode_varint32_eof s of (ok, _, v, s1) \<Rightarrow> (ok, v, s1))"

function varint64_loop :: "'s pb_istream \<Rightarrow> u64 \<Rightarrow> u8 \<Rightarrow> bool \<times> u64 \<times> 's pb_istream" where
  "varint64_loop s result bitpos =
     (if bitpos \<ge> 64 then (False, result, is_set_error ''varint overflow'' s)
      else (case pb_readbyte s of (ok, byte, s1) \<Rightarrow>
        if \<not> ok then (False, result, s1)
        else
          let result' = result OR push_bit (unat bitpos) (ucast (byte AND 0x7F));
              bitpos' = bitpos + 7
          in if byte AND 0x80 \<noteq> 0 then varint64_loop s1 result' bitpos'
             else (True, result', s1)))"
  by pat_completeness auto
termination
  by (relation "measure (\<lambda>(s, r, b). unat (is_bytes_left s))")
    (auto dest: sym [THEN pb_readbyte_dec])

declare varint64_loop.simps [simp del]

definition pb_decode_varint :: "'s pb_istream \<Rightarrow> bool \<times> u64 \<times> 's pb_istream" where
  "pb_decode_varint s = varint64_loop s 0 0"

function pb_skip_varint :: "'s pb_istream \<Rightarrow> bool \<times> 's pb_istream" where
  "pb_skip_varint s =
     (case pb_read s True 1 of (ok, bytes, s1) \<Rightarrow>
        if \<not> ok then (False, s1)
        else if bytes ! 0 AND 0x80 \<noteq> 0 then pb_skip_varint s1
        else (True, s1))"
  by pat_completeness auto
termination
  by (relation "measure (\<lambda>s. unat (is_bytes_left s))")
    (auto simp: pb_read_def word_le_nat_alt dest!: sym [THEN pb_read_call_dec])

declare pb_skip_varint.simps [simp del]

definition pb_skip_string :: "'s pb_istream \<Rightarrow> bool \<times> 's pb_istream" where
  "pb_skip_string s =
     (case pb_decode_varint32 s of (ok, len, s1) \<Rightarrow>
        if \<not> ok then (False, s1)
        else (case pb_read s1 False (ucast len) of (ok, _, s2) \<Rightarrow> (ok, s2)))"

text \<open>The result: status, \<open>*wire_type\<close>, \<open>*tag\<close>, \<open>*eof\<close> and the stream.\<close>

definition pb_decode_tag ::
    "'s pb_istream \<Rightarrow> bool \<times> pb_wire_type \<times> u32 \<times> bool \<times> 's pb_istream" where
  "pb_decode_tag s =
     (case pb_decode_varint32_eof s of (ok, eof, temp, s1) \<Rightarrow>
        if \<not> ok then (False, 0, 0, eof, s1)
        else if temp = 0 then (False, 0, 0, True, s1)
        else (True, temp AND 7, drop_bit 3 temp, eof, s1))"

definition pb_skip_field :: "'s pb_istream \<Rightarrow> pb_wire_type \<Rightarrow> bool \<times> 's pb_istream" where
  "pb_skip_field s wire_type =
     (if wire_type = PB_WT_VARINT then pb_skip_varint s
      else if wire_type = PB_WT_64BIT then
        (case pb_read s False 8 of (ok, _, s1) \<Rightarrow> (ok, s1))
      else if wire_type = PB_WT_STRING then pb_skip_string s
      else if wire_type = PB_WT_32BIT then
        (case pb_read s False 4 of (ok, _, s1) \<Rightarrow> (ok, s1))
      else (False, is_set_error ''invalid wire_type'' s))"


text \<open>
  \<open>pb_make_string_substream\<close>: the status, the substream and the updated parent.
  \<open>pb_close_string_substream\<close> takes the parent and the substream.
\<close>

definition pb_make_string_substream ::
    "'s pb_istream \<Rightarrow> bool \<times> 's pb_istream \<times> 's pb_istream" where
  "pb_make_string_substream s =
     (case pb_decode_varint32 s of (ok, sz, s1) \<Rightarrow>
        if \<not> ok then (False, s1, s1)
        else
          let substream = s1 in
          if is_bytes_left substream < ucast sz
            then (False, substream, is_set_error ''parent stream too short'' s1)
          else (True, substream\<lparr>is_bytes_left := ucast sz\<rparr>,
                s1\<lparr>is_bytes_left := is_bytes_left s1 - ucast sz\<rparr>))"

definition pb_close_string_substream ::
    "'s pb_istream \<Rightarrow> 's pb_istream \<Rightarrow> bool \<times> 's pb_istream \<times> 's pb_istream" where
  "pb_close_string_substream s substream =
     (case (if is_bytes_left substream \<noteq> 0
            then (case pb_read substream False (is_bytes_left substream) of (ok, _, t) \<Rightarrow> (ok, t))
            else (True, substream)) of (ok, sub1) \<Rightarrow>
        if \<not> ok then (False, sub1, s)
        else (True, sub1, s\<lparr>is_state := is_state sub1, is_errmsg := is_errmsg sub1\<rparr>))"

text \<open>
  \<open>read_raw_value\<close>: the bytes it stores in \<open>buf\<close> and \<open>*size\<close>. The varint case reads a byte
  at a time as long as the continuation bit is set and \<open>*size\<close> stays within \<open>max_size\<close>.
\<close>

function raw_varint_loop ::
    "'s pb_istream \<Rightarrow> u64 \<Rightarrow> u64 \<Rightarrow> u8 list \<Rightarrow> bool \<times> u8 list \<times> u64 \<times> 's pb_istream" where
  "raw_varint_loop s max_size sz buf =
     (let sz' = sz + 1 in
      if sz' > max_size then (False, buf, sz', s)
      else (case pb_read s True 1 of (ok, bytes, s1) \<Rightarrow>
        if \<not> ok then (False, buf, sz', s1)
        else
          let buf' = buf @ [bytes ! 0] in
          if bytes ! 0 AND 0x80 \<noteq> 0 then raw_varint_loop s1 max_size sz' buf'
          else (True, buf', sz', s1)))"
  by pat_completeness auto
termination
  by (relation "measure (\<lambda>(s, m, sz, b). unat (is_bytes_left s))")
    (auto simp: pb_read_def word_le_nat_alt dest!: sym [THEN pb_read_call_dec])

declare raw_varint_loop.simps [simp del]

definition read_raw_value ::
    "'s pb_istream \<Rightarrow> pb_wire_type \<Rightarrow> u64 \<Rightarrow> bool \<times> u8 list \<times> u64 \<times> 's pb_istream" where
  "read_raw_value s wire_type max_size =
     (if wire_type = PB_WT_VARINT then raw_varint_loop s max_size 0 []
      else if wire_type = PB_WT_64BIT then
        (case pb_read s True 8 of (ok, bytes, s1) \<Rightarrow> (ok, bytes, 8, s1))
      else if wire_type = PB_WT_32BIT then
        (case pb_read s True 4 of (ok, bytes, s1) \<Rightarrow> (ok, bytes, 4, s1))
      else (False, [], max_size, is_set_error ''invalid wire_type'' s))"

section \<open>Zigzag and fixed-width decoders\<close>

definition pb_decode_svarint :: "'s pb_istream \<Rightarrow> bool \<times> u64 \<times> 's pb_istream" where
  "pb_decode_svarint s =
     (case pb_decode_varint s of (ok, value, s1) \<Rightarrow>
        if \<not> ok then (False, 0, s1)
        else if value AND 1 \<noteq> 0 then (True, NOT (drop_bit 1 value), s1)
        else (True, drop_bit 1 value, s1))"

definition pb_decode_fixed32 :: "'s pb_istream \<Rightarrow> bool \<times> u32 \<times> 's pb_istream" where
  "pb_decode_fixed32 s =
     (case pb_read s True 4 of (ok, bytes, s1) \<Rightarrow>
        if \<not> ok then (False, 0, s1)
        else (True,
          push_bit 0 (ucast (bytes ! 0)) OR push_bit 8 (ucast (bytes ! 1)) OR
          push_bit 16 (ucast (bytes ! 2)) OR push_bit 24 (ucast (bytes ! 3)), s1))"

definition pb_decode_fixed64 :: "'s pb_istream \<Rightarrow> bool \<times> u64 \<times> 's pb_istream" where
  "pb_decode_fixed64 s =
     (case pb_read s True 8 of (ok, bytes, s1) \<Rightarrow>
        if \<not> ok then (False, 0, s1)
        else (True,
          push_bit 0 (ucast (bytes ! 0)) OR push_bit 8 (ucast (bytes ! 1)) OR
          push_bit 16 (ucast (bytes ! 2)) OR push_bit 24 (ucast (bytes ! 3)) OR
          push_bit 32 (ucast (bytes ! 4)) OR push_bit 40 (ucast (bytes ! 5)) OR
          push_bit 48 (ucast (bytes ! 6)) OR push_bit 56 (ucast (bytes ! 7)), s1))"

section \<open>Reading through a lawful callback\<close>

text \<open>
  The promise a client of \<open>pb_read\<close> relies on: the callback delivers the next \<open>count\<close> bytes of
  an unbounded sequence (\<open>bytes_left\<close> is what bounds it) and moves on by \<open>count\<close>.
\<close>

locale pb_source =
  fixes cb :: "'s \<Rightarrow> bool \<Rightarrow> u64 \<Rightarrow> bool \<times> u8 list \<times> 's"
    and peek :: "'s \<Rightarrow> nat \<Rightarrow> u8"
  assumes source_gives: "\<exists>st'.
    cb st buf n = (True, if buf then map (peek st) [0..<unat n] else [], st') \<and>
    (\<forall>i. peek st' i = peek st (unat n + i))"
begin

definition content :: "'s pb_istream \<Rightarrow> u8 list" where
  "content s = map (peek (is_state s)) [0..<unat (is_bytes_left s)]"

definition reads :: "'s pb_istream \<Rightarrow> u8 list \<Rightarrow> 's pb_istream \<Rightarrow> bool" where
  "reads s bs s' \<longleftrightarrow> is_callback s' = cb \<and> content s = bs @ content s' \<and>
     is_buf_read s' = is_buf_read s \<and> is_errmsg s' = is_errmsg s \<and>
     (\<forall>i. peek (is_state s') i = peek (is_state s) (length bs + i))"

lemma length_content [simp]: "length (content s) = unat (is_bytes_left s)"
  by (simp add: content_def)

lemma reads_refl: "is_callback s = cb \<Longrightarrow> reads s [] s"
  by (simp add: reads_def)

lemma reads_trans: "reads s as t \<Longrightarrow> reads t bs u \<Longrightarrow> reads s (as @ bs) u"
  by (simp add: reads_def add.assoc)

lemma reads_callback: "reads s as t \<Longrightarrow> is_callback t = cb"
  by (simp add: reads_def)

lemma reads_content: "reads s as t \<Longrightarrow> content s = as @ bs \<Longrightarrow> content t = bs"
  by (simp add: reads_def)

lemma take_content:
  assumes "n \<le> unat (is_bytes_left s)" "\<forall>i. peek st' i = peek (is_state s) (n + i)"
  shows "content s = map (peek (is_state s)) [0..<n] @ map (peek st') [0..<unat (is_bytes_left s) - n]"
proof (rule nth_equalityI)
  fix i assume "i < length (content s)"
  then show "content s ! i = (map (peek (is_state s)) [0..<n] @
      map (peek st') [0..<unat (is_bytes_left s) - n]) ! i"
    using assms by (simp add: content_def nth_append)
qed (use assms in \<open>simp add: content_def\<close>)

lemma read_call_reads:
  assumes "is_callback s = cb" "unat n \<le> unat (is_bytes_left s)"
  shows "\<exists>s'. pb_read_call s buf n = (True, if buf then take (unat n) (content s) else [], s') \<and>
           reads s (take (unat n) (content s)) s'"
proof -
  obtain st' where st': "cb (is_state s) buf n =
      (True, if buf then map (peek (is_state s)) [0..<unat n] else [], st')"
      "\<forall>i. peek st' i = peek (is_state s) (unat n + i)"
    using source_gives by blast
  let ?s' = "s\<lparr>is_state := st', is_bytes_left := is_bytes_left s - n\<rparr>"
  have c: "content s = map (peek (is_state s)) [0..<unat n] @ content ?s'"
    using take_content [OF assms(2) st'(2)] assms(2)
    by (simp add: content_def unat_sub word_le_nat_alt)
  then have t: "take (unat n) (content s) = map (peek (is_state s)) [0..<unat n]" by simp
  from c t have "reads s (take (unat n) (content s)) ?s'"
    using assms st'(2) by (simp add: reads_def min_absorb1)
  moreover have "pb_read_call s buf n =
      (True, if buf then take (unat n) (content s) else [], ?s')"
    using assms st'(1) t by (simp add: pb_read_call_def word_less_nat_alt)
  ultimately show ?thesis by blast
qed

lemma read_call_short:
  "unat (is_bytes_left s) < unat n \<Longrightarrow>
   pb_read_call s buf n = (False, [], is_set_error ''end-of-stream'' s)"
  by (simp add: pb_read_call_def word_less_nat_alt)

lemma read_skip_reads:
  assumes "is_callback s = cb" "unat n \<le> unat (is_bytes_left s)"
  shows "\<exists>s'. pb_read_skip s n = (True, [], s') \<and> reads s (take (unat n) (content s)) s'"
  using assms
proof (induction s n rule: pb_read_skip.induct)
  case (1 s n)
  show ?case
  proof (cases "n > 16")
    case True
    then have n: "unat (n - 16) = unat n - 16" "16 \<le> unat n"
      by (simp_all add: unat_sub word_less_nat_alt word_le_nat_alt)
    from n "1.prems" obtain t where
      t: "pb_read_call s True 16 = (True, take 16 (content s), t)" "reads s (take 16 (content s)) t"
      using read_call_reads [of s 16 True] by auto
    have c: "content t = drop 16 (content s)"
      using reads_content [OF t(2)] by (metis append_take_drop_id)
    then have "unat (is_bytes_left t) = unat (is_bytes_left s) - 16"
      by (metis length_content length_drop)
    with n "1.prems" have "unat (n - 16) \<le> unat (is_bytes_left t)" by simp
    with "1.IH" [OF True t(1) [symmetric], simplified] obtain u where
      u: "pb_read_skip t (n - 16) = (True, [], u)" "reads t (take (unat (n - 16)) (content t)) u"
      using reads_callback [OF t(2)] by auto
    have "take 16 (content s) @ take (unat (n - 16)) (content t) = take (unat n) (content s)"
      using n by (simp add: c take_add [symmetric])
    then show ?thesis
      using True t u(1) reads_trans [OF t(2) u(2)] by (simp add: pb_read_skip.simps [of s n])
  next
    case False
    then show ?thesis
      using read_call_reads [OF "1.prems", of True] by (auto simp: pb_read_skip.simps [of s n])
  qed
qed

lemma read_reads:
  assumes "is_callback s = cb" "unat n \<le> unat (is_bytes_left s)"
  shows "\<exists>s'. pb_read s buf n = (True, if buf then take (unat n) (content s) else [], s') \<and>
           reads s (take (unat n) (content s)) s'"
  using read_skip_reads [OF assms] read_call_reads [OF assms] by (auto simp: pb_read_def)

lemma readbyte_reads:
  assumes "is_callback s = cb" "content s = b # bs"
  shows "\<exists>s'. pb_readbyte s = (True, b, s') \<and> reads s [b] s' \<and> content s' = bs"
proof -
  have left: "is_bytes_left s \<noteq> 0" using assms(2) by (auto simp: content_def)
  then have "unat (1 :: u64) \<le> unat (is_bytes_left s)"
    by (simp add: Suc_le_eq unat_gt_0)
  with assms read_call_reads [of s 1 True] obtain s' where
    s': "pb_read_call s True 1 = (True, [b], s')" "reads s [b] s'" by auto
  then have "pb_readbyte s = (True, b, s')"
    using left by (auto simp: pb_read_call_def pb_readbyte_def Let_def split: if_splits prod.splits)
  with s'(2) show ?thesis using assms(2) reads_content by fastforce
qed

lemma readbyte_end:
  "content s = [] \<Longrightarrow> pb_readbyte s = (False, 0, is_set_error ''end-of-stream'' s)"
  by (simp add: content_def pb_readbyte_def unat_eq_zero)

end

end
