(* ===== verification/PbVarint.thy ===== *)
theory PbVarint
  imports PbIstream
begin

text \<open>
  nanopb: what the varint, tag, zigzag and fixed-width decoders do on the bytes their encoders
  produce, proved once over any lawful source and sink and then used for memory buffers.
\<close>

unbundle bit_operations_syntax

section \<open>Bit facts\<close>

lemma low7_byte: "(ucast (v AND 0x7F :: u64) OR 0x80 :: u8) AND 0x80 \<noteq> 0"
proof -
  have "bit ((ucast (v AND 0x7F :: u64) OR 0x80 :: u8) AND 0x80) 7"
    by (simp add: bit_simps bit_u8_128 bit_128_int)
  then show ?thesis by auto
qed

lemma small_byte: "v \<le> 0x7F \<Longrightarrow> (ucast (v :: u64) :: u8) AND 0x80 = 0"
proof -
  assume "v \<le> 0x7F"
  then have v: "v = v AND mask 7" by (simp add: and_low7_id flip: low7_masks)
  show ?thesis
    by (subst v, rule bit_word_eqI) (simp add: bit_simps bit_u8_128 bit_128_int)
qed

lemma acc_small:
  fixes r :: "'a::len word"
  assumes "v \<le> 0x7F"
  shows "ucast ((ucast (v :: u64) :: u8) AND 0x7F) = (ucast v :: 'a word)"
proof -
  have v: "v = v AND mask 7" using assms by (simp add: and_low7_id flip: low7_masks)
  show ?thesis
    unfolding low7_masks by (subst (2) v, subst v, rule bit_word_eqI) (auto simp: bit_simps)
qed

lemma small_ucast:
  assumes "v \<le> 0x7F"
  shows "ucast (ucast (v :: u64) :: u8) = (ucast v :: 'a::len word)"
proof -
  have v: "v = v AND mask 7" using assms by (simp add: and_low7_id flip: low7_masks)
  show ?thesis by (subst (2) v, subst v, rule bit_word_eqI) (auto simp: bit_simps)
qed

lemma ucast_64_32: "ucast (ucast (w :: u32) :: u64) = w"
  by (rule bit_word_eqI) (auto simp: bit_simps)

lemma acc_low7:
  "ucast ((ucast (v AND 0x7F :: u64) OR 0x80 :: u8) AND 0x7F) = (ucast (v AND 0x7F) :: 'a::len word)"
  unfolding ucast_low7 unfolding low7_masks by (rule bit_word_eqI) (auto simp: bit_simps)

lemma acc_step:
  "(r OR push_bit n (v AND 0x7F)) OR push_bit (n + 7) (drop_bit 7 v) = r OR push_bit n (v :: u64)"
proof (rule bit_word_eqI)
  fix m assume "m < LENGTH(64)"
  then show "bit ((r OR push_bit n (v AND 0x7F)) OR push_bit (n + 7) (drop_bit 7 v)) m =
      bit (r OR push_bit n v) m"
    unfolding low7_masks by (cases "n + 7 \<le> m") (auto simp: bit_simps)
qed

lemma bitpos_step:
  "unat (bitpos :: u8) = 7 * k \<Longrightarrow> k < 9 \<Longrightarrow> unat (bitpos + 7) = 7 * Suc k"
  by (subst unat_add_no_overflow) simp_all

lemma drop7_bound:
  assumes "unat (v :: u64) < 2 ^ (n + 7)"
  shows "unat (drop_bit 7 v) < 2 ^ n"
proof -
  have "unat v < 2 ^ n * 2 ^ 7" using assms by (simp only: power_add)
  then show ?thesis by (simp only: unat_drop_bit) (rule less_mult_imp_div_less)
qed

lemma acc_step32:
  "(r OR push_bit n (ucast (v AND 0x7F :: u64))) OR push_bit (n + 7) (ucast (drop_bit 7 v)) =
   r OR push_bit n (ucast v :: u32)"
proof (rule bit_word_eqI)
  fix m assume "m < LENGTH(32)"
  then show "bit ((r OR push_bit n (ucast (v AND 0x7F))) OR
      push_bit (n + 7) (ucast (drop_bit 7 v))) m = bit (r OR push_bit n (ucast v :: u32)) m"
    unfolding low7_masks by (cases "n + 7 \<le> m") (auto simp: bit_simps)
qed

lemma bit_112: "bit (0x70 :: int) n \<Longrightarrow> 4 \<le> n"
proof -
  assume a: "bit (0x70 :: int) n"
  have "(0x70 :: int) = push_bit 4 7" by simp
  with a show ?thesis by (simp only: bit_push_bit_iff)
qed

lemma nibble_byte: "v < 16 \<Longrightarrow> (ucast (v :: u64) :: u8) AND 0x70 = 0"
proof -
  assume "v < 16"
  then have v: "v = v AND mask 4"
    by (simp add: word_unat_eq_iff unat_and_mask word_less_nat_alt)
  show ?thesis by (subst v) (auto intro!: bit_word_eqI simp: bit_simps dest!: bit_112)
qed

lemma bit_double_Suc: "bit (v * 2 :: u64) (Suc m) \<longleftrightarrow> m < 63 \<and> bit v m"
  using bit_push_bit_iff [of 1 v "Suc m"] by auto

lemma no_bit_64: "\<not> bit (x :: u64) 64"
  using bit_imp_le_length [of x 64] by auto

lemma zigzag_inverse:
  "(let z = (if sint v < 0 then NOT (push_bit 1 v) else push_bit 1 v)
    in if z AND 1 \<noteq> 0 then NOT (drop_bit 1 z) else drop_bit 1 z) = (v :: u64)"
proof (cases "sint v < 0")
  case True
  then have top: "bit v 63" using bit_last_iff [of v] by simp
  have "odd (NOT (push_bit 1 v))" by (simp add: even_not_iff)
  then have odd: "NOT (push_bit 1 v) AND 1 \<noteq> 0"
    by (simp only: and_one_eq odd_iff_mod_2_eq_one) simp
  have "NOT (drop_bit 1 (NOT (push_bit 1 v))) = v"
  proof (rule bit_word_eqI)
    fix n assume "n < LENGTH(64)"
    then show "bit (NOT (drop_bit 1 (NOT (push_bit 1 v)))) n = bit v n"
      using top by (cases "n = 63") (auto simp: bit_simps bit_double_Suc no_bit_64)
  qed
  with odd True show ?thesis by (simp add: Let_def)
next
  case False
  then have top: "\<not> bit v 63" using bit_last_iff [of v] by simp
  have even: "push_bit 1 v AND 1 = 0"
proof -
    have "even (push_bit 1 v)" by simp
    then show ?thesis by (simp only: and_one_eq even_iff_mod_2_eq_zero)
  qed
  have "drop_bit 1 (push_bit 1 v) = v"
  proof (rule bit_word_eqI)
    fix n assume "n < LENGTH(64)"
    then show "bit (drop_bit 1 (push_bit 1 v)) n = bit v n"
      using top by (cases "n = 63") (auto simp: bit_simps bit_double_Suc no_bit_64)
  qed
  with even False show ?thesis by (simp add: Let_def)
qed
lemma low8_masks: "(0xFF :: u32) = mask 8" "(0xFF :: u64) = mask 8"
  by (simp_all add: mask_numeral)

lemma fixed32_bytes:
  "push_bit 0 (ucast (ucast (v AND 0xFF) :: u8)) OR
     push_bit 8 (ucast (ucast (drop_bit 8 v AND 0xFF) :: u8)) OR
     push_bit 16 (ucast (ucast (drop_bit 16 v AND 0xFF) :: u8)) OR
     push_bit 24 (ucast (ucast (drop_bit 24 v AND 0xFF) :: u8)) = (v :: u32)"
proof (rule bit_word_eqI)
  fix n assume "n < LENGTH(32)"
  then consider "n < 8"
    | "8 \<le> n" "n < 16"
    | "16 \<le> n" "n < 24"
    | "24 \<le> n" "n < 32"
    by force
  then show "bit (push_bit 0 (ucast (ucast (v AND 0xFF) :: u8)) OR
     push_bit 8 (ucast (ucast (drop_bit 8 v AND 0xFF) :: u8)) OR
     push_bit 16 (ucast (ucast (drop_bit 16 v AND 0xFF) :: u8)) OR
     push_bit 24 (ucast (ucast (drop_bit 24 v AND 0xFF) :: u8)) :: u32) n = bit v n"
    unfolding low8_masks by cases (simp_all add: bit_simps less_diff_conv2)
qed

lemma fixed64_bytes:
  "push_bit 0 (ucast (ucast (v AND 0xFF) :: u8)) OR
     push_bit 8 (ucast (ucast (drop_bit 8 v AND 0xFF) :: u8)) OR
     push_bit 16 (ucast (ucast (drop_bit 16 v AND 0xFF) :: u8)) OR
     push_bit 24 (ucast (ucast (drop_bit 24 v AND 0xFF) :: u8)) OR
     push_bit 32 (ucast (ucast (drop_bit 32 v AND 0xFF) :: u8)) OR
     push_bit 40 (ucast (ucast (drop_bit 40 v AND 0xFF) :: u8)) OR
     push_bit 48 (ucast (ucast (drop_bit 48 v AND 0xFF) :: u8)) OR
     push_bit 56 (ucast (ucast (drop_bit 56 v AND 0xFF) :: u8)) = (v :: u64)"
proof (rule bit_word_eqI)
  fix n assume "n < LENGTH(64)"
  then consider "n < 8"
    | "8 \<le> n" "n < 16"
    | "16 \<le> n" "n < 24"
    | "24 \<le> n" "n < 32"
    | "32 \<le> n" "n < 40"
    | "40 \<le> n" "n < 48"
    | "48 \<le> n" "n < 56"
    | "56 \<le> n" "n < 64"
    by force
  then show "bit (push_bit 0 (ucast (ucast (v AND 0xFF) :: u8)) OR
     push_bit 8 (ucast (ucast (drop_bit 8 v AND 0xFF) :: u8)) OR
     push_bit 16 (ucast (ucast (drop_bit 16 v AND 0xFF) :: u8)) OR
     push_bit 24 (ucast (ucast (drop_bit 24 v AND 0xFF) :: u8)) OR
     push_bit 32 (ucast (ucast (drop_bit 32 v AND 0xFF) :: u8)) OR
     push_bit 40 (ucast (ucast (drop_bit 40 v AND 0xFF) :: u8)) OR
     push_bit 48 (ucast (ucast (drop_bit 48 v AND 0xFF) :: u8)) OR
     push_bit 56 (ucast (ucast (drop_bit 56 v AND 0xFF) :: u8)) :: u64) n = bit v n"
    unfolding low8_masks by cases (simp_all add: bit_simps less_diff_conv2)
qed

section \<open>Decoding what the encoder wrote\<close>

context pb_source
begin

lemma varint64_loop_bytes:
  assumes "is_callback s = cb" "content s = varint_bytes v @ rest"
    "unat bitpos = 7 * k" "k < 10" "unat v < 2 ^ (64 - 7 * k)"
  shows "\<exists>s'. varint64_loop s r bitpos = (True, r OR push_bit (7 * k) v, s') \<and>
           reads s (varint_bytes v) s'"
  using assms
proof (induction "unat v" arbitrary: v s r bitpos k rule: less_induct)
  case less
  have pos: "\<not> 64 \<le> bitpos" using less.prems(3,4) by (simp add: word_le_nat_alt)
  show ?case
  proof (cases "v \<le> 0x7F")
    case True
    have "content s = ucast v # rest"
      using less.prems(2) True by (simp add: varint_bytes_small)
    from readbyte_reads [OF less.prems(1) this] obtain s' where
      "pb_readbyte s = (True, ucast v, s')" "reads s [ucast v] s'" by blast
    then show ?thesis
      using True pos less.prems(3)
      by (simp add: varint64_loop.simps [of s r bitpos] varint_bytes_small small_byte acc_small)
  next
    case False
    let ?b = "ucast (v AND 0x7F) OR 0x80 :: u8" and ?w = "drop_bit 7 v"
    have "content s = ?b # varint_bytes ?w @ rest"
      using less.prems(2) False by (simp add: varint_bytes_step)
    from readbyte_reads [OF less.prems(1) this] obtain t where
      t: "pb_readbyte s = (True, ?b, t)" "reads s [?b] t" "content t = varint_bytes ?w @ rest"
      by blast
    have big: "128 \<le> unat v" using False by (simp add: word_le_nat_alt)
    have lt: "unat ?w < unat v" using big by (simp add: unat_drop_bit)
    have "(2::nat) ^ 7 < 2 ^ (64 - 7 * k)" using big less.prems(5) by simp
    then have "7 < 64 - 7 * k" by (simp only: power_strict_increasing_iff)
    then have k: "k < 9" "64 - 7 * k = (64 - 7 * Suc k) + 7" by simp_all
    have w: "unat ?w < 2 ^ (64 - 7 * Suc k)"
      using less.prems(5) by (intro drop7_bound) (simp only: k(2) [symmetric])
    have "Suc k < 10" using k(1) by simp
    from less.hyps [OF lt reads_callback [OF t(2)] t(3)
        bitpos_step [OF less.prems(3) k(1)] this w]
    obtain u where
      u: "varint64_loop t (r OR push_bit (7 * k) (v AND 0x7F)) (bitpos + 7) =
            (True, (r OR push_bit (7 * k) (v AND 0x7F)) OR push_bit (7 * Suc k) ?w, u)"
         "reads t (varint_bytes ?w) u"
      by blast
    have acc: "(r OR push_bit (7 * k) (v AND 0x7F)) OR push_bit (7 * Suc k) ?w = r OR push_bit (7 * k) v"
      using acc_step [of r "7 * k" v] by (simp only: mult_Suc_right add.commute)
    have "varint64_loop s r bitpos = (True, r OR push_bit (7 * k) v, u)"
      using pos t(1) low7_byte [of v] u(1) less.prems(3)
      by (simp only: varint64_loop.simps [of s r bitpos] prod.case Let_def acc_low7 acc) simp
    then show ?thesis
      using reads_trans [OF t(2) u(2)] False by (simp add: varint_bytes_step)
  qed
qed

lemma varint_reads:
  assumes "is_callback s = cb" "content s = varint_bytes v @ rest"
  shows "\<exists>s'. pb_decode_varint s = (True, v, s') \<and> reads s (varint_bytes v) s'"
  using varint64_loop_bytes [OF assms, of 0 0 0] unat_u64_less [of v]
  by (simp add: pb_decode_varint_def)


lemma varint32_loop_step:
  assumes "is_callback s = cb" "content s = varint_bytes v @ rest" "\<not> v \<le> 0x7F"
    "unat bitpos = 7 * k" "k < 5"
  shows "\<exists>t. varint32_loop s r bitpos =
             varint32_loop t (r OR push_bit (7 * k) (ucast (v AND 0x7F))) (bitpos + 7) \<and>
           reads s [ucast (v AND 0x7F) OR 0x80] t \<and> content t = varint_bytes (drop_bit 7 v) @ rest"
proof -
  have pos: "\<not> 32 \<le> bitpos" using assms(4,5) by (simp add: word_le_nat_alt)
  have "content s = (ucast (v AND 0x7F) OR 0x80) # varint_bytes (drop_bit 7 v) @ rest"
    using assms(2,3) by (simp add: varint_bytes_step)
  from readbyte_reads [OF assms(1) this] obtain t where
    t: "pb_readbyte s = (True, ucast (v AND 0x7F) OR 0x80, t)"
      "reads s [ucast (v AND 0x7F) OR 0x80] t" "content t = varint_bytes (drop_bit 7 v) @ rest"
    by blast
  then have "varint32_loop s r bitpos =
      varint32_loop t (r OR push_bit (7 * k) (ucast (v AND 0x7F))) (bitpos + 7)"
    using pos low7_byte [of v] assms(4)
    by (simp only: varint32_loop.simps [of s r bitpos] prod.case Let_def acc_low7) simp
  with t show ?thesis by blast
qed

lemma varint32_loop_last:
  assumes "is_callback s = cb" "content s = varint_bytes v @ rest" "v \<le> 0x7F"
    "unat bitpos = 7 * k" "k < 5"
  shows "\<exists>t. varint32_loop s r bitpos =
             (True, r OR push_bit (7 * k) (ucast v), bitpos + 7, ucast v, t) \<and> reads s (varint_bytes v) t"
proof -
  have pos: "\<not> 32 \<le> bitpos" using assms(4,5) by (simp add: word_le_nat_alt)
  have "content s = ucast v # rest" using assms(2,3) by (simp add: varint_bytes_small)
  from readbyte_reads [OF assms(1) this] obtain t where
    t: "pb_readbyte s = (True, ucast v, t)" "reads s [ucast v] t" by blast
  then show ?thesis
    using pos assms(3,4)
    by (simp add: varint32_loop.simps [of s r bitpos] small_byte acc_small varint_bytes_small)
qed

lemma varint32_loop_bytes:
  assumes "is_callback s = cb" "content s = varint_bytes v @ rest"
    "unat bitpos = 7 * k" "k < 5" "unat v < 2 ^ (32 - 7 * k)"
  shows "\<exists>bp b s'. varint32_loop s r bitpos = (True, r OR push_bit (7 * k) (ucast v), bp, b, s') \<and>
           reads s (varint_bytes v) s' \<and> \<not> (bp = 35 \<and> b AND 0x70 \<noteq> 0)"
  using assms
proof (induction "unat v" arbitrary: v s r bitpos k rule: less_induct)
  case less
  show ?case
  proof (cases "v \<le> 0x7F")
    case True
    have "\<not> (bitpos + 7 = 35 \<and> (ucast v :: u8) AND 0x70 \<noteq> 0)"
    proof
      assume a: "bitpos + 7 = 35 \<and> (ucast v :: u8) AND 0x70 \<noteq> 0"
      then have "unat (bitpos + 7) = 35" by simp
      with bitpos_step [OF less.prems(3)] less.prems(4) have "k = 4" by simp
      then have "v < 16" using less.prems(5) by (simp add: word_less_nat_alt)
      with a nibble_byte show False by blast
    qed
    then show ?thesis
      using varint32_loop_last [OF less.prems(1,2) True less.prems(3,4), of r] by blast
  next
    case False
    let ?w = "drop_bit 7 v"
    from varint32_loop_step [OF less.prems(1,2) False less.prems(3,4), of r] obtain t where
      t: "varint32_loop s r bitpos =
            varint32_loop t (r OR push_bit (7 * k) (ucast (v AND 0x7F))) (bitpos + 7)"
         "reads s [ucast (v AND 0x7F) OR 0x80] t" "content t = varint_bytes ?w @ rest" by blast
    have big: "128 \<le> unat v" using False by (simp add: word_le_nat_alt)
    have lt: "unat ?w < unat v" using big by (simp add: unat_drop_bit)
    have "(2::nat) ^ 7 < 2 ^ (32 - 7 * k)" using big less.prems(5) by simp
    then have "7 < 32 - 7 * k" by (simp only: power_strict_increasing_iff)
    then have k: "Suc k < 5" "k < 9" "32 - 7 * k = (32 - 7 * Suc k) + 7" by simp_all
    have w: "unat ?w < 2 ^ (32 - 7 * Suc k)"
      using less.prems(5) by (intro drop7_bound) (simp only: k(3) [symmetric])
    from less.hyps [OF lt reads_callback [OF t(2)] t(3)
        bitpos_step [OF less.prems(3) k(2)] k(1) w]
    obtain bp b u where
      u: "varint32_loop t (r OR push_bit (7 * k) (ucast (v AND 0x7F))) (bitpos + 7) =
            (True, (r OR push_bit (7 * k) (ucast (v AND 0x7F))) OR push_bit (7 * Suc k) (ucast ?w), bp, b, u)"
         "reads t (varint_bytes ?w) u" "\<not> (bp = 35 \<and> b AND 0x70 \<noteq> 0)"
      by blast
    have "(r OR push_bit (7 * k) (ucast (v AND 0x7F))) OR push_bit (7 * Suc k) (ucast ?w) =
        r OR push_bit (7 * k) (ucast v)"
      using acc_step32 [of r "7 * k" v] by (simp only: mult_Suc_right add.commute)
    with t(1) u reads_trans [OF t(2) u(2)] False show ?thesis
      by (auto simp: varint_bytes_step)
  qed
qed

lemma varint32_eof_reads:
  assumes "is_callback s = cb" "content s = varint_bytes (ucast (w :: u32)) @ rest"
  shows "\<exists>s'. pb_decode_varint32_eof s = (True, False, w, s') \<and> reads s (varint_bytes (ucast w)) s'"
proof (cases "(ucast w :: u64) \<le> 0x7F")
  case True
  let ?v = "ucast w :: u64"
  from True have "content s = ucast ?v # rest" using assms(2) by (simp only: varint_bytes_small) simp
  from readbyte_reads [OF assms(1) this] obtain t where
    t: "pb_readbyte s = (True, ucast ?v, t)" "reads s [ucast ?v] t" by blast
  have "(ucast (ucast ?v :: u8) :: u32) = w"
    using small_ucast [OF True] ucast_64_32 by metis
  then show ?thesis
    using t small_byte [OF True]
    by (simp only: pb_decode_varint32_eof_def prod.case varint_bytes_small [OF True]) simp
next
  case False
  let ?v = "ucast w :: u64"
  have "content s = (ucast (?v AND 0x7F) OR 0x80) # varint_bytes (drop_bit 7 ?v) @ rest"
    using assms(2) False by (simp add: varint_bytes_step)
  from readbyte_reads [OF assms(1) this] obtain t where
    t: "pb_readbyte s = (True, ucast (?v AND 0x7F) OR 0x80, t)"
      "reads s [ucast (?v AND 0x7F) OR 0x80] t" "content t = varint_bytes (drop_bit 7 ?v) @ rest"
    by blast
  have "unat (drop_bit 7 ?v) < 2 ^ (32 - 7 * 1)"
    using unat_u32_less [of w] by (intro drop7_bound) (simp add: unat_ucast_up)
  from varint32_loop_bytes [OF reads_callback [OF t(2)] t(3) _ _ this, of 7 "ucast (?v AND 0x7F)"]
  obtain bp b u where
    u: "varint32_loop t (ucast (?v AND 0x7F)) 7 =
          (True, ucast (?v AND 0x7F) OR push_bit 7 (ucast (drop_bit 7 ?v)), bp, b, u)"
       "reads t (varint_bytes (drop_bit 7 ?v)) u" "\<not> (bp = 35 \<and> b AND 0x70 \<noteq> 0)"
    by auto
  have "ucast (?v AND 0x7F) OR push_bit 7 (ucast (drop_bit 7 ?v)) = (ucast ?v :: u32)"
    using acc_step32 [of 0 0 ?v] by simp
  moreover have "reads s (varint_bytes ?v) u"
    using reads_trans [OF t(2) u(2)] by (simp add: varint_bytes_step [OF False])
  ultimately show ?thesis
    using t(1) u(1,3) low7_byte [of ?v] ucast_64_32 [of w]
    by (auto simp: pb_decode_varint32_eof_def acc_low7)
qed

lemma varint32_reads:
  assumes "is_callback s = cb" "content s = varint_bytes (ucast (w :: u32)) @ rest"
  shows "\<exists>s'. pb_decode_varint32 s = (True, w, s') \<and> reads s (varint_bytes (ucast w)) s'"
  using varint32_eof_reads [OF assms] by (auto simp: pb_decode_varint32_def)

lemma tag_reads:
  assumes "is_callback s = cb"
    "content s = varint_bytes (push_bit 3 (ucast tag) OR ucast wt) @ rest"
    "(tag :: u32) < 2 ^ 29" "tag \<noteq> 0" "(wt :: u32) < 8"
  shows "\<exists>s'. pb_decode_tag s = (True, wt, tag, False, s') \<and>
           reads s (varint_bytes (push_bit 3 (ucast tag) OR ucast wt)) s'"
proof -
  let ?t = "push_bit 3 tag OR wt"
  have wt: "wt = wt AND mask 3"
    using assms(5) by (simp add: word_unat_eq_iff unat_and_mask word_less_nat_alt)
  have tg: "tag = tag AND mask 29"
    using assms(3) by (simp add: word_unat_eq_iff unat_and_mask word_less_nat_alt)
  have v: "push_bit 3 (ucast tag) OR ucast wt = (ucast ?t :: u64)"
    by (subst (1 2) tg, rule bit_word_eqI) (auto simp: bit_simps)
  have low: "?t AND mask 3 = wt"
    by (subst (1 2) wt, rule bit_word_eqI) (auto simp: bit_simps)
  have high: "drop_bit 3 ?t = tag"
    by (subst wt, subst (1 2) tg, rule bit_word_eqI) (auto simp: bit_simps)
  have nz: "?t \<noteq> 0" using high assms(4) by force
  have seven: "(7 :: u32) = mask 3" by (simp add: mask_numeral)
  from varint32_eof_reads [of s ?t rest] assms(1,2) v obtain s' where
    s': "pb_decode_varint32_eof s = (True, False, ?t, s')" "reads s (varint_bytes (ucast ?t)) s'"
    by auto
  then show ?thesis
    using nz low high v by (simp only: pb_decode_tag_def prod.case seven) simp
qed

lemma svarint_reads:
  assumes "is_callback s = cb"
    "content s = varint_bytes (if sint v < 0 then NOT (push_bit 1 v) else push_bit 1 v) @ rest"
  shows "\<exists>s'. pb_decode_svarint s = (True, v, s') \<and>
    reads s (varint_bytes (if sint v < 0 then NOT (push_bit 1 v) else push_bit 1 v)) s'"
proof -
  let ?z = "if sint v < 0 then NOT (push_bit 1 v) else push_bit 1 v"
  from varint_reads [OF assms] obtain s' where
    "pb_decode_varint s = (True, ?z, s')" "reads s (varint_bytes ?z) s'" by blast
  then show ?thesis
    using zigzag_inverse [of v] unfolding pb_decode_svarint_def Let_def by auto
qed

lemma fixed32_reads:
  assumes "is_callback s = cb"
    "content s = [ucast (v AND 0xFF), ucast (drop_bit 8 v AND 0xFF),
        ucast (drop_bit 16 v AND 0xFF), ucast (drop_bit 24 v AND 0xFF)] @ rest"
      (is "_ = ?bs @ _")
  shows "\<exists>s'. pb_decode_fixed32 s = (True, v, s') \<and> reads s ?bs s'"
proof -
  have "4 \<le> length (content s)" "take 4 (content s) = ?bs"
    by (subst assms(2), simp)+
  with read_reads [OF assms(1), of 4 True] obtain s' where
    s': "pb_read s True 4 = (True, ?bs, s')" "reads s ?bs s'" by auto
  then show ?thesis by (simp add: pb_decode_fixed32_def fixed32_bytes [simplified])
qed

lemma fixed64_reads:
  assumes "is_callback s = cb"
    "content s = [ucast (v AND 0xFF), ucast (drop_bit 8 v AND 0xFF),
        ucast (drop_bit 16 v AND 0xFF), ucast (drop_bit 24 v AND 0xFF),
        ucast (drop_bit 32 v AND 0xFF), ucast (drop_bit 40 v AND 0xFF),
        ucast (drop_bit 48 v AND 0xFF), ucast (drop_bit 56 v AND 0xFF)] @ rest"
      (is "_ = ?bs @ _")
  shows "\<exists>s'. pb_decode_fixed64 s = (True, v, s') \<and> reads s ?bs s'"
proof -
  have "8 \<le> length (content s)" "take 8 (content s) = ?bs"
    by (subst assms(2), simp)+
  with read_reads [OF assms(1), of 8 True] obtain s' where
    s': "pb_read s True 8 = (True, ?bs, s')" "reads s ?bs s'" by auto
  then show ?thesis by (simp add: pb_decode_fixed64_def fixed64_bytes [simplified])
qed

end

section \<open>Skipping and substreams\<close>

context pb_source
begin

lemma read_exact:
  assumes "is_callback s = cb" "content s = bs @ rest" "unat n = length bs"
  shows "\<exists>s'. pb_read s buf n = (True, if buf then bs else [], s') \<and> reads s bs s'"
proof -
  have "unat n \<le> length (content s)" "take (unat n) (content s) = bs"
    using assms(2,3) by simp_all
  with read_reads [OF assms(1), of n buf] show ?thesis by (cases buf) simp_all
qed

lemma read1:
  assumes "is_callback s = cb" "content s = b # rest"
  shows "\<exists>s'. pb_read s True 1 = (True, [b], s') \<and> reads s [b] s' \<and> content s' = rest"
  using read_exact [OF assms(1), of "[b]" rest 1 True] assms(2)
  by (fastforce dest: reads_content)

lemma skip_varint_reads:
  assumes "is_callback s = cb" "content s = varint_bytes v @ rest"
  shows "\<exists>s'. pb_skip_varint s = (True, s') \<and> reads s (varint_bytes v) s'"
  using assms
proof (induction "unat v" arbitrary: v s rule: less_induct)
  case less
  show ?case
  proof (cases "v \<le> 0x7F")
    case True
    then have "content s = ucast v # rest" using less.prems(2) by (simp add: varint_bytes_small)
    from read1 [OF less.prems(1) this] True show ?thesis
      by (auto simp: pb_skip_varint.simps [of s] varint_bytes_small small_byte)
  next
    case False
    let ?b = "ucast (v AND 0x7F) OR 0x80 :: u8" and ?w = "drop_bit 7 v"
    have "content s = ?b # varint_bytes ?w @ rest"
      using less.prems(2) False by (simp add: varint_bytes_step)
    from read1 [OF less.prems(1) this] obtain t where
      t: "pb_read s True 1 = (True, [?b], t)" "reads s [?b] t" "content t = varint_bytes ?w @ rest"
      by blast
    have "unat ?w < unat v" using False by (simp add: unat_drop_bit word_le_nat_alt)
    from less.hyps [OF this reads_callback [OF t(2)] t(3)] obtain u where
      u: "pb_skip_varint t = (True, u)" "reads t (varint_bytes ?w) u" by blast
    have "pb_skip_varint s = (True, u)"
      using t(1) low7_byte [of v] u(1) by (simp add: pb_skip_varint.simps [of s])
    then show ?thesis
      using reads_trans [OF t(2) u(2)] False by (simp add: varint_bytes_step)
  qed
qed

lemma skip_string_reads:
  assumes "is_callback s = cb" "content s = varint_bytes (ucast (n :: u32)) @ bs @ rest"
    "unat n = length bs"
  shows "\<exists>s'. pb_skip_string s = (True, s') \<and> reads s (varint_bytes (ucast n) @ bs) s'"
proof -
  from varint32_reads [OF assms(1,2)] obtain t where
    t: "pb_decode_varint32 s = (True, n, t)" "reads s (varint_bytes (ucast n)) t" by blast
  have "unat (ucast n :: u64) = length bs" using assms(3) by (simp add: unat_ucast_up)
  from read_exact [OF reads_callback [OF t(2)] reads_content [OF t(2) assms(2)] this, of False]
  obtain u where u: "pb_read t False (ucast n) = (True, [], u)" "reads t bs u" by auto
  then show ?thesis using t reads_trans [OF t(2) u(2)] by (simp add: pb_skip_string_def)
qed

lemma skip_field_reads:
  assumes "is_callback s = cb"
  shows "content s = varint_bytes v @ rest \<Longrightarrow>
      \<exists>s'. pb_skip_field s PB_WT_VARINT = (True, s') \<and> reads s (varint_bytes v) s'"
    and "content s = bs @ rest \<Longrightarrow> length bs = 8 \<Longrightarrow>
      \<exists>s'. pb_skip_field s PB_WT_64BIT = (True, s') \<and> reads s bs s'"
    and "content s = varint_bytes (ucast (n :: u32)) @ bs @ rest \<Longrightarrow> unat n = length bs \<Longrightarrow>
      \<exists>s'. pb_skip_field s PB_WT_STRING = (True, s') \<and> reads s (varint_bytes (ucast n) @ bs) s'"
    and "content s = bs @ rest \<Longrightarrow> length bs = 4 \<Longrightarrow>
      \<exists>s'. pb_skip_field s PB_WT_32BIT = (True, s') \<and> reads s bs s'"
  using assms skip_varint_reads [of s v rest] skip_string_reads [of s n bs rest]
    read_exact [of s bs rest 8 False] read_exact [of s bs rest 4 False]
  by (auto simp: pb_skip_field_def)

lemma make_substream:
  assumes "is_callback s = cb" "content s = varint_bytes (ucast (n :: u32)) @ bs @ rest"
    "unat n = length bs"
  shows "\<exists>sub t. pb_make_string_substream s = (True, sub, t) \<and>
           is_callback sub = cb \<and> content sub = bs \<and> is_buf_read sub = is_buf_read s \<and>
           is_errmsg sub = is_errmsg s \<and> is_callback t = cb \<and> is_buf_read t = is_buf_read s \<and>
           is_errmsg t = is_errmsg s \<and> unat (is_bytes_left t) = length rest"
proof -
  from varint32_reads [OF assms(1,2)] obtain t where
    t: "pb_decode_varint32 s = (True, n, t)" "reads s (varint_bytes (ucast n)) t" by blast
  have c: "content t = bs @ rest" using reads_content [OF t(2) assms(2)] .
  then have left: "unat (is_bytes_left t) = length bs + length rest"
    by (metis length_append length_content)
  have n: "unat (ucast n :: u64) = length bs" using assms(3) by (simp add: unat_ucast_up)
  then have le: "(ucast n :: u64) \<le> is_bytes_left t" using left by (simp add: word_le_nat_alt)
  let ?sub = "t\<lparr>is_bytes_left := ucast n\<rparr>"
  have "content ?sub = take (length bs) (content t)"
    using left n by (simp add: content_def take_map)
  then have "content ?sub = bs" using c by simp
  moreover have "pb_make_string_substream s =
      (True, ?sub, t\<lparr>is_bytes_left := is_bytes_left t - ucast n\<rparr>)"
    using t(1) le by (simp add: pb_make_string_substream_def Let_def not_less)
  moreover have "unat (is_bytes_left t - ucast n) = length rest"
    using le left n by (simp add: unat_sub)
  ultimately show ?thesis using t(2) by (simp add: reads_def)
qed

lemma close_substream:
  assumes "is_callback sub = cb"
  shows "\<exists>sub' s'. pb_close_string_substream s sub = (True, sub', s') \<and> content sub' = [] \<and>
           is_state s' = is_state sub' \<and> is_errmsg s' = is_errmsg sub \<and>
           is_bytes_left s' = is_bytes_left s \<and> is_callback s' = is_callback s \<and>
           reads sub (content sub) sub'"
proof (cases "is_bytes_left sub = 0")
  case True
  then show ?thesis
    using assms by (simp add: pb_close_string_substream_def content_def reads_def)
next
  case False
  from read_exact [OF assms, of "content sub" "[]" "is_bytes_left sub" False] obtain t where
    t: "pb_read sub False (is_bytes_left sub) = (True, [], t)" "reads sub (content sub) t" by auto
  moreover have "content t = []" using reads_content [OF t(2), of "[]"] by simp
  ultimately show ?thesis
    using False by (simp add: pb_close_string_substream_def reads_def)
qed

end

end
