(* ===== verification/PbField.thy ===== *)
theory PbField
  imports PbVarint
begin

text \<open>
  nanopb, the descriptors: \<open>pb_field_t\<close> with its type bits (\<open>nanopb/pb.h\<close>) and the field iterator of
  \<open>nanopb/pb_common.c\<close>, over a byte-addressed memory that holds the message structs. The target is
  little-endian with pointers of eight bytes; \<open>PB_FIELD_32BIT\<close> makes \<open>pb_size_t\<close> 32 bits wide. An
  array of descriptors is the list of its elements before \<open>PB_LAST_FIELD\<close>.
\<close>

unbundle bit_operations_syntax

section \<open>Memory\<close>

type_synonym mem = "nat \<Rightarrow> u8"

definition load_bytes :: "mem \<Rightarrow> nat \<Rightarrow> nat \<Rightarrow> u8 list" where
  "load_bytes m a n = map m [a..<a + n]"

definition put_bytes :: "mem \<Rightarrow> nat \<Rightarrow> u8 list \<Rightarrow> mem" where
  "put_bytes m a bs = (\<lambda>x. if a \<le> x \<and> x < a + length bs then bs ! (x - a) else m x)"

text \<open>Words in memory, lowest byte first.\<close>

fun le_word :: "u8 list \<Rightarrow> 'a::len word" where
  "le_word [] = 0"
| "le_word (b # bs) = ucast b OR push_bit 8 (le_word bs)"

fun le_bytes :: "nat \<Rightarrow> 'a::len word \<Rightarrow> u8 list" where
  "le_bytes 0 w = []"
| "le_bytes (Suc n) w = ucast w # le_bytes n (drop_bit 8 w)"

definition load16 :: "mem \<Rightarrow> nat \<Rightarrow> u16" where "load16 m a = le_word (load_bytes m a 2)"
definition load32 :: "mem \<Rightarrow> nat \<Rightarrow> u32" where "load32 m a = le_word (load_bytes m a 4)"
definition load64 :: "mem \<Rightarrow> nat \<Rightarrow> u64" where "load64 m a = le_word (load_bytes m a 8)"
definition load_ptr :: "mem \<Rightarrow> nat \<Rightarrow> nat" where "load_ptr m a = unat (load64 m a)"

definition store32 :: "mem \<Rightarrow> nat \<Rightarrow> u32 \<Rightarrow> mem" where
  "store32 m a w = put_bytes m a (le_bytes 4 w)"
definition store_ptr :: "mem \<Rightarrow> nat \<Rightarrow> nat \<Rightarrow> mem" where
  "store_ptr m a p = put_bytes m a (le_bytes 8 (of_nat p :: u64))"

lemma length_load_bytes [simp]: "length (load_bytes m a n) = n"
  by (simp add: load_bytes_def)

lemma load_bytes_nth [simp]: "i < n \<Longrightarrow> load_bytes m a n ! i = m (a + i)"
  by (simp add: load_bytes_def)

lemma load_bytes_cong: "(\<And>i. i < n \<Longrightarrow> m (a + i) = m' (a' + i)) \<Longrightarrow> load_bytes m a n = load_bytes m' a' n"
  by (rule nth_equalityI) simp_all

lemma load_bytes_eq_iff:
  "load_bytes m a n = load_bytes m' a' n \<longleftrightarrow> (\<forall>i<n. m (a + i) = m' (a' + i))"
  by (auto simp: list_eq_iff_nth_eq)

lemma load_bytes_add: "load_bytes m a (j + k) = load_bytes m a j @ load_bytes m (a + j) k"
  by (rule nth_equalityI) (auto simp: nth_append)

lemma put_bytes_outside: "x < a \<or> a + length bs \<le> x \<Longrightarrow> put_bytes m a bs x = m x"
  by (auto simp: put_bytes_def)

lemma put_bytes_inside: "i < length bs \<Longrightarrow> put_bytes m a bs (a + i) = bs ! i"
  by (simp add: put_bytes_def)

lemma put_bytes_Nil [simp]: "put_bytes m a [] = m"
  by (rule ext) (auto simp: put_bytes_def)

lemma load_put_same: "n = length bs \<Longrightarrow> load_bytes (put_bytes m a bs) a n = bs"
  by (rule nth_equalityI) (simp_all add: put_bytes_inside)

lemma load_put_other:
  "a + length bs \<le> b \<or> b + n \<le> a \<Longrightarrow> load_bytes (put_bytes m a bs) b n = load_bytes m b n"
  by (rule load_bytes_cong) (auto simp: put_bytes_def)

lemma length_le_bytes [simp]: "length (le_bytes n w) = n"
  by (induction n w rule: le_bytes.induct) simp_all

lemma le_word_le_bytes:
  "LENGTH('a::len) \<le> 8 * n \<Longrightarrow> le_word (le_bytes n w) = (w :: 'a word)"
proof -
  have "bit (le_word (le_bytes n w) :: 'a word) k \<longleftrightarrow> k < LENGTH('a) \<and> k < 8 * n \<and> bit w k" for w :: "'a word" and k
  proof (induction n arbitrary: w k)
    case (Suc n)
    show ?case
    proof (cases "k < 8")
      case False
      then show ?thesis using Suc.IH [of "drop_bit 8 w" "k - 8"]
        by (auto simp: bit_simps dest: bit_imp_le_length)
    qed (auto simp: bit_simps)
  qed simp
  then show "LENGTH('a) \<le> 8 * n \<Longrightarrow> ?thesis"
    by (intro bit_word_eqI) auto
qed

lemma le_bytes_le_word:
  "8 * length bs \<le> LENGTH('a::len) \<Longrightarrow> le_bytes (length bs) (le_word bs :: 'a word) = bs"
proof (induction bs)
  case (Cons b bs)
  have low: "ucast (ucast b OR push_bit 8 (le_word bs) :: 'a word) = b"
    using Cons.prems by (intro bit_word_eqI) (auto simp: bit_simps)
  have bound: "bit (le_word cs :: 'a word) k \<Longrightarrow> k < 8 * length cs" for k cs
  proof (induction cs arbitrary: k)
    case (Cons c cs)
    then show ?case
      by (cases "k < 8") (auto simp: bit_simps dest: bit_imp_le_length Cons.IH [of "k - 8"])
  qed simp
  have high: "drop_bit 8 (ucast b OR push_bit 8 (le_word bs) :: 'a word) = le_word bs"
    using Cons.prems bound [of bs]
    by (intro bit_word_eqI) (fastforce simp: bit_simps dest: bit_imp_le_length)
  show ?case using Cons.IH Cons.prems low high by simp
qed simp

section \<open>Descriptors\<close>

record pb_field =
  pf_tag :: u32
  pf_type :: u8
  pf_data_offset :: u32
  pf_size_offset :: "32 word"
  pf_data_size :: u32
  pf_array_size :: u32
  pf_ptr :: nat

definition PB_LAST_FIELD :: pb_field where
  "PB_LAST_FIELD =
     \<lparr>pf_tag = 0, pf_type = 0, pf_data_offset = 0, pf_size_offset = 0, pf_data_size = 0,
      pf_array_size = 0, pf_ptr = 0\<rparr>"

definition field_at :: "pb_field list \<Rightarrow> nat \<Rightarrow> pb_field" where
  "field_at fs pos = (if pos < length fs then fs ! pos else PB_LAST_FIELD)"

definition PB_LTYPE :: "u8 \<Rightarrow> u8" where "PB_LTYPE x = x AND 0x0F"
definition PB_HTYPE :: "u8 \<Rightarrow> u8" where "PB_HTYPE x = x AND 0x30"
definition PB_ATYPE :: "u8 \<Rightarrow> u8" where "PB_ATYPE x = x AND 0xC0"

abbreviation PB_LTYPE_VARINT :: u8 where "PB_LTYPE_VARINT \<equiv> 0"
abbreviation PB_LTYPE_UVARINT :: u8 where "PB_LTYPE_UVARINT \<equiv> 1"
abbreviation PB_LTYPE_SVARINT :: u8 where "PB_LTYPE_SVARINT \<equiv> 2"
abbreviation PB_LTYPE_FIXED32 :: u8 where "PB_LTYPE_FIXED32 \<equiv> 3"
abbreviation PB_LTYPE_FIXED64 :: u8 where "PB_LTYPE_FIXED64 \<equiv> 4"
abbreviation PB_LTYPE_LAST_PACKABLE :: u8 where "PB_LTYPE_LAST_PACKABLE \<equiv> 4"
abbreviation PB_LTYPE_BYTES :: u8 where "PB_LTYPE_BYTES \<equiv> 5"
abbreviation PB_LTYPE_STRING :: u8 where "PB_LTYPE_STRING \<equiv> 6"
abbreviation PB_LTYPE_SUBMESSAGE :: u8 where "PB_LTYPE_SUBMESSAGE \<equiv> 7"
abbreviation PB_LTYPE_EXTENSION :: u8 where "PB_LTYPE_EXTENSION \<equiv> 8"
abbreviation PB_LTYPE_FIXED_LENGTH_BYTES :: u8 where "PB_LTYPE_FIXED_LENGTH_BYTES \<equiv> 9"

abbreviation PB_HTYPE_REQUIRED :: u8 where "PB_HTYPE_REQUIRED \<equiv> 0x00"
abbreviation PB_HTYPE_OPTIONAL :: u8 where "PB_HTYPE_OPTIONAL \<equiv> 0x10"
abbreviation PB_HTYPE_REPEATED :: u8 where "PB_HTYPE_REPEATED \<equiv> 0x20"
abbreviation PB_HTYPE_ONEOF :: u8 where "PB_HTYPE_ONEOF \<equiv> 0x30"

abbreviation PB_ATYPE_STATIC :: u8 where "PB_ATYPE_STATIC \<equiv> 0x00"
abbreviation PB_ATYPE_POINTER :: u8 where "PB_ATYPE_POINTER \<equiv> 0x80"
abbreviation PB_ATYPE_CALLBACK :: u8 where "PB_ATYPE_CALLBACK \<equiv> 0x40"

abbreviation PB_SIZE_MAX :: u32 where "PB_SIZE_MAX \<equiv> 0xFFFFFFFF"

abbreviation ltype :: "pb_field \<Rightarrow> u8" where "ltype f \<equiv> PB_LTYPE (pf_type f)"
abbreviation htype :: "pb_field \<Rightarrow> u8" where "htype f \<equiv> PB_HTYPE (pf_type f)"
abbreviation atype :: "pb_field \<Rightarrow> u8" where "atype f \<equiv> PB_ATYPE (pf_type f)"

lemma htype_cases:
  "htype f = PB_HTYPE_REQUIRED \<or> htype f = PB_HTYPE_OPTIONAL \<or> htype f = PB_HTYPE_REPEATED \<or>
   htype f = PB_HTYPE_ONEOF"
proof -
  have "PB_HTYPE x \<in> {0, 0x10, 0x20, 0x30}" for x
  proof -
    have mid: "(0x30 :: u8) = push_bit 4 (mask 2)" by (simp add: mask_numeral)
    define y where "y = drop_bit 4 x AND mask 2"
    have "PB_HTYPE x = push_bit 4 y"
      unfolding PB_HTYPE_def mid y_def by (intro bit_word_eqI) (auto simp: bit_simps)
    moreover have "unat y < 4"
      by (simp only: y_def unat_and_mask) simp
    then have "unat y \<in> {0, 1, 2, 3}" by auto
    then have "y \<in> {0, 1, 2, 3}" by (auto simp: word_unat_eq_iff)
    ultimately show ?thesis by auto
  qed
  then show ?thesis by auto
qed

section \<open>The field iterator\<close>

text \<open>
  \<open>pSize\<close> points into the struct, or at the local variable \<open>fixed_count_size\<close> of
  \<open>pb_decode_noinit\<close>. The offset to it is a signed number.
\<close>

datatype size_ref = SizeAt nat | SizeLocal

record pb_field_iter =
  fi_start :: "pb_field list"
  fi_pos :: nat
  fi_required_field_index :: u32
  fi_dest_struct :: nat
  fi_data :: nat
  fi_size :: size_ref

abbreviation iter_field :: "pb_field_iter \<Rightarrow> pb_field" where
  "iter_field it \<equiv> field_at (fi_start it) (fi_pos it)"

definition size_addr :: "nat \<Rightarrow> pb_field \<Rightarrow> nat" where
  "size_addr pData field = nat (int pData + sint (pf_size_offset field))"

definition pb_field_iter_begin :: "pb_field list \<Rightarrow> nat \<Rightarrow> bool \<times> pb_field_iter" where
  "pb_field_iter_begin fs dest_struct =
     (let pos = field_at fs 0;
          pData = dest_struct + unat (pf_data_offset pos)
      in (pf_tag pos \<noteq> 0,
          \<lparr>fi_start = fs, fi_pos = 0, fi_required_field_index = 0,
           fi_dest_struct = dest_struct, fi_data = pData, fi_size = SizeAt (size_addr pData pos)\<rparr>))"

definition pb_field_iter_next :: "pb_field_iter \<Rightarrow> bool \<times> pb_field_iter" where
  "pb_field_iter_next iter =
     (let prev_field = iter_field iter in
      if pf_tag prev_field = 0 then (False, iter)
      else
        let iter = iter\<lparr>fi_pos := fi_pos iter + 1\<rparr>;
            pos = iter_field iter
        in
        if pf_tag pos = 0 then (False, snd (pb_field_iter_begin (fi_start iter) (fi_dest_struct iter)))
        else if htype prev_field = PB_HTYPE_ONEOF \<and> htype pos = PB_HTYPE_ONEOF \<and>
            pf_data_offset pos = PB_SIZE_MAX
          then (True, iter)
        else
          let prev_size =
                (if atype prev_field = PB_ATYPE_STATIC \<and> htype prev_field = PB_HTYPE_REPEATED
                 then unat (pf_data_size prev_field) * unat (pf_array_size prev_field)
                 else if atype prev_field = PB_ATYPE_POINTER then 8
                 else unat (pf_data_size prev_field));
              index =
                (if htype prev_field = PB_HTYPE_REQUIRED then fi_required_field_index iter + 1
                 else fi_required_field_index iter);
              pData = fi_data iter + prev_size + unat (pf_data_offset pos)
          in (True, iter\<lparr>fi_required_field_index := index, fi_data := pData,
                fi_size := SizeAt (size_addr pData pos)\<rparr>))"

text \<open>
  The \<open>do ... while\<close> loop of \<open>pb_field_iter_find\<close>, and of \<open>find_extension_field\<close> in \<open>pb_decode.c\<close>,
  with the test on the field as its parameter. It has no bound of its own: \<open>None\<close> stands for a
  search that never comes back to its start.
\<close>

partial_function (option) iter_search_loop ::
    "(pb_field \<Rightarrow> bool) \<Rightarrow> nat \<Rightarrow> pb_field_iter \<Rightarrow> (bool \<times> pb_field_iter) option" where
  "iter_search_loop wanted start iter =
     (if wanted (iter_field iter) then Some (True, iter)
      else
        let iter = snd (pb_field_iter_next iter) in
        if fi_pos iter \<noteq> start then iter_search_loop wanted start iter
        else Some (False, iter))"

definition pb_field_iter_find :: "pb_field_iter \<Rightarrow> u32 \<Rightarrow> (bool \<times> pb_field_iter) option" where
  "pb_field_iter_find iter tag =
     iter_search_loop (\<lambda>f. pf_tag f = tag \<and> ltype f \<noteq> PB_LTYPE_EXTENSION) (fi_pos iter) iter"

definition find_extension_field :: "pb_field_iter \<Rightarrow> (bool \<times> pb_field_iter) option" where
  "find_extension_field iter =
     iter_search_loop (\<lambda>f. ltype f = PB_LTYPE_EXTENSION) (fi_pos iter) iter"

section \<open>Walking over the fields\<close>

text \<open>
  Where the fields of a message lie: the address of field \<open>k\<close> of the struct at \<open>d\<close>, that of its count
  or presence flag, and its number among the required fields.
\<close>

definition in_union :: "pb_field \<Rightarrow> pb_field \<Rightarrow> bool" where
  "in_union prev f \<longleftrightarrow> htype prev = PB_HTYPE_ONEOF \<and> htype f = PB_HTYPE_ONEOF \<and>
     pf_data_offset f = PB_SIZE_MAX"

definition field_span :: "pb_field \<Rightarrow> nat" where
  "field_span f =
     (if atype f = PB_ATYPE_STATIC \<and> htype f = PB_HTYPE_REPEATED
      then unat (pf_data_size f) * unat (pf_array_size f)
      else if atype f = PB_ATYPE_POINTER then 8 else unat (pf_data_size f))"

fun field_data :: "pb_field list \<Rightarrow> nat \<Rightarrow> nat \<Rightarrow> nat" where
  "field_data fs d 0 = d + unat (pf_data_offset (field_at fs 0))"
| "field_data fs d (Suc k) =
     (if in_union (fs ! k) (fs ! Suc k) then field_data fs d k
      else field_data fs d k + field_span (fs ! k) + unat (pf_data_offset (fs ! Suc k)))"

fun field_size :: "pb_field list \<Rightarrow> nat \<Rightarrow> nat \<Rightarrow> nat" where
  "field_size fs d 0 = size_addr (field_data fs d 0) (field_at fs 0)"
| "field_size fs d (Suc k) =
     (if in_union (fs ! k) (fs ! Suc k) then field_size fs d k
      else size_addr (field_data fs d (Suc k)) (fs ! Suc k))"

fun field_index :: "pb_field list \<Rightarrow> nat \<Rightarrow> u32" where
  "field_index fs 0 = 0"
| "field_index fs (Suc k) =
     (if htype (fs ! k) = PB_HTYPE_REQUIRED then field_index fs k + 1 else field_index fs k)"

definition iter_at :: "pb_field list \<Rightarrow> nat \<Rightarrow> nat \<Rightarrow> pb_field_iter" where
  "iter_at fs d k =
     \<lparr>fi_start = fs, fi_pos = k, fi_required_field_index = field_index fs k,
      fi_dest_struct = d, fi_data = field_data fs d k, fi_size = SizeAt (field_size fs d k)\<rparr>"

definition tagged :: "pb_field list \<Rightarrow> bool" where
  "tagged fs \<longleftrightarrow> (\<forall>f\<in>set fs. pf_tag f \<noteq> 0)"

lemma iter_at_sel [simp]:
  "fi_start (iter_at fs d k) = fs" "fi_pos (iter_at fs d k) = k"
  "fi_required_field_index (iter_at fs d k) = field_index fs k"
  "fi_dest_struct (iter_at fs d k) = d" "fi_data (iter_at fs d k) = field_data fs d k"
  "fi_size (iter_at fs d k) = SizeAt (field_size fs d k)"
  by (simp_all add: iter_at_def)

lemma iter_at_same [simp]: "iter_at fs d k\<lparr>fi_size := SizeAt (field_size fs d k)\<rparr> = iter_at fs d k"
  by (simp add: iter_at_def)

lemma field_at_in [simp]: "k < length fs \<Longrightarrow> field_at fs k = fs ! k"
  by (simp add: field_at_def)

lemma field_at_end [simp]: "length fs \<le> k \<Longrightarrow> field_at fs k = PB_LAST_FIELD"
  by (simp add: field_at_def)

lemma tagged_nth: "tagged fs \<Longrightarrow> k < length fs \<Longrightarrow> pf_tag (fs ! k) \<noteq> 0"
  by (simp add: tagged_def)

lemma last_field_tag [simp]: "pf_tag PB_LAST_FIELD = 0"
  by (simp add: PB_LAST_FIELD_def)

lemma begin_iter: "snd (pb_field_iter_begin fs d) = iter_at fs d 0"
  by (simp add: pb_field_iter_begin_def iter_at_def Let_def)

lemma begin_iter_at:
  "tagged fs \<Longrightarrow> pb_field_iter_begin fs d = (fs \<noteq> [], iter_at fs d 0)"
  using tagged_nth [of fs 0]
  by (cases fs) (simp_all add: pb_field_iter_begin_def iter_at_def Let_def field_at_def)

text \<open>The step is the same when \<open>pSize\<close> was redirected, since it is computed anew.\<close>

lemma next_iter_at:
  assumes "tagged fs" "k < length fs"
    and "z = SizeAt (field_size fs d k) \<or>
      htype (fs ! k) \<noteq> PB_HTYPE_ONEOF"
  shows "pb_field_iter_next (iter_at fs d k\<lparr>fi_size := z\<rparr>) =
    (if Suc k < length fs then (True, iter_at fs d (Suc k)) else (False, iter_at fs d 0))"
proof (cases "Suc k < length fs")
  case True
  have t: "pf_tag (fs ! k) \<noteq> 0" "pf_tag (fs ! Suc k) \<noteq> 0"
    using assms(1,2) True by (simp_all add: tagged_nth)
  show ?thesis
  proof (cases "in_union (fs ! k) (fs ! Suc k)")
    case True
    then have "z = SizeAt (field_size fs d k)" "htype (fs ! k) \<noteq> PB_HTYPE_REQUIRED"
      using assms(3) by (auto simp: in_union_def)
    with True \<open>Suc k < length fs\<close> t show ?thesis
      by (simp add: pb_field_iter_next_def iter_at_def in_union_def)
  next
    case False
    with \<open>Suc k < length fs\<close> t show ?thesis
      by (auto simp add: pb_field_iter_next_def iter_at_def in_union_def field_span_def Let_def)
  qed
next
  case False
  then have "field_at fs (Suc k) = PB_LAST_FIELD" by simp
  with assms(1,2) show ?thesis
    using begin_iter [of fs d] by (simp add: pb_field_iter_next_def tagged_nth False Let_def)
qed

lemma next_iter_at0:
  assumes "tagged fs" "k < length fs"
  shows "pb_field_iter_next (iter_at fs d k) =
    (if Suc k < length fs then (True, iter_at fs d (Suc k)) else (False, iter_at fs d 0))"
  using next_iter_at [OF assms, of "SizeAt (field_size fs d k)" d] by (simp add: iter_at_def)

text \<open>A loop over all fields ends, whatever the descriptors are.\<close>

lemma next_pos_less:
  assumes "pb_field_iter_next it = (True, it')"
  shows "length (fi_start it') - fi_pos it' < length (fi_start it) - fi_pos it"
proof -
  have s: "fi_start it' = fi_start it" "fi_pos it' = Suc (fi_pos it)"
    "pf_tag (field_at (fi_start it) (Suc (fi_pos it))) \<noteq> 0"
    using assms by (auto simp: pb_field_iter_next_def Let_def split: if_splits)
  have "Suc (fi_pos it) < length (fi_start it)"
    using s(3) by (rule contrapos_np) simp
  with s show ?thesis by simp
qed

text \<open>The order in which a search from position \<open>k\<close> visits the \<open>n\<close> fields.\<close>

definition search_order :: "nat \<Rightarrow> nat \<Rightarrow> nat list" where
  "search_order n k = map (\<lambda>i. (k + i) mod n) [0..<n]"

lemma mod_step: "j < (n :: nat) \<Longrightarrow> (if Suc j < n then Suc j else 0) = Suc j mod n"
  by (cases "Suc j < n") (auto simp: not_less le_Suc_eq)

lemma next_mod:
  assumes "tagged fs" "j < length fs"
    and "z = SizeAt (field_size fs d j) \<or> htype (fs ! j) \<noteq> PB_HTYPE_ONEOF"
  shows "snd (pb_field_iter_next (iter_at fs d j\<lparr>fi_size := z\<rparr>)) = iter_at fs d (Suc j mod length fs)"
  using next_iter_at [OF assms] mod_step [OF assms(2)] by (cases "Suc j < length fs") auto

lemma cyclic_back: "k < n \<Longrightarrow> 0 < i \<Longrightarrow> i \<le> n \<Longrightarrow> (k + i) mod n = k \<longleftrightarrow> i = (n :: nat)"
  by (cases "k + i < n") (auto simp: not_less le_mod_geq)

lemma search_from:
  assumes "tagged fs" "k < length fs" "0 < i" "i \<le> length fs"
  shows "(if i = length fs then Some (False, iter_at fs d k)
          else iter_search_loop wanted k (iter_at fs d ((k + i) mod length fs))) =
    Some (case find (\<lambda>j. wanted (fs ! j)) (drop i (search_order (length fs) k)) of
            None \<Rightarrow> (False, iter_at fs d k) | Some j \<Rightarrow> (True, iter_at fs d j))"
  using assms(3,4)
proof (induction "length fs - i" arbitrary: i)
  case 0
  then show ?case by (simp add: search_order_def)
next
  case (Suc m)
  let ?n = "length fs" and ?j = "(k + i) mod length fs"
  have i: "i < ?n" using Suc.hyps(2) by simp
  have j: "?j < ?n" using assms(2) by (intro mod_less_divisor) auto
  have split: "drop i (search_order ?n k) = ?j # drop (Suc i) (search_order ?n k)"
    using i by (subst Cons_nth_drop_Suc [symmetric]) (simp_all add: search_order_def)
  have nxt: "snd (pb_field_iter_next (iter_at fs d ?j)) = iter_at fs d ((k + Suc i) mod ?n)"
    using next_mod [OF assms(1) j, of "SizeAt (field_size fs d ?j)" d]
    by (simp add: iter_at_def mod_Suc_eq)
  have wrap: "(k + Suc i) mod ?n = k \<longleftrightarrow> Suc i = ?n"
    using i by (intro cyclic_back [OF assms(2)]) simp_all
  have "iter_search_loop wanted k (iter_at fs d ?j) =
      (if wanted (fs ! ?j) then Some (True, iter_at fs d ?j)
       else if Suc i \<noteq> ?n then iter_search_loop wanted k (iter_at fs d ((k + Suc i) mod ?n))
       else Some (False, iter_at fs d k))"
    using j nxt wrap by (subst iter_search_loop.simps) (auto simp: Let_def)
  also have "\<dots> = (if wanted (fs ! ?j) then Some (True, iter_at fs d ?j)
      else Some (case find (\<lambda>j. wanted (fs ! j)) (drop (Suc i) (search_order ?n k)) of
            None \<Rightarrow> (False, iter_at fs d k) | Some j \<Rightarrow> (True, iter_at fs d j)))"
    using Suc.hyps(1) [of "Suc i"] Suc.hyps(2) i by auto
  finally show ?case using i split by simp
qed

lemma search_result:
  assumes "tagged fs" "k < length fs"
    and "z = SizeAt (field_size fs d k) \<or> htype (fs ! k) \<noteq> PB_HTYPE_ONEOF"
  shows "iter_search_loop wanted k (iter_at fs d k\<lparr>fi_size := z\<rparr>) =
    Some (if wanted (fs ! k) then (True, iter_at fs d k\<lparr>fi_size := z\<rparr>)
          else (case find (\<lambda>j. wanted (fs ! j)) (search_order (length fs) k) of
                  None \<Rightarrow> (False, iter_at fs d k) | Some j \<Rightarrow> (True, iter_at fs d j)))"
proof (cases "wanted (fs ! k)")
  case True
  then show ?thesis using assms(2) by (subst iter_search_loop.simps) simp
next
  case False
  let ?n = "length fs"
  have split: "search_order ?n k = k # drop 1 (search_order ?n k)"
    using assms(2) by (cases ?n) (simp_all add: search_order_def upt_rec del: upt_Suc)
  have "(k + 1) mod ?n = k \<longleftrightarrow> 1 = ?n"
    using assms(2) by (intro cyclic_back) auto
  then have wrap: "Suc k mod ?n = k \<longleftrightarrow> 1 = ?n" by simp
  have "iter_search_loop wanted k (iter_at fs d k\<lparr>fi_size := z\<rparr>) =
      (if 1 = ?n then Some (False, iter_at fs d k)
       else iter_search_loop wanted k (iter_at fs d ((k + 1) mod ?n)))"
    using False assms(2) wrap next_mod [OF assms] by (subst iter_search_loop.simps) (auto simp: Let_def)
  also have "\<dots> = Some (case find (\<lambda>j. wanted (fs ! j)) (drop 1 (search_order ?n k)) of
            None \<Rightarrow> (False, iter_at fs d k) | Some j \<Rightarrow> (True, iter_at fs d j))"
    using assms(2) by (intro search_from [OF assms(1,2)]) simp_all
  finally show ?thesis using False by (subst split) simp
qed

lemma set_search_order: "k < n \<Longrightarrow> set (search_order n k) = {..<n}"
proof -
  assume k: "k < n"
  have "j \<in> (\<lambda>i. (k + i) mod n) ` {..<n}" if "j < n" for j
  proof (cases "k \<le> j")
    case True
    then show ?thesis using that by (intro image_eqI [of _ _ "j - k"]) simp_all
  next
    case False
    then show ?thesis using that k by (intro image_eqI [of _ _ "n - k + j"]) simp_all
  qed
  then show ?thesis using k by (auto simp: search_order_def atLeast0LessThan)
qed

text \<open>The descriptors of a message have distinct tags, so the search has one answer.\<close>

definition distinct_tags :: "pb_field list \<Rightarrow> bool" where
  "distinct_tags fs \<longleftrightarrow> distinct (map pf_tag fs)"

lemma find_unique:
  assumes "j \<in> set js" "P j" "\<And>i. i \<in> set js \<Longrightarrow> P i \<Longrightarrow> i = j"
  shows "find P js = Some j"
  using assms
proof (induction js)
  case (Cons a js)
  show ?case
  proof (cases "P a")
    case True
    then show ?thesis using Cons.prems(3) [of a] by simp
  next
    case False
    then have "j \<in> set js" using Cons.prems(1,2) by auto
    then have "find P js = Some j" using Cons.prems(2,3) by (intro Cons.IH) auto
    then show ?thesis using False by simp
  qed
qed simp

lemma iter_find_hit:
  assumes "tagged fs" "distinct_tags fs" "k < length fs" "j < length fs"
    and "z = SizeAt (field_size fs d k) \<or> htype (fs ! k) \<noteq> PB_HTYPE_ONEOF"
    and "ltype (fs ! j) \<noteq> PB_LTYPE_EXTENSION"
  shows "pb_field_iter_find (iter_at fs d k\<lparr>fi_size := z\<rparr>) (pf_tag (fs ! j)) =
    Some (True, if j = k then iter_at fs d k\<lparr>fi_size := z\<rparr> else iter_at fs d j)"
proof -
  let ?w = "\<lambda>f. pf_tag f = pf_tag (fs ! j) \<and> ltype f \<noteq> PB_LTYPE_EXTENSION"
  have u: "i = j" if "i < length fs" "pf_tag (fs ! i) = pf_tag (fs ! j)" for i
    using assms(2) that assms(4) nth_eq_iff_index_eq [of "map pf_tag fs" i j]
    by (simp add: distinct_tags_def)
  have "find (\<lambda>i. ?w (fs ! i)) (search_order (length fs) k) = Some j"
    using assms(4,6) u by (intro find_unique) (auto simp: set_search_order [OF assms(3)])
  then show ?thesis
    using search_result [OF assms(1,3,5), of ?w] u [OF assms(3)] assms(6)
    by (auto simp: pb_field_iter_find_def)
qed

lemma iter_find_miss:
  assumes "tagged fs" "k < length fs" "\<forall>f\<in>set fs. pf_tag f = tag \<longrightarrow> ltype f = PB_LTYPE_EXTENSION"
    and "z = SizeAt (field_size fs d k) \<or> htype (fs ! k) \<noteq> PB_HTYPE_ONEOF"
  shows "pb_field_iter_find (iter_at fs d k\<lparr>fi_size := z\<rparr>) tag = Some (False, iter_at fs d k)"
proof -
  let ?w = "\<lambda>f. pf_tag f = tag \<and> ltype f \<noteq> PB_LTYPE_EXTENSION"
  have "find (\<lambda>i. ?w (fs ! i)) (search_order (length fs) k) = None"
    using assms(3) by (auto simp: find_None_iff set_search_order [OF assms(2)])
  moreover have "\<not> ?w (fs ! k)" using assms(2,3) by auto
  ultimately show ?thesis
    using search_result [OF assms(1,2,4), of ?w] by (simp add: pb_field_iter_find_def)
qed

end
