(* ===== verification/PbDecode.thy ===== *)
theory PbDecode
  imports PbField
begin

text \<open>
  nanopb, whole messages in: the descriptor-driven part of \<open>nanopb/pb_decode.c\<close>, with the fields that
  are allocated (\<open>PB_ENABLE_MALLOC\<close>). The state is a memory with its live heap blocks; \<open>realloc\<close> and
  \<open>free\<close> are those of the C library over an allocator that is a parameter, as are the descriptors and the
  user's callbacks. \<open>None\<close> stands for a call that does not return within the fuel or has no defined
  behaviour: a missing decoder, a division by zero, the release of a block that is not live. The fuel
  \<open>d\<close> bounds the nesting of descriptors, the lists of extensions and the calls of one callback; the
  fuel of the loop over the input, the number of its bytes. That a pointer points to an object is
  not tracked.
\<close>

unbundle bit_operations_syntax

section \<open>Memory\<close>

text \<open>\<open>pm_fixed\<close> is the variable \<open>fixed_count_size\<close> of the running \<open>pb_decode_noinit\<close>.\<close>

record pb_mem =
  pm_bytes :: mem
  pm_blocks :: "nat \<Rightarrow> u64 option"
  pm_fixed :: u32

text \<open>
  \<open>de_malloc\<close> gives the address of a new block, or 0. A callback on a stream over the bytes of one
  value is a parameter of its own, since the state of that stream has another type.
\<close>

record 's dec_env =
  de_descs :: "nat \<Rightarrow> pb_field list"
  de_malloc :: "pb_mem \<Rightarrow> u64 \<Rightarrow> nat"
  de_callback :: "nat \<Rightarrow> 's pb_istream \<Rightarrow> pb_mem \<Rightarrow> pb_field \<Rightarrow> nat \<Rightarrow> bool \<times> 's pb_istream \<times> pb_mem"
  de_callback_raw :: "nat \<Rightarrow> ibuf pb_istream \<Rightarrow> pb_mem \<Rightarrow> pb_field \<Rightarrow> nat \<Rightarrow> bool \<times> pb_mem"
  de_extension :: "nat \<Rightarrow> 's pb_istream \<Rightarrow> pb_mem \<Rightarrow> nat \<Rightarrow> u32 \<Rightarrow> pb_wire_type \<Rightarrow>
    bool \<times> 's pb_istream \<times> pb_mem"

type_synonym 's dec_result = "(bool \<times> 's pb_istream \<times> pb_mem) option"
type_synonym 's msg_decoder = "'s pb_istream \<Rightarrow> pb_field list \<Rightarrow> pb_mem \<Rightarrow> nat \<Rightarrow> 's dec_result"

definition pm_put :: "pb_mem \<Rightarrow> nat \<Rightarrow> u8 list \<Rightarrow> pb_mem" where
  "pm_put pm a bs = pm\<lparr>pm_bytes := put_bytes (pm_bytes pm) a bs\<rparr>"

text \<open>Reading and writing through \<open>pSize\<close>, as a \<open>pb_size_t\<close> and as a \<open>bool\<close>.\<close>

definition size_get :: "pb_mem \<Rightarrow> size_ref \<Rightarrow> u32" where
  "size_get pm r = (case r of SizeAt a \<Rightarrow> load32 (pm_bytes pm) a | SizeLocal \<Rightarrow> pm_fixed pm)"

definition size_put :: "pb_mem \<Rightarrow> size_ref \<Rightarrow> u32 \<Rightarrow> pb_mem" where
  "size_put pm r w =
     (case r of SizeAt a \<Rightarrow> pm_put pm a (le_bytes 4 w) | SizeLocal \<Rightarrow> pm\<lparr>pm_fixed := w\<rparr>)"

definition has_put :: "pb_mem \<Rightarrow> size_ref \<Rightarrow> bool \<Rightarrow> pb_mem" where
  "has_put pm r b =
     (case r of SizeAt a \<Rightarrow> pm_put pm a [if b then 1 else 0]
      | SizeLocal \<Rightarrow> pm\<lparr>pm_fixed := (pm_fixed pm AND NOT 0xFF) OR (if b then 1 else 0)\<rparr>)"

definition pb_realloc :: "'s dec_env \<Rightarrow> pb_mem \<Rightarrow> nat \<Rightarrow> u64 \<Rightarrow> (nat \<times> pb_mem) option" where
  "pb_realloc E pm ptr sz =
     (if ptr \<noteq> 0 \<and> pm_blocks pm ptr = None then None
      else
        let a = de_malloc E pm sz;
            old = (case pm_blocks pm ptr of None \<Rightarrow> 0 | Some n \<Rightarrow> unat n)
        in if a = 0 then Some (0, pm)
           else Some (a, pm\<lparr>pm_bytes := put_bytes (pm_bytes pm) a
                              (load_bytes (pm_bytes pm) ptr (min old (unat sz))),
                            pm_blocks := (pm_blocks pm)(ptr := None, a := Some sz)\<rparr>))"

definition pb_free :: "pb_mem \<Rightarrow> nat \<Rightarrow> pb_mem option" where
  "pb_free pm ptr =
     (if ptr = 0 then Some pm
      else if pm_blocks pm ptr = None then None
      else Some (pm\<lparr>pm_blocks := (pm_blocks pm)(ptr := None)\<rparr>))"

definition allocate_field ::
    "'s dec_env \<Rightarrow> 's pb_istream \<Rightarrow> pb_mem \<Rightarrow> nat \<Rightarrow> u64 \<Rightarrow> u64 \<Rightarrow> 's dec_result" where
  "allocate_field E s pm pData data_size array_size =
     (let ptr = load_ptr (pm_bytes pm) pData;
          check_limit = push_bit 32 1
      in
      if data_size = 0 \<or> array_size = 0 then Some (False, is_set_error ''invalid size'' s, pm)
      else if (data_size \<ge> check_limit \<or> array_size \<ge> check_limit) \<and> (- 1) div array_size < data_size
        then Some (False, is_set_error ''size too large'' s, pm)
      else
        (case pb_realloc E pm ptr (array_size * data_size) of
           None \<Rightarrow> None
         | Some (ptr, pm) \<Rightarrow>
             if ptr = 0 then Some (False, is_set_error ''realloc failed'' s, pm)
             else Some (True, s, pm\<lparr>pm_bytes := store_ptr (pm_bytes pm) pData ptr\<rparr>)))"

lemma allocate_field_stream:
  "allocate_field E s pm a n k = Some (ok, s', pm') \<Longrightarrow> is_bytes_left s' = is_bytes_left s"
  by (auto simp: allocate_field_def is_set_error_def Let_def split: if_splits option.splits)

section \<open>Decoders of numbers\<close>

text \<open>The stores of \<open>pb_dec_varint\<close>, \<open>pb_dec_svarint\<close> and \<open>pb_dec_uvarint\<close> with \<open>clamped\<close>.\<close>

definition store_signed :: "mem \<Rightarrow> nat \<Rightarrow> u32 \<Rightarrow> u64 \<Rightarrow> (u64 \<times> mem) option" where
  "store_signed m dest sz v =
     (if sz = 8 then Some (v, put_bytes m dest (le_bytes 8 v))
      else if sz = 4 then Some (scast (ucast v :: u32), put_bytes m dest (le_bytes 4 v))
      else if sz = 2 then Some (scast (ucast v :: u16), put_bytes m dest (le_bytes 2 v))
      else if sz = 1 then Some (scast (ucast v :: u8), put_bytes m dest (le_bytes 1 v))
      else None)"

definition store_unsigned :: "mem \<Rightarrow> nat \<Rightarrow> u32 \<Rightarrow> u64 \<Rightarrow> (u64 \<times> mem) option" where
  "store_unsigned m dest sz v =
     (if sz = 8 then Some (v, put_bytes m dest (le_bytes 8 v))
      else if sz = 4 then Some (ucast (ucast v :: u32), put_bytes m dest (le_bytes 4 v))
      else if sz = 2 then Some (ucast (ucast v :: u16), put_bytes m dest (le_bytes 2 v))
      else if sz = 1 then Some (ucast (ucast v :: u8), put_bytes m dest (le_bytes 1 v))
      else None)"

definition pb_dec_varint ::
    "'s pb_istream \<Rightarrow> pb_field \<Rightarrow> mem \<Rightarrow> nat \<Rightarrow> bool \<times> 's pb_istream \<times> mem" where
  "pb_dec_varint s field m dest =
     (case pb_decode_varint s of (ok, v, s) \<Rightarrow>
        if \<not> ok then (False, s, m)
        else
          let svalue = (if pf_data_size field = 8 then v else scast (ucast v :: u32)) in
          (case store_signed m dest (pf_data_size field) svalue of
             None \<Rightarrow> (False, is_set_error ''invalid data_size'' s, m)
           | Some (clamped, m) \<Rightarrow>
               if clamped \<noteq> svalue then (False, is_set_error ''integer too large'' s, m)
               else (True, s, m)))"

definition pb_dec_uvarint ::
    "'s pb_istream \<Rightarrow> pb_field \<Rightarrow> mem \<Rightarrow> nat \<Rightarrow> bool \<times> 's pb_istream \<times> mem" where
  "pb_dec_uvarint s field m dest =
     (case pb_decode_varint s of (ok, v, s) \<Rightarrow>
        if \<not> ok then (False, s, m)
        else
          (case store_unsigned m dest (pf_data_size field) v of
             None \<Rightarrow> (False, is_set_error ''invalid data_size'' s, m)
           | Some (clamped, m) \<Rightarrow>
               if clamped \<noteq> v then (False, is_set_error ''integer too large'' s, m)
               else (True, s, m)))"

definition pb_dec_svarint ::
    "'s pb_istream \<Rightarrow> pb_field \<Rightarrow> mem \<Rightarrow> nat \<Rightarrow> bool \<times> 's pb_istream \<times> mem" where
  "pb_dec_svarint s field m dest =
     (case pb_decode_svarint s of (ok, v, s) \<Rightarrow>
        if \<not> ok then (False, s, m)
        else
          (case store_signed m dest (pf_data_size field) v of
             None \<Rightarrow> (False, is_set_error ''invalid data_size'' s, m)
           | Some (clamped, m) \<Rightarrow>
               if clamped \<noteq> v then (False, is_set_error ''integer too large'' s, m)
               else (True, s, m)))"

definition pb_dec_fixed32 ::
    "'s pb_istream \<Rightarrow> pb_field \<Rightarrow> mem \<Rightarrow> nat \<Rightarrow> bool \<times> 's pb_istream \<times> mem" where
  "pb_dec_fixed32 s field m dest =
     (case pb_decode_fixed32 s of (ok, v, s) \<Rightarrow>
        (ok, s, if ok then put_bytes m dest (le_bytes 4 v) else m))"

definition pb_dec_fixed64 ::
    "'s pb_istream \<Rightarrow> pb_field \<Rightarrow> mem \<Rightarrow> nat \<Rightarrow> bool \<times> 's pb_istream \<times> mem" where
  "pb_dec_fixed64 s field m dest =
     (case pb_decode_fixed64 s of (ok, v, s) \<Rightarrow>
        (ok, s, if ok then put_bytes m dest (le_bytes 8 v) else m))"

text \<open>The entries of the table of decoders up to \<open>PB_LTYPE_LAST_PACKABLE\<close>.\<close>

definition pb_dec_packable ::
    "u8 \<Rightarrow> 's pb_istream \<Rightarrow> pb_field \<Rightarrow> pb_mem \<Rightarrow> nat \<Rightarrow> bool \<times> 's pb_istream \<times> pb_mem" where
  "pb_dec_packable lt s field pm dest =
     (case (if lt = PB_LTYPE_VARINT then pb_dec_varint s field (pm_bytes pm) dest
            else if lt = PB_LTYPE_UVARINT then pb_dec_uvarint s field (pm_bytes pm) dest
            else if lt = PB_LTYPE_SVARINT then pb_dec_svarint s field (pm_bytes pm) dest
            else if lt = PB_LTYPE_FIXED32 then pb_dec_fixed32 s field (pm_bytes pm) dest
            else pb_dec_fixed64 s field (pm_bytes pm) dest) of
        (ok, s, m) \<Rightarrow> (ok, s, pm\<lparr>pm_bytes := m\<rparr>))"

text \<open>Each of them reads at least a byte.\<close>

lemma varint64_loop_dec:
  "varint64_loop s r b = (True, v, s') \<Longrightarrow> unat (is_bytes_left s') < unat (is_bytes_left s)"
proof (induction s r b rule: varint64_loop.induct)
  case (1 s r b)
  from "1.prems" have b: "\<not> b \<ge> 64"
    by (subst (asm) varint64_loop.simps) (auto split: if_splits)
  obtain ok byte s1 where rb: "pb_readbyte s = (ok, byte, s1)" by (cases "pb_readbyte s")
  from "1.prems" b rb have ok by (subst (asm) varint64_loop.simps) (auto split: if_splits)
  with rb have dec: "unat (is_bytes_left s1) < unat (is_bytes_left s)"
    by (simp add: pb_readbyte_dec)
  show ?case
  proof (cases "byte AND 0x80 \<noteq> 0")
    case True
    with "1.prems" b rb \<open>ok\<close> have
      "varint64_loop s1 (r OR push_bit (unat b) (ucast (byte AND 0x7F))) (b + 7) = (True, v, s')"
      by (subst (asm) varint64_loop.simps) (simp add: Let_def)
    with "1.IH" [OF b rb [symmetric] refl _ refl refl True] \<open>ok\<close> dec show ?thesis by simp
  next
    case False
    with "1.prems" b rb \<open>ok\<close> dec show ?thesis
      by (subst (asm) varint64_loop.simps) (simp add: Let_def)
  qed
qed

lemma pb_read_true_dec:
  "pb_read s True n = (True, bs, s') \<Longrightarrow> 0 < n \<Longrightarrow> unat (is_bytes_left s') < unat (is_bytes_left s)"
  using pb_read_call_dec [of s True n bs s'] by (auto simp: pb_read_def word_le_nat_alt word_less_nat_alt)

lemma pb_dec_packable_dec:
  assumes "pb_dec_packable lt s field pm dest = (True, s', pm')"
  shows "unat (is_bytes_left s') < unat (is_bytes_left s)"
proof -
  consider "lt = PB_LTYPE_VARINT" | "lt = PB_LTYPE_UVARINT" | "lt = PB_LTYPE_SVARINT"
    | "lt = PB_LTYPE_FIXED32"
    | "lt \<noteq> 0" "lt \<noteq> 1" "lt \<noteq> 2" "lt \<noteq> 3" by blast
  then show ?thesis
    using assms
    by cases
      (auto simp: pb_dec_packable_def pb_dec_varint_def pb_dec_uvarint_def pb_dec_svarint_def
        pb_dec_fixed32_def pb_dec_fixed64_def pb_decode_varint_def pb_decode_svarint_def
        pb_decode_fixed32_def pb_decode_fixed64_def Let_def
        split: prod.splits if_splits option.splits
        dest: varint64_loop_dec pb_read_true_dec)
qed

section \<open>Iterators of extensions\<close>

text \<open>The layout of \<open>pb_extension_t\<close> is that of \<open>PbEncode\<close>.\<close>

definition extension_descs :: "'s dec_env \<Rightarrow> pb_mem \<Rightarrow> nat \<Rightarrow> pb_field list" where
  "extension_descs E pm extension =
     de_descs E (load_ptr (pm_bytes pm) (load_ptr (pm_bytes pm) extension + 16))"

definition iter_from_extension :: "'s dec_env \<Rightarrow> pb_mem \<Rightarrow> nat \<Rightarrow> pb_field_iter" where
  "iter_from_extension E pm extension =
     (let fs = extension_descs E pm extension;
          dest = load_ptr (pm_bytes pm) (extension + 8);
          iter = snd (pb_field_iter_begin fs dest)
      in iter\<lparr>fi_data := (if atype (field_at fs 0) = PB_ATYPE_POINTER then extension + 8 else dest),
              fi_size := SizeAt (extension + 24)\<rparr>)"

section \<open>Default values\<close>

function default_fields_loop ::
    "(pb_field_iter \<Rightarrow> pb_mem \<Rightarrow> pb_mem option) \<Rightarrow> pb_field_iter \<Rightarrow> pb_mem \<Rightarrow> pb_mem option" where
  "default_fields_loop set_default iter pm =
     (case set_default iter pm of
        None \<Rightarrow> None
      | Some pm \<Rightarrow>
          (case pb_field_iter_next iter of (going, iter') \<Rightarrow>
             if going then default_fields_loop set_default iter' pm else Some pm))"
  by pat_completeness auto
termination
  by (relation "measure (\<lambda>(f, it, pm). length (fi_start it) - fi_pos it)")
    (simp_all add: next_pos_less [OF sym])

declare default_fields_loop.simps [simp del]

definition message_defaults ::
    "(pb_field_iter \<Rightarrow> pb_mem \<Rightarrow> pb_mem option) \<Rightarrow> pb_field list \<Rightarrow> nat \<Rightarrow> pb_mem \<Rightarrow> pb_mem option" where
  "message_defaults set_default fs dest_struct pm =
     (case pb_field_iter_begin fs dest_struct of (nonempty, iter) \<Rightarrow>
        if \<not> nonempty then Some pm else default_fields_loop set_default iter pm)"

primrec extension_defaults_loop ::
    "'s dec_env \<Rightarrow> (pb_field_iter \<Rightarrow> pb_mem \<Rightarrow> pb_mem option) \<Rightarrow> nat \<Rightarrow> nat \<Rightarrow> pb_mem \<Rightarrow> pb_mem option" where
  "extension_defaults_loop E set_default 0 ext pm = (if ext = 0 then Some pm else None)"
| "extension_defaults_loop E set_default (Suc k) ext pm =
     (if ext = 0 then Some pm
      else
        let pm = pm_put pm (ext + 24) [0] in
        (case set_default (iter_from_extension E pm ext) pm of
           None \<Rightarrow> None
         | Some pm \<Rightarrow>
             extension_defaults_loop E set_default k (load_ptr (pm_bytes pm) (ext + 16)) pm))"

primrec pb_field_set_to_default ::
    "'s dec_env \<Rightarrow> nat \<Rightarrow> pb_field_iter \<Rightarrow> pb_mem \<Rightarrow> pb_mem option" where
  "pb_field_set_to_default E 0 iter pm = None"
| "pb_field_set_to_default E (Suc n) iter pm =
     (let field = iter_field iter; pData = fi_data iter; pSize = fi_size iter in
      if ltype field = PB_LTYPE_EXTENSION then
        extension_defaults_loop E (pb_field_set_to_default E n) n (load_ptr (pm_bytes pm) pData) pm
      else if atype field = PB_ATYPE_STATIC then
        (case (if htype field = PB_HTYPE_OPTIONAL \<and> pSize \<noteq> SizeAt pData
                 then (True, has_put pm pSize False)
               else if htype field = PB_HTYPE_REPEATED \<or> htype field = PB_HTYPE_ONEOF
                 then (False, size_put pm pSize 0)
               else (True, pm)) of
           (init_data, pm) \<Rightarrow>
             if \<not> init_data then Some pm
             else if ltype field = PB_LTYPE_SUBMESSAGE
               then message_defaults (pb_field_set_to_default E n) (de_descs E (pf_ptr field)) pData pm
             else if pf_ptr field \<noteq> 0
               then Some (pm_put pm pData
                 (load_bytes (pm_bytes pm) (pf_ptr field) (unat (pf_data_size field))))
             else Some (pm_put pm pData (replicate (unat (pf_data_size field)) 0)))
      else if atype field = PB_ATYPE_POINTER then
        let pm = pm\<lparr>pm_bytes := store_ptr (pm_bytes pm) pData 0\<rparr> in
        if htype field = PB_HTYPE_REPEATED \<or> htype field = PB_HTYPE_ONEOF
        then Some (size_put pm pSize 0) else Some pm
      else Some pm)"

definition pb_message_set_to_defaults ::
    "'s dec_env \<Rightarrow> nat \<Rightarrow> pb_field list \<Rightarrow> nat \<Rightarrow> pb_mem \<Rightarrow> pb_mem option" where
  "pb_message_set_to_defaults E n = message_defaults (pb_field_set_to_default E n)"

section \<open>Release of allocated fields\<close>

function release_fields_loop ::
    "(pb_field_iter \<Rightarrow> pb_mem \<Rightarrow> pb_mem option) \<Rightarrow> pb_field_iter \<Rightarrow> pb_mem \<Rightarrow> pb_mem option" where
  "release_fields_loop release iter pm =
     (case release iter pm of
        None \<Rightarrow> None
      | Some pm \<Rightarrow>
          (case pb_field_iter_next iter of (going, iter') \<Rightarrow>
             if going then release_fields_loop release iter' pm else Some pm))"
  by pat_completeness auto
termination
  by (relation "measure (\<lambda>(f, it, pm). length (fi_start it) - fi_pos it)")
    (simp_all add: next_pos_less [OF sym])

declare release_fields_loop.simps [simp del]

definition release_message ::
    "(pb_field_iter \<Rightarrow> pb_mem \<Rightarrow> pb_mem option) \<Rightarrow> pb_field list \<Rightarrow> nat \<Rightarrow> pb_mem \<Rightarrow> pb_mem option" where
  "release_message release fs dest_struct pm =
     (if dest_struct = 0 then Some pm
      else
        (case pb_field_iter_begin fs dest_struct of (nonempty, iter) \<Rightarrow>
           if \<not> nonempty then Some pm else release_fields_loop release iter pm))"

text \<open>The loops of \<open>pb_release_single_field\<close>: extensions, submessages, strings of an array.\<close>

primrec release_extensions ::
    "'s dec_env \<Rightarrow> (pb_field_iter \<Rightarrow> pb_mem \<Rightarrow> pb_mem option) \<Rightarrow> nat \<Rightarrow> nat \<Rightarrow> pb_mem \<Rightarrow> pb_mem option" where
  "release_extensions E release 0 ext pm = (if ext = 0 then Some pm else None)"
| "release_extensions E release (Suc k) ext pm =
     (if ext = 0 then Some pm
      else
        (case release (iter_from_extension E pm ext) pm of
           None \<Rightarrow> None
         | Some pm \<Rightarrow> release_extensions E release k (load_ptr (pm_bytes pm) (ext + 16)) pm))"

primrec release_items ::
    "(nat \<Rightarrow> pb_mem \<Rightarrow> pb_mem option) \<Rightarrow> nat \<Rightarrow> nat \<Rightarrow> nat \<Rightarrow> pb_mem \<Rightarrow> pb_mem option" where
  "release_items release sz 0 pItem pm = Some pm"
| "release_items release sz (Suc count) pItem pm =
     (case release pItem pm of
        None \<Rightarrow> None
      | Some pm \<Rightarrow> release_items release sz count (pItem + sz) pm)"

primrec release_strings :: "nat \<Rightarrow> nat \<Rightarrow> pb_mem \<Rightarrow> pb_mem option" where
  "release_strings 0 pItem pm = Some pm"
| "release_strings (Suc count) pItem pm =
     (case pb_free pm (load_ptr (pm_bytes pm) pItem) of
        None \<Rightarrow> None
      | Some pm \<Rightarrow>
          release_strings count (pItem + 8) (pm\<lparr>pm_bytes := store_ptr (pm_bytes pm) pItem 0\<rparr>))"

text \<open>The number of submessages, and the release of the main item.\<close>

definition release_count :: "pb_field_iter \<Rightarrow> pb_mem \<Rightarrow> u32" where
  "release_count iter pm =
     (let field = iter_field iter in
      if htype field = PB_HTYPE_REPEATED then
        let count = (if atype field = PB_ATYPE_STATIC \<and> fi_size iter = SizeAt (fi_data iter)
                     then pf_array_size field else size_get pm (fi_size iter))
        in if atype field = PB_ATYPE_STATIC \<and> count > pf_array_size field
           then pf_array_size field else count
      else 1)"

definition release_pointer :: "pb_field_iter \<Rightarrow> pb_mem \<Rightarrow> pb_mem option" where
  "release_pointer iter pm =
     (let field = iter_field iter; pData = fi_data iter in
      case (if htype field = PB_HTYPE_REPEATED \<and>
               (ltype field = PB_LTYPE_STRING \<or> ltype field = PB_LTYPE_BYTES)
            then release_strings (unat (size_get pm (fi_size iter))) (load_ptr (pm_bytes pm) pData) pm
            else Some pm) of
        None \<Rightarrow> None
      | Some pm \<Rightarrow>
          let pm = (if htype field = PB_HTYPE_REPEATED then size_put pm (fi_size iter) 0 else pm) in
          (case pb_free pm (load_ptr (pm_bytes pm) pData) of
             None \<Rightarrow> None
           | Some pm \<Rightarrow> Some (pm\<lparr>pm_bytes := store_ptr (pm_bytes pm) pData 0\<rparr>)))"

primrec pb_release_single_field ::
    "'s dec_env \<Rightarrow> nat \<Rightarrow> pb_field_iter \<Rightarrow> pb_mem \<Rightarrow> pb_mem option" where
  "pb_release_single_field E 0 iter pm = None"
| "pb_release_single_field E (Suc n) iter pm =
     (let field = iter_field iter; pData = fi_data iter in
      if htype field = PB_HTYPE_ONEOF \<and> size_get pm (fi_size iter) \<noteq> pf_tag field then Some pm
      else
        (case (if ltype field = PB_LTYPE_EXTENSION then
                 release_extensions E (pb_release_single_field E n) n (load_ptr (pm_bytes pm) pData) pm
               else if ltype field = PB_LTYPE_SUBMESSAGE then
                 let pItem = (if atype field = PB_ATYPE_POINTER then load_ptr (pm_bytes pm) pData
                              else pData) in
                 if pItem \<noteq> 0 then
                   release_items
                     (release_message (pb_release_single_field E n) (de_descs E (pf_ptr field)))
                     (unat (pf_data_size field)) (unat (release_count iter pm)) pItem pm
                 else Some pm
               else Some pm) of
           None \<Rightarrow> None
         | Some pm \<Rightarrow>
             if atype field = PB_ATYPE_POINTER then release_pointer iter pm else Some pm))"

definition pb_release :: "'s dec_env \<Rightarrow> nat \<Rightarrow> pb_field list \<Rightarrow> nat \<Rightarrow> pb_mem \<Rightarrow> pb_mem option" where
  "pb_release E n = release_message (pb_release_single_field E n)"

text \<open>
  \<open>pb_release_union_field\<close> moves the iterator to the field that the union holds and back. The result
  has the status, the stream, the iterator and the memory.
\<close>

definition pb_release_union_field ::
    "'s dec_env \<Rightarrow> nat \<Rightarrow> 's pb_istream \<Rightarrow> pb_field_iter \<Rightarrow> pb_mem \<Rightarrow>
     (bool \<times> 's pb_istream \<times> pb_field_iter \<times> pb_mem) option" where
  "pb_release_union_field E n s iter pm =
     (let old_tag = size_get pm (fi_size iter); new_tag = pf_tag (iter_field iter) in
      if old_tag = 0 then Some (True, s, iter, pm)
      else if old_tag = new_tag then Some (True, s, iter, pm)
      else
        (case pb_field_iter_find iter old_tag of
           None \<Rightarrow> None
         | Some (found, iter) \<Rightarrow>
             if \<not> found then Some (False, is_set_error ''invalid union tag'' s, iter, pm)
             else
               (case pb_release_single_field E n iter pm of
                  None \<Rightarrow> None
                | Some pm \<Rightarrow>
                    (case pb_field_iter_find iter new_tag of
                       None \<Rightarrow> None
                     | Some (found, iter) \<Rightarrow>
                         if \<not> found then Some (False, is_set_error ''iterator error'' s, iter, pm)
                         else Some (True, s, iter, pm)))))"

section \<open>Decoders of bytes, strings and submessages\<close>

definition pb_dec_bytes ::
    "'s dec_env \<Rightarrow> 's pb_istream \<Rightarrow> pb_field \<Rightarrow> pb_mem \<Rightarrow> nat \<Rightarrow> 's dec_result" where
  "pb_dec_bytes E s field pm dest =
     (case pb_decode_varint32 s of (ok, sz, s) \<Rightarrow>
        if \<not> ok then Some (False, s, pm)
        else if sz > PB_SIZE_MAX then Some (False, is_set_error ''bytes overflow'' s, pm)
        else
          let alloc_size = (ucast sz :: u64) + 4 in
          if ucast sz > alloc_size then Some (False, is_set_error ''size too large'' s, pm)
          else
            (case (if atype field = PB_ATYPE_POINTER then allocate_field E s pm dest alloc_size 1
                   else if alloc_size > ucast (pf_data_size field)
                     then Some (False, is_set_error ''bytes overflow'' s, pm)
                   else Some (True, s, pm)) of
               None \<Rightarrow> None
             | Some (ok, s, pm) \<Rightarrow>
                 if \<not> ok then Some (False, s, pm)
                 else
                   let bdest = (if atype field = PB_ATYPE_POINTER then load_ptr (pm_bytes pm) dest
                                else dest);
                       pm = pm_put pm bdest (le_bytes 4 sz)
                   in (case pb_read s True (ucast sz) of (ok, bytes, s) \<Rightarrow>
                         Some (ok, s, pm_put pm (bdest + 4) bytes))))"

definition pb_dec_string ::
    "'s dec_env \<Rightarrow> 's pb_istream \<Rightarrow> pb_field \<Rightarrow> pb_mem \<Rightarrow> nat \<Rightarrow> 's dec_result" where
  "pb_dec_string E s field pm dest0 =
     (case pb_decode_varint32 s of (ok, sz, s) \<Rightarrow>
        if \<not> ok then Some (False, s, pm)
        else
          let alloc_size = (ucast (sz + 1) :: u64) in
          if alloc_size < ucast sz then Some (False, is_set_error ''size too large'' s, pm)
          else
            (case (if atype field = PB_ATYPE_POINTER then allocate_field E s pm dest0 alloc_size 1
                   else if alloc_size > ucast (pf_data_size field)
                     then Some (False, is_set_error ''string overflow'' s, pm)
                   else Some (True, s, pm)) of
               None \<Rightarrow> None
             | Some (ok, s, pm) \<Rightarrow>
                 if \<not> ok then Some (False, s, pm)
                 else
                   let dest = (if atype field = PB_ATYPE_POINTER then load_ptr (pm_bytes pm) dest0
                               else dest0)
                   in (case pb_read s True (ucast sz) of (status, bytes, s) \<Rightarrow>
                         Some (status, s, pm_put (pm_put pm dest bytes) (dest + unat sz) [0]))))"

definition pb_dec_fixed_length_bytes ::
    "'s pb_istream \<Rightarrow> pb_field \<Rightarrow> pb_mem \<Rightarrow> nat \<Rightarrow> bool \<times> 's pb_istream \<times> pb_mem" where
  "pb_dec_fixed_length_bytes s field pm dest =
     (case pb_decode_varint32 s of (ok, sz, s) \<Rightarrow>
        if \<not> ok then (False, s, pm)
        else if sz > PB_SIZE_MAX then (False, is_set_error ''bytes overflow'' s, pm)
        else if sz = 0 then (True, s, pm_put pm dest (replicate (unat (pf_data_size field)) 0))
        else if sz \<noteq> pf_data_size field
          then (False, is_set_error ''incorrect fixed length bytes size'' s, pm)
        else
          (case pb_read s True (ucast (pf_data_size field)) of (ok, bytes, s) \<Rightarrow>
             (ok, s, pm_put pm dest bytes)))"

text \<open>\<open>pb_decode\<close> over the decoder that does not set default values.\<close>

definition decode_message :: "'s dec_env \<Rightarrow> nat \<Rightarrow> 's msg_decoder \<Rightarrow> 's msg_decoder" where
  "decode_message E d noinit s fs pm dest_struct =
     (case pb_message_set_to_defaults E d fs dest_struct pm of
        None \<Rightarrow> None
      | Some pm \<Rightarrow>
          (case noinit s fs pm dest_struct of
             None \<Rightarrow> None
           | Some (status, s, pm) \<Rightarrow>
               if \<not> status
               then map_option (\<lambda>pm. (False, s, pm)) (pb_release E d fs dest_struct pm)
               else Some (True, s, pm)))"

definition pb_dec_submessage ::
    "'s dec_env \<Rightarrow> nat \<Rightarrow> 's msg_decoder \<Rightarrow> 's pb_istream \<Rightarrow> pb_field \<Rightarrow> pb_mem \<Rightarrow> nat \<Rightarrow> 's dec_result" where
  "pb_dec_submessage E d noinit s field pm dest =
     (case pb_make_string_substream s of (ok, substream, s) \<Rightarrow>
        if \<not> ok then Some (False, s, pm)
        else if pf_ptr field = 0 then Some (False, is_set_error ''invalid field descriptor'' s, pm)
        else
          (case (if htype field = PB_HTYPE_REPEATED
                 then decode_message E d noinit substream (de_descs E (pf_ptr field)) pm dest
                 else noinit substream (de_descs E (pf_ptr field)) pm dest) of
             None \<Rightarrow> None
           | Some (status, substream, pm) \<Rightarrow>
               (case pb_close_string_substream s substream of (ok, _, s) \<Rightarrow>
                  if \<not> ok then Some (False, s, pm) else Some (status, s, pm))))"

definition PB_DECODERS ::
    "'s dec_env \<Rightarrow> nat \<Rightarrow> 's msg_decoder \<Rightarrow> u8 \<Rightarrow> 's pb_istream \<Rightarrow> pb_field \<Rightarrow> pb_mem \<Rightarrow> nat \<Rightarrow> 's dec_result" where
  "PB_DECODERS E d noinit lt s field pm dest =
     (if lt \<le> PB_LTYPE_LAST_PACKABLE then Some (pb_dec_packable lt s field pm dest)
      else if lt = PB_LTYPE_BYTES then pb_dec_bytes E s field pm dest
      else if lt = PB_LTYPE_STRING then pb_dec_string E s field pm dest
      else if lt = PB_LTYPE_SUBMESSAGE then pb_dec_submessage E d noinit s field pm dest
      else if lt = PB_LTYPE_FIXED_LENGTH_BYTES
        then Some (pb_dec_fixed_length_bytes s field pm dest)
      else None)"

section \<open>Static fields\<close>

text \<open>The loop over the items of a packed array in a struct.\<close>

function packed_loop ::
    "pb_field \<Rightarrow> nat \<Rightarrow> size_ref \<Rightarrow> 's pb_istream \<Rightarrow> pb_mem \<Rightarrow> bool \<times> 's pb_istream \<times> pb_mem" where
  "packed_loop field pData pSize substream pm =
     (if is_bytes_left substream > 0 \<and> size_get pm pSize < pf_array_size field then
        let pItem = pData + unat (pf_data_size field * size_get pm pSize) in
        (case pb_dec_packable (ltype field) substream field pm pItem of (ok, substream, pm) \<Rightarrow>
           if \<not> ok then (False, substream, pm)
           else packed_loop field pData pSize substream (size_put pm pSize (size_get pm pSize + 1)))
      else (True, substream, pm))"
  by pat_completeness auto
termination
  by (relation "measure (\<lambda>(f, p, r, s, pm). unat (is_bytes_left s))")
    (auto dest: pb_dec_packable_dec [OF sym])

declare packed_loop.simps [simp del]

definition decode_static_field ::
    "'s dec_env \<Rightarrow> nat \<Rightarrow> 's msg_decoder \<Rightarrow> 's pb_istream \<Rightarrow> pb_wire_type \<Rightarrow> pb_field_iter \<Rightarrow>
     pb_mem \<Rightarrow> 's dec_result" where
  "decode_static_field E d noinit s wire_type iter pm =
     (let field = iter_field iter; pData = fi_data iter; pSize = fi_size iter;
          func = PB_DECODERS E d noinit (ltype field)
      in
      if htype field = PB_HTYPE_REQUIRED then func s field pm pData
      else if htype field = PB_HTYPE_OPTIONAL then
        func s field (if pSize \<noteq> SizeAt pData then has_put pm pSize True else pm) pData
      else if htype field = PB_HTYPE_REPEATED then
        if wire_type = PB_WT_STRING \<and> ltype field \<le> PB_LTYPE_LAST_PACKABLE then
          (case pb_make_string_substream s of (ok, substream, s) \<Rightarrow>
             if \<not> ok then Some (False, s, pm)
             else
               (case packed_loop field pData pSize substream pm of (status, substream, pm) \<Rightarrow>
                  if is_bytes_left substream \<noteq> 0
                    then Some (False, is_set_error ''array overflow'' s, pm)
                  else
                    (case pb_close_string_substream s substream of (ok, _, s) \<Rightarrow>
                       if \<not> ok then Some (False, s, pm) else Some (status, s, pm))))
        else
          let sz = size_get pm pSize;
              pItem = pData + unat (pf_data_size field * sz);
              pm = size_put pm pSize (sz + 1)
          in if sz \<ge> pf_array_size field then Some (False, is_set_error ''array overflow'' s, pm)
             else func s field pm pItem
      else if htype field = PB_HTYPE_ONEOF then
        let pm = size_put pm pSize (pf_tag field) in
        (case (if ltype field = PB_LTYPE_SUBMESSAGE then
                 pb_message_set_to_defaults E d (de_descs E (pf_ptr field)) pData
                   (pm_put pm pData (replicate (unat (pf_data_size field)) 0))
               else Some pm) of
           None \<Rightarrow> None
         | Some pm \<Rightarrow> func s field pm pData)
      else Some (False, is_set_error ''invalid field type'' s, pm))"

section \<open>Allocated fields\<close>

definition initialize_pointer_field ::
    "'s dec_env \<Rightarrow> nat \<Rightarrow> nat \<Rightarrow> pb_field \<Rightarrow> pb_mem \<Rightarrow> pb_mem option" where
  "initialize_pointer_field E d pItem field pm =
     (if ltype field = PB_LTYPE_STRING \<or> ltype field = PB_LTYPE_BYTES
        then Some (pm\<lparr>pm_bytes := store_ptr (pm_bytes pm) pItem 0\<rparr>)
      else if ltype field = PB_LTYPE_SUBMESSAGE then
        pb_message_set_to_defaults E d (de_descs E (pf_ptr field)) pItem
          (pm_put pm pItem (replicate (unat (pf_data_size field)) 0))
      else Some pm)"

text \<open>
  The loop over the items of a packed array on the heap: the status, the substream, \<open>stream->errmsg\<close>
  and the memory.
\<close>

function packed_pointer_loop ::
    "'s dec_env \<Rightarrow> nat \<Rightarrow> pb_field \<Rightarrow> nat \<Rightarrow> size_ref \<Rightarrow> u64 \<Rightarrow> 's pb_istream \<Rightarrow> string option \<Rightarrow> pb_mem \<Rightarrow>
     (bool \<times> 's pb_istream \<times> string option \<times> pb_mem) option" where
  "packed_pointer_loop E d field pData pSize allocated_size substream err pm =
     (if is_bytes_left substream = 0 then Some (True, substream, err, pm)
      else if ucast (size_get pm pSize) + 1 > allocated_size \<and> pf_data_size field = 0 then None
      else
        let allocated_size' =
              (if ucast (size_get pm pSize) + 1 > allocated_size
               then allocated_size + ((is_bytes_left substream - 1) div ucast (pf_data_size field) + 1)
               else allocated_size)
        in
        (case (if ucast (size_get pm pSize) + 1 > allocated_size
               then allocate_field E substream pm pData (ucast (pf_data_size field)) allocated_size'
               else Some (True, substream, pm)) of
           None \<Rightarrow> None
         | Some (ok, sub1, pm) \<Rightarrow>
             if \<not> ok then Some (False, sub1, err, pm)
             else
               let pItem = load_ptr (pm_bytes pm) pData + unat (pf_data_size field * size_get pm pSize)
               in
               (case initialize_pointer_field E d pItem field pm of
                  None \<Rightarrow> None
                | Some pm \<Rightarrow>
                    (case pb_dec_packable (ltype field) sub1 field pm pItem of (ok, sub2, pm) \<Rightarrow>
                       if \<not> ok then Some (False, sub2, err, pm)
                       else if size_get pm pSize = PB_SIZE_MAX
                         then Some (False, sub2, Some ''too many array entries'', pm)
                       else packed_pointer_loop E d field pData pSize allocated_size' sub2 err
                         (size_put pm pSize (size_get pm pSize + 1))))))"
  by pat_completeness auto
termination
  by (relation "measure (\<lambda>(E, d, f, p, r, a, s, e, pm). unat (is_bytes_left s))")
    (auto dest!: pb_dec_packable_dec [OF sym] allocate_field_stream allocate_field_stream [OF sym]
      split: if_splits)

declare packed_pointer_loop.simps [simp del]

definition decode_pointer_field ::
    "'s dec_env \<Rightarrow> nat \<Rightarrow> 's msg_decoder \<Rightarrow> 's pb_istream \<Rightarrow> pb_wire_type \<Rightarrow> pb_field_iter \<Rightarrow>
     pb_mem \<Rightarrow> 's dec_result" where
  "decode_pointer_field E d noinit s wire_type iter pm =
     (let field = iter_field iter; pData = fi_data iter; pSize = fi_size iter;
          func = PB_DECODERS E d noinit (ltype field)
      in
      if htype field = PB_HTYPE_REQUIRED \<or> htype field = PB_HTYPE_OPTIONAL \<or>
          htype field = PB_HTYPE_ONEOF then
        (case (if ltype field = PB_LTYPE_SUBMESSAGE \<and> load_ptr (pm_bytes pm) pData \<noteq> 0
               then pb_release_single_field E d iter pm else Some pm) of
           None \<Rightarrow> None
         | Some pm \<Rightarrow>
             let pm = (if htype field = PB_HTYPE_ONEOF then size_put pm pSize (pf_tag field) else pm) in
             if ltype field = PB_LTYPE_STRING \<or> ltype field = PB_LTYPE_BYTES
             then func s field pm pData
             else
               (case allocate_field E s pm pData (ucast (pf_data_size field)) 1 of
                  None \<Rightarrow> None
                | Some (ok, s, pm) \<Rightarrow>
                    if \<not> ok then Some (False, s, pm)
                    else
                      let pItem = load_ptr (pm_bytes pm) pData in
                      (case initialize_pointer_field E d pItem field pm of
                         None \<Rightarrow> None
                       | Some pm \<Rightarrow> func s field pm (load_ptr (pm_bytes pm) pData))))
      else if htype field = PB_HTYPE_REPEATED then
        if wire_type = PB_WT_STRING \<and> ltype field \<le> PB_LTYPE_LAST_PACKABLE then
          (case pb_make_string_substream s of (ok, substream, s) \<Rightarrow>
             if \<not> ok then Some (False, s, pm)
             else
               (case packed_pointer_loop E d field pData pSize (ucast (size_get pm pSize))
                   substream (is_errmsg s) pm of
                  None \<Rightarrow> None
                | Some (status, substream, err, pm) \<Rightarrow>
                    (case pb_close_string_substream (s\<lparr>is_errmsg := err\<rparr>) substream of
                       (ok, _, s) \<Rightarrow>
                         if \<not> ok then Some (False, s, pm) else Some (status, s, pm))))
        else if size_get pm pSize = PB_SIZE_MAX
          then Some (False, is_set_error ''too many array entries'' s, pm)
        else
          let pm = size_put pm pSize (size_get pm pSize + 1) in
          (case allocate_field E s pm pData (ucast (pf_data_size field)) (ucast (size_get pm pSize)) of
             None \<Rightarrow> None
           | Some (ok, s, pm) \<Rightarrow>
               if \<not> ok then Some (False, s, pm)
               else
                 let pItem = load_ptr (pm_bytes pm) pData +
                       unat (pf_data_size field * (size_get pm pSize - 1))
                 in (case initialize_pointer_field E d pItem field pm of
                       None \<Rightarrow> None
                     | Some pm \<Rightarrow> func s field pm pItem))
      else Some (False, is_set_error ''invalid field type'' s, pm))"

section \<open>Callback fields\<close>

text \<open>The \<open>do ... while (substream.bytes_left)\<close> loop, which a callback that reads nothing never leaves.\<close>

primrec callback_loop ::
    "'s dec_env \<Rightarrow> pb_field \<Rightarrow> nat \<Rightarrow> nat \<Rightarrow> 's pb_istream \<Rightarrow> pb_mem \<Rightarrow> 's dec_result" where
  "callback_loop E field pCallback 0 substream pm = None"
| "callback_loop E field pCallback (Suc k) substream pm =
     (case de_callback E (load_ptr (pm_bytes pm) pCallback) substream pm field (pCallback + 8) of
        (ok, substream, pm) \<Rightarrow>
          if \<not> ok then Some (False, substream, pm)
          else if is_bytes_left substream \<noteq> 0 then callback_loop E field pCallback k substream pm
          else Some (True, substream, pm))"

definition decode_callback_field ::
    "'s dec_env \<Rightarrow> nat \<Rightarrow> 's pb_istream \<Rightarrow> pb_wire_type \<Rightarrow> pb_field_iter \<Rightarrow> pb_mem \<Rightarrow> 's dec_result" where
  "decode_callback_field E d s wire_type iter pm =
     (let pCallback = fi_data iter; field = iter_field iter in
      if pCallback = 0 \<or> load_ptr (pm_bytes pm) pCallback = 0 then
        (case pb_skip_field s wire_type of (ok, s) \<Rightarrow> Some (ok, s, pm))
      else if wire_type = PB_WT_STRING then
        (case pb_make_string_substream s of (ok, substream, s) \<Rightarrow>
           if \<not> ok then Some (False, s, pm)
           else
             (case callback_loop E field pCallback d substream pm of
                None \<Rightarrow> None
              | Some (ok, substream, pm) \<Rightarrow>
                  if \<not> ok then Some (False, is_set_error ''callback failed'' s, pm)
                  else
                    (case pb_close_string_substream s substream of (ok, _, s) \<Rightarrow>
                       Some (ok, s, pm))))
      else
        (case read_raw_value s wire_type 10 of (ok, buffer, sz, s) \<Rightarrow>
           if \<not> ok then Some (False, s, pm)
           else
             (case de_callback_raw E (load_ptr (pm_bytes pm) pCallback)
                 (pb_istream_from_buffer (\<lambda>i. if i < length buffer then buffer ! i else 0) 0 sz)
                 pm field (pCallback + 8) of
                (ok, pm) \<Rightarrow> Some (ok, s, pm))))"

section \<open>Fields and extensions\<close>

text \<open>\<open>decode_field\<close> also gives the iterator, which the release of a union may rewrite.\<close>

definition decode_field ::
    "'s dec_env \<Rightarrow> nat \<Rightarrow> 's msg_decoder \<Rightarrow> 's pb_istream \<Rightarrow> pb_wire_type \<Rightarrow> pb_field_iter \<Rightarrow> pb_mem \<Rightarrow>
     (bool \<times> 's pb_istream \<times> pb_field_iter \<times> pb_mem) option" where
  "decode_field E d noinit s wire_type iter pm =
     (case (if htype (iter_field iter) = PB_HTYPE_ONEOF
            then pb_release_union_field E d s iter pm else Some (True, s, iter, pm)) of
        None \<Rightarrow> None
      | Some (ok, s, iter, pm) \<Rightarrow>
          if \<not> ok then Some (False, s, iter, pm)
          else
            map_option (\<lambda>(ok, s, pm). (ok, s, iter, pm))
              (if atype (iter_field iter) = PB_ATYPE_STATIC
                 then decode_static_field E d noinit s wire_type iter pm
               else if atype (iter_field iter) = PB_ATYPE_POINTER
                 then decode_pointer_field E d noinit s wire_type iter pm
               else if atype (iter_field iter) = PB_ATYPE_CALLBACK
                 then decode_callback_field E d s wire_type iter pm
               else Some (False, is_set_error ''invalid field type'' s, pm)))"

definition default_extension_decoder ::
    "'s dec_env \<Rightarrow> nat \<Rightarrow> 's msg_decoder \<Rightarrow> 's pb_istream \<Rightarrow> nat \<Rightarrow> u32 \<Rightarrow> pb_wire_type \<Rightarrow> pb_mem \<Rightarrow>
     's dec_result" where
  "default_extension_decoder E d noinit s extension tag wire_type pm =
     (let field = field_at (extension_descs E pm extension) 0 in
      if pf_tag field \<noteq> tag then Some (True, s, pm)
      else
        let iter = iter_from_extension E pm extension;
            pm = pm_put pm (extension + 24) [1]
        in map_option (\<lambda>(ok, s, _, pm). (ok, s, pm)) (decode_field E d noinit s wire_type iter pm))"

primrec extension_decode_loop ::
    "'s dec_env \<Rightarrow> nat \<Rightarrow> 's msg_decoder \<Rightarrow> u32 \<Rightarrow> pb_wire_type \<Rightarrow> u64 \<Rightarrow> nat \<Rightarrow> 's pb_istream \<Rightarrow> nat \<Rightarrow> pb_mem \<Rightarrow>
     's dec_result" where
  "extension_decode_loop E d noinit tag wire_type pos 0 s extension pm =
     (if extension \<noteq> 0 \<and> pos = is_bytes_left s then None else Some (True, s, pm))"
| "extension_decode_loop E d noinit tag wire_type pos (Suc k) s extension pm =
     (if extension \<noteq> 0 \<and> pos = is_bytes_left s then
        let decode = load_ptr (pm_bytes pm) (load_ptr (pm_bytes pm) extension) in
        (case (if decode \<noteq> 0 then Some (de_extension E decode s pm extension tag wire_type)
               else default_extension_decoder E d noinit s extension tag wire_type pm) of
           None \<Rightarrow> None
         | Some (status, s, pm) \<Rightarrow>
             if \<not> status then Some (False, s, pm)
             else extension_decode_loop E d noinit tag wire_type pos k s
               (load_ptr (pm_bytes pm) (extension + 16)) pm)
      else Some (True, s, pm))"

definition decode_extension ::
    "'s dec_env \<Rightarrow> nat \<Rightarrow> 's msg_decoder \<Rightarrow> 's pb_istream \<Rightarrow> u32 \<Rightarrow> pb_wire_type \<Rightarrow> pb_field_iter \<Rightarrow> pb_mem \<Rightarrow>
     's dec_result" where
  "decode_extension E d noinit s tag wire_type iter pm =
     extension_decode_loop E d noinit tag wire_type (is_bytes_left s) d s
       (load_ptr (pm_bytes pm) (fi_data iter)) pm"

section \<open>Messages\<close>

text \<open>The local variables of \<open>pb_decode_noinit\<close>, and how one round of its loop ends.\<close>

record 's noinit_state =
  ni_stream :: "'s pb_istream"
  ni_mem :: pb_mem
  ni_iter :: pb_field_iter
  ni_fields_seen :: "u32 list"
  ni_extension_range_start :: u32
  ni_fixed_count_field :: "nat option"

datatype 's noinit_step =
  Continue "'s noinit_state" | Break "'s noinit_state" | ReturnFalse "'s noinit_state"

definition PB_MAX_REQUIRED_FIELDS :: u32 where "PB_MAX_REQUIRED_FIELDS = 64"

text \<open>\<open>fixed_count_field != NULL && fixed_count_size != fixed_count_field->array_size\<close>.\<close>

definition fixed_count_wrong :: "'s noinit_state \<Rightarrow> bool" where
  "fixed_count_wrong st =
     (case ni_fixed_count_field st of None \<Rightarrow> False
      | Some pos \<Rightarrow> pm_fixed (ni_mem st) \<noteq> pf_array_size (field_at (fi_start (ni_iter st)) pos))"

definition unknown_field ::
    "'s dec_env \<Rightarrow> nat \<Rightarrow> 's msg_decoder \<Rightarrow> u32 \<Rightarrow> pb_wire_type \<Rightarrow> 's noinit_state \<Rightarrow> 's noinit_step option" where
  "unknown_field E d noinit tag wire_type st =
     (let skip = (\<lambda>st. case pb_skip_field (ni_stream st) wire_type of (ok, s) \<Rightarrow>
            if \<not> ok then ReturnFalse (st\<lparr>ni_stream := s\<rparr>) else Continue (st\<lparr>ni_stream := s\<rparr>))
      in
      if tag \<ge> ni_extension_range_start st then
        (case find_extension_field (ni_iter st) of
           None \<Rightarrow> None
         | Some (found, iter) \<Rightarrow>
             let start = (if \<not> found then - 1 else pf_tag (iter_field iter));
                 st = st\<lparr>ni_iter := iter, ni_extension_range_start := start\<rparr>
             in
             if tag \<ge> start then
               (case decode_extension E d noinit (ni_stream st) tag wire_type iter (ni_mem st) of
                  None \<Rightarrow> None
                | Some (ok, s, pm) \<Rightarrow>
                    let pos = is_bytes_left (ni_stream st);
                        st = st\<lparr>ni_stream := s, ni_mem := pm\<rparr>
                    in
                    if \<not> ok then Some (ReturnFalse st)
                    else if pos \<noteq> is_bytes_left s then Some (Continue st)
                    else Some (skip st))
             else Some (skip st))
      else Some (skip st))"

text \<open>
  A repeated field whose count is fixed has no counter in the struct: \<open>pSize\<close> is redirected to
  \<open>fixed_count_size\<close>, which is reset for a new field. \<open>None\<close> is the error that the field before it is
  not complete. Then the bit of a required field is set.
\<close>

definition enter_fixed_count :: "'s noinit_state \<Rightarrow> 's noinit_state option" where
  "enter_fixed_count st =
     (let iter = ni_iter st in
      if htype (iter_field iter) = PB_HTYPE_REPEATED \<and> fi_size iter = SizeAt (fi_data iter) then
        if ni_fixed_count_field st \<noteq> Some (fi_pos iter) then
          if fixed_count_wrong st then None
          else Some (st\<lparr>ni_fixed_count_field := Some (fi_pos iter),
                        ni_mem := (ni_mem st)\<lparr>pm_fixed := 0\<rparr>,
                        ni_iter := iter\<lparr>fi_size := SizeLocal\<rparr>\<rparr>)
        else Some (st\<lparr>ni_iter := iter\<lparr>fi_size := SizeLocal\<rparr>\<rparr>)
      else Some st)"

definition mark_required :: "'s noinit_state \<Rightarrow> 's noinit_state" where
  "mark_required st =
     (let iter = ni_iter st; index = fi_required_field_index iter; seen = ni_fields_seen st;
          word = unat (drop_bit 5 index)
      in if htype (iter_field iter) = PB_HTYPE_REQUIRED \<and> index < PB_MAX_REQUIRED_FIELDS
         then st\<lparr>ni_fields_seen := seen[word := seen ! word OR push_bit (unat (index AND 31)) 1]\<rparr>
         else st)"

definition known_field ::
    "'s dec_env \<Rightarrow> nat \<Rightarrow> 's msg_decoder \<Rightarrow> pb_wire_type \<Rightarrow> 's noinit_state \<Rightarrow> 's noinit_step option" where
  "known_field E d noinit wire_type st =
     (case enter_fixed_count st of
        None \<Rightarrow> Some (ReturnFalse (st\<lparr>ni_stream :=
          is_set_error ''wrong size for fixed count field'' (ni_stream st)\<rparr>))
      | Some st \<Rightarrow>
          let st = mark_required st in
          (case decode_field E d noinit (ni_stream st) wire_type (ni_iter st) (ni_mem st) of
             None \<Rightarrow> None
           | Some (ok, s, iter, pm) \<Rightarrow>
               let st = st\<lparr>ni_stream := s, ni_mem := pm, ni_iter := iter\<rparr> in
               if \<not> ok then Some (ReturnFalse st) else Some (Continue st)))"

definition noinit_step ::
    "'s dec_env \<Rightarrow> nat \<Rightarrow> 's msg_decoder \<Rightarrow> 's noinit_state \<Rightarrow> 's noinit_step option" where
  "noinit_step E d noinit st =
     (case pb_decode_tag (ni_stream st) of (ok, wire_type, tag, eof, s) \<Rightarrow>
        let st = st\<lparr>ni_stream := s\<rparr> in
        if \<not> ok then Some (if eof then Break st else ReturnFalse st)
        else
          (case pb_field_iter_find (ni_iter st) tag of
             None \<Rightarrow> None
           | Some (found, iter) \<Rightarrow>
               let st = st\<lparr>ni_iter := iter\<rparr> in
               if \<not> found then unknown_field E d noinit tag wire_type st
               else known_field E d noinit wire_type st))"

text \<open>The count of the required fields: the index at the last field, and its type.\<close>

function last_field_loop :: "pb_field_iter \<Rightarrow> u32 \<times> u8 \<times> pb_field_iter" where
  "last_field_loop iter =
     (case pb_field_iter_next iter of (going, iter') \<Rightarrow>
        if going then last_field_loop iter'
        else (fi_required_field_index iter, pf_type (iter_field iter), iter'))"
  by pat_completeness auto
termination
  by (relation "measure (\<lambda>it. length (fi_start it) - fi_pos it)") (simp_all add: next_pos_less [OF sym])

declare last_field_loop.simps [simp del]

definition required_field_missing :: "u32 list \<Rightarrow> pb_field_iter \<Rightarrow> bool" where
  "required_field_missing fields_seen iter =
     (case last_field_loop iter of (req_field_count, last_type, iter) \<Rightarrow>
        let allbits = (- 1 :: u32);
            count = (if PB_HTYPE last_type = PB_HTYPE_REQUIRED \<and> pf_tag (iter_field iter) \<noteq> 0
                     then req_field_count + 1 else req_field_count);
            count = (if count > PB_MAX_REQUIRED_FIELDS then PB_MAX_REQUIRED_FIELDS else count);
            words = unat (drop_bit 5 count)
        in \<not> list_all (\<lambda>w. w = allbits) (take words fields_seen) \<or>
           count AND 31 \<noteq> 0 \<and>
             fields_seen ! words \<noteq> drop_bit (32 - unat (count AND 31)) allbits)"

text \<open>\<open>pb_decode_noinit\<close> over its loop: the start, and the checks after the loop.\<close>

definition noinit_around ::
    "('s noinit_state \<Rightarrow> (bool \<times> 's noinit_state) option) \<Rightarrow> 's msg_decoder" where
  "noinit_around loop s fs pm dest_struct =
     map_option
       (\<lambda>(ok, st).
          let s = ni_stream st; pm' = (ni_mem st)\<lparr>pm_fixed := pm_fixed pm\<rparr> in
          if \<not> ok then (False, s, pm')
          else if fixed_count_wrong st
            then (False, is_set_error ''wrong size for fixed count field'' s, pm')
          else if required_field_missing (ni_fields_seen st) (ni_iter st)
            then (False, is_set_error ''missing required field'' s, pm')
          else (True, s, pm'))
       (loop \<lparr>ni_stream = s, ni_mem = pm\<lparr>pm_fixed := 0\<rparr>,
              ni_iter = snd (pb_field_iter_begin fs dest_struct),
              ni_fields_seen = [0, 0], ni_extension_range_start = 0,
              ni_fixed_count_field = None\<rparr>)"

primrec noinit_loop ::
    "'s dec_env \<Rightarrow> nat \<Rightarrow> nat \<Rightarrow> 's noinit_state \<Rightarrow> (bool \<times> 's noinit_state) option" where
  "noinit_loop E d 0 = (\<lambda>st. None)"
| "noinit_loop E d (Suc n) = (\<lambda>st.
     if is_bytes_left (ni_stream st) = 0 then Some (True, st)
     else
       (case noinit_step E d (noinit_around (noinit_loop E d n)) st of
          None \<Rightarrow> None
        | Some (Continue st) \<Rightarrow> noinit_loop E d n st
        | Some (Break st) \<Rightarrow> Some (True, st)
        | Some (ReturnFalse st) \<Rightarrow> Some (False, st)))"

definition pb_decode_noinit :: "'s dec_env \<Rightarrow> nat \<Rightarrow> nat \<Rightarrow> 's msg_decoder" where
  "pb_decode_noinit E d n = noinit_around (noinit_loop E d n)"

definition pb_decode :: "'s dec_env \<Rightarrow> nat \<Rightarrow> nat \<Rightarrow> 's msg_decoder" where
  "pb_decode E d n = decode_message E d (pb_decode_noinit E d n)"

text \<open>The delimited variants read a length and decode a substream of that length.\<close>

definition decode_delimited :: "'s msg_decoder \<Rightarrow> 's msg_decoder" where
  "decode_delimited decode s fs pm dest_struct =
     (case pb_make_string_substream s of (ok, substream, s) \<Rightarrow>
        if \<not> ok then Some (False, s, pm)
        else
          (case decode substream fs pm dest_struct of
             None \<Rightarrow> None
           | Some (status, substream, pm) \<Rightarrow>
               (case pb_close_string_substream s substream of (ok, _, s) \<Rightarrow>
                  if \<not> ok then Some (False, s, pm) else Some (status, s, pm))))"

definition pb_decode_delimited_noinit :: "'s dec_env \<Rightarrow> nat \<Rightarrow> nat \<Rightarrow> 's msg_decoder" where
  "pb_decode_delimited_noinit E d n = decode_delimited (pb_decode_noinit E d n)"

definition pb_decode_delimited :: "'s dec_env \<Rightarrow> nat \<Rightarrow> nat \<Rightarrow> 's msg_decoder" where
  "pb_decode_delimited E d n = decode_delimited (pb_decode E d n)"

definition pb_decode_nullterminated :: "'s dec_env \<Rightarrow> nat \<Rightarrow> nat \<Rightarrow> 's msg_decoder" where
  "pb_decode_nullterminated E d n = pb_decode E d n"

end
