(* ===== verification/PbSafe.thy ===== *)
theory PbSafe
  imports PbDecode
begin

text \<open>
  What \<open>pb_decode\<close> does on arbitrary input, for messages whose fields are all static: it returns, it
  writes nothing outside the struct, and it leaves the heap alone.
\<close>

unbundle bit_operations_syntax

section \<open>The stream moves forward\<close>

definition later :: "'s pb_istream \<Rightarrow> 's pb_istream \<Rightarrow> bool" where
  "later s s' \<longleftrightarrow> is_callback s' = is_callback s \<and> unat (is_bytes_left s') \<le> unat (is_bytes_left s)"

lemma later_refl [simp]: "later s s"
  by (simp add: later_def)

lemma later_trans: "later s t \<Longrightarrow> later t u \<Longrightarrow> later s u"
  by (simp add: later_def)

lemma later_error [simp]: "later s (is_set_error msg t) \<longleftrightarrow> later s t"
  by (simp add: later_def is_set_error_def)

lemma later_callback: "later s t \<Longrightarrow> is_callback t = is_callback s"
  by (simp add: later_def)

lemma set_error_sel [simp]:
  "is_callback (is_set_error msg s) = is_callback s"
  "is_bytes_left (is_set_error msg s) = is_bytes_left s"
  by (simp_all add: is_set_error_def)

lemma readbyte_later: "pb_readbyte s = (ok, b, s') \<Longrightarrow> later s s'"
  by (auto simp: pb_readbyte_def later_def Let_def unat_minus_one split: if_splits prod.splits)

lemma read_call_later: "pb_read_call s buf n = (ok, bs, s') \<Longrightarrow> later s s'"
  by (auto simp: pb_read_call_def later_def Let_def unat_sub split: if_splits prod.splits)

lemma read_skip_later: "pb_read_skip s n = (ok, bs, s') \<Longrightarrow> later s s'"
proof (induction s n arbitrary: ok bs s' rule: pb_read_skip.induct)
  case (1 s n)
  show ?case
    using "1.prems" "1.IH"
    by (subst (asm) pb_read_skip.simps)
      (auto split: if_splits prod.splits dest!: read_call_later intro: later_trans)
qed

lemma read_later: "pb_read s buf n = (ok, bs, s') \<Longrightarrow> later s s'"
  by (auto simp: pb_read_def split: if_splits dest: read_call_later read_skip_later)

lemma varint32_loop_later: "varint32_loop s r b = (ok, r', b', byte, s') \<Longrightarrow> later s s'"
proof (induction s r b arbitrary: ok r' b' byte s' rule: varint32_loop.induct)
  case (1 s r b)
  obtain rok byte0 s1 where rb: "pb_readbyte s = (rok, byte0, s1)" by (cases "pb_readbyte s")
  note l = readbyte_later [OF rb]
  show ?case
    using "1.prems" "1.IH" [OF rb [symmetric] refl] rb l
    by (subst (asm) varint32_loop.simps)
      (auto simp: Let_def split: if_splits intro: later_trans)
qed

lemma varint32_eof_later: "pb_decode_varint32_eof s = (ok, eof, v, s') \<Longrightarrow> later s s'"
  by (auto simp: pb_decode_varint32_eof_def split: if_splits prod.splits
      dest!: readbyte_later varint32_loop_later intro: later_trans)

lemma varint32_later: "pb_decode_varint32 s = (ok, v, s') \<Longrightarrow> later s s'"
  by (auto simp: pb_decode_varint32_def split: prod.splits dest: varint32_eof_later)

lemma varint32_eof_dec:
  assumes "pb_decode_varint32_eof s = (True, eof, v, s')"
  shows "unat (is_bytes_left s') < unat (is_bytes_left s)"
proof -
  obtain rok b s1 where rb: "pb_readbyte s = (rok, b, s1)" by (cases "pb_readbyte s")
  with assms have rok by (auto simp: pb_decode_varint32_eof_def split: if_splits)
  with rb have "unat (is_bytes_left s1) < unat (is_bytes_left s)" by (simp add: pb_readbyte_dec)
  moreover have "later s1 s'"
    using assms rb by (auto simp: pb_decode_varint32_eof_def split: if_splits prod.splits
        dest!: varint32_loop_later)
  ultimately show ?thesis by (simp add: later_def)
qed

lemma varint32_dec:
  "pb_decode_varint32 s = (True, v, s') \<Longrightarrow> unat (is_bytes_left s') < unat (is_bytes_left s)"
  by (auto simp: pb_decode_varint32_def split: prod.splits dest: varint32_eof_dec)

lemma varint64_loop_later: "varint64_loop s r b = (ok, v, s') \<Longrightarrow> later s s'"
proof (induction s r b arbitrary: ok v s' rule: varint64_loop.induct)
  case (1 s r b)
  obtain rok byte0 s1 where rb: "pb_readbyte s = (rok, byte0, s1)" by (cases "pb_readbyte s")
  note l = readbyte_later [OF rb]
  show ?case
    using "1.prems" "1.IH" [OF _ rb [symmetric] refl] rb l
    by (subst (asm) varint64_loop.simps)
      (auto simp: Let_def split: if_splits intro: later_trans)
qed

lemma varint_later: "pb_decode_varint s = (ok, v, s') \<Longrightarrow> later s s'"
  by (simp add: pb_decode_varint_def varint64_loop_later)

lemma svarint_later: "pb_decode_svarint s = (ok, v, s') \<Longrightarrow> later s s'"
  by (auto simp: pb_decode_svarint_def split: if_splits prod.splits dest: varint_later)

lemma fixed_later:
  "pb_decode_fixed32 s = (ok, v, s') \<Longrightarrow> later s s'"
  "pb_decode_fixed64 s = (ok, v64, s') \<Longrightarrow> later s s'"
  by (auto simp: pb_decode_fixed32_def pb_decode_fixed64_def split: if_splits prod.splits
      dest: read_later)

lemma decode_tag_later: "pb_decode_tag s = (ok, wt, tag, eof, s') \<Longrightarrow> later s s'"
  by (auto simp: pb_decode_tag_def split: if_splits prod.splits dest: varint32_eof_later)

lemma decode_tag_dec:
  "pb_decode_tag s = (True, wt, tag, eof, s') \<Longrightarrow> unat (is_bytes_left s') < unat (is_bytes_left s)"
  by (auto simp: pb_decode_tag_def split: if_splits prod.splits dest: varint32_eof_dec)

lemma skip_varint_later: "pb_skip_varint s = (ok, s') \<Longrightarrow> later s s'"
proof (induction s arbitrary: ok s' rule: pb_skip_varint.induct)
  case (1 s)
  obtain rok bs s1 where rb: "pb_read s True 1 = (rok, bs, s1)" by (cases "pb_read s True 1")
  note l = read_later [OF rb]
  show ?case
    using "1.prems" "1.IH" [OF rb [symmetric] refl] rb l
    by (subst (asm) pb_skip_varint.simps) (auto split: if_splits intro: later_trans)
qed

lemma skip_field_later: "pb_skip_field s wt = (ok, s') \<Longrightarrow> later s s'"
  by (auto simp: pb_skip_field_def pb_skip_string_def split: if_splits prod.splits
      dest!: read_later varint32_later skip_varint_later intro: later_trans)

lemma make_substream_later:
  assumes "pb_make_string_substream s = (ok, sub, s')"
  shows "later s s'" "is_callback sub = is_callback s"
    "ok \<Longrightarrow> unat (is_bytes_left sub) < unat (is_bytes_left s)"
proof -
  obtain vok v t where v: "pb_decode_varint32 s = (vok, v, t)" by (cases "pb_decode_varint32 s")
  note l = varint32_later [OF v]
  have sub: "unat (is_bytes_left t - w) \<le> unat (is_bytes_left t)" if "\<not> is_bytes_left t < w" for w
    using that by (simp add: unat_sub not_less)
  show "later s s'" "is_callback sub = is_callback s"
    using assms v l sub [of "ucast v"]
    by (auto simp: pb_make_string_substream_def later_def Let_def split: if_splits)
  assume ok
  then have "vok" "is_bytes_left sub = ucast v" "\<not> is_bytes_left t < ucast v"
    using assms v by (auto simp: pb_make_string_substream_def Let_def split: if_splits)
  then show "unat (is_bytes_left sub) < unat (is_bytes_left s)"
    using varint32_dec [of s v t] v by (simp add: word_less_nat_alt)
qed

lemma close_substream_later:
  "pb_close_string_substream s sub = (ok, sub', s') \<Longrightarrow> later s s'"
  by (auto simp: pb_close_string_substream_def later_def split: if_splits prod.splits)

section \<open>Writing inside a region\<close>

definition confined :: "nat \<Rightarrow> nat \<Rightarrow> pb_mem \<Rightarrow> pb_mem \<Rightarrow> bool" where
  "confined a n pm pm' \<longleftrightarrow>
     (\<forall>x. x < a \<or> a + n \<le> x \<longrightarrow> pm_bytes pm' x = pm_bytes pm x) \<and> pm_blocks pm' = pm_blocks pm"

lemma confined_refl [simp]: "confined a n pm pm"
  by (simp add: confined_def)

lemma confined_trans: "confined a n pm pm1 \<Longrightarrow> confined a n pm1 pm2 \<Longrightarrow> confined a n pm pm2"
  by (simp add: confined_def)

lemma confined_mono: "confined b k pm pm' \<Longrightarrow> a \<le> b \<Longrightarrow> b + k \<le> a + n \<Longrightarrow> confined a n pm pm'"
  by (auto simp: confined_def)

lemma confined_put: "a \<le> b \<Longrightarrow> b + length bs \<le> a + n \<Longrightarrow> confined a n pm (pm_put pm b bs)"
  by (auto simp: confined_def pm_put_def put_bytes_def)

lemma confined_fixed [simp]: "confined a n pm (pm'\<lparr>pm_fixed := w\<rparr>) \<longleftrightarrow> confined a n pm pm'"
  "confined a n (pm\<lparr>pm_fixed := w\<rparr>) pm' \<longleftrightarrow> confined a n pm pm'"
  by (simp_all add: confined_def)

text \<open>Where a size reference may point.\<close>

definition size_inside :: "nat \<Rightarrow> nat \<Rightarrow> size_ref \<Rightarrow> nat \<Rightarrow> bool" where
  "size_inside a n r k = (case r of SizeAt b \<Rightarrow> a \<le> b \<and> b + k \<le> a + n | SizeLocal \<Rightarrow> True)"

lemma confined_size_put: "size_inside a n r 4 \<Longrightarrow> confined a n pm (size_put pm r w)"
  by (auto simp: size_put_def size_inside_def confined_put split: size_ref.splits)

lemma confined_has_put: "size_inside a n r 1 \<Longrightarrow> confined a n pm (has_put pm r b)"
  by (auto simp: has_put_def size_inside_def confined_put split: size_ref.splits)

section \<open>Scalars\<close>

text \<open>What the decoder of a packable type stores, unless the descriptor's size is invalid.\<close>

definition scalar_ok :: "u8 \<Rightarrow> u32 \<Rightarrow> bool" where
  "scalar_ok lt sz \<longleftrightarrow>
     (lt = PB_LTYPE_FIXED32 \<longrightarrow> 4 \<le> unat sz) \<and> (lt = PB_LTYPE_FIXED64 \<longrightarrow> 8 \<le> unat sz)"

lemma store_signed_put:
  "store_signed m a sz v = Some (c, m') \<Longrightarrow> \<exists>bs. m' = put_bytes m a bs \<and> length bs = unat sz"
  by (auto simp: store_signed_def split: if_splits)

lemma store_unsigned_put:
  "store_unsigned m a sz v = Some (c, m') \<Longrightarrow> \<exists>bs. m' = put_bytes m a bs \<and> length bs = unat sz"
  by (auto simp: store_unsigned_def split: if_splits)

lemma confined_bytes:
  "m' = put_bytes (pm_bytes pm) a bs \<Longrightarrow> length bs \<le> n \<Longrightarrow> confined a n pm (pm\<lparr>pm_bytes := m'\<rparr>)"
  using confined_put [of a a bs n pm] by (simp add: pm_put_def)

lemma dec_packable_later:
  "pb_dec_packable lt s f pm dest = (ok, s', pm') \<Longrightarrow> later s s'"
  by (auto simp: pb_dec_packable_def pb_dec_varint_def pb_dec_uvarint_def pb_dec_svarint_def
      pb_dec_fixed32_def pb_dec_fixed64_def Let_def
      split: if_splits prod.splits option.splits
      dest: varint_later svarint_later fixed_later)

lemma dec_packable_confined:
  assumes "pb_dec_packable lt s f pm dest = (ok, s', pm')" "scalar_ok lt (pf_data_size f)"
    "lt \<le> PB_LTYPE_LAST_PACKABLE"
  shows "confined dest (unat (pf_data_size f)) pm pm'"
proof -
  have "\<exists>bs. pm' = pm\<lparr>pm_bytes := put_bytes (pm_bytes pm) dest bs\<rparr> \<and>
      length bs \<le> unat (pf_data_size f)"
  proof -
    have nil: "\<exists>bs. pm = pm\<lparr>pm_bytes := put_bytes (pm_bytes pm) dest bs\<rparr> \<and>
      length bs \<le> unat (pf_data_size f)"
      by (rule exI [of _ "[]"]) simp
    consider "lt = PB_LTYPE_VARINT" | "lt = PB_LTYPE_UVARINT" | "lt = PB_LTYPE_SVARINT"
      | "lt = PB_LTYPE_FIXED32" | "lt = PB_LTYPE_FIXED64"
    proof -
      have "unat lt \<le> 4" using assms(3) by (simp add: word_le_nat_alt)
      then have "unat lt \<in> {0, 1, 2, 3, 4}" by auto
      then have "lt = 0 \<or> lt = 1 \<or> lt = 2 \<or> lt = 3 \<or> lt = 4"
        by (auto simp: word_unat_eq_iff)
      then show thesis using that by blast
    qed
    then show ?thesis
      using assms(1,2) nil
      by cases
        (force simp: pb_dec_packable_def pb_dec_varint_def pb_dec_uvarint_def pb_dec_svarint_def
          pb_dec_fixed32_def pb_dec_fixed64_def Let_def scalar_ok_def
          split: if_splits prod.splits option.splits
          dest!: store_signed_put store_unsigned_put)+
  qed
  then show ?thesis by (auto intro: confined_bytes)
qed

section \<open>Messages of static fields\<close>

text \<open>
  A descriptor array for a struct of \<open>sz\<close> bytes whose fields are static and lie inside the struct with
  their counts and flags, to a nesting depth of at most \<open>n\<close>. A static array with a fixed count has no
  count of its own, but its first four bytes are overwritten as if it had one.
\<close>

definition field_ok :: "pb_field list \<Rightarrow> nat \<Rightarrow> nat \<Rightarrow> bool" where
  "field_ok fs sz k \<longleftrightarrow>
     (let f = fs ! k; a = field_data fs 0 k; c = field_size fs 0 k in
      atype f = PB_ATYPE_STATIC \<and> (ltype f \<le> PB_LTYPE_SUBMESSAGE \<or> ltype f = PB_LTYPE_FIXED_LENGTH_BYTES) \<and>
      scalar_ok (ltype f) (pf_data_size f) \<and> a + field_span f \<le> sz \<and>
      0 \<le> int a + sint (pf_size_offset f) \<and>
      (htype f = PB_HTYPE_OPTIONAL \<and> c \<noteq> a \<longrightarrow> c + 1 \<le> sz) \<and>
      (htype f = PB_HTYPE_REPEATED \<longrightarrow> c + 4 \<le> sz \<and>
         unat (pf_data_size f) * unat (pf_array_size f) < 2 ^ 32) \<and>
      (htype f = PB_HTYPE_ONEOF \<longrightarrow> c + 4 \<le> sz))"

primrec msg_ok :: "(nat \<Rightarrow> pb_field list) \<Rightarrow> nat \<Rightarrow> pb_field list \<Rightarrow> nat \<Rightarrow> bool" where
  "msg_ok D 0 fs sz \<longleftrightarrow> False"
| "msg_ok D (Suc n) fs sz \<longleftrightarrow>
     tagged fs \<and> distinct_tags fs \<and> list_all (field_ok fs sz) [0..<length fs] \<and>
     list_all (\<lambda>f. ltype f = PB_LTYPE_SUBMESSAGE \<longrightarrow>
       pf_ptr f \<noteq> 0 \<and> msg_ok D n (D (pf_ptr f)) (unat (pf_data_size f))) fs"

lemma msg_okD:
  assumes "msg_ok D n fs sz"
  shows "tagged fs" "distinct_tags fs" "k < length fs \<Longrightarrow> field_ok fs sz k"
  using assms by (cases n; simp add: list_all_length)+

lemma msg_ok_sub:
  "msg_ok D (Suc n) fs sz \<Longrightarrow> k < length fs \<Longrightarrow> ltype (fs ! k) = PB_LTYPE_SUBMESSAGE \<Longrightarrow>
   pf_ptr (fs ! k) \<noteq> 0 \<and> msg_ok D n (D (pf_ptr (fs ! k))) (unat (pf_data_size (fs ! k)))"
  by (simp add: list_all_length)

lemma msg_ok_Suc: "msg_ok D n fs sz \<Longrightarrow> msg_ok D (Suc n) fs sz"
proof (induction n arbitrary: fs sz)
  case (Suc n)
  note prems = Suc.prems [unfolded msg_ok.simps(2)]
  show ?case
    by (subst msg_ok.simps(2)) (use prems Suc.IH in \<open>simp only: list_all_iff; blast\<close>)
qed simp

lemma msg_ok_sub_same:
  assumes "msg_ok D n fs sz" "k < length fs" "ltype (fs ! k) = PB_LTYPE_SUBMESSAGE"
  shows "pf_ptr (fs ! k) \<noteq> 0" "msg_ok D n (D (pf_ptr (fs ! k))) (unat (pf_data_size (fs ! k)))"
  using msg_ok_sub [OF msg_ok_Suc [OF assms(1)] assms(2,3)] by simp_all

lemma field_data_shift: "field_data fs d k = d + field_data fs 0 k"
  by (induction k) simp_all

lemma size_addr_shift:
  "0 \<le> int a + sint (pf_size_offset f) \<Longrightarrow> size_addr (d + a) f = d + size_addr a f"
  by (simp add: size_addr_def nat_add_distrib [symmetric] add.assoc flip: nat_int_add)

lemma field_size_shift:
  "(\<And>j. j \<le> k \<Longrightarrow> 0 \<le> int (field_data fs 0 j) + sint (pf_size_offset (fs ! j))) \<Longrightarrow> k < length fs \<Longrightarrow>
   field_size fs d k = d + field_size fs 0 k"
proof (induction k)
  case 0
  show ?case using 0(1) [of 0] 0(2) by (simp add: size_addr_shift add.commute)
next
  case (Suc k)
  show ?case
    using Suc.IH Suc.prems size_addr_shift [of "field_data fs 0 (Suc k)" "fs ! Suc k" d]
      field_data_shift [of fs d "Suc k"]
    by (auto simp del: field_data.simps)
qed

lemma msg_field_size:
  "msg_ok D n fs sz \<Longrightarrow> k < length fs \<Longrightarrow> field_size fs d k = d + field_size fs 0 k"
  by (rule field_size_shift) (use msg_okD(3) [of D n fs sz] in \<open>auto simp: field_ok_def Let_def\<close>)

lemma msg_static:
  assumes "msg_ok D n fs sz" "k < length fs"
  shows "atype (fs ! k) = PB_ATYPE_STATIC" "ltype (fs ! k) \<noteq> PB_LTYPE_EXTENSION"
    "scalar_ok (ltype (fs ! k)) (pf_data_size (fs ! k))"
    "ltype (fs ! k) \<le> PB_LTYPE_SUBMESSAGE \<or> ltype (fs ! k) = PB_LTYPE_FIXED_LENGTH_BYTES"
  using msg_okD(3) [OF assms] by (auto simp: field_ok_def Let_def)

text \<open>Where the parts of field \<open>k\<close> lie.\<close>

lemma msg_data_inside:
  assumes "msg_ok D n fs sz" "k < length fs"
  shows "d \<le> field_data fs d k" "field_data fs d k + field_span (fs ! k) \<le> d + sz"
  using msg_okD(3) [OF assms] by (auto simp: field_ok_def Let_def field_data_shift [of fs d k])

lemma span_single:
  "atype f = PB_ATYPE_STATIC \<Longrightarrow> htype f \<noteq> PB_HTYPE_REPEATED \<Longrightarrow> field_span f = unat (pf_data_size f)"
  by (simp add: field_span_def)

lemma span_array:
  "atype f = PB_ATYPE_STATIC \<Longrightarrow> htype f = PB_HTYPE_REPEATED \<Longrightarrow>
   field_span f = unat (pf_data_size f) * unat (pf_array_size f)"
  by (simp add: field_span_def)

lemma confined_data:
  assumes "msg_ok D n fs sz" "k < length fs" "htype (fs ! k) \<noteq> PB_HTYPE_REPEATED"
    "confined (field_data fs d k) (unat (pf_data_size (fs ! k))) pm pm'"
  shows "confined d sz pm pm'"
  using assms(4) msg_data_inside [OF assms(1,2), of d] span_single [OF msg_static(1) [OF assms(1,2)] assms(3)]
  by (auto intro: confined_mono)

lemma msg_size_inside:
  assumes "msg_ok D n fs sz" "k < length fs"
    "htype (fs ! k) = PB_HTYPE_REPEATED \<or> htype (fs ! k) = PB_HTYPE_ONEOF"
  shows "size_inside d sz (SizeAt (field_size fs d k)) 4"
  using msg_okD(3) [OF assms(1,2)] assms(3) msg_field_size [OF assms(1,2), of d]
  by (auto simp: field_ok_def Let_def size_inside_def)

lemma msg_has_inside:
  assumes "msg_ok D n fs sz" "k < length fs" "htype (fs ! k) = PB_HTYPE_OPTIONAL"
    "field_size fs d k \<noteq> field_data fs d k"
  shows "size_inside d sz (SizeAt (field_size fs d k)) 1"
  using msg_okD(3) [OF assms(1,2)] assms(3,4) msg_field_size [OF assms(1,2), of d]
    field_data_shift [of fs d k]
  by (auto simp: field_ok_def Let_def size_inside_def)

section \<open>Release has nothing to do\<close>

lemma release_loop_idle:
  assumes "tagged fs" "\<And>k. k < length fs \<Longrightarrow> f (iter_at fs d k) pm = Some pm" "k < length fs"
  shows "release_fields_loop f (iter_at fs d k) pm = Some pm"
  using assms(3)
proof (induction "length fs - k" arbitrary: k)
  case (Suc m)
  then show ?case
    using assms(2) [OF Suc.prems] next_iter_at0 [OF assms(1) Suc.prems, of d] Suc.hyps(1) [of "Suc k"]
    by (subst release_fields_loop.simps) simp
qed simp

lemma release_message_idle:
  assumes "tagged fs" "\<And>k. k < length fs \<Longrightarrow> f (iter_at fs d k) pm = Some pm"
  shows "release_message f fs d pm = Some pm"
  using release_loop_idle [of fs f d pm 0] assms begin_iter_at [OF assms(1), of d]
  by (auto simp: release_message_def)

lemma release_items_idle: "(\<And>p. f p pm = Some pm) \<Longrightarrow> release_items f sz c p pm = Some pm"
  by (induction c arbitrary: p) simp_all

lemma release_single_idle:
  "msg_ok (de_descs E) n fs sz \<Longrightarrow> k < length fs \<Longrightarrow>
   pb_release_single_field E n (iter_at fs d k) pm = Some pm"
proof (induction n arbitrary: fs sz k d)
  case (Suc n)
  note st = msg_static [OF Suc.prems]
  have "release_items (release_message (pb_release_single_field E n) (de_descs E (pf_ptr (fs ! k))))
      sz' c p pm = Some pm" if "ltype (fs ! k) = PB_LTYPE_SUBMESSAGE" for sz' c p
    using msg_ok_sub [OF Suc.prems that] Suc.IH
    by (intro release_items_idle release_message_idle) (auto dest: msg_okD(1))
  then show ?case
    using st Suc.prems(2) by (simp add: Let_def)
qed simp

lemma release_idle:
  "msg_ok (de_descs E) n fs sz \<Longrightarrow> pb_release E n fs d pm = Some pm"
  unfolding pb_release_def
  by (rule release_message_idle) (auto dest: msg_okD(1) release_single_idle)

section \<open>Default values\<close>

lemma default_loop_inv:
  assumes "tagged fs"
    and step: "\<And>k pm. k < length fs \<Longrightarrow> P k pm \<Longrightarrow> \<exists>pm'. f (iter_at fs d k) pm = Some pm' \<and> P (Suc k) pm'"
    and "k < length fs" "P k pm"
  shows "\<exists>pm'. default_fields_loop f (iter_at fs d k) pm = Some pm' \<and> P (length fs) pm'"
  using assms(3,4)
proof (induction "length fs - k" arbitrary: k pm)
  case (Suc m)
  from step [OF Suc.prems] obtain pm1 where pm1: "f (iter_at fs d k) pm = Some pm1" "P (Suc k) pm1"
    by blast
  show ?case
  proof (cases "Suc k < length fs")
    case True
    from Suc.hyps(2) have "m = length fs - Suc k" by simp
    from Suc.hyps(1) [OF this True pm1(2)] obtain pm' where
      "default_fields_loop f (iter_at fs d (Suc k)) pm1 = Some pm'" "P (length fs) pm'" by blast
    then show ?thesis
      using pm1(1) next_iter_at0 [OF assms(1) Suc.prems(1), of d] True
      by (subst default_fields_loop.simps) simp
  next
    case False
    then have "Suc k = length fs" using Suc.prems(1) by simp
    then show ?thesis
      using pm1 next_iter_at0 [OF assms(1) Suc.prems(1), of d]
      by (subst default_fields_loop.simps) simp
  qed
qed simp

lemma message_defaults_inv:
  assumes "tagged fs"
    and "\<And>k pm. k < length fs \<Longrightarrow> P k pm \<Longrightarrow> \<exists>pm'. f (iter_at fs d k) pm = Some pm' \<and> P (Suc k) pm'"
    and "P 0 pm"
  shows "\<exists>pm'. message_defaults f fs d pm = Some pm' \<and> P (length fs) pm'"
proof (cases "fs = []")
  case True
  then show ?thesis using assms(3) begin_iter_at [OF assms(1), of d] by (simp add: message_defaults_def)
next
  case False
  then show ?thesis
    using default_loop_inv [where P = P and f = f and k = 0 and d = d, OF assms(1,2) _ assms(3)]
      begin_iter_at [OF assms(1), of d]
    by (simp add: message_defaults_def)
qed

lemma message_defaults_confined:
  assumes "tagged fs"
    and "\<And>k pm. k < length fs \<Longrightarrow> \<exists>pm'. f (iter_at fs d k) pm = Some pm' \<and> confined a n pm pm'"
  shows "\<exists>pm'. message_defaults f fs d pm = Some pm' \<and> confined a n pm pm'"
proof (rule message_defaults_inv [where P = "\<lambda>k. confined a n pm", OF assms(1)])
  fix k pm1 assume "k < length fs" "confined a n pm pm1"
  with assms(2) [of k pm1] show "\<exists>pm'. f (iter_at fs d k) pm1 = Some pm' \<and> confined a n pm pm'"
    by (auto intro: confined_trans)
qed simp

lemma field_default_confined:
  "msg_ok (de_descs E) n fs sz \<Longrightarrow> k < length fs \<Longrightarrow>
   \<exists>pm'. pb_field_set_to_default E n (iter_at fs d k) pm = Some pm' \<and> confined d sz pm pm'"
proof (induction n arbitrary: fs sz k d pm)
  case (Suc n)
  note ok = Suc.prems
  note st = msg_static [OF ok]
  let ?f = "fs ! k" and ?a = "field_data fs d k" and ?c = "SizeAt (field_size fs d k)"
  have data: "\<exists>pm'. (if ltype ?f = PB_LTYPE_SUBMESSAGE
        then message_defaults (pb_field_set_to_default E n) (de_descs E (pf_ptr ?f)) ?a pm1
        else if pf_ptr ?f \<noteq> 0
          then Some (pm_put pm1 ?a (load_bytes (pm_bytes pm1) (pf_ptr ?f) (unat (pf_data_size ?f))))
        else Some (pm_put pm1 ?a (replicate (unat (pf_data_size ?f)) 0))) = Some pm' \<and>
      confined d sz pm1 pm'" (is "\<exists>pm'. ?E = Some pm' \<and> _")
    if h: "htype ?f \<noteq> PB_HTYPE_REPEATED" for pm1
  proof -
    have "\<exists>pm'. ?E = Some pm' \<and> confined ?a (unat (pf_data_size ?f)) pm1 pm'"
    proof (cases "ltype ?f = PB_LTYPE_SUBMESSAGE")
      case True
      note sub = msg_ok_sub [OF ok True]
      have "\<exists>pm'. message_defaults (pb_field_set_to_default E n) (de_descs E (pf_ptr ?f)) ?a pm1 = Some pm' \<and>
          confined ?a (unat (pf_data_size ?f)) pm1 pm'"
        using sub by (intro message_defaults_confined Suc.IH) (auto dest: msg_okD(1))
      then show ?thesis using True by simp
    qed (auto intro: confined_put)
    then show ?thesis using confined_data [OF ok h] by blast
  qed
  consider (required) "htype ?f = PB_HTYPE_REQUIRED"
    | (has) "htype ?f = PB_HTYPE_OPTIONAL" "?c \<noteq> SizeAt ?a"
    | (implicit) "htype ?f = PB_HTYPE_OPTIONAL" "?c = SizeAt ?a"
    | (counted) "htype ?f = PB_HTYPE_REPEATED \<or> htype ?f = PB_HTYPE_ONEOF"
    using htype_cases by blast
  then show ?case
  proof cases
    case required
    then show ?thesis using data [of pm] ok(2) st(1,2) by (simp add: Let_def)
  next
    case has
    then have "confined d sz pm (has_put pm ?c False)"
      using msg_has_inside [OF ok, of d] by (auto intro: confined_has_put)
    then show ?thesis
      using data [of "has_put pm ?c False"] has ok(2) st(1,2) by (auto simp: Let_def intro: confined_trans)
  next
    case implicit
    then show ?thesis using data [of pm] ok(2) st(1,2) by (simp add: Let_def)
  next
    case counted
    then show ?thesis
      using confined_size_put [OF msg_size_inside [OF ok counted, of d]] ok(2) st(1,2)
      by (auto simp: Let_def)
  qed
qed simp

lemma defaults_confined:
  assumes "msg_ok (de_descs E) n fs sz"
  shows "\<exists>pm'. pb_message_set_to_defaults E n fs d pm = Some pm' \<and> confined d sz pm pm'"
  unfolding pb_message_set_to_defaults_def
  by (intro message_defaults_confined msg_okD(1) [OF assms] field_default_confined [OF assms])

section \<open>One field\<close>

text \<open>What a decoder of messages promises on streams of fewer than \<open>b\<close> bytes.\<close>

definition safe_decoder ::
    "('s \<Rightarrow> bool \<Rightarrow> u64 \<Rightarrow> bool \<times> u8 list \<times> 's) \<Rightarrow> (nat \<Rightarrow> pb_field list) \<Rightarrow> nat \<Rightarrow> nat \<Rightarrow> 's msg_decoder \<Rightarrow> bool" where
  "safe_decoder cb D d b noinit \<longleftrightarrow>
     (\<forall>s fs pm dest sz. is_callback s = cb \<longrightarrow> unat (is_bytes_left s) < b \<longrightarrow> msg_ok D d fs sz \<longrightarrow>
        (\<exists>ok s' pm'. noinit s fs pm dest = Some (ok, s', pm') \<and> later s s' \<and> confined dest sz pm pm'))"

definition safe_result :: "'s pb_istream \<Rightarrow> nat \<Rightarrow> nat \<Rightarrow> pb_mem \<Rightarrow> 's dec_result \<Rightarrow> bool" where
  "safe_result s a n pm r \<longleftrightarrow>
     (\<exists>ok s' pm'. r = Some (ok, s', pm') \<and> later s s' \<and> confined a n pm pm')"

lemma safe_result_Some [simp]:
  "safe_result s a n pm (Some (ok, s', pm')) \<longleftrightarrow> later s s' \<and> confined a n pm pm'"
  by (auto simp: safe_result_def)

lemma size_max [simp]: "(v :: u32) \<le> PB_SIZE_MAX" "\<not> PB_SIZE_MAX < v"
  using unat_u32_less [of v] by (simp_all add: word_le_nat_alt not_less)

lemma safe_result_mono:
  assumes "safe_result s1 b k pm1 r" "later s s1" "confined a n pm pm1" "a \<le> b" "b + k \<le> a + n"
  shows "safe_result s a n pm r"
proof -
  obtain ok s' pm' where r: "r = Some (ok, s', pm')" "later s1 s'" "confined b k pm1 pm'"
    using assms(1) unfolding safe_result_def by blast
  have "later s s'" using assms(2) r(2) by (rule later_trans)
  moreover have "confined a n pm pm'"
    using assms(3) confined_mono [OF r(3) assms(4,5)] by (rule confined_trans)
  ultimately show ?thesis using r(1) unfolding safe_result_def by blast
qed

lemma safe_decoderD:
  "safe_decoder cb D d b noinit \<Longrightarrow> is_callback s = cb \<Longrightarrow> unat (is_bytes_left s) < b \<Longrightarrow> msg_ok D d fs sz \<Longrightarrow>
   safe_result s dest sz pm (noinit s fs pm dest)"
  by (simp add: safe_decoder_def safe_result_def)

lemma decode_message_safe:
  assumes "safe_decoder cb (de_descs E) d b noinit" "is_callback s = cb" "unat (is_bytes_left s) < b"
    "msg_ok (de_descs E) d fs sz"
  shows "safe_result s dest sz pm (decode_message E d noinit s fs pm dest)"
proof -
  obtain pm1 where pm1: "pb_message_set_to_defaults E d fs dest pm = Some pm1" "confined dest sz pm pm1"
    using defaults_confined [OF assms(4)] by blast
  obtain ok s' pm' where r: "noinit s fs pm1 dest = Some (ok, s', pm')" "later s s'" "confined dest sz pm1 pm'"
    using safe_decoderD [OF assms] unfolding safe_result_def by blast
  show ?thesis
    using pm1 r release_idle [OF assms(4)]
    by (auto simp: decode_message_def safe_result_def intro: confined_trans)
qed

context pb_source
begin

lemma read_length:
  assumes "is_callback s = cb" "pb_read s True n = (ok, bs, s')"
  shows "length bs \<le> unat n"
proof -
  obtain st' where "cb (is_state s) True n = (True, map (peek (is_state s)) [0..<unat n], st')"
    using source_gives [of "is_state s" True n] by auto
  then show ?thesis
    using assms by (auto simp: pb_read_def pb_read_call_def Let_def split: if_splits)
qed

lemma dec_bytes_safe:
  assumes "is_callback s = cb" "atype f = PB_ATYPE_STATIC"
  shows "safe_result s dest (unat (pf_data_size f)) pm (pb_dec_bytes E s f pm dest)"
proof -
  obtain ok v t where v: "pb_decode_varint32 s = (ok, v, t)" by (cases "pb_decode_varint32 s")
  note l = varint32_later [OF v]
  show ?thesis
  proof (cases "ok \<and> \<not> ucast v > (ucast v :: u64) + 4 \<and> \<not> (ucast v :: u64) + 4 > ucast (pf_data_size f)")
    case True
    obtain rok bs u where r: "pb_read t True (ucast v) = (rok, bs, u)" by (cases "pb_read t True (ucast v)")
    have "length bs \<le> unat (ucast v :: u64)"
      using read_length [OF _ r] l assms(1) by (simp add: later_def)
    moreover have "unat ((ucast v :: u64) + 4) = unat (ucast v :: u64) + unat (4 :: u64)"
      using unat_u32_less [of v] by (intro unat_add_no_overflow) (simp add: unat_ucast_up)
    ultimately have fit: "4 + length bs \<le> unat (pf_data_size f)"
      using True by (simp add: not_less word_le_nat_alt unat_ucast_up)
    then have "confined dest (unat (pf_data_size f)) pm
        (pm_put (pm_put pm dest (le_bytes 4 v)) (dest + 4) bs)"
      by (intro confined_trans [OF confined_put confined_put]) simp_all
    moreover have "later s u" using l read_later [OF r] by (rule later_trans)
    ultimately show ?thesis
      using True v r l assms(2) by (simp add: pb_dec_bytes_def not_less Let_def)
  next
    case False
    then show ?thesis
      using v l assms(2) by (auto simp: pb_dec_bytes_def not_less Let_def)
  qed
qed

lemma dec_string_safe:
  assumes "is_callback s = cb" "atype f = PB_ATYPE_STATIC"
  shows "safe_result s dest (unat (pf_data_size f)) pm (pb_dec_string E s f pm dest)"
proof -
  obtain ok v t where v: "pb_decode_varint32 s = (ok, v, t)" by (cases "pb_decode_varint32 s")
  note l = varint32_later [OF v]
  let ?n = "ucast (v + 1) :: u64"
  show ?thesis
  proof (cases "ok \<and> \<not> ?n < ucast v \<and> \<not> ?n > ucast (pf_data_size f)")
    case True
    obtain rok bs u where r: "pb_read t True (ucast v) = (rok, bs, u)" by (cases "pb_read t True (ucast v)")
    have bs: "length bs \<le> unat v"
      using read_length [OF _ r] l assms(1) by (simp add: later_def unat_ucast_up)
    have "unat v \<noteq> 2 ^ 32 - 1"
    proof
      assume "unat v = 2 ^ 32 - 1"
      then have "v = PB_SIZE_MAX" by (simp add: word_unat_eq_iff)
      then show False using True by simp
    qed
    then have "unat (v + 1) = unat v + unat (1 :: u32)"
      using unat_u32_less [of v] by (intro unat_add_no_overflow) simp
    then have fit: "unat v + 1 \<le> unat (pf_data_size f)"
      using True by (simp add: not_less word_le_nat_alt unat_ucast_up)
    then have "confined dest (unat (pf_data_size f)) pm
        (pm_put (pm_put pm dest bs) (dest + unat v) [0])"
      using bs by (intro confined_trans [OF confined_put confined_put]) simp_all
    moreover have "later s u" using l read_later [OF r] by (rule later_trans)
    ultimately show ?thesis
      using True v r l assms(2) by (simp add: pb_dec_string_def not_less Let_def)
  next
    case False
    then show ?thesis
      using v l assms(2) by (auto simp: pb_dec_string_def not_less Let_def)
  qed
qed

lemma dec_fixed_length_safe:
  assumes "is_callback s = cb"
  shows "safe_result s dest (unat (pf_data_size f)) pm (Some (pb_dec_fixed_length_bytes s f pm dest))"
proof -
  obtain ok v t where v: "pb_decode_varint32 s = (ok, v, t)" by (cases "pb_decode_varint32 s")
  note l = varint32_later [OF v]
  obtain rok bs u where r: "pb_read t True (ucast (pf_data_size f)) = (rok, bs, u)"
    by (cases "pb_read t True (ucast (pf_data_size f))")
  have "length bs \<le> unat (pf_data_size f)"
    using read_length [OF _ r] l assms(1) by (simp add: later_def unat_ucast_up)
  then have "confined dest (unat (pf_data_size f)) pm (pm_put pm dest bs)"
    by (intro confined_put) simp_all
  moreover have "confined dest (unat (pf_data_size f)) pm
      (pm_put pm dest (replicate (unat (pf_data_size f)) 0))"
    by (intro confined_put) simp_all
  moreover have "later s u" using l read_later [OF r] by (rule later_trans)
  ultimately show ?thesis
    using v r l by (simp add: pb_dec_fixed_length_bytes_def)
qed

lemma dec_submessage_safe:
  assumes "safe_decoder cb (de_descs E) d b noinit" "is_callback s = cb" "unat (is_bytes_left s) \<le> b"
    "pf_ptr f \<noteq> 0 \<Longrightarrow> msg_ok (de_descs E) d (de_descs E (pf_ptr f)) (unat (pf_data_size f))"
  shows "safe_result s dest (unat (pf_data_size f)) pm (pb_dec_submessage E d noinit s f pm dest)"
proof -
  obtain ok sub t where mk: "pb_make_string_substream s = (ok, sub, t)"
    by (cases "pb_make_string_substream s")
  note l = make_substream_later [OF mk]
  show ?thesis
  proof (cases "ok \<and> pf_ptr f \<noteq> 0")
    case True
    then have "unat (is_bytes_left sub) < b" using l(3) assms(3) by simp
    then have "safe_result sub dest (unat (pf_data_size f)) pm
        (if htype f = PB_HTYPE_REPEATED then decode_message E d noinit sub (de_descs E (pf_ptr f)) pm dest
         else noinit sub (de_descs E (pf_ptr f)) pm dest)"
      using decode_message_safe [OF assms(1)] safe_decoderD [OF assms(1)] True assms(2,4) l(2) by auto
    then obtain st sub1 pm1 where r: "(if htype f = PB_HTYPE_REPEATED
          then decode_message E d noinit sub (de_descs E (pf_ptr f)) pm dest
          else noinit sub (de_descs E (pf_ptr f)) pm dest) = Some (st, sub1, pm1)"
        "confined dest (unat (pf_data_size f)) pm pm1"
      unfolding safe_result_def by blast
    obtain cok sub2 u where cl: "pb_close_string_substream t sub1 = (cok, sub2, u)"
      by (cases "pb_close_string_substream t sub1")
    have "later s u" using l(1) close_substream_later [OF cl] by (rule later_trans)
    then show ?thesis
      using True mk r cl by (simp add: pb_dec_submessage_def)
  next
    case False
    then show ?thesis using mk l(1) by (auto simp: pb_dec_submessage_def)
  qed
qed

text \<open>The table of decoders, at one item of a static field.\<close>

lemma decoders_safe:
  assumes "safe_decoder cb (de_descs E) d b noinit" "is_callback s = cb" "unat (is_bytes_left s) \<le> b"
    "msg_ok (de_descs E) d fs sz" "k < length fs"
  shows "safe_result s dest (unat (pf_data_size (fs ! k))) pm
    (PB_DECODERS E d noinit (ltype (fs ! k)) s (fs ! k) pm dest)"
proof -
  let ?f = "fs ! k" and ?lt = "ltype (fs ! k)"
  note st = msg_static [OF assms(4,5)]
  have rest: "?lt \<le> PB_LTYPE_LAST_PACKABLE \<or> ?lt = PB_LTYPE_BYTES \<or> ?lt = PB_LTYPE_STRING \<or>
      ?lt = PB_LTYPE_SUBMESSAGE \<or> ?lt = PB_LTYPE_FIXED_LENGTH_BYTES"
  proof -
    have "unat ?lt \<le> 7 \<or> ?lt = 9" using st(4) by (auto simp: word_le_nat_alt)
    then have "unat ?lt \<le> 4 \<or> unat ?lt = 5 \<or> unat ?lt = 6 \<or> unat ?lt = 7 \<or> ?lt = 9" by linarith
    then show ?thesis by (auto simp: word_le_nat_alt word_unat_eq_iff)
  qed
  have big: "\<not> (5 :: u8) \<le> 4" "\<not> (6 :: u8) \<le> 4" "\<not> (7 :: u8) \<le> 4" "\<not> (9 :: u8) \<le> 4" by simp_all
  consider (packable) "?lt \<le> PB_LTYPE_LAST_PACKABLE" | (bytes) "?lt = PB_LTYPE_BYTES"
    | (string) "?lt = PB_LTYPE_STRING" | (sub) "?lt = PB_LTYPE_SUBMESSAGE"
    | (fixed) "?lt = PB_LTYPE_FIXED_LENGTH_BYTES" using rest by blast
  then show ?thesis
  proof cases
    case packable
    obtain ok s' pm' where r: "pb_dec_packable ?lt s ?f pm dest = (ok, s', pm')"
      by (cases "pb_dec_packable ?lt s ?f pm dest")
    then show ?thesis
      using packable dec_packable_later [OF r] dec_packable_confined [OF r st(3) packable]
      by (simp add: PB_DECODERS_def)
  next
    case bytes
    then show ?thesis
      using dec_bytes_safe [OF assms(2) st(1)] by (simp add: PB_DECODERS_def)
  next
    case string
    then show ?thesis
      using dec_string_safe [OF assms(2) st(1)] by (simp add: PB_DECODERS_def)
  next
    case sub
    then show ?thesis
      using dec_submessage_safe [OF assms(1-3) msg_ok_sub_same(2) [OF assms(4,5) sub]]
      by (simp add: PB_DECODERS_def)
  next
    case fixed
    then show ?thesis
      using dec_fixed_length_safe [OF assms(2)] by (simp add: PB_DECODERS_def)
  qed
qed

end

text \<open>Where \<open>pSize\<close> of an iterator over the fields may point.\<close>

definition size_ref_ok :: "pb_field list \<Rightarrow> nat \<Rightarrow> nat \<Rightarrow> size_ref \<Rightarrow> bool" where
  "size_ref_ok fs d k z \<longleftrightarrow>
     z = SizeAt (field_size fs d k) \<or> z = SizeLocal \<and> htype (fs ! k) = PB_HTYPE_REPEATED"

lemma size_ref_inside:
  assumes "msg_ok D n fs sz" "k < length fs" "size_ref_ok fs d k z"
    "htype (fs ! k) = PB_HTYPE_REPEATED \<or> htype (fs ! k) = PB_HTYPE_ONEOF"
  shows "size_inside d sz z 4"
  using assms(3) msg_size_inside [OF assms(1,2,4), of d] by (auto simp: size_ref_ok_def size_inside_def)

lemma item_inside:
  assumes "msg_ok D n fs sz" "k < length fs" "htype (fs ! k) = PB_HTYPE_REPEATED"
    "c < pf_array_size (fs ! k)"
  shows "d \<le> field_data fs d k + unat (pf_data_size (fs ! k) * c)"
    "field_data fs d k + unat (pf_data_size (fs ! k) * c) + unat (pf_data_size (fs ! k)) \<le> d + sz"
    "unat (pf_data_size (fs ! k) * c) = unat (pf_data_size (fs ! k)) * unat c"
proof -
  let ?s = "unat (pf_data_size (fs ! k))" and ?n = "unat (pf_array_size (fs ! k))"
  have c: "unat c + 1 \<le> ?n" using assms(4) by (simp add: word_less_nat_alt)
  then have m: "?s * (unat c + 1) \<le> ?s * ?n" by (rule mult_le_mono2)
  then have le: "?s * unat c + ?s \<le> ?s * ?n" by simp
  have lim: "?s * ?n < 2 ^ 32"
    using msg_okD(3) [OF assms(1,2)] assms(3) by (simp add: field_ok_def Let_def)
  have "?s * unat c < 2 ^ LENGTH(32)" using le lim by simp
  then show p: "unat (pf_data_size (fs ! k) * c) = ?s * unat c"
    by (simp add: unat_word_ariths)
  note inside = msg_data_inside [OF assms(1,2), of d]
  show "d \<le> field_data fs d k + unat (pf_data_size (fs ! k) * c)" using inside by simp
  show "field_data fs d k + unat (pf_data_size (fs ! k) * c) + ?s \<le> d + sz"
    using inside p le span_array [OF msg_static(1) [OF assms(1,2)] assms(3)] by simp
qed

lemma packed_loop_safe:
  assumes "msg_ok D n fs sz" "k < length fs" "htype (fs ! k) = PB_HTYPE_REPEATED"
    "size_ref_ok fs d k z" "ltype (fs ! k) \<le> PB_LTYPE_LAST_PACKABLE"
    "packed_loop (fs ! k) (field_data fs d k) z s pm = (ok, s', pm')"
  shows "later s s' \<and> confined d sz pm pm'"
  using assms(6)
proof (induction "unat (is_bytes_left s)" arbitrary: s pm ok s' pm' rule: less_induct)
  case less
  let ?f = "fs ! k" and ?c = "size_get pm z"
  let ?p = "field_data fs d k + unat (pf_data_size ?f * ?c)"
  show ?case
  proof (cases "is_bytes_left s > 0 \<and> ?c < pf_array_size ?f")
    case True
    obtain iok t pm1 where r: "pb_dec_packable (ltype ?f) s ?f pm ?p = (iok, t, pm1)"
      by (cases "pb_dec_packable (ltype ?f) s ?f pm ?p")
    note it = item_inside(1,2) [OF assms(1-3) conjunct2 [OF True], of d]
    have c1: "confined d sz pm pm1"
      using dec_packable_confined [OF r msg_static(3) [OF assms(1,2)] assms(5)] it(1,2)
      by (rule confined_mono)
    have l1: "later s t" using r by (rule dec_packable_later)
    show ?thesis
    proof (cases iok)
      case True
      let ?pm2 = "size_put pm1 z (size_get pm1 z + 1)"
      have "confined d sz pm1 ?pm2"
        using assms(3) by (intro confined_size_put size_ref_inside [OF assms(1,2,4)]) simp
      then have c2: "confined d sz pm ?pm2" using c1 by (blast intro: confined_trans)
      have rest: "packed_loop ?f (field_data fs d k) z t ?pm2 = (ok, s', pm')"
        using less.prems \<open>is_bytes_left s > 0 \<and> ?c < pf_array_size ?f\<close> r True
        by (subst (asm) packed_loop.simps) simp
      have "unat (is_bytes_left t) < unat (is_bytes_left s)"
        using pb_dec_packable_dec r True by auto
      from less.hyps [OF this rest] have "later t s' \<and> confined d sz ?pm2 pm'" .
      then show ?thesis using l1 c2 by (blast intro: later_trans confined_trans)
    next
      case False
      then show ?thesis
        using less.prems \<open>is_bytes_left s > 0 \<and> ?c < pf_array_size ?f\<close> r l1 c1
        by (subst (asm) packed_loop.simps) simp
    qed
  next
    case False
    then show ?thesis using less.prems by (subst (asm) packed_loop.simps) auto
  qed
qed

context pb_source
begin

lemma static_field_safe:
  assumes "safe_decoder cb (de_descs E) d b noinit" "is_callback s = cb" "unat (is_bytes_left s) \<le> b"
    "msg_ok (de_descs E) d fs sz" "k < length fs" "size_ref_ok fs a k z"
  shows "safe_result s a sz pm (decode_static_field E d noinit s wt (iter_at fs a k\<lparr>fi_size := z\<rparr>) pm)"
proof -
  let ?f = "fs ! k" and ?a = "field_data fs a k"
  note st = msg_static [OF assms(4,5)]
  have dec: "safe_result s a sz pm (PB_DECODERS E d noinit (ltype ?f) s ?f pm1 ?a)"
    if "htype ?f \<noteq> PB_HTYPE_REPEATED" "confined a sz pm pm1" for pm1
    using decoders_safe [OF assms(1-5), of ?a pm1] that msg_data_inside [OF assms(4,5), of a]
      span_single [OF st(1) that(1)]
    by (auto intro: safe_result_mono)
  consider (required) "htype ?f = PB_HTYPE_REQUIRED" | (optional) "htype ?f = PB_HTYPE_OPTIONAL"
    | (repeated) "htype ?f = PB_HTYPE_REPEATED" | (oneof) "htype ?f = PB_HTYPE_ONEOF"
    using htype_cases by blast
  then show ?thesis
  proof cases
    case required
    then show ?thesis using dec [of pm] assms(5) by (simp add: decode_static_field_def Let_def)
  next
    case optional
    then have z: "z = SizeAt (field_size fs a k)" using assms(6) by (simp add: size_ref_ok_def)
    have "confined a sz pm (if z \<noteq> SizeAt ?a then has_put pm z True else pm)"
      using confined_has_put [OF msg_has_inside [OF assms(4,5) optional, of a]] z by auto
    from dec [OF _ this] optional show ?thesis
      using assms(5) by (simp add: decode_static_field_def Let_def)
  next
    case oneof
    then have z: "z = SizeAt (field_size fs a k)" using assms(6) by (simp add: size_ref_ok_def)
    let ?pm1 = "size_put pm z (pf_tag ?f)"
    have c1: "confined a sz pm ?pm1"
      using msg_size_inside [OF assms(4,5), of a] oneof z by (intro confined_size_put) simp
    have "\<exists>pm2. (if ltype ?f = PB_LTYPE_SUBMESSAGE then
          pb_message_set_to_defaults E d (de_descs E (pf_ptr ?f)) ?a
            (pm_put ?pm1 ?a (replicate (unat (pf_data_size ?f)) 0))
        else Some ?pm1) = Some pm2 \<and> confined a sz pm pm2"
    proof (cases "ltype ?f = PB_LTYPE_SUBMESSAGE")
      case True
      obtain pm2 where pm2: "pb_message_set_to_defaults E d (de_descs E (pf_ptr ?f)) ?a
          (pm_put ?pm1 ?a (replicate (unat (pf_data_size ?f)) 0)) = Some pm2"
        "confined ?a (unat (pf_data_size ?f)) (pm_put ?pm1 ?a (replicate (unat (pf_data_size ?f)) 0)) pm2"
        using defaults_confined [OF msg_ok_sub_same(2) [OF assms(4,5) True]] by blast
      have "confined ?a (unat (pf_data_size ?f)) ?pm1 pm2"
        by (rule confined_trans [OF confined_put pm2(2)]) simp_all
      from confined_data [OF assms(4,5) _ this] oneof have "confined a sz ?pm1 pm2" by simp
      then show ?thesis using True pm2(1) c1 by (auto intro: confined_trans)
    qed (use c1 in simp)
    then obtain pm2 where pm2: "(if ltype ?f = PB_LTYPE_SUBMESSAGE then
          pb_message_set_to_defaults E d (de_descs E (pf_ptr ?f)) ?a
            (pm_put ?pm1 ?a (replicate (unat (pf_data_size ?f)) 0))
        else Some ?pm1) = Some pm2" "confined a sz pm pm2" by blast
    from dec [OF _ pm2(2)] oneof show ?thesis
      using pm2(1) assms(5) by (simp add: decode_static_field_def Let_def)
  next
    case repeated
    have sz: "confined a sz pm1 (size_put pm1 z w)" for pm1 w
      using repeated by (intro confined_size_put size_ref_inside [OF assms(4-6)]) simp
    show ?thesis
    proof (cases "wt = PB_WT_STRING \<and> ltype ?f \<le> PB_LTYPE_LAST_PACKABLE")
      case True
      obtain ok sub t where mk: "pb_make_string_substream s = (ok, sub, t)"
        by (cases "pb_make_string_substream s")
      note l = make_substream_later [OF mk]
      obtain ok1 sub1 pm1 where r: "packed_loop ?f ?a z sub pm = (ok1, sub1, pm1)"
        by (cases "packed_loop ?f ?a z sub pm")
      from packed_loop_safe [OF assms(4,5) repeated assms(6) _ r] True have c: "confined a sz pm pm1"
        by simp
      obtain cok sub2 u where cl: "pb_close_string_substream t sub1 = (cok, sub2, u)"
        by (cases "pb_close_string_substream t sub1")
      have "later s u" using l(1) close_substream_later [OF cl] by (rule later_trans)
      then show ?thesis
        using True repeated mk l(1) r c cl assms(5) by (simp add: decode_static_field_def Let_def)
    next
      case False
      let ?c = "size_get pm z" and ?pm1 = "size_put pm z (size_get pm z + 1)"
      let ?p = "?a + unat (pf_data_size ?f * ?c)"
      have "safe_result s a sz pm (PB_DECODERS E d noinit (ltype ?f) s ?f ?pm1 ?p)"
        if "\<not> ?c \<ge> pf_array_size ?f"
      proof -
        from that have "?c < pf_array_size ?f" by simp
        note it = item_inside(1,2) [OF assms(4,5) repeated this, of a]
        show ?thesis
          by (rule safe_result_mono [OF decoders_safe [OF assms(1-5)] later_refl sz it(1,2)])
      qed
      then show ?thesis
        using False repeated sz assms(5) by (auto simp: decode_static_field_def Let_def)
    qed
  qed
qed

end

section \<open>The release of a union\<close>

lemma union_release_idle:
  assumes "msg_ok (de_descs E) d fs sz" "k < length fs" "htype (fs ! k) = PB_HTYPE_ONEOF"
  shows "\<exists>ok s'. pb_release_union_field E d s (iter_at fs a k) pm = Some (ok, s', iter_at fs a k, pm) \<and>
    later s s'"
proof -
  note t = msg_okD(1,2) [OF assms(1)]
  let ?old = "size_get pm (SizeAt (field_size fs a k))" and ?new = "pf_tag (fs ! k)"
  let ?w = "\<lambda>f. pf_tag f = ?old \<and> ltype f \<noteq> PB_LTYPE_EXTENSION"
  have find: "pb_field_iter_find (iter_at fs a k) ?old =
    Some (if ?w (fs ! k) then (True, iter_at fs a k)
          else (case find (\<lambda>j. ?w (fs ! j)) (search_order (length fs) k) of
                  None \<Rightarrow> (False, iter_at fs a k) | Some j \<Rightarrow> (True, iter_at fs a j)))"
    using search_result [OF t(1) assms(2), of "SizeAt (field_size fs a k)" a ?w]
    by (simp add: pb_field_iter_find_def)
  consider "?old = 0 \<or> ?old = ?new" | "?old \<noteq> 0" "?old \<noteq> ?new" by blast
  then show ?thesis
  proof cases
    case 1
    then show ?thesis using assms(2) by (auto simp: pb_release_union_field_def Let_def)
  next
    case 2
    then have no: "\<not> ?w (fs ! k)" by auto
    show ?thesis
    proof (cases "find (\<lambda>j. ?w (fs ! j)) (search_order (length fs) k)")
      case None
      then show ?thesis
        using 2 no find assms(2) by (simp add: pb_release_union_field_def Let_def ex_bool_eq)
    next
      case (Some j)
      then have "j \<in> set (search_order (length fs) k)" by (auto simp: find_Some_iff)
      then have j: "j < length fs" using set_search_order [OF assms(2)] by simp
      have "pb_field_iter_find (iter_at fs a j) ?new = Some (True, iter_at fs a k)"
        using iter_find_hit [OF t j assms(2), of "SizeAt (field_size fs a j)" a]
          msg_static(2) [OF assms(1,2)] by (auto split: if_splits)
      then show ?thesis
        using 2 no find Some assms(2) release_single_idle [OF assms(1) j, of a pm]
        by (simp add: pb_release_union_field_def Let_def ex_bool_eq)
    qed
  qed
qed

context pb_source
begin

lemma decode_field_safe:
  assumes "safe_decoder cb (de_descs E) d b noinit" "is_callback s = cb" "unat (is_bytes_left s) \<le> b"
    "msg_ok (de_descs E) d fs sz" "k < length fs" "size_ref_ok fs a k z"
  shows "\<exists>ok s' pm'. decode_field E d noinit s wt (iter_at fs a k\<lparr>fi_size := z\<rparr>) pm =
      Some (ok, s', iter_at fs a k\<lparr>fi_size := z\<rparr>, pm') \<and> later s s' \<and> confined a sz pm pm'"
proof -
  let ?it = "iter_at fs a k\<lparr>fi_size := z\<rparr>"
  have st: "\<exists>ok s' pm'. decode_static_field E d noinit s1 wt ?it pm = Some (ok, s', pm') \<and>
      later s1 s' \<and> confined a sz pm pm'" if "later s s1" for s1
    using static_field_safe [OF assms(1) _ _ assms(4-6), of s1 pm wt] that assms(2,3)
    by (auto simp: safe_result_def later_def)
  show ?thesis
  proof (cases "htype (fs ! k) = PB_HTYPE_ONEOF")
    case True
    then have it: "?it = iter_at fs a k" using assms(6) by (simp add: size_ref_ok_def iter_at_def)
    obtain ok s1 where u: "pb_release_union_field E d s (iter_at fs a k) pm = Some (ok, s1, iter_at fs a k, pm)"
      "later s s1" using union_release_idle [OF assms(4,5) True] by blast
    obtain ok2 s2 pm2 where r: "decode_static_field E d noinit s1 wt ?it pm = Some (ok2, s2, pm2)"
      "later s1 s2" "confined a sz pm pm2" using st [OF u(2)] by blast
    have "later s s2" using u(2) r(2) by (rule later_trans)
    then show ?thesis
      unfolding it using u r(1,3) True assms(5) msg_static(1) [OF assms(4,5)]
      by (cases ok) (simp_all add: decode_field_def it ex_bool_eq)
  next
    case False
    obtain ok2 s2 pm2 where "decode_static_field E d noinit s wt ?it pm = Some (ok2, s2, pm2)"
      "later s s2" "confined a sz pm pm2" using st [OF later_refl] by blast
    then show ?thesis
      using False assms(5) msg_static(1) [OF assms(4,5)] by (simp add: decode_field_def)
  qed
qed

end

section \<open>The loop over the input\<close>

text \<open>The iterator stands at a field, perhaps with \<open>pSize\<close> redirected; at the start for an empty message.\<close>

definition iter_ok :: "pb_field list \<Rightarrow> nat \<Rightarrow> pb_field_iter \<Rightarrow> bool" where
  "iter_ok fs a it \<longleftrightarrow>
     (if fs = [] then it = iter_at fs a 0
      else \<exists>k z. k < length fs \<and> size_ref_ok fs a k z \<and> it = iter_at fs a k\<lparr>fi_size := z\<rparr>)"

lemma iter_okI: "k < length fs \<Longrightarrow> size_ref_ok fs a k z \<Longrightarrow> iter_ok fs a (iter_at fs a k\<lparr>fi_size := z\<rparr>)"
  by (auto simp: iter_ok_def)

lemma iter_ok_at: "k < length fs \<Longrightarrow> iter_ok fs a (iter_at fs a k)"
  using iter_okI [of k fs a "SizeAt (field_size fs a k)"] by (simp add: size_ref_ok_def iter_at_def)

lemma iter_ok_begin: "iter_ok fs a (iter_at fs a 0)"
  by (cases "fs = []") (simp_all add: iter_ok_def [of "[]"] iter_ok_at)

lemma iter_ok_cases:
  assumes "iter_ok fs a it" "fs \<noteq> []"
  obtains k z where "k < length fs" "size_ref_ok fs a k z" "it = iter_at fs a k\<lparr>fi_size := z\<rparr>"
  using assms by (auto simp: iter_ok_def)

lemma size_ref_oneof:
  "size_ref_ok fs a k z \<Longrightarrow> z = SizeAt (field_size fs a k) \<or> htype (fs ! k) \<noteq> PB_HTYPE_ONEOF"
  by (auto simp: size_ref_ok_def)

text \<open>Every search in a message ends, at a field or back at its start.\<close>

lemma iter_search_ok:
  assumes "tagged fs" "fs \<noteq> []" "iter_ok fs a it"
  shows "\<exists>found it'. iter_search_loop wanted (fi_pos it) it = Some (found, it') \<and> iter_ok fs a it' \<and>
    found = (\<exists>f\<in>set fs. wanted f) \<and> (found \<longrightarrow> wanted (iter_field it'))"
proof -
  from assms(3,2) obtain k z where it: "k < length fs" "size_ref_ok fs a k z"
    "it = iter_at fs a k\<lparr>fi_size := z\<rparr>" by (rule iter_ok_cases)
  note r = search_result [OF assms(1) it(1) size_ref_oneof [OF it(2)], of wanted]
  show ?thesis
  proof (cases "wanted (fs ! k)")
    case True
    then show ?thesis using r it by (auto intro: iter_okI)
  next
    case False
    show ?thesis
    proof (cases "find (\<lambda>j. wanted (fs ! j)) (search_order (length fs) k)")
      case None
      then have "\<not> (\<exists>f\<in>set fs. wanted f)"
        by (auto simp: find_None_iff set_search_order [OF it(1)] in_set_conv_nth)
      then show ?thesis using r it False None by (auto intro: iter_ok_at)
    next
      case (Some j)
      then have "j \<in> set (search_order (length fs) k)" "wanted (fs ! j)"
        by (auto simp: find_Some_iff)
      then have "j < length fs" "wanted (fs ! j)" using set_search_order [OF it(1)] by simp_all
      then show ?thesis using r it False Some by (auto intro: iter_ok_at)
    qed
  qed
qed

text \<open>One round: it consumes a tag, keeps the iterator at a field, and writes inside the struct.\<close>

definition noinit_inv :: "pb_field list \<Rightarrow> nat \<Rightarrow> 's noinit_state \<Rightarrow> bool" where
  "noinit_inv fs a st \<longleftrightarrow> iter_ok fs a (ni_iter st)"

definition advances :: "nat \<Rightarrow> nat \<Rightarrow> 's noinit_state \<Rightarrow> 's noinit_state \<Rightarrow> bool" where
  "advances a sz st st' \<longleftrightarrow>
     later (ni_stream st) (ni_stream st') \<and> confined a sz (ni_mem st) (ni_mem st')"

lemma advances_trans: "advances a sz st st1 \<Longrightarrow> advances a sz st1 st2 \<Longrightarrow> advances a sz st st2"
  unfolding advances_def by (blast intro: later_trans confined_trans)

definition step_ok :: "pb_field list \<Rightarrow> nat \<Rightarrow> nat \<Rightarrow> 's noinit_state \<Rightarrow> 's noinit_step option \<Rightarrow> bool" where
  "step_ok fs a sz st r \<longleftrightarrow>
     (\<exists>st'. (r = Some (Continue st') \<or> r = Some (Break st') \<or> r = Some (ReturnFalse st')) \<and>
        noinit_inv fs a st' \<and> advances a sz st st' \<and>
        (r = Some (Continue st') \<longrightarrow>
           unat (is_bytes_left (ni_stream st')) < unat (is_bytes_left (ni_stream st))))"

lemma tag_bound:
  assumes "pb_decode_tag s = (True, wt, tag, eof, s')"
  shows "tag < 2 ^ 29"
proof -
  obtain temp where "tag = drop_bit 3 temp"
    using assms by (auto simp: pb_decode_tag_def split: prod.splits if_splits)
  then have "unat tag < 2 ^ 29"
    using unat_u32_less [of temp] by (simp add: unat_drop_bit less_mult_imp_div_less)
  then show ?thesis by (simp add: word_less_nat_alt)
qed

lemma msg_extension:
  "msg_ok D n fs sz \<Longrightarrow> f \<in> set fs \<Longrightarrow> ltype f \<noteq> PB_LTYPE_EXTENSION"
  using msg_static(2) [of D n fs sz] by (auto simp: in_set_conv_nth)

lemma find_extension_none:
  assumes "msg_ok D n fs sz" "iter_ok fs a it"
  shows "\<exists>it'. find_extension_field it = Some (False, it') \<and> iter_ok fs a it'"
proof (cases "fs = []")
  case True
  then have it: "it = iter_at [] a 0" using assms(2) by (simp add: iter_ok_def)
  have "find_extension_field it = Some (False, it)"
    unfolding find_extension_field_def it
    by (subst iter_search_loop.simps)
      (simp add: pb_field_iter_next_def PB_LTYPE_def PB_LAST_FIELD_def Let_def)
  then show ?thesis using assms(2) by blast
next
  case False
  obtain found it' where "find_extension_field it = Some (found, it')" "iter_ok fs a it'"
    "found = (\<exists>f\<in>set fs. ltype f = PB_LTYPE_EXTENSION)"
    using iter_search_ok [OF msg_okD(1) [OF assms(1)] False assms(2)]
    unfolding find_extension_field_def by blast
  then show ?thesis using msg_extension [OF assms(1)] by simp
qed

lemma unknown_field_safe:
  assumes "msg_ok (de_descs E) d fs sz" "noinit_inv fs a st" "tag < 2 ^ 29"
  shows "\<exists>st'. unknown_field E d noinit tag wt st \<in> {Some (Continue st'), Some (ReturnFalse st')} \<and>
    noinit_inv fs a st' \<and> advances a sz st st'"
proof -
  have "unat (- 1 :: u32) = 2 ^ 32 - 1" by (simp add: unsigned_minus_1_eq_mask mask_eq_exp_minus_1)
  then have big: "\<not> (- 1 :: u32) \<le> tag" using assms(3) by (simp add: word_le_nat_alt word_less_nat_alt)
  obtain it' where f: "find_extension_field (ni_iter st) = Some (False, it')" "iter_ok fs a it'"
    using find_extension_none [OF assms(1)] assms(2) by (auto simp: noinit_inv_def)
  obtain ok s where sk: "pb_skip_field (ni_stream st) wt = (ok, s)"
    by (cases "pb_skip_field (ni_stream st) wt")
  then have "later (ni_stream st) s" by (rule skip_field_later)
  then show ?thesis
    using assms(2) f sk big
    by (cases ok) (auto simp: unknown_field_def noinit_inv_def advances_def Let_def)
qed

lemma enter_fixed_count_keeps:
  assumes "enter_fixed_count st = Some st'" "noinit_inv fs a st"
  shows "noinit_inv fs a st'" "ni_stream st' = ni_stream st" "confined b n (ni_mem st) (ni_mem st')"
proof -
  show "ni_stream st' = ni_stream st" "confined b n (ni_mem st) (ni_mem st')"
    using assms(1) by (auto simp: enter_fixed_count_def Let_def split: if_splits)
  let ?it = "ni_iter st"
  have it': "ni_iter st' = ?it \<or> ni_iter st' = ?it\<lparr>fi_size := SizeLocal\<rparr> \<and>
      htype (iter_field ?it) = PB_HTYPE_REPEATED"
    using assms(1) by (auto simp: enter_fixed_count_def Let_def split: if_splits)
  have ok: "iter_ok fs a ?it" using assms(2) by (simp add: noinit_inv_def)
  show "noinit_inv fs a st'"
  proof (cases "fs = []")
    case True
    then have "?it = iter_at [] a 0" using ok by (simp add: iter_ok_def)
    then have "htype (iter_field ?it) \<noteq> PB_HTYPE_REPEATED" by (simp add: PB_LAST_FIELD_def PB_HTYPE_def)
    then show ?thesis using it' ok by (simp add: noinit_inv_def)
  next
    case False
    obtain k z where k: "k < length fs" "size_ref_ok fs a k z" "?it = iter_at fs a k\<lparr>fi_size := z\<rparr>"
      using ok False by (rule iter_ok_cases)
    have "size_ref_ok fs a k SizeLocal" if "htype (iter_field ?it) = PB_HTYPE_REPEATED"
      using that k(1,3) by (simp add: size_ref_ok_def)
    then show ?thesis
      using it' ok k iter_okI [OF k(1), of a SizeLocal] by (auto simp: noinit_inv_def)
  qed
qed

lemma mark_required_keeps [simp]:
  "ni_stream (mark_required st) = ni_stream st" "ni_mem (mark_required st) = ni_mem st"
  "ni_iter (mark_required st) = ni_iter st"
  "ni_fixed_count_field (mark_required st) = ni_fixed_count_field st"
  by (simp_all add: mark_required_def Let_def)

lemma empty_field:
  "decode_field E d noinit s wt (iter_at [] a 0) pm =
     (case pb_dec_packable 0 s PB_LAST_FIELD pm (field_data [] a 0) of
        (ok, s', pm') \<Rightarrow> Some (ok, s', iter_at [] a 0, pm'))"
  by (simp add: decode_field_def decode_static_field_def PB_DECODERS_def Let_def
      PB_LAST_FIELD_def PB_LTYPE_def PB_HTYPE_def PB_ATYPE_def split: prod.splits)

context pb_source
begin

lemma known_decode_safe:
  assumes "safe_decoder cb (de_descs E) d b noinit" "is_callback (ni_stream st) = cb"
    "unat (is_bytes_left (ni_stream st)) \<le> b" "msg_ok (de_descs E) d fs sz" "noinit_inv fs a st"
  shows "\<exists>ok s' pm'. decode_field E d noinit (ni_stream st) wt (ni_iter st) (ni_mem st) =
      Some (ok, s', ni_iter st, pm') \<and> later (ni_stream st) s' \<and> confined a sz (ni_mem st) pm'"
proof (cases "fs = []")
  case True
  then have it: "ni_iter st = iter_at [] a 0" using assms(5) by (simp add: noinit_inv_def iter_ok_def)
  obtain ok s' pm' where r: "pb_dec_packable 0 (ni_stream st) PB_LAST_FIELD (ni_mem st)
      (field_data [] a 0) = (ok, s', pm')" by (rule prod_cases3)
  have "pm' = ni_mem st"
    using r by (auto simp: pb_dec_packable_def pb_dec_varint_def store_signed_def PB_LAST_FIELD_def
        split: prod.splits if_splits)
  then show ?thesis unfolding it using r dec_packable_later [OF r] by (simp add: empty_field)
next
  case False
  have "iter_ok fs a (ni_iter st)" using assms(5) by (simp add: noinit_inv_def)
  then obtain k z where it: "k < length fs" "size_ref_ok fs a k z"
    "ni_iter st = iter_at fs a k\<lparr>fi_size := z\<rparr>" using False by (rule iter_ok_cases)
  show ?thesis unfolding it(3) by (rule decode_field_safe [OF assms(1-4) it(1,2)])
qed

lemma known_field_safe:
  assumes "safe_decoder cb (de_descs E) d b noinit" "is_callback (ni_stream st) = cb"
    "unat (is_bytes_left (ni_stream st)) \<le> b" "msg_ok (de_descs E) d fs sz" "noinit_inv fs a st"
  shows "\<exists>st'. known_field E d noinit wt st \<in> {Some (Continue st'), Some (ReturnFalse st')} \<and>
    noinit_inv fs a st' \<and> advances a sz st st'"
proof (cases "enter_fixed_count st")
  case None
  then show ?thesis
    using assms(5) by (auto simp: known_field_def noinit_inv_def advances_def)
next
  case (Some st1)
  note e = enter_fixed_count_keeps [OF Some assms(5)]
  let ?st2 = "mark_required st1"
  note m = mark_required_keeps [of st1]
  obtain ok s' pm' where r: "decode_field E d noinit (ni_stream ?st2) wt (ni_iter ?st2) (ni_mem ?st2) =
      Some (ok, s', ni_iter ?st2, pm')" "later (ni_stream ?st2) s'" "confined a sz (ni_mem ?st2) pm'"
    using known_decode_safe [OF assms(1) _ _ assms(4), of ?st2 a wt] e m assms(2,3)
    by (auto simp: noinit_inv_def)
  let ?st3 = "?st2\<lparr>ni_stream := s', ni_mem := pm', ni_iter := ni_iter ?st2\<rparr>"
  have "known_field E d noinit wt st \<in> {Some (Continue ?st3), Some (ReturnFalse ?st3)}"
    using Some r(1) by (cases ok) (simp_all add: known_field_def Let_def)
  moreover have "noinit_inv fs a ?st3" using e(1) m by (simp add: noinit_inv_def)
  moreover have "advances a sz st ?st3"
    using r(2,3) e(2,3) m by (auto simp: advances_def intro: confined_trans)
  ultimately show ?thesis by blast
qed

lemma noinit_step_safe:
  assumes "safe_decoder cb (de_descs E) d b noinit" "is_callback (ni_stream st) = cb"
    "unat (is_bytes_left (ni_stream st)) \<le> b" "msg_ok (de_descs E) d fs sz" "noinit_inv fs a st"
  shows "step_ok fs a sz st (noinit_step E d noinit st)"
proof -
  obtain ok wt tag eof s where dt: "pb_decode_tag (ni_stream st) = (ok, wt, tag, eof, s)"
    by (cases "pb_decode_tag (ni_stream st)")
  note l = decode_tag_later [OF dt]
  let ?st1 = "st\<lparr>ni_stream := s\<rparr>"
  show ?thesis
  proof (cases ok)
    case False
    then show ?thesis
      using dt l assms(5)
      by (cases eof) (simp_all add: noinit_step_def step_ok_def noinit_inv_def advances_def)
  next
    case True
    then have dec: "unat (is_bytes_left s) < unat (is_bytes_left (ni_stream st))" "tag < 2 ^ 29"
      using dt tag_bound [of "ni_stream st" wt tag eof s] by (auto intro: decode_tag_dec)
    have "\<exists>found it'. pb_field_iter_find (ni_iter st) tag = Some (found, it') \<and> iter_ok fs a it'"
    proof (cases "fs = []")
      case True
      then have "ni_iter st = iter_at [] a 0" using assms(5) by (simp add: noinit_inv_def iter_ok_def)
      then show ?thesis
        using True unfolding pb_field_iter_find_def
        by (subst iter_search_loop.simps) (simp add: pb_field_iter_next_def iter_ok_def Let_def ex_bool_eq)
    next
      case False
      have "iter_ok fs a (ni_iter st)" using assms(5) by (simp add: noinit_inv_def)
      from iter_search_ok [OF msg_okD(1) [OF assms(4)] False this] show ?thesis
        unfolding pb_field_iter_find_def by blast
    qed
    then obtain found it' where f: "pb_field_iter_find (ni_iter st) tag = Some (found, it')"
      "iter_ok fs a it'" by blast
    let ?st2 = "?st1\<lparr>ni_iter := it'\<rparr>"
    have adv: "advances a sz st ?st2" using l by (simp add: advances_def)
    have "\<exists>st'. (if \<not> found then unknown_field E d noinit tag wt ?st2 else known_field E d noinit wt ?st2)
        \<in> {Some (Continue st'), Some (ReturnFalse st')} \<and> noinit_inv fs a st' \<and> advances a sz ?st2 st'"
      using unknown_field_safe [OF assms(4) _ dec(2), of a ?st2 noinit wt]
        known_field_safe [OF assms(1) _ _ assms(4), of ?st2 a wt] f(2) assms(2,3) dec(1) l
      by (cases found) (simp_all add: noinit_inv_def later_def)
    then obtain st' where st': "(if \<not> found then unknown_field E d noinit tag wt ?st2
        else known_field E d noinit wt ?st2) \<in> {Some (Continue st'), Some (ReturnFalse st')}"
      "noinit_inv fs a st'" "advances a sz ?st2 st'" by blast
    have "noinit_step E d noinit st \<in> {Some (Continue st'), Some (ReturnFalse st')}"
      using st'(1) dt f(1) True by (simp add: noinit_step_def Let_def)
    moreover have "unat (is_bytes_left (ni_stream st')) < unat (is_bytes_left (ni_stream st))"
      using st'(3) dec(1) by (simp add: advances_def later_def)
    ultimately show ?thesis
      using st'(2) advances_trans [OF adv st'(3)] unfolding step_ok_def by blast
  qed
qed

end

section \<open>The whole message\<close>

definition noinit_start :: "'s pb_istream \<Rightarrow> pb_field list \<Rightarrow> pb_mem \<Rightarrow> nat \<Rightarrow> 's noinit_state" where
  "noinit_start s fs pm dest =
     \<lparr>ni_stream = s, ni_mem = pm\<lparr>pm_fixed := 0\<rparr>, ni_iter = snd (pb_field_iter_begin fs dest),
      ni_fields_seen = [0, 0], ni_extension_range_start = 0, ni_fixed_count_field = None\<rparr>"

lemma noinit_start_inv [simp]: "noinit_inv fs dest (noinit_start s fs pm dest)"
  by (simp add: noinit_inv_def noinit_start_def begin_iter iter_ok_begin)

lemma noinit_start_sel [simp]:
  "ni_stream (noinit_start s fs pm dest) = s" "ni_mem (noinit_start s fs pm dest) = pm\<lparr>pm_fixed := 0\<rparr>"
  by (simp_all add: noinit_start_def)

lemma noinit_around_safe:
  assumes "loop (noinit_start s fs pm dest) = Some (ok, st')" "advances dest sz (noinit_start s fs pm dest) st'"
  shows "\<exists>ok s' pm'. noinit_around loop s fs pm dest = Some (ok, s', pm') \<and> later s s' \<and>
    confined dest sz pm pm'"
  using assms
  by (cases ok; cases "fixed_count_wrong st'"; cases "required_field_missing (ni_fields_seen st') (ni_iter st')")
    (simp_all add: noinit_around_def advances_def noinit_start_def Let_def ex_bool_eq)

context pb_source
begin

lemma noinit_loop_safe:
  assumes "msg_ok (de_descs E) d fs sz"
  shows "is_callback (ni_stream st) = cb \<Longrightarrow> unat (is_bytes_left (ni_stream st)) < n \<Longrightarrow>
    noinit_inv fs a st \<Longrightarrow>
    \<exists>ok st'. noinit_loop E d n st = Some (ok, st') \<and> noinit_inv fs a st' \<and> advances a sz st st'"
  using assms
proof (induction n arbitrary: st fs a sz)
  case (Suc n)
  have safe: "safe_decoder cb (de_descs E) d n (noinit_around (noinit_loop E d n))"
    unfolding safe_decoder_def
  proof (intro allI impI)
    fix s :: "'s pb_istream" and fs pm dest sz
    assume s: "is_callback s = cb" "unat (is_bytes_left s) < n" "msg_ok (de_descs E) d fs sz"
    from Suc.IH [of "noinit_start s fs pm dest" fs dest sz] s obtain ok st' where
      "noinit_loop E d n (noinit_start s fs pm dest) = Some (ok, st')"
      "advances dest sz (noinit_start s fs pm dest) st'" by auto
    then show "\<exists>ok s' pm'. noinit_around (noinit_loop E d n) s fs pm dest = Some (ok, s', pm') \<and>
        later s s' \<and> confined dest sz pm pm'" by (rule noinit_around_safe)
  qed
  show ?case
  proof (cases "is_bytes_left (ni_stream st) = 0")
    case True
    then show ?thesis using Suc.prems(3) by (simp add: advances_def ex_bool_eq)
  next
    case False
    have "unat (is_bytes_left (ni_stream st)) \<le> n" using Suc.prems(2) by simp
    from noinit_step_safe [OF safe Suc.prems(1) this Suc.prems(4,3)] obtain st1 where
      st1: "noinit_step E d (noinit_around (noinit_loop E d n)) st = Some (Continue st1) \<or>
        noinit_step E d (noinit_around (noinit_loop E d n)) st = Some (Break st1) \<or>
        noinit_step E d (noinit_around (noinit_loop E d n)) st = Some (ReturnFalse st1)"
      "noinit_inv fs a st1" "advances a sz st st1"
      "noinit_step E d (noinit_around (noinit_loop E d n)) st = Some (Continue st1) \<longrightarrow>
         unat (is_bytes_left (ni_stream st1)) < unat (is_bytes_left (ni_stream st))"
      unfolding step_ok_def by blast
    show ?thesis
    proof (cases "noinit_step E d (noinit_around (noinit_loop E d n)) st = Some (Continue st1)")
      case True
      then have "unat (is_bytes_left (ni_stream st1)) < n" using st1(4) Suc.prems(2) by simp
      moreover have "is_callback (ni_stream st1) = cb"
        using st1(3) Suc.prems(1) by (simp add: advances_def later_def)
      ultimately obtain ok st' where r: "noinit_loop E d n st1 = Some (ok, st')" "noinit_inv fs a st'"
        "advances a sz st1 st'" using Suc.IH st1(2) Suc.prems(4) by blast
      have "advances a sz st st'" using st1(3) r(3) by (rule advances_trans)
      then show ?thesis using True False r(1,2) by simp
    next
      case False
      then show ?thesis
        using st1(1-3) \<open>is_bytes_left (ni_stream st) \<noteq> 0\<close> by auto
    qed
  qed
qed simp

lemma noinit_safe:
  assumes "is_callback s = cb" "unat (is_bytes_left s) < n" "msg_ok (de_descs E) d fs sz"
  shows "\<exists>ok s' pm'. pb_decode_noinit E d n s fs pm dest = Some (ok, s', pm') \<and> later s s' \<and>
    confined dest sz pm pm'"
proof -
  from noinit_loop_safe [OF assms(3), of "noinit_start s fs pm dest" n dest] assms(1,2)
  obtain ok st' where "noinit_loop E d n (noinit_start s fs pm dest) = Some (ok, st')"
    "advances dest sz (noinit_start s fs pm dest) st'" by auto
  then show ?thesis unfolding pb_decode_noinit_def by (rule noinit_around_safe)
qed

lemma decode_safe:
  assumes "is_callback s = cb" "unat (is_bytes_left s) < n" "msg_ok (de_descs E) d fs sz"
  shows "\<exists>ok s' pm'. pb_decode E d n s fs pm dest = Some (ok, s', pm') \<and> later s s' \<and>
    confined dest sz pm pm'"
proof -
  have "safe_decoder cb (de_descs E) d n (pb_decode_noinit E d n)"
    unfolding safe_decoder_def using noinit_safe by blast
  from decode_message_safe [OF this assms] show ?thesis
    by (simp add: pb_decode_def safe_result_def)
qed

end

end
