(* ===== verification/PbLayout.thy ===== *)
theory PbLayout
  imports PbSafe
begin

text \<open>
  nanopb, the macros of \<open>nanopb/pb.h\<close> that fill in descriptors from the layout of a struct, for static
  fields. What the compiler knows of a member (\<open>offsetof\<close>, \<open>sizeof\<close>) is given by \<open>pb_member\<close>; the
  generated \<open>.pb.c\<close> files apply \<open>PB_FIELD\<close> to each field and the field before it.
\<close>

unbundle bit_operations_syntax

section \<open>The macros\<close>

text \<open>
  A member with the size and number of its items (one if it is no array), and the offset of its
  \<open>has_\<close>, \<open>_count\<close> or \<open>which_\<close> member.
\<close>

record pb_member =
  mb_offset :: nat
  mb_size :: nat
  mb_entries :: nat
  mb_aux :: nat

definition pb_membersize :: "pb_member \<Rightarrow> nat" where
  "pb_membersize m = mb_size m * mb_entries m"

definition pb_delta :: "nat \<Rightarrow> nat \<Rightarrow> 32 word" where
  "pb_delta m1 m2 = of_int (int m1 - int m2)"

definition PB_DATAOFFSET_FIRST :: "pb_member \<Rightarrow> pb_member \<Rightarrow> u32" where
  "PB_DATAOFFSET_FIRST m1 m2 = of_nat (mb_offset m1)"

definition PB_DATAOFFSET_OTHER :: "pb_member \<Rightarrow> pb_member \<Rightarrow> u32" where
  "PB_DATAOFFSET_OTHER m1 m2 =
     of_nat (mb_offset m1) - of_nat (mb_offset m2) - of_nat (pb_membersize m2)"

definition PB_DATAOFFSET_UNION :: "pb_member \<Rightarrow> pb_member \<Rightarrow> u32" where
  "PB_DATAOFFSET_UNION m1 m2 = PB_SIZE_MAX"

definition PB_REQUIRED_STATIC :: "u32 \<Rightarrow> pb_member \<Rightarrow> u32 \<Rightarrow> u8 \<Rightarrow> nat \<Rightarrow> pb_field" where
  "PB_REQUIRED_STATIC tag m fd lt ptr =
     \<lparr>pf_tag = tag, pf_type = PB_ATYPE_STATIC OR PB_HTYPE_REQUIRED OR lt, pf_data_offset = fd,
      pf_size_offset = 0, pf_data_size = of_nat (pb_membersize m), pf_array_size = 0, pf_ptr = ptr\<rparr>"

definition PB_OPTIONAL_STATIC :: "u32 \<Rightarrow> pb_member \<Rightarrow> u32 \<Rightarrow> u8 \<Rightarrow> nat \<Rightarrow> pb_field" where
  "PB_OPTIONAL_STATIC tag m fd lt ptr =
     \<lparr>pf_tag = tag, pf_type = PB_ATYPE_STATIC OR PB_HTYPE_OPTIONAL OR lt, pf_data_offset = fd,
      pf_size_offset = pb_delta (mb_aux m) (mb_offset m),
      pf_data_size = of_nat (pb_membersize m), pf_array_size = 0, pf_ptr = ptr\<rparr>"

definition PB_SINGULAR_STATIC :: "u32 \<Rightarrow> pb_member \<Rightarrow> u32 \<Rightarrow> u8 \<Rightarrow> nat \<Rightarrow> pb_field" where
  "PB_SINGULAR_STATIC tag m fd lt ptr =
     \<lparr>pf_tag = tag, pf_type = PB_ATYPE_STATIC OR PB_HTYPE_OPTIONAL OR lt, pf_data_offset = fd,
      pf_size_offset = 0, pf_data_size = of_nat (pb_membersize m), pf_array_size = 0, pf_ptr = ptr\<rparr>"

definition PB_REPEATED_STATIC :: "u32 \<Rightarrow> pb_member \<Rightarrow> u32 \<Rightarrow> u8 \<Rightarrow> nat \<Rightarrow> pb_field" where
  "PB_REPEATED_STATIC tag m fd lt ptr =
     \<lparr>pf_tag = tag, pf_type = PB_ATYPE_STATIC OR PB_HTYPE_REPEATED OR lt, pf_data_offset = fd,
      pf_size_offset = pb_delta (mb_aux m) (mb_offset m), pf_data_size = of_nat (mb_size m),
      pf_array_size = of_nat (mb_entries m), pf_ptr = ptr\<rparr>"

definition PB_REPEATED_FIXED_COUNT :: "u32 \<Rightarrow> pb_member \<Rightarrow> u32 \<Rightarrow> u8 \<Rightarrow> nat \<Rightarrow> pb_field" where
  "PB_REPEATED_FIXED_COUNT tag m fd lt ptr =
     \<lparr>pf_tag = tag, pf_type = PB_ATYPE_STATIC OR PB_HTYPE_REPEATED OR lt, pf_data_offset = fd,
      pf_size_offset = 0, pf_data_size = of_nat (mb_size m),
      pf_array_size = of_nat (mb_entries m), pf_ptr = ptr\<rparr>"

definition PB_ONEOF_STATIC :: "u32 \<Rightarrow> pb_member \<Rightarrow> u32 \<Rightarrow> u8 \<Rightarrow> nat \<Rightarrow> pb_field" where
  "PB_ONEOF_STATIC tag m fd lt ptr =
     \<lparr>pf_tag = tag, pf_type = PB_ATYPE_STATIC OR PB_HTYPE_ONEOF OR lt, pf_data_offset = fd,
      pf_size_offset = pb_delta (mb_aux m) (mb_offset m),
      pf_data_size = of_nat (pb_membersize m), pf_array_size = 0, pf_ptr = ptr\<rparr>"

text \<open>The arguments of \<open>PB_FIELD\<close>, and the array that a list of them declares.\<close>

datatype pb_rule = REQUIRED | OPTIONAL | SINGULAR | REPEATED | FIXED_COUNT | ONEOF

datatype pb_placement = FIRST | OTHER | UNION

record pb_decl =
  pd_tag :: u32
  pd_ltype :: u8
  pd_rule :: pb_rule
  pd_placement :: pb_placement
  pd_member :: pb_member
  pd_ptr :: nat

definition PB_FIELD :: "pb_decl \<Rightarrow> pb_member \<Rightarrow> pb_field" where
  "PB_FIELD d prev =
     (let m = pd_member d;
          fd = (case pd_placement d of
                  FIRST \<Rightarrow> PB_DATAOFFSET_FIRST m prev
                | OTHER \<Rightarrow> PB_DATAOFFSET_OTHER m prev
                | UNION \<Rightarrow> PB_DATAOFFSET_UNION m prev);
          macro = (case pd_rule d of
                     REQUIRED \<Rightarrow> PB_REQUIRED_STATIC
                   | OPTIONAL \<Rightarrow> PB_OPTIONAL_STATIC
                   | SINGULAR \<Rightarrow> PB_SINGULAR_STATIC
                   | REPEATED \<Rightarrow> PB_REPEATED_STATIC
                   | FIXED_COUNT \<Rightarrow> PB_REPEATED_FIXED_COUNT
                   | ONEOF \<Rightarrow> PB_ONEOF_STATIC)
      in macro (pd_tag d) m fd (pd_ltype d) (pd_ptr d))"

definition fields_of :: "pb_decl list \<Rightarrow> pb_field list" where
  "fields_of ds = map (\<lambda>k. PB_FIELD (ds ! k) (pd_member (ds ! (k - 1)))) [0..<length ds]"

section \<open>Layouts\<close>

text \<open>
  The layout that a C compiler gives to a struct of \<open>sz\<close> bytes: members in order and without
  overlap, those of a union at one place, and the auxiliary members inside. The auxiliary
  member of a field without one is the field itself.
\<close>

definition aux_of :: "pb_decl \<Rightarrow> nat" where
  "aux_of d =
     (if pd_rule d \<in> {REQUIRED, SINGULAR, FIXED_COUNT} then mb_offset (pd_member d)
      else mb_aux (pd_member d))"

definition aux_size :: "pb_decl \<Rightarrow> nat" where
  "aux_size d =
     (case pd_rule d of REQUIRED \<Rightarrow> 0 | SINGULAR \<Rightarrow> 0 | OPTIONAL \<Rightarrow> 1 | _ \<Rightarrow> 4)"

definition decl_ok :: "nat \<Rightarrow> pb_decl \<Rightarrow> bool" where
  "decl_ok sz d \<longleftrightarrow>
     pd_tag d \<noteq> 0 \<and>
     (pd_ltype d \<le> PB_LTYPE_SUBMESSAGE \<or> pd_ltype d = PB_LTYPE_FIXED_LENGTH_BYTES) \<and>
     (pd_ltype d = PB_LTYPE_FIXED32 \<longrightarrow> mb_size (pd_member d) = 4) \<and>
     (pd_ltype d = PB_LTYPE_FIXED64 \<longrightarrow> mb_size (pd_member d) = 8) \<and>
     (pd_rule d \<notin> {REPEATED, FIXED_COUNT} \<longrightarrow> mb_entries (pd_member d) = 1) \<and>
     mb_entries (pd_member d) < 2 ^ 31 \<and> mb_size (pd_member d) < 2 ^ 31 \<and>
     mb_offset (pd_member d) + pb_membersize (pd_member d) \<le> sz \<and>
     aux_of d + aux_size d \<le> sz"

definition next_ok :: "pb_decl \<Rightarrow> pb_decl \<Rightarrow> bool" where
  "next_ok prev d \<longleftrightarrow>
     (case pd_placement d of
        FIRST \<Rightarrow> False
      | OTHER \<Rightarrow> mb_offset (pd_member prev) + pb_membersize (pd_member prev) \<le> mb_offset (pd_member d)
      | UNION \<Rightarrow> pd_rule prev = ONEOF \<and> pd_rule d = ONEOF \<and>
          mb_offset (pd_member d) = mb_offset (pd_member prev) \<and>
          mb_aux (pd_member d) = mb_aux (pd_member prev))"

definition laid_out :: "nat \<Rightarrow> pb_decl list \<Rightarrow> bool" where
  "laid_out sz ds \<longleftrightarrow>
     sz < 2 ^ 31 \<and> list_all (decl_ok sz) ds \<and> distinct (map pd_tag ds) \<and>
     (ds \<noteq> [] \<longrightarrow> pd_placement (hd ds) = FIRST) \<and>
     list_all (\<lambda>k. next_ok (ds ! k) (ds ! Suc k)) [0..<length ds - 1]"

section \<open>The descriptors of a layout\<close>

lemma type_bits:
  assumes "lt \<le> PB_LTYPE_FIXED_LENGTH_BYTES" "h \<in> {PB_HTYPE_REQUIRED, PB_HTYPE_OPTIONAL, PB_HTYPE_REPEATED, PB_HTYPE_ONEOF}"
  shows "PB_LTYPE (h OR lt) = lt" "PB_HTYPE (h OR lt) = h" "PB_ATYPE (h OR lt) = 0"
proof -
  have "unat lt \<le> 9" using assms(1) by (simp add: word_le_nat_alt)
  then have "unat lt \<in> {0, 1, 2, 3, 4, 5, 6, 7, 8, 9}" by auto
  then have "lt \<in> {0, 1, 2, 3, 4, 5, 6, 7, 8, 9}" by (auto simp: word_unat_eq_iff)
  then show "PB_LTYPE (h OR lt) = lt" "PB_HTYPE (h OR lt) = h" "PB_ATYPE (h OR lt) = 0"
    using assms(2) by (auto simp: PB_LTYPE_def PB_HTYPE_def PB_ATYPE_def)
qed

definition htype_of :: "pb_rule \<Rightarrow> u8" where
  "htype_of r =
     (case r of REQUIRED \<Rightarrow> PB_HTYPE_REQUIRED | OPTIONAL \<Rightarrow> PB_HTYPE_OPTIONAL | SINGULAR \<Rightarrow> PB_HTYPE_OPTIONAL
      | REPEATED \<Rightarrow> PB_HTYPE_REPEATED | FIXED_COUNT \<Rightarrow> PB_HTYPE_REPEATED | ONEOF \<Rightarrow> PB_HTYPE_ONEOF)"

lemma macro_defs:
  "PB_FIELD d p =
     (let m = pd_member d;
          array = pd_rule d = REPEATED \<or> pd_rule d = FIXED_COUNT
      in \<lparr>pf_tag = pd_tag d, pf_type = htype_of (pd_rule d) OR pd_ltype d,
          pf_data_offset = (case pd_placement d of FIRST \<Rightarrow> of_nat (mb_offset m)
            | OTHER \<Rightarrow> of_nat (mb_offset m) - of_nat (mb_offset p) - of_nat (pb_membersize p)
            | UNION \<Rightarrow> PB_SIZE_MAX),
          pf_size_offset = pb_delta (aux_of d) (mb_offset m),
          pf_data_size = of_nat (if array then mb_size m else pb_membersize m),
          pf_array_size = (if array then of_nat (mb_entries m) else 0), pf_ptr = pd_ptr d\<rparr>)"
  by (cases "pd_rule d"; cases "pd_placement d")
    (simp_all add: PB_FIELD_def htype_of_def aux_of_def pb_delta_def Let_def
      PB_REQUIRED_STATIC_def PB_OPTIONAL_STATIC_def PB_SINGULAR_STATIC_def PB_REPEATED_STATIC_def
      PB_REPEATED_FIXED_COUNT_def PB_ONEOF_STATIC_def
      PB_DATAOFFSET_FIRST_def PB_DATAOFFSET_OTHER_def PB_DATAOFFSET_UNION_def)

lemma ltype_bound:
  assumes "decl_ok sz d"
  shows "pd_ltype d \<le> PB_LTYPE_FIXED_LENGTH_BYTES"
proof -
  have "pd_ltype d \<le> 7 \<or> pd_ltype d = 9" using assms by (simp add: decl_ok_def)
  then show ?thesis by (auto simp: word_le_nat_alt)
qed

lemma sint_pb_delta:
  assumes "a < 2 ^ 31" "b < 2 ^ 31"
  shows "sint (pb_delta a b) = int a - int b"
proof -
  have "sint (of_int x :: 32 word) = x" if "- (2 ^ 31) \<le> x" "x < 2 ^ 31" for x
    using that by (simp add: signed_of_int signed_take_bit_int_eq_self)
  from this [of "int a - int b"] show ?thesis using assms by (simp add: pb_delta_def)
qed

lemma field_sel:
  assumes "decl_ok sz d" "sz < 2 ^ 31"
  shows "pf_tag (PB_FIELD d p) = pd_tag d" "ltype (PB_FIELD d p) = pd_ltype d"
    "htype (PB_FIELD d p) = htype_of (pd_rule d)" "atype (PB_FIELD d p) = PB_ATYPE_STATIC"
    "pf_ptr (PB_FIELD d p) = pd_ptr d"
    "unat (pf_data_size (PB_FIELD d p)) = mb_size (pd_member d)"
    "unat (pf_array_size (PB_FIELD d p)) =
       (if pd_rule d \<in> {REPEATED, FIXED_COUNT} then mb_entries (pd_member d) else 0)"
    "sint (pf_size_offset (PB_FIELD d p)) = int (aux_of d) - int (mb_offset (pd_member d))"
    "field_span (PB_FIELD d p) = pb_membersize (pd_member d)"
proof -
  note ok = assms(1)[unfolded decl_ok_def]
  have h: "htype_of (pd_rule d) \<in> {PB_HTYPE_REQUIRED, PB_HTYPE_OPTIONAL, PB_HTYPE_REPEATED, PB_HTYPE_ONEOF}"
    by (cases "pd_rule d") (simp_all add: htype_of_def)
  show "pf_tag (PB_FIELD d p) = pd_tag d" "pf_ptr (PB_FIELD d p) = pd_ptr d"
    by (simp_all add: macro_defs Let_def)
  show t: "ltype (PB_FIELD d p) = pd_ltype d" "htype (PB_FIELD d p) = htype_of (pd_rule d)"
    "atype (PB_FIELD d p) = PB_ATYPE_STATIC"
    using type_bits [OF ltype_bound [OF assms(1)] h] by (simp_all add: macro_defs Let_def)
  have sz: "mb_size (pd_member d) < 2 ^ 32" "mb_entries (pd_member d) < 2 ^ 32" using ok by auto
  have one: "pd_rule d \<noteq> REPEATED \<and> pd_rule d \<noteq> FIXED_COUNT \<Longrightarrow> pb_membersize (pd_member d) = mb_size (pd_member d)"
    using ok by (auto simp: pb_membersize_def)
  show size: "unat (pf_data_size (PB_FIELD d p)) = mb_size (pd_member d)"
    using sz(1) one by (auto simp: macro_defs Let_def intro!: unat_of_nat_small)
  show count: "unat (pf_array_size (PB_FIELD d p)) =
       (if pd_rule d \<in> {REPEATED, FIXED_COUNT} then mb_entries (pd_member d) else 0)"
    using sz(2) by (auto simp: macro_defs Let_def intro!: unat_of_nat_small)
  have "aux_of d \<le> sz" "mb_offset (pd_member d) \<le> sz" using ok by auto
  then have "sint (pb_delta (aux_of d) (mb_offset (pd_member d))) = int (aux_of d) - int (mb_offset (pd_member d))"
    using assms(2) by (intro sint_pb_delta) simp_all
  then show "sint (pf_size_offset (PB_FIELD d p)) = int (aux_of d) - int (mb_offset (pd_member d))"
    by (simp add: macro_defs Let_def)
  show "field_span (PB_FIELD d p) = pb_membersize (pd_member d)"
    using size count t one
    by (cases "pd_rule d") (auto simp: field_span_def htype_of_def pb_membersize_def)
qed

lemma fields_of_nth: "k < length ds \<Longrightarrow> fields_of ds ! k = PB_FIELD (ds ! k) (pd_member (ds ! (k - 1)))"
  by (simp add: fields_of_def)

lemma length_fields_of [simp]: "length (fields_of ds) = length ds"
  by (simp add: fields_of_def)

lemma laid_outD:
  assumes "laid_out sz ds" "k < length ds"
  shows "decl_ok sz (ds ! k)" "sz < 2 ^ 31"
    "Suc k < length ds \<Longrightarrow> next_ok (ds ! k) (ds ! Suc k)"
    "k = 0 \<Longrightarrow> pd_placement (ds ! k) = FIRST"
  using assms by (auto simp: laid_out_def list_all_length hd_conv_nth)

lemma layout_size_addr:
  assumes "decl_ok sz d" "sz < 2 ^ 31"
  shows "size_addr (a + mb_offset (pd_member d)) (PB_FIELD d p) = a + aux_of d"
  using field_sel(8) [OF assms, of p] by (simp add: size_addr_def)

text \<open>The iterator finds every member and its auxiliary member at their offsets.\<close>

lemma layout_addresses:
  assumes "laid_out sz ds" "k < length ds"
  shows "field_data (fields_of ds) a k = a + mb_offset (pd_member (ds ! k)) \<and>
    field_size (fields_of ds) a k = a + aux_of (ds ! k)"
  using assms(2)
proof (induction k)
  case 0
  note D = laid_outD [OF assms(1) 0]
  have "mb_offset (pd_member (ds ! 0)) < 2 ^ 32" using D(1,2) by (simp add: decl_ok_def)
  then have "unat (pf_data_offset (fields_of ds ! 0)) = mb_offset (pd_member (ds ! 0))"
    using D(4) 0 by (simp add: fields_of_nth macro_defs Let_def unat_of_nat_small)
  then show ?case
    using 0 layout_size_addr [OF D(1,2)] by (simp add: field_at_def fields_of_nth)
next
  case (Suc k)
  let ?d = "ds ! Suc k" and ?p = "ds ! k"
  have k: "k < length ds" using Suc.prems by simp
  note D = laid_outD [OF assms(1) Suc.prems] and P = laid_outD [OF assms(1) k]
  have IH: "field_data (fields_of ds) a k = a + mb_offset (pd_member ?p)"
    "field_size (fields_of ds) a k = a + aux_of ?p" using Suc.IH k by simp_all
  have f: "fields_of ds ! Suc k = PB_FIELD ?d (pd_member ?p)"
    "fields_of ds ! k = PB_FIELD ?p (pd_member (ds ! (k - 1)))"
    using k Suc.prems by (simp_all add: fields_of_nth)
  have nx: "next_ok ?p ?d" using P(3) Suc.prems by simp
  show ?case
  proof (cases "pd_placement ?d = UNION")
    case True
    then have u: "pd_rule ?p = ONEOF" "pd_rule ?d = ONEOF"
      "mb_offset (pd_member ?d) = mb_offset (pd_member ?p)" "aux_of ?d = aux_of ?p"
      using nx by (auto simp: next_ok_def aux_of_def)
    have "in_union (fields_of ds ! k) (fields_of ds ! Suc k)"
      using u(1,2) True field_sel(3) [OF D(1,2)] field_sel(3) [OF P(1,2)]
      by (simp add: in_union_def f htype_of_def) (simp add: macro_defs Let_def)
    then show ?thesis using IH u(3,4) by simp
  next
    case False
    then have other: "pd_placement ?d = OTHER" using nx by (cases "pd_placement ?d") (auto simp: next_ok_def)
    let ?n = "mb_offset (pd_member ?p) + pb_membersize (pd_member ?p)"
    have le: "?n \<le> mb_offset (pd_member ?d)" using nx other by (simp add: next_ok_def)
    have lt: "mb_offset (pd_member ?d) < 2 ^ 31" using D(1,2) by (simp add: decl_ok_def)
    have off: "pf_data_offset (fields_of ds ! Suc k) = of_nat (mb_offset (pd_member ?d) - ?n)"
      using other le by (simp add: f macro_defs Let_def of_nat_diff diff_diff_eq)
    have val: "unat (pf_data_offset (fields_of ds ! Suc k)) = mb_offset (pd_member ?d) - ?n"
      unfolding off using lt by (intro unat_of_nat_small) simp
    have "pf_data_offset (fields_of ds ! Suc k) \<noteq> PB_SIZE_MAX"
    proof
      assume "pf_data_offset (fields_of ds ! Suc k) = PB_SIZE_MAX"
      then have "mb_offset (pd_member ?d) - ?n = 2 ^ 32 - 1" using val by simp
      then show False using lt by simp
    qed
    then have nu: "\<not> in_union (fields_of ds ! k) (fields_of ds ! Suc k)" by (simp add: in_union_def)
    have data: "field_data (fields_of ds) a (Suc k) = a + mb_offset (pd_member ?d)"
      using nu IH(1) val le field_sel(9) [OF P(1,2)] by (simp add: f)
    show ?thesis
      using data nu layout_size_addr [OF D(1,2), of a] by (simp add: f del: field_data.simps)
  qed
qed

lemma layout_fields_ok:
  assumes "laid_out sz ds" "k < length ds"
  shows "field_ok (fields_of ds) sz k"
proof -
  note D = laid_outD [OF assms] and A = layout_addresses [OF assms, of 0]
  note ok = D(1)[unfolded decl_ok_def]
  let ?d = "ds ! k"
  obtain p where f: "fields_of ds ! k = PB_FIELD ?d p" using fields_of_nth [OF assms(2)] by blast
  note sel = field_sel [OF D(1,2), of p]
  have aux: "pd_rule ?d = SINGULAR \<Longrightarrow> aux_of ?d = mb_offset (pd_member ?d)" by (simp add: aux_of_def)
  have prod: "pd_rule ?d \<in> {REPEATED, FIXED_COUNT} \<Longrightarrow> mb_size (pd_member ?d) * mb_entries (pd_member ?d) \<le> sz"
    using ok by (simp add: pb_membersize_def)
  show ?thesis
    using ok D(2) A prod aux
    by (cases "pd_rule ?d")
      (simp_all add: field_ok_def Let_def f sel scalar_ok_def htype_of_def aux_size_def)
qed

lemma layout_msg_ok:
  assumes "laid_out sz ds"
    and "\<forall>d\<in>set ds. pd_ltype d = PB_LTYPE_SUBMESSAGE \<longrightarrow>
      pd_ptr d \<noteq> 0 \<and> msg_ok D n (D (pd_ptr d)) (mb_size (pd_member d))"
  shows "msg_ok D (Suc n) (fields_of ds) sz"
proof -
  have sel: "pf_tag (fields_of ds ! k) = pd_tag (ds ! k)" "ltype (fields_of ds ! k) = pd_ltype (ds ! k)"
    "pf_ptr (fields_of ds ! k) = pd_ptr (ds ! k)" "pd_tag (ds ! k) \<noteq> 0"
    "unat (pf_data_size (fields_of ds ! k)) = mb_size (pd_member (ds ! k))" if "k < length ds" for k
    using field_sel [OF laid_outD(1,2) [OF assms(1) that]] laid_outD(1) [OF assms(1) that] that
    by (simp_all add: fields_of_nth decl_ok_def)
  have tags: "map pf_tag (fields_of ds) = map pd_tag ds"
    using sel(1) by (intro nth_equalityI) simp_all
  have "tagged (fields_of ds)"
    unfolding tagged_def by (metis in_set_conv_nth length_fields_of sel(1,4))
  moreover have "distinct_tags (fields_of ds)"
    using assms(1) by (simp add: distinct_tags_def tags laid_out_def)
  moreover have "list_all (field_ok (fields_of ds) sz) [0..<length (fields_of ds)]"
    using layout_fields_ok [OF assms(1)] by (simp add: list_all_iff)
  moreover have "list_all (\<lambda>f. ltype f = PB_LTYPE_SUBMESSAGE \<longrightarrow>
      pf_ptr f \<noteq> 0 \<and> msg_ok D n (D (pf_ptr f)) (unat (pf_data_size f))) (fields_of ds)"
    using assms(2) sel(2,3,5) by (simp add: list_all_length)
  ultimately show ?thesis by simp
qed

end
