(* ===== verification/PbFuel.thy ===== *)
theory PbFuel
  imports PbDecode
begin

text \<open>
  The fuel of \<open>pb_decode\<close> only bounds the run: once it is enough for a result, more of it gives the same
  result. This follows from the monotonicity of every function in the decoder of submessages.
\<close>

unbundle bit_operations_syntax

definition result_le :: "'a option \<Rightarrow> 'a option \<Rightarrow> bool" where
  "result_le r r' \<longleftrightarrow> r = None \<or> r = r'"

definition decoder_le :: "'s msg_decoder \<Rightarrow> 's msg_decoder \<Rightarrow> bool" where
  "decoder_le f g \<longleftrightarrow> (\<forall>s fs pm dest. result_le (f s fs pm dest) (g s fs pm dest))"

lemma result_le_simps [simp]: "result_le None r" "result_le (Some x) r \<longleftrightarrow> r = Some x" "result_le r r"
  by (auto simp: result_le_def)

lemma result_le_case:
  "result_le r r' \<Longrightarrow> (\<And>x. result_le (k x) (k' x)) \<Longrightarrow>
   result_le (case r of None \<Rightarrow> None | Some x \<Rightarrow> k x) (case r' of None \<Rightarrow> None | Some x \<Rightarrow> k' x)"
  by (auto simp: result_le_def split: option.splits)

lemma result_le_map: "result_le r r' \<Longrightarrow> result_le (map_option f r) (map_option f r')"
  by (auto simp: result_le_def)

lemma result_le_if: "result_le a a' \<Longrightarrow> result_le b b' \<Longrightarrow> result_le (if c then a else b) (if c then a' else b')"
  by simp

lemma result_le_prod: "(\<And>x y. result_le (k x y) (k' x y)) \<Longrightarrow> result_le (case p of (x, y) \<Rightarrow> k x y) (case p of (x, y) \<Rightarrow> k' x y)"
  by (cases p) simp

lemma decoder_leD: "decoder_le f g \<Longrightarrow> result_le (f s fs pm dest) (g s fs pm dest)"
  by (simp add: decoder_le_def)

named_theorems le_intros

declare result_le_case [le_intros] result_le_map [le_intros] result_le_if [le_intros]
  result_le_prod [le_intros] result_le_simps(3) [le_intros]

lemma decode_message_le [le_intros]:
  "decoder_le f g \<Longrightarrow> result_le (decode_message E d f s fs pm a) (decode_message E d g s fs pm a)"
  unfolding decode_message_def by (intro le_intros decoder_leD)

lemma dec_submessage_le [le_intros]:
  "decoder_le f g \<Longrightarrow> result_le (pb_dec_submessage E d f s field pm a) (pb_dec_submessage E d g s field pm a)"
  unfolding pb_dec_submessage_def by (intro le_intros decoder_leD)

lemma decoders_le [le_intros]:
  "decoder_le f g \<Longrightarrow> result_le (PB_DECODERS E d f lt s field pm a) (PB_DECODERS E d g lt s field pm a)"
  unfolding PB_DECODERS_def Let_def by (intro le_intros)

lemma static_field_le [le_intros]:
  "decoder_le f g \<Longrightarrow> result_le (decode_static_field E d f s wt iter pm) (decode_static_field E d g s wt iter pm)"
  unfolding decode_static_field_def Let_def by (intro le_intros)

lemma pointer_field_le [le_intros]:
  "decoder_le f g \<Longrightarrow> result_le (decode_pointer_field E d f s wt iter pm) (decode_pointer_field E d g s wt iter pm)"
  unfolding decode_pointer_field_def Let_def by (intro le_intros)

lemma decode_field_le [le_intros]:
  "decoder_le f g \<Longrightarrow> result_le (decode_field E d f s wt iter pm) (decode_field E d g s wt iter pm)"
  unfolding decode_field_def Let_def by (intro le_intros)

lemma default_extension_le [le_intros]:
  "decoder_le f g \<Longrightarrow> result_le (default_extension_decoder E d f s ext tag wt pm)
     (default_extension_decoder E d g s ext tag wt pm)"
  unfolding default_extension_decoder_def Let_def by (intro le_intros)

lemma extension_loop_le:
  "decoder_le f g \<Longrightarrow> result_le (extension_decode_loop E d f tag wt pos k s ext pm)
     (extension_decode_loop E d g tag wt pos k s ext pm)"
proof (induction k arbitrary: s ext pm)
  case (Suc k)
  show ?case
    unfolding extension_decode_loop.simps Let_def by (intro le_intros Suc)
qed simp

lemma extension_le [le_intros]:
  "decoder_le f g \<Longrightarrow> result_le (decode_extension E d f s tag wt iter pm) (decode_extension E d g s tag wt iter pm)"
  unfolding decode_extension_def by (rule extension_loop_le)

lemma unknown_field_le [le_intros]:
  "decoder_le f g \<Longrightarrow> result_le (unknown_field E d f tag wt st) (unknown_field E d g tag wt st)"
  unfolding unknown_field_def Let_def by (intro le_intros)

lemma known_field_le [le_intros]:
  "decoder_le f g \<Longrightarrow> result_le (known_field E d f wt st) (known_field E d g wt st)"
  unfolding known_field_def
  by (cases "enter_fixed_count st") (auto simp: Let_def intro!: le_intros)

lemma step_le:
  "decoder_le f g \<Longrightarrow> result_le (noinit_step E d f st) (noinit_step E d g st)"
  unfolding noinit_step_def Let_def by (intro le_intros)

lemma around_le: "(\<And>st. result_le (l st) (l' st)) \<Longrightarrow> decoder_le (noinit_around l) (noinit_around l')"
  unfolding decoder_le_def noinit_around_def by (intro allI result_le_map)

lemma loop_le: "result_le (noinit_loop E d n st) (noinit_loop E d (Suc n) st)"
proof (induction n arbitrary: st)
  case (Suc n)
  have "result_le
      (case noinit_step E d (noinit_around (noinit_loop E d n)) st of None \<Rightarrow> None
       | Some r \<Rightarrow> (case r of Continue st \<Rightarrow> noinit_loop E d n st | Break st \<Rightarrow> Some (True, st)
           | ReturnFalse st \<Rightarrow> Some (False, st)))
      (case noinit_step E d (noinit_around (noinit_loop E d (Suc n))) st of None \<Rightarrow> None
       | Some r \<Rightarrow> (case r of Continue st \<Rightarrow> noinit_loop E d (Suc n) st | Break st \<Rightarrow> Some (True, st)
           | ReturnFalse st \<Rightarrow> Some (False, st)))"
    by (intro result_le_case step_le around_le Suc)
      (simp split: noinit_step.splits add: Suc del: noinit_loop.simps)
  then show ?case
    by (subst (1 2) noinit_loop.simps) (simp cong: option.case_cong noinit_step.case_cong)
qed simp

lemma noinit_fuel: "n \<le> n' \<Longrightarrow> decoder_le (pb_decode_noinit E d n) (pb_decode_noinit E d n')"
proof (induction rule: dec_induct)
  case (step k)
  have "decoder_le (pb_decode_noinit E d k) (pb_decode_noinit E d (Suc k))"
    unfolding pb_decode_noinit_def by (intro around_le loop_le)
  then show ?case using step.IH by (force simp: decoder_le_def result_le_def)
qed (simp add: decoder_le_def)

lemma decode_fuel: "n \<le> n' \<Longrightarrow> decoder_le (pb_decode E d n) (pb_decode E d n')"
  unfolding pb_decode_def decoder_le_def using noinit_fuel decode_message_le by blast

lemma delimited_fuel:
  "decoder_le f g \<Longrightarrow> decoder_le (decode_delimited f) (decode_delimited g)"
  unfolding decoder_le_def decode_delimited_def
  by (intro allI le_intros) (simp add: decoder_le_def)

end
