(* ===== verification/PbVarintExact.thy ===== *)
theory PbVarintExact
  imports PbVarint
begin

text \<open>
  nanopb: what \<open>pb_decode_varint\<close> and \<open>pb_decode_varint32\<close> do on bytes no encoder wrote. The 64-bit
  decoder is characterised on every input. The 32-bit decoder is characterised on the encoding of
  every 64-bit value, and on the overlong encodings that make its eight-bit \<open>bitpos\<close> wrap.
\<close>

unbundle bit_operations_syntax

section \<open>The value of a varint\<close>

text \<open>The value of a sequence of seven-bit groups, least significant first, and the number of bytes
in front that have the continuation bit.\<close>

fun groups :: "u8 list \<Rightarrow> nat" where
  "groups [] = 0"
| "groups (b # bs) = unat b mod 128 + 128 * groups bs"

definition continued :: "u8 list \<Rightarrow> nat" where
  "continued bs = length (takeWhile (\<lambda>b. 128 \<le> unat b) bs)"

lemma continued_Nil [simp]: "continued [] = 0"
  by (simp add: continued_def)

lemma continued_Cons [simp]:
  "continued (b # bs) = (if 128 \<le> unat b then Suc (continued bs) else 0)"
  by (simp add: continued_def)

lemma group_word:
  "push_bit n (of_nat (unat b mod 128 + 128 * g)) =
   push_bit n (ucast ((b :: u8) AND 0x7F)) OR push_bit (n + 7) (of_nat g :: u64)"
proof -
  have "of_nat (unat b mod 128) = (ucast (b AND 0x7F) :: u64)"
    by (simp add: word_unat_eq_iff unat_ucast_up unat_low7)
  moreover have "ucast (b AND 0x7F) AND (push_bit 7 (of_nat g) :: u64) = 0"
    unfolding low7_masks by (rule bit_word_eqI) (auto simp: bit_simps)
  ultimately have "of_nat (unat b mod 128 + 128 * g) = ucast (b AND 0x7F) OR (push_bit 7 (of_nat g) :: u64)"
    by (simp add: disjunctive_add_eq_or [symmetric] push_bit_eq_mult)
  then show ?thesis by (simp add: push_bit_or add.commute)
qed

lemma unat_low7_byte: "unat (ucast (v AND 0x7F :: u64) OR 0x80 :: u8) = 128 + unat v mod 128"
proof -
  let ?l = "ucast (v AND mask 7) :: u8"
  have l: "unat ?l = unat v mod 128"
    using unat_and_mask [of v 7] by (simp add: unsigned_ucast_eq take_bit_nat_eq_self)
  have "?l AND 0x80 = 0"
    by (rule bit_word_eqI) (auto simp: bit_simps bit_128_int)
  then have "?l OR 0x80 = ?l + 0x80" by (simp add: disjunctive_add_eq_or)
  then have "unat (?l OR 0x80) = unat ?l + 128"
    using l by (simp add: unat_add_no_overflow)
  then show ?thesis unfolding low7_masks using l by simp
qed

lemma high_nibble:
  assumes "16 \<le> unat (b :: u8)" "unat b < 128"
  shows "b AND 0x70 \<noteq> 0"
proof
  assume z: "b AND 0x70 = 0"
  have m: "(0x70 :: u8) = push_bit 4 (mask 3)" by (simp add: mask_numeral)
  have "b = b AND mask 7"
    using assms(2) by (simp add: word_unat_eq_iff unat_and_mask)
  moreover have "b AND mask 7 = (b AND mask 4) OR (b AND 0x70)"
    unfolding m by (rule bit_word_eqI) (auto simp: bit_simps)
  ultimately have "b = b AND mask 4" using z by simp
  then have "unat b = unat b mod 16" using unat_and_mask [of b 4] by simp
  then show False using assms(1) mod_less_divisor [of 16 "unat b"] by linarith
qed

lemma bit_top_u32: "drop_bit 31 (r :: u32) \<noteq> 0 \<longleftrightarrow> bit r 31"
proof
  assume "drop_bit 31 r \<noteq> 0"
  then obtain n where n: "bit (drop_bit 31 r) n" using bit_eqI [of "drop_bit 31 r" 0] by auto
  then have "bit r (31 + n)" by (simp add: bit_drop_bit_eq)
  moreover from this have "31 + n < 32" using bit_imp_le_length by fastforce
  ultimately show "bit r 31" by simp
next
  assume "bit r 31"
  then have "bit (drop_bit 31 r) 0" by (simp add: bit_drop_bit_eq)
  then show "drop_bit 31 r \<noteq> 0" by auto
qed

section \<open>The decoders on any input\<close>

context pb_source
begin

lemma varint64_byte:
  assumes "is_callback s = cb" "content s = b # cs" "bitpos < 64"
  shows "\<exists>t. reads s [b] t \<and> content t = cs \<and> varint64_loop s r bitpos =
    (if 128 \<le> unat b
     then varint64_loop t (r OR push_bit (unat bitpos) (ucast (b AND 0x7F))) (bitpos + 7)
     else (True, r OR push_bit (unat bitpos) (ucast (b AND 0x7F)), t))"
proof -
  from readbyte_reads [OF assms(1,2)] obtain t where
    t: "pb_readbyte s = (True, b, t)" "reads s [b] t" "content t = cs" by blast
  then show ?thesis
    using assms(3) by (auto simp: varint64_loop.simps [of s r bitpos] Let_def byte_continues)
qed

lemma varint64_loop_exact:
  assumes "is_callback s = cb" "unat bitpos = 7 * k" "k \<le> 10"
  shows "if continued (content s) + k < 10 \<and> continued (content s) < length (content s)
    then \<exists>t. varint64_loop s r bitpos = (True,
        r OR push_bit (7 * k) (of_nat (groups (take (Suc (continued (content s))) (content s)))), t) \<and>
      reads s (take (Suc (continued (content s))) (content s)) t
    else \<not> fst (varint64_loop s r bitpos)"
  using assms
proof (induction "10 - k" arbitrary: s r bitpos k)
  case 0
  then show ?case by (simp add: varint64_loop.simps [of s r bitpos] word_le_nat_alt)
next
  case (Suc n)
  then have k: "k < 10" "bitpos < 64" "n = 10 - Suc k" "Suc k \<le> 10"
    by (auto simp: word_less_nat_alt)
  show ?case
  proof (cases "content s")
    case Nil
    then show ?thesis
      using k(2) by (simp add: varint64_loop.simps [of s r bitpos] readbyte_end word_less_nat_alt not_le)
  next
    case (Cons b cs)
    from varint64_byte [OF Suc.prems(1) Cons k(2), of r] obtain t where
      t: "reads s [b] t" "content t = cs" "varint64_loop s r bitpos =
        (if 128 \<le> unat b
         then varint64_loop t (r OR push_bit (7 * k) (ucast (b AND 0x7F))) (bitpos + 7)
         else (True, r OR push_bit (7 * k) (ucast (b AND 0x7F)), t))"
      using Suc.prems(2) by auto
    have p: "unat (bitpos + 7) = 7 * Suc k"
      using Suc.prems(2) k(1) by (subst unat_add_no_overflow) simp_all
    note ih = Suc.hyps(1) [OF k(3) reads_callback [OF t(1)] p k(4),
        of "r OR push_bit (7 * k) (ucast (b AND 0x7F))", unfolded t(2)]
    show ?thesis
    proof (cases "128 \<le> unat b")
      case True
      have v: "(r OR push_bit (7 * k) (ucast (b AND 0x7F))) OR push_bit (7 * Suc k) (of_nat g) =
          r OR push_bit (7 * k) (of_nat (unat b mod 128 + 128 * g))" for g
        using group_word [of "7 * k" b g] by (simp only: or.assoc mult_Suc_right add.commute)
      show ?thesis
        using ih True reads_trans [OF t(1)] unfolding t(3) Cons v
        by (auto split: if_splits)
    next
      case False
      have "push_bit (7 * k) (of_nat (unat b mod 128)) = (push_bit (7 * k) (ucast (b AND 0x7F)) :: u64)"
        using group_word [of "7 * k" b 0] by simp
      then show ?thesis
        using False t k(1) Cons by simp
    qed
  qed
qed

lemma varint_exact:
  assumes "is_callback s = cb"
  shows "if continued (content s) < 10 \<and> continued (content s) < length (content s)
    then \<exists>t. pb_decode_varint s =
        (True, of_nat (groups (take (Suc (continued (content s))) (content s))), t) \<and>
      reads s (take (Suc (continued (content s))) (content s)) t
    else \<not> fst (pb_decode_varint s)"
  using varint64_loop_exact [OF assms, of 0 0 0] by (auto simp: pb_decode_varint_def split: if_splits)


lemma varint32_byte:
  assumes "is_callback s = cb" "content s = b # cs"
  shows "\<exists>t. reads s [b] t \<and> content t = cs \<and> varint32_loop s r bitpos =
    (if bitpos \<ge> 32 \<and> b AND 0x7F \<noteq> 0 \<and>
        (drop_bit 31 r = 0 \<or> b \<noteq> (if bitpos < 63 then 0xFF else 0x01))
     then (False, r, bitpos, b, is_set_error ''varint overflow'' t)
     else let r' = (if bitpos \<ge> 32 then r else r OR push_bit (unat bitpos) (ucast (b AND 0x7F)))
          in if b AND 0x80 \<noteq> 0 then varint32_loop t r' (bitpos + 7)
             else (True, r', bitpos + 7, b, t))"
proof -
  from readbyte_reads [OF assms] obtain t where
    t: "pb_readbyte s = (True, b, t)" "reads s [b] t" "content t = cs" by blast
  then show ?thesis
    by (intro exI [of _ t]) (auto simp: varint32_loop.simps [of s r bitpos] Let_def)
qed

text \<open>The first byte of \<open>pb_decode_varint32_eof\<close> is read as if by the loop.\<close>

lemma varint32_from_loop:
  assumes "is_callback s = cb" "content s = b # cs"
  shows "pb_decode_varint32 s =
    (case varint32_loop s 0 0 of (ok, r, bitpos, b, t) \<Rightarrow>
       if \<not> ok then (False, 0, t)
       else if bitpos = 35 \<and> b AND 0x70 \<noteq> 0 then (False, 0, is_set_error ''varint overflow'' t)
       else (True, r, t))"
proof -
  have low: "b AND 0x80 = 0 \<Longrightarrow> b AND 0x7F = b"
    using no_top_bit top_bit_iff by blast
  from readbyte_reads [OF assms] obtain t where "pb_readbyte s = (True, b, t)" by blast
  then show ?thesis
    using low by (simp add: pb_decode_varint32_def pb_decode_varint32_eof_def
        varint32_loop.simps [of s 0 0] Let_def split: prod.splits)
qed

text \<open>
  Past bit 31 the loop accepts the rest \<open>u\<close> of a varint only as sign extension: groups that are
  zero or all ones, up to the one bit that is left at \<open>bitpos\<close> 63.
\<close>

lemma varint32_sign_extension:
  assumes "is_callback s = cb" "content s = varint_bytes u @ rest" "u \<noteq> 0"
    "unat bitpos = 7 * k" "5 \<le> k" "k \<le> 9" "unat u < 2 ^ (64 - 7 * k)"
  shows "if drop_bit 31 r \<noteq> 0 \<and> 2 ^ (63 - 7 * k) \<le> unat u \<and>
      (\<forall>j < 9 - k. unat u div 2 ^ (7 * j) mod 128 \<in> {0, 127})
    then \<exists>t. varint32_loop s r bitpos = (True, r, 70, 1, t) \<and> reads s (varint_bytes u) t
    else \<not> fst (varint32_loop s r bitpos)"
  using assms
proof (induction "9 - k" arbitrary: s u bitpos k)
  case 0
  then have k: "k = 9" by simp
  have "unat u < 2" using "0.prems"(7) k by simp
  moreover have "unat u \<noteq> 0" using "0.prems"(3) by (simp add: unat_eq_zero)
  ultimately have u: "u = 1" by (simp add: word_unat_eq_iff)
  have pos: "bitpos = 63" using "0.prems"(4) k by (simp add: word_unat_eq_iff)
  have "content s = 1 # rest" using "0.prems"(2) u by (simp add: varint_bytes_small)
  from varint32_byte [OF "0.prems"(1) this, of r bitpos] obtain t where
    "reads s [1] t" "varint32_loop s r bitpos =
      (if drop_bit 31 r = 0 then (False, r, bitpos, 1, is_set_error ''varint overflow'' t)
       else (True, r, 70, 1, t))" unfolding pos by auto
  then show ?case unfolding k u by (simp add: varint_bytes_small)
next
  case (Suc n)
  then have k: "k < 9" by simp
  have pos: "32 \<le> bitpos" "bitpos < 63"
    using Suc.prems(4-6) k by (simp_all add: word_le_nat_alt word_less_nat_alt)
  show ?case
  proof (cases "u \<le> 0x7F")
    case True
    have c: "content s = ucast u # rest" using Suc.prems(2) True by (simp add: varint_bytes_small)
    have lt: "unat u < 128" using True by (simp add: word_le_nat_alt)
    then have b: "unat (ucast u :: u8) = unat u" by (simp add: unsigned_ucast_eq take_bit_nat_eq_self)
    have "(128 :: nat) \<le> 2 ^ (63 - 7 * k)"
      using k power_increasing [of 7 "63 - 7 * k" "2 :: nat"] by simp
    then have "\<not> 2 ^ (63 - 7 * k) \<le> unat u" using lt by simp
    moreover have "(ucast u :: u8) AND 0x7F \<noteq> 0" "(ucast u :: u8) \<noteq> 0xFF"
      using b lt Suc.prems(3) unat_low7 [of "ucast u :: u8"] by (auto simp: word_unat_eq_iff)
    ultimately show ?thesis
      using varint32_byte [OF Suc.prems(1) c, of r bitpos] pos by auto
  next
    case False
    let ?b = "ucast (u AND 0x7F) OR 0x80 :: u8" and ?w = "drop_bit 7 u"
    have big: "128 \<le> unat u" using False by (simp add: word_le_nat_alt)
    have c: "content s = ?b # varint_bytes ?w @ rest"
      using Suc.prems(2) False by (simp add: varint_bytes_step)
    have b: "?b AND 0x7F \<noteq> 0 \<longleftrightarrow> unat u mod 128 \<noteq> 0" "?b = 0xFF \<longleftrightarrow> unat u mod 128 = 127"
      "?b AND 0x80 \<noteq> 0"
      unfolding byte_continues using unat_low7_byte [of u] unat_low7 [of ?b]
      by (auto simp: word_unat_eq_iff)
    from varint32_byte [OF Suc.prems(1) c, of r bitpos] pos b(3) obtain t where
      t: "reads s [?b] t" "content t = varint_bytes ?w @ rest" "varint32_loop s r bitpos =
        (if ?b AND 0x7F \<noteq> 0 \<and> (drop_bit 31 r = 0 \<or> ?b \<noteq> 0xFF)
         then (False, r, bitpos, ?b, is_set_error ''varint overflow'' t)
         else varint32_loop t r (bitpos + 7))" by auto
    have w: "unat ?w = unat u div 128" by (simp add: unat_drop_bit)
    then have nz: "?w \<noteq> 0" using big by (auto simp: word_unat_eq_iff div_eq_0_iff)
    have e: "64 - 7 * k = (64 - 7 * Suc k) + 7" "63 - 7 * k = (63 - 7 * Suc k) + 7" "9 - k = Suc n"
      "n = 9 - Suc k" using k Suc.hyps(2) by simp_all
    have lt: "unat ?w < 2 ^ (64 - 7 * Suc k)"
      using Suc.prems(7) by (intro drop7_bound) (simp only: e(1) [symmetric])
    have size: "2 ^ (63 - 7 * k) \<le> unat u \<longleftrightarrow> 2 ^ (63 - 7 * Suc k) \<le> unat ?w"
      unfolding e(2) w power_add by (simp add: less_eq_div_iff_mult_less_eq)
    have all: "(\<forall>j < 9 - k. unat u div 2 ^ (7 * j) mod 128 \<in> {0, 127}) \<longleftrightarrow>
        unat u mod 128 \<in> {0, 127} \<and> (\<forall>j < 9 - Suc k. unat ?w div 2 ^ (7 * j) mod 128 \<in> {0, 127})"
      unfolding e(3) e(4) [symmetric] All_less_Suc2 w by (simp add: power_add div_mult2_eq)
    have p: "unat (bitpos + 7) = 7 * Suc k" using bitpos_step Suc.prems(4) k by simp
    have "5 \<le> Suc k" "Suc k \<le> 9" using Suc.prems(5) k by simp_all
    note ih = Suc.hyps(1) [OF e(4) reads_callback [OF t(1)] t(2) nz p this lt]
    show ?thesis
      using ih reads_trans [OF t(1)] unfolding size all t(3) b varint_bytes_step [OF False]
      by (auto split: if_splits)
  qed
qed

lemma varint32_prefix:
  assumes "is_callback s = cb" "content s = varint_bytes v @ rest" "k \<le> 5" "2 ^ (7 * k) \<le> unat v \<or> k = 0"
  shows "\<exists>t bs r. varint32_loop s 0 0 = varint32_loop t r (of_nat (7 * k)) \<and> reads s bs t \<and>
    content t = varint_bytes (drop_bit (7 * k) v) @ rest \<and>
    varint_bytes v = bs @ varint_bytes (drop_bit (7 * k) v) \<and>
    r OR push_bit (7 * k) (ucast (drop_bit (7 * k) v)) = (ucast v :: u32)"
  using assms(3,4)
proof (induction k)
  case 0
  then show ?case using reads_refl [OF assms(1)] assms(2) by (intro exI [of _ s] exI [of _ "[]"] exI [of _ 0]) simp
next
  case (Suc k)
  have ge: "2 ^ (7 * k) * 128 \<le> unat v" using Suc.prems(2) by (simp add: power_add)
  then have "2 ^ (7 * k) \<le> unat v" by simp
  then obtain t bs r where t: "varint32_loop s 0 0 = varint32_loop t r (of_nat (7 * k))" "reads s bs t"
    "content t = varint_bytes (drop_bit (7 * k) v) @ rest"
    "varint_bytes v = bs @ varint_bytes (drop_bit (7 * k) v)"
    "r OR push_bit (7 * k) (ucast (drop_bit (7 * k) v)) = (ucast v :: u32)"
    using Suc by auto
  let ?u = "drop_bit (7 * k) v"
  have "128 \<le> unat ?u"
    using ge by (simp add: unat_drop_bit less_eq_div_iff_mult_less_eq mult.commute)
  then have big: "\<not> ?u \<le> 0x7F" by (simp add: word_le_nat_alt)
  have k: "unat (of_nat (7 * k) :: u8) = 7 * k" "k < 5" using Suc.prems(1) by (simp_all del: of_nat_mult)
  have d: "drop_bit 7 ?u = drop_bit (7 * Suc k) v" by (simp add: add.commute)
  from varint32_loop_step [OF reads_callback [OF t(2)] t(3) big k, of r] obtain t' where
    t': "varint32_loop t r (of_nat (7 * k)) =
        varint32_loop t' (r OR push_bit (7 * k) (ucast (?u AND 0x7F))) (of_nat (7 * k) + 7)"
      "reads t [ucast (?u AND 0x7F) OR 0x80] t'" "content t' = varint_bytes (drop_bit (7 * Suc k) v) @ rest"
    unfolding d by blast
  have p: "of_nat (7 * k) + 7 = (of_nat (7 * Suc k) :: u8)" by simp
  have "(r OR push_bit (7 * k) (ucast (?u AND 0x7F))) OR
      push_bit (7 * Suc k) (ucast (drop_bit (7 * Suc k) v)) = (ucast v :: u32)"
    using acc_step32 [of r "7 * k" ?u] t(5) unfolding d by (simp only: mult_Suc_right add.commute)
  then show ?case
    using t(1,4) t'(1,3) reads_trans [OF t(2) t'(2)] varint_bytes_step [OF big] unfolding p d by fastforce
qed

lemma varint32_exact:
  assumes "is_callback s = cb" "content s = varint_bytes v @ rest"
  shows "if unat v < 2 ^ 32 \<or> 2 ^ 63 \<le> unat v \<and> bit v 31 \<and>
      (\<forall>j < 4. unat v div 2 ^ (35 + 7 * j) mod 128 \<in> {0, 127})
    then \<exists>t. pb_decode_varint32 s = (True, ucast v, t) \<and> reads s (varint_bytes v) t
    else \<not> fst (pb_decode_varint32 s)"
proof -
  obtain b cs where bc: "content s = b # cs"
    using assms(2) varint_bytes_length_bounds [of v] by (cases "varint_bytes v") auto
  note start = varint32_from_loop [OF assms(1) bc]
  consider "unat v < 2 ^ 32" | "2 ^ 32 \<le> unat v" "unat v < 2 ^ 35" | "2 ^ 35 \<le> unat v" by linarith
  then show ?thesis
  proof cases
    case 1
    then have "v = ucast (ucast v :: u32)"
      by (simp add: word_unat_eq_iff unat_ucast_up unsigned_ucast_eq unsigned_take_bit_eq take_bit_nat_eq_self)
    then show ?thesis using 1 varint32_reads [of s "ucast v" rest] assms by simp
  next
    case 2
    let ?u = "drop_bit 28 v"
    obtain t bs r where t: "varint32_loop s 0 0 = varint32_loop t r 28" "reads s bs t"
      "content t = varint_bytes ?u @ rest"
      using varint32_prefix [OF assms, of 4] 2 by auto
    have u: "16 \<le> unat ?u" "unat ?u < 128" using 2 by (simp_all add: unat_drop_bit)
    then have small: "?u \<le> 0x7F" and b: "unat (ucast ?u :: u8) = unat ?u"
      by (simp_all add: word_le_nat_alt unsigned_ucast_eq take_bit_nat_eq_self)
    from varint32_loop_last [OF reads_callback [OF t(2)] t(3) small, of 28 4 r] obtain t' where
      "varint32_loop t r 28 = (True, r OR push_bit 28 (ucast ?u), 35, ucast ?u, t')" by auto
    then show ?thesis
      using 2 high_nibble [of "ucast ?u"] u b unfolding start t(1) by simp
  next
    case 3
    let ?u = "drop_bit 35 v"
    obtain t bs r where t: "varint32_loop s 0 0 = varint32_loop t r 35" "reads s bs t"
      "content t = varint_bytes ?u @ rest" "varint_bytes v = bs @ varint_bytes ?u"
      "r OR push_bit 35 (ucast ?u) = (ucast v :: u32)"
      using varint32_prefix [OF assms, of 5] 3 by auto
    have r: "r = ucast v" using t(5) by (auto simp: bit_eq_iff bit_simps)
    have uu: "unat ?u = unat v div 2 ^ 35" by (simp add: unat_drop_bit)
    have nz: "?u \<noteq> 0" using 3 by (auto simp: word_unat_eq_iff uu div_eq_0_iff)
    have lt: "unat ?u < 2 ^ (64 - 7 * 5)" using unat_u64_less [of v] by (simp add: uu)
    have c: "drop_bit 31 (ucast v :: u32) \<noteq> 0 \<longleftrightarrow> bit v 31" "2 ^ (63 - 7 * 5) \<le> unat ?u \<longleftrightarrow> 2 ^ 63 \<le> unat v"
      "(\<forall>j < 9 - 5. unat ?u div 2 ^ (7 * j) mod 128 \<in> {0, 127}) \<longleftrightarrow>
        (\<forall>j < 4. unat v div 2 ^ (35 + 7 * j) mod 128 \<in> {0, 127})"
      unfolding bit_top_u32 uu by (auto simp: bit_simps power_add div_mult2_eq)
    have "unat (35 :: u8) = 7 * 5" by simp
    from varint32_sign_extension [OF reads_callback [OF t(2)] t(3) nz this _ _ lt, of "ucast v"]
    show ?thesis
      using 3 reads_trans [OF t(2)] unfolding start t(1,4) r c by (auto split: if_splits prod.splits)
  qed
qed

lemma varint32_zeros:
  assumes "is_callback s = cb" "content s = replicate n 0x80 @ cs"
  shows "\<exists>t. varint32_loop s r bitpos = varint32_loop t r (bitpos + 7 * of_nat n) \<and>
    reads s (replicate n 0x80) t \<and> content t = cs"
  using assms
proof (induction n arbitrary: s bitpos)
  case 0
  then show ?case using reads_refl by auto
next
  case (Suc n)
  then have c: "content s = 0x80 # replicate n 0x80 @ cs" by simp
  from varint32_byte [OF Suc.prems(1) c, of r bitpos] obtain t where
    t: "reads s [0x80] t" "content t = replicate n 0x80 @ cs"
      "varint32_loop s r bitpos = varint32_loop t r (bitpos + 7)" by auto
  have p: "bitpos + 7 + 7 * of_nat n = bitpos + 7 * of_nat (Suc n)" by (simp add: algebra_simps)
  from Suc.IH [OF reads_callback [OF t(1)] t(2), of "bitpos + 7"] t reads_trans [OF t(1)]
  show ?case unfolding p by auto
qed

lemma varint32_from_bit_3:
  assumes "is_callback s = cb" "content s = varint_bytes v @ rest"
    "unat bitpos = 7 * k + 3" "k < 5" "unat v < 2 ^ (32 - 7 * k)"
  shows "\<exists>bp b t. varint32_loop s r bitpos = (True, r OR push_bit (7 * k + 3) (ucast v), bp, b, t) \<and>
    bp \<noteq> 35 \<and> reads s (varint_bytes v) t"
  using assms
proof (induction "unat v" arbitrary: v s r bitpos k rule: less_induct)
  case less
  have pos: "\<not> 32 \<le> bitpos" using less.prems(3,4) by (simp add: word_le_nat_alt)
  have next_pos: "unat (bitpos + 7) = 7 * Suc k + 3"
    using less.prems(3,4) by (subst unat_add_no_overflow) simp_all
  show ?case
  proof (cases "v \<le> 0x7F")
    case True
    have c: "content s = ucast v # rest" using less.prems(2) True by (simp add: varint_bytes_small)
    have "bitpos + 7 \<noteq> 35" using next_pos by (auto simp: word_unat_eq_iff) presburger
    then show ?thesis
      using varint32_byte [OF less.prems(1) c, of r bitpos] pos True less.prems(3)
      by (auto simp: small_byte acc_small varint_bytes_small)
  next
    case False
    let ?b = "ucast (v AND 0x7F) OR 0x80 :: u8" and ?w = "drop_bit 7 v"
    have c: "content s = ?b # varint_bytes ?w @ rest"
      using less.prems(2) False by (simp add: varint_bytes_step)
    from varint32_byte [OF less.prems(1) c, of r bitpos] pos low7_byte [of v] less.prems(3)
    obtain t where t: "reads s [?b] t" "content t = varint_bytes ?w @ rest"
      "varint32_loop s r bitpos =
        varint32_loop t (r OR push_bit (7 * k + 3) (ucast (v AND 0x7F))) (bitpos + 7)"
      by (auto simp: acc_low7)
    have big: "128 \<le> unat v" using False by (simp add: word_le_nat_alt)
    have lt: "unat ?w < unat v" using big by (simp add: unat_drop_bit)
    have "(2::nat) ^ 7 < 2 ^ (32 - 7 * k)" using big less.prems(5) by simp
    then have "7 < 32 - 7 * k" by (simp only: power_strict_increasing_iff)
    then have k: "Suc k < 5" "32 - 7 * k = (32 - 7 * Suc k) + 7" by simp_all
    have w: "unat ?w < 2 ^ (32 - 7 * Suc k)"
      using less.prems(5) by (intro drop7_bound) (simp only: k(2) [symmetric])
    have acc: "(r OR push_bit (7 * k + 3) (ucast (v AND 0x7F))) OR push_bit (7 * Suc k + 3) (ucast ?w) =
        r OR push_bit (7 * k + 3) (ucast v)"
      using acc_step32 [of r "7 * k + 3" v] by (simp add: ac_simps)
    show ?thesis
      using less.hyps [OF lt reads_callback [OF t(1)] t(2) next_pos k(1) w,
          of "r OR push_bit (7 * k + 3) (ucast (v AND 0x7F))"] reads_trans [OF t(1)]
      unfolding t(3) acc varint_bytes_step [OF False] by fastforce
  qed
qed

lemma varint32_overlong:
  assumes "is_callback s = cb" "content s = replicate 37 0x80 @ varint_bytes (ucast (w :: u32)) @ rest"
  shows "\<exists>t. pb_decode_varint32 s = (True, push_bit 3 w, t) \<and>
    reads s (replicate 37 0x80 @ varint_bytes (ucast w)) t"
proof -
  have "content s = 0x80 # replicate 36 0x80 @ varint_bytes (ucast w) @ rest"
    using assms(2) by (simp add: numeral_eq_Suc)
  note start = varint32_from_loop [OF assms(1) this]
  have wraps: "0 + 7 * of_nat 37 = (3 :: u8)" by simp
  from varint32_zeros [OF assms, of 0 0, unfolded wraps] obtain t where
    t: "varint32_loop s 0 0 = varint32_loop t 0 3" "reads s (replicate 37 0x80) t"
      "content t = varint_bytes (ucast w) @ rest" by auto
  have "unat (ucast w :: u64) < 2 ^ (32 - 7 * 0)" using unat_u32_less [of w] by (simp add: unat_ucast_up)
  from varint32_from_bit_3 [OF reads_callback [OF t(2)] t(3) _ _ this, of 3 0] obtain bp b u where
    "varint32_loop t 0 3 = (True, push_bit 3 (ucast (ucast w :: u64)), bp, b, u)" "bp \<noteq> 35"
    "reads t (varint_bytes (ucast w)) u" by auto
  then show ?thesis
    using reads_trans [OF t(2)] unfolding start t(1) by (auto simp: ucast_64_32)
qed

end

end
