(* ===== verification/PbBuffer.thy ===== *)
theory PbBuffer
  imports PbVarintExact
begin

text \<open>
  nanopb over memory buffers: the buffer callbacks satisfy the stream interfaces, so every
  value written through a buffer stream is read back from the same memory, and writing never
  touches memory outside the buffer as long as the byte counter does not overflow.
\<close>

unbundle bit_operations_syntax

section \<open>The memory buffer is a lawful source\<close>

definition ib_peek :: "ibuf \<Rightarrow> nat \<Rightarrow> u8" where
  "ib_peek st i = ib_mem st (ib_src st + i)"

interpretation buf_source: pb_source buf_read ib_peek
  by unfold_locales (auto simp: buf_read_def Let_def ib_peek_def add.assoc cong: map_cong)

lemma istream_buffer_content:
  "buf_source.content (pb_istream_from_buffer mem base n) = map mem [base..<base + unat n]"
  by (rule nth_equalityI)
    (simp_all add: buf_source.content_def pb_istream_from_buffer_def ib_peek_def)

lemma istream_buffer_callback:
  "is_callback (pb_istream_from_buffer mem base n) = buf_read"
  by (simp add: pb_istream_from_buffer_def)

lemma ostream_buffer_opened:
  "buf_sink.opened base (pb_ostream_from_buffer mem base n)"
  by (simp add: buf_sink.opened_def pb_ostream_from_buffer_def ob_good_def)

lemma ostream_buffer_room:
  "buf_sink.room (pb_ostream_from_buffer mem base n) k \<longleftrightarrow> k \<le> unat n"
  by (simp add: buf_sink.room_def pb_ostream_from_buffer_def)

text \<open>What a fresh buffer stream was given is what an input stream over it delivers.\<close>

lemma buffer_written_content:
  assumes "buf_sink.emits base (pb_ostream_from_buffer mem base n) bs os"
  shows "buf_source.content
      (pb_istream_from_buffer (ob_mem (os_state os)) base (os_bytes_written os)) = bs"
proof -
  from assms have o: "base \<le> ob_dest (os_state os)" "ob_out base (os_state os) = bs"
    "unat (os_bytes_written os) = length bs"
    by (auto simp: buf_sink.emits_def buf_sink.opened_def ob_good_def ob_out_def
        pb_ostream_from_buffer_def)
  then have "base + unat (os_bytes_written os) = ob_dest (os_state os)"
    by (auto simp: ob_out_def)
  then show ?thesis using o(2) by (simp add: istream_buffer_content ob_out_def)
qed

lemma reads_all:
  "buf_source.reads s bs s' \<Longrightarrow> buf_source.content s = bs \<Longrightarrow> is_bytes_left s' = 0"
  by (auto simp: buf_source.reads_def buf_source.content_def unat_eq_zero)

text \<open>
  The shape of every round trip below: an encoder that emits \<open>bs\<close> into a fresh buffer, and a
  decoder that, given a stream with content \<open>bs\<close>, returns \<open>v\<close> and reads all of it.
\<close>

lemma buffer_roundtrip:
  assumes enc: "\<exists>os. enc = (True, os) \<and> buf_sink.emits buf (pb_ostream_from_buffer mem buf n) bs os"
    and dec: "\<And>s. is_callback s = buf_read \<Longrightarrow> buf_source.content s = bs @ [] \<Longrightarrow>
      \<exists>s'. dec s = (True, v, s') \<and> buf_source.reads s bs s'"
  shows "\<exists>os is. enc = (True, os) \<and>
      dec (pb_istream_from_buffer (ob_mem (os_state os)) buf (os_bytes_written os)) = (True, v, is) \<and>
      is_bytes_left is = 0"
proof -
  from enc obtain os where os: "enc = (True, os)"
    "buf_sink.emits buf (pb_ostream_from_buffer mem buf n) bs os" by blast
  note c = buffer_written_content [OF os(2)]
  then have "buf_source.content
      (pb_istream_from_buffer (ob_mem (os_state os)) buf (os_bytes_written os)) = bs @ []" by simp
  from dec [OF istream_buffer_callback this] os(1) reads_all [OF _ c] show ?thesis by blast
qed

section \<open>Round trips\<close>

text \<open>C7. A varint written to a buffer with room for it is read back from that memory by
\<open>pb_decode_varint\<close>, for every 64-bit value, and the read consumes exactly the bytes written.\<close>

theorem varint_buffer_roundtrip:
  assumes "length (varint_bytes v) \<le> unat bufsize"
  shows "\<exists>os is. pb_encode_varint (pb_ostream_from_buffer mem buf bufsize) v = (True, os) \<and>
      pb_decode_varint
        (pb_istream_from_buffer (ob_mem (os_state os)) buf (os_bytes_written os)) = (True, v, is) \<and>
      is_bytes_left is = 0"
  by (rule buffer_roundtrip [OF buf_sink.varint_emits [OF ostream_buffer_opened]
        buf_source.varint_reads]) (use assms in \<open>simp_all add: ostream_buffer_room\<close>)

theorem varint_buffer_roundtrip_witness:
  "\<exists>os is. pb_encode_varint (pb_ostream_from_buffer (\<lambda>_. 0) 100 10) 300 = (True, os) \<and>
      pb_decode_varint
        (pb_istream_from_buffer (ob_mem (os_state os)) 100 (os_bytes_written os)) = (True, 300, is) \<and>
      is_bytes_left is = 0"
  by (rule varint_buffer_roundtrip) (use varint_bytes_length_bounds [of 300] in simp)

text \<open>The zigzag encoding of a signed 64-bit value (the two's complement word \<open>v\<close>) written to
a buffer is read back by \<open>pb_decode_svarint\<close>, for negative and non-negative values alike.\<close>

lemma svarint_buffer_roundtrip:
  assumes "10 \<le> unat bufsize"
  shows "\<exists>os is. pb_encode_svarint (pb_ostream_from_buffer mem buf bufsize) v = (True, os) \<and>
      pb_decode_svarint
        (pb_istream_from_buffer (ob_mem (os_state os)) buf (os_bytes_written os)) = (True, v, is) \<and>
      is_bytes_left is = 0"
  unfolding pb_encode_svarint_def Let_def
  by (rule buffer_roundtrip [OF buf_sink.varint_emits [OF ostream_buffer_opened]
        buf_source.svarint_reads])
    (use assms varint_bytes_length_bounds in \<open>auto simp: ostream_buffer_room intro: le_trans\<close>)

text \<open>Fixed-width values written to a buffer with room for them are read back: a 32-bit value
by \<open>pb_decode_fixed32\<close> from four bytes and a 64-bit value by \<open>pb_decode_fixed64\<close> from eight.\<close>

lemma fixed_buffer_roundtrip:
  assumes "8 \<le> unat bufsize"
  shows "(\<exists>os is. pb_encode_fixed32 (pb_ostream_from_buffer mem buf bufsize) w = (True, os) \<and>
      pb_decode_fixed32
        (pb_istream_from_buffer (ob_mem (os_state os)) buf (os_bytes_written os)) = (True, w, is) \<and>
      is_bytes_left is = 0) \<and>
    (\<exists>os is. pb_encode_fixed64 (pb_ostream_from_buffer mem buf bufsize) v = (True, os) \<and>
      pb_decode_fixed64
        (pb_istream_from_buffer (ob_mem (os_state os)) buf (os_bytes_written os)) = (True, v, is) \<and>
      is_bytes_left is = 0)"
  unfolding pb_encode_fixed32_def pb_encode_fixed64_def
  by (intro conjI;
      rule buffer_roundtrip [OF buf_sink.write_emits [OF ostream_buffer_opened]])
    (use assms in \<open>auto simp: ostream_buffer_room
      intro: buf_source.fixed32_reads buf_source.fixed64_reads\<close>)

text \<open>A field tag survives the trip: for a field number below \<open>2 ^ 29\<close> other than 0 and any
three-bit wire type, \<open>pb_decode_tag\<close> gives back both, does not report the end of the stream and
consumes the whole tag. (Field number 0 with wire type 0 is the terminator.)\<close>

lemma tag_buffer_roundtrip:
  assumes "10 \<le> unat bufsize" "field_number < 2 ^ 29" "field_number \<noteq> 0" "wiretype < 8"
  shows "\<exists>os is. pb_encode_tag (pb_ostream_from_buffer mem buf bufsize) wiretype field_number =
        (True, os) \<and>
      pb_decode_tag
        (pb_istream_from_buffer (ob_mem (os_state os)) buf (os_bytes_written os)) =
          (True, wiretype, field_number, False, is) \<and>
      is_bytes_left is = 0"
proof -
  have enc: "\<exists>os. pb_encode_tag (pb_ostream_from_buffer mem buf bufsize) wiretype field_number =
      (True, os) \<and> buf_sink.emits buf (pb_ostream_from_buffer mem buf bufsize)
        (varint_bytes (push_bit 3 (ucast field_number) OR ucast wiretype)) os"
    unfolding pb_encode_tag_def Let_def
    by (rule buf_sink.varint_emits [OF ostream_buffer_opened])
      (use assms(1) varint_bytes_length_bounds in \<open>auto simp: ostream_buffer_room intro: le_trans\<close>)
  have dec: "\<exists>s'. (case pb_decode_tag s of (ok, wt, tag, eof, t) \<Rightarrow> (ok, (wt, tag, eof), t)) =
      (True, (wiretype, field_number, False), s') \<and>
      buf_source.reads s (varint_bytes (push_bit 3 (ucast field_number) OR ucast wiretype)) s'"
    if "is_callback s = buf_read" "buf_source.content s =
      varint_bytes (push_bit 3 (ucast field_number) OR ucast wiretype) @ []" for s
    using buf_source.tag_reads [OF that assms(2-4)] by auto
  show ?thesis
    using buffer_roundtrip [OF enc dec] by (fastforce split: prod.splits)
qed

text \<open>A length-delimited field written by \<open>pb_encode_string\<close> opens, through
\<open>pb_make_string_substream\<close>, as a substream whose bytes are exactly the string; closing it leaves
the parent stream at the end of the field.\<close>

lemma string_substream_roundtrip:
  assumes "length s + 10 \<le> unat bufsize" "length s < 2 ^ 32"
  shows "\<exists>os is sub sub' sub'' is'.
      pb_encode_string (pb_ostream_from_buffer mem buf bufsize) s (of_nat (length s)) = (True, os) \<and>
      pb_make_string_substream
        (pb_istream_from_buffer (ob_mem (os_state os)) buf (os_bytes_written os)) = (True, sub, is) \<and>
      pb_read sub True (of_nat (length s)) = (True, s, sub') \<and> is_bytes_left sub' = 0 \<and>
      pb_close_string_substream is sub' = (True, sub'', is') \<and> is_bytes_left is' = 0"
proof -
  let ?n = "of_nat (length s) :: u64" and ?m = "of_nat (length s) :: u32"
  have n: "unat ?n = length s" "unat ?m = length s" "ucast ?m = ?n"
    using assms(2) by (simp_all add: word_unat_eq_iff unat_ucast_up)
  from buf_sink.string_emits [OF ostream_buffer_opened, of mem buf bufsize ?n s] n(1)
    varint_bytes_length_bounds [of ?n] assms(1)
  obtain os where os: "pb_encode_string (pb_ostream_from_buffer mem buf bufsize) s ?n = (True, os)"
    "buf_sink.emits buf (pb_ostream_from_buffer mem buf bufsize) (varint_bytes ?n @ s) os"
    by (auto simp: ostream_buffer_room)
  let ?is = "pb_istream_from_buffer (ob_mem (os_state os)) buf (os_bytes_written os)"
  have c: "buf_source.content ?is = varint_bytes (ucast ?m) @ s @ []"
    using buffer_written_content [OF os(2)] n(3) by simp
  from buf_source.make_substream [OF istream_buffer_callback c n(2)] obtain sub t where
    t: "pb_make_string_substream ?is = (True, sub, t)" "is_callback sub = buf_read"
      "buf_source.content sub = s" "unat (is_bytes_left t) = 0" by auto
  from buf_source.read_exact [OF t(2), of s "[]" ?n True] t(3) n(1) obtain sub' where
    sub': "pb_read sub True ?n = (True, s, sub')" "buf_source.reads sub s sub'" by auto
  from buf_source.close_substream [OF buf_source.reads_callback [OF sub'(2)], of t]
  obtain sub'' u where "pb_close_string_substream t sub' = (True, sub'', u)"
    "is_bytes_left u = is_bytes_left t" by blast
  with os(1) t(1,4) sub'(1) reads_all [OF sub'(2) t(3)] show ?thesis
    by (auto simp: unat_eq_zero)
qed

lemma buffer_skip:
  assumes "\<exists>os. enc = (True, os) \<and> buf_sink.emits buf (pb_ostream_from_buffer mem buf n) bs os"
    and "\<And>s. is_callback s = buf_read \<Longrightarrow> buf_source.content s = bs \<Longrightarrow>
      \<exists>s'. pb_skip_field s wt = (True, s') \<and> buf_source.reads s bs s'"
  shows "\<exists>os is. enc = (True, os) \<and>
      pb_skip_field (pb_istream_from_buffer (ob_mem (os_state os)) buf (os_bytes_written os)) wt =
        (True, is) \<and> is_bytes_left is = 0"
proof -
  from assms(1) obtain os where os: "enc = (True, os)"
    "buf_sink.emits buf (pb_ostream_from_buffer mem buf n) bs os" by blast
  note c = buffer_written_content [OF os(2)]
  from assms(2) [OF istream_buffer_callback c] os(1) reads_all [OF _ c] show ?thesis by blast
qed

text \<open>C8. Skipping an unknown field consumes exactly what the matching encoder wrote: a varint, a
fixed 64-bit value, a length-delimited string and a fixed 32-bit value, each under its wire type.\<close>

theorem skip_field_exact:
  assumes "length s + 10 \<le> unat bufsize" "length s < 2 ^ 32"
  shows "\<exists>o1 o2 o3 o4 i1 i2 i3 i4.
      pb_encode_varint (pb_ostream_from_buffer mem buf bufsize) v = (True, o1) \<and>
      pb_skip_field (pb_istream_from_buffer (ob_mem (os_state o1)) buf (os_bytes_written o1))
        PB_WT_VARINT = (True, i1) \<and> is_bytes_left i1 = 0 \<and>
      pb_encode_fixed64 (pb_ostream_from_buffer mem buf bufsize) v = (True, o2) \<and>
      pb_skip_field (pb_istream_from_buffer (ob_mem (os_state o2)) buf (os_bytes_written o2))
        PB_WT_64BIT = (True, i2) \<and> is_bytes_left i2 = 0 \<and>
      pb_encode_string (pb_ostream_from_buffer mem buf bufsize) s (of_nat (length s)) = (True, o3) \<and>
      pb_skip_field (pb_istream_from_buffer (ob_mem (os_state o3)) buf (os_bytes_written o3))
        PB_WT_STRING = (True, i3) \<and> is_bytes_left i3 = 0 \<and>
      pb_encode_fixed32 (pb_ostream_from_buffer mem buf bufsize) w = (True, o4) \<and>
      pb_skip_field (pb_istream_from_buffer (ob_mem (os_state o4)) buf (os_bytes_written o4))
        PB_WT_32BIT = (True, i4) \<and> is_bytes_left i4 = 0"
proof -
  let ?o = "pb_ostream_from_buffer mem buf bufsize" and ?n = "of_nat (length s) :: u32"
  have n: "unat (of_nat (length s) :: u64) = length s" "unat ?n = length s"
    "of_nat (length s) = (ucast ?n :: u64)"
    using assms(2) by (simp_all add: word_unat_eq_iff unat_ucast_up)
  have room: "buf_sink.room ?o (length (varint_bytes x))"
    "buf_sink.room ?o (length (varint_bytes x) + length s)" for x
    using assms(1) varint_bytes_length_bounds [of x] by (auto simp: ostream_buffer_room)
  note opened = ostream_buffer_opened [of buf mem bufsize]
  have "\<exists>os is. pb_encode_varint ?o v = (True, os) \<and>
      pb_skip_field (pb_istream_from_buffer (ob_mem (os_state os)) buf (os_bytes_written os))
        PB_WT_VARINT = (True, is) \<and> is_bytes_left is = 0"
    by (rule buffer_skip [OF buf_sink.varint_emits [OF opened room(1)]])
      (simp add: buf_source.skip_field_reads(1) [where rest = "[]"])
  moreover have "\<exists>os is. pb_encode_fixed64 ?o v = (True, os) \<and>
      pb_skip_field (pb_istream_from_buffer (ob_mem (os_state os)) buf (os_bytes_written os))
        PB_WT_64BIT = (True, is) \<and> is_bytes_left is = 0"
    unfolding pb_encode_fixed64_def
    by (rule buffer_skip [OF buf_sink.write_emits [OF opened]])
      (use assms(1) in \<open>simp_all add: ostream_buffer_room
        buf_source.skip_field_reads(2) [where rest = "[]"]\<close>)
  moreover have "\<exists>os is. pb_encode_string ?o s (of_nat (length s)) = (True, os) \<and>
      pb_skip_field (pb_istream_from_buffer (ob_mem (os_state os)) buf (os_bytes_written os))
        PB_WT_STRING = (True, is) \<and> is_bytes_left is = 0"
    by (rule buffer_skip [OF buf_sink.string_emits [OF opened room(2) n(1)]])
      (simp add: n(3) buf_source.skip_field_reads(3) [where rest = "[]", OF _ _ n(2)])
  moreover have "\<exists>os is. pb_encode_fixed32 ?o w = (True, os) \<and>
      pb_skip_field (pb_istream_from_buffer (ob_mem (os_state os)) buf (os_bytes_written os))
        PB_WT_32BIT = (True, is) \<and> is_bytes_left is = 0"
    unfolding pb_encode_fixed32_def
    by (rule buffer_skip [OF buf_sink.write_emits [OF opened]])
      (use assms(1) in \<open>simp_all add: ostream_buffer_room
        buf_source.skip_field_reads(4) [where rest = "[]"]\<close>)
  ultimately show ?thesis by blast
qed

theorem skip_field_exact_witness:
  "\<exists>o1 o2 o3 o4 i1 i2 i3 i4.
      pb_encode_varint (pb_ostream_from_buffer (\<lambda>_. 0) 0 12) 300 = (True, o1) \<and>
      pb_skip_field (pb_istream_from_buffer (ob_mem (os_state o1)) 0 (os_bytes_written o1))
        PB_WT_VARINT = (True, i1) \<and> is_bytes_left i1 = 0 \<and>
      pb_encode_fixed64 (pb_ostream_from_buffer (\<lambda>_. 0) 0 12) 300 = (True, o2) \<and>
      pb_skip_field (pb_istream_from_buffer (ob_mem (os_state o2)) 0 (os_bytes_written o2))
        PB_WT_64BIT = (True, i2) \<and> is_bytes_left i2 = 0 \<and>
      pb_encode_string (pb_ostream_from_buffer (\<lambda>_. 0) 0 12) [104, 105]
        (of_nat (length [104, 105 :: u8])) = (True, o3) \<and>
      pb_skip_field (pb_istream_from_buffer (ob_mem (os_state o3)) 0 (os_bytes_written o3))
        PB_WT_STRING = (True, i3) \<and> is_bytes_left i3 = 0 \<and>
      pb_encode_fixed32 (pb_ostream_from_buffer (\<lambda>_. 0) 0 12) 7 = (True, o4) \<and>
      pb_skip_field (pb_istream_from_buffer (ob_mem (os_state o4)) 0 (os_bytes_written o4))
        PB_WT_32BIT = (True, i4) \<and> is_bytes_left i4 = 0"
  by (rule skip_field_exact) simp_all

section \<open>The bytes of a varint\<close>

text \<open>The wire format: base 128, least significant group first, the top bit set on all but the
last byte.\<close>

fun base128 :: "nat \<Rightarrow> nat list" where
  "base128 n = (if n < 128 then [n] else (128 + n mod 128) # base128 (n div 128))"

declare base128.simps [simp del]

lemma base128_varint_bytes: "map unat (varint_bytes v) = base128 (unat v)"
proof (induction "unat v" arbitrary: v rule: less_induct)
  case less
  show ?case
  proof (cases "v \<le> 0x7F")
    case True
    then have "unat v < 128" by (simp add: word_le_nat_alt)
    then show ?thesis
      by (simp add: varint_bytes_small [OF True] base128.simps [of "unat v"]
          unsigned_ucast_eq take_bit_nat_eq_self)
  next
    case False
    then have big: "\<not> unat v < 128" by (simp add: word_le_nat_alt)
    then have "unat (drop_bit 7 v) < unat v" by (simp add: unat_drop_bit)
    from less [OF this] show ?thesis
      using False big
      by (simp add: varint_bytes_step unat_low7_byte base128.simps [of "unat v"] unat_drop_bit)
  qed
qed

lemma map_unat_eq: "map unat xs = map unat ys \<longleftrightarrow> xs = (ys :: u8 list)"
  by (rule inj_map_eq_map) (simp add: inj_def word_unat_eq_iff)

lemma bytes_of_base128: "map unat bs = base128 (unat v) \<Longrightarrow> bs = varint_bytes v"
  by (simp add: map_unat_eq flip: base128_varint_bytes)

text \<open>C9. The bytes \<open>pb_encode_varint\<close> hands to \<open>pb_write\<close> are the base-128 wire format of the
value, for every 64-bit value; there are at least one and at most ten of them, so the local
\<open>buffer[10]\<close> is never overrun.\<close>

theorem varint_encodes_base128:
  "\<exists>bs. pb_encode_varint s v = pb_write s bs (of_nat (length bs)) \<and>
     map unat bs = base128 (unat v) \<and> 1 \<le> length bs \<and> length bs \<le> 10"
  using base128_varint_bytes [of v] pb_encode_varint_write varint_bytes_length_bounds [of v]
  by (metis Suc_leI One_nat_def)

section \<open>Memory safety of the output buffer\<close>

definition obuf_inv :: "nat \<Rightarrow> nat \<Rightarrow> obuf pb_ostream \<Rightarrow> bool" where
  "obuf_inv base cap s \<longleftrightarrow> os_callback s = Some buf_write \<and> unat (os_max_size s) = cap \<and>
     unat (os_bytes_written s) \<le> cap \<and>
     ob_dest (os_state s) = base + unat (os_bytes_written s)"

lemma obuf_inv_initial: "obuf_inv base (unat n) (pb_ostream_from_buffer mem base n)"
  by (simp add: obuf_inv_def pb_ostream_from_buffer_def)

text \<open>C10. Writing to a buffer stream whose counter does not overflow succeeds exactly when the
bytes fit, keeps the relation between the write pointer, the counter and the limit, and changes no
memory outside the buffer, nor anything at all when it fails.\<close>

theorem buffer_write_confined:
  assumes "obuf_inv base cap s" "unat (os_bytes_written s) + unat count < 2 ^ 64"
  shows "case pb_write s bs count of (ok, s') \<Rightarrow>
      obuf_inv base cap s' \<and> (ok \<longleftrightarrow> unat (os_bytes_written s) + unat count \<le> cap) \<and>
      (\<forall>a. a < base \<or> base + cap \<le> a \<longrightarrow> ob_mem (os_state s') a = ob_mem (os_state s) a) \<and>
      (\<not> ok \<longrightarrow> os_state s' = os_state s)"
proof -
  have sum: "unat (os_bytes_written s + count) = unat (os_bytes_written s) + unat count"
    using assms(2) by (intro unat_add_no_overflow) simp
  show ?thesis
  proof (cases "unat (os_bytes_written s) + unat count \<le> cap")
    case True
    then show ?thesis using assms(1) sum
      by (auto simp: pb_write_def obuf_inv_def buf_write_def Let_def word_less_nat_alt copy_bytes_nth)
  next
    case False
    then show ?thesis using assms(1) sum
      by (auto simp: pb_write_def obuf_inv_def os_return_error_def word_less_nat_alt)
  qed
qed

theorem buffer_write_confined_witness:
  "case pb_write (pb_ostream_from_buffer (\<lambda>_. 0) 16 2) [1, 2, 3] 3 of (ok, s') \<Rightarrow>
      obuf_inv 16 2 s' \<and> (ok \<longleftrightarrow> unat (0 :: u64) + unat (3 :: u64) \<le> 2) \<and>
      (\<forall>a. a < 16 \<or> 16 + 2 \<le> a \<longrightarrow> ob_mem (os_state s') a = 0)"
  using buffer_write_confined [of 16 2 "pb_ostream_from_buffer (\<lambda>_. 0) 16 2" 3 "[1, 2, 3]"]
    obuf_inv_initial [of 16 2 "\<lambda>_. 0"]
  by (auto simp: pb_ostream_from_buffer_def split: prod.splits)

text \<open>C11. The check in \<open>pb_write\<close> compares the sum \<open>bytes_written + count\<close> after it has wrapped: on
a buffer stream whose counter would pass \<open>2 ^ 64\<close> the write is accepted although it cannot fit, and
the write pointer leaves the buffer.\<close>

theorem write_counter_wraps:
  assumes "obuf_inv base cap s" "2 ^ 64 \<le> unat (os_bytes_written s) + unat count"
    "unat (os_bytes_written s) + unat count \<le> 2 ^ 64 + cap"
  shows "\<exists>s'. pb_write s bs count = (True, s') \<and> base + cap < ob_dest (os_state s')"
proof -
  have "unat (os_bytes_written s + count) = unat (os_bytes_written s) + unat count - 2 ^ 64"
    using assms(2) unat_u64_less [of "os_bytes_written s"] unat_u64_less [of count]
    by (simp add: unat_word_ariths mod_if)
  with assms(1,3) have "\<not> os_bytes_written s + count > os_max_size s"
    by (simp add: word_less_nat_alt obuf_inv_def)
  moreover have "cap < 2 ^ 64"
    using assms(1) unat_u64_less [of "os_max_size s"] by (simp add: obuf_inv_def)
  ultimately show ?thesis
    using assms(1,2) by (simp add: pb_write_def obuf_inv_def buf_write_def Let_def)
qed

theorem write_counter_wraps_witness:
  "\<exists>s'. pb_write ((pb_ostream_from_buffer (\<lambda>_. 0) 0 8)
       \<lparr>os_bytes_written := 4, os_state := \<lparr>ob_mem = \<lambda>_. 0, ob_dest = 4\<rparr>\<rparr>) [] (- 2) = (True, s') \<and>
     0 + 8 < ob_dest (os_state s')"
  by (rule write_counter_wraps) (simp_all add: obuf_inv_def pb_ostream_from_buffer_def)

section \<open>Decoding any bytes as a varint\<close>

text \<open>C12. On every buffer \<open>pb_decode_varint\<close> succeeds exactly when one of the first ten bytes ends
the varint; it consumes the bytes up to that one and returns the value of their seven-bit groups
modulo \<open>2 ^ 64\<close> (the bits of a tenth byte above bit 63 are lost). On the encoding of a 64-bit value
\<open>pb_decode_varint32\<close> succeeds exactly when the value fits 32 bits or bits 31 and 63 are set and each of the
four groups from bit 35 on is all zeros or all ones, and then returns the low half; so bits 32 to 34
are not checked and mixtures of zero and one groups pass as sign extensions. Thirty-seven bytes
\<open>0x80\<close> in front of the encoding of any 32-bit value are accepted too, because the eight-bit \<open>bitpos\<close>
wraps to 3: the result is the value shifted left by three bits.\<close>

theorem varint_decoding_exact:
  assumes "map mem [base..<base + unat n] = bs"
  shows "(if continued bs < 10 \<and> continued bs < length bs
      then \<exists>s. pb_decode_varint (pb_istream_from_buffer mem base n) =
          (True, of_nat (groups (take (Suc (continued bs)) bs)), s) \<and>
        unat (is_bytes_left s) = length bs - Suc (continued bs)
      else \<not> fst (pb_decode_varint (pb_istream_from_buffer mem base n))) \<and>
    (map unat bs = base128 (unat (v :: u64)) \<longrightarrow>
      (if unat v < 2 ^ 32 \<or> 2 ^ 63 \<le> unat v \<and> bit v 31 \<and>
          (\<forall>j < 4. unat v div 2 ^ (35 + 7 * j) mod 128 \<in> {0, 127})
       then \<exists>s. pb_decode_varint32 (pb_istream_from_buffer mem base n) = (True, ucast v, s) \<and>
         is_bytes_left s = 0
       else \<not> fst (pb_decode_varint32 (pb_istream_from_buffer mem base n)))) \<and>
    (map unat bs = replicate 37 128 @ base128 (unat (w :: u32)) \<longrightarrow>
      (\<exists>s. pb_decode_varint32 (pb_istream_from_buffer mem base n) = (True, push_bit 3 w, s) \<and>
         is_bytes_left s = 0))" (is "?A \<and> (?B \<longrightarrow> ?B') \<and> (?C \<longrightarrow> ?C')")
proof (intro conjI impI)
  let ?s = "pb_istream_from_buffer mem base n"
  note cb = istream_buffer_callback [of mem base n]
  have c: "buf_source.content ?s = bs" by (simp add: istream_buffer_content assms)
  have left: "unat (is_bytes_left t) = length bs - length cs" if "buf_source.reads ?s cs t" for cs t
    using that buf_source.length_content [of t] unfolding buf_source.reads_def c by simp
  show ?A
    using buf_source.varint_exact [OF cb] left unfolding c by (fastforce split: if_splits)
  show ?B' if ?B
  proof -
    from bytes_of_base128 [OF that] c have "buf_source.content ?s = varint_bytes v @ []" by simp
    from buf_source.varint32_exact [OF cb this] bytes_of_base128 [OF that] left show ?thesis
      by (fastforce simp: unat_eq_zero split: if_splits)
  qed
  show ?C' if ?C
  proof -
    have "map unat bs = map unat (replicate 37 0x80 @ varint_bytes (ucast w))"
      unfolding that map_append base128_varint_bytes by (simp add: unat_ucast_up)
    then have bs: "bs = replicate 37 0x80 @ varint_bytes (ucast w)"
      by (simp only: map_unat_eq)
    then have "buf_source.content ?s = replicate 37 0x80 @ varint_bytes (ucast w) @ []"
      using c by simp
    from buf_source.varint32_overlong [OF cb this] left [of bs] show ?thesis
      by (auto simp: bs unat_eq_zero)
  qed
qed

theorem varint_decoding_exact_witness:
  "(\<exists>s. pb_decode_varint (pb_istream_from_buffer (\<lambda>i. if i < 9 then 0x80 else 0x7E) 0 12) = (True, 0, s) \<and>
     unat (is_bytes_left s) = 2) \<and>
   (\<exists>s. pb_decode_varint32 (pb_istream_from_buffer (\<lambda>i.
        [0x80, 0x80, 0x80, 0x80, 0x88, 0x80, 0x80, 0x80, 0x80, 0x01] ! i) 0 10) = (True, 2 ^ 31, s) \<and>
     is_bytes_left s = 0) \<and>
   \<not> fst (pb_decode_varint32 (pb_istream_from_buffer (\<lambda>i. [0x80, 0x80, 0x80, 0x80, 0x10] ! i) 0 5)) \<and>
   (\<exists>s. pb_decode_varint32 (pb_istream_from_buffer (\<lambda>i. if i < 37 then 0x80 else 0x01) 0 38) =
     (True, 8, s) \<and> is_bytes_left s = 0)"
proof (intro conjI)
  let ?b = "[0x80, 0x80, 0x80, 0x80, 0x80, 0x80, 0x80, 0x80, 0x80, 0x7E, 0x7E, 0x7E] :: u8 list"
  have a: "map (\<lambda>i. if i < 9 then 0x80 else 0x7E) [0..<0 + unat (12 :: u64)] = ?b"
    by (simp add: upt_rec)
  have c: "continued ?b = 9" "of_nat (groups (take (Suc 9) ?b)) = (0 :: u64)" "length ?b = 12"
    by (simp_all add: take_Suc_Cons)
  show "\<exists>s. pb_decode_varint (pb_istream_from_buffer (\<lambda>i. if i < 9 then 0x80 else 0x7E) 0 12) = (True, 0, s) \<and>
     unat (is_bytes_left s) = 2"
    using varint_decoding_exact [OF a, THEN conjunct1] unfolding c by simp
next
  let ?b = "[0x80, 0x80, 0x80, 0x80, 0x88, 0x80, 0x80, 0x80, 0x80, 0x01] :: u8 list"
  have a: "map ((!) ?b) [0..<0 + unat (10 :: u64)] = ?b" by (simp add: upt_rec)
  moreover have "map unat ?b = base128 (unat (0x8000000080000000 :: u64))" by (simp add: base128.simps)
  moreover have "j < 4 \<longleftrightarrow> j = 0 \<or> j = 1 \<or> j = 2 \<or> j = 3" for j :: nat by auto
  then have "\<forall>j < 4. unat (0x8000000080000000 :: u64) div 2 ^ (35 + 7 * j) mod 128 \<in> {0, 127}"
    by auto
  moreover have "bit (0x8000000080000000 :: u64) 31" "2 ^ 63 \<le> unat (0x8000000080000000 :: u64)"
    "ucast (0x8000000080000000 :: u64) = (2 ^ 31 :: u32)"
    by simp_all
  ultimately show "\<exists>s. pb_decode_varint32 (pb_istream_from_buffer ((!) ?b) 0 10) = (True, 2 ^ 31, s) \<and>
     is_bytes_left s = 0"
    using varint_decoding_exact [OF a, where v = "0x8000000080000000", THEN conjunct2, THEN conjunct1] by metis
next
  let ?b = "[0x80, 0x80, 0x80, 0x80, 0x10] :: u8 list"
  have a: "map ((!) ?b) [0..<0 + unat (5 :: u64)] = ?b" by (simp add: upt_rec)
  moreover have "map unat ?b = base128 (unat (0x100000000 :: u64))" by (simp add: base128.simps)
  moreover have "\<not> unat (0x100000000 :: u64) < 2 ^ 32" "\<not> 2 ^ 63 \<le> unat (0x100000000 :: u64)"
    by simp_all
  ultimately show "\<not> fst (pb_decode_varint32 (pb_istream_from_buffer ((!) ?b) 0 5))"
    using varint_decoding_exact [OF a, where v = "0x100000000", THEN conjunct2, THEN conjunct1] by metis
next
  let ?b = "replicate 37 0x80 @ [0x01] :: u8 list"
  have a: "map (\<lambda>i. if i < 37 then 0x80 else 0x01) [0..<0 + unat (38 :: u64)] = ?b"
    by (rule nth_equalityI) (auto simp: nth_append less_Suc_eq)
  moreover have "map unat ?b = replicate 37 128 @ base128 (unat (1 :: u32))"
    by (simp add: base128.simps)
  ultimately show "\<exists>s. pb_decode_varint32 (pb_istream_from_buffer (\<lambda>i. if i < 37 then 0x80 else 0x01) 0 38) =
     (True, 8, s) \<and> is_bytes_left s = 0"
    using varint_decoding_exact [OF a, where w = 1, THEN conjunct2, THEN conjunct2] by simp
qed

end
