(* ===== verification/PbEncode.thy ===== *)
theory PbEncode
  imports PbField
begin

text \<open>
  nanopb, whole messages out: the descriptor-driven part of \<open>nanopb/pb_encode.c\<close>. The structs are read
  from a memory that does not change. What is not under \<open>src/\<close> or not C code with a body is a field of
  \<open>enc_env\<close>: the descriptor arrays and the user's callbacks, by address. A result \<open>None\<close> stands for
  a call that does not return within the fuel or that has no defined behaviour, such as the call of
  the missing encoder of an extension; the fuel bounds the nesting of messages and the length of
  the list of extensions. That a pointer points to an object is not tracked.
\<close>

unbundle bit_operations_syntax

record 's enc_env =
  ee_descs :: "nat \<Rightarrow> pb_field list"
  ee_mem :: mem
  ee_callback :: "nat \<Rightarrow> 's pb_ostream \<Rightarrow> pb_field \<Rightarrow> nat \<Rightarrow> bool \<times> 's pb_ostream"
  ee_extension :: "nat \<Rightarrow> 's pb_ostream \<Rightarrow> nat \<Rightarrow> bool \<times> 's pb_ostream"

type_synonym 's enc_result = "(bool \<times> 's pb_ostream) option"
type_synonym 's msg_encoder = "'s pb_ostream \<Rightarrow> pb_field list \<Rightarrow> nat \<Rightarrow> 's enc_result"

section \<open>Field encoders\<close>

text \<open>The value of \<open>pb_enc_varint\<close> and \<open>pb_enc_svarint\<close>, sign-extended, and that of \<open>pb_enc_uvarint\<close>.\<close>

definition load_signed :: "mem \<Rightarrow> nat \<Rightarrow> u32 \<Rightarrow> u64 option" where
  "load_signed m src sz =
     (if sz = 1 then Some (scast (m src))
      else if sz = 2 then Some (scast (load16 m src))
      else if sz = 4 then Some (scast (load32 m src))
      else if sz = 8 then Some (load64 m src)
      else None)"

definition load_unsigned :: "mem \<Rightarrow> nat \<Rightarrow> u32 \<Rightarrow> u64 option" where
  "load_unsigned m src sz =
     (if sz = 1 then Some (ucast (m src))
      else if sz = 2 then Some (ucast (load16 m src))
      else if sz = 4 then Some (ucast (load32 m src))
      else if sz = 8 then Some (load64 m src)
      else None)"

definition pb_enc_varint :: "mem \<Rightarrow> 's pb_ostream \<Rightarrow> pb_field \<Rightarrow> nat \<Rightarrow> bool \<times> 's pb_ostream" where
  "pb_enc_varint m s field src =
     (case load_signed m src (pf_data_size field) of
        None \<Rightarrow> os_return_error ''invalid data_size'' s
      | Some v \<Rightarrow> pb_encode_varint s v)"

definition pb_enc_uvarint :: "mem \<Rightarrow> 's pb_ostream \<Rightarrow> pb_field \<Rightarrow> nat \<Rightarrow> bool \<times> 's pb_ostream" where
  "pb_enc_uvarint m s field src =
     (case load_unsigned m src (pf_data_size field) of
        None \<Rightarrow> os_return_error ''invalid data_size'' s
      | Some v \<Rightarrow> pb_encode_varint s v)"

definition pb_enc_svarint :: "mem \<Rightarrow> 's pb_ostream \<Rightarrow> pb_field \<Rightarrow> nat \<Rightarrow> bool \<times> 's pb_ostream" where
  "pb_enc_svarint m s field src =
     (case load_signed m src (pf_data_size field) of
        None \<Rightarrow> os_return_error ''invalid data_size'' s
      | Some v \<Rightarrow> pb_encode_svarint s v)"

definition pb_enc_fixed32 :: "mem \<Rightarrow> 's pb_ostream \<Rightarrow> pb_field \<Rightarrow> nat \<Rightarrow> bool \<times> 's pb_ostream" where
  "pb_enc_fixed32 m s field src = pb_encode_fixed32 s (load32 m src)"

definition pb_enc_fixed64 :: "mem \<Rightarrow> 's pb_ostream \<Rightarrow> pb_field \<Rightarrow> nat \<Rightarrow> bool \<times> 's pb_ostream" where
  "pb_enc_fixed64 m s field src = pb_encode_fixed64 s (load64 m src)"

text \<open>A \<open>pb_bytes_array_t\<close> has its size in four bytes, then the bytes.\<close>

definition pb_bytes_array_allocsize :: "u32 \<Rightarrow> u64" where
  "pb_bytes_array_allocsize n = ucast n + 4"

definition pb_enc_bytes :: "mem \<Rightarrow> 's pb_ostream \<Rightarrow> pb_field \<Rightarrow> nat \<Rightarrow> bool \<times> 's pb_ostream" where
  "pb_enc_bytes m s field src =
     (if src = 0 then pb_encode_string s [] 0
      else if atype field = PB_ATYPE_STATIC \<and>
          pb_bytes_array_allocsize (load32 m src) > ucast (pf_data_size field)
        then os_return_error ''bytes size exceeded'' s
      else pb_encode_string s (load_bytes m (src + 4) (unat (load32 m src))) (ucast (load32 m src)))"

text \<open>The loop over the characters of a string, at most \<open>max_size\<close> of them.\<close>

function string_length :: "mem \<Rightarrow> nat \<Rightarrow> u64 \<Rightarrow> u64 \<Rightarrow> u64" where
  "string_length m p sz max_size =
     (if sz < max_size \<and> m p \<noteq> 0 then string_length m (p + 1) (sz + 1) max_size else sz)"
  by pat_completeness auto
termination
proof (relation "measure (\<lambda>(m, p, sz, max_size). unat max_size - unat sz)")
  fix m :: mem and p and sz max_size :: u64
  assume "sz < max_size \<and> m p \<noteq> 0"
  then have lt: "unat sz < unat max_size" by (simp add: word_less_nat_alt)
  then have "unat (sz + 1) = unat sz + unat (1 :: u64)"
    using unat_u64_less [of max_size] by (intro unat_add_no_overflow) simp
  with lt show "((m, p + 1, sz + 1, max_size), (m, p, sz, max_size))
      \<in> measure (\<lambda>(m, p, sz, max_size). unat max_size - unat sz)"
    by simp
qed simp

declare string_length.simps [simp del]

definition pb_enc_string :: "mem \<Rightarrow> 's pb_ostream \<Rightarrow> pb_field \<Rightarrow> nat \<Rightarrow> bool \<times> 's pb_ostream" where
  "pb_enc_string m s field src =
     (let max_size = (if atype field = PB_ATYPE_POINTER then - 1 else ucast (pf_data_size field));
          sz = (if src = 0 then 0 else string_length m src 0 max_size)
      in pb_encode_string s (load_bytes m src (unat sz)) sz)"

definition pb_enc_fixed_length_bytes ::
    "mem \<Rightarrow> 's pb_ostream \<Rightarrow> pb_field \<Rightarrow> nat \<Rightarrow> bool \<times> 's pb_ostream" where
  "pb_enc_fixed_length_bytes m s field src =
     pb_encode_string s (load_bytes m src (unat (pf_data_size field))) (ucast (pf_data_size field))"

text \<open>
  \<open>pb_encode_submessage\<close>, over the encoder of a message: a first pass that only counts, then the
  length, then a pass on a substream that may take no more than that length.
\<close>

definition pb_encode_submessage :: "'s msg_encoder \<Rightarrow> 's msg_encoder" where
  "pb_encode_submessage enc s fs src =
     (case enc (pb_ostream_sizing (os_state s)) fs src of
        None \<Rightarrow> None
      | Some (ok, substream) \<Rightarrow>
          if \<not> ok then Some (False, s\<lparr>os_errmsg := os_errmsg substream\<rparr>)
          else
            let sz = os_bytes_written substream in
            (case pb_encode_varint s sz of (ok, s) \<Rightarrow>
              if \<not> ok then Some (False, s)
              else if os_callback s = None then Some (pb_write s [] sz)
              else if os_bytes_written s + sz > os_max_size s
                then Some (os_return_error ''stream full'' s)
              else
                (case enc \<lparr>os_callback = os_callback s, os_state = os_state s, os_max_size = sz,
                           os_bytes_written = 0, os_errmsg = None\<rparr> fs src of
                   None \<Rightarrow> None
                 | Some (status, substream) \<Rightarrow>
                     let s = s\<lparr>os_state := os_state substream,
                               os_bytes_written := os_bytes_written s + os_bytes_written substream,
                               os_errmsg := os_errmsg substream\<rparr> in
                     if os_bytes_written substream \<noteq> sz
                     then Some (os_return_error ''submsg size changed'' s)
                     else Some (status, s))))"

definition pb_enc_submessage ::
    "'s enc_env \<Rightarrow> 's msg_encoder \<Rightarrow> 's pb_ostream \<Rightarrow> pb_field \<Rightarrow> nat \<Rightarrow> 's enc_result" where
  "pb_enc_submessage E enc s field src =
     (if pf_ptr field = 0 then Some (os_return_error ''invalid field descriptor'' s)
      else pb_encode_submessage enc s (ee_descs E (pf_ptr field)) src)"

text \<open>The table of encoders. There is none for extensions, nor beyond the end of the table.\<close>

definition PB_ENCODERS ::
    "'s enc_env \<Rightarrow> 's msg_encoder \<Rightarrow> u8 \<Rightarrow> 's pb_ostream \<Rightarrow> pb_field \<Rightarrow> nat \<Rightarrow> 's enc_result" where
  "PB_ENCODERS E enc lt s field src =
     (if lt = PB_LTYPE_VARINT then Some (pb_enc_varint (ee_mem E) s field src)
      else if lt = PB_LTYPE_UVARINT then Some (pb_enc_uvarint (ee_mem E) s field src)
      else if lt = PB_LTYPE_SVARINT then Some (pb_enc_svarint (ee_mem E) s field src)
      else if lt = PB_LTYPE_FIXED32 then Some (pb_enc_fixed32 (ee_mem E) s field src)
      else if lt = PB_LTYPE_FIXED64 then Some (pb_enc_fixed64 (ee_mem E) s field src)
      else if lt = PB_LTYPE_BYTES then Some (pb_enc_bytes (ee_mem E) s field src)
      else if lt = PB_LTYPE_STRING then Some (pb_enc_string (ee_mem E) s field src)
      else if lt = PB_LTYPE_SUBMESSAGE then pb_enc_submessage E enc s field src
      else if lt = PB_LTYPE_FIXED_LENGTH_BYTES
        then Some (pb_enc_fixed_length_bytes (ee_mem E) s field src)
      else None)"

definition pb_encode_tag_for_field :: "'s pb_ostream \<Rightarrow> pb_field \<Rightarrow> bool \<times> 's pb_ostream" where
  "pb_encode_tag_for_field s field =
     (let lt = ltype field in
      if lt = PB_LTYPE_VARINT \<or> lt = PB_LTYPE_UVARINT \<or> lt = PB_LTYPE_SVARINT
        then pb_encode_tag s PB_WT_VARINT (pf_tag field)
      else if lt = PB_LTYPE_FIXED32 then pb_encode_tag s PB_WT_32BIT (pf_tag field)
      else if lt = PB_LTYPE_FIXED64 then pb_encode_tag s PB_WT_64BIT (pf_tag field)
      else if lt = PB_LTYPE_BYTES \<or> lt = PB_LTYPE_STRING \<or> lt = PB_LTYPE_SUBMESSAGE \<or>
          lt = PB_LTYPE_FIXED_LENGTH_BYTES
        then pb_encode_tag s PB_WT_STRING (pf_tag field)
      else os_return_error ''invalid field type'' s)"

section \<open>Arrays\<close>

text \<open>The loops that encode \<open>count\<close> items at \<open>p\<close>, \<open>p + data_size\<close>, and so on.\<close>

primrec packed_items ::
    "('s pb_ostream \<Rightarrow> pb_field \<Rightarrow> nat \<Rightarrow> 's enc_result) \<Rightarrow> pb_field \<Rightarrow> nat \<Rightarrow>
     's pb_ostream \<Rightarrow> nat \<Rightarrow> 's enc_result" where
  "packed_items func field 0 s p = Some (True, s)"
| "packed_items func field (Suc count) s p =
     (case func s field p of
        None \<Rightarrow> None
      | Some (ok, s) \<Rightarrow>
          if \<not> ok then Some (False, s)
          else packed_items func field count s (p + unat (pf_data_size field)))"

primrec tagged_items ::
    "mem \<Rightarrow> ('s pb_ostream \<Rightarrow> pb_field \<Rightarrow> nat \<Rightarrow> 's enc_result) \<Rightarrow> pb_field \<Rightarrow> nat \<Rightarrow>
     's pb_ostream \<Rightarrow> nat \<Rightarrow> 's enc_result" where
  "tagged_items m func field 0 s p = Some (True, s)"
| "tagged_items m func field (Suc count) s p =
     (case pb_encode_tag_for_field s field of (ok, s) \<Rightarrow>
        if \<not> ok then Some (False, s)
        else
          (case func s field
              (if atype field = PB_ATYPE_POINTER \<and>
                  (ltype field = PB_LTYPE_STRING \<or> ltype field = PB_LTYPE_BYTES)
               then load_ptr m p else p) of
             None \<Rightarrow> None
           | Some (ok, s) \<Rightarrow>
               if \<not> ok then Some (False, s)
               else tagged_items m func field count s (p + unat (pf_data_size field))))"

definition encode_array ::
    "mem \<Rightarrow> 's pb_ostream \<Rightarrow> pb_field \<Rightarrow> nat \<Rightarrow> u64 \<Rightarrow>
     ('s pb_ostream \<Rightarrow> pb_field \<Rightarrow> nat \<Rightarrow> 's enc_result) \<Rightarrow> 's enc_result" where
  "encode_array m s field pData count func =
     (if count = 0 then Some (True, s)
      else if atype field \<noteq> PB_ATYPE_POINTER \<and> count > ucast (pf_array_size field)
        then Some (os_return_error ''array max size exceeded'' s)
      else if ltype field \<le> PB_LTYPE_LAST_PACKABLE then
        (case pb_encode_tag s PB_WT_STRING (pf_tag field) of (ok, s) \<Rightarrow>
           if \<not> ok then Some (False, s)
           else
             (case (if ltype field = PB_LTYPE_FIXED32 then Some (True, 4 * count)
                    else if ltype field = PB_LTYPE_FIXED64 then Some (True, 8 * count)
                    else map_option (\<lambda>(ok, sizestream). (ok, os_bytes_written sizestream))
                      (packed_items func field (unat count) (pb_ostream_sizing (os_state s)) pData)) of
                None \<Rightarrow> None
              | Some (ok, sz) \<Rightarrow>
                  if \<not> ok then Some (False, s)
                  else
                    (case pb_encode_varint s sz of (ok, s) \<Rightarrow>
                       if \<not> ok then Some (False, s)
                       else if os_callback s = None then Some (pb_write s [] sz)
                       else packed_items func field (unat count) s pData)))
      else tagged_items m func field (unat count) s pData)"

section \<open>Fields\<close>

text \<open>
  \<open>pb_check_proto3_default_value\<close>; the loop over the fields of a submessage stops at the first one
  that is not zero.
\<close>

function check_default_loop ::
    "(pb_field \<Rightarrow> nat \<Rightarrow> bool option) \<Rightarrow> pb_field_iter \<Rightarrow> bool option" where
  "check_default_loop check iter =
     (case check (iter_field iter) (fi_data iter) of
        None \<Rightarrow> None
      | Some zero \<Rightarrow>
          if \<not> zero then Some False
          else
            (case pb_field_iter_next iter of (going, iter') \<Rightarrow>
               if going then check_default_loop check iter' else Some True))"
  by pat_completeness auto
termination
  by (relation "measure (\<lambda>(check, it). length (fi_start it) - fi_pos it)")
    (simp_all add: next_pos_less [OF sym])

declare check_default_loop.simps [simp del]

primrec pb_check_proto3_default_value ::
    "'s enc_env \<Rightarrow> nat \<Rightarrow> pb_field \<Rightarrow> nat \<Rightarrow> bool option" where
  "pb_check_proto3_default_value E 0 field pData = None"
| "pb_check_proto3_default_value E (Suc n) field pData =
     (let m = ee_mem E; pSize = size_addr pData field in
      if htype field = PB_HTYPE_REQUIRED then Some False
      else if htype field = PB_HTYPE_REPEATED then Some (load32 m pSize = 0)
      else if htype field = PB_HTYPE_ONEOF then Some (load32 m pSize = 0)
      else if htype field = PB_HTYPE_OPTIONAL \<and> pf_size_offset field \<noteq> 0 then Some (m pSize = 0)
      else if atype field = PB_ATYPE_STATIC \<and> ltype field = PB_LTYPE_BYTES
        then Some (load32 m pData = 0)
      else if atype field = PB_ATYPE_STATIC \<and> ltype field = PB_LTYPE_STRING
        then Some (m pData = 0)
      else if atype field = PB_ATYPE_STATIC \<and> ltype field = PB_LTYPE_FIXED_LENGTH_BYTES
        then Some (pf_data_size field = 0)
      else if atype field = PB_ATYPE_STATIC \<and> ltype field = PB_LTYPE_SUBMESSAGE then
        (case pb_field_iter_begin (ee_descs E (pf_ptr field)) pData of (nonempty, iter) \<Rightarrow>
           if nonempty then check_default_loop (pb_check_proto3_default_value E n) iter
           else Some True)
      else Some (list_all (\<lambda>b. b = 0) (load_bytes m pData (unat (pf_data_size field)))))"

text \<open>
  \<open>pSize\<close> is the address of the local \<open>implicit_has\<close> when the descriptor has no size offset; a
  oneof without one would read beyond that variable.
\<close>

definition encode_basic_field ::
    "'s enc_env \<Rightarrow> nat \<Rightarrow> 's msg_encoder \<Rightarrow> 's pb_ostream \<Rightarrow> pb_field \<Rightarrow> nat \<Rightarrow> 's enc_result" where
  "encode_basic_field E n enc s field pData0 =
     (let m = ee_mem E;
          func = PB_ENCODERS E enc (ltype field);
          pSize = size_addr pData0 field
      in case (if pf_size_offset field \<noteq> 0 then Some False
               else if htype field = PB_HTYPE_OPTIONAL
                 then map_option Not (pb_check_proto3_default_value E n field pData0)
               else Some True) of
           None \<Rightarrow> None
         | Some implicit_has0 \<Rightarrow>
             let pData = (if atype field = PB_ATYPE_POINTER then load_ptr m pData0 else pData0);
                 implicit_has = (if atype field = PB_ATYPE_POINTER then pData \<noteq> 0 else implicit_has0)
             in
             if htype field = PB_HTYPE_REQUIRED then
               if pData = 0 then Some (os_return_error ''missing required field'' s)
               else
                 (case pb_encode_tag_for_field s field of (ok, s) \<Rightarrow>
                    if \<not> ok then Some (False, s) else func s field pData)
             else if htype field = PB_HTYPE_OPTIONAL then
               if (if pf_size_offset field \<noteq> 0 then m pSize \<noteq> 0 else implicit_has) then
                 (case pb_encode_tag_for_field s field of (ok, s) \<Rightarrow>
                    if \<not> ok then Some (False, s) else func s field pData)
               else Some (True, s)
             else if htype field = PB_HTYPE_REPEATED then
               encode_array m s field pData
                 (ucast (if pf_size_offset field \<noteq> 0 then load32 m pSize else pf_array_size field)) func
             else if htype field = PB_HTYPE_ONEOF then
               if pf_size_offset field = 0 then None
               else if load32 m pSize = pf_tag field then
                 (case pb_encode_tag_for_field s field of (ok, s) \<Rightarrow>
                    if \<not> ok then Some (False, s) else func s field pData)
               else Some (True, s)
             else Some (os_return_error ''invalid field type'' s))"

text \<open>A \<open>pb_callback_t\<close>: the function pointer, then the argument, whose address is passed.\<close>

definition encode_callback_field ::
    "'s enc_env \<Rightarrow> 's pb_ostream \<Rightarrow> pb_field \<Rightarrow> nat \<Rightarrow> bool \<times> 's pb_ostream" where
  "encode_callback_field E s field pData =
     (let encode = load_ptr (ee_mem E) pData in
      if encode \<noteq> 0 then
        (case ee_callback E encode s field (pData + 8) of (ok, s) \<Rightarrow>
           if \<not> ok then os_return_error ''callback error'' s else (True, s))
      else (True, s))"

definition encode_field ::
    "'s enc_env \<Rightarrow> nat \<Rightarrow> 's msg_encoder \<Rightarrow> 's pb_ostream \<Rightarrow> pb_field \<Rightarrow> nat \<Rightarrow> 's enc_result" where
  "encode_field E n enc s field pData =
     (if atype field = PB_ATYPE_STATIC \<or> atype field = PB_ATYPE_POINTER
        then encode_basic_field E n enc s field pData
      else if atype field = PB_ATYPE_CALLBACK then Some (encode_callback_field E s field pData)
      else Some (os_return_error ''invalid field type'' s))"

text \<open>
  A \<open>pb_extension_t\<close> has its type at 0, \<open>dest\<close> at 8, \<open>next\<close> at 16 and \<open>found\<close> at 24; a
  \<open>pb_extension_type_t\<close> has \<open>decode\<close> at 0, \<open>encode\<close> at 8 and \<open>arg\<close> at 16.
\<close>

definition default_extension_encoder ::
    "'s enc_env \<Rightarrow> nat \<Rightarrow> 's msg_encoder \<Rightarrow> 's pb_ostream \<Rightarrow> nat \<Rightarrow> 's enc_result" where
  "default_extension_encoder E n enc s extension =
     (let m = ee_mem E;
          field = field_at (ee_descs E (load_ptr m (load_ptr m extension + 16))) 0
      in if atype field = PB_ATYPE_POINTER then encode_field E n enc s field (extension + 8)
         else encode_field E n enc s field (load_ptr m (extension + 8)))"

primrec extension_encode_loop ::
    "'s enc_env \<Rightarrow> nat \<Rightarrow> 's msg_encoder \<Rightarrow> nat \<Rightarrow> 's pb_ostream \<Rightarrow> nat \<Rightarrow> 's enc_result" where
  "extension_encode_loop E n enc 0 s extension = (if extension = 0 then Some (True, s) else None)"
| "extension_encode_loop E n enc (Suc k) s extension =
     (if extension = 0 then Some (True, s)
      else
        let m = ee_mem E; encode = load_ptr m (load_ptr m extension + 8) in
        (case (if encode \<noteq> 0 then Some (ee_extension E encode s extension)
               else default_extension_encoder E n enc s extension) of
           None \<Rightarrow> None
         | Some (status, s) \<Rightarrow>
             if \<not> status then Some (False, s)
             else extension_encode_loop E n enc k s (load_ptr m (extension + 16))))"

definition encode_extension_field ::
    "'s enc_env \<Rightarrow> nat \<Rightarrow> 's msg_encoder \<Rightarrow> 's pb_ostream \<Rightarrow> pb_field \<Rightarrow> nat \<Rightarrow> 's enc_result" where
  "encode_extension_field E n enc s field pData =
     extension_encode_loop E n enc n s (load_ptr (ee_mem E) pData)"

section \<open>Messages\<close>

function encode_fields_loop ::
    "'s enc_env \<Rightarrow> nat \<Rightarrow> 's msg_encoder \<Rightarrow> 's pb_ostream \<Rightarrow> pb_field_iter \<Rightarrow> 's enc_result" where
  "encode_fields_loop E n enc s iter =
     (case (if ltype (iter_field iter) = PB_LTYPE_EXTENSION
            then encode_extension_field E n enc s (iter_field iter) (fi_data iter)
            else encode_field E n enc s (iter_field iter) (fi_data iter)) of
        None \<Rightarrow> None
      | Some (ok, s) \<Rightarrow>
          if \<not> ok then Some (False, s)
          else
            (case pb_field_iter_next iter of (going, iter') \<Rightarrow>
               if going then encode_fields_loop E n enc s iter' else Some (True, s)))"
  by pat_completeness auto
termination
  by (relation "measure (\<lambda>(E, n, enc, s, it). length (fi_start it) - fi_pos it)")
    (simp_all add: next_pos_less [OF sym])

declare encode_fields_loop.simps [simp del]

primrec pb_encode :: "'s enc_env \<Rightarrow> nat \<Rightarrow> 's msg_encoder" where
  "pb_encode E 0 = (\<lambda>s fs src_struct. None)"
| "pb_encode E (Suc n) = (\<lambda>s fs src_struct.
     (case pb_field_iter_begin fs src_struct of (nonempty, iter) \<Rightarrow>
        if \<not> nonempty then Some (True, s)
        else encode_fields_loop E n (pb_encode E n) s iter))"

definition pb_encode_delimited :: "'s enc_env \<Rightarrow> nat \<Rightarrow> 's msg_encoder" where
  "pb_encode_delimited E n s fs src_struct = pb_encode_submessage (pb_encode E n) s fs src_struct"

definition pb_encode_nullterminated :: "'s enc_env \<Rightarrow> nat \<Rightarrow> 's msg_encoder" where
  "pb_encode_nullterminated E n s fs src_struct =
     (case pb_encode E n s fs src_struct of
        None \<Rightarrow> None
      | Some (ok, s) \<Rightarrow> if \<not> ok then Some (False, s) else Some (pb_write s [0] 1))"

definition pb_get_encoded_size ::
    "'s enc_env \<Rightarrow> nat \<Rightarrow> 's \<Rightarrow> pb_field list \<Rightarrow> nat \<Rightarrow> (bool \<times> u64) option" where
  "pb_get_encoded_size E n st fs src_struct =
     map_option (\<lambda>(ok, stream). (ok, if ok then os_bytes_written stream else 0))
       (pb_encode E n (pb_ostream_sizing st) fs src_struct)"

end
