(* ===== verification/PbWire.thy ===== *)
theory PbWire
  imports PbEncode
begin

text \<open>
  The protobuf wire format of a message held in memory, as a specification, and the proof that
  \<open>pb_encode\<close> writes it: for messages whose fields are all static, into any sink, with and without room.
\<close>

unbundle bit_operations_syntax

section \<open>The wire format\<close>

datatype wire = Varint u64 | Fixed64 u64 | Fixed32 u32 | Delimited "u8 list"

primrec wire_type :: "wire \<Rightarrow> pb_wire_type" where
  "wire_type (Varint v) = PB_WT_VARINT"
| "wire_type (Fixed64 v) = PB_WT_64BIT"
| "wire_type (Fixed32 v) = PB_WT_32BIT"
| "wire_type (Delimited bs) = PB_WT_STRING"

primrec payload :: "wire \<Rightarrow> u8 list" where
  "payload (Varint v) = varint_bytes v"
| "payload (Fixed64 v) = le_bytes 8 v"
| "payload (Fixed32 v) = le_bytes 4 v"
| "payload (Delimited bs) = varint_bytes (of_nat (length bs)) @ bs"

definition tag_bytes :: "u32 \<Rightarrow> pb_wire_type \<Rightarrow> u8 list" where
  "tag_bytes tag wt = varint_bytes (push_bit 3 (ucast tag) OR ucast wt)"

definition record_bytes :: "u32 \<times> wire \<Rightarrow> u8 list" where
  "record_bytes r = tag_bytes (fst r) (wire_type (snd r)) @ payload (snd r)"

definition message_bytes :: "(u32 \<times> wire) list \<Rightarrow> u8 list" where
  "message_bytes rs = concat (map record_bytes rs)"

section \<open>The content of a struct\<close>

definition zigzag :: "u64 \<Rightarrow> u64" where
  "zigzag v = (if sint v < 0 then NOT (push_bit 1 v) else push_bit 1 v)"

text \<open>A string ends at its terminator, or with its array of \<open>n\<close> characters.\<close>

definition c_str :: "mem \<Rightarrow> nat \<Rightarrow> nat \<Rightarrow> u8 list" where
  "c_str m a n = takeWhile (\<lambda>b. b \<noteq> 0) (load_bytes m a n)"

text \<open>
  The value of one item of field \<open>f\<close> at address \<open>a\<close>, given the content of submessages, and the records
  of a whole field: none if it is absent, one, or one for each item of an array that is not packed.
\<close>

definition scalar_wire :: "mem \<Rightarrow> pb_field \<Rightarrow> nat \<Rightarrow> wire" where
  "scalar_wire m f a =
     (if ltype f = PB_LTYPE_VARINT then Varint (the (load_signed m a (pf_data_size f)))
      else if ltype f = PB_LTYPE_UVARINT then Varint (the (load_unsigned m a (pf_data_size f)))
      else if ltype f = PB_LTYPE_SVARINT then Varint (zigzag (the (load_signed m a (pf_data_size f))))
      else if ltype f = PB_LTYPE_FIXED32 then Fixed32 (load32 m a)
      else Fixed64 (load64 m a))"

definition item_wire :: "(pb_field list \<Rightarrow> nat \<Rightarrow> (u32 \<times> wire) list) \<Rightarrow> (nat \<Rightarrow> pb_field list) \<Rightarrow>
    mem \<Rightarrow> pb_field \<Rightarrow> nat \<Rightarrow> wire" where
  "item_wire content D m f a =
     (if ltype f \<le> PB_LTYPE_LAST_PACKABLE then scalar_wire m f a
      else Delimited
        (if ltype f = PB_LTYPE_BYTES then load_bytes m (a + 4) (unat (load32 m a))
         else if ltype f = PB_LTYPE_STRING then c_str m a (unat (pf_data_size f))
         else if ltype f = PB_LTYPE_SUBMESSAGE then message_bytes (content (D (pf_ptr f)) a)
         else load_bytes m a (unat (pf_data_size f))))"

text \<open>An array with a count in the struct, and one whose count is fixed.\<close>

definition item_count :: "mem \<Rightarrow> pb_field \<Rightarrow> nat \<Rightarrow> nat" where
  "item_count m f c = unat (if pf_size_offset f \<noteq> 0 then load32 m c else pf_array_size f)"

definition item_addr :: "pb_field \<Rightarrow> nat \<Rightarrow> nat \<Rightarrow> nat" where
  "item_addr f a i = a + i * unat (pf_data_size f)"

text \<open>A value that proto3 leaves out: zero, or an empty string.\<close>

definition default_value :: "mem \<Rightarrow> pb_field \<Rightarrow> nat \<Rightarrow> bool" where
  "default_value m f a =
     (if ltype f = PB_LTYPE_BYTES then load32 m a = 0
      else if ltype f = PB_LTYPE_STRING then m a = 0
      else if ltype f = PB_LTYPE_FIXED_LENGTH_BYTES then pf_data_size f = 0
      else list_all (\<lambda>b. b = 0) (load_bytes m a (unat (pf_data_size f))))"

definition present :: "mem \<Rightarrow> pb_field \<Rightarrow> nat \<Rightarrow> nat \<Rightarrow> bool" where
  "present m f a c =
     (if htype f = PB_HTYPE_REQUIRED then True
      else if htype f = PB_HTYPE_OPTIONAL
        then if pf_size_offset f \<noteq> 0 then m c \<noteq> 0 else \<not> default_value m f a
      else load32 m c = pf_tag f)"

text \<open>Items of numbers share one record, which holds them one after the other.\<close>

definition array_records :: "pb_field \<Rightarrow> wire list \<Rightarrow> (u32 \<times> wire) list" where
  "array_records f items =
     (if items = [] then []
      else if ltype f \<le> PB_LTYPE_LAST_PACKABLE
        then [(pf_tag f, Delimited (concat (map payload items)))]
      else map (\<lambda>w. (pf_tag f, w)) items)"

definition field_records :: "(pb_field list \<Rightarrow> nat \<Rightarrow> (u32 \<times> wire) list) \<Rightarrow> (nat \<Rightarrow> pb_field list) \<Rightarrow>
    mem \<Rightarrow> pb_field \<Rightarrow> nat \<Rightarrow> nat \<Rightarrow> (u32 \<times> wire) list" where
  "field_records content D m f a c =
     (if htype f = PB_HTYPE_REPEATED then
        array_records f
          (map (\<lambda>i. item_wire content D m f (item_addr f a i)) [0..<item_count m f c])
      else if present m f a c then [(pf_tag f, item_wire content D m f a)]
      else [])"

primrec msg_content :: "(nat \<Rightarrow> pb_field list) \<Rightarrow> mem \<Rightarrow> nat \<Rightarrow> pb_field list \<Rightarrow> nat \<Rightarrow> (u32 \<times> wire) list" where
  "msg_content D m 0 fs a = []"
| "msg_content D m (Suc n) fs a =
     concat (map (\<lambda>k. field_records (msg_content D m n) D m (fs ! k) (field_data fs a k)
       (size_addr (field_data fs a k) (fs ! k))) [0..<length fs])"

text \<open>
  The memory holds a message within the limits of its descriptors: sizes of bytes and counts of
  arrays fit, strings are terminated, scalars have a size that C has. Submessages that proto3 leaves out when all of their
  fields are zero are excluded (\<open>size_offset = 0\<close> for an optional submessage).
\<close>

definition item_fits :: "(pb_field list \<Rightarrow> nat \<Rightarrow> bool) \<Rightarrow> (nat \<Rightarrow> pb_field list) \<Rightarrow> mem \<Rightarrow> pb_field \<Rightarrow> nat \<Rightarrow> bool" where
  "item_fits fits D m f a \<longleftrightarrow> a \<noteq> 0 \<and>
     (ltype f = PB_LTYPE_BYTES \<longrightarrow> unat (load32 m a) + 4 \<le> unat (pf_data_size f)) \<and>
     (ltype f = PB_LTYPE_STRING \<longrightarrow>
        length (c_str m a (unat (pf_data_size f))) < unat (pf_data_size f)) \<and>
     (ltype f = PB_LTYPE_SUBMESSAGE \<longrightarrow> pf_ptr f \<noteq> 0 \<and> fits (D (pf_ptr f)) a)"

definition field_fits :: "(pb_field list \<Rightarrow> nat \<Rightarrow> bool) \<Rightarrow> (nat \<Rightarrow> pb_field list) \<Rightarrow> mem \<Rightarrow> pb_field \<Rightarrow>
    nat \<Rightarrow> nat \<Rightarrow> bool" where
  "field_fits fits D m f a c \<longleftrightarrow>
     atype f = PB_ATYPE_STATIC \<and>
     (ltype f \<le> PB_LTYPE_SUBMESSAGE \<or> ltype f = PB_LTYPE_FIXED_LENGTH_BYTES) \<and>
     (ltype f \<le> PB_LTYPE_SVARINT \<longrightarrow> pf_data_size f \<in> {1, 2, 4, 8}) \<and>
     (htype f = PB_HTYPE_OPTIONAL \<and> pf_size_offset f = 0 \<longrightarrow> ltype f \<noteq> PB_LTYPE_SUBMESSAGE) \<and>
     (htype f = PB_HTYPE_ONEOF \<longrightarrow> pf_size_offset f \<noteq> 0) \<and>
     (if htype f = PB_HTYPE_REPEATED
      then item_count m f c \<le> unat (pf_array_size f) \<and>
        list_all (\<lambda>i. item_fits fits D m f (item_addr f a i)) [0..<item_count m f c]
      else present m f a c \<longrightarrow> item_fits fits D m f a)"

primrec msg_fits :: "(nat \<Rightarrow> pb_field list) \<Rightarrow> mem \<Rightarrow> nat \<Rightarrow> pb_field list \<Rightarrow> nat \<Rightarrow> bool" where
  "msg_fits D m 0 fs a \<longleftrightarrow> False"
| "msg_fits D m (Suc n) fs a \<longleftrightarrow> tagged fs \<and>
     list_all (\<lambda>k. field_fits (msg_fits D m n) D m (fs ! k) (field_data fs a k)
       (size_addr (field_data fs a k) (fs ! k))) [0..<length fs]"

section \<open>Writing with and without room\<close>

text \<open>
  A stream that writes or only counts. \<open>outcome s bs r\<close> says that a call on \<open>s\<close> with result \<open>r\<close> writes
  \<open>bs\<close> if there is room for all of it, and fails if there is not.
\<close>

context pb_sink
begin

definition enough :: "'s pb_ostream \<Rightarrow> nat \<Rightarrow> bool" where
  "enough s n \<longleftrightarrow> os_callback s = None \<or> room s n"

definition usable :: "'s pb_ostream \<Rightarrow> bool" where
  "usable s \<longleftrightarrow> (opened s \<or> os_callback s = None) \<and> enough s 0 \<and> os_errmsg s = None"

definition nowrap :: "'s pb_ostream \<Rightarrow> nat \<Rightarrow> bool" where
  "nowrap s n \<longleftrightarrow> unat (os_bytes_written s) + n < 2 ^ 64"

definition grows :: "'s pb_ostream \<Rightarrow> u8 list \<Rightarrow> 's pb_ostream \<Rightarrow> bool" where
  "grows s bs s' \<longleftrightarrow>
     (if os_callback s = None
      then s' = s\<lparr>os_bytes_written := os_bytes_written s + of_nat (length bs)\<rparr>
      else emits s bs s')"

definition outcome :: "'s pb_ostream \<Rightarrow> u8 list \<Rightarrow> bool \<times> 's pb_ostream \<Rightarrow> bool" where
  "outcome s bs r \<longleftrightarrow> (if enough s (length bs) then fst r \<and> grows s bs (snd r) else \<not> fst r)"

definition outcomes :: "'s pb_ostream \<Rightarrow> u8 list \<Rightarrow> 's enc_result \<Rightarrow> bool" where
  "outcomes s bs r \<longleftrightarrow> (\<exists>p. r = Some p \<and> outcome s bs p)"

lemma outcomes_Some [simp]: "outcomes s bs (Some p) \<longleftrightarrow> outcome s bs p"
  by (simp add: outcomes_def)

lemma grows_count:
  assumes "grows s as s'" "nowrap s (length as)"
  shows "unat (os_bytes_written s') = unat (os_bytes_written s) + length as"
proof (cases "os_callback s = None")
  case True
  have "unat (of_nat (length as) :: u64) = length as"
    using assms(2) by (intro unat_of_nat_small) (simp add: nowrap_def)
  then show ?thesis
    using True assms by (simp add: grows_def nowrap_def unat_add_no_overflow)
next
  case False
  then show ?thesis using assms(1) by (simp add: grows_def emits_def del: not_None_eq)
qed

lemma grows_callback: "grows s as s' \<Longrightarrow> usable s \<Longrightarrow> os_callback s' = os_callback s"
  by (auto simp: grows_def emits_def usable_def opened_def split: if_splits)

lemma grows_nowrap: "grows s as s' \<Longrightarrow> nowrap s (length as + n) \<Longrightarrow> nowrap s' n"
  using grows_count [of s as s'] by (simp add: nowrap_def)

lemma grows_enough:
  assumes "grows s as s'" "usable s"
  shows "enough s' n \<longleftrightarrow> enough s (length as + n)"
  using grows_callback [OF assms] assms(1)
  by (auto simp: enough_def grows_def room_def emits_def split: if_splits)

lemma grows_usable: "grows s as s' \<Longrightarrow> usable s \<Longrightarrow> enough s (length as) \<Longrightarrow> usable s'"
  using grows_enough [of s as s' 0] by (auto simp: grows_def emits_def usable_def split: if_splits)

lemma grows_trans:
  assumes "grows s as t" "grows t bs u" "usable s"
  shows "grows s (as @ bs) u"
  using assms grows_callback [OF assms(1,3)] by (auto simp: grows_def intro: emits_trans split: if_splits)

lemma enough_mono: "enough s (m + n) \<Longrightarrow> enough s m"
  by (auto simp: enough_def room_def)

text \<open>Calls in sequence, each followed by a return if it fails.\<close>

lemma outcomes_seq:
  assumes "usable s" "nowrap s (length as + length bs)" "outcome s as r"
    and "\<And>t. fst r \<Longrightarrow> snd r = t \<Longrightarrow> usable t \<Longrightarrow> nowrap t (length bs) \<Longrightarrow> grows s as t \<Longrightarrow> outcomes t bs (k t)"
  shows "outcomes s (as @ bs) (case r of (ok, t) \<Rightarrow> if \<not> ok then Some (False, t) else k t)"
proof (cases r)
  case (Pair ok t)
  show ?thesis
  proof (cases ok)
    case False
    then have "\<not> enough s (length as)" using assms(3) Pair by (auto simp: outcome_def split: if_splits)
    then have "\<not> enough s (length as + length bs)" using enough_mono by blast
    then show ?thesis using False Pair by (simp add: outcome_def)
  next
    case True
    then have g: "grows s as t" and e: "enough s (length as)"
      using assms(3) Pair by (auto simp: outcome_def split: if_splits)
    have "outcomes t bs (k t)"
      using assms(4) [of t] True Pair g grows_usable [OF g assms(1) e] grows_nowrap [OF g assms(2)] by simp
    then obtain p where p: "k t = Some p" "outcome t bs p" unfolding outcomes_def by blast
    have "outcome s (as @ bs) p"
      using p(2) grows_enough [OF g assms(1), of "length bs"] grows_trans [OF g _ assms(1)]
      by (auto simp: outcome_def split: if_splits)
    then show ?thesis using True Pair p(1) by simp
  qed
qed

lemma outcomes_bind:
  assumes "usable s" "nowrap s (length as + length bs)" "outcomes s as r"
    and "\<And>t. r = Some (True, t) \<Longrightarrow> usable t \<Longrightarrow> nowrap t (length bs) \<Longrightarrow> grows s as t \<Longrightarrow> outcomes t bs (k t)"
  shows "outcomes s (as @ bs)
    (case r of None \<Rightarrow> None | Some (ok, t) \<Rightarrow> if \<not> ok then Some (False, t) else k t)"
proof -
  from assms(3) obtain ok t where p: "r = Some (ok, t)" "outcome s as (ok, t)"
    unfolding outcomes_def by auto
  have "outcomes s (as @ bs) (case (ok, t) of (ok, t) \<Rightarrow> if \<not> ok then Some (False, t) else k t)"
    using p assms(4) by (intro outcomes_seq [OF assms(1,2) p(2)]) auto
  then show ?thesis using p(1) by simp
qed

lemma outcome_nil: "usable s \<Longrightarrow> outcome s [] (True, s)"
  by (cases "os_callback s = None")
    (simp_all add: outcome_def usable_def grows_def emits_def opened_def del: not_None_eq)

lemma write_outcome:
  assumes "usable s" "nowrap s (length bs)" "unat n = length bs"
  shows "outcome s bs (pb_write s bs n)"
proof (cases "os_callback s = None")
  case True
  have "of_nat (length bs) = n" by (simp flip: assms(3))
  then show ?thesis using True by (simp add: outcome_def enough_def grows_def pb_write_def)
next
  case False
  then have o: "opened s" using assms(1) by (simp add: usable_def del: not_None_eq)
  show ?thesis
  proof (cases "room s (length bs)")
    case True
    then show ?thesis
      using write_emits [OF o True assms(3)] False by (auto simp: outcome_def enough_def grows_def)
  next
    case no: False
    have "pb_write s bs n = os_return_error ''stream full'' s"
      using no assms(2,3) by (intro write_full o) (simp_all add: nowrap_def)
    then show ?thesis
      using no False by (simp add: outcome_def enough_def os_return_error_def)
  qed
qed

lemma count_outcome:
  assumes "os_callback s = None" "unat n = length bs"
  shows "outcome s bs (pb_write s [] n)"
proof -
  have "of_nat (length bs) = n" by (simp flip: assms(2))
  then show ?thesis using assms(1) by (simp add: outcome_def enough_def grows_def pb_write_def)
qed

lemma varint_outcome:
  assumes "usable s" "nowrap s (length (varint_bytes v))"
  shows "outcome s (varint_bytes v) (pb_encode_varint s v)"
proof -
  have "unat (of_nat (length (varint_bytes v)) :: u64) = length (varint_bytes v)"
    using varint_bytes_length_bounds [of v] by (intro unat_of_nat_small) simp
  then show ?thesis unfolding pb_encode_varint_write by (intro write_outcome assms)
qed

lemma svarint_outcome:
  assumes "usable s" "nowrap s (length (varint_bytes (zigzag v)))"
  shows "outcome s (varint_bytes (zigzag v)) (pb_encode_svarint s v)"
  using varint_outcome [OF assms] by (simp add: pb_encode_svarint_def zigzag_def Let_def)

lemma tag_outcome:
  assumes "usable s" "nowrap s (length (tag_bytes tag wt))"
  shows "outcome s (tag_bytes tag wt) (pb_encode_tag s wt tag)"
  using varint_outcome [of s "push_bit 3 (ucast tag) OR ucast wt"] assms
  by (simp add: pb_encode_tag_def tag_bytes_def Let_def)

lemma string_outcome:
  assumes "usable s" "nowrap s (length (payload (Delimited bs)))" "unat n = length bs"
  shows "outcome s (payload (Delimited bs)) (pb_encode_string s bs n)"
proof -
  have n: "of_nat (length bs) = n" by (simp flip: assms(3))
  have "outcomes s (varint_bytes n @ bs)
      (case pb_encode_varint s n of (ok, t) \<Rightarrow> if \<not> ok then Some (False, t) else Some (pb_write t bs n))"
    using assms(1,2) n
    by (intro outcomes_seq varint_outcome) (auto simp: nowrap_def intro!: write_outcome assms(3))
  then show ?thesis
    using n by (auto simp: pb_encode_string_def split: prod.splits if_splits)
qed

end

section \<open>Field encoders\<close>

lemma load_bytes_Suc: "load_bytes m p (Suc k) = m p # load_bytes m (p + 1) k"
  by (simp add: load_bytes_def upt_conv_Cons del: upt_Suc)

lemma string_length_value:
  assumes "sz \<le> max_size"
  shows "unat (string_length m p sz max_size) =
    unat sz + length (c_str m p (unat max_size - unat sz))"
  using assms
proof (induction m p sz max_size rule: string_length.induct)
  case (1 m p sz max_size)
  show ?case
  proof (cases "sz < max_size \<and> m p \<noteq> 0")
    case True
    then have lt: "unat sz < unat max_size" by (simp add: word_less_nat_alt)
    have "unat (sz + 1) = unat sz + unat (1 :: u64)"
      using lt unat_u64_less [of max_size] by (intro unat_add_no_overflow) simp
    then have suc: "unat (sz + 1) = unat sz + 1" by simp
    then have le: "sz + 1 \<le> max_size" using lt by (simp add: word_le_nat_alt)
    have "unat max_size - unat sz = Suc (unat max_size - unat sz - 1)" using lt by simp
    then have "load_bytes m p (unat max_size - unat sz) =
        m p # load_bytes m (p + 1) (unat max_size - unat sz - 1)"
      by (metis load_bytes_Suc)
    then have "c_str m p (unat max_size - unat sz) =
        m p # c_str m (p + 1) (unat max_size - unat (sz + 1))"
      using True suc by (simp add: c_str_def)
    then show ?thesis
      using "1.IH" [OF True le] True suc by (subst string_length.simps) simp
  next
    case False
    have "c_str m p (unat max_size - unat sz) = []"
    proof (cases "sz < max_size")
      case True
      then have "0 < unat max_size - unat sz" by (simp add: word_less_nat_alt)
      then show ?thesis using True False by (simp add: c_str_def load_bytes_def upt_rec [of p])
    next
      case False
      then have "unat max_size - unat sz = 0" by (simp add: not_less word_le_nat_alt)
      then show ?thesis by (simp add: c_str_def load_bytes_def)
    qed
    then show ?thesis using False by (subst string_length.simps) auto
  qed
qed

lemma c_str_take: "c_str m a n = load_bytes m a (length (c_str m a n))"
proof -
  have "c_str m a n = take (length (c_str m a n)) (load_bytes m a n)"
    unfolding c_str_def by (metis takeWhile_eq_take)
  also have "\<dots> = load_bytes m a (length (c_str m a n))"
    using length_takeWhile_le [of "\<lambda>b. b \<noteq> 0" "load_bytes m a n"]
    by (simp add: load_bytes_def c_str_def take_map)
  finally show ?thesis .
qed

lemma length_c_str: "length (c_str m a n) \<le> n"
  using length_takeWhile_le [of "\<lambda>b. b \<noteq> 0" "load_bytes m a n"] by (simp add: c_str_def)

lemma fixed_bytes:
  "[ucast (w AND 0xFF), ucast (drop_bit 8 w AND 0xFF), ucast (drop_bit 16 w AND 0xFF),
    ucast (drop_bit 24 w AND 0xFF)] = le_bytes 4 (w :: u32)"
  "[ucast (v AND 0xFF), ucast (drop_bit 8 v AND 0xFF), ucast (drop_bit 16 v AND 0xFF),
    ucast (drop_bit 24 v AND 0xFF), ucast (drop_bit 32 v AND 0xFF), ucast (drop_bit 40 v AND 0xFF),
    ucast (drop_bit 48 v AND 0xFF), ucast (drop_bit 56 v AND 0xFF)] = le_bytes 8 (v :: u64)"
proof -
  have "ucast (x AND 0xFF) = (ucast x :: u8)" "ucast (y AND 0xFF) = (ucast y :: u8)"
    for x :: u32 and y :: u64
    unfolding low8_masks by (auto intro!: bit_word_eqI simp: bit_simps)
  then show "[ucast (w AND 0xFF), ucast (drop_bit 8 w AND 0xFF), ucast (drop_bit 16 w AND 0xFF),
      ucast (drop_bit 24 w AND 0xFF)] = le_bytes 4 (w :: u32)"
    "[ucast (v AND 0xFF), ucast (drop_bit 8 v AND 0xFF), ucast (drop_bit 16 v AND 0xFF),
      ucast (drop_bit 24 v AND 0xFF), ucast (drop_bit 32 v AND 0xFF), ucast (drop_bit 40 v AND 0xFF),
      ucast (drop_bit 48 v AND 0xFF), ucast (drop_bit 56 v AND 0xFF)] = le_bytes 8 (v :: u64)"
    by (simp_all add: numeral_eq_Suc)
qed

lemma load_some: "n \<in> {1, 2, 4, 8} \<Longrightarrow> \<exists>v. load_signed m a n = Some v"
  "n \<in> {1, 2, 4, 8} \<Longrightarrow> \<exists>v. load_unsigned m a n = Some v"
  by (auto simp: load_signed_def load_unsigned_def)

lemma ltype_small:
  "(lt :: u8) \<le> PB_LTYPE_SVARINT \<Longrightarrow> lt = 0 \<or> lt = 1 \<or> lt = 2"
  "(lt :: u8) \<le> PB_LTYPE_LAST_PACKABLE \<Longrightarrow> lt \<le> PB_LTYPE_SVARINT \<or> lt = 3 \<or> lt = 4"
  "(lt :: u8) \<le> PB_LTYPE_SUBMESSAGE \<Longrightarrow> lt \<le> PB_LTYPE_LAST_PACKABLE \<or> lt = 5 \<or> lt = 6 \<or> lt = 7"
proof -
  show "lt \<le> PB_LTYPE_SVARINT \<Longrightarrow> lt = 0 \<or> lt = 1 \<or> lt = 2"
    by (simp add: word_le_nat_alt word_unat_eq_iff) linarith
  show "lt \<le> PB_LTYPE_LAST_PACKABLE \<Longrightarrow> lt \<le> PB_LTYPE_SVARINT \<or> lt = 3 \<or> lt = 4"
    by (simp add: word_le_nat_alt word_unat_eq_iff) linarith
  show "lt \<le> PB_LTYPE_SUBMESSAGE \<Longrightarrow> lt \<le> PB_LTYPE_LAST_PACKABLE \<or> lt = 5 \<or> lt = 6 \<or> lt = 7"
    by (simp add: word_le_nat_alt word_unat_eq_iff) linarith
qed

lemma check_default:
  assumes "htype f = PB_HTYPE_OPTIONAL" "pf_size_offset f = 0" "atype f = PB_ATYPE_STATIC"
    "ltype f \<noteq> PB_LTYPE_SUBMESSAGE"
  shows "pb_check_proto3_default_value E (Suc n) f a = Some (default_value (ee_mem E) f a)"
  using assms by (simp add: default_value_def Let_def)

context pb_sink
begin

lemma scalar_outcome:
  assumes "usable s" "nowrap s (length (payload (scalar_wire (ee_mem E) f a)))"
    "ltype f \<le> PB_LTYPE_LAST_PACKABLE" "ltype f \<le> PB_LTYPE_SVARINT \<longrightarrow> pf_data_size f \<in> {1, 2, 4, 8}"
  shows "outcomes s (payload (scalar_wire (ee_mem E) f a)) (PB_ENCODERS E enc (ltype f) s f a)"
proof -
  consider "ltype f = PB_LTYPE_VARINT" | "ltype f = PB_LTYPE_UVARINT" | "ltype f = PB_LTYPE_SVARINT"
    | "ltype f = PB_LTYPE_FIXED32" | "ltype f = PB_LTYPE_FIXED64"
    using ltype_small(1,2) [of "ltype f"] assms(3) by blast
  then show ?thesis
  proof cases
    case 1
    then obtain v where "load_signed (ee_mem E) a (pf_data_size f) = Some v"
      using load_some(1) assms(4) by fastforce
    then show ?thesis
      using 1 assms(1,2) varint_outcome [of s v]
      by (simp add: PB_ENCODERS_def pb_enc_varint_def scalar_wire_def)
  next
    case 2
    then obtain v where "load_unsigned (ee_mem E) a (pf_data_size f) = Some v"
      using load_some(2) assms(4) by fastforce
    then show ?thesis
      using 2 assms(1,2) varint_outcome [of s v]
      by (simp add: PB_ENCODERS_def pb_enc_uvarint_def scalar_wire_def)
  next
    case 3
    then obtain v where "load_signed (ee_mem E) a (pf_data_size f) = Some v"
      using load_some(1) assms(4) by fastforce
    then show ?thesis
      using 3 assms(1,2) svarint_outcome [of s v]
      by (simp add: PB_ENCODERS_def pb_enc_svarint_def scalar_wire_def)
  next
    case 4
    then show ?thesis
      using assms(1,2) write_outcome [of s "le_bytes 4 (load32 (ee_mem E) a)" 4]
      by (simp add: PB_ENCODERS_def pb_enc_fixed32_def scalar_wire_def pb_encode_fixed32_def fixed_bytes)
  next
    case 5
    then show ?thesis
      using assms(1,2) write_outcome [of s "le_bytes 8 (load64 (ee_mem E) a)" 8]
      by (simp add: PB_ENCODERS_def pb_enc_fixed64_def scalar_wire_def pb_encode_fixed64_def fixed_bytes)
  qed
qed

text \<open>What the encoder of submessages promises.\<close>

definition encodes :: "'s msg_encoder \<Rightarrow> (pb_field list \<Rightarrow> nat \<Rightarrow> bool) \<Rightarrow>
    (pb_field list \<Rightarrow> nat \<Rightarrow> (u32 \<times> wire) list) \<Rightarrow> bool" where
  "encodes enc fits cont \<longleftrightarrow>
     (\<forall>s fs a. usable s \<longrightarrow> fits fs a \<longrightarrow> nowrap s (length (message_bytes (cont fs a))) \<longrightarrow>
        outcomes s (message_bytes (cont fs a)) (enc s fs a))"

lemma encodesD:
  "encodes enc fits cont \<Longrightarrow> usable s \<Longrightarrow> fits fs a \<Longrightarrow> nowrap s (length (message_bytes (cont fs a))) \<Longrightarrow>
   outcomes s (message_bytes (cont fs a)) (enc s fs a)"
  by (simp add: encodes_def)

lemma submessage_outcome:
  assumes "encodes enc fits cont" "fits fs a" "usable s"
    "nowrap s (length (payload (Delimited (message_bytes (cont fs a)))))"
  shows "outcomes s (payload (Delimited (message_bytes (cont fs a)))) (pb_encode_submessage enc s fs a)"
proof -
  let ?bs = "message_bytes (cont fs a)" and ?z = "pb_ostream_sizing (os_state s)"
  have lim: "length ?bs < 2 ^ 64" using assms(4) by (simp add: nowrap_def)
  have z: "usable ?z" "nowrap ?z (length ?bs)" "enough ?z (length ?bs)"
    using lim by (simp_all add: usable_def nowrap_def enough_def pb_ostream_sizing_def)
  from encodesD [OF assms(1) z(1) assms(2) z(2)] z(3) obtain sub where
    sub: "enc ?z fs a = Some (True, sub)" "grows ?z ?bs sub"
    unfolding outcomes_def outcome_def by auto
  let ?n = "os_bytes_written sub"
  have n: "of_nat (length ?bs) = ?n" "unat ?n = length ?bs"
    using sub(2) lim by (simp_all add: grows_def pb_ostream_sizing_def)
  let ?rest = "\<lambda>t. if os_callback t = None then Some (pb_write t [] ?n)
    else if os_bytes_written t + ?n > os_max_size t then Some (os_return_error ''stream full'' t)
    else (case enc \<lparr>os_callback = os_callback t, os_state = os_state t, os_max_size = ?n,
                     os_bytes_written = 0, os_errmsg = None\<rparr> fs a of
            None \<Rightarrow> None
          | Some (status, substream) \<Rightarrow>
              let t = t\<lparr>os_state := os_state substream,
                        os_bytes_written := os_bytes_written t + os_bytes_written substream,
                        os_errmsg := os_errmsg substream\<rparr> in
              if os_bytes_written substream \<noteq> ?n
              then Some (os_return_error ''submsg size changed'' t) else Some (status, t))"
  have rest: "outcomes t ?bs (?rest t)" if t: "usable t" "nowrap t (length ?bs)" for t
  proof (cases "os_callback t = None")
    case True
    then show ?thesis using count_outcome n(2) by simp
  next
    case False
    then have op: "opened t" "os_errmsg t = None"
      using t(1) by (simp_all add: usable_def del: not_None_eq)
    have sum: "unat (os_bytes_written t + ?n) = unat (os_bytes_written t) + length ?bs"
      using t(2) n(2) by (simp add: nowrap_def unat_add_no_overflow)
    show ?thesis
    proof (cases "room t (length ?bs)")
      case no: False
      then have "os_bytes_written t + ?n > os_max_size t"
        using sum by (simp add: room_def word_less_nat_alt)
      then show ?thesis
        using no False by (simp add: outcome_def enough_def os_return_error_def del: not_None_eq)
    next
      case True
      then have fit: "\<not> os_bytes_written t + ?n > os_max_size t"
        using sum by (simp add: room_def word_less_nat_alt)
      let ?w = "\<lparr>os_callback = os_callback t, os_state = os_state t, os_max_size = ?n,
                 os_bytes_written = 0, os_errmsg = None\<rparr>"
      have w: "usable ?w" "nowrap ?w (length ?bs)" "enough ?w (length ?bs)"
        using op lim n(2) by (simp_all add: usable_def opened_def nowrap_def enough_def room_def)
      from encodesD [OF assms(1) w(1) assms(2) w(2)] w(3) obtain u where
        u: "enc ?w fs a = Some (True, u)" "grows ?w ?bs u"
        unfolding outcomes_def outcome_def by auto
      have em: "emits ?w ?bs u" using u(2) False by (simp add: grows_def del: not_None_eq)
      then have uw: "os_bytes_written u = ?n"
        using n(2) by (simp add: emits_def word_unat_eq_iff)
      let ?t = "t\<lparr>os_state := os_state u, os_bytes_written := os_bytes_written t + os_bytes_written u,
                  os_errmsg := os_errmsg u\<rparr>"
      have "emits t ?bs ?t"
        using em op uw sum by (simp add: emits_def opened_def)
      then show ?thesis
        using False True fit u(1) uw
        by (simp add: outcome_def enough_def grows_def Let_def del: not_None_eq)
    qed
  qed
  have "outcomes s (varint_bytes ?n @ ?bs)
      (case pb_encode_varint s ?n of (ok, t) \<Rightarrow> if \<not> ok then Some (False, t) else ?rest t)"
    using assms(3,4) by (intro outcomes_seq varint_outcome rest) (simp_all add: nowrap_def n(1))
  then show ?thesis
    using sub(1) by (simp add: pb_encode_submessage_def Let_def n(1))
qed

lemma item_outcome:
  assumes "encodes enc fits cont" "usable s"
    "nowrap s (length (payload (item_wire cont (ee_descs E) (ee_mem E) f a)))"
    "ltype f \<le> PB_LTYPE_SUBMESSAGE \<or> ltype f = PB_LTYPE_FIXED_LENGTH_BYTES"
    "ltype f \<le> PB_LTYPE_SVARINT \<longrightarrow> pf_data_size f \<in> {1, 2, 4, 8}"
    "item_fits fits (ee_descs E) (ee_mem E) f a" "atype f = PB_ATYPE_STATIC"
  shows "outcomes s (payload (item_wire cont (ee_descs E) (ee_mem E) f a))
    (PB_ENCODERS E enc (ltype f) s f a)"
proof -
  let ?m = "ee_mem E"
  consider (scalar) "ltype f \<le> PB_LTYPE_LAST_PACKABLE" | (bytes) "ltype f = PB_LTYPE_BYTES"
    | (string) "ltype f = PB_LTYPE_STRING" | (sub) "ltype f = PB_LTYPE_SUBMESSAGE"
    | (fixed) "ltype f = PB_LTYPE_FIXED_LENGTH_BYTES"
    using ltype_small(3) [of "ltype f"] assms(4) by blast
  then show ?thesis
  proof cases
    case scalar
    then show ?thesis using scalar_outcome assms(2,3,5) by (simp add: item_wire_def)
  next
    case bytes
    let ?n = "load32 ?m a"
    have "unat ?n + 4 \<le> unat (pf_data_size f)" using assms(6) bytes by (simp add: item_fits_def)
    moreover have "unat (pb_bytes_array_allocsize ?n) = unat ?n + 4"
    proof -
      have "unat (ucast ?n + 4 :: u64) = unat (ucast ?n :: u64) + unat (4 :: u64)"
        using unat_u32_less [of ?n] by (intro unat_add_no_overflow) (simp add: unat_ucast_up)
      then show ?thesis by (simp add: pb_bytes_array_allocsize_def unat_ucast_up)
    qed
    ultimately have ok: "\<not> pb_bytes_array_allocsize ?n > ucast (pf_data_size f)"
      by (simp add: not_less word_le_nat_alt unat_ucast_up)
    let ?bs = "load_bytes ?m (a + 4) (unat ?n)"
    have "outcome s (payload (Delimited ?bs)) (pb_encode_string s ?bs (ucast ?n))"
      using assms(2,3) bytes by (intro string_outcome) (simp_all add: item_wire_def unat_ucast_up)
    moreover have "pb_enc_bytes ?m s f a = pb_encode_string s ?bs (ucast ?n)"
      using assms(6) ok by (simp add: pb_enc_bytes_def item_fits_def)
    ultimately show ?thesis using bytes by (simp add: PB_ENCODERS_def item_wire_def)
  next
    case string
    let ?bs = "c_str ?m a (unat (pf_data_size f))"
    let ?n = "string_length ?m a 0 (ucast (pf_data_size f))"
    have n: "unat ?n = length ?bs"
      using string_length_value [of 0 "ucast (pf_data_size f)" ?m a] by (simp add: unat_ucast_up)
    have "pb_enc_string ?m s f a = pb_encode_string s ?bs ?n"
      using assms(6,7) c_str_take [of ?m a "unat (pf_data_size f)"] n
      by (simp add: pb_enc_string_def item_fits_def Let_def)
    moreover have "outcome s (payload (Delimited ?bs)) (pb_encode_string s ?bs ?n)"
      using assms(2,3) string n by (intro string_outcome) (simp_all add: item_wire_def)
    ultimately show ?thesis using string by (simp add: PB_ENCODERS_def item_wire_def)
  next
    case sub
    then show ?thesis
      using assms(1-3,6) submessage_outcome [of enc fits cont "ee_descs E (pf_ptr f)" a s]
      by (simp add: PB_ENCODERS_def item_wire_def item_fits_def pb_enc_submessage_def)
  next
    case fixed
    let ?bs = "load_bytes ?m a (unat (pf_data_size f))"
    have "outcome s (payload (Delimited ?bs)) (pb_encode_string s ?bs (ucast (pf_data_size f)))"
      using assms(2,3) fixed by (intro string_outcome) (simp_all add: item_wire_def unat_ucast_up)
    then show ?thesis using fixed by (simp add: PB_ENCODERS_def pb_enc_fixed_length_bytes_def item_wire_def)
  qed
qed

lemma tag_for_field_outcome:
  assumes "usable s" "nowrap s (length (tag_bytes (pf_tag f) (wire_type (item_wire cont D m f a))))"
    "ltype f \<le> PB_LTYPE_SUBMESSAGE \<or> ltype f = PB_LTYPE_FIXED_LENGTH_BYTES"
  shows "outcome s (tag_bytes (pf_tag f) (wire_type (item_wire cont D m f a))) (pb_encode_tag_for_field s f)"
proof -
  consider "ltype f = 0 \<or> ltype f = 1 \<or> ltype f = 2" | "ltype f = 3" | "ltype f = 4"
    | "ltype f = 5 \<or> ltype f = 6 \<or> ltype f = 7 \<or> ltype f = 9"
    using ltype_small [of "ltype f"] assms(3) by blast
  then show ?thesis
    using assms(1,2)
    by cases (auto simp: pb_encode_tag_for_field_def item_wire_def scalar_wire_def Let_def
        intro!: tag_outcome)
qed

text \<open>The loops over the items of an array.\<close>

lemma item_addr_Suc: "item_addr f p (Suc i) = item_addr f (p + unat (pf_data_size f)) i"
  by (simp add: item_addr_def)

lemma item_addr_0 [simp]: "item_addr f p 0 = p"
  by (simp add: item_addr_def)

lemma upt_map_Suc: "[0..<Suc n] = 0 # map Suc [0..<n]"
  by (simp add: upt_conv_Cons map_Suc_upt del: upt_Suc)

lemma packed_items_outcome:
  assumes "\<And>i t. i < c \<Longrightarrow> usable t \<Longrightarrow> nowrap t (length (w (item_addr f p i))) \<Longrightarrow>
      outcomes t (w (item_addr f p i)) (func t f (item_addr f p i))"
    and "usable s" "nowrap s (length (concat (map (\<lambda>i. w (item_addr f p i)) [0..<c])))"
  shows "outcomes s (concat (map (\<lambda>i. w (item_addr f p i)) [0..<c])) (packed_items func f c s p)"
  using assms
proof (induction c arbitrary: s p)
  case 0
  then show ?case by (simp add: outcome_nil)
next
  case (Suc c)
  let ?q = "p + unat (pf_data_size f)"
  have split: "concat (map (\<lambda>i. w (item_addr f p i)) [0..<Suc c]) =
      w p @ concat (map (\<lambda>i. w (item_addr f ?q i)) [0..<c])"
    by (simp only: upt_map_Suc) (simp add: item_addr_Suc comp_def)
  have "outcomes t (concat (map (\<lambda>i. w (item_addr f ?q i)) [0..<c])) (packed_items func f c t ?q)"
    if "usable t" "nowrap t (length (concat (map (\<lambda>i. w (item_addr f ?q i)) [0..<c])))" for t
    using Suc.prems(1) [of "Suc _"] that by (intro Suc.IH) (simp_all add: item_addr_Suc)
  then have "outcomes s (w p @ concat (map (\<lambda>i. w (item_addr f ?q i)) [0..<c]))
      (case func s f p of None \<Rightarrow> None
       | Some (ok, t) \<Rightarrow> if \<not> ok then Some (False, t) else packed_items func f c t ?q)"
    using Suc.prems(1) [of 0 s] Suc.prems(2,3) unfolding split
    by (intro outcomes_bind) (simp_all add: nowrap_def)
  then show ?case unfolding split by simp
qed

lemma tagged_items_outcome:
  assumes "\<And>i t. i < c \<Longrightarrow> usable t \<Longrightarrow> nowrap t (length (payload (w (item_addr f p i)))) \<Longrightarrow>
      outcomes t (payload (w (item_addr f p i))) (func t f (item_addr f p i))"
    and "\<And>a t. usable t \<Longrightarrow> nowrap t (length (tag_bytes (pf_tag f) (wire_type (w a)))) \<Longrightarrow>
      outcome t (tag_bytes (pf_tag f) (wire_type (w a))) (pb_encode_tag_for_field t f)"
    and "usable s" "nowrap s (length (message_bytes (map (\<lambda>i. (pf_tag f, w (item_addr f p i))) [0..<c])))"
    and "atype f = PB_ATYPE_STATIC"
  shows "outcomes s (message_bytes (map (\<lambda>i. (pf_tag f, w (item_addr f p i))) [0..<c]))
    (tagged_items m func f c s p)"
  using assms(1,3,4)
proof (induction c arbitrary: s p)
  case 0
  then show ?case by (simp add: message_bytes_def outcome_nil)
next
  case (Suc c)
  let ?q = "p + unat (pf_data_size f)"
  let ?rest = "message_bytes (map (\<lambda>i. (pf_tag f, w (item_addr f ?q i))) [0..<c])"
  let ?tag = "tag_bytes (pf_tag f) (wire_type (w p))"
  have split: "message_bytes (map (\<lambda>i. (pf_tag f, w (item_addr f p i))) [0..<Suc c]) =
      ?tag @ payload (w p) @ ?rest"
    by (simp only: upt_map_Suc) (simp add: item_addr_Suc comp_def message_bytes_def record_bytes_def)
  have rest: "outcomes t ?rest (tagged_items m func f c t ?q)"
    if "usable t" "nowrap t (length ?rest)" for t
    using Suc.prems(1) [of "Suc _"] that by (intro Suc.IH) (simp_all add: item_addr_Suc)
  have "outcomes t (payload (w p) @ ?rest)
      (case func t f p of None \<Rightarrow> None
       | Some (ok, t) \<Rightarrow> if \<not> ok then Some (False, t) else tagged_items m func f c t ?q)"
    if "usable t" "nowrap t (length (payload (w p) @ ?rest))" for t
    using Suc.prems(1) [of 0 t] that rest by (intro outcomes_bind) (simp_all add: nowrap_def)
  then have "outcomes s (?tag @ payload (w p) @ ?rest)
      (case pb_encode_tag_for_field s f of (ok, t) \<Rightarrow>
         if \<not> ok then Some (False, t)
         else (case func t f p of None \<Rightarrow> None
               | Some (ok, t) \<Rightarrow> if \<not> ok then Some (False, t) else tagged_items m func f c t ?q))"
    using assms(2) [of s p] Suc.prems(2,3) unfolding split
    by (intro outcomes_seq) (simp_all add: nowrap_def)
  then show ?case unfolding split using assms(5) by simp
qed

text \<open>The size of a packed array is known for the fixed types, and counted for the others.\<close>

lemma packed_size:
  fixes f E enc n and st :: 's
  defines "func \<equiv> PB_ENCODERS E enc (ltype f)"
    and "bs \<equiv> \<lambda>p. concat (map (\<lambda>i. payload (scalar_wire (ee_mem E) f (item_addr f p i))) [0..<unat (n :: u64)])"
  assumes "ltype f \<le> PB_LTYPE_LAST_PACKABLE" "ltype f \<le> PB_LTYPE_SVARINT \<longrightarrow> pf_data_size f \<in> {1, 2, 4, 8}"
    "length (bs p) < 2 ^ 64"
  shows "(if ltype f = PB_LTYPE_FIXED32 then Some (True, 4 * n)
          else if ltype f = PB_LTYPE_FIXED64 then Some (True, 8 * n)
          else map_option (\<lambda>(ok, sizestream). (ok, os_bytes_written sizestream))
            (packed_items func f (unat n) (pb_ostream_sizing st) p)) = Some (True, of_nat (length (bs p)))"
proof -
  have len: "length (bs p) = k * unat n"
    if "\<And>a. length (payload (scalar_wire (ee_mem E) f a)) = k" for k
    using that by (simp add: bs_def length_concat comp_def sum_list_triv)
  consider "ltype f = PB_LTYPE_FIXED32" | "ltype f = PB_LTYPE_FIXED64" | "ltype f \<noteq> 3" "ltype f \<noteq> 4" by blast
  then show ?thesis
  proof cases
    case 1
    then have "length (bs p) = 4 * unat n" by (intro len) (simp add: scalar_wire_def)
    then show ?thesis using 1 by simp
  next
    case 2
    then have "length (bs p) = 8 * unat n" by (intro len) (simp add: scalar_wire_def)
    then show ?thesis using 2 by simp
  next
    case 3
    let ?z = "pb_ostream_sizing st"
    have z: "usable ?z" "nowrap ?z (length (bs p))" "enough ?z (length (bs p))"
      using assms(5) by (simp_all add: usable_def nowrap_def enough_def pb_ostream_sizing_def)
    have "outcomes ?z (bs p) (packed_items func f (unat n) ?z p)"
      using z(2) unfolding bs_def func_def
      by (intro packed_items_outcome scalar_outcome z(1) assms(3,4)) simp_all
    then obtain t where "packed_items func f (unat n) ?z p = Some (True, t)" "grows ?z (bs p) t"
      using z(3) unfolding outcomes_def outcome_def by auto
    then show ?thesis using 3 by (simp add: grows_def pb_ostream_sizing_def)
  qed
qed

lemma encode_array_outcome:
  fixes s :: "'s pb_ostream" and E enc f cont
  defines "m \<equiv> ee_mem E" and "func \<equiv> PB_ENCODERS E enc (ltype f)"
    and "w \<equiv> item_wire cont (ee_descs E) (ee_mem E) f"
  defines "items \<equiv> \<lambda>p c. map (\<lambda>i. w (item_addr f p i)) [0..<unat (c :: u32)]"
  assumes "encodes enc fits cont" "usable s" "nowrap s (length (message_bytes (array_records f (items p c))))"
    "ltype f \<le> PB_LTYPE_SUBMESSAGE \<or> ltype f = PB_LTYPE_FIXED_LENGTH_BYTES"
    "ltype f \<le> PB_LTYPE_SVARINT \<longrightarrow> pf_data_size f \<in> {1, 2, 4, 8}"
    "\<And>i. i < unat c \<Longrightarrow> item_fits fits (ee_descs E) (ee_mem E) f (item_addr f p i)"
    "atype f = PB_ATYPE_STATIC" "unat c \<le> unat (pf_array_size f)"
  shows "outcomes s (message_bytes (array_records f (items p c))) (encode_array m s f p (ucast c) func)"
proof (cases "c = 0")
  case True
  then show ?thesis
    using assms(6) by (simp add: encode_array_def items_def array_records_def message_bytes_def outcome_nil)
next
  case False
  have n [simp]: "unat (ucast c :: u64) = unat c" by (simp add: unat_ucast_up)
  have nz: "unat c \<noteq> 0" using False by (simp add: unat_eq_zero)
  then have pos: "items p c \<noteq> []" by (simp add: items_def)
  have cnz: "ucast c \<noteq> (0 :: u64)"
  proof
    assume "ucast c = (0 :: u64)"
    then have "unat (ucast c :: u64) = 0" by simp
    then show False using nz unfolding n by simp
  qed
  have fit: "\<not> ucast c > (ucast (pf_array_size f) :: u64)"
    using assms(12) by (simp add: word_less_nat_alt unat_ucast_up)
  have item: "outcomes t (payload (w (item_addr f p i))) (func t f (item_addr f p i))"
    if "i < unat c" "usable t" "nowrap t (length (payload (w (item_addr f p i))))" for i and t :: "'s pb_ostream"
    using item_outcome [OF assms(5)] assms(8-11) that unfolding w_def func_def by blast
  show ?thesis
  proof (cases "ltype f \<le> PB_LTYPE_LAST_PACKABLE")
    case True
    let ?bs = "concat (map (\<lambda>i. payload (w (item_addr f p i))) [0..<unat c])"
    let ?n = "of_nat (length ?bs) :: u64"
    have bytes: "message_bytes (array_records f (items p c)) =
        tag_bytes (pf_tag f) PB_WT_STRING @ varint_bytes ?n @ ?bs"
      using pos True by (simp add: array_records_def message_bytes_def record_bytes_def items_def comp_def)
    have w: "w a = scalar_wire (ee_mem E) f a" for a using True by (simp add: w_def item_wire_def)
    have lim: "length ?bs < 2 ^ 64" using assms(7) unfolding bytes by (simp add: nowrap_def)
    have sz: "(if ltype f = PB_LTYPE_FIXED32 then Some (True, 4 * ucast c)
          else if ltype f = PB_LTYPE_FIXED64 then Some (True, 8 * ucast c)
          else map_option (\<lambda>(ok, sizestream). (ok, os_bytes_written sizestream))
            (packed_items func f (unat c) (pb_ostream_sizing st) p)) = Some (True, ?n)" for st :: 's
      using packed_size [OF True assms(9), where n = "ucast c" and enc = enc and st = st, unfolded n,
          OF lim [unfolded w]] unfolding w func_def .
    have last: "outcomes t ?bs (if os_callback t = None then Some (pb_write t [] ?n)
          else packed_items func f (unat c) t p)"
      if t: "usable t" "nowrap t (length ?bs)" for t :: "'s pb_ostream"
    proof (cases "os_callback t = None")
      case True
      have "unat ?n = length ?bs" using lim by (intro unat_of_nat_small) simp
      then show ?thesis using True count_outcome by simp
    next
      case False
      have "outcomes t ?bs (packed_items func f (unat c) t p)"
        using t by (intro packed_items_outcome item)
      then show ?thesis using False by (simp del: not_None_eq)
    qed
    have mid: "outcomes t (varint_bytes ?n @ ?bs)
        (case pb_encode_varint t ?n of (ok, u) \<Rightarrow>
           if \<not> ok then Some (False, u)
           else if os_callback u = None then Some (pb_write u [] ?n)
           else packed_items func f (unat c) u p)"
      if t: "usable t" "nowrap t (length (varint_bytes ?n @ ?bs))" for t :: "'s pb_ostream"
      using t by (intro outcomes_seq varint_outcome last) (simp_all add: nowrap_def)
    have "outcomes s (tag_bytes (pf_tag f) PB_WT_STRING @ varint_bytes ?n @ ?bs)
        (case pb_encode_tag s PB_WT_STRING (pf_tag f) of (ok, t) \<Rightarrow>
           if \<not> ok then Some (False, t)
           else (case pb_encode_varint t ?n of (ok, u) \<Rightarrow>
             if \<not> ok then Some (False, u)
             else if os_callback u = None then Some (pb_write u [] ?n)
             else packed_items func f (unat c) u p))"
      using assms(6,7) unfolding bytes by (intro outcomes_seq tag_outcome mid) (simp_all add: nowrap_def)
    then show ?thesis
      using cnz fit True unfolding bytes by (simp add: encode_array_def sz cong: if_cong)
  next
    case np: False
    have tag: "outcome t (tag_bytes (pf_tag f) (wire_type (w a))) (pb_encode_tag_for_field t f)"
      if "usable t" "nowrap t (length (tag_bytes (pf_tag f) (wire_type (w a))))" for a and t :: "'s pb_ostream"
      using tag_for_field_outcome [OF _ _ assms(8)] that unfolding w_def by blast
    have "array_records f (items p c) = map (\<lambda>i. (pf_tag f, w (item_addr f p i))) [0..<unat c]"
      using pos np by (simp add: array_records_def items_def)
    moreover have "outcomes s (message_bytes (map (\<lambda>i. (pf_tag f, w (item_addr f p i))) [0..<unat c]))
        (tagged_items m func f (unat c) s p)"
      using assms(6,7,11) calculation by (intro tagged_items_outcome item tag) simp_all
    ultimately show ?thesis using cnz fit np by (simp add: encode_array_def)
  qed
qed

lemma one_record_outcome:
  fixes s :: "'s pb_ostream"
  assumes "encodes enc fits cont" "usable s"
    "nowrap s (length (record_bytes (pf_tag f, item_wire cont (ee_descs E) (ee_mem E) f a)))"
    "ltype f \<le> PB_LTYPE_SUBMESSAGE \<or> ltype f = PB_LTYPE_FIXED_LENGTH_BYTES"
    "ltype f \<le> PB_LTYPE_SVARINT \<longrightarrow> pf_data_size f \<in> {1, 2, 4, 8}"
    "item_fits fits (ee_descs E) (ee_mem E) f a" "atype f = PB_ATYPE_STATIC"
  shows "outcomes s (message_bytes [(pf_tag f, item_wire cont (ee_descs E) (ee_mem E) f a)])
    (case pb_encode_tag_for_field s f of (ok, s) \<Rightarrow>
       if \<not> ok then Some (False, s) else PB_ENCODERS E enc (ltype f) s f a)"
proof -
  let ?w = "item_wire cont (ee_descs E) (ee_mem E) f a"
  have "outcomes s (tag_bytes (pf_tag f) (wire_type ?w) @ payload ?w)
    (case pb_encode_tag_for_field s f of (ok, s) \<Rightarrow>
       if \<not> ok then Some (False, s) else PB_ENCODERS E enc (ltype f) s f a)"
    using assms(2,3)
    by (intro outcomes_seq tag_for_field_outcome item_outcome [OF assms(1)] assms(4-7))
      (simp_all add: record_bytes_def nowrap_def)
  then show ?thesis by (simp add: message_bytes_def record_bytes_def)
qed

lemma encode_field_outcome:
  fixes s :: "'s pb_ostream" and E enc cont
  defines "records \<equiv> \<lambda>f a. field_records cont (ee_descs E) (ee_mem E) f a (size_addr a f)"
  assumes enc: "encodes enc fits cont" and s: "usable s" "nowrap s (length (message_bytes (records f a)))"
    and fits: "field_fits fits (ee_descs E) (ee_mem E) f a (size_addr a f)"
  shows "outcomes s (message_bytes (records f a)) (encode_field E (Suc n) enc s f a)"
proof -
  let ?m = "ee_mem E" and ?c = "size_addr a f"
  have f: "atype f = PB_ATYPE_STATIC" "ltype f \<le> PB_LTYPE_SUBMESSAGE \<or> ltype f = PB_LTYPE_FIXED_LENGTH_BYTES"
    "ltype f \<le> PB_LTYPE_SVARINT \<longrightarrow> pf_data_size f \<in> {1, 2, 4, 8}"
    using fits by (simp_all add: field_fits_def)
  let ?send = "case pb_encode_tag_for_field s f of (ok, s) \<Rightarrow>
       if \<not> ok then Some (False, s) else PB_ENCODERS E enc (ltype f) s f a"
  have one: "outcomes s (message_bytes (records f a)) (if present ?m f a ?c then ?send else Some (True, s))"
    if h: "htype f \<noteq> PB_HTYPE_REPEATED"
  proof (cases "present ?m f a ?c")
    case True
    then have it: "item_fits fits (ee_descs E) ?m f a" using fits h by (simp add: field_fits_def)
    have r: "records f a = [(pf_tag f, item_wire cont (ee_descs E) ?m f a)]"
      using True h by (simp add: records_def field_records_def)
    show ?thesis
      using True s one_record_outcome [OF enc s(1) _ f(2,3) it f(1)] unfolding r
      by (simp add: message_bytes_def)
  next
    case False
    then show ?thesis using h s by (simp add: records_def field_records_def message_bytes_def outcome_nil)
  qed
  have notnull: "present ?m f a ?c \<Longrightarrow> htype f \<noteq> PB_HTYPE_REPEATED \<Longrightarrow> a \<noteq> 0"
    using fits by (simp add: field_fits_def item_fits_def)
  consider "htype f = PB_HTYPE_REQUIRED" | "htype f = PB_HTYPE_OPTIONAL" | "htype f = PB_HTYPE_REPEATED"
    | "htype f = PB_HTYPE_ONEOF"
    using htype_cases by blast
  then show ?thesis
  proof cases
    case 1
    then show ?thesis
      using one notnull f(1) by (simp add: encode_field_def encode_basic_field_def present_def Let_def)
  next
    case 2
    then have "pf_size_offset f = 0 \<Longrightarrow>
        pb_check_proto3_default_value E (Suc n) f a = Some (default_value ?m f a)"
      using fits f(1) by (intro check_default) (simp_all add: field_fits_def)
    then show ?thesis
      using one 2 f(1)
      by (cases "pf_size_offset f = 0") (simp_all add: encode_field_def encode_basic_field_def present_def Let_def
        del: pb_check_proto3_default_value.simps)
  next
    case 3
    let ?n = "if pf_size_offset f \<noteq> 0 then load32 ?m ?c else pf_array_size f"
    have it: "i < unat ?n \<Longrightarrow> item_fits fits (ee_descs E) ?m f (item_addr f a i)"
      and len: "unat ?n \<le> unat (pf_array_size f)" for i
      using fits 3 by (simp_all add: field_fits_def item_count_def list_all_iff)
    have r: "records f a = array_records f
        (map (\<lambda>i. item_wire cont (ee_descs E) ?m f (item_addr f a i)) [0..<unat ?n])"
      using 3 by (simp add: records_def field_records_def item_count_def)
    have "outcomes s (message_bytes (records f a))
        (encode_array ?m s f a (ucast ?n) (PB_ENCODERS E enc (ltype f)))"
      using s unfolding r by (intro encode_array_outcome [OF enc] f it len)
    then show ?thesis
      using 3 f(1)
      by (cases "pf_size_offset f = 0") (simp_all add: encode_field_def encode_basic_field_def Let_def)
  next
    case 4
    then have "pf_size_offset f \<noteq> 0" using fits by (simp add: field_fits_def)
    then show ?thesis
      using one 4 f(1) by (simp add: encode_field_def encode_basic_field_def present_def Let_def)
  qed
qed

text \<open>The loop over the fields, from field \<open>k\<close> on.\<close>

lemma encode_fields_outcome:
  fixes s :: "'s pb_ostream" and E enc cont
  defines "records \<equiv> \<lambda>fs a k. field_records cont (ee_descs E) (ee_mem E) (fs ! k) (field_data fs a k)
       (size_addr (field_data fs a k) (fs ! k))"
  assumes enc: "encodes enc fits cont" and t: "tagged fs"
    and fits: "\<And>k. k < length fs \<Longrightarrow> field_fits fits (ee_descs E) (ee_mem E) (fs ! k) (field_data fs a k)
       (size_addr (field_data fs a k) (fs ! k))"
    and "k < length fs" "usable s" "nowrap s (length (message_bytes (concat (map (records fs a) [k..<length fs]))))"
  shows "outcomes s (message_bytes (concat (map (records fs a) [k..<length fs])))
    (encode_fields_loop E (Suc n) enc s (iter_at fs a k))"
  using assms(5-7)
proof (induction "length fs - k" arbitrary: k s)
  case (Suc j)
  note k = Suc.prems(1)
  let ?here = "message_bytes (records fs a k)"
    and ?rest = "message_bytes (concat (map (records fs a) [Suc k..<length fs]))"
  have split: "message_bytes (concat (map (records fs a) [k..<length fs])) = ?here @ ?rest"
    using k by (simp add: upt_conv_Cons message_bytes_def)
  have noext: "ltype (fs ! k) \<noteq> PB_LTYPE_EXTENSION"
    using fits [OF k] by (auto simp: field_fits_def)
  have "nowrap s (length ?here)" using Suc.prems(3) unfolding split by (simp add: nowrap_def)
  then have here: "outcomes s ?here (encode_field E (Suc n) enc s (fs ! k) (field_data fs a k))"
    using encode_field_outcome [OF enc Suc.prems(2) _ fits [OF k]] unfolding records_def by blast
  have rest: "outcomes t ?rest (case pb_field_iter_next (iter_at fs a k) of (going, iter') \<Rightarrow>
      if going then encode_fields_loop E (Suc n) enc t iter' else Some (True, t))"
    if "usable t" "nowrap t (length ?rest)" for t :: "'s pb_ostream"
  proof (cases "Suc k < length fs")
    case True
    then show ?thesis
      using Suc.hyps(1) [of "Suc k" t] Suc.hyps(2) that next_iter_at0 [OF t k] by simp
  next
    case False
    then show ?thesis
      using that next_iter_at0 [OF t k] by (simp add: message_bytes_def outcome_nil)
  qed
  have "outcomes s (?here @ ?rest)
      (case encode_field E (Suc n) enc s (fs ! k) (field_data fs a k) of
         None \<Rightarrow> None
       | Some (ok, s) \<Rightarrow>
           if \<not> ok then Some (False, s)
           else (case pb_field_iter_next (iter_at fs a k) of (going, iter') \<Rightarrow>
             if going then encode_fields_loop E (Suc n) enc s iter' else Some (True, s)))"
    using Suc.prems(2,3) unfolding split by (intro outcomes_bind here rest) (simp_all add: nowrap_def)
  then show ?case
    unfolding split using noext k by (subst encode_fields_loop.simps) simp
qed simp

lemma message_outcome:
  "encodes (pb_encode E (Suc n)) (msg_fits (ee_descs E) (ee_mem E) n) (msg_content (ee_descs E) (ee_mem E) n)"
proof (induction n)
  case 0
  show ?case by (simp add: encodes_def)
next
  case (Suc n)
  let ?D = "ee_descs E" and ?m = "ee_mem E"
  show ?case
    unfolding encodes_def
  proof (intro allI impI)
    fix s :: "'s pb_ostream" and fs a
    assume s: "usable s" and fit: "msg_fits ?D ?m (Suc n) fs a"
      and w: "nowrap s (length (message_bytes (msg_content ?D ?m (Suc n) fs a)))"
    have t: "tagged fs" using fit by simp
    show "outcomes s (message_bytes (msg_content ?D ?m (Suc n) fs a)) (pb_encode E (Suc (Suc n)) s fs a)"
    proof (cases "fs = []")
      case True
      then show ?thesis
        using s by (simp add: pb_field_iter_begin_def message_bytes_def outcome_nil Let_def)
    next
      case False
      have "outcomes s (message_bytes (msg_content ?D ?m (Suc n) fs a))
          (encode_fields_loop E (Suc n) (pb_encode E (Suc n)) s (iter_at fs a 0))"
        using fit w False unfolding msg_content.simps
        by (intro encode_fields_outcome [OF Suc t] s) (simp_all add: list_all_iff)
      then show ?thesis
        using begin_iter_at [OF t] False by (simp del: msg_content.simps)
    qed
  qed
qed

end

end
