(* ===== verification/PbFrame.thy ===== *)
theory PbFrame
  imports PbWire PbSafe
begin

text \<open>
  The content of a struct depends on its own bytes only, field by field: the lemmas that let one field
  be decoded while the others keep their content. Messages are plain here, without unions and without
  required fields, as all messages of proto3 without \<open>oneof\<close> are.
\<close>

unbundle bit_operations_syntax

section \<open>Memory that agrees\<close>

definition agree :: "nat \<Rightarrow> nat \<Rightarrow> mem \<Rightarrow> mem \<Rightarrow> bool" where
  "agree a n m m' \<longleftrightarrow> (\<forall>x. a \<le> x \<and> x < a + n \<longrightarrow> m x = m' x)"

lemma agree_refl [simp]: "agree a n m m"
  by (simp add: agree_def)

lemma agree_sym: "agree a n m m' \<Longrightarrow> agree a n m' m"
  by (simp add: agree_def)

lemma agree_mono: "agree a n m m' \<Longrightarrow> a \<le> b \<Longrightarrow> b + k \<le> a + n \<Longrightarrow> agree b k m m'"
  by (auto simp: agree_def)

lemma agree_load: "agree a n m m' \<Longrightarrow> k \<le> n \<Longrightarrow> load_bytes m a k = load_bytes m' a k"
  by (rule load_bytes_cong) (auto simp: agree_def)

lemma agree_words:
  "agree a n m m' \<Longrightarrow> 2 \<le> n \<Longrightarrow> load16 m a = load16 m' a"
  "agree a n m m' \<Longrightarrow> 4 \<le> n \<Longrightarrow> load32 m a = load32 m' a"
  "agree a n m m' \<Longrightarrow> 8 \<le> n \<Longrightarrow> load64 m a = load64 m' a"
  "agree a n m m' \<Longrightarrow> 1 \<le> n \<Longrightarrow> m a = m' a"
  by (auto simp: load16_def load32_def load64_def agree_load) (auto simp: agree_def)

lemma agree_loads:
  assumes "agree a n m m'" "unat sz \<le> n"
  shows "load_signed m a sz = load_signed m' a sz" "load_unsigned m a sz = load_unsigned m' a sz"
  using assms agree_words [OF assms(1)] by (auto simp: load_signed_def load_unsigned_def)

lemma agree_c_str: "agree a n m m' \<Longrightarrow> k \<le> n \<Longrightarrow> c_str m a k = c_str m' a k"
  by (simp add: c_str_def agree_load)

lemma confined_agree: "confined a n pm pm' \<Longrightarrow> b + k \<le> a \<or> a + n \<le> b \<Longrightarrow> agree b k (pm_bytes pm) (pm_bytes pm')"
  by (auto simp: agree_def confined_def)

section \<open>Plain messages\<close>

definition plain_field :: "pb_field \<Rightarrow> bool" where
  "plain_field f \<longleftrightarrow>
     pf_tag f < 2 ^ 29 \<and> (htype f = PB_HTYPE_OPTIONAL \<or> htype f = PB_HTYPE_REPEATED) \<and>
     (pf_size_offset f = 0 \<longrightarrow> htype f = PB_HTYPE_OPTIONAL \<and> pf_ptr f = 0 \<and>
        ltype f \<noteq> PB_LTYPE_SUBMESSAGE \<and> ltype f \<noteq> PB_LTYPE_FIXED_LENGTH_BYTES) \<and>
     (ltype f \<le> PB_LTYPE_SVARINT \<longrightarrow> pf_data_size f \<in> {1, 2, 4, 8}) \<and>
     (ltype f = PB_LTYPE_FIXED32 \<longrightarrow> pf_data_size f = 4) \<and>
     (ltype f = PB_LTYPE_FIXED64 \<longrightarrow> pf_data_size f = 8) \<and>
     (ltype f = PB_LTYPE_BYTES \<longrightarrow> 4 \<le> unat (pf_data_size f)) \<and>
     (ltype f = PB_LTYPE_STRING \<longrightarrow> 1 \<le> unat (pf_data_size f))"

text \<open>The bytes of a field: its data, and its flag or count.\<close>

definition aux_len :: "pb_field \<Rightarrow> nat" where
  "aux_len f = (if pf_size_offset f = 0 then 0 else if htype f = PB_HTYPE_REPEATED then 4 else 1)"

definition regions :: "pb_field list \<Rightarrow> nat \<Rightarrow> nat \<Rightarrow> (nat \<times> nat) list" where
  "regions fs a k =
     [(field_data fs a k, field_span (fs ! k)),
      (size_addr (field_data fs a k) (fs ! k), aux_len (fs ! k))]"

definition apart :: "nat \<times> nat \<Rightarrow> nat \<times> nat \<Rightarrow> bool" where
  "apart r s \<longleftrightarrow> fst r + snd r \<le> fst s \<or> fst s + snd s \<le> fst r"

definition separate :: "pb_field list \<Rightarrow> bool" where
  "separate fs \<longleftrightarrow>
     list_all (\<lambda>k. apart (regions fs 0 k ! 0) (regions fs 0 k ! 1) \<and>
       list_all (\<lambda>j. list_all (\<lambda>r. list_all (apart r) (regions fs 0 k)) (regions fs 0 j)) [0..<k])
       [0..<length fs]"

primrec plain_msg :: "(nat \<Rightarrow> pb_field list) \<Rightarrow> nat \<Rightarrow> pb_field list \<Rightarrow> bool" where
  "plain_msg D 0 fs \<longleftrightarrow> False"
| "plain_msg D (Suc n) fs \<longleftrightarrow>
     list_all plain_field fs \<and> separate fs \<and>
     list_all (\<lambda>f. ltype f = PB_LTYPE_SUBMESSAGE \<longrightarrow> plain_msg D n (D (pf_ptr f))) fs"

lemma apart_sym: "apart r s \<Longrightarrow> apart s r"
  by (auto simp: apart_def)

section \<open>Items and fields\<close>

text \<open>\<open>F\<close> and \<open>C\<close> give the well-formedness and the content of submessages in a memory.\<close>

definition local_msg :: "(mem \<Rightarrow> pb_field list \<Rightarrow> nat \<Rightarrow> bool) \<Rightarrow> (mem \<Rightarrow> pb_field list \<Rightarrow> nat \<Rightarrow> (u32 \<times> wire) list) \<Rightarrow>
    pb_field list \<Rightarrow> nat \<Rightarrow> bool" where
  "local_msg F C fs sz \<longleftrightarrow>
     (\<forall>m m' p. agree p sz m m' \<longrightarrow> F m fs p \<longrightarrow> F m' fs p \<and> C m fs p = C m' fs p)"

lemma static_ltypes:
  assumes "ltype f \<le> PB_LTYPE_SUBMESSAGE \<or> ltype f = PB_LTYPE_FIXED_LENGTH_BYTES"
  obtains (varint) "ltype f = PB_LTYPE_VARINT" | (uvarint) "ltype f = PB_LTYPE_UVARINT"
    | (svarint) "ltype f = PB_LTYPE_SVARINT" | (fixed32) "ltype f = PB_LTYPE_FIXED32"
    | (fixed64) "ltype f = PB_LTYPE_FIXED64" | (bytes) "ltype f = PB_LTYPE_BYTES"
    | (string) "ltype f = PB_LTYPE_STRING" | (submessage) "ltype f = PB_LTYPE_SUBMESSAGE"
    | (fixed_bytes) "ltype f = PB_LTYPE_FIXED_LENGTH_BYTES"
  using ltype_small [of "ltype f"] assms by blast

lemma item_local:
  assumes "agree p (unat (pf_data_size f)) m m'" "item_fits (F m) D m f p" "plain_field f"
    "ltype f \<le> PB_LTYPE_SUBMESSAGE \<or> ltype f = PB_LTYPE_FIXED_LENGTH_BYTES"
    "ltype f = PB_LTYPE_SUBMESSAGE \<Longrightarrow> local_msg F C (D (pf_ptr f)) (unat (pf_data_size f))"
  shows "item_fits (F m') D m' f p \<and> item_wire (C m) D m f p = item_wire (C m') D m' f p"
proof -
  note w = agree_words [OF assms(1)] and l = agree_loads [OF assms(1) order_refl]
  note pf = assms(3) [unfolded plain_field_def] and fit = assms(2) [unfolded item_fits_def]
  from assms(4) show ?thesis
  proof (cases rule: static_ltypes)
    case bytes
    then have n: "unat (load32 m p) + 4 \<le> unat (pf_data_size f)" and eq: "load32 m p = load32 m' p"
      using fit pf w(2) by simp_all
    have "agree (p + 4) (unat (load32 m p)) m m'" using n by (intro agree_mono [OF assms(1)]) simp_all
    then show ?thesis using bytes fit eq agree_load by (simp add: item_fits_def item_wire_def)
  next
    case string
    then show ?thesis using fit agree_c_str [OF assms(1) order_refl] by (simp add: item_fits_def item_wire_def)
  next
    case submessage
    then show ?thesis
      using fit assms(5) assms(1) by (simp add: item_fits_def item_wire_def local_msg_def)
  qed (use fit pf l w(2,3) agree_load [OF assms(1) order_refl] in
      \<open>simp_all add: item_fits_def item_wire_def scalar_wire_def\<close>)
qed

lemma default_local:
  assumes "agree p (unat (pf_data_size f)) m m'" "plain_field f"
  shows "default_value m f p = default_value m' f p"
  using assms(2) agree_words [OF assms(1)] agree_load [OF assms(1) order_refl]
  by (simp add: default_value_def plain_field_def)

lemma item_agree:
  assumes "agree a (field_span f) m m'" "htype f = PB_HTYPE_REPEATED" "atype f = PB_ATYPE_STATIC"
    "i < unat (pf_array_size f)"
  shows "agree (item_addr f a i) (unat (pf_data_size f)) m m'"
proof (rule agree_mono [OF assms(1)])
  have "(i + 1) * unat (pf_data_size f) \<le> unat (pf_array_size f) * unat (pf_data_size f)"
    using assms(4) by (intro mult_le_mono1) simp
  then show "item_addr f a i + unat (pf_data_size f) \<le> a + field_span f"
    using assms(2,3) by (simp add: item_addr_def field_span_def mult.commute)
qed (simp add: item_addr_def)

lemma field_local:
  assumes "agree a (field_span f) m m'" "agree c (aux_len f) m m'" "field_fits (F m) D m f a c" "plain_field f"
    "ltype f = PB_LTYPE_SUBMESSAGE \<Longrightarrow> local_msg F C (D (pf_ptr f)) (unat (pf_data_size f))"
  shows "field_fits (F m') D m' f a c \<and> field_records (C m) D m f a c = field_records (C m') D m' f a c"
proof -
  note ff = assms(3) [unfolded field_fits_def] and pf = assms(4) [unfolded plain_field_def]
  have st: "atype f = PB_ATYPE_STATIC" "ltype f \<le> PB_LTYPE_SUBMESSAGE \<or> ltype f = PB_LTYPE_FIXED_LENGTH_BYTES"
    using ff by simp_all
  show ?thesis
  proof (cases "htype f = PB_HTYPE_REPEATED")
    case True
    have cnt: "item_count m f c = item_count m' f c"
      using agree_words(2) [OF assms(2)] True by (simp add: item_count_def aux_len_def)
    have it: "item_fits (F m') D m' f (item_addr f a i) \<and>
        item_wire (C m) D m f (item_addr f a i) = item_wire (C m') D m' f (item_addr f a i)"
      if "i < item_count m f c" for i
    proof (rule item_local [where F = F and C = C and D = D and m = m and m' = m', OF _ _ assms(4) st(2) assms(5)])
      show "agree (item_addr f a i) (unat (pf_data_size f)) m m'"
        using that ff True by (intro item_agree [OF assms(1) True st(1)]) simp
    qed (use that ff True in \<open>simp_all add: list_all_iff\<close>)
    have eq: "map (\<lambda>i. item_wire (C m) D m f (item_addr f a i)) [0..<item_count m f c] =
        map (\<lambda>i. item_wire (C m') D m' f (item_addr f a i)) [0..<item_count m' f c]"
      using it unfolding cnt [symmetric] by (intro map_cong) simp_all
    have "field_fits (F m') D m' f a c"
      using True ff it unfolding cnt by (simp add: field_fits_def list_all_iff)
    then show ?thesis using True eq by (simp only: field_records_def simp_thms if_True)
  next
    case False
    then have h: "htype f = PB_HTYPE_OPTIONAL" using pf by simp
    have d: "agree a (unat (pf_data_size f)) m m'" using assms(1) st(1) False by (simp add: field_span_def)
    have pr: "present m f a c = present m' f a c"
      using agree_words(4) [OF assms(2)] default_local [OF d assms(4)] h
      by (simp add: present_def aux_len_def)
    have "item_fits (F m') D m' f a \<and> item_wire (C m) D m f a = item_wire (C m') D m' f a"
      if "present m f a c"
      using that ff False by (intro item_local [where F = F and C = C and D = D and m = m and m' = m', OF d _ assms(4) st(2) assms(5)]) simp_all
    then show ?thesis
      using False pr ff by (simp add: field_fits_def field_records_def)
  qed
qed

section \<open>Messages\<close>

lemma msg_regions_inside:
  assumes "msg_ok D d fs sz" "k < length fs" "plain_field (fs ! k)"
  shows "a \<le> field_data fs a k" "field_data fs a k + field_span (fs ! k) \<le> a + sz"
    "a \<le> size_addr (field_data fs a k) (fs ! k)"
    "size_addr (field_data fs a k) (fs ! k) + aux_len (fs ! k) \<le> a + sz"
proof -
  show "a \<le> field_data fs a k" "field_data fs a k + field_span (fs ! k) \<le> a + sz"
    using msg_data_inside [OF assms(1,2)] by simp_all
  have c: "size_addr (field_data fs a k) (fs ! k) = a + size_addr (field_data fs 0 k) (fs ! k)"
    using msg_okD(3) [OF assms(1,2)] size_addr_shift [of "field_data fs 0 k" "fs ! k" a]
    by (simp add: field_ok_def Let_def field_data_shift [of fs a])
  have s: "field_size fs 0 k = size_addr (field_data fs 0 k) (fs ! k)"
    using assms(2,3) by (cases k) (auto simp: in_union_def plain_field_def)
  show "a \<le> size_addr (field_data fs a k) (fs ! k)" using c by simp
  have ok: "0 \<le> int (field_data fs 0 k) + sint (pf_size_offset (fs ! k))"
    "htype (fs ! k) = PB_HTYPE_OPTIONAL \<Longrightarrow> field_size fs 0 k \<noteq> field_data fs 0 k \<Longrightarrow> field_size fs 0 k + 1 \<le> sz"
    "htype (fs ! k) = PB_HTYPE_REPEATED \<Longrightarrow> field_size fs 0 k + 4 \<le> sz"
    using msg_okD(3) [OF assms(1,2)] by (simp_all add: field_ok_def Let_def)
  have "size_addr (field_data fs 0 k) (fs ! k) + aux_len (fs ! k) \<le> sz"
  proof (cases "pf_size_offset (fs ! k) = 0")
    case True
    then show ?thesis
      using msg_data_inside [OF assms(1,2), of 0] by (simp add: aux_len_def size_addr_def)
  next
    case False
    then have "sint (pf_size_offset (fs ! k)) \<noteq> 0" by (simp add: signed_eq_0_iff)
    then have ne: "field_size fs 0 k \<noteq> field_data fs 0 k"
      using ok(1) unfolding s by (simp add: size_addr_def)
    have "htype (fs ! k) = PB_HTYPE_OPTIONAL \<or> htype (fs ! k) = PB_HTYPE_REPEATED"
      using assms(3) by (simp add: plain_field_def)
    then show ?thesis
      using ok(2,3) ne unfolding s [symmetric] by (auto simp: aux_len_def)
  qed
  then show "size_addr (field_data fs a k) (fs ! k) + aux_len (fs ! k) \<le> a + sz" using c by simp
qed

lemma plain_msgD:
  assumes "plain_msg D n fs" "k < length fs"
  shows "plain_field (fs ! k)"
  using assms by (cases n) (simp_all add: list_all_length)

lemma plain_msg_sub:
  "plain_msg D (Suc n) fs \<Longrightarrow> k < length fs \<Longrightarrow> ltype (fs ! k) = PB_LTYPE_SUBMESSAGE \<Longrightarrow>
   plain_msg D n (D (pf_ptr (fs ! k)))"
  by (simp add: list_all_length)

lemma message_local:
  assumes "msg_ok D d fs sz" "plain_msg D n fs"
  shows "local_msg (\<lambda>m. msg_fits D m n) (\<lambda>m. msg_content D m n) fs sz"
  using assms
proof (induction n arbitrary: d fs sz)
  case (Suc n)
  show ?case
    unfolding local_msg_def
  proof (intro allI impI)
    fix m m' p
    assume ag: "agree p sz m m'" and fit: "msg_fits D m (Suc n) fs p"
    have field: "field_fits (msg_fits D m' n) D m' (fs ! k) (field_data fs p k) (size_addr (field_data fs p k) (fs ! k)) \<and>
        field_records (msg_content D m n) D m (fs ! k) (field_data fs p k) (size_addr (field_data fs p k) (fs ! k)) =
        field_records (msg_content D m' n) D m' (fs ! k) (field_data fs p k) (size_addr (field_data fs p k) (fs ! k))"
      if k: "k < length fs" for k
    proof -
      note pf = plain_msgD [OF Suc.prems(2) k] and r = msg_regions_inside [OF Suc.prems(1) k]
      have sub: "local_msg (\<lambda>m. msg_fits D m n) (\<lambda>m. msg_content D m n) (D (pf_ptr (fs ! k))) (unat (pf_data_size (fs ! k)))"
        if "ltype (fs ! k) = PB_LTYPE_SUBMESSAGE"
        using Suc.IH [OF msg_ok_sub_same(2) [OF Suc.prems(1) k that] plain_msg_sub [OF Suc.prems(2) k that]] .
      show ?thesis
        using fit k r [OF pf, of p] sub
        by (intro field_local [where F = "\<lambda>m. msg_fits D m n" and C = "\<lambda>m. msg_content D m n"]
            agree_mono [OF ag] pf) (simp_all add: list_all_iff)
    qed
    then show "msg_fits D m' (Suc n) fs p \<and> msg_content D m (Suc n) fs p = msg_content D m' (Suc n) fs p"
      using fit by (auto simp: list_all_iff intro!: arg_cong [where f = concat] map_cong)
  qed
qed simp

section \<open>Where the fields lie\<close>

lemma plain_field_size:
  assumes "k < length fs" "plain_field (fs ! k)"
  shows "field_size fs a k = size_addr (field_data fs a k) (fs ! k)"
  using assms by (cases k) (auto simp: in_union_def plain_field_def)

lemma msg_offset:
  assumes "msg_ok D d fs sz" "k < length fs"
  shows "0 \<le> int (field_data fs a k) + sint (pf_size_offset (fs ! k))"
  using msg_okD(3) [OF assms] by (simp add: field_ok_def Let_def field_data_shift [of fs a])

lemma aux_differs:
  assumes "msg_ok D d fs sz" "k < length fs"
  shows "size_addr (field_data fs a k) (fs ! k) = field_data fs a k \<longleftrightarrow> pf_size_offset (fs ! k) = 0"
proof -
  have "sint (pf_size_offset (fs ! k)) = 0 \<longleftrightarrow> pf_size_offset (fs ! k) = 0" by (rule signed_eq_0_iff)
  then show ?thesis using msg_offset [OF assms, of a] by (simp add: size_addr_def) linarith
qed

lemma regions_shift:
  assumes "msg_ok D d fs sz" "k < length fs"
  shows "regions fs a k = map (\<lambda>r. (a + fst r, snd r)) (regions fs 0 k)"
  using msg_okD(3) [OF assms] size_addr_shift [of "field_data fs 0 k" "fs ! k" a]
  by (simp add: regions_def field_data_shift [of fs a] field_ok_def Let_def)

lemma apart_shift: "apart (a + x, n) (a + y, k) \<longleftrightarrow> apart (x, n) (y, k)"
  by (simp add: apart_def add.assoc)

lemma regions_apart:
  assumes "msg_ok D d fs sz" "separate fs" "j < length fs" "k < length fs" "j \<noteq> k"
    "r \<in> set (regions fs a j)" "s \<in> set (regions fs a k)"
  shows "apart r s"
proof -
  obtain r' s' where rs: "r' \<in> set (regions fs 0 j)" "r = (a + fst r', snd r')"
    "s' \<in> set (regions fs 0 k)" "s = (a + fst s', snd s')"
    using assms(6,7) regions_shift [OF assms(1,3), of a] regions_shift [OF assms(1,4), of a] by auto
  have "apart r' s'"
  proof (cases "j < k")
    case True
    then show ?thesis using assms(2,4) rs(1,3) by (simp add: separate_def list_all_iff)
  next
    case False
    then have "k < j" using assms(5) by simp
    then have "apart s' r'" using assms(2,3) rs(1,3) by (simp add: separate_def list_all_iff)
    then show ?thesis by (rule apart_sym)
  qed
  then show ?thesis using rs(2,4) by (simp add: apart_shift)
qed

lemma own_apart:
  assumes "msg_ok D d fs sz" "separate fs" "k < length fs"
  shows "apart (field_data fs a k, field_span (fs ! k)) (size_addr (field_data fs a k) (fs ! k), aux_len (fs ! k))"
proof -
  have "apart (regions fs 0 k ! 0) (regions fs 0 k ! 1)" using assms(2,3) by (simp add: separate_def list_all_iff)
  then show ?thesis
    using regions_shift [OF assms(1,3), of a] by (auto simp: regions_def apart_shift)
qed

text \<open>A change of field \<open>k\<close> leaves the other fields alone.\<close>

definition only_field :: "pb_field list \<Rightarrow> nat \<Rightarrow> nat \<Rightarrow> pb_mem \<Rightarrow> pb_mem \<Rightarrow> bool" where
  "only_field fs a k pm pm' \<longleftrightarrow>
     pm_blocks pm' = pm_blocks pm \<and>
     (\<forall>x. (\<forall>r\<in>set (regions fs a k). x < fst r \<or> fst r + snd r \<le> x) \<longrightarrow> pm_bytes pm' x = pm_bytes pm x)"

lemma only_field_refl [simp]: "only_field fs a k pm pm"
  by (simp add: only_field_def)

lemma only_field_trans: "only_field fs a k pm pm1 \<Longrightarrow> only_field fs a k pm1 pm2 \<Longrightarrow> only_field fs a k pm pm2"
  by (simp add: only_field_def)

lemma only_field_data: "confined (field_data fs a k) (field_span (fs ! k)) pm pm' \<Longrightarrow> only_field fs a k pm pm'"
  by (auto simp: only_field_def confined_def regions_def)

lemma only_field_aux:
  "confined (size_addr (field_data fs a k) (fs ! k)) (aux_len (fs ! k)) pm pm' \<Longrightarrow> only_field fs a k pm pm'"
  by (auto simp: only_field_def confined_def regions_def)

lemma only_field_fixed [simp]: "only_field fs a k pm (pm'\<lparr>pm_fixed := w\<rparr>) \<longleftrightarrow> only_field fs a k pm pm'"
  by (simp add: only_field_def)

lemma only_field_other:
  assumes "only_field fs a k pm pm'" "msg_ok D d fs sz" "separate fs" "j < length fs" "k < length fs" "j \<noteq> k"
  shows "agree (field_data fs a j) (field_span (fs ! j)) (pm_bytes pm) (pm_bytes pm')"
    "agree (size_addr (field_data fs a j) (fs ! j)) (aux_len (fs ! j)) (pm_bytes pm) (pm_bytes pm')"
proof -
  have "agree (fst r) (snd r) (pm_bytes pm) (pm_bytes pm')" if "r \<in> set (regions fs a j)" for r
    unfolding agree_def
  proof (intro allI impI)
    fix x assume x: "fst r \<le> x \<and> x < fst r + snd r"
    have "x < fst s \<or> fst s + snd s \<le> x" if "s \<in> set (regions fs a k)" for s
      using regions_apart [OF assms(2-6) \<open>r \<in> _\<close> that] x by (auto simp: apart_def)
    then show "pm_bytes pm x = pm_bytes pm' x" using assms(1) by (simp add: only_field_def)
  qed
  from this [of "(field_data fs a j, field_span (fs ! j))"]
    this [of "(size_addr (field_data fs a j) (fs ! j), aux_len (fs ! j))"]
  show "agree (field_data fs a j) (field_span (fs ! j)) (pm_bytes pm) (pm_bytes pm')"
    "agree (size_addr (field_data fs a j) (fs ! j)) (aux_len (fs ! j)) (pm_bytes pm) (pm_bytes pm')"
    by (simp_all add: regions_def)
qed

lemma only_field_confined:
  assumes "only_field fs a k pm pm'" "msg_ok D d fs sz" "k < length fs" "plain_field (fs ! k)"
  shows "confined a sz pm pm'"
  using assms(1) msg_regions_inside [OF assms(2-4), of a]
  by (auto simp: only_field_def confined_def regions_def)

section \<open>Blank messages\<close>

text \<open>No field is present: flags and counts are zero, and so are the values without a flag.\<close>

definition blank_field :: "(pb_field list \<Rightarrow> nat \<Rightarrow> bool) \<Rightarrow> (nat \<Rightarrow> pb_field list) \<Rightarrow> mem \<Rightarrow> pb_field \<Rightarrow> nat \<Rightarrow> nat \<Rightarrow> bool" where
  "blank_field B D m f a c \<longleftrightarrow>
     (if htype f = PB_HTYPE_REPEATED then load32 m c = 0
      else if pf_size_offset f \<noteq> 0 then m c = 0 \<and> (ltype f = PB_LTYPE_SUBMESSAGE \<longrightarrow> B (D (pf_ptr f)) a)
      else default_value m f a)"

primrec blank :: "(nat \<Rightarrow> pb_field list) \<Rightarrow> mem \<Rightarrow> nat \<Rightarrow> pb_field list \<Rightarrow> nat \<Rightarrow> bool" where
  "blank D m 0 fs a \<longleftrightarrow> True"
| "blank D m (Suc n) fs a \<longleftrightarrow>
     list_all (\<lambda>k. blank_field (blank D m n) D m (fs ! k) (field_data fs a k)
       (size_addr (field_data fs a k) (fs ! k))) [0..<length fs]"

lemma blank_field_local:
  assumes "agree a (field_span f) m m'" "agree c (aux_len f) m m'" "plain_field f" "atype f = PB_ATYPE_STATIC"
    and "\<And>fs. ltype f = PB_LTYPE_SUBMESSAGE \<Longrightarrow> fs = D (pf_ptr f) \<Longrightarrow> htype f = PB_HTYPE_OPTIONAL \<Longrightarrow> B m fs a \<Longrightarrow> B m' fs a"
    and "blank_field (B m) D m f a c"
  shows "blank_field (B m') D m' f a c"
proof (cases "htype f = PB_HTYPE_REPEATED")
  case True
  then have "aux_len f = 4" using assms(3) by (simp add: plain_field_def aux_len_def)
  then show ?thesis using True assms(6) agree_words(2) [OF assms(2)] by (simp add: blank_field_def)
next
  case False
  then have "htype f = PB_HTYPE_OPTIONAL" using assms(3) by (simp add: plain_field_def)
  moreover have "agree a (unat (pf_data_size f)) m m'"
    using assms(1,4) False by (simp add: field_span_def)
  ultimately show ?thesis
    using assms(5,6) agree_words(4) [OF assms(2)] default_local [OF _ assms(3), of a m m']
    by (auto simp: blank_field_def aux_len_def)
qed

lemma blank_local:
  assumes "msg_ok D d fs sz" "plain_msg D n fs" "agree p sz m m'" "blank D m n fs p"
  shows "blank D m' n fs p"
  using assms
proof (induction n arbitrary: d fs sz p)
  case (Suc n)
  have "blank_field (blank D m' n) D m' (fs ! k) (field_data fs p k) (size_addr (field_data fs p k) (fs ! k))"
    if k: "k < length fs" for k
  proof (rule blank_field_local [where B = "\<lambda>m. blank D m n" and m = m])
    note pf = plain_msgD [OF Suc.prems(2) k] and st = msg_static [OF Suc.prems(1) k]
    note r = msg_regions_inside [OF Suc.prems(1) k pf, of p]
    show "agree (field_data fs p k) (field_span (fs ! k)) m m'"
      "agree (size_addr (field_data fs p k) (fs ! k)) (aux_len (fs ! k)) m m'"
      using r by (auto intro: agree_mono [OF Suc.prems(3)])
    show "plain_field (fs ! k)" "atype (fs ! k) = PB_ATYPE_STATIC" using pf st(1) by simp_all
    show "blank_field (blank D m n) D m (fs ! k) (field_data fs p k) (size_addr (field_data fs p k) (fs ! k))"
      using Suc.prems(4) k by (simp add: list_all_iff)
    fix fs' assume sub: "ltype (fs ! k) = PB_LTYPE_SUBMESSAGE" "fs' = D (pf_ptr (fs ! k))"
      "htype (fs ! k) = PB_HTYPE_OPTIONAL" "blank D m n fs' (field_data fs p k)"
    have "agree (field_data fs p k) (unat (pf_data_size (fs ! k))) m m'"
      using \<open>agree (field_data fs p k) (field_span (fs ! k)) m m'\<close> sub(3) st(1) by (simp add: field_span_def)
    then show "blank D m' n fs' (field_data fs p k)"
      using Suc.IH [OF msg_ok_sub_same(2) [OF Suc.prems(1) k sub(1)] plain_msg_sub [OF Suc.prems(2) k sub(1)]] sub(2,4)
      by simp
  qed
  then show ?case by (simp add: list_all_iff)
qed simp

lemma blank_field_empty:
  assumes "blank_field B D m f a c" "plain_field f" "atype f = PB_ATYPE_STATIC"
    "ltype f \<le> PB_LTYPE_SUBMESSAGE \<or> ltype f = PB_LTYPE_FIXED_LENGTH_BYTES"
  shows "field_records C D m f a c = [] \<and> field_fits F D m f a c"
  using assms
  by (auto simp: blank_field_def field_records_def field_fits_def plain_field_def item_count_def present_def
      array_records_def)

section \<open>Default values\<close>

abbreviation (input) blank_at :: "(nat \<Rightarrow> pb_field list) \<Rightarrow> mem \<Rightarrow> nat \<Rightarrow> pb_field list \<Rightarrow> nat \<Rightarrow> nat \<Rightarrow> bool" where
  "blank_at D m n fs a k \<equiv>
     blank_field (blank D m n) D m (fs ! k) (field_data fs a k) (size_addr (field_data fs a k) (fs ! k))"

lemma blank_at_other:
  assumes "msg_ok D d fs sz" "plain_msg D (Suc n) fs" "only_field fs a k pm pm'" "j < length fs" "k < length fs" "j \<noteq> k"
    "blank_at D (pm_bytes pm) n fs a j"
  shows "blank_at D (pm_bytes pm') n fs a j"
proof -
  have sep: "separate fs" using assms(2) by simp
  note ag = only_field_other [OF assms(3,1) sep assms(4-6)]
  note pf = plain_msgD [OF assms(2,4)] and st = msg_static [OF assms(1,4)]
  show ?thesis
  proof (rule blank_field_local [where B = "\<lambda>m. blank D m n", OF ag pf st(1) _ assms(7)])
    fix fs' assume sub: "ltype (fs ! j) = PB_LTYPE_SUBMESSAGE" "fs' = D (pf_ptr (fs ! j))"
      "htype (fs ! j) = PB_HTYPE_OPTIONAL" "blank D (pm_bytes pm) n fs' (field_data fs a j)"
    have "agree (field_data fs a j) (unat (pf_data_size (fs ! j))) (pm_bytes pm) (pm_bytes pm')"
      using ag(1) st(1) sub(3) by (simp add: field_span_def)
    then show "blank D (pm_bytes pm') n fs' (field_data fs a j)"
      using blank_local [OF msg_ok_sub_same(2) [OF assms(1,4) sub(1)] plain_msg_sub [OF assms(2,4) sub(1)]] sub(2,4)
      by simp
  qed
qed

lemma load_zero [simp]: "load32 (put_bytes m a (le_bytes 4 w)) a = w"
  by (simp add: load32_def load_put_same le_word_le_bytes)

lemma default_zeros:
  assumes "plain_field f" "pf_size_offset f = 0"
  shows "default_value (put_bytes m a (replicate (unat (pf_data_size f)) 0)) f a"
proof -
  let ?m = "put_bytes m a (replicate (unat (pf_data_size f)) 0)"
  have z: "load_bytes ?m a (unat (pf_data_size f)) = replicate (unat (pf_data_size f)) 0"
    by (simp add: load_put_same)
  then have "load_bytes ?m a 4 = replicate 4 0" if "4 \<le> unat (pf_data_size f)"
    using that load_bytes_add [of ?m a 4 "unat (pf_data_size f) - 4"]
    by (metis append_eq_conv_conj le_add_diff_inverse length_load_bytes take_replicate min_absorb1)
  moreover have "le_word (replicate 4 0) = (0 :: u32)" by (simp add: numeral_eq_Suc)
  ultimately have "ltype f = PB_LTYPE_BYTES \<Longrightarrow> load32 ?m a = 0"
    using assms(1) by (simp add: plain_field_def load32_def)
  moreover have "ltype f = PB_LTYPE_STRING \<Longrightarrow> ?m a = 0"
    using assms(1) by (simp add: plain_field_def put_bytes_def)
  ultimately show ?thesis
    using z assms by (simp add: default_value_def plain_field_def list_all_iff)
qed


lemma defaults_blank:
  "msg_ok (de_descs E) d fs sz \<Longrightarrow> plain_msg (de_descs E) n fs \<Longrightarrow>
   \<exists>pm'. pb_message_set_to_defaults E d fs a pm = Some pm' \<and> blank (de_descs E) (pm_bytes pm') n fs a"
proof (induction d arbitrary: fs sz n a pm)
  case (Suc d)
  let ?D = "de_descs E"
  obtain n' where n: "n = Suc n'" using Suc.prems(2) by (cases n) simp_all
  note ok = Suc.prems(1) and pl = Suc.prems(2) [unfolded n]
  have sep: "separate fs" using pl by simp
  have step: "\<exists>pm'. pb_field_set_to_default E (Suc d) (iter_at fs a k) pm0 = Some pm' \<and>
      only_field fs a k pm0 pm' \<and> blank_at ?D (pm_bytes pm') n' fs a k"
    if k: "k < length fs" for k pm0
  proof -
    note pf = plain_msgD [OF pl k] and st = msg_static [OF ok k]
    let ?f = "fs ! k" and ?a = "field_data fs a k" and ?c = "size_addr (field_data fs a k) (fs ! k)"
    have size: "fi_size (iter_at fs a k) = SizeAt ?c" by (simp add: plain_field_size [OF k pf])
    have h: "htype ?f = PB_HTYPE_OPTIONAL \<or> htype ?f = PB_HTYPE_REPEATED" using pf by (simp add: plain_field_def)
    show ?thesis
    proof (cases "htype ?f = PB_HTYPE_REPEATED")
      case True
      then have "aux_len ?f = 4" using pf by (simp add: plain_field_def aux_len_def)
      then have "only_field fs a k pm0 (size_put pm0 (SizeAt ?c) 0)"
        by (intro only_field_aux) (simp add: size_put_def confined_put)
      then show ?thesis
        using True st(1,2) size k
        by (simp add: Let_def blank_field_def size_put_def pm_put_def)
    next
      case False
      then have opt: "htype ?f = PB_HTYPE_OPTIONAL" using h by simp
      let ?pm1 = "if SizeAt ?c \<noteq> SizeAt ?a then has_put pm0 (SizeAt ?c) False else pm0"
      have aux: "?c \<noteq> ?a \<longleftrightarrow> pf_size_offset ?f \<noteq> 0" using aux_differs [OF ok k] by simp
      have o1: "only_field fs a k pm0 ?pm1"
        using aux opt by (auto intro!: only_field_aux confined_has_put simp: size_inside_def aux_len_def)
      have z: "pf_size_offset ?f \<noteq> 0 \<Longrightarrow> pm_bytes ?pm1 ?c = 0"
        using aux by (simp add: has_put_def pm_put_def put_bytes_def)
      have span: "field_span ?f = unat (pf_data_size ?f)" using st(1) opt by (simp add: field_span_def)
      obtain pm2 where pm2: "(if ltype ?f = PB_LTYPE_SUBMESSAGE
            then message_defaults (pb_field_set_to_default E d) (?D (pf_ptr ?f)) ?a ?pm1
            else if pf_ptr ?f \<noteq> 0
              then Some (pm_put ?pm1 ?a (load_bytes (pm_bytes ?pm1) (pf_ptr ?f) (unat (pf_data_size ?f))))
            else Some (pm_put ?pm1 ?a (replicate (unat (pf_data_size ?f)) 0))) = Some pm2"
          "confined ?a (field_span ?f) ?pm1 pm2"
          "ltype ?f = PB_LTYPE_SUBMESSAGE \<Longrightarrow> blank ?D (pm_bytes pm2) n' (?D (pf_ptr ?f)) ?a"
          "pf_size_offset ?f = 0 \<Longrightarrow> default_value (pm_bytes pm2) ?f ?a"
      proof (cases "ltype ?f = PB_LTYPE_SUBMESSAGE")
        case True
        note sub = msg_ok_sub [OF ok k True]
        obtain q where q: "pb_message_set_to_defaults E d (?D (pf_ptr ?f)) ?a ?pm1 = Some q"
          "blank ?D (pm_bytes q) n' (?D (pf_ptr ?f)) ?a"
          using Suc.IH sub plain_msg_sub [OF pl k True] by blast
        moreover have "confined ?a (field_span ?f) ?pm1 q"
          using defaults_confined [OF conjunct2 [OF sub], of ?a ?pm1] q(1) span by auto
        moreover have "pf_size_offset ?f \<noteq> 0" using True pf by (auto simp: plain_field_def)
        ultimately show ?thesis using that [of q] True by (simp add: pb_message_set_to_defaults_def)
      next
        case False
        show ?thesis
        proof (cases "pf_ptr ?f = 0")
          case True
          then show ?thesis
            using that [of "pm_put ?pm1 ?a (replicate (unat (pf_data_size ?f)) 0)"] False span
              default_zeros [OF pf]
            by (simp add: confined_put) (simp add: pm_put_def)
        next
          case ptr: False
          then have "pf_size_offset ?f \<noteq> 0" using pf by (auto simp: plain_field_def)
          then show ?thesis
            using that [of "pm_put ?pm1 ?a (load_bytes (pm_bytes ?pm1) (pf_ptr ?f) (unat (pf_data_size ?f)))"]
              False ptr span by (simp add: confined_put)
        qed
      qed
      have "only_field fs a k pm0 pm2" using o1 only_field_data [OF pm2(2)] by (rule only_field_trans)
      moreover have "pf_size_offset ?f \<noteq> 0 \<Longrightarrow> pm_bytes pm2 ?c = 0"
      proof -
        assume s: "pf_size_offset ?f \<noteq> 0"
        have "agree ?c 1 (pm_bytes ?pm1) (pm_bytes pm2)"
          using own_apart [OF ok sep k, of a] s opt
          by (intro confined_agree [OF pm2(2)]) (auto simp: apart_def aux_len_def)
        then show ?thesis using z [OF s] by (simp add: agree_def)
      qed
      ultimately show ?thesis
        using pm2(1,3,4) st(1,2) k opt size aux
        by (auto simp: Let_def blank_field_def)
    qed
  qed
  let ?P = "\<lambda>k pm. \<forall>j<k. j < length fs \<longrightarrow> blank_at ?D (pm_bytes pm) n' fs a j"
  have "\<exists>pm'. message_defaults (pb_field_set_to_default E (Suc d)) fs a pm = Some pm' \<and> ?P (length fs) pm'"
  proof (rule message_defaults_inv [where P = ?P, OF msg_okD(1) [OF ok]])
    fix k and pm0 :: pb_mem assume k: "k < length fs" and P: "?P k pm0"
    obtain pm' where pm': "pb_field_set_to_default E (Suc d) (iter_at fs a k) pm0 = Some pm'"
      "only_field fs a k pm0 pm'" "blank_at ?D (pm_bytes pm') n' fs a k" using step [OF k] by blast
    have "blank_at ?D (pm_bytes pm') n' fs a j" if "j < Suc k" "j < length fs" for j
    proof (cases "j = k")
      case False
      then have "blank_at ?D (pm_bytes pm0) n' fs a j" using P that by simp
      then show ?thesis using blank_at_other [OF ok pl pm'(2) that(2) k False] by simp
    qed (use pm'(3) in simp)
    then show "\<exists>pm'. pb_field_set_to_default E (Suc d) (iter_at fs a k) pm0 = Some pm' \<and> ?P (Suc k) pm'"
      using pm'(1) by blast
  qed simp
  then show ?case unfolding n pb_message_set_to_defaults_def by (auto simp: list_all_iff)
qed simp

end
