(* ===== verification/PbRound.thy ===== *)
theory PbRound
  imports PbFrame
begin

text \<open>
  \<open>pb_decode\<close> gives back what \<open>pb_encode\<close> wrote, for plain messages: the decoder restores the content of
  a message from its wire format, whatever the memory held before.
\<close>

unbundle bit_operations_syntax

section \<open>Bytes of words\<close>

lemma le_bytes_nth: "i < n \<Longrightarrow> le_bytes n w ! i = ucast (drop_bit (8 * i) w)"
proof (induction n arbitrary: i w)
  case (Suc n)
  then show ?case by (cases i) (simp_all add: drop_bit_drop_bit add.commute)
qed simp

lemma le_bytes_ucast:
  fixes v :: "'a::len word"
  assumes "8 * n \<le> LENGTH('b::len)"
  shows "le_bytes n (ucast v :: 'b word) = le_bytes n v"
proof (rule nth_equalityI)
  fix i assume "i < length (le_bytes n (ucast v :: 'b word))"
  then have i: "i < n" by simp
  then have "8 * i + 8 \<le> LENGTH('b)" using assms by linarith
  then have "ucast (drop_bit (8 * i) (ucast v :: 'b word)) = (ucast (drop_bit (8 * i) v) :: u8)"
    by (intro bit_word_eqI) (auto simp: bit_simps dest: bit_imp_le_length)
  then show "le_bytes n (ucast v :: 'b word) ! i = le_bytes n v ! i" using i by (simp add: le_bytes_nth)
qed simp

lemma load_put_words:
  "load16 (put_bytes m p (le_bytes 2 v)) p = ucast v"
  "load32 (put_bytes m p (le_bytes 4 v)) p = ucast v"
  "load64 (put_bytes m p (le_bytes 8 v)) p = ucast v"
  "put_bytes m p (le_bytes 1 v) p = ucast v"
proof -
  show "load16 (put_bytes m p (le_bytes 2 v)) p = ucast v"
    by (subst le_bytes_ucast [where 'b = 16, symmetric]) (simp_all add: load16_def load_put_same le_word_le_bytes)
  show "load32 (put_bytes m p (le_bytes 4 v)) p = ucast v"
    by (subst le_bytes_ucast [where 'b = 32, symmetric]) (simp_all add: load32_def load_put_same le_word_le_bytes)
  show "load64 (put_bytes m p (le_bytes 8 v)) p = ucast v"
    by (subst le_bytes_ucast [where 'b = 64, symmetric]) (simp_all add: load64_def load_put_same le_word_le_bytes)
  show "put_bytes m p (le_bytes 1 v) p = ucast v" by (simp add: put_bytes_def)
qed

text \<open>Sign-extended values.\<close>

lemma extend_shrink:
  "ucast (scast (w :: u32) :: u64) = w" "ucast (scast (x :: u16) :: u64) = x" "ucast (scast (y :: u8) :: u64) = y"
  "ucast (ucast (w :: u32) :: u64) = w" "ucast (ucast (x :: u16) :: u64) = x" "ucast (ucast (y :: u8) :: u64) = y"
  by (intro bit_word_eqI; auto simp: bit_simps)+

lemma extend_via_32:
  "scast (ucast (scast (w :: u32) :: u64) :: u32) = (scast w :: u64)"
  "scast (ucast (scast (x :: u16) :: u64) :: u32) = (scast x :: u64)"
  "scast (ucast (scast (y :: u8) :: u64) :: u32) = (scast y :: u64)"
  by (intro bit_word_eqI; auto simp: bit_simps min_def)+

text \<open>What the stores of the decoders put in memory is what the encoders load.\<close>

lemma load_signed_cases:
  assumes "sz \<in> {1, 2, 4, 8}" "load_signed m a sz = Some v"
  obtains (s1) b where "sz = 1" "v = scast (b :: u8)" | (s2) h where "sz = 2" "v = scast (h :: u16)"
    | (s4) w where "sz = 4" "v = scast (w :: u32)" | (s8) "sz = 8"
  using assms by (auto simp: load_signed_def)

lemma signed_via_32:
  assumes "sz \<in> {1, 2, 4, 8}" "load_signed m a sz = Some v"
  shows "(if sz = 8 then v else scast (ucast v :: u32)) = v"
  using assms by (cases rule: load_signed_cases) (simp_all add: extend_via_32)

lemma put_byte_same [simp]: "put_bytes m p [b] p = b"
  by (simp add: put_bytes_def)

lemma store_load_signed:
  assumes "sz \<in> {1, 2, 4, 8}" "load_signed m a sz = Some v"
  shows "\<exists>m'. store_signed m0 p sz v = Some (v, m') \<and> load_signed m' p sz = Some v"
  using assms
  by (cases rule: load_signed_cases)
    (simp_all add: extend_shrink store_signed_def load_signed_def load_put_words)

lemma store_load_unsigned:
  assumes "sz \<in> {1, 2, 4, 8}" "load_unsigned m a sz = Some v"
  shows "\<exists>m'. store_unsigned m0 p sz v = Some (v, m') \<and> load_unsigned m' p sz = Some v"
proof -
  from assms consider (u1) b where "sz = 1" "v = ucast (b :: u8)" | (u2) h where "sz = 2" "v = ucast (h :: u16)"
    | (u4) w where "sz = 4" "v = ucast (w :: u32)" | (u8) "sz = 8"
    by (auto simp: load_unsigned_def)
  then show ?thesis
    by cases (simp_all add: extend_shrink store_unsigned_def load_unsigned_def load_put_words)
qed

text \<open>Values with their length.\<close>

lemma delimited_payload:
  assumes "length bs < 2 ^ 32"
  shows "payload (Delimited bs) = varint_bytes (ucast (of_nat (length bs) :: u32)) @ bs"
    "unat (of_nat (length bs) :: u32) = length bs"
proof -
  show n: "unat (of_nat (length bs) :: u32) = length bs" using assms by (intro unat_of_nat_small) simp
  have "ucast (of_nat (length bs) :: u32) = (of_nat (length bs) :: u64)"
    using n unat_of_nat_small [of "length bs", where 'a = 64] assms
    by (simp add: word_unat_eq_iff unat_ucast_up)
  then show "payload (Delimited bs) = varint_bytes (ucast (of_nat (length bs) :: u32)) @ bs" by simp
qed

context pb_source
begin

section \<open>Substreams\<close>

lemma substream_reads:
  assumes "is_callback s = cb" "content s = varint_bytes (ucast (n :: u32)) @ bs @ rest" "unat n = length bs"
  shows "\<exists>sub t. pb_make_string_substream s = (True, sub, t) \<and> is_callback sub = cb \<and> content sub = bs \<and>
    unat (is_bytes_left sub) < unat (is_bytes_left s) \<and>
    (\<forall>sub'. reads sub bs sub' \<longrightarrow> (\<exists>sub'' s'. pb_close_string_substream t sub' = (True, sub'', s') \<and>
       reads s (varint_bytes (ucast n) @ bs) s'))"
proof -
  from varint32_reads [OF assms(1,2)] obtain t where
    t: "pb_decode_varint32 s = (True, n, t)" "reads s (varint_bytes (ucast n)) t" by blast
  have c: "content t = bs @ rest" using reads_content [OF t(2) assms(2)] .
  then have left: "unat (is_bytes_left t) = length bs + length rest"
    by (metis length_append length_content)
  have n: "unat (ucast n :: u64) = length bs" using assms(3) by (simp add: unat_ucast_up)
  then have le: "(ucast n :: u64) \<le> is_bytes_left t" using left by (simp add: word_le_nat_alt)
  let ?sub = "t\<lparr>is_bytes_left := ucast n\<rparr>" and ?t = "t\<lparr>is_bytes_left := is_bytes_left t - ucast n\<rparr>"
  have m: "pb_make_string_substream s = (True, ?sub, ?t)"
    using t(1) le by (simp add: pb_make_string_substream_def Let_def not_less)
  have "content ?sub = take (length bs) (content t)"
    using left n by (simp add: content_def take_map)
  then have sub: "content ?sub = bs" using c by simp
  have rest: "unat (is_bytes_left t - ucast n) = length rest"
    using le left n by (simp add: unat_sub)
  have drop: "map (\<lambda>i. peek (is_state t) (length bs + i)) [0..<length rest] = rest"
  proof (rule nth_equalityI)
    fix i assume "i < length (map (\<lambda>i. peek (is_state t) (length bs + i)) [0..<length rest])"
    then have i: "i < length rest" by simp
    have "content t ! (length bs + i) = peek (is_state t) (length bs + i)"
      using i left by (simp add: content_def)
    then show "map (\<lambda>i. peek (is_state t) (length bs + i)) [0..<length rest] ! i = rest ! i"
      using i c by simp
  qed simp
  have close: "\<exists>sub'' s'. pb_close_string_substream ?t sub' = (True, sub'', s') \<and>
      reads s (varint_bytes (ucast n) @ bs) s'" if r: "reads ?sub bs sub'" for sub'
  proof -
    have "content sub' = []" using r sub by (simp add: reads_def)
    then have "is_bytes_left sub' = 0" by (metis length_content list.size(3) unat_eq_zero)
    then have cl: "pb_close_string_substream ?t sub' =
        (True, sub', ?t\<lparr>is_state := is_state sub', is_errmsg := is_errmsg sub'\<rparr>)"
      by (simp add: pb_close_string_substream_def)
    let ?s' = "?t\<lparr>is_state := is_state sub', is_errmsg := is_errmsg sub'\<rparr>"
    have pk: "peek (is_state sub') i = peek (is_state t) (length bs + i)" for i
      using r by (simp add: reads_def)
    have "map (peek (is_state sub')) [0..<length rest] = rest"
      by (subst (2) drop [symmetric]) (intro map_cong refl pk)
    then have "content ?s' = rest" using rest by (simp add: content_def)
    then have "reads t bs ?s'"
      using r t(2) c by (simp add: reads_def pk)
    then show ?thesis using cl reads_trans [OF t(2)] by blast
  qed
  have "length (content s) = length (varint_bytes (ucast n)) + length bs + length rest"
    using assms(2) by simp
  then have "unat (is_bytes_left ?sub) < unat (is_bytes_left s)"
    using n varint_bytes_length_bounds [of "ucast n"] by simp
  then show ?thesis using m sub close reads_callback [OF t(2)] by auto
qed

section \<open>Numbers\<close>

lemma packable_restores:
  assumes "is_callback s = cb" "content s = payload (scalar_wire m f a) @ rest" "plain_field f"
    "ltype f \<le> PB_LTYPE_LAST_PACKABLE"
  shows "\<exists>s' pm'. pb_dec_packable (ltype f) s f pm p = (True, s', pm') \<and>
    reads s (payload (scalar_wire m f a)) s' \<and> scalar_wire (pm_bytes pm') f p = scalar_wire m f a"
proof -
  note pf = assms(3) [unfolded plain_field_def]
  consider (varint) "ltype f = PB_LTYPE_VARINT" | (uvarint) "ltype f = PB_LTYPE_UVARINT"
    | (svarint) "ltype f = PB_LTYPE_SVARINT" | (fixed32) "ltype f = PB_LTYPE_FIXED32"
    | (fixed64) "ltype f = PB_LTYPE_FIXED64"
    using ltype_small(1,2) [of "ltype f"] assms(4) by blast
  then show ?thesis
  proof cases
    case varint
    then have sz: "pf_data_size f \<in> {1, 2, 4, 8}" using pf by simp
    obtain v where v: "load_signed m a (pf_data_size f) = Some v" using load_some(1) [OF sz] by blast
    then have w: "scalar_wire m f a = Varint v" using varint by (simp add: scalar_wire_def)
    obtain s' where s': "pb_decode_varint s = (True, v, s')" "reads s (varint_bytes v) s'"
      using varint_reads [OF assms(1)] assms(2) by (auto simp: w)
    obtain m' where m': "store_signed (pm_bytes pm) p (pf_data_size f) v = Some (v, m')"
      "load_signed m' p (pf_data_size f) = Some v" using store_load_signed [OF sz v] by blast
    show ?thesis
      using s' m' varint signed_via_32 [OF sz v]
      by (simp add: pb_dec_packable_def pb_dec_varint_def Let_def w) (simp add: scalar_wire_def)
  next
    case uvarint
    then have sz: "pf_data_size f \<in> {1, 2, 4, 8}" using pf by simp
    obtain v where v: "load_unsigned m a (pf_data_size f) = Some v" using load_some(2) [OF sz] by blast
    then have w: "scalar_wire m f a = Varint v" using uvarint by (simp add: scalar_wire_def)
    obtain s' where s': "pb_decode_varint s = (True, v, s')" "reads s (varint_bytes v) s'"
      using varint_reads [OF assms(1)] assms(2) by (auto simp: w)
    obtain m' where m': "store_unsigned (pm_bytes pm) p (pf_data_size f) v = Some (v, m')"
      "load_unsigned m' p (pf_data_size f) = Some v" using store_load_unsigned [OF sz v] by blast
    show ?thesis
      using s' m' uvarint
      by (simp add: pb_dec_packable_def pb_dec_uvarint_def Let_def w) (simp add: scalar_wire_def)
  next
    case svarint
    then have sz: "pf_data_size f \<in> {1, 2, 4, 8}" using pf by simp
    obtain v where v: "load_signed m a (pf_data_size f) = Some v" using load_some(1) [OF sz] by blast
    then have w: "scalar_wire m f a = Varint (zigzag v)" using svarint by (simp add: scalar_wire_def)
    obtain s' where s': "pb_decode_svarint s = (True, v, s')" "reads s (varint_bytes (zigzag v)) s'"
      using svarint_reads [OF assms(1), of v rest] assms(2) by (auto simp: w zigzag_def)
    obtain m' where m': "store_signed (pm_bytes pm) p (pf_data_size f) v = Some (v, m')"
      "load_signed m' p (pf_data_size f) = Some v" using store_load_signed [OF sz v] by blast
    show ?thesis
      using s' m' svarint
      by (simp add: pb_dec_packable_def pb_dec_svarint_def Let_def w) (simp add: scalar_wire_def)
  next
    case fixed32
    then have w: "scalar_wire m f a = Fixed32 (load32 m a)" by (simp add: scalar_wire_def)
    obtain s' where s': "pb_decode_fixed32 s = (True, load32 m a, s')" "reads s (le_bytes 4 (load32 m a)) s'"
      using fixed32_reads [OF assms(1), of "load32 m a" rest] assms(2) unfolding fixed_bytes by (auto simp: w)
    show ?thesis
      using s' fixed32
      by (simp add: pb_dec_packable_def pb_dec_fixed32_def w) (simp add: scalar_wire_def)
  next
    case fixed64
    then have w: "scalar_wire m f a = Fixed64 (load64 m a)" by (simp add: scalar_wire_def)
    obtain s' where s': "pb_decode_fixed64 s = (True, load64 m a, s')" "reads s (le_bytes 8 (load64 m a)) s'"
      using fixed64_reads [OF assms(1), of "load64 m a" rest] assms(2) unfolding fixed_bytes by (auto simp: w)
    show ?thesis
      using s' fixed64
      by (simp add: pb_dec_packable_def pb_dec_fixed64_def w) (simp add: scalar_wire_def load_put_words)
  qed
qed

section \<open>Items\<close>

text \<open>What the decoder of submessages promises.\<close>

definition restores :: "(nat \<Rightarrow> pb_field list) \<Rightarrow> nat \<Rightarrow> nat \<Rightarrow> 's msg_decoder \<Rightarrow> bool" where
  "restores D d b noinit \<longleftrightarrow>
     (\<forall>n (s :: 's pb_istream) fs pm p sz m a.
        is_callback s = cb \<longrightarrow> unat (is_bytes_left s) < b \<longrightarrow> unat (is_bytes_left s) < 2 ^ 32 \<longrightarrow>
        msg_ok D d fs sz \<longrightarrow> plain_msg D n fs \<longrightarrow> msg_fits D m n fs a \<longrightarrow>
        content s = message_bytes (msg_content D m n fs a) \<longrightarrow> blank D (pm_bytes pm) n fs p \<longrightarrow> p \<noteq> 0 \<longrightarrow>
        (\<exists>s' pm'. noinit s fs pm p = Some (True, s', pm') \<and> reads s (content s) s' \<and>
           msg_fits D (pm_bytes pm') n fs p \<and>
           msg_content D (pm_bytes pm') n fs p = msg_content D m n fs a))"

lemma restoresD:
  assumes "restores D d b noinit" "is_callback s = cb" "unat (is_bytes_left s) < b" "unat (is_bytes_left s) < 2 ^ 32"
    "msg_ok D d fs sz" "plain_msg D n fs" "msg_fits D m n fs a"
    "content s = message_bytes (msg_content D m n fs a)" "blank D (pm_bytes pm) n fs p" "p \<noteq> 0"
  shows "\<exists>s' pm'. noinit s fs pm p = Some (True, s', pm') \<and> reads s (content s) s' \<and>
    msg_fits D (pm_bytes pm') n fs p \<and> msg_content D (pm_bytes pm') n fs p = msg_content D m n fs a"
  using assms unfolding restores_def by blast

text \<open>A value with its length, and the rest of the bytes.\<close>

lemma delimited_reads:
  assumes "is_callback s = cb" "content s = payload (Delimited bs) @ rest" "length bs < 2 ^ 32"
  obtains t s' where
    "pb_decode_varint32 s = (True, of_nat (length bs), t)" "is_callback t = cb"
    "pb_read t True (ucast (of_nat (length bs) :: u32)) = (True, bs, s')"
    "reads s (payload (Delimited bs)) s'" "bs = [] \<Longrightarrow> reads s (payload (Delimited bs)) t"
proof -
  note p = delimited_payload [OF assms(3)]
  have c: "content s = varint_bytes (ucast (of_nat (length bs) :: u32)) @ bs @ rest"
    using assms(2) unfolding p(1) by simp
  from varint32_reads [OF assms(1) c] obtain t where
    t: "pb_decode_varint32 s = (True, of_nat (length bs), t)"
      "reads s (varint_bytes (ucast (of_nat (length bs) :: u32))) t" by blast
  have "unat (ucast (of_nat (length bs) :: u32) :: u64) = length bs" using p(2) by (simp add: unat_ucast_up)
  from read_exact [OF reads_callback [OF t(2)] reads_content [OF t(2) c] this, of True]
  obtain u where u: "pb_read t True (ucast (of_nat (length bs) :: u32)) = (True, bs, u)" "reads t bs u" by auto
  have "reads s (payload (Delimited bs)) u" unfolding p(1) by (rule reads_trans [OF t(2) u(2)])
  moreover have "reads s (payload (Delimited bs)) t" if "bs = []" using t(2) that unfolding p(1) by simp
  ultimately show thesis using that t(1) reads_callback [OF t(2)] u(1) by blast
qed

lemma bytes_restores:
  assumes "is_callback s = cb" "content s = payload (Delimited bs) @ rest" "atype f = PB_ATYPE_STATIC"
    "length bs + 4 \<le> unat (pf_data_size f)"
  shows "\<exists>s' pm'. pb_dec_bytes E s f pm p = Some (True, s', pm') \<and> reads s (payload (Delimited bs)) s' \<and>
    unat (load32 (pm_bytes pm') p) = length bs \<and> load_bytes (pm_bytes pm') (p + 4) (length bs) = bs"
proof -
  have lim: "length bs < 2 ^ 32" using assms(4) unat_u32_less [of "pf_data_size f"] by simp
  from assms(1,2) lim obtain t s' where r: "pb_decode_varint32 s = (True, of_nat (length bs), t)"
    "pb_read t True (ucast (of_nat (length bs) :: u32)) = (True, bs, s')" "reads s (payload (Delimited bs)) s'"
    by (rule delimited_reads)
  let ?n = "of_nat (length bs) :: u32" and ?a = "ucast (of_nat (length bs) :: u32) + 4 :: u64"
  have n: "unat ?n = length bs" using lim by (rule delimited_payload)
  have "unat ?a = unat (ucast ?n :: u64) + unat (4 :: u64)"
    using unat_u32_less [of ?n] by (intro unat_add_no_overflow) (simp add: unat_ucast_up)
  then have a: "unat ?a = length bs + 4" using n by (simp add: unat_ucast_up)
  have "\<not> ucast ?n > ?a" "\<not> ?a > ucast (pf_data_size f)"
    using a n assms(4) by (simp_all add: word_less_nat_alt unat_ucast_up)
  then have "pb_dec_bytes E s f pm p =
      Some (True, s', pm_put (pm_put pm p (le_bytes 4 ?n)) (p + 4) bs)"
    using r assms(3) by (simp add: pb_dec_bytes_def Let_def)
  moreover have "load32 (pm_bytes (pm_put (pm_put pm p (le_bytes 4 ?n)) (p + 4) bs)) p = ?n"
    using load_put_other [of "p + 4" bs p 4] by (simp add: pm_put_def load32_def load_put_same le_word_le_bytes)
  ultimately show ?thesis
    using r(3) n by (simp add: pm_put_def load_put_same)
qed

lemma string_restores:
  assumes "is_callback s = cb" "content s = payload (Delimited bs) @ rest" "atype f = PB_ATYPE_STATIC"
    "length bs < unat (pf_data_size f)" "0 \<notin> set bs"
  shows "\<exists>s' pm'. pb_dec_string E s f pm p = Some (True, s', pm') \<and> reads s (payload (Delimited bs)) s' \<and>
    c_str (pm_bytes pm') p (unat (pf_data_size f)) = bs"
proof -
  have lim: "length bs + 1 < 2 ^ 32" using assms(4) unat_u32_less [of "pf_data_size f"] by simp
  then have lim': "length bs < 2 ^ 32" by simp
  from assms(1,2) lim' obtain t s' where r: "pb_decode_varint32 s = (True, of_nat (length bs), t)"
    "pb_read t True (ucast (of_nat (length bs) :: u32)) = (True, bs, s')" "reads s (payload (Delimited bs)) s'"
    by (rule delimited_reads)
  let ?n = "of_nat (length bs) :: u32"
  have n: "unat ?n = length bs" using lim' by (rule delimited_payload)
  have "unat (?n + 1) = unat ?n + unat (1 :: u32)" using n lim by (intro unat_add_no_overflow) simp
  then have n1: "unat (?n + 1) = length bs + 1" using n by simp
  have "\<not> (ucast (?n + 1) :: u64) < ucast ?n" "\<not> (ucast (?n + 1) :: u64) > ucast (pf_data_size f)"
    using n1 n assms(4) by (simp_all add: word_less_nat_alt unat_ucast_up del: of_nat_Suc)
  then have dec: "pb_dec_string E s f pm p =
      Some (True, s', pm_put (pm_put pm p bs) (p + length bs) [0])"
    using r n assms(3) by (simp add: pb_dec_string_def Let_def)
  let ?m = "pm_bytes (pm_put (pm_put pm p bs) (p + length bs) [0])"
  have "load_bytes ?m p (length bs) = bs"
    using load_put_other [of "p + length bs" "[0]" p "length bs"] by (simp add: pm_put_def load_put_same)
  moreover have "load_bytes ?m (p + length bs) (unat (pf_data_size f) - length bs) =
      0 # load_bytes ?m (p + length bs + 1) (unat (pf_data_size f) - length bs - 1)"
  proof -
    have "unat (pf_data_size f) - length bs = Suc (unat (pf_data_size f) - length bs - 1)"
      using assms(4) by simp
    moreover have "?m (p + length bs) = 0" by (simp add: pm_put_def)
    ultimately show ?thesis by (metis load_bytes_Suc)
  qed
  ultimately have "load_bytes ?m p (unat (pf_data_size f)) =
      bs @ 0 # load_bytes ?m (p + length bs + 1) (unat (pf_data_size f) - length bs - 1)"
    using load_bytes_add [of ?m p "length bs" "unat (pf_data_size f) - length bs"] assms(4) by simp
  moreover have "\<forall>b\<in>set bs. b \<noteq> 0" using assms(5) by auto
  ultimately have "c_str ?m p (unat (pf_data_size f)) = bs" by (simp add: c_str_def takeWhile_append2)
  then show ?thesis using dec r(3) by auto
qed

lemma fixed_length_restores:
  assumes "is_callback s = cb" "content s = payload (Delimited bs) @ rest" "length bs = unat (pf_data_size f)"
  shows "\<exists>s' pm'. pb_dec_fixed_length_bytes s f pm p = (True, s', pm') \<and> reads s (payload (Delimited bs)) s' \<and>
    load_bytes (pm_bytes pm') p (unat (pf_data_size f)) = bs"
proof -
  have lim: "length bs < 2 ^ 32" using assms(3) unat_u32_less [of "pf_data_size f"] by simp
  from assms(1,2) lim obtain t s' where r: "pb_decode_varint32 s = (True, of_nat (length bs), t)"
    "pb_read t True (ucast (of_nat (length bs) :: u32)) = (True, bs, s')" "reads s (payload (Delimited bs)) s'"
    "bs = [] \<Longrightarrow> reads s (payload (Delimited bs)) t"
    by (rule delimited_reads) blast
  have n: "of_nat (length bs) = pf_data_size f" by (simp add: assms(3))
  show ?thesis
  proof (cases "bs = []")
    case True
    then show ?thesis
      using r(1) r(4) n assms(3) by (simp add: pb_dec_fixed_length_bytes_def pm_put_def load_bytes_def)
  next
    case False
    then have "pf_data_size f \<noteq> 0" using assms(3) by auto
    then show ?thesis
      using r(1-3) unfolding n by (simp add: pb_dec_fixed_length_bytes_def pm_put_def load_put_same assms(3))
  qed
qed

lemma submessage_restores:
  assumes dec: "restores (de_descs E) d b noinit" and s: "is_callback s = cb" "unat (is_bytes_left s) \<le> b"
    and c: "content s = payload (Delimited (message_bytes (msg_content (de_descs E) m n fs a))) @ rest"
    and lim: "length (message_bytes (msg_content (de_descs E) m n fs a)) < 2 ^ 32"
    and f: "pf_ptr f \<noteq> 0" "de_descs E (pf_ptr f) = fs" "msg_ok (de_descs E) d fs sz" "plain_msg (de_descs E) n fs"
    and a: "msg_fits (de_descs E) m n fs a" "p \<noteq> 0"
    and blank: "htype f \<noteq> PB_HTYPE_REPEATED \<Longrightarrow> blank (de_descs E) (pm_bytes pm) n fs p"
  shows "\<exists>s' pm'. pb_dec_submessage E d noinit s f pm p = Some (True, s', pm') \<and>
    reads s (payload (Delimited (message_bytes (msg_content (de_descs E) m n fs a)))) s' \<and>
    msg_fits (de_descs E) (pm_bytes pm') n fs p \<and>
    msg_content (de_descs E) (pm_bytes pm') n fs p = msg_content (de_descs E) m n fs a"
proof -
  let ?bs = "message_bytes (msg_content (de_descs E) m n fs a)"
  note pl = delimited_payload [OF lim]
  have "content s = varint_bytes (ucast (of_nat (length ?bs) :: u32)) @ ?bs @ rest" using c unfolding pl(1) by simp
  from substream_reads [OF s(1) this pl(2)] obtain sub t where
    sub: "pb_make_string_substream s = (True, sub, t)" "is_callback sub = cb" "content sub = ?bs"
      "unat (is_bytes_left sub) < unat (is_bytes_left s)" and
    close: "\<And>sub'. reads sub ?bs sub' \<Longrightarrow> \<exists>sub'' s'. pb_close_string_substream t sub' = (True, sub'', s') \<and>
      reads s (payload (Delimited ?bs)) s'"
    unfolding pl(1) by blast
  have "length (content sub) < 2 ^ 32" using lim sub(3) by simp
  then have left: "unat (is_bytes_left sub) < b" "unat (is_bytes_left sub) < 2 ^ 32" using sub(4) s(2) by simp_all
  have run: "\<exists>sub' pm'. noinit sub fs pm1 p = Some (True, sub', pm') \<and> reads sub ?bs sub' \<and>
      msg_fits (de_descs E) (pm_bytes pm') n fs p \<and>
      msg_content (de_descs E) (pm_bytes pm') n fs p = msg_content (de_descs E) m n fs a"
    if "blank (de_descs E) (pm_bytes pm1) n fs p" for pm1
    using restoresD [OF dec sub(2) left f(3,4) a(1) sub(3) that a(2)] unfolding sub(3) .
  have "\<exists>sub' pm'. (if htype f = PB_HTYPE_REPEATED then decode_message E d noinit sub fs pm p
        else noinit sub fs pm p) = Some (True, sub', pm') \<and> reads sub ?bs sub' \<and>
      msg_fits (de_descs E) (pm_bytes pm') n fs p \<and>
      msg_content (de_descs E) (pm_bytes pm') n fs p = msg_content (de_descs E) m n fs a"
  proof (cases "htype f = PB_HTYPE_REPEATED")
    case True
    obtain pm1 where pm1: "pb_message_set_to_defaults E d fs p pm = Some pm1"
      "blank (de_descs E) (pm_bytes pm1) n fs p" using defaults_blank [OF f(3,4)] by blast
    then show ?thesis using run [OF pm1(2)] True by (auto simp: decode_message_def)
  next
    case False
    then show ?thesis using run [OF blank] by simp
  qed
  then obtain sub' pm' where r: "(if htype f = PB_HTYPE_REPEATED then decode_message E d noinit sub fs pm p
        else noinit sub fs pm p) = Some (True, sub', pm')" "reads sub ?bs sub'"
      "msg_fits (de_descs E) (pm_bytes pm') n fs p"
      "msg_content (de_descs E) (pm_bytes pm') n fs p = msg_content (de_descs E) m n fs a" by blast
  obtain sub'' s' where "pb_close_string_substream t sub' = (True, sub'', s')" "reads s (payload (Delimited ?bs)) s'"
    using close [OF r(2)] by blast
  moreover from this(1) have "pb_dec_submessage E d noinit s f pm p = Some (True, s', pm')"
    using sub(1) r(1) f(1,2) by (cases "htype f = PB_HTYPE_REPEATED") (simp_all add: pb_dec_submessage_def)
  ultimately show ?thesis using r(3,4) by blast
qed

text \<open>The table of decoders, at one item of a static field.\<close>

lemma item_restores:
  fixes E :: "'s dec_env" and fs :: "pb_field list" and k :: nat
  defines "D \<equiv> de_descs E" and "f \<equiv> fs ! k"
  assumes dec: "restores D d b noinit"
    and s: "is_callback s = cb" "unat (is_bytes_left s) \<le> b" "unat (is_bytes_left s) < 2 ^ 32"
    and c: "content s = payload (item_wire (msg_content D m n) D m f a) @ rest"
    and ok: "msg_ok D d fs sz" "plain_msg D (Suc n) fs" "k < length fs"
    and a: "item_fits (msg_fits D m n) D m f a" "p \<noteq> 0"
    and blank: "htype f \<noteq> PB_HTYPE_REPEATED \<Longrightarrow> ltype f = PB_LTYPE_SUBMESSAGE \<Longrightarrow>
      blank D (pm_bytes pm) n (D (pf_ptr f)) p"
  shows "\<exists>s' pm'. PB_DECODERS E d noinit (ltype f) s f pm p = Some (True, s', pm') \<and>
    reads s (payload (item_wire (msg_content D m n) D m f a)) s' \<and>
    item_fits (msg_fits D (pm_bytes pm') n) D (pm_bytes pm') f p \<and>
    item_wire (msg_content D (pm_bytes pm') n) D (pm_bytes pm') f p = item_wire (msg_content D m n) D m f a"
proof -
  note pf = plain_msgD [OF ok(2,3), folded f_def] and st = msg_static [OF ok(1,3), folded f_def]
  note fit = a(1) [unfolded item_fits_def]
  have big: "\<not> (5 :: u8) \<le> 4" "\<not> (6 :: u8) \<le> 4" "\<not> (7 :: u8) \<le> 4" "\<not> (9 :: u8) \<le> 4" by simp_all
  have packable: ?thesis if "ltype f \<le> PB_LTYPE_LAST_PACKABLE"
  proof -
    have w: "item_wire C D m' f a' = scalar_wire m' f a'" for C m' a' using that by (simp add: item_wire_def)
    from packable_restores [OF s(1) c [unfolded w] pf that, of pm p] that a(2)
    show ?thesis unfolding w by (auto simp: PB_DECODERS_def item_fits_def)
  qed
  from st(4) show ?thesis
  proof (cases rule: static_ltypes)
    case bytes
    let ?bs = "load_bytes m (a + 4) (unat (load32 m a))"
    have w: "item_wire (msg_content D m n) D m f a = Delimited ?bs" using bytes by (simp add: item_wire_def)
    have len: "length ?bs + 4 \<le> unat (pf_data_size f)" using fit bytes by simp
    obtain s' pm' where r: "pb_dec_bytes E s f pm p = Some (True, s', pm')" "reads s (payload (Delimited ?bs)) s'"
      "unat (load32 (pm_bytes pm') p) = length ?bs" "load_bytes (pm_bytes pm') (p + 4) (length ?bs) = ?bs"
      using bytes_restores [OF s(1) c [unfolded w] st(1) len] by blast
    have "item_wire (msg_content D (pm_bytes pm') n) D (pm_bytes pm') f p = Delimited ?bs"
      using bytes r(3,4) by (simp add: item_wire_def)
    then show ?thesis
      using r(1-3) w bytes a(2) len by (simp add: PB_DECODERS_def item_fits_def del: payload.simps)
  next
    case string
    let ?bs = "c_str m a (unat (pf_data_size f))"
    have w: "item_wire C D m' f a' = Delimited (c_str m' a' (unat (pf_data_size f)))" for C m' a'
      using string by (simp add: item_wire_def)
    have len: "length ?bs < unat (pf_data_size f)" using fit string by simp
    have nz: "0 \<notin> set ?bs" by (auto simp: c_str_def dest: set_takeWhileD)
    obtain s' pm' where r: "pb_dec_string E s f pm p = Some (True, s', pm')" "reads s (payload (Delimited ?bs)) s'"
      "c_str (pm_bytes pm') p (unat (pf_data_size f)) = ?bs"
      using string_restores [OF s(1) c [unfolded w] st(1) len nz] by blast
    then show ?thesis
      unfolding w using string a(2) len by (simp add: PB_DECODERS_def item_fits_def del: payload.simps)
  next
    case submessage
    let ?sub = "D (pf_ptr f)" and ?bs = "message_bytes (msg_content D m n (D (pf_ptr f)) a)"
    have w: "item_wire (C m') D m' f a' = Delimited (message_bytes (C m' ?sub a'))" for C m' a'
      using submessage by (simp add: item_wire_def)
    have "length ?bs \<le> length (content s)" using c w [of "\<lambda>m. msg_content D m n"] by simp
    then have lim: "length ?bs < 2 ^ 32" using s(3) by simp
    have fits: "pf_ptr f \<noteq> 0" "msg_fits D m n ?sub a" using fit submessage by simp_all
    have sub: "msg_ok D d ?sub (unat (pf_data_size f))" "plain_msg D n ?sub"
      using msg_ok_sub_same(2) [OF ok(1,3)] plain_msg_sub [OF ok(2,3)] submessage unfolding f_def by simp_all
    obtain s' pm' where r: "pb_dec_submessage E d noinit s f pm p = Some (True, s', pm')"
      "reads s (payload (Delimited ?bs)) s'" "msg_fits D (pm_bytes pm') n ?sub p"
      "msg_content D (pm_bytes pm') n ?sub p = msg_content D m n ?sub a"
      using submessage_restores [OF dec [unfolded D_def] s(1,2), of m n ?sub a rest f "unat (pf_data_size f)" p pm]
        c w [of "\<lambda>m. msg_content D m n" m a] lim fits sub a(2) blank submessage unfolding D_def by auto
    then show ?thesis
      using submessage w [of "\<lambda>m. msg_content D m n"] a(2) fits(1)
      by (simp add: PB_DECODERS_def item_fits_def del: payload.simps)
  next
    case fixed_bytes
    let ?bs = "load_bytes m a (unat (pf_data_size f))"
    have w: "item_wire C D m' f a' = Delimited (load_bytes m' a' (unat (pf_data_size f)))" for C m' a'
      using fixed_bytes by (simp add: item_wire_def)
    obtain s' pm' where r: "pb_dec_fixed_length_bytes s f pm p = (True, s', pm')" "reads s (payload (Delimited ?bs)) s'"
      "load_bytes (pm_bytes pm') p (unat (pf_data_size f)) = ?bs"
      using fixed_length_restores [OF s(1) c [unfolded w] length_load_bytes] by blast
    then show ?thesis
      unfolding w using fixed_bytes a(2) by (simp add: PB_DECODERS_def item_fits_def del: payload.simps)
  qed (use packable in simp_all)
qed

end

end
