(* ===== verification/PbRestore.thy ===== *)
theory PbRestore
  imports PbRound
begin

text \<open>
  Fields and messages, from the wire format back into memory: the loop over the input restores one field
  after the other and leaves those it has restored alone.
\<close>

unbundle bit_operations_syntax

section \<open>Values that are left out\<close>

lemma zeros_iff_word:
  assumes "8 * n = LENGTH('a::len)"
  shows "list_all (\<lambda>b. b = 0) (load_bytes m a n) \<longleftrightarrow> le_word (load_bytes m a n) = (0 :: 'a word)"
proof
  assume "le_word (load_bytes m a n) = (0 :: 'a word)"
  then have "load_bytes m a n = le_bytes n (0 :: 'a word)"
    using le_bytes_le_word [of "load_bytes m a n", where 'a = 'a] assms by simp
  moreover have "le_bytes n (0 :: 'a word) = replicate n 0" for n by (induction n) simp_all
  ultimately show "list_all (\<lambda>b. b = 0) (load_bytes m a n)" by (simp add: list_all_iff)
next
  assume "list_all (\<lambda>b. b = 0) (load_bytes m a n)"
  then have "load_bytes m a n = replicate n 0"
    by (intro nth_equalityI) (simp_all add: list_all_length)
  moreover have "le_word (replicate n 0) = (0 :: 'a word)" for n by (induction n) simp_all
  ultimately show "le_word (load_bytes m a n) = (0 :: 'a word)" by simp
qed

lemma zeros_words:
  "list_all (\<lambda>b. b = 0) (load_bytes m a 1) \<longleftrightarrow> m a = 0"
  "list_all (\<lambda>b. b = 0) (load_bytes m a 2) \<longleftrightarrow> load16 m a = 0"
  "list_all (\<lambda>b. b = 0) (load_bytes m a 4) \<longleftrightarrow> load32 m a = 0"
  "list_all (\<lambda>b. b = 0) (load_bytes m a 8) \<longleftrightarrow> load64 m a = 0"
  using zeros_iff_word [where 'a = 16 and n = 2] zeros_iff_word [where 'a = 32 and n = 4]
    zeros_iff_word [where 'a = 64 and n = 8]
  by (simp_all only: load16_def load32_def load64_def) (simp_all add: load_bytes_def)

lemma retract_zero: "f (g w) = w \<Longrightarrow> f 0 = 0 \<Longrightarrow> g 0 = 0 \<Longrightarrow> g w = 0 \<longleftrightarrow> w = 0"
  by auto

lemma extend_zero:
  "(scast (w :: u32) :: u64) = 0 \<longleftrightarrow> w = 0" "(scast (x :: u16) :: u64) = 0 \<longleftrightarrow> x = 0" "(scast (y :: u8) :: u64) = 0 \<longleftrightarrow> y = 0"
  "(ucast (w :: u32) :: u64) = 0 \<longleftrightarrow> w = 0" "(ucast (x :: u16) :: u64) = 0 \<longleftrightarrow> x = 0" "(ucast (y :: u8) :: u64) = 0 \<longleftrightarrow> y = 0"
  using retract_zero [where f = ucast and g = scast and w = w, OF extend_shrink(1)]
    retract_zero [where f = ucast and g = scast and w = x, OF extend_shrink(2)]
    retract_zero [where f = ucast and g = scast and w = y, OF extend_shrink(3)]
    retract_zero [where f = ucast and g = ucast and w = w, OF extend_shrink(4)]
    retract_zero [where f = ucast and g = ucast and w = x, OF extend_shrink(5)]
    retract_zero [where f = ucast and g = ucast and w = y, OF extend_shrink(6)]
  by simp_all

lemma loads_zero:
  assumes "sz \<in> {1, 2, 4, 8}"
  shows "the (load_signed m a sz) = 0 \<longleftrightarrow> list_all (\<lambda>b. b = 0) (load_bytes m a (unat sz))"
    "the (load_unsigned m a sz) = 0 \<longleftrightarrow> list_all (\<lambda>b. b = 0) (load_bytes m a (unat sz))"
  using assms by (auto simp: load_signed_def load_unsigned_def zeros_words extend_zero simp del: One_nat_def)

lemma zigzag_zero: "zigzag v = 0 \<longleftrightarrow> v = 0"
proof
  assume z: "zigzag v = 0"
  show "v = 0"
  proof (cases "sint v < 0")
    case True
    then have "NOT (push_bit 1 v) = 0" using z by (simp add: zigzag_def)
    then have "bit (NOT (push_bit 1 v)) 0 \<longleftrightarrow> bit (0 :: u64) 0" by simp
    then show ?thesis by (simp add: bit_simps bit_0)
  next
    case False
    then have p: "push_bit 1 v = 0" using z by (simp add: zigzag_def)
    have "\<not> bit v i" if "i < 64" for i
    proof (cases "i = 63")
      case True
      then show ?thesis using False bit_last_iff [of v] by simp
    next
      case F: False
      then have "bit (push_bit 1 v) (Suc i) \<longleftrightarrow> bit v i" using that by (simp only: bit_push_bit_iff) simp
      then show ?thesis using p by simp
    qed
    then show ?thesis by (intro bit_word_eqI) simp
  qed
qed (simp add: zigzag_def)

definition zero_wire :: "pb_field \<Rightarrow> wire" where
  "zero_wire f =
     (if ltype f = PB_LTYPE_FIXED32 then Fixed32 0 else if ltype f = PB_LTYPE_FIXED64 then Fixed64 0
      else if ltype f \<le> PB_LTYPE_LAST_PACKABLE then Varint 0 else Delimited [])"

lemma default_iff_zero:
  assumes "plain_field f" "pf_size_offset f = 0"
    "ltype f \<le> PB_LTYPE_SUBMESSAGE \<or> ltype f = PB_LTYPE_FIXED_LENGTH_BYTES"
  shows "default_value m f a \<longleftrightarrow> item_wire C D m f a = zero_wire f"
proof -
  note pf = assms(1,2) [unfolded plain_field_def]
  from assms(3) show ?thesis
  proof (cases rule: static_ltypes)
    case string
    then have "unat (pf_data_size f) = Suc (unat (pf_data_size f) - 1)" using pf by simp
    then have "load_bytes m a (unat (pf_data_size f)) = m a # load_bytes m (a + 1) (unat (pf_data_size f) - 1)"
      by (metis load_bytes_Suc)
    then show ?thesis using string by (simp add: default_value_def item_wire_def zero_wire_def c_str_def)
  next
    case bytes
    have "load_bytes m (a + 4) k = [] \<longleftrightarrow> k = 0" for k by (simp flip: length_0_conv)
    then show ?thesis using bytes by (simp add: default_value_def item_wire_def zero_wire_def unat_eq_zero)
  qed (use pf loads_zero [of "pf_data_size f" m a] in
    \<open>auto simp: default_value_def item_wire_def scalar_wire_def zero_wire_def zigzag_zero zeros_words\<close>)
qed

section \<open>No required fields\<close>

lemma plain_not_required: "plain_field f \<Longrightarrow> htype f \<noteq> PB_HTYPE_REQUIRED \<and> htype f \<noteq> PB_HTYPE_ONEOF"
  by (auto simp: plain_field_def)

lemma no_required_index:
  "list_all (\<lambda>f. htype f \<noteq> PB_HTYPE_REQUIRED) fs \<Longrightarrow> k \<le> length fs \<Longrightarrow> field_index fs k = 0"
  by (induction k) (simp_all add: list_all_length)

lemma last_field_count:
  assumes "tagged fs" "list_all (\<lambda>f. htype f \<noteq> PB_HTYPE_REQUIRED) fs" "k < length fs"
  shows "last_field_loop (iter_at fs a k) = (0, pf_type (fs ! (length fs - 1)), iter_at fs a 0)"
  using assms(3)
proof (induction "length fs - k" arbitrary: k)
  case (Suc j)
  note next_at = next_iter_at0 [OF assms(1) Suc.prems, of a]
  show ?case
  proof (cases "Suc k < length fs")
    case True
    then have "last_field_loop (iter_at fs a (Suc k)) = (0, pf_type (fs ! (length fs - 1)), iter_at fs a 0)"
      using Suc.hyps(1) [of "Suc k"] Suc.hyps(2) by simp
    then show ?thesis using next_at True by (subst last_field_loop.simps) simp
  next
    case False
    then have "length fs - 1 = k" using Suc.prems by simp
    then show ?thesis
      using next_at False Suc.prems no_required_index [OF assms(2), of k]
      by (subst last_field_loop.simps) simp
  qed
qed simp

lemma nothing_required:
  assumes "tagged fs" "list_all (\<lambda>f. htype f \<noteq> PB_HTYPE_REQUIRED) fs" "fs \<noteq> [] \<longrightarrow> k < length fs" "fs = [] \<longrightarrow> k = 0"
  shows "\<not> required_field_missing seen (iter_at fs a k)"
proof (cases "fs = []")
  case True
  have "last_field_loop (iter_at [] a 0) = (0, pf_type PB_LAST_FIELD, iter_at [] a 0)"
    by (subst last_field_loop.simps) (simp add: pb_field_iter_next_def)
  then show ?thesis using True assms(4) by (simp add: required_field_missing_def)
next
  case False
  then have "htype (fs ! (length fs - 1)) \<noteq> PB_HTYPE_REQUIRED" using assms(2) by (simp add: list_all_length)
  then show ?thesis
    using last_field_count [OF assms(1,2), of k a] assms(3) False
    by (simp add: required_field_missing_def)
qed

section \<open>Arrays\<close>

text \<open>The items of an array that have been restored, and their count.\<close>

definition item_done :: "(nat \<Rightarrow> pb_field list) \<Rightarrow> nat \<Rightarrow> pb_field \<Rightarrow> mem \<Rightarrow> nat \<Rightarrow> wire \<Rightarrow> bool" where
  "item_done D n f m p w \<longleftrightarrow>
     item_fits (msg_fits D m n) D m f p \<and> item_wire (msg_content D m n) D m f p = w"

definition array_done :: "(nat \<Rightarrow> pb_field list) \<Rightarrow> nat \<Rightarrow> pb_field \<Rightarrow> nat \<Rightarrow> nat \<Rightarrow> wire list \<Rightarrow> mem \<Rightarrow> bool" where
  "array_done D n f p c ws m \<longleftrightarrow>
     unat (load32 m c) = length ws \<and> (\<forall>j<length ws. item_done D n f m (item_addr f p j) (ws ! j))"

lemma item_done_local:
  assumes "msg_ok D d fs sz" "plain_msg D (Suc n) fs" "k < length fs"
    "agree p (unat (pf_data_size (fs ! k))) m m'" "item_done D n (fs ! k) m p w"
  shows "item_done D n (fs ! k) m' p w"
proof -
  have "local_msg (\<lambda>m. msg_fits D m n) (\<lambda>m. msg_content D m n) (D (pf_ptr (fs ! k))) (unat (pf_data_size (fs ! k)))"
    if "ltype (fs ! k) = PB_LTYPE_SUBMESSAGE"
    using message_local [OF msg_ok_sub_same(2) [OF assms(1,3) that] plain_msg_sub [OF assms(2,3) that]] .
  then show ?thesis
    using item_local [where F = "\<lambda>m. msg_fits D m n" and C = "\<lambda>m. msg_content D m n" and D = D,
        OF assms(4) _ plain_msgD [OF assms(2,3)] msg_static(4) [OF assms(1,3)]] assms(5)
    by (simp add: item_done_def)
qed

text \<open>Field \<open>k\<close> of the message at \<open>a\<close> is an array with a count.\<close>

lemma array_regions:
  fixes fs :: "pb_field list" and a k :: nat
  assumes "msg_ok D d fs sz" "separate fs" "k < length fs" "plain_field (fs ! k)" "htype (fs ! k) = PB_HTYPE_REPEATED"
    "i < unat (pf_array_size (fs ! k))"
  defines "p \<equiv> field_data fs a k" and "c \<equiv> size_addr (field_data fs a k) (fs ! k)" and "sz1 \<equiv> unat (pf_data_size (fs ! k))"
  shows "confined (item_addr (fs ! k) p i) sz1 pm pm' \<Longrightarrow> only_field fs a k pm pm'"
    "confined (item_addr (fs ! k) p i) sz1 pm pm' \<Longrightarrow> agree c 4 (pm_bytes pm) (pm_bytes pm')"
    "confined c 4 pm pm' \<Longrightarrow> agree (item_addr (fs ! k) p i) sz1 (pm_bytes pm) (pm_bytes pm')"
    "j < i \<Longrightarrow> confined (item_addr (fs ! k) p i) sz1 pm pm' \<Longrightarrow>
       agree (item_addr (fs ! k) p j) sz1 (pm_bytes pm) (pm_bytes pm')"
proof -
  let ?f = "fs ! k"
  have span: "field_span ?f = sz1 * unat (pf_array_size ?f)" and aux: "aux_len ?f = 4"
    using span_array [OF msg_static(1) [OF assms(1,3)] assms(5)] assms(4,5)
    by (simp_all add: sz1_def aux_len_def plain_field_def)
  have "(i + 1) * sz1 \<le> unat (pf_array_size ?f) * sz1" using assms(6) by (intro mult_le_mono1) simp
  then have inside: "item_addr ?f p i + sz1 \<le> p + field_span ?f" "p \<le> item_addr ?f p i"
    unfolding span by (simp_all add: item_addr_def sz1_def mult.commute)
  have ap: "p + field_span ?f \<le> c \<or> c + 4 \<le> p"
    using own_apart [OF assms(1-3), of a] aux by (simp add: apart_def p_def c_def)
  show "confined (item_addr ?f p i) sz1 pm pm' \<Longrightarrow> only_field fs a k pm pm'"
    using inside unfolding p_def by (intro only_field_data) (auto intro: confined_mono)
  show "confined (item_addr ?f p i) sz1 pm pm' \<Longrightarrow> agree c 4 (pm_bytes pm) (pm_bytes pm')"
    using inside ap by (elim confined_agree) auto
  show "confined c 4 pm pm' \<Longrightarrow> agree (item_addr ?f p i) sz1 (pm_bytes pm) (pm_bytes pm')"
    using inside ap by (elim confined_agree) auto
  assume "j < i"
  then have "(j + 1) * sz1 \<le> i * sz1" by (intro mult_le_mono1) simp
  then show "confined (item_addr ?f p i) sz1 pm pm' \<Longrightarrow>
      agree (item_addr ?f p j) sz1 (pm_bytes pm) (pm_bytes pm')"
    by (elim confined_agree) (simp add: item_addr_def sz1_def)
qed

lemma array_push:
  assumes "msg_ok D d fs sz" "plain_msg D (Suc n) fs" "k < length fs"
    "array_done D n (fs ! k) p c ws m" "item_done D n (fs ! k) m' (item_addr (fs ! k) p (length ws)) w"
    "unat (load32 m' c) = Suc (length ws)"
    "\<And>j. j < length ws \<Longrightarrow> agree (item_addr (fs ! k) p j) (unat (pf_data_size (fs ! k))) m m'"
  shows "array_done D n (fs ! k) p c (ws @ [w]) m'"
  using assms(4-6) item_done_local [OF assms(1-3) assms(7)]
  by (simp add: array_done_def nth_append less_Suc_eq)

lemma scalar_payload: "payload (scalar_wire m f x) \<noteq> []"
proof
  assume "payload (scalar_wire m f x) = []"
  then have "\<exists>v. varint_bytes v = []" by (auto simp: scalar_wire_def numeral_eq_Suc split: if_splits)
  then show False using varint_bytes_length_bounds by fastforce
qed

text \<open>The decoder's address of the next item.\<close>

lemma next_item_addr:
  assumes "msg_ok D d fs sz" "k < length fs" "htype (fs ! k) = PB_HTYPE_REPEATED" "v < pf_array_size (fs ! k)"
  shows "p + unat (pf_data_size (fs ! k) * v) = item_addr (fs ! k) p (unat v)"
  using item_inside(3) [OF assms] by (simp add: item_addr_def mult.commute)

lemma count_up:
  assumes "unat (v :: u32) = i" "i < unat (w :: u32)"
  shows "unat (v + 1) = Suc i"
proof -
  have "unat (v + 1) = unat v + unat (1 :: u32)"
    using assms unat_u32_less [of w] by (intro unat_add_no_overflow) simp
  then show ?thesis using assms(1) by simp
qed

context pb_source
begin

lemma packed_restores:
  fixes fs :: "pb_field list" and a k :: nat
  defines "p \<equiv> field_data fs a k" and "c \<equiv> size_addr (field_data fs a k) (fs ! k)"
  assumes ok: "msg_ok D d fs sz" "plain_msg D (Suc n) fs" "k < length fs"
    and h: "htype (fs ! k) = PB_HTYPE_REPEATED" "ltype (fs ! k) \<le> PB_LTYPE_LAST_PACKABLE" and a: "a \<noteq> 0"
  shows "is_callback s = cb \<Longrightarrow> content s = concat (map payload us) \<Longrightarrow>
    (\<And>u. u \<in> set us \<Longrightarrow> \<exists>m x. u = scalar_wire m (fs ! k) x) \<Longrightarrow>
    array_done D n (fs ! k) p c ws (pm_bytes pm) \<Longrightarrow> length ws + length us \<le> unat (pf_array_size (fs ! k)) \<Longrightarrow>
    \<exists>s' pm'. packed_loop (fs ! k) p (SizeAt c) s pm = (True, s', pm') \<and> reads s (content s) s' \<and>
      array_done D n (fs ! k) p c (ws @ us) (pm_bytes pm') \<and> only_field fs a k pm pm'"
proof (induction us arbitrary: s ws pm)
  case Nil
  then have "is_bytes_left s = 0" by (metis concat.simps(1) length_content list.map(1) list.size(3) unat_eq_zero)
  then have "packed_loop (fs ! k) p (SizeAt c) s pm = (True, s, pm)" by (subst packed_loop.simps) simp
  then show ?case using Nil.prems(2,4) reads_refl [OF Nil.prems(1)] by simp
next
  case (Cons u us)
  let ?f = "fs ! k" and ?i = "length ws" and ?z = "SizeAt c"
  have sep: "separate fs" using ok(2) by simp
  note pf = plain_msgD [OF ok(2,3)] and st = msg_static [OF ok(1,3)]
  have i: "?i < unat (pf_array_size ?f)" using Cons.prems(5) by simp
  note reg = array_regions [OF ok(1) sep ok(3) pf h(1) i, where a = a, folded p_def c_def]
  have cur: "unat (size_get pm ?z) = ?i" using Cons.prems(4) by (simp add: array_done_def size_get_def)
  then have lt: "size_get pm ?z < pf_array_size ?f" using i by (simp add: word_less_nat_alt)
  have addr: "p + unat (pf_data_size ?f * size_get pm ?z) = item_addr ?f p ?i"
    using next_item_addr [OF ok(1,3) h(1) lt] cur by simp
  obtain m x where u: "u = scalar_wire m ?f x" using Cons.prems(3) by (meson list.set_intros(1))
  have c: "content s = payload (scalar_wire m ?f x) @ concat (map payload us)" using Cons.prems(2) u by simp
  obtain t pm1 where r: "pb_dec_packable (ltype ?f) s ?f pm (item_addr ?f p ?i) = (True, t, pm1)"
    "reads s (payload u) t" "scalar_wire (pm_bytes pm1) ?f (item_addr ?f p ?i) = u"
    using packable_restores [OF Cons.prems(1) c pf h(2)] u by blast
  have conf: "confined (item_addr ?f p ?i) (unat (pf_data_size ?f)) pm pm1"
    by (rule dec_packable_confined [OF r(1) st(3) h(2)])
  let ?pm2 = "size_put pm1 ?z (size_get pm1 ?z + 1)"
  have c2: "confined c 4 pm1 ?pm2" by (rule confined_size_put) (simp add: size_inside_def)
  have same: "size_get pm1 ?z = size_get pm ?z" using agree_words(2) [OF reg(2) [OF conf]] by (simp add: size_get_def)
  have "unat (load32 (pm_bytes ?pm2) c) = Suc ?i"
    using count_up [OF cur i] same by (simp add: size_put_def pm_put_def)
  moreover have "item_done D n ?f (pm_bytes pm1) (item_addr ?f p ?i) u"
  proof -
    have "item_addr ?f p ?i \<noteq> 0" using a msg_data_inside(1) [OF ok(1,3), of a] by (simp add: item_addr_def p_def)
    then show ?thesis using r(3) h(2) by (auto simp: item_done_def item_fits_def item_wire_def)
  qed
  then have "item_done D n ?f (pm_bytes ?pm2) (item_addr ?f p ?i) u"
    by (rule item_done_local [OF ok reg(3) [OF c2]])
  moreover have "agree (item_addr ?f p j) (unat (pf_data_size ?f)) (pm_bytes pm) (pm_bytes ?pm2)" if "j < ?i" for j
  proof -
    have "j < unat (pf_array_size ?f)" using that i by simp
    note reg_j = array_regions(3) [OF ok(1) sep ok(3) pf h(1) this, where a = a, folded p_def c_def]
    show ?thesis using reg(4) [OF that conf] reg_j [OF c2] by (simp add: agree_def)
  qed
  ultimately have push: "array_done D n ?f p c (ws @ [u]) (pm_bytes ?pm2)"
    by (intro array_push [OF ok Cons.prems(4)])
  have only: "only_field fs a k pm ?pm2"
  proof (rule only_field_trans [OF reg(1) [OF conf]])
    have "aux_len ?f = 4" using h(1) pf by (simp add: aux_len_def plain_field_def)
    then show "only_field fs a k pm1 ?pm2" using c2 unfolding c_def by (intro only_field_aux) simp
  qed
  have ct: "content t = concat (map payload us)" using reads_content [OF r(2)] c u by simp
  obtain s' pm' where rest: "packed_loop ?f p ?z t ?pm2 = (True, s', pm')" "reads t (content t) s'"
    "array_done D n ?f p c ((ws @ [u]) @ us) (pm_bytes pm')" "only_field fs a k ?pm2 pm'"
    using Cons.IH [OF reads_callback [OF r(2)] ct _ push] Cons.prems(3,5) by auto
  have "content s \<noteq> []" using c scalar_payload by simp
  then have "is_bytes_left s > 0" by (metis length_content length_0_conv unat_0 word_gt_0)
  then have "packed_loop ?f p ?z s pm = (True, s', pm')"
    using lt addr r(1) rest(1) by (subst packed_loop.simps) (simp add: Let_def)
  moreover have "reads s (content s) s'" using reads_trans [OF r(2) rest(2)] c u ct by simp
  ultimately show ?case using rest(3) only_field_trans [OF only rest(4)] by auto
qed

end

section \<open>Fields\<close>

definition field_done :: "(nat \<Rightarrow> pb_field list) \<Rightarrow> nat \<Rightarrow> pb_field \<Rightarrow> mem \<Rightarrow> nat \<Rightarrow> nat \<Rightarrow> (u32 \<times> wire) list \<Rightarrow> bool" where
  "field_done D n f m p c rs \<longleftrightarrow>
     field_fits (msg_fits D m n) D m f p c \<and> field_records (msg_content D m n) D m f p c = rs"

text \<open>The static part of \<open>field_fits\<close>.\<close>

lemma plain_static:
  assumes "msg_ok D d fs sz" "plain_msg D n fs" "k < length fs"
  shows "atype (fs ! k) = PB_ATYPE_STATIC"
    "ltype (fs ! k) \<le> PB_LTYPE_SUBMESSAGE \<or> ltype (fs ! k) = PB_LTYPE_FIXED_LENGTH_BYTES"
    "ltype (fs ! k) \<le> PB_LTYPE_SVARINT \<longrightarrow> pf_data_size (fs ! k) \<in> {1, 2, 4, 8}"
    "htype (fs ! k) = PB_HTYPE_OPTIONAL \<and> pf_size_offset (fs ! k) = 0 \<longrightarrow> ltype (fs ! k) \<noteq> PB_LTYPE_SUBMESSAGE"
    "htype (fs ! k) \<noteq> PB_HTYPE_ONEOF"
    "htype (fs ! k) = PB_HTYPE_REPEATED \<Longrightarrow> pf_size_offset (fs ! k) \<noteq> 0"
  using msg_static [OF assms(1,3)] plain_msgD [OF assms(2,3)] by (auto simp: plain_field_def)

lemma array_field_done:
  assumes "msg_ok D d fs sz" "plain_msg D (Suc n) fs" "k < length fs" "htype (fs ! k) = PB_HTYPE_REPEATED"
    "array_done D n (fs ! k) p c ws m" "length ws \<le> unat (pf_array_size (fs ! k))"
  shows "field_done D n (fs ! k) m p c (array_records (fs ! k) ws)"
proof -
  note st = plain_static [OF assms(1-3)]
  have cnt: "item_count m (fs ! k) c = length ws"
    using assms(5) st(6) [OF assms(4)] by (simp add: item_count_def array_done_def)
  have "map (\<lambda>i. item_wire (msg_content D m n) D m (fs ! k) (item_addr (fs ! k) p i)) [0..<length ws] = ws"
    using assms(5) by (intro nth_equalityI) (simp_all add: array_done_def item_done_def)
  then show ?thesis
    using st assms(4-6) cnt
    by (simp add: field_done_def field_fits_def field_records_def array_done_def item_done_def list_all_iff)
qed

lemma blank_array:
  assumes "blank_field B D m f p c" "htype f = PB_HTYPE_REPEATED"
  shows "array_done D n f p c [] m"
  using assms by (simp add: blank_field_def array_done_def)

context pb_source
begin

lemma optional_restores:
  fixes E :: "'s dec_env" and fs :: "pb_field list" and a k :: nat
  defines "D \<equiv> de_descs E" and "p \<equiv> field_data fs a k" and "c \<equiv> size_addr (field_data fs a k) (fs ! k)"
  assumes dec: "restores D d b noinit" "safe_decoder cb D d b noinit"
    and s: "is_callback s = cb" "unat (is_bytes_left s) \<le> b" "unat (is_bytes_left s) < 2 ^ 32"
    and ct: "content s = payload (item_wire (msg_content D m n) D m (fs ! k) x) @ rest"
    and ok: "msg_ok D d fs sz" "plain_msg D (Suc n) fs" "k < length fs"
    and h: "htype (fs ! k) = PB_HTYPE_OPTIONAL" and x: "present m (fs ! k) x y"
      "field_fits (msg_fits D m n) D m (fs ! k) x y"
    and a: "a \<noteq> 0" "blank_at D (pm_bytes pm) n fs a k"
  shows "\<exists>s' pm'. decode_static_field E d noinit s wt (iter_at fs a k) pm = Some (True, s', pm') \<and>
    reads s (payload (item_wire (msg_content D m n) D m (fs ! k) x)) s' \<and> only_field fs a k pm pm' \<and>
    field_done D n (fs ! k) (pm_bytes pm') p c [(pf_tag (fs ! k), item_wire (msg_content D m n) D m (fs ! k) x)]"
proof -
  let ?f = "fs ! k" and ?w = "item_wire (msg_content D m n) D m (fs ! k) x"
  have sep: "separate fs" using ok(2) by simp
  note pf = plain_msgD [OF ok(2,3)] and st = plain_static [OF ok]
  have nr: "htype ?f \<noteq> PB_HTYPE_REPEATED" using h by simp
  note size = plain_field_size [OF ok(3) pf, of a, folded c_def] and aux = aux_differs [OF ok(1,3), of a, folded c_def p_def]
  have fit: "item_fits (msg_fits D m n) D m ?f x" using x nr by (simp add: field_fits_def)
  have span: "field_span ?f = unat (pf_data_size ?f)" by (rule span_single [OF st(1) nr])
  have p0: "p \<noteq> 0" using a(1) msg_data_inside(1) [OF ok(1,3), of a] by (simp add: p_def)
  have ap: "pf_size_offset ?f \<noteq> 0 \<Longrightarrow> p + unat (pf_data_size ?f) \<le> c \<or> c + 1 \<le> p"
    using own_apart [OF ok(1) sep ok(3), of a] span h by (simp add: apart_def p_def c_def aux_len_def)
  define pm1 where "pm1 = (if SizeAt c \<noteq> SizeAt p then has_put pm (SizeAt c) True else pm)"
  have c1: "pf_size_offset ?f \<noteq> 0 \<Longrightarrow> confined c 1 pm pm1 \<and> pm_bytes pm1 c = 1"
    using aux by (simp add: pm1_def confined_has_put size_inside_def) (simp add: has_put_def pm_put_def)
  have only1: "only_field fs a k pm pm1"
  proof (cases "pf_size_offset ?f = 0")
    case True
    then show ?thesis using aux by (simp add: pm1_def)
  next
    case False
    then show ?thesis using c1 h unfolding c_def by (intro only_field_aux) (simp add: aux_len_def)
  qed
  have blank: "blank D (pm_bytes pm1) n (D (pf_ptr ?f)) p" if sub: "ltype ?f = PB_LTYPE_SUBMESSAGE"
  proof -
    have off: "pf_size_offset ?f \<noteq> 0" using st(4) h sub by blast
    then have "blank D (pm_bytes pm) n (D (pf_ptr ?f)) p"
      using a(2) nr sub by (simp add: blank_field_def p_def)
    moreover have "agree p (unat (pf_data_size ?f)) (pm_bytes pm) (pm_bytes pm1)"
      using c1 [OF off] ap [OF off] by (auto intro: confined_agree)
    ultimately show ?thesis
      using blank_local [OF msg_ok_sub_same(2) [OF ok(1,3) sub] plain_msg_sub [OF ok(2,3) sub]] by blast
  qed
  obtain s' pm' where r: "PB_DECODERS E d noinit (ltype ?f) s ?f pm1 p = Some (True, s', pm')"
    "reads s (payload ?w) s'" "item_fits (msg_fits D (pm_bytes pm') n) D (pm_bytes pm') ?f p"
    "item_wire (msg_content D (pm_bytes pm') n) D (pm_bytes pm') ?f p = ?w"
    using item_restores [OF dec(1) [unfolded D_def] s ct [unfolded D_def] ok [unfolded D_def] fit [unfolded D_def] p0,
        folded D_def, OF blank] by blast
  have conf: "confined p (unat (pf_data_size ?f)) pm1 pm'"
    using decoders_safe [OF dec(2) [unfolded D_def] s(1,2) ok(1,3) [unfolded D_def], of p pm1] r(1) by simp
  have only: "only_field fs a k pm pm'"
    using only_field_trans [OF only1] only_field_data conf span unfolding p_def by simp
  have "present (pm_bytes pm') ?f p c"
  proof (cases "pf_size_offset ?f = 0")
    case True
    then have "\<not> default_value m ?f x" using x(1) h by (simp add: present_def)
    then have "\<not> default_value (pm_bytes pm') ?f p"
      unfolding default_iff_zero [OF pf True st(2), of m x "msg_content D m n" D]
        default_iff_zero [OF pf True st(2), of "pm_bytes pm'" p "msg_content D (pm_bytes pm') n" D] r(4) .
    then show ?thesis using True h by (simp add: present_def)
  next
    case False
    have "agree c 1 (pm_bytes pm1) (pm_bytes pm')" using ap [OF False] by (intro confined_agree [OF conf]) auto
    then have "pm_bytes pm' c = 1" using c1 [OF False] by (simp add: agree_def)
    then show ?thesis using False h by (simp add: present_def)
  qed
  then have "field_done D n ?f (pm_bytes pm') p c [(pf_tag ?f, ?w)]"
    using st r(3,4) nr by (simp add: field_done_def field_fits_def field_records_def)
  moreover have "decode_static_field E d noinit s wt (iter_at fs a k) pm = Some (True, s', pm')"
    using r(1) h ok(3) size unfolding pm1_def p_def [symmetric]
    by (simp add: decode_static_field_def Let_def p_def [symmetric])
  ultimately show ?thesis using r(2) only by blast
qed

lemma packed_field_restores:
  fixes E :: "'s dec_env" and fs :: "pb_field list" and a k :: nat
  defines "p \<equiv> field_data fs a k" and "c \<equiv> size_addr (field_data fs a k) (fs ! k)"
  assumes s: "is_callback s = cb" "unat (is_bytes_left s) < 2 ^ 32"
    and ct: "content s = payload (Delimited (concat (map payload us))) @ rest"
    and us: "\<And>u. u \<in> set us \<Longrightarrow> \<exists>m x. u = scalar_wire m (fs ! k) x" "us \<noteq> []"
      "length us \<le> unat (pf_array_size (fs ! k))"
    and ok: "msg_ok D d fs sz" "plain_msg D (Suc n) fs" "k < length fs"
    and h: "htype (fs ! k) = PB_HTYPE_REPEATED" "ltype (fs ! k) \<le> PB_LTYPE_LAST_PACKABLE"
    and a: "a \<noteq> 0" "blank_at D (pm_bytes pm) n fs a k"
  shows "\<exists>s' pm'. decode_static_field E d noinit s PB_WT_STRING (iter_at fs a k) pm = Some (True, s', pm') \<and>
    reads s (payload (Delimited (concat (map payload us)))) s' \<and> only_field fs a k pm pm' \<and>
    field_done D n (fs ! k) (pm_bytes pm') p c (array_records (fs ! k) us)"
proof -
  let ?bs = "concat (map payload us)"
  note size = plain_field_size [OF ok(3) plain_msgD [OF ok(2,3)], of a, folded c_def]
  have "length ?bs \<le> length (content s)" using ct by simp
  then have "length ?bs < 2 ^ 32" using s(2) by simp
  note pl = delimited_payload [OF this]
  have "content s = varint_bytes (ucast (of_nat (length ?bs) :: u32)) @ ?bs @ rest" using ct unfolding pl(1) by simp
  from substream_reads [OF s(1) this pl(2)] obtain sub t where
    sub: "pb_make_string_substream s = (True, sub, t)" "is_callback sub = cb" "content sub = ?bs" and
    close: "\<And>sub'. reads sub ?bs sub' \<Longrightarrow> \<exists>sub'' s'. pb_close_string_substream t sub' = (True, sub'', s') \<and>
      reads s (payload (Delimited ?bs)) s'"
    unfolding pl(1) by blast
  have "array_done D n (fs ! k) p c [] (pm_bytes pm)" using a(2) h(1) unfolding p_def c_def by (rule blank_array)
  then obtain sub' pm' where r: "packed_loop (fs ! k) p (SizeAt c) sub pm = (True, sub', pm')" "reads sub ?bs sub'"
    "array_done D n (fs ! k) p c us (pm_bytes pm')" "only_field fs a k pm pm'"
    using packed_restores [OF ok h a(1) sub(2,3) us(1), folded p_def c_def, of "[]" pm] us(3) sub(3) by auto
  obtain sub'' s' where cl: "pb_close_string_substream t sub' = (True, sub'', s')" "reads s (payload (Delimited ?bs)) s'"
    using close [OF r(2)] by blast
  have "content sub' = []" using reads_content [OF r(2), of "[]"] sub(3) by simp
  then have "is_bytes_left sub' = 0" by (metis length_content list.size(3) unat_eq_zero)
  then have "decode_static_field E d noinit s PB_WT_STRING (iter_at fs a k) pm = Some (True, s', pm')"
    using sub(1) r(1) cl(1) h ok(3) size
    by (simp add: decode_static_field_def Let_def p_def [symmetric])
  then show ?thesis
    using cl(2) r(4) array_field_done [OF ok h(1) r(3) us(3)] by blast
qed

lemma element_restores:
  fixes E :: "'s dec_env" and fs :: "pb_field list" and a k :: nat
  defines "D \<equiv> de_descs E" and "p \<equiv> field_data fs a k" and "c \<equiv> size_addr (field_data fs a k) (fs ! k)"
  assumes dec: "restores D d b noinit" "safe_decoder cb D d b noinit"
    and s: "is_callback s = cb" "unat (is_bytes_left s) \<le> b" "unat (is_bytes_left s) < 2 ^ 32"
    and ct: "content s = payload (item_wire (msg_content D m n) D m (fs ! k) x) @ rest"
    and ok: "msg_ok D d fs sz" "plain_msg D (Suc n) fs" "k < length fs"
    and h: "htype (fs ! k) = PB_HTYPE_REPEATED" "\<not> ltype (fs ! k) \<le> PB_LTYPE_LAST_PACKABLE"
    and x: "item_fits (msg_fits D m n) D m (fs ! k) x"
    and a: "a \<noteq> 0" "array_done D n (fs ! k) p c ws (pm_bytes pm)" "length ws < unat (pf_array_size (fs ! k))"
  shows "\<exists>s' pm'. decode_static_field E d noinit s wt (iter_at fs a k) pm = Some (True, s', pm') \<and>
    reads s (payload (item_wire (msg_content D m n) D m (fs ! k) x)) s' \<and> only_field fs a k pm pm' \<and>
    array_done D n (fs ! k) p c (ws @ [item_wire (msg_content D m n) D m (fs ! k) x]) (pm_bytes pm')"
proof -
  let ?f = "fs ! k" and ?w = "item_wire (msg_content D m n) D m (fs ! k) x" and ?i = "length ws" and ?z = "SizeAt c"
  have sep: "separate fs" using ok(2) by simp
  note pf = plain_msgD [OF ok(2,3)] and st = msg_static [OF ok(1,3)]
  note size = plain_field_size [OF ok(3) pf, of a, folded c_def]
  note reg = array_regions [OF ok(1) sep ok(3) pf h(1), where a = a, folded p_def c_def]
  have cur: "unat (size_get pm ?z) = ?i" using a(2) by (simp add: array_done_def size_get_def)
  then have lt: "size_get pm ?z < pf_array_size ?f" using a(3) by (simp add: word_less_nat_alt)
  have addr: "p + unat (pf_data_size ?f * size_get pm ?z) = item_addr ?f p ?i"
    using next_item_addr [OF ok(1,3) h(1) lt] cur by simp
  have "item_addr ?f p ?i \<noteq> 0" using a(1) msg_data_inside(1) [OF ok(1,3), of a] by (simp add: item_addr_def p_def)
  let ?pm1 = "size_put pm ?z (size_get pm ?z + 1)"
  have c1: "confined c 4 pm ?pm1" by (rule confined_size_put) (simp add: size_inside_def)
  obtain s' pm' where r: "PB_DECODERS E d noinit (ltype ?f) s ?f ?pm1 (item_addr ?f p ?i) = Some (True, s', pm')"
    "reads s (payload ?w) s'"
    "item_fits (msg_fits D (pm_bytes pm') n) D (pm_bytes pm') ?f (item_addr ?f p ?i)"
    "item_wire (msg_content D (pm_bytes pm') n) D (pm_bytes pm') ?f (item_addr ?f p ?i) = ?w"
    using item_restores [OF dec(1) [unfolded D_def] s ct [unfolded D_def] ok [unfolded D_def] x [unfolded D_def]
        \<open>item_addr ?f p ?i \<noteq> 0\<close>, folded D_def, of ?pm1] h(1) by blast
  have conf: "confined (item_addr ?f p ?i) (unat (pf_data_size ?f)) ?pm1 pm'"
    using decoders_safe [OF dec(2) [unfolded D_def] s(1,2) ok(1,3) [unfolded D_def], of "item_addr ?f p ?i" ?pm1] r(1) by simp
  have "only_field fs a k pm ?pm1"
  proof -
    have "aux_len ?f = 4" using h(1) pf by (simp add: aux_len_def plain_field_def)
    then show ?thesis using c1 unfolding c_def by (intro only_field_aux) simp
  qed
  then have only: "only_field fs a k pm pm'" using reg(1) [OF a(3) conf] by (rule only_field_trans)
  have "unat (load32 (pm_bytes pm') c) = Suc ?i"
    using count_up [OF cur a(3)] agree_words(2) [OF reg(2) [OF a(3) conf]] by (simp add: size_put_def pm_put_def)
  moreover have "item_done D n ?f (pm_bytes pm') (item_addr ?f p ?i) ?w" using r(3,4) by (simp add: item_done_def)
  moreover have "agree (item_addr ?f p j) (unat (pf_data_size ?f)) (pm_bytes pm) (pm_bytes pm')" if "j < ?i" for j
  proof -
    have "j < unat (pf_array_size ?f)" using that a(3) by simp
    from reg(3) [OF this c1] reg(4) [OF a(3) that conf] show ?thesis by (simp add: agree_def)
  qed
  ultimately have "array_done D n ?f p c (ws @ [?w]) (pm_bytes pm')" by (intro array_push [OF ok a(2)])
  moreover have "decode_static_field E d noinit s wt (iter_at fs a k) pm = Some (True, s', pm')"
    using r(1) h(1) ok(3) size lt addr
    by (simp add: decode_static_field_def Let_def p_def [symmetric] h(2) not_le [of _ "size_get _ _"])
  ultimately show ?thesis using r(2) only by blast
qed

section \<open>The loop over the input\<close>

text \<open>The state between two records.\<close>

definition at_record :: "pb_field list \<Rightarrow> nat \<Rightarrow> 's noinit_state \<Rightarrow> bool" where
  "at_record fs a st \<longleftrightarrow>
     is_callback (ni_stream st) = cb \<and> (\<exists>j<length fs. ni_iter st = iter_at fs a j) \<and>
     ni_fixed_count_field st = None"

lemma wire_type_small: "wire_type w < 8"
  by (cases w) simp_all

lemma record_step:
  assumes ok: "msg_ok (de_descs E) d fs sz" "plain_msg (de_descs E) (Suc n) fs" "k < length fs"
    and st: "at_record fs a st" "content (ni_stream st) = record_bytes (pf_tag (fs ! k), w) @ rest"
    and run: "\<And>s1. is_callback s1 = cb \<Longrightarrow> content s1 = payload w @ rest \<Longrightarrow>
      unat (is_bytes_left s1) < unat (is_bytes_left (ni_stream st)) \<Longrightarrow>
      \<exists>s' pm'. decode_static_field E d noinit s1 (wire_type w) (iter_at fs a k) (ni_mem st) = Some (True, s', pm') \<and>
        reads s1 (payload w) s' \<and> Q pm'"
  shows "\<exists>st'. noinit_step E d noinit st = Some (Continue st') \<and> at_record fs a st' \<and> Q (ni_mem st') \<and>
    reads (ni_stream st) (record_bytes (pf_tag (fs ! k), w)) (ni_stream st') \<and>
    unat (is_bytes_left (ni_stream st')) < unat (is_bytes_left (ni_stream st))"
proof -
  let ?s = "ni_stream st" and ?f = "fs ! k"
  note pf = plain_msgD [OF ok(2,3)] and stt = plain_static [OF ok]
  obtain j where j: "j < length fs" "ni_iter st = iter_at fs a j" using st(1) by (auto simp: at_record_def)
  have cb: "is_callback ?s = cb" and fixed: "ni_fixed_count_field st = None" using st(1) by (simp_all add: at_record_def)
  have tag: "pf_tag ?f < 2 ^ 29" "pf_tag ?f \<noteq> 0"
    using pf msg_okD(1) [OF ok(1)] ok(3) by (simp_all add: plain_field_def tagged_nth)
  have c: "content ?s = varint_bytes (push_bit 3 (ucast (pf_tag ?f)) OR ucast (wire_type w)) @ payload w @ rest"
    using st(2) by (simp add: record_bytes_def tag_bytes_def)
  obtain s1 where s1: "pb_decode_tag ?s = (True, wire_type w, pf_tag ?f, False, s1)"
    "reads ?s (tag_bytes (pf_tag ?f) (wire_type w)) s1"
    using tag_reads [OF cb c tag wire_type_small] unfolding tag_bytes_def by blast
  have c1: "content s1 = payload w @ rest"
    by (rule reads_content [OF s1(2)]) (use st(2) in \<open>simp add: record_bytes_def\<close>)
  have less: "unat (is_bytes_left s1) < unat (is_bytes_left ?s)" using s1(1) by (rule decode_tag_dec)
  obtain s' pm' where r: "decode_static_field E d noinit s1 (wire_type w) (iter_at fs a k) (ni_mem st) = Some (True, s', pm')"
    "reads s1 (payload w) s'" "Q pm'" using run [OF reads_callback [OF s1(2)] c1 less] by blast
  have "pb_field_iter_find (iter_at fs a j) (pf_tag ?f) = Some (True, iter_at fs a k)"
    using iter_find_hit [OF msg_okD(1,2) [OF ok(1)] j(1) ok(3), of "SizeAt (field_size fs a j)" a]
      msg_static(2) [OF ok(1,3)] by (auto split: if_splits)
  moreover let ?st2 = "st\<lparr>ni_stream := s1, ni_iter := iter_at fs a k\<rparr>"
  have "enter_fixed_count ?st2 = Some ?st2"
  proof -
    have "htype ?f = PB_HTYPE_REPEATED \<Longrightarrow> field_size fs a k \<noteq> field_data fs a k"
      using stt(6) plain_field_size [OF ok(3) pf, of a] aux_differs [OF ok(1,3), of a] by simp
    then show ?thesis using ok(3) by (auto simp: enter_fixed_count_def Let_def)
  qed
  moreover have "mark_required ?st2 = ?st2"
    using plain_not_required [OF pf] ok(3) by (simp add: mark_required_def Let_def)
  moreover have "decode_field E d noinit s1 (wire_type w) (iter_at fs a k) (ni_mem st) =
      Some (True, s', iter_at fs a k, pm')"
    using r(1) stt(1,5) ok(3) by (simp add: decode_field_def)
  ultimately have "noinit_step E d noinit st =
      Some (Continue (st\<lparr>ni_stream := s', ni_mem := pm', ni_iter := iter_at fs a k\<rparr>))"
    using s1(1) j(2) by (simp add: noinit_step_def known_field_def Let_def)
  moreover have "reads ?s (record_bytes (pf_tag ?f, w)) s'"
    using reads_trans [OF s1(2) r(2)] by (simp add: record_bytes_def)
  moreover have "unat (is_bytes_left s') \<le> unat (is_bytes_left s1)"
    using r(2) by (metis length_content length_append le_add2 reads_def)
  ultimately show ?thesis
    using r(2,3) less fixed ok(3) reads_callback [OF r(2)]
    by (intro exI [of _ "st\<lparr>ni_stream := s', ni_mem := pm', ni_iter := iter_at fs a k\<rparr>"])
      (auto simp: at_record_def)
qed

text \<open>The loop reads \<open>bs\<close> and gets into a state whose memory satisfies \<open>Q\<close>.\<close>

definition consumes :: "'s dec_env \<Rightarrow> nat \<Rightarrow> nat \<Rightarrow> pb_field list \<Rightarrow> nat \<Rightarrow> 's noinit_state \<Rightarrow> u8 list \<Rightarrow> (pb_mem \<Rightarrow> bool) \<Rightarrow> bool" where
  "consumes E d b fs a st bs Q \<longleftrightarrow>
     (\<exists>b' st'. b' \<le> b \<and> noinit_loop E d b st = noinit_loop E d b' st' \<and>
        unat (is_bytes_left (ni_stream st')) < b' \<and> reads (ni_stream st) bs (ni_stream st') \<and>
        at_record fs a st' \<and> Q (ni_mem st'))"

lemma consumes_nil:
  "at_record fs a st \<Longrightarrow> unat (is_bytes_left (ni_stream st)) < b \<Longrightarrow> Q (ni_mem st) \<Longrightarrow> consumes E d b fs a st [] Q"
  unfolding consumes_def
  by (intro exI [of _ b] exI [of _ st]) (simp add: at_record_def reads_refl del: split_paired_Ex)

lemma consumes_append:
  assumes "consumes E d b fs a st as Q" "content (ni_stream st) = as @ rest"
    and "\<And>b' st'. b' \<le> b \<Longrightarrow> unat (is_bytes_left (ni_stream st')) < b' \<Longrightarrow> at_record fs a st' \<Longrightarrow> Q (ni_mem st') \<Longrightarrow>
      content (ni_stream st') = rest \<Longrightarrow> consumes E d b' fs a st' bs R"
  shows "consumes E d b fs a st (as @ bs) R"
proof -
  obtain b1 st1 where 1: "b1 \<le> b" "noinit_loop E d b st = noinit_loop E d b1 st1"
    "unat (is_bytes_left (ni_stream st1)) < b1" "reads (ni_stream st) as (ni_stream st1)"
    "at_record fs a st1" "Q (ni_mem st1)" using assms(1) unfolding consumes_def by blast
  have "consumes E d b1 fs a st1 bs R" by (rule assms(3) [OF 1(1,3,5,6) reads_content [OF 1(4) assms(2)]])
  then obtain b2 st2 where 2: "b2 \<le> b1" "noinit_loop E d b1 st1 = noinit_loop E d b2 st2"
    "unat (is_bytes_left (ni_stream st2)) < b2" "reads (ni_stream st1) bs (ni_stream st2)"
    "at_record fs a st2" "R (ni_mem st2)" unfolding consumes_def by blast
  have "b2 \<le> b" using 1(1) 2(1) by simp
  moreover have "noinit_loop E d b st = noinit_loop E d b2 st2" using 1(2) 2(2) by simp
  moreover have "reads (ni_stream st) (as @ bs) (ni_stream st2)" using 1(4) 2(4) by (rule reads_trans)
  ultimately show ?thesis using 2(3,5,6) unfolding consumes_def by blast
qed

lemma consumes_mono: "consumes E d b fs a st bs Q \<Longrightarrow> (\<And>pm. Q pm \<Longrightarrow> R pm) \<Longrightarrow> consumes E d b fs a st bs R"
  unfolding consumes_def by blast

lemma record_consumes:
  assumes ok: "msg_ok (de_descs E) d fs sz" "plain_msg (de_descs E) (Suc n) fs" "k < length fs"
    and st: "at_record fs a st" "unat (is_bytes_left (ni_stream st)) < Suc b"
      "content (ni_stream st) = record_bytes (pf_tag (fs ! k), w) @ rest"
    and run: "\<And>s1. is_callback s1 = cb \<Longrightarrow> content s1 = payload w @ rest \<Longrightarrow>
      unat (is_bytes_left s1) < unat (is_bytes_left (ni_stream st)) \<Longrightarrow>
      \<exists>s' pm'. decode_static_field E d (noinit_around (noinit_loop E d b)) s1 (wire_type w) (iter_at fs a k) (ni_mem st) =
          Some (True, s', pm') \<and> reads s1 (payload w) s' \<and> Q pm'"
  shows "consumes E d (Suc b) fs a st (record_bytes (pf_tag (fs ! k), w)) Q"
proof -
  obtain st' where st': "noinit_step E d (noinit_around (noinit_loop E d b)) st = Some (Continue st')" "at_record fs a st'"
    "Q (ni_mem st')" "reads (ni_stream st) (record_bytes (pf_tag (fs ! k), w)) (ni_stream st')"
    "unat (is_bytes_left (ni_stream st')) < unat (is_bytes_left (ni_stream st))"
    using record_step [OF ok st(1,3) run] by blast
  have "is_bytes_left (ni_stream st) \<noteq> 0" using st'(5) by auto
  then have "noinit_loop E d (Suc b) st = noinit_loop E d b st'" using st'(1) by simp
  moreover have "unat (is_bytes_left (ni_stream st')) < b" using st'(5) st(2) by simp
  ultimately show ?thesis using st'(2-4) le_SucI [OF order_refl, of b] unfolding consumes_def by blast
qed

lemma noinit_safe_decoder:
  "safe_decoder cb (de_descs E) d b (noinit_around (noinit_loop E d b) :: 's msg_decoder)"
  unfolding safe_decoder_def using noinit_safe unfolding pb_decode_noinit_def by blast

lemma message_bytes_Cons: "message_bytes (r # rs) = record_bytes r @ message_bytes rs"
  by (simp add: message_bytes_def)

lemma content_le: "content s = as @ bs \<Longrightarrow> content t = bs \<Longrightarrow> unat (is_bytes_left t) \<le> unat (is_bytes_left s)"
  by (metis length_content length_append le_add2)

lemma elements_consume:
  fixes E :: "'s dec_env" and fs :: "pb_field list" and a k :: nat
  defines "D \<equiv> de_descs E" and "p \<equiv> field_data fs a k" and "c \<equiv> size_addr (field_data fs a k) (fs ! k)"
  assumes ok: "msg_ok D d fs sz" "plain_msg D (Suc n) fs" "k < length fs" and a: "a \<noteq> 0"
    and h: "htype (fs ! k) = PB_HTYPE_REPEATED" "\<not> ltype (fs ! k) \<le> PB_LTYPE_LAST_PACKABLE"
  shows "(\<And>b'. b' < b \<Longrightarrow> restores D d b' (noinit_around (noinit_loop E d b'))) \<Longrightarrow>
    at_record fs a st \<Longrightarrow> unat (is_bytes_left (ni_stream st)) < b \<Longrightarrow> unat (is_bytes_left (ni_stream st)) < 2 ^ 32 \<Longrightarrow>
    content (ni_stream st) = message_bytes (map (Pair (pf_tag (fs ! k))) vs) @ rest \<Longrightarrow>
    (\<And>v. v \<in> set vs \<Longrightarrow> \<exists>x. v = item_wire (msg_content D m n) D m (fs ! k) x \<and> item_fits (msg_fits D m n) D m (fs ! k) x) \<Longrightarrow>
    array_done D n (fs ! k) p c ws (pm_bytes (ni_mem st)) \<Longrightarrow> length ws + length vs \<le> unat (pf_array_size (fs ! k)) \<Longrightarrow>
    consumes E d b fs a st (message_bytes (map (Pair (pf_tag (fs ! k))) vs))
      (\<lambda>pm'. only_field fs a k (ni_mem st) pm' \<and> array_done D n (fs ! k) p c (ws @ vs) (pm_bytes pm'))"
proof (induction vs arbitrary: b st ws)
  case Nil
  then show ?case by (simp add: message_bytes_def consumes_nil)
next
  case (Cons v vs)
  let ?t = "pf_tag (fs ! k)" and ?rest = "message_bytes (map (Pair (pf_tag (fs ! k))) vs) @ rest"
  obtain x where x: "v = item_wire (msg_content D m n) D m (fs ! k) x" "item_fits (msg_fits D m n) D m (fs ! k) x"
    using Cons.prems(6) by (meson list.set_intros(1))
  obtain b0 where b: "b = Suc b0" using Cons.prems(3) by (cases b) simp_all
  have ct: "content (ni_stream st) = record_bytes (?t, v) @ ?rest" using Cons.prems(5) by (simp add: message_bytes_Cons)
  have i: "length ws < unat (pf_array_size (fs ! k))" using Cons.prems(8) by simp
  note dec = Cons.prems(1) [of b0] noinit_safe_decoder [of E d b0, folded D_def]
  have "consumes E d (Suc b0) fs a st (record_bytes (?t, v))
      (\<lambda>pm'. only_field fs a k (ni_mem st) pm' \<and> array_done D n (fs ! k) p c (ws @ [v]) (pm_bytes pm'))"
  proof (rule record_consumes [OF ok [unfolded D_def] Cons.prems(2) _ ct])
    show "unat (is_bytes_left (ni_stream st)) < Suc b0" using Cons.prems(3) b by simp
    fix s1 assume s1: "is_callback s1 = cb" "content s1 = payload v @ ?rest"
      "unat (is_bytes_left s1) < unat (is_bytes_left (ni_stream st))"
    then have left: "unat (is_bytes_left s1) \<le> b0" "unat (is_bytes_left s1) < 2 ^ 32"
      using Cons.prems(3,4) b by simp_all
    show "\<exists>s' pm'. decode_static_field E d (noinit_around (noinit_loop E d b0)) s1 (wire_type v) (iter_at fs a k) (ni_mem st) =
          Some (True, s', pm') \<and> reads s1 (payload v) s' \<and>
        only_field fs a k (ni_mem st) pm' \<and> array_done D n (fs ! k) p c (ws @ [v]) (pm_bytes pm')"
      using element_restores [OF dec [unfolded D_def] s1(1) left s1(2) [unfolded x(1) D_def] ok [unfolded D_def] h
          x(2) [unfolded D_def] a Cons.prems(7) [unfolded D_def p_def c_def] i, where wt = "wire_type v"]
      unfolding x(1) D_def p_def c_def b by simp
  qed
  then have first: "consumes E d b fs a st (record_bytes (?t, v))
      (\<lambda>pm'. only_field fs a k (ni_mem st) pm' \<and> array_done D n (fs ! k) p c (ws @ [v]) (pm_bytes pm'))"
    unfolding b .
  show ?case
    unfolding list.map message_bytes_Cons
  proof (rule consumes_append [OF first ct])
    fix b' st' assume st': "b' \<le> b" "unat (is_bytes_left (ni_stream st')) < b'" "at_record fs a st'"
      "only_field fs a k (ni_mem st) (ni_mem st') \<and> array_done D n (fs ! k) p c (ws @ [v]) (pm_bytes (ni_mem st'))"
      "content (ni_stream st') = ?rest"
    have "unat (is_bytes_left (ni_stream st')) < 2 ^ 32" using content_le [OF ct st'(5)] Cons.prems(4) by simp
    then have "consumes E d b' fs a st' (message_bytes (map (Pair ?t) vs))
      (\<lambda>pm'. only_field fs a k (ni_mem st') pm' \<and> array_done D n (fs ! k) p c ((ws @ [v]) @ vs) (pm_bytes pm'))"
      using Cons.prems(1,6,8) st' by (intro Cons.IH) auto
    then show "consumes E d b' fs a st' (message_bytes (map (Pair ?t) vs))
      (\<lambda>pm'. only_field fs a k (ni_mem st) pm' \<and> array_done D n (fs ! k) p c (ws @ v # vs) (pm_bytes pm'))"
      by (rule consumes_mono) (use st'(4) in \<open>auto intro: only_field_trans\<close>)
  qed
qed

lemma field_consumes:
  fixes E :: "'s dec_env" and fs :: "pb_field list" and a k m n x y
  defines "D \<equiv> de_descs E" and "p \<equiv> field_data fs a k" and "c \<equiv> size_addr (field_data fs a k) (fs ! k)"
    and "rs \<equiv> field_records (msg_content (de_descs E) m n) (de_descs E) m (fs ! k) x y"
  assumes ok: "msg_ok D d fs sz" "plain_msg D (Suc n) fs" "k < length fs" and a: "a \<noteq> 0"
    and dec: "\<And>b'. b' < b \<Longrightarrow> restores D d b' (noinit_around (noinit_loop E d b'))"
    and st: "at_record fs a st" "unat (is_bytes_left (ni_stream st)) < b" "unat (is_bytes_left (ni_stream st)) < 2 ^ 32"
      "content (ni_stream st) = message_bytes rs @ rest"
    and fits: "field_fits (msg_fits D m n) D m (fs ! k) x y"
    and blank: "blank_at D (pm_bytes (ni_mem st)) n fs a k"
  shows "consumes E d b fs a st (message_bytes rs)
    (\<lambda>pm'. only_field fs a k (ni_mem st) pm' \<and> field_done D n (fs ! k) (pm_bytes pm') p c rs)" (is "consumes _ _ _ _ _ _ _ ?Q")
proof -
  let ?f = "fs ! k" and ?t = "pf_tag (fs ! k)"
  note pf = plain_msgD [OF ok(2,3)] and stt = plain_static [OF ok]
  obtain b0 where b: "b = Suc b0" using st(2) by (cases b) simp_all
  have one: "consumes E d b fs a st (record_bytes (?t, w)) ?Q"
    if "content (ni_stream st) = record_bytes (?t, w) @ rest"
      and run: "\<And>s1. is_callback s1 = cb \<Longrightarrow> content s1 = payload w @ rest \<Longrightarrow>
        unat (is_bytes_left s1) \<le> b0 \<Longrightarrow> unat (is_bytes_left s1) < 2 ^ 32 \<Longrightarrow>
        \<exists>s' pm'. decode_static_field E d (noinit_around (noinit_loop E d b0)) s1 (wire_type w) (iter_at fs a k) (ni_mem st) =
          Some (True, s', pm') \<and> reads s1 (payload w) s' \<and> ?Q pm'" for w
    unfolding b
  proof (rule record_consumes [OF ok [unfolded D_def] st(1) _ that(1)])
    show "unat (is_bytes_left (ni_stream st)) < Suc b0" using st(2) b by simp
    fix s1 assume "is_callback s1 = cb" "content s1 = payload w @ rest"
      "unat (is_bytes_left s1) < unat (is_bytes_left (ni_stream st))"
    then show "\<exists>s' pm'. decode_static_field E d (noinit_around (noinit_loop E d b0)) s1 (wire_type w) (iter_at fs a k) (ni_mem st) =
          Some (True, s', pm') \<and> reads s1 (payload w) s' \<and> ?Q pm'"
      using st(2,3) b by (intro run) simp_all
  qed
  have none: "consumes E d b fs a st (message_bytes rs) ?Q" if "rs = []"
  proof -
    have "field_done D n ?f (pm_bytes (ni_mem st)) p c []"
      using blank_field_empty [OF blank pf stt(1,2)] unfolding field_done_def p_def c_def by simp
    then show ?thesis using that st(1,2) by (simp add: message_bytes_def consumes_nil)
  qed
  note dec0 = dec [of b0, unfolded b, OF lessI] noinit_safe_decoder [of E d b0, folded D_def]
  show ?thesis
  proof (cases "rs = []")
    case False
    show ?thesis
    proof (cases "htype ?f = PB_HTYPE_REPEATED")
      case True
      define us where "us = map (\<lambda>i. item_wire (msg_content D m n) D m ?f (item_addr ?f x i)) [0..<item_count m ?f y]"
      have rs: "rs = array_records ?f us" using True by (simp add: rs_def field_records_def us_def D_def)
      have len: "length us \<le> unat (pf_array_size ?f)" using fits True by (simp add: field_fits_def us_def)
      have ne: "us \<noteq> []" using False by (auto simp: rs array_records_def)
      have item: "\<exists>z. u = item_wire (msg_content D m n) D m ?f z \<and> item_fits (msg_fits D m n) D m ?f z" if "u \<in> set us" for u
        using that fits True by (auto simp: us_def field_fits_def list_all_iff)
      have zero: "array_done D n ?f p c [] (pm_bytes (ni_mem st))"
        using blank True unfolding p_def c_def by (rule blank_array)
      show ?thesis
      proof (cases "ltype ?f \<le> PB_LTYPE_LAST_PACKABLE")
        case packable: True
        let ?w = "Delimited (concat (map payload us))"
        have r1: "rs = [(?t, ?w)]" using rs ne packable by (simp add: array_records_def)
        have sc: "\<exists>m z. u = scalar_wire m ?f z" if "u \<in> set us" for u
          using item [OF that] packable by (auto simp: item_wire_def)
        have "consumes E d b fs a st (record_bytes (?t, ?w)) ?Q"
        proof (rule one)
          show "content (ni_stream st) = record_bytes (?t, ?w) @ rest" using st(4) r1 by (simp add: message_bytes_def)
          fix s1 assume s1: "is_callback s1 = cb" "content s1 = payload ?w @ rest" "unat (is_bytes_left s1) \<le> b0"
            "unat (is_bytes_left s1) < 2 ^ 32"
          show "\<exists>s' pm'. decode_static_field E d (noinit_around (noinit_loop E d b0)) s1 (wire_type ?w) (iter_at fs a k) (ni_mem st) =
              Some (True, s', pm') \<and> reads s1 (payload ?w) s' \<and> ?Q pm'"
            using packed_field_restores [OF s1(1,4,2) sc ne len ok True packable a blank] unfolding rs p_def c_def wire_type.simps .
        qed
        then show ?thesis using r1 by (simp add: message_bytes_def)
      next
        case unpacked: False
        have r1: "rs = map (Pair ?t) us" using rs ne unpacked by (simp add: array_records_def)
        have "consumes E d b fs a st (message_bytes (map (Pair ?t) us))
            (\<lambda>pm'. only_field fs a k (ni_mem st) pm' \<and> array_done D n ?f p c ([] @ us) (pm_bytes pm'))"
          using elements_consume [OF ok [unfolded D_def] a True unpacked, folded D_def p_def c_def, OF dec st(1-3)
              st(4) [unfolded r1] item zero] len by simp
        then show ?thesis
          unfolding r1 [symmetric]
          by (rule consumes_mono) (use array_field_done [OF ok True _ len] in \<open>simp add: rs\<close>)
      qed
    next
      case single: False
      then have h: "htype ?f = PB_HTYPE_OPTIONAL" using pf by (simp add: plain_field_def)
      let ?w = "item_wire (msg_content D m n) D m ?f x"
      have pr: "present m ?f x y" and r1: "rs = [(?t, ?w)]"
        using False single by (simp_all add: rs_def field_records_def D_def split: if_splits)
      have "consumes E d b fs a st (record_bytes (?t, ?w)) ?Q"
      proof (rule one)
        show "content (ni_stream st) = record_bytes (?t, ?w) @ rest" using st(4) r1 by (simp add: message_bytes_def)
        fix s1 assume s1: "is_callback s1 = cb" "content s1 = payload ?w @ rest" "unat (is_bytes_left s1) \<le> b0"
          "unat (is_bytes_left s1) < 2 ^ 32"
        show "\<exists>s' pm'. decode_static_field E d (noinit_around (noinit_loop E d b0)) s1 (wire_type ?w) (iter_at fs a k) (ni_mem st) =
            Some (True, s', pm') \<and> reads s1 (payload ?w) s' \<and> ?Q pm'"
          using optional_restores [OF dec0 [unfolded D_def] s1(1,3,4) s1(2) [unfolded D_def] ok [unfolded D_def] h pr
              fits [unfolded D_def] a blank [unfolded D_def]]
          unfolding r1 D_def p_def c_def by blast
      qed
      then show ?thesis using r1 by (simp add: message_bytes_def)
    qed
  qed (rule none)
qed

end

section \<open>Messages\<close>

lemma field_done_other:
  assumes "msg_ok D d fs sz" "plain_msg D (Suc n) fs" "only_field fs a k pm pm'" "j < length fs" "k < length fs" "j \<noteq> k"
    "field_done D n (fs ! j) (pm_bytes pm) (field_data fs a j) (size_addr (field_data fs a j) (fs ! j)) rs"
  shows "field_done D n (fs ! j) (pm_bytes pm') (field_data fs a j) (size_addr (field_data fs a j) (fs ! j)) rs"
proof -
  have sep: "separate fs" using assms(2) by simp
  have "local_msg (\<lambda>m. msg_fits D m n) (\<lambda>m. msg_content D m n) (D (pf_ptr (fs ! j))) (unat (pf_data_size (fs ! j)))"
    if "ltype (fs ! j) = PB_LTYPE_SUBMESSAGE"
    using message_local [OF msg_ok_sub_same(2) [OF assms(1,4) that] plain_msg_sub [OF assms(2,4) that]] .
  then show ?thesis
    using field_local [where F = "\<lambda>m. msg_fits D m n" and C = "\<lambda>m. msg_content D m n" and D = D,
        OF only_field_other [OF assms(3,1) sep assms(4-6)] _ plain_msgD [OF assms(2,4)]] assms(7)
    by (simp add: field_done_def)
qed

abbreviation (input) records_at :: "(nat \<Rightarrow> pb_field list) \<Rightarrow> mem \<Rightarrow> nat \<Rightarrow> pb_field list \<Rightarrow> nat \<Rightarrow> nat \<Rightarrow> (u32 \<times> wire) list" where
  "records_at D m n fs a k \<equiv>
     field_records (msg_content D m n) D m (fs ! k) (field_data fs a k) (size_addr (field_data fs a k) (fs ! k))"

abbreviation (input) done_at :: "(nat \<Rightarrow> pb_field list) \<Rightarrow> nat \<Rightarrow> pb_field list \<Rightarrow> nat \<Rightarrow> (nat \<Rightarrow> (u32 \<times> wire) list) \<Rightarrow> nat \<Rightarrow> mem \<Rightarrow> bool" where
  "done_at D n fs a rs j m \<equiv>
     field_done D n (fs ! j) m (field_data fs a j) (size_addr (field_data fs a j) (fs ! j)) (rs j)"

context pb_source
begin

lemma fields_consume:
  fixes E :: "'s dec_env" and fs :: "pb_field list" and m n a
  defines "D \<equiv> de_descs E" and "rs \<equiv> records_at (de_descs E) m n fs a"
  assumes ok: "msg_ok D d fs sz" "plain_msg D (Suc n) fs" and p: "p \<noteq> 0"
    and fits: "\<And>k. k < length fs \<Longrightarrow>
      field_fits (msg_fits D m n) D m (fs ! k) (field_data fs a k) (size_addr (field_data fs a k) (fs ! k))"
  shows "(\<And>b'. b' < b \<Longrightarrow> restores D d b' (noinit_around (noinit_loop E d b'))) \<Longrightarrow>
    at_record fs p st \<Longrightarrow> unat (is_bytes_left (ni_stream st)) < b \<Longrightarrow> unat (is_bytes_left (ni_stream st)) < 2 ^ 32 \<Longrightarrow>
    k \<le> length fs \<Longrightarrow> content (ni_stream st) = message_bytes (concat (map rs [k..<length fs])) \<Longrightarrow>
    (\<And>j. j < k \<Longrightarrow> done_at D n fs p rs j (pm_bytes (ni_mem st))) \<Longrightarrow>
    (\<And>j. k \<le> j \<Longrightarrow> j < length fs \<Longrightarrow> blank_at D (pm_bytes (ni_mem st)) n fs p j) \<Longrightarrow>
    consumes E d b fs p st (message_bytes (concat (map rs [k..<length fs])))
      (\<lambda>pm'. \<forall>j<length fs. done_at D n fs p rs j (pm_bytes pm'))"
proof (induction "length fs - k" arbitrary: k b st)
  case 0
  then have "k = length fs" by simp
  then show ?case using "0.prems" by (simp add: message_bytes_def consumes_nil)
next
  case (Suc i)
  have k: "k < length fs" using Suc.hyps(2) by simp
  have split: "message_bytes (concat (map rs [k..<length fs])) =
      message_bytes (rs k) @ message_bytes (concat (map rs [Suc k..<length fs]))"
    using k by (simp add: upt_conv_Cons message_bytes_def)
  have ct: "content (ni_stream st) = message_bytes (rs k) @ message_bytes (concat (map rs [Suc k..<length fs]))"
    using Suc.prems(6) split by simp
  have first: "consumes E d b fs p st (message_bytes (rs k))
      (\<lambda>pm'. only_field fs p k (ni_mem st) pm' \<and> done_at D n fs p rs k (pm_bytes pm'))"
    using field_consumes [OF ok [unfolded D_def] k p Suc.prems(1) [unfolded D_def] Suc.prems(2-4)
        ct [unfolded rs_def] fits [OF k, unfolded D_def] Suc.prems(8) [OF order_refl k, unfolded D_def]]
    unfolding D_def rs_def by simp
  show ?case
    unfolding split
  proof (rule consumes_append [OF first ct])
    fix b' st' assume st': "b' \<le> b" "unat (is_bytes_left (ni_stream st')) < b'" "at_record fs p st'"
      "only_field fs p k (ni_mem st) (ni_mem st') \<and> done_at D n fs p rs k (pm_bytes (ni_mem st'))"
      "content (ni_stream st') = message_bytes (concat (map rs [Suc k..<length fs]))"
    have small: "unat (is_bytes_left (ni_stream st')) < 2 ^ 32" using content_le [OF ct st'(5)] Suc.prems(4) by simp
    show "consumes E d b' fs p st' (message_bytes (concat (map rs [Suc k..<length fs])))
      (\<lambda>pm'. \<forall>j<length fs. done_at D n fs p rs j (pm_bytes pm'))"
    proof (rule Suc.hyps(1) [OF _ _ st'(3,2) small _ st'(5)])
      show "i = length fs - Suc k" "Suc k \<le> length fs" using Suc.hyps(2) by simp_all
      show "restores D d b'' (noinit_around (noinit_loop E d b''))" if "b'' < b'" for b''
        using Suc.prems(1) that st'(1) by simp
      show "done_at D n fs p rs j (pm_bytes (ni_mem st'))" if "j < Suc k" for j
      proof (cases "j = k")
        case False
        then have "j < k" using that by simp
        then show ?thesis
          using field_done_other [OF ok conjunct1 [OF st'(4)] _ k False Suc.prems(7)] k by simp
      qed (use st'(4) in simp)
      show "blank_at D (pm_bytes (ni_mem st')) n fs p j" if "Suc k \<le> j" "j < length fs" for j
        using blank_at_other [OF ok conjunct1 [OF st'(4)] that(2) k] Suc.prems(8) [of j] that by simp
    qed
  qed
qed

lemma noinit_restores: "restores (de_descs E) d b (noinit_around (noinit_loop E d b) :: 's msg_decoder)"
proof (induction b rule: less_induct)
  case (less b)
  let ?D = "de_descs E"
  show ?case
    unfolding restores_def
  proof (intro allI impI)
    fix n and s :: "'s pb_istream" and fs and pm :: pb_mem and p sz m a
    assume s: "is_callback s = cb" "unat (is_bytes_left s) < b" "unat (is_bytes_left s) < 2 ^ 32"
      and ok: "msg_ok ?D d fs sz" "plain_msg ?D n fs" and fits: "msg_fits ?D m n fs a"
      and ct: "content s = message_bytes (msg_content ?D m n fs a)" and blank: "blank ?D (pm_bytes pm) n fs p"
      and p: "p \<noteq> 0"
    obtain n' where n: "n = Suc n'" using ok(2) by (cases n) simp_all
    note pl = ok(2) [unfolded n]
    let ?rs = "records_at ?D m n' fs a" and ?st = "noinit_start s fs pm p"
    have tg: "tagged fs" using msg_okD(1) [OF ok(1)] .
    have cont: "msg_content ?D m n fs a = concat (map ?rs [0..<length fs])" unfolding n by simp
    have "\<exists>b' st'. noinit_loop E d b ?st = noinit_loop E d b' st' \<and> unat (is_bytes_left (ni_stream st')) < b' \<and>
        reads s (content s) (ni_stream st') \<and> ni_fixed_count_field st' = None \<and>
        (\<exists>j. ni_iter st' = iter_at fs p j \<and> (fs \<noteq> [] \<longrightarrow> j < length fs) \<and> (fs = [] \<longrightarrow> j = 0)) \<and>
        (\<forall>j<length fs. done_at ?D n' fs p ?rs j (pm_bytes (ni_mem st')))"
    proof (cases "fs = []")
      case True
      then have "content s = []" using ct n by (simp add: message_bytes_def)
      then show ?thesis
        using True s by (intro exI [of _ b] exI [of _ ?st]) (simp add: reads_refl noinit_start_def begin_iter)
    next
      case False
      then have at: "at_record fs p ?st"
        using s(1) by (auto simp: at_record_def noinit_start_def begin_iter)
      have "consumes E d b fs p ?st (message_bytes (concat (map ?rs [0..<length fs])))
          (\<lambda>pm'. \<forall>j<length fs. done_at ?D n' fs p ?rs j (pm_bytes pm'))"
        using ct s(2,3) fits blank unfolding n
        by (intro fields_consume [OF ok(1) pl p] less.IH at) (simp_all add: list_all_iff)
      then obtain b' st' where "noinit_loop E d b ?st = noinit_loop E d b' st'"
        "unat (is_bytes_left (ni_stream st')) < b'" "reads s (content s) (ni_stream st')" "at_record fs p st'"
        "\<forall>j<length fs. done_at ?D n' fs p ?rs j (pm_bytes (ni_mem st'))"
        unfolding consumes_def ct cont by (auto simp: noinit_start_def)
      then show ?thesis
        using False unfolding at_record_def by (intro exI [of _ b'] exI [of _ st']) blast
    qed
    then obtain b' st' j where r: "noinit_loop E d b ?st = noinit_loop E d b' st'"
      "unat (is_bytes_left (ni_stream st')) < b'" "reads s (content s) (ni_stream st')" "ni_fixed_count_field st' = None"
      "ni_iter st' = iter_at fs p j" "fs \<noteq> [] \<longrightarrow> j < length fs" "fs = [] \<longrightarrow> j = 0"
      "\<forall>j<length fs. done_at ?D n' fs p ?rs j (pm_bytes (ni_mem st'))" by blast
    have "content (ni_stream st') = []" using reads_content [OF r(3), of "[]"] by simp
    then have "is_bytes_left (ni_stream st') = 0" by (metis length_content list.size(3) unat_eq_zero)
    then have loop: "noinit_loop E d b ?st = Some (True, st')" using r(1,2) by (cases b') simp_all
    have "list_all (\<lambda>f. htype f \<noteq> PB_HTYPE_REQUIRED) fs"
      using plain_msgD [OF ok(2)] plain_not_required by (simp add: list_all_length)
    note req = nothing_required [OF tg this r(6,7), of "ni_fields_seen st'" p]
    let ?pm' = "(ni_mem st')\<lparr>pm_fixed := pm_fixed pm\<rparr>"
    have "noinit_around (noinit_loop E d b) s fs pm p = Some (True, ni_stream st', ?pm')"
      using loop req r(4,5) by (simp add: noinit_around_def noinit_start_def fixed_count_wrong_def Let_def)
    moreover have "msg_fits ?D (pm_bytes ?pm') n fs p"
      using r(8) tg unfolding n by (simp add: list_all_iff field_done_def)
    moreover have "msg_content ?D (pm_bytes ?pm') n fs p = msg_content ?D m n fs a"
      using r(8) unfolding n by (auto simp: field_done_def intro!: arg_cong [where f = concat])
    ultimately show "\<exists>s' pm'. noinit_around (noinit_loop E d b) s fs pm p = Some (True, s', pm') \<and>
        reads s (content s) s' \<and> msg_fits ?D (pm_bytes pm') n fs p \<and>
        msg_content ?D (pm_bytes pm') n fs p = msg_content ?D m n fs a"
      using r(3) by blast
  qed
qed

text \<open>\<open>pb_decode\<close> restores the message from its bytes, whatever the struct held before.\<close>

lemma decode_restores:
  fixes pm :: pb_mem
  assumes s: "is_callback s = cb" "unat (is_bytes_left s) < b" "unat (is_bytes_left s) < 2 ^ 32"
    and ok: "msg_ok (de_descs E) d fs sz" "plain_msg (de_descs E) n fs" and fits: "msg_fits (de_descs E) m n fs a"
    and ct: "content s = message_bytes (msg_content (de_descs E) m n fs a)" and p: "p \<noteq> 0"
  shows "\<exists>s' pm'. pb_decode E d b s fs pm p = Some (True, s', pm') \<and> reads s (content s) s' \<and>
    msg_fits (de_descs E) (pm_bytes pm') n fs p \<and>
    msg_content (de_descs E) (pm_bytes pm') n fs p = msg_content (de_descs E) m n fs a"
proof -
  obtain pm1 where pm1: "pb_message_set_to_defaults E d fs p pm = Some pm1"
    "blank (de_descs E) (pm_bytes pm1) n fs p" using defaults_blank [OF ok] by blast
  obtain s' pm' where "noinit_around (noinit_loop E d b) s fs pm1 p = Some (True, s', pm')"
    "reads s (content s) s'" "msg_fits (de_descs E) (pm_bytes pm') n fs p"
    "msg_content (de_descs E) (pm_bytes pm') n fs p = msg_content (de_descs E) m n fs a"
    using restoresD [OF noinit_restores s ok fits ct pm1(2) p] by blast
  then show ?thesis using pm1(1) by (auto simp: pb_decode_def pb_decode_noinit_def decode_message_def)
qed

end

end
