(* ===== verification/PbMessage.thy ===== *)
theory PbMessage
  imports PbLayout PbFuel PbBuffer PbRestore
begin

text \<open>
  nanopb, whole messages over memory buffers: the properties of \<open>pb_encode\<close> and \<open>pb_decode\<close>, with the
  messages of gRPC's load balancer (\<open>load_balancer.pb.c\<close>) as instances.
\<close>

unbundle bit_operations_syntax

section \<open>Messages of the load balancer\<close>

text \<open>
  The structs of \<open>load_balancer.pb.h\<close> and \<open>duration.pb.h\<close> as a compiler with pointers of eight bytes
  lays them out: 24, 96 and 88 bytes. The descriptors of a submessage are at the address given.
\<close>

definition google_protobuf_Duration_layout :: "pb_decl list" where
  "google_protobuf_Duration_layout =
     [\<lparr>pd_tag = 1, pd_ltype = PB_LTYPE_VARINT, pd_rule = OPTIONAL, pd_placement = FIRST,
       pd_member = \<lparr>mb_offset = 8, mb_size = 8, mb_entries = 1, mb_aux = 0\<rparr>, pd_ptr = 0\<rparr>,
      \<lparr>pd_tag = 2, pd_ltype = PB_LTYPE_VARINT, pd_rule = OPTIONAL, pd_placement = OTHER,
       pd_member = \<lparr>mb_offset = 20, mb_size = 4, mb_entries = 1, mb_aux = 16\<rparr>, pd_ptr = 0\<rparr>]"

definition grpc_lb_v1_InitialLoadBalanceResponse_layout :: "nat \<Rightarrow> pb_decl list" where
  "grpc_lb_v1_InitialLoadBalanceResponse_layout google_protobuf_Duration_ptr =
     [\<lparr>pd_tag = 1, pd_ltype = PB_LTYPE_STRING, pd_rule = OPTIONAL, pd_placement = FIRST,
       pd_member = \<lparr>mb_offset = 1, mb_size = 64, mb_entries = 1, mb_aux = 0\<rparr>, pd_ptr = 0\<rparr>,
      \<lparr>pd_tag = 2, pd_ltype = PB_LTYPE_SUBMESSAGE, pd_rule = OPTIONAL, pd_placement = OTHER,
       pd_member = \<lparr>mb_offset = 72, mb_size = 24, mb_entries = 1, mb_aux = 65\<rparr>,
       pd_ptr = google_protobuf_Duration_ptr\<rparr>]"

definition grpc_lb_v1_Server_layout :: "pb_decl list" where
  "grpc_lb_v1_Server_layout =
     [\<lparr>pd_tag = 1, pd_ltype = PB_LTYPE_BYTES, pd_rule = OPTIONAL, pd_placement = FIRST,
       pd_member = \<lparr>mb_offset = 4, mb_size = 20, mb_entries = 1, mb_aux = 0\<rparr>, pd_ptr = 0\<rparr>,
      \<lparr>pd_tag = 2, pd_ltype = PB_LTYPE_VARINT, pd_rule = OPTIONAL, pd_placement = OTHER,
       pd_member = \<lparr>mb_offset = 28, mb_size = 4, mb_entries = 1, mb_aux = 24\<rparr>, pd_ptr = 0\<rparr>,
      \<lparr>pd_tag = 3, pd_ltype = PB_LTYPE_STRING, pd_rule = OPTIONAL, pd_placement = OTHER,
       pd_member = \<lparr>mb_offset = 33, mb_size = 50, mb_entries = 1, mb_aux = 32\<rparr>, pd_ptr = 0\<rparr>,
      \<lparr>pd_tag = 4, pd_ltype = PB_LTYPE_VARINT, pd_rule = OPTIONAL, pd_placement = OTHER,
       pd_member = \<lparr>mb_offset = 84, mb_size = 1, mb_entries = 1, mb_aux = 83\<rparr>, pd_ptr = 0\<rparr>]"

definition google_protobuf_Duration_fields :: "pb_field list" where
  "google_protobuf_Duration_fields = fields_of google_protobuf_Duration_layout"

definition grpc_lb_v1_InitialLoadBalanceResponse_fields :: "nat \<Rightarrow> pb_field list" where
  "grpc_lb_v1_InitialLoadBalanceResponse_fields ptr =
     fields_of (grpc_lb_v1_InitialLoadBalanceResponse_layout ptr)"

definition grpc_lb_v1_Server_fields :: "pb_field list" where
  "grpc_lb_v1_Server_fields = fields_of grpc_lb_v1_Server_layout"

lemmas layout_simps = laid_out_def decl_ok_def next_ok_def aux_of_def aux_size_def pb_membersize_def
  upt_conv_Cons word_le_nat_alt

lemma duration_laid_out: "laid_out 24 google_protobuf_Duration_layout"
  by (simp add: layout_simps google_protobuf_Duration_layout_def)

lemma initial_response_laid_out: "laid_out 96 (grpc_lb_v1_InitialLoadBalanceResponse_layout ptr)"
  by (simp add: layout_simps grpc_lb_v1_InitialLoadBalanceResponse_layout_def)

lemma server_laid_out: "laid_out 88 grpc_lb_v1_Server_layout"
  by (simp add: layout_simps grpc_lb_v1_Server_layout_def)

lemma server_descs_ok: "msg_ok D 1 grpc_lb_v1_Server_fields 88"
  unfolding One_nat_def grpc_lb_v1_Server_fields_def
  by (rule layout_msg_ok [OF server_laid_out]) (simp add: grpc_lb_v1_Server_layout_def)

lemma duration_descs_ok: "msg_ok D 1 google_protobuf_Duration_fields 24"
  unfolding One_nat_def google_protobuf_Duration_fields_def
  by (rule layout_msg_ok [OF duration_laid_out]) (simp add: google_protobuf_Duration_layout_def)

section \<open>Descriptors\<close>

text \<open>C5. The descriptors that the macros of \<open>pb.h\<close> make of a struct are well formed: for a struct
whose members lie in order and without overlap, the field iterator finds every field and its
\<open>has_\<close>, \<open>_count\<close> or \<open>which_\<close> member at the offset the compiler gave it, through unions too, and
all of them inside the struct.\<close>

theorem layout_descriptors_ok:
  assumes "laid_out sz ds"
    and "\<forall>d\<in>set ds. pd_ltype d = PB_LTYPE_SUBMESSAGE \<longrightarrow>
      pd_ptr d \<noteq> 0 \<and> msg_ok D n (D (pd_ptr d)) (mb_size (pd_member d))"
  shows "msg_ok D (Suc n) (fields_of ds) sz \<and>
    (\<forall>k<length ds. fi_data (iter_at (fields_of ds) a k) = a + mb_offset (pd_member (ds ! k)) \<and>
       fi_size (iter_at (fields_of ds) a k) = SizeAt (a + aux_of (ds ! k)) \<and>
       pb_field_iter_next (iter_at (fields_of ds) a k) =
         (if Suc k < length ds then (True, iter_at (fields_of ds) a (Suc k))
          else (False, iter_at (fields_of ds) a 0)))"
proof -
  note ok = layout_msg_ok [OF assms]
  then show ?thesis
    using layout_addresses [OF assms(1), of _ a] next_iter_at0 [OF msg_okD(1) [OF ok], of _ a] by simp
qed

theorem layout_descriptors_ok_witness:
  "msg_ok (\<lambda>_. google_protobuf_Duration_fields) 2 (grpc_lb_v1_InitialLoadBalanceResponse_fields 1) 96 \<and>
   fi_data (iter_at (grpc_lb_v1_InitialLoadBalanceResponse_fields 1) 1000 1) = 1072 \<and>
   fi_size (iter_at (grpc_lb_v1_InitialLoadBalanceResponse_fields 1) 1000 1) = SizeAt 1065"
proof -
  have sub: "\<forall>d\<in>set (grpc_lb_v1_InitialLoadBalanceResponse_layout 1). pd_ltype d = PB_LTYPE_SUBMESSAGE \<longrightarrow>
      pd_ptr d \<noteq> 0 \<and> msg_ok (\<lambda>_. google_protobuf_Duration_fields) 1 google_protobuf_Duration_fields
        (mb_size (pd_member d))"
    using duration_descs_ok
    by (simp add: grpc_lb_v1_InitialLoadBalanceResponse_layout_def del: One_nat_def)
  have two: "Suc 1 = (2 :: nat)" by simp
  note r = layout_descriptors_ok [OF initial_response_laid_out sub, of 1000, unfolded two,
      folded grpc_lb_v1_InitialLoadBalanceResponse_fields_def]
  have "1 < length (grpc_lb_v1_InitialLoadBalanceResponse_layout 1)"
    "mb_offset (pd_member (grpc_lb_v1_InitialLoadBalanceResponse_layout 1 ! 1)) = 72"
    "aux_of (grpc_lb_v1_InitialLoadBalanceResponse_layout 1 ! 1) = 65"
    by (simp_all add: grpc_lb_v1_InitialLoadBalanceResponse_layout_def aux_of_def)
  then show ?thesis using r by (auto dest!: spec [of _ 1])
qed

section \<open>Encoding\<close>

lemma ostream_buffer_usable: "buf_sink.usable base (pb_ostream_from_buffer mem base n)"
  using ostream_buffer_opened [of base mem n]
  by (simp add: buf_sink.usable_def buf_sink.enough_def ostream_buffer_room)
    (simp add: pb_ostream_from_buffer_def)

lemma sizing_usable: "buf_sink.usable base (pb_ostream_sizing st)"
  by (simp add: buf_sink.usable_def buf_sink.enough_def pb_ostream_sizing_def)

lemma encode_to_buffer:
  fixes E :: "obuf enc_env"
  defines "bs \<equiv> \<lambda>n fs a. message_bytes (msg_content (ee_descs E) (ee_mem E) n fs a)"
  assumes "msg_fits (ee_descs E) (ee_mem E) n fs a" "length (bs n fs a) < 2 ^ 64"
  shows "\<exists>ok os. pb_encode E (Suc n) (pb_ostream_from_buffer mem buf bufsize) fs a = Some (ok, os) \<and>
    (ok \<longleftrightarrow> length (bs n fs a) \<le> unat bufsize) \<and>
    (ok \<longrightarrow> buf_sink.emits buf (pb_ostream_from_buffer mem buf bufsize) (bs n fs a) os)"
proof -
  let ?s = "pb_ostream_from_buffer mem buf bufsize"
  have w: "buf_sink.nowrap ?s (length (bs n fs a))"
    using assms(3) by (simp add: buf_sink.nowrap_def pb_ostream_from_buffer_def)
  note enc = buf_sink.encodesD [OF buf_sink.message_outcome ostream_buffer_usable assms(2) w [unfolded bs_def]]
  then obtain ok os where os: "pb_encode E (Suc n) ?s fs a = Some (ok, os)"
    "buf_sink.outcome buf ?s (bs n fs a) (ok, os)"
    unfolding bs_def by (auto simp: buf_sink.outcomes_def)
  have cb: "os_callback ?s \<noteq> None" by (simp add: pb_ostream_from_buffer_def)
  then have fit: "buf_sink.enough ?s k \<longleftrightarrow> k \<le> unat bufsize" for k
    by (simp add: buf_sink.enough_def ostream_buffer_room del: not_None_eq)
  then show ?thesis
    using os cb by (auto simp: buf_sink.outcome_def buf_sink.grows_def split: if_splits)
qed

lemma encoded_size:
  fixes E :: "obuf enc_env"
  defines "bs \<equiv> \<lambda>n fs a. message_bytes (msg_content (ee_descs E) (ee_mem E) n fs a)"
  assumes "msg_fits (ee_descs E) (ee_mem E) n fs a" "length (bs n fs a) < 2 ^ 64"
  shows "pb_get_encoded_size E (Suc n) st fs a = Some (True, of_nat (length (bs n fs a)))"
proof -
  let ?z = "pb_ostream_sizing st"
  have w: "buf_sink.nowrap ?z (length (bs n fs a))"
    using assms(3) by (simp add: buf_sink.nowrap_def pb_ostream_sizing_def)
  note enc = buf_sink.encodesD [OF buf_sink.message_outcome sizing_usable assms(2) w [unfolded bs_def]]
  then obtain z where "pb_encode E (Suc n) ?z fs a = Some (True, z)"
    "os_bytes_written z = of_nat (length (bs n fs a))"
    unfolding bs_def
    by (auto simp: buf_sink.outcomes_def buf_sink.outcome_def buf_sink.enough_def buf_sink.grows_def
        pb_ostream_sizing_def)
  then show ?thesis by (simp add: pb_get_encoded_size_def)
qed

lemma emitted_bytes:
  assumes "buf_sink.emits buf (pb_ostream_from_buffer mem buf bufsize) bs os"
  shows "load_bytes (ob_mem (os_state os)) buf (length bs) = bs" "unat (os_bytes_written os) = length bs"
proof -
  show n: "unat (os_bytes_written os) = length bs"
    using assms by (simp add: buf_sink.emits_def pb_ostream_from_buffer_def)
  show "load_bytes (ob_mem (os_state os)) buf (length bs) = bs"
    using buffer_written_content [OF assms] n by (simp add: istream_buffer_content load_bytes_def)
qed

text \<open>C1. \<open>pb_encode\<close> writes exactly the protobuf wire format of a struct whose fields are static:
into a buffer it succeeds if and only if all bytes fit, and then the buffer holds them and the
counter is their number; \<open>pb_get_encoded_size\<close> gives the same number.\<close>

theorem message_encoding_exact:
  assumes "msg_fits (ee_descs E) (ee_mem E) n fs a"
    and "length (message_bytes (msg_content (ee_descs E) (ee_mem E) n fs a)) < 2 ^ 64"
  shows "let bs = message_bytes (msg_content (ee_descs E) (ee_mem E) n fs a) in
    (\<exists>ok os. pb_encode E (Suc n) (pb_ostream_from_buffer mem buf bufsize) fs a = Some (ok, os) \<and>
       (ok \<longleftrightarrow> length bs \<le> unat bufsize) \<and>
       (ok \<longrightarrow> load_bytes (ob_mem (os_state os)) buf (length bs) = bs \<and>
          unat (os_bytes_written os) = length bs)) \<and>
    pb_get_encoded_size E (Suc n) st fs a = Some (True, of_nat (length bs))"
  using encode_to_buffer [OF assms, of mem buf bufsize] encoded_size [OF assms, of st] emitted_bytes
  unfolding Let_def by blast

text \<open>A \<open>grpc_lb_v1_Server\<close> in memory: 127.0.0.1, port 443, the token \<open>t\<close>, to be dropped.\<close>

definition server_struct :: mem where
  "server_struct = put_bytes (\<lambda>_. 0) 8
     ([1, 0, 0, 0, 4, 0, 0, 0, 127, 0, 0, 1] @ replicate 12 0 @ [1, 0, 0, 0, 0xBB, 0x01, 0, 0, 1, 116] @
      replicate 49 0 @ [1, 1])"

definition server_env :: "obuf enc_env" where
  "server_env = \<lparr>ee_descs = \<lambda>_. [], ee_mem = server_struct,
     ee_callback = \<lambda>_ s _ _. (False, s), ee_extension = \<lambda>_ s _. (False, s)\<rparr>"

definition server_bytes :: "u8 list" where
  "server_bytes = [0x0A, 4, 127, 0, 0, 1, 0x10, 0xBB, 0x03, 0x1A, 1, 116, 0x20, 1]"

lemma server_struct_fits: "msg_fits (\<lambda>_. []) server_struct 1 grpc_lb_v1_Server_fields 8"
  by code_simp

lemma server_struct_bytes:
  "message_bytes (msg_content (\<lambda>_. []) server_struct 1 grpc_lb_v1_Server_fields 8) = server_bytes"
  by code_simp

theorem message_encoding_exact_witness:
  "(\<exists>os. pb_encode server_env 2 (pb_ostream_from_buffer (\<lambda>_. 0) 100 14) grpc_lb_v1_Server_fields 8 =
       Some (True, os) \<and> load_bytes (ob_mem (os_state os)) 100 14 = server_bytes) \<and>
   (\<exists>os. pb_encode server_env 2 (pb_ostream_from_buffer (\<lambda>_. 0) 100 13) grpc_lb_v1_Server_fields 8 =
       Some (False, os)) \<and>
   pb_get_encoded_size server_env 2 \<lparr>ob_mem = \<lambda>_. 0, ob_dest = 0\<rparr> grpc_lb_v1_Server_fields 8 = Some (True, 14)"
proof -
  have sel: "ee_descs server_env = (\<lambda>_. [])" "ee_mem server_env = server_struct" by (simp_all add: server_env_def)
  have len: "length server_bytes = 14" by (simp add: server_bytes_def)
  have two: "Suc 1 = (2 :: nat)" by simp
  note r = message_encoding_exact [of server_env 1 grpc_lb_v1_Server_fields 8, unfolded sel
      server_struct_bytes two len Let_def, OF server_struct_fits]
  show ?thesis
    using r [of "\<lambda>_. 0" 100 14 "\<lparr>ob_mem = \<lambda>_. 0, ob_dest = 0\<rparr>"]
      r [of "\<lambda>_. 0" 100 13 "\<lparr>ob_mem = \<lambda>_. 0, ob_dest = 0\<rparr>"] by (simp add: ex_bool_eq) blast
qed

section \<open>The size of a message\<close>

lemma server_tags:
  "length (tag_bytes 1 2) = 1" "length (tag_bytes 2 0) = 1" "length (tag_bytes 3 2) = 1" "length (tag_bytes 4 0) = 1"
  by code_simp+

lemma delimited_length:
  assumes "length bs < 128"
  shows "length (payload (Delimited bs)) = 1 + length bs"
proof -
  have "unat (of_nat (length bs) :: u64) = length bs" using assms by (intro unat_of_nat_small) simp
  then have "(of_nat (length bs) :: u64) \<le> 0x7F" using assms by (simp add: word_le_nat_alt)
  then show ?thesis by (simp add: varint_bytes_small)
qed

lemma varint_length: "length (payload (Varint v)) \<le> 10"
  using varint_bytes_length_bounds [of v] by simp

lemma bool_length: "m a \<le> 1 \<Longrightarrow> length (payload (Varint (the (load_signed m a 1)))) = 1"
proof -
  assume "m a \<le> 1"
  then have "m a = 0 \<or> m a = 1" by (simp add: word_le_nat_alt word_unat_eq_iff) linarith
  then show ?thesis by (auto simp: load_signed_def varint_bytes_small)
qed

text \<open>The fields of a server, each by itself.\<close>

lemma server_fields:
  "grpc_lb_v1_Server_fields =
    [\<lparr>pf_tag = 1, pf_type = 0x15, pf_data_offset = 4, pf_size_offset = - 4, pf_data_size = 20, pf_array_size = 0, pf_ptr = 0\<rparr>,
     \<lparr>pf_tag = 2, pf_type = 0x10, pf_data_offset = 4, pf_size_offset = - 4, pf_data_size = 4, pf_array_size = 0, pf_ptr = 0\<rparr>,
     \<lparr>pf_tag = 3, pf_type = 0x16, pf_data_offset = 1, pf_size_offset = - 1, pf_data_size = 50, pf_array_size = 0, pf_ptr = 0\<rparr>,
     \<lparr>pf_tag = 4, pf_type = 0x10, pf_data_offset = 1, pf_size_offset = - 1, pf_data_size = 1, pf_array_size = 0, pf_ptr = 0\<rparr>]"
  by code_simp

lemmas field_type_defs = PB_LTYPE_def PB_HTYPE_def PB_ATYPE_def

lemma server_addresses:
  "k < 4 \<Longrightarrow> field_data grpc_lb_v1_Server_fields a k = a + [4, 28, 33, 84] ! k \<and>
   size_addr (field_data grpc_lb_v1_Server_fields a k) (grpc_lb_v1_Server_fields ! k) = a + [0, 24, 32, 83] ! k"
proof -
  assume "k < 4"
  then have k: "k = 0 \<or> k = 1 \<or> k = 2 \<or> k = 3" by linarith
  have k4: "k < length grpc_lb_v1_Server_layout" using \<open>k < 4\<close> by (simp add: grpc_lb_v1_Server_layout_def)
  have "field_data grpc_lb_v1_Server_fields a k = a + mb_offset (pd_member (grpc_lb_v1_Server_layout ! k))"
    using layout_addresses [OF server_laid_out k4, of a] by (simp add: grpc_lb_v1_Server_fields_def)
  moreover have "size_addr (a + mb_offset (pd_member (grpc_lb_v1_Server_layout ! k))) (grpc_lb_v1_Server_fields ! k) =
      a + aux_of (grpc_lb_v1_Server_layout ! k)"
    using layout_size_addr [OF laid_outD(1,2) [OF server_laid_out k4]] k4
    by (simp add: grpc_lb_v1_Server_fields_def fields_of_nth)
  ultimately show ?thesis
    using k by (auto simp: grpc_lb_v1_Server_layout_def aux_of_def)
qed

lemma server_content:
  "msg_content D m 1 grpc_lb_v1_Server_fields a =
     (if m a \<noteq> 0 then [(1, Delimited (load_bytes m (a + 8) (unat (load32 m (a + 4)))))] else []) @
     (if m (a + 24) \<noteq> 0 then [(2, Varint (the (load_signed m (a + 28) 4)))] else []) @
     (if m (a + 32) \<noteq> 0 then [(3, Delimited (c_str m (a + 33) 50))] else []) @
     (if m (a + 83) \<noteq> 0 then [(4, Varint (the (load_signed m (a + 84) 1)))] else [])"
proof -
  have n: "[0..<length grpc_lb_v1_Server_fields] = [0, 1, 2, 3]" by (simp add: server_fields upt_conv_Cons)
  let ?fs = "grpc_lb_v1_Server_fields" and ?c = "msg_content D m 0"
  have step: "field_records ?c D m (?fs ! k) (field_data ?fs a k) (size_addr (field_data ?fs a k) (?fs ! k)) =
      (if m (a + [0, 24, 32, 83] ! k) \<noteq> 0
       then [(pf_tag (?fs ! k), item_wire ?c D m (?fs ! k) (a + [4, 28, 33, 84] ! k))] else [])"
    if "k \<in> set [0, 1, 2, 3]" for k
  proof -
    have "htype (?fs ! k) = PB_HTYPE_OPTIONAL" "pf_size_offset (?fs ! k) \<noteq> 0"
      using that by (auto simp: server_fields field_type_defs)
    then show ?thesis
      using server_addresses [of k a] that
      by (simp add: field_records_def present_def del: field_data.simps) auto
  qed
  have "msg_content D m 1 ?fs a =
      concat (map (\<lambda>k. field_records ?c D m (?fs ! k) (field_data ?fs a k)
        (size_addr (field_data ?fs a k) (?fs ! k))) [0, 1, 2, 3])"
    unfolding One_nat_def msg_content.simps n [unfolded One_nat_def] ..
  also have "\<dots> = concat (map (\<lambda>k. if m (a + [0, 24, 32, 83] ! k) \<noteq> 0
       then [(pf_tag (?fs ! k), item_wire ?c D m (?fs ! k) (a + [4, 28, 33, 84] ! k))] else []) [0, 1, 2, 3])"
    by (intro arg_cong [where f = concat] map_cong refl step)
  finally show ?thesis
    by (simp add: server_fields item_wire_def scalar_wire_def field_type_defs add.commute [of 8])
qed

lemma message_bytes_append: "message_bytes (rs @ rs') = message_bytes rs @ message_bytes rs'"
  by (simp add: message_bytes_def)

lemma part_length: "(b \<Longrightarrow> length (record_bytes r) \<le> k) \<Longrightarrow> length (message_bytes (if b then [r] else [])) \<le> k"
  by (simp add: message_bytes_def)

lemma server_length:
  assumes "msg_fits D m 1 grpc_lb_v1_Server_fields a" "m (a + 84) \<le> 1"
  shows "length (message_bytes (msg_content D m 1 grpc_lb_v1_Server_fields a)) \<le> 83"
proof -
  let ?bs = "load_bytes m (a + 8) (unat (load32 m (a + 4)))" and ?tok = "c_str m (a + 33) 50"
  have fits: "field_fits (msg_fits D m 0) D m (grpc_lb_v1_Server_fields ! 0) (a + 4) a"
    using assms(1) server_addresses [of 0 a] by (auto simp: list_all_iff server_fields)
  have ip: "length ?bs \<le> 16" if "m a \<noteq> 0"
    using fits that by (simp add: field_fits_def present_def item_fits_def server_fields field_type_defs)
  have tok: "length ?tok \<le> 50" by (rule length_c_str)
  let ?r1 = "(1, Delimited ?bs) :: u32 \<times> wire" and ?r2 = "(2, Varint (the (load_signed m (a + 28) 4))) :: u32 \<times> wire"
    and ?r3 = "(3, Delimited ?tok) :: u32 \<times> wire" and ?r4 = "(4, Varint (the (load_signed m (a + 84) 1))) :: u32 \<times> wire"
  have r1: "m a \<noteq> 0 \<Longrightarrow> length (record_bytes ?r1) \<le> 18"
    using ip delimited_length [of ?bs] by (simp add: record_bytes_def server_tags del: payload.simps)
  have r2: "length (record_bytes ?r2) \<le> 11"
    using varint_length [of "the (load_signed m (a + 28) 4)"]
    by (simp add: record_bytes_def server_tags del: payload.simps)
  have r3: "length (record_bytes ?r3) \<le> 52"
    using tok delimited_length [of ?tok] by (simp add: record_bytes_def server_tags del: payload.simps)
  have r4: "length (record_bytes ?r4) \<le> 2"
    using bool_length [of m "a + 84"] assms(2) by (simp add: record_bytes_def server_tags del: payload.simps)
  show ?thesis
    unfolding server_content message_bytes_append length_append
    using part_length [of "m a \<noteq> 0" ?r1 18] part_length [of "m (a + 24) \<noteq> 0" ?r2 11]
      part_length [of "m (a + 32) \<noteq> 0" ?r3 52] part_length [of "m (a + 83) \<noteq> 0" ?r4 2] r1 r2 r3 r4
    by linarith
qed

text \<open>C6. The constant \<open>grpc_lb_v1_Server_size\<close> of the generated header is right: a server always
encodes in at most 83 bytes, so \<open>pb_encode\<close> succeeds on every buffer of that size.\<close>

theorem server_encodes_in_83_bytes:
  assumes "msg_fits (ee_descs E) (ee_mem E) 1 grpc_lb_v1_Server_fields a" "ee_mem E (a + 84) \<le> 1" "83 \<le> bufsize"
  shows "\<exists>os. pb_encode E 2 (pb_ostream_from_buffer mem buf bufsize) grpc_lb_v1_Server_fields a = Some (True, os) \<and>
    os_bytes_written os \<le> 83"
proof -
  let ?bs = "message_bytes (msg_content (ee_descs E) (ee_mem E) 1 grpc_lb_v1_Server_fields a)"
  have len: "length ?bs \<le> 83" by (rule server_length [OF assms(1,2)])
  then have lim: "length ?bs < 2 ^ 64" by simp
  have two: "Suc 1 = (2 :: nat)" by simp
  have fit: "length ?bs \<le> unat bufsize" using len assms(3) by (simp add: word_le_nat_alt)
  obtain os where os: "pb_encode E 2 (pb_ostream_from_buffer mem buf bufsize) grpc_lb_v1_Server_fields a = Some (True, os)"
    "buf_sink.emits buf (pb_ostream_from_buffer mem buf bufsize) ?bs os"
    using encode_to_buffer [OF assms(1) lim, of mem buf bufsize, unfolded two] fit by auto
  then show ?thesis
    using len emitted_bytes(2) [OF os(2)] by (simp add: word_le_nat_alt)
qed

theorem server_encodes_in_83_bytes_witness:
  "\<exists>os. pb_encode server_env 2 (pb_ostream_from_buffer (\<lambda>_. 0) 100 83) grpc_lb_v1_Server_fields 8 = Some (True, os) \<and>
    os_bytes_written os \<le> 83"
proof (rule server_encodes_in_83_bytes)
  show "msg_fits (ee_descs server_env) (ee_mem server_env) 1 grpc_lb_v1_Server_fields 8"
    using server_struct_fits by (simp add: server_env_def del: One_nat_def)
  show "ee_mem server_env (8 + 84) \<le> 1" by code_simp
qed simp

section \<open>Decoding arbitrary input\<close>

context pb_source
begin

lemma delimited_safe:
  assumes "is_callback s = cb" "unat (is_bytes_left s) < n"
    and "\<And>t. is_callback t = cb \<Longrightarrow> unat (is_bytes_left t) < n \<Longrightarrow> decode t fs pm dest \<noteq> None"
  shows "decode_delimited decode s fs pm dest \<noteq> None"
proof -
  obtain ok sub t where m: "pb_make_string_substream s = (ok, sub, t)" by (cases "pb_make_string_substream s")
  show ?thesis
  proof (cases ok)
    case True
    then have "decode sub fs pm dest \<noteq> None"
      using make_substream_later [OF m] assms by simp
    then show ?thesis using m by (auto simp: decode_delimited_def split: prod.splits)
  next
    case False
    then show ?thesis using m by (simp add: decode_delimited_def)
  qed
qed

end

lemmas buffer_noinit_safe = pb_source.noinit_safe [OF buf_source.pb_source_axioms]
lemmas buffer_decode_safe = pb_source.decode_safe [OF buf_source.pb_source_axioms]

lemma fuel_enough:
  assumes "\<And>k k'. k \<le> k' \<Longrightarrow> decoder_le (f k) (f k')" "f (Suc n) s fs pm dest \<noteq> None"
  shows "\<exists>r. \<forall>fuel>n. f fuel s fs pm dest = Some r"
proof -
  from assms(2) obtain r where r: "f (Suc n) s fs pm dest = Some r" by blast
  have "f fuel s fs pm dest = Some r" if "fuel > n" for fuel
    using decoder_leD [OF assms(1) [of "Suc n" fuel], of s fs pm dest] that r by simp
  then show ?thesis by blast
qed

text \<open>C4. Decoding static messages always ends: for descriptors whose fields are all static, with
submessages nested to a bounded depth, every decoding function returns on every memory buffer of \<open>n\<close>
bytes, malformed or not, and its result is the same for every number of rounds above \<open>n\<close> that the
loop over the input is allowed. Nothing is claimed for callback, pointer and extension fields, whose
decoders run code that the library does not contain.\<close>

theorem message_decoding_terminates:
  fixes E :: "ibuf dec_env"
  assumes "msg_ok (de_descs E) d fs sz"
  shows "\<exists>r1 r2 r3 r4. \<forall>fuel>unat n.
    pb_decode_noinit E d fuel (pb_istream_from_buffer mem buf n) fs pm dest = Some r1 \<and>
    pb_decode E d fuel (pb_istream_from_buffer mem buf n) fs pm dest = Some r2 \<and>
    pb_decode_nullterminated E d fuel (pb_istream_from_buffer mem buf n) fs pm dest = Some r2 \<and>
    pb_decode_delimited_noinit E d fuel (pb_istream_from_buffer mem buf n) fs pm dest = Some r3 \<and>
    pb_decode_delimited E d fuel (pb_istream_from_buffer mem buf n) fs pm dest = Some r4"
proof -
  let ?s = "pb_istream_from_buffer mem buf n"
  have left: "unat (is_bytes_left ?s) = unat n" by (simp add: pb_istream_from_buffer_def)
  note cb = istream_buffer_callback [of mem buf n]
  have ni: "pb_decode_noinit E d (Suc (unat n)) t fs pm dest \<noteq> None"
    and de: "pb_decode E d (Suc (unat n)) t fs pm dest \<noteq> None"
    if "is_callback t = buf_read" "unat (is_bytes_left t) < Suc (unat n)" for t
    using buffer_noinit_safe [OF that assms, of pm dest] buffer_decode_safe [OF that assms, of pm dest] by auto
  have fuel: "\<exists>r. \<forall>fuel>unat n. f fuel ?s fs pm dest = Some r"
    if "f = pb_decode_noinit E d \<or> f = pb_decode E d \<or> f = pb_decode_delimited_noinit E d \<or>
      f = pb_decode_delimited E d" for f
  proof (rule fuel_enough)
    show "decoder_le (f k) (f k')" if "k \<le> k'" for k k'
      using \<open>f = _ \<or> _\<close> noinit_fuel [OF that, of E d] decode_fuel [OF that, of E d]
        delimited_fuel [OF noinit_fuel [OF that, of E d]] delimited_fuel [OF decode_fuel [OF that, of E d]]
      by (auto simp: pb_decode_delimited_noinit_def pb_decode_delimited_def)
    have "decode_delimited (pb_decode_noinit E d (Suc (unat n))) ?s fs pm dest \<noteq> None"
      "decode_delimited (pb_decode E d (Suc (unat n))) ?s fs pm dest \<noteq> None"
      by (rule buf_source.delimited_safe [OF cb]; (rule ni de)?; simp add: left)+
    then show "f (Suc (unat n)) ?s fs pm dest \<noteq> None"
      using that ni [OF cb] de [OF cb] left
      by (auto simp: pb_decode_delimited_noinit_def pb_decode_delimited_def)
  qed
  have "\<exists>r. \<forall>fuel>unat n. pb_decode_noinit E d fuel ?s fs pm dest = Some r"
    "\<exists>r. \<forall>fuel>unat n. pb_decode E d fuel ?s fs pm dest = Some r"
    "\<exists>r. \<forall>fuel>unat n. pb_decode_delimited_noinit E d fuel ?s fs pm dest = Some r"
    "\<exists>r. \<forall>fuel>unat n. pb_decode_delimited E d fuel ?s fs pm dest = Some r"
    by (rule fuel; simp)+
  then show ?thesis unfolding pb_decode_nullterminated_def by blast
qed

definition server_dec_env :: "ibuf dec_env" where
  "server_dec_env = \<lparr>de_descs = \<lambda>_. [], de_malloc = \<lambda>_ _. 0, de_callback = \<lambda>_ s pm _ _. (False, s, pm),
     de_callback_raw = \<lambda>_ _ pm _ _. (False, pm), de_extension = \<lambda>_ s pm _ _ _. (False, s, pm)\<rparr>"

definition server_pm :: pb_mem where
  "server_pm = \<lparr>pm_bytes = \<lambda>_. 0, pm_blocks = \<lambda>_. None, pm_fixed = 0\<rparr>"

lemma server_dec_ok: "msg_ok (de_descs server_dec_env) 1 grpc_lb_v1_Server_fields 88"
  using server_descs_ok by (simp add: server_dec_env_def)

theorem message_decoding_terminates_witness:
  "\<exists>r1 r2 r3 r4. \<forall>fuel>unat (5 :: u64).
    pb_decode_noinit server_dec_env 1 fuel (pb_istream_from_buffer (\<lambda>_. 255) 0 5)
      grpc_lb_v1_Server_fields server_pm 8 = Some r1 \<and>
    pb_decode server_dec_env 1 fuel (pb_istream_from_buffer (\<lambda>_. 255) 0 5)
      grpc_lb_v1_Server_fields server_pm 8 = Some r2 \<and>
    pb_decode_nullterminated server_dec_env 1 fuel (pb_istream_from_buffer (\<lambda>_. 255) 0 5)
      grpc_lb_v1_Server_fields server_pm 8 = Some r2 \<and>
    pb_decode_delimited_noinit server_dec_env 1 fuel (pb_istream_from_buffer (\<lambda>_. 255) 0 5)
      grpc_lb_v1_Server_fields server_pm 8 = Some r3 \<and>
    pb_decode_delimited server_dec_env 1 fuel (pb_istream_from_buffer (\<lambda>_. 255) 0 5)
      grpc_lb_v1_Server_fields server_pm 8 = Some r4"
  by (rule message_decoding_terminates [OF server_dec_ok])

text \<open>C3. Decoding is memory safe: whatever the bytes of the input, \<open>pb_decode\<close> into a struct of
\<open>sz\<close> bytes with static fields changes no byte outside the struct and neither allocates nor frees,
and it reads no more than the bytes of the stream.\<close>

theorem message_decoding_confined:
  fixes E :: "ibuf dec_env"
  assumes "msg_ok (de_descs E) d fs sz" "unat n < fuel"
  shows "\<exists>ok s' pm'. pb_decode E d fuel (pb_istream_from_buffer mem buf n) fs pm dest = Some (ok, s', pm') \<and>
    (\<forall>x. x < dest \<or> dest + sz \<le> x \<longrightarrow> pm_bytes pm' x = pm_bytes pm x) \<and>
    pm_blocks pm' = pm_blocks pm \<and> unat (is_bytes_left s') \<le> unat n"
proof -
  have "unat (is_bytes_left (pb_istream_from_buffer mem buf n)) = unat n"
    by (simp add: pb_istream_from_buffer_def)
  then show ?thesis
    using buffer_decode_safe [OF istream_buffer_callback _ assms(1), of mem buf n fuel pm dest] assms(2)
    by (auto simp: later_def confined_def)
qed

theorem message_decoding_confined_witness:
  "\<exists>ok s' pm'. pb_decode server_dec_env 1 9 (pb_istream_from_buffer (\<lambda>_. 0x1A) 0 8)
      grpc_lb_v1_Server_fields server_pm 8 = Some (ok, s', pm') \<and>
    (\<forall>x. x < 8 \<or> 8 + 88 \<le> x \<longrightarrow> pm_bytes pm' x = pm_bytes server_pm x) \<and>
    pm_blocks pm' = pm_blocks server_pm \<and> unat (is_bytes_left s') \<le> unat (8 :: u64)"
  by (rule message_decoding_confined [OF server_dec_ok]) simp

section \<open>Encoding and decoding\<close>

lemmas buffer_decode_restores = pb_source.decode_restores [OF buf_source.pb_source_axioms]

lemma server_plain: "plain_msg D 1 grpc_lb_v1_Server_fields"
  unfolding One_nat_def plain_msg.simps by (simp add: server_fields field_type_defs) code_simp

text \<open>C2. What \<open>pb_encode\<close> writes, \<open>pb_decode\<close> reads back, under these conditions on the messages, at
every level of nesting: all fields are static (no callback, pointer or extension fields), optional,
singular or repeated (no required fields and no unions), with tags below \<open>2 ^ 29\<close>; an array has a member that
counts its items (no fixed-count arrays); submessages and fixed-length byte strings have a \<open>has_\<close> flag,
while other fields may do without one if they have no default value; the members have the sizes of their
types and do not overlap. And on the
struct that is encoded: it is not null, counts are within the arrays, sizes of byte strings within their
members, and every string has its terminator inside its member. Then, if the encoding is shorter than \<open>2 ^ 32\<close>
bytes and fits the buffer, encoding it and decoding the bytes written, into any other non-null
struct whatever its memory holds, gives a well-formed struct with the same content, and all bytes are used.\<close>

theorem message_roundtrip:
  fixes E :: "obuf enc_env" and F :: "ibuf dec_env" and pm :: pb_mem
    and n :: nat and fs :: "pb_field list" and a :: nat
  defines "bs \<equiv> message_bytes (msg_content (ee_descs E) (ee_mem E) n fs a)"
  assumes "ee_descs E = de_descs F" "msg_ok (de_descs F) d fs sz" "plain_msg (de_descs F) n fs"
    and "msg_fits (ee_descs E) (ee_mem E) n fs a" "dest \<noteq> 0"
    and "length bs \<le> unat bufsize" "length bs < 2 ^ 32" "length bs < fuel"
  shows "\<exists>os is pm'. pb_encode E (Suc n) (pb_ostream_from_buffer mem buf bufsize) fs a = Some (True, os) \<and>
    pb_decode F d fuel (pb_istream_from_buffer (ob_mem (os_state os)) buf (os_bytes_written os)) fs pm dest =
      Some (True, is, pm') \<and> is_bytes_left is = 0 \<and>
    msg_fits (de_descs F) (pm_bytes pm') n fs dest \<and>
    msg_content (de_descs F) (pm_bytes pm') n fs dest = msg_content (ee_descs E) (ee_mem E) n fs a"
proof -
  have lim: "length bs < 2 ^ 64" using assms(8) by simp
  obtain os where os: "pb_encode E (Suc n) (pb_ostream_from_buffer mem buf bufsize) fs a = Some (True, os)"
    "buf_sink.emits buf (pb_ostream_from_buffer mem buf bufsize) bs os"
    using encode_to_buffer [OF assms(5) lim [unfolded bs_def], of mem buf bufsize] assms(7) unfolding bs_def by auto
  let ?is = "pb_istream_from_buffer (ob_mem (os_state os)) buf (os_bytes_written os)"
  have c: "buf_source.content ?is = bs" by (rule buffer_written_content [OF os(2)])
  have left: "unat (is_bytes_left ?is) = length bs"
    using emitted_bytes(2) [OF os(2)] by (simp add: pb_istream_from_buffer_def)
  obtain s' pm' where r: "pb_decode F d fuel ?is fs pm dest = Some (True, s', pm')"
    "buf_source.reads ?is (buf_source.content ?is) s'" "msg_fits (de_descs F) (pm_bytes pm') n fs dest"
    "msg_content (de_descs F) (pm_bytes pm') n fs dest = msg_content (de_descs F) (ee_mem E) n fs a"
    using buffer_decode_restores [OF istream_buffer_callback _ _ assms(3,4) assms(5) [unfolded assms(2)] _ assms(6),
        of "ob_mem (os_state os)" buf "os_bytes_written os" fuel pm] left assms(8,9) c
    unfolding bs_def assms(2) by auto
  have "is_bytes_left s' = 0" using reads_all [OF r(2)] by simp
  then show ?thesis using os(1) r(1,3,4) unfolding assms(2) by blast
qed

lemma server_struct_content:
  "msg_content (\<lambda>_. []) server_struct 1 grpc_lb_v1_Server_fields 8 =
     [(1, Delimited [127, 0, 0, 1]), (2, Varint 443), (3, Delimited [116]), (4, Varint 1)]"
  by code_simp

theorem message_roundtrip_witness:
  "\<exists>os is pm'. pb_encode server_env 2 (pb_ostream_from_buffer (\<lambda>_. 0) 100 14) grpc_lb_v1_Server_fields 8 = Some (True, os) \<and>
    pb_decode server_dec_env 1 15 (pb_istream_from_buffer (ob_mem (os_state os)) 100 (os_bytes_written os))
      grpc_lb_v1_Server_fields server_pm 8 = Some (True, is, pm') \<and> is_bytes_left is = 0 \<and>
    msg_content (\<lambda>_. []) (pm_bytes pm') 1 grpc_lb_v1_Server_fields 8 =
      [(1, Delimited [127, 0, 0, 1]), (2, Varint 443), (3, Delimited [116]), (4, Varint 1)]"
proof -
  have sel: "ee_descs server_env = (\<lambda>_. [])" "ee_mem server_env = server_struct" "de_descs server_dec_env = (\<lambda>_. [])"
    by (simp_all add: server_env_def server_dec_env_def)
  have two: "Suc 1 = (2 :: nat)" by simp
  have len: "length server_bytes = 14" by (simp add: server_bytes_def)
  note r = message_roundtrip [where E = server_env and F = server_dec_env and d = 1 and fs = grpc_lb_v1_Server_fields and
      sz = 88 and n = 1 and a = 8 and dest = 8 and bufsize = 14 and fuel = 15 and mem = "\<lambda>_. 0" and buf = 100 and
      pm = server_pm, unfolded sel two server_struct_content
      server_struct_bytes [unfolded server_struct_content] len,
      OF refl server_descs_ok server_plain server_struct_fits]
  have "(8 :: nat) \<noteq> 0" "14 \<le> unat (14 :: u64)" "(14 :: nat) < 2 ^ 32" "(14 :: nat) < 15" by simp_all
  from r [OF this] show ?thesis by blast
qed

end
