(* ===== verification/Mem.thy ===== *)
theory Mem
  imports Prelude
begin

text \<open>
  BoringSSL \<open>crypto/mem.c\<close>: the allocator wrappers and the memory and string helpers. The C
  library's \<open>malloc\<close> is a parameter: given a size it returns the bytes of a fresh block, or \<open>None\<close>
  for NULL; \<open>malloc_ok\<close> states its documented behaviour. An allocation of \<open>OPENSSL_malloc\<close> is an
  \<open>ossl_block\<close>: the size stored in front of the user's bytes, and those bytes. A string or array is
  the list of the bytes of the object that holds it; an access past its end is the result \<open>None\<close>.
\<close>

unbundle bit_operations_syntax

section \<open>Allocation\<close>

type_synonym malloc_fun = "u64 \<Rightarrow> u8 list option"

definition malloc_ok :: "malloc_fun \<Rightarrow> bool" where
  "malloc_ok malloc \<longleftrightarrow> (\<forall>n p. malloc n = Some p \<longrightarrow> length p = unat n \<and> unat n < 2 ^ 63)"

text \<open>An allocator that does not run out of memory: it only refuses sizes above \<open>2 ^ 62\<close>.\<close>

definition malloc_total :: "malloc_fun \<Rightarrow> bool" where
  "malloc_total malloc \<longleftrightarrow> (\<forall>n. unat n \<le> 2 ^ 62 \<longrightarrow> malloc n \<noteq> None)"

record ossl_block =
  prefix :: u64
  data :: "u8 list"

definition OPENSSL_MALLOC_PREFIX :: u64 where
  "OPENSSL_MALLOC_PREFIX = 8"

definition OPENSSL_malloc :: "malloc_fun \<Rightarrow> u64 \<Rightarrow> ossl_block option" where
  "OPENSSL_malloc malloc sz =
     (case malloc (sz + OPENSSL_MALLOC_PREFIX) of
        None \<Rightarrow> None
      | Some ptr \<Rightarrow> Some \<lparr>prefix = sz, data = drop (unat OPENSSL_MALLOC_PREFIX) ptr\<rparr>)"

definition OPENSSL_cleanse :: "u8 list \<Rightarrow> nat \<Rightarrow> u8 list" where
  "OPENSSL_cleanse ptr len = replicate len 0 @ drop len ptr"

text \<open>The bytes handed to \<open>free\<close>, prefix included; \<open>None\<close> when nothing is freed.\<close>

definition OPENSSL_free :: "ossl_block option \<Rightarrow> u8 list option" where
  "OPENSSL_free orig =
     (case orig of
        None \<Rightarrow> None
      | Some b \<Rightarrow>
          Some (OPENSSL_cleanse (replicate (unat OPENSSL_MALLOC_PREFIX) 0 @ data b)
                 (unat (prefix b + OPENSSL_MALLOC_PREFIX))))"

definition OPENSSL_realloc :: "malloc_fun \<Rightarrow> ossl_block option \<Rightarrow> u64 \<Rightarrow> ossl_block option" where
  "OPENSSL_realloc malloc orig new_size =
     (case orig of
        None \<Rightarrow> OPENSSL_malloc malloc new_size
      | Some b \<Rightarrow>
          (case OPENSSL_malloc malloc new_size of
             None \<Rightarrow> None
           | Some ret \<Rightarrow>
               let old_size = prefix b;
                   to_copy = if old_size < new_size then old_size else new_size
               in Some (ret\<lparr>data := take (unat to_copy) (data b) @ drop (unat to_copy) (data ret)\<rparr>)))"

section \<open>Bytes\<close>

fun memcmp_loop :: "u8 \<Rightarrow> u8 list \<Rightarrow> u8 list \<Rightarrow> nat \<Rightarrow> u8 option" where
  "memcmp_loop x a b 0 = Some x"
| "memcmp_loop x (a # as) (b # bs) (Suc n) = memcmp_loop (x OR (a XOR b)) as bs n"
| "memcmp_loop x _ _ (Suc n) = None"

definition CRYPTO_memcmp :: "u8 list \<Rightarrow> u8 list \<Rightarrow> nat \<Rightarrow> u8 option" where
  "CRYPTO_memcmp in_a in_b len = memcmp_loop 0 in_a in_b len"

fun hash32_loop :: "u32 \<Rightarrow> u8 list \<Rightarrow> u32" where
  "hash32_loop h [] = h"
| "hash32_loop h (b # bs) = hash32_loop ((h XOR ucast b) * 16777619) bs"

definition OPENSSL_hash32 :: "u8 list \<Rightarrow> u32" where
  "OPENSSL_hash32 ptr = hash32_loop 2166136261 ptr"

section \<open>Strings\<close>

text \<open>\<open>strlen\<close> of the C library: the number of bytes before the first zero.\<close>

fun c_strlen :: "u8 list \<Rightarrow> nat option" where
  "c_strlen [] = None"
| "c_strlen (c # s) = (if c = 0 then Some 0 else map_option Suc (c_strlen s))"

fun OPENSSL_strnlen :: "u8 list \<Rightarrow> nat \<Rightarrow> nat option" where
  "OPENSSL_strnlen s 0 = Some 0"
| "OPENSSL_strnlen [] (Suc n) = None"
| "OPENSSL_strnlen (c # s) (Suc n) = (if c = 0 then Some 0 else map_option Suc (OPENSSL_strnlen s n))"

definition OPENSSL_strdup :: "malloc_fun \<Rightarrow> u8 list \<Rightarrow> ossl_block option option" where
  "OPENSSL_strdup malloc s =
     (case c_strlen s of
        None \<Rightarrow> None
      | Some k \<Rightarrow>
          let len = k + 1
          in Some (case OPENSSL_malloc malloc (of_nat len) of
               None \<Rightarrow> None
             | Some ret \<Rightarrow> Some (ret\<lparr>data := take len s @ drop len (data ret)\<rparr>)))"

definition OPENSSL_tolower :: "int \<Rightarrow> int" where
  "OPENSSL_tolower c = (if c \<ge> 65 \<and> c \<le> 90 then c + (97 - 65) else c)"

text \<open>A \<open>char\<close> is signed on the platforms of the application.\<close>

fun OPENSSL_strcasecmp :: "u8 list \<Rightarrow> u8 list \<Rightarrow> int option" where
  "OPENSSL_strcasecmp (a # as) (b # bs) =
     (let aa = OPENSSL_tolower (sint a);
          bb = OPENSSL_tolower (sint b)
      in if aa < bb then Some (- 1)
         else if aa > bb then Some 1
         else if aa = 0 then Some 0
         else OPENSSL_strcasecmp as bs)"
| "OPENSSL_strcasecmp _ _ = None"

fun OPENSSL_strncasecmp :: "u8 list \<Rightarrow> u8 list \<Rightarrow> nat \<Rightarrow> int option" where
  "OPENSSL_strncasecmp as bs 0 = Some 0"
| "OPENSSL_strncasecmp (a # as) (b # bs) (Suc n) =
     (let aa = OPENSSL_tolower (sint a);
          bb = OPENSSL_tolower (sint b)
      in if aa < bb then Some (- 1)
         else if aa > bb then Some 1
         else if aa = 0 then Some 0
         else OPENSSL_strncasecmp as bs n)"
| "OPENSSL_strncasecmp _ _ (Suc n) = None"

section \<open>Allocation lemmas\<close>

lemma malloc_okD: "malloc_ok malloc \<Longrightarrow> malloc n = Some p \<Longrightarrow> length p = unat n \<and> unat n < 2 ^ 63"
  by (simp add: malloc_ok_def)

lemma OPENSSL_malloc_total:
  assumes "malloc_total malloc" "unat sz \<le> 2 ^ 61"
  obtains b where "OPENSSL_malloc malloc sz = Some b"
proof -
  have "unat (sz + 8) = unat sz + 8" using assms(2) by (subst unat_add_no_overflow) simp_all
  then have "malloc (sz + 8) \<noteq> None" using assms by (simp add: malloc_total_def)
  then show thesis using that by (auto simp: OPENSSL_malloc_def OPENSSL_MALLOC_PREFIX_def)
qed

lemma OPENSSL_realloc_total:
  assumes "malloc_total malloc" "unat sz \<le> 2 ^ 61"
  obtains b where "OPENSSL_realloc malloc orig sz = Some b"
proof -
  obtain c where "OPENSSL_malloc malloc sz = Some c" using OPENSSL_malloc_total [OF assms] .
  then show thesis using that by (cases orig) (auto simp: OPENSSL_realloc_def Let_def)
qed

definition block_ok :: "ossl_block \<Rightarrow> bool" where
  "block_ok b \<longleftrightarrow> length (data b) = unat (prefix b) \<and> unat (prefix b) + 8 < 2 ^ 63"

lemma OPENSSL_malloc_Some:
  assumes "malloc_ok malloc" "unat sz + 8 < 2 ^ 64" "OPENSSL_malloc malloc sz = Some b"
  shows "block_ok b \<and> prefix b = sz"
proof -
  from assms(3) obtain p where p: "malloc (sz + 8) = Some p" "b = \<lparr>prefix = sz, data = drop 8 p\<rparr>"
    by (auto simp: OPENSSL_malloc_def OPENSSL_MALLOC_PREFIX_def split: option.splits)
  have "unat (sz + 8) = unat sz + 8" using assms(2) by (subst unat_add_no_overflow) simp_all
  then show ?thesis using malloc_okD [OF assms(1) p(1)] p(2) by (simp add: block_ok_def)
qed

lemma OPENSSL_realloc_Some:
  assumes "malloc_ok malloc" "unat n + 8 < 2 ^ 64" "OPENSSL_realloc malloc (Some b) n = Some c" "block_ok b"
  shows "block_ok c \<and> prefix c = n \<and> take (unat (prefix b)) (data c) = take (unat n) (data b)"
proof -
  from assms(3) obtain r where r: "OPENSSL_malloc malloc n = Some r"
    by (auto simp: OPENSSL_realloc_def split: option.splits)
  note m = OPENSSL_malloc_Some [OF assms(1,2) r]
  show ?thesis
  proof (cases "prefix b < n")
    case True
    then have "unat (prefix b) < unat n" by (simp add: word_less_nat_alt)
    then show ?thesis using m r assms(3,4) True by (auto simp: OPENSSL_realloc_def block_ok_def)
  next
    case False
    then have "unat n \<le> unat (prefix b)" by (simp add: word_less_nat_alt)
    then show ?thesis using m r assms(3,4) False by (auto simp: OPENSSL_realloc_def block_ok_def min_def)
  qed
qed

section \<open>Byte lemmas\<close>

lemma xor_zero_iff: "(a XOR b = 0) = (a = (b :: 'a::len word))"
proof
  assume "a XOR b = 0"
  then have "(a XOR b) XOR b = b" by simp
  then show "a = b" by (simp add: xor.assoc)
qed simp

lemma memcmp_loop_value:
  "n \<le> length a \<Longrightarrow> n \<le> length b \<Longrightarrow>
   \<exists>r. memcmp_loop x a b n = Some r \<and> (r = 0 \<longleftrightarrow> x = 0 \<and> take n a = take n b)"
proof (induction x a b n rule: memcmp_loop.induct)
  case (2 x a as b bs n)
  have "x OR (a XOR b) = 0 \<longleftrightarrow> x = 0 \<and> a = b" by (simp only: or_eq_0_iff xor_zero_iff)
  with 2 show ?case by fastforce
qed simp_all

text \<open>Multiplication by the odd FNV prime is injective on 32-bit words.\<close>

lemma fnv_prime_inverse: "(16777619 :: u32) * 899433627 = 1"
  by simp

lemma fnv_step_inj: "(h XOR x) * 16777619 = (h' XOR x) * 16777619 \<longleftrightarrow> (h :: u32) = h'"
proof
  assume "(h XOR x) * 16777619 = (h' XOR x) * 16777619"
  then have "(h XOR x) * (16777619 * 899433627) = (h' XOR x) * (16777619 * 899433627)"
    by (simp only: mult.assoc [symmetric])
  then have "h XOR x = h' XOR x" by (simp only: fnv_prime_inverse mult_1_right)
  then show "h = h'" 
  proof -
    from \<open>h XOR x = h' XOR x\<close> have "(h XOR x) XOR x = (h' XOR x) XOR x" by simp
    then show ?thesis by (simp add: xor.assoc)
  qed
qed simp

lemma hash32_loop_append: "hash32_loop h (xs @ ys) = hash32_loop (hash32_loop h xs) ys"
  by (induction xs arbitrary: h) simp_all

lemma hash32_loop_inj: "hash32_loop h xs = hash32_loop h' xs \<longleftrightarrow> h = h'"
  by (induction xs arbitrary: h h') (simp_all add: fnv_step_inj)

section \<open>Strings as values\<close>

text \<open>The string held by an object: the bytes before its first zero.\<close>

definition c_string :: "u8 list \<Rightarrow> u8 list" where
  "c_string s = takeWhile (\<lambda>c. c \<noteq> 0) s"

lemma c_string_simps [simp]:
  "c_string [] = []" "c_string (c # s) = (if c = 0 then [] else c # c_string s)"
  by (simp_all add: c_string_def)

lemma c_strlen_value: "c_strlen s = (if 0 \<in> set s then Some (length (c_string s)) else None)"
  by (induction s) auto

lemma sint_u8_0: "sint (c :: u8) = 0 \<longleftrightarrow> c = 0"
proof
  assume "sint c = 0"
  then have "(of_int (sint c) :: u8) = 0" by (simp only: of_int_0)
  then show "c = 0" by simp
qed simp

lemma tolower_0 [simp]: "OPENSSL_tolower c = 0 \<longleftrightarrow> c = 0"
  by (auto simp: OPENSSL_tolower_def)

text \<open>Comparison of terminated strings of integers, the zero terminator being just a character.\<close>

fun str_order :: "int list \<Rightarrow> int list \<Rightarrow> int" where
  "str_order [] [] = 0"
| "str_order [] (b # bs) = (if b < 0 then 1 else - 1)"
| "str_order (a # as) [] = (if a < 0 then - 1 else 1)"
| "str_order (a # as) (b # bs) = (if a < b then - 1 else if a > b then 1 else str_order as bs)"

definition folded :: "u8 list \<Rightarrow> int list" where
  "folded s = map (\<lambda>c. OPENSSL_tolower (sint c)) s"

lemma strcasecmp_value:
  "0 \<in> set a \<Longrightarrow> 0 \<in> set b \<Longrightarrow>
   OPENSSL_strcasecmp a b = Some (str_order (folded (c_string a)) (folded (c_string b)))"
proof (induction a b rule: OPENSSL_strcasecmp.induct)
  case (1 a as b bs)
  let ?a = "OPENSSL_tolower (sint a)" and ?b = "OPENSSL_tolower (sint b)"
  have z: "?a = 0 \<longleftrightarrow> a = 0" "?b = 0 \<longleftrightarrow> b = 0" by (simp_all add: sint_u8_0)
  show ?case
  proof (cases "?a = ?b \<and> a \<noteq> 0")
    case True
    then have "b \<noteq> 0" using z by auto
    then show ?thesis using 1 True z by (simp add: folded_def)
  next
    case False
    then show ?thesis using z
      by (cases "a = 0"; cases "b = 0") (auto simp: folded_def OPENSSL_tolower_def)
  qed
qed simp_all

lemma str_order_0: "0 \<notin> set a \<Longrightarrow> 0 \<notin> set b \<Longrightarrow> str_order a b = 0 \<longleftrightarrow> a = b"
  by (induction a b rule: str_order.induct) auto

lemma str_order_swap: "0 \<notin> set a \<Longrightarrow> 0 \<notin> set b \<Longrightarrow> str_order b a = - str_order a b"
  by (induction a b rule: str_order.induct) auto

lemma folded_no_0: "0 \<notin> set (folded (c_string s))"
  by (induction s) (auto simp: folded_def sint_u8_0)

section \<open>Properties\<close>

text \<open>
  OPENSSL_strcasecmp terminates within both strings, is zero exactly when they agree up to the
  case of ASCII letters, and changes sign when its arguments are exchanged.
\<close>

lemma strcasecmp_is_order:
  assumes "0 \<in> set a" "0 \<in> set b"
  shows "\<exists>r. OPENSSL_strcasecmp a b = Some r \<and> OPENSSL_strcasecmp b a = Some (- r) \<and>
    (r = 0 \<longleftrightarrow> folded (c_string a) = folded (c_string b))"
  using assms str_order_0 [OF folded_no_0 [of a] folded_no_0 [of b]]
    str_order_swap [OF folded_no_0 [of a] folded_no_0 [of b]]
  by (simp add: strcasecmp_value)

text \<open>
  OPENSSL_hash32 never maps two strings to the same value that differ in exactly one byte, and
  CRYPTO_memcmp returns zero exactly on equal arrays, whatever the bytes are.
\<close>

theorem hash_and_compare_separate:
  assumes "n \<le> length a" "n \<le> length b"
  shows "(OPENSSL_hash32 (xs @ x # ys) = OPENSSL_hash32 (xs @ y # ys) \<longleftrightarrow> x = y) \<and>
    (\<exists>r. CRYPTO_memcmp a b n = Some r \<and> (r = 0 \<longleftrightarrow> take n a = take n b))"
proof -
  have u: "ucast x = (ucast y :: u32) \<longleftrightarrow> x = y" for x y :: u8
    by (simp add: word_unat_eq_iff unat_ucast_up)
  have s: "(h XOR ucast x) * 16777619 = (h XOR ucast y) * (16777619 :: u32) \<longleftrightarrow> x = y" for h
    using fnv_step_inj [of "ucast x" h "ucast y"] u [of x y] by (simp add: xor.commute)
  have "OPENSSL_hash32 (xs @ x # ys) = OPENSSL_hash32 (xs @ y # ys) \<longleftrightarrow> x = y"
    by (simp add: OPENSSL_hash32_def hash32_loop_append hash32_loop_inj s)
  then show ?thesis using memcmp_loop_value [OF assms, of 0] by (simp add: CRYPTO_memcmp_def)
qed

theorem hash_and_compare_separate_witness:
  "OPENSSL_hash32 [1, 2, 3] \<noteq> OPENSSL_hash32 [1, 7, 3] \<and> CRYPTO_memcmp [1, 2, 3] [1, 2, 4] 2 = Some 0"
  using hash_and_compare_separate [of 2 "[1, 2, 3]" "[1, 2, 4]" "[1]" 2 "[3]" 7] by simp

text \<open>
  C25. OPENSSL_malloc gives a block of the requested size, except that a size within eight bytes of
  the end of the address space wraps around: the block then has no byte for the user although its
  recorded size is the one requested.
\<close>

theorem malloc_size_wraps:
  assumes "malloc_ok malloc" "OPENSSL_malloc malloc sz = Some b"
  shows "prefix b = sz \<and>
    length (data b) = (if unat sz + 8 < 2 ^ 64 then unat sz else 0)"
proof (cases "unat sz + 8 < 2 ^ 64")
  case True
  then show ?thesis using OPENSSL_malloc_Some [OF assms(1) True assms(2)] by (simp add: block_ok_def)
next
  case False
  from assms(2) obtain p where p: "malloc (sz + 8) = Some p" "b = \<lparr>prefix = sz, data = drop 8 p\<rparr>"
    by (auto simp: OPENSSL_malloc_def OPENSSL_MALLOC_PREFIX_def split: option.splits)
  have "unat (sz + 8) = (unat sz + 8) mod 2 ^ 64" by (simp add: unat_word_ariths)
  also have "\<dots> = unat sz + 8 - 2 ^ 64"
    using False unat_u64_less [of sz] by (subst le_mod_geq) auto
  also have "\<dots> < 8" using unat_u64_less [of sz] by simp
  finally show ?thesis using malloc_okD [OF assms(1) p(1)] p(2) False by simp
qed

definition zero_malloc :: malloc_fun where
  "zero_malloc n = (if n < 2 ^ 63 then Some (replicate (unat n) 0) else None)"

lemma zero_malloc_ok: "malloc_ok zero_malloc"
  by (auto simp: malloc_ok_def zero_malloc_def word_less_nat_alt split: if_splits)

lemma zero_malloc_total: "malloc_total zero_malloc"
  by (simp add: malloc_total_def zero_malloc_def word_less_nat_alt)

theorem malloc_size_wraps_witness:
  "OPENSSL_malloc zero_malloc (- 4) = Some \<lparr>prefix = - 4, data = []\<rparr>"
proof -
  have "zero_malloc 4 = Some [0, 0, 0, 0]" by code_simp
  then obtain b where b: "OPENSSL_malloc zero_malloc (- 4) = Some b"
    by (simp add: OPENSSL_malloc_def OPENSSL_MALLOC_PREFIX_def)
  show ?thesis using malloc_size_wraps [OF zero_malloc_ok b] b by (cases b) simp
qed

end
