(* ===== verification/Buf.thy ===== *)
theory Buf
  imports Mem
begin

text \<open>
  BoringSSL \<open>crypto/buf/buf.c\<close>: the growable buffer \<open>BUF_MEM\<close> and the bounded string copies, with
  the three functions of \<open>cbs.c\<close> that copy a \<open>CBS\<close> to the heap. An operation on a \<open>BUF_MEM\<close> returns
  its result and the new state; the entries it adds to the error queue are not part of the state.
\<close>

unbundle bit_operations_syntax

section \<open>The buffer\<close>

record buf_mem =
  blen :: u64
  bdata :: "ossl_block option"
  bmax :: u64

definition BUF_MEM_new :: buf_mem where
  "BUF_MEM_new = \<lparr>blen = 0, bdata = None, bmax = 0\<rparr>"

text \<open>The bytes \<open>buf->data[0..]\<close>; the null pointer has none.\<close>

definition bytes_of :: "ossl_block option \<Rightarrow> u8 list" where
  "bytes_of p = (case p of None \<Rightarrow> [] | Some b \<Rightarrow> data b)"

definition put_bytes :: "ossl_block option \<Rightarrow> u64 \<Rightarrow> u8 list \<Rightarrow> ossl_block option" where
  "put_bytes p i xs =
     map_option (\<lambda>b. b\<lparr>data := take (unat i) (data b) @ xs @ drop (unat i + length xs) (data b)\<rparr>) p"

definition BUF_MEM_reserve :: "malloc_fun \<Rightarrow> buf_mem \<Rightarrow> u64 \<Rightarrow> bool \<times> buf_mem" where
  "BUF_MEM_reserve malloc buf cap =
     (if bmax buf \<ge> cap then (True, buf)
      else
        let n = cap + 3
        in if n < cap then (False, buf)
           else
             let n = n div 3;
                 alloc_size = n * 4
             in if alloc_size div 4 \<noteq> n then (False, buf)
                else (case OPENSSL_realloc malloc (bdata buf) alloc_size of
                        None \<Rightarrow> (False, buf)
                      | Some new_buf \<Rightarrow> (True, buf\<lparr>bdata := Some new_buf, bmax := alloc_size\<rparr>)))"

definition BUF_MEM_grow :: "malloc_fun \<Rightarrow> buf_mem \<Rightarrow> u64 \<Rightarrow> u64 \<times> buf_mem" where
  "BUF_MEM_grow malloc buf len =
     (case BUF_MEM_reserve malloc buf len of
        (False, buf) \<Rightarrow> (0, buf)
      | (True, buf) \<Rightarrow>
          let buf = (if blen buf < len
                     then buf\<lparr>bdata := put_bytes (bdata buf) (blen buf) (replicate (unat (len - blen buf)) 0)\<rparr>
                     else buf)
          in (len, buf\<lparr>blen := len\<rparr>))"

definition BUF_MEM_grow_clean :: "malloc_fun \<Rightarrow> buf_mem \<Rightarrow> u64 \<Rightarrow> u64 \<times> buf_mem" where
  "BUF_MEM_grow_clean malloc buf len = BUF_MEM_grow malloc buf len"

text \<open>The input array has \<open>len\<close> bytes.\<close>

definition BUF_MEM_append :: "malloc_fun \<Rightarrow> buf_mem \<Rightarrow> u8 list \<Rightarrow> u64 \<Rightarrow> bool \<times> buf_mem" where
  "BUF_MEM_append malloc buf inp len =
     (let new_len = blen buf + len
      in if new_len < len then (False, buf)
         else
           (case BUF_MEM_reserve malloc buf new_len of
              (False, buf) \<Rightarrow> (False, buf)
            | (True, buf) \<Rightarrow>
                (True, buf\<lparr>bdata := put_bytes (bdata buf) (blen buf) (take (unat len) inp),
                           blen := new_len\<rparr>)))"

text \<open>The two allocations \<open>BUF_MEM_free\<close> hands to \<open>OPENSSL_free\<close>; the second is the structure.\<close>

definition BUF_MEM_free :: "buf_mem option \<Rightarrow> u8 list option" where
  "BUF_MEM_free buf = (case buf of None \<Rightarrow> None | Some b \<Rightarrow> OPENSSL_free (bdata b))"

section \<open>Strings\<close>

fun BUF_strnlen :: "u8 list \<Rightarrow> nat \<Rightarrow> nat option" where
  "BUF_strnlen str 0 = Some 0"
| "BUF_strnlen [] (Suc max_len) = None"
| "BUF_strnlen (c # str) (Suc max_len) =
     (if c = 0 then Some 0 else map_option Suc (BUF_strnlen str max_len))"

text \<open>
  The outer \<open>option\<close> is \<open>None\<close> when the code reads past the end of \<open>str\<close>; the inner one is the pointer
  returned.
\<close>

definition BUF_strndup :: "malloc_fun \<Rightarrow> u8 list option \<Rightarrow> u64 \<Rightarrow> ossl_block option option" where
  "BUF_strndup malloc str sz =
     (case str of
        None \<Rightarrow> Some None
      | Some s \<Rightarrow>
          (case BUF_strnlen s (unat sz) of
             None \<Rightarrow> None
           | Some k \<Rightarrow>
               let n = of_nat k :: u64;
                   alloc_size = n + 1
               in if alloc_size < n then Some None
                  else (case OPENSSL_malloc malloc alloc_size of
                          None \<Rightarrow> Some None
                        | Some ret \<Rightarrow> Some (put_bytes (Some ret) 0 (take k s @ [0])))))"

definition BUF_strdup :: "malloc_fun \<Rightarrow> u8 list option \<Rightarrow> ossl_block option option" where
  "BUF_strdup malloc str =
     (case str of
        None \<Rightarrow> Some None
      | Some s \<Rightarrow> (case c_strlen s of None \<Rightarrow> None | Some k \<Rightarrow> BUF_strndup malloc str (of_nat k)))"

text \<open>The loop of \<open>BUF_strlcpy\<close> with the suffixes \<open>dst\<close> and \<open>src\<close> point at.\<close>

fun strlcpy_loop :: "u8 list \<Rightarrow> u8 list \<Rightarrow> nat \<Rightarrow> nat \<Rightarrow> (u8 list \<times> nat) option" where
  "strlcpy_loop dst [] dst_size l = None"
| "strlcpy_loop dst (c # src) dst_size l =
     (if dst_size > 1 \<and> c \<noteq> 0 then
        (case dst of
           [] \<Rightarrow> None
         | _ # ds \<Rightarrow>
             (case strlcpy_loop ds src (dst_size - 1) (l + 1) of
                None \<Rightarrow> None
              | Some (ds', r) \<Rightarrow> Some (c # ds', r)))
      else
        (case (if dst_size \<noteq> 0 then (case dst of [] \<Rightarrow> None | _ # ds \<Rightarrow> Some (0 # ds)) else Some dst) of
           None \<Rightarrow> None
         | Some dst' \<Rightarrow> map_option (\<lambda>k. (dst', l + k)) (c_strlen (c # src))))"

definition BUF_strlcpy :: "u8 list \<Rightarrow> u8 list \<Rightarrow> nat \<Rightarrow> (u8 list \<times> nat) option" where
  "BUF_strlcpy dst src dst_size = strlcpy_loop dst src dst_size 0"

text \<open>The loop of \<open>BUF_strlcat\<close> up to its call of \<open>BUF_strlcpy\<close>, whose result it adds to \<open>l\<close>.\<close>

fun strlcat_loop :: "u8 list \<Rightarrow> u8 list \<Rightarrow> nat \<Rightarrow> nat \<Rightarrow> (u8 list \<times> nat) option" where
  "strlcat_loop dst src 0 l = map_option (\<lambda>(d, r). (d, l + r)) (BUF_strlcpy dst src 0)"
| "strlcat_loop [] src (Suc n) l = None"
| "strlcat_loop (c # ds) src (Suc n) l =
     (if c \<noteq> 0 then map_option (\<lambda>(d, r). (c # d, r)) (strlcat_loop ds src n (l + 1))
      else map_option (\<lambda>(d, r). (d, l + r)) (BUF_strlcpy (c # ds) src (Suc n)))"

definition BUF_strlcat :: "u8 list \<Rightarrow> u8 list \<Rightarrow> nat \<Rightarrow> (u8 list \<times> nat) option" where
  "BUF_strlcat dst src dst_size = strlcat_loop dst src dst_size 0"

definition BUF_memdup :: "malloc_fun \<Rightarrow> u8 list \<Rightarrow> u64 \<Rightarrow> ossl_block option" where
  "BUF_memdup malloc d sz =
     (if sz = 0 then None
      else (case OPENSSL_malloc malloc sz of
              None \<Rightarrow> None
            | Some ret \<Rightarrow> put_bytes (Some ret) 0 (take (unat sz) d)))"

section \<open>Copies of a CBS\<close>

text \<open>The results are the return value, \<open>*out_ptr\<close> and \<open>*out_len\<close>.\<close>

definition CBS_stow :: "malloc_fun \<Rightarrow> u8 list \<Rightarrow> bool \<times> ossl_block option \<times> u64" where
  "CBS_stow malloc cbs =
     (if length cbs = 0 then (True, None, 0)
      else (case BUF_memdup malloc cbs (of_nat (length cbs)) of
              None \<Rightarrow> (False, None, 0)
            | Some p \<Rightarrow> (True, Some p, of_nat (length cbs))))"

definition CBS_strdup :: "malloc_fun \<Rightarrow> u8 list \<Rightarrow> (bool \<times> ossl_block option) option" where
  "CBS_strdup malloc cbs =
     map_option (\<lambda>p. (p \<noteq> None, p)) (BUF_strndup malloc (Some cbs) (of_nat (length cbs)))"

definition CBS_mem_equal :: "u8 list \<Rightarrow> u8 list \<Rightarrow> nat \<Rightarrow> bool" where
  "CBS_mem_equal cbs d len = (if len \<noteq> length cbs then False else CRYPTO_memcmp cbs d len = Some 0)"

section \<open>Invariant of the buffer\<close>

definition buf_ok :: "buf_mem \<Rightarrow> bool" where
  "buf_ok buf \<longleftrightarrow> blen buf \<le> bmax buf \<and>
     (case bdata buf of None \<Rightarrow> bmax buf = 0 | Some b \<Rightarrow> block_ok b \<and> prefix b = bmax buf)"

text \<open>What the buffer holds.\<close>

definition contents :: "buf_mem \<Rightarrow> u8 list" where
  "contents buf = take (unat (blen buf)) (bytes_of (bdata buf))"

lemma buf_ok_length:
  "buf_ok buf \<Longrightarrow> length (bytes_of (bdata buf)) = unat (bmax buf) \<and> unat (blen buf) \<le> unat (bmax buf) \<and>
     unat (bmax buf) + 8 < 2 ^ 63"
  by (auto simp: buf_ok_def bytes_of_def block_ok_def word_le_nat_alt split: option.splits)

lemma contents_length: "buf_ok buf \<Longrightarrow> length (contents buf) = unat (blen buf)"
  using buf_ok_length [of buf] by (simp add: contents_def)

lemma reserve_size:
  assumes "unat cap < 2 ^ 63"
  shows "\<not> cap + 3 < (cap :: u64)" "(cap + 3) div 3 * 4 div 4 = (cap + 3) div 3"
    "unat cap \<le> unat ((cap + 3) div 3 * 4)" "unat ((cap + 3) div 3 * 4) + 8 < 2 ^ 64"
proof -
  define n where "n = (unat cap + 3) div 3"
  have "unat cap + 3 = n * 3 + (unat cap + 3) mod 3" by (simp only: n_def div_mult_mod_eq)
  moreover have "(unat cap + 3) mod 3 < 3" by simp
  moreover have "unat cap < 9223372036854775808" using assms by simp
  ultimately have n: "unat cap \<le> n * 4" "n * 4 + 8 < 18446744073709551616" by linarith+
  have a: "unat (cap + 3) = unat cap + 3" using assms by (subst unat_add_no_overflow) simp_all
  then show "\<not> cap + 3 < cap" by (simp add: word_less_nat_alt)
  have "unat ((cap + 3) div 3) = (unat cap + 3) div 3" by (simp add: unat_div a)
  then have d: "unat ((cap + 3) div 3) = n" by (simp only: n_def)
  have m: "unat ((cap + 3) div 3 * 4) = n * 4"
    using n(2) by (subst unat_word_ariths) (simp add: d)
  show "(cap + 3) div 3 * 4 div 4 = (cap + 3) div 3"
    unfolding word_unat_eq_iff d unat_div [of "(cap + 3) div 3 * 4"] m by simp
  show "unat cap \<le> unat ((cap + 3) div 3 * 4)" "unat ((cap + 3) div 3 * 4) + 8 < 2 ^ 64"
    using n by (simp_all add: m)
qed

text \<open>What growing the block of a buffer keeps of its first \<open>len\<close> bytes.\<close>

lemma realloc_keeps:
  assumes m: "malloc_ok malloc" and ok: "buf_ok b"
    and re: "OPENSSL_realloc malloc (bdata b) n = Some nb" and n: "unat n + 8 < 2 ^ 64" and le: "blen b \<le> n"
  shows "block_ok nb \<and> prefix nb = n \<and> take (unat (blen b)) (data nb) = contents b"
proof (cases "bdata b")
  case None
  then have "OPENSSL_malloc malloc n = Some nb" "blen b = 0"
    using re ok by (auto simp: OPENSSL_realloc_def buf_ok_def)
  then show ?thesis using OPENSSL_malloc_Some [OF m n] by (simp add: contents_def)
next
  case (Some blk)
  with re have re': "OPENSSL_realloc malloc (Some blk) n = Some nb" by simp
  have blk: "block_ok blk" "prefix blk = bmax b" "unat (blen b) \<le> unat (prefix blk)"
    using ok Some by (auto simp: buf_ok_def word_le_nat_alt)
  note nb = OPENSSL_realloc_Some [OF m n re' blk(1)]
  have "take (unat (blen b)) (data nb) = take (unat (blen b)) (take (unat (prefix blk)) (data nb))"
    using blk(3) by (simp add: min_def)
  also have "\<dots> = take (unat (blen b)) (take (unat n) (data blk))" using nb by simp
  also have "\<dots> = contents b" using le Some by (simp add: contents_def bytes_of_def word_le_nat_alt min_def)
  finally show ?thesis using nb by simp
qed

lemma BUF_MEM_reserve_spec:
  assumes m: "malloc_ok malloc" and ok: "buf_ok buf" and cap: "unat cap < 2 ^ 63"
    and r: "BUF_MEM_reserve malloc buf cap = (res, buf')"
  shows "buf_ok buf' \<and> contents buf' = contents buf \<and> blen buf' = blen buf \<and>
    (res \<longrightarrow> cap \<le> bmax buf') \<and> (\<not> res \<longrightarrow> buf' = buf)"
proof (cases "bmax buf \<ge> cap")
  case True
  then show ?thesis using ok r by (simp add: BUF_MEM_reserve_def)
next
  case False
  let ?a = "(cap + 3) div 3 * 4"
  note a = reserve_size [OF cap]
  note ge = a(3,4)
  show ?thesis
  proof (cases "OPENSSL_realloc malloc (bdata buf) ?a")
    case None
    then show ?thesis using False a ok r by (simp add: BUF_MEM_reserve_def Let_def)
  next
    case (Some nb)
    have b': "res" "buf' = buf\<lparr>bdata := Some nb, bmax := ?a\<rparr>"
      using False a r Some by (simp_all add: BUF_MEM_reserve_def Let_def)
    have le: "blen buf \<le> ?a" using ok False ge(1) by (auto simp: buf_ok_def word_le_nat_alt)
    have nb: "block_ok nb \<and> prefix nb = ?a \<and> take (unat (blen buf)) (data nb) = contents buf"
      using realloc_keeps [OF m ok Some ge(2) le] .
    then show ?thesis
      using b' le ge by (simp add: buf_ok_def contents_def bytes_of_def word_le_nat_alt)
  qed
qed

lemma put_bytes_ok:
  assumes "buf_ok buf" "unat i + length xs \<le> unat (bmax buf)"
  shows "bytes_of (put_bytes (bdata buf) i xs) =
      take (unat i) (bytes_of (bdata buf)) @ xs @ drop (unat i + length xs) (bytes_of (bdata buf))"
    "n \<le> bmax buf \<Longrightarrow> buf_ok (buf\<lparr>bdata := put_bytes (bdata buf) i xs, blen := n\<rparr>)"
  using assms by (cases "bdata buf"; auto simp: put_bytes_def bytes_of_def buf_ok_def block_ok_def)+

lemma shrink_ok: "buf_ok b \<Longrightarrow> n \<le> blen b \<Longrightarrow> buf_ok (b\<lparr>blen := n\<rparr>)"
  by (cases "bdata b") (auto simp: buf_ok_def)

lemma BUF_MEM_grow_spec:
  assumes m: "malloc_ok malloc" and ok: "buf_ok buf" and len: "unat len < 2 ^ 63"
    and r: "BUF_MEM_grow malloc buf len = (res, buf')"
  shows "buf_ok buf' \<and> (buf' = buf \<and> res = 0 \<or>
    res = len \<and> contents buf' = take (unat len) (contents buf) @ replicate (unat len - length (contents buf)) 0)"
proof -
  obtain fin b where rb: "BUF_MEM_reserve malloc buf len = (fin, b)" by (cases "BUF_MEM_reserve malloc buf len")
  note s = BUF_MEM_reserve_spec [OF m ok len rb]
  show ?thesis
  proof (cases fin)
    case False
    then show ?thesis using s r rb ok by (simp add: BUF_MEM_grow_def)
  next
    case True
    with s have cap: "unat len \<le> unat (bmax b)" by (simp add: word_le_nat_alt)
    have cb: "contents b = take (unat (blen b)) (bytes_of (bdata b))" by (simp add: contents_def)
    have bl: "length (contents buf) = unat (blen b)" using s contents_length [of b] by simp
    note bk = buf_ok_length [of b]
    show ?thesis
    proof (cases "blen b < len")
      case True
      let ?z = "replicate (unat (len - blen b)) (0 :: u8)"
      have d: "unat (len - blen b) = unat len - unat (blen b)" "unat (blen b) < unat len"
        using True by (simp_all add: unat_sub_le less_imp_le) (simp add: word_less_nat_alt)
      have b': "res = len" "buf' = b\<lparr>bdata := put_bytes (bdata b) (blen b) ?z, blen := len\<rparr>"
        using r rb True \<open>fin\<close> by (auto simp: BUF_MEM_grow_def Let_def)
      have fits: "unat (blen b) + length ?z \<le> unat (bmax b)" using cap d by simp
      have "contents buf' = contents b @ ?z"
        using put_bytes_ok(1) [of b "blen b" ?z] s fits bk d by (simp add: contents_def b')
      then show ?thesis
        using put_bytes_ok(2) [of b "blen b" ?z len] s fits b' d bl cap
        by (simp add: word_le_nat_alt)
    next
      case False
      then have "unat len \<le> unat (blen b)" by (simp add: word_less_nat_alt)
      moreover have b': "res = len" "buf' = b\<lparr>blen := len\<rparr>"
        using r rb False \<open>fin\<close> by (auto simp: BUF_MEM_grow_def Let_def)
      moreover have "contents buf' = take (unat len) (contents b)"
        using calculation by (simp add: contents_def min_def)
      moreover have "buf_ok buf'"
        using s calculation shrink_ok [of b len] by (simp add: word_le_nat_alt)
      ultimately show ?thesis using s bl by simp
    qed
  qed
qed

lemma BUF_MEM_append_spec:
  assumes m: "malloc_ok malloc" and ok: "buf_ok buf" and len: "unat len + unat (blen buf) < 2 ^ 63"
    and inp: "unat len \<le> length inp"
    and r: "BUF_MEM_append malloc buf inp len = (res, buf')"
  shows "buf_ok buf' \<and> contents buf' = contents buf @ (if res then take (unat len) inp else []) \<and>
    (\<not> res \<longrightarrow> buf' = buf)"
proof -
  have n: "unat (blen buf + len) = unat (blen buf) + unat len"
    using len by (subst unat_add_no_overflow) simp_all
  then have "\<not> blen buf + len < len" by (simp add: word_less_nat_alt)
  obtain fin b where rb: "BUF_MEM_reserve malloc buf (blen buf + len) = (fin, b)"
    by (cases "BUF_MEM_reserve malloc buf (blen buf + len)")
  have "unat (blen buf + len) < 2 ^ 63" using n len by simp
  note s = BUF_MEM_reserve_spec [OF m ok this rb]
  show ?thesis
  proof (cases fin)
    case False
    then show ?thesis using s r rb ok \<open>\<not> blen buf + len < len\<close> by (simp add: BUF_MEM_append_def Let_def)
  next
    case True
    with s have cap: "unat (blen b) + unat len \<le> unat (bmax b)" by (simp add: word_le_nat_alt n)
    have b': "res" "buf' = b\<lparr>bdata := put_bytes (bdata b) (blen b) (take (unat len) inp), blen := blen b + len\<rparr>"
      using r rb True s \<open>\<not> blen buf + len < len\<close> by (simp_all add: BUF_MEM_append_def Let_def)
    have L: "length (take (unat len) inp) = unat len" using inp by simp
    have fits: "unat (blen b) + length (take (unat len) inp) \<le> unat (bmax b)" using cap L by simp
    have "length (take (unat (blen b)) (bytes_of (bdata b))) = unat (blen b)"
      using cap buf_ok_length [of b] s by simp
    then have "contents buf' = contents b @ take (unat len) inp"
      using put_bytes_ok(1) [of b "blen b" "take (unat len) inp"] s fits buf_ok_length [of b] n L
      by (simp add: contents_def b' del: length_take)
    then show ?thesis
      using put_bytes_ok(2) [of b "blen b" "take (unat len) inp" "blen b + len"] s fits b' cap n
      by (simp add: word_le_nat_alt)
  qed
qed

section \<open>The contract of a growable buffer\<close>

text \<open>Appending a sequence of pieces, stopping at the first failure.\<close>

fun append_all :: "('b \<Rightarrow> u8 list \<Rightarrow> u64 \<Rightarrow> bool \<times> 'b) \<Rightarrow> 'b \<Rightarrow> u8 list list \<Rightarrow> bool \<times> 'b" where
  "append_all app b [] = (True, b)"
| "append_all app b (x # xs) =
     (case app b x (of_nat (length x)) of
        (False, b') \<Rightarrow> (False, b')
      | (True, b') \<Rightarrow> append_all app b' xs)"

text \<open>
  What the clients of a growable buffer rely on: appending either fails and changes nothing, or adds
  the bytes at the end; resizing keeps a prefix and fills up with zeros.
\<close>

locale growable =
  fixes append_bytes :: "'b \<Rightarrow> u8 list \<Rightarrow> u64 \<Rightarrow> bool \<times> 'b"
    and resize :: "'b \<Rightarrow> u64 \<Rightarrow> u64 \<times> 'b"
    and held :: "'b \<Rightarrow> u8 list"
    and ok :: "'b \<Rightarrow> bool"
  assumes append_law: "ok b \<Longrightarrow> unat n = length xs \<Longrightarrow> length xs + length (held b) < 2 ^ 63 \<Longrightarrow>
      append_bytes b xs n = (res, b') \<Longrightarrow>
      ok b' \<and> held b' = held b @ (if res then xs else []) \<and> (\<not> res \<longrightarrow> b' = b)"
    and resize_law: "ok b \<Longrightarrow> unat n < 2 ^ 63 \<Longrightarrow> resize b n = (res', b') \<Longrightarrow>
      ok b' \<and> (b' = b \<and> res' = 0 \<or>
        res' = n \<and> held b' = take (unat n) (held b) @ replicate (unat n - length (held b)) 0)"
begin

lemma append_all_held:
  "ok b \<Longrightarrow> length (concat xs) + length (held b) < 2 ^ 63 \<Longrightarrow> append_all append_bytes b xs = (res, b') \<Longrightarrow>
   ok b' \<and> (\<exists>k \<le> length xs. held b' = held b @ concat (take k xs) \<and> (res \<longleftrightarrow> k = length xs))"
proof (induction xs arbitrary: b)
  case (Cons x xs)
  obtain r b1 where a: "append_bytes b x (of_nat (length x)) = (r, b1)"
    by (cases "append_bytes b x (of_nat (length x))")
  have "unat (of_nat (length x) :: u64) = length x" using "Cons.prems"(2) by simp
  from append_law [OF "Cons.prems"(1) this _ a] "Cons.prems"(2)
  have l: "ok b1" "held b1 = held b @ (if r then x else [])" by auto
  show ?case
  proof (cases r)
    case True
    have "length (concat xs) + length (held b1) < 2 ^ 63" using l True "Cons.prems"(2) by simp
    from Cons.IH [OF l(1) this] "Cons.prems"(3) a True
    obtain k where "ok b'" "k \<le> length xs" "held b' = held b1 @ concat (take k xs)" "res \<longleftrightarrow> k = length xs"
      by auto
    then show ?thesis using l True by (intro conjI exI [of _ "Suc k"]) simp_all
  next
    case False
    then show ?thesis using a l "Cons.prems"(3) by (intro conjI exI [of _ 0]) auto
  qed
qed auto

lemma append_then_shrink:
  assumes "ok b" "unat n = length xs" "length xs + length (held b) < 2 ^ 63"
    "append_bytes b xs n = (True, b1)" "resize b1 (of_nat (length (held b))) = (r, b2)" "r \<noteq> 0"
  shows "held b2 = held b"
proof -
  have a: "ok b1" "held b1 = held b @ xs" using append_law [OF assms(1-4)] by simp_all
  have "unat (of_nat (length (held b)) :: u64) = length (held b)" using assms(3) by simp
  then show ?thesis using resize_law [OF a(1) _ assms(5)] a assms(3,6) by auto
qed

end

lemma BUF_MEM_append_law:
  assumes "malloc_ok malloc" "buf_ok b" "unat n = length xs" "length xs + length (contents b) < 2 ^ 63"
    "BUF_MEM_append malloc b xs n = (res, b')"
  shows "buf_ok b' \<and> contents b' = contents b @ (if res then xs else []) \<and> (\<not> res \<longrightarrow> b' = b)"
  using BUF_MEM_append_spec [OF assms(1,2) _ _ assms(5)] assms(3,4) contents_length [OF assms(2)]
  by (simp add: add.commute)

text \<open>
  The buffer with an allocator that keeps its promises; a \<open>malloc\<close> that does not is replaced by one
  that always fails, so that the law needs no hypothesis.
\<close>

definition checked_malloc :: "malloc_fun \<Rightarrow> malloc_fun" where
  "checked_malloc malloc n =
     (case malloc n of
        None \<Rightarrow> None
      | Some p \<Rightarrow> if length p = unat n \<and> unat n < 2 ^ 63 then Some p else None)"

lemma checked_malloc_ok: "malloc_ok (checked_malloc malloc)"
  by (auto simp: malloc_ok_def checked_malloc_def split: option.splits if_splits)

lemma checked_malloc_id: "malloc_ok malloc \<Longrightarrow> checked_malloc malloc = malloc"
  by (rule ext) (auto simp: malloc_ok_def checked_malloc_def split: option.splits)

interpretation bm: growable "BUF_MEM_append (checked_malloc malloc)" "BUF_MEM_grow (checked_malloc malloc)"
  contents buf_ok for malloc
proof
  show "buf_ok b' \<and> contents b' = contents b @ (if res then xs else []) \<and> (\<not> res \<longrightarrow> b' = b)"
    if "buf_ok b" "unat n = length xs" "length xs + length (contents b) < 2 ^ 63"
      "BUF_MEM_append (checked_malloc malloc) b xs n = (res, b')" for b n xs res b'
    using BUF_MEM_append_law [OF checked_malloc_ok that] .
  show "buf_ok b' \<and> (b' = b \<and> res' = 0 \<or>
      res' = n \<and> contents b' = take (unat n) (contents b) @ replicate (unat n - length (contents b)) 0)"
    if "buf_ok b" "unat n < 2 ^ 63" "BUF_MEM_grow (checked_malloc malloc) b n = (res', b')" for b n res' b'
    using BUF_MEM_grow_spec [OF checked_malloc_ok that] .
qed

section \<open>String lemmas\<close>

lemma strlcpy_loop_value:
  "0 \<in> set src \<Longrightarrow> n \<le> length dst \<Longrightarrow>
   strlcpy_loop dst src n l =
     Some (if n = 0 then dst
           else take (n - 1) (c_string src) @ 0 # drop (Suc (min (n - 1) (length (c_string src)))) dst,
           l + length (c_string src))"
proof (induction dst src n l rule: strlcpy_loop.induct)
  case (2 dst c src n l)
  show ?case
  proof (cases "n > 1 \<and> c \<noteq> 0")
    case True
    then obtain d ds where d: "dst = d # ds" using 2 by (cases dst) auto
    have "strlcpy_loop ds src (n - 1) (l + 1) =
      Some (take (n - 1 - 1) (c_string src) @ 0 # drop (Suc (min (n - 1 - 1) (length (c_string src)))) ds,
        l + 1 + length (c_string src))"
      using "2.IH" [OF True d] "2.prems" True d by auto
    moreover have "2 \<le> n" using True by simp
    then obtain k where "n = 2 + k" using le_Suc_ex by blast
    ultimately show ?thesis using True d by simp
  next
    case False
    have len: "c_strlen (c # src) = Some (length (c_string (c # src)))"
      using "2.prems"(1) by (simp only: c_strlen_value if_True)
    show ?thesis
    proof (cases "n = 0")
      case True
      then show ?thesis using len by (simp del: c_strlen.simps c_string_simps)
    next
      case nz: False
      then obtain d ds where d: "dst = d # ds" using "2.prems" by (cases dst) auto
      have e: "strlcpy_loop dst (c # src) n l = Some (0 # ds, l + length (c_string (c # src)))"
        by (subst strlcpy_loop.simps, subst if_not_P [OF False])
          (simp add: nz d len del: c_strlen.simps c_string_simps)
      have "n = 1 \<or> c = 0" using False nz by auto
      then show ?thesis unfolding e using nz d by auto
    qed
  qed
qed simp

lemma strlcat_loop_full:
  "n \<le> length dst \<Longrightarrow> 0 \<notin> set (take n dst) \<Longrightarrow> 0 \<in> set src \<Longrightarrow>
   strlcat_loop dst src n l = Some (dst, l + n + length (c_string src))"
proof (induction dst src n l rule: strlcat_loop.induct)
  case (3 c ds src n l)
  then have "strlcat_loop ds src n (l + 1) = Some (ds, l + 1 + n + length (c_string src))" "c \<noteq> 0" by simp_all
  then show ?case by simp
qed (simp_all add: BUF_strlcpy_def strlcpy_loop_value)

lemma strlcat_loop_value:
  "n \<le> length dst \<Longrightarrow> 0 \<in> set (take n dst) \<Longrightarrow> 0 \<in> set src \<Longrightarrow>
   strlcat_loop dst src n l =
     Some (c_string dst @ take (n - length (c_string dst) - 1) (c_string src) @
             0 # drop (length (c_string dst) +
                 Suc (min (n - length (c_string dst) - 1) (length (c_string src)))) dst,
           l + length (c_string dst) + length (c_string src))"
proof (induction dst src n l rule: strlcat_loop.induct)
  case (3 c ds src n l)
  show ?case
  proof (cases "c = 0")
    case True
    then show ?thesis using 3 by (simp add: BUF_strlcpy_def strlcpy_loop_value)
  next
    case False
    then have "strlcat_loop ds src n (l + 1) =
     Some (c_string ds @ take (n - length (c_string ds) - 1) (c_string src) @
             0 # drop (length (c_string ds) +
                 Suc (min (n - length (c_string ds) - 1) (length (c_string src)))) ds,
           l + 1 + length (c_string ds) + length (c_string src))"
      using 3 by simp
    then show ?thesis using False by simp
  qed
qed simp_all

section \<open>Properties\<close>

text \<open>
  C23. A BUF_MEM that is appended to piece by piece holds exactly the pieces, in order; when an
  allocation fails the pieces before it are kept and the buffer stays well formed.
\<close>

theorem buf_mem_collects:
  assumes "malloc_ok malloc" "buf_ok b" "length (concat xs) + length (contents b) < 2 ^ 63"
    "append_all (BUF_MEM_append malloc) b xs = (res, b')"
  shows "buf_ok b' \<and> (\<exists>k \<le> length xs. contents b' = contents b @ concat (take k xs) \<and> (res \<longleftrightarrow> k = length xs))"
  using bm.append_all_held [of b xs malloc res b'] assms by (simp add: checked_malloc_id)

theorem buf_mem_collects_witness:
  "\<exists>b'. append_all (BUF_MEM_append zero_malloc) BUF_MEM_new [[1, 2], [3]] = (True, b') \<and>
     contents b' = [1, 2, 3]"
proof -
  have ok: "buf_ok BUF_MEM_new" by (simp add: buf_ok_def BUF_MEM_new_def)
  have new: "contents BUF_MEM_new = []" by (simp add: contents_def BUF_MEM_new_def)
  obtain b' where r: "append_all (BUF_MEM_append zero_malloc) BUF_MEM_new [[1, 2], [3]] = (True, b')"
  proof -
    have "fst (append_all (BUF_MEM_append zero_malloc) BUF_MEM_new [[1, 2], [3]])" by code_simp
    then show thesis using that
      by (cases "append_all (BUF_MEM_append zero_malloc) BUF_MEM_new [[1, 2], [3]]") simp
  qed
  have "length (concat [[1, 2], [3 :: u8]]) + length (contents BUF_MEM_new) < 2 ^ 63" by (simp add: new)
  from buf_mem_collects [OF zero_malloc_ok ok this r] show ?thesis using r by (auto simp: new)
qed

text \<open>
  C24. BUF_strlcpy stores the longest prefix of the source that fits, terminated by a zero, leaves the
  rest of the destination alone and returns the length of the source; BUF_strlcat does the same
  behind the string in the destination, and changes nothing when that string fills the buffer.
\<close>

theorem strlcpy_strlcat_bounded:
  assumes "0 \<in> set src" "n \<le> length dst" "0 < n"
  shows "BUF_strlcpy dst src n =
      Some (take (n - 1) (c_string src) @ 0 # drop (Suc (min (n - 1) (length (c_string src)))) dst,
            length (c_string src)) \<and>
    BUF_strlcat dst src n =
      (if 0 \<in> set (take n dst) then
         Some (c_string dst @ take (n - length (c_string dst) - 1) (c_string src) @
                 0 # drop (length (c_string dst) +
                     Suc (min (n - length (c_string dst) - 1) (length (c_string src)))) dst,
               length (c_string dst) + length (c_string src))
       else Some (dst, n + length (c_string src)))"
  using assms strlcat_loop_value [of n dst src 0] strlcat_loop_full [of n dst src 0]
  by (simp add: BUF_strlcpy_def BUF_strlcat_def strlcpy_loop_value)

theorem strlcpy_strlcat_bounded_witness:
  "BUF_strlcpy [9, 9, 9, 9, 9] [65, 66, 67, 0] 3 = Some ([65, 66, 0, 9, 9], 3)"
  using strlcpy_strlcat_bounded [of "[65, 66, 67, 0]" 3 "[9, 9, 9, 9, 9]"] by simp

end
