(* ===== verification/Cbs.thy ===== *)
theory Cbs
  imports Prelude
begin

text \<open>
  BoringSSL \<open>crypto/bytestring/cbs.c\<close>: reading bytes, integers, length-prefixed strings and
  DER/BER elements from a \<open>CBS\<close>. A \<open>CBS\<close> (a pointer and a length) is the list of the bytes it
  covers; advancing it drops a prefix, so the part that was read is always a slice of the input.
  A parser returns what it stored in its output parameters (\<open>None\<close> for the return value 0) and the
  updated \<open>CBS\<close>, which a failing parser may have advanced. A byte count that the code compares with
  \<open>cbs->len\<close> is a natural number; the length arithmetic of the element parser is done on 64-bit
  words, as in the code.
\<close>

unbundle bit_operations_syntax

type_synonym cbs = "u8 list"
type_synonym 'a cbs_result = "'a option \<times> cbs"

section \<open>Bytes and integers\<close>

definition CBS_init :: "u8 list \<Rightarrow> nat \<Rightarrow> cbs" where
  "CBS_init data len = take len data"

definition CBS_data :: "cbs \<Rightarrow> u8 list" where
  "CBS_data cbs = cbs"

definition CBS_len :: "cbs \<Rightarrow> u64" where
  "CBS_len cbs = of_nat (length cbs)"

definition cbs_get :: "cbs \<Rightarrow> nat \<Rightarrow> u8 list cbs_result" where
  "cbs_get cbs n = (if length cbs < n then (None, cbs) else (Some (take n cbs), drop n cbs))"

definition CBS_skip :: "cbs \<Rightarrow> nat \<Rightarrow> unit cbs_result" where
  "CBS_skip cbs len = (case cbs_get cbs len of (None, c) \<Rightarrow> (None, c) | (Some _, c) \<Rightarrow> (Some (), c))"

text \<open>The loop of \<open>cbs_get_u\<close>.\<close>

fun be_accumulate :: "u32 \<Rightarrow> u8 list \<Rightarrow> u32" where
  "be_accumulate result [] = result"
| "be_accumulate result (d # data) = be_accumulate (push_bit 8 result OR ucast d) data"

definition cbs_get_u :: "cbs \<Rightarrow> nat \<Rightarrow> u32 cbs_result" where
  "cbs_get_u cbs len =
     (case cbs_get cbs len of
        (None, c) \<Rightarrow> (None, c)
      | (Some data, c) \<Rightarrow> (Some (be_accumulate 0 data), c))"

definition CBS_get_u8 :: "cbs \<Rightarrow> u8 cbs_result" where
  "CBS_get_u8 cbs =
     (case cbs_get cbs 1 of (None, c) \<Rightarrow> (None, c) | (Some v, c) \<Rightarrow> (Some (v ! 0), c))"

definition CBS_get_u16 :: "cbs \<Rightarrow> u16 cbs_result" where
  "CBS_get_u16 cbs =
     (case cbs_get_u cbs 2 of (None, c) \<Rightarrow> (None, c) | (Some v, c) \<Rightarrow> (Some (ucast v), c))"

definition CBS_get_u24 :: "cbs \<Rightarrow> u32 cbs_result" where
  "CBS_get_u24 cbs = cbs_get_u cbs 3"

definition CBS_get_u32 :: "cbs \<Rightarrow> u32 cbs_result" where
  "CBS_get_u32 cbs = cbs_get_u cbs 4"

definition CBS_get_last_u8 :: "cbs \<Rightarrow> u8 cbs_result" where
  "CBS_get_last_u8 cbs =
     (if length cbs = 0 then (None, cbs)
      else (Some (cbs ! (length cbs - 1)), take (length cbs - 1) cbs))"

definition CBS_get_bytes :: "cbs \<Rightarrow> nat \<Rightarrow> cbs cbs_result" where
  "CBS_get_bytes cbs len =
     (case cbs_get cbs len of (None, c) \<Rightarrow> (None, c) | (Some v, c) \<Rightarrow> (Some (CBS_init v len), c))"

definition CBS_copy_bytes :: "cbs \<Rightarrow> nat \<Rightarrow> u8 list cbs_result" where
  "CBS_copy_bytes cbs len =
     (case cbs_get cbs len of (None, c) \<Rightarrow> (None, c) | (Some v, c) \<Rightarrow> (Some (take len v), c))"

definition cbs_get_length_prefixed :: "cbs \<Rightarrow> nat \<Rightarrow> cbs cbs_result" where
  "cbs_get_length_prefixed cbs len_len =
     (case cbs_get_u cbs len_len of
        (None, c) \<Rightarrow> (None, c)
      | (Some len, c) \<Rightarrow> CBS_get_bytes c (unat len))"

definition CBS_get_u8_length_prefixed :: "cbs \<Rightarrow> cbs cbs_result" where
  "CBS_get_u8_length_prefixed cbs = cbs_get_length_prefixed cbs 1"

definition CBS_get_u16_length_prefixed :: "cbs \<Rightarrow> cbs cbs_result" where
  "CBS_get_u16_length_prefixed cbs = cbs_get_length_prefixed cbs 2"

definition CBS_get_u24_length_prefixed :: "cbs \<Rightarrow> cbs cbs_result" where
  "CBS_get_u24_length_prefixed cbs = cbs_get_length_prefixed cbs 3"

definition CBS_contains_zero_byte :: "cbs \<Rightarrow> bool" where
  "CBS_contains_zero_byte cbs \<longleftrightarrow> List.member cbs 0"

section \<open>Tags and elements\<close>

abbreviation CBS_ASN1_TAG_SHIFT :: nat where "CBS_ASN1_TAG_SHIFT \<equiv> 24"
abbreviation CBS_ASN1_CONSTRUCTED :: u32 where "CBS_ASN1_CONSTRUCTED \<equiv> 0x20000000"
abbreviation CBS_ASN1_TAG_NUMBER_MASK :: u32 where "CBS_ASN1_TAG_NUMBER_MASK \<equiv> 0x1FFFFFFF"
abbreviation CBS_ASN1_BOOLEAN :: u32 where "CBS_ASN1_BOOLEAN \<equiv> 0x1"
abbreviation CBS_ASN1_INTEGER :: u32 where "CBS_ASN1_INTEGER \<equiv> 0x2"
abbreviation CBS_ASN1_OCTETSTRING :: u32 where "CBS_ASN1_OCTETSTRING \<equiv> 0x4"

text \<open>
  The \<open>do ... while (b & 0x80)\<close> loop with the value so far, \<open>v\<close>. \<open>CBS_get_u8\<close> fails on an
  empty \<open>CBS\<close> and takes the first byte of a non-empty one.
\<close>

fun base128_loop :: "u64 \<Rightarrow> cbs \<Rightarrow> u64 cbs_result" where
  "base128_loop v [] = (None, [])"
| "base128_loop v (b # c) =
     (if drop_bit (64 - 7) v \<noteq> 0 then (None, c)
      else if v = 0 \<and> b = 0x80 then (None, c)
      else
        let v' = push_bit 7 v OR ucast (b AND 0x7f)
        in if b AND 0x80 \<noteq> 0 then base128_loop v' c else (Some v', c))"

definition parse_base128_integer :: "cbs \<Rightarrow> u64 cbs_result" where
  "parse_base128_integer cbs = base128_loop 0 cbs"

definition parse_asn1_tag :: "cbs \<Rightarrow> u32 cbs_result" where
  "parse_asn1_tag cbs =
     (case CBS_get_u8 cbs of
        (None, c) \<Rightarrow> (None, c)
      | (Some tag_byte, c) \<Rightarrow>
          let tag = push_bit CBS_ASN1_TAG_SHIFT (ucast tag_byte AND 0xe0);
              tag_number = ucast tag_byte AND 0x1f
          in if tag_number = 0x1f then
               (case parse_base128_integer c of
                  (None, c1) \<Rightarrow> (None, c1)
                | (Some v, c1) \<Rightarrow>
                    if v > ucast CBS_ASN1_TAG_NUMBER_MASK \<or> v < 0x1f then (None, c1)
                    else (Some (tag OR ucast v), c1))
             else (Some (tag OR tag_number), c))"

text \<open>
  \<open>cbs_get_any_asn1_element\<close> works on the copy \<open>header\<close>, so a failure leaves \<open>cbs\<close> unchanged up
  to the final \<open>CBS_get_bytes\<close>. The results are \<open>*out\<close>, \<open>*out_tag\<close> and \<open>*out_header_len\<close>; a caller
  that passes a null pointer ignores that component.
\<close>

definition cbs_get_any_asn1_element ::
    "cbs \<Rightarrow> bool \<Rightarrow> (cbs \<times> u32 \<times> u64) cbs_result" where
  "cbs_get_any_asn1_element cbs ber_ok =
     (case parse_asn1_tag cbs of
        (None, _) \<Rightarrow> (None, cbs)
      | (Some tag, header) \<Rightarrow>
     (case CBS_get_u8 header of
        (None, _) \<Rightarrow> (None, cbs)
      | (Some length_byte, header) \<Rightarrow>
     let header_len = CBS_len cbs - CBS_len header;
         finish = (\<lambda>len out_header_len.
           case CBS_get_bytes cbs (unat len) of
             (None, c) \<Rightarrow> (None, c)
           | (Some out, c) \<Rightarrow> (Some (out, tag, out_header_len), c))
     in if length_byte AND 0x80 = 0 then
          finish (ucast length_byte + header_len) header_len
        else
          let num_bytes = (ucast (length_byte AND 0x7f) :: u64)
          in if ber_ok \<and> tag AND CBS_ASN1_CONSTRUCTED \<noteq> 0 \<and> num_bytes = 0 then
               finish header_len header_len
             else if num_bytes = 0 \<or> num_bytes > 4 then (None, cbs)
             else
               (case cbs_get_u header (unat num_bytes) of
                  (None, _) \<Rightarrow> (None, cbs)
                | (Some len32, _) \<Rightarrow>
                    if len32 < 128 then (None, cbs)
                    else if drop_bit (unat ((num_bytes - 1) * 8)) len32 = 0 then (None, cbs)
                    else
                      let len = (ucast len32 :: u64)
                      in if len + header_len + num_bytes < len then (None, cbs)
                         else finish (len + (header_len + num_bytes)) (header_len + num_bytes))))"

definition CBS_get_any_asn1_element :: "cbs \<Rightarrow> (cbs \<times> u32 \<times> u64) cbs_result" where
  "CBS_get_any_asn1_element cbs = cbs_get_any_asn1_element cbs False"

definition CBS_get_any_ber_asn1_element :: "cbs \<Rightarrow> (cbs \<times> u32 \<times> u64) cbs_result" where
  "CBS_get_any_ber_asn1_element cbs = cbs_get_any_asn1_element cbs True"

text \<open>The branch \<open>assert(0); return 0\<close> is the return value 0; it is proved unreachable below.\<close>

definition CBS_get_any_asn1 :: "cbs \<Rightarrow> (cbs \<times> u32) cbs_result" where
  "CBS_get_any_asn1 cbs =
     (case CBS_get_any_asn1_element cbs of
        (None, c) \<Rightarrow> (None, c)
      | (Some (out, tag, header_len), c) \<Rightarrow>
          (case CBS_skip out (unat header_len) of
             (None, _) \<Rightarrow> (None, c)
           | (Some _, out') \<Rightarrow> (Some (out', tag), c)))"

definition cbs_get_asn1 :: "cbs \<Rightarrow> u32 \<Rightarrow> bool \<Rightarrow> cbs cbs_result" where
  "cbs_get_asn1 cbs tag_value skip_header =
     (case CBS_get_any_asn1_element cbs of
        (None, c) \<Rightarrow> (None, c)
      | (Some (out, tag, header_len), c) \<Rightarrow>
          if tag \<noteq> tag_value then (None, c)
          else if skip_header then
            (case CBS_skip out (unat header_len) of
               (None, _) \<Rightarrow> (None, c)
             | (Some _, out') \<Rightarrow> (Some out', c))
          else (Some out, c))"

definition CBS_get_asn1 :: "cbs \<Rightarrow> u32 \<Rightarrow> cbs cbs_result" where
  "CBS_get_asn1 cbs tag_value = cbs_get_asn1 cbs tag_value True"

definition CBS_get_asn1_element :: "cbs \<Rightarrow> u32 \<Rightarrow> cbs cbs_result" where
  "CBS_get_asn1_element cbs tag_value = cbs_get_asn1 cbs tag_value False"

definition CBS_peek_asn1_tag :: "cbs \<Rightarrow> u32 \<Rightarrow> bool" where
  "CBS_peek_asn1_tag cbs tag_value =
     (if CBS_len cbs < 1 then False
      else (case parse_asn1_tag cbs of
              (None, _) \<Rightarrow> False
            | (Some actual_tag, _) \<Rightarrow> tag_value = actual_tag))"

section \<open>DER values\<close>

fun uint64_loop :: "u64 \<Rightarrow> u8 list \<Rightarrow> u64 option" where
  "uint64_loop out [] = Some out"
| "uint64_loop out (d # data) =
     (if drop_bit 56 out \<noteq> 0 then None
      else uint64_loop (push_bit 8 out OR ucast d) data)"

definition CBS_get_asn1_uint64 :: "cbs \<Rightarrow> u64 cbs_result" where
  "CBS_get_asn1_uint64 cbs =
     (case CBS_get_asn1 cbs CBS_ASN1_INTEGER of
        (None, c) \<Rightarrow> (None, c)
      | (Some data, c) \<Rightarrow>
          if length data = 0 then (None, c)
          else if data ! 0 AND 0x80 \<noteq> 0 then (None, c)
          else if data ! 0 = 0 \<and> length data > 1 \<and> data ! 1 AND 0x80 = 0 then (None, c)
          else (uint64_loop 0 data, c))"

definition CBS_get_asn1_bool :: "cbs \<Rightarrow> bool cbs_result" where
  "CBS_get_asn1_bool cbs =
     (case CBS_get_asn1 cbs CBS_ASN1_BOOLEAN of
        (None, c) \<Rightarrow> (None, c)
      | (Some bytes, c) \<Rightarrow>
          if CBS_len bytes \<noteq> 1 then (None, c)
          else
            let value = bytes ! 0
            in if value \<noteq> 0 \<and> value \<noteq> 0xff then (None, c) else (Some (value \<noteq> 0), c))"

text \<open>\<open>None\<close> inside the result stands for an absent element (\<open>*out_present\<close> is 0).\<close>

definition CBS_get_optional_asn1 :: "cbs \<Rightarrow> u32 \<Rightarrow> cbs option cbs_result" where
  "CBS_get_optional_asn1 cbs tag =
     (if CBS_peek_asn1_tag cbs tag then
        (case CBS_get_asn1 cbs tag of
           (None, c) \<Rightarrow> (None, c)
         | (Some out, c) \<Rightarrow> (Some (Some out), c))
      else (Some None, cbs))"

text \<open>The result is \<open>*out\<close> and \<open>*out_present\<close>.\<close>

definition CBS_get_optional_asn1_octet_string :: "cbs \<Rightarrow> u32 \<Rightarrow> (cbs \<times> bool) cbs_result" where
  "CBS_get_optional_asn1_octet_string cbs tag =
     (case CBS_get_optional_asn1 cbs tag of
        (None, c) \<Rightarrow> (None, c)
      | (Some (Some child), c) \<Rightarrow>
          (case CBS_get_asn1 child CBS_ASN1_OCTETSTRING of
             (None, _) \<Rightarrow> (None, c)
           | (Some out, child') \<Rightarrow>
               if CBS_len child' \<noteq> 0 then (None, c) else (Some (out, True), c))
      | (Some None, c) \<Rightarrow> (Some ([], False), c))"

definition CBS_get_optional_asn1_uint64 :: "cbs \<Rightarrow> u32 \<Rightarrow> u64 \<Rightarrow> u64 cbs_result" where
  "CBS_get_optional_asn1_uint64 cbs tag default_value =
     (case CBS_get_optional_asn1 cbs tag of
        (None, c) \<Rightarrow> (None, c)
      | (Some (Some child), c) \<Rightarrow>
          (case CBS_get_asn1_uint64 child of
             (None, _) \<Rightarrow> (None, c)
           | (Some out, child') \<Rightarrow> if CBS_len child' \<noteq> 0 then (None, c) else (Some out, c))
      | (Some None, c) \<Rightarrow> (Some default_value, c))"

text \<open>The C \<open>int\<close> results 0 and 1 and the \<open>default_value\<close>, which the code passes through.\<close>

definition CBS_get_optional_asn1_bool :: "cbs \<Rightarrow> u32 \<Rightarrow> int \<Rightarrow> int cbs_result" where
  "CBS_get_optional_asn1_bool cbs tag default_value =
     (case CBS_get_optional_asn1 cbs tag of
        (None, c) \<Rightarrow> (None, c)
      | (Some (Some child), c) \<Rightarrow>
          (case CBS_get_asn1 child CBS_ASN1_BOOLEAN of
             (None, _) \<Rightarrow> (None, c)
           | (Some child2, child') \<Rightarrow>
               if CBS_len child2 \<noteq> 1 \<or> CBS_len child' \<noteq> 0 then (None, c)
               else
                 let boolean = child2 ! 0
                 in if boolean = 0 then (Some 0, c)
                    else if boolean = 0xff then (Some 1, c)
                    else (None, c))
      | (Some None, c) \<Rightarrow> (Some default_value, c))"

definition CBS_is_valid_asn1_bitstring :: "cbs \<Rightarrow> bool" where
  "CBS_is_valid_asn1_bitstring cbs =
     (case CBS_get_u8 cbs of
        (None, _) \<Rightarrow> False
      | (Some num_unused_bits, c) \<Rightarrow>
          if num_unused_bits > 7 then False
          else if num_unused_bits = 0 then True
          else (case CBS_get_last_u8 c of
                  (None, _) \<Rightarrow> False
                | (Some last_byte, _) \<Rightarrow> last_byte AND (push_bit (unat num_unused_bits) 1 - 1) = 0))"

definition CBS_asn1_bitstring_has_bit :: "cbs \<Rightarrow> u32 \<Rightarrow> bool" where
  "CBS_asn1_bitstring_has_bit cbs bit_index =
     (if \<not> CBS_is_valid_asn1_bitstring cbs then False
      else
        let byte_num = drop_bit 3 bit_index + 1;
            bit_num = 7 - (bit_index AND 7)
        in ucast byte_num < CBS_len cbs \<and>
           cbs ! unat byte_num AND push_bit (unat bit_num) 1 \<noteq> 0)"

end
