(* ===== verification/Cbb.thy ===== *)
theory Cbb
  imports Buf Cbs
begin

text \<open>
  BoringSSL \<open>crypto/bytestring/cbb.c\<close>: building byte strings with nested length prefixes. All the
  \<open>CBB\<close>s of one object share their \<open>cbb_buffer_st\<close>, and each has at most one child, so the state is
  the buffer and the chain of the open children, outermost first. A \<open>CBB\<close> is named by its depth: 0 is
  the top-level one and \<open>d + 1\<close> the child of \<open>d\<close>. A depth beyond the chain is a child that was
  flushed or discarded, whose \<open>base\<close> pointer is null. A pointer into the buffer is its offset.
\<close>

unbundle bit_operations_syntax

record cbb_buffer =
  bb_buf :: "ossl_block option"
  bb_len :: u64
  bb_cap :: u64
  bb_can_resize :: bool
  bb_error :: bool

record cbb_child =
  ch_offset :: u64
  ch_pending_len_len :: u8
  ch_pending_is_asn1 :: bool

record cbb =
  cb_base :: cbb_buffer
  cb_chain :: "cbb_child list"

section \<open>The buffer\<close>

definition cbb_init :: "ossl_block option \<Rightarrow> u64 \<Rightarrow> cbb" where
  "cbb_init buf cap =
     \<lparr>cb_base = \<lparr>bb_buf = buf, bb_len = 0, bb_cap = cap, bb_can_resize = True, bb_error = False\<rparr>,
      cb_chain = []\<rparr>"

text \<open>\<open>base_alloc\<close> is whether the allocation of the \<open>cbb_buffer_st\<close> itself succeeds.\<close>

definition CBB_init :: "malloc_fun \<Rightarrow> bool \<Rightarrow> u64 \<Rightarrow> cbb option" where
  "CBB_init malloc base_alloc initial_capacity =
     (let buf = OPENSSL_malloc malloc initial_capacity
      in if initial_capacity > 0 \<and> buf = None then None
         else if \<not> base_alloc then None
         else Some (cbb_init buf initial_capacity))"

text \<open>The caller's array stands as a block that is never reallocated or freed.\<close>

definition CBB_init_fixed :: "bool \<Rightarrow> u8 list \<Rightarrow> u64 \<Rightarrow> cbb option" where
  "CBB_init_fixed base_alloc buf len =
     (if \<not> base_alloc then None
      else
        let s = cbb_init (Some \<lparr>prefix = len, data = buf\<rparr>) len
        in Some (s\<lparr>cb_base := (cb_base s)\<lparr>bb_can_resize := False\<rparr>\<rparr>))"

text \<open>The buffer \<open>CBB_cleanup\<close> hands to \<open>OPENSSL_free\<close>.\<close>

definition CBB_cleanup :: "cbb option \<Rightarrow> u8 list option" where
  "CBB_cleanup cbb =
     (case cbb of
        None \<Rightarrow> None
      | Some s \<Rightarrow> if bb_can_resize (cb_base s) then OPENSSL_free (bb_buf (cb_base s)) else None)"

definition cbb_buffer_reserve :: "malloc_fun \<Rightarrow> cbb_buffer \<Rightarrow> u64 \<Rightarrow> u64 option \<times> cbb_buffer" where
  "cbb_buffer_reserve malloc base len =
     (let newlen = bb_len base + len;
          err = (None, base\<lparr>bb_error := True\<rparr>)
      in if newlen < bb_len base then err
         else if newlen > bb_cap base then
           let newcap = bb_cap base * 2
           in if \<not> bb_can_resize base then err
              else
                let newcap = (if newcap < bb_cap base \<or> newcap < newlen then newlen else newcap)
                in (case OPENSSL_realloc malloc (bb_buf base) newcap of
                      None \<Rightarrow> err
                    | Some newbuf \<Rightarrow>
                        (Some (bb_len base), base\<lparr>bb_buf := Some newbuf, bb_cap := newcap\<rparr>))
         else (Some (bb_len base), base))"

definition cbb_buffer_add :: "malloc_fun \<Rightarrow> cbb_buffer \<Rightarrow> u64 \<Rightarrow> u64 option \<times> cbb_buffer" where
  "cbb_buffer_add malloc base len =
     (case cbb_buffer_reserve malloc base len of
        (None, base) \<Rightarrow> (None, base)
      | (Some out, base) \<Rightarrow> (Some out, base\<lparr>bb_len := bb_len base + len\<rparr>))"

text \<open>\<open>for (i = n - 1; i < n; i--) { buf[off + i] = v; v >>= 8; }\<close> and the remaining \<open>v\<close>.\<close>

fun store_be :: "ossl_block option \<Rightarrow> u64 \<Rightarrow> 'a::len word \<Rightarrow> nat \<Rightarrow> ossl_block option \<times> 'a word" where
  "store_be buf off v 0 = (buf, v)"
| "store_be buf off v (Suc i) = store_be (put_bytes buf (off + of_nat i) [ucast v]) off (drop_bit 8 v) i"

definition cbb_buffer_add_u :: "malloc_fun \<Rightarrow> cbb_buffer \<Rightarrow> u32 \<Rightarrow> nat \<Rightarrow> bool \<times> cbb_buffer" where
  "cbb_buffer_add_u malloc base v len_len =
     (if len_len = 0 then (True, base)
      else
        (case cbb_buffer_add malloc base (of_nat len_len) of
           (None, base) \<Rightarrow> (False, base)
         | (Some off, base) \<Rightarrow>
             (case store_be (bb_buf base) off v len_len of
                (buf, v) \<Rightarrow>
                  let base = base\<lparr>bb_buf := buf\<rparr>
                  in if v \<noteq> 0 then (False, base\<lparr>bb_error := True\<rparr>) else (True, base))))"

section \<open>Flushing\<close>

text \<open>The number of length octets, the first of them and the length left to store, per \<open>len\<close>.\<close>

definition asn1_length_form :: "u64 \<Rightarrow> (u8 \<times> u8 \<times> u64) option" where
  "asn1_length_form len =
     (if len > 0xfffffffe then None
      else if len > 0xffffff then Some (5, 0x80 OR 4, len)
      else if len > 0xffff then Some (4, 0x80 OR 3, len)
      else if len > 0xff then Some (3, 0x80 OR 2, len)
      else if len > 0x7f then Some (2, 0x80 OR 1, len)
      else Some (1, ucast len, 0))"

definition set_base :: "cbb \<Rightarrow> cbb_buffer \<Rightarrow> cbb" where
  "set_base s b = s\<lparr>cb_base := b\<rparr>"

text \<open>\<open>cbb->base->error = 1; return 0\<close>\<close>

definition cbb_fail :: "cbb \<Rightarrow> bool \<times> cbb" where
  "cbb_fail s = (False, set_base s ((cb_base s)\<lparr>bb_error := True\<rparr>))"

text \<open>The end of \<open>CBB_flush\<close>: store the length of child number \<open>d\<close> and detach it.\<close>

definition flush_store :: "nat \<Rightarrow> cbb \<Rightarrow> u64 \<Rightarrow> bool \<times> cbb" where
  "flush_store d s len =
     (let child = cb_chain s ! d
      in (case store_be (bb_buf (cb_base s)) (ch_offset child) len (unat (ch_pending_len_len child)) of
            (buf, len) \<Rightarrow>
              let s = set_base s ((cb_base s)\<lparr>bb_buf := buf\<rparr>)
              in if len \<noteq> 0 then cbb_fail s else (True, s\<lparr>cb_chain := take d (cb_chain s)\<rparr>)))"

text \<open>The part of \<open>CBB_flush\<close> for \<open>pending_is_asn1\<close>.\<close>

definition flush_asn1 :: "malloc_fun \<Rightarrow> nat \<Rightarrow> cbb \<Rightarrow> u64 \<Rightarrow> u64 \<Rightarrow> bool \<times> cbb" where
  "flush_asn1 malloc d s child_start len =
     (case asn1_length_form len of
        None \<Rightarrow> cbb_fail s
      | Some (len_len, initial_length_byte, len') \<Rightarrow>
          let moved =
            (if len_len \<noteq> 1 then
               let extra_bytes = ucast (len_len - 1)
               in (case cbb_buffer_add malloc (cb_base s) extra_bytes of
                     (None, base) \<Rightarrow> (False, base)
                   | (Some _, base) \<Rightarrow>
                       (True, base\<lparr>bb_buf := put_bytes (bb_buf base) (child_start + extra_bytes)
                          (take (unat len') (drop (unat child_start) (bytes_of (bb_buf base))))\<rparr>))
             else (True, cb_base s))
          in (case moved of
                (False, base) \<Rightarrow> cbb_fail (set_base s base)
              | (True, base) \<Rightarrow>
                  let child = cb_chain s ! d;
                      base = base\<lparr>bb_buf := put_bytes (bb_buf base) (ch_offset child) [initial_length_byte]\<rparr>;
                      child = child\<lparr>ch_offset := ch_offset child + 1, ch_pending_len_len := len_len - 1\<rparr>
                  in flush_store d ((set_base s base)\<lparr>cb_chain := (cb_chain s)[d := child]\<rparr>) len'))"

function CBB_flush :: "malloc_fun \<Rightarrow> nat \<Rightarrow> cbb \<Rightarrow> bool \<times> cbb" where
  "CBB_flush malloc d s =
     (if d > length (cb_chain s) \<or> bb_error (cb_base s) then (False, s)
      else if d = length (cb_chain s) \<or> ch_pending_len_len (cb_chain s ! d) = 0 then (True, s)
      else
        let child = cb_chain s ! d;
            child_start = ch_offset child + ucast (ch_pending_len_len child)
        in (case CBB_flush malloc (d + 1) s of
              (flushed, s) \<Rightarrow>
                if \<not> flushed \<or> child_start < ch_offset child \<or> bb_len (cb_base s) < child_start
                then cbb_fail s
                else
                  let len = bb_len (cb_base s) - child_start
                  in if ch_pending_is_asn1 child then flush_asn1 malloc d s child_start len
                     else flush_store d s len))"
  by pat_completeness auto

termination
  by (relation "measure (\<lambda>(malloc, d, s). length (cb_chain s) - d)") auto

declare CBB_flush.simps [simp del]

section \<open>Adding\<close>

text \<open>\<open>offset\<close> and \<open>pending_len_len\<close> of the \<open>CBB\<close> at depth \<open>d\<close>: zero for the top-level one.\<close>

definition cbb_start :: "nat \<Rightarrow> cbb \<Rightarrow> u64" where
  "cbb_start d s =
     (if d = 0 then 0
      else ch_offset (cb_chain s ! (d - 1)) + ucast (ch_pending_len_len (cb_chain s ! (d - 1))))"

text \<open>The pointer, as an offset; the code asserts that there is no child.\<close>

definition CBB_data :: "nat \<Rightarrow> cbb \<Rightarrow> u64" where
  "CBB_data d s = cbb_start d s"

definition CBB_len :: "nat \<Rightarrow> cbb \<Rightarrow> u64" where
  "CBB_len d s = bb_len (cb_base s) - cbb_start d s"

definition add_child :: "nat \<Rightarrow> cbb \<Rightarrow> cbb_child \<Rightarrow> cbb" where
  "add_child d s child = s\<lparr>cb_chain := take d (cb_chain s) @ [child]\<rparr>"

definition cbb_add_length_prefixed :: "malloc_fun \<Rightarrow> nat \<Rightarrow> cbb \<Rightarrow> u8 \<Rightarrow> bool \<times> cbb" where
  "cbb_add_length_prefixed malloc d s len_len =
     (case CBB_flush malloc d s of
        (False, s) \<Rightarrow> (False, s)
      | (True, s) \<Rightarrow>
          let offset = bb_len (cb_base s)
          in (case cbb_buffer_add malloc (cb_base s) (ucast len_len) of
                (None, base) \<Rightarrow> (False, set_base s base)
              | (Some prefix_bytes, base) \<Rightarrow>
                  let base = base\<lparr>bb_buf := put_bytes (bb_buf base) prefix_bytes
                                (replicate (unat len_len) 0)\<rparr>
                  in (True, add_child d (set_base s base)
                        \<lparr>ch_offset = offset, ch_pending_len_len = len_len, ch_pending_is_asn1 = False\<rparr>)))"

definition CBB_add_u8_length_prefixed :: "malloc_fun \<Rightarrow> nat \<Rightarrow> cbb \<Rightarrow> bool \<times> cbb" where
  "CBB_add_u8_length_prefixed malloc d s = cbb_add_length_prefixed malloc d s 1"

definition CBB_add_u16_length_prefixed :: "malloc_fun \<Rightarrow> nat \<Rightarrow> cbb \<Rightarrow> bool \<times> cbb" where
  "CBB_add_u16_length_prefixed malloc d s = cbb_add_length_prefixed malloc d s 2"

definition CBB_add_u24_length_prefixed :: "malloc_fun \<Rightarrow> nat \<Rightarrow> cbb \<Rightarrow> bool \<times> cbb" where
  "CBB_add_u24_length_prefixed malloc d s = cbb_add_length_prefixed malloc d s 3"

text \<open>Flush, then work on the buffer.\<close>

definition after_flush ::
    "malloc_fun \<Rightarrow> nat \<Rightarrow> cbb \<Rightarrow> (cbb_buffer \<Rightarrow> bool \<times> cbb_buffer) \<Rightarrow> bool \<times> cbb" where
  "after_flush malloc d s f =
     (case CBB_flush malloc d s of
        (False, s) \<Rightarrow> (False, s)
      | (True, s) \<Rightarrow> (case f (cb_base s) of (ok, base) \<Rightarrow> (ok, set_base s base)))"

definition CBB_add_u8 :: "malloc_fun \<Rightarrow> nat \<Rightarrow> cbb \<Rightarrow> u8 \<Rightarrow> bool \<times> cbb" where
  "CBB_add_u8 malloc d s value = after_flush malloc d s (\<lambda>b. cbb_buffer_add_u malloc b (ucast value) 1)"

definition CBB_add_u16 :: "malloc_fun \<Rightarrow> nat \<Rightarrow> cbb \<Rightarrow> u16 \<Rightarrow> bool \<times> cbb" where
  "CBB_add_u16 malloc d s value = after_flush malloc d s (\<lambda>b. cbb_buffer_add_u malloc b (ucast value) 2)"

definition CBB_add_u24 :: "malloc_fun \<Rightarrow> nat \<Rightarrow> cbb \<Rightarrow> u32 \<Rightarrow> bool \<times> cbb" where
  "CBB_add_u24 malloc d s value = after_flush malloc d s (\<lambda>b. cbb_buffer_add_u malloc b value 3)"

definition CBB_add_u32 :: "malloc_fun \<Rightarrow> nat \<Rightarrow> cbb \<Rightarrow> u32 \<Rightarrow> bool \<times> cbb" where
  "CBB_add_u32 malloc d s value = after_flush malloc d s (\<lambda>b. cbb_buffer_add_u malloc b value 4)"

definition CBB_add_bytes :: "malloc_fun \<Rightarrow> nat \<Rightarrow> cbb \<Rightarrow> u8 list \<Rightarrow> u64 \<Rightarrow> bool \<times> cbb" where
  "CBB_add_bytes malloc d s inp len =
     after_flush malloc d s (\<lambda>b.
       case cbb_buffer_add malloc b len of
         (None, b) \<Rightarrow> (False, b)
       | (Some dest, b) \<Rightarrow> (True, b\<lparr>bb_buf := put_bytes (bb_buf b) dest (take (unat len) inp)\<rparr>))"

text \<open>The offset of the space, which the caller fills, or \<open>None\<close>.\<close>

definition CBB_add_space :: "malloc_fun \<Rightarrow> nat \<Rightarrow> cbb \<Rightarrow> u64 \<Rightarrow> u64 option \<times> cbb" where
  "CBB_add_space malloc d s len =
     (case CBB_flush malloc d s of
        (False, s) \<Rightarrow> (None, s)
      | (True, s) \<Rightarrow>
          (case cbb_buffer_add malloc (cb_base s) len of (out, base) \<Rightarrow> (out, set_base s base)))"

definition CBB_reserve :: "malloc_fun \<Rightarrow> nat \<Rightarrow> cbb \<Rightarrow> u64 \<Rightarrow> u64 option \<times> cbb" where
  "CBB_reserve malloc d s len =
     (case CBB_flush malloc d s of
        (False, s) \<Rightarrow> (None, s)
      | (True, s) \<Rightarrow>
          (case cbb_buffer_reserve malloc (cb_base s) len of (out, base) \<Rightarrow> (out, set_base s base)))"

definition CBB_did_write :: "nat \<Rightarrow> cbb \<Rightarrow> u64 \<Rightarrow> bool \<times> cbb" where
  "CBB_did_write d s len =
     (let newlen = bb_len (cb_base s) + len
      in if d < length (cb_chain s) \<or> newlen < bb_len (cb_base s) \<or> newlen > bb_cap (cb_base s)
         then (False, s)
         else (True, set_base s ((cb_base s)\<lparr>bb_len := newlen\<rparr>)))"

definition CBB_discard_child :: "nat \<Rightarrow> cbb \<Rightarrow> cbb" where
  "CBB_discard_child d s =
     (if d < length (cb_chain s) then
        (set_base s ((cb_base s)\<lparr>bb_len := ch_offset (cb_chain s ! d)\<rparr>))\<lparr>cb_chain := take d (cb_chain s)\<rparr>
      else s)"

text \<open>
  The results are the buffer with its length, and the object: \<open>None\<close> after it was cleaned up. The
  two booleans say whether \<open>out_data\<close> and \<open>out_len\<close> are non-null.
\<close>

definition CBB_finish ::
    "malloc_fun \<Rightarrow> nat \<Rightarrow> cbb \<Rightarrow> bool \<Rightarrow> bool \<Rightarrow> (ossl_block option \<times> u64) option \<times> cbb option" where
  "CBB_finish malloc d s out_data out_len =
     (if d \<noteq> 0 then (None, Some s)
      else
        (case CBB_flush malloc d s of
           (False, s) \<Rightarrow> (None, Some s)
         | (True, s) \<Rightarrow>
             if bb_can_resize (cb_base s) \<and> (\<not> out_data \<or> \<not> out_len) then (None, Some s)
             else (Some (bb_buf (cb_base s), bb_len (cb_base s)), None)))"

end
