(* ===== verification/Der.thy ===== *)
theory Der
  imports Cbs
begin

text \<open>
  The DER identifier and length octets as a specification (X.690, 8.1.2, 8.1.3 and 10.1), and the
  proof that the element parser of \<open>cbs.c\<close> accepts exactly the canonical encodings.
\<close>

unbundle bit_operations_syntax

section \<open>The canonical encoding\<close>

text \<open>The continuation bytes of a base-128 number: no leading zero group, top bit set.\<close>

fun b128_hi :: "nat \<Rightarrow> u8 list" where
  "b128_hi n = (if n = 0 then [] else b128_hi (n div 128) @ [of_nat (n mod 128) OR 0x80])"

declare b128_hi.simps [simp del]

definition b128 :: "nat \<Rightarrow> u8 list" where
  "b128 n = b128_hi (n div 128) @ [of_nat (n mod 128)]"

definition der_tag :: "u32 \<Rightarrow> u8 list" where
  "der_tag tag =
     (let bits = ucast (drop_bit 24 tag) AND 0xe0;
          number = tag AND CBS_ASN1_TAG_NUMBER_MASK
      in if number \<ge> 0x1f then (bits OR 0x1f) # b128 (unat number) else [bits OR ucast number])"

definition len_octets :: "nat \<Rightarrow> nat" where
  "len_octets n = (if n < 256 then 1 else if n < 256 ^ 2 then 2 else if n < 256 ^ 3 then 3 else 4)"

definition der_len :: "nat \<Rightarrow> u8 list" where
  "der_len n =
     (if n < 128 then [of_nat n] else (0x80 OR of_nat (len_octets n)) # be_bytes (len_octets n) n)"

definition der_element :: "u32 \<Rightarrow> u8 list \<Rightarrow> u8 list" where
  "der_element tag content = der_tag tag @ der_len (length content) @ content"

section \<open>Base 128\<close>

lemma b128_hi_0 [simp]: "b128_hi 0 = []"
  by (simp add: b128_hi.simps)

lemma b128_hi_step:
  "m * 128 + d \<noteq> 0 \<Longrightarrow> d < 128 \<Longrightarrow> b128_hi (m * 128 + d) = b128_hi m @ [of_nat d OR 0x80]"
  by (subst b128_hi.simps) simp

lemma split_top_bit: "bit b 7 \<Longrightarrow> (b AND 0x7f) OR 0x80 = (b :: u8)"
  unfolding low7_u8 by (rule bit_word_eqI) (auto simp: bit_simps bit_128_int)

lemma bit_or_128 [simp]: "bit (b OR 0x80 :: u8) 7"
  by (simp add: bit_simps bit_128_int)

lemma low7_or_128: "(b OR 0x80 :: u8) AND 0x7f = b AND 0x7f"
  unfolding low7_u8 by (rule bit_word_eqI) (auto simp: bit_simps bit_128_int)

lemma base128_value:
  assumes "unat (v :: u64) < 2 ^ 57"
  shows "unat (push_bit 7 v OR ucast ((b :: u8) AND 0x7f)) = unat v * 128 + unat b mod 128"
proof -
  have "unat (ucast (b AND 0x7f) :: u64) = unat b mod 128"
    by (simp add: unat_ucast_up unat_low7)
  then show ?thesis using assms by (subst unat_push_or) auto
qed

lemma drop_57: "drop_bit 57 v = 0 \<longleftrightarrow> unat (v :: u64) < 2 ^ 57"
proof -
  have "drop_bit 57 v = 0 \<longleftrightarrow> unat (drop_bit 57 v) = 0" by (simp add: unat_eq_zero)
  then show ?thesis by (simp only: unat_drop_bit) (simp add: div_eq_0_iff)
qed

lemma base128_loop_more:
  "unat v < 2 ^ 57 \<Longrightarrow> \<not> (v = 0 \<and> b = 0x80) \<Longrightarrow> bit b 7 \<Longrightarrow>
   base128_loop v (b # c) = base128_loop (push_bit 7 v OR ucast (b AND 0x7f)) c"
  by (auto simp: drop_57 top_bit_iff Let_def)

lemma base128_loop_end:
  "unat v < 2 ^ 57 \<Longrightarrow> \<not> bit b 7 \<Longrightarrow>
   base128_loop v (b # c) = (Some (push_bit 7 v OR ucast (b AND 0x7f)), c)"
  using top_bit_iff [of b] bit_or_128 [of 0] by (auto simp: drop_57 Let_def)

lemma base128_loop_hi:
  "m < 2 ^ 57 \<Longrightarrow> base128_loop 0 (b128_hi m @ b # rest) = base128_loop (of_nat m) (b # rest)"
proof (induction m arbitrary: b rest rule: less_induct)
  case (less m)
  show ?case
  proof (cases "m = 0")
    case False
    let ?k = "m div 128" and ?x = "of_nat (m mod 128) OR 0x80 :: u8"
    have m: "m = ?k * 128 + m mod 128" by simp
    have "b128_hi m @ b # rest = b128_hi ?k @ ?x # b # rest"
      using b128_hi_step [of ?k "m mod 128"] False by simp
    also have "base128_loop 0 \<dots> = base128_loop (of_nat ?k) (?x # b # rest)"
      using less False by simp
    also have "\<dots> = base128_loop (of_nat m) (b # rest)"
    proof -
      have k: "unat (of_nat ?k :: u64) = ?k" using less.prems by simp
      have x: "?x AND 0x7f = of_nat (m mod 128) AND 0x7f" by (rule low7_or_128)
      have v: "push_bit 7 (of_nat ?k) OR ucast (?x AND 0x7f) = (of_nat m :: u64)"
        using base128_value [of "of_nat ?k" "of_nat (m mod 128)"] less.prems m k
        by (simp add: word_unat_eq_iff x unat_of_nat_u8)
      have nz: "\<not> (of_nat ?k = (0 :: u64) \<and> ?x = 0x80)"
      proof
        assume a: "of_nat ?k = (0 :: u64) \<and> ?x = 0x80"
        with k have "m < 128" by (metis unat_0 div_eq_0_iff zero_neq_numeral)
        moreover have "unat (?x AND 0x7f) = m mod 128" by (simp add: x unat_low7 unat_of_nat_u8)
        moreover have "(0x80 :: u8) AND 0x7f = 0" by simp
        ultimately show False using a False by (metis mod_less unat_0)
      qed
      have "unat (of_nat ?k :: u64) < 2 ^ 57" using k less.prems by simp
      from base128_loop_more [OF this nz bit_or_128, of "b # rest"] show ?thesis by (simp only: v)
    qed
    finally show ?thesis .
  qed simp
qed

lemma base128_complete:
  assumes "n < 2 ^ 64"
  shows "parse_base128_integer (b128 n @ rest) = (Some (of_nat n), rest)"
proof -
  let ?k = "n div 128" and ?x = "of_nat (n mod 128) :: u8"
  have k: "unat (of_nat ?k :: u64) = ?k" using assms by simp
  have x: "\<not> bit ?x 7" by (simp add: top_bit_unat unat_of_nat_u8)
  have v: "push_bit 7 (of_nat ?k) OR ucast (?x AND 0x7f) = (of_nat n :: u64)"
    using base128_value [of "of_nat ?k" ?x] assms k
    by (simp add: word_unat_eq_iff unat_of_nat_u8)
  have "base128_loop 0 (b128 n @ rest) = base128_loop (of_nat ?k) (?x # rest)"
    using base128_loop_hi [of ?k ?x rest] assms by (simp add: b128_def)
  also have "\<dots> = (Some (of_nat n), rest)"
  proof -
    have "unat (of_nat ?k :: u64) < 2 ^ 57" using k assms by simp
    from base128_loop_end [OF this x, of rest] show ?thesis by (simp only: v)
  qed
  finally show ?thesis by (simp add: parse_base128_integer_def)
qed

lemma base128_loop_sound:
  "base128_loop v cbs = (Some r, c) \<Longrightarrow> b128_hi (unat v) @ cbs = b128 (unat r) @ c"
proof (induction v cbs rule: base128_loop.induct)
  case (2 v b cbs)
  let ?v = "push_bit 7 v OR ucast (b AND 0x7f) :: u64"
  from "2.prems" have lt: "unat v < 2 ^ 57" and nz: "\<not> (v = 0 \<and> b = 0x80)"
    by (auto simp: drop_57 split: if_splits)
  note val = base128_value [OF lt, of b]
  show ?case
  proof (cases "bit b 7")
    case True
    have "unat b mod 128 = 0 \<longrightarrow> b = 0x80"
      using True unat_lt_len [of b] by (auto simp: top_bit_unat word_unat_eq_iff)
    with nz have "unat v * 128 + unat b mod 128 \<noteq> 0" by (auto simp: unat_eq_zero)
    from b128_hi_step [OF this] have "b128_hi (unat ?v) = b128_hi (unat v) @ [of_nat (unat b mod 128) OR 0x80]"
      by (simp add: val)
    also have "of_nat (unat b mod 128) = b AND 0x7f"
      by (simp add: word_unat_eq_iff unat_low7 unat_of_nat_u8)
    finally have "b128_hi (unat ?v) = b128_hi (unat v) @ [b]" using split_top_bit [OF True] by simp
    moreover have "base128_loop ?v cbs = (Some r, c)"
      using "2.prems" base128_loop_more [OF lt nz True, of cbs] by simp
    ultimately show ?thesis
      using "2.IH" lt nz True top_bit_iff [of b] by (simp add: drop_57)
  next
    case False
    then have r: "r = ?v" "c = cbs"
      using "2.prems" base128_loop_end [OF lt False, of cbs] by simp_all
    have "unat b < 128" using False by (simp add: top_bit_unat)
    then show ?thesis using val r by (simp add: b128_def)
  qed
qed simp

lemma base128_sound:
  "parse_base128_integer cbs = (Some r, c) \<Longrightarrow> cbs = b128 (unat r) @ c"
  using base128_loop_sound [of 0 cbs r c] by (simp add: parse_base128_integer_def)

section \<open>Identifier octets\<close>

lemma get_u8_Cons [simp]: "CBS_get_u8 (b # c) = (Some b, c)"
  by (simp add: CBS_get_u8_def cbs_get_def)

lemma get_u8_Nil [simp]: "CBS_get_u8 [] = (None, [])"
  by (simp add: CBS_get_u8_def cbs_get_def)

lemma tag_masks:
  "(0xe0 :: u8) = push_bit 5 (mask 3)" "(0xe0 :: u32) = push_bit 5 (mask 3)"
  "(0x1f :: u8) = mask 5" "(0x1f :: u32) = mask 5" "(0x1FFFFFFF :: u32) = mask 29"
  by (simp_all add: mask_numeral)

lemma bit_mask3_shift: "bit (push_bit 5 (mask 3) :: 'a::len word) n \<longleftrightarrow> n < LENGTH('a) \<and> 5 \<le> n \<and> n < 8"
  by (auto simp: bit_simps)

lemma tag_of_byte_low:
  "(ucast (drop_bit 24 (push_bit 24 (ucast (b :: u8) AND 0xe0 :: u32) OR (n AND 0x1FFFFFFF))) AND 0xe0 :: u8)
     = b AND 0xe0"
  unfolding tag_masks
  by (rule bit_word_eqI) (auto simp: bit_and_iff bit_or_iff bit_unsigned_iff bit_drop_bit_eq
      bit_push_bit_iff bit_mask_iff)

lemma tag_number_of:
  "(push_bit 24 (ucast (b :: u8) AND 0xe0 :: u32) OR (n AND 0x1FFFFFFF)) AND 0x1FFFFFFF
     = n AND 0x1FFFFFFF"
  unfolding tag_masks
  by (rule bit_word_eqI) (auto simp: bit_and_iff bit_or_iff bit_unsigned_iff
      bit_push_bit_iff bit_mask_iff)

lemma tag_byte_split: "((b :: u8) AND 0xe0) OR (b AND 0x1f) = b"
  unfolding tag_masks
  by (rule bit_word_eqI) (auto simp: bit_and_iff bit_or_iff bit_push_bit_iff bit_mask_iff)

lemma tag_join:
  "push_bit 24 (ucast (ucast (drop_bit 24 tag) AND 0xe0 :: u8) AND 0xe0) OR (tag AND 0x1FFFFFFF) = (tag :: u32)"
  unfolding tag_masks
  by (rule bit_word_eqI) (auto simp: bit_and_iff bit_or_iff bit_unsigned_iff bit_drop_bit_eq
      bit_push_bit_iff bit_mask_iff)

lemma and_mask_id: "unat (n :: 'a::len word) < 2 ^ k \<Longrightarrow> n AND mask k = n"
  by (simp add: word_unat_eq_iff unat_and_mask)

lemma low5_of_byte:
  "(ucast (b :: u8) AND 0x1f :: u32) = ucast (b AND 0x1f)"
  unfolding tag_masks by (rule bit_word_eqI) (auto simp: bit_simps)

lemma der_tag_join:
  assumes "unat n < 2 ^ 29"
  shows "der_tag (push_bit 24 (ucast (b :: u8) AND 0xe0) OR n) =
    (if n \<ge> 0x1f then (b AND 0xe0 OR 0x1f) # b128 (unat n) else [b AND 0xe0 OR ucast n])"
proof -
  have n: "n AND 0x1FFFFFFF = n" using and_mask_id [OF assms] by (simp add: tag_masks)
  show ?thesis
    using tag_of_byte_low [of b n] tag_number_of [of b n] by (simp add: der_tag_def Let_def n)
qed

lemma asn1_tag_sound:
  assumes "parse_asn1_tag cbs = (Some tag, c)"
  shows "cbs = der_tag tag @ c"
proof (cases cbs)
  case Nil
  then show ?thesis using assms by (simp add: parse_asn1_tag_def)
next
  case (Cons b d)
  let ?t = "push_bit 24 (ucast b AND 0xe0) :: u32" and ?n = "ucast b AND 0x1f :: u32"
  have low: "unat ?n < 32"
    unfolding tag_masks using unat_and_mask [of "ucast b :: u32" 5] by simp
  show ?thesis
  proof (cases "?n = 0x1f")
    case True
    with assms Cons obtain v where v: "parse_base128_integer d = (Some v, c)"
      "\<not> (v > ucast CBS_ASN1_TAG_NUMBER_MASK \<or> v < 0x1f)" "tag = ?t OR ucast v"
      by (auto simp: parse_asn1_tag_def Let_def split: prod.splits option.splits if_splits)
    have uv: "unat v < 2 ^ 29" "31 \<le> unat v"
      using v(2) by (simp_all add: word_less_nat_alt word_le_nat_alt not_less)
    then have "unat (ucast v :: u32) = unat v"
      by (simp add: unsigned_ucast_eq take_bit_nat_eq_self)
    with uv have n: "unat (ucast v :: u32) < 2 ^ 29" "(ucast v :: u32) \<ge> 0x1f"
      "b128 (unat (ucast v :: u32)) = b128 (unat v)"
      by (simp_all add: word_le_nat_alt)
    have "ucast (b AND 0x1f) = (0x1f :: u32)" using True low5_of_byte by metis
    then have "unat (ucast (b AND 0x1f) :: u32) = 31" by simp
    then have "b AND 0x1f = 0x1f" by (simp add: unat_ucast_up word_unat_eq_iff)
    then have "b AND 0xe0 OR 0x1f = b" using tag_byte_split [of b] by simp
    then show ?thesis
      using der_tag_join [OF n(1), of b] n v(3) base128_sound [OF v(1)] Cons by simp
  next
    case False
    with assms Cons have t: "tag = ?t OR ?n" "c = d"
      by (auto simp: parse_asn1_tag_def Let_def)
    have lt: "\<not> ?n \<ge> 0x1f"
      using low False by (auto simp: word_le_nat_alt word_unat_eq_iff)
    have "unat ?n < 2 ^ 29" using low by simp
    moreover have "(ucast ?n :: u8) = b AND 0x1f"
      unfolding tag_masks by (rule bit_word_eqI) (auto simp: bit_simps)
    ultimately show ?thesis
      using der_tag_join [of ?n b] lt t Cons tag_byte_split [of b] by simp
  qed
qed

lemma asn1_tag_complete: "parse_asn1_tag (der_tag tag @ c) = (Some tag, c)"
proof -
  let ?b = "ucast (drop_bit 24 tag) AND 0xe0 :: u8" and ?n = "tag AND 0x1FFFFFFF"
  have n: "unat ?n < 2 ^ 29" unfolding tag_masks using unat_and_mask [of tag 29] by simp
  note join = tag_join [of tag]
  show ?thesis
  proof (cases "?n \<ge> 0x1f")
    case True
    have a: "(ucast (?b OR 0x1f) AND 0xe0 :: u32) = ucast ?b AND 0xe0"
      "(ucast (?b OR 0x1f) AND 0x1f :: u32) = 0x1f"
      unfolding tag_masks
      by (rule bit_word_eqI; auto simp: bit_and_iff bit_or_iff bit_unsigned_iff bit_push_bit_iff
          bit_mask_iff bit_drop_bit_eq)+
    have v: "unat (of_nat (unat ?n) :: u64) = unat ?n" by (simp add: unat_ucast_up)
    have "\<not> (of_nat (unat ?n) :: u64) > ucast CBS_ASN1_TAG_NUMBER_MASK"
      "\<not> (of_nat (unat ?n) :: u64) < 0x1f"
      using n True v by (simp_all add: word_less_nat_alt word_le_nat_alt)
    moreover have "ucast (of_nat (unat ?n) :: u64) = ?n"
      by (simp add: ucast_up_down)
    moreover have "parse_base128_integer (b128 (unat ?n) @ c) = (Some (of_nat (unat ?n)), c)"
      using n by (intro base128_complete) simp
    ultimately show ?thesis
      using True a join by (simp add: parse_asn1_tag_def der_tag_def Let_def)
  next
    case False
    then have small: "unat ?n < 31" by (simp add: word_le_nat_alt)
    then have m: "?n AND mask 5 = ?n" by (intro and_mask_id) simp
    have a: "(ucast (?b OR ucast ?n) AND 0xe0 :: u32) = ucast ?b AND 0xe0"
      "(ucast (?b OR ucast ?n) AND 0x1f :: u32) = ?n"
      by ((subst m [symmetric])?, unfold tag_masks, rule bit_word_eqI;
          auto simp: bit_and_iff bit_or_iff bit_unsigned_iff bit_push_bit_iff
          bit_mask_iff bit_drop_bit_eq)+
    have "?n \<noteq> 0x1f" using small by (auto simp: word_unat_eq_iff)
    with False a join show ?thesis by (simp add: parse_asn1_tag_def der_tag_def Let_def)
  qed
qed

section \<open>Length octets and elements\<close>

lemma be_accumulate_value:
  "unat r * 256 ^ length bs + be_val bs < 2 ^ 32 \<Longrightarrow>
   unat (be_accumulate r bs) = unat r * 256 ^ length bs + be_val bs"
proof (induction r bs rule: be_accumulate.induct)
  case (2 r d data)
  let ?r = "push_bit 8 r OR ucast d"
  have d: "unat (ucast d :: u32) = unat d" by (simp add: unat_ucast_up)
  have "(unat r * 256 + unat d) * 256 ^ length data + be_val data < 2 ^ 32"
    using "2.prems" by (simp add: algebra_simps)
  moreover have "unat r * 256 + unat d \<le> (unat r * 256 + unat d) * 256 ^ length data" by simp
  ultimately have "unat r * 256 + unat d < 2 ^ 32" by linarith
  then have v: "unat ?r = unat r * 256 + unat d"
    using unat_lt_len [of d] by (subst unat_push_or) (simp_all add: d)
  have "unat ?r * 256 ^ length data + be_val data < 2 ^ 32"
    using "2.prems" by (simp add: v algebra_simps)
  from "2.IH" [OF this] show ?case by (simp add: v algebra_simps)
qed simp

lemma be_accumulate_be_val:
  assumes "length bs \<le> 4"
  shows "unat (be_accumulate 0 bs) = be_val bs"
proof -
  have "be_val bs < 256 ^ length bs" by (rule be_val_less)
  also have "\<dots> \<le> 256 ^ 4" using assms by (rule power_increasing) simp
  finally show ?thesis using be_accumulate_value [of 0 bs] by simp
qed

lemma cbs_get_append [simp]: "cbs_get (xs @ ys) (length xs) = (Some xs, ys)"
  by (simp add: cbs_get_def)

lemma cbs_get_Some: "cbs_get cbs n = (Some v, c) \<Longrightarrow> cbs = v @ c \<and> length v = n"
  by (auto simp: cbs_get_def split: if_splits)

lemma get_bytes_Some: "CBS_get_bytes cbs n = (Some v, c) \<Longrightarrow> cbs = v @ c \<and> length v = n"
  by (auto simp: CBS_get_bytes_def CBS_init_def split: prod.splits option.splits dest!: cbs_get_Some)

lemma get_bytes_append [simp]: "CBS_get_bytes (xs @ ys) (length xs) = (Some xs, ys)"
  by (simp add: CBS_get_bytes_def CBS_init_def)

lemma len_octets_unique:
  assumes "1 \<le> k" "k \<le> 4" "n < 256 ^ k" "256 ^ (k - 1) \<le> n \<or> k = 1"
  shows "len_octets n = k"
proof -
  from assms(1,2) consider "k = 1" | "k = 2" | "k = 3" | "k = 4" by linarith
  then show ?thesis using assms by cases (auto simp: len_octets_def)
qed

lemma der_len_nonempty [simp]: "der_len n \<noteq> []"
  by (simp add: der_len_def)

lemma der_tag_nonempty [simp]: "der_tag t \<noteq> []"
  by (simp add: der_tag_def Let_def)

lemma length_CBS_len: "length c < 2 ^ 64 \<Longrightarrow> unat (CBS_len c) = length c"
  by (simp add: CBS_len_def)

lemma header_len_word:
  "length (a @ c) < 2 ^ 64 \<Longrightarrow> CBS_len (a @ c) - CBS_len c = of_nat (length a)"
  by (simp add: CBS_len_def)

text \<open>The code's checks on a long-form length, over the value of the length octets.\<close>

lemma long_length_ok:
  assumes "length lb = k" "1 \<le> k" "k \<le> 4"
  shows "\<not> (be_accumulate 0 lb < 128) \<and>
      drop_bit (unat ((of_nat k - 1 :: u64) * 8)) (be_accumulate 0 lb) \<noteq> 0 \<longleftrightarrow>
    128 \<le> be_val lb \<and> len_octets (be_val lb) = k"
proof -
  note v = be_accumulate_be_val [of lb]
  have lt: "be_val lb < 256 ^ k" using be_val_less [of lb] assms(1) by simp
  have shift: "unat ((of_nat k - 1 :: u64) * 8) = 8 * (k - 1)"
  proof -
    from assms(2,3) consider "k = 1" | "k = 2" | "k = 3" | "k = 4" by linarith
    then show ?thesis by cases simp_all
  qed
  have "drop_bit (8 * (k - 1)) (be_accumulate 0 lb) \<noteq> 0 \<longleftrightarrow>
      unat (drop_bit (8 * (k - 1)) (be_accumulate 0 lb)) \<noteq> 0"
    by (simp add: unat_eq_zero)
  also have "\<dots> \<longleftrightarrow> be_val lb div 2 ^ (8 * (k - 1)) \<noteq> 0"
    using v assms by (simp only: unat_drop_bit)
  also have "\<dots> \<longleftrightarrow> 256 ^ (k - 1) \<le> be_val lb"
    by (simp add: div_eq_0_iff not_less power_mult)
  finally have d: "drop_bit (8 * (k - 1)) (be_accumulate 0 lb) \<noteq> 0 \<longleftrightarrow> 256 ^ (k - 1) \<le> be_val lb" .
  have "256 ^ (k - 1) \<le> be_val lb \<longleftrightarrow> len_octets (be_val lb) = k" if "128 \<le> be_val lb"
    using len_octets_unique [OF assms(2,3) lt] that assms(2,3)
    by (cases "k = 1") (auto simp: len_octets_def split: if_splits)
  then show ?thesis
    using v assms(1,3) d unfolding shift by (auto simp: word_less_nat_alt)
qed

lemma num_bytes_of:
  assumes "k < 128"
  shows "(ucast ((0x80 OR of_nat k :: u8) AND 0x7f) :: u64) = of_nat k"
proof -
  have "(0x80 OR of_nat k :: u8) AND 0x7f = of_nat k AND 0x7f"
    using low7_or_128 [of "of_nat k"] by (simp add: or.commute)
  then have "unat ((0x80 OR of_nat k :: u8) AND 0x7f) = k"
    using assms by (simp add: unat_low7 unat_of_nat_u8)
  then show ?thesis using assms by (simp add: word_unat_eq_iff unat_ucast_up)
qed

lemma element_complete:
  assumes "length content < 2 ^ 32" "length (der_element tag content @ rest) < 2 ^ 64"
  shows "cbs_get_any_asn1_element (der_element tag content @ rest) ber_ok =
    (Some (der_element tag content, tag,
       of_nat (length (der_tag tag @ der_len (length content)))), rest)"
proof -
  let ?n = "length content" and ?t = "der_tag tag" and ?el = "der_element tag content"
  have cbs: "?el @ rest = ?t @ der_len ?n @ content @ rest" by (simp add: der_element_def)
  show ?thesis
  proof (cases "?n < 128")
    case True
    then have lb: "der_len ?n = [of_nat ?n]" "(of_nat ?n :: u8) AND 0x80 = 0"
      using top_bit_iff [of "of_nat ?n"] by (auto simp: der_len_def top_bit_unat unat_of_nat_u8)
    have hl: "CBS_len (?el @ rest) - CBS_len (content @ rest) = of_nat (length ?t + 1)"
      using header_len_word [of "?t @ der_len ?n" "content @ rest"] assms(2) lb
      by (simp add: cbs add.commute)
    have "unat (ucast (of_nat ?n :: u8) :: u64) = ?n"
      using True by (simp add: unat_ucast_up unat_of_nat_u8)
    then have "unat (ucast (of_nat ?n :: u8) + of_nat (length ?t + 1) :: u64) = length ?el"
      using assms(2) lb True
      by (subst unat_add_no_overflow) (simp_all add: der_element_def del: of_nat_Suc of_nat_add)
    then have "CBS_get_bytes (?el @ rest) (unat (ucast (of_nat ?n :: u8) + of_nat (length ?t + 1) :: u64))
        = (Some ?el, rest)" by simp
    then show ?thesis
      using lb hl asn1_tag_complete [of tag "der_len ?n @ content @ rest"]
      by (simp add: cbs_get_any_asn1_element_def cbs Let_def)
  next
    case False
    let ?k = "len_octets ?n"
    have k: "1 \<le> ?k" "?k \<le> 4" "?n < 256 ^ ?k" using assms(1) by (auto simp: len_octets_def)
    have dl: "der_len ?n = (0x80 OR of_nat ?k) # be_bytes ?k ?n" using False by (simp add: der_len_def)
    have top: "(0x80 OR of_nat ?k :: u8) AND 0x80 \<noteq> 0"
      using bit_or_128 [of "of_nat ?k"] by (simp add: top_bit_iff or.commute)
    have nb: "(ucast ((0x80 OR of_nat ?k :: u8) AND 0x7f) :: u64) = of_nat ?k"
      using k by (intro num_bytes_of) simp
    have nbz: "(of_nat ?k :: u64) \<noteq> 0" "\<not> (of_nat ?k :: u64) > 4" "unat (of_nat ?k :: u64) = ?k"
      using k by (simp_all add: word_unat_eq_iff word_less_nat_alt)
    have val: "be_val (be_bytes ?k ?n) = ?n" using k(3) by (simp add: be_val_be_bytes)
    have get: "cbs_get_u (be_bytes ?k ?n @ content @ rest) ?k =
        (Some (be_accumulate 0 (be_bytes ?k ?n)), content @ rest)"
      using cbs_get_append [of "be_bytes ?k ?n" "content @ rest"] by (simp add: cbs_get_u_def)
    have ok: "\<not> (be_accumulate 0 (be_bytes ?k ?n) < 128)"
      "drop_bit (unat ((of_nat ?k - 1 :: u64) * 8)) (be_accumulate 0 (be_bytes ?k ?n)) \<noteq> 0"
      using long_length_ok [of "be_bytes ?k ?n" ?k] k(1,2) val False by auto
    have len: "unat (ucast (be_accumulate 0 (be_bytes ?k ?n)) :: u64) = ?n"
      using be_accumulate_be_val [of "be_bytes ?k ?n"] k(2) val by (simp add: unat_ucast_up)
    have hl: "CBS_len (?el @ rest) - CBS_len (be_bytes ?k ?n @ content @ rest) = of_nat (length ?t + 1)"
      using header_len_word [of "?t @ [0x80 OR of_nat ?k]" "be_bytes ?k ?n @ content @ rest"] assms(2)
      by (simp add: cbs dl add.commute)
    have el: "length ?el = length ?t + 1 + ?k + ?n" by (simp add: der_element_def dl)
    let ?L = "ucast (be_accumulate 0 (be_bytes ?k ?n)) :: u64" and ?H = "of_nat (length ?t + 1) :: u64"
    have h: "unat ?H = length ?t + 1" using assms(2) el by (simp del: of_nat_Suc of_nat_add)
    have HK: "unat (?H + of_nat ?k) = length ?t + 1 + ?k"
      using assms(2) el h nbz(3) by (subst unat_add_no_overflow) simp_all
    have tot: "unat (?L + (?H + of_nat ?k)) = length ?el"
      using assms(2) el len HK by (subst unat_add_no_overflow) simp_all
    then have "\<not> ?L + ?H + of_nat ?k < ?L"
      using len el by (simp add: word_less_nat_alt add.assoc)
    moreover have "CBS_get_bytes (?el @ rest) (unat (?L + (?H + of_nat ?k))) = (Some ?el, rest)"
      by (simp only: tot get_bytes_append)
    moreover have "?H + of_nat ?k = of_nat (length (der_tag tag @ der_len ?n))" by (simp add: dl)
    ultimately show ?thesis
      using dl top nb nbz get ok hl asn1_tag_complete [of tag "der_len ?n @ content @ rest"]
      by (simp add: cbs_get_any_asn1_element_def cbs Let_def)
  qed
qed

lemma length_b128_hi: "n < 128 ^ k \<Longrightarrow> length (b128_hi n) \<le> k"
proof (induction k arbitrary: n)
  case (Suc k)
  have "length (b128_hi (n div 128)) \<le> k" using Suc by (simp add: less_mult_imp_div_less mult.commute)
  then show ?case by (subst b128_hi.simps) simp
qed simp

lemma length_der_tag: "length (der_tag tag) \<le> 6"
proof -
  have "unat (tag AND 0x1FFFFFFF) < 2 ^ 29"
    unfolding tag_masks using unat_and_mask [of tag 29] by simp
  then have "length (b128_hi (unat (tag AND 0x1FFFFFFF) div 128)) \<le> 4"
    by (intro length_b128_hi) (simp add: less_mult_imp_div_less)
  then show ?thesis by (simp add: der_tag_def Let_def b128_def)
qed

lemma slice_after_header:
  assumes "h @ r = out @ c" "length out = length h + n"
  obtains content where "out = h @ content" "length content = n" "r = content @ c"
  using assms by (auto simp: append_eq_append_conv2)

lemma element_sound:
  assumes len: "length cbs < 2 ^ 64"
    and ok: "cbs_get_any_asn1_element cbs False = (Some (out, tag, hl), c)"
  obtains content where "out = der_element tag content" "cbs = out @ c"
    "hl = of_nat (length (der_tag tag @ der_len (length content)))" "length content < 2 ^ 32"
proof -
  from ok obtain h lb h2 where t: "parse_asn1_tag cbs = (Some tag, h)" and g: "CBS_get_u8 h = (Some lb, h2)"
    by (auto simp: cbs_get_any_asn1_element_def Let_def split: prod.splits option.splits if_splits)
  from g have h: "h = lb # h2" by (cases h) simp_all
  note cbs = asn1_tag_sound [OF t, unfolded h]
  let ?H = "of_nat (length (der_tag tag) + 1) :: u64"
  have H: "CBS_len cbs - CBS_len h2 = ?H" "unat ?H = length (der_tag tag) + 1"
    using header_len_word [of "der_tag tag @ [lb]" h2] len by (simp_all add: cbs del: of_nat_add of_nat_Suc)
  show thesis
  proof (cases "lb AND 0x80 = 0")
    case True
    then have small: "unat lb < 128" by (metis top_bit_iff top_bit_unat not_less)
    from ok True H t g have get: "CBS_get_bytes cbs (unat (ucast lb + ?H)) = (Some out, c)" and hl: "hl = ?H"
      by (auto simp: cbs_get_any_asn1_element_def Let_def split: prod.splits option.splits if_splits)
    have "unat (ucast lb + ?H) = unat lb + unat ?H"
      using small length_der_tag [of tag] unfolding H(2)
      by (subst unat_add_no_overflow) (simp_all only: H(2), simp_all add: unat_ucast_up)
    then have n: "unat (ucast lb + ?H) = length (der_tag tag @ [lb]) + unat lb" using H(2) by simp
    obtain content where c: "out = (der_tag tag @ [lb]) @ content" "length content = unat lb"
      using slice_after_header [of "der_tag tag @ [lb]" h2 out c "unat lb"] get_bytes_Some [OF get] cbs n
      by auto
    then have "der_len (length content) = [lb]" using small by (simp add: der_len_def)
    then show thesis
      using that [of content] c get_bytes_Some [OF get] hl small by (simp add: der_element_def)
  next
    case False
    let ?N = "ucast (lb AND 0x7f) :: u64" and ?k = "unat (ucast (lb AND 0x7f) :: u64)"
    have k7: "?k = unat lb mod 128" by (simp add: unat_ucast_up unat_low7)
    from ok False H t g obtain L r where k: "?N \<noteq> 0" "\<not> ?N > 4"
      and u: "cbs_get_u h2 ?k = (Some L, r)" and chk: "\<not> L < 128" "drop_bit (unat ((?N - 1) * 8)) L \<noteq> 0"
      and get: "CBS_get_bytes cbs (unat (ucast L + (?H + ?N))) = (Some out, c)" and hl: "hl = ?H + ?N"
      by (auto simp: cbs_get_any_asn1_element_def Let_def split: prod.splits option.splits if_splits)
    from u obtain lbs where L: "L = be_accumulate 0 lbs" and h2: "h2 = lbs @ r" "length lbs = ?k"
      by (auto simp: cbs_get_u_def split: prod.splits option.splits dest: cbs_get_Some)
    from k have k14: "1 \<le> ?k" "?k \<le> 4"
      by (auto simp: word_less_nat_alt word_unat_eq_iff)
    have chk': "128 \<le> be_val lbs \<and> len_octets (be_val lbs) = ?k"
      using long_length_ok [OF h2(2) k14] chk L by simp
    have uL: "unat L = be_val lbs" using be_accumulate_be_val [of lbs] h2(2) k14 L by simp
    have L32: "be_val lbs < 2 ^ 32" using unat_lt_len [of L] uL by simp
    let ?hd = "der_tag tag @ [lb] @ lbs"
    have HN: "unat (?H + ?N) = length ?hd"
      using length_der_tag [of tag] k14 h2(2)
      by (subst unat_add_no_overflow) (simp_all only: H(2), simp_all)
    have "unat (ucast L + (?H + ?N)) = be_val lbs + unat (?H + ?N)"
      using length_der_tag [of tag] k14 h2(2) L32
      by (subst unat_add_no_overflow) (simp_all only: HN uL unat_ucast_up, simp_all add: unat_ucast_up uL)
    then obtain content where c: "out = ?hd @ content" "length content = be_val lbs"
      using slice_after_header [of ?hd r out c "be_val lbs"] get_bytes_Some [OF get] cbs h2 HN
      by auto
    have "0x80 OR of_nat ?k = lb"
    proof -
      have "of_nat ?k = lb AND 0x7f" by (simp add: unat_ucast_up)
      then show ?thesis using split_top_bit [of lb] False by (simp add: top_bit_iff or.commute)
    qed
    then have "der_len (length content) = lb # lbs"
      using chk' c(2) be_bytes_be_val [of lbs] h2(2) by (simp add: der_len_def)
    moreover have "hl = of_nat (length ?hd)" 
    proof -
      have "of_nat (unat w) = w" for w :: u64 by simp
      from this [of hl] show ?thesis using HN hl by metis
    qed
    ultimately show thesis
      using that [of content] c get_bytes_Some [OF get] L32 by (simp add: der_element_def)
  qed
qed

end
