(* ===== verification/DerValues.thy ===== *)
theory DerValues
  imports Der
begin

text \<open>
  What the parsers of \<open>cbs.c\<close> that read a whole DER value accept: any element, an element with an
  expected tag, non-negative integers below 2^64, booleans and bit strings. Each is characterised
  against the canonical encodings of \<open>Der\<close>, in both directions.
\<close>

unbundle bit_operations_syntax

section \<open>Specifications of the values\<close>

fun be_min :: "nat \<Rightarrow> u8 list" where
  "be_min n = (if n = 0 then [] else be_min (n div 256) @ [of_nat (n mod 256)])"

declare be_min.simps [simp del]

text \<open>The contents of an INTEGER: minimal, with a zero byte in front of a set sign bit.\<close>

definition der_uint :: "nat \<Rightarrow> u8 list" where
  "der_uint n =
     (let bs = be_min n
      in if n = 0 then [0] else if 128 \<le> unat (hd bs) then 0 # bs else bs)"

text \<open>The bits of a byte string, most significant bit of each byte first.\<close>

definition byte_bits :: "u8 \<Rightarrow> bool list" where
  "byte_bits b = map (\<lambda>i. bit b (7 - i)) [0..<8]"

definition bitstring_bits :: "u8 list \<Rightarrow> bool list" where
  "bitstring_bits cs = take (8 * length (tl cs) - unat (hd cs)) (concat (map byte_bits (tl cs)))"

section \<open>Minimal big-endian numbers\<close>

lemma be_min_0 [simp]: "be_min 0 = []"
  by (simp add: be_min.simps)

lemma be_min_pos: "0 < n \<Longrightarrow> be_min n = be_min (n div 256) @ [of_nat (n mod 256)]"
  by (subst be_min.simps) simp

lemma be_min_Nil [simp]: "be_min n = [] \<longleftrightarrow> n = 0"
  by (subst be_min.simps) simp

lemma be_val_be_min: "be_val (be_min n) = n"
proof (induction n rule: be_min.induct)
  case (1 n)
  show ?case
  proof (cases "n = 0")
    case False
    then have "be_val (be_min n) = (n div 256) * 256 + n mod 256"
      using 1 by (simp add: be_min_pos be_val_append unat_of_nat_u8)
    then show ?thesis by simp
  qed simp
qed

lemma hd_be_min: "0 < n \<Longrightarrow> hd (be_min n) \<noteq> 0"
proof (induction n rule: be_min.induct)
  case (1 n)
  show ?case
  proof (cases "n div 256 = 0")
    case True
    then have "n < 256" by (simp add: div_eq_0_iff)
    with 1 show ?thesis by (simp add: be_min_pos word_unat_eq_iff unat_of_nat_u8)
  next
    case False
    then have "hd (be_min (n div 256)) \<noteq> 0" "be_min (n div 256) \<noteq> []" using 1 by simp_all
    moreover have "be_min n = be_min (n div 256) @ [of_nat (n mod 256)]"
      using 1 by (intro be_min_pos)
    ultimately show ?thesis by simp
  qed
qed

lemma be_min_be_val: "bs = [] \<or> hd bs \<noteq> 0 \<Longrightarrow> be_min (be_val bs) = bs"
proof (induction bs rule: rev_induct)
  case (snoc b bs)
  have v: "be_val (bs @ [b]) = be_val bs * 256 + unat b" by (simp add: be_val_append)
  have b: "unat b < 256" using unat_lt_len [of b] by simp
  have pos: "0 < be_val (bs @ [b])"
  proof (cases "bs = []")
    case True
    with snoc.prems show ?thesis by (simp add: unat_gt_0)
  next
    case False
    then obtain x xs where "bs = x # xs" by (cases bs) auto
    with snoc.prems have "0 < be_val bs" by (simp add: unat_gt_0)
    then show ?thesis by (simp add: v)
  qed
  have "be_min (be_val (bs @ [b])) = be_min (be_val bs) @ [b]"
    using b pos by (simp add: be_min_pos v)
  also have "be_min (be_val bs) = bs" using snoc by (cases bs) auto
  finally show ?case .
qed simp

section \<open>Integers\<close>

lemma uint64_loop_value:
  "uint64_loop out data =
     (if unat out * 256 ^ length data + be_val data < 2 ^ 64
      then Some (of_nat (unat out * 256 ^ length data + be_val data)) else None)"
proof (induction out data rule: uint64_loop.induct)
  case (1 out)
  then show ?case using unat_lt_len [of out] by simp
next
  case (2 out d data)
  have z: "drop_bit 56 out = 0 \<longleftrightarrow> unat out < 2 ^ 56"
    using unat_drop_bit [of 56 out] by (metis div_eq_0_iff unat_eq_zero zero_neq_numeral power_not_zero)
  show ?case
  proof (cases "unat out < 2 ^ 56")
    case True
    have "unat out * 256 + unat d < 2 ^ 64" using True unat_lt_len [of d] by simp
    then have "unat (push_bit 8 out OR ucast d) = unat out * 256 + unat d"
      using unat_lt_len [of d] by (subst unat_push_or) (simp_all add: unat_ucast_up)
    moreover have "uint64_loop out (d # data) = uint64_loop (push_bit 8 out OR ucast d) data"
      using True z by simp
    ultimately show ?thesis using 2 True z by (simp add: algebra_simps)
  next
    case False
    have "2 ^ 56 * 256 \<le> unat out * 256 ^ Suc (length data)"
      using False by (intro mult_le_mono) simp_all
    then show ?thesis using False z by simp
  qed
qed

lemma der_uint_contents:
  assumes "data \<noteq> []" "data ! 0 AND 0x80 = 0"
    "\<not> (data ! 0 = 0 \<and> length data > 1 \<and> data ! 1 AND 0x80 = 0)"
  shows "data = der_uint (be_val data)"
proof -
  from assms(1) obtain b bs where d: "data = b # bs" by (cases data) auto
  have b: "unat b < 128" using assms(2) d by (metis top_bit_iff top_bit_unat not_less nth_Cons_0)
  show ?thesis
  proof (cases "b = 0")
    case True
    show ?thesis
    proof (cases bs)
      case (Cons x xs)
      then have x: "128 \<le> unat x" using assms(3) d True by (auto simp: top_bit_iff top_bit_unat)
      then have "x \<noteq> 0" by auto
      then have "be_min (be_val bs) = bs" "0 < be_val bs"
        using Cons be_min_be_val [of bs] by (simp_all add: unat_gt_0)
      then show ?thesis using d True Cons x by (simp add: der_uint_def Let_def)
    qed (simp add: d True der_uint_def)
  next
    case False
    then have "be_min (be_val data) = data" "0 < be_val data"
      using d be_min_be_val [of "b # bs"] by (simp_all add: unat_gt_0 del: be_val.simps) (simp add: unat_gt_0)
    then show ?thesis using d b False by (simp add: der_uint_def Let_def)
  qed
qed

lemma der_uint_props:
  "der_uint n \<noteq> []" "der_uint n ! 0 AND 0x80 = 0"
  "\<not> (der_uint n ! 0 = 0 \<and> length (der_uint n) > 1 \<and> der_uint n ! 1 AND 0x80 = 0)"
  "be_val (der_uint n) = n"
proof -
  have a: "der_uint n \<noteq> [] \<and> der_uint n ! 0 AND 0x80 = 0 \<and>
    \<not> (der_uint n ! 0 = 0 \<and> length (der_uint n) > 1 \<and> der_uint n ! 1 AND 0x80 = 0)"
  proof (cases "n = 0")
    case False
    then have "hd (be_min n) \<noteq> 0" "be_min n \<noteq> []" by (simp_all add: hd_be_min)
    then show ?thesis
      using False top_bit_iff [of "hd (be_min n)"] by (auto simp: der_uint_def Let_def top_bit_unat hd_conv_nth)
  qed (simp add: der_uint_def)
  then show "der_uint n \<noteq> []" "der_uint n ! 0 AND 0x80 = 0"
    "\<not> (der_uint n ! 0 = 0 \<and> length (der_uint n) > 1 \<and> der_uint n ! 1 AND 0x80 = 0)" by blast+
  show "be_val (der_uint n) = n" by (simp add: der_uint_def Let_def be_val_be_min)
qed

section \<open>Elements\<close>

lemma cbs_skip_prefix: "length (a @ b) < 2 ^ 64 \<Longrightarrow> CBS_skip (a @ b) (unat (of_nat (length a) :: u64)) = (Some (), b)"
  by (simp add: CBS_skip_def)

lemma any_element_exact:
  assumes "length cbs < 2 ^ 64"
  shows "CBS_get_any_asn1_element cbs = (Some (out, tag, hl), c) \<longleftrightarrow>
    (\<exists>content. length content < 2 ^ 32 \<and> out = der_element tag content \<and> cbs = out @ c \<and>
       hl = of_nat (length (der_tag tag @ der_len (length content))))" (is "?L \<longleftrightarrow> ?R")
proof
  assume ?L
  then have "cbs_get_any_asn1_element cbs False = (Some (out, tag, hl), c)"
    by (simp add: CBS_get_any_asn1_element_def)
  from element_sound [OF assms this] show ?R by metis
next
  assume ?R
  then show ?L using assms by (auto simp: CBS_get_any_asn1_element_def element_complete)
qed

lemma skip_header:
  assumes "length content < 2 ^ 32" "length (der_element tag content @ c) < 2 ^ 64"
  shows "CBS_skip (der_element tag content)
    (unat (of_nat (length (der_tag tag @ der_len (length content))) :: u64)) = (Some (), content)"
  using cbs_skip_prefix [of "der_tag tag @ der_len (length content)" content] assms(2)
  by (simp add: der_element_def)

lemma get_any_asn1_by_element:
  "CBS_get_any_asn1 cbs = (Some (d, tag), c) \<longleftrightarrow>
    (\<exists>out hl. CBS_get_any_asn1_element cbs = (Some (out, tag, hl), c) \<and> CBS_skip out (unat hl) = (Some (), d))"
  by (auto simp: CBS_get_any_asn1_def split: prod.splits option.splits)

lemma get_any_asn1_exact:
  assumes "length cbs < 2 ^ 64"
  shows "CBS_get_any_asn1 cbs = (Some (content, tag), c) \<longleftrightarrow>
    length content < 2 ^ 32 \<and> cbs = der_element tag content @ c" (is "?L \<longleftrightarrow> ?R")
proof
  assume ?L
  then obtain out ct and hl :: u64 where s: "CBS_skip out (unat hl) = (Some (), content)"
    and ct: "length ct < 2 ^ 32" "out = der_element tag ct" "cbs = out @ c"
      "hl = of_nat (length (der_tag tag @ der_len (length ct)))"
    unfolding get_any_asn1_by_element any_element_exact [OF assms] by blast
  then have "content = ct" using skip_header [of ct tag c] assms by simp
  with ct show ?R by simp
next
  assume ?R
  then show ?L
    unfolding get_any_asn1_by_element any_element_exact [OF assms]
    using skip_header [of content tag c] assms by blast
qed

lemma get_asn1_by_element:
  "cbs_get_asn1 cbs tag skip = (Some d, c) \<longleftrightarrow>
    (\<exists>out hl. CBS_get_any_asn1_element cbs = (Some (out, tag, hl), c) \<and>
       (if skip then CBS_skip out (unat hl) = (Some (), d) else d = out))"
  by (auto simp: cbs_get_asn1_def split: prod.splits option.splits)

lemma get_asn1_exact:
  assumes "length cbs < 2 ^ 64"
  shows "CBS_get_asn1 cbs tag = (Some content, c) \<longleftrightarrow>
    length content < 2 ^ 32 \<and> cbs = der_element tag content @ c" (is "?L \<longleftrightarrow> ?R")
proof -
  have "?L \<longleftrightarrow> CBS_get_any_asn1 cbs = (Some (content, tag), c)"
    unfolding CBS_get_asn1_def get_asn1_by_element get_any_asn1_by_element by simp
  then show ?thesis using get_any_asn1_exact [OF assms] by simp
qed

section \<open>Values\<close>

lemma uint64_contents:
  "(CBS_get_asn1_uint64 cbs = (Some v, c)) \<longleftrightarrow>
     CBS_get_asn1 cbs CBS_ASN1_INTEGER = (Some (der_uint (unat v)), c)" (is "?L \<longleftrightarrow> ?R")
proof
  assume ?L
  then obtain data where d: "CBS_get_asn1 cbs CBS_ASN1_INTEGER = (Some data, c)" "uint64_loop 0 data = Some v"
    "data \<noteq> []" "data ! 0 AND 0x80 = 0"
    "\<not> (data ! 0 = 0 \<and> length data > 1 \<and> data ! 1 AND 0x80 = 0)"
    by (auto simp: CBS_get_asn1_uint64_def split: prod.splits option.splits if_splits)
  have "unat v = be_val data" using d(2) by (auto simp: uint64_loop_value split: if_splits)
  with d der_uint_contents [OF d(3-5)] show ?R by simp
next
  assume r: ?R
  let ?d = "der_uint (unat v)"
  have "uint64_loop 0 ?d = Some v"
    using unat_lt_len [of v] by (simp add: uint64_loop_value der_uint_props)
  then show ?L
    using r der_uint_props [of "unat v"] by (auto simp: CBS_get_asn1_uint64_def)
qed

lemma der_uint_length: "length (der_uint (unat (v :: u64))) \<le> 9"
proof -
  have "length (be_min n) \<le> k" if "n < 256 ^ k" for n k
    using that
  proof (induction k arbitrary: n)
    case (Suc k)
    have "length (be_min (n div 256)) \<le> k" using Suc by (simp add: less_mult_imp_div_less mult.commute)
    then show ?case by (subst be_min.simps) simp
  qed simp
  from this [of "unat v" 8] have "length (be_min (unat v)) \<le> 8" using unat_lt_len [of v] by simp
  then show ?thesis by (simp add: der_uint_def Let_def)
qed

lemma bool_contents:
  assumes "length cbs < 2 ^ 64"
  shows "(CBS_get_asn1_bool cbs = (Some b, c)) \<longleftrightarrow>
     CBS_get_asn1 cbs CBS_ASN1_BOOLEAN = (Some [if b then 0xff else 0], c)" (is "?L \<longleftrightarrow> ?R")
proof
  assume ?L
  then obtain data where d: "CBS_get_asn1 cbs CBS_ASN1_BOOLEAN = (Some data, c)" "CBS_len data = 1"
    "data ! 0 = 0 \<or> data ! 0 = 0xff" "b = (data ! 0 \<noteq> 0)"
    by (auto simp: CBS_get_asn1_bool_def Let_def split: prod.splits option.splits if_splits)
  have "length data < 2 ^ 64" using d(1) assms by (simp add: get_asn1_exact)
  from length_CBS_len [OF this] d(2) have "length data = 1" by simp
  then obtain x where "data = [x]" by (cases data) auto
  with d show ?R by auto
next
  assume ?R
  then show ?L by (auto simp: CBS_get_asn1_bool_def CBS_len_def Let_def)
qed

text \<open>Bit strings.\<close>

lemma length_byte_bits [simp]: "length (byte_bits b) = 8"
  by (simp add: byte_bits_def)

lemma length_concat_byte_bits [simp]: "length (concat (map byte_bits cs)) = 8 * length cs"
  by (induction cs) simp_all

lemma nth_concat_byte_bits:
  "i < 8 * length cs \<Longrightarrow> concat (map byte_bits cs) ! i = bit (cs ! (i div 8)) (7 - i mod 8)"
proof (induction cs arbitrary: i)
  case (Cons b cs)
  show ?case
  proof (cases "i < 8")
    case True
    then show ?thesis by (simp add: nth_append byte_bits_def)
  next
    case False
    then obtain j where "i = 8 + j" using le_iff_add not_less by metis
    moreover have "(8 + j) div 8 = Suc (j div 8)" by simp
    ultimately show ?thesis using Cons by (simp add: nth_append)
  qed
qed simp

lemma low_mask_zero:
  "u \<le> 7 \<Longrightarrow> (x :: u8) AND (2 ^ u - 1) = 0 \<longleftrightarrow> (\<forall>i < u. \<not> bit x i)"
proof -
  assume u: "u \<le> 7"
  have m: "2 ^ u - 1 = (mask u :: u8)" by (simp add: mask_eq_exp_minus_1)
  show ?thesis unfolding m
  proof
    assume a: "x AND mask u = 0"
    show "\<forall>i < u. \<not> bit x i"
    proof (intro allI impI notI)
      fix i assume "i < u" "bit x i"
      then have "bit (x AND mask u) i" using u by (simp add: bit_and_iff bit_mask_iff)
      with a show False by simp
    qed
  qed (auto intro!: bit_word_eqI simp: bit_and_iff bit_mask_iff)
qed

lemma valid_bitstring_iff:
  "CBS_is_valid_asn1_bitstring (n # cs) \<longleftrightarrow>
    n = 0 \<or> (n \<le> 7 \<and> cs \<noteq> [] \<and> (\<forall>i < unat n. \<not> bit (cs ! (length cs - 1)) i))"
proof (cases "n > 7")
  case False
  then have n: "unat n \<le> 7" "n \<le> 7" by (simp_all add: word_less_nat_alt word_le_nat_alt)
  then show ?thesis
    by (cases cs) (auto simp: CBS_is_valid_asn1_bitstring_def CBS_get_last_u8_def low_mask_zero)
qed (auto simp: CBS_is_valid_asn1_bitstring_def)

lemma has_bit_index:
  assumes "length (n # ds) < 2 ^ 64" "CBS_is_valid_asn1_bitstring (n # ds)"
  shows "CBS_asn1_bitstring_has_bit (n # ds) i \<longleftrightarrow>
    unat i div 8 < length ds \<and> bit (ds ! (unat i div 8)) (7 - unat i mod 8)"
proof -
  have q: "unat (drop_bit 3 i + 1) = unat i div 8 + 1"
    using unat_lt_len [of i] by (subst unat_add_no_overflow) (simp_all add: unat_drop_bit)
  have a: "unat (i AND 7) = unat i mod 8"
    using unat_and_mask [of i 3] by (simp add: mask_numeral)
  have r: "unat (7 - (i AND 7)) = 7 - unat i mod 8"
    using a by (subst unat_sub_le) (simp_all add: word_le_nat_alt)
  have "unat (ucast (drop_bit 3 i + 1) :: u64) = unat i div 8 + 1"
    using q by (simp add: unat_ucast_up)
  moreover have "unat (CBS_len (n # ds)) = length ds + 1"
    using length_CBS_len [OF assms(1)] by simp
  ultimately have "ucast (drop_bit 3 i + 1) < CBS_len (n # ds) \<longleftrightarrow> unat i div 8 < length ds"
    by (simp add: word_less_nat_alt)
  moreover have "x AND push_bit k 1 \<noteq> 0 \<longleftrightarrow> bit x k" for x :: u8 and k
    by (simp add: and_exp_eq_0_iff_not_bit)
  ultimately show ?thesis
    using assms(2) q r by (simp add: CBS_asn1_bitstring_has_bit_def Let_def)
qed

lemma unused_bits_clear:
  assumes "CBS_is_valid_asn1_bitstring (n # ds)" "8 * length ds - unat n \<le> i" "i < 8 * length ds"
  shows "\<not> bit (ds ! (i div 8)) (7 - i mod 8)"
proof -
  from assms have n: "unat n \<le> 7" "\<forall>j < unat n. \<not> bit (ds ! (length ds - 1)) j"
    by (auto simp: valid_bitstring_iff word_le_nat_alt)
  have "i div 8 = length ds - 1" using assms(2,3) n(1) by linarith
  moreover have "i = 8 * (i div 8) + i mod 8" by simp
  ultimately have "i div 8 = length ds - 1" "7 - i mod 8 < unat n"
    using assms(2,3) n(1) by linarith+
  with n(2) show ?thesis by simp
qed

lemma has_bit_exact:
  assumes "length cbs < 2 ^ 64" "CBS_is_valid_asn1_bitstring cbs"
  shows "CBS_asn1_bitstring_has_bit cbs i \<longleftrightarrow>
    unat i < length (bitstring_bits cbs) \<and> bitstring_bits cbs ! unat i"
proof -
  obtain n ds where c: "cbs = n # ds"
    using assms(2) by (cases cbs) (simp_all add: CBS_is_valid_asn1_bitstring_def)
  have d: "unat i div 8 < length ds \<longleftrightarrow> unat i < 8 * length ds" by linarith
  have len: "length (bitstring_bits cbs) = 8 * length ds - unat n" by (simp add: bitstring_bits_def c)
  have nth: "bitstring_bits cbs ! unat i = bit (ds ! (unat i div 8)) (7 - unat i mod 8)"
    if "unat i < 8 * length ds - unat n"
    using that by (simp add: bitstring_bits_def c nth_concat_byte_bits)
  show ?thesis
    using has_bit_index [of n ds i] unused_bits_clear [of n ds "unat i"] assms d len nth c
    by (cases "unat i < 8 * length ds - unat n") auto
qed

section \<open>The indefinite length of BER\<close>

lemma low7_zero: "(ucast ((0x80 :: u8) AND 0x7f) :: u64) = 0"
  by simp



section \<open>Optional values\<close>

lemma CBS_len_0: "length c < 2 ^ 64 \<Longrightarrow> CBS_len c = 0 \<longleftrightarrow> c = []"
  using length_CBS_len [of c] unat_eq_zero [of "CBS_len c"] by simp

lemma length_der_len: "length (der_len n) \<le> 5"
  by (simp add: der_len_def len_octets_def)

lemma length_der_element: "length (der_element tag content) \<le> 11 + length content"
  using length_der_tag [of tag] length_der_len [of "length content"] by (simp add: der_element_def)

lemma length_uint_element: "length (der_element t (der_uint (unat (v :: u64)))) < 2 ^ 32"
  using length_der_element [of t "der_uint (unat v)"] der_uint_length [of v] by simp

lemma uint64_exact:
  "length cbs < 2 ^ 64 \<Longrightarrow> CBS_get_asn1_uint64 cbs = (Some v, c) \<longleftrightarrow>
    cbs = der_element CBS_ASN1_INTEGER (der_uint (unat v)) @ c"
  using get_asn1_exact [of cbs] der_uint_length [of v] by (simp add: uint64_contents)

lemma whole_child:
  assumes "length cbs < 2 ^ 64" "CBS_get_asn1 cbs tag = (Some child, c)"
  shows "length child < 2 ^ 64" "child = a @ child' \<Longrightarrow> CBS_len child' = 0 \<longleftrightarrow> child' = []"
proof -
  show "length child < 2 ^ 64" using assms by (simp add: get_asn1_exact)
  then show "CBS_len child' = 0 \<longleftrightarrow> child' = []" if "child = a @ child'"
    using that by (intro CBS_len_0) simp
qed

lemma optional_uint64:
  assumes len: "length cbs < 2 ^ 64"
  shows "CBS_get_optional_asn1_uint64 cbs tag def = (Some v, c) \<longleftrightarrow>
    (if CBS_peek_asn1_tag cbs tag
     then cbs = der_element tag (der_element CBS_ASN1_INTEGER (der_uint (unat v))) @ c
     else v = def \<and> c = cbs)"
proof (cases "CBS_peek_asn1_tag cbs tag")
  case True
  have "CBS_get_optional_asn1_uint64 cbs tag def = (Some v, c) \<longleftrightarrow>
    (\<exists>child child'. CBS_get_asn1 cbs tag = (Some child, c) \<and>
       CBS_get_asn1_uint64 child = (Some v, child') \<and> CBS_len child' = 0)"
    using True by (auto simp: CBS_get_optional_asn1_uint64_def CBS_get_optional_asn1_def
        split: prod.splits option.splits if_splits)
  also have "\<dots> \<longleftrightarrow> CBS_get_asn1 cbs tag = (Some (der_element CBS_ASN1_INTEGER (der_uint (unat v))), c)"
    (is "_ \<longleftrightarrow> ?R")
  proof
    assume "\<exists>child child'. CBS_get_asn1 cbs tag = (Some child, c) \<and>
       CBS_get_asn1_uint64 child = (Some v, child') \<and> CBS_len child' = 0"
    then show ?R using whole_child [OF len] by (auto simp: uint64_exact)
  next
    assume ?R
    then show "\<exists>child child'. CBS_get_asn1 cbs tag = (Some child, c) \<and>
       CBS_get_asn1_uint64 child = (Some v, child') \<and> CBS_len child' = 0"
      using uint64_exact [OF whole_child(1) [OF len], of tag _ c v "[]"] by (fastforce simp: CBS_len_def)
  qed
  finally show ?thesis using True length_uint_element by (simp add: get_asn1_exact [OF len])
next
  case False
  then show ?thesis
    by (auto simp: CBS_get_optional_asn1_uint64_def CBS_get_optional_asn1_def)
qed

lemma optional_octet_string:
  assumes len: "length cbs < 2 ^ 64"
  shows "CBS_get_optional_asn1_octet_string cbs tag = (Some (out, present), c) \<longleftrightarrow>
    (if CBS_peek_asn1_tag cbs tag
     then present \<and> length (der_element CBS_ASN1_OCTETSTRING out) < 2 ^ 32 \<and>
       cbs = der_element tag (der_element CBS_ASN1_OCTETSTRING out) @ c
     else \<not> present \<and> out = [] \<and> c = cbs)"
proof (cases "CBS_peek_asn1_tag cbs tag")
  case True
  let ?P = "\<exists>child child'. CBS_get_asn1 cbs tag = (Some child, c) \<and>
       CBS_get_asn1 child CBS_ASN1_OCTETSTRING = (Some out, child') \<and> CBS_len child' = 0"
  have small: "length (der_element CBS_ASN1_OCTETSTRING out) < 2 ^ 32 \<Longrightarrow> length out < 2 ^ 32"
    by (simp add: der_element_def)
  have "CBS_get_optional_asn1_octet_string cbs tag = (Some (out, present), c) \<longleftrightarrow> present \<and> ?P"
    using True by (auto simp: CBS_get_optional_asn1_octet_string_def CBS_get_optional_asn1_def
        split: prod.splits option.splits if_splits)
  also have "?P \<longleftrightarrow> CBS_get_asn1 cbs tag = (Some (der_element CBS_ASN1_OCTETSTRING out), c)"
    (is "_ \<longleftrightarrow> ?R")
  proof
    assume ?P
    then show ?R using whole_child [OF len] by (auto simp: get_asn1_exact)
  next
    assume r: ?R
    then have "length out < 2 ^ 32" using small by (simp add: get_asn1_exact [OF len])
    with r show ?P
      using get_asn1_exact [OF whole_child(1) [OF len], of tag _ c CBS_ASN1_OCTETSTRING out "[]"]
      by (fastforce simp: CBS_len_def)
  qed
  finally show ?thesis using True by (simp add: get_asn1_exact [OF len])
next
  case False
  then show ?thesis
    by (auto simp: CBS_get_optional_asn1_octet_string_def CBS_get_optional_asn1_def)
qed

section \<open>Properties\<close>

text \<open>
  C13. The element parser is exact: it accepts precisely the canonical (DER) encodings of a tag, a
  length below 2^32 and that many bytes, returns the element, its tag and the length of its header,
  and advances over it; whatever it accepts is a prefix of the input.
\<close>

theorem der_element_parser_exact:
  assumes "length cbs < 2 ^ 64"
  shows "CBS_get_any_asn1_element cbs = (Some (out, tag, hl), c) \<longleftrightarrow>
    (\<exists>content. length content < 2 ^ 32 \<and> out = der_element tag content \<and> cbs = out @ c \<and>
       hl = of_nat (length (der_tag tag @ der_len (length content))))"
  by (rule any_element_exact [OF assms])

theorem der_element_parser_exact_witness:
  "CBS_get_any_asn1_element [0x30, 3, 2, 1, 5, 7] = (Some ([0x30, 3, 2, 1, 5], 0x20000010, 2), [7])"
proof -
  have t: "der_tag 0x20000010 = [0x30]" by code_simp
  have l: "der_len (Suc (Suc (Suc 0))) = [3]" by (simp add: der_len_def)
  show ?thesis
    by (subst der_element_parser_exact, simp, rule exI [of _ "[2, 1, 5]"])
      (simp add: der_element_def t l)
qed



text \<open>
  C15. CBS_get_any_asn1 returns the contents of every element the parser accepts, so its assertion
  that the header can be skipped never fails; CBS_get_asn1 does the same for the expected tag.
\<close>

theorem der_contents_exact:
  assumes "length cbs < 2 ^ 64"
  shows "(CBS_get_any_asn1 cbs = (Some (content, tag), c) \<longleftrightarrow>
      length content < 2 ^ 32 \<and> cbs = der_element tag content @ c) \<and>
    (CBS_get_asn1 cbs tag = (Some content, c) \<longleftrightarrow>
      length content < 2 ^ 32 \<and> cbs = der_element tag content @ c) \<and>
    (CBS_get_any_asn1 cbs = (None, d) \<longleftrightarrow> CBS_get_any_asn1_element cbs = (None, d))"
proof -
  have "CBS_get_any_asn1 cbs = (None, d) \<longleftrightarrow> CBS_get_any_asn1_element cbs = (None, d)"
  proof (cases "CBS_get_any_asn1_element cbs")
    case (Pair r e)
    show ?thesis
    proof (cases r)
      case (Some x)
      obtain out t hl where x: "x = (out, t, hl)" by (cases x)
      then obtain ct where "length ct < 2 ^ 32" "out = der_element t ct" "cbs = out @ e"
        "hl = of_nat (length (der_tag t @ der_len (length ct)))"
        using Pair Some any_element_exact [OF assms] by blast
      then show ?thesis using Pair Some x skip_header [of ct t e] assms
        by (simp add: CBS_get_any_asn1_def)
    qed (simp add: Pair CBS_get_any_asn1_def)
  qed
  then show ?thesis using get_any_asn1_exact [OF assms] get_asn1_exact [OF assms] by blast
qed

theorem der_contents_exact_witness:
  "CBS_get_asn1 [0x30, 3, 2, 1, 5, 7] 0x20000010 = (Some [2, 1, 5], [7])"
proof -
  have t: "der_tag 0x20000010 = [0x30]" by code_simp
  have l: "der_len (Suc (Suc (Suc 0))) = [3]" by (simp add: der_len_def)
  have "length [0x30, 3, 2, 1, 5, 7 :: u8] < 2 ^ 64" by simp
  from der_contents_exact [OF this, where content = "[2, 1, 5]" and tag = "0x20000010" and c = "[7]"
      and d = "[]"] show ?thesis
    by (simp add: der_element_def t l)
qed

text \<open>
  C16. CBS_get_asn1_uint64 accepts exactly the minimal DER encodings of the integers from 0 to
  2^64 - 1 and returns the number encoded; negative, padded, empty and larger integers are refused.
\<close>

theorem asn1_uint64_exact:
  assumes "length cbs < 2 ^ 64"
  shows "CBS_get_asn1_uint64 cbs = (Some v, c) \<longleftrightarrow>
    cbs = der_element CBS_ASN1_INTEGER (der_uint (unat v)) @ c"
  by (rule uint64_exact [OF assms])

theorem asn1_uint64_exact_witness:
  "CBS_get_asn1_uint64 [2, 2, 0, 0x80, 9] = (Some 128, [9])"
proof -
  have t: "der_element 2 (der_uint 128) = [2, 2, 0, 0x80]" by code_simp
  show ?thesis by (subst asn1_uint64_exact) (simp_all add: t)
qed

lemma peek_exact:
  assumes "length cbs < 2 ^ 64"
  shows "CBS_peek_asn1_tag cbs tag \<longleftrightarrow> (\<exists>rest. cbs = der_tag tag @ rest)"
proof
  assume "CBS_peek_asn1_tag cbs tag"
  then obtain c where "parse_asn1_tag cbs = (Some tag, c)"
    by (auto simp: CBS_peek_asn1_tag_def split: if_splits prod.splits option.splits)
  then show "\<exists>rest. cbs = der_tag tag @ rest" using asn1_tag_sound by blast
next
  assume "\<exists>rest. cbs = der_tag tag @ rest"
  then obtain rest where cbs: "cbs = der_tag tag @ rest" by blast
  have "0 < unat (CBS_len cbs)" unfolding length_CBS_len [OF assms] by (simp add: cbs)
  then have "\<not> CBS_len cbs < 1" by (simp add: word_less_nat_alt)
  then show "CBS_peek_asn1_tag cbs tag"
    by (simp add: CBS_peek_asn1_tag_def cbs asn1_tag_complete)
qed

text \<open>
  C17. CBS_get_asn1_bool accepts exactly the two DER booleans. The optional readers return the
  tagged value when the input starts with the identifier octets of the tag (class, constructed bit
  and number, as der_tag writes them), and the default with nothing consumed when it does not; this
  is also exactly what CBS_peek_asn1_tag answers.
\<close>

theorem asn1_bool_and_optional_exact:
  assumes "length cbs < 2 ^ 64"
  shows "(CBS_get_asn1_bool cbs = (Some b, c) \<longleftrightarrow>
      cbs = der_element CBS_ASN1_BOOLEAN [if b then 0xff else 0] @ c) \<and>
    (CBS_get_optional_asn1_uint64 cbs tag def = (Some v, c) \<longleftrightarrow>
      (if \<exists>rest. cbs = der_tag tag @ rest
       then cbs = der_element tag (der_element CBS_ASN1_INTEGER (der_uint (unat v))) @ c
       else v = def \<and> c = cbs)) \<and>
    (CBS_get_optional_asn1_octet_string cbs tag = (Some (out, present), c) \<longleftrightarrow>
      (if \<exists>rest. cbs = der_tag tag @ rest
       then present \<and> length (der_element CBS_ASN1_OCTETSTRING out) < 2 ^ 32 \<and>
         cbs = der_element tag (der_element CBS_ASN1_OCTETSTRING out) @ c
       else \<not> present \<and> out = [] \<and> c = cbs)) \<and>
    (CBS_peek_asn1_tag cbs tag \<longleftrightarrow> (\<exists>rest. cbs = der_tag tag @ rest))"
  using optional_uint64 [OF assms] optional_octet_string [OF assms]
  by (simp add: bool_contents [OF assms] get_asn1_exact [OF assms] flip: peek_exact [OF assms])

theorem asn1_bool_and_optional_exact_witness:
  "CBS_get_optional_asn1_uint64 [0xa1, 3, 2, 1, 5, 7] 0xa0000001 9 = (Some 5, [7]) \<and>
   CBS_get_optional_asn1_uint64 [0xa1, 3, 2, 1, 5, 7] 0xa0000000 9 = (Some 9, [0xa1, 3, 2, 1, 5, 7])"
proof -
  have l: "length [0xa1, 3, 2, 1, 5, 7 :: u8] < 2 ^ 64" by simp
  note a = asn1_bool_and_optional_exact [OF l, THEN conjunct2, THEN conjunct1]
  have e: "[0xa1, 3, 2, 1, 5, 7] = der_element 0xa0000001 (der_element 2 (der_uint (unat (5 :: u64)))) @ [7]"
    and t: "der_tag 0xa0000001 = [0xa1]" "der_tag 0xa0000000 = [0xa0]"
    by code_simp+
  have p: "(\<exists>rest. [0xa1, 3, 2, 1, 5, 7] = der_tag 0xa0000001 @ rest) = True"
    "(\<exists>rest. [0xa1, 3, 2, 1, 5, 7] = der_tag 0xa0000000 @ rest) = False"
    by (simp_all add: t)
  show ?thesis
    by (intro conjI a [THEN iffD2]; simp only: p if_True if_False simp_thms) (rule e)
qed

text \<open>
  On a valid bit string CBS_asn1_bitstring_has_bit reads exactly the bits of the string, most
  significant first and without the unused bits of the last byte; an index past the end is unset,
  also when it falls into the unused bits.
\<close>

lemma bitstring_has_bit_exact:
  assumes "length cbs < 2 ^ 64" "CBS_is_valid_asn1_bitstring cbs"
  shows "CBS_asn1_bitstring_has_bit cbs i \<longleftrightarrow>
    unat i < length (bitstring_bits cbs) \<and> bitstring_bits cbs ! unat i"
  by (rule has_bit_exact [OF assms])

end
