(* ===== verification/CbbSpec.thy ===== *)
theory CbbSpec
  imports Cbb DerValues
begin

text \<open>
  What a \<open>CBB\<close> promises, and the proof that \<open>Cbb\<close> keeps it. Abstractly the object is a stack of open
  segments, each a kind of prefix and the bytes added so far. Flushing at a depth closes the segments
  above it: each one is sealed with its length, in its final form, and appended to the one below.
\<close>

unbundle bit_operations_syntax

section \<open>The abstract builder\<close>

datatype seg_kind = Root | Fixed nat | Element

type_synonym seg = "seg_kind \<times> u8 list"

fun plen :: "seg_kind \<Rightarrow> nat" where
  "plen Root = 0"
| "plen (Fixed n) = n"
| "plen Element = 1"

fun seal :: "seg_kind \<Rightarrow> u8 list \<Rightarrow> u8 list" where
  "seal Root b = b"
| "seal (Fixed n) b = be_bytes n (length b) @ b"
| "seal Element b = der_len (length b) @ b"

fun fits :: "seg_kind \<Rightarrow> nat \<Rightarrow> bool" where
  "fits Root n = True"
| "fits (Fixed k) n = (n < 256 ^ k)"
| "fits Element n = (n \<le> 0xfffffffe)"

fun collapse :: "seg list \<Rightarrow> u8 list" where
  "collapse [] = []"
| "collapse ((k, b) # fs) = seal k (b @ collapse fs)"

fun collapse_ok :: "seg list \<Rightarrow> bool" where
  "collapse_ok [] \<longleftrightarrow> True"
| "collapse_ok ((k, b) # fs) \<longleftrightarrow> collapse_ok fs \<and> fits k (length (b @ collapse fs))"

definition spec_flush :: "nat \<Rightarrow> seg list \<Rightarrow> seg list" where
  "spec_flush d fs = take d fs @ [(fst (fs ! d), snd (fs ! d) @ collapse (drop (Suc d) fs))]"

text \<open>The bytes in the buffer while the segments are open: zeros where the prefixes will be.\<close>

fun layout :: "seg list \<Rightarrow> u8 list" where
  "layout [] = []"
| "layout ((k, b) # fs) = replicate (plen k) 0 @ b @ layout fs"

fun chain_of :: "nat \<Rightarrow> seg list \<Rightarrow> cbb_child list" where
  "chain_of off [] = []"
| "chain_of off ((k, b) # fs) =
     \<lparr>ch_offset = of_nat off, ch_pending_len_len = of_nat (plen k), ch_pending_is_asn1 = (k = Element)\<rparr>
       # chain_of (off + plen k + length b) fs"

definition kinds_ok :: "seg list \<Rightarrow> bool" where
  "kinds_ok fs \<longleftrightarrow> fs \<noteq> [] \<and> fst (hd fs) = Root \<and>
     (\<forall>(k, b) \<in> set (tl fs). k \<noteq> Root \<and> (\<forall>n. k = Fixed n \<longrightarrow> 1 \<le> n \<and> n \<le> 3))"

section \<open>The concrete buffer\<close>

definition as_buf_mem :: "cbb_buffer \<Rightarrow> buf_mem" where
  "as_buf_mem b = \<lparr>blen = bb_len b, bdata = bb_buf b, bmax = bb_cap b\<rparr>"

definition base_ok :: "cbb_buffer \<Rightarrow> bool" where
  "base_ok b \<longleftrightarrow> buf_ok (as_buf_mem b)"

definition bb_contents :: "cbb_buffer \<Rightarrow> u8 list" where
  "bb_contents b = take (unat (bb_len b)) (bytes_of (bb_buf b))"

lemma base_ok_facts:
  assumes "base_ok b"
  shows "length (bytes_of (bb_buf b)) = unat (bb_cap b)" "unat (bb_len b) \<le> unat (bb_cap b)"
    "unat (bb_cap b) + 8 < 2 ^ 63" "length (bb_contents b) = unat (bb_len b)"
  using buf_ok_length [of "as_buf_mem b"] assms by (auto simp: base_ok_def as_buf_mem_def bb_contents_def)

lemma base_ok_cong:
  "base_ok (b\<lparr>bb_error := e\<rparr>) = base_ok b" "bb_contents (b\<lparr>bb_error := e\<rparr>) = bb_contents b"
  by (simp_all add: base_ok_def as_buf_mem_def bb_contents_def)

lemma put_contents:
  assumes "base_ok b" "bb_contents b = A @ Y @ Z" "unat off = length A" "length xs = length Y"
  shows "base_ok (b\<lparr>bb_buf := put_bytes (bb_buf b) off xs\<rparr>)"
    "bb_contents (b\<lparr>bb_buf := put_bytes (bb_buf b) off xs\<rparr>) = A @ xs @ Z"
proof -
  note f = base_ok_facts [OF assms(1)]
  have len: "unat (bb_len b) = length A + length xs + length Z" using f(4) assms(2,4) by simp
  have fit: "unat off + length xs \<le> unat (bb_cap b)" using f(2) len assms(3) by simp
  obtain R where R: "bytes_of (bb_buf b) = A @ Y @ Z @ R"
  proof -
    have "bytes_of (bb_buf b) = bb_contents b @ drop (unat (bb_len b)) (bytes_of (bb_buf b))"
      by (simp add: bb_contents_def)
    then show thesis using that assms(2) by (metis append.assoc)
  qed
  show "base_ok (b\<lparr>bb_buf := put_bytes (bb_buf b) off xs\<rparr>)"
    using put_bytes_ok(2) [of "as_buf_mem b" off xs "bb_len b"] assms(1) fit f(2)
    by (simp add: base_ok_def as_buf_mem_def word_le_nat_alt)
  show "bb_contents (b\<lparr>bb_buf := put_bytes (bb_buf b) off xs\<rparr>) = A @ xs @ Z"
    using put_bytes_ok(1) [of "as_buf_mem b" off xs] assms(1,3,4) fit R len
    by (simp add: base_ok_def as_buf_mem_def bb_contents_def)
qed

lemma cbb_buffer_reserve_spec:
  assumes m: "malloc_ok malloc" and ok: "base_ok b" and len: "unat len < 2 ^ 63"
    and r: "cbb_buffer_reserve malloc b len = (res, b')"
  shows "(case res of
      None \<Rightarrow> b' = b\<lparr>bb_error := True\<rparr> \<and> unat (bb_cap b) < unat (bb_len b) + unat len
    | Some off \<Rightarrow> off = bb_len b \<and> base_ok b' \<and> bb_contents b' = bb_contents b \<and> bb_len b' = bb_len b \<and>
        unat (bb_len b) + unat len \<le> unat (bb_cap b') \<and> bb_error b' = bb_error b \<and>
        bb_can_resize b' = bb_can_resize b \<and> bb_cap b \<le> bb_cap b')"
proof -
  note f = base_ok_facts [OF ok]
  let ?n = "bb_len b + len"
  have n: "unat ?n = unat (bb_len b) + unat len" using f len by (subst unat_add_no_overflow) simp_all
  then have nw: "\<not> ?n < bb_len b" by (simp add: word_less_nat_alt)
  show ?thesis
  proof (cases "?n > bb_cap b")
    case False
    then show ?thesis using r nw n ok by (auto simp: cbb_buffer_reserve_def word_less_nat_alt)
  next
    case True
    then have big: "unat (bb_cap b) < unat (bb_len b) + unat len" by (simp add: word_less_nat_alt n)
    let ?c = "if bb_cap b * 2 < bb_cap b \<or> bb_cap b * 2 < ?n then ?n else bb_cap b * 2"
    have c2: "unat (bb_cap b * 2) = unat (bb_cap b) * 2" using f(3) by (subst unat_word_ariths) simp
    have c: "unat ?n \<le> unat ?c" "unat (bb_cap b) \<le> unat ?c" "unat ?c + 8 < 2 ^ 64"
      using big f len n c2 by (auto simp: word_less_nat_alt)
    have rr: "cbb_buffer_reserve malloc b len =
      (if \<not> bb_can_resize b then (None, b\<lparr>bb_error := True\<rparr>)
       else case OPENSSL_realloc malloc (bb_buf b) ?c of
          None \<Rightarrow> (None, b\<lparr>bb_error := True\<rparr>)
        | Some newbuf \<Rightarrow> (Some (bb_len b), b\<lparr>bb_buf := Some newbuf, bb_cap := ?c\<rparr>))"
      by (simp only: cbb_buffer_reserve_def Let_def nw True if_False if_True)
    show ?thesis
    proof (cases "bb_can_resize b \<and> OPENSSL_realloc malloc (bb_buf b) ?c \<noteq> None")
      case False
      then have "(res, b') = (None, b\<lparr>bb_error := True\<rparr>)"
        unfolding r [symmetric] rr by auto
      then show ?thesis using big by simp
    next
      case grow: True
      then obtain nb where nb: "OPENSSL_realloc malloc (bb_buf b) ?c = Some nb" by blast
      then have "(res, b') = (Some (bb_len b), b\<lparr>bb_buf := Some nb, bb_cap := ?c\<rparr>)"
        unfolding r [symmetric] rr using grow by simp
      then have b': "res = Some (bb_len b)" "b' = b\<lparr>bb_buf := Some nb, bb_cap := ?c\<rparr>" by blast+
      have le: "bb_len b \<le> ?c" using f(2) c(2) by (simp add: word_le_nat_alt)
      have nb_ok: "block_ok nb \<and> prefix nb = ?c \<and> take (unat (bb_len b)) (data nb) = bb_contents b"
        using realloc_keeps [of malloc "as_buf_mem b", OF m] ok nb c(3) le
        by (simp add: base_ok_def as_buf_mem_def bb_contents_def contents_def)
      then show ?thesis
        using b' le c n by (simp add: base_ok_def as_buf_mem_def buf_ok_def bb_contents_def bytes_of_def word_le_nat_alt)
    qed
  qed
qed

lemma cbb_buffer_add_spec:
  assumes m: "malloc_ok malloc" and ok: "base_ok b" and len: "unat len < 2 ^ 63"
    and r: "cbb_buffer_add malloc b len = (res, b')"
  shows "(case res of
      None \<Rightarrow> b' = b\<lparr>bb_error := True\<rparr> \<and> unat (bb_cap b) < length (bb_contents b) + unat len
    | Some off \<Rightarrow> off = bb_len b \<and> base_ok b' \<and> unat (bb_len b') = length (bb_contents b) + unat len \<and>
        (\<exists>junk. length junk = unat len \<and> bb_contents b' = bb_contents b @ junk) \<and>
        bb_error b' = bb_error b \<and> bb_cap b \<le> bb_cap b')"
proof -
  obtain o1 b1 where r1: "cbb_buffer_reserve malloc b len = (o1, b1)" by (cases "cbb_buffer_reserve malloc b len")
  note s = cbb_buffer_reserve_spec [OF m ok len r1] and f = base_ok_facts [OF ok]
  show ?thesis
  proof (cases o1)
    case None
    then show ?thesis using r r1 s f by (auto simp: cbb_buffer_add_def)
  next
    case (Some off)
    have b': "res = Some off" "b' = b1\<lparr>bb_len := bb_len b1 + len\<rparr>"
      using r r1 Some by (auto simp: cbb_buffer_add_def)
    have s1: "off = bb_len b" "base_ok b1" "bb_contents b1 = bb_contents b" "bb_len b1 = bb_len b"
      "unat (bb_len b) + unat len \<le> unat (bb_cap b1)" "bb_error b1 = bb_error b" "bb_cap b \<le> bb_cap b1"
      using s Some by simp_all
    note f1 = base_ok_facts [OF s1(2)]
    have n: "unat (bb_len b1 + len) = unat (bb_len b) + unat len"
      using s1(4,5) unat_u64_less [of "bb_cap b1"] by (subst unat_add_no_overflow) simp_all
    have "base_ok b'" using s1(2,5) n
      by (simp add: b' base_ok_def as_buf_mem_def buf_ok_def word_le_nat_alt split: option.splits)
    moreover have "bb_contents b' = bb_contents b @ take (unat len) (drop (unat (bb_len b)) (bytes_of (bb_buf b1)))"
      using s1(3,4) n by (simp add: b' bb_contents_def take_add)
    moreover have "length (take (unat len) (drop (unat (bb_len b)) (bytes_of (bb_buf b1)))) = unat len"
      using f1(1) s1(5) by simp
    ultimately show ?thesis using b' s1 n f(4) by (auto simp: word_le_nat_alt)
  qed
qed

section \<open>Storing numbers\<close>

lemma store_be_contents:
  fixes v :: "'a::len word"
  assumes "base_ok b" "bb_contents b = A @ Y @ Z" "unat off = length A" "length Y = n"
    "store_be (bb_buf b) off v n = (buf', v')"
  shows "base_ok (b\<lparr>bb_buf := buf'\<rparr>) \<and> bb_contents (b\<lparr>bb_buf := buf'\<rparr>) = A @ be_bytes n (unat v) @ Z \<and>
    v' = drop_bit (8 * n) v"
  using assms
proof (induction n arbitrary: b v Y Z)
  case (Suc n)
  let ?b = "b\<lparr>bb_buf := put_bytes (bb_buf b) (off + of_nat n) [ucast v]\<rparr>"
  have Y: "Y = take n Y @ drop n Y" "length (take n Y) = n" "length (drop n Y) = 1" using Suc.prems(4) by simp_all
  have "length A + n < 2 ^ 64"
    using base_ok_facts(2,3,4) [OF Suc.prems(1)] Suc.prems(2,4) by simp
  then have o: "unat (off + of_nat n) = length (A @ take n Y)"
    using Suc.prems(3) Y(2) by (subst unat_add_no_overflow) simp_all
  have c: "bb_contents b = (A @ take n Y) @ drop n Y @ Z" using Suc.prems(2) Y(1) by (metis append.assoc)
  have l: "length [ucast v :: u8] = length (drop n Y)" using Y(3) by simp
  note p = put_contents [OF Suc.prems(1) c o l]
  have "store_be (bb_buf ?b) off (drop_bit 8 v) n = (buf', v')" using Suc.prems(5) by simp
  from Suc.IH [OF p(1) _ Suc.prems(3) Y(2) this, of "ucast v # Z"] p(2)
  have IH: "base_ok (b\<lparr>bb_buf := buf'\<rparr>)" "v' = drop_bit (8 * n) (drop_bit 8 v)"
    "bb_contents (b\<lparr>bb_buf := buf'\<rparr>) = A @ be_bytes n (unat (drop_bit 8 v)) @ ucast v # Z" by simp_all
  have "(ucast v :: u8) = of_nat (unat v)" by simp
  then have "be_bytes (Suc n) (unat v) = be_bytes n (unat (drop_bit 8 v)) @ [ucast v]"
    unfolding be_bytes_last unat_drop_bit by simp
  then show ?case using IH by (simp add: add.commute)
next
  case 0
  then have e: "b\<lparr>bb_buf := buf'\<rparr> = b" by (cases b) simp
  show ?case unfolding e using 0 by simp
qed

section \<open>Layouts\<close>

lemma layout_append: "layout (xs @ ys) = layout xs @ layout ys"
  by (induction xs rule: layout.induct) simp_all

lemma chain_of_append: "chain_of off (xs @ ys) = chain_of off xs @ chain_of (off + length (layout xs)) ys"
  by (induction off xs rule: chain_of.induct) (simp_all add: ac_simps)

lemma length_chain_of [simp]: "length (chain_of off xs) = length xs"
  by (induction off xs rule: chain_of.induct) simp_all

text \<open>The relation between the code's state and the stack of segments.\<close>

definition represents :: "cbb \<Rightarrow> seg list \<Rightarrow> bool" where
  "represents s fs \<longleftrightarrow> base_ok (cb_base s) \<and> \<not> bb_error (cb_base s) \<and> kinds_ok fs \<and>
     cb_chain s = tl (chain_of 0 fs) \<and> bb_contents (cb_base s) = layout fs"

lemma represents_length:
  assumes "represents s fs"
  shows "length (cb_chain s) = length fs - 1" "length (layout fs) + 8 < 2 ^ 63"
    "unat (bb_len (cb_base s)) = length (layout fs)" "fs \<noteq> []"
  using assms base_ok_facts [of "cb_base s"] by (auto simp: represents_def kinds_ok_def)

section \<open>Closing the innermost segment\<close>

lemma flush_store_spec:
  assumes "base_ok (cb_base s)" "\<not> bb_error (cb_base s)"
    and "bb_contents (cb_base s) = A @ Y @ Z" "unat (ch_offset (cb_chain s ! d)) = length A"
      "unat (ch_pending_len_len (cb_chain s ! d)) = length Y"
    and r: "flush_store d s len = (res, s')"
  shows "(res \<longleftrightarrow> drop_bit (8 * length Y) len = 0) \<and>
    (if res then base_ok (cb_base s') \<and> \<not> bb_error (cb_base s') \<and> cb_chain s' = take d (cb_chain s) \<and>
       bb_contents (cb_base s') = A @ be_bytes (length Y) (unat len) @ Z
     else bb_error (cb_base s')) \<and> bb_cap (cb_base s') = bb_cap (cb_base s)"
proof -
  obtain buf' v' where st: "store_be (bb_buf (cb_base s)) (ch_offset (cb_chain s ! d)) len (length Y) = (buf', v')"
    by (cases "store_be (bb_buf (cb_base s)) (ch_offset (cb_chain s ! d)) len (length Y)")
  note c = store_be_contents [OF assms(1,3,4) refl st]
  show ?thesis
    using r c assms(2,5) st
    by (auto simp: flush_store_def Let_def set_base_def cbb_fail_def split: if_splits)
qed

lemma drop_bit_zero_iff: "drop_bit (8 * k) (len :: u64) = 0 \<longleftrightarrow> unat len < 256 ^ k"
proof -
  have "drop_bit (8 * k) len = 0 \<longleftrightarrow> unat len div 2 ^ (8 * k) = 0"
    unfolding unat_drop_bit [symmetric] by (simp add: unat_eq_zero)
  then show ?thesis by (simp add: div_eq_0_iff power_mult)
qed

lemma asn1_length_form_spec:
  "asn1_length_form len =
     (if unat len > 0xfffffffe then None
      else if unat len < 128 then Some (1, of_nat (unat len), 0)
      else Some (of_nat (len_octets (unat len) + 1), 0x80 OR of_nat (len_octets (unat len)), len))"
  unfolding asn1_length_form_def len_octets_def by (simp add: word_less_nat_alt)

lemma len_octets_bounds: "n < 2 ^ 32 \<Longrightarrow> 1 \<le> len_octets n \<and> len_octets n \<le> 4 \<and> n < 256 ^ len_octets n"
  by (simp add: len_octets_def)

text \<open>The state before the innermost segment \<open>(k, b)\<close> is closed; it has number \<open>d\<close> in the chain.\<close>

definition top_at :: "cbb \<Rightarrow> nat \<Rightarrow> u8 list \<Rightarrow> seg_kind \<Rightarrow> u8 list \<Rightarrow> bool" where
  "top_at s d P k b \<longleftrightarrow> base_ok (cb_base s) \<and> \<not> bb_error (cb_base s) \<and>
     bb_contents (cb_base s) = P @ replicate (plen k) 0 @ b \<and> length (cb_chain s) = Suc d \<and>
     cb_chain s ! d =
       \<lparr>ch_offset = of_nat (length P), ch_pending_len_len = of_nat (plen k), ch_pending_is_asn1 = (k = Element)\<rparr> \<and>
     k \<noteq> Root \<and> (\<forall>n. k = Fixed n \<longrightarrow> 1 \<le> n \<and> n \<le> 3)"

lemma top_at_facts:
  assumes "top_at s d P k b"
  shows "1 \<le> plen k" "plen k \<le> 3" "unat (bb_len (cb_base s)) = length P + plen k + length b"
    "length P + plen k + length b + 8 < 2 ^ 63"
    "unat (of_nat (length P) :: u64) = length P" "unat (of_nat (plen k) :: u8) = plen k"
    "unat (of_nat (length P) + ucast (of_nat (plen k) :: u8) :: u64) = length P + plen k"
    "unat (bb_len (cb_base s) - (of_nat (length P) + ucast (of_nat (plen k) :: u8))) = length b"
proof -
  note t = assms [unfolded top_at_def]
  show k: "1 \<le> plen k" "plen k \<le> 3" using t by (cases k; auto)+
  show l: "unat (bb_len (cb_base s)) = length P + plen k + length b"
    using base_ok_facts(4) [of "cb_base s"] t by simp
  show b: "length P + plen k + length b + 8 < 2 ^ 63"
    using base_ok_facts(2,3) [of "cb_base s"] t l by simp
  show o: "unat (of_nat (length P) :: u64) = length P" using b by simp
  show p8: "unat (of_nat (plen k) :: u8) = plen k" using k by simp
  show st: "unat (of_nat (length P) + ucast (of_nat (plen k) :: u8) :: u64) = length P + plen k"
    using o p8 b by (subst unat_add_no_overflow) (simp_all add: unat_ucast_up)
  show "unat (bb_len (cb_base s) - (of_nat (length P) + ucast (of_nat (plen k) :: u8))) = length b"
  proof -
    have "of_nat (length P) + ucast (of_nat (plen k) :: u8) \<le> bb_len (cb_base s)"
      unfolding word_le_nat_alt st l by simp
    from unat_sub_le [OF this] show ?thesis unfolding st l by simp
  qed
qed

definition closed_at :: "bool \<Rightarrow> cbb \<Rightarrow> cbb \<Rightarrow> nat \<Rightarrow> u8 list \<Rightarrow> seg_kind \<Rightarrow> u8 list \<Rightarrow> bool" where
  "closed_at res s s' d P k b \<longleftrightarrow>
     (if res then base_ok (cb_base s') \<and> \<not> bb_error (cb_base s') \<and> cb_chain s' = take d (cb_chain s) \<and>
        bb_contents (cb_base s') = P @ seal k b \<and> fits k (length b) \<and>
        bb_cap (cb_base s) \<le> bb_cap (cb_base s')
      else bb_error (cb_base s') \<and>
        (\<not> fits k (length b) \<or> unat (bb_cap (cb_base s)) < length (P @ seal k b)))"

lemma close_fixed:
  assumes t: "top_at s d P (Fixed n) b"
    and r: "flush_store d s len = (res, s')" and len: "unat len = length b"
  shows "closed_at res s s' d P (Fixed n) b"
proof -
  note f = top_at_facts [OF t]
  have "(res \<longleftrightarrow> drop_bit (8 * length (replicate n (0 :: u8))) len = 0) \<and>
    (if res then base_ok (cb_base s') \<and> \<not> bb_error (cb_base s') \<and> cb_chain s' = take d (cb_chain s) \<and>
       bb_contents (cb_base s') = P @ be_bytes (length (replicate n (0 :: u8))) (unat len) @ b
     else bb_error (cb_base s')) \<and> bb_cap (cb_base s') = bb_cap (cb_base s)"
    by (rule flush_store_spec [OF _ _ _ _ _ r]) (use t f in \<open>simp_all add: top_at_def\<close>)
  then show ?thesis by (auto simp: closed_at_def len drop_bit_zero_iff split: if_splits)
qed

text \<open>Making room for long-form length octets: the contents move up by \<open>extra\<close> bytes.\<close>

lemma make_room:
  assumes m: "malloc_ok malloc" and t: "top_at s d P Element b" and e: "extra \<le> 4"
    and r: "cbb_buffer_add malloc (cb_base s) (of_nat extra) = (Some off, base)"
  shows "bb_cap (cb_base s) \<le> bb_cap base \<and> length b + length P + 1 + extra < 2 ^ 63 \<and>
    (\<exists>junk. length junk = extra \<and>
      (let base' = base\<lparr>bb_buf := put_bytes (bb_buf base) (of_nat (length P + 1 + extra))
             (take (length b) (drop (length P + 1) (bytes_of (bb_buf base))))\<rparr>
       in base_ok base' \<and> \<not> bb_error base' \<and> bb_contents base' = P @ [0] @ junk @ b))"
proof -
  note f = top_at_facts [OF t]
  have c: "bb_contents (cb_base s) = P @ [0] @ b" "base_ok (cb_base s)" "\<not> bb_error (cb_base s)"
    using t by (simp_all add: top_at_def)
  have u: "unat (of_nat extra :: u64) = extra" using e by simp
  have "unat (of_nat extra :: u64) < 2 ^ 63" using e u by simp
  from cbb_buffer_add_spec [OF m c(2) this r] obtain junk where
    b: "base_ok base" "\<not> bb_error base" "bb_cap (cb_base s) \<le> bb_cap base" "unat (bb_len base) = length P + 1 + length b + extra"
    and j: "length junk = extra" "bb_contents base = P @ [0] @ b @ junk"
    using c u by auto
  have sz: "length b + length P + 1 + extra < 2 ^ 63"
    using base_ok_facts(2,3) [OF b(1)] b(4) by simp
  have src: "take (length b) (drop (length P + 1) (bytes_of (bb_buf base))) = b"
  proof -
    have "bytes_of (bb_buf base) = bb_contents base @ drop (unat (bb_len base)) (bytes_of (bb_buf base))"
      by (simp add: bb_contents_def)
    then have "bytes_of (bb_buf base) = (P @ [0]) @ b @ junk @ drop (unat (bb_len base)) (bytes_of (bb_buf base))"
      using j(2) by (metis append.assoc)
    then have "drop (length (P @ [0 :: u8])) (bytes_of (bb_buf base)) =
        b @ junk @ drop (unat (bb_len base)) (bytes_of (bb_buf base))"
      by (metis append_eq_conv_conj)
    then show ?thesis by simp
  qed
  have off: "unat (of_nat (length P + 1 + extra) :: u64) = length (P @ [0] @ take extra (b @ junk))"
    using sz j(1) by (subst unat_of_nat_small) simp_all
  have split: "bb_contents base = (P @ [0] @ take extra (b @ junk)) @ drop extra (b @ junk) @ []"
    using j(2) by (simp del: take_append drop_append)
  have l: "length b = length (drop extra (b @ junk))" using j(1) by simp
  note p = put_contents [OF b(1) split off l]
  show ?thesis
    unfolding src Let_def using p b(1-3) sz j(1)
    by (intro conjI exI [of _ "take extra (b @ junk)"]) simp_all
qed

lemma close_element:
  assumes m: "malloc_ok malloc" and t: "top_at s d P Element b" and len: "unat len = length b"
    and start: "child_start = of_nat (length P) + 1"
    and r: "flush_asn1 malloc d s child_start len = (res, s')"
  shows "closed_at res s s' d P Element b"
proof -
  note f = top_at_facts [OF t]
  let ?ch = "cb_chain s ! d"
  have ch: "ch_offset ?ch = of_nat (length P)" "d < length (cb_chain s)" using t by (simp_all add: top_at_def)
  have c: "bb_contents (cb_base s) = P @ [0] @ b" "base_ok (cb_base s)" "\<not> bb_error (cb_base s)"
    using t by (simp_all add: top_at_def)
  consider "length b > 0xfffffffe" | "length b < 128" | "128 \<le> length b" "length b \<le> 0xfffffffe" by linarith
  then show ?thesis
  proof cases
    case 1
    then show ?thesis using r len
      by (auto simp: flush_asn1_def asn1_length_form_spec cbb_fail_def set_base_def closed_at_def)
  next
    case 2
    let ?base = "(cb_base s)\<lparr>bb_buf := put_bytes (bb_buf (cb_base s)) (of_nat (length P)) [of_nat (length b)]\<rparr>"
    let ?s = "(set_base s ?base)\<lparr>cb_chain := (cb_chain s)
      [d := ?ch\<lparr>ch_offset := ch_offset ?ch + 1, ch_pending_len_len := 1 - 1\<rparr>]\<rparr>"
    have r': "flush_store d ?s 0 = (res, s')"
      using r 2 len ch by (simp add: flush_asn1_def asn1_length_form_spec set_base_def)
    have p: "base_ok ?base" "bb_contents ?base = P @ [of_nat (length b)] @ b"
      using put_contents [OF c(2,1) f(5), of "[of_nat (length b)]"] by simp_all
    have "unat (of_nat (length P) + 1 :: u64) = length P + 1"
      using f(4,5) by (subst unat_add_no_overflow) simp_all
    then have "(res \<longleftrightarrow> drop_bit (8 * length ([] :: u8 list)) (0 :: u64) = 0) \<and>
      (if res then base_ok (cb_base s') \<and> \<not> bb_error (cb_base s') \<and> cb_chain s' = take d (cb_chain ?s) \<and>
         bb_contents (cb_base s') = (P @ [of_nat (length b)]) @ be_bytes (length ([] :: u8 list)) (unat (0 :: u64)) @ b
       else bb_error (cb_base s')) \<and> bb_cap (cb_base s') = bb_cap (cb_base ?s)"
      by (intro flush_store_spec [OF _ _ _ _ _ r']) (use p c(3) ch in \<open>simp_all add: set_base_def\<close>)
    then show ?thesis using 2 by (simp add: closed_at_def der_len_def set_base_def)
  next
    case 3
    define k where "k = len_octets (length b)"
    have k: "1 \<le> k" "k \<le> 4" "length b < 256 ^ k"
      using len_octets_bounds [of "length b"] 3 by (auto simp: k_def)
    have lf: "asn1_length_form len = Some (of_nat (k + 1), 0x80 OR of_nat k, len)"
      using 3 len by (simp add: asn1_length_form_spec k_def)
    have "unat (of_nat (k + 1) :: u8) = k + 1" using k by (intro unat_of_nat_small) simp
    then have k8: "unat (of_nat k :: u8) = k" "(of_nat (k + 1) :: u8) - 1 = of_nat k" "(of_nat (k + 1) :: u8) \<noteq> 1"
      using k(1,2) by (auto simp: word_unat_eq_iff unat_of_nat_u8)
    have k64: "(ucast (of_nat k :: u8) :: u64) = of_nat k"
      using k(2) k8(1) by (simp add: word_unat_eq_iff unat_ucast_up)
    have seal: "seal Element b = (0x80 OR of_nat k) # be_bytes k (length b) @ b"
      using 3 by (simp add: der_len_def k_def)
    have cs: "child_start + of_nat k = of_nat (length P + 1 + k)" "unat child_start = length P + 1"
      using f(4,5) k(2) unfolding start by (simp_all, subst unat_add_no_overflow, simp_all)
    show ?thesis
    proof (cases "cbb_buffer_add malloc (cb_base s) (of_nat k)")
      case (Pair o1 base)
      show ?thesis
      proof (cases o1)
        case None
        have "unat (of_nat k :: u64) < 2 ^ 63" using k by simp
        from cbb_buffer_add_spec [OF m c(2) this Pair] None c(1) k seal
        have "unat (bb_cap (cb_base s)) < length (P @ seal Element b)" "base = (cb_base s)\<lparr>bb_error := True\<rparr>"
          by simp_all
        moreover have "res = False" "bb_error (cb_base s')"
          using r lf k8 k64 Pair None by (auto simp: flush_asn1_def cbb_fail_def set_base_def)
        ultimately show ?thesis by (simp add: closed_at_def)
      next
        case (Some off)
        let ?b1 = "base\<lparr>bb_buf := put_bytes (bb_buf base) (of_nat (length P + 1 + k))
             (take (length b) (drop (length P + 1) (bytes_of (bb_buf base))))\<rparr>"
        from make_room [OF m t k(2)] Pair Some obtain junk where
          j: "length junk = k" "base_ok ?b1" "\<not> bb_error ?b1" "bb_contents ?b1 = P @ [0] @ junk @ b"
          and sz: "bb_cap (cb_base s) \<le> bb_cap base" "length b + length P + 1 + k < 2 ^ 63"
          unfolding Let_def by blast
        let ?b2 = "?b1\<lparr>bb_buf := put_bytes (bb_buf ?b1) (of_nat (length P)) [0x80 OR of_nat k]\<rparr>"
        have p: "base_ok ?b2" "bb_contents ?b2 = (P @ [0x80 OR of_nat k]) @ junk @ b" "\<not> bb_error ?b2"
          using put_contents [OF j(2,4) f(5), of "[0x80 OR of_nat k]"] j(3) by simp_all
        let ?s = "(set_base s ?b2)\<lparr>cb_chain := (cb_chain s)
          [d := ?ch\<lparr>ch_offset := ch_offset ?ch + 1, ch_pending_len_len := of_nat k\<rparr>]\<rparr>"
        have r': "flush_store d ?s len = (res, s')"
          using r lf k8(2,3) k64 Pair Some cs ch len by (simp add: flush_asn1_def set_base_def add.assoc)
        have "unat (of_nat (length P) + 1 :: u64) = length P + 1"
          using f(4,5) by (subst unat_add_no_overflow) simp_all
        then have "(res \<longleftrightarrow> drop_bit (8 * length junk) len = 0) \<and>
          (if res then base_ok (cb_base s') \<and> \<not> bb_error (cb_base s') \<and> cb_chain s' = take d (cb_chain ?s) \<and>
             bb_contents (cb_base s') = (P @ [0x80 OR of_nat k]) @ be_bytes (length junk) (unat len) @ b
           else bb_error (cb_base s')) \<and> bb_cap (cb_base s') = bb_cap (cb_base ?s)"
          by (intro flush_store_spec [OF _ _ _ _ _ r']) (use p ch k8(1) j(1) in \<open>simp_all add: set_base_def\<close>)
        then show ?thesis using 3 k(3) j(1) len seal sz(1)
          by (auto simp: closed_at_def drop_bit_zero_iff set_base_def)
      qed
    qed
  qed
qed

section \<open>Flushing refines closing\<close>

lemma chain_nth:
  assumes "represents s fs" "Suc d < length fs"
  shows "cb_chain s ! d = \<lparr>ch_offset = of_nat (length (layout (take (Suc d) fs))),
    ch_pending_len_len = of_nat (plen (fst (fs ! Suc d))), ch_pending_is_asn1 = (fst (fs ! Suc d) = Element)\<rparr>"
proof -
  obtain k b where kb: "fs ! Suc d = (k, b)" by (cases "fs ! Suc d")
  have "fs = take (Suc d) fs @ (k, b) # drop (Suc (Suc d)) fs"
    using assms(2) kb by (metis id_take_nth_drop)
  then have "chain_of 0 fs = chain_of 0 (take (Suc d) fs) @
      chain_of (length (layout (take (Suc d) fs))) ((k, b) # drop (Suc (Suc d)) fs)"
    using chain_of_append [of 0 "take (Suc d) fs" "(k, b) # drop (Suc (Suc d)) fs"] by simp
  then have "chain_of 0 fs ! Suc d =
      chain_of (length (layout (take (Suc d) fs))) ((k, b) # drop (Suc (Suc d)) fs) ! 0"
    using assms(2) by (simp add: nth_append)
  moreover have "cb_chain s ! d = chain_of 0 fs ! Suc d"
    using assms by (simp add: represents_def nth_tl)
  ultimately show ?thesis using kb by simp
qed

lemma kinds_ok_nth:
  "kinds_ok fs \<Longrightarrow> Suc d < length fs \<Longrightarrow>
   fst (fs ! Suc d) \<noteq> Root \<and> (\<forall>n. fst (fs ! Suc d) = Fixed n \<longrightarrow> 1 \<le> n \<and> n \<le> 3)"
proof -
  assume k: "kinds_ok fs" and d: "Suc d < length fs"
  have "fs ! Suc d = tl fs ! d" using d by (simp add: nth_tl)
  moreover have "tl fs ! d \<in> set (tl fs)" using d by simp
  ultimately have "fs ! Suc d \<in> set (tl fs)" by simp
  then show ?thesis using k by (fastforce simp: kinds_ok_def)
qed

lemma represents_top_at:
  assumes "represents s fs" "length fs = Suc (Suc d)"
  shows "top_at s d (layout (take (Suc d) fs)) (fst (fs ! Suc d)) (snd (fs ! Suc d))"
proof -
  have "fs = take (Suc d) fs @ [fs ! Suc d]"
    using assms(2) by (metis lessI take_Suc_conv_app_nth take_all order_refl)
  then have "layout fs = layout (take (Suc d) fs) @ layout [fs ! Suc d]" by (metis layout_append)
  then show ?thesis
    using assms chain_nth [OF assms(1), of d] kinds_ok_nth [of fs d] represents_length [OF assms(1)]
    by (cases "fs ! Suc d") (auto simp: top_at_def represents_def)
qed

lemma spec_flush_kinds: "kinds_ok fs \<Longrightarrow> d < length fs \<Longrightarrow> kinds_ok (spec_flush d fs)"
proof -
  assume k: "kinds_ok fs" and d: "d < length fs"
  show ?thesis
  proof (cases d)
    case 0
    then show ?thesis using k d by (cases fs) (auto simp: kinds_ok_def spec_flush_def)
  next
    case (Suc e)
    have "set (tl (take d fs)) \<subseteq> set (tl fs)" by (simp add: tl_take set_take_subset)
    then show ?thesis
      using k kinds_ok_nth [of fs e] d Suc
      by (cases fs) (fastforce simp: kinds_ok_def spec_flush_def)+
  qed
qed

lemma chain_prefix:
  assumes "d < length fs"
  shows "chain_of off (take d fs @ [(fst (fs ! d), x)]) = take (Suc d) (chain_of off fs)"
proof -
  obtain k b where kb: "fs ! d = (k, b)" by (cases "fs ! d")
  have "fs = take d fs @ (k, b) # drop (Suc d) fs" using assms kb by (metis id_take_nth_drop)
  then have "chain_of off fs = chain_of off (take d fs @ (k, b) # drop (Suc d) fs)" by simp
  then show ?thesis using assms kb by (simp add: chain_of_append)
qed

lemma length_seal: "fits k (length b) \<Longrightarrow> plen k + length b \<le> length (seal k b)"
  by (cases k) (auto simp: der_len_def)

lemma layout_spec_flush:
  assumes "Suc d < length fs"
  shows "layout (spec_flush d fs) = layout (take (Suc d) fs) @ collapse (drop (Suc d) fs)"
proof -
  have "d < length fs" using assms by simp
  then have "take (Suc d) fs = take d fs @ [fs ! d]" by (rule take_Suc_conv_app_nth)
  then show ?thesis by (cases "fs ! d") (simp add: spec_flush_def layout_append)
qed

lemma CBB_flush_step:
  assumes "represents s fs" "Suc d < length fs" "CBB_flush malloc (Suc d) s = (r1, s1)"
  shows "CBB_flush malloc d s =
    (let child = cb_chain s ! d;
         start = ch_offset child + ucast (ch_pending_len_len child)
     in if \<not> r1 \<or> start < ch_offset child \<or> bb_len (cb_base s1) < start then cbb_fail s1
        else if ch_pending_is_asn1 child then flush_asn1 malloc d s1 start (bb_len (cb_base s1) - start)
        else flush_store d s1 (bb_len (cb_base s1) - start))"
proof -
  have k: "fst (fs ! Suc d) \<noteq> Root \<and> (\<forall>n. fst (fs ! Suc d) = Fixed n \<longrightarrow> 1 \<le> n \<and> n \<le> 3)"
    using assms(1,2) kinds_ok_nth [of fs d] by (simp add: represents_def)
  have "plen (fst (fs ! Suc d)) \<le> 3 \<and> 1 \<le> plen (fst (fs ! Suc d))"
    using k by (cases "fst (fs ! Suc d)") auto
  then have "(of_nat (plen (fst (fs ! Suc d))) :: u8) \<noteq> 0"
    by (auto simp: word_unat_eq_iff unat_of_nat_u8)
  then show ?thesis
    using assms represents_length [OF assms(1)] chain_nth [OF assms(1,2)]
    by (subst CBB_flush.simps) (auto simp: represents_def Let_def)
qed

theorem flush_refines:
  assumes m: "malloc_ok malloc" and R: "represents s fs"
  shows "d < length fs \<Longrightarrow> CBB_flush malloc d s = (res, s') \<Longrightarrow>
    (if res then represents s' (spec_flush d fs) \<and> collapse_ok (drop (Suc d) fs) \<and>
       bb_cap (cb_base s) \<le> bb_cap (cb_base s')
     else bb_error (cb_base s') \<and>
       (\<not> collapse_ok (drop (Suc d) fs) \<or> unat (bb_cap (cb_base s)) < length (layout (spec_flush d fs))))"
proof (induction "length fs - Suc d" arbitrary: d res s')
  case 0
  then have d: "d = length fs - 1" "Suc d = length fs" by simp_all
  then have "fs = take d fs @ [fs ! d]" by (metis lessI take_Suc_conv_app_nth take_all order_refl)
  then have "spec_flush d fs = fs" using d by (cases "fs ! d") (simp add: spec_flush_def)
  moreover have "CBB_flush malloc d s = (True, s)"
    using d R represents_length [OF R] by (subst CBB_flush.simps) (auto simp: represents_def)
  ultimately show ?case using 0 d R by simp
next
  case (Suc n)
  then have d: "Suc d < length fs" by simp
  obtain r1 s1 where r1: "CBB_flush malloc (Suc d) s = (r1, s1)" by (cases "CBB_flush malloc (Suc d) s")
  have n: "n = length fs - Suc (Suc d)" using Suc(2) by simp
  note IH = Suc(1) [OF n d r1]
  obtain k b where kb: "fs ! Suc d = (k, b)" by (cases "fs ! Suc d")
  define b1 where "b1 = b @ collapse (drop (Suc (Suc d)) fs)"
  define P where "P = layout (take (Suc d) fs)"
  have dr: "drop (Suc d) fs = (k, b) # drop (Suc (Suc d)) fs" using d kb by (metis Cons_nth_drop_Suc)
  have col: "collapse (drop (Suc d) fs) = seal k b1" by (simp add: dr b1_def)
  have cok: "collapse_ok (drop (Suc d) fs) \<longleftrightarrow> collapse_ok (drop (Suc (Suc d)) fs) \<and> fits k (length b1)"
    by (simp add: dr b1_def)
  have lay: "layout (spec_flush d fs) = P @ seal k b1"
    "layout (spec_flush (Suc d) fs) = P @ replicate (plen k) 0 @ b1"
    using layout_spec_flush [OF d] col by (simp_all add: P_def spec_flush_def layout_append kb b1_def)
  note step = CBB_flush_step [OF R d r1, unfolded Let_def]
  show ?case
  proof (cases r1)
    case False
    then have "res = False" "bb_error (cb_base s')"
      using Suc.prems(2) step by (auto simp: cbb_fail_def set_base_def)
    then show ?thesis using IH False cok lay length_seal [of k b1] by auto
  next
    case True
    with IH have R1: "represents s1 (spec_flush (Suc d) fs)" and ok1: "collapse_ok (drop (Suc (Suc d)) fs)"
      and cap: "bb_cap (cb_base s) \<le> bb_cap (cb_base s1)" by simp_all
    have l1: "length (spec_flush (Suc d) fs) = Suc (Suc d)" using d by (simp add: spec_flush_def)
    have t: "top_at s1 d P k b1"
      using represents_top_at [OF R1 l1] d by (simp add: spec_flush_def nth_append kb b1_def P_def min_def)
    note f = top_at_facts [OF t]
    have ch: "cb_chain s ! d = \<lparr>ch_offset = of_nat (length P), ch_pending_len_len = of_nat (plen k),
        ch_pending_is_asn1 = (k = Element)\<rparr>"
      using chain_nth [OF R d] by (simp add: kb P_def)
    let ?start = "of_nat (length P) + ucast (of_nat (plen k) :: u8) :: u64"
    have chk: "\<not> ?start < of_nat (length P)" "\<not> bb_len (cb_base s1) < ?start"
      unfolding word_less_nat_alt f by simp_all
    have eq: "(res, s') = (if k = Element then flush_asn1 malloc d s1 ?start (bb_len (cb_base s1) - ?start)
        else flush_store d s1 (bb_len (cb_base s1) - ?start))"
      using step Suc.prems(2) True ch chk by simp
    have cl: "closed_at res s1 s' d P k b1"
    proof (cases "k = Element")
      case True
      have start: "?start = of_nat (length P) + 1" by (simp add: True)
      show ?thesis
        using close_element [OF m t [unfolded True] f(8) [unfolded True], of ?start res s'] eq True start by simp
    next
      case False
      then obtain j where j: "k = Fixed j" using t by (cases k) (simp_all add: top_at_def)
      show ?thesis using close_fixed [OF t [unfolded j] _ f(8) [unfolded j]] eq False by (simp add: j)
    qed
    show ?thesis
    proof (cases res)
      case False
      then show ?thesis using cl lay cok cap by (auto simp: closed_at_def word_le_nat_alt)
    next
      case True
      have "cb_chain s' = take d (tl (chain_of 0 (spec_flush (Suc d) fs)))"
        using cl True R1 by (simp add: closed_at_def represents_def)
      also have "\<dots> = tl (take (Suc d) (chain_of 0 fs))"
        unfolding spec_flush_def chain_prefix [OF d, of 0] by (cases "chain_of 0 fs") (simp_all add: min_def)
      also have "\<dots> = tl (chain_of 0 (spec_flush d fs))"
        using chain_prefix [of d fs 0] d by (simp add: spec_flush_def)
      finally have "represents s' (spec_flush d fs)"
        using cl True lay spec_flush_kinds [of fs d] d R by (simp add: closed_at_def represents_def)
      then show ?thesis using cl True cok ok1 cap by (auto simp: closed_at_def)
    qed
  qed
qed

end
