(* ===== verification/CLib.thy ===== *)
theory CLib
  imports Prelude "HOL-Library.Multiset"
begin

text \<open>
  \<open>memcmp\<close>, \<open>qsort\<close> and \<open>bsearch\<close> of the C library as the components use them. The standard fixes the result
  of \<open>qsort\<close> only up to the order of elements that compare as equal, and that of \<open>bsearch\<close> only up
  to the choice among them: the locale \<open>array_search\<close> states exactly this much for a comparison
  function, and a search in a sorted array is proved correct from it. \<open>qsort\<close> and \<open>bsearch\<close> below
  are the functions that compute such results.
\<close>

section \<open>The functions\<close>

fun qsort_insert :: "('a \<Rightarrow> 'a \<Rightarrow> int) \<Rightarrow> 'a \<Rightarrow> 'a list \<Rightarrow> 'a list" where
  "qsort_insert cmp x [] = [x]"
| "qsort_insert cmp x (y # ys) = (if cmp x y \<le> 0 then x # y # ys else y # qsort_insert cmp x ys)"

definition qsort :: "('a \<Rightarrow> 'a \<Rightarrow> int) \<Rightarrow> 'a list \<Rightarrow> 'a list" where
  "qsort cmp xs = foldr (qsort_insert cmp) xs []"

text \<open>The interval \<open>l \<le> i < u\<close> is halved until it is empty or its middle matches.\<close>

function bsearch_loop :: "('a \<Rightarrow> 'a \<Rightarrow> int) \<Rightarrow> 'a \<Rightarrow> 'a list \<Rightarrow> nat \<Rightarrow> nat \<Rightarrow> nat option" where
  "bsearch_loop cmp key xs l u =
     (if l < u then
        (let idx = (l + u) div 2;
             comparison = cmp key (xs ! idx)
         in if comparison < 0 then bsearch_loop cmp key xs l idx
            else if comparison > 0 then bsearch_loop cmp key xs (idx + 1) u
            else Some idx)
      else None)"
  by pat_completeness auto
termination by (relation "measure (\<lambda>(cmp, key, xs, l, u). u - l)") auto

declare bsearch_loop.simps [simp del]

definition bsearch :: "('a \<Rightarrow> 'a \<Rightarrow> int) \<Rightarrow> 'a \<Rightarrow> 'a list \<Rightarrow> nat option" where
  "bsearch cmp key xs = bsearch_loop cmp key xs 0 (length xs)"

section \<open>Memory\<close>

text \<open>\<open>memcmp\<close> of the C library on the first \<open>n\<close> bytes: the sign of the first difference.\<close>

fun c_memcmp :: "u8 list \<Rightarrow> u8 list \<Rightarrow> nat \<Rightarrow> int" where
  "c_memcmp (a # as) (b # bs) (Suc n) = (if a < b then - 1 else if a > b then 1 else c_memcmp as bs n)"
| "c_memcmp _ _ _ = 0"

lemma c_memcmp_0: "length a = length b \<Longrightarrow> c_memcmp a b (length a) = 0 \<longleftrightarrow> a = b"
  by (induction a b rule: list_induct2) auto

section \<open>Comparison functions\<close>

definition ascending :: "('a \<Rightarrow> 'a \<Rightarrow> int) \<Rightarrow> 'a list \<Rightarrow> bool" where
  "ascending cmp xs \<longleftrightarrow> sorted_wrt (\<lambda>x y. cmp x y \<le> 0) xs"

locale comparison =
  fixes cmp :: "'a \<Rightarrow> 'a \<Rightarrow> int"
  assumes swap: "cmp x y < 0 \<longleftrightarrow> 0 < cmp y x"
    and le_trans: "cmp x y \<le> 0 \<Longrightarrow> cmp y z \<le> 0 \<Longrightarrow> cmp x z \<le> 0"
begin

lemma refl0: "cmp x x = 0"
  using swap [of x x] by linarith

lemma le_or_ge: "cmp x y \<le> 0 \<or> cmp y x \<le> 0"
  using swap [of x y] by linarith

lemma zero_sym: "cmp x y = 0 \<longleftrightarrow> cmp y x = 0"
  using swap [of x y] swap [of y x] by linarith

lemma pos_le: "0 < cmp x y \<Longrightarrow> cmp y x \<le> 0"
  using swap [of y x] by linarith

lemma less_le_trans_cmp: "cmp x y < 0 \<Longrightarrow> cmp y z \<le> 0 \<Longrightarrow> cmp x z < 0"
  using le_trans [of y z x] swap [of x z] swap [of x y] by linarith

lemma mset_qsort_insert: "mset (qsort_insert cmp x ys) = add_mset x (mset ys)"
  by (induction ys) simp_all

lemma mset_qsort: "mset (qsort cmp xs) = mset xs"
  unfolding qsort_def by (induction xs) (simp_all add: mset_qsort_insert)

lemma qsort_insert_ascending: "ascending cmp ys \<Longrightarrow> ascending cmp (qsort_insert cmp x ys)"
proof (induction ys)
  case (Cons y ys)
  have s: "set (qsort_insert cmp x ys) = insert x (set ys)"
    using mset_qsort_insert [of x ys] by (metis set_mset_mset set_mset_add_mset_insert)
  show ?case
  proof (cases "cmp x y \<le> 0")
    case True
    then show ?thesis using Cons.prems le_trans by (auto simp: ascending_def)
  next
    case False
    then show ?thesis using Cons s pos_le [of x y] by (auto simp: ascending_def)
  qed
qed (simp add: ascending_def)

lemma qsort_ascending: "ascending cmp (qsort cmp xs)"
  unfolding qsort_def by (induction xs) (simp_all add: qsort_insert_ascending, simp add: ascending_def)

lemma bsearch_loop_Some:
  "bsearch_loop cmp key xs l u = Some i \<Longrightarrow> u \<le> length xs \<Longrightarrow> i < length xs \<and> cmp key (xs ! i) = 0"
proof (induction cmp key xs l u rule: bsearch_loop.induct)
  case (1 cmp key xs l u)
  define m where "m = (l + u) div 2"
  have "l < u" using "1.prems"(1) by (simp add: bsearch_loop.simps split: if_splits)
  then have m: "m < u" "m + 1 \<le> u" by (simp_all add: m_def)
  note eq = "1.prems"(1) [unfolded bsearch_loop.simps [of _ _ _ l u] Let_def, folded m_def]
  note ih = "1.IH" [OF \<open>l < u\<close> refl refl, folded m_def]
  consider "cmp key (xs ! m) < 0" | "cmp key (xs ! m) > 0" | "cmp key (xs ! m) = 0" by linarith
  then show ?case
  proof cases
    case 1
    then show ?thesis using eq ih(1) \<open>l < u\<close> m "1.prems"(2) by simp
  next
    case 2
    then show ?thesis using eq ih(2) \<open>l < u\<close> "1.prems"(2) by simp
  next
    case 3
    then have "i = m" using eq \<open>l < u\<close> by simp
    then show ?thesis using 3 m "1.prems"(2) by simp
  qed
qed

lemma ascending_nth: "ascending cmp xs \<Longrightarrow> i \<le> j \<Longrightarrow> j < length xs \<Longrightarrow> cmp (xs ! i) (xs ! j) \<le> 0"
  using sorted_wrt_nth_less [of "\<lambda>x y. cmp x y \<le> 0" xs i j]
  by (cases "i = j") (simp_all add: refl0 ascending_def)

lemma match_right:
  "ascending cmp xs \<Longrightarrow> cmp key (xs ! m) > 0 \<Longrightarrow> i < length xs \<Longrightarrow> m < length xs \<Longrightarrow> cmp key (xs ! i) = 0 \<Longrightarrow> m < i"
  using ascending_nth [of xs i m] le_trans [of key "xs ! i" "xs ! m"] by (cases "m < i") auto

lemma match_left:
  "ascending cmp xs \<Longrightarrow> cmp key (xs ! m) < 0 \<Longrightarrow> i < length xs \<Longrightarrow> m < length xs \<Longrightarrow> cmp key (xs ! i) = 0 \<Longrightarrow> i < m"
  using ascending_nth [of xs m i] less_le_trans_cmp [of key "xs ! m" "xs ! i"] by (cases "i < m") auto

lemma bsearch_loop_finds:
  "ascending cmp xs \<Longrightarrow> l \<le> i \<Longrightarrow> i < u \<Longrightarrow> u \<le> length xs \<Longrightarrow> cmp key (xs ! i) = 0 \<Longrightarrow>
   bsearch_loop cmp key xs l u \<noteq> None"
proof (induction "u - l" arbitrary: l u rule: less_induct)
  case less
  define m where "m = (l + u) div 2"
  have "l < u" using less.prems by simp
  then have m: "l \<le> m" "m < u" by (simp_all add: m_def)
  note eq = bsearch_loop.simps [of cmp key xs l u, unfolded Let_def, folded m_def]
  consider "cmp key (xs ! m) < 0" | "cmp key (xs ! m) > 0" | "cmp key (xs ! m) = 0" by linarith
  then show ?case
  proof cases
    case 1
    then have "i < m" using match_left [of xs key m i] less.prems m by simp
    then have "bsearch_loop cmp key xs l m \<noteq> None" using less.hyps [of m l] less.prems m by simp
    then show ?thesis using 1 \<open>l < u\<close> by (simp add: eq)
  next
    case 2
    then have "m < i" using match_right [of xs key m i] less.prems m by simp
    then have "bsearch_loop cmp key xs (m + 1) u \<noteq> None" using less.hyps [of u "m + 1"] less.prems m by simp
    then show ?thesis using 2 \<open>l < u\<close> by (simp add: eq)
  next
    case 3
    then show ?thesis using \<open>l < u\<close> by (simp add: eq)
  qed
qed

end

section \<open>The contract of the two functions\<close>

locale array_search = comparison cmp for cmp :: "'a \<Rightarrow> 'a \<Rightarrow> int" +
  fixes sort_array :: "'a list \<Rightarrow> 'a list"
    and search_array :: "'a \<Rightarrow> 'a list \<Rightarrow> nat option"
  assumes sort_mset: "mset (sort_array xs) = mset xs"
    and sort_ascending: "ascending cmp (sort_array xs)"
    and search_Some: "search_array key xs = Some i \<Longrightarrow> i < length xs \<and> cmp key (xs ! i) = 0"
    and search_None: "ascending cmp xs \<Longrightarrow> search_array key xs = None \<Longrightarrow>
      x \<in> set xs \<Longrightarrow> cmp key x \<noteq> 0"
begin

lemma sort_length [simp]: "length (sort_array xs) = length xs"
  using sort_mset [of xs] by (metis size_mset)

lemma sort_set [simp]: "set (sort_array xs) = set xs"
  using sort_mset [of xs] by (metis set_mset_mset)

end

sublocale comparison \<subseteq> library: array_search cmp "qsort cmp" "bsearch cmp"
proof (unfold_locales, goal_cases)
  case (1 xs)
  show ?case by (rule mset_qsort)
next
  case (2 xs)
  show ?case by (rule qsort_ascending)
next
  case (3 key xs i)
  then show ?case by (simp add: bsearch_def bsearch_loop_Some)
next
  case (4 xs key x)
  then obtain i where "i < length xs" "x = xs ! i" by (auto simp: in_set_conv_nth)
  then show ?case using bsearch_loop_finds [of xs 0 i "length xs" key] 4 by (auto simp: bsearch_def)
qed

context comparison
begin

lemma library_search: "array_search cmp (qsort cmp) (bsearch cmp)"
  by unfold_locales

end

end
