(* ===== verification/CbbAsn1.thy ===== *)
theory CbbAsn1
  imports Cbb CLib
begin

text \<open>
  The DER writers of \<open>cbb.c\<close>: tags, integers, octet strings, booleans, object identifiers in text
  form and the canonical order of a SET OF; and the reading of object identifiers as text, which is
  in \<open>cbs.c\<close>.
\<close>

unbundle bit_operations_syntax

section \<open>Tags\<close>

text \<open>The loop that counts the 7-bit groups of \<open>copy\<close>.\<close>

function base128_count :: "u64 \<Rightarrow> nat \<Rightarrow> nat" where
  "base128_count copy len_len =
     (if copy > 0 then base128_count (drop_bit 7 copy) (len_len + 1) else len_len)"
  by pat_completeness auto

termination
proof (relation "measure (\<lambda>(copy, l). unat copy)", goal_cases)
  case (2 copy len_len)
  then have "0 < unat copy" by (simp add: word_less_nat_alt)
  then show ?case by (simp add: unat_drop_bit)
qed simp

declare base128_count.simps [simp del]

text \<open>The loop over \<open>i = n - 1, ..., 0\<close>.\<close>

fun base128_out :: "malloc_fun \<Rightarrow> nat \<Rightarrow> cbb \<Rightarrow> u64 \<Rightarrow> nat \<Rightarrow> bool \<times> cbb" where
  "base128_out malloc d s v 0 = (True, s)"
| "base128_out malloc d s v (Suc i) =
     (let byte = ucast (drop_bit (7 * i) v) AND 0x7f;
          byte = (if i \<noteq> 0 then byte OR 0x80 else byte)
      in (case CBB_add_u8 malloc d s byte of
            (False, s) \<Rightarrow> (False, s)
          | (True, s) \<Rightarrow> base128_out malloc d s v i))"

definition add_base128_integer :: "malloc_fun \<Rightarrow> nat \<Rightarrow> cbb \<Rightarrow> u64 \<Rightarrow> bool \<times> cbb" where
  "add_base128_integer malloc d s v =
     (let len_len = base128_count v 0;
          len_len = (if len_len = 0 then 1 else len_len)
      in base128_out malloc d s v len_len)"

definition CBB_add_asn1 :: "malloc_fun \<Rightarrow> nat \<Rightarrow> cbb \<Rightarrow> u32 \<Rightarrow> bool \<times> cbb" where
  "CBB_add_asn1 malloc d s tag =
     (case CBB_flush malloc d s of
        (False, s) \<Rightarrow> (False, s)
      | (True, s) \<Rightarrow>
          let tag_bits = ucast (drop_bit CBS_ASN1_TAG_SHIFT tag) AND 0xe0;
              tag_number = tag AND CBS_ASN1_TAG_NUMBER_MASK;
              (ok, s) =
                (if tag_number \<ge> 0x1f then
                   (case CBB_add_u8 malloc d s (tag_bits OR 0x1f) of
                      (False, s) \<Rightarrow> (False, s)
                    | (True, s) \<Rightarrow> add_base128_integer malloc d s (ucast tag_number))
                 else CBB_add_u8 malloc d s (tag_bits OR ucast tag_number))
          in if \<not> ok then (False, s)
             else
               let offset = bb_len (cb_base s)
               in (case CBB_add_u8 malloc d s 0 of
                     (False, s) \<Rightarrow> (False, s)
                   | (True, s) \<Rightarrow>
                       (True, add_child d s
                          \<lparr>ch_offset = offset, ch_pending_len_len = 1, ch_pending_is_asn1 = True\<rparr>)))"

section \<open>Values\<close>

text \<open>The loop over the bytes of \<open>value\<close> from number \<open>i\<close> on, into the child at depth \<open>d\<close>.\<close>

fun uint64_out :: "malloc_fun \<Rightarrow> nat \<Rightarrow> cbb \<Rightarrow> u64 \<Rightarrow> bool \<Rightarrow> nat \<Rightarrow> bool \<times> bool \<times> cbb" where
  "uint64_out malloc d s value started 0 = (True, started, s)"
| "uint64_out malloc d s value started (Suc i) =
     (let byte = ucast (drop_bit (8 * i) value)
      in if \<not> started \<and> byte = 0 then uint64_out malloc d s value started i
         else
           let (ok, s) =
             (if \<not> started \<and> byte AND 0x80 \<noteq> 0 then CBB_add_u8 malloc d s 0 else (True, s))
           in if \<not> ok then (False, started, s)
              else
                (case CBB_add_u8 malloc d s byte of
                   (False, s) \<Rightarrow> (False, True, s)
                 | (True, s) \<Rightarrow> uint64_out malloc d s value True i))"

definition CBB_add_asn1_uint64 :: "malloc_fun \<Rightarrow> nat \<Rightarrow> cbb \<Rightarrow> u64 \<Rightarrow> bool \<times> cbb" where
  "CBB_add_asn1_uint64 malloc d s value =
     (case CBB_add_asn1 malloc d s CBS_ASN1_INTEGER of
        (False, s) \<Rightarrow> (False, s)
      | (True, s) \<Rightarrow>
          (case uint64_out malloc (d + 1) s value False 8 of
             (False, _, s) \<Rightarrow> (False, s)
           | (True, started, s) \<Rightarrow>
               (case (if \<not> started then CBB_add_u8 malloc (d + 1) s 0 else (True, s)) of
                  (False, s) \<Rightarrow> (False, s)
                | (True, s) \<Rightarrow> CBB_flush malloc d s)))"

definition CBB_add_asn1_octet_string :: "malloc_fun \<Rightarrow> nat \<Rightarrow> cbb \<Rightarrow> u8 list \<Rightarrow> u64 \<Rightarrow> bool \<times> cbb" where
  "CBB_add_asn1_octet_string malloc d s inp data_len =
     (case CBB_add_asn1 malloc d s CBS_ASN1_OCTETSTRING of
        (False, s) \<Rightarrow> (False, s)
      | (True, s) \<Rightarrow>
          (case CBB_add_bytes malloc (d + 1) s inp data_len of
             (False, s) \<Rightarrow> (False, s)
           | (True, s) \<Rightarrow> CBB_flush malloc d s))"

definition CBB_add_asn1_bool :: "malloc_fun \<Rightarrow> nat \<Rightarrow> cbb \<Rightarrow> int \<Rightarrow> bool \<times> cbb" where
  "CBB_add_asn1_bool malloc d s value =
     (case CBB_add_asn1 malloc d s CBS_ASN1_BOOLEAN of
        (False, s) \<Rightarrow> (False, s)
      | (True, s) \<Rightarrow>
          (case CBB_add_u8 malloc (d + 1) s (if value \<noteq> 0 then 0xff else 0) of
             (False, s) \<Rightarrow> (False, s)
           | (True, s) \<Rightarrow> CBB_flush malloc d s))"

section \<open>Object identifiers\<close>

text \<open>
  The loop of \<open>parse_dotted_decimal\<close>: the value, or \<open>None\<close> for the return value 0, and the rest of
  the text. The character of the terminating dot is consumed.
\<close>

abbreviation char_dot :: u8 where "char_dot \<equiv> 46"
abbreviation char_0 :: u8 where "char_0 \<equiv> 48"
abbreviation char_9 :: u8 where "char_9 \<equiv> 57"
abbreviation UINT64_MAX :: u64 where "UINT64_MAX \<equiv> 0xffffffffffffffff"

fun dotted_loop :: "u64 \<Rightarrow> bool \<Rightarrow> cbs \<Rightarrow> u64 cbs_result" where
  "dotted_loop out seen_digit [] = (if seen_digit then Some out else None, [])"
| "dotted_loop out seen_digit (u # c) =
     (if u = char_dot \<and> CBS_len c > 0 then (if seen_digit then Some out else None, c)
      else if u < char_0 \<or> u > char_9 \<or> seen_digit \<and> out = 0 \<or> out > UINT64_MAX div 10 \<or>
              out * 10 > UINT64_MAX - ucast (u - char_0)
           then (None, c)
           else dotted_loop (out * 10 + ucast (u - char_0)) True c)"

definition parse_dotted_decimal :: "cbs \<Rightarrow> u64 cbs_result" where
  "parse_dotted_decimal cbs = dotted_loop 0 False cbs"

lemma dotted_loop_consumes: "dotted_loop out seen cbs = (r, c) \<Longrightarrow> length c \<le> length cbs"
  by (induction out seen cbs rule: dotted_loop.induct) (auto split: if_splits)

lemma parse_dotted_decimal_consumes:
  "parse_dotted_decimal cbs = (r, c) \<Longrightarrow> cbs \<noteq> [] \<Longrightarrow> length c < length cbs"
  by (cases cbs) (auto simp: parse_dotted_decimal_def split: if_splits dest!: dotted_loop_consumes)

text \<open>The final loop; every iteration consumes at least one character.\<close>

function oid_rest :: "malloc_fun \<Rightarrow> nat \<Rightarrow> cbb \<Rightarrow> cbs \<Rightarrow> bool \<times> cbb" where
  "oid_rest malloc d s cbs =
     (if CBS_len cbs > 0 then
        (case parse_dotted_decimal cbs of
           (None, _) \<Rightarrow> (False, s)
         | (Some a, cbs) \<Rightarrow>
             (case add_base128_integer malloc d s a of
                (False, s) \<Rightarrow> (False, s)
              | (True, s) \<Rightarrow> oid_rest malloc d s cbs))
      else (True, s))"
  by pat_completeness auto

termination
  by (relation "measure (\<lambda>(malloc, d, s, cbs). length cbs)")
    (auto simp: CBS_len_def dest!: parse_dotted_decimal_consumes sym [of "(_, _)"] split: if_splits)

declare oid_rest.simps [simp del]

definition CBB_add_asn1_oid_from_text :: "malloc_fun \<Rightarrow> nat \<Rightarrow> cbb \<Rightarrow> u8 list \<Rightarrow> nat \<Rightarrow> bool \<times> cbb" where
  "CBB_add_asn1_oid_from_text malloc d s text_bytes len =
     (case CBB_flush malloc d s of
        (False, s) \<Rightarrow> (False, s)
      | (True, s) \<Rightarrow>
          let cbs = CBS_init text_bytes len
          in (case parse_dotted_decimal cbs of
                (None, _) \<Rightarrow> (False, s)
              | (Some a, cbs) \<Rightarrow>
             (case parse_dotted_decimal cbs of
                (None, _) \<Rightarrow> (False, s)
              | (Some b, cbs) \<Rightarrow>
                  if a > 2 \<or> a < 2 \<and> b > 39 \<or> b > UINT64_MAX - 80 then (False, s)
                  else (case add_base128_integer malloc d s (40 * a + b) of
                          (False, s) \<Rightarrow> (False, s)
                        | (True, s) \<Rightarrow> oid_rest malloc d s cbs))))"

text \<open>What \<open>snprintf\<close> prints for \<open>%llu\<close>.\<close>

fun decimal :: "nat \<Rightarrow> u8 list" where
  "decimal n = (if n < 10 then [48 + of_nat n] else decimal (n div 10) @ [48 + of_nat (n mod 10)])"

declare decimal.simps [simp del]

definition add_decimal :: "malloc_fun \<Rightarrow> nat \<Rightarrow> cbb \<Rightarrow> u64 \<Rightarrow> bool \<times> cbb" where
  "add_decimal malloc d out v =
     (let buf = decimal (unat v) in CBB_add_bytes malloc d out buf (of_nat (length buf)))"

lemma base128_loop_consumes: "base128_loop v cbs = (r, c) \<Longrightarrow> length c \<le> length cbs"
  by (induction v cbs rule: base128_loop.induct) (auto simp: Let_def split: if_splits)

lemma parse_base128_integer_consumes:
  "parse_base128_integer cbs = (r, c) \<Longrightarrow> cbs \<noteq> [] \<Longrightarrow> length c < length cbs"
  by (cases cbs) (auto simp: parse_base128_integer_def Let_def split: if_splits dest!: base128_loop_consumes)

function oid_text_rest :: "malloc_fun \<Rightarrow> cbb \<Rightarrow> cbs \<Rightarrow> bool \<times> cbb" where
  "oid_text_rest malloc s copy =
     (if CBS_len copy \<noteq> 0 then
        (case parse_base128_integer copy of
           (None, _) \<Rightarrow> (False, s)
         | (Some v, copy) \<Rightarrow>
             (case CBB_add_u8 malloc 0 s char_dot of
                (False, s) \<Rightarrow> (False, s)
              | (True, s) \<Rightarrow>
                  (case add_decimal malloc 0 s v of
                     (False, s) \<Rightarrow> (False, s)
                   | (True, s) \<Rightarrow> oid_text_rest malloc s copy)))
      else (True, s))"
  by pat_completeness auto

termination
  by (relation "measure (\<lambda>(malloc, s, copy). length copy)")
    (auto simp: CBS_len_def dest!: parse_base128_integer_consumes sym [of "(_, _)"] split: if_splits)

declare oid_text_rest.simps [simp del]

text \<open>The text with its terminating zero, or \<open>None\<close> for NULL.\<close>

definition CBS_asn1_oid_to_text :: "malloc_fun \<Rightarrow> bool \<Rightarrow> cbs \<Rightarrow> u8 list option" where
  "CBS_asn1_oid_to_text malloc base_alloc cbs =
     (case CBB_init malloc base_alloc 32 of
        None \<Rightarrow> None
      | Some s \<Rightarrow>
     (case parse_base128_integer cbs of
        (None, _) \<Rightarrow> None
      | (Some v, copy) \<Rightarrow>
     (case (if v \<ge> 80 then
              (case CBB_add_bytes malloc 0 s [50, char_dot] 2 of
                 (False, s) \<Rightarrow> (False, s)
               | (True, s) \<Rightarrow> add_decimal malloc 0 s (v - 80))
            else
              (case add_decimal malloc 0 s (v div 40) of
                 (False, s) \<Rightarrow> (False, s)
               | (True, s) \<Rightarrow>
                   (case CBB_add_u8 malloc 0 s char_dot of
                      (False, s) \<Rightarrow> (False, s)
                    | (True, s) \<Rightarrow> add_decimal malloc 0 s (v mod 40)))) of
        (False, _) \<Rightarrow> None
      | (True, s) \<Rightarrow>
     (case oid_text_rest malloc s copy of
        (False, _) \<Rightarrow> None
      | (True, s) \<Rightarrow>
     (case CBB_add_u8 malloc 0 s 0 of
        (False, _) \<Rightarrow> None
      | (True, s) \<Rightarrow>
     (case CBB_finish malloc 0 s True True of
        (None, _) \<Rightarrow> None
      | (Some (txt, txt_len), _) \<Rightarrow> Some (take (unat txt_len) (bytes_of txt))))))))"

section \<open>SET OF\<close>

definition compare_set_of_element :: "cbs \<Rightarrow> cbs \<Rightarrow> int" where
  "compare_set_of_element a b =
     (let a_len = length a;
          b_len = length b;
          min_len = (if a_len < b_len then a_len else b_len);
          ret = c_memcmp a b min_len
      in if ret \<noteq> 0 then ret
         else if a_len = b_len then 0
         else if a_len < b_len then - 1 else 1)"

text \<open>
  A pass over the elements: \<open>None\<close> when one does not parse. Each is at least two bytes long, so the
  caller's fuel of one more than the length never runs out.
\<close>

fun set_of_children :: "cbs \<Rightarrow> nat \<Rightarrow> cbs list option" where
  "set_of_children cbs 0 = None"
| "set_of_children cbs (Suc fuel) =
     (if CBS_len cbs \<noteq> 0 then
        (case CBS_get_any_asn1_element cbs of
           (None, _) \<Rightarrow> None
         | (Some (child, _, _), cbs) \<Rightarrow> map_option (\<lambda>cs. child # cs) (set_of_children cbs fuel))
      else Some [])"

fun add_all :: "malloc_fun \<Rightarrow> nat \<Rightarrow> cbb \<Rightarrow> cbs list \<Rightarrow> bool \<times> cbb" where
  "add_all malloc d s [] = (True, s)"
| "add_all malloc d s (c # cs) =
     (case CBB_add_bytes malloc d s c (of_nat (length c)) of
        (False, s) \<Rightarrow> (False, s)
      | (True, s) \<Rightarrow> add_all malloc d s cs)"

definition sizeof_CBS :: u64 where
  "sizeof_CBS = 16"

definition CBB_flush_asn1_set_of :: "malloc_fun \<Rightarrow> nat \<Rightarrow> cbb \<Rightarrow> bool \<times> cbb" where
  "CBB_flush_asn1_set_of malloc d s =
     (case CBB_flush malloc d s of
        (False, s) \<Rightarrow> (False, s)
      | (True, s) \<Rightarrow>
          let buf_len = CBB_len d s;
              contents = take (unat buf_len) (drop (unat (CBB_data d s)) (bytes_of (bb_buf (cb_base s))));
              cbs = CBS_init contents (unat buf_len)
          in (case set_of_children cbs (Suc (length cbs)) of
                None \<Rightarrow> (False, s)
              | Some children \<Rightarrow>
                  let num_children = of_nat (length children) :: u64
                  in if num_children < 2 then (True, s)
                     else if num_children > (0 - 1) div sizeof_CBS then (False, s)
                     else
                       (case (BUF_memdup malloc contents buf_len,
                              OPENSSL_malloc malloc (num_children * sizeof_CBS)) of
                          (Some buf, Some _) \<Rightarrow>
                            let cbs = CBS_init (data buf) (unat buf_len)
                            in (case set_of_children cbs (Suc (length cbs)) of
                                  None \<Rightarrow> (False, s)
                                | Some children \<Rightarrow>
                                    let children = qsort compare_set_of_element children;
                                        s = set_base s ((cb_base s)\<lparr>bb_len := cbb_start d s\<rparr>)
                                    in add_all malloc d s children)
                        | _ \<Rightarrow> (False, s))))"

end
