(* ===== verification/CbbOps.thy ===== *)
theory CbbOps
  imports CbbSpec CbbAsn1
begin

text \<open>
  Every operation of \<open>Cbb\<close> and \<open>CbbAsn1\<close> refines the abstract one on segments, so that what the
  writers produce is what the specifications of \<open>Der\<close> and \<open>DerValues\<close> say, and the readers of
  \<open>Cbs\<close> return the values written.
\<close>

unbundle bit_operations_syntax

section \<open>Reaching a stack of segments\<close>

text \<open>A call either succeeds in the state given or fails with the error flag set.\<close>

definition reaches :: "seg list \<Rightarrow> bool \<times> cbb \<Rightarrow> bool" where
  "reaches fs r \<longleftrightarrow> (if fst r then represents (snd r) fs else bb_error (cb_base (snd r)))"

lemma reaches_simps [simp]:
  "reaches fs (True, s) = represents s fs" "reaches fs (False, s) = bb_error (cb_base s)"
  by (simp_all add: reaches_def)

lemma reaches_bind:
  assumes "reaches fs r" "\<And>s. represents s fs \<Longrightarrow> reaches gs (f s)"
  shows "reaches gs (case r of (False, s) \<Rightarrow> (False, s) | (True, s) \<Rightarrow> f s)"
  using assms by (cases r) (auto split: bool.splits)

text \<open>
  Besides, a builder that may grow and whose capacity is moderate does not fail: with an allocator that
  does not run out of memory a call that reaches \<open>fs\<close> succeeds as long as \<open>fs\<close> is small enough.
\<close>

definition roomy :: "cbb \<Rightarrow> bool" where
  "roomy s \<longleftrightarrow> bb_can_resize (cb_base s) \<and> unat (bb_cap (cb_base s)) \<le> 2 ^ 60"

definition delivers :: "malloc_fun \<Rightarrow> cbb \<Rightarrow> seg list \<Rightarrow> bool \<times> cbb \<Rightarrow> bool" where
  "delivers malloc s fs r \<longleftrightarrow> reaches fs r \<and>
     (malloc_total malloc \<and> roomy s \<and> length (layout fs) \<le> 2 ^ 59 \<longrightarrow> fst r \<and> roomy (snd r))"

lemma delivers_reaches: "delivers malloc s fs r \<Longrightarrow> reaches fs r"
  by (simp add: delivers_def)

lemma delivers_here [simp]: "delivers malloc s fs (True, s) \<longleftrightarrow> represents s fs"
  by (auto simp: delivers_def)

lemma delivers_bind:
  assumes "delivers malloc s fs r" "\<And>t. represents t fs \<Longrightarrow> delivers malloc t gs (f t)"
    and "length (layout fs) \<le> length (layout gs)"
  shows "delivers malloc s gs (case r of (False, s) \<Rightarrow> (False, s) | (True, s) \<Rightarrow> f s)"
proof (cases r)
  case (Pair ok t)
  show ?thesis using assms(1,3) assms(2) [of t] Pair by (cases ok) (auto simp: delivers_def)
qed

definition add_last :: "seg list \<Rightarrow> u8 list \<Rightarrow> seg list" where
  "add_last fs xs = butlast fs @ [(fst (last fs), snd (last fs) @ xs)]"

lemma add_last_Nil [simp]: "fs \<noteq> [] \<Longrightarrow> add_last fs [] = fs"
  by (simp add: add_last_def)

lemma add_last_twice [simp]: "add_last (add_last fs xs) ys = add_last fs (xs @ ys)"
  by (simp add: add_last_def)

lemma add_last_snoc: "add_last (gs @ [(k, b)]) xs = gs @ [(k, b @ xs)]"
  by (simp add: add_last_def)

lemma length_add_last [simp]: "fs \<noteq> [] \<Longrightarrow> length (add_last fs xs) = length fs"
  by (simp add: add_last_def)

lemma length_spec_flush [simp]: "d < length fs \<Longrightarrow> length (spec_flush d fs) = Suc d"
  by (simp add: spec_flush_def)

lemma spec_flush_nonempty [simp]: "spec_flush d fs \<noteq> []"
  by (simp add: spec_flush_def)

lemma spec_flush_top [simp]: "length fs = Suc d \<Longrightarrow> spec_flush d fs = fs"
proof -
  assume l: "length fs = Suc d"
  then have "fs = take d fs @ [fs ! d]" by (metis lessI take_Suc_conv_app_nth take_all order_refl)
  then show ?thesis using l by (cases "fs ! d") (simp add: spec_flush_def)
qed

lemma layout_add_last: "fs \<noteq> [] \<Longrightarrow> layout (add_last fs xs) = layout fs @ xs"
proof -
  assume "fs \<noteq> []"
  then have "fs = butlast fs @ [last fs]" by simp
  then have "layout fs = layout (butlast fs) @ layout [last fs]" by (metis layout_append)
  then show ?thesis by (cases "last fs") (simp add: add_last_def layout_append)
qed

lemma chain_add_last: "fs \<noteq> [] \<Longrightarrow> chain_of off (add_last fs xs) = chain_of off fs"
proof -
  assume "fs \<noteq> []"
  then have l: "length fs - 1 < length fs" "last fs = fs ! (length fs - 1)" "butlast fs = take (length fs - 1) fs"
    by (simp_all add: last_conv_nth butlast_conv_take)
  show ?thesis
    using chain_prefix [OF l(1), of off "snd (last fs) @ xs"] l \<open>fs \<noteq> []\<close> by (simp add: add_last_def)
qed

lemma kinds_add_last: "kinds_ok fs \<Longrightarrow> kinds_ok (add_last fs xs)"
proof -
  assume k: "kinds_ok fs"
  then obtain b rest where fs: "fs = (Root, b) # rest" by (cases fs) (auto simp: kinds_ok_def)
  show ?thesis
  proof (cases rest rule: rev_cases)
    case Nil
    then show ?thesis by (simp add: fs add_last_def kinds_ok_def)
  next
    case (snoc ys y)
    then show ?thesis using k by (cases y) (auto simp: fs add_last_def kinds_ok_def)
  qed
qed

text \<open>Growing the buffer by \<open>xs\<close> adds them to the innermost segment.\<close>

lemma represents_grow:
  assumes "represents s fs" "base_ok b" "\<not> bb_error b" "bb_contents b = bb_contents (cb_base s) @ xs"
  shows "represents (set_base s b) (add_last fs xs)"
  using assms represents_length(4) [OF assms(1)]
  by (simp add: represents_def set_base_def layout_add_last chain_add_last kinds_add_last)

section \<open>Operations on the buffer\<close>

definition grows :: "u8 list \<Rightarrow> cbb_buffer \<Rightarrow> bool \<times> cbb_buffer \<Rightarrow> bool" where
  "grows xs b r \<longleftrightarrow> (case r of (ok, b') \<Rightarrow>
     if ok then base_ok b' \<and> \<not> bb_error b' \<and> bb_contents b' = bb_contents b @ xs else bb_error b')"

lemma after_flush_refines:
  assumes m: "malloc_ok malloc" and R: "represents s fs" "d < length fs"
    and f: "\<And>b. base_ok b \<Longrightarrow> \<not> bb_error b \<Longrightarrow> grows xs b (f b)"
  shows "reaches (add_last (spec_flush d fs) xs) (after_flush malloc d s f)"
proof -
  have "reaches (spec_flush d fs) (CBB_flush malloc d s)"
    using flush_refines [OF m R] by (cases "CBB_flush malloc d s") (auto simp: reaches_def)
  then show ?thesis unfolding after_flush_def
  proof (rule reaches_bind)
    fix s assume r: "represents s (spec_flush d fs)"
    then have b: "base_ok (cb_base s)" "\<not> bb_error (cb_base s)" by (simp_all add: represents_def)
    show "reaches (add_last (spec_flush d fs) xs) (case f (cb_base s) of (ok, base) \<Rightarrow> (ok, set_base s base))"
      using f [OF b] represents_grow [OF r]
      by (cases "f (cb_base s)") (auto simp: grows_def reaches_def set_base_def split: if_splits)
  qed
qed

lemma add_then_put:
  assumes m: "malloc_ok malloc" and b: "base_ok b" "\<not> bb_error b" and len: "unat len = length xs" "length xs < 2 ^ 63"
    and r: "cbb_buffer_add malloc b len = (Some off, b1)"
  shows "base_ok b1 \<and> \<not> bb_error b1 \<and> unat off = length (bb_contents b) \<and>
    (\<exists>junk. length junk = length xs \<and> bb_contents b1 = bb_contents b @ junk @ [])"
  using cbb_buffer_add_spec [OF m b(1) _ r] len b base_ok_facts(4) [OF b(1)] by auto

lemma add_bytes_grows:
  assumes m: "malloc_ok malloc" and len: "unat len = length xs" "length xs < 2 ^ 63"
    and b: "base_ok b" "\<not> bb_error b"
  shows "grows xs b
    (case cbb_buffer_add malloc b len of
       (None, b) \<Rightarrow> (False, b)
     | (Some dest, b) \<Rightarrow> (True, b\<lparr>bb_buf := put_bytes (bb_buf b) dest (take (unat len) xs)\<rparr>))"
proof (cases "cbb_buffer_add malloc b len")
  case (Pair o1 b1)
  show ?thesis
  proof (cases o1)
    case None
    then show ?thesis using cbb_buffer_add_spec [OF m b(1) _ Pair] len Pair by (simp add: grows_def)
  next
    case (Some off)
    note a = add_then_put [OF m b len Pair [unfolded Some]]
    then obtain junk where j: "length junk = length xs" "bb_contents b1 = bb_contents b @ junk @ []" by blast
    have "length xs = length junk" using j(1) by simp
    note p = put_contents [OF _ j(2) _ this, of off]
    show ?thesis using a p len Pair Some by (simp add: grows_def)
  qed
qed

lemma add_u_grows:
  assumes m: "malloc_ok malloc" and n: "1 \<le> n" "n \<le> 4" and b: "base_ok b" "\<not> bb_error b"
  shows "grows (be_bytes n (unat v)) b (cbb_buffer_add_u malloc b v n)"
proof (cases "cbb_buffer_add malloc b (of_nat n)")
  case (Pair o1 b1)
  have len: "unat (of_nat n :: u64) = length (be_bytes n (unat v))" "length (be_bytes n (unat v)) < 2 ^ 63"
    using n by simp_all
  show ?thesis
  proof (cases o1)
    case None
    then show ?thesis
      using cbb_buffer_add_spec [OF m b(1) _ Pair] n Pair by (simp add: grows_def cbb_buffer_add_u_def)
  next
    case (Some off)
    note a = add_then_put [OF m b len Pair [unfolded Some]]
    then obtain junk where j: "length junk = n" "bb_contents b1 = bb_contents b @ junk @ []" by auto
    obtain buf' v' where st: "store_be (bb_buf b1) off v n = (buf', v')"
      by (cases "store_be (bb_buf b1) off v n")
    have o: "unat off = length (bb_contents b)" "base_ok b1" using a by simp_all
    note p = store_be_contents [OF o(2) j(2) o(1) j(1) st]
    show ?thesis using a p n Pair Some st
      by (auto simp: grows_def cbb_buffer_add_u_def Let_def)
  qed
qed

lemma cbb_buffer_add_total:
  assumes t: "malloc_total malloc" and ok: "base_ok b" and r: "bb_can_resize b" "unat (bb_cap b) \<le> 2 ^ 60"
    and len: "unat (bb_len b) + unat len \<le> 2 ^ 59"
  shows "\<exists>off b'. cbb_buffer_add malloc b len = (Some off, b') \<and> bb_can_resize b' \<and> unat (bb_cap b') \<le> 2 ^ 60"
proof -
  let ?n = "bb_len b + len" and ?c = "bb_cap b * 2"
  have n: "unat ?n = unat (bb_len b) + unat len" using len by (subst unat_add_no_overflow) simp_all
  then have nw: "\<not> ?n < bb_len b" by (simp add: word_less_nat_alt)
  have c: "unat ?c = unat (bb_cap b) * 2" using r(2) by (subst unat_word_ariths) simp
  show ?thesis
  proof (cases "?n > bb_cap b")
    case False
    then show ?thesis using nw r by (simp add: cbb_buffer_add_def cbb_buffer_reserve_def)
  next
    case True
    define m where "m = (if ?c < bb_cap b \<or> ?c < ?n then ?n else ?c)"
    have m: "unat m \<le> 2 ^ 60"
      using True len n c by (auto simp: m_def word_less_nat_alt)
    then have "unat m \<le> 2 ^ 61" by simp
    then obtain nb where nb: "OPENSSL_realloc malloc (bb_buf b) m = Some nb"
      by (rule OPENSSL_realloc_total [OF t])
    then show ?thesis using True nw r(1) m
      by (simp add: cbb_buffer_add_def cbb_buffer_reserve_def flip: m_def)
  qed
qed

lemma flush_top:
  assumes "represents s fs" "length fs = Suc d"
  shows "CBB_flush malloc d s = (True, s)"
  using assms represents_length [OF assms(1)] by (subst CBB_flush.simps) (auto simp: represents_def)

section \<open>Adding\<close>

lemma CBB_add_bytes_refines:
  assumes "malloc_ok malloc" "represents s fs" "d < length fs" "length xs < 2 ^ 63"
  shows "reaches (add_last (spec_flush d fs) xs) (CBB_add_bytes malloc d s xs (of_nat (length xs)))"
  unfolding CBB_add_bytes_def using assms
  by (intro after_flush_refines add_bytes_grows) simp_all

lemma be_bytes_u8: "be_bytes 1 (unat (ucast (v :: u8) :: u32)) = [v]"
  by (simp add: unat_ucast_up)

lemma CBB_add_u8_refines:
  assumes "malloc_ok malloc" "represents s fs" "d < length fs"
  shows "reaches (add_last (spec_flush d fs) [v]) (CBB_add_u8 malloc d s v)"
  unfolding CBB_add_u8_def be_bytes_u8 [symmetric] using assms
  by (intro after_flush_refines add_u_grows) simp_all

lemma CBB_add_u16_refines:
  assumes "malloc_ok malloc" "represents s fs" "d < length fs"
  shows "reaches (add_last (spec_flush d fs) (be_bytes 2 (unat v))) (CBB_add_u16 malloc d s v)"
proof -
  have "unat v = unat (ucast v :: u32)" by (simp add: unat_ucast_up)
  then show ?thesis unfolding CBB_add_u16_def using assms
    by (simp only:) (intro after_flush_refines add_u_grows; simp)
qed

lemma CBB_add_u24_refines:
  assumes "malloc_ok malloc" "represents s fs" "d < length fs"
  shows "reaches (add_last (spec_flush d fs) (be_bytes 3 (unat v))) (CBB_add_u24 malloc d s v)"
  unfolding CBB_add_u24_def using assms by (intro after_flush_refines add_u_grows) simp_all

lemma CBB_add_u32_refines:
  assumes "malloc_ok malloc" "represents s fs" "d < length fs"
  shows "reaches (add_last (spec_flush d fs) (be_bytes 4 (unat v))) (CBB_add_u32 malloc d s v)"
  unfolding CBB_add_u32_def using assms by (intro after_flush_refines add_u_grows) simp_all

text \<open>Opening a child adds a segment.\<close>

lemma add_child_represents:
  assumes R: "represents s fs" and d: "length fs = Suc d"
    and b: "base_ok b" "\<not> bb_error b" "bb_contents b = bb_contents (cb_base s) @ replicate (plen k) 0"
    and k: "k \<noteq> Root" "\<And>n. k = Fixed n \<Longrightarrow> 1 \<le> n \<and> n \<le> 3" and pl: "pl = of_nat (plen k)"
  shows "represents (add_child d (set_base s b)
    \<lparr>ch_offset = bb_len (cb_base s), ch_pending_len_len = pl, ch_pending_is_asn1 = (k = Element)\<rparr>)
    (fs @ [(k, [])])"
proof -
  have off: "bb_len (cb_base s) = of_nat (length (layout fs))"
    using represents_length(3) [OF R] by (metis of_nat_unat ucast_id)
  have ks: "kinds_ok (fs @ [(k, [])])"
    using R k represents_length(4) [OF R] by (auto simp: represents_def kinds_ok_def)
  have "take d (cb_chain s) = cb_chain s" using represents_length(1) [OF R] d by simp
  moreover have "tl (chain_of 0 (fs @ [(k, [])])) = cb_chain s @ chain_of (length (layout fs)) [(k, [])]"
    using R represents_length(4) [OF R]
    by (cases fs) (auto simp: represents_def chain_of_append)
  ultimately show ?thesis
    using R b ks pl off by (simp add: represents_def add_child_def set_base_def layout_append)
qed

lemma cbb_add_length_prefixed_refines:
  assumes m: "malloc_ok malloc" and R: "represents s fs" "d < length fs" and n: "1 \<le> n" "n \<le> 3"
  shows "reaches (spec_flush d fs @ [(Fixed n, [])]) (cbb_add_length_prefixed malloc d s (of_nat n))"
proof -
  have n8: "unat (of_nat n :: u8) = n" "ucast (of_nat n :: u8) = (of_nat n :: u64)"
    using n by (simp_all add: word_unat_eq_iff unat_ucast_up unat_of_nat_u8)
  have "reaches (spec_flush d fs) (CBB_flush malloc d s)"
    using flush_refines [OF m R] by (cases "CBB_flush malloc d s") (auto simp: reaches_def)
  then show ?thesis unfolding cbb_add_length_prefixed_def
  proof (rule reaches_bind)
    fix s assume r: "represents s (spec_flush d fs)"
    then have b: "base_ok (cb_base s)" "\<not> bb_error (cb_base s)" by (simp_all add: represents_def)
    have len: "unat (of_nat n :: u64) = length (replicate n (0 :: u8))" "length (replicate n (0 :: u8)) < 2 ^ 63"
      using n by simp_all
    show "reaches (spec_flush d fs @ [(Fixed n, [])])
      (let offset = bb_len (cb_base s)
       in case cbb_buffer_add malloc (cb_base s) (ucast (of_nat n :: u8)) of
            (None, base) \<Rightarrow> (False, set_base s base)
          | (Some prefix_bytes, base) \<Rightarrow>
              let base = base\<lparr>bb_buf := put_bytes (bb_buf base) prefix_bytes (replicate (unat (of_nat n :: u8)) 0)\<rparr>
              in (True, add_child d (set_base s base)
                    \<lparr>ch_offset = offset, ch_pending_len_len = of_nat n, ch_pending_is_asn1 = False\<rparr>))"
    proof (cases "cbb_buffer_add malloc (cb_base s) (of_nat n)")
      case (Pair o1 b1)
      show ?thesis
      proof (cases o1)
        case None
        then show ?thesis
          using cbb_buffer_add_spec [OF m b(1) _ Pair] n Pair n8 by (simp add: set_base_def)
      next
        case (Some off)
        note a = add_then_put [OF m b len Pair [unfolded Some]]
        then obtain junk where j: "length junk = n" "bb_contents b1 = bb_contents (cb_base s) @ junk @ []" by auto
        have "length (replicate n (0 :: u8)) = length junk" using j(1) by simp
        note p = put_contents [OF _ j(2) _ this, of off]
        have "represents (add_child d (set_base s (b1\<lparr>bb_buf := put_bytes (bb_buf b1) off (replicate n 0)\<rparr>))
          \<lparr>ch_offset = bb_len (cb_base s), ch_pending_len_len = of_nat n, ch_pending_is_asn1 = (Fixed n = Element)\<rparr>)
          (spec_flush d fs @ [(Fixed n, [])])"
          using R(2) n by (intro add_child_represents [OF r]) (use a p in auto)
        then show ?thesis using Pair Some n8 by (simp add: Let_def)
      qed
    qed
  qed
qed

section \<open>Base-128 numbers and tags\<close>

lemma base128_count_value: "base128_count v l = l + length (b128_hi (unat v))"
proof (induction v l rule: base128_count.induct)
  case (1 copy l)
  show ?case
  proof (cases "copy = 0")
    case False
    then have "unat copy \<noteq> 0" by (simp add: unat_eq_zero)
    then have "length (b128_hi (unat copy)) = Suc (length (b128_hi (unat (drop_bit 7 copy))))"
      by (subst b128_hi.simps) (simp add: unat_drop_bit)
    then show ?thesis using 1 False by (subst base128_count.simps) (simp add: word_gt_0)
  qed (simp add: base128_count.simps)
qed

text \<open>The bytes the loop writes for the lowest \<open>k\<close> groups.\<close>

fun groups_hi :: "nat \<Rightarrow> nat \<Rightarrow> u8 list" where
  "groups_hi m 0 = []"
| "groups_hi m (Suc k) = (of_nat (m div 128 ^ k mod 128) OR 0x80) # groups_hi m k"

lemma groups_hi_last: "groups_hi m (Suc k) = groups_hi (m div 128) k @ [of_nat (m mod 128) OR 0x80]"
proof (induction k)
  case (Suc k)
  have "groups_hi m (Suc (Suc k)) = (of_nat (m div 128 ^ Suc k mod 128) OR 0x80) # groups_hi m (Suc k)" by simp
  also have "\<dots> = groups_hi (m div 128) (Suc k) @ [of_nat (m mod 128) OR 0x80]"
    using Suc by (simp add: div_mult2_eq)
  finally show ?case .
qed simp

lemma groups_hi_b128: "groups_hi m (length (b128_hi m)) = b128_hi m"
proof (induction m rule: b128_hi.induct)
  case (1 m)
  show ?case
  proof (cases "m = 0")
    case False
    then have e: "b128_hi m = b128_hi (m div 128) @ [of_nat (m mod 128) OR 0x80]"
      by (subst b128_hi.simps) simp
    then have "groups_hi m (length (b128_hi m)) = groups_hi m (Suc (length (b128_hi (m div 128))))" by simp
    also have "\<dots> = b128_hi m" unfolding groups_hi_last using 1 False e by simp
    finally show ?thesis .
  qed simp
qed

lemma group_byte:
  "ucast (drop_bit (7 * i) v) AND 0x7f = (of_nat (unat (v :: u64) div 128 ^ i mod 128) :: u8)"
proof -
  have "(of_nat (unat v div 128 ^ i) :: u8) = ucast (drop_bit (7 * i) v)"
  proof -
    have "unat (drop_bit (7 * i) v) = unat v div 128 ^ i" by (simp add: unat_drop_bit power_mult)
    moreover have "(of_nat (unat (drop_bit (7 * i) v)) :: u8) = ucast (drop_bit (7 * i) v)" by simp
    ultimately show ?thesis by simp
  qed
  then have "unat (ucast (drop_bit (7 * i) v) AND 0x7f :: u8) = unat v div 128 ^ i mod 256 mod 128"
    unfolding unat_low7 by (metis unat_of_nat_u8)
  also have "\<dots> = unat v div 128 ^ i mod 128" by (rule mod_mod_cancel) simp
  finally show ?thesis by (simp add: word_unat_eq_iff unat_of_nat_u8)
qed

text \<open>A \<open>CBB\<close> without an open child: adding to it needs no flush.\<close>

lemma after_flush_delivers:
  assumes "represents s fs" "length fs = Suc d" "reaches (add_last fs xs) (after_flush malloc d s f)"
    and "malloc_total malloc \<Longrightarrow> roomy s \<Longrightarrow> unat (bb_len (cb_base s)) + length xs \<le> 2 ^ 59 \<Longrightarrow>
      (case f (cb_base s) of (ok, b) \<Rightarrow> ok \<and> bb_can_resize b \<and> unat (bb_cap b) \<le> 2 ^ 60)"
  shows "delivers malloc s (add_last fs xs) (after_flush malloc d s f)"
  using assms(3,4) represents_length(3,4) [OF assms(1)]
  by (auto simp: delivers_def after_flush_def flush_top [OF assms(1,2)] layout_add_last roomy_def set_base_def
      split: prod.splits)

lemma add_u8_top:
  assumes "malloc_ok malloc" "represents s fs" "length fs = Suc d"
  shows "reaches (add_last fs [v]) (CBB_add_u8 malloc d s v)"
  using CBB_add_u8_refines [OF assms(1,2), of d v] assms(3) by simp

lemma add_u8_delivers:
  assumes "malloc_ok malloc" "represents s fs" "length fs = Suc d"
  shows "delivers malloc s (add_last fs [v]) (CBB_add_u8 malloc d s v)"
  unfolding CBB_add_u8_def
proof (rule after_flush_delivers [OF assms(2,3)])
  show "reaches (add_last fs [v]) (after_flush malloc d s (\<lambda>b. cbb_buffer_add_u malloc b (ucast v) 1))"
    using add_u8_top [OF assms] by (simp add: CBB_add_u8_def)
  assume t: "malloc_total malloc" "roomy s" "unat (bb_len (cb_base s)) + length [v] \<le> 2 ^ 59"
  have b: "base_ok (cb_base s)" using assms(2) by (simp add: represents_def)
  obtain off b' where a: "cbb_buffer_add malloc (cb_base s) 1 = (Some off, b')"
    "bb_can_resize b'" "unat (bb_cap b') \<le> 2 ^ 60"
    using cbb_buffer_add_total [OF t(1) b, of 1] t(2,3) by (auto simp: roomy_def)
  have "unat (drop_bit 8 (ucast v :: u32)) = 0"
    using unat_lt_len [of v] by (simp add: unat_drop_bit unat_ucast_up)
  then have "drop_bit 8 (ucast v :: u32) = 0" by (simp only: unat_eq_zero)
  then show "case cbb_buffer_add_u malloc (cb_base s) (ucast v) 1 of
      (ok, b) \<Rightarrow> ok \<and> bb_can_resize b \<and> unat (bb_cap b) \<le> 2 ^ 60"
    using a by (simp add: cbb_buffer_add_u_def Let_def)
qed

lemma add_bytes_delivers:
  assumes "malloc_ok malloc" "represents s fs" "length fs = Suc d" "length xs < 2 ^ 63"
  shows "delivers malloc s (add_last fs xs) (CBB_add_bytes malloc d s xs (of_nat (length xs)))"
  unfolding CBB_add_bytes_def
proof (rule after_flush_delivers [OF assms(2,3)])
  let ?f = "\<lambda>b. case cbb_buffer_add malloc b (of_nat (length xs)) of
      (None, b) \<Rightarrow> (False, b)
    | (Some dest, b) \<Rightarrow> (True, b\<lparr>bb_buf := put_bytes (bb_buf b) dest (take (unat (of_nat (length xs) :: u64)) xs)\<rparr>)"
  show "reaches (add_last fs xs) (after_flush malloc d s ?f)"
    using CBB_add_bytes_refines [OF assms(1,2), of d xs] assms(3,4) by (simp add: CBB_add_bytes_def)
  assume t: "malloc_total malloc" "roomy s" "unat (bb_len (cb_base s)) + length xs \<le> 2 ^ 59"
  have b: "base_ok (cb_base s)" using assms(2) by (simp add: represents_def)
  obtain off b' where "cbb_buffer_add malloc (cb_base s) (of_nat (length xs)) = (Some off, b')"
    "bb_can_resize b'" "unat (bb_cap b') \<le> 2 ^ 60"
    using cbb_buffer_add_total [OF t(1) b, of "of_nat (length xs)"] t(2,3) by (auto simp: roomy_def)
  then show "case ?f (cb_base s) of (ok, b) \<Rightarrow> ok \<and> bb_can_resize b \<and> unat (bb_cap b) \<le> 2 ^ 60" by simp
qed

lemma base128_out_delivers:
  assumes m: "malloc_ok malloc"
  shows "represents s fs \<Longrightarrow> length fs = Suc d \<Longrightarrow>
    delivers malloc s (add_last fs (groups_hi (unat v div 128) k @ [of_nat (unat v mod 128)]))
      (base128_out malloc d s v (Suc k))"
proof (induction k arbitrary: s fs)
  case 0
  have "delivers malloc s (add_last fs [of_nat (unat v mod 128)]) (case CBB_add_u8 malloc d s (of_nat (unat v mod 128)) of
      (False, s) \<Rightarrow> (False, s) | (True, s) \<Rightarrow> base128_out malloc d s v 0)"
    by (rule delivers_bind [OF add_u8_delivers [OF m 0]]) simp_all
  then show ?case using group_byte [of 0 v]
    by (subst base128_out.simps) (simp add: Let_def del: base128_out.simps)
next
  case (Suc k)
  let ?x = "of_nat (unat v div 128 ^ Suc k mod 128) OR 0x80 :: u8"
  have ne: "fs \<noteq> []" using Suc.prems by auto
  have "delivers malloc s (add_last fs (groups_hi (unat v div 128) (Suc k) @ [of_nat (unat v mod 128)]))
    (case CBB_add_u8 malloc d s ?x of
      (False, s) \<Rightarrow> (False, s) | (True, s) \<Rightarrow> base128_out malloc d s v (Suc k))"
  proof (rule delivers_bind [OF add_u8_delivers [OF m Suc.prems]])
    show "length (layout (add_last fs [?x])) \<le>
        length (layout (add_last fs (groups_hi (unat v div 128) (Suc k) @ [of_nat (unat v mod 128)])))"
      using ne by (simp add: layout_add_last)
  next
    fix s assume "represents s (add_last fs [?x])"
    from Suc.IH [OF this] ne Suc.prems(2)
    show "delivers malloc s (add_last fs (groups_hi (unat v div 128) (Suc k) @ [of_nat (unat v mod 128)]))
      (base128_out malloc d s v (Suc k))" by (simp add: div_mult2_eq del: base128_out.simps)
  qed
  then show ?case using group_byte [of "Suc k" v]
    by (subst base128_out.simps) (simp add: Let_def del: base128_out.simps)
qed

lemma add_base128_delivers:
  assumes "malloc_ok malloc" "represents s fs" "length fs = Suc d"
  shows "delivers malloc s (add_last fs (b128 (unat v))) (add_base128_integer malloc d s v)"
proof -
  have "(let l = base128_count v 0 in if l = 0 then 1 else l) = Suc (length (b128_hi (unat v div 128)))"
  proof (cases "v = 0")
    case True
    then show ?thesis by (simp add: base128_count_value)
  next
    case False
    then have "unat v \<noteq> 0" by (simp add: unat_eq_zero)
    then have "b128_hi (unat v) = b128_hi (unat v div 128) @ [of_nat (unat v mod 128) OR 0x80]"
      by (subst b128_hi.simps) simp
    then show ?thesis by (simp add: base128_count_value Let_def)
  qed
  then show ?thesis
    using base128_out_delivers [OF assms, of v "length (b128_hi (unat v div 128))"]
    by (simp add: add_base128_integer_def Let_def b128_def groups_hi_b128 del: base128_out.simps)
qed

lemmas add_base128_refines = delivers_reaches [OF add_base128_delivers]

lemma CBB_add_asn1_refines:
  assumes m: "malloc_ok malloc" and R: "represents s fs" "d < length fs"
  shows "reaches (add_last (spec_flush d fs) (der_tag tag) @ [(Element, [])]) (CBB_add_asn1 malloc d s tag)"
proof -
  let ?fs = "spec_flush d fs" and ?bits = "ucast (drop_bit 24 tag) AND 0xe0 :: u8"
    and ?n = "tag AND CBS_ASN1_TAG_NUMBER_MASK"
  have l: "length ?fs = Suc d" using R(2) by simp
  let ?tag = "\<lambda>s. if ?n \<ge> 0x1f then
      (case CBB_add_u8 malloc d s (?bits OR 0x1f) of
         (False, s) \<Rightarrow> (False, s) | (True, s) \<Rightarrow> add_base128_integer malloc d s (ucast ?n))
    else CBB_add_u8 malloc d s (?bits OR ucast ?n)"
  let ?rest = "\<lambda>s. case CBB_add_u8 malloc d s 0 of
      (False, s') \<Rightarrow> (False, s')
    | (True, s') \<Rightarrow> (True, add_child d s'
        \<lparr>ch_offset = bb_len (cb_base s), ch_pending_len_len = 1, ch_pending_is_asn1 = True\<rparr>)"
  have tag: "reaches (add_last ?fs (der_tag tag)) (?tag s)" if r: "represents s ?fs" for s
  proof (cases "?n \<ge> 0x1f")
    case True
    have "reaches (add_last ?fs (der_tag tag)) (case CBB_add_u8 malloc d s (?bits OR 0x1f) of
         (False, s) \<Rightarrow> (False, s) | (True, s) \<Rightarrow> add_base128_integer malloc d s (ucast ?n))"
    proof (rule reaches_bind [OF add_u8_top [OF m r l]])
      fix s assume "represents s (add_last ?fs [?bits OR 0x1f])"
      from add_base128_refines [OF m this, of d "ucast ?n"] True l
      show "reaches (add_last ?fs (der_tag tag)) (add_base128_integer malloc d s (ucast ?n))"
        by (simp add: der_tag_def Let_def unat_ucast_up)
    qed
    then show ?thesis using True by simp
  next
    case False
    then show ?thesis using add_u8_top [OF m r l, of "?bits OR ucast ?n"] by (simp add: der_tag_def Let_def)
  qed
  have rest: "reaches (add_last ?fs (der_tag tag) @ [(Element, [])]) (?rest s)"
    if r: "represents s (add_last ?fs (der_tag tag))" for s
  proof -
    let ?gs = "add_last ?fs (der_tag tag)"
    have lg: "length ?gs = Suc d" using l by simp
    have fl: "CBB_flush malloc d s = (True, s)"
      using r represents_length [OF r] lg by (subst CBB_flush.simps) (auto simp: represents_def)
    have b: "base_ok (cb_base s)" "\<not> bb_error (cb_base s)" using r by (simp_all add: represents_def)
    have g: "grows [0] (cb_base s) (cbb_buffer_add_u malloc (cb_base s) 0 1)"
      using add_u_grows [OF m _ _ b, of 1 0] by simp
    obtain ok b1 where a: "cbb_buffer_add_u malloc (cb_base s) 0 1 = (ok, b1)"
      by (cases "cbb_buffer_add_u malloc (cb_base s) 0 1")
    then have u8: "CBB_add_u8 malloc d s 0 = (ok, set_base s b1)"
      by (simp add: CBB_add_u8_def after_flush_def fl)
    show ?thesis
    proof (cases ok)
      case True
      then have "represents (add_child d (set_base s b1)
          \<lparr>ch_offset = bb_len (cb_base s), ch_pending_len_len = 1, ch_pending_is_asn1 = (Element = Element)\<rparr>)
          (?gs @ [(Element, [])])"
        using a g by (intro add_child_represents [OF r lg]) (auto simp: grows_def)
      then show ?thesis using u8 True by simp
    next
      case False
      then show ?thesis using a g u8 by (simp add: grows_def set_base_def)
    qed
  qed
  have "reaches ?fs (CBB_flush malloc d s)"
    using flush_refines [OF m R] by (cases "CBB_flush malloc d s") (auto simp: reaches_def)
  then have main: "reaches (add_last ?fs (der_tag tag) @ [(Element, [])])
    (case CBB_flush malloc d s of (False, s) \<Rightarrow> (False, s)
      | (True, s) \<Rightarrow> (case ?tag s of (False, s) \<Rightarrow> (False, s) | (True, s) \<Rightarrow> ?rest s))"
    by (rule reaches_bind) (rule reaches_bind [OF tag rest])
  have eq: "(case r of (ok, s) \<Rightarrow> if \<not> ok then (False, s) else f s) =
      (case r of (False, s) \<Rightarrow> (False, s) | (True, s) \<Rightarrow> f s)" for r :: "bool \<times> cbb" and f
    by (cases r) auto
  show ?thesis unfolding CBB_add_asn1_def Let_def eq by (rule main)
qed

section \<open>Values\<close>

lemma CBB_flush_refines:
  assumes "malloc_ok malloc" "represents s fs" "d < length fs"
  shows "reaches (spec_flush d fs) (CBB_flush malloc d s)"
  using flush_refines [OF assms] by (cases "CBB_flush malloc d s") (auto simp: reaches_def)

text \<open>Closing the element that was just filled.\<close>

lemma spec_flush_snoc:
  assumes "gs \<noteq> []"
  shows "spec_flush (length gs - 1) (gs @ [(k, b)]) = add_last gs (seal k b)"
proof -
  have "gs = butlast gs @ [last gs]" using assms by simp
  then show ?thesis
    by (cases "last gs")
      (simp add: spec_flush_def add_last_def nth_append last_conv_nth butlast_conv_take assms)
qed

lemma element_closed:
  assumes "d < length fs"
  shows "spec_flush d (add_last (add_last (spec_flush d fs) (der_tag tag) @ [(Element, [])]) content) =
    add_last (spec_flush d fs) (der_element tag content)"
proof -
  let ?gs = "add_last (spec_flush d fs) (der_tag tag)"
  have l: "length ?gs - 1 = d" "?gs \<noteq> []" using assms by (simp_all add: add_last_def)
  have "add_last (?gs @ [(Element, [])]) content = ?gs @ [(Element, content)]" by (simp add: add_last_snoc)
  then have "spec_flush d (add_last (?gs @ [(Element, [])]) content) = add_last ?gs (seal Element content)"
    using spec_flush_snoc [OF l(2), of Element content] l(1) by simp
  then show ?thesis by (simp add: der_element_def)
qed

lemma CBB_add_asn1_octet_string_refines:
  assumes m: "malloc_ok malloc" and R: "represents s fs" "d < length fs" and len: "length xs < 2 ^ 63"
  shows "reaches (add_last (spec_flush d fs) (der_element CBS_ASN1_OCTETSTRING xs))
    (CBB_add_asn1_octet_string malloc d s xs (of_nat (length xs)))"
  unfolding CBB_add_asn1_octet_string_def
proof (rule reaches_bind [OF CBB_add_asn1_refines [OF m R]])
  let ?gs = "add_last (spec_flush d fs) (der_tag CBS_ASN1_OCTETSTRING) @ [(Element, [])]"
  have l: "length ?gs = Suc (Suc d)" using R(2) by simp
  fix s assume r: "represents s ?gs"
  have "reaches (add_last ?gs xs) (CBB_add_bytes malloc (d + 1) s xs (of_nat (length xs)))"
    using CBB_add_bytes_refines [OF m r _ len, of "d + 1"] l by simp
  then show "reaches (add_last (spec_flush d fs) (der_element CBS_ASN1_OCTETSTRING xs))
    (case CBB_add_bytes malloc (d + 1) s xs (of_nat (length xs)) of
       (False, s) \<Rightarrow> (False, s) | (True, s) \<Rightarrow> CBB_flush malloc d s)"
  proof (rule reaches_bind)
    fix s assume "represents s (add_last ?gs xs)"
    from CBB_flush_refines [OF m this, of d] l
    show "reaches (add_last (spec_flush d fs) (der_element CBS_ASN1_OCTETSTRING xs)) (CBB_flush malloc d s)"
      by (simp add: element_closed [OF R(2)])
  qed
qed

lemma CBB_add_asn1_bool_refines:
  assumes m: "malloc_ok malloc" and R: "represents s fs" "d < length fs"
  shows "reaches (add_last (spec_flush d fs) (der_element CBS_ASN1_BOOLEAN [if v \<noteq> 0 then 0xff else 0]))
    (CBB_add_asn1_bool malloc d s v)"
  unfolding CBB_add_asn1_bool_def
proof (rule reaches_bind [OF CBB_add_asn1_refines [OF m R]])
  let ?gs = "add_last (spec_flush d fs) (der_tag CBS_ASN1_BOOLEAN) @ [(Element, [])]"
    and ?b = "if v \<noteq> 0 then 0xff else 0 :: u8"
  have l: "length ?gs = Suc (d + 1)" using R(2) by simp
  fix s assume r: "represents s ?gs"
  show "reaches (add_last (spec_flush d fs) (der_element CBS_ASN1_BOOLEAN [?b]))
    (case CBB_add_u8 malloc (d + 1) s ?b of (False, s) \<Rightarrow> (False, s) | (True, s) \<Rightarrow> CBB_flush malloc d s)"
  proof (rule reaches_bind [OF add_u8_top [OF m r l]])
    fix s assume "represents s (add_last ?gs [?b])"
    from CBB_flush_refines [OF m this, of d] l
    show "reaches (add_last (spec_flush d fs) (der_element CBS_ASN1_BOOLEAN [?b])) (CBB_flush malloc d s)"
      by (simp add: element_closed [OF R(2)])
  qed
qed

lemma byte_of_shift: "(ucast (drop_bit (8 * i) (v :: u64)) :: u8) = of_nat (unat v div 256 ^ i)"
proof -
  have "unat (drop_bit (8 * i) v) = unat v div 256 ^ i" by (simp add: unat_drop_bit power_mult)
  moreover have "(of_nat (unat (drop_bit (8 * i) v)) :: u8) = ucast (drop_bit (8 * i) v)" by simp
  ultimately show ?thesis by simp
qed

lemma uint64_out_started:
  assumes m: "malloc_ok malloc"
  shows "represents s fs \<Longrightarrow> length fs = Suc d \<Longrightarrow>
    (case uint64_out malloc d s v True n of (ok, st, s') \<Rightarrow>
       (ok \<longrightarrow> st) \<and> reaches (add_last fs (be_bytes n (unat v))) (ok, s'))"
proof (induction n arbitrary: s fs)
  case 0
  then have "fs \<noteq> []" by (metis length_0_conv nat.distinct(1))
  then show ?case using 0 by simp
next
  case (Suc i)
  let ?b = "of_nat (unat v div 256 ^ i) :: u8"
  obtain ok s1 where a: "CBB_add_u8 malloc d s ?b = (ok, s1)" by (cases "CBB_add_u8 malloc d s ?b")
  note r = add_u8_top [OF m Suc.prems, of ?b, unfolded a]
  show ?case
  proof (cases ok)
    case True
    have ne: "fs \<noteq> []" using Suc.prems by (metis length_0_conv nat.distinct(1))
    then show ?thesis
      using Suc.IH [of s1 "add_last fs [?b]"] r True Suc.prems(2) a by (simp add: Let_def byte_of_shift)
  next
    case False
    then show ?thesis using a r by (simp add: Let_def byte_of_shift)
  qed
qed

lemma be_min_top_byte:
  assumes "n < 256 ^ Suc i" "256 ^ i \<le> n"
  shows "be_min n = of_nat (n div 256 ^ i) # be_bytes i n" "(of_nat (n div 256 ^ i) :: u8) \<noteq> 0"
proof -
  have q: "n div 256 ^ i < 256" using assms(1) by (simp add: less_mult_imp_div_less mult.commute)
  have "1 \<le> n div 256 ^ i" using assms(2) by (simp add: Suc_le_eq div_greater_zero_iff)
  with q show nz: "(of_nat (n div 256 ^ i) :: u8) \<noteq> 0" by (auto simp: word_unat_eq_iff unat_of_nat_u8)
  have "be_val (be_bytes (Suc i) n) = n" using assms(1) by (simp only: be_val_be_bytes mod_less)
  then show "be_min n = of_nat (n div 256 ^ i) # be_bytes i n"
    using be_min_be_val [of "be_bytes (Suc i) n"] nz by simp
qed

lemma uint64_out_refines:
  assumes m: "malloc_ok malloc" and R: "represents s fs" "length fs = Suc d"
  shows "unat v < 256 ^ n \<Longrightarrow>
    (case uint64_out malloc d s v False n of (ok, st, s') \<Rightarrow> (ok \<longrightarrow> (st \<longleftrightarrow> v \<noteq> 0)) \<and>
      reaches (add_last fs (if v = 0 then [] else der_uint (unat v))) (ok, s'))"
proof (induction n)
  case 0
  then have "v = 0" by (simp add: unat_eq_zero)
  moreover have "fs \<noteq> []" using R(2) by (metis length_0_conv nat.distinct(1))
  ultimately show ?case using R by simp
next
  case (Suc i)
  let ?b = "of_nat (unat v div 256 ^ i) :: u8"
  show ?case
  proof (cases "unat v < 256 ^ i")
    case True
    then have "?b = 0" by simp
    then show ?thesis using Suc.IH [OF True] by (simp add: Let_def byte_of_shift)
  next
    case False
    then have min: "be_min (unat v) = ?b # be_bytes i (unat v)" "?b \<noteq> 0"
      using be_min_top_byte [OF Suc.prems] by simp_all
    have v: "unat v \<noteq> 0" "v \<noteq> 0" using False by (auto simp: unat_eq_zero)
    define pad where "pad = (if ?b AND 0x80 \<noteq> 0 then [0 :: u8] else [])"
    have du: "der_uint (unat v) = pad @ ?b # be_bytes i (unat v)"
      using v min top_bit_iff [of ?b] by (simp add: der_uint_def Let_def pad_def top_bit_unat)
    obtain ok1 s1 where p: "(if ?b AND 0x80 \<noteq> 0 then CBB_add_u8 malloc d s 0 else (True, s)) = (ok1, s1)"
      by (cases "if ?b AND 0x80 \<noteq> 0 then CBB_add_u8 malloc d s 0 else (True, s)")
    have ne: "fs \<noteq> []" using R by auto
    have r1: "reaches (add_last fs pad) (ok1, s1)"
      unfolding p [symmetric] pad_def using add_u8_top [OF m R, of 0] R ne by simp
    obtain ok2 s2 where b: "CBB_add_u8 malloc d s1 ?b = (ok2, s2)" by (cases "CBB_add_u8 malloc d s1 ?b")
    have out: "uint64_out malloc d s v False (Suc i) =
      (if \<not> ok1 then (False, False, s1)
       else if \<not> ok2 then (False, True, s2) else uint64_out malloc d s2 v True i)"
      using p b min(2) by (simp add: Let_def byte_of_shift)
    show ?thesis
    proof (cases ok1)
      case False
      then show ?thesis using out r1 by simp
    next
      case True
      have l1: "length (add_last fs pad) = Suc d" using R ne by simp
      have "represents s1 (add_last fs pad)" using r1 True by simp
      from add_u8_top [OF m this l1, of ?b] b have r2: "reaches (add_last fs (pad @ [?b])) (ok2, s2)" by simp
      show ?thesis
      proof (cases ok2)
        case False
        then show ?thesis using out r2 True by simp
      next
        case ok2: True
        have l2: "length (add_last fs (pad @ [?b])) = Suc d" using R ne by simp
        have "represents s2 (add_last fs (pad @ [?b]))" using r2 ok2 by simp
        from uint64_out_started [OF m this l2, where v = v and n = i] show ?thesis
          unfolding out using True ok2 v du by (simp split: prod.splits)
      qed
    qed
  qed
qed

lemma CBB_add_asn1_uint64_refines:
  assumes m: "malloc_ok malloc" and R: "represents s fs" "d < length fs"
  shows "reaches (add_last (spec_flush d fs) (der_element CBS_ASN1_INTEGER (der_uint (unat v))))
    (CBB_add_asn1_uint64 malloc d s v)"
  unfolding CBB_add_asn1_uint64_def
proof (rule reaches_bind [OF CBB_add_asn1_refines [OF m R]])
  let ?gs = "add_last (spec_flush d fs) (der_tag CBS_ASN1_INTEGER) @ [(Element, [])]"
    and ?el = "add_last (spec_flush d fs) (der_element CBS_ASN1_INTEGER (der_uint (unat v)))"
  have l: "length ?gs = Suc (d + 1)" using R(2) by simp
  fix s assume r: "represents s ?gs"
  have "unat v < 256 ^ 8" using unat_lt_len [of v] by simp
  from uint64_out_refines [OF m r l this] obtain ok st s1 where
    u: "uint64_out malloc (d + 1) s v False 8 = (ok, st, s1)" "ok \<longrightarrow> (st \<longleftrightarrow> v \<noteq> 0)"
    and r1: "reaches (add_last ?gs (if v = 0 then [] else der_uint (unat v))) (ok, s1)"
    by (cases "uint64_out malloc (d + 1) s v False 8") auto
  have fin: "reaches ?el (CBB_flush malloc d s)" if "represents s (add_last ?gs (der_uint (unat v)))" for s
    using CBB_flush_refines [OF m that, of d] l by (simp add: element_closed [OF R(2)])
  have last: "reaches (add_last ?gs (der_uint (unat v)))
      (if \<not> st then CBB_add_u8 malloc (d + 1) s1 0 else (True, s1))" if ok
  proof (cases "v = 0")
    case True
    then show ?thesis
      using that u r1 add_u8_top [OF m _ l, of s1 0] by (simp add: der_uint_def)
  next
    case False
    then show ?thesis using that u r1 by simp
  qed
  show "reaches ?el
    (case uint64_out malloc (d + 1) s v False 8 of
       (False, _, s) \<Rightarrow> (False, s)
     | (True, started, s) \<Rightarrow>
         (case (if \<not> started then CBB_add_u8 malloc (d + 1) s 0 else (True, s)) of
            (False, s) \<Rightarrow> (False, s)
          | (True, s) \<Rightarrow> CBB_flush malloc d s))"
  proof (cases ok)
    case True
    show ?thesis unfolding u using True reaches_bind [OF last [OF True] fin] by simp
  next
    case False
    then show ?thesis using u r1 by simp
  qed
qed

end
