(* ===== verification/CbbProps.thy ===== *)
theory CbbProps
  imports CbbOps "HOL-Library.List_Lexorder"
begin

text \<open>
  The properties of the byte-string builder: any program of its operations produces what the abstract
  builder produces, what it writes is read back by the parsers of \<open>Cbs\<close>, object identifiers survive
  the way through their text form, a SET OF comes out in the canonical order, and an error is never
  forgotten.
\<close>

unbundle bit_operations_syntax

section \<open>Programs of builder operations\<close>

datatype cbb_op =
    AddBytes "u8 list"
  | AddU8 u8
  | AddU16 u16
  | AddU24 u32
  | AddU32 u32
  | OpenPrefixed nat
  | OpenElement u32
  | AddUint64 u64
  | AddOctetString "u8 list"
  | AddBool int
  | Flush

fun perform :: "malloc_fun \<Rightarrow> nat \<times> cbb_op \<Rightarrow> cbb \<Rightarrow> bool \<times> cbb" where
  "perform malloc (d, AddBytes xs) s = CBB_add_bytes malloc d s xs (of_nat (length xs))"
| "perform malloc (d, AddU8 v) s = CBB_add_u8 malloc d s v"
| "perform malloc (d, AddU16 v) s = CBB_add_u16 malloc d s v"
| "perform malloc (d, AddU24 v) s = CBB_add_u24 malloc d s v"
| "perform malloc (d, AddU32 v) s = CBB_add_u32 malloc d s v"
| "perform malloc (d, OpenPrefixed n) s =
     (if n = 1 then CBB_add_u8_length_prefixed malloc d s
      else if n = 2 then CBB_add_u16_length_prefixed malloc d s
      else CBB_add_u24_length_prefixed malloc d s)"
| "perform malloc (d, OpenElement tag) s = CBB_add_asn1 malloc d s tag"
| "perform malloc (d, AddUint64 v) s = CBB_add_asn1_uint64 malloc d s v"
| "perform malloc (d, AddOctetString xs) s = CBB_add_asn1_octet_string malloc d s xs (of_nat (length xs))"
| "perform malloc (d, AddBool v) s = CBB_add_asn1_bool malloc d s v"
| "perform malloc (d, Flush) s = CBB_flush malloc d s"

fun run :: "malloc_fun \<Rightarrow> (nat \<times> cbb_op) list \<Rightarrow> cbb \<Rightarrow> bool \<times> cbb" where
  "run malloc [] s = (True, s)"
| "run malloc (x # xs) s =
     (case perform malloc x s of (False, s) \<Rightarrow> (False, s) | (True, s) \<Rightarrow> run malloc xs s)"

text \<open>The same on segments. An operation on a depth that is not open has no result.\<close>

fun spec_op :: "cbb_op \<Rightarrow> seg list \<Rightarrow> seg list" where
  "spec_op (AddBytes xs) fs = add_last fs xs"
| "spec_op (AddU8 v) fs = add_last fs [v]"
| "spec_op (AddU16 v) fs = add_last fs (be_bytes 2 (unat v))"
| "spec_op (AddU24 v) fs = add_last fs (be_bytes 3 (unat v))"
| "spec_op (AddU32 v) fs = add_last fs (be_bytes 4 (unat v))"
| "spec_op (OpenPrefixed n) fs = fs @ [(Fixed (if n = 1 then 1 else if n = 2 then 2 else 3), [])]"
| "spec_op (OpenElement tag) fs = add_last fs (der_tag tag) @ [(Element, [])]"
| "spec_op (AddUint64 v) fs = add_last fs (der_element CBS_ASN1_INTEGER (der_uint (unat v)))"
| "spec_op (AddOctetString xs) fs = add_last fs (der_element CBS_ASN1_OCTETSTRING xs)"
| "spec_op (AddBool v) fs = add_last fs (der_element CBS_ASN1_BOOLEAN [if v \<noteq> 0 then 0xff else 0])"
| "spec_op Flush fs = fs"

fun spec_run :: "(nat \<times> cbb_op) list \<Rightarrow> seg list \<Rightarrow> seg list option" where
  "spec_run [] fs = Some fs"
| "spec_run ((d, x) # xs) fs =
     (if d < length fs then spec_run xs (spec_op x (spec_flush d fs)) else None)"

fun op_small :: "cbb_op \<Rightarrow> bool" where
  "op_small (AddBytes xs) \<longleftrightarrow> length xs < 2 ^ 63"
| "op_small (AddOctetString xs) \<longleftrightarrow> length xs < 2 ^ 63"
| "op_small _ \<longleftrightarrow> True"

lemma perform_refines:
  assumes m: "malloc_ok malloc" and R: "represents s fs" "d < length fs" and x: "op_small x"
  shows "reaches (spec_op x (spec_flush d fs)) (perform malloc (d, x) s)"
proof (cases x)
  case (OpenPrefixed n)
  then show ?thesis
    using cbb_add_length_prefixed_refines [OF m R, of 1] cbb_add_length_prefixed_refines [OF m R, of 2]
      cbb_add_length_prefixed_refines [OF m R, of 3]
    by (simp add: CBB_add_u8_length_prefixed_def CBB_add_u16_length_prefixed_def
        CBB_add_u24_length_prefixed_def)
qed (use m R x in \<open>simp_all add: CBB_add_bytes_refines CBB_add_u8_refines CBB_add_u16_refines
    CBB_add_u24_refines CBB_add_u32_refines CBB_add_asn1_refines CBB_add_asn1_uint64_refines
    CBB_add_asn1_octet_string_refines CBB_add_asn1_bool_refines CBB_flush_refines\<close>)

text \<open>Every operation starts with a flush, which fails once the depth is gone.\<close>

lemma flush_detached: "length (cb_chain s) < d \<Longrightarrow> CBB_flush malloc d s = (False, s)"
  by (subst CBB_flush.simps) simp

lemma flush_error: "bb_error (cb_base s) \<Longrightarrow> CBB_flush malloc d s = (False, s)"
  by (subst CBB_flush.simps) simp

lemma perform_needs_flush:
  assumes "CBB_flush malloc d s = (False, s)"
  shows "perform malloc (d, x) s = (False, s)"
  using assms
  by (cases x) (simp_all add: CBB_add_bytes_def CBB_add_u8_def CBB_add_u16_def CBB_add_u24_def
      CBB_add_u32_def after_flush_def CBB_add_asn1_def CBB_add_asn1_uint64_def
      CBB_add_asn1_octet_string_def CBB_add_asn1_bool_def cbb_add_length_prefixed_def
      CBB_add_u8_length_prefixed_def CBB_add_u16_length_prefixed_def CBB_add_u24_length_prefixed_def)

lemma run_refines:
  "malloc_ok malloc \<Longrightarrow> represents s fs \<Longrightarrow> \<forall>x \<in> set xs. op_small (snd x) \<Longrightarrow>
   run malloc xs s = (True, s') \<Longrightarrow> \<exists>gs. spec_run xs fs = Some gs \<and> represents s' gs"
proof (induction xs arbitrary: s fs)
  case (Cons x xs)
  obtain d op where x: "x = (d, op)" by (cases x)
  obtain s1 where p: "perform malloc (d, op) s = (True, s1)" "run malloc xs s1 = (True, s')"
    using Cons.prems(4) x by (auto split: prod.splits bool.splits)
  have d: "d < length fs"
  proof (rule ccontr)
    assume "\<not> d < length fs"
    then have "length (cb_chain s) < d" using represents_length(1,4) [OF Cons.prems(2)] by (cases fs) auto
    then show False using perform_needs_flush [OF flush_detached] p(1) by simp
  qed
  have "op_small op" using Cons.prems(3) x by simp
  from perform_refines [OF Cons.prems(1,2) d this] p(1)
  have "represents s1 (spec_op op (spec_flush d fs))" by simp
  from Cons.IH [OF Cons.prems(1) this _ p(2)] Cons.prems(3) show ?case using x d by simp
qed simp

lemma init_represents:
  assumes "malloc_ok malloc" "unat cap + 8 < 2 ^ 63" "CBB_init malloc base_alloc cap = Some s"
  shows "represents s [(Root, [])]"
proof (cases "OPENSSL_malloc malloc cap")
  case None
  then have "cap = 0" using assms(3) by (auto simp: CBB_init_def word_gt_0 split: if_splits)
  then show ?thesis using None assms(3)
    by (auto simp: CBB_init_def cbb_init_def represents_def kinds_ok_def base_ok_def as_buf_mem_def
        buf_ok_def bb_contents_def split: if_splits)
next
  case (Some b)
  have "unat cap + 8 < 2 ^ 64" using assms(2) by simp
  from OPENSSL_malloc_Some [OF assms(1) this Some] Some assms(3) show ?thesis
    by (auto simp: CBB_init_def cbb_init_def represents_def kinds_ok_def base_ok_def as_buf_mem_def
        buf_ok_def bb_contents_def split: if_splits)
qed

lemma represents_root: "represents s fs \<Longrightarrow> \<exists>b rest. fs = (Root, b) # rest"
  by (cases fs) (auto simp: represents_def kinds_ok_def)

lemma finish_contents:
  assumes "malloc_ok malloc" "represents s fs" "CBB_finish malloc 0 s a b = (Some (buf, n), r)"
  shows "take (unat n) (bytes_of buf) = collapse fs \<and> r = None \<and> collapse_ok (tl fs) \<and>
    length (collapse fs) < 2 ^ 63"
proof -
  obtain c rest where fs: "fs = (Root, c) # rest" using represents_root [OF assms(2)] by blast
  obtain s1 where fl: "CBB_flush malloc 0 s = (True, s1)" and out: "buf = bb_buf (cb_base s1)" "n = bb_len (cb_base s1)"
    using assms(3) by (auto simp: CBB_finish_def split: prod.splits bool.splits if_splits)
  have ok: "collapse_ok (tl fs)" and R: "represents s1 (spec_flush 0 fs)"
    using flush_refines [OF assms(1,2) _ fl] fs by auto
  have "bb_contents (cb_base s1) = layout (spec_flush 0 fs)" using R by (simp add: represents_def)
  moreover have "r = None" using assms(3) fl by (auto simp: CBB_finish_def split: if_splits)
  moreover have "length (layout (spec_flush 0 fs)) < 2 ^ 63" using represents_length(2) [OF R] by simp
  ultimately show ?thesis using ok by (simp add: out bb_contents_def spec_flush_def fs)
qed

text \<open>
  C18. Any program of builder operations on an initialised CBB that succeeds, with the prefixes nested
  in any way, finishes with exactly the bytes of the abstract builder: every segment preceded by its
  length in minimal DER form or in the fixed number of octets.
\<close>

theorem cbb_program_correct:
  assumes "malloc_ok malloc" "unat cap + 8 < 2 ^ 63" "CBB_init malloc base_alloc cap = Some s0"
    "\<forall>x \<in> set prog. op_small (snd x)" "run malloc prog s0 = (True, s)"
    "CBB_finish malloc 0 s True True = (Some (buf, n), r)"
  shows "\<exists>fs. spec_run prog [(Root, [])] = Some fs \<and> take (unat n) (bytes_of buf) = collapse fs"
  using run_refines [OF assms(1) init_represents [OF assms(1-3)] assms(4,5)]
    finish_contents [OF assms(1) _ assms(6)] by blast

theorem cbb_program_correct_witness:
  "\<exists>s0 s buf n r. CBB_init zero_malloc True 2 = Some s0 \<and>
     run zero_malloc [(0, OpenElement 0x20000010), (1, AddUint64 200), (1, OpenPrefixed 2), (2, AddU8 7)] s0 = (True, s) \<and>
     CBB_finish zero_malloc 0 s True True = (Some (buf, n), r) \<and>
     take (unat n) (bytes_of buf) = [0x30, 7, 2, 2, 0, 200, 0, 1, 7]"
proof -
  let ?prog = "[(0, OpenElement 0x20000010), (1, AddUint64 200), (1, OpenPrefixed 2), (2, AddU8 7)]"
  have i: "(case CBB_init zero_malloc True 2 of None \<Rightarrow> False
      | Some s0 \<Rightarrow> (case run zero_malloc ?prog s0 of (ok, s) \<Rightarrow>
          ok \<and> fst (CBB_finish zero_malloc 0 s True True) \<noteq> None))" by code_simp
  have o: "map_option collapse (spec_run ?prog [(Root, [])]) = Some [0x30, 7, 2, 2, 0, 200, 0, 1, 7]"
    by code_simp
  define prog :: "(nat \<times> cbb_op) list" where "prog = ?prog"
  have sm: "\<forall>x \<in> set prog. op_small (snd x)" by (simp add: prog_def)
  obtain s0 s buf n r where e: "CBB_init zero_malloc True 2 = Some s0"
    "run zero_malloc prog s0 = (True, s)" "CBB_finish zero_malloc 0 s True True = (Some (buf, n), r)"
    using i unfolding prog_def [symmetric]
    by (cases "CBB_init zero_malloc True 2"; cases "run zero_malloc prog (the (CBB_init zero_malloc True 2))";
        cases "CBB_finish zero_malloc 0 (snd (run zero_malloc prog (the (CBB_init zero_malloc True 2)))) True True")
      auto
  have c: "unat (2 :: u64) + 8 < 2 ^ 63" by simp
  from cbb_program_correct [OF zero_malloc_ok c e(1) sm e(2,3)] o
  have "take (unat n) (bytes_of buf) = [0x30, 7, 2, 2, 0, 200, 0, 1, 7]"
    unfolding prog_def [symmetric] by auto
  with e show ?thesis unfolding prog_def [symmetric] by blast
qed

section \<open>Reading back\<close>

lemma get_u_be_bytes:
  assumes "n < 256 ^ k" "k \<le> 4"
  shows "cbs_get_u (be_bytes k n @ rest) k = (Some (of_nat n), rest)"
proof -
  have "unat (be_accumulate 0 (be_bytes k n)) = n"
    using be_accumulate_be_val [of "be_bytes k n"] assms by (simp add: be_val_be_bytes)
  then have "be_accumulate 0 (be_bytes k n) = of_nat n" by (metis of_nat_unat ucast_id)
  then show ?thesis using cbs_get_append [of "be_bytes k n" rest] by (simp add: cbs_get_u_def)
qed

lemma get_length_prefixed_seal:
  assumes "length b < 256 ^ k" "k \<le> 3"
  shows "cbs_get_length_prefixed (seal (Fixed k) b @ rest) k = (Some b, rest)"
proof -
  have "(256 :: nat) ^ k \<le> 256 ^ 3" using assms(2) by (intro power_increasing) simp_all
  then have "unat (of_nat (length b) :: u32) = length b" using assms(1) by (intro unat_of_nat_small) simp
  then show ?thesis
    using get_u_be_bytes [of "length b" k "b @ rest"] assms by (simp add: cbs_get_length_prefixed_def)
qed

lemma get_u32_be_bytes: "CBS_get_u32 (be_bytes 4 (unat w) @ rest) = (Some w, rest)"
  using get_u_be_bytes [of "unat w" 4 rest] unat_lt_len [of w] by (simp add: CBS_get_u32_def)

text \<open>
  C19. What the builder writes the parsers read: an element that holds an integer, an octet string, a
  boolean and a length-prefixed vector of bytes and a 32-bit number is parsed to exactly these values,
  with nothing left over.
\<close>

theorem cbb_cbs_roundtrip:
  assumes "malloc_ok malloc" "unat cap + 8 < 2 ^ 63" "CBB_init malloc base_alloc cap = Some s0"
    "length xs < 2 ^ 63" "length ys < 2 ^ 63"
    "run malloc [(0, OpenElement tag), (1, AddUint64 v), (1, AddOctetString xs), (1, AddBool b),
       (1, OpenPrefixed 2), (2, AddBytes ys), (2, AddU32 w)] s0 = (True, s)"
    "CBB_finish malloc 0 s True True = (Some (buf, n), r)"
  shows "\<exists>body r1 r2 r3 vec r4. CBS_get_asn1 (take (unat n) (bytes_of buf)) tag = (Some body, []) \<and>
    CBS_get_asn1_uint64 body = (Some v, r1) \<and> CBS_get_asn1 r1 CBS_ASN1_OCTETSTRING = (Some xs, r2) \<and>
    CBS_get_asn1_bool r2 = (Some (b \<noteq> 0), r3) \<and> CBS_get_u16_length_prefixed r3 = (Some vec, []) \<and>
    CBS_get_bytes vec (length ys) = (Some ys, r4) \<and> CBS_get_u32 r4 = (Some w, [])"
proof -
  let ?prog = "[(0, OpenElement tag), (1, AddUint64 v), (1, AddOctetString xs), (1, AddBool b),
       (1, OpenPrefixed 2), (2, AddBytes ys), (2, AddU32 w)]"
  let ?i = "der_element CBS_ASN1_INTEGER (der_uint (unat v))"
    and ?o = "der_element CBS_ASN1_OCTETSTRING xs"
    and ?b = "der_element CBS_ASN1_BOOLEAN [if b \<noteq> 0 then 0xff else 0]"
    and ?v = "ys @ be_bytes 4 (unat w)"
  let ?body = "?i @ ?o @ ?b @ seal (Fixed 2) ?v"
  let ?fs = "[(Root, der_tag tag), (Element, ?i @ ?o @ ?b), (Fixed 2, ?v)]"
  have sp: "spec_run ?prog [(Root, [])] = Some ?fs"
    by (simp add: spec_flush_def add_last_def)
  have "\<forall>x \<in> set ?prog. op_small (snd x)" using assms(4,5) by simp
  from run_refines [OF assms(1) init_represents [OF assms(1-3)] this assms(6)] sp
  have "represents s ?fs" by simp
  from finish_contents [OF assms(1) this assms(7)]
  have out: "take (unat n) (bytes_of buf) = der_element tag ?body"
    and fit: "length ?v < 256 ^ 2" "length ?body \<le> 0xfffffffe" and sz: "length (der_element tag ?body) < 2 ^ 63"
    by (simp_all add: der_element_def)
  have s: "length xs < 2 ^ 32" "length (der_element tag ?body) < 2 ^ 64" "length ?body < 2 ^ 32"
    "length (?o @ ?b @ seal (Fixed 2) ?v) < 2 ^ 64" "length (?b @ seal (Fixed 2) ?v) < 2 ^ 64" "length ?body < 2 ^ 64"
    using fit(2) sz by (simp_all add: der_element_def)
  have "CBS_get_asn1 (der_element tag ?body) tag = (Some ?body, [])"
    using get_asn1_exact [OF s(2), of tag ?body "[]"] s(3) by simp
  moreover have "CBS_get_asn1_uint64 ?body = (Some v, ?o @ ?b @ seal (Fixed 2) ?v)"
    using uint64_exact [OF s(6)] by simp
  moreover have "CBS_get_asn1 (?o @ ?b @ seal (Fixed 2) ?v) CBS_ASN1_OCTETSTRING = (Some xs, ?b @ seal (Fixed 2) ?v)"
    using get_asn1_exact [OF s(4)] s(1) by simp
  moreover have "CBS_get_asn1_bool (?b @ seal (Fixed 2) ?v) = (Some (b \<noteq> 0), seal (Fixed 2) ?v)"
    using bool_contents [OF s(5)] get_asn1_exact [OF s(5)] by simp
  moreover have "CBS_get_u16_length_prefixed (seal (Fixed 2) ?v) = (Some ?v, [])"
    using get_length_prefixed_seal [of ?v 2 "[]"] fit(1) by (simp add: CBS_get_u16_length_prefixed_def)
  moreover have "CBS_get_bytes ?v (length ys) = (Some ys, be_bytes 4 (unat w))" by simp
  moreover have "CBS_get_u32 (be_bytes 4 (unat w)) = (Some w, [])" using get_u32_be_bytes [of w "[]"] by simp
  ultimately show ?thesis unfolding out by blast
qed

theorem cbb_cbs_roundtrip_witness:
  "\<exists>s0 s buf n r. CBB_init zero_malloc True 0 = Some s0 \<and>
     run zero_malloc [(0, OpenElement 0x20000010), (1, AddUint64 300), (1, AddOctetString [1]), (1, AddBool 5),
       (1, OpenPrefixed 2), (2, AddBytes [8, 9]), (2, AddU32 7)] s0 = (True, s) \<and>
     CBB_finish zero_malloc 0 s True True = (Some (buf, n), r) \<and>
     (\<exists>body. CBS_get_asn1 (take (unat n) (bytes_of buf)) 0x20000010 = (Some body, []))"
proof -
  let ?prog = "[(0, OpenElement 0x20000010), (1, AddUint64 300), (1, AddOctetString [1]), (1, AddBool 5),
       (1, OpenPrefixed 2), (2, AddBytes [8, 9]), (2, AddU32 7)]"
  have i: "(case CBB_init zero_malloc True 0 of None \<Rightarrow> False
      | Some s0 \<Rightarrow> (case run zero_malloc ?prog s0 of (ok, s) \<Rightarrow>
          ok \<and> fst (CBB_finish zero_malloc 0 s True True) \<noteq> None))" by code_simp
  define prog :: "(nat \<times> cbb_op) list" where "prog = ?prog"
  obtain s0 s buf n r where e: "CBB_init zero_malloc True 0 = Some s0"
    "run zero_malloc prog s0 = (True, s)" "CBB_finish zero_malloc 0 s True True = (Some (buf, n), r)"
    using i unfolding prog_def [symmetric]
    by (cases "CBB_init zero_malloc True 0"; cases "run zero_malloc prog (the (CBB_init zero_malloc True 0))";
        cases "CBB_finish zero_malloc 0 (snd (run zero_malloc prog (the (CBB_init zero_malloc True 0)))) True True")
      auto
  have c: "unat (0 :: u64) + 8 < 2 ^ 63" "length [1 :: u8] < 2 ^ 63" "length [8, 9 :: u8] < 2 ^ 63" by simp_all
  from cbb_cbs_roundtrip [OF zero_malloc_ok c(1) e(1) c(2,3) e(2) [unfolded prog_def] e(3)] e
  show ?thesis unfolding prog_def by blast
qed

text \<open>
  C22. The error flag is never forgotten. Once it is set, every operation that starts with a flush fails and
  changes nothing: the operations of a program, CBB_add_space, CBB_reserve, CBB_flush_asn1_set_of,
  CBB_add_asn1_oid_from_text and CBB_finish. The same holds for a child that was closed. The other two
  operations, CBB_did_write and CBB_discard_child, do not look at the flag and may change the length and the
  open children; but they neither clear the flag nor open a closed child again, so the operations above
  keep failing after them.
\<close>

theorem cbb_error_sticky:
  assumes "bb_error (cb_base s) \<or> length (cb_chain s) < d"
  shows "perform malloc (d, x) s = (False, s) \<and> CBB_add_space malloc d s n = (None, s) \<and>
    CBB_reserve malloc d s n = (None, s) \<and> CBB_finish malloc d s out_data out_len = (None, Some s) \<and>
    CBB_flush_asn1_set_of malloc d s = (False, s) \<and> CBB_add_asn1_oid_from_text malloc d s t l = (False, s) \<and>
    (\<forall>s'. s' = snd (CBB_did_write e s n) \<or> s' = CBB_discard_child e s \<longrightarrow>
       bb_error (cb_base s') = bb_error (cb_base s) \<and> length (cb_chain s') \<le> length (cb_chain s) \<and>
       CBB_flush malloc d s' = (False, s'))"
proof -
  have fl: "CBB_flush malloc d s' = (False, s')" if "bb_error (cb_base s') \<or> length (cb_chain s') < d" for s'
    using that flush_error flush_detached by blast
  have keep: "bb_error (cb_base s') = bb_error (cb_base s) \<and> length (cb_chain s') \<le> length (cb_chain s)"
    if "s' = snd (CBB_did_write e s n) \<or> s' = CBB_discard_child e s" for s'
    using that by (auto simp: CBB_did_write_def CBB_discard_child_def set_base_def Let_def split: if_splits)
  then have "CBB_flush malloc d s' = (False, s')"
    if "s' = snd (CBB_did_write e s n) \<or> s' = CBB_discard_child e s" for s'
    using that assms by (intro fl) fastforce
  with keep show ?thesis
    using perform_needs_flush [OF fl [OF assms]] fl [OF assms]
    by (cases "d = 0") (simp_all add: CBB_add_space_def CBB_reserve_def CBB_finish_def
        CBB_flush_asn1_set_of_def CBB_add_asn1_oid_from_text_def)
qed

theorem cbb_error_sticky_witness:
  "\<exists>s. CBB_add_bytes zero_malloc 0 (the (CBB_init_fixed True [9, 9] 2)) [1, 2, 3] 3 = (False, s) \<and>
     perform zero_malloc (0, AddU8 1) s = (False, s) \<and> CBB_flush_asn1_set_of zero_malloc 0 s = (False, s) \<and>
     CBB_flush zero_malloc 0 (CBB_discard_child 0 s) = (False, CBB_discard_child 0 s)"
proof -
  obtain s where s: "CBB_add_bytes zero_malloc 0 (the (CBB_init_fixed True [9, 9] 2)) [1, 2, 3] 3 = (False, s)"
    "bb_error (cb_base s)"
  proof -
    have "(case CBB_add_bytes zero_malloc 0 (the (CBB_init_fixed True [9, 9] 2)) [1, 2, 3] 3 of
      (ok, s) \<Rightarrow> \<not> ok \<and> bb_error (cb_base s))" by code_simp
    then show thesis using that
      by (cases "CBB_add_bytes zero_malloc 0 (the (CBB_init_fixed True [9, 9] 2)) [1, 2, 3] 3") auto
  qed
  then show ?thesis using cbb_error_sticky [of s 0] by blast
qed

section \<open>Object identifiers\<close>

text \<open>A text component is a decimal number without leading zeros.\<close>

lemma decimal_small: "n < 10 \<Longrightarrow> decimal n = [48 + of_nat n]"
  by (simp add: decimal.simps)

lemma decimal_large: "10 \<le> n \<Longrightarrow> decimal n = decimal (n div 10) @ [48 + of_nat (n mod 10)]"
  by (subst decimal.simps) simp

lemma digit_char:
  assumes "k < 10"
  shows "(48 + of_nat k :: u8) \<noteq> char_dot" "\<not> (48 + of_nat k :: u8) < char_0" "\<not> (48 + of_nat k :: u8) > char_9"
    "(48 + of_nat k :: u8) - char_0 = of_nat k" "unat (ucast (of_nat k :: u8) :: u64) = k"
proof -
  have "unat (48 + of_nat k :: u8) = 48 + k"
    using assms by (subst unat_add_no_overflow) simp_all
  then show "(48 + of_nat k :: u8) \<noteq> char_dot" "\<not> (48 + of_nat k :: u8) < char_0" "\<not> (48 + of_nat k :: u8) > char_9"
    using assms by (auto simp: word_unat_eq_iff word_less_nat_alt)
  show "(48 + of_nat k :: u8) - char_0 = of_nat k" by simp
  show "unat (ucast (of_nat k :: u8) :: u64) = k" using assms by (simp add: unat_ucast_up)
qed

lemma dotted_digit:
  assumes k: "k < 10" and n: "10 * m + k < 2 ^ 64" and z: "seen \<longrightarrow> m \<noteq> 0"
  shows "dotted_loop (of_nat m) seen ((48 + of_nat k) # c) = dotted_loop (of_nat (10 * m + k)) True c"
proof -
  let ?m = "of_nat m :: u64" and ?k = "ucast (of_nat k :: u8) :: u64"
  note d = digit_char [OF k]
  have m: "unat ?m = m" using n by simp
  have "\<not> ?m > UINT64_MAX div 10" using n m by (simp add: word_less_nat_alt unat_div)
  moreover have mm: "unat (?m * 10) = 10 * m" using n m by (subst unat_word_ariths) simp
  moreover have "unat (UINT64_MAX - ?k) = 2 ^ 64 - 1 - k"
    using k d(5) by (subst unat_sub_le) (simp_all add: word_le_nat_alt)
  then have "\<not> ?m * 10 > UINT64_MAX - ?k" using n mm by (simp add: word_less_nat_alt)
  moreover have "?m * 10 + ?k = of_nat (10 * m + k)"
  proof -
    have "?k = of_nat k" using d(5) k by (simp add: word_unat_eq_iff)
    then show ?thesis by simp
  qed
  moreover have "seen \<longrightarrow> ?m \<noteq> 0" using z m by (auto simp: word_unat_eq_iff)
  ultimately show ?thesis using d by (auto simp: mult.commute [of _ 10])
qed

lemma dotted_decimal:
  "n < 2 ^ 64 \<Longrightarrow> dotted_loop 0 False (decimal n @ c) = dotted_loop (of_nat n) True c"
proof (induction n arbitrary: c rule: decimal.induct)
  case (1 n)
  show ?case
  proof (cases "n < 10")
    case True
    then show ?thesis using dotted_digit [of n 0 False c] by (simp add: decimal_small)
  next
    case False
    then have "dotted_loop 0 False (decimal n @ c) =
        dotted_loop (of_nat (n div 10)) True ((48 + of_nat (n mod 10)) # c)"
      using 1 by (simp add: decimal_large)
    also have "\<dots> = dotted_loop (of_nat (10 * (n div 10) + n mod 10)) True c"
      using False 1(2) by (intro dotted_digit) simp_all
    finally show ?thesis by simp
  qed
qed

lemma parse_component_end: "n < 2 ^ 64 \<Longrightarrow> parse_dotted_decimal (decimal n) = (Some (of_nat n), [])"
  using dotted_decimal [of n "[]"] by (simp add: parse_dotted_decimal_def)

lemma parse_component:
  assumes "n < 2 ^ 64" "c \<noteq> []" "length c < 2 ^ 64"
  shows "parse_dotted_decimal (decimal n @ char_dot # c) = (Some (of_nat n), c)"
proof -
  have "CBS_len c > 0" using CBS_len_0 [OF assms(3)] assms(2) by (simp add: word_gt_0)
  then show ?thesis using dotted_decimal [OF assms(1), of "char_dot # c"] by (simp add: parse_dotted_decimal_def)
qed

text \<open>The text of the components from the second on, each with the dot before it.\<close>

definition dotted_tail :: "nat list \<Rightarrow> u8 list" where
  "dotted_tail cs = concat (map (\<lambda>n. char_dot # decimal n) cs)"

definition oid_text :: "nat \<Rightarrow> nat \<Rightarrow> nat list \<Rightarrow> u8 list" where
  "oid_text a b cs = decimal a @ dotted_tail (b # cs)"

definition oid_bytes :: "nat \<Rightarrow> nat \<Rightarrow> nat list \<Rightarrow> u8 list" where
  "oid_bytes a b cs = b128 (40 * a + b) @ concat (map b128 cs)"

definition oid_ok :: "nat \<Rightarrow> nat \<Rightarrow> nat list \<Rightarrow> bool" where
  "oid_ok a b cs \<longleftrightarrow> a \<le> 2 \<and> (a < 2 \<longrightarrow> b \<le> 39) \<and> b + 80 < 2 ^ 64 \<and> (\<forall>n \<in> set cs. n < 2 ^ 64)"

text \<open>One component in front of a tail of dotted components.\<close>

lemma parse_head:
  assumes "n < 2 ^ 64" "length (dotted_tail cs) < 2 ^ 64"
  shows "parse_dotted_decimal (decimal n @ dotted_tail cs) = (Some (of_nat n), tl (dotted_tail cs))"
proof (cases cs)
  case Nil
  then show ?thesis using parse_component_end [OF assms(1)] by (simp add: dotted_tail_def)
next
  case (Cons m ms)
  have "decimal m \<noteq> []" by (subst decimal.simps) simp
  then show ?thesis
    using parse_component [OF assms(1), of "decimal m @ dotted_tail ms"] assms(2) Cons
    by (simp add: dotted_tail_def)
qed

lemma tl_dotted_tail: "tl (dotted_tail (m # ms)) = decimal m @ dotted_tail ms"
  by (simp add: dotted_tail_def)

lemma oid_rest_delivers:
  assumes m: "malloc_ok malloc"
  shows "represents s fs \<Longrightarrow> length fs = Suc d \<Longrightarrow> \<forall>n \<in> set cs. n < 2 ^ 64 \<Longrightarrow>
    length (dotted_tail cs) < 2 ^ 64 \<Longrightarrow>
    delivers malloc s (add_last fs (concat (map b128 cs))) (oid_rest malloc d s (tl (dotted_tail cs)))"
proof (induction cs arbitrary: s fs)
  case Nil
  then have "fs \<noteq> []" by (metis length_0_conv nat.distinct(1))
  then show ?case using Nil by (subst oid_rest.simps) (simp add: dotted_tail_def CBS_len_def)
next
  case (Cons n cs)
  have ne: "fs \<noteq> []" using Cons.prems(2) by (metis length_0_conv nat.distinct(1))
  let ?t = "decimal n @ dotted_tail cs"
  have t: "?t \<noteq> []" by (subst decimal.simps) simp
  have l: "length ?t < 2 ^ 64" "length (dotted_tail cs) < 2 ^ 64" using Cons.prems(4) by (simp_all add: dotted_tail_def)
  have pos: "CBS_len ?t > 0" using CBS_len_0 [OF l(1)] t by (simp add: word_gt_0)
  have p: "parse_dotted_decimal ?t = (Some (of_nat n), tl (dotted_tail cs))"
    using Cons.prems(3) l(2) by (intro parse_head) simp_all
  have n: "unat (of_nat n :: u64) = n" using Cons.prems(3) by simp
  have "delivers malloc s (add_last fs (concat (map b128 (n # cs))))
    (case add_base128_integer malloc d s (of_nat n) of
       (False, s) \<Rightarrow> (False, s) | (True, s) \<Rightarrow> oid_rest malloc d s (tl (dotted_tail cs)))"
  proof (rule delivers_bind [OF add_base128_delivers [OF m Cons.prems(1,2)]])
    show "length (layout (add_last fs (b128 (unat (of_nat n :: u64))))) \<le>
        length (layout (add_last fs (concat (map b128 (n # cs)))))"
      using ne n by (simp add: layout_add_last)
  next
    fix s assume "represents s (add_last fs (b128 (unat (of_nat n :: u64))))"
    then have r: "represents s (add_last fs (b128 n))" by (simp only: n)
    show "delivers malloc s (add_last fs (concat (map b128 (n # cs)))) (oid_rest malloc d s (tl (dotted_tail cs)))"
      using Cons.IH [OF r] Cons.prems(2,3) ne l(2) by simp
  qed
  then show ?case
    unfolding tl_dotted_tail by (subst oid_rest.simps) (simp only: pos p if_True prod.case option.case)
qed

lemma oid_from_text_delivers:
  assumes m: "malloc_ok malloc" and R: "represents s fs" "length fs = Suc d" and ok: "oid_ok a b cs"
    and len: "length (oid_text a b cs) < 2 ^ 64"
  shows "delivers malloc s (add_last fs (oid_bytes a b cs))
    (CBB_add_asn1_oid_from_text malloc d s (oid_text a b cs) (length (oid_text a b cs)))"
proof -
  let ?out = "add_last fs (oid_bytes a b cs)"
  have l: "length (dotted_tail (b # cs)) < 2 ^ 64" "length (dotted_tail cs) < 2 ^ 64"
    using len by (simp_all add: oid_text_def dotted_tail_def)
  have lt: "a < 2 ^ 64" "b < 2 ^ 64" using ok by (simp_all add: oid_ok_def)
  have p1: "parse_dotted_decimal (oid_text a b cs) = (Some (of_nat a), decimal b @ dotted_tail cs)"
    unfolding oid_text_def using parse_head [OF lt(1) l(1)] by (simp only: tl_dotted_tail)
  have p2: "parse_dotted_decimal (decimal b @ dotted_tail cs) = (Some (of_nat b), tl (dotted_tail cs))"
    by (rule parse_head [OF lt(2) l(2)])
  have u: "unat (of_nat a :: u64) = a" "unat (of_nat b :: u64) = b" using lt by simp_all
  have cond: "\<not> ((of_nat a :: u64) > 2 \<or> (of_nat a :: u64) < 2 \<and> (of_nat b :: u64) > 39 \<or>
      (of_nat b :: u64) > UINT64_MAX - 80)"
    using ok u by (auto simp: oid_ok_def word_less_nat_alt)
  have v: "unat (40 * of_nat a + of_nat b :: u64) = 40 * a + b"
  proof -
    have "40 * a + b < 2 ^ 64" using ok by (auto simp: oid_ok_def)
    then have "unat (of_nat (40 * a + b) :: u64) = 40 * a + b" by (intro unat_of_nat_small) simp
    then show ?thesis by simp
  qed
  have ne: "fs \<noteq> []" using R(2) by auto
  have "delivers malloc s ?out (case add_base128_integer malloc d s (40 * of_nat a + of_nat b) of
      (False, s) \<Rightarrow> (False, s) | (True, s) \<Rightarrow> oid_rest malloc d s (tl (dotted_tail cs)))"
  proof (rule delivers_bind [OF add_base128_delivers [OF m R]])
    show "length (layout (add_last fs (b128 (unat (40 * of_nat a + of_nat b :: u64))))) \<le> length (layout ?out)"
      unfolding v using ne by (simp add: layout_add_last oid_bytes_def)
  next
    fix s assume "represents s (add_last fs (b128 (unat (40 * of_nat a + of_nat b :: u64))))"
    then have "represents s (add_last fs (b128 (40 * a + b)))" by (simp only: v)
    from oid_rest_delivers [OF m this, of d cs] ok R(2) ne l(2)
    show "delivers malloc s ?out (oid_rest malloc d s (tl (dotted_tail cs)))"
      by (simp add: oid_ok_def oid_bytes_def)
  qed
  moreover have "CBS_init (oid_text a b cs) (length (oid_text a b cs)) = oid_text a b cs"
    by (simp add: CBS_init_def)
  ultimately show ?thesis
    unfolding CBB_add_asn1_oid_from_text_def flush_top [OF R] Let_def
    by (simp only: p1 p2 prod.case option.case bool.case cond if_False)
qed

lemma length_decimal: "n < 10 ^ Suc k \<Longrightarrow> length (decimal n) \<le> Suc k"
proof (induction k arbitrary: n)
  case (Suc k)
  show ?case
  proof (cases "n < 10")
    case False
    have "n div 10 < 10 ^ Suc k" using Suc.prems by (simp add: less_mult_imp_div_less mult.commute)
    then show ?thesis using Suc.IH False by (simp add: decimal_large)
  qed (simp add: decimal_small)
qed (simp add: decimal_small)

lemma add_decimal_delivers:
  assumes "malloc_ok malloc" "represents s fs" "length fs = Suc d"
  shows "delivers malloc s (add_last fs (decimal (unat v))) (add_decimal malloc d s v)"
proof -
  have "unat v < 10 ^ Suc 19" using unat_lt_len [of v] by simp
  from length_decimal [OF this] have "length (decimal (unat v)) < 2 ^ 63" by simp
  then show ?thesis
    using add_bytes_delivers [OF assms, of "decimal (unat v)"] by (simp add: add_decimal_def Let_def)
qed

lemma oid_text_rest_delivers:
  assumes m: "malloc_ok malloc"
  shows "represents s [(Root, t)] \<Longrightarrow> \<forall>n \<in> set cs. n < 2 ^ 64 \<Longrightarrow>
    length (concat (map b128 cs)) < 2 ^ 64 \<Longrightarrow>
    delivers malloc s [(Root, t @ dotted_tail cs)] (oid_text_rest malloc s (concat (map b128 cs)))"
proof (induction cs arbitrary: s t)
  case Nil
  then show ?case by (subst oid_text_rest.simps) (simp add: dotted_tail_def CBS_len_def)
next
  case (Cons n cs)
  let ?c = "concat (map b128 cs)"
  have ne: "b128 n \<noteq> []" by (simp add: b128_def)
  have l: "length (b128 n @ ?c) < 2 ^ 64" "length ?c < 2 ^ 64" using Cons.prems(3) by simp_all
  have nz: "CBS_len (b128 n @ ?c) \<noteq> 0" using CBS_len_0 [OF l(1)] ne by simp
  have p: "parse_base128_integer (b128 n @ ?c) = (Some (of_nat n), ?c)"
    using Cons.prems(2) by (intro base128_complete) simp
  have n: "unat (of_nat n :: u64) = n" using Cons.prems(2) by simp
  have "delivers malloc s [(Root, t @ dotted_tail (n # cs))]
    (case CBB_add_u8 malloc 0 s char_dot of
       (False, s) \<Rightarrow> (False, s)
     | (True, s) \<Rightarrow> (case add_decimal malloc 0 s (of_nat n) of
           (False, s) \<Rightarrow> (False, s)
         | (True, s) \<Rightarrow> oid_text_rest malloc s ?c))"
  proof (rule delivers_bind [OF add_u8_delivers [OF m Cons.prems(1)]], simp)
    fix s assume "represents s (add_last [(Root, t)] [char_dot])"
    then have r: "represents s [(Root, t @ [char_dot])]" by (simp add: add_last_def)
    show "delivers malloc s [(Root, t @ dotted_tail (n # cs))] (case add_decimal malloc 0 s (of_nat n) of
           (False, s) \<Rightarrow> (False, s)
         | (True, s) \<Rightarrow> oid_text_rest malloc s ?c)"
    proof (rule delivers_bind [OF add_decimal_delivers [OF m r]], simp)
      fix s assume "represents s (add_last [(Root, t @ [char_dot])] (decimal (unat (of_nat n :: u64))))"
      then have "represents s [(Root, t @ char_dot # decimal n)]" unfolding n by (simp add: add_last_def)
      from Cons.IH [OF this _ l(2)] Cons.prems(2)
      show "delivers malloc s [(Root, t @ dotted_tail (n # cs))] (oid_text_rest malloc s ?c)"
        by (simp add: dotted_tail_def)
    qed (use n in \<open>simp add: add_last_def dotted_tail_def\<close>)
  qed (simp add: add_last_def dotted_tail_def)
  then show ?case by (subst oid_text_rest.simps) (simp only: list.map concat.simps nz p if_True prod.case option.case not_False_eq_True)
qed

text \<open>The first two components of the text.\<close>

definition oid_text_first :: "malloc_fun \<Rightarrow> cbb \<Rightarrow> u64 \<Rightarrow> bool \<times> cbb" where
  "oid_text_first malloc s v =
     (if v \<ge> 80 then
        (case CBB_add_bytes malloc 0 s [50, char_dot] 2 of
           (False, s) \<Rightarrow> (False, s) | (True, s) \<Rightarrow> add_decimal malloc 0 s (v - 80))
      else
        (case add_decimal malloc 0 s (v div 40) of
           (False, s) \<Rightarrow> (False, s)
         | (True, s) \<Rightarrow>
             (case CBB_add_u8 malloc 0 s char_dot of
                (False, s) \<Rightarrow> (False, s) | (True, s) \<Rightarrow> add_decimal malloc 0 s (v mod 40))))"

lemma oid_text_first_delivers:
  assumes m: "malloc_ok malloc" and ok: "oid_ok a b cs" and r0: "represents s [(Root, [])]"
  shows "delivers malloc s [(Root, decimal a @ char_dot # decimal b)] (oid_text_first malloc s (of_nat (40 * a + b)))"
proof -
  let ?v = "of_nat (40 * a + b) :: u64"
  have lt: "40 * a + b < 2 ^ 64" using ok by (auto simp: oid_ok_def)
  have v: "unat ?v = 40 * a + b" using lt by (intro unat_of_nat_small) simp
  show ?thesis
  proof (cases "?v \<ge> 80")
    case True
    then have "80 \<le> 40 * a + b" unfolding word_le_nat_alt v by simp
    moreover have "a \<le> 2" "a < 2 \<longrightarrow> b \<le> 39" using ok by (simp_all add: oid_ok_def)
    ultimately have a: "a = 2" by linarith
    have u: "unat (?v - 80) = b" using True v a by (subst unat_sub_le) simp_all
    have d2: "decimal 2 = [50]" by (simp add: decimal_small)
    have "delivers malloc s [(Root, decimal a @ char_dot # decimal b)] (case CBB_add_bytes malloc 0 s [50, char_dot] 2 of
         (False, s) \<Rightarrow> (False, s) | (True, s) \<Rightarrow> add_decimal malloc 0 s (?v - 80))"
    proof (rule delivers_bind)
      show "delivers malloc s [(Root, [50, char_dot])] (CBB_add_bytes malloc 0 s [50, char_dot] 2)"
        using add_bytes_delivers [OF m r0, of 0 "[50, char_dot]"] by (simp add: add_last_def)
      fix s assume "represents s [(Root, [50, char_dot])]"
      from add_decimal_delivers [OF m this, of 0 "?v - 80"]
      show "delivers malloc s [(Root, decimal a @ char_dot # decimal b)] (add_decimal malloc 0 s (?v - 80))"
        by (simp only: u) (simp add: add_last_def a d2)
    qed (simp add: a d2)
    then show ?thesis using True by (simp only: oid_text_first_def if_True)
  next
    case False
    then have small: "40 * a + b < 80" unfolding word_le_nat_alt v by simp
    then have ab: "a < 2" "b \<le> 39" using ok by (auto simp: oid_ok_def)
    have u: "unat (?v div 40) = a" "unat (?v mod 40) = b"
      using ab v by (simp_all add: unat_div unat_mod del: of_nat_add of_nat_mult)
    have "delivers malloc s [(Root, decimal a @ char_dot # decimal b)] (case add_decimal malloc 0 s (?v div 40) of
         (False, s) \<Rightarrow> (False, s)
       | (True, s) \<Rightarrow>
           (case CBB_add_u8 malloc 0 s char_dot of
              (False, s) \<Rightarrow> (False, s) | (True, s) \<Rightarrow> add_decimal malloc 0 s (?v mod 40)))"
    proof (rule delivers_bind)
      show "delivers malloc s [(Root, decimal a)] (add_decimal malloc 0 s (?v div 40))"
        using add_decimal_delivers [OF m r0, of 0 "?v div 40"] by (simp only: u) (simp add: add_last_def)
      fix s assume r1: "represents s [(Root, decimal a)]"
      show "delivers malloc s [(Root, decimal a @ char_dot # decimal b)] (case CBB_add_u8 malloc 0 s char_dot of
              (False, s) \<Rightarrow> (False, s) | (True, s) \<Rightarrow> add_decimal malloc 0 s (?v mod 40))"
      proof (rule delivers_bind)
        show "delivers malloc s [(Root, decimal a @ [char_dot])] (CBB_add_u8 malloc 0 s char_dot)"
          using add_u8_delivers [OF m r1, of 0 char_dot] by (simp add: add_last_def)
        fix s assume "represents s [(Root, decimal a @ [char_dot])]"
        from add_decimal_delivers [OF m this, of 0 "?v mod 40"]
        show "delivers malloc s [(Root, decimal a @ char_dot # decimal b)] (add_decimal malloc 0 s (?v mod 40))"
          by (simp only: u) (simp add: add_last_def)
      qed simp
    qed simp
    then show ?thesis using False by (simp only: oid_text_first_def if_False)
  qed
qed

text \<open>The whole text, before it is taken out of the builder.\<close>

definition oid_text_built :: "malloc_fun \<Rightarrow> cbb \<Rightarrow> u64 \<Rightarrow> cbs \<Rightarrow> bool \<times> cbb" where
  "oid_text_built malloc s v copy =
     (case oid_text_first malloc s v of
        (False, s) \<Rightarrow> (False, s)
      | (True, s) \<Rightarrow> (case oid_text_rest malloc s copy of
          (False, s) \<Rightarrow> (False, s) | (True, s) \<Rightarrow> CBB_add_u8 malloc 0 s 0))"

lemma oid_text_built_delivers:
  assumes m: "malloc_ok malloc" and ok: "oid_ok a b cs" and len: "length (oid_bytes a b cs) < 2 ^ 64"
    and r0: "represents s [(Root, [])]"
  shows "delivers malloc s [(Root, oid_text a b cs @ [0])]
    (oid_text_built malloc s (of_nat (40 * a + b)) (concat (map b128 cs)))"
  unfolding oid_text_built_def
proof (rule delivers_bind [OF oid_text_first_delivers [OF m ok r0]])
  let ?c = "concat (map b128 cs)"
  fix s assume r1: "represents s [(Root, decimal a @ char_dot # decimal b)]"
  have l: "length ?c < 2 ^ 64" "\<forall>n \<in> set cs. n < 2 ^ 64" using len ok by (simp_all add: oid_bytes_def oid_ok_def)
  show "delivers malloc s [(Root, oid_text a b cs @ [0])]
    (case oid_text_rest malloc s ?c of (False, s) \<Rightarrow> (False, s) | (True, s) \<Rightarrow> CBB_add_u8 malloc 0 s 0)"
  proof (rule delivers_bind [OF oid_text_rest_delivers [OF m r1 l(2,1)]])
    fix s assume "represents s [(Root, (decimal a @ char_dot # decimal b) @ dotted_tail cs)]"
    from add_u8_delivers [OF m this, of 0 0]
    show "delivers malloc s [(Root, oid_text a b cs @ [0])] (CBB_add_u8 malloc 0 s 0)"
      by (simp add: add_last_def oid_text_def dotted_tail_def)
  qed (simp add: oid_text_def dotted_tail_def)
qed (simp add: oid_text_def dotted_tail_def)

lemma fail_assoc:
  "(case (case x of (False, s) \<Rightarrow> (False, s) | (True, s) \<Rightarrow> f s) of (False, _) \<Rightarrow> None | (True, s) \<Rightarrow> g s) =
   (case x of (False, _) \<Rightarrow> None | (True, s) \<Rightarrow> (case f s of (False, _) \<Rightarrow> None | (True, s) \<Rightarrow> g s))"
  by (cases x; cases "fst x") auto

lemma CBS_asn1_oid_to_text_built:
  assumes "oid_ok a b cs"
  shows "CBS_asn1_oid_to_text malloc base_alloc (oid_bytes a b cs) =
    (case CBB_init malloc base_alloc 32 of
       None \<Rightarrow> None
     | Some s \<Rightarrow>
    (case oid_text_built malloc s (of_nat (40 * a + b)) (concat (map b128 cs)) of
       (False, _) \<Rightarrow> None
     | (True, s) \<Rightarrow>
    (case CBB_finish malloc 0 s True True of
       (None, _) \<Rightarrow> None
     | (Some (txt, txt_len), _) \<Rightarrow> Some (take (unat txt_len) (bytes_of txt)))))"
proof -
  have "40 * a + b < 2 ^ 64" using assms by (auto simp: oid_ok_def)
  then have p: "parse_base128_integer (oid_bytes a b cs) = (Some (of_nat (40 * a + b)), concat (map b128 cs))"
    unfolding oid_bytes_def by (rule base128_complete)
  show ?thesis
    unfolding CBS_asn1_oid_to_text_def p prod.case option.case oid_text_first_def [symmetric]
      oid_text_built_def fail_assoc ..
qed

lemma finish_top:
  assumes "represents s fs" "length fs = 1" "bb_can_resize (cb_base s)"
  shows "CBB_finish malloc 0 s True True = (Some (bb_buf (cb_base s), bb_len (cb_base s)), None)"
  using flush_top [OF assms(1), of 0] assms(2,3) by (simp add: CBB_finish_def)

lemma init_total:
  assumes "malloc_total malloc" "unat cap \<le> 2 ^ 60"
  obtains s where "CBB_init malloc True cap = Some s" "roomy s"
proof -
  have "unat cap \<le> 2 ^ 61" using assms(2) by simp
  then obtain b where "OPENSSL_malloc malloc cap = Some b" by (rule OPENSSL_malloc_total [OF assms(1)])
  then show thesis using that assms(2) by (simp add: CBB_init_def cbb_init_def roomy_def)
qed

lemma oid_to_text_value:
  assumes m: "malloc_ok malloc" and ok: "oid_ok a b cs" and len: "length (oid_bytes a b cs) < 2 ^ 64"
  shows "CBS_asn1_oid_to_text malloc base_alloc (oid_bytes a b cs) = Some t \<Longrightarrow> t = oid_text a b cs @ [0]"
    and "malloc_total malloc \<Longrightarrow> length (oid_text a b cs) < 2 ^ 59 \<Longrightarrow>
      CBS_asn1_oid_to_text malloc True (oid_bytes a b cs) = Some (oid_text a b cs @ [0])"
proof -
  have cap: "unat (32 :: u64) + 8 < 2 ^ 63" "unat (32 :: u64) \<le> 2 ^ 60" by simp_all
  note built = oid_text_built_delivers [OF m ok len]
  have built_text: "r = oid_text a b cs @ [0]"
    if "CBB_init malloc ba 32 = Some s0" "CBB_finish malloc 0 s True True = (Some (blk, n), x)"
      "oid_text_built malloc s0 (of_nat (40 * a + b)) (concat (map b128 cs)) = (True, s)"
      "r = take (unat n) (bytes_of blk)" for ba s0 s blk n x r
    using delivers_reaches [OF built [OF init_represents [OF m cap(1) that(1)]]] that(2-4)
      finish_contents [OF m _ that(2)] by simp
  show "t = oid_text a b cs @ [0]" if "CBS_asn1_oid_to_text malloc base_alloc (oid_bytes a b cs) = Some t"
    using that unfolding CBS_asn1_oid_to_text_built [OF ok]
    by (auto split: option.splits prod.splits bool.splits intro: built_text)
  assume t: "malloc_total malloc" and small: "length (oid_text a b cs) < 2 ^ 59"
  obtain s0 where s0: "CBB_init malloc True 32 = Some s0" "roomy s0" using init_total [OF t cap(2)] .
  obtain s where s: "oid_text_built malloc s0 (of_nat (40 * a + b)) (concat (map b128 cs)) = (True, s)"
    "roomy s" "represents s [(Root, oid_text a b cs @ [0])]"
    using built [OF init_represents [OF m cap(1) s0(1)]] t s0(2) small
    by (cases "oid_text_built malloc s0 (of_nat (40 * a + b)) (concat (map b128 cs))") (auto simp: delivers_def)
  have f: "CBB_finish malloc 0 s True True = (Some (bb_buf (cb_base s), bb_len (cb_base s)), None)"
    using finish_top [OF s(3)] s(2) by (simp add: roomy_def)
  show "CBS_asn1_oid_to_text malloc True (oid_bytes a b cs) = Some (oid_text a b cs @ [0])"
    unfolding CBS_asn1_oid_to_text_built [OF ok] using built_text [OF s0(1) f s(1) refl] s0(1) s(1) f by simp
qed

lemma length_b128: "n < 2 ^ 64 \<Longrightarrow> length (b128 n) \<le> 10"
  using length_b128_hi [of "n div 128" 9] by (simp add: b128_def less_mult_imp_div_less)

lemma length_oid_bytes:
  assumes "oid_ok a b cs"
  shows "length (oid_bytes a b cs) \<le> 10 * length (oid_text a b cs)"
proof -
  have tail: "\<forall>n \<in> set ns. n < 2 ^ 64 \<Longrightarrow> length (concat (map b128 ns)) \<le> 10 * length (dotted_tail ns)" for ns
  proof (induction ns)
    case (Cons n ns)
    then show ?case using length_b128 [of n] by (simp add: dotted_tail_def)
  qed (simp add: dotted_tail_def)
  have "40 * a + b < 2 ^ 64" using assms by (auto simp: oid_ok_def)
  from length_b128 [OF this] tail [of cs] assms show ?thesis
    by (simp add: oid_bytes_def oid_text_def oid_ok_def dotted_tail_def)
qed

text \<open>
  C20. An object identifier in text form is encoded as the DER contents of its components (the first
  two joined in one), and CBS_asn1_oid_to_text turns these contents back into the same text. With an
  allocator that does not run out of memory every call succeeds for every object identifier whose text is
  shorter than 2^55 bytes; with an allocator that may fail, the calls that succeed give these results.
\<close>

theorem oid_text_roundtrip:
  assumes "malloc_ok malloc" "unat cap \<le> 2 ^ 60" "oid_ok a b cs" "length (oid_text a b cs) < 2 ^ 55"
  shows "(malloc_total malloc \<longrightarrow>
      (\<exists>s0 s buf n r. CBB_init malloc True cap = Some s0 \<and>
        CBB_add_asn1_oid_from_text malloc 0 s0 (oid_text a b cs) (length (oid_text a b cs)) = (True, s) \<and>
        CBB_finish malloc 0 s True True = (Some (buf, n), r) \<and>
        take (unat n) (bytes_of buf) = oid_bytes a b cs \<and>
        CBS_asn1_oid_to_text malloc True (oid_bytes a b cs) = Some (oid_text a b cs @ [0]))) \<and>
    (CBB_init malloc base_alloc cap = Some s0 \<and>
      CBB_add_asn1_oid_from_text malloc 0 s0 (oid_text a b cs) (length (oid_text a b cs)) = (True, s) \<and>
      CBB_finish malloc 0 s True True = (Some (buf, n), r) \<longrightarrow>
      take (unat n) (bytes_of buf) = oid_bytes a b cs) \<and>
    (CBS_asn1_oid_to_text malloc base_alloc (oid_bytes a b cs) = Some t \<longrightarrow> t = oid_text a b cs @ [0])"
proof -
  have cap: "unat cap + 8 < 2 ^ 63" using assms(2) by simp
  have len: "length (oid_text a b cs) < 2 ^ 64" "length (oid_text a b cs) < 2 ^ 59"
    "length (oid_bytes a b cs) < 2 ^ 64" "length (oid_bytes a b cs) \<le> 2 ^ 59"
    using assms(4) length_oid_bytes [OF assms(3)] by simp_all
  note from_text = oid_from_text_delivers [OF assms(1) init_represents [OF assms(1) cap] _ assms(3) len(1),
      where d = 0, unfolded add_last_snoc [of "[]", simplified], simplified]
  note to_text = oid_to_text_value [OF assms(1,3) len(3)]
  have "\<exists>s0 s buf n r. CBB_init malloc True cap = Some s0 \<and>
        CBB_add_asn1_oid_from_text malloc 0 s0 (oid_text a b cs) (length (oid_text a b cs)) = (True, s) \<and>
        CBB_finish malloc 0 s True True = (Some (buf, n), r) \<and>
        take (unat n) (bytes_of buf) = oid_bytes a b cs \<and>
        CBS_asn1_oid_to_text malloc True (oid_bytes a b cs) = Some (oid_text a b cs @ [0])"
    if t: "malloc_total malloc"
  proof -
    obtain s0 where s0: "CBB_init malloc True cap = Some s0" "roomy s0" using init_total [OF t assms(2)] .
    obtain s where s: "roomy s" "represents s [(Root, oid_bytes a b cs)]"
      "CBB_add_asn1_oid_from_text malloc 0 s0 (oid_text a b cs) (length (oid_text a b cs)) = (True, s)"
      using from_text [OF s0(1)] t s0(2) len(4)
      by (cases "CBB_add_asn1_oid_from_text malloc 0 s0 (oid_text a b cs) (length (oid_text a b cs))")
        (auto simp: delivers_def)
    have f: "CBB_finish malloc 0 s True True = (Some (bb_buf (cb_base s), bb_len (cb_base s)), None)"
      using finish_top [OF s(2)] s(1) by (simp add: roomy_def)
    have "take (unat (bb_len (cb_base s))) (bytes_of (bb_buf (cb_base s))) = oid_bytes a b cs"
      using finish_contents [OF assms(1) s(2) f] by simp
    then show ?thesis using s0(1) s(3) f to_text(2) [OF t len(2)] by blast
  qed
  moreover have "take (unat n) (bytes_of buf) = oid_bytes a b cs"
    if "CBB_init malloc base_alloc cap = Some s0"
      "CBB_add_asn1_oid_from_text malloc 0 s0 (oid_text a b cs) (length (oid_text a b cs)) = (True, s)"
      "CBB_finish malloc 0 s True True = (Some (buf, n), r)"
    using delivers_reaches [OF from_text [OF that(1)]] that(2) finish_contents [OF assms(1) _ that(3)] by simp
  ultimately show ?thesis using to_text(1) by blast
qed

theorem oid_text_roundtrip_witness:
  "\<exists>s0 s buf n r. CBB_init zero_malloc True 4 = Some s0 \<and>
     CBB_add_asn1_oid_from_text zero_malloc 0 s0 [49, 46, 50, 46, 56, 52, 48] 7 = (True, s) \<and>
     CBB_finish zero_malloc 0 s True True = (Some (buf, n), r) \<and>
     take (unat n) (bytes_of buf) = [42, 0x86, 0x48] \<and>
     CBS_asn1_oid_to_text zero_malloc True [42, 0x86, 0x48] = Some [49, 46, 50, 46, 56, 52, 48, 0]"
proof -
  have t: "oid_text 1 2 [840] = [49, 46, 50, 46, 56, 52, 48]" "[49, 46, 50, 46, 56, 52, 48] @ [0] = [49, 46, 50, 46, 56, 52, 48, 0 :: u8]"
    "length [49, 46, 50, 46, 56, 52, 48 :: u8] = 7" by code_simp+
  have b: "oid_bytes 1 2 [840] = [42, 0x86, 0x48]" by code_simp
  have h: "unat (4 :: u64) \<le> 2 ^ 60" "oid_ok 1 2 [840]" "length (oid_text 1 2 [840]) < 2 ^ 55"
    unfolding t by (simp_all add: oid_ok_def)
  from oid_text_roundtrip [OF zero_malloc_ok h, THEN conjunct1, rule_format, OF zero_malloc_total]
  show ?thesis unfolding t b .
qed

section \<open>SET OF\<close>

lemma compare_set_of_Cons:
  "compare_set_of_element (x # a) (y # b) =
     (if x < y then - 1 else if x > y then 1 else compare_set_of_element a b)"
  by (simp add: compare_set_of_element_def Let_def)

lemma compare_set_of_value:
  "compare_set_of_element a b = (if a < b then - 1 else if a = b then 0 else 1)"
proof (induction a arbitrary: b)
  case Nil
  then show ?case by (cases b) (simp_all add: compare_set_of_element_def)
next
  case (Cons x a)
  show ?case
  proof (cases b)
    case Nil
    then show ?thesis by (simp add: compare_set_of_element_def)
  next
    case (Cons y b')
    then show ?thesis using Cons.IH [of b'] by (auto simp: compare_set_of_Cons)
  qed
qed

interpretation set_of_order: comparison compare_set_of_element
  by unfold_locales (auto simp: compare_set_of_value split: if_splits)

lemma qsort_is_sort: "qsort compare_set_of_element xs = sort xs"
proof (rule properties_for_sort [symmetric])
  show "mset (qsort compare_set_of_element xs) = mset xs" by (rule set_of_order.mset_qsort)
  have "compare_set_of_element x y \<le> 0 \<longleftrightarrow> x \<le> y" for x y
    by (auto simp: compare_set_of_value)
  then show "sorted (qsort compare_set_of_element xs)"
    using set_of_order.qsort_ascending [of xs] by (simp add: ascending_def)
qed

text \<open>The children of a concatenation of elements are these elements.\<close>

definition is_element :: "u8 list \<Rightarrow> bool" where
  "is_element e \<longleftrightarrow> (\<exists>tag content. length content < 2 ^ 32 \<and> e = der_element tag content)"

lemma get_element:
  assumes "is_element e" "length (e @ rest) < 2 ^ 64"
  shows "\<exists>tag hl. CBS_get_any_asn1_element (e @ rest) = (Some (e, tag, hl), rest)"
  using assms any_element_exact [OF assms(2)] unfolding is_element_def by blast

lemma is_element_nonempty: "is_element e \<Longrightarrow> e \<noteq> []"
  by (auto simp: is_element_def der_element_def)

lemma set_of_children_value:
  "length cbs < 2 ^ 64 \<Longrightarrow> length cbs < fuel \<Longrightarrow>
   set_of_children cbs fuel = Some es \<longleftrightarrow> cbs = concat es \<and> (\<forall>e \<in> set es. is_element e)"
proof (induction fuel arbitrary: cbs es)
  case (Suc fuel)
  show ?case
  proof (cases "cbs = []")
    case True
    have "concat es = [] \<and> (\<forall>e \<in> set es. is_element e) \<longleftrightarrow> es = []"
      using is_element_nonempty by (cases es) auto
    then show ?thesis using True by (auto simp: CBS_len_def)
  next
    case False
    then have nz: "CBS_len cbs \<noteq> 0" using CBS_len_0 [OF Suc.prems(1)] by simp
    show ?thesis
    proof (cases "CBS_get_any_asn1_element cbs")
      case (Pair r c)
      show ?thesis
      proof (cases r)
        case None
        have "\<not> (cbs = concat es \<and> (\<forall>e \<in> set es. is_element e))"
        proof
          assume a: "cbs = concat es \<and> (\<forall>e \<in> set es. is_element e)"
          then obtain e es' where es: "es = e # es'" using False by (cases es) auto
          then show False using get_element [of e "concat es'"] a Suc.prems(1) Pair None by auto
        qed
        then show ?thesis using nz Pair None by simp
      next
        case (Some x)
        obtain child t h where x: "x = (child, t, h)" by (cases x)
        then obtain ct where ct: "length ct < 2 ^ 32" "child = der_element t ct" "cbs = child @ c"
          using any_element_exact [OF Suc.prems(1)] Pair Some by blast
        have el: "is_element child" using ct by (auto simp: is_element_def)
        then have lc: "length c < 2 ^ 64" "length c < fuel"
          using is_element_nonempty [OF el] Suc.prems ct(3) by (cases child; simp)+
        note IH = Suc.IH [OF lc]
        have uniq: "e = child \<and> concat es' = c" if "cbs = concat (e # es')" "is_element e" for e es'
        proof -
          have "cbs = e @ concat es'" using that(1) by simp
          then show ?thesis using get_element [OF that(2), of "concat es'"] Suc.prems(1) Pair Some x by auto
        qed
        have step: "set_of_children cbs (Suc fuel) = map_option (\<lambda>cs. child # cs) (set_of_children c fuel)"
          using nz Pair Some x by simp
        show ?thesis
        proof
          assume "set_of_children cbs (Suc fuel) = Some es"
          then obtain es' where "es = child # es'" "set_of_children c fuel = Some es'"
            using step by (auto simp del: set_of_children.simps)
          then show "cbs = concat es \<and> (\<forall>e \<in> set es. is_element e)" using IH [of es'] el ct(3) by simp
        next
          assume a: "cbs = concat es \<and> (\<forall>e \<in> set es. is_element e)"
          then obtain e es' where es: "es = e # es'" using False by (cases es) auto
          with a uniq [of e es'] have "e = child" "concat es' = c" by auto
          then show "set_of_children cbs (Suc fuel) = Some es" 
            using step IH [of es'] a es by (simp del: set_of_children.simps)
        qed
      qed
    qed
  qed
qed simp

lemma add_all_refines:
  assumes m: "malloc_ok malloc"
  shows "represents s fs \<Longrightarrow> length fs = Suc d \<Longrightarrow> \<forall>c \<in> set cs. length c < 2 ^ 63 \<Longrightarrow>
    reaches (add_last fs (concat cs)) (add_all malloc d s cs)"
proof (induction cs arbitrary: s fs)
  case Nil
  then have "fs \<noteq> []" by (metis length_0_conv nat.distinct(1))
  then show ?case using Nil by simp
next
  case (Cons c cs)
  have ne: "fs \<noteq> []" using Cons.prems(2) by (metis length_0_conv nat.distinct(1))
  have "reaches (add_last fs (concat (c # cs)))
    (case CBB_add_bytes malloc d s c (of_nat (length c)) of
       (False, s) \<Rightarrow> (False, s) | (True, s) \<Rightarrow> add_all malloc d s cs)"
  proof (rule reaches_bind)
    show "reaches (add_last fs c) (CBB_add_bytes malloc d s c (of_nat (length c)))"
      using CBB_add_bytes_refines [OF m Cons.prems(1), of d c] Cons.prems(2,3) by simp
    fix s assume "represents s (add_last fs c)"
    from Cons.IH [OF this] Cons.prems(2,3) ne
    show "reaches (add_last fs (concat (c # cs))) (add_all malloc d s cs)" by simp
  qed
  then show ?case by simp
qed

lemma kinds_ok_map:
  "kinds_ok fs \<longleftrightarrow> map fst fs \<noteq> [] \<and> hd (map fst fs) = Root \<and>
     (\<forall>k \<in> set (tl (map fst fs)). k \<noteq> Root \<and> (\<forall>n. k = Fixed n \<longrightarrow> 1 \<le> n \<and> n \<le> 3))"
  by (cases fs) (auto simp: kinds_ok_def)

text \<open>Rewinding to the start of the innermost segment.\<close>

lemma cbb_start_value:
  assumes "represents s fs" "length fs = Suc d"
  shows "unat (cbb_start d s) = length (layout fs) - length (snd (fs ! d))"
    "length (snd (fs ! d)) \<le> length (layout fs)"
    "drop (length (layout fs) - length (snd (fs ! d))) (layout fs) = snd (fs ! d)"
    "layout (take d fs @ [(fst (fs ! d), [])]) = take (length (layout fs) - length (snd (fs ! d))) (layout fs)"
proof -
  obtain k b where kb: "fs ! d = (k, b)" by (cases "fs ! d")
  have "fs = take d fs @ [(k, b)]" using assms(2) kb by (metis lessI take_Suc_conv_app_nth take_all order_refl)
  then have lay: "layout fs = layout (take d fs) @ replicate (plen k) 0 @ b"
    by (metis append_Nil2 layout.simps layout_append)
  then show "length (snd (fs ! d)) \<le> length (layout fs)"
    "drop (length (layout fs) - length (snd (fs ! d))) (layout fs) = snd (fs ! d)"
    "layout (take d fs @ [(fst (fs ! d), [])]) = take (length (layout fs) - length (snd (fs ! d))) (layout fs)"
    using kb by (simp_all add: layout_append)
  show "unat (cbb_start d s) = length (layout fs) - length (snd (fs ! d))"
  proof (cases d)
    case 0
    then have "k = Root" using assms kb by (cases fs) (auto simp: represents_def kinds_ok_def)
    then show ?thesis using lay kb 0 by (simp add: cbb_start_def)
  next
    case (Suc e)
    then have e: "length fs = Suc (Suc e)" using assms(2) by simp
    note t = represents_top_at [OF assms(1) e]
    from top_at_facts(7) [OF t] t show ?thesis
      using lay kb Suc by (simp add: cbb_start_def top_at_def)
  qed
qed

lemma rewind_represents:
  assumes R: "represents s fs" "length fs = Suc d"
  shows "represents (set_base s ((cb_base s)\<lparr>bb_len := cbb_start d s\<rparr>)) (take d fs @ [(fst (fs ! d), [])])"
proof -
  note c = cbb_start_value [OF R]
  let ?b = "(cb_base s)\<lparr>bb_len := cbb_start d s\<rparr>"
  have le: "cbb_start d s \<le> bb_len (cb_base s)"
    using c(1,2) represents_length(3) [OF R(1)] by (simp add: word_le_nat_alt)
  have "base_ok ?b"
    using R(1) shrink_ok [of "as_buf_mem (cb_base s)"] le
    by (simp add: represents_def base_ok_def as_buf_mem_def)
  moreover have "bb_contents ?b = layout (take d fs @ [(fst (fs ! d), [])])"
  proof -
    have "bb_contents ?b = take (unat (cbb_start d s)) (bb_contents (cb_base s))"
      using le by (simp add: bb_contents_def word_le_nat_alt min_def)
    then show ?thesis using R(1) c(1,4) by (simp add: represents_def)
  qed
  moreover have "chain_of 0 (take d fs @ [(fst (fs ! d), [])]) = chain_of 0 fs"
    using chain_prefix [of d fs 0 "[]"] R(2) by simp
  moreover have "kinds_ok (take d fs @ [(fst (fs ! d), [])])"
  proof -
    have "fs = take d fs @ [fs ! d]" using R(2) by (metis lessI take_Suc_conv_app_nth take_all order_refl)
    then have "map fst (take d fs @ [fs ! d]) = map fst fs" by simp
    then have "map fst (take d fs @ [(fst (fs ! d), [])]) = map fst fs" by simp
    then show ?thesis using R(1) unfolding represents_def kinds_ok_map by simp
  qed
  ultimately show ?thesis using R(1) by (simp add: represents_def set_base_def)
qed

lemma flush_set_of_refines:
  assumes m: "malloc_ok malloc" and R: "represents s fs" "d < length fs"
    and ok: "CBB_flush_asn1_set_of malloc d s = (True, s')"
  shows "\<exists>es. snd (last (spec_flush d fs)) = concat es \<and> (\<forall>e \<in> set es. is_element e) \<and>
    represents s' (take d fs @ [(fst (fs ! d), concat (sort es))])"
proof -
  let ?gs = "spec_flush d fs"
  obtain s1 where f: "CBB_flush malloc d s = (True, s1)"
    using ok by (cases "CBB_flush malloc d s") (auto simp: CBB_flush_asn1_set_of_def split: bool.splits)
  have R1: "represents s1 ?gs" using CBB_flush_refines [OF m R] f by simp
  have l: "length ?gs = Suc d" using R(2) by simp
  have gd: "last ?gs = ?gs ! d" "take d ?gs = take d fs" "fst (?gs ! d) = fst (fs ! d)"
    using R(2) by (simp_all add: spec_flush_def nth_append)
  define body where "body = snd (?gs ! d)"
  note c = cbb_start_value [OF R1 l, folded body_def]
  note len = represents_length(2,3) [OF R1]
  have blen: "length body < 2 ^ 63" using c(2) len(1) by simp
  have "cbb_start d s1 \<le> bb_len (cb_base s1)" using c(1,2) len(2) by (simp add: word_le_nat_alt)
  then have ul: "unat (CBB_len d s1) = length body"
    using c(1,2) len(2) by (simp add: CBB_len_def unat_sub_le)
  have bytes: "take (unat (CBB_len d s1)) (drop (unat (CBB_data d s1)) (bytes_of (bb_buf (cb_base s1)))) = body"
  proof -
    have cont: "bb_contents (cb_base s1) = layout ?gs" using R1 by (simp add: represents_def)
    have "take (length body) (drop (length (layout ?gs) - length body) (bytes_of (bb_buf (cb_base s1)))) =
        drop (length (layout ?gs) - length body) (take (length (layout ?gs)) (bytes_of (bb_buf (cb_base s1))))"
      using c(2) by (simp add: drop_take)
    also have "\<dots> = body" using cont len(2) c(3) by (simp add: bb_contents_def)
    finally show ?thesis by (simp add: ul CBB_data_def c(1))
  qed
  define pass where "pass = set_of_children (CBS_init body (length body)) (Suc (length (CBS_init body (length body))))"
  have val: "pass = Some es \<longleftrightarrow> body = concat es \<and> (\<forall>e \<in> set es. is_element e)" for es
    unfolding pass_def using set_of_children_value [of body "Suc (length body)" es] blen by (simp add: CBS_init_def)
  have gs: "?gs = take d fs @ [(fst (fs ! d), body)]"
    using R(2) by (simp add: body_def spec_flush_def nth_append)
  have res: "(case pass of
      None \<Rightarrow> (False, s1)
    | Some children \<Rightarrow>
        let num_children = of_nat (length children) :: u64
        in if num_children < 2 then (True, s1)
           else if num_children > (0 - 1) div sizeof_CBS then (False, s1)
           else (case (BUF_memdup malloc body (CBB_len d s1), OPENSSL_malloc malloc (num_children * sizeof_CBS)) of
               (Some buf, Some _) \<Rightarrow>
                 (case set_of_children (CBS_init (data buf) (length body))
                     (Suc (length (CBS_init (data buf) (length body)))) of
                    None \<Rightarrow> (False, s1)
                  | Some children \<Rightarrow>
                      add_all malloc d (set_base s1 ((cb_base s1)\<lparr>bb_len := cbb_start d s1\<rparr>))
                        (qsort compare_set_of_element children))
             | _ \<Rightarrow> (False, s1))) = (True, s')"
    using ok unfolding CBB_flush_asn1_set_of_def f prod.case bool.case Let_def bytes
    unfolding ul pass_def by (simp only: prod.case bool.case)
  then obtain es where es: "pass = Some es" by (cases pass) simp_all
  with val have body: "body = concat es" and el: "\<forall>e \<in> set es. is_element e" by blast+
  have "length es \<le> length (concat es)" using el
    by (induction es) (auto dest!: is_element_nonempty simp: Suc_le_eq add_less_le_mono neq_Nil_conv)
  then have n: "unat (of_nat (length es) :: u64) = length es" using blen body by simp
  have "represents s' (take d fs @ [(fst (fs ! d), concat (sort es))])"
  proof (cases "of_nat (length es) < (2 :: u64)")
    case True
    then have "length es < 2" by (simp add: word_less_nat_alt n)
    then have "sort es = es" by (cases es; cases "tl es") auto
    moreover have "s' = s1" using res True by (simp add: es Let_def)
    ultimately show ?thesis using R1 gs body by simp
  next
    case False
    with res obtain buf where b: "BUF_memdup malloc body (CBB_len d s1) = Some buf"
      and add: "(case set_of_children (CBS_init (data buf) (length body))
             (Suc (length (CBS_init (data buf) (length body)))) of
           None \<Rightarrow> (False, s1)
         | Some children \<Rightarrow>
             add_all malloc d (set_base s1 ((cb_base s1)\<lparr>bb_len := cbb_start d s1\<rparr>))
               (qsort compare_set_of_element children)) = (True, s')"
      by (simp only: es option.case Let_def if_False split: if_splits)
        (auto split: option.splits simp del: set_of_children.simps)
    have "CBS_init (data buf) (length body) = body"
      using b blen ul by (auto simp: BUF_memdup_def CBS_init_def put_bytes_def split: if_splits option.splits)
    then have "add_all malloc d (set_base s1 ((cb_base s1)\<lparr>bb_len := cbb_start d s1\<rparr>)) (sort es) = (True, s')"
      using add es unfolding pass_def by (simp add: qsort_is_sort CBS_init_def del: set_of_children.simps)
    moreover have "\<forall>c \<in> set (sort es). length c < 2 ^ 63"
    proof
      fix c assume "c \<in> set (sort es)"
      then have "length c \<le> length (concat es)" by (auto dest!: split_list)
      then show "length c < 2 ^ 63" using blen body by simp
    qed
    ultimately show ?thesis
      using add_all_refines [OF m rewind_represents [OF R1 l], of d "sort es"] R(2) gd
      by (simp add: add_last_snoc)
  qed
  then show ?thesis using body el gs by (intro exI [of _ es]) simp
qed

text \<open>
  C21. CBB_flush_asn1_set_of replaces the contents of the current CBB, which must be a sequence of DER
  elements, by the same elements in ascending order of their encodings; nothing else changes.
\<close>

theorem set_of_is_sorted:
  assumes "malloc_ok malloc" "represents s fs" "d < length fs"
    "CBB_flush_asn1_set_of malloc d s = (True, s')"
  shows "\<exists>es. snd (last (spec_flush d fs)) = concat es \<and> (\<forall>e \<in> set es. is_element e) \<and>
    represents s' (take d fs @ [(fst (fs ! d), concat (sort es))])"
  by (rule flush_set_of_refines [OF assms])

theorem set_of_is_sorted_witness:
  "\<exists>s0 s s'. CBB_init zero_malloc True 8 = Some s0 \<and>
     run zero_malloc [(0, AddUint64 7), (0, AddBool 0)] s0 = (True, s) \<and>
     CBB_flush_asn1_set_of zero_malloc 0 s = (True, s') \<and>
     represents s' [(Root, [1, 1, 0, 2, 1, 7])]"
proof -
  let ?prog = "[(0, AddUint64 7), (0, AddBool 0)]"
  have i: "(case CBB_init zero_malloc True 8 of None \<Rightarrow> False
      | Some s0 \<Rightarrow> (case run zero_malloc ?prog s0 of (ok, s) \<Rightarrow>
          ok \<and> (case CBB_flush_asn1_set_of zero_malloc 0 s of (ok', s') \<Rightarrow> ok' \<and>
             take (unat (bb_len (cb_base s'))) (bytes_of (bb_buf (cb_base s'))) = [1, 1, 0, 2, 1, 7])))" by code_simp
  have o: "spec_run ?prog [(Root, [])] = Some [(Root, [2, 1, 7, 1, 1, 0])]" by code_simp
  define prog :: "(nat \<times> cbb_op) list" where "prog = ?prog"
  have sm: "\<forall>x \<in> set prog. op_small (snd x)" by (simp add: prog_def)
  obtain s0 s s' where e: "CBB_init zero_malloc True 8 = Some s0" "run zero_malloc prog s0 = (True, s)"
    "CBB_flush_asn1_set_of zero_malloc 0 s = (True, s')"
    and c: "take (unat (bb_len (cb_base s'))) (bytes_of (bb_buf (cb_base s'))) = [1, 1, 0, 2, 1, 7]"
    using i unfolding prog_def [symmetric]
    by (cases "CBB_init zero_malloc True 8"; cases "run zero_malloc prog (the (CBB_init zero_malloc True 8))";
        cases "CBB_flush_asn1_set_of zero_malloc 0 (snd (run zero_malloc prog (the (CBB_init zero_malloc True 8))))")
      auto
  have h: "unat (8 :: u64) + 8 < 2 ^ 63" by simp
  from run_refines [OF zero_malloc_ok init_represents [OF zero_malloc_ok h e(1)] sm e(2)] o
  have r: "represents s [(Root, [2, 1, 7, 1, 1, 0])]" unfolding prog_def by simp
  from set_of_is_sorted [OF zero_malloc_ok r _ e(3)] obtain es where
    "represents s' [(Root, concat (sort es))]" by auto
  moreover from this have "bb_contents (cb_base s') = concat (sort es)" by (simp add: represents_def)
  ultimately have "represents s' [(Root, [1, 1, 0, 2, 1, 7])]" using c by (simp add: bb_contents_def)
  with e show ?thesis unfolding prog_def by blast
qed

end
