(* ===== verification/Stack.thy ===== *)
theory Stack
  imports Mem CLib
begin

text \<open>
  BoringSSL \<open>crypto/stack/stack.c\<close>: the growing array of pointers. Pointers are the values of a type
  \<open>'p\<close>, with \<open>None\<close> for NULL; a comparison function is a name of type \<open>'c\<close>, so that
  \<open>sk_set_cmp_func\<close> can compare two of them. What the code takes from the C library and from its
  caller is the record \<open>sk_env\<close>: \<open>malloc\<close> seen as giving an array of pointers, the call of a
  comparison function, and \<open>qsort\<close> and \<open>bsearch\<close> with it. The array has \<open>num_alloc\<close> entries of which
  the first \<open>num\<close> are the elements of the stack.
\<close>

unbundle bit_operations_syntax

section \<open>State\<close>

record ('p, 'c) sk_env =
  ptr_malloc :: "u64 \<Rightarrow> 'p option list option"
  comp_call :: "'c \<Rightarrow> 'p option \<Rightarrow> 'p option \<Rightarrow> int"
  comp_qsort :: "'c \<Rightarrow> 'p option list \<Rightarrow> 'p option list"
  comp_bsearch :: "'c \<Rightarrow> 'p option \<Rightarrow> 'p option list \<Rightarrow> nat option"

record ('p, 'c) stack =
  st_num :: u64
  st_data :: "'p option list"
  st_sorted :: bool
  st_num_alloc :: u64
  st_comp :: "'c option"

text \<open>\<open>OPENSSL_malloc\<close> and \<open>OPENSSL_realloc\<close> for arrays of eight-byte pointers.\<close>

definition sk_malloc :: "('p, 'c) sk_env \<Rightarrow> u64 \<Rightarrow> 'p option list option" where
  "sk_malloc env sz =
     (case ptr_malloc env (sz + OPENSSL_MALLOC_PREFIX) of
        None \<Rightarrow> None
      | Some ptr \<Rightarrow> Some (drop 1 ptr))"

definition sk_realloc :: "('p, 'c) sk_env \<Rightarrow> 'p option list \<Rightarrow> u64 \<Rightarrow> 'p option list option" where
  "sk_realloc env orig new_size =
     (case sk_malloc env new_size of
        None \<Rightarrow> None
      | Some ret \<Rightarrow> Some (take (length ret) orig @ drop (length orig) ret))"

text \<open>\<open>memmove\<close> of \<open>n\<close> entries within one array.\<close>

definition move_ptrs :: "'a list \<Rightarrow> nat \<Rightarrow> nat \<Rightarrow> nat \<Rightarrow> 'a list" where
  "move_ptrs xs dst src n = take dst xs @ take n (drop src xs) @ drop (dst + n) xs"

definition kMinSize :: u64 where
  "kMinSize = 4"

definition sk_new :: "('p, 'c) sk_env \<Rightarrow> 'c option \<Rightarrow> ('p, 'c) stack option" where
  "sk_new env comp_fn =
     (case sk_malloc env 40 of
        None \<Rightarrow> None
      | Some _ \<Rightarrow>
          (case sk_malloc env (8 * kMinSize) of
             None \<Rightarrow> None
           | Some arr \<Rightarrow>
               Some \<lparr>st_num = 0, st_data = replicate (unat kMinSize) None @ drop (unat kMinSize) arr,
                 st_sorted = False, st_num_alloc = kMinSize, st_comp = comp_fn\<rparr>))"

definition sk_new_null :: "('p, 'c) sk_env \<Rightarrow> ('p, 'c) stack option" where
  "sk_new_null env = sk_new env None"

section \<open>Elements\<close>

definition sk_num :: "('p, 'c) stack option \<Rightarrow> u64" where
  "sk_num sk = (case sk of None \<Rightarrow> 0 | Some s \<Rightarrow> st_num s)"

definition sk_zero :: "('p, 'c) stack option \<Rightarrow> ('p, 'c) stack option" where
  "sk_zero sk =
     (case sk of
        None \<Rightarrow> None
      | Some s \<Rightarrow>
          if st_num s = 0 then Some s
          else Some (s\<lparr>st_data := replicate (unat (st_num s)) None @ drop (unat (st_num s)) (st_data s),
                        st_num := 0, st_sorted := False\<rparr>))"

definition sk_value :: "('p, 'c) stack option \<Rightarrow> u64 \<Rightarrow> 'p option" where
  "sk_value sk i =
     (case sk of
        None \<Rightarrow> None
      | Some s \<Rightarrow> if i \<ge> st_num s then None else st_data s ! unat i)"

definition sk_set :: "('p, 'c) stack option \<Rightarrow> u64 \<Rightarrow> 'p option \<Rightarrow>
    'p option \<times> ('p, 'c) stack option" where
  "sk_set sk i v =
     (case sk of
        None \<Rightarrow> (None, None)
      | Some s \<Rightarrow>
          if i \<ge> st_num s then (None, Some s)
          else (v, Some (s\<lparr>st_data := (st_data s)[unat i := v]\<rparr>)))"

text \<open>The elements on which \<open>sk_pop_free\<close> calls its function, in order.\<close>

definition sk_pop_free :: "('p, 'c) stack option \<Rightarrow> 'p list" where
  "sk_pop_free sk =
     (case sk of
        None \<Rightarrow> []
      | Some s \<Rightarrow>
          concat (map (\<lambda>i. case st_data s ! i of Some p \<Rightarrow> [p] | None \<Rightarrow> []) [0..<unat (st_num s)]))"

section \<open>Insertion and deletion\<close>

definition sk_grow :: "('p, 'c) sk_env \<Rightarrow> ('p, 'c) stack \<Rightarrow> ('p, 'c) stack option" where
  "sk_grow env s =
     (if st_num_alloc s \<le> st_num s + 1 then
        (let new_alloc = push_bit 1 (st_num_alloc s);
             alloc_size = new_alloc * 8;
             new_alloc = (if new_alloc < st_num_alloc s \<or> alloc_size div 8 \<noteq> new_alloc
                          then st_num_alloc s + 1 else new_alloc);
             alloc_size = new_alloc * 8
         in if new_alloc < st_num_alloc s \<or> alloc_size div 8 \<noteq> new_alloc then None
            else (case sk_realloc env (st_data s) alloc_size of
                    None \<Rightarrow> None
                  | Some arr \<Rightarrow> Some (s\<lparr>st_data := arr, st_num_alloc := new_alloc\<rparr>)))
      else Some s)"

definition sk_insert :: "('p, 'c) sk_env \<Rightarrow> ('p, 'c) stack option \<Rightarrow> 'p option \<Rightarrow> u64 \<Rightarrow>
    u64 \<times> ('p, 'c) stack option" where
  "sk_insert env sk p pos =
     (case sk of
        None \<Rightarrow> (0, None)
      | Some s \<Rightarrow>
          (case sk_grow env s of
             None \<Rightarrow> (0, Some s)
           | Some s \<Rightarrow>
               let num = unat (st_num s);
                   w = unat pos;
                   arr = (if pos \<ge> st_num s then (st_data s)[num := p]
                          else (move_ptrs (st_data s) (w + 1) w (num - w))[w := p]);
                   s = s\<lparr>st_data := arr, st_num := st_num s + 1, st_sorted := False\<rparr>
               in (st_num s, Some s)))"

definition sk_delete :: "('p, 'c) stack option \<Rightarrow> u64 \<Rightarrow> 'p option \<times> ('p, 'c) stack option" where
  "sk_delete sk pos =
     (case sk of
        None \<Rightarrow> (None, None)
      | Some s \<Rightarrow>
          if pos \<ge> st_num s then (None, Some s)
          else
            let w = unat pos;
                ret = st_data s ! w;
                arr = (if pos \<noteq> st_num s - 1
                       then move_ptrs (st_data s) w (w + 1) (unat (st_num s) - w - 1) else st_data s)
            in (ret, Some (s\<lparr>st_data := arr, st_num := st_num s - 1\<rparr>)))"

text \<open>The index of the first entry that is the pointer \<open>p\<close>.\<close>

fun ptr_index :: "'p option \<Rightarrow> 'p option list \<Rightarrow> nat \<Rightarrow> nat option" where
  "ptr_index p [] i = None"
| "ptr_index p (x # xs) i = (if x = p then Some i else ptr_index p xs (i + 1))"

definition sk_delete_ptr :: "('p, 'c) stack option \<Rightarrow> 'p option \<Rightarrow>
    'p option \<times> ('p, 'c) stack option" where
  "sk_delete_ptr sk p =
     (case sk of
        None \<Rightarrow> (None, None)
      | Some s \<Rightarrow>
          (case ptr_index p (take (unat (st_num s)) (st_data s)) 0 of
             None \<Rightarrow> (None, Some s)
           | Some i \<Rightarrow> sk_delete (Some s) (of_nat i)))"

definition sk_shift :: "('p, 'c) stack option \<Rightarrow> 'p option \<times> ('p, 'c) stack option" where
  "sk_shift sk =
     (case sk of
        None \<Rightarrow> (None, None)
      | Some s \<Rightarrow> if st_num s = 0 then (None, Some s) else sk_delete (Some s) 0)"

text \<open>\<open>sk_push\<close> reads \<open>num\<close> without a test for NULL.\<close>

definition sk_push :: "('p, 'c) sk_env \<Rightarrow> ('p, 'c) stack \<Rightarrow> 'p option \<Rightarrow>
    u64 \<times> ('p, 'c) stack option" where
  "sk_push env s p = sk_insert env (Some s) p (st_num s)"

definition sk_pop :: "('p, 'c) stack option \<Rightarrow> 'p option \<times> ('p, 'c) stack option" where
  "sk_pop sk =
     (case sk of
        None \<Rightarrow> (None, None)
      | Some s \<Rightarrow> if st_num s = 0 then (None, Some s) else sk_delete (Some s) (st_num s - 1))"

section \<open>Sorting and searching\<close>

definition sk_sort :: "('p, 'c) sk_env \<Rightarrow> ('p, 'c) stack option \<Rightarrow> ('p, 'c) stack option" where
  "sk_sort env sk =
     (case sk of
        None \<Rightarrow> None
      | Some s \<Rightarrow>
          (case st_comp s of
             None \<Rightarrow> Some s
           | Some c \<Rightarrow>
               if st_sorted s then Some s
               else
                 let n = unat (st_num s)
                 in Some (s\<lparr>st_data := comp_qsort env c (take n (st_data s)) @ drop n (st_data s),
                            st_sorted := True\<rparr>)))"

definition sk_is_sorted :: "('p, 'c) stack option \<Rightarrow> bool" where
  "sk_is_sorted sk = (case sk of None \<Rightarrow> True | Some s \<Rightarrow> st_sorted s)"

definition sk_set_cmp_func :: "('p, 'c) stack \<Rightarrow> 'c option \<Rightarrow> 'c option \<times> ('p, 'c) stack" where
  "sk_set_cmp_func s comp_fn =
     (let old = st_comp s;
          s = (if st_comp s \<noteq> comp_fn then s\<lparr>st_sorted := False\<rparr> else s)
      in (old, s\<lparr>st_comp := comp_fn\<rparr>))"

text \<open>The walk to the first of the entries that match.\<close>

fun sk_first :: "('p \<Rightarrow> bool) \<Rightarrow> 'p list \<Rightarrow> nat \<Rightarrow> nat" where
  "sk_first matches arr 0 = 0"
| "sk_first matches arr (Suc idx) = (if matches (arr ! idx) then sk_first matches arr idx else Suc idx)"

text \<open>The index is \<open>None\<close> where the code returns zero.\<close>

definition sk_find :: "('p, 'c) sk_env \<Rightarrow> ('p, 'c) stack option \<Rightarrow> 'p option \<Rightarrow>
    nat option \<times> ('p, 'c) stack option" where
  "sk_find env sk p =
     (case sk of
        None \<Rightarrow> (None, None)
      | Some s \<Rightarrow>
          (case st_comp s of
             None \<Rightarrow> (ptr_index p (take (unat (st_num s)) (st_data s)) 0, Some s)
           | Some c \<Rightarrow>
               if p = None then (None, Some s)
               else
                 (case sk_sort env (Some s) of
                    None \<Rightarrow> (None, None)
                  | Some s \<Rightarrow>
                      (case comp_bsearch env c p (take (unat (st_num s)) (st_data s)) of
                         None \<Rightarrow> (None, Some s)
                       | Some r \<Rightarrow>
                           (Some (sk_first (\<lambda>x. comp_call env c p x = 0) (st_data s) r), Some s)))))"

section \<open>Copies\<close>

definition sk_dup :: "('p, 'c) sk_env \<Rightarrow> ('p, 'c) stack option \<Rightarrow> ('p, 'c) stack option" where
  "sk_dup env sk =
     (case sk of
        None \<Rightarrow> None
      | Some s \<Rightarrow>
          (case sk_new env (st_comp s) of
             None \<Rightarrow> None
           | Some ret \<Rightarrow>
               (case sk_realloc env (st_data ret) (8 * st_num_alloc s) of
                  None \<Rightarrow> None
                | Some arr \<Rightarrow>
                    let n = unat (st_num s)
                    in Some \<lparr>st_num = st_num s, st_data = take n (st_data s) @ drop n arr,
                         st_sorted = st_sorted s, st_num_alloc = st_num_alloc s, st_comp = st_comp s\<rparr>)))"

text \<open>
  The loop of \<open>sk_deep_copy\<close> over the entries from \<open>i\<close> on, with \<open>n\<close> entries left; the caller's
  \<open>copy_func\<close> acts on a state of its own. The result on failure is the list of the copies that
  \<open>free_func\<close> is called on.
\<close>

type_synonym ('p, 'w) copy_fun = "'p \<Rightarrow> 'w \<Rightarrow> 'p option \<times> 'w"

fun deep_copy_loop :: "('p, 'w) copy_fun \<Rightarrow> 'p option list \<Rightarrow> nat \<Rightarrow> nat \<Rightarrow> 'w \<Rightarrow>
    ('p list + 'p option list) \<times> 'w" where
  "deep_copy_loop copy_func arr i 0 w = (Inr arr, w)"
| "deep_copy_loop copy_func arr i (Suc n) w =
     (case arr ! i of
        None \<Rightarrow> deep_copy_loop copy_func arr (i + 1) n w
      | Some p \<Rightarrow>
          (case copy_func p w of
             (None, w) \<Rightarrow> (Inl (concat (map (\<lambda>j. case arr ! j of Some q \<Rightarrow> [q] | None \<Rightarrow> []) [0..<i])), w)
           | (Some q, w) \<Rightarrow> deep_copy_loop copy_func (arr[i := Some q]) (i + 1) n w))"

definition sk_deep_copy :: "('p, 'c) sk_env \<Rightarrow> ('p, 'w) copy_fun \<Rightarrow> ('p, 'c) stack option \<Rightarrow> 'w \<Rightarrow>
    ('p, 'c) stack option \<times> 'p list \<times> 'w" where
  "sk_deep_copy env copy_func sk w =
     (case sk_dup env sk of
        None \<Rightarrow> (None, [], w)
      | Some ret \<Rightarrow>
          (case deep_copy_loop copy_func (st_data ret) 0 (unat (st_num ret)) w of
             (Inl freed, w) \<Rightarrow> (None, freed, w)
           | (Inr arr, w) \<Rightarrow> (Some (ret\<lparr>st_data := arr\<rparr>), [], w)))"

section \<open>Invariant\<close>

definition sk_env_ok :: "('p, 'c) sk_env \<Rightarrow> bool" where
  "sk_env_ok env \<longleftrightarrow>
     (\<forall>n a. ptr_malloc env n = Some a \<longrightarrow> length a = unat n div 8 \<and> unat n < 2 ^ 63) \<and>
     (\<forall>c. array_search (comp_call env c) (comp_qsort env c) (comp_bsearch env c))"

definition elems :: "('p, 'c) stack \<Rightarrow> 'p option list" where
  "elems s = take (unat (st_num s)) (st_data s)"

definition sk_inv :: "('p, 'c) stack \<Rightarrow> bool" where
  "sk_inv s \<longleftrightarrow> length (st_data s) = unat (st_num_alloc s) \<and> unat (st_num s) < unat (st_num_alloc s) \<and>
     unat (st_num_alloc s) * 8 + 8 < 2 ^ 63"

text \<open>The flag tells the truth: a stack marked as sorted is in the order of its function.\<close>

definition sk_flag :: "('p, 'c) sk_env \<Rightarrow> ('p, 'c) stack \<Rightarrow> bool" where
  "sk_flag env s \<longleftrightarrow> (st_sorted s \<longrightarrow> (\<exists>c. st_comp s = Some c \<and> ascending (comp_call env c) (elems s)))"

lemma length_elems [simp]: "sk_inv s \<Longrightarrow> length (elems s) = unat (st_num s)"
  by (simp add: elems_def sk_inv_def)

lemma sk_env_search: "sk_env_ok env \<Longrightarrow> array_search (comp_call env c) (comp_qsort env c) (comp_bsearch env c)"
  by (simp add: sk_env_ok_def)

lemma sk_malloc_Some:
  assumes "sk_env_ok env" "unat sz + 8 < 2 ^ 64" "sk_malloc env sz = Some a"
  shows "length a = unat sz div 8 \<and> unat sz + 8 < 2 ^ 63"
proof -
  have u: "unat (sz + 8) = unat sz + 8" using assms(2) by (subst unat_add_no_overflow) simp_all
  from assms(3) obtain b where "ptr_malloc env (sz + 8) = Some b" "a = drop 1 b"
    by (auto simp: sk_malloc_def OPENSSL_MALLOC_PREFIX_def split: option.splits)
  moreover from this have "length b = unat (sz + 8) div 8 \<and> unat (sz + 8) < 2 ^ 63"
    using assms(1) unfolding sk_env_ok_def by blast
  ultimately show ?thesis using u by simp
qed

lemma sk_new_inv:
  assumes "sk_env_ok env" "sk_new env cf = Some s"
  shows "sk_inv s \<and> elems s = [] \<and> sk_flag env s \<and> st_comp s = cf"
proof -
  from assms(2) obtain a where a: "sk_malloc env 32 = Some a"
    "s = \<lparr>st_num = 0, st_data = replicate 4 None @ drop 4 a, st_sorted = False, st_num_alloc = 4, st_comp = cf\<rparr>"
    by (auto simp: sk_new_def kMinSize_def split: option.splits)
  then show ?thesis using sk_malloc_Some [OF assms(1) _ a(1)]
    by (simp add: sk_inv_def elems_def sk_flag_def)
qed

lemma sk_grow_Some:
  assumes "sk_env_ok env" "sk_inv s" "sk_grow env s = Some t"
  shows "sk_inv t \<and> unat (st_num t) + 1 < unat (st_num_alloc t) \<and> st_num t = st_num s \<and>
    take (unat (st_num s)) (st_data t) = take (unat (st_num s)) (st_data s) \<and> st_comp t = st_comp s"
proof -
  let ?na = "st_num_alloc s"
  have inv: "unat (st_num s) < unat ?na" "unat ?na * 8 + 8 < 2 ^ 63" "length (st_data s) = unat ?na"
    using assms(2) by (simp_all add: sk_inv_def)
  have u1: "unat (st_num s + 1) = unat (st_num s) + 1" using inv by (subst unat_add_no_overflow) simp_all
  have u2: "unat (push_bit 1 ?na) = 2 * unat ?na" using inv by (simp add: push_bit_eq_mult unat_word_ariths)
  have u3: "unat (push_bit 1 ?na * 8) = 16 * unat ?na"
    using inv u2 by (simp add: unat_word_ariths del: One_nat_def)
  have d: "(push_bit 1 ?na * 8) div 8 = push_bit 1 ?na"
    unfolding word_unat_eq_iff using u2 u3 by (simp add: unat_div del: One_nat_def)
  have n: "\<not> push_bit 1 ?na < ?na" unfolding word_less_nat_alt u2 by simp
  show ?thesis
  proof (cases "?na \<le> st_num s + 1")
    case False
    then have "unat (st_num s) + 1 < unat ?na" using u1 by (simp add: word_le_nat_alt)
    then show ?thesis using False assms(2,3) by (simp add: sk_grow_def)
  next
    case True
    with assms(3) d n obtain a where a: "sk_malloc env (push_bit 1 ?na * 8) = Some a"
      "t = s\<lparr>st_data := take (length a) (st_data s) @ drop (length (st_data s)) a,
         st_num_alloc := push_bit 1 ?na\<rparr>"
      by (auto simp: sk_grow_def Let_def sk_realloc_def split: option.splits)
    have "length a = 2 * unat ?na \<and> 16 * unat ?na + 8 < 2 ^ 63"
      using sk_malloc_Some [OF assms(1) _ a(1)] inv u3 by simp
    then show ?thesis using a(2) inv u2 by (simp add: sk_inv_def)
  qed
qed

section \<open>Operations on the list of elements\<close>

lemma move_ptrs_insert:
  assumes "w < n" "n < length xs"
  shows "take (Suc n) ((move_ptrs xs (w + 1) w (n - w))[w := p]) =
    take w (take n xs) @ p # drop w (take n xs)"
proof -
  have t: "take (w + 1) xs = take w xs @ [xs ! w]" using assms by (simp add: take_Suc_conv_app_nth)
  have l: "length (take w xs) = w" using assms by simp
  show ?thesis unfolding move_ptrs_def t using assms l
    by (simp add: list_update_append drop_take min_def Suc_diff_le)
qed

lemma move_ptrs_delete:
  assumes "w < n" "n \<le> length xs"
  shows "take (n - 1) (move_ptrs xs w (w + 1) (n - w - 1)) = take w (take n xs) @ drop (w + 1) (take n xs)"
proof -
  from assms(1) obtain d where "n = Suc (w + d)" using less_iff_Suc_add by blast
  then show ?thesis using assms(2) by (auto simp: move_ptrs_def drop_take min_def)
qed

lemma sk_insert_elems:
  assumes "sk_env_ok env" "sk_inv s" "sk_insert env (Some s) p pos = (r, sk)"
  obtains "r = 0" "sk = Some s"
  | t where "sk = Some t" "sk_inv t" "r = of_nat (length (elems t))" "st_comp t = st_comp s"
      "\<not> st_sorted t" "elems t = take (unat pos) (elems s) @ p # drop (unat pos) (elems s)"
proof (cases "sk_grow env s")
  case None
  then show ?thesis using assms(3) that(1) by (simp add: sk_insert_def)
next
  case (Some u)
  note g = sk_grow_Some [OF assms(1,2) Some]
  let ?n = "unat (st_num s)" and ?w = "unat pos"
  define t where "t = u\<lparr>st_data := (if pos \<ge> st_num s then (st_data u)[?n := p]
       else (move_ptrs (st_data u) (?w + 1) ?w (?n - ?w))[?w := p]), st_num := st_num s + 1, st_sorted := False\<rparr>"
  have t: "sk = Some t" "r = st_num t" "st_num t = st_num s + 1" "st_comp t = st_comp s"
    "\<not> st_sorted t" "st_num_alloc t = st_num_alloc u"
    "st_data t = (if pos \<ge> st_num s then (st_data u)[?n := p]
       else (move_ptrs (st_data u) (?w + 1) ?w (?n - ?w))[?w := p])"
    using assms(3) Some g by (auto simp: sk_insert_def Let_def t_def)
  have "unat (st_num s + 1) = ?n + 1"
    using g by (subst unat_add_no_overflow) (auto simp: sk_inv_def)
  then have n: "unat (st_num t) = Suc ?n" using t(3) by simp
  have len: "?n < length (st_data u)" using g by (auto simp: sk_inv_def)
  have l: "length (st_data t) = length (st_data u)"
    using t(7) len by (auto simp: move_ptrs_def word_le_nat_alt)
  then have inv: "sk_inv t" using g t(6) n by (auto simp: sk_inv_def)
  have "elems t = take ?w (elems s) @ p # drop ?w (elems s)"
  proof (cases "pos \<ge> st_num s")
    case True
    then have "?n \<le> ?w" by (simp add: word_le_nat_alt)
    then show ?thesis using True t(7) n g len by (simp add: elems_def take_Suc_conv_app_nth)
  next
    case False
    then have "?w < ?n" by (simp add: word_le_nat_alt)
    from move_ptrs_insert [OF this len, of p] show ?thesis using False t(7) n g by (simp add: elems_def)
  qed
  moreover have "r = of_nat (length (elems t))" using t(2) inv by simp
  ultimately show ?thesis using that(2) t inv by blast
qed

lemma sk_delete_elems:
  assumes "sk_inv s" "sk_delete (Some s) pos = (r, sk)"
  obtains "length (elems s) \<le> unat pos" "r = None" "sk = Some s"
  | t where "unat pos < length (elems s)" "sk = Some t" "sk_inv t" "r = elems s ! unat pos"
      "elems t = take (unat pos) (elems s) @ drop (unat pos + 1) (elems s)"
      "st_comp t = st_comp s" "st_sorted t = st_sorted s"
proof (cases "pos \<ge> st_num s")
  case True
  then show ?thesis using assms that(1) by (simp add: sk_delete_def word_le_nat_alt)
next
  case False
  let ?n = "unat (st_num s)" and ?w = "unat pos"
  have w: "?w < ?n" using False by (simp add: word_le_nat_alt)
  have len: "?n < length (st_data s)" using assms(1) by (simp add: sk_inv_def)
  have n: "unat (st_num s - 1) = ?n - 1" using w by (subst unat_sub_le) (simp_all add: word_le_nat_alt)
  define t where "t = s\<lparr>st_data := (if pos \<noteq> st_num s - 1
       then move_ptrs (st_data s) ?w (?w + 1) (?n - ?w - 1) else st_data s), st_num := st_num s - 1\<rparr>"
  have t: "sk = Some t" "r = st_data s ! ?w" "st_num t = st_num s - 1" "st_comp t = st_comp s"
    "st_sorted t = st_sorted s" "st_num_alloc t = st_num_alloc s"
    "st_data t = (if pos \<noteq> st_num s - 1 then move_ptrs (st_data s) ?w (?w + 1) (?n - ?w - 1) else st_data s)"
    using assms(2) False by (simp_all add: sk_delete_def Let_def t_def)
  have inv: "sk_inv t" using t w len n assms(1) by (auto simp: sk_inv_def move_ptrs_def min_def)
  have "elems t = take ?w (elems s) @ drop (?w + 1) (elems s)"
  proof (cases "pos = st_num s - 1")
    case True
    then have "?w = ?n - 1" using n by simp
    then show ?thesis using True t n w len by (simp add: elems_def)
  next
    case False
    then show ?thesis using t(3,7) n move_ptrs_delete [OF w less_imp_le [OF len]] by (simp add: elems_def)
  qed
  then show ?thesis using that(2) [of t] t inv w len by (simp add: elems_def)
qed

section \<open>Abstract stacks\<close>

text \<open>The calls of a client, and what they do to a list.\<close>

datatype ('p, 'c) sk_op =
    Insert "'p option" u64
  | Push "'p option"
  | Delete u64
  | Delete_ptr "'p option"
  | Shift
  | Pop
  | Set_at u64 "'p option"
  | Zero
  | Sort
  | Set_cmp "'c option"

datatype 'p sk_result = Count u64 | Ptr "'p option" | Unit

definition sk_step :: "('p, 'c) sk_env \<Rightarrow> ('p, 'c) sk_op \<Rightarrow> ('p, 'c) stack \<Rightarrow>
    'p sk_result \<times> ('p, 'c) stack option" where
  "sk_step env op s =
     (case op of
        Insert p pos \<Rightarrow> map_prod Count id (sk_insert env (Some s) p pos)
      | Push p \<Rightarrow> map_prod Count id (sk_push env s p)
      | Delete pos \<Rightarrow> map_prod Ptr id (sk_delete (Some s) pos)
      | Delete_ptr p \<Rightarrow> map_prod Ptr id (sk_delete_ptr (Some s) p)
      | Shift \<Rightarrow> map_prod Ptr id (sk_shift (Some s))
      | Pop \<Rightarrow> map_prod Ptr id (sk_pop (Some s))
      | Set_at pos v \<Rightarrow> map_prod Ptr id (sk_set (Some s) pos v)
      | Zero \<Rightarrow> (Unit, sk_zero (Some s))
      | Sort \<Rightarrow> (Unit, sk_sort env (Some s))
      | Set_cmp c \<Rightarrow> (Unit, Some (snd (sk_set_cmp_func s c))))"

fun sk_run :: "('p, 'c) sk_env \<Rightarrow> ('p, 'c) sk_op list \<Rightarrow> ('p, 'c) stack option \<Rightarrow>
    'p sk_result list \<times> ('p, 'c) stack option" where
  "sk_run env (op # ops) (Some s) =
     (let (r, sk) = sk_step env op s; (rs, sk) = sk_run env ops sk in (r # rs, sk))"
| "sk_run env _ sk = ([], sk)"

fun list_step :: "('p, 'c) sk_op \<Rightarrow> 'p option list \<Rightarrow> 'p sk_result \<Rightarrow> 'p option list \<Rightarrow> bool" where
  "list_step (Insert p pos) xs r ys \<longleftrightarrow>
     r = Count 0 \<and> ys = xs \<or>
     r = Count (of_nat (length ys)) \<and> ys = take (unat pos) xs @ p # drop (unat pos) xs"
| "list_step (Push p) xs r ys \<longleftrightarrow>
     r = Count 0 \<and> ys = xs \<or> r = Count (of_nat (length ys)) \<and> ys = xs @ [p]"
| "list_step (Delete pos) xs r ys \<longleftrightarrow>
     (if unat pos < length xs
      then r = Ptr (xs ! unat pos) \<and> ys = take (unat pos) xs @ drop (unat pos + 1) xs
      else r = Ptr None \<and> ys = xs)"
| "list_step (Delete_ptr p) xs r ys \<longleftrightarrow> r = Ptr (if p \<in> set xs then p else None) \<and> ys = remove1 p xs"
| "list_step Shift xs r ys \<longleftrightarrow> r = Ptr (case xs of [] \<Rightarrow> None | x # _ \<Rightarrow> x) \<and> ys = tl xs"
| "list_step Pop xs r ys \<longleftrightarrow> r = Ptr (if xs = [] then None else xs ! (length xs - 1)) \<and> ys = butlast xs"
| "list_step (Set_at pos v) xs r ys \<longleftrightarrow>
     r = Ptr (if unat pos < length xs then v else None) \<and> ys = xs[unat pos := v]"
| "list_step Zero xs r ys \<longleftrightarrow> r = Unit \<and> ys = []"
| "list_step Sort xs r ys \<longleftrightarrow> r = Unit \<and> mset ys = mset xs"
| "list_step (Set_cmp c) xs r ys \<longleftrightarrow> r = Unit \<and> ys = xs"

inductive list_run :: "('p, 'c) sk_op list \<Rightarrow> 'p option list \<Rightarrow> 'p sk_result list \<Rightarrow> 'p option list \<Rightarrow> bool" where
  Nil: "list_run [] xs [] xs"
| Cons: "list_step op xs r ys \<Longrightarrow> list_run ops ys rs zs \<Longrightarrow> list_run (op # ops) xs (r # rs) zs"

lemma ptr_index_value:
  "ptr_index p xs i = (if p \<in> set xs then Some (i + length (takeWhile (\<lambda>x. x \<noteq> p) xs)) else None)"
  by (induction p xs i rule: ptr_index.induct) auto

lemma remove1_at_first:
  "p \<in> set xs \<Longrightarrow> n = length (takeWhile (\<lambda>x. x \<noteq> p) xs) \<Longrightarrow>
   n < length xs \<and> xs ! n = p \<and> take n xs @ drop (n + 1) xs = remove1 p xs"
  by (induction xs arbitrary: n) auto

definition step_ok :: "('p, 'c) sk_env \<Rightarrow> ('p, 'c) sk_op \<Rightarrow> ('p, 'c) stack \<Rightarrow> 'p sk_result \<Rightarrow>
    ('p, 'c) stack option \<Rightarrow> bool" where
  "step_ok env op s r sk \<longleftrightarrow>
     (\<exists>t. sk = Some t \<and> sk_inv t \<and> list_step op (elems s) r (elems t) \<and>
       (sk_flag env s \<longrightarrow> (\<forall>i v. op \<noteq> Set_at i v) \<longrightarrow> sk_flag env t))"

lemma ascending_delete: "ascending cmp xs \<Longrightarrow> ascending cmp (take n xs @ drop (Suc n) xs)"
  unfolding ascending_def
proof (induction xs arbitrary: n)
  case (Cons x xs)
  then show ?case by (cases n) (auto dest: in_set_takeD in_set_dropD)
qed simp

lemma insert_step:
  assumes "sk_env_ok env" "sk_inv s" "sk_insert env (Some s) p pos = (n, sk)"
  shows "step_ok env (Insert p pos) s (Count n) sk"
  by (rule sk_insert_elems [OF assms]) (use assms(2) in \<open>auto simp: step_ok_def sk_flag_def\<close>)

lemma delete_step:
  assumes "sk_inv s" "sk_delete (Some s) pos = (p, sk)"
  shows "step_ok env (Delete pos) s (Ptr p) sk"
proof (rule sk_delete_elems [OF assms])
  fix t assume "sk = Some t" "sk_inv t" and *: "unat pos < length (elems s)" "p = elems s ! unat pos"
    "elems t = take (unat pos) (elems s) @ drop (unat pos + 1) (elems s)"
    "st_comp t = st_comp s" "st_sorted t = st_sorted s"
  moreover have "sk_flag env t" if "sk_flag env s"
    using that * ascending_delete by (auto simp: sk_flag_def)
  ultimately show ?thesis by (simp add: step_ok_def)
qed (use assms(1) in \<open>auto simp: step_ok_def\<close>)

lemma delete_ptr_step:
  assumes "sk_inv s" "sk_delete_ptr (Some s) p = (r, sk)"
  shows "step_ok env (Delete_ptr p) s (Ptr r) sk"
proof (cases "p \<in> set (elems s)")
  case False
  then have "r = None \<and> sk = Some s" using assms(2)
    by (simp add: sk_delete_ptr_def elems_def [symmetric] ptr_index_value)
  then show ?thesis using False assms(1) by (simp add: step_ok_def remove1_idem)
next
  case True
  let ?i = "length (takeWhile (\<lambda>x. x \<noteq> p) (elems s))"
  note first = remove1_at_first [OF True refl]
  have "?i < 2 ^ 64" using first assms(1) unat_u64_less [of "st_num s"] by simp
  then have u: "unat (of_nat ?i :: u64) = ?i" by simp
  have "sk_delete (Some s) (of_nat ?i) = (r, sk)" using assms(2) True
    by (simp add: sk_delete_ptr_def elems_def [symmetric] ptr_index_value)
  from delete_step [OF assms(1) this, of env] show ?thesis
    using first True by (simp add: step_ok_def u)
qed

lemma shift_step:
  assumes "sk_inv s" "sk_shift (Some s) = (r, sk)"
  shows "step_ok env Shift s (Ptr r) sk"
proof (cases "st_num s = 0")
  case True
  then have "elems s = []" by (simp add: elems_def)
  then show ?thesis using True assms by (auto simp: sk_shift_def step_ok_def)
next
  case False
  then obtain x xs where e: "elems s = x # xs"
    using assms(1) length_elems [of s] by (cases "elems s") (auto simp: unat_eq_zero)
  have "sk_delete (Some s) 0 = (r, sk)" using assms(2) False by (simp add: sk_shift_def)
  from delete_step [OF assms(1) this, of env] show ?thesis by (simp add: step_ok_def e)
qed

lemma pop_step:
  assumes "sk_inv s" "sk_pop (Some s) = (r, sk)"
  shows "step_ok env Pop s (Ptr r) sk"
proof (cases "st_num s = 0")
  case True
  then have "elems s = []" by (simp add: elems_def)
  then show ?thesis using True assms by (auto simp: sk_pop_def step_ok_def)
next
  case False
  then have "unat (st_num s - 1) = unat (st_num s) - 1"
    by (subst unat_sub_le) (simp_all add: word_le_nat_alt unat_gt_0 Suc_le_eq)
  moreover have "elems s \<noteq> []" using False length_elems [OF assms(1)] by (auto simp: unat_eq_zero)
  moreover have "sk_delete (Some s) (st_num s - 1) = (r, sk)" using assms(2) False by (simp add: sk_pop_def)
  note delete_step [OF assms(1) this, of env]
  moreover have "0 < unat (st_num s)" using False by (simp add: unat_gt_0)
  ultimately show ?thesis using assms(1)
    by (simp add: step_ok_def butlast_conv_take)
qed

lemma push_step:
  assumes "sk_env_ok env" "sk_inv s" "sk_push env s p = (n, sk)"
  shows "step_ok env (Push p) s (Count n) sk"
  using insert_step [OF assms(1,2), of p "st_num s" n sk] assms(2,3)
  by (simp add: step_ok_def sk_push_def)

lemma set_step:
  assumes "sk_inv s" "sk_set (Some s) i v = (r, sk)"
  shows "step_ok env (Set_at i v) s (Ptr r) sk"
  using assms
  by (cases "i \<ge> st_num s")
    (auto simp: sk_set_def step_ok_def word_le_nat_alt sk_inv_def elems_def take_update_swap list_update_beyond)

lemma zero_step:
  assumes "sk_inv s"
  shows "step_ok env Zero s Unit (sk_zero (Some s))"
  using assms by (auto simp: sk_zero_def step_ok_def sk_inv_def elems_def sk_flag_def)

lemma sort_elems:
  assumes "sk_env_ok env" "sk_inv s" "sk_sort env (Some s) = Some t"
  shows "sk_inv t \<and> mset (elems t) = mset (elems s) \<and> st_comp t = st_comp s \<and> st_num t = st_num s \<and>
    (sk_flag env s \<longrightarrow> sk_flag env t \<and> (\<forall>c. st_comp s = Some c \<longrightarrow> ascending (comp_call env c) (elems t)))"
proof (cases "st_comp s = None \<or> st_sorted s")
  case True
  then have "t = s" using assms(3) by (auto simp: sk_sort_def split: option.splits)
  then show ?thesis using True assms(2) by (auto simp: sk_flag_def)
next
  case False
  then obtain c where c: "st_comp s = Some c" "\<not> st_sorted s" by auto
  note search = sk_env_search [OF assms(1), of c]
  let ?n = "unat (st_num s)"
  define ys where "ys = comp_qsort env c (elems s)"
  have t: "t = s\<lparr>st_data := ys @ drop ?n (st_data s), st_sorted := True\<rparr>"
    using assms(3) c by (simp add: sk_sort_def elems_def ys_def Let_def)
  have ys: "length ys = ?n" "mset ys = mset (elems s)" "ascending (comp_call env c) ys"
    using array_search.sort_length [OF search] array_search.sort_mset [OF search]
      array_search.sort_ascending [OF search] assms(2) by (simp_all add: ys_def)
  then have "elems t = ys" by (simp add: t elems_def)
  then show ?thesis using assms(2) c ys by (simp add: t sk_inv_def sk_flag_def)
qed

lemma sk_sort_total: "\<exists>t. sk_sort env (Some s) = Some t"
  by (simp add: sk_sort_def Let_def split: option.splits)

lemma sort_step:
  assumes "sk_env_ok env" "sk_inv s"
  shows "step_ok env Sort s Unit (sk_sort env (Some s))"
proof -
  obtain t where t: "sk_sort env (Some s) = Some t" using sk_sort_total by blast
  from sort_elems [OF assms t] show ?thesis by (simp add: step_ok_def t)
qed

lemma set_cmp_step:
  assumes "sk_inv s"
  shows "step_ok env (Set_cmp c) s Unit (Some (snd (sk_set_cmp_func s c)))"
  using assms by (auto simp: step_ok_def sk_set_cmp_func_def Let_def sk_inv_def elems_def sk_flag_def)

lemma sk_step_ok:
  assumes "sk_env_ok env" "sk_inv s" "sk_step env op s = (r, sk)"
  shows "step_ok env op s r sk"
proof (cases op)
  case (Insert p pos)
  obtain n t where "sk_insert env (Some s) p pos = (n, t)" by fastforce
  with insert_step [OF assms(1,2) this] show ?thesis using assms(3) Insert by (simp add: sk_step_def)
next
  case (Push p)
  obtain n t where "sk_push env s p = (n, t)" by fastforce
  with push_step [OF assms(1,2) this] show ?thesis using assms(3) Push by (simp add: sk_step_def)
next
  case (Delete pos)
  obtain p t where "sk_delete (Some s) pos = (p, t)" by fastforce
  with delete_step [OF assms(2) this] show ?thesis using assms(3) Delete by (simp add: sk_step_def)
next
  case (Delete_ptr p)
  obtain q t where "sk_delete_ptr (Some s) p = (q, t)" by fastforce
  with delete_ptr_step [OF assms(2) this] show ?thesis using assms(3) Delete_ptr by (simp add: sk_step_def)
next
  case Shift
  obtain q t where "sk_shift (Some s) = (q, t)" by fastforce
  with shift_step [OF assms(2) this] show ?thesis using assms(3) Shift by (simp add: sk_step_def)
next
  case Pop
  obtain q t where "sk_pop (Some s) = (q, t)" by fastforce
  with pop_step [OF assms(2) this] show ?thesis using assms(3) Pop by (simp add: sk_step_def)
next
  case (Set_at pos v)
  obtain q t where "sk_set (Some s) pos v = (q, t)" by fastforce
  with set_step [OF assms(2) this] show ?thesis using assms(3) Set_at by (simp add: sk_step_def)
qed (use assms(3) zero_step [OF assms(2)] sort_step [OF assms(1,2)] set_cmp_step [OF assms(2)]
       in \<open>auto simp: sk_step_def\<close>)

lemma sk_run_ok:
  assumes "sk_env_ok env" "sk_inv s" "sk_run env ops (Some s) = (rs, sk)"
  shows "\<exists>t. sk = Some t \<and> sk_inv t \<and> list_run ops (elems s) rs (elems t) \<and>
    (sk_flag env s \<longrightarrow> (\<forall>i v. Set_at i v \<notin> set ops) \<longrightarrow> sk_flag env t)"
  using assms(2,3)
proof (induction ops arbitrary: s rs)
  case Nil
  then show ?case by (auto intro: list_run.Nil)
next
  case (Cons op ops)
  obtain r u where step: "sk_step env op s = (r, u)" by fastforce
  obtain qs v where rest: "sk_run env ops u = (qs, v)" by fastforce
  obtain t where t: "u = Some t" "sk_inv t" "list_step op (elems s) r (elems t)"
    "sk_flag env s \<longrightarrow> (\<forall>i v. op \<noteq> Set_at i v) \<longrightarrow> sk_flag env t"
    using sk_step_ok [OF assms(1) Cons.prems(1) step] unfolding step_ok_def by blast
  have eq: "rs = r # qs" "sk = v" using Cons.prems(2) step rest by simp_all
  obtain w where w: "sk = Some w" "sk_inv w" "list_run ops (elems t) qs (elems w)"
    "sk_flag env t \<longrightarrow> (\<forall>i v. Set_at i v \<notin> set ops) \<longrightarrow> sk_flag env w"
    using Cons.IH [OF t(2)] rest eq(2) t(1) by blast
  show ?case using w t(3,4) eq(1) by (auto intro: list_run.Cons)
qed

text \<open>
  With an allocator that does not run out of memory no call fails for want of it, as long as the array
  and the number of elements stay moderate: the array is only doubled when it is full.
\<close>

definition sk_total :: "('p, 'c) sk_env \<Rightarrow> bool" where
  "sk_total env \<longleftrightarrow> (\<forall>n. unat n \<le> 2 ^ 62 \<longrightarrow> ptr_malloc env n \<noteq> None)"

definition sk_room :: "('p, 'c) stack \<Rightarrow> nat \<Rightarrow> bool" where
  "sk_room s k \<longleftrightarrow> unat (st_num_alloc s) \<le> 2 ^ 57 \<and> length (elems s) + k \<le> 2 ^ 55"

lemma sk_grow_total:
  assumes "sk_total env" "sk_inv s" "sk_room s (Suc k)"
  shows "\<exists>t. sk_grow env s = Some t \<and> unat (st_num_alloc t) \<le> 2 ^ 57"
proof -
  let ?na = "st_num_alloc s"
  have b: "unat ?na \<le> 2 ^ 57" "unat (st_num s) + 1 \<le> 2 ^ 55"
    using assms(2,3) by (simp_all add: sk_room_def)
  have u1: "unat (st_num s + 1) = unat (st_num s) + 1" using b(2) by (subst unat_add_no_overflow) simp_all
  have u2: "unat (push_bit 1 ?na) = 2 * unat ?na" using b(1) by (simp add: push_bit_eq_mult unat_word_ariths)
  have u3: "unat (push_bit 1 ?na * 8) = 16 * unat ?na"
    using b(1) u2 by (simp add: unat_word_ariths del: One_nat_def)
  have d: "(push_bit 1 ?na * 8) div 8 = push_bit 1 ?na"
    unfolding word_unat_eq_iff using u2 u3 by (simp add: unat_div del: One_nat_def)
  have n: "\<not> push_bit 1 ?na < ?na" unfolding word_less_nat_alt u2 by simp
  show ?thesis
  proof (cases "?na \<le> st_num s + 1")
    case False
    then show ?thesis using b(1) by (simp add: sk_grow_def)
  next
    case True
    then have le: "unat ?na \<le> 2 ^ 55" using b(2) unfolding word_le_nat_alt u1 by simp
    have "unat (push_bit 1 ?na * 8 + 8) = 16 * unat ?na + 8"
      using le u3 by (subst unat_add_no_overflow) simp_all
    then have "ptr_malloc env (push_bit 1 ?na * 8 + 8) \<noteq> None"
      using assms(1) le by (simp add: sk_total_def)
    then show ?thesis using True d n le u2
      by (auto simp: sk_grow_def Let_def sk_realloc_def sk_malloc_def OPENSSL_MALLOC_PREFIX_def)
  qed
qed

lemma sk_insert_grows:
  "sk_insert env (Some s) p pos = (n, Some t) \<Longrightarrow> sk_grow env s = Some u \<Longrightarrow>
   st_num_alloc t = st_num_alloc u \<and> n = st_num u + 1"
  by (auto simp: sk_insert_def Let_def)

lemma sk_step_alloc:
  assumes "sk_step env op s = (r, Some t)" "sk_grow env s = Some u" "st_num u + 1 \<noteq> 0"
  shows "r \<noteq> Count 0 \<and> (st_num_alloc t = st_num_alloc s \<or> st_num_alloc t = st_num_alloc u)"
proof (cases op)
  case (Insert p pos)
  obtain n sk where "sk_insert env (Some s) p pos = (n, sk)" by fastforce
  then show ?thesis using sk_insert_grows [OF _ assms(2), of p pos n t] assms(1,3) Insert
    by (auto simp: sk_step_def)
next
  case (Push p)
  obtain n sk where "sk_insert env (Some s) p (st_num s) = (n, sk)" by fastforce
  then show ?thesis using sk_insert_grows [OF _ assms(2), of p "st_num s" n t] assms(1,3) Push
    by (auto simp: sk_step_def sk_push_def)
qed (use assms(1) in \<open>auto simp: sk_step_def sk_delete_def sk_delete_ptr_def sk_shift_def sk_pop_def sk_set_def
    sk_zero_def sk_sort_def sk_set_cmp_func_def Let_def split: if_splits option.splits\<close>)

lemma list_step_length: "list_step op xs r ys \<Longrightarrow> length ys \<le> Suc (length xs)"
  by (cases op) (auto dest: arg_cong [where f = size] simp: length_remove1 split: if_splits)

lemma sk_step_total:
  assumes "sk_env_ok env" "sk_total env" "sk_inv s" "sk_room s (Suc k)" "sk_step env op s = (r, Some t)"
  shows "r \<noteq> Count 0 \<and> sk_room t k"
proof -
  obtain u where u: "sk_grow env s = Some u" "unat (st_num_alloc u) \<le> 2 ^ 57"
    using sk_grow_total [OF assms(2-4)] by blast
  have "unat (st_num u) < 2 ^ 55"
    using sk_grow_Some [OF assms(1,3) u(1)] assms(3,4) by (simp add: sk_room_def)
  then have "unat (st_num u + 1) = unat (st_num u) + 1" by (subst unat_add_no_overflow) simp_all
  then have "st_num u + 1 \<noteq> 0" by (auto simp: word_unat_eq_iff)
  note alloc = sk_step_alloc [OF assms(5) u(1) this]
  have "list_step op (elems s) r (elems t)" using sk_step_ok [OF assms(1,3,5)] by (simp add: step_ok_def)
  from list_step_length [OF this] have "length (elems t) + k \<le> 2 ^ 55" using assms(4) by (simp add: sk_room_def)
  then show ?thesis using alloc u(2) assms(4) by (auto simp: sk_room_def)
qed

lemma sk_run_total:
  assumes "sk_env_ok env" "sk_total env" "sk_inv s" "sk_room s (length ops)" "sk_run env ops (Some s) = (rs, sk)"
  shows "Count 0 \<notin> set rs"
  using assms(3-5)
proof (induction ops arbitrary: s rs)
  case (Cons op ops)
  obtain r u where step: "sk_step env op s = (r, u)" by fastforce
  obtain qs v where rest: "sk_run env ops u = (qs, v)" by fastforce
  obtain t where t: "u = Some t" "sk_inv t"
    using sk_step_ok [OF assms(1) Cons.prems(1) step] unfolding step_ok_def by blast
  have "sk_room s (Suc (length ops))" using Cons.prems(2) by simp
  from sk_step_total [OF assms(1,2) Cons.prems(1) this step [unfolded t(1)]]
  have "r \<noteq> Count 0" "sk_room t (length ops)" by simp_all
  moreover have "rs = r # qs" "sk = v" using Cons.prems(3) step rest by simp_all
  ultimately show ?case using Cons.IH [OF t(2)] rest t(1) by auto
qed simp

section \<open>Searching\<close>

lemma sk_first_cong:
  "(\<And>j. j < i \<Longrightarrow> xs ! j = ys ! j) \<Longrightarrow> sk_first m xs i = sk_first m ys i"
  by (induction i) simp_all

context array_search
begin

text \<open>Among the matching elements of a sorted array the walk reaches the first one.\<close>

lemma walk_to_first:
  assumes "ascending cmp xs" "r < length xs" "cmp key (xs ! r) = 0"
  shows "sk_first (\<lambda>x. cmp key x = 0) xs r \<le> r \<and> cmp key (xs ! sk_first (\<lambda>x. cmp key x = 0) xs r) = 0 \<and>
    (\<forall>j < sk_first (\<lambda>x. cmp key x = 0) xs r. cmp key (xs ! j) \<noteq> 0)"
  using assms(2,3)
proof (induction r)
  case (Suc r)
  show ?case
  proof (cases "cmp key (xs ! r) = 0")
    case True
    then show ?thesis using Suc by simp
  next
    case False
    have "cmp key (xs ! j) \<noteq> 0" if "j < Suc r" for j
    proof
      assume "cmp key (xs ! j) = 0"
      moreover have "cmp (xs ! j) (xs ! r) \<le> 0"
        using ascending_nth [OF assms(1), of j r] that Suc.prems by simp
      ultimately have "cmp key (xs ! r) \<le> 0" using le_trans [of key "xs ! j" "xs ! r"] by simp
      then have "cmp key (xs ! r) < 0" using False by simp
      moreover have "cmp (xs ! r) (xs ! Suc r) \<le> 0"
        using ascending_nth [OF assms(1), of r "Suc r"] Suc.prems by simp
      ultimately show False using less_le_trans_cmp [of key "xs ! r" "xs ! Suc r"] Suc.prems by simp
    qed
    then show ?thesis using False Suc.prems by simp
  qed
qed simp

end

lemma ptr_index_first:
  "case ptr_index p xs 0 of
     None \<Rightarrow> \<forall>x \<in> set xs. x \<noteq> p
   | Some i \<Rightarrow> i < length xs \<and> xs ! i = p \<and> (\<forall>j < i. xs ! j \<noteq> p)"
proof (cases "p \<in> set xs")
  case True
  have "xs ! j \<noteq> p" if "j < length (takeWhile (\<lambda>x. x \<noteq> p) xs)" for j
    using that nth_mem [OF that] by (metis set_takeWhileD takeWhile_nth)
  then show ?thesis using True remove1_at_first [OF True refl] by (simp add: ptr_index_value)
qed (auto simp: ptr_index_value)

definition sk_matches :: "('p, 'c) sk_env \<Rightarrow> 'c option \<Rightarrow> 'p option \<Rightarrow> 'p option \<Rightarrow> bool" where
  "sk_matches env cf p x =
     (case cf of None \<Rightarrow> x = p | Some c \<Rightarrow> p \<noteq> None \<and> comp_call env c p x = 0)"

text \<open>What a search reports of the elements \<open>xs\<close>: the first match, or that there is none.\<close>

definition first_match :: "('p option \<Rightarrow> bool) \<Rightarrow> 'p option list \<Rightarrow> nat option \<Rightarrow> bool" where
  "first_match m xs r =
     (case r of
        None \<Rightarrow> (\<forall>x \<in> set xs. \<not> m x)
      | Some i \<Rightarrow> i < length xs \<and> m (xs ! i) \<and> (\<forall>j < i. \<not> m (xs ! j)))"

lemma find_in_sorted:
  assumes "sk_env_ok env" "ascending (comp_call env c) (elems s)"
  shows "first_match (\<lambda>x. comp_call env c p x = 0) (elems s)
    (case comp_bsearch env c p (elems s) of
       None \<Rightarrow> None
     | Some r \<Rightarrow> Some (sk_first (\<lambda>x. comp_call env c p x = 0) (st_data s) r))"
proof (cases "comp_bsearch env c p (elems s)")
  case None
  then show ?thesis using array_search.search_None [OF sk_env_search [OF assms(1)] assms(2)]
    by (simp add: first_match_def)
next
  case (Some r)
  have search: "array_search (comp_call env c) (comp_qsort env c) (comp_bsearch env c)"
    by (rule sk_env_search [OF assms(1)])
  have r: "r < length (elems s)" "comp_call env c p (elems s ! r) = 0"
    using array_search.search_Some [OF search Some] by simp_all
  have "sk_first m (st_data s) r = sk_first m (elems s) r" for m
    using r(1) by (intro sk_first_cong) (simp add: elems_def)
  then show ?thesis using Some array_search.walk_to_first [OF search assms(2) r] r(1)
    by (auto simp: first_match_def)
qed

section \<open>Deep copies\<close>

text \<open>Copying a list element by element; on failure the copies made so far.\<close>

fun copy_list :: "('p, 'w) copy_fun \<Rightarrow> 'p option list \<Rightarrow> 'w \<Rightarrow> ('p list + 'p option list) \<times> 'w" where
  "copy_list cf [] w = (Inr [], w)"
| "copy_list cf (None # xs) w =
     (case copy_list cf xs w of (Inl fs, w) \<Rightarrow> (Inl fs, w) | (Inr ys, w) \<Rightarrow> (Inr (None # ys), w))"
| "copy_list cf (Some p # xs) w =
     (case cf p w of
        (None, w) \<Rightarrow> (Inl [], w)
      | (Some q, w) \<Rightarrow>
          (case copy_list cf xs w of
             (Inl fs, w) \<Rightarrow> (Inl (q # fs), w)
           | (Inr ys, w) \<Rightarrow> (Inr (Some q # ys), w)))"

definition somes :: "'p option list \<Rightarrow> 'p list" where
  "somes xs = concat (map (\<lambda>x. case x of Some q \<Rightarrow> [q] | None \<Rightarrow> []) xs)"

lemma somes_prefix:
  "concat (map (\<lambda>j. case (pre @ xs) ! j of Some q \<Rightarrow> [q] | None \<Rightarrow> []) [0..<length pre]) = somes pre"
proof -
  have "map (\<lambda>j. case (pre @ xs) ! j of Some q \<Rightarrow> [q] | None \<Rightarrow> []) [0..<length pre] =
      map (\<lambda>x. case x of Some q \<Rightarrow> [q] | None \<Rightarrow> []) pre"
    by (rule nth_equalityI) (simp_all add: nth_append)
  then show ?thesis by (simp only: somes_def)
qed

lemma somes_Nil: "somes [] = []"
  by (simp add: somes_def)

lemma somes_snoc [simp]:
  "somes (xs @ [None]) = somes xs" "somes (xs @ [Some q]) = somes xs @ [q]"
  by (simp_all add: somes_def)

lemma deep_copy_loop_value:
  "deep_copy_loop cf (pre @ xs @ post) (length pre) (length xs) w =
     (case copy_list cf xs w of
        (Inl fs, w) \<Rightarrow> (Inl (somes pre @ fs), w)
      | (Inr ys, w) \<Rightarrow> (Inr (pre @ ys @ post), w))"
proof (induction cf xs w arbitrary: pre rule: copy_list.induct)
  case (2 cf xs w)
  from 2 [of "pre @ [None]"] show ?case by (auto split: prod.splits sum.splits)
next
  case (3 cf p xs w)
  show ?case
  proof (cases "cf p w")
    case (Pair q w')
    show ?thesis
    proof (cases q)
      case None
      then show ?thesis using Pair by (simp add: somes_prefix)
    next
      case (Some r)
      from 3 [OF Pair [symmetric] Some, of "pre @ [Some r]"] Pair Some show ?thesis
        by (auto split: prod.splits sum.splits)
    qed
  qed
qed simp

lemma sk_dup_Some:
  assumes "sk_env_ok env" "sk_inv s" "sk_dup env (Some s) = Some t"
  shows "sk_inv t \<and> elems t = elems s \<and> st_comp t = st_comp s \<and> st_sorted t = st_sorted s \<and> st_num t = st_num s"
proof -
  let ?n = "unat (st_num s)" and ?na = "unat (st_num_alloc s)"
  have inv: "?n < ?na" "?na * 8 + 8 < 2 ^ 63" "length (st_data s) = ?na"
    using assms(2) by (simp_all add: sk_inv_def)
  from assms(3) obtain u a where u: "sk_new env (st_comp s) = Some u"
    "sk_malloc env (8 * st_num_alloc s) = Some a"
    "t = \<lparr>st_num = st_num s, st_data = take ?n (st_data s) @
            drop ?n (take (length a) (st_data u) @ drop (length (st_data u)) a),
          st_sorted = st_sorted s, st_num_alloc = st_num_alloc s, st_comp = st_comp s\<rparr>"
    by (auto simp: sk_dup_def sk_realloc_def Let_def split: option.splits)
  have "unat (8 * st_num_alloc s) = 8 * ?na" using inv by (simp add: unat_word_ariths)
  then have "length a = ?na" using sk_malloc_Some [OF assms(1) _ u(2)] inv by simp
  then show ?thesis using inv by (simp add: u(3) sk_inv_def elems_def)
qed

text \<open>
  A deep copy copies the elements in order, and when one copy fails it frees exactly those it has
  made.
\<close>

theorem sk_deep_copy_value:
  assumes "sk_env_ok env" "sk_inv s" "sk_dup env (Some s) = Some t"
  shows "sk_deep_copy env cf (Some s) w =
    (case copy_list cf (elems s) w of
       (Inl freed, w) \<Rightarrow> (None, freed, w)
     | (Inr ys, w) \<Rightarrow> (Some (t\<lparr>st_data := ys @ drop (length (elems s)) (st_data t)\<rparr>), [], w))"
proof -
  note dup = sk_dup_Some [OF assms]
  have "st_data t = [] @ elems s @ drop (length (elems s)) (st_data t)"
    using dup assms(2) by (metis append_Nil append_take_drop_id elems_def length_elems)
  then have "deep_copy_loop cf (st_data t) 0 (unat (st_num t)) w =
     (case copy_list cf (elems s) w of
        (Inl fs, w) \<Rightarrow> (Inl fs, w)
      | (Inr ys, w) \<Rightarrow> (Inr (ys @ drop (length (elems s)) (st_data t)), w))"
    using deep_copy_loop_value [of cf "[]" "elems s" "drop (length (elems s)) (st_data t)" w,
        unfolded somes_Nil append_Nil] dup assms(2) by simp
  then show ?thesis using assms(3) by (auto simp: sk_deep_copy_def split: prod.splits sum.splits)
qed

section \<open>A concrete environment\<close>

text \<open>Numbers as pointers, ordered by value with NULL below all others.\<close>

definition num_cmp :: "nat option \<Rightarrow> nat option \<Rightarrow> int" where
  "num_cmp a b =
     (let v = (\<lambda>x. case x of None \<Rightarrow> - 1 | Some n \<Rightarrow> int n)
      in if v a < v b then - 1 else if v a > v b then 1 else 0)"

definition num_env :: "(nat, unit) sk_env" where
  "num_env = \<lparr>ptr_malloc = (\<lambda>n. if n < 2 ^ 63 then Some (replicate (unat n div 8) None) else None),
     comp_call = (\<lambda>_. num_cmp), comp_qsort = (\<lambda>_. qsort num_cmp), comp_bsearch = (\<lambda>_. bsearch num_cmp)\<rparr>"

interpretation num_order: comparison num_cmp
  by unfold_locales (auto simp: num_cmp_def Let_def split: if_splits)

lemma num_env_ok: "sk_env_ok num_env"
  using num_order.library_search
  by (auto simp: sk_env_ok_def num_env_def word_less_nat_alt split: if_splits)

lemma num_env_total: "sk_total num_env"
  by (simp add: sk_total_def num_env_def word_less_nat_alt)

section \<open>Properties\<close>

text \<open>
  C26. Any sequence of calls on a stack does to the list of its elements what the same calls do to a
  list, an insertion that runs out of memory leaving it unchanged, and the array stays large enough for
  the elements. With an allocator that does not run out of memory no insertion fails, as long as there are at
  most 2^55 elements and the array has at most 2^57 entries at first. If the flag that says the stack is sorted is truthful at first, it is so at the end, provided that
  none of the calls is sk_set, which overwrites an element without clearing the flag.
\<close>

theorem stack_refines_list:
  assumes "sk_env_ok env" "sk_inv s" "sk_run env ops (Some s) = (rs, sk)"
  shows "\<exists>t. sk = Some t \<and> sk_inv t \<and> list_run ops (elems s) rs (elems t) \<and>
    (sk_total env \<and> unat (st_num_alloc s) \<le> 2 ^ 57 \<and> length (elems s) + length ops \<le> 2 ^ 55 \<longrightarrow>
       Count 0 \<notin> set rs) \<and>
    (sk_flag env s \<longrightarrow> (\<forall>i v. Set_at i v \<notin> set ops) \<longrightarrow> sk_flag env t)"
  using sk_run_ok [OF assms] sk_run_total [OF assms(1) _ assms(2) _ assms(3)] by (auto simp: sk_room_def)

text \<open>
  C27. A search in a stack whose sorted flag is truthful (when it is set, the elements are in ascending
  order) finds the first element that the comparison function calls equal, and finds nothing only if there
  is none: the stack is sorted first, so that the index refers to a rearrangement of the elements; without a
  comparison function the pointer itself is looked for. The search keeps the flag truthful, and so does every other
  call except sk_set; after that one a search can miss elements, as \<open>sk_set_keeps_stale_flag\<close> shows.
\<close>

theorem sk_find_first_match:
  assumes "sk_env_ok env" "sk_inv s" "sk_flag env s" "sk_find env (Some s) p = (r, sk)"
  shows "\<exists>t. sk = Some t \<and> sk_inv t \<and> sk_flag env t \<and> mset (elems t) = mset (elems s) \<and>
    first_match (sk_matches env (st_comp s) p) (elems t) r"
proof (cases "st_comp s")
  case None
  then show ?thesis using assms ptr_index_first [where p = p and xs = "elems s"]
    by (auto simp: sk_find_def first_match_def sk_matches_def elems_def split: option.splits)
next
  case (Some c)
  show ?thesis
  proof (cases "p = None")
    case True
    then show ?thesis using Some assms by (auto simp: sk_find_def first_match_def sk_matches_def)
  next
    case False
    obtain t where t: "sk_sort env (Some s) = Some t" using sk_sort_total by blast
    note sorted = sort_elems [OF assms(1,2) t]
    have "r = (case comp_bsearch env c p (elems t) of None \<Rightarrow> None
       | Some r \<Rightarrow> Some (sk_first (\<lambda>x. comp_call env c p x = 0) (st_data t) r)) \<and> sk = Some t"
      using assms(4) Some False t by (auto simp: sk_find_def elems_def split: option.splits)
    moreover have "sk_matches env (st_comp s) p = (\<lambda>x. comp_call env c p x = 0)"
      using Some False by (simp add: sk_matches_def fun_eq_iff)
    moreover have "ascending (comp_call env c) (elems t)" using sorted Some assms(3) by simp
    ultimately show ?thesis using find_in_sorted [OF assms(1), of c t p] sorted assms(3) by simp
  qed
qed

definition num_stack :: "(nat, unit) stack" where
  "num_stack = the (sk_new num_env (Some ()))"

lemma num_stack_ok: "sk_inv num_stack \<and> elems num_stack = [] \<and> sk_flag num_env num_stack"
proof -
  have "sk_new num_env (Some ()) \<noteq> None" by code_simp
  then show ?thesis using sk_new_inv [OF num_env_ok, of "Some ()"] by (auto simp: num_stack_def)
qed

definition num_calls :: "(nat, unit) sk_op list" where
  "num_calls = [Push (Some 5), Push (Some 3), Insert (Some 4) 1, Sort, Shift]"

theorem stack_refines_list_witness:
  "case sk_run num_env num_calls (Some num_stack) of
     (rs, sk) \<Rightarrow> rs = [Count 1, Count 2, Count 3, Unit, Ptr (Some 3)] \<and> Count 0 \<notin> set rs \<and>
       (\<exists>t. sk = Some t \<and> list_run num_calls [] rs (elems t) \<and> sk_flag num_env t)"
proof -
  obtain rs sk where run: "sk_run num_env num_calls (Some num_stack) = (rs, sk)" by fastforce
  have "fst (sk_run num_env num_calls (Some num_stack)) = [Count 1, Count 2, Count 3, Unit, Ptr (Some 3)]"
    by code_simp
  moreover have "unat (st_num_alloc num_stack) \<le> 2 ^ 57"
  proof -
    have "st_num_alloc num_stack = 4" by code_simp
    then show ?thesis by simp
  qed
  moreover have "length (elems num_stack) + length num_calls \<le> 2 ^ 55" "\<forall>i v. Set_at i v \<notin> set num_calls"
    using num_stack_ok by (simp_all add: num_calls_def)
  moreover note stack_refines_list [OF num_env_ok _ run] num_stack_ok num_env_total
  ultimately show ?thesis using run by auto
qed

definition num_stack3 :: "(nat, unit) stack" where
  "num_stack3 = the (snd (sk_run num_env [Push (Some 5), Push (Some 3), Push (Some 5)] (Some num_stack)))"

theorem sk_find_first_match_witness:
  "\<exists>t. snd (sk_find num_env (Some num_stack3) (Some 5)) = Some t \<and> elems t = [Some 3, Some 5, Some 5] \<and>
     fst (sk_find num_env (Some num_stack3) (Some 5)) = Some 1 \<and> elems num_stack3 = [Some 5, Some 3, Some 5] \<and>
     first_match (sk_matches num_env (Some ()) (Some 5)) (elems t) (Some 1)"
proof -
  let ?ops = "[Push (Some 5), Push (Some 3), Push (Some 5)] :: (nat, unit) sk_op list"
  have "sk_run num_env ?ops (Some num_stack) =
     (fst (sk_run num_env ?ops (Some num_stack)), snd (sk_run num_env ?ops (Some num_stack)))" by simp
  from sk_run_ok [OF num_env_ok _ this] num_stack_ok
  have ok: "sk_inv num_stack3" "sk_flag num_env num_stack3" by (auto simp: num_stack3_def)
  have c: "st_comp num_stack3 = Some ()" by code_simp
  have v: "map_option elems (snd (sk_find num_env (Some num_stack3) (Some 5))) = Some [Some 3, Some 5, Some 5]"
    "fst (sk_find num_env (Some num_stack3) (Some 5)) = Some 1" "elems num_stack3 = [Some 5, Some 3, Some 5]"
    by (code_simp, code_simp, code_simp)
  obtain sk where f: "sk_find num_env (Some num_stack3) (Some 5) = (Some 1, sk)"
    using v(2) by (metis prod.collapse)
  from sk_find_first_match [OF num_env_ok ok f] v c f show ?thesis by auto
qed

text \<open>
  The flag is necessary: overwriting an element of a sorted stack through sk_set leaves it marked as
  sorted, and a search then misses an element that is there.
\<close>

theorem sk_set_keeps_stale_flag:
  "case snd (sk_run num_env [Push (Some 2), Push (Some 3), Push (Some 4), Sort, Set_at 2 (Some 1)] (Some num_stack)) of
     None \<Rightarrow> False
   | Some s \<Rightarrow> elems s = [Some 2, Some 3, Some 1] \<and> st_sorted s \<and> fst (sk_find num_env (Some s) (Some 1)) = None"
  by code_simp

end
