(* ===== verification/Lhash.thy ===== *)
theory Lhash
  imports Mem "HOL-Library.Multiset"
begin

text \<open>
  BoringSSL \<open>crypto/lhash/lhash.c\<close>: the chained hash table. The elements are the values of a type
  \<open>'d\<close> (a pointer to an element together with the fields that its hash and comparison functions
  read); none of them is NULL. A bucket is the list of the items of its chain, in the order of
  their \<open>next\<close> pointers, and a pointer to a pointer into a chain is the bucket's index with a
  position in the chain. Whether an allocation of a given size succeeds is the parameter \<open>alloc\<close>.
\<close>

unbundle bit_operations_syntax

section \<open>State\<close>

record 'd lhash_item =
  item_data :: 'd
  item_hash :: u32

record 'd lhash =
  num_items :: u64
  buckets :: "'d lhash_item list list"
  num_buckets :: u64
  callback_depth :: u32
  lh_comp :: "'d \<Rightarrow> 'd \<Rightarrow> int"
  lh_hash :: "'d \<Rightarrow> u32"

definition kMinNumBuckets :: u64 where
  "kMinNumBuckets = 16"

definition kMaxAverageChainLength :: u64 where
  "kMaxAverageChainLength = 2"

definition kMinAverageChainLength :: u64 where
  "kMinAverageChainLength = 1"

definition UINT_MAX :: u32 where
  "UINT_MAX = 0xffffffff"

definition lh_new :: "(u64 \<Rightarrow> bool) \<Rightarrow> ('d \<Rightarrow> u32) \<Rightarrow> ('d \<Rightarrow> 'd \<Rightarrow> int) \<Rightarrow> 'd lhash option" where
  "lh_new alloc hash cmp =
     (if \<not> alloc 48 then None
      else if \<not> alloc (8 * kMinNumBuckets) then None
      else Some \<lparr>num_items = 0, buckets = replicate (unat kMinNumBuckets) [],
             num_buckets = kMinNumBuckets, callback_depth = 0, lh_comp = cmp, lh_hash = hash\<rparr>)"

definition lh_num_items :: "'d lhash \<Rightarrow> u64" where
  "lh_num_items lh = num_items lh"

text \<open>The elements whose items \<open>lh_free\<close> releases, in order.\<close>

definition lh_free :: "'d lhash option \<Rightarrow> 'd list" where
  "lh_free lh = (case lh of None \<Rightarrow> [] | Some lh \<Rightarrow> concat (map (map item_data) (buckets lh)))"

section \<open>Lookup\<close>

fun chain_find :: "('d \<Rightarrow> 'd \<Rightarrow> int) \<Rightarrow> 'd \<Rightarrow> 'd lhash_item list \<Rightarrow> nat" where
  "chain_find cmp d [] = 0"
| "chain_find cmp d (cur # chain) = (if cmp (item_data cur) d = 0 then 0 else chain_find cmp d chain + 1)"

definition get_next_ptr_and_hash :: "'d lhash \<Rightarrow> 'd \<Rightarrow> u32 \<times> nat \<times> nat" where
  "get_next_ptr_and_hash lh d =
     (let hash = lh_hash lh d;
          b = unat (ucast hash mod num_buckets lh)
      in (hash, b, chain_find (lh_comp lh) d (buckets lh ! b)))"

definition lh_retrieve :: "'d lhash \<Rightarrow> 'd \<Rightarrow> 'd option" where
  "lh_retrieve lh d =
     (let (_, b, k) = get_next_ptr_and_hash lh d;
          chain = buckets lh ! b
      in if k = length chain then None else Some (item_data (chain ! k)))"

section \<open>Resizing\<close>

definition rebucket_item :: "u64 \<Rightarrow> 'd lhash_item list list \<Rightarrow> 'd lhash_item \<Rightarrow> 'd lhash_item list list" where
  "rebucket_item n new_buckets cur =
     (let new_bucket = unat (ucast (item_hash cur) mod n)
      in new_buckets[new_bucket := cur # new_buckets ! new_bucket])"

definition lh_rebucket :: "(u64 \<Rightarrow> bool) \<Rightarrow> 'd lhash \<Rightarrow> u64 \<Rightarrow> 'd lhash" where
  "lh_rebucket alloc lh new_num_buckets =
     (let alloc_size = 8 * new_num_buckets
      in if alloc_size div 8 \<noteq> new_num_buckets then lh
         else if \<not> alloc alloc_size then lh
         else
           let new_buckets = foldl (foldl (rebucket_item new_num_buckets))
                 (replicate (unat new_num_buckets) []) (buckets lh)
           in lh\<lparr>num_buckets := new_num_buckets, buckets := new_buckets\<rparr>)"

definition lh_maybe_resize :: "(u64 \<Rightarrow> bool) \<Rightarrow> 'd lhash \<Rightarrow> 'd lhash" where
  "lh_maybe_resize alloc lh =
     (if callback_depth lh > 0 then lh
      else
        let avg_chain_length = num_items lh div num_buckets lh
        in if avg_chain_length > kMaxAverageChainLength then
             (let new_num_buckets = num_buckets lh * 2
              in if new_num_buckets > num_buckets lh then lh_rebucket alloc lh new_num_buckets else lh)
           else if avg_chain_length < kMinAverageChainLength \<and> num_buckets lh > kMinNumBuckets then
             (let new_num_buckets = num_buckets lh div 2;
                  new_num_buckets = (if new_num_buckets < kMinNumBuckets then kMinNumBuckets
                                     else new_num_buckets)
              in lh_rebucket alloc lh new_num_buckets)
           else lh)"

section \<open>Insertion and deletion\<close>

text \<open>The results: whether the call succeeds, and \<open>*old_data\<close>.\<close>

definition lh_insert :: "(u64 \<Rightarrow> bool) \<Rightarrow> 'd lhash \<Rightarrow> 'd \<Rightarrow> bool \<times> 'd option \<times> 'd lhash" where
  "lh_insert alloc lh d =
     (let (hash, b, k) = get_next_ptr_and_hash lh d;
          chain = buckets lh ! b
      in if k \<noteq> length chain then
           (True, Some (item_data (chain ! k)),
            lh\<lparr>buckets := (buckets lh)[b := chain[k := (chain ! k)\<lparr>item_data := d\<rparr>]]\<rparr>)
         else if \<not> alloc 24 then (False, None, lh)
         else
           let item = \<lparr>item_data = d, item_hash = hash\<rparr>;
               lh = lh\<lparr>buckets := (buckets lh)[b := chain @ [item]], num_items := num_items lh + 1\<rparr>
           in (True, None, lh_maybe_resize alloc lh))"

definition lh_delete :: "(u64 \<Rightarrow> bool) \<Rightarrow> 'd lhash \<Rightarrow> 'd \<Rightarrow> 'd option \<times> 'd lhash" where
  "lh_delete alloc lh d =
     (let (_, b, k) = get_next_ptr_and_hash lh d;
          chain = buckets lh ! b
      in if k = length chain then (None, lh)
         else
           let ret = item_data (chain ! k);
               lh = lh\<lparr>buckets := (buckets lh)[b := take k chain @ drop (k + 1) chain],
                       num_items := num_items lh - 1\<rparr>
           in (Some ret, lh_maybe_resize alloc lh))"

section \<open>Iteration\<close>

text \<open>
  \<open>lh_doall\<close> and \<open>lh_doall_arg\<close> with a callback that acts on a state of its own and leaves the
  table alone; the function without an argument is one that ignores it.
\<close>

definition lh_doall_internal :: "(u64 \<Rightarrow> bool) \<Rightarrow> 'd lhash option \<Rightarrow> ('d \<Rightarrow> 'w \<Rightarrow> 'w) \<Rightarrow> 'w \<Rightarrow>
    'w \<times> 'd lhash option" where
  "lh_doall_internal alloc lh f w =
     (case lh of
        None \<Rightarrow> (w, None)
      | Some lh \<Rightarrow>
          let lh = (if callback_depth lh < UINT_MAX then lh\<lparr>callback_depth := callback_depth lh + 1\<rparr> else lh);
              w = foldl (foldl (\<lambda>w cur. f (item_data cur) w)) w (buckets lh);
              lh = (if callback_depth lh < UINT_MAX then lh\<lparr>callback_depth := callback_depth lh - 1\<rparr> else lh)
          in (w, Some (lh_maybe_resize alloc lh)))"

definition lh_doall :: "(u64 \<Rightarrow> bool) \<Rightarrow> 'd lhash option \<Rightarrow> ('d \<Rightarrow> 'w \<Rightarrow> 'w) \<Rightarrow> 'w \<Rightarrow> 'w \<times> 'd lhash option" where
  "lh_doall alloc lh f w = lh_doall_internal alloc lh f w"

definition lh_doall_arg :: "(u64 \<Rightarrow> bool) \<Rightarrow> 'd lhash option \<Rightarrow> ('d \<Rightarrow> 'a \<Rightarrow> 'w \<Rightarrow> 'w) \<Rightarrow> 'a \<Rightarrow> 'w \<Rightarrow>
    'w \<times> 'd lhash option" where
  "lh_doall_arg alloc lh f arg w = lh_doall_internal alloc lh (\<lambda>d. f d arg) w"

definition lh_strhash :: "u8 list option \<Rightarrow> u32 option" where
  "lh_strhash c =
     (case c of
        None \<Rightarrow> Some 0
      | Some s \<Rightarrow> map_option (\<lambda>n. OPENSSL_hash32 (take n s)) (c_strlen s))"

section \<open>Invariant\<close>

definition items :: "'d lhash \<Rightarrow> 'd lhash_item multiset" where
  "items lh = mset (concat (buckets lh))"

definition elements :: "'d lhash \<Rightarrow> 'd set" where
  "elements lh = item_data ` set_mset (items lh)"

definition bucket_of :: "u64 \<Rightarrow> 'd lhash_item \<Rightarrow> nat" where
  "bucket_of n it = unat (ucast (item_hash it) mod n)"

definition placed :: "('d \<Rightarrow> u32) \<Rightarrow> u64 \<Rightarrow> 'd lhash_item list list \<Rightarrow> bool" where
  "placed hash n bs \<longleftrightarrow> length bs = unat n \<and>
     (\<forall>b < length bs. \<forall>it \<in> set (bs ! b). item_hash it = hash (item_data it) \<and> bucket_of n it = b)"

definition distinct_items :: "('d \<Rightarrow> 'd \<Rightarrow> int) \<Rightarrow> 'd lhash_item multiset \<Rightarrow> bool" where
  "distinct_items cmp M \<longleftrightarrow> (\<forall>d. size (filter_mset (\<lambda>it. cmp (item_data it) d = 0) M) \<le> 1)"

definition lh_inv :: "'d lhash \<Rightarrow> bool" where
  "lh_inv lh \<longleftrightarrow> placed (lh_hash lh) (num_buckets lh) (buckets lh) \<and> kMinNumBuckets \<le> num_buckets lh \<and>
     distinct_items (lh_comp lh) (items lh) \<and> num_items lh = of_nat (size (items lh))"

text \<open>The contract of the two functions given to \<open>lh_new\<close>.\<close>

locale hashing =
  fixes cmp :: "'d \<Rightarrow> 'd \<Rightarrow> int"
    and hash :: "'d \<Rightarrow> u32"
  assumes cmp_refl: "cmp x x = 0"
    and cmp_sym: "cmp x y = 0 \<Longrightarrow> cmp y x = 0"
    and cmp_trans: "cmp x y = 0 \<Longrightarrow> cmp y z = 0 \<Longrightarrow> cmp x z = 0"
    and hash_compat: "cmp x y = 0 \<Longrightarrow> hash x = hash y"
begin

lemma equal_left: "cmp x y = 0 \<Longrightarrow> cmp x z = 0 \<longleftrightarrow> cmp y z = 0"
  using cmp_sym cmp_trans by blast

end

lemma chain_find_le: "chain_find cmp d chain \<le> length chain"
  by (induction chain) simp_all

lemma chain_find_found:
  "chain_find cmp d chain \<noteq> length chain \<Longrightarrow>
   chain_find cmp d chain < length chain \<and> cmp (item_data (chain ! chain_find cmp d chain)) d = 0"
  by (induction chain) (auto split: if_splits)

lemma chain_find_none:
  "chain_find cmp d chain = length chain \<longleftrightarrow> (\<forall>it \<in> set chain. cmp (item_data it) d \<noteq> 0)"
  by (induction chain) simp_all

lemma mset_concat_update:
  "b < length bs \<Longrightarrow> mset (concat (bs[b := c])) + mset (bs ! b) = mset (concat bs) + mset c"
proof (induction bs arbitrary: b)
  case (Cons x xs)
  then show ?case by (cases b) (auto simp: ac_simps)
qed simp

lemma distinct_unique:
  assumes "distinct_items cmp M" "x \<in># M" "y \<in># M" "cmp (item_data x) d = 0" "cmp (item_data y) d = 0"
  shows "x = y"
proof (rule ccontr)
  assume "x \<noteq> y"
  let ?F = "filter_mset (\<lambda>it. cmp (item_data it) d = 0) M"
  have "x \<in># ?F" "y \<in># ?F" using assms by simp_all
  moreover obtain G where G: "?F = add_mset x G" using mset_add [OF \<open>x \<in># ?F\<close>] by blast
  ultimately have "y \<in># G" using \<open>x \<noteq> y\<close> by simp
  then obtain H where "G = add_mset y H" by (rule mset_add)
  then have "size ?F = size H + 2" using G by simp
  moreover have "size ?F \<le> 1" using assms(1) by (simp add: distinct_items_def)
  ultimately show False by simp
qed

lemma items_bucket: "it \<in># items lh \<longleftrightarrow> (\<exists>b < length (buckets lh). it \<in> set (buckets lh ! b))"
proof -
  have "(\<exists>c \<in> set bs. it \<in> set c) \<longleftrightarrow> (\<exists>b < length bs. it \<in> set (bs ! b))" for bs
    by (metis in_set_conv_nth)
  then show ?thesis by (simp add: items_def)
qed

lemma bucket_in_range: "placed hash n bs \<Longrightarrow> 0 < n \<Longrightarrow> unat (h mod n) < length bs"
  by (simp add: placed_def unat_mod unat_gt_0)

lemma lh_inv_pos: "lh_inv lh \<Longrightarrow> 0 < num_buckets lh"
  by (auto simp: lh_inv_def kMinNumBuckets_def word_le_nat_alt word_less_nat_alt)

section \<open>Rebucketing\<close>

lemma rebucket_item_fold:
  assumes "0 < n" "length nb = unat n"
  shows "length (foldl (rebucket_item n) nb its) = unat n \<and>
    (\<forall>b < unat n. foldl (rebucket_item n) nb its ! b = rev (filter (\<lambda>it. bucket_of n it = b) its) @ nb ! b)"
  using assms(2)
proof (induction its arbitrary: nb)
  case (Cons it its)
  have "bucket_of n it < unat n" using assms(1) by (simp add: bucket_of_def unat_mod unat_gt_0)
  then have *: "length (rebucket_item n nb it) = unat n"
    "\<And>b. b < unat n \<Longrightarrow> rebucket_item n nb it ! b = (if bucket_of n it = b then it # nb ! b else nb ! b)"
    using Cons.prems by (simp_all add: rebucket_item_def Let_def bucket_of_def [symmetric])
  show ?case using Cons.IH [OF *(1)] *(2) by simp
qed simp

lemma rebucket_buckets:
  "foldl (foldl (rebucket_item n)) nb bs = foldl (rebucket_item n) nb (concat bs)"
  by (induction bs arbitrary: nb) simp_all

lemma rebucket_item_mset:
  assumes "0 < n" "length nb = unat n"
  shows "mset (concat (foldl (rebucket_item n) nb its)) = mset its + mset (concat nb)"
  using assms(2)
proof (induction its arbitrary: nb)
  case (Cons it its)
  let ?b = "unat (ucast (item_hash it) mod n)"
  have "?b < length nb" using assms(1) Cons.prems by (simp add: unat_mod unat_gt_0)
  from mset_concat_update [OF this, of "it # nb ! ?b"]
  have "mset (concat (rebucket_item n nb it)) = add_mset it (mset (concat nb))"
    by (simp add: rebucket_item_def Let_def)
  moreover have "length (rebucket_item n nb it) = unat n"
    using Cons.prems by (simp add: rebucket_item_def Let_def)
  ultimately show ?case using Cons.IH by simp
qed simp

lemma concat_replicate_Nil: "concat (replicate n []) = []"
  by (induction n) simp_all

text \<open>Neither rebucketing nor resizing changes what the table holds.\<close>

definition same_table :: "'d lhash \<Rightarrow> 'd lhash \<Rightarrow> bool" where
  "same_table lh lh' \<longleftrightarrow> items lh' = items lh \<and> num_items lh' = num_items lh \<and> lh_comp lh' = lh_comp lh \<and>
     lh_hash lh' = lh_hash lh \<and> callback_depth lh' = callback_depth lh"

lemma lh_rebucket_ok:
  assumes "lh_inv lh" "kMinNumBuckets \<le> n"
  shows "lh_inv (lh_rebucket alloc lh n) \<and> same_table lh (lh_rebucket alloc lh n) \<and>
    (num_buckets (lh_rebucket alloc lh n) = num_buckets lh \<or> num_buckets (lh_rebucket alloc lh n) = n)"
proof (cases "(8 * n) div 8 \<noteq> n \<or> \<not> alloc (8 * n)")
  case True
  then show ?thesis using assms(1) by (auto simp: lh_rebucket_def Let_def same_table_def)
next
  case False
  define bs where "bs = foldl (rebucket_item n) (replicate (unat n) []) (concat (buckets lh))"
  have eq: "lh_rebucket alloc lh n = lh\<lparr>num_buckets := n, buckets := bs\<rparr>"
    using False by (simp add: lh_rebucket_def Let_def rebucket_buckets bs_def)
  have n: "0 < n" using assms(2) by (auto simp: kMinNumBuckets_def word_le_nat_alt word_less_nat_alt)
  have fold: "length bs = unat n"
    "\<And>b. b < unat n \<Longrightarrow> bs ! b = rev (filter (\<lambda>it. bucket_of n it = b) (concat (buckets lh)))"
    using rebucket_item_fold [OF n, of "replicate (unat n) []" "concat (buckets lh)"]
    by (simp_all add: bs_def)
  have m: "mset (concat bs) = items lh"
    using rebucket_item_mset [OF n, of "replicate (unat n) []" "concat (buckets lh)"]
    by (simp add: bs_def items_def concat_replicate_Nil)
  have "item_hash it = lh_hash lh (item_data it)" if "it \<in> set (concat (buckets lh))" for it
  proof -
    from that obtain b where "b < length (buckets lh)" "it \<in> set (buckets lh ! b)"
      by (auto simp: in_set_conv_nth [of _ "buckets lh"])
    then show ?thesis using assms(1) by (simp add: lh_inv_def placed_def)
  qed
  then have "placed (lh_hash lh) n bs" using fold by (simp add: placed_def)
  then show ?thesis using assms m by (simp add: eq lh_inv_def same_table_def items_def)
qed

lemma half_buckets:
  "kMinNumBuckets < (n :: u64) \<Longrightarrow> kMinNumBuckets \<le> (if n div 2 < kMinNumBuckets then kMinNumBuckets else n div 2)"
  by auto

lemma lh_maybe_resize_ok:
  assumes "lh_inv lh"
  shows "lh_inv (lh_maybe_resize alloc lh) \<and> same_table lh (lh_maybe_resize alloc lh)"
proof -
  have d: "kMinNumBuckets \<le> num_buckets lh * 2" if "num_buckets lh < num_buckets lh * 2"
    using that assms by (meson lh_inv_def less_imp_le order_trans)
  have same: "same_table lh lh" by (simp add: same_table_def)
  show ?thesis
    unfolding lh_maybe_resize_def Let_def
    using assms same lh_rebucket_ok [OF assms d] lh_rebucket_ok [OF assms half_buckets]
    by auto
qed

section \<open>The table as a set\<close>

context hashing
begin

lemma find_in_bucket:
  assumes "lh_inv lh" "lh_comp lh = cmp" "lh_hash lh = hash" "it \<in># items lh" "cmp (item_data it) d = 0"
  shows "it \<in> set (buckets lh ! unat (ucast (hash d) mod num_buckets lh))"
proof -
  obtain b where b: "b < length (buckets lh)" "it \<in> set (buckets lh ! b)"
    using assms(4) by (auto simp: items_bucket)
  then have "item_hash it = hash (item_data it)" "bucket_of (num_buckets lh) it = b"
    using assms(1,3) by (auto simp: lh_inv_def placed_def)
  then have "b = unat (ucast (hash d) mod num_buckets lh)"
    using hash_compat [OF assms(5)] by (simp add: bucket_of_def)
  then show ?thesis using b by simp
qed

text \<open>The search stops at the one item equal to \<open>d\<close>, or at the end of the chain if there is none.\<close>

lemma get_next_ptr_cases:
  assumes "lh_inv lh" "lh_comp lh = cmp" "lh_hash lh = hash" "get_next_ptr_and_hash lh d = (h, b, k)"
  obtains (found) "k < length (buckets lh ! b)" "b < length (buckets lh)" "h = hash d"
      "cmp (item_data (buckets lh ! b ! k)) d = 0"
      "\<forall>it \<in># items lh. cmp (item_data it) d = 0 \<longrightarrow> it = buckets lh ! b ! k"
  | (missing) "k = length (buckets lh ! b)" "b < length (buckets lh)" "h = hash d"
      "b = unat (ucast (hash d) mod num_buckets lh)" "\<forall>it \<in># items lh. cmp (item_data it) d \<noteq> 0"
proof -
  have r: "h = hash d" "b = unat (ucast (hash d) mod num_buckets lh)" "k = chain_find cmp d (buckets lh ! b)"
    using assms(2-4) by (auto simp: get_next_ptr_and_hash_def Let_def)
  have b: "b < length (buckets lh)"
    using assms(1) lh_inv_pos [OF assms(1)] bucket_in_range by (auto simp: r(2) lh_inv_def)
  show ?thesis
  proof (cases "k = length (buckets lh ! b)")
    case True
    then have "\<forall>it \<in> set (buckets lh ! b). cmp (item_data it) d \<noteq> 0" by (simp add: r(3) chain_find_none)
    then show ?thesis using missing True b r(1,2) find_in_bucket [OF assms(1-3), of _ d] by blast
  next
    case False
    then have k: "k < length (buckets lh ! b)" "cmp (item_data (buckets lh ! b ! k)) d = 0"
      using chain_find_found [of cmp d "buckets lh ! b"] by (simp_all add: r(3))
    then have "buckets lh ! b ! k \<in># items lh" using b by (auto simp: items_bucket)
    moreover have "distinct_items cmp (items lh)" using assms(1,2) by (simp add: lh_inv_def)
    ultimately show ?thesis using found k b r(1) distinct_unique [where cmp = cmp and d = d] by blast
  qed
qed

lemma retrieve_iff:
  assumes "lh_inv lh" "lh_comp lh = cmp" "lh_hash lh = hash"
  shows "lh_retrieve lh d = Some x \<longleftrightarrow> x \<in> elements lh \<and> cmp x d = 0"
proof -
  obtain h b k where g: "get_next_ptr_and_hash lh d = (h, b, k)" by (metis prod_cases3)
  from assms g show ?thesis
  proof (cases rule: get_next_ptr_cases)
    case found
    let ?it = "buckets lh ! b ! k"
    have "lh_retrieve lh d = Some (item_data ?it)" using found(1) g by (simp add: lh_retrieve_def)
    moreover have "?it \<in># items lh" using found by (auto simp: items_bucket)
    then have "x \<in> elements lh \<and> cmp x d = 0 \<longleftrightarrow> x = item_data ?it"
      using found(4,5) unfolding elements_def by blast
    ultimately show ?thesis by auto
  next
    case missing
    then have "lh_retrieve lh d = None" using g by (simp add: lh_retrieve_def)
    then show ?thesis using missing(5) unfolding elements_def by force
  qed
qed

lemma distinct_add:
  assumes "distinct_items cmp M" "\<forall>it \<in># M. cmp (item_data it) (item_data new) \<noteq> 0"
  shows "distinct_items cmp (add_mset new M)"
  unfolding distinct_items_def
proof
  fix d
  show "size (filter_mset (\<lambda>it. cmp (item_data it) d = 0) (add_mset new M)) \<le> 1"
  proof (cases "cmp (item_data new) d = 0")
    case True
    then have "cmp (item_data it) d \<noteq> 0" if "it \<in># M" for it
      using assms(2) that cmp_sym cmp_trans by blast
    then have "filter_mset (\<lambda>it. cmp (item_data it) d = 0) M = {#}" by simp
    then show ?thesis using True by simp
  next
    case False
    then show ?thesis using assms(1) by (simp add: distinct_items_def)
  qed
qed

lemma distinct_replace:
  assumes "distinct_items cmp (add_mset old M)" "cmp (item_data old) (item_data new) = 0"
  shows "distinct_items cmp (add_mset new M)"
proof -
  have "size (filter_mset (\<lambda>it. cmp (item_data it) d = 0) (add_mset new M)) =
      size (filter_mset (\<lambda>it. cmp (item_data it) d = 0) (add_mset old M))" for d
    using equal_left [OF assms(2), of d] by simp
  then show ?thesis using assms(1) unfolding distinct_items_def by simp
qed

end

lemma distinct_subset: "distinct_items cmp M \<Longrightarrow> N \<subseteq># M \<Longrightarrow> distinct_items cmp N"
  unfolding distinct_items_def by (meson multiset_filter_mono order_trans size_mset_mono)

lemma placed_update:
  assumes "placed hash n bs"
    "\<And>it. it \<in> set c \<Longrightarrow> it \<in> set (bs ! b) \<or> item_hash it = hash (item_data it) \<and> bucket_of n it = b"
  shows "placed hash n (bs[b := c])"
  using assms unfolding placed_def by (cases "b < length bs") (auto simp: nth_list_update, blast+)

lemma items_update:
  assumes "b < length bs"
  shows "mset (concat (bs[b := c])) = mset (concat bs) - mset (bs ! b) + mset c"
    "mset (bs ! b) \<subseteq># mset (concat bs)"
proof -
  show sub: "mset (bs ! b) \<subseteq># mset (concat bs)"
    using mset_concat_update [OF assms, of "[]"] by (metis mset.simps(1) add_0_right mset_subset_eq_add_right)
  show "mset (concat (bs[b := c])) = mset (concat bs) - mset (bs ! b) + mset c"
    using mset_concat_update [OF assms, of c] sub
    by (metis add.commute add_diff_cancel_left' subset_mset.add_diff_assoc2)
qed

context hashing
begin

definition table :: "'d lhash \<Rightarrow> bool" where
  "table lh \<longleftrightarrow> lh_inv lh \<and> lh_comp lh = cmp \<and> lh_hash lh = hash"

lemma tableD: "table lh \<Longrightarrow> lh_inv lh" "table lh \<Longrightarrow> lh_comp lh = cmp" "table lh \<Longrightarrow> lh_hash lh = hash"
  by (simp_all add: table_def)

lemma resize_table:
  assumes "table lh"
  shows "table (lh_maybe_resize alloc lh) \<and> elements (lh_maybe_resize alloc lh) = elements lh \<and>
    items (lh_maybe_resize alloc lh) = items lh \<and>
    callback_depth (lh_maybe_resize alloc lh) = callback_depth lh"
  using lh_maybe_resize_ok [OF tableD(1) [OF assms], of alloc] assms
  by (simp add: table_def same_table_def elements_def)

lemma insert_table:
  assumes "table lh" "lh_insert alloc lh d = (ok, old, lh')"
  shows "table lh' \<and> old = lh_retrieve lh d \<and> callback_depth lh' = callback_depth lh \<and>
    elements lh' = (if ok then insert d {x \<in> elements lh. cmp x d \<noteq> 0} else elements lh) \<and>
    (\<not> ok \<longrightarrow> lh' = lh \<and> \<not> alloc 24)"
proof -
  obtain h b k where g: "get_next_ptr_and_hash lh d = (h, b, k)" by (metis prod_cases3)
  from tableD [OF assms(1)] g show ?thesis
  proof (cases rule: get_next_ptr_cases)
    case found
    let ?it = "buckets lh ! b ! k" and ?chain = "buckets lh ! b"
    let ?new = "?it\<lparr>item_data := d\<rparr>"
    have r: "ok" "old = lh_retrieve lh d" "lh' = lh\<lparr>buckets := (buckets lh)[b := ?chain[k := ?new]]\<rparr>"
      using assms(2) g found(1) by (simp_all add: lh_insert_def lh_retrieve_def Let_def)
    obtain M where M: "mset ?chain = add_mset ?it M" "mset (?chain[k := ?new]) = add_mset ?new M"
      using found(1) by (metis mset_update add_mset_remove_trivial mset_add nth_mem_mset)
    obtain N where N: "items lh = add_mset ?it N" "items lh' = add_mset ?new N"
      using items_update(1) [OF found(2), of "?chain[k := ?new]"] items_update(2) [OF found(2)] r(3) M
      by (auto simp: items_def subset_mset.le_iff_add)
    have dist: "distinct_items cmp (add_mset ?it N)" using tableD [OF assms(1)] N(1) by (simp add: lh_inv_def)
    then have rest: "cmp (item_data x) d \<noteq> 0" if "x \<in># N" for x
      using found(4) that by (auto simp: distinct_items_def dest!: spec [of _ d])
    have "item_hash ?it = hash (item_data ?it)" "bucket_of (num_buckets lh) ?it = b"
      using tableD [OF assms(1)] found(1,2) nth_mem [OF found(1)] by (auto simp: lh_inv_def placed_def)
    then have "placed hash (num_buckets lh) ((buckets lh)[b := ?chain[k := ?new]])"
      using tableD [OF assms(1)] hash_compat [OF found(4)]
      by (intro placed_update) (auto simp: lh_inv_def bucket_of_def dest!: set_update_subset_insert [THEN subsetD])
    then have "table lh'" using tableD [OF assms(1)] N r(3) distinct_replace [OF dist, of ?new] found(4)
      by (simp add: table_def lh_inv_def)
    moreover have "elements lh' = insert d {x \<in> elements lh. cmp x d \<noteq> 0}"
      using rest found(4) by (auto simp: elements_def N)
    ultimately show ?thesis using r by simp
  next
    case missing
    let ?chain = "buckets lh ! b" and ?new = "\<lparr>item_data = d, item_hash = hash d\<rparr>"
    have none: "lh_retrieve lh d = None" using g missing(1) by (simp add: lh_retrieve_def)
    show ?thesis
    proof (cases "alloc 24")
      case False
      then show ?thesis using assms g missing(1) none by (auto simp: lh_insert_def)
    next
      case True
      define lh1 where "lh1 = lh\<lparr>buckets := (buckets lh)[b := ?chain @ [?new]], num_items := num_items lh + 1\<rparr>"
      have r: "ok" "old = None" "lh' = lh_maybe_resize alloc lh1"
        using assms(2) g True missing(1,3) by (simp_all add: lh_insert_def Let_def lh1_def)
      have items: "items lh1 = add_mset ?new (items lh)"
        using items_update(1) [OF missing(2), of "?chain @ [?new]"] items_update(2) [OF missing(2)]
        by (simp add: items_def lh1_def subset_mset.diff_add)
      have "placed hash (num_buckets lh) ((buckets lh)[b := ?chain @ [?new]])"
        using tableD [OF assms(1)] missing(4) by (intro placed_update) (auto simp: lh_inv_def bucket_of_def)
      moreover have "distinct_items cmp (items lh1)"
        unfolding items using tableD [OF assms(1)] missing(5)
        by (intro distinct_add) (simp_all add: lh_inv_def)
      ultimately have "table lh1" using tableD [OF assms(1)] items
        by (simp add: table_def lh_inv_def lh1_def items_def [symmetric])
      moreover have "elements lh1 = insert d {x \<in> elements lh. cmp x d \<noteq> 0}"
        using missing(5) by (auto simp: elements_def items)
      ultimately show ?thesis using resize_table [of lh1 alloc] r none by (simp add: lh1_def)
    qed
  qed
qed

lemma delete_table:
  assumes "table lh" "lh_delete alloc lh d = (old, lh')"
  shows "table lh' \<and> old = lh_retrieve lh d \<and> callback_depth lh' = callback_depth lh \<and>
    elements lh' = {x \<in> elements lh. cmp x d \<noteq> 0}"
proof -
  obtain h b k where g: "get_next_ptr_and_hash lh d = (h, b, k)" by (metis prod_cases3)
  from tableD [OF assms(1)] g show ?thesis
  proof (cases rule: get_next_ptr_cases)
    case found
    let ?it = "buckets lh ! b ! k" and ?chain = "buckets lh ! b"
    let ?c = "take k ?chain @ drop (k + 1) ?chain"
    define lh1 where "lh1 = lh\<lparr>buckets := (buckets lh)[b := ?c], num_items := num_items lh - 1\<rparr>"
    have r: "old = lh_retrieve lh d" "lh' = lh_maybe_resize alloc lh1"
      using assms(2) g found(1) by (simp_all add: lh_delete_def lh_retrieve_def Let_def lh1_def)
    have "mset ?chain = add_mset ?it (mset ?c)"
      using found(1) by (metis id_take_nth_drop mset_append mset.simps(2) union_mset_add_mset_right Suc_eq_plus1)
    then have N: "items lh = add_mset ?it (items lh1)"
      using items_update(1) [OF found(2), of ?c] items_update(2) [OF found(2)]
      by (auto simp: items_def lh1_def subset_mset.le_iff_add)
    have dist: "distinct_items cmp (add_mset ?it (items lh1))"
      using tableD [OF assms(1)] N by (simp add: lh_inv_def)
    then have rest: "cmp (item_data x) d \<noteq> 0" if "x \<in># items lh1" for x
      using found(4) that by (auto simp: distinct_items_def dest!: spec [of _ d])
    have "placed hash (num_buckets lh) ((buckets lh)[b := ?c])"
      using tableD [OF assms(1)]
      by (intro placed_update) (auto simp: lh_inv_def dest: in_set_takeD in_set_dropD)
    moreover have "distinct_items cmp (items lh1)" by (rule distinct_subset [OF dist]) simp
    moreover have "num_items lh = 1 + of_nat (size (items lh1))"
      using tableD(1) [OF assms(1)] by (simp add: lh_inv_def N)
    then have "num_items lh1 = of_nat (size (items lh1))"
      by (simp add: lh1_def [THEN arg_cong [where f = num_items], simplified])
    ultimately have "table lh1" using tableD [OF assms(1)]
      by (simp add: table_def lh_inv_def) (simp add: lh1_def)
    moreover have "elements lh1 = {x \<in> elements lh. cmp x d \<noteq> 0}"
      using rest found(4) by (auto simp: elements_def N)
    ultimately show ?thesis using resize_table [of lh1 alloc] r by (simp add: lh1_def)
  next
    case missing
    then have "old = None" "lh' = lh" using assms(2) g by (simp_all add: lh_delete_def)
    then show ?thesis using missing g assms(1) by (auto simp: lh_retrieve_def elements_def)
  qed
qed

text \<open>The traversal, here with a callback that collects what it is given.\<close>

lemma fold_buckets: "foldl (foldl (\<lambda>w cur. f (item_data cur) w)) w bs = foldl (\<lambda>w d. f d w) w (map item_data (concat bs))"
  by (induction bs arbitrary: w) (simp_all add: foldl_map)

lemma distinct_list:
  assumes "distinct_items cmp (mset its)"
  shows "distinct (map item_data its)"
  using assms
proof (induction its)
  case (Cons it its)
  have "size (filter_mset (\<lambda>y. cmp (item_data y) (item_data it) = 0) (mset (it # its))) \<le> 1"
    using Cons.prems unfolding distinct_items_def by blast
  then have "\<forall>x \<in> set its. cmp (item_data x) (item_data it) \<noteq> 0" by (simp add: cmp_refl)
  then have "item_data it \<noteq> item_data x" if "x \<in> set its" for x
    using that cmp_refl by metis
  moreover have "distinct_items cmp (mset its)" by (rule distinct_subset [OF Cons.prems]) simp
  ultimately show ?case using Cons.IH by auto
qed simp

lemma doall_table:
  assumes "table lh" "lh_doall_internal alloc (Some lh) f w = (w', lh')"
  shows "\<exists>u xs. lh' = Some u \<and> table u \<and> elements u = elements lh \<and> distinct xs \<and> set xs = elements lh \<and>
    w' = foldl (\<lambda>w d. f d w) w xs"
proof -
  define xs where "xs = map item_data (concat (buckets lh))"
  have "distinct xs" using distinct_list [of "concat (buckets lh)"] tableD [OF assms(1)]
    by (simp add: xs_def lh_inv_def items_def)
  moreover have "set xs = elements lh" by (simp add: xs_def elements_def items_def)
  moreover have tab: "table (lh\<lparr>callback_depth := c\<rparr>)" "elements (lh\<lparr>callback_depth := c\<rparr>) = elements lh" for c
    using assms(1) by (auto simp: table_def lh_inv_def items_def elements_def)
  have "w' = foldl (\<lambda>w d. f d w) w xs"
    using assms(2) by (auto simp: lh_doall_internal_def Let_def fold_buckets xs_def)
  moreover have "\<exists>c. lh' = Some (lh_maybe_resize alloc (lh\<lparr>callback_depth := c\<rparr>))"
    using assms(2) by (auto simp: lh_doall_internal_def Let_def split: if_splits intro: exI [of _ "callback_depth lh"])
  ultimately show ?thesis using resize_table [OF tab(1), of alloc] tab(2) by auto
qed

lemma card_elements: "table lh \<Longrightarrow> lh_num_items lh = of_nat (card (elements lh))"
proof -
  assume "table lh"
  then have "distinct (map item_data (concat (buckets lh)))"
    using distinct_list [of "concat (buckets lh)"] tableD [of lh] by (simp add: lh_inv_def items_def)
  from distinct_card [OF this] show ?thesis using tableD(1) [OF \<open>table lh\<close>]
    by (simp add: lh_num_items_def lh_inv_def elements_def items_def)
qed

end

section \<open>Sequences of calls\<close>

datatype 'd lh_op = Add 'd | Remove 'd | Lookup 'd | Each | Size

datatype 'd lh_result = Added bool "'d option" | Got "'d option" | Visited "'d list" | Number u64

definition lh_step :: "(u64 \<Rightarrow> bool) \<Rightarrow> 'd lh_op \<Rightarrow> 'd lhash \<Rightarrow> 'd lh_result \<times> 'd lhash" where
  "lh_step alloc op lh =
     (case op of
        Add d \<Rightarrow> (case lh_insert alloc lh d of (ok, old, lh) \<Rightarrow> (Added ok old, lh))
      | Remove d \<Rightarrow> (case lh_delete alloc lh d of (old, lh) \<Rightarrow> (Got old, lh))
      | Lookup d \<Rightarrow> (Got (lh_retrieve lh d), lh)
      | Each \<Rightarrow> (case lh_doall alloc (Some lh) (\<lambda>d w. w @ [d]) [] of
                   (w, Some lh) \<Rightarrow> (Visited w, lh) | (w, None) \<Rightarrow> (Visited w, lh))
      | Size \<Rightarrow> (Number (lh_num_items lh), lh))"

fun lh_run :: "(u64 \<Rightarrow> bool) \<Rightarrow> 'd lh_op list \<Rightarrow> 'd lhash \<Rightarrow> 'd lh_result list \<times> 'd lhash" where
  "lh_run alloc [] lh = ([], lh)"
| "lh_run alloc (op # ops) lh =
     (let (r, lh) = lh_step alloc op lh; (rs, lh) = lh_run alloc ops lh in (r # rs, lh))"

text \<open>The element of a set that is equal to \<open>d\<close>, if there is one.\<close>

definition is_lookup :: "('d \<Rightarrow> 'd \<Rightarrow> int) \<Rightarrow> 'd set \<Rightarrow> 'd \<Rightarrow> 'd option \<Rightarrow> bool" where
  "is_lookup cmp S d r =
     (case r of None \<Rightarrow> \<forall>x \<in> S. cmp x d \<noteq> 0 | Some x \<Rightarrow> x \<in> S \<and> cmp x d = 0)"

fun set_step :: "('d \<Rightarrow> 'd \<Rightarrow> int) \<Rightarrow> 'd lh_op \<Rightarrow> 'd set \<Rightarrow> 'd lh_result \<Rightarrow> 'd set \<Rightarrow> bool" where
  "set_step cmp (Add d) S (Added ok old) S' \<longleftrightarrow>
     is_lookup cmp S d old \<and> S' = (if ok then insert d {x \<in> S. cmp x d \<noteq> 0} else S) \<and> (ok \<or> old = None)"
| "set_step cmp (Remove d) S (Got old) S' \<longleftrightarrow> is_lookup cmp S d old \<and> S' = {x \<in> S. cmp x d \<noteq> 0}"
| "set_step cmp (Lookup d) S (Got r) S' \<longleftrightarrow> is_lookup cmp S d r \<and> S' = S"
| "set_step cmp Each S (Visited xs) S' \<longleftrightarrow> distinct xs \<and> set xs = S \<and> S' = S"
| "set_step cmp Size S (Number n) S' \<longleftrightarrow> n = of_nat (card S) \<and> S' = S"
| "set_step cmp _ S _ S' \<longleftrightarrow> False"

inductive set_run :: "('d \<Rightarrow> 'd \<Rightarrow> int) \<Rightarrow> 'd lh_op list \<Rightarrow> 'd set \<Rightarrow> 'd lh_result list \<Rightarrow> 'd set \<Rightarrow> bool"
  for cmp where
  Nil: "set_run cmp [] S [] S"
| Cons: "set_step cmp op S r S' \<Longrightarrow> set_run cmp ops S' rs S'' \<Longrightarrow> set_run cmp (op # ops) S (r # rs) S''"

context hashing
begin

lemma retrieve_lookup: "table lh \<Longrightarrow> is_lookup cmp (elements lh) d (lh_retrieve lh d)"
  using retrieve_iff [OF tableD, of lh d] by (auto simp: is_lookup_def split: option.splits)

lemma step_table:
  assumes "table lh" "lh_step alloc op lh = (r, lh')"
  shows "table lh' \<and> set_step cmp op (elements lh) r (elements lh')"
proof (cases op)
  case (Add d)
  obtain ok old u where i: "lh_insert alloc lh d = (ok, old, u)" by (metis prod_cases3)
  have "ok \<or> old = None"
    using i by (auto simp: lh_insert_def Let_def split: prod.splits if_splits)
  then show ?thesis using insert_table [OF assms(1) i] retrieve_lookup [OF assms(1), of d] assms(2) i Add
    by (auto simp: lh_step_def)
next
  case (Remove d)
  obtain old u where i: "lh_delete alloc lh d = (old, u)" by fastforce
  then show ?thesis using delete_table [OF assms(1) i] retrieve_lookup [OF assms(1), of d] assms(2) Remove
    by (auto simp: lh_step_def)
next
  case (Lookup d)
  then show ?thesis using retrieve_lookup [OF assms(1), of d] assms by (auto simp: lh_step_def)
next
  case Each
  obtain w u where i: "lh_doall_internal alloc (Some lh) (\<lambda>d w. w @ [d]) [] = (w, u)" by fastforce
  have "foldl (\<lambda>w d. w @ [d]) ys xs = ys @ xs" for xs ys :: "'d list"
    by (induction xs arbitrary: ys) simp_all
  then show ?thesis using doall_table [OF assms(1) i] assms(2) i Each
    by (auto simp: lh_step_def lh_doall_def)
next
  case Size
  then show ?thesis using assms card_elements [OF assms(1)] by (auto simp: lh_step_def)
qed

lemma run_table:
  assumes "table lh" "lh_run alloc ops lh = (rs, lh')"
  shows "table lh' \<and> set_run cmp ops (elements lh) rs (elements lh')"
  using assms
proof (induction ops arbitrary: lh rs)
  case Nil
  then show ?case by (auto intro: set_run.Nil)
next
  case (Cons op ops)
  obtain r u where s: "lh_step alloc op lh = (r, u)" by fastforce
  obtain qs v where q: "lh_run alloc ops u = (qs, v)" by fastforce
  have "rs = r # qs" "lh' = v" using Cons.prems(2) s q by simp_all
  then show ?case using step_table [OF Cons.prems(1) s] Cons.IH [of u qs] q
    by (auto intro: set_run.Cons)
qed

end

section \<open>Properties\<close>

text \<open>Byte strings under the string hash, compared for equality.\<close>

definition bytes_cmp :: "u8 list \<Rightarrow> u8 list \<Rightarrow> int" where
  "bytes_cmp a b = (if a = b then 0 else 1)"

interpretation byte_strings: hashing bytes_cmp OPENSSL_hash32
  by unfold_locales (auto simp: bytes_cmp_def split: if_splits)

text \<open>
  C28. Any sequence of insertions, deletions, look-ups and traversals does to the elements of a hash
  table what it does to a set without two equal elements: an insertion replaces the element equal to
  the new one and reports it, a traversal visits every element exactly once, the count is the number
  of elements, and the resizing that insertions and deletions bring about changes nothing.
\<close>

theorem lh_refines_set:
  assumes "hashing (lh_comp lh) (lh_hash lh)" "lh_inv lh" "lh_run alloc ops lh = (rs, lh')"
  shows "lh_inv lh' \<and> set_run (lh_comp lh) ops (elements lh) rs (elements lh')"
  using hashing.run_table [OF assms(1) _ assms(3)] assms(2)
  by (simp add: hashing.table_def [OF assms(1)])

definition bytes_table :: "u8 list lhash" where
  "bytes_table = the (lh_new (\<lambda>_. True) OPENSSL_hash32 bytes_cmp)"

lemma lh_new_inv:
  assumes "lh_new alloc hash cmp = Some lh"
  shows "lh_inv lh \<and> elements lh = {} \<and> lh_comp lh = cmp \<and> lh_hash lh = hash"
proof -
  have "lh = \<lparr>num_items = 0, buckets = replicate 16 [], num_buckets = 16, callback_depth = 0,
      lh_comp = cmp, lh_hash = hash\<rparr>"
    using assms by (simp add: lh_new_def kMinNumBuckets_def split: if_splits)
  then show ?thesis
    by (simp add: lh_inv_def placed_def items_def elements_def distinct_items_def kMinNumBuckets_def
        concat_replicate_Nil)
qed

definition bytes_calls :: "u8 list lh_op list" where
  "bytes_calls = [Add [1, 2], Add [3], Add [1, 2], Remove [3], Lookup [3], Each, Size]"

theorem lh_refines_set_witness:
  "case lh_run (\<lambda>_. True) bytes_calls bytes_table of
     (rs, lh) \<Rightarrow> rs = [Added True None, Added True None, Added True (Some [1, 2]), Got (Some [3]), Got None,
         Visited [[1, 2]], Number 1] \<and>
       lh_inv lh \<and> set_run bytes_cmp bytes_calls {} rs (elements lh)"
proof -
  have "lh_new (\<lambda>_. True) OPENSSL_hash32 bytes_cmp = Some bytes_table"
    by (simp add: bytes_table_def lh_new_def)
  note new = lh_new_inv [OF this]
  obtain rs lh where run: "lh_run (\<lambda>_. True) bytes_calls bytes_table = (rs, lh)" by fastforce
  have "fst (lh_run (\<lambda>_. True) bytes_calls bytes_table) =
      [Added True None, Added True None, Added True (Some [1, 2]), Got (Some [3]), Got None, Visited [[1, 2]], Number 1]"
    by code_simp
  then have "rs = [Added True None, Added True None, Added True (Some [1, 2]), Got (Some [3]), Got None,
      Visited [[1, 2]], Number 1]" using run by simp
  moreover have "lh_inv lh \<and> set_run bytes_cmp bytes_calls {} rs (elements lh)"
    using lh_refines_set [OF _ _ run] new byte_strings.hashing_axioms by simp
  ultimately show ?thesis by (simp add: run)
qed

end
