(* ===== verification/Pool.thy ===== *)
theory Pool
  imports Lhash CLib
begin

text \<open>
  BoringSSL \<open>crypto/pool/pool.c\<close> and the reference counts of \<open>crypto/refcount_c11.c\<close>: buffers shared
  through a pool that holds one buffer for each content. A buffer object has an address; what the
  hash table of the pool holds of it is its address and its bytes, which never change. The code
  takes the pool's lock twice in \<open>CRYPTO_BUFFER_new\<close> and once in \<open>CRYPTO_BUFFER_free\<close>: the
  definitions are the sections between, and \<open>pool_step\<close> interleaves those of any number of threads.
\<close>

unbundle bit_operations_syntax

section \<open>Reference counts\<close>

definition CRYPTO_REFCOUNT_MAX :: u32 where
  "CRYPTO_REFCOUNT_MAX = 0xffffffff"

definition CRYPTO_refcount_inc :: "u32 \<Rightarrow> u32" where
  "CRYPTO_refcount_inc c = (if c \<noteq> CRYPTO_REFCOUNT_MAX then c + 1 else c)"

text \<open>\<open>None\<close> is the call of \<open>abort\<close>.\<close>

definition CRYPTO_refcount_dec_and_test_zero :: "u32 \<Rightarrow> (u32 \<times> bool) option" where
  "CRYPTO_refcount_dec_and_test_zero c =
     (if c = 0 then None
      else if c = CRYPTO_REFCOUNT_MAX then Some (c, False)
      else let new_value = c - 1 in Some (new_value, new_value = 0))"

section \<open>State\<close>

type_synonym pooled = "nat \<times> u8 list"

record crypto_buffer =
  in_pool :: bool
  buf_data :: "u8 list"
  references :: u32

record pool_state =
  bufs :: "pooled lhash"
  objs :: "nat \<Rightarrow> crypto_buffer option"

definition CRYPTO_BUFFER_hash :: "pooled \<Rightarrow> u32" where
  "CRYPTO_BUFFER_hash buf = OPENSSL_hash32 (snd buf)"

definition CRYPTO_BUFFER_cmp :: "pooled \<Rightarrow> pooled \<Rightarrow> int" where
  "CRYPTO_BUFFER_cmp a b =
     (if length (snd a) \<noteq> length (snd b) then 1 else c_memcmp (snd a) (snd b) (length (snd a)))"

definition CRYPTO_BUFFER_POOL_new :: "(u64 \<Rightarrow> bool) \<Rightarrow> pool_state option" where
  "CRYPTO_BUFFER_POOL_new alloc =
     (if \<not> alloc 64 then None
      else (case lh_new alloc CRYPTO_BUFFER_hash CRYPTO_BUFFER_cmp of
              None \<Rightarrow> None
            | Some lh \<Rightarrow> Some \<lparr>bufs = lh, objs = (\<lambda>_. None)\<rparr>))"

definition inc_references :: "nat \<Rightarrow> pool_state \<Rightarrow> pool_state" where
  "inc_references a st =
     (case objs st a of
        None \<Rightarrow> st
      | Some b \<Rightarrow> st\<lparr>objs := (objs st)(a \<mapsto> b\<lparr>references := CRYPTO_refcount_inc (references b)\<rparr>)\<rparr>)"

section \<open>Buffers\<close>

text \<open>The section under the read lock; the address of \<open>tmp\<close> plays no role.\<close>

definition buffer_lookup :: "u8 list \<Rightarrow> pool_state \<Rightarrow> nat option \<times> pool_state" where
  "buffer_lookup d st =
     (case lh_retrieve (bufs st) (0, d) of
        None \<Rightarrow> (None, st)
      | Some (dup, _) \<Rightarrow> (Some dup, inc_references dup st))"

text \<open>The allocation of a buffer at the address \<open>a\<close>, \<open>None\<close> when memory runs out.\<close>

definition buffer_alloc :: "(u64 \<Rightarrow> bool) \<Rightarrow> nat \<Rightarrow> u8 list \<Rightarrow> bool \<Rightarrow> pool_state \<Rightarrow> pool_state option" where
  "buffer_alloc alloc a d pooled st =
     (if \<not> alloc 32 then None
      else if length d \<noteq> 0 \<and> \<not> alloc (of_nat (length d)) then None
      else Some (st\<lparr>objs := (objs st)(a \<mapsto> \<lparr>in_pool = pooled, buf_data = d, references = 1\<rparr>)\<rparr>))"

text \<open>The section under the write lock, and the release of a buffer that was not inserted.\<close>

definition buffer_publish :: "(u64 \<Rightarrow> bool) \<Rightarrow> nat \<Rightarrow> pool_state \<Rightarrow> nat option \<times> pool_state" where
  "buffer_publish alloc a st =
     (case objs st a of
        None \<Rightarrow> (None, st)
      | Some buf \<Rightarrow>
          (case lh_retrieve (bufs st) (a, buf_data buf) of
             None \<Rightarrow>
               (case lh_insert alloc (bufs st) (a, buf_data buf) of
                  (inserted, _, lh) \<Rightarrow>
                    let st = st\<lparr>bufs := lh\<rparr>
                    in if inserted then (Some a, st) else (None, st\<lparr>objs := (objs st)(a := None)\<rparr>))
           | Some (dup, _) \<Rightarrow>
               let st = inc_references dup st
               in (Some dup, st\<lparr>objs := (objs st)(a := None)\<rparr>)))"

definition CRYPTO_BUFFER_new :: "(u64 \<Rightarrow> bool) \<Rightarrow> nat \<Rightarrow> u8 list \<Rightarrow> bool \<Rightarrow> pool_state \<Rightarrow>
    nat option \<times> pool_state" where
  "CRYPTO_BUFFER_new alloc a d pooled st =
     (case (if pooled then buffer_lookup d st else (None, st)) of
        (Some dup, st) \<Rightarrow> (Some dup, st)
      | (None, st) \<Rightarrow>
          (case buffer_alloc alloc a d pooled st of
             None \<Rightarrow> (None, st)
           | Some st \<Rightarrow> if \<not> pooled then (Some a, st) else buffer_publish alloc a st))"

text \<open>\<open>None\<close> where \<open>abort\<close> is called or an assertion of the code fails.\<close>

definition CRYPTO_BUFFER_free :: "(u64 \<Rightarrow> bool) \<Rightarrow> nat option \<Rightarrow> pool_state \<Rightarrow> pool_state option" where
  "CRYPTO_BUFFER_free alloc p st =
     (case p of
        None \<Rightarrow> Some st
      | Some a \<Rightarrow>
          (case objs st a of
             None \<Rightarrow> None
           | Some buf \<Rightarrow>
               (case CRYPTO_refcount_dec_and_test_zero (references buf) of
                  None \<Rightarrow> None
                | Some (c, zero) \<Rightarrow>
                    let st = st\<lparr>objs := (objs st)(a \<mapsto> buf\<lparr>references := c\<rparr>)\<rparr>
                    in if \<not> zero then Some st
                       else if \<not> in_pool buf then Some (st\<lparr>objs := (objs st)(a := None)\<rparr>)
                       else (case lh_delete alloc (bufs st) (a, buf_data buf) of
                               (found, lh) \<Rightarrow>
                                 if found = Some (a, buf_data buf)
                                 then Some (st\<lparr>bufs := lh, objs := (objs st)(a := None)\<rparr>)
                                 else None))))"

definition CRYPTO_BUFFER_up_ref :: "nat \<Rightarrow> pool_state \<Rightarrow> pool_state" where
  "CRYPTO_BUFFER_up_ref a st = inc_references a st"

definition CRYPTO_BUFFER_data :: "nat \<Rightarrow> pool_state \<Rightarrow> u8 list option" where
  "CRYPTO_BUFFER_data a st = map_option buf_data (objs st a)"

definition CRYPTO_BUFFER_len :: "nat \<Rightarrow> pool_state \<Rightarrow> nat option" where
  "CRYPTO_BUFFER_len a st = map_option (\<lambda>b. length (buf_data b)) (objs st a)"

section \<open>The table's contract, on these functions\<close>

lemma CRYPTO_BUFFER_cmp_0: "CRYPTO_BUFFER_cmp a b = 0 \<longleftrightarrow> snd a = snd b"
  using c_memcmp_0 [of "snd a" "snd b"] by (auto simp: CRYPTO_BUFFER_cmp_def)

interpretation buffers: hashing CRYPTO_BUFFER_cmp CRYPTO_BUFFER_hash
  by unfold_locales (simp_all add: CRYPTO_BUFFER_cmp_0 CRYPTO_BUFFER_hash_def)

section \<open>Interleaved threads\<close>

text \<open>
  A configuration: the pool, the number of references that the clients hold for each address, and
  the addresses of the buffers that a thread has allocated for the pool but not yet published.
\<close>

type_synonym pool_config = "pool_state \<times> (nat \<Rightarrow> nat) \<times> nat set"

definition gain :: "nat option \<Rightarrow> (nat \<Rightarrow> nat) \<Rightarrow> nat \<Rightarrow> nat" where
  "gain r h = (case r of None \<Rightarrow> h | Some a \<Rightarrow> h(a := h a + 1))"

inductive pool_step :: "pool_config \<Rightarrow> pool_config \<Rightarrow> bool" where
  Lookup: "buffer_lookup d st = (r, st') \<Longrightarrow> pool_step (st, h, P) (st', gain r h, P)"
| Alloc: "objs st a = None \<Longrightarrow> buffer_alloc alloc a d True st = Some st' \<Longrightarrow>
    pool_step (st, h, P) (st', h, insert a P)"
| Alloc_private: "objs st a = None \<Longrightarrow> buffer_alloc alloc a d False st = Some st' \<Longrightarrow>
    pool_step (st, h, P) (st', gain (Some a) h, P)"
| Publish: "a \<in> P \<Longrightarrow> buffer_publish alloc a st = (r, st') \<Longrightarrow>
    pool_step (st, h, P) (st', gain r h, P - {a})"
| Up_ref: "0 < h a \<Longrightarrow> pool_step (st, h, P) (CRYPTO_BUFFER_up_ref a st, gain (Some a) h, P)"
| Free: "0 < h a \<Longrightarrow> CRYPTO_BUFFER_free alloc (Some a) st = Some st' \<Longrightarrow>
    pool_step (st, h, P) (st', h(a := h a - 1), P)"

inductive pool_reach :: "pool_config \<Rightarrow> bool" where
  Start: "CRYPTO_BUFFER_POOL_new alloc = Some st \<Longrightarrow> pool_reach (st, \<lambda>_. 0, {})"
| Step: "pool_reach c \<Longrightarrow> pool_step c c' \<Longrightarrow> pool_reach c'"

section \<open>Invariant\<close>

definition published :: "pool_state \<Rightarrow> nat set \<Rightarrow> pooled set" where
  "published st P = {(a, d). a \<notin> P \<and> (\<exists>b. objs st a = Some b \<and> in_pool b \<and> buf_data b = d)}"

definition counted :: "crypto_buffer \<Rightarrow> nat \<Rightarrow> bool" where
  "counted b n \<longleftrightarrow> references b = CRYPTO_REFCOUNT_MAX \<or> 0 < n \<and> unat (references b) = n"

definition pool_inv :: "pool_config \<Rightarrow> bool" where
  "pool_inv c =
     (case c of (st, h, P) \<Rightarrow>
        lh_inv (bufs st) \<and> lh_comp (bufs st) = CRYPTO_BUFFER_cmp \<and> lh_hash (bufs st) = CRYPTO_BUFFER_hash \<and>
        elements (bufs st) = published st P \<and>
        (\<forall>a \<in> P. h a = 0 \<and> (\<exists>b. objs st a = Some b \<and> in_pool b \<and> references b = 1)) \<and>
        (\<forall>a. case objs st a of None \<Rightarrow> h a = 0 | Some b \<Rightarrow> a \<in> P \<or> counted b (h a)))"

lemma pool_invD:
  assumes "pool_inv (st, h, P)"
  shows "buffers.table (bufs st)" "elements (bufs st) = published st P"
    "a \<in> P \<Longrightarrow> h a = 0 \<and> (\<exists>b. objs st a = Some b \<and> in_pool b \<and> references b = 1)"
    "objs st a = None \<Longrightarrow> h a = 0" "objs st a = Some b \<Longrightarrow> a \<notin> P \<Longrightarrow> counted b (h a)"
proof -
  show "buffers.table (bufs st)" using assms by (simp add: pool_inv_def buffers.table_def)
  show "elements (bufs st) = published st P" using assms by (simp add: pool_inv_def)
  show "a \<in> P \<Longrightarrow> h a = 0 \<and> (\<exists>b. objs st a = Some b \<and> in_pool b \<and> references b = 1)"
    using assms by (simp add: pool_inv_def)
  have o: "case objs st a of None \<Rightarrow> h a = 0 | Some b \<Rightarrow> a \<in> P \<or> counted b (h a)"
    using assms by (simp add: pool_inv_def)
  show "objs st a = None \<Longrightarrow> h a = 0" "objs st a = Some b \<Longrightarrow> a \<notin> P \<Longrightarrow> counted b (h a)"
    using o by simp_all
qed

lemma pool_invI:
  assumes "buffers.table (bufs st)" "elements (bufs st) = published st P"
    "\<And>a. a \<in> P \<Longrightarrow> h a = 0 \<and> (\<exists>b. objs st a = Some b \<and> in_pool b \<and> references b = 1)"
    "\<And>a. objs st a = None \<Longrightarrow> h a = 0" "\<And>a b. objs st a = Some b \<Longrightarrow> a \<notin> P \<Longrightarrow> counted b (h a)"
  shows "pool_inv (st, h, P)"
proof -
  have "case objs st a of None \<Rightarrow> h a = 0 | Some b \<Rightarrow> a \<in> P \<or> counted b (h a)" for a
    using assms(4,5) [of a] by (cases "objs st a") auto
  then show ?thesis using assms(1-3) by (simp add: pool_inv_def buffers.table_def)
qed

lemma counted_inc:
  assumes "counted b n"
  shows "counted (b\<lparr>references := CRYPTO_refcount_inc (references b)\<rparr>) (n + 1)"
proof (cases "references b = CRYPTO_REFCOUNT_MAX")
  case False
  then have "unat (references b) < unat CRYPTO_REFCOUNT_MAX"
    using unat_u32_less [of "references b"] by (simp add: CRYPTO_REFCOUNT_MAX_def word_unat_eq_iff)
  then have "unat (references b + 1) = unat (references b) + 1"
    by (subst unat_add_no_overflow) (simp_all add: CRYPTO_REFCOUNT_MAX_def)
  then show ?thesis using assms False by (simp add: counted_def CRYPTO_refcount_inc_def)
qed (simp add: counted_def CRYPTO_refcount_inc_def)

lemma inc_inv:
  assumes "pool_inv (st, h, P)" "objs st a = Some b" "a \<notin> P"
  shows "pool_inv (inc_references a st, gain (Some a) h, P)"
proof -
  note inv = pool_invD [OF assms(1)]
  define st' where "st' = st\<lparr>objs := (objs st)(a \<mapsto> b\<lparr>references := CRYPTO_refcount_inc (references b)\<rparr>)\<rparr>"
  have eq: "inc_references a st = st'" using assms(2) by (simp add: inc_references_def st'_def)
  have "published st' P = published st P"
    using assms(2) by (auto simp: published_def st'_def split: if_splits)
  then show ?thesis unfolding eq using inv assms(2,3) counted_inc [OF inv(5) [OF assms(2,3)]]
    by (intro pool_invI) (auto simp: st'_def gain_def split: if_splits)
qed

lemma retrieve_published:
  assumes "pool_inv (st, h, P)"
  shows "lh_retrieve (bufs st) x = Some y \<longleftrightarrow> y \<in> published st P \<and> snd y = snd x"
  using buffers.retrieve_iff [OF buffers.tableD [OF pool_invD(1) [OF assms]], of x y]
  by (simp add: CRYPTO_BUFFER_cmp_0 pool_invD(2) [OF assms])

lemma lookup_inv:
  assumes "pool_inv (st, h, P)" "buffer_lookup d st = (r, st')"
  shows "pool_inv (st', gain r h, P)"
proof (cases "lh_retrieve (bufs st) (0, d)")
  case None
  then show ?thesis using assms by (auto simp: buffer_lookup_def gain_def)
next
  case (Some y)
  then obtain b where "objs st (fst y) = Some b" "fst y \<notin> P"
    using retrieve_published [OF assms(1)] by (cases y) (auto simp: published_def)
  then show ?thesis using inc_inv [OF assms(1)] assms(2) Some by (cases y) (auto simp: buffer_lookup_def)
qed

lemma remove_pending:
  assumes "pool_inv (st, h, P)" "a \<in> P"
  shows "pool_inv (st\<lparr>objs := (objs st)(a := None)\<rparr>, h, P - {a})"
proof -
  note inv = pool_invD [OF assms(1)]
  have "published (st\<lparr>objs := (objs st)(a := None)\<rparr>) (P - {a}) = published st P"
    using assms(2) by (auto simp: published_def split: if_splits)
  then show ?thesis using inv assms(2) by (intro pool_invI) (auto split: if_splits)
qed

lemma publish_inv:
  assumes "pool_inv (st, h, P)" "a \<in> P" "buffer_publish alloc a st = (r, st')"
  shows "pool_inv (st', gain r h, P - {a})"
proof -
  note inv = pool_invD [OF assms(1)]
  obtain b where b: "objs st a = Some b" "in_pool b" "references b = 1" "h a = 0"
    using inv(3) [OF assms(2)] by blast
  let ?x = "(a, buf_data b)"
  show ?thesis
  proof (cases "lh_retrieve (bufs st) ?x")
    case None
    obtain ok old lh where i: "lh_insert alloc (bufs st) ?x = (ok, old, lh)" by (metis prod_cases3)
    note ins = buffers.insert_table [OF inv(1) i]
    have new: "CRYPTO_BUFFER_cmp y ?x \<noteq> 0" if "y \<in> elements (bufs st)" for y
      using None that retrieve_published [OF assms(1), of ?x y] inv(2) by (simp add: CRYPTO_BUFFER_cmp_0)
    show ?thesis
    proof (cases ok)
      case True
      then have res: "r = Some a" "st' = st\<lparr>bufs := lh\<rparr>"
        using assms(3) b None i by (auto simp: buffer_publish_def)
      have "elements lh = insert ?x (published st P)" using ins True new inv(2) by auto
      also have "\<dots> = published st' (P - {a})" using b(1,2) by (auto simp: published_def res(2))
      finally have el: "elements lh = published st' (P - {a})" .
      have "counted b 1" using b(3) by (simp add: counted_def)
      moreover have "buffers.table lh" using ins by simp
      ultimately show ?thesis using inv(3-5) b el unfolding res
        by (intro pool_invI) (auto simp: gain_def)
    next
      case False
      then have "r = None" "st' = st\<lparr>objs := (objs st)(a := None)\<rparr>"
        using assms(3) b None i ins by (auto simp: buffer_publish_def)
      then show ?thesis using remove_pending [OF assms(1,2)] by (simp add: gain_def)
    qed
  next
    case (Some y)
    obtain dup d where y: "y = (dup, d)" by fastforce
    then have res: "r = Some dup"
        "st' = (inc_references dup st)\<lparr>objs := (objs (inc_references dup st))(a := None)\<rparr>"
      using assms(3) b Some by (auto simp: buffer_publish_def Let_def)
    obtain c where "objs st dup = Some c" "dup \<notin> P"
      using Some y retrieve_published [OF assms(1)] by (auto simp: published_def)
    from remove_pending [OF inc_inv [OF assms(1) this] assms(2)] show ?thesis by (simp add: res)
  qed
qed

text \<open>Releasing a reference that the caller holds never aborts, and no assertion fails.\<close>

lemma free_inv:
  assumes "pool_inv (st, h, P)" "0 < h a"
  shows "\<exists>st'. CRYPTO_BUFFER_free alloc (Some a) st = Some st' \<and> pool_inv (st', h(a := h a - 1), P)"
proof -
  note inv = pool_invD [OF assms(1)]
  obtain b where b: "objs st a = Some b" using inv(4) [of a] assms(2) by fastforce
  have P: "a \<notin> P" using inv(3) [of a] assms(2) by auto
  let ?c = "\<lambda>n. b\<lparr>references := n\<rparr>"
  have keep: "pool_inv (st\<lparr>objs := (objs st)(a \<mapsto> ?c n)\<rparr>, h(a := h a - 1), P)"
    if "counted (?c n) (h a - 1)" for n
  proof -
    have "published (st\<lparr>objs := (objs st)(a \<mapsto> ?c n)\<rparr>) P = published st P"
      using b by (auto simp: published_def split: if_splits)
    then show ?thesis using inv that P by (intro pool_invI) (auto split: if_splits)
  qed
  show ?thesis
  proof (cases "references b = CRYPTO_REFCOUNT_MAX")
    case True
    then have "CRYPTO_BUFFER_free alloc (Some a) st = Some (st\<lparr>objs := (objs st)(a \<mapsto> ?c CRYPTO_REFCOUNT_MAX)\<rparr>)"
      using b by (simp add: CRYPTO_BUFFER_free_def CRYPTO_refcount_dec_and_test_zero_def CRYPTO_REFCOUNT_MAX_def)
    then show ?thesis using keep [of CRYPTO_REFCOUNT_MAX] by (simp add: counted_def)
  next
    case False
    then have n: "unat (references b) = h a" using inv(5) [OF b P] by (simp add: counted_def)
    have m: "unat (references b - 1) = h a - 1"
      using n assms(2) by (subst unat_sub_le) (simp_all add: word_le_nat_alt)
    have dec: "CRYPTO_refcount_dec_and_test_zero (references b) = Some (references b - 1, h a = 1)"
      using False n m assms(2)
      by (auto simp: CRYPTO_refcount_dec_and_test_zero_def Let_def unat_eq_zero [symmetric])
    show ?thesis
    proof (cases "h a = 1")
      case False
      then have "CRYPTO_BUFFER_free alloc (Some a) st = Some (st\<lparr>objs := (objs st)(a \<mapsto> ?c (references b - 1))\<rparr>)"
        using b dec by (simp add: CRYPTO_BUFFER_free_def)
      then show ?thesis using keep [of "references b - 1"] m False assms(2) by (simp add: counted_def)
    next
      case True
      let ?x = "(a, buf_data b)"
      obtain found lh where del: "lh_delete alloc (bufs st) ?x = (found, lh)" by fastforce
      define st' where "st' = st\<lparr>bufs := (if in_pool b then lh else bufs st), objs := (objs st)(a := None)\<rparr>"
      note dl = buffers.delete_table [OF inv(1) del]
      have ret: "lh_retrieve (bufs st) ?x = Some ?x" if "in_pool b"
        using retrieve_published [OF assms(1), of ?x ?x] b P that by (simp add: published_def)
      have f: "found = Some ?x" if "in_pool b" using dl ret [OF that] by simp
      have res: "CRYPTO_BUFFER_free alloc (Some a) st = Some st'"
        using b dec True f del by (simp add: CRYPTO_BUFFER_free_def st'_def)
      have "elements (bufs st') = published st' P"
      proof (cases "in_pool b")
        case True
        have uniq: "y = ?x" if "y \<in> published st P" "snd y = buf_data b" for y
          using retrieve_published [OF assms(1), of ?x y] that ret [OF True] by simp
        have "elements lh = {y \<in> published st P. snd y \<noteq> buf_data b}"
          using dl inv(2) by (simp add: CRYPTO_BUFFER_cmp_0)
        moreover have "snd y \<noteq> buf_data b \<longleftrightarrow> y \<noteq> ?x" if "y \<in> published st P" for y
          using uniq [OF that] by (metis snd_conv)
        ultimately have "elements lh = published st P - {?x}" by blast
        moreover have "bufs st' = lh" using True by (simp add: st'_def)
        moreover have "published st' P = published st P - {?x}"
        proof (rule set_eqI)
          fix y
          show "y \<in> published st' P \<longleftrightarrow> y \<in> published st P - {?x}"
            using b by (cases y) (simp add: published_def st'_def)
        qed
        ultimately show ?thesis by simp
      next
        case False
        then show ?thesis using inv(2) b by (auto simp: st'_def published_def split: if_splits)
      qed
      moreover have "buffers.table (bufs st')" using dl inv(1) by (simp add: st'_def)
      moreover have "objs st' = (objs st)(a := None)" by (simp add: st'_def)
      ultimately have "pool_inv (st', h(a := h a - 1), P)" using inv(3-5) P True
        by (intro pool_invI) (auto split: if_splits)
      then show ?thesis using res by blast
    qed
  qed
qed

lemma alloc_objs: "buffer_alloc alloc a d pooled st = Some st' \<Longrightarrow>
    st' = st\<lparr>objs := (objs st)(a \<mapsto> \<lparr>in_pool = pooled, buf_data = d, references = 1\<rparr>)\<rparr>"
  by (simp add: buffer_alloc_def split: if_splits)

lemma pool_step_inv: "pool_step c c' \<Longrightarrow> pool_inv c \<Longrightarrow> pool_inv c'"
proof (induction rule: pool_step.induct)
  case (Alloc st a alloc d st' h P)
  note inv = pool_invD [OF Alloc.prems] and st' = alloc_objs [OF Alloc.hyps(2)]
  have "published st' (insert a P) = published st P"
    using Alloc.hyps(1) by (auto simp: published_def st' split: if_splits)
  then show ?case using inv Alloc.hyps(1) by (intro pool_invI) (auto simp: st' split: if_splits)
next
  case (Alloc_private st a alloc d st' h P)
  note inv = pool_invD [OF Alloc_private.prems] and st' = alloc_objs [OF Alloc_private.hyps(2)]
  have "a \<notin> P" using inv(3) [of a] Alloc_private.hyps(1) by auto
  have "published st' P = published st P"
    using Alloc_private.hyps(1) by (auto simp: published_def st' split: if_splits)
  then show ?case using inv Alloc_private.hyps(1) \<open>a \<notin> P\<close>
    by (intro pool_invI) (auto simp: st' gain_def counted_def split: if_splits)
next
  case (Up_ref h a st P)
  note inv = pool_invD [OF Up_ref.prems]
  have "a \<notin> P" "objs st a \<noteq> None" using inv(3,4) [of a] Up_ref.hyps by auto
  then show ?case using inc_inv [OF Up_ref.prems] by (auto simp: CRYPTO_BUFFER_up_ref_def)
next
  case (Free h a alloc st st' P)
  then show ?case using free_inv [OF Free.prems, of a alloc] by auto
qed (rule lookup_inv publish_inv; assumption)+

lemma pool_reach_inv: "pool_reach c \<Longrightarrow> pool_inv c"
proof (induction rule: pool_reach.induct)
  case (Start alloc st)
  then obtain lh where lh: "lh_new alloc CRYPTO_BUFFER_hash CRYPTO_BUFFER_cmp = Some lh"
    "st = \<lparr>bufs = lh, objs = (\<lambda>_. None)\<rparr>"
    by (auto simp: CRYPTO_BUFFER_POOL_new_def split: if_splits option.splits)
  then show ?case using lh_new_inv [OF lh(1)]
    by (intro pool_invI) (auto simp: buffers.table_def published_def)
next
  case (Step c c')
  then show ?case using pool_step_inv by blast
qed

section \<open>Whole calls\<close>

lemma published_inc [simp]: "published (inc_references a st) P = published st P"
  by (auto simp: inc_references_def published_def split: option.splits if_splits)

lemma lookup_published:
  "pool_inv (st, h, P) \<Longrightarrow> (x, d) \<in> published st P \<Longrightarrow> fst (buffer_lookup d st) = Some x"
  using retrieve_published [of st h P "(0, d)" "(x, d)"] by (simp add: buffer_lookup_def)

lemma lookup_result:
  assumes "pool_inv (st, h, P)" "buffer_lookup d st = (Some x, st')"
  shows "(x, d) \<in> published st' P"
proof -
  obtain e where "lh_retrieve (bufs st) (0, d) = Some (x, e)" "st' = inc_references x st"
    using assms(2) by (auto simp: buffer_lookup_def split: option.splits)
  then show ?thesis using retrieve_published [OF assms(1), of "(0, d)" "(x, e)"] by auto
qed

lemma publish_result:
  assumes "pool_inv (st, h, P)" "a \<in> P" "objs st a = Some b" "buffer_publish alloc a st = (Some x, st')"
  shows "(x, buf_data b) \<in> published st' (P - {a})"
proof (cases "lh_retrieve (bufs st) (a, buf_data b)")
  case None
  then have "x = a" "objs st' = objs st"
    using assms(3,4) by (auto simp: buffer_publish_def Let_def split: prod.splits if_splits)
  then show ?thesis using assms(3) pool_invD(3) [OF assms(1,2)] by (auto simp: published_def)
next
  case (Some y)
  then have y: "y \<in> published st P" "snd y = buf_data b"
    using retrieve_published [OF assms(1)] by simp_all
  then have "fst y \<noteq> a" using assms(2) by (auto simp: published_def)
  have "x = fst y" "objs st' = (objs (inc_references x st))(a := None)"
    using Some assms(3,4) by (auto simp: buffer_publish_def Let_def split: prod.splits)
  moreover have "(fst y, buf_data b) \<in> published (inc_references x st) P" using y by (cases y) simp
  ultimately show ?thesis using \<open>fst y \<noteq> a\<close> by (auto simp: published_def)
qed

lemma buffer_new_reach:
  assumes "pool_reach (st, h, P)" "objs st a = None" "CRYPTO_BUFFER_new alloc a d True st = (Some x, st')"
  shows "pool_reach (st', gain (Some x) h, P) \<and> (x, d) \<in> published st' P"
proof -
  note inv = pool_reach_inv [OF assms(1)]
  obtain r u where l: "buffer_lookup d st = (r, u)" by fastforce
  have step: "pool_step (st, h, P) (u, gain r h, P)" by (rule pool_step.Lookup [OF l])
  show ?thesis
  proof (cases r)
    case (Some dup)
    then have "x = dup" "st' = u" using assms(3) l by (simp_all add: CRYPTO_BUFFER_new_def)
    then show ?thesis using pool_reach.Step [OF assms(1) step] lookup_result [OF inv] l Some by simp
  next
    case None
    then have "u = st" using l by (auto simp: buffer_lookup_def split: option.splits)
    obtain v where v: "buffer_alloc alloc a d True st = Some v" "buffer_publish alloc a v = (Some x, st')"
      using assms(3) l None \<open>u = st\<close> by (auto simp: CRYPTO_BUFFER_new_def split: option.splits)
    have reach: "pool_reach (v, h, insert a P)"
      by (rule pool_reach.Step [OF assms(1) pool_step.Alloc [OF assms(2) v(1)]])
    have "a \<notin> P" using pool_invD(3) [OF inv, of a] assms(2) by auto
    then have P: "insert a P - {a} = P" by simp
    have "pool_step (v, h, insert a P) (st', gain (Some x) h, insert a P - {a})"
      using v(2) by (intro pool_step.Publish) simp_all
    moreover have "(x, d) \<in> published st' (insert a P - {a})"
      using publish_result [OF pool_reach_inv [OF reach] _ _ v(2)] alloc_objs [OF v(1)] by simp
    ultimately show ?thesis using pool_reach.Step [OF reach] P by simp
  qed
qed

section \<open>Properties\<close>

text \<open>
  C29. In every state that threads sharing a pool can reach, whatever the order of their locked
  sections and whichever allocations fail: an address to which a client holds a reference is that of
  a live buffer and releasing the reference neither aborts nor fails an assertion; the pool never
  holds two buffers with the same bytes; and the reference count of a buffer is the number of
  references held, unless it has reached its maximum, where it stays.
\<close>

theorem pool_reachable_safe:
  assumes "pool_reach (st, h, P)"
  shows "(0 < h a \<longrightarrow> objs st a \<noteq> None \<and> CRYPTO_BUFFER_free alloc (Some a) st \<noteq> None) \<and>
    (x \<in> elements (bufs st) \<longrightarrow> y \<in> elements (bufs st) \<longrightarrow> snd x = snd y \<longrightarrow> x = y) \<and>
    (objs st a = Some b \<longrightarrow> a \<notin> P \<longrightarrow> references b \<noteq> CRYPTO_REFCOUNT_MAX \<longrightarrow>
      0 < h a \<and> unat (references b) = h a)"
proof (intro conjI impI)
  have inv: "pool_inv (st, h, P)" using pool_reach_inv [OF assms] .
  note invD = pool_invD [OF inv]
  { assume "0 < h a"
    then show "objs st a \<noteq> None" using invD(4) [of a] by auto
    from \<open>0 < h a\<close> show "CRYPTO_BUFFER_free alloc (Some a) st \<noteq> None"
      using free_inv [OF inv, of a alloc] by auto }
  { assume "x \<in> elements (bufs st)" "y \<in> elements (bufs st)" "snd x = snd y"
    then have "lh_retrieve (bufs st) y = Some x" "lh_retrieve (bufs st) y = Some y"
      using retrieve_published [OF inv] invD(2) by simp_all
    then show "x = y" by simp }
  { assume *: "objs st a = Some b" "a \<notin> P" "references b \<noteq> CRYPTO_REFCOUNT_MAX"
    then have "counted b (h a)" by (intro invD(5))
    then show "0 < h a" "unat (references b) = h a" using *(3) by (simp_all add: counted_def) }
qed

definition empty_pool :: pool_state where
  "empty_pool = the (CRYPTO_BUFFER_POOL_new (\<lambda>_. True))"

lemma empty_pool_reach: "pool_reach (empty_pool, \<lambda>_. 0, {})"
proof (rule pool_reach.Start)
  show "CRYPTO_BUFFER_POOL_new (\<lambda>_. True) = Some empty_pool"
    by (simp add: empty_pool_def CRYPTO_BUFFER_POOL_new_def lh_new_def)
qed

definition one_buffer :: pool_state where
  "one_buffer = snd (buffer_publish (\<lambda>_. True) 1 (the (buffer_alloc (\<lambda>_. True) 1 [7, 8] True empty_pool)))"

theorem pool_reachable_safe_witness:
  "objs one_buffer 1 \<noteq> None \<and> CRYPTO_BUFFER_free (\<lambda>_. True) (Some 1) one_buffer \<noteq> None"
proof -
  define st where "st = the (buffer_alloc (\<lambda>_. True) 1 [7, 8] True empty_pool)"
  have "objs empty_pool 1 = None" by code_simp
  moreover have "buffer_alloc (\<lambda>_. True) 1 [7, 8] True empty_pool = Some st"
    by (simp add: st_def buffer_alloc_def)
  ultimately have "pool_step (empty_pool, \<lambda>_. 0, {}) (st, \<lambda>_. 0, {1})" by (rule pool_step.Alloc)
  then have r: "pool_reach (st, \<lambda>_. 0, {1})" by (rule pool_reach.Step [OF empty_pool_reach])
  have "fst (buffer_publish (\<lambda>_. True) 1 st) = Some 1" unfolding st_def by code_simp
  then have "buffer_publish (\<lambda>_. True) 1 st = (Some 1, one_buffer)"
    by (simp add: one_buffer_def st_def prod_eq_iff)
  then have "pool_step (st, \<lambda>_. 0, {1}) (one_buffer, gain (Some 1) (\<lambda>_. 0), {1} - {1})"
    by (intro pool_step.Publish) simp
  then have "pool_reach (one_buffer, gain (Some 1) (\<lambda>_. 0), {1} - {1})" by (rule pool_reach.Step [OF r])
  from pool_reachable_safe [OF this] show ?thesis by (simp add: gain_def)
qed

text \<open>
  C30. CRYPTO_BUFFER_new with a pool is a sequence of these steps, so it keeps the pool's invariant;
  the buffer it returns has the given bytes, and a further call with the same bytes returns the same
  buffer without needing memory.
\<close>

theorem buffer_new_shares:
  assumes "pool_reach (st, h, P)" "objs st a = None" "CRYPTO_BUFFER_new alloc a d True st = (Some x, st')"
  shows "pool_reach (st', gain (Some x) h, P) \<and> CRYPTO_BUFFER_data x st' = Some d \<and>
    fst (CRYPTO_BUFFER_new alloc' a' d True st') = Some x"
proof -
  note new = buffer_new_reach [OF assms]
  have inv: "pool_inv (st', gain (Some x) h, P)" using new by (intro pool_reach_inv) simp
  have "fst (buffer_lookup d st') = Some x" using lookup_published [OF inv] new by simp
  then have "fst (CRYPTO_BUFFER_new alloc' a' d True st') = Some x"
    by (auto simp: CRYPTO_BUFFER_new_def split: prod.splits option.splits)
  then show ?thesis using new by (auto simp: CRYPTO_BUFFER_data_def published_def)
qed

theorem buffer_new_shares_witness:
  "case CRYPTO_BUFFER_new (\<lambda>_. True) 5 [1, 2, 3] True empty_pool of
     (r, st') \<Rightarrow> r = Some 5 \<and> CRYPTO_BUFFER_data 5 st' = Some [1, 2, 3] \<and>
       fst (CRYPTO_BUFFER_new (\<lambda>_. False) 6 [1, 2, 3] True st') = Some 5"
proof -
  obtain r st' where new: "CRYPTO_BUFFER_new (\<lambda>_. True) 5 [1, 2, 3] True empty_pool = (r, st')" by fastforce
  have "fst (CRYPTO_BUFFER_new (\<lambda>_. True) 5 [1, 2, 3] True empty_pool) = Some 5" by code_simp
  then have r: "r = Some 5" using new by simp
  have "objs empty_pool 5 = None" by code_simp
  from buffer_new_shares [OF empty_pool_reach this new [unfolded r]] show ?thesis
    by (simp add: new r)
qed

end
