(* ===== verification/ConstTime.thy ===== *)
theory ConstTime
  imports Prelude
begin

text \<open>
  The constant-time helpers of BoringSSL \<open>crypto/internal.h\<close> on a 64-bit \<open>crypto_word_t\<close>: masks of
  all ones or all zeros computed without a branch. Each is proved equal to the comparison or the
  choice it stands for, and these equations are the collection \<open>consttime\<close> for the code that uses
  the helpers.
\<close>

unbundle bit_operations_syntax

named_theorems consttime "the helpers as comparisons and choices"

type_synonym crypto_word_t = u64

definition CONSTTIME_TRUE_W :: crypto_word_t where
  "CONSTTIME_TRUE_W = NOT 0"

definition CONSTTIME_FALSE_W :: crypto_word_t where
  "CONSTTIME_FALSE_W = 0"

definition CONSTTIME_TRUE_8 :: u8 where
  "CONSTTIME_TRUE_8 = 0xff"

definition CONSTTIME_FALSE_8 :: u8 where
  "CONSTTIME_FALSE_8 = 0"

definition constant_time_msb_w :: "crypto_word_t \<Rightarrow> crypto_word_t" where
  "constant_time_msb_w a = 0 - drop_bit (8 * 8 - 1) a"

definition constant_time_lt_w :: "crypto_word_t \<Rightarrow> crypto_word_t \<Rightarrow> crypto_word_t" where
  "constant_time_lt_w a b = constant_time_msb_w (a XOR ((a XOR b) OR ((a - b) XOR a)))"

definition constant_time_lt_8 :: "crypto_word_t \<Rightarrow> crypto_word_t \<Rightarrow> u8" where
  "constant_time_lt_8 a b = ucast (constant_time_lt_w a b)"

definition constant_time_ge_w :: "crypto_word_t \<Rightarrow> crypto_word_t \<Rightarrow> crypto_word_t" where
  "constant_time_ge_w a b = NOT (constant_time_lt_w a b)"

definition constant_time_ge_8 :: "crypto_word_t \<Rightarrow> crypto_word_t \<Rightarrow> u8" where
  "constant_time_ge_8 a b = ucast (constant_time_ge_w a b)"

definition constant_time_is_zero_w :: "crypto_word_t \<Rightarrow> crypto_word_t" where
  "constant_time_is_zero_w a = constant_time_msb_w (NOT a AND (a - 1))"

definition constant_time_is_zero_8 :: "crypto_word_t \<Rightarrow> u8" where
  "constant_time_is_zero_8 a = ucast (constant_time_is_zero_w a)"

definition constant_time_eq_w :: "crypto_word_t \<Rightarrow> crypto_word_t \<Rightarrow> crypto_word_t" where
  "constant_time_eq_w a b = constant_time_is_zero_w (a XOR b)"

definition constant_time_eq_8 :: "crypto_word_t \<Rightarrow> crypto_word_t \<Rightarrow> u8" where
  "constant_time_eq_8 a b = ucast (constant_time_eq_w a b)"

text \<open>An \<open>int\<close>, here its 32 bits, is converted to \<open>crypto_word_t\<close> with sign extension.\<close>

definition constant_time_eq_int :: "u32 \<Rightarrow> u32 \<Rightarrow> crypto_word_t" where
  "constant_time_eq_int a b = constant_time_eq_w (scast a) (scast b)"

definition constant_time_eq_int_8 :: "u32 \<Rightarrow> u32 \<Rightarrow> u8" where
  "constant_time_eq_int_8 a b = constant_time_eq_8 (scast a) (scast b)"

definition constant_time_select_w :: "crypto_word_t \<Rightarrow> crypto_word_t \<Rightarrow> crypto_word_t \<Rightarrow> crypto_word_t" where
  "constant_time_select_w m a b = (m AND a) OR (NOT m AND b)"

definition constant_time_select_8 :: "u8 \<Rightarrow> u8 \<Rightarrow> u8 \<Rightarrow> u8" where
  "constant_time_select_8 m a b = ucast (constant_time_select_w (ucast m) (ucast a) (ucast b))"

definition constant_time_select_int :: "crypto_word_t \<Rightarrow> u32 \<Rightarrow> u32 \<Rightarrow> u32" where
  "constant_time_select_int m a b = ucast (constant_time_select_w m (scast a) (scast b))"

section \<open>Masks\<close>

lemma bit63: "bit (a :: u64) 63 \<longleftrightarrow> 2 ^ 63 \<le> unat a"
proof -
  have "unat a div 2 ^ 63 = 0 \<or> unat a div 2 ^ 63 = 1" using unat_u64_less [of a] by auto
  moreover have "unat a div 2 ^ 63 = 0 \<longleftrightarrow> unat a < 2 ^ 63" by (simp add: div_eq_0_iff)
  moreover have "bit a 63 \<longleftrightarrow> bit (unat a) 63" by (simp add: bit_unsigned_iff)
  then have "bit a 63 \<longleftrightarrow> odd (unat a div 2 ^ 63)" by (simp only: bit_iff_odd)
  ultimately show ?thesis by (auto simp: not_less)
qed

lemma msb_w_value: "constant_time_msb_w a = (if bit a 63 then - 1 else 0)"
proof -
  have "drop_bit 63 a = of_bool (bit a 63)"
  proof (rule bit_word_eqI)
    fix n assume "n < LENGTH(64)"
    then show "bit (drop_bit 63 a) n = bit (of_bool (bit a 63) :: u64) n"
      by (cases n) (auto simp: bit_simps dest: bit_imp_le_length)
  qed
  then show ?thesis by (simp add: constant_time_msb_w_def)
qed

lemma unat_sub_wrap:
  "unat (a - b :: u64) = (if b \<le> a then unat a - unat b else unat a + 2 ^ 64 - unat b)"
  by (simp add: unat_sub_if' word_le_nat_alt)

lemma lt_w_value [consttime]: "constant_time_lt_w a b = (if a < b then - 1 else 0)"
proof -
  have "bit (a XOR ((a XOR b) OR ((a - b) XOR a))) 63 \<longleftrightarrow>
      (if bit a 63 = bit b 63 then bit (a - b) 63 else bit b 63)"
    by (auto simp: bit_simps)
  also have "\<dots> \<longleftrightarrow> a < b"
    using unat_u64_less [of a] unat_u64_less [of b]
    by (auto simp: bit63 unat_sub_wrap word_less_nat_alt word_le_nat_alt)
  finally show ?thesis by (simp add: constant_time_lt_w_def msb_w_value)
qed

lemma ge_w_value [consttime]: "constant_time_ge_w a b = (if b \<le> a then - 1 else 0)"
  by (auto simp: constant_time_ge_w_def lt_w_value)

lemma is_zero_w_value [consttime]: "constant_time_is_zero_w a = (if a = 0 then - 1 else 0)"
proof (cases "a = 0")
  case False
  then have "1 \<le> unat a" by (simp add: Suc_le_eq unat_gt_0)
  then have "unat (a - 1) = unat a - 1" by (subst unat_sub_le) (simp_all add: word_le_nat_alt)
  then have "bit (a - 1) 63 \<longrightarrow> bit a 63" by (auto simp: bit63)
  then have "\<not> bit (NOT a AND (a - 1)) 63" by (auto simp: bit_and_iff bit_not_iff)
  then show ?thesis using False by (simp add: constant_time_is_zero_w_def msb_w_value)
qed (simp add: constant_time_is_zero_w_def constant_time_msb_w_def)

lemma eq_w_value [consttime]: "constant_time_eq_w a b = (if a = b then - 1 else 0)"
proof -
  have "a XOR b = 0 \<longleftrightarrow> a = b"
  proof
    assume "a XOR b = 0"
    then have "(a XOR b) XOR b = b" by simp
    then show "a = b" by (simp add: xor.assoc)
  qed simp
  then show ?thesis by (simp add: constant_time_eq_w_def is_zero_w_value)
qed

lemma ucast_minus_one: "ucast (- 1 :: u64) = (- 1 :: u8)"
  by (rule bit_word_eqI) (simp add: bit_simps)

lemma byte_masks [consttime]:
  "constant_time_lt_8 a b = (if a < b then - 1 else 0)"
  "constant_time_ge_8 a b = (if b \<le> a then - 1 else 0)"
  "constant_time_is_zero_8 a = (if a = 0 then - 1 else 0)"
  "constant_time_eq_8 a b = (if a = b then - 1 else 0)"
  by (simp_all add: constant_time_lt_8_def constant_time_ge_8_def constant_time_is_zero_8_def
      constant_time_eq_8_def lt_w_value ge_w_value is_zero_w_value eq_w_value
      ucast_minus_one)

lemma select_w_value [consttime]: "constant_time_select_w (if P then - 1 else 0) a b = (if P then a else b)"
  by (simp add: constant_time_select_w_def)

lemma select_8_value [consttime]: "constant_time_select_8 (if P then - 1 else 0) a b = (if P then a else b)"
proof -
  have "ucast ((ucast (- 1 :: u8) :: u64) AND ucast a OR NOT (ucast (- 1 :: u8)) AND ucast b) = a"
    by (rule bit_word_eqI) (simp add: bit_simps)
  moreover have "ucast ((ucast (0 :: u8) :: u64) AND ucast a OR NOT (ucast (0 :: u8)) AND ucast b) = b"
    by (rule bit_word_eqI) (simp add: bit_simps)
  ultimately show ?thesis by (simp add: constant_time_select_8_def constant_time_select_w_def)
qed

lemma select_int_value [consttime]:
  "constant_time_select_int (if P then - 1 else 0) a b = (if P then a else b)"
proof -
  have "ucast (scast x :: u64) = x" for x :: u32
    by (rule bit_word_eqI) (simp add: bit_simps)
  then show ?thesis by (simp add: constant_time_select_int_def select_w_value)
qed

end
