(* ===== verification/Base64.thy ===== *)
theory Base64
  imports ConstTime
begin

text \<open>
  BoringSSL \<open>crypto/base64/base64.c\<close>: base64 in one piece and as a stream with lines of 64
  characters. The bytes stored through \<open>out\<close> or \<open>dst\<close> are returned as a list that begins where the
  pointer points; \<open>src_len\<close> and \<open>in_len\<close> are the lengths of the input lists. Of a call that fails only
  what the caller may look at is returned.
\<close>

unbundle bit_operations_syntax

section \<open>Characters\<close>

definition constant_time_lt_args_8 :: "u8 \<Rightarrow> u8 \<Rightarrow> u8" where
  "constant_time_lt_args_8 a b =
     (let aw = ucast a :: crypto_word_t;
          bw = ucast b :: crypto_word_t
      in ucast (constant_time_msb_w (aw - bw)))"

definition constant_time_in_range_8 :: "u8 \<Rightarrow> u8 \<Rightarrow> u8 \<Rightarrow> u8" where
  "constant_time_in_range_8 a lo hi =
     (let a = a - lo in constant_time_lt_args_8 a (hi - lo + 1))"

definition conv_bin2ascii :: "u8 \<Rightarrow> u8" where
  "conv_bin2ascii a =
     (let a = a AND 0x3f;
          ret = constant_time_select_8 (constant_time_eq_8 (ucast a) 62) 43 47;
          ret = constant_time_select_8 (constant_time_lt_args_8 a 62) (a - 52 + 48) ret;
          ret = constant_time_select_8 (constant_time_lt_args_8 a 52) (a - 26 + 97) ret;
          ret = constant_time_select_8 (constant_time_lt_args_8 a 26) (a + 65) ret
      in ret)"

definition base64_ascii_to_bin :: "u8 \<Rightarrow> u8" where
  "base64_ascii_to_bin a =
     (let is_upper = constant_time_in_range_8 a 65 90;
          is_lower = constant_time_in_range_8 a 97 122;
          is_digit = constant_time_in_range_8 a 48 57;
          is_plus = constant_time_eq_8 (ucast a) 43;
          is_slash = constant_time_eq_8 (ucast a) 47;
          is_equals = constant_time_eq_8 (ucast a) 61;
          ret = 0xff;
          ret = constant_time_select_8 is_upper (a - 65) ret;
          ret = constant_time_select_8 is_lower (a - 97 + 26) ret;
          ret = constant_time_select_8 is_digit (a - 48 + 52) ret;
          ret = constant_time_select_8 is_plus 62 ret;
          ret = constant_time_select_8 is_slash 63 ret;
          ret = constant_time_select_8 is_equals 0 ret
      in ret)"

section \<open>Encoding\<close>

definition EVP_EncodedLength :: "u64 \<Rightarrow> u64 option" where
  "EVP_EncodedLength len =
     (if len + 2 < len then None
      else
        let len = len + 2;
            len = len div 3
        in if drop_bit 2 (push_bit 2 len) \<noteq> len then None
           else
             let len = push_bit 2 len
             in if len + 1 < len then None else Some (len + 1))"

text \<open>The characters before the terminating zero.\<close>

fun encode_loop :: "u8 list \<Rightarrow> u8 list" where
  "encode_loop [] = []"
| "encode_loop (s0 # s1 # s2 # src) =
     (let l = push_bit 16 (ucast s0) OR push_bit 8 (ucast s1) OR ucast s2 :: u32
      in conv_bin2ascii (ucast (drop_bit 18 l)) # conv_bin2ascii (ucast (drop_bit 12 l)) #
         conv_bin2ascii (ucast (drop_bit 6 l)) # conv_bin2ascii (ucast l) # encode_loop src)"
| "encode_loop [s0, s1] =
     (let l = push_bit 16 (ucast s0) OR push_bit 8 (ucast s1) :: u32
      in [conv_bin2ascii (ucast (drop_bit 18 l)), conv_bin2ascii (ucast (drop_bit 12 l)),
          conv_bin2ascii (ucast (drop_bit 6 l)), 61])"
| "encode_loop [s0] =
     (let l = push_bit 16 (ucast s0) :: u32
      in [conv_bin2ascii (ucast (drop_bit 18 l)), conv_bin2ascii (ucast (drop_bit 12 l)), 61, 61])"

definition EVP_EncodeBlock :: "u8 list \<Rightarrow> nat \<times> u8 list" where
  "EVP_EncodeBlock src = (let dst = encode_loop src in (length dst, dst @ [0]))"

record evp_encode_ctx =
  data_used :: nat
  ctx_data :: "u8 list"
  eof_seen :: bool
  error_encountered :: bool

definition EVP_EncodeInit :: evp_encode_ctx where
  "EVP_EncodeInit =
     \<lparr>data_used = 0, ctx_data = replicate 48 0, eof_seen = False, error_encountered = False\<rparr>"

text \<open>
  One line: the characters of a block of 48 bytes and a newline, in place of the terminating zero;
  the zero then follows and is overwritten by what comes next.
\<close>

definition encode_line :: "u8 list \<Rightarrow> nat \<times> u8 list" where
  "encode_line block = (let (encoded, dst) = EVP_EncodeBlock block in (encoded, take encoded dst @ [10]))"

text \<open>The loop over whole blocks; \<open>None\<close> when \<open>total\<close> would overflow.\<close>

function encode_blocks :: "u8 list \<Rightarrow> u8 list \<Rightarrow> u64 \<Rightarrow> (u8 list \<times> u8 list \<times> u64) option" where
  "encode_blocks inp out tot =
     (if length inp \<ge> 48 then
        (let (encoded, line) = encode_line (take 48 inp)
         in if tot + of_nat encoded + 1 < tot then None
            else encode_blocks (drop 48 inp) (out @ line) (tot + of_nat encoded + 1))
      else Some (inp, out, tot))"
  by pat_completeness auto
termination by (relation "measure (\<lambda>(inp, _). length inp)") auto

declare encode_blocks.simps [simp del]

definition terminated :: "u8 list \<Rightarrow> u8 list" where
  "terminated out = (if out = [] then [] else out @ [0])"

text \<open>The results: the context, the bytes stored from \<open>out\<close> on, and \<open>*out_len\<close>.\<close>

definition EVP_EncodeUpdate :: "evp_encode_ctx \<Rightarrow> u8 list \<Rightarrow> evp_encode_ctx \<times> u8 list \<times> nat" where
  "EVP_EncodeUpdate ctx inp =
     (if inp = [] then (ctx, [], 0)
      else if 48 - data_used ctx > length inp then
        (ctx\<lparr>ctx_data := take (data_used ctx) (ctx_data ctx) @ inp @ drop (data_used ctx + length inp) (ctx_data ctx),
             data_used := data_used ctx + length inp\<rparr>, [], 0)
      else
        let (ctx, inp, out, tot) =
              (if data_used ctx \<noteq> 0 then
                 let todo = 48 - data_used ctx;
                     arr = take (data_used ctx) (ctx_data ctx) @ take todo inp;
                     (encoded, line) = encode_line arr
                 in (ctx\<lparr>ctx_data := arr, data_used := 0\<rparr>, drop todo inp, line, of_nat encoded + 1)
               else (ctx, inp, [], 0))
        in (case encode_blocks inp out tot of
              None \<Rightarrow> (ctx, terminated out, 0)
            | Some (inp, out, tot) \<Rightarrow>
                let ctx = ctx\<lparr>ctx_data := inp @ drop (length inp) (ctx_data ctx), data_used := length inp\<rparr>;
                    tot = (if unat tot > INT_MAX then 0 else tot)
                in (ctx, terminated out, unat tot)))"

definition EVP_EncodeFinal :: "evp_encode_ctx \<Rightarrow> evp_encode_ctx \<times> u8 list \<times> nat" where
  "EVP_EncodeFinal ctx =
     (if data_used ctx = 0 then (ctx, [], 0)
      else
        let (encoded, line) = encode_line (take (data_used ctx) (ctx_data ctx))
        in (ctx\<lparr>data_used := 0\<rparr>, line @ [0], encoded + 1))"

section \<open>Decoding\<close>

definition EVP_DecodedLength :: "nat \<Rightarrow> nat option" where
  "EVP_DecodedLength len = (if len mod 4 \<noteq> 0 then None else Some (len div 4 * 3))"

definition EVP_DecodeInit :: evp_encode_ctx where
  "EVP_DecodeInit =
     \<lparr>data_used = 0, ctx_data = replicate 48 0, eof_seen = False, error_encountered = False\<rparr>"

text \<open>The bytes stored, whose number is \<open>*out_num_bytes\<close>; \<open>None\<close> on an error.\<close>

definition base64_decode_quad :: "u8 \<Rightarrow> u8 \<Rightarrow> u8 \<Rightarrow> u8 \<Rightarrow> u8 list option" where
  "base64_decode_quad in0 in1 in2 in3 =
     (let a = base64_ascii_to_bin in0;
          b = base64_ascii_to_bin in1;
          c = base64_ascii_to_bin in2;
          d = base64_ascii_to_bin in3
      in if a = 0xff \<or> b = 0xff \<or> c = 0xff \<or> d = 0xff then None
         else
           let v = push_bit 18 (ucast a) OR push_bit 12 (ucast b) OR push_bit 6 (ucast c) OR ucast d :: u32;
               padding_pattern = push_bit 3 (of_bool (in0 = 61)) OR push_bit 2 (of_bool (in1 = 61)) OR
                 push_bit 1 (of_bool (in2 = 61)) OR of_bool (in3 = 61) :: u32
           in if padding_pattern = 0 then Some [ucast (drop_bit 16 v), ucast (drop_bit 8 v), ucast v]
              else if padding_pattern = 1 then Some [ucast (drop_bit 16 v), ucast (drop_bit 8 v)]
              else if padding_pattern = 3 then Some [ucast (drop_bit 16 v)]
              else None)"

definition is_space :: "u8 \<Rightarrow> bool" where
  "is_space c \<longleftrightarrow> c = 32 \<or> c = 9 \<or> c = 13 \<or> c = 10"

text \<open>The loop over the characters; the first result is false where it returns an error.\<close>

fun decode_chars :: "evp_encode_ctx \<Rightarrow> u8 list \<Rightarrow> u8 list \<Rightarrow> bool \<times> evp_encode_ctx \<times> u8 list" where
  "decode_chars ctx out [] = (True, ctx, out)"
| "decode_chars ctx out (c # inp) =
     (if is_space c then decode_chars ctx out inp
      else if eof_seen ctx then (False, ctx\<lparr>error_encountered := True\<rparr>, out)
      else
        let ctx = ctx\<lparr>ctx_data := (ctx_data ctx)[data_used ctx := c], data_used := data_used ctx + 1\<rparr>
        in if data_used ctx = 4 then
             (case base64_decode_quad (ctx_data ctx ! 0) (ctx_data ctx ! 1) (ctx_data ctx ! 2) (ctx_data ctx ! 3) of
                None \<Rightarrow> (False, ctx\<lparr>error_encountered := True\<rparr>, out)
              | Some bytes \<Rightarrow>
                  let ctx = ctx\<lparr>data_used := 0\<rparr>;
                      ctx = (if length bytes < 3 then ctx\<lparr>eof_seen := True\<rparr> else ctx)
                  in decode_chars ctx (out @ bytes) inp)
           else decode_chars ctx out inp)"

text \<open>The results: the value returned, the bytes stored, \<open>*out_len\<close> and the context.\<close>

definition EVP_DecodeUpdate :: "evp_encode_ctx \<Rightarrow> u8 list \<Rightarrow> int \<times> u8 list \<times> nat \<times> evp_encode_ctx" where
  "EVP_DecodeUpdate ctx inp =
     (if error_encountered ctx then (- 1, [], 0, ctx)
      else
        (case decode_chars ctx [] inp of
           (False, ctx, out) \<Rightarrow> (- 1, out, 0, ctx)
         | (True, ctx, out) \<Rightarrow>
             if length out > INT_MAX then (- 1, out, 0, ctx\<lparr>error_encountered := True\<rparr>)
             else if eof_seen ctx then (0, out, length out, ctx)
             else (1, out, length out, ctx)))"

definition EVP_DecodeFinal :: "evp_encode_ctx \<Rightarrow> int" where
  "EVP_DecodeFinal ctx = (if error_encountered ctx \<or> data_used ctx \<noteq> 0 then - 1 else 1)"

fun decode_quads :: "u8 list \<Rightarrow> u8 list \<Rightarrow> u8 list option" where
  "decode_quads out (i0 # i1 # i2 # i3 # inp) =
     (case base64_decode_quad i0 i1 i2 i3 of
        None \<Rightarrow> None
      | Some bytes \<Rightarrow> if length bytes \<noteq> 3 \<and> inp \<noteq> [] then None else decode_quads (out @ bytes) inp)"
| "decode_quads out _ = Some out"

definition EVP_DecodeBase64 :: "nat \<Rightarrow> u8 list \<Rightarrow> u8 list option" where
  "EVP_DecodeBase64 max_out inp =
     (if length inp mod 4 \<noteq> 0 then None
      else
        (case EVP_DecodedLength (length inp) of
           None \<Rightarrow> None
         | Some max_len \<Rightarrow> if max_out < max_len then None else decode_quads [] inp))"

text \<open>The trimming at both ends, and the bytes of the result with the zeros that stand for padding.\<close>

definition trim_block :: "u8 list \<Rightarrow> u8 list" where
  "trim_block src = rev (dropWhile is_space (rev (dropWhile (\<lambda>c. c = 32 \<or> c = 9) src)))"

definition EVP_DecodeBlock :: "u8 list \<Rightarrow> u8 list option" where
  "EVP_DecodeBlock src =
     (let src = trim_block src
      in case EVP_DecodedLength (length src) of
           None \<Rightarrow> None
         | Some dst_len \<Rightarrow>
             if dst_len > INT_MAX then None
             else (case EVP_DecodeBase64 dst_len src of
                     None \<Rightarrow> None
                   | Some dst \<Rightarrow> Some (dst @ replicate ((3 - length dst mod 3) mod 3) 0)))"

section \<open>The alphabet\<close>

definition alphabet :: "u8 list" where
  "alphabet = map of_char ''ABCDEFGHIJKLMNOPQRSTUVWXYZabcdefghijklmnopqrstuvwxyz0123456789+/''"

definition digit :: "nat \<Rightarrow> u8" where
  "digit k = alphabet ! k"

lemma lt_args_8_value: "constant_time_lt_args_8 a b = (if a < b then - 1 else 0)"
proof -
  have "bit (ucast a - ucast b :: u64) 63 \<longleftrightarrow> a < b"
    using unat_u8_less [of a] unat_u8_less [of b]
    by (auto simp: bit63 unat_sub_wrap word_le_nat_alt word_less_nat_alt unat_ucast_up)
  then show ?thesis by (simp add: constant_time_lt_args_8_def Let_def msb_w_value ucast_minus_one)
qed

lemma conv_bin2ascii_cases:
  "conv_bin2ascii a =
     (let a = a AND 0x3f
      in if a < 26 then a + 65 else if a < 52 then a - 26 + 97 else if a < 62 then a - 52 + 48
         else if a = 62 then 43 else 47)"
proof -
  have "(ucast (a AND 0x3f) :: u64) = 62 \<longleftrightarrow> a AND 0x3f = 62"
    by (simp add: word_unat_eq_iff unat_ucast_up)
  then show ?thesis by (simp add: conv_bin2ascii_def Let_def consttime lt_args_8_value)
qed

lemma base64_ascii_to_bin_cases:
  "base64_ascii_to_bin a =
     (if a = 61 then 0 else if a = 47 then 63 else if a = 43 then 62
      else if a - 48 < 10 then a - 48 + 52 else if a - 97 < 26 then a - 97 + 26
      else if a - 65 < 26 then a - 65 else 0xff)"
proof -
  have "(ucast a :: u64) = 61 \<longleftrightarrow> a = 61" "(ucast a :: u64) = 47 \<longleftrightarrow> a = 47" "(ucast a :: u64) = 43 \<longleftrightarrow> a = 43"
    by (simp_all add: word_unat_eq_iff unat_ucast_up)
  then show ?thesis
    by (simp add: base64_ascii_to_bin_def constant_time_in_range_8_def Let_def consttime lt_args_8_value)
qed

lemma alphabet_codes:
  "alphabet =
    [65, 66, 67, 68, 69, 70, 71, 72, 73, 74, 75, 76, 77, 78, 79, 80, 81, 82, 83, 84, 85, 86, 87, 88,
     89, 90, 97, 98, 99, 100, 101, 102, 103, 104, 105, 106, 107, 108, 109, 110, 111, 112, 113, 114, 115, 116, 117, 118,
     119, 120, 121, 122, 48, 49, 50, 51, 52, 53, 54, 55, 56, 57, 43, 47]"
  by (simp add: alphabet_def)

lemma digit_tables:
  "list_all (\<lambda>(k, c). conv_bin2ascii k = c \<and> base64_ascii_to_bin c = k \<and> c \<noteq> 61 \<and> \<not> is_space c)
     (zip
       [0, 1, 2, 3, 4, 5, 6, 7, 8, 9, 10, 11, 12, 13, 14, 15, 16, 17, 18, 19, 20, 21, 22, 23,
     24, 25, 26, 27, 28, 29, 30, 31, 32, 33, 34, 35, 36, 37, 38, 39, 40, 41, 42, 43, 44, 45, 46, 47,
     48, 49, 50, 51, 52, 53, 54, 55, 56, 57, 58, 59, 60, 61, 62, 63]
       [65, 66, 67, 68, 69, 70, 71, 72, 73, 74, 75, 76, 77, 78, 79, 80, 81, 82, 83, 84, 85, 86, 87, 88,
     89, 90, 97, 98, 99, 100, 101, 102, 103, 104, 105, 106, 107, 108, 109, 110, 111, 112, 113, 114, 115, 116, 117, 118,
     119, 120, 121, 122, 48, 49, 50, 51, 52, 53, 54, 55, 56, 57, 43, 47])"
  unfolding conv_bin2ascii_cases base64_ascii_to_bin_cases by code_simp

lemma digit_facts:
  assumes "k < 64"
  shows "conv_bin2ascii (of_nat k) = digit k" "base64_ascii_to_bin (digit k) = of_nat k"
    "digit k \<noteq> 61" "\<not> is_space (digit k)"
proof -
  have numbers: "map of_nat [0..<64] =
      [0, 1, 2, 3, 4, 5, 6, 7, 8, 9, 10, 11, 12, 13, 14, 15, 16, 17, 18, 19, 20, 21, 22, 23,
     24, 25, 26, 27, 28, 29, 30, 31, 32, 33, 34, 35, 36, 37, 38, 39, 40, 41, 42, 43, 44, 45, 46, 47,
     48, 49, 50, 51, 52, 53, 54, 55, 56, 57, 58, 59, 60, 61, 62, 63 :: u8]"
    by (simp add: upt_conv_Cons)
  have "list_all (\<lambda>(k, c). conv_bin2ascii k = c \<and> base64_ascii_to_bin c = k \<and> c \<noteq> 61 \<and> \<not> is_space c)
     (zip (map of_nat [0..<64]) alphabet)"
    unfolding numbers alphabet_codes by (rule digit_tables)
  moreover have "length alphabet = 64" by (simp add: alphabet_def)
  ultimately have "case zip (map of_nat [0..<64]) alphabet ! k of (k, c) \<Rightarrow>
      conv_bin2ascii k = c \<and> base64_ascii_to_bin c = k \<and> c \<noteq> 61 \<and> \<not> is_space c"
    using assms unfolding list_all_length by simp
  then show "conv_bin2ascii (of_nat k) = digit k" "base64_ascii_to_bin (digit k) = of_nat k"
    "digit k \<noteq> 61" "\<not> is_space (digit k)"
    using assms \<open>length alphabet = 64\<close> by (simp_all add: digit_def)
qed

lemma conv_bin2ascii_value: "conv_bin2ascii a = digit (unat a mod 64)"
proof -
  have m: "a AND 0x3f = of_nat (unat a mod 64)"
  proof -
    have "(0x3f :: u8) = mask 6" by (simp add: mask_numeral)
    then have "unat (a AND 0x3f) = unat a mod 64" using unat_and_mask [of a 6] by simp
    then show ?thesis by (simp add: word_unat_eq_iff)
  qed
  have "(of_nat (unat a mod 64) :: u8) AND 0x3f = of_nat (unat a mod 64)"
    unfolding m [symmetric] by (simp add: and.assoc)
  then have "conv_bin2ascii a = conv_bin2ascii (of_nat (unat a mod 64))"
    by (simp add: conv_bin2ascii_def m)
  then show ?thesis using digit_facts(1) [of "unat a mod 64"] by simp
qed

section \<open>The encoding of RFC 4648\<close>

text \<open>Groups of three bytes are numbers of four digits in base 64; a short group is filled up.\<close>

fun rfc4648 :: "u8 list \<Rightarrow> u8 list" where
  "rfc4648 [] = []"
| "rfc4648 (x # y # z # bytes) =
     (let n = be_val [x, y, z]
      in digit (n div 64 ^ 3) # digit (n div 64 ^ 2 mod 64) # digit (n div 64 mod 64) # digit (n mod 64)
         # rfc4648 bytes)"
| "rfc4648 [x, y] =
     (let n = be_val [x, y] * 4
      in [digit (n div 64 ^ 2), digit (n div 64 mod 64), digit (n mod 64), 61])"
| "rfc4648 [x] = (let n = be_val [x] * 16 in [digit (n div 64), digit (n mod 64), 61, 61])"

lemma conv_shifted: "conv_bin2ascii (ucast (drop_bit k (l :: u32))) = digit (unat l div 2 ^ k mod 64)"
  and conv_low: "conv_bin2ascii (ucast l) = digit (unat l mod 64)"
proof -
  have "conv_bin2ascii (ucast w) = digit (unat w mod 64)" for w :: u32
  proof -
    have "unat (ucast w :: u8) mod 64 = unat w mod 64"
      by (simp add: unsigned_ucast_eq take_bit_eq_mod mod_mod_cancel)
    then show ?thesis by (simp add: conv_bin2ascii_value)
  qed
  then show "conv_bin2ascii (ucast (drop_bit k l)) = digit (unat l div 2 ^ k mod 64)"
    "conv_bin2ascii (ucast l) = digit (unat l mod 64)" by (simp_all add: unat_drop_bit)
qed

lemma unat_byte32: "unat (ucast (x :: u8) :: u32) = unat x"
  by (rule unat_ucast_up) simp

lemma group3_value:
  "unat (push_bit 16 (ucast x) OR push_bit 8 (ucast y) OR ucast z :: u32) = be_val [x, y, z]"
proof -
  have b: "unat x < 256" "unat y < 256" "unat z < 256" by (rule unat_u8_less)+
  have i: "unat (push_bit 8 (ucast y) OR ucast z :: u32) = unat y * 256 + unat z"
    using b unat_push_or [of "ucast y :: u32" 8 "ucast z"] by (simp add: unat_byte32)
  show ?thesis
    using b i unat_push_or [of "ucast x :: u32" 16 "push_bit 8 (ucast y) OR ucast z"] by (simp add: unat_byte32)
qed

lemma group2_value:
  "unat (push_bit 16 (ucast x) OR push_bit 8 (ucast y) :: u32) = be_val [x, y] * 256"
  using group3_value [of x y 0] by simp

lemma group1_value: "unat (push_bit 16 (ucast x) :: u32) = be_val [x] * 65536"
  using group3_value [of x 0 0] by simp

lemma short_groups:
  fixes n :: nat
  shows "n < 65536 \<Longrightarrow> n * 256 div 262144 mod 64 = n * 4 div 4096"
    "n * 256 div 4096 mod 64 = n * 4 div 64 mod 64" "4 * n mod 64 = n * 4 mod 64"
    "n < 256 \<Longrightarrow> n * 65536 div 262144 mod 64 = n * 16 div 64"
    "16 * n mod 64 = n * 16 mod 64"
proof -
  have m: "n * (k * d) div (e * d) = n * k div e" if "0 < d" for k d e :: nat
    using that div_mult_mult2 [of d "n * k" e] by (simp add: mult.assoc)
  show "n < 65536 \<Longrightarrow> n * 256 div 262144 mod 64 = n * 4 div 4096"
    using m [of 64 4 4096] by (simp add: less_mult_imp_div_less)
  show "n * 256 div 4096 mod 64 = n * 4 div 64 mod 64" using m [of 64 4 64] by simp
  show "4 * n mod 64 = n * 4 mod 64" by (simp only: mult.commute)
  show "n < 256 \<Longrightarrow> n * 65536 div 262144 mod 64 = n * 16 div 64"
    using m [of 4096 16 64] by (simp add: less_mult_imp_div_less)
  show "16 * n mod 64 = n * 16 mod 64" by (simp only: mult.commute)
qed

lemma encode_loop_rfc4648: "encode_loop src = rfc4648 src"
proof (induction src rule: encode_loop.induct)
  case (2 x y z src)
  have "be_val [x, y, z] < 256 ^ 3" using be_val_less [of "[x, y, z]"] by simp
  then have "be_val [x, y, z] div 64 ^ 3 mod 64 = be_val [x, y, z] div 64 ^ 3"
    by (intro mod_less) (simp add: less_mult_imp_div_less)
  then show ?case using 2 unfolding encode_loop.simps Let_def conv_shifted unfolding conv_low group3_value
    by (simp add: Let_def del: be_val.simps)
next
  case (3 x y)
  have "be_val [x, y] < 65536" using be_val_less [of "[x, y]"] by simp
  then show ?case unfolding encode_loop.simps Let_def conv_shifted group2_value
    by (simp add: Let_def short_groups del: be_val.simps)
next
  case (4 x)
  have "be_val [x] < 256" using be_val_less [of "[x]"] by simp
  then show ?case unfolding encode_loop.simps Let_def conv_shifted group1_value
    by (simp add: Let_def short_groups del: be_val.simps)
qed simp

section \<open>Decoding a group\<close>

lemma bytes_of_group:
  "[ucast (drop_bit 16 v), ucast (drop_bit 8 v), ucast (v :: u32)] = be_bytes 3 (unat v)"
proof -
  have eq: "ucast w = (of_nat (unat w) :: u8)" for w :: u32
    by (simp add: word_unat_eq_iff unsigned_ucast_eq unat_of_nat_u8 take_bit_eq_mod)
  show ?thesis unfolding eq unat_drop_bit by (simp add: numeral_3_eq_3)
qed

lemma quad_value:
  assumes "a < 64" "b < 64" "c < 64" "d < 64"
  shows "unat (push_bit 18 (ucast (of_nat a :: u8)) OR push_bit 12 (ucast (of_nat b :: u8)) OR
      push_bit 6 (ucast (of_nat c :: u8)) OR ucast (of_nat d :: u8) :: u32) =
    ((a * 64 + b) * 64 + c) * 64 + d"
proof -
  have u: "unat (ucast (of_nat k :: u8) :: u32) = k" if "k < 64" for k
    using that by (simp add: unat_byte32)
  let ?a = "ucast (of_nat a :: u8) :: u32" and ?b = "ucast (of_nat b :: u8) :: u32"
    and ?c = "ucast (of_nat c :: u8) :: u32" and ?d = "ucast (of_nat d :: u8) :: u32"
  have 1: "unat (push_bit 6 ?c OR ?d) = c * 64 + d"
    using assms unat_push_or [of ?c 6 ?d] by (simp add: u)
  define w where "w = push_bit 6 ?c OR ?d"
  have "unat (push_bit 12 ?b OR w) = unat ?b * 2 ^ 12 + unat w"
    by (rule unat_push_or) (use assms 1 in \<open>simp_all add: u w_def [symmetric]\<close>)
  then have 2: "unat (push_bit 12 ?b OR w) = (b * 64 + c) * 64 + d"
    using assms 1 by (simp add: u w_def [symmetric])
  define x where "x = push_bit 12 ?b OR w"
  have "unat (push_bit 18 ?a OR x) = unat ?a * 2 ^ 18 + unat x"
    by (rule unat_push_or) (use assms 2 in \<open>simp_all add: u x_def [symmetric]\<close>)
  then have "unat (push_bit 18 ?a OR x) = ((a * 64 + b) * 64 + c) * 64 + d"
    using assms 2 by (simp add: u x_def [symmetric])
  then show ?thesis by (simp only: x_def w_def)
qed

lemma equals_sign [simp]: "base64_ascii_to_bin 61 = 0"
  by (simp add: base64_ascii_to_bin_cases)

lemma digit_0: "digit 0 = 65"
  by (simp add: digit_def alphabet_def)

lemma of_nat_small_u8: "k < 64 \<Longrightarrow> of_nat k \<noteq> (255 :: u8)"
  by (simp add: word_unat_eq_iff)

lemma decode_quad_value:
  assumes "base64_ascii_to_bin i0 = of_nat a" "base64_ascii_to_bin i1 = of_nat b"
    "base64_ascii_to_bin i2 = of_nat c" "base64_ascii_to_bin i3 = of_nat d"
    "a < 64" "b < 64" "c < 64" "d < 64" "i0 \<noteq> 61" "i1 \<noteq> 61" "i2 = 61 \<longrightarrow> i3 = 61"
  shows "base64_decode_quad i0 i1 i2 i3 =
    Some (take (if i2 = 61 then 1 else if i3 = 61 then 2 else 3)
      (be_bytes 3 (((a * 64 + b) * 64 + c) * 64 + d)))"
proof -
  define v :: u32 where "v = push_bit 18 (ucast (of_nat a :: u8)) OR push_bit 12 (ucast (of_nat b :: u8)) OR
      push_bit 6 (ucast (of_nat c :: u8)) OR ucast (of_nat d :: u8)"
  have "unat v = ((a * 64 + b) * 64 + c) * 64 + d" unfolding v_def by (rule quad_value [OF assms(5-8)])
  then have v: "be_bytes 3 (((a * 64 + b) * 64 + c) * 64 + d) = [ucast (drop_bit 16 v), ucast (drop_bit 8 v), ucast v]"
    by (simp only: bytes_of_group)
  have "\<not> (of_nat a = (255 :: u8) \<or> of_nat b = (255 :: u8) \<or> of_nat c = (255 :: u8) \<or> of_nat d = (255 :: u8))"
    using assms(5-8) by (simp add: of_nat_small_u8)
  then show ?thesis
    unfolding base64_decode_quad_def Let_def assms(1-4) v_def [symmetric] v using assms(9-11)
    by (cases "i2 = 61"; cases "i3 = 61") simp_all
qed

lemma decode_quad_digits:
  assumes "a < 64" "b < 64" "c < 64" "d < 64"
  shows "base64_decode_quad (digit a) (digit b) (digit c) (digit d) =
      Some (be_bytes 3 (((a * 64 + b) * 64 + c) * 64 + d))"
    "base64_decode_quad (digit a) (digit b) (digit c) 61 =
      Some (take 2 (be_bytes 3 (((a * 64 + b) * 64 + c) * 64)))"
    "base64_decode_quad (digit a) (digit b) 61 61 =
      Some (take 1 (be_bytes 3 ((a * 64 + b) * 64 * 64)))"
  using decode_quad_value [of "digit a" a "digit b" b "digit c" c "digit d" d]
    decode_quad_value [of "digit a" a "digit b" b "digit c" c 61 0]
    decode_quad_value [of "digit a" a "digit b" b 61 0 61 0] assms
  by (simp_all add: digit_facts)

section \<open>Decoding what was encoded\<close>

lemma group3:
  "\<exists>a b c d. a < 64 \<and> b < 64 \<and> c < 64 \<and> d < 64 \<and> ((a * 64 + b) * 64 + c) * 64 + d = be_val [x, y, z] \<and>
     rfc4648 (x # y # z # r) = digit a # digit b # digit c # digit d # rfc4648 r"
proof -
  define n where "n = be_val [x, y, z]"
  have n: "n < 16777216" using be_val_less [of "[x, y, z]"] by (simp add: n_def del: be_val.simps)
  have "((n div 64 ^ 3 * 64 + n div 64 ^ 2 mod 64) * 64 + n div 64 mod 64) * 64 + n mod 64 = n"
  proof -
    have "n div 64 ^ 3 = n div 64 div 64 div 64" "n div 64 ^ 2 = n div 64 div 64"
      by (simp_all add: div_mult2_eq [symmetric])
    then show ?thesis by (simp only: div_mult_mod_eq)
  qed
  moreover have "n div 64 ^ 3 < 64" using n by (simp add: less_mult_imp_div_less)
  moreover have "rfc4648 (x # y # z # r) = digit (n div 64 ^ 3) # digit (n div 64 ^ 2 mod 64) #
      digit (n div 64 mod 64) # digit (n mod 64) # rfc4648 r"
    by (simp add: Let_def n_def del: be_val.simps)
  ultimately show ?thesis unfolding n_def [symmetric] by (metis mod_less_divisor zero_less_numeral)
qed

lemma group2:
  "\<exists>a b c. a < 64 \<and> b < 64 \<and> c < 64 \<and> ((a * 64 + b) * 64 + c) * 64 = be_val [x, y, 0] \<and>
     rfc4648 [x, y] = [digit a, digit b, digit c, 61]"
proof -
  define n where "n = be_val [x, y] * 4"
  have n: "n < 262144" using be_val_less [of "[x, y]"] by (simp add: n_def del: be_val.simps)
  have "((n div 64 ^ 2 * 64 + n div 64 mod 64) * 64 + n mod 64) * 64 = n * 64"
  proof -
    have "n div 64 ^ 2 = n div 64 div 64" by (simp add: div_mult2_eq [symmetric])
    then show ?thesis by (simp only: div_mult_mod_eq)
  qed
  also have "n * 64 = be_val [x, y, 0]" using be_val_append [of "[x, y]" "[0]"] by (simp add: n_def)
  finally have "((n div 64 ^ 2 * 64 + n div 64 mod 64) * 64 + n mod 64) * 64 = be_val [x, y, 0]" .
  moreover have "n div 64 ^ 2 < 64" using n by (simp add: less_mult_imp_div_less)
  moreover have "rfc4648 [x, y] = [digit (n div 64 ^ 2), digit (n div 64 mod 64), digit (n mod 64), 61]"
    by (simp add: Let_def n_def del: be_val.simps)
  ultimately show ?thesis by (metis mod_less_divisor zero_less_numeral)
qed

lemma group1:
  "\<exists>a b. a < 64 \<and> b < 64 \<and> (a * 64 + b) * 64 * 64 = be_val [x, 0, 0] \<and>
     rfc4648 [x] = [digit a, digit b, 61, 61]"
proof -
  define n where "n = be_val [x] * 16"
  have n: "n < 4096" using be_val_less [of "[x]"] by (simp add: n_def del: be_val.simps)
  have "(n div 64 * 64 + n mod 64) * 64 * 64 = n * 64 * 64" by (simp only: div_mult_mod_eq)
  also have "\<dots> = be_val [x, 0, 0]" using be_val_append [of "[x]" "[0, 0]"] by (simp add: n_def)
  finally have "(n div 64 * 64 + n mod 64) * 64 * 64 = be_val [x, 0, 0]" .
  moreover have "n div 64 < 64" using n by (simp add: less_mult_imp_div_less)
  moreover have "rfc4648 [x] = [digit (n div 64), digit (n mod 64), 61, 61]"
    by (simp add: Let_def n_def del: be_val.simps)
  ultimately show ?thesis by (metis mod_less_divisor zero_less_numeral)
qed

text \<open>A text is a sequence of groups of four characters, each of which decodes; only the last is short.\<close>

inductive quads :: "u8 list \<Rightarrow> u8 list \<Rightarrow> bool" where
  none: "quads [] []"
| full: "base64_decode_quad c0 c1 c2 c3 = Some [x, y, z] \<Longrightarrow> list_all (\<lambda>c. \<not> is_space c) [c0, c1, c2, c3] \<Longrightarrow>
    quads cs bs \<Longrightarrow> quads (c0 # c1 # c2 # c3 # cs) (x # y # z # bs)"
| short: "base64_decode_quad c0 c1 c2 c3 = Some bs \<Longrightarrow> list_all (\<lambda>c. \<not> is_space c) [c0, c1, c2, c3] \<Longrightarrow>
    length bs = 1 \<or> length bs = 2 \<Longrightarrow> quads [c0, c1, c2, c3] bs"

lemma be_bytes3: "be_bytes 3 (be_val [x, y, z]) = [x, y, z]"
  using be_bytes_be_val [of "[x, y, z]"] by (simp add: numeral_3_eq_3 del: be_bytes.simps be_val.simps)

lemma not_space_61: "\<not> is_space 61"
  by (simp add: is_space_def)

lemma rfc4648_quads: "quads (rfc4648 src) src"
proof (induction src rule: rfc4648.induct)
  case (2 x y z bytes)
  obtain a b c d where *: "a < 64" "b < 64" "c < 64" "d < 64"
    "((a * 64 + b) * 64 + c) * 64 + d = be_val [x, y, z]"
    "rfc4648 (x # y # z # bytes) = digit a # digit b # digit c # digit d # rfc4648 bytes"
    using group3 by blast
  then show ?case unfolding *(6) using 2
    by (intro quads.full) (simp_all add: decode_quad_digits be_bytes3 digit_facts del: be_val.simps)
next
  case (3 x y)
  obtain a b c where *: "a < 64" "b < 64" "c < 64" "((a * 64 + b) * 64 + c) * 64 = be_val [x, y, 0]"
    "rfc4648 [x, y] = [digit a, digit b, digit c, 61]" using group2 by blast
  then show ?case unfolding *(5)
    by (intro quads.short) (simp_all add: decode_quad_digits be_bytes3 digit_facts not_space_61 del: be_val.simps)
next
  case (4 x)
  obtain a b where *: "a < 64" "b < 64" "(a * 64 + b) * 64 * 64 = be_val [x, 0, 0]"
    "rfc4648 [x] = [digit a, digit b, 61, 61]" using group1 by blast
  then show ?case unfolding *(4)
    by (intro quads.short) (simp_all add: decode_quad_digits be_bytes3 digit_facts not_space_61 del: be_val.simps)
qed (simp add: quads.none)

lemma decode_quads_value: "quads cs bs \<Longrightarrow> decode_quads out cs = Some (out @ bs)"
  by (induction arbitrary: out rule: quads.induct) auto

lemma quads_length: "quads cs bs \<Longrightarrow> length cs = 4 * ((length bs + 2) div 3)"
proof (induction rule: quads.induct)
  case (full c0 c1 c2 c3 x y z cs bs)
  have "(length (x # y # z # bs) + 2) div 3 = Suc ((length bs + 2) div 3)"
    using div_add_self2 [of 3 "length bs + 2"] by simp
  then show ?case using full by simp
qed auto

lemma quads_no_space: "quads cs bs \<Longrightarrow> list_all (\<lambda>c. \<not> is_space c) cs"
  by (induction rule: quads.induct) auto

section \<open>Streams\<close>

text \<open>Lines of 48 encoded bytes, and what is left over for the next call.\<close>

function text_lines :: "u8 list \<Rightarrow> u8 list \<times> u8 list" where
  "text_lines xs =
     (if length xs \<ge> 48 then
        (case text_lines (drop 48 xs) of (t, r) \<Rightarrow> (rfc4648 (take 48 xs) @ [10] @ t, r))
      else ([], xs))"
  by pat_completeness auto
termination by (relation "measure length") auto

declare text_lines.simps [simp del]

lemma text_lines_short: "length xs < 48 \<Longrightarrow> text_lines xs = ([], xs)"
  by (simp add: text_lines.simps [of xs])

lemma text_lines_append:
  "text_lines (xs @ ys) =
     (fst (text_lines xs) @ fst (text_lines (snd (text_lines xs) @ ys)),
      snd (text_lines (snd (text_lines xs) @ ys)))"
proof (induction xs rule: text_lines.induct)
  case (1 xs)
  show ?case
  proof (cases "length xs \<ge> 48")
    case True
    then show ?thesis using 1 text_lines.simps [of xs] text_lines.simps [of "xs @ ys"]
      by (simp add: split_beta)
  next
    case False
    then show ?thesis by (simp add: text_lines_short)
  qed
qed

lemma text_lines_rest: "length (snd (text_lines xs)) < 48"
proof (induction xs rule: text_lines.induct)
  case (1 xs)
  then show ?case using text_lines.simps [of xs] by (cases "length xs \<ge> 48") (simp_all add: split_beta)
qed

lemma length_rfc4648: "length (rfc4648 src) = 4 * ((length src + 2) div 3)"
  by (rule quads_length [OF rfc4648_quads])

lemma encode_line_value: "encode_line block = (length (rfc4648 block), rfc4648 block @ [10])"
  by (simp add: encode_line_def EVP_EncodeBlock_def encode_loop_rfc4648 Let_def)

lemma length_text_lines: "length (fst (text_lines xs)) = 65 * (length xs div 48)"
proof (induction xs rule: text_lines.induct)
  case (1 xs)
  show ?case
  proof (cases "length xs \<ge> 48")
    case True
    then have "length xs div 48 = Suc ((length xs - 48) div 48)" by (simp add: le_div_geq)
    then show ?thesis using 1 True text_lines.simps [of xs] by (simp add: split_beta length_rfc4648)
  next
    case False
    then show ?thesis by (simp add: text_lines_short)
  qed
qed

lemma encode_blocks_value:
  "unat tot + length (fst (text_lines inp)) < 2 ^ 64 \<Longrightarrow>
   encode_blocks inp out tot =
     Some (snd (text_lines inp), out @ fst (text_lines inp), tot + of_nat (length (fst (text_lines inp))))"
proof (induction inp out tot rule: encode_blocks.induct)
  case (1 inp out tot)
  show ?case
  proof (cases "length inp \<ge> 48")
    case False
    then show ?thesis by (simp add: encode_blocks.simps [of inp] text_lines_short)
  next
    case True
    have l: "length (rfc4648 (take 48 inp)) = 64" using True by (simp add: length_rfc4648)
    obtain t r where t: "text_lines (drop 48 inp) = (t, r)" by fastforce
    have tl: "text_lines inp = (rfc4648 (take 48 inp) @ [10] @ t, r)"
      using True t text_lines.simps [of inp] by simp
    have u: "unat (tot + 65) = unat tot + 65" using "1.prems" l tl by (subst unat_add_no_overflow) simp_all
    then have "\<not> tot + 65 < tot" by (simp add: word_less_nat_alt)
    moreover have "encode_blocks (drop 48 inp) (out @ rfc4648 (take 48 inp) @ [10]) (tot + 65) =
        Some (r, (out @ rfc4648 (take 48 inp) @ [10]) @ t, tot + 65 + of_nat (length t))"
      using "1.IH" [OF True refl, of 64 "rfc4648 (take 48 inp) @ [10]"] "1.prems" l t tl u \<open>\<not> tot + 65 < tot\<close>
      by (simp add: encode_line_value add.assoc)
    ultimately show ?thesis using True l tl
      by (simp add: encode_blocks.simps [of inp] encode_line_value add.assoc)
  qed
qed

text \<open>The context of an encoder that has bytes left over.\<close>

definition enc_ctx :: "evp_encode_ctx \<Rightarrow> u8 list \<Rightarrow> bool" where
  "enc_ctx ctx rest \<longleftrightarrow>
     length (ctx_data ctx) = 48 \<and> data_used ctx < 48 \<and> take (data_used ctx) (ctx_data ctx) = rest"

lemma enc_ctx_length: "enc_ctx ctx rest \<Longrightarrow> length rest = data_used ctx \<and> length rest < 48"
  by (auto simp: enc_ctx_def)

lemma text_lines_block:
  assumes "length (rest @ xs) \<ge> 48" "length rest < 48"
  shows "text_lines (rest @ xs) =
    (rfc4648 (rest @ take (48 - length rest) xs) @ [10] @ fst (text_lines (drop (48 - length rest) xs)),
     snd (text_lines (drop (48 - length rest) xs)))"
  using assms text_lines.simps [of "rest @ xs"] by (simp add: split_beta)

lemma encode_update_value:
  assumes "enc_ctx ctx rest" "length inp < 2 ^ 30" "EVP_EncodeUpdate ctx inp = (ctx', out, n)"
  shows "enc_ctx ctx' (snd (text_lines (rest @ inp))) \<and> n = length (fst (text_lines (rest @ inp))) \<and>
    take n out = fst (text_lines (rest @ inp)) \<and> eof_seen ctx' = eof_seen ctx"
proof -
  note rest = enc_ctx_length [OF assms(1)]
  have data: "length (ctx_data ctx) = 48" "take (data_used ctx) (ctx_data ctx) = rest"
    using assms(1) by (simp_all add: enc_ctx_def)
  have short: "length (fst (text_lines ys)) < 2 ^ 31" if "length ys < 2 ^ 30 + 48" for ys
  proof -
    have "length ys div 48 \<le> (2 ^ 30 + 48) div 48" using that by (intro div_le_mono) simp
    then show ?thesis by (simp add: length_text_lines)
  qed
  consider (empty) "inp = []" | (room) "inp \<noteq> []" "48 - data_used ctx > length inp"
    | (lines) "inp \<noteq> []" "\<not> 48 - data_used ctx > length inp" by blast
  then show ?thesis
  proof cases
    case empty
    then show ?thesis using assms rest by (auto simp: EVP_EncodeUpdate_def text_lines_short)
  next
    case room
    then have "length (rest @ inp) < 48" using rest by simp
    then show ?thesis using room assms(3) rest data
      by (auto simp: EVP_EncodeUpdate_def text_lines_short enc_ctx_def)
  next
    case lines
    define todo where "todo = (if data_used ctx = 0 then 0 else 48 - data_used ctx)"
    define first where "first = (if data_used ctx = 0 then [] else rfc4648 (rest @ take todo inp) @ [10])"
    define ctx1 where "ctx1 = (if data_used ctx = 0 then ctx
       else ctx\<lparr>ctx_data := take (data_used ctx) (ctx_data ctx) @ take todo inp, data_used := 0\<rparr>)"
    have len1: "length (ctx_data ctx1) = 48" using lines data rest by (auto simp: ctx1_def todo_def)
    have first: "length first = (if data_used ctx = 0 then 0 else 65)"
      using lines rest by (auto simp: first_def todo_def length_rfc4648)
    have "length (fst (text_lines (drop todo inp))) < 2 ^ 31" using short assms(2) by simp
    then have b: "encode_blocks (drop todo inp) first (of_nat (length first)) =
        Some (snd (text_lines (drop todo inp)), first @ fst (text_lines (drop todo inp)),
          of_nat (length first) + of_nat (length (fst (text_lines (drop todo inp)))))"
      using first by (intro encode_blocks_value) simp
    have tl: "text_lines (rest @ inp) =
        (first @ fst (text_lines (drop todo inp)), snd (text_lines (drop todo inp)))"
    proof (cases "data_used ctx = 0")
      case True
      then show ?thesis using rest by (simp add: first_def todo_def)
    next
      case False
      then show ?thesis using text_lines_block [of rest inp] lines rest by (simp add: first_def todo_def)
    qed
    have total: "length (fst (text_lines (rest @ inp))) < 2 ^ 31"
      using short [of "rest @ inp"] assms(2) rest by simp
    define t where "t = fst (text_lines (rest @ inp))"
    define r where "r = snd (text_lines (rest @ inp))"
    define tot where "tot = (of_nat (length first) + of_nat (length (fst (text_lines (drop todo inp)))) :: u64)"
    have b': "encode_blocks (drop todo inp) first (of_nat (length first)) = Some (r, t, tot)"
      using b tl by (simp add: t_def r_def tot_def)
    have tot: "unat tot = length t"
    proof -
      have "tot = of_nat (length t)" using tl by (simp add: tot_def t_def)
      then show ?thesis using total by (simp add: t_def)
    qed
    have start: "(if data_used ctx \<noteq> 0 then
         let todo = 48 - data_used ctx;
             arr = take (data_used ctx) (ctx_data ctx) @ take todo inp;
             (encoded, line) = encode_line arr
         in (ctx\<lparr>ctx_data := arr, data_used := 0\<rparr>, drop todo inp, line, of_nat encoded + 1)
       else (ctx, inp, [], 0)) = (ctx1, drop todo inp, first, of_nat (length first))"
      by (simp add: encode_line_value Let_def ctx1_def todo_def first_def data(2) algebra_simps)
    have "EVP_EncodeUpdate ctx inp =
        (ctx1\<lparr>ctx_data := r @ drop (length r) (ctx_data ctx1), data_used := length r\<rparr>, terminated t, length t)"
      unfolding EVP_EncodeUpdate_def start using lines b' tot total
      by (simp add: t_def [symmetric] INT_MAX_def)
    then have res: "ctx' = ctx1\<lparr>ctx_data := r @ drop (length r) (ctx_data ctx1), data_used := length r\<rparr>"
      "out = terminated t" "n = length t" using assms(3) by simp_all
    have "length r < 48" unfolding r_def by (rule text_lines_rest)
    then have "enc_ctx ctx' r" using len1 by (simp add: res(1) enc_ctx_def)
    moreover have "take n out = t" by (simp add: res terminated_def)
    ultimately show ?thesis by (simp add: res t_def [symmetric] r_def [symmetric] ctx1_def)
  qed
qed

text \<open>A whole stream: the output collected from the calls.\<close>

fun encode_updates :: "evp_encode_ctx \<Rightarrow> u8 list list \<Rightarrow> u8 list \<times> evp_encode_ctx" where
  "encode_updates ctx [] = ([], ctx)"
| "encode_updates ctx (c # cs) =
     (case EVP_EncodeUpdate ctx c of
        (ctx, out, n) \<Rightarrow> (case encode_updates ctx cs of (text, ctx) \<Rightarrow> (take n out @ text, ctx)))"

definition encode_stream :: "u8 list list \<Rightarrow> u8 list" where
  "encode_stream chunks =
     (case encode_updates EVP_EncodeInit chunks of
        (text, ctx) \<Rightarrow> (case EVP_EncodeFinal ctx of (_, out, n) \<Rightarrow> text @ take n out))"

fun decode_updates :: "evp_encode_ctx \<Rightarrow> u8 list list \<Rightarrow> (u8 list \<times> evp_encode_ctx) option" where
  "decode_updates ctx [] = Some ([], ctx)"
| "decode_updates ctx (c # cs) =
     (case EVP_DecodeUpdate ctx c of
        (ret, out, n, ctx) \<Rightarrow>
          if ret = - 1 then None
          else (case decode_updates ctx cs of None \<Rightarrow> None | Some (bytes, ctx) \<Rightarrow> Some (take n out @ bytes, ctx)))"

definition decode_stream :: "u8 list list \<Rightarrow> u8 list option" where
  "decode_stream chunks =
     (case decode_updates EVP_DecodeInit chunks of
        None \<Rightarrow> None
      | Some (bytes, ctx) \<Rightarrow> if EVP_DecodeFinal ctx = 1 then Some bytes else None)"

text \<open>The text that a stream stands for.\<close>

definition pem_text :: "u8 list \<Rightarrow> u8 list" where
  "pem_text xs =
     (case text_lines xs of (t, r) \<Rightarrow> t @ (if r = [] then [] else rfc4648 r @ [10]))"

lemma encode_updates_value:
  "enc_ctx ctx rest \<Longrightarrow> \<forall>c \<in> set chunks. length c < 2 ^ 30 \<Longrightarrow>
   \<exists>ctx'. encode_updates ctx chunks = (fst (text_lines (rest @ concat chunks)), ctx') \<and>
     enc_ctx ctx' (snd (text_lines (rest @ concat chunks)))"
proof (induction chunks arbitrary: ctx rest)
  case Nil
  then show ?case using enc_ctx_length [of ctx rest] by (simp add: text_lines_short)
next
  case (Cons c cs)
  obtain ctx1 out n where u: "EVP_EncodeUpdate ctx c = (ctx1, out, n)" by (metis prod_cases3)
  have "length c < 2 ^ 30" using Cons.prems(2) by simp
  note v = encode_update_value [OF Cons.prems(1) this u]
  then obtain ctx2 where "encode_updates ctx1 cs = (fst (text_lines (snd (text_lines (rest @ c)) @ concat cs)), ctx2)"
    "enc_ctx ctx2 (snd (text_lines (snd (text_lines (rest @ c)) @ concat cs)))"
    using Cons.IH [of ctx1 "snd (text_lines (rest @ c))"] Cons.prems(2) by auto
  then show ?case using v u text_lines_append [of "rest @ c" "concat cs"] by auto
qed

lemma encode_stream_value:
  assumes "\<forall>c \<in> set chunks. length c < 2 ^ 30"
  shows "encode_stream chunks = pem_text (concat chunks)"
proof -
  have "enc_ctx EVP_EncodeInit []" by (simp add: enc_ctx_def EVP_EncodeInit_def)
  then obtain ctx where c: "encode_updates EVP_EncodeInit chunks = (fst (text_lines (concat chunks)), ctx)"
    "enc_ctx ctx (snd (text_lines (concat chunks)))"
    using encode_updates_value [of EVP_EncodeInit "[]" chunks] assms by auto
  then show ?thesis using enc_ctx_length [OF c(2)]
    by (auto simp: encode_stream_def EVP_EncodeFinal_def pem_text_def encode_line_value enc_ctx_def split_beta)
qed

section \<open>Decoding a stream\<close>

lemma decode_chars_append:
  "decode_chars ctx out (xs @ ys) =
     (case decode_chars ctx out xs of
        (True, ctx, out) \<Rightarrow> decode_chars ctx out ys
      | (False, ctx, out) \<Rightarrow> (False, ctx, out))"
  by (induction ctx out xs rule: decode_chars.induct) (auto simp: Let_def split: option.splits)

lemma decode_chars_prefix:
  "decode_chars ctx (pre @ out) xs = (case decode_chars ctx out xs of (ok, ctx, o') \<Rightarrow> (ok, ctx, pre @ o'))"
  by (induction ctx out xs rule: decode_chars.induct) (auto simp: Let_def split: option.splits)

lemmas decode_chars_out = decode_chars_prefix [where out = "[]", simplified]

lemma decode_chars_error:
  "decode_chars ctx out xs = (True, ctx', out') \<Longrightarrow> error_encountered ctx' = error_encountered ctx"
  by (induction ctx out xs rule: decode_chars.induct) (auto simp: Let_def split: if_splits option.splits)

definition idle :: "evp_encode_ctx \<Rightarrow> bool" where
  "idle ctx \<longleftrightarrow> data_used ctx = 0 \<and> length (ctx_data ctx) = 48 \<and> \<not> error_encountered ctx"

lemma decode_quad_chars:
  assumes "idle ctx" "\<not> eof_seen ctx" "list_all (\<lambda>c. \<not> is_space c) [c0, c1, c2, c3]"
    "base64_decode_quad c0 c1 c2 c3 = Some bs"
  shows "\<exists>ctx'. decode_chars ctx out (c0 # c1 # c2 # c3 # rest) = decode_chars ctx' (out @ bs) rest \<and>
    idle ctx' \<and> (eof_seen ctx' \<longleftrightarrow> length bs < 3)"
  using assms by (auto simp: idle_def Let_def numeral_2_eq_2 numeral_3_eq_3)

lemma decode_quads_chars:
  "quads cs bs \<Longrightarrow> idle ctx \<Longrightarrow> \<not> eof_seen ctx \<Longrightarrow>
   \<exists>ctx'. decode_chars ctx out cs = (True, ctx', out @ bs) \<and> idle ctx' \<and> (eof_seen ctx' \<longleftrightarrow> length bs mod 3 \<noteq> 0)"
proof (induction arbitrary: ctx out rule: quads.induct)
  case none
  then show ?case by auto
next
  case (full c0 c1 c2 c3 x y z cs bs)
  obtain ctx' where "decode_chars ctx out (c0 # c1 # c2 # c3 # cs) = decode_chars ctx' (out @ [x, y, z]) cs"
    "idle ctx'" "\<not> eof_seen ctx'"
    using decode_quad_chars [OF full.prems(1,2) full.hyps(2,1)] by fastforce
  then show ?case using full.IH [of ctx' "out @ [x, y, z]"] by simp
next
  case (short c0 c1 c2 c3 bs)
  obtain ctx' where "decode_chars ctx out [c0, c1, c2, c3] = decode_chars ctx' (out @ bs) []"
    "idle ctx'" "eof_seen ctx' \<longleftrightarrow> length bs < 3"
    using decode_quad_chars [OF short.prems(1,2) short.hyps(2,1)] by blast
  then show ?case using short.hyps(3) by auto
qed

lemma decode_line_chars:
  assumes "idle ctx" "\<not> eof_seen ctx"
  shows "\<exists>ctx'. decode_chars ctx out (rfc4648 src @ 10 # rest) = decode_chars ctx' (out @ src) rest \<and>
    idle ctx' \<and> (eof_seen ctx' \<longleftrightarrow> length src mod 3 \<noteq> 0)"
  using decode_quads_chars [OF rfc4648_quads assms, of out src]
  by (auto simp: decode_chars_append is_space_def)

lemma decode_pem_text:
  "idle ctx \<Longrightarrow> \<not> eof_seen ctx \<Longrightarrow>
   \<exists>ctx'. decode_chars ctx out (pem_text xs) = (True, ctx', out @ xs) \<and> idle ctx'"
proof (induction xs arbitrary: ctx out rule: text_lines.induct)
  case (1 xs)
  show ?case
  proof (cases "length xs \<ge> 48")
    case True
    have "pem_text xs = rfc4648 (take 48 xs) @ 10 # pem_text (drop 48 xs)"
      using True text_lines.simps [of xs] by (simp add: pem_text_def split_beta)
    moreover obtain ctx1 where "idle ctx1" "\<not> eof_seen ctx1"
      "decode_chars ctx out (rfc4648 (take 48 xs) @ 10 # pem_text (drop 48 xs)) =
        decode_chars ctx1 (out @ take 48 xs) (pem_text (drop 48 xs))"
      using decode_line_chars [OF "1.prems", of out "take 48 xs" "pem_text (drop 48 xs)"] True by auto
    ultimately show ?thesis using "1.IH" [OF True, of ctx1 "out @ take 48 xs"] by auto
  next
    case False
    then show ?thesis using "1.prems" decode_line_chars [OF "1.prems", of out xs "[]"]
      by (auto simp: pem_text_def text_lines_short)
  qed
qed

lemma decode_updates_value:
  "decode_chars ctx [] (concat chunks) = (True, ctx', bytes) \<Longrightarrow> \<not> error_encountered ctx \<Longrightarrow>
   length bytes \<le> INT_MAX \<Longrightarrow> decode_updates ctx chunks = Some (bytes, ctx')"
proof (induction chunks arbitrary: ctx bytes)
  case (Cons c cs)
  obtain ok ctx1 o1 where d: "decode_chars ctx [] c = (ok, ctx1, o1)" by (metis prod_cases3)
  have ok: "ok" "decode_chars ctx1 o1 (concat cs) = (True, ctx', bytes)"
    using Cons.prems(1) d by (auto simp: decode_chars_append split: bool.splits)
  obtain o2 where o2: "decode_chars ctx1 [] (concat cs) = (True, ctx', o2)" "bytes = o1 @ o2"
    using ok(2) decode_chars_out [of ctx1 o1 "concat cs"] by (auto split: prod.splits)
  have "\<not> error_encountered ctx1" using decode_chars_error [of ctx "[]" c] d ok(1) Cons.prems(2) by simp
  moreover have "length o2 \<le> INT_MAX" "length o1 \<le> INT_MAX" using Cons.prems(3) o2(2) by simp_all
  ultimately show ?case using Cons.IH [OF o2(1)] d ok(1) o2(2) Cons.prems(2)
    by (simp add: EVP_DecodeUpdate_def)
qed simp

section \<open>Properties\<close>

lemma encoded_length_value:
  assumes "n < 2 ^ 61"
  shows "EVP_EncodedLength (of_nat n) = Some (of_nat (4 * ((n + 2) div 3) + 1))"
proof -
  define m where "m = (n + 2) div 3"
  have m: "m < 2 ^ 61" using assms by (simp add: m_def less_mult_imp_div_less)
  have n: "unat (of_nat n :: u64) = n" using assms by simp
  have 2: "unat (of_nat n + 2 :: u64) = n + 2" using assms n by (subst unat_add_no_overflow) simp_all
  have d: "(of_nat n + 2 :: u64) div 3 = of_nat m"
    using m by (simp add: word_unat_eq_iff unat_div 2 m_def del: of_nat_add)
  have p: "push_bit 2 (of_nat m :: u64) = of_nat (4 * m)" by (simp add: push_bit_eq_mult)
  have q: "unat (of_nat (4 * m) :: u64) = 4 * m" using m by (intro unat_of_nat_small) simp
  have r: "drop_bit 2 (of_nat (4 * m) :: u64) = of_nat m"
    using m by (simp add: word_unat_eq_iff unat_drop_bit q del: of_nat_mult)
  have s: "unat (of_nat (4 * m) + 1 :: u64) = 4 * m + 1"
    using m by (subst unat_add_no_overflow) (simp_all add: q del: of_nat_mult)
  have "\<not> (of_nat n + 2 :: u64) < of_nat n" by (simp add: word_less_nat_alt n 2)
  moreover have "\<not> of_nat (4 * m) + 1 < (of_nat (4 * m) :: u64)"
    unfolding word_less_nat_alt s q by simp
  ultimately show ?thesis unfolding m_def [symmetric]
    by (simp add: EVP_EncodedLength_def Let_def d p r del: of_nat_mult)
qed

lemma decode_base64_value:
  assumes "3 * ((length src + 2) div 3) \<le> max_out"
  shows "EVP_DecodeBase64 max_out (rfc4648 src) = Some src"
  using assms decode_quads_value [OF rfc4648_quads, of "[]"]
  by (simp add: EVP_DecodeBase64_def EVP_DecodedLength_def length_rfc4648)

lemma trim_value:
  assumes "list_all (\<lambda>c. c = 32 \<or> c = 9) ws1" "list_all is_space ws2"
  shows "trim_block (ws1 @ rfc4648 src @ ws2) = rfc4648 src"
proof -
  have ns: "\<not> is_space c" if "c \<in> set (rfc4648 src)" for c
    using quads_no_space [OF rfc4648_quads, of src] that by (simp add: list_all_iff)
  have sp: "is_space c" if "c = 32 \<or> c = 9" for c using that by (auto simp: is_space_def)
  have 1: "dropWhile (\<lambda>c. c = 32 \<or> c = 9) (ws1 @ ys) = dropWhile (\<lambda>c. c = 32 \<or> c = 9) ys" for ys
    using assms(1) by (induction ws1) auto
  have 2: "dropWhile is_space (rev ws @ ys) = dropWhile is_space ys" if "list_all is_space ws" for ws ys
    by (rule dropWhile_append2) (use that in \<open>auto simp: list_all_iff\<close>)
  have 3: "dropWhile is_space (rev (rfc4648 src)) = rev (rfc4648 src)"
    using ns by (cases "rev (rfc4648 src)") (auto simp: rev_swap)
  show ?thesis
  proof (cases "rfc4648 src")
    case Nil
    have "list_all is_space (dropWhile (\<lambda>c. c = 32 \<or> c = 9) ws2)"
      using assms(2) by (auto simp: list_all_iff dest: set_dropWhileD)
    then show ?thesis using 1 [of ws2] 2 [of _ "[]"] Nil by (simp add: trim_block_def)
  next
    case (Cons c cs)
    then have "dropWhile (\<lambda>c. c = 32 \<or> c = 9) (rfc4648 src @ ws2) = rfc4648 src @ ws2"
      using ns [of c] sp [of c] by auto
    then show ?thesis using 1 [of "rfc4648 src @ ws2"] 2 [OF assms(2)] 3 by (simp add: trim_block_def)
  qed
qed

text \<open>
  C31. EVP_EncodeBlock writes the base64 encoding of RFC 4648 followed by a zero, in exactly the space
  that EVP_EncodedLength announces; EVP_DecodeBase64 gives the bytes back, and so does
  EVP_DecodeBlock with blanks around the text, which adds a zero byte for each padding character.
\<close>

theorem base64_block_correct:
  assumes "length src < 2 ^ 30" "3 * ((length src + 2) div 3) \<le> max_out"
    "list_all (\<lambda>c. c = 32 \<or> c = 9) ws1" "list_all is_space ws2"
  shows "EVP_EncodeBlock src = (length (rfc4648 src), rfc4648 src @ [0]) \<and>
    EVP_EncodedLength (of_nat (length src)) = Some (of_nat (length (snd (EVP_EncodeBlock src)))) \<and>
    EVP_DecodeBase64 max_out (rfc4648 src) = Some src \<and>
    EVP_DecodeBlock (ws1 @ rfc4648 src @ ws2) = Some (src @ replicate ((3 - length src mod 3) mod 3) 0)"
proof (intro conjI)
  show enc: "EVP_EncodeBlock src = (length (rfc4648 src), rfc4648 src @ [0])"
    by (simp add: EVP_EncodeBlock_def encode_loop_rfc4648 Let_def)
  show "EVP_EncodedLength (of_nat (length src)) = Some (of_nat (length (snd (EVP_EncodeBlock src))))"
    using encoded_length_value [of "length src"] assms(1) by (simp add: enc length_rfc4648)
  show "EVP_DecodeBase64 max_out (rfc4648 src) = Some src" by (rule decode_base64_value [OF assms(2)])
  have "(length src + 2) div 3 * 3 \<le> INT_MAX"
    using assms(1) div_times_less_eq_dividend [of "length src + 2" 3] by (simp add: INT_MAX_def)
  then show "EVP_DecodeBlock (ws1 @ rfc4648 src @ ws2) = Some (src @ replicate ((3 - length src mod 3) mod 3) 0)"
    using decode_base64_value [of src "(length src + 2) div 3 * 3"]
    by (simp add: EVP_DecodeBlock_def trim_value [OF assms(3,4)] EVP_DecodedLength_def length_rfc4648)
qed

theorem base64_block_correct_witness:
  "EVP_EncodeBlock [77, 97] = (4, [84, 87, 69, 61, 0]) \<and> EVP_DecodeBase64 3 [84, 87, 69, 61] = Some [77, 97] \<and>
   EVP_DecodeBlock [32, 84, 87, 69, 61, 10] = Some [77, 97, 0]"
proof -
  have e: "rfc4648 [77, 97] = [84, 87, 69, 61]"
    unfolding encode_loop_rfc4648 [symmetric] by code_simp
  have "list_all (\<lambda>c. c = 32 \<or> c = 9) [32 :: u8]" "list_all is_space [10]" by (simp_all add: is_space_def)
  from base64_block_correct [OF _ _ this, of "[77, 97]" 3, unfolded e] show ?thesis by simp
qed

text \<open>
  C32. However a byte string is split into calls of EVP_EncodeUpdate and the resulting text into calls
  of EVP_DecodeUpdate, the stream of the encoder is the text in lines of 64 characters, and the
  decoder reads the byte string back from it without an error.
\<close>

theorem base64_stream_roundtrip:
  assumes "\<forall>c \<in> set chunks. length c < 2 ^ 30" "concat texts = encode_stream chunks"
    "length (concat chunks) \<le> INT_MAX"
  shows "encode_stream chunks = pem_text (concat chunks) \<and> decode_stream texts = Some (concat chunks)"
proof
  show enc: "encode_stream chunks = pem_text (concat chunks)" by (rule encode_stream_value [OF assms(1)])
  have "idle EVP_DecodeInit" "\<not> eof_seen EVP_DecodeInit" by (simp_all add: idle_def EVP_DecodeInit_def)
  then obtain ctx where "decode_chars EVP_DecodeInit [] (concat texts) = (True, ctx, concat chunks)" "idle ctx"
    using decode_pem_text [of EVP_DecodeInit "[]" "concat chunks"] enc assms(2) by auto
  then show "decode_stream texts = Some (concat chunks)"
    using decode_updates_value [of EVP_DecodeInit texts ctx "concat chunks"] assms(3)
    by (simp add: decode_stream_def EVP_DecodeFinal_def idle_def EVP_DecodeInit_def)
qed

theorem base64_stream_roundtrip_witness:
  "encode_stream [[1, 2], [3, 4]] = [65, 81, 73, 68, 66, 65, 61, 61, 10] \<and>
   decode_stream [[65, 81, 73, 68, 66], [65, 61, 61, 10]] = Some [1, 2, 3, 4]"
proof -
  have "rfc4648 [1, 2, 3, 4] = [65, 81, 73, 68, 66, 65, 61, 61]"
    unfolding encode_loop_rfc4648 [symmetric] by code_simp
  then have "pem_text [1, 2, 3, 4] = [65, 81, 73, 68, 66, 65, 61, 61, 10]"
    by (simp add: pem_text_def text_lines_short del: rfc4648.simps)
  then have e: "encode_stream [[1, 2], [3, 4]] = [65, 81, 73, 68, 66, 65, 61, 61, 10]"
    using base64_stream_roundtrip [of "[[1, 2], [3, 4]]" "[encode_stream [[1, 2], [3, 4]]]"]
    by (simp add: INT_MAX_def)
  then have "concat [[65, 81, 73, 68, 66], [65, 61, 61, 10]] = encode_stream [[1, 2], [3, 4]]" by simp
  from base64_stream_roundtrip [OF _ this] e show ?thesis by (simp add: INT_MAX_def)
qed

end
