(* ===== verification/Modes.thy ===== *)
theory Modes
  imports Prelude
begin

text \<open>
  BoringSSL \<open>crypto/fipsmodule/modes\<close>: the stream modes OFB, CFB and CTR over a block cipher, as
  compiled for a little-endian machine that allows unaligned words (\<open>STRICT_ALIGNMENT\<close> is 0). The
  cipher under its key is a parameter \<open>block\<close> from 16 bytes to 16 bytes. The functions write their
  output byte by byte or word by word at the position they have just read, so the output is given as
  a list of its own; it may be the same array as the input.
\<close>

unbundle bit_operations_syntax

type_synonym block_fun = "u8 list \<Rightarrow> u8 list"

definition block_ok :: "block_fun \<Rightarrow> bool" where
  "block_ok block \<longleftrightarrow> (\<forall>x. length x = 16 \<longrightarrow> length (block x) = 16)"

section \<open>Words in memory\<close>

fun load_le :: "u8 list \<Rightarrow> u64" where
  "load_le [] = 0"
| "load_le (b # bs) = push_bit 8 (load_le bs) OR ucast b"

definition load_word_le :: "u8 list \<Rightarrow> nat \<Rightarrow> u64" where
  "load_word_le xs n = load_le (take 8 (drop n xs))"

definition store_word_le :: "u64 \<Rightarrow> u8 list" where
  "store_word_le v = map (\<lambda>i. ucast (drop_bit (8 * i) v)) [0..<8]"

definition GETU32 :: "u8 list \<Rightarrow> u32" where
  "GETU32 xs = push_bit 24 (ucast (xs ! 0)) OR push_bit 16 (ucast (xs ! 1)) OR
     push_bit 8 (ucast (xs ! 2)) OR ucast (xs ! 3)"

definition PUTU32 :: "u32 \<Rightarrow> u8 list" where
  "PUTU32 v = [ucast (drop_bit 24 v), ucast (drop_bit 16 v), ucast (drop_bit 8 v), ucast v]"

text \<open>The offsets of the words that \<open>for (; n < 16; n += sizeof(size_t))\<close> visits.\<close>

function word_offsets :: "nat \<Rightarrow> nat list" where
  "word_offsets n = (if n < 16 then n # word_offsets (n + 8) else [])"
  by pat_completeness auto
termination by (relation "measure (\<lambda>n. 16 - n)") auto

declare word_offsets.simps [simp del]

definition xor_words :: "nat \<Rightarrow> u8 list \<Rightarrow> u8 list \<Rightarrow> u8 list" where
  "xor_words n xs ys =
     concat (map (\<lambda>k. store_word_le (load_word_le xs k XOR load_word_le ys k)) (word_offsets n))"

definition copy_words :: "nat \<Rightarrow> u8 list \<Rightarrow> u8 list" where
  "copy_words n xs = concat (map (\<lambda>k. store_word_le (load_word_le xs k)) (word_offsets n))"

section \<open>The three loops\<close>

text \<open>
  The functions of this file have the same shape: bytes left over from the last block, whole blocks
  word by word, and the bytes of a last block. \<open>step\<close> is the treatment of one byte at the position
  \<open>n\<close> of the block, \<open>refill\<close> the call of the cipher and \<open>whole\<close> the body of the loop over blocks.
\<close>

fun head_loop :: "('s \<Rightarrow> nat \<Rightarrow> u8 \<Rightarrow> 's \<times> u8) \<Rightarrow> 's \<Rightarrow> nat \<Rightarrow> u8 list \<Rightarrow> u8 list \<times> 's \<times> nat \<times> u8 list" where
  "head_loop step s n [] = ([], s, n, [])"
| "head_loop step s n (b # inp) =
     (if n \<noteq> 0 then
        (let (s, c) = step s n b;
             (out, s, n, inp) = head_loop step s ((n + 1) mod 16) inp
         in (c # out, s, n, inp))
      else ([], s, n, b # inp))"

function block_loop :: "('s \<Rightarrow> nat \<Rightarrow> u8 list \<Rightarrow> 's \<times> u8 list) \<Rightarrow> 's \<Rightarrow> nat \<Rightarrow> u8 list \<Rightarrow>
    u8 list \<times> 's \<times> nat \<times> u8 list" where
  "block_loop whole s n inp =
     (if length inp \<ge> 16 then
        (let (s, block_out) = whole s n inp;
             (out, s, n, inp) = block_loop whole s 0 (drop 16 inp)
         in (block_out @ out, s, n, inp))
      else ([], s, n, inp))"
  by pat_completeness auto
termination by (relation "measure (\<lambda>(whole, s, n, inp). length inp)") auto

declare block_loop.simps [simp del]

fun tail_loop :: "('s \<Rightarrow> nat \<Rightarrow> u8 \<Rightarrow> 's \<times> u8) \<Rightarrow> 's \<Rightarrow> nat \<Rightarrow> u8 list \<Rightarrow> u8 list \<times> 's \<times> nat" where
  "tail_loop step s n [] = ([], s, n)"
| "tail_loop step s n (b # inp) =
     (let (s, c) = step s n b; (out, s, n) = tail_loop step s (n + 1) inp in (c # out, s, n))"

definition three_loops :: "('s \<Rightarrow> 's) \<Rightarrow> ('s \<Rightarrow> nat \<Rightarrow> u8 \<Rightarrow> 's \<times> u8) \<Rightarrow>
    ('s \<Rightarrow> nat \<Rightarrow> u8 list \<Rightarrow> 's \<times> u8 list) \<Rightarrow> 's \<Rightarrow> nat \<Rightarrow> u8 list \<Rightarrow> u8 list \<times> 's \<times> nat" where
  "three_loops refill step whole s n inp =
     (let (out1, s, n, inp) = head_loop step s n inp;
          (out2, s, n, inp) = block_loop whole s n inp
      in if inp \<noteq> [] then
           (let (out3, s, n) = tail_loop step (refill s) n inp in (out1 @ out2 @ out3, s, n))
         else (out1 @ out2, s, n))"

section \<open>OFB\<close>

definition ofb_step :: "u8 list \<Rightarrow> nat \<Rightarrow> u8 \<Rightarrow> u8 list \<times> u8" where
  "ofb_step ivec n b = (ivec, b XOR ivec ! n)"

definition ofb_whole :: "block_fun \<Rightarrow> u8 list \<Rightarrow> nat \<Rightarrow> u8 list \<Rightarrow> u8 list \<times> u8 list" where
  "ofb_whole block ivec n inp = (let ivec = block ivec in (ivec, xor_words n inp ivec))"

definition CRYPTO_ofb128_encrypt :: "block_fun \<Rightarrow> u8 list \<Rightarrow> nat \<Rightarrow> u8 list \<Rightarrow> u8 list \<times> u8 list \<times> nat" where
  "CRYPTO_ofb128_encrypt block ivec num inp = three_loops block ofb_step (ofb_whole block) ivec num inp"

section \<open>CFB\<close>

definition cfb_encrypt_step :: "u8 list \<Rightarrow> nat \<Rightarrow> u8 \<Rightarrow> u8 list \<times> u8" where
  "cfb_encrypt_step ivec n b = (let c = ivec ! n XOR b in (ivec[n := c], c))"

definition cfb_decrypt_step :: "u8 list \<Rightarrow> nat \<Rightarrow> u8 \<Rightarrow> u8 list \<times> u8" where
  "cfb_decrypt_step ivec n c = (ivec[n := c], ivec ! n XOR c)"

definition cfb_encrypt_whole :: "block_fun \<Rightarrow> u8 list \<Rightarrow> nat \<Rightarrow> u8 list \<Rightarrow> u8 list \<times> u8 list" where
  "cfb_encrypt_whole block ivec n inp =
     (let ivec = block ivec;
          tmp = xor_words n ivec inp
      in (take n ivec @ tmp, tmp))"

definition cfb_decrypt_whole :: "block_fun \<Rightarrow> u8 list \<Rightarrow> nat \<Rightarrow> u8 list \<Rightarrow> u8 list \<times> u8 list" where
  "cfb_decrypt_whole block ivec n inp =
     (let ivec = block ivec
      in (take n ivec @ copy_words n inp, xor_words n ivec inp))"

definition CRYPTO_cfb128_encrypt :: "block_fun \<Rightarrow> bool \<Rightarrow> u8 list \<Rightarrow> nat \<Rightarrow> u8 list \<Rightarrow>
    u8 list \<times> u8 list \<times> nat" where
  "CRYPTO_cfb128_encrypt block enc ivec num inp =
     (if enc then three_loops block cfb_encrypt_step (cfb_encrypt_whole block) ivec num inp
      else three_loops block cfb_decrypt_step (cfb_decrypt_whole block) ivec num inp)"

section \<open>CTR\<close>

text \<open>The loop that adds the carry from the last byte of the counter on.\<close>

fun inc_loop :: "u8 list \<Rightarrow> nat \<Rightarrow> u32 \<Rightarrow> u8 list" where
  "inc_loop counter 0 c = counter"
| "inc_loop counter (Suc n) c =
     (let c = c + ucast (counter ! n)
      in inc_loop (counter[n := ucast c]) n (drop_bit 8 c))"

definition ctr128_inc :: "u8 list \<Rightarrow> u8 list" where
  "ctr128_inc counter = inc_loop counter 16 1"

definition ctr96_inc :: "u8 list \<Rightarrow> u8 list" where
  "ctr96_inc counter = inc_loop counter 12 1"

text \<open>The state is \<open>ivec\<close> with \<open>ecount_buf\<close>.\<close>

definition ctr_refill :: "block_fun \<Rightarrow> u8 list \<times> u8 list \<Rightarrow> u8 list \<times> u8 list" where
  "ctr_refill block s = (case s of (ivec, ecount_buf) \<Rightarrow> (ctr128_inc ivec, block ivec))"

definition ctr_step :: "u8 list \<times> u8 list \<Rightarrow> nat \<Rightarrow> u8 \<Rightarrow> (u8 list \<times> u8 list) \<times> u8" where
  "ctr_step s n b = (s, b XOR snd s ! n)"

definition ctr_whole :: "block_fun \<Rightarrow> u8 list \<times> u8 list \<Rightarrow> nat \<Rightarrow> u8 list \<Rightarrow> (u8 list \<times> u8 list) \<times> u8 list" where
  "ctr_whole block s n inp = (let s = ctr_refill block s in (s, xor_words 0 inp (snd s)))"

definition CRYPTO_ctr128_encrypt :: "block_fun \<Rightarrow> u8 list \<times> u8 list \<Rightarrow> nat \<Rightarrow> u8 list \<Rightarrow>
    u8 list \<times> (u8 list \<times> u8 list) \<times> nat" where
  "CRYPTO_ctr128_encrypt block s num inp =
     three_loops (ctr_refill block) ctr_step (ctr_whole block) s num inp"

text \<open>
  The version over a function that encrypts many blocks while it counts in the last four bytes of the
  counter only: \<open>func inp blocks ivec\<close> is the output for \<open>blocks\<close> blocks of the input.
\<close>

type_synonym ctr128_fun = "u8 list \<Rightarrow> nat \<Rightarrow> u8 list \<Rightarrow> u8 list"

definition put_counter :: "u8 list \<Rightarrow> u32 \<Rightarrow> u8 list" where
  "put_counter ivec ctr32 =
     (let ivec = take 12 ivec @ PUTU32 ctr32
      in if ctr32 = 0 then ctr96_inc ivec else ivec)"

text \<open>The number of blocks of one call, and the counter after it.\<close>

definition ctr32_blocks :: "u32 \<Rightarrow> nat \<Rightarrow> nat \<times> u32" where
  "ctr32_blocks ctr32 len =
     (let blocks = len div 16;
          blocks = (if blocks > 2 ^ 28 then 2 ^ 28 else blocks);
          ctr32 = ctr32 + of_nat blocks
      in if unat ctr32 < blocks then (blocks - unat ctr32, 0) else (blocks, ctr32))"

lemma ctr32_blocks_pos: "16 \<le> len \<Longrightarrow> 0 < fst (ctr32_blocks ctr32 len)"
  by (auto simp: ctr32_blocks_def Let_def div_greater_zero_iff)

function ctr32_loop :: "ctr128_fun \<Rightarrow> u8 list \<Rightarrow> u32 \<Rightarrow> u8 list \<Rightarrow> u8 list \<times> u8 list \<times> u32 \<times> u8 list" where
  "ctr32_loop func ivec ctr32 inp =
     (if length inp \<ge> 16 then
        (let (blocks, ctr32) = ctr32_blocks ctr32 (length inp);
             block_out = func inp blocks ivec;
             ivec = put_counter ivec ctr32;
             (out, ivec, ctr32, inp) = ctr32_loop func ivec ctr32 (drop (blocks * 16) inp)
         in (block_out @ out, ivec, ctr32, inp))
      else ([], ivec, ctr32, inp))"
  by pat_completeness auto
termination
proof (relation "measure (\<lambda>(func, ivec, ctr32, inp). length inp)", goal_cases)
  case (2 func ivec ctr32 inp p blocks ctr32' ivec')
  then have "fst (ctr32_blocks ctr32 (length inp)) = blocks" by (metis fst_conv)
  then show ?case using ctr32_blocks_pos [of "length inp" ctr32] 2(1) by simp
qed simp

declare ctr32_loop.simps [simp del]

definition CRYPTO_ctr128_encrypt_ctr32 :: "ctr128_fun \<Rightarrow> u8 list \<times> u8 list \<Rightarrow> nat \<Rightarrow> u8 list \<Rightarrow>
    u8 list \<times> (u8 list \<times> u8 list) \<times> nat" where
  "CRYPTO_ctr128_encrypt_ctr32 func s num inp =
     (let (out1, (ivec, ecount_buf), n, inp) = head_loop ctr_step s num inp;
          ctr32 = GETU32 (drop 12 ivec);
          (out2, ivec, ctr32, inp) = ctr32_loop func ivec ctr32 inp
      in if inp \<noteq> [] then
           (let ecount_buf = func (replicate 16 0) 1 ivec;
                ivec = put_counter ivec (ctr32 + 1);
                (out3, s, n) = tail_loop ctr_step (ivec, ecount_buf) n inp
            in (out1 @ out2 @ out3, s, n))
         else (out1 @ out2, (ivec, ecount_buf), n))"

section \<open>CFB with short feedback\<close>

text \<open>
  One step of CFB with \<open>nbits\<close> bits: the bytes written and the new \<open>ivec\<close>. \<open>ovec\<close> holds the old
  \<open>ivec\<close> followed by the bytes of the ciphertext.
\<close>

definition cfbr_encrypt_block :: "block_fun \<Rightarrow> bool \<Rightarrow> u8 list \<Rightarrow> nat \<Rightarrow> u8 list \<Rightarrow> u8 list \<times> u8 list" where
  "cfbr_encrypt_block block enc inp nbits ivec =
     (if nbits = 0 \<or> nbits > 128 then ([], ivec)
      else
        let old = ivec;
            ivec = block ivec;
            num = (nbits + 7) div 8;
            out = map (\<lambda>n. inp ! n XOR ivec ! n) [0..<num];
            ovec = old @ (if enc then out else take num inp);
            rem = nbits mod 8;
            num = nbits div 8;
            ivec = (if rem = 0 then take 16 (drop num ovec)
                    else map (\<lambda>n. push_bit rem (ovec ! (n + num)) OR drop_bit (8 - rem) (ovec ! (n + num + 1)))
                      [0..<16])
        in (out, ivec))"

text \<open>The input and the output as packed bits, most significant first; \<open>n\<close> bits are already done.\<close>

function cfb1_loop :: "block_fun \<Rightarrow> bool \<Rightarrow> u8 list \<Rightarrow> nat \<Rightarrow> nat \<Rightarrow> u8 list \<Rightarrow> u8 list \<Rightarrow> u8 list \<times> u8 list" where
  "cfb1_loop block enc inp bits n out ivec =
     (if n < bits then
        (let c = (if bit (inp ! (n div 8)) (7 - n mod 8) then 0x80 else 0);
             (d, ivec) = cfbr_encrypt_block block enc [c] 1 ivec;
             byte = (out ! (n div 8) AND NOT (push_bit (7 - n mod 8) 1)) OR
                      drop_bit (n mod 8) (d ! 0 AND 0x80)
         in cfb1_loop block enc inp bits (n + 1) (out[n div 8 := byte]) ivec)
      else (out, ivec))"
  by pat_completeness auto
termination by (relation "measure (\<lambda>(block, enc, inp, bits, n, out, ivec). bits - n)") auto

declare cfb1_loop.simps [simp del]

definition CRYPTO_cfb128_1_encrypt :: "block_fun \<Rightarrow> bool \<Rightarrow> u8 list \<Rightarrow> u8 list \<Rightarrow> nat \<Rightarrow> u8 list \<Rightarrow>
    u8 list \<times> u8 list" where
  "CRYPTO_cfb128_1_encrypt block enc inp out bits ivec = cfb1_loop block enc inp bits 0 out ivec"

fun CRYPTO_cfb128_8_encrypt :: "block_fun \<Rightarrow> bool \<Rightarrow> u8 list \<Rightarrow> u8 list \<Rightarrow> u8 list \<times> u8 list" where
  "CRYPTO_cfb128_8_encrypt block enc [] ivec = ([], ivec)"
| "CRYPTO_cfb128_8_encrypt block enc (b # inp) ivec =
     (let (c, ivec) = cfbr_encrypt_block block enc [b] 8 ivec;
          (out, ivec) = CRYPTO_cfb128_8_encrypt block enc inp ivec
      in (c @ out, ivec))"

section \<open>Words and bytes\<close>

lemma bit_load_le: "bit (load_le bs) n \<longleftrightarrow> n < 64 \<and> n div 8 < length bs \<and> bit (bs ! (n div 8)) (n mod 8)"
proof (induction bs arbitrary: n)
  case (Cons b bs)
  show ?case
  proof (cases "n < 8")
    case True
    then show ?thesis by (auto simp: bit_simps)
  next
    case False
    then obtain m where m: "n = m + 8" using le_Suc_ex [of 8 n] by (auto simp: add.commute)
    have "\<not> bit b (m + 8)" using bit_imp_le_length [of b "m + 8"] by auto
    moreover have "(m + 8) div 8 = Suc (m div 8)" by simp
    ultimately show ?thesis using Cons.IH [of m] by (auto simp: bit_simps m)
  qed
qed simp

lemma store_byte:
  assumes "i < 8" "i < length bs"
  shows "ucast (drop_bit (8 * i) (load_le bs)) = bs ! i"
proof (rule bit_word_eqI)
  fix j assume j: "j < LENGTH(8)"
  then have "(8 * i + j) div 8 = i" "(8 * i + j) mod 8 = j" "8 * i + j < 64" using assms(1) by auto
  then show "bit (ucast (drop_bit (8 * i) (load_le bs)) :: u8) j = bit (bs ! i) j"
    using j assms by (simp add: bit_simps bit_load_le)
qed

lemma store_load: "length bs = 8 \<Longrightarrow> store_word_le (load_le bs) = bs"
  by (rule nth_equalityI) (simp_all add: store_word_le_def store_byte)

lemma store_xor:
  assumes "length xs = 8" "length ys = 8"
  shows "store_word_le (load_le xs XOR load_le ys) = map2 (XOR) xs ys"
proof (rule nth_equalityI)
  fix i assume "i < length (store_word_le (load_le xs XOR load_le ys))"
  then have i: "i < 8" by (simp add: store_word_le_def)
  have "ucast (drop_bit (8 * i) (load_le xs XOR load_le ys)) =
      (ucast (drop_bit (8 * i) (load_le xs)) XOR ucast (drop_bit (8 * i) (load_le ys)) :: u8)"
    by (rule bit_word_eqI) (auto simp: bit_simps)
  then show "store_word_le (load_le xs XOR load_le ys) ! i = map2 (XOR) xs ys ! i"
    using i assms by (simp add: store_word_le_def store_byte)
qed (simp add: store_word_le_def assms)

lemma offsets_0: "word_offsets 0 = [0, 8]"
  by (simp add: word_offsets.simps)

lemma split16: "16 \<le> length xs \<Longrightarrow> take 16 xs = take 8 xs @ take 8 (drop 8 xs)"
  using take_add [of 8 8 xs] by simp

lemma xor_words_0:
  assumes "16 \<le> length xs" "16 \<le> length ys"
  shows "xor_words 0 xs ys = map2 (XOR) (take 16 xs) (take 16 ys)"
  using assms by (simp add: xor_words_def offsets_0 load_word_le_def store_xor split16 zip_append)

lemma copy_words_0: "16 \<le> length xs \<Longrightarrow> copy_words 0 xs = take 16 xs"
  by (simp add: copy_words_def offsets_0 load_word_le_def store_load split16)

section \<open>One byte at a time\<close>

text \<open>The specification of a stream mode: a new block whenever the last one is used up.\<close>

fun bytewise :: "('s \<Rightarrow> 's) \<Rightarrow> ('s \<Rightarrow> nat \<Rightarrow> u8 \<Rightarrow> 's \<times> u8) \<Rightarrow> 's \<Rightarrow> nat \<Rightarrow> u8 list \<Rightarrow>
    u8 list \<times> 's \<times> nat" where
  "bytewise refill step s n [] = ([], s, n)"
| "bytewise refill step s n (b # inp) =
     (let (s, c) = step (if n = 0 then refill s else s) n b;
          (out, s, n) = bytewise refill step s ((n + 1) mod 16) inp
      in (c # out, s, n))"

lemma bytewise_append:
  "bytewise refill step s n (xs @ ys) =
     (case bytewise refill step s n xs of
        (out1, s, n) \<Rightarrow> (case bytewise refill step s n ys of (out2, s, n) \<Rightarrow> (out1 @ out2, s, n)))"
  by (induction xs arbitrary: s n) (simp_all add: split_beta)

lemma bytewise_n: "n < 16 \<Longrightarrow> snd (snd (bytewise refill step s n inp)) = (n + length inp) mod 16"
proof (induction inp arbitrary: s n)
  case (Cons b inp)
  have "((n + 1) mod 16 + length inp) mod 16 = (n + length (b # inp)) mod 16" by (simp add: mod_simps)
  then show ?case using Cons.IH [of "(n + 1) mod 16"] by (simp add: split_beta)
qed simp

lemma bytewise_length: "length (fst (bytewise refill step s n inp)) = length inp"
  by (induction inp arbitrary: s n) (simp_all add: split_beta)

locale stream_mode =
  fixes refill :: "'s \<Rightarrow> 's" and step :: "'s \<Rightarrow> nat \<Rightarrow> u8 \<Rightarrow> 's \<times> u8"
    and whole :: "'s \<Rightarrow> nat \<Rightarrow> u8 list \<Rightarrow> 's \<times> u8 list" and ok :: "'s \<Rightarrow> bool"
  assumes ok_refill: "ok s \<Longrightarrow> ok (refill s)"
    and ok_step: "ok s \<Longrightarrow> ok (fst (step s n b))"
    and whole_bytes: "ok s \<Longrightarrow> 16 \<le> length inp \<Longrightarrow>
      bytewise refill step s 0 (take 16 inp) = (snd (whole s 0 inp), fst (whole s 0 inp), 0)"
begin

lemma ok_bytewise: "ok s \<Longrightarrow> ok (fst (snd (bytewise refill step s n inp)))"
proof (induction inp arbitrary: s n)
  case (Cons b inp)
  then show ?case using ok_step ok_refill by (simp add: split_beta)
qed simp

lemma head_bytes:
  "n < 16 \<Longrightarrow> head_loop step s n inp = (out, s', n', rest) \<Longrightarrow>
   bytewise refill step s n inp =
     (case bytewise refill step s' n' rest of (out2, s, n) \<Rightarrow> (out @ out2, s, n)) \<and>
   n' < 16 \<and> (rest \<noteq> [] \<longrightarrow> n' = 0) \<and> (ok s \<longrightarrow> ok s')"
proof (induction inp arbitrary: s n out)
  case (Cons b inp)
  show ?case
  proof (cases "n = 0")
    case True
    then show ?thesis using Cons.prems by auto
  next
    case False
    obtain s1 c where step: "step s n b = (s1, c)" by fastforce
    obtain o1 where o1: "head_loop step s1 ((n + 1) mod 16) inp = (o1, s', n', rest)" "out = c # o1"
      using Cons.prems(2) False step by (auto split: prod.splits)
    have "ok s \<Longrightarrow> ok s1" using ok_step [of s n b] step by simp
    then show ?thesis using Cons.IH [OF _ o1(1)] False step o1(2) by (auto simp: split_beta)
  qed
qed auto

lemma block_bytes:
  "block_loop whole s 0 inp = (out, s', n', rest) \<Longrightarrow> ok s \<Longrightarrow>
   bytewise refill step s 0 inp =
     (case bytewise refill step s' 0 rest of (out2, s, n) \<Rightarrow> (out @ out2, s, n)) \<and>
   n' = 0 \<and> length rest < 16 \<and> ok s'"
proof (induction "length inp" arbitrary: inp s out rule: less_induct)
  case less
  show ?case
  proof (cases "length inp \<ge> 16")
    case False
    then show ?thesis using less.prems by (auto simp: block_loop.simps [of _ _ _ inp])
  next
    case True
    obtain s1 b1 where w: "whole s 0 inp = (s1, b1)" by fastforce
    obtain o1 where o1: "block_loop whole s1 0 (drop 16 inp) = (o1, s', n', rest)" "out = b1 @ o1"
      using less.prems(1) True w by (auto simp: block_loop.simps [of _ _ _ inp] split: prod.splits)
    have b: "bytewise refill step s 0 (take 16 inp) = (b1, s1, 0)"
      using whole_bytes [OF less.prems(2) True] w by simp
    then have "ok s1" using ok_bytewise [OF less.prems(2), of 0 "take 16 inp"] by simp
    then show ?thesis
      using less.hyps [OF _ o1(1)] True b bytewise_append [of refill step s 0 "take 16 inp" "drop 16 inp"] o1(2)
      by (simp add: split_beta)
  qed
qed

lemma tail_bytes:
  "0 < n \<Longrightarrow> n + length inp \<le> 16 \<Longrightarrow> n + length inp < 16 \<or> inp = [] \<Longrightarrow>
   tail_loop step s n inp = bytewise refill step s n inp"
proof (induction inp arbitrary: s n)
  case (Cons b inp)
  then have "(n + 1) mod 16 = n + 1" by simp
  then show ?case using Cons by simp
qed simp

lemma tail_bytes_start:
  "inp \<noteq> [] \<Longrightarrow> length inp < 16 \<Longrightarrow> tail_loop step (refill s) 0 inp = bytewise refill step s 0 inp"
  by (cases inp) (simp_all add: tail_bytes)

text \<open>The three loops do what the treatment of one byte after the other does.\<close>

lemma three_loops_bytewise:
  assumes "n < 16" "ok s"
  shows "three_loops refill step whole s n inp = bytewise refill step s n inp"
proof -
  obtain o1 s1 n1 r1 where h: "head_loop step s n inp = (o1, s1, n1, r1)" by (metis prod_cases4)
  note head = head_bytes [OF assms(1) h]
  obtain o2 s2 n2 r2 where b: "block_loop whole s1 n1 r1 = (o2, s2, n2, r2)" by (metis prod_cases4)
  show ?thesis
  proof (cases "r1 = []")
    case True
    then have "o2 = []" "s2 = s1" "n2 = n1" "r2 = []" using b by (simp_all add: block_loop.simps)
    then show ?thesis using True head h b by (simp add: three_loops_def)
  next
    case False
    then have "n1 = 0" "ok s1" using head assms(2) by simp_all
    note block = block_bytes [of s1 r1 o2 s2 n2 r2, OF _ this(2)]
    show ?thesis
      using head block tail_bytes_start [of r2 s2] b h \<open>n1 = 0\<close>
      by (cases "r2 = []") (simp_all add: three_loops_def split_beta)
  qed
qed

end

text \<open>Two modes that undo each other byte by byte.\<close>

locale mode_pair = e: stream_mode refill step_e whole_e ok + d: stream_mode refill step_d whole_d ok
  for refill :: "'s \<Rightarrow> 's" and step_e whole_e step_d whole_d ok +
  assumes undo: "step_e s n b = (s', c) \<Longrightarrow> step_d s n c = (s', b)"
begin

lemma bytewise_undo:
  "bytewise refill step_e s n inp = (out, s', n') \<Longrightarrow> bytewise refill step_d s n out = (inp, s', n')"
proof (induction inp arbitrary: s n out)
  case (Cons b inp)
  obtain s1 c where st: "step_e (if n = 0 then refill s else s) n b = (s1, c)" by fastforce
  obtain o1 where o1: "bytewise refill step_e s1 ((n + 1) mod 16) inp = (o1, s', n')" "out = c # o1"
    using Cons.prems st by (auto split: prod.splits)
  then show ?case using Cons.IH [OF o1(1)] undo [OF st] by simp
qed simp

end

section \<open>The modes\<close>

lemma list16: "16 \<le> length inp \<Longrightarrow> \<exists>b bs. take 16 inp = b # bs \<and> length bs = 15"
proof -
  assume "16 \<le> length inp"
  then have "length (take 16 inp) = 16" by simp
  then show ?thesis by (cases "take 16 inp") auto
qed

lemma xor_commute2: "map2 (XOR) xs ys = map2 (XOR) ys (xs :: u8 list)"
  by (induction xs ys rule: list_induct2') (simp_all add: xor.commute)

lemma drop_step: "n < length iv \<Longrightarrow> drop n iv = iv ! n # drop (Suc n) iv"
  by (simp add: Cons_nth_drop_Suc)

lemma ofb_bytes:
  "0 < n \<Longrightarrow> n < 16 \<Longrightarrow> n + length inp \<le> 16 \<Longrightarrow> length iv = 16 \<Longrightarrow>
   bytewise refill ofb_step iv n inp = (map2 (XOR) inp (drop n iv), iv, (n + length inp) mod 16)"
proof (induction inp arbitrary: n)
  case (Cons b inp)
  show ?case
  proof (cases "inp = []")
    case True
    then show ?thesis using Cons.prems by (simp add: ofb_step_def drop_step)
  next
    case False
    then have "(n + 1) mod 16 = n + 1" "n + 1 < 16" using Cons.prems by (cases inp; simp)+
    then show ?thesis using Cons by (simp add: ofb_step_def drop_step)
  qed
qed simp

lemma cfb_encrypt_bytes:
  "0 < n \<Longrightarrow> n < 16 \<Longrightarrow> n + length inp \<le> 16 \<Longrightarrow> length iv = 16 \<Longrightarrow>
   bytewise refill cfb_encrypt_step iv n inp =
     (map2 (XOR) (drop n iv) inp, take n iv @ map2 (XOR) (drop n iv) inp @ drop (n + length inp) iv,
      (n + length inp) mod 16)"
proof (induction inp arbitrary: n iv)
  case (Cons b inp)
  let ?iv = "iv[n := iv ! n XOR b]"
  have up: "drop (Suc n) ?iv = drop (Suc n) iv" "take (Suc n) ?iv = take n iv @ [iv ! n XOR b]"
    using Cons.prems by (simp_all add: take_Suc_conv_app_nth)
  show ?case
  proof (cases "inp = []")
    case True
    then show ?thesis using Cons.prems by (simp add: cfb_encrypt_step_def Let_def drop_step upd_conv_take_nth_drop)
  next
    case False
    then have m: "(n + 1) mod 16 = n + 1" "n + 1 < 16" using Cons.prems by (cases inp; simp)+
    have "drop (Suc n + length inp) ?iv = drop (n + length (b # inp)) iv" using Cons.prems by simp
    then show ?thesis using Cons.IH [of "n + 1" ?iv] Cons.prems m up
      by (simp add: cfb_encrypt_step_def Let_def drop_step)
  qed
qed simp

lemma cfb_decrypt_bytes:
  "0 < n \<Longrightarrow> n < 16 \<Longrightarrow> n + length inp \<le> 16 \<Longrightarrow> length iv = 16 \<Longrightarrow>
   bytewise refill cfb_decrypt_step iv n inp =
     (map2 (XOR) (drop n iv) inp, take n iv @ inp @ drop (n + length inp) iv, (n + length inp) mod 16)"
proof (induction inp arbitrary: n iv)
  case (Cons b inp)
  let ?iv = "iv[n := b]"
  have up: "drop (Suc n) ?iv = drop (Suc n) iv" "take (Suc n) ?iv = take n iv @ [b]"
    using Cons.prems by (simp_all add: take_Suc_conv_app_nth)
  show ?case
  proof (cases "inp = []")
    case True
    then show ?thesis using Cons.prems by (simp add: cfb_decrypt_step_def drop_step upd_conv_take_nth_drop)
  next
    case False
    then have m: "(n + 1) mod 16 = n + 1" "n + 1 < 16" using Cons.prems by (cases inp; simp)+
    have "drop (Suc n + length inp) ?iv = drop (n + length (b # inp)) iv" using Cons.prems by simp
    then show ?thesis using Cons.IH [of "n + 1" ?iv] Cons.prems m up
      by (simp add: cfb_decrypt_step_def drop_step)
  qed
qed simp

lemma ctr_bytes:
  "0 < n \<Longrightarrow> n < 16 \<Longrightarrow> n + length inp \<le> 16 \<Longrightarrow> length (snd s) = 16 \<Longrightarrow>
   bytewise refill ctr_step s n inp = (map2 (XOR) inp (drop n (snd s)), s, (n + length inp) mod 16)"
proof (induction inp arbitrary: n)
  case (Cons b inp)
  show ?case
  proof (cases "inp = []")
    case True
    then show ?thesis using Cons.prems by (simp add: ctr_step_def drop_step)
  next
    case False
    then have "(n + 1) mod 16 = n + 1" "n + 1 < 16" using Cons.prems by (cases inp; simp)+
    then show ?thesis using Cons by (simp add: ctr_step_def drop_step)
  qed
qed simp

lemma length_inc_loop [simp]: "length (inc_loop counter n c) = length counter"
  by (induction counter n c rule: inc_loop.induct) (simp_all add: Let_def)

definition iv_ok :: "u8 list \<Rightarrow> bool" where
  "iv_ok iv \<longleftrightarrow> length iv = 16"

definition ctr_ok :: "u8 list \<times> u8 list \<Rightarrow> bool" where
  "ctr_ok s \<longleftrightarrow> length (fst s) = 16 \<and> length (snd s) = 16"

locale block_cipher =
  fixes block :: block_fun
  assumes block_length: "length x = 16 \<Longrightarrow> length (block x) = 16"

sublocale block_cipher \<subseteq> ofb: mode_pair block ofb_step "ofb_whole block" ofb_step "ofb_whole block" iv_ok
proof (unfold_locales, goal_cases)
  case (3 iv inp)
  obtain b bs where inp: "take 16 inp = b # bs" "length bs = 15" using list16 [OF 3(2)] by blast
  obtain h t where iv: "block iv = h # t" "length t = 15"
    using 3(1) block_length [of iv] by (cases "block iv") (auto simp: iv_ok_def)
  show ?case using 3 inp iv ofb_bytes [of 1 bs "block iv" block]
    by (simp add: ofb_whole_def xor_words_0) (simp add: ofb_step_def)
qed (auto simp: iv_ok_def block_length ofb_step_def xor.assoc)

sublocale block_cipher \<subseteq> cfb: mode_pair block cfb_encrypt_step "cfb_encrypt_whole block"
    cfb_decrypt_step "cfb_decrypt_whole block" iv_ok
proof (unfold_locales, goal_cases)
  case (3 iv inp)
  obtain b bs where inp: "take 16 inp = b # bs" "length bs = 15" using list16 [OF 3(2)] by blast
  obtain h t where iv: "block iv = h # t" "length t = 15"
    using 3(1) block_length [of iv] by (cases "block iv") (auto simp: iv_ok_def)
  show ?case using 3 inp iv cfb_encrypt_bytes [of 1 bs "(h XOR b) # t" block]
    by (simp add: cfb_encrypt_whole_def Let_def xor_words_0) (simp add: cfb_encrypt_step_def Let_def)
next
  case (5 iv inp)
  obtain b bs where inp: "take 16 inp = b # bs" "length bs = 15" using list16 [OF 5(2)] by blast
  obtain h t where iv: "block iv = h # t" "length t = 15"
    using 5(1) block_length [of iv] by (cases "block iv") (auto simp: iv_ok_def)
  show ?case using 5 inp iv cfb_decrypt_bytes [of 1 bs "b # t" block]
    by (simp add: cfb_decrypt_whole_def xor_words_0 copy_words_0) (simp add: cfb_decrypt_step_def)
qed (auto simp: iv_ok_def block_length cfb_encrypt_step_def cfb_decrypt_step_def Let_def xor.assoc [symmetric])

sublocale block_cipher \<subseteq> ctr: mode_pair "ctr_refill block" ctr_step "ctr_whole block" ctr_step "ctr_whole block" ctr_ok
proof (unfold_locales, goal_cases)
  case (3 st inp)
  obtain b bs where inp: "take 16 inp = b # bs" "length bs = 15" using list16 [OF 3(2)] by blast
  obtain iv ec where st: "st = (iv, ec)" by fastforce
  obtain h t where iv: "block iv = h # t" "length t = 15"
    using 3(1) block_length [of iv] by (cases "block iv") (auto simp: ctr_ok_def st)
  show ?case using 3 inp iv ctr_bytes [of 1 bs "(ctr128_inc iv, h # t)" "ctr_refill block"]
    by (simp add: ctr_whole_def ctr_refill_def st xor_words_0) (simp add: ctr_step_def)
qed (auto simp: ctr_ok_def block_length ctr_step_def ctr_refill_def ctr128_inc_def xor.assoc split: prod.splits)

text \<open>A cipher whose output is brought to 16 bytes: it is the cipher itself when that is \<open>block_ok\<close>.\<close>

definition sized_block :: "block_fun \<Rightarrow> block_fun" where
  "sized_block block x = take 16 (block x @ replicate 16 0)"

interpretation sized: block_cipher "sized_block block" for block
  by unfold_locales (simp add: sized_block_def)

section \<open>Counters\<close>

lemma inc_loop_value:
  "n \<le> length counter \<Longrightarrow> unat c \<le> 1 \<Longrightarrow>
   inc_loop counter n c = be_bytes n (be_val (take n counter) + unat c) @ drop n counter"
proof (induction n arbitrary: counter c)
  case (Suc n)
  define c' where "c' = c + ucast (counter ! n)"
  have b: "unat (counter ! n) < 256" by (rule unat_u8_less)
  have u: "unat c' = unat c + unat (counter ! n)"
    unfolding c'_def using Suc.prems b by (subst unat_add_no_overflow) (simp_all add: unat_ucast_up)
  have d: "unat (drop_bit 8 c') = unat c' div 256" by (simp add: unat_drop_bit)
  have le: "unat c' div 256 \<le> 1" using u b Suc.prems by linarith
  let ?N = "be_val (take (Suc n) counter) + unat c"
  have N: "?N = be_val (take n counter) * 256 + unat c'"
    using Suc.prems u by (simp add: take_Suc_conv_app_nth be_val_snoc)
  have "(ucast c' :: u8) = of_nat ?N"
    by (simp add: N word_unat_eq_iff unsigned_ucast_eq take_bit_eq_mod unat_of_nat_u8 mod_simps del: of_nat_add of_nat_mult)
  moreover have "?N div 256 = be_val (take n counter) + unat c' div 256" by (simp add: N)
  moreover have "drop n (counter[n := ucast c']) = ucast c' # drop (Suc n) counter"
    using Suc.prems by (simp add: drop_step)
  ultimately show ?case
    using Suc.IH [of "counter[n := ucast c']" "drop_bit 8 c'"] Suc.prems le d be_bytes_split [of n 1 ?N]
    by (simp add: c'_def [symmetric] Let_def)
qed simp

lemma be_bytes_mod: "be_bytes k (n mod 256 ^ k) = be_bytes k n"
  using be_bytes_be_val [of "be_bytes k n"] by (simp add: be_val_be_bytes)

lemma ctr128_inc_value: "length iv = 16 \<Longrightarrow> ctr128_inc iv = be_bytes 16 (be_val iv + 1)"
  using inc_loop_value [of 16 iv 1] by (simp add: ctr128_inc_def)

lemma be_bytes_mod_add: "be_bytes k (n mod 256 ^ k + c) = be_bytes k (n + c)"
  by (metis be_bytes_mod mod_add_left_eq)

lemma ctr128_inc_be_bytes: "ctr128_inc (be_bytes 16 n) = be_bytes 16 (n + 1)"
proof -
  have "ctr128_inc (be_bytes 16 n) = be_bytes 16 (be_val (be_bytes 16 n) + 1)"
    by (rule ctr128_inc_value [OF length_be_bytes])
  also have "\<dots> = be_bytes 16 (n mod 256 ^ 16 + 1)" by (subst be_val_be_bytes) (rule refl)
  also have "\<dots> = be_bytes 16 (n + 1)" by (rule be_bytes_mod_add)
  finally show ?thesis .
qed

lemma ctr96_inc_value: "12 \<le> length iv \<Longrightarrow> ctr96_inc iv = be_bytes 12 (be_val (take 12 iv) + 1) @ drop 12 iv"
  using inc_loop_value [of 12 iv 1] by (simp add: ctr96_inc_def)

lemma PUTU32_value: "PUTU32 v = be_bytes 4 (unat v)"
proof -
  have eq: "ucast w = (of_nat (unat w) :: u8)" for w :: u32
    by (simp add: word_unat_eq_iff unsigned_ucast_eq unat_of_nat_u8 take_bit_eq_mod)
  have "(4 :: nat) = Suc (Suc (Suc (Suc 0)))" by simp
  then have "be_bytes 4 n = [of_nat (n div 2 ^ 24), of_nat (n div 2 ^ 16), of_nat (n div 2 ^ 8), of_nat n]" for n
    by (simp only: be_bytes.simps) simp
  then show ?thesis unfolding PUTU32_def eq unat_drop_bit by simp
qed

lemma GETU32_value:
  assumes "length xs = 4"
  shows "unat (GETU32 xs) = be_val xs"
proof -
  obtain a b c d where xs: "xs = [a, b, c, d]"
    using assms by (auto simp: numeral_eq_Suc length_Suc_conv)
  have u: "unat (ucast x :: u32) = unat x" for x :: u8 by (rule unat_ucast_up) simp
  have l: "unat a < 256" "unat b < 256" "unat c < 256" "unat d < 256" by (rule unat_u8_less)+
  define p where "p = push_bit 8 (ucast c) OR (ucast d :: u32)"
  have p: "unat p = unat c * 256 + unat d" using l unat_push_or [of "ucast c :: u32" 8 "ucast d"] by (simp add: p_def u)
  define q where "q = push_bit 16 (ucast b) OR p"
  have q: "unat q = unat b * 65536 + unat p"
    using l p unat_push_or [of "ucast b :: u32" 16 p] by (simp add: q_def u)
  have "unat (push_bit 24 (ucast a) OR q) = unat a * 16777216 + unat q"
    using l p q unat_push_or [of "ucast a :: u32" 24 q] by (simp add: u)
  then show ?thesis by (simp add: xs GETU32_def p_def [symmetric] q_def [symmetric] p q)
qed

text \<open>The stream of the counter mode: the cipher's output on successive counters.\<close>

definition keystream :: "block_fun \<Rightarrow> nat \<Rightarrow> nat \<Rightarrow> u8 list" where
  "keystream block n k = concat (map (\<lambda>i. block (be_bytes 16 (n + i))) [0..<k])"

lemma keystream_add: "keystream block n (j + k) = keystream block n j @ keystream block (n + j) k"
proof -
  have "map (\<lambda>i. block (be_bytes 16 (n + i))) [j..<j + k] = map (\<lambda>i. block (be_bytes 16 (n + j + i))) [0..<k]"
    by (rule nth_equalityI) (simp_all add: add.assoc)
  then show ?thesis using upt_add_eq_append [of 0 j k] by (simp add: keystream_def)
qed

context block_cipher
begin

lemma length_keystream [simp]: "length (keystream block n k) = 16 * k"
  by (induction k) (simp_all add: keystream_def block_length)

lemma ctr_one_block:
  assumes "length ec = 16" "length inp = 16"
  shows "bytewise (ctr_refill block) ctr_step (be_bytes 16 n, ec) 0 inp =
    (map2 (XOR) inp (keystream block n 1), (be_bytes 16 (n + 1), block (be_bytes 16 n)), 0)"
proof -
  have "ctr_ok (be_bytes 16 n, ec)" using assms by (simp add: ctr_ok_def)
  from ctr.e.whole_bytes [OF this, of inp] show ?thesis using assms
    by (simp add: ctr_whole_def ctr_refill_def ctr128_inc_be_bytes xor_words_0 block_length keystream_def)
qed

lemma ctr_blocks:
  "length ec = 16 \<Longrightarrow> length inp = 16 * k \<Longrightarrow>
   \<exists>ec'. length ec' = 16 \<and> bytewise (ctr_refill block) ctr_step (be_bytes 16 n, ec) 0 inp =
     (map2 (XOR) inp (keystream block n k), (be_bytes 16 (n + k), ec'), 0)"
proof (induction k arbitrary: n ec inp)
  case (Suc k)
  let ?x = "take 16 inp" and ?y = "drop 16 inp"
  have x: "bytewise (ctr_refill block) ctr_step (be_bytes 16 n, ec) 0 ?x =
      (map2 (XOR) ?x (keystream block n 1), (be_bytes 16 (n + 1), block (be_bytes 16 n)), 0)"
    using ctr_one_block [OF Suc.prems(1), of ?x n] Suc.prems(2) by simp
  obtain ec' where y: "length ec' = 16" "bytewise (ctr_refill block) ctr_step (be_bytes 16 (n + 1), block (be_bytes 16 n)) 0 ?y =
      (map2 (XOR) ?y (keystream block (n + 1) k), (be_bytes 16 (n + 1 + k), ec'), 0)"
    using Suc.IH [of "block (be_bytes 16 n)" ?y "n + 1"] Suc.prems(2) block_length by auto
  have "zip (?x @ ?y) (keystream block n 1 @ keystream block (n + 1) k) =
      zip ?x (keystream block n 1) @ zip ?y (keystream block (n + 1) k)"
    by (rule zip_append) (use Suc.prems(2) in simp)
  then show ?case using y x bytewise_append [of "ctr_refill block" ctr_step "(be_bytes 16 n, ec)" 0 ?x ?y]
      keystream_add [of block n 1 k] by simp
qed (simp add: keystream_def)

end

section \<open>The 32-bit counter\<close>

text \<open>The contract of the function that encrypts many blocks.\<close>

definition ctr32_ok :: "block_fun \<Rightarrow> ctr128_fun \<Rightarrow> bool" where
  "ctr32_ok block func \<longleftrightarrow> (\<forall>inp blocks iv. length iv = 16 \<longrightarrow> blocks * 16 \<le> length inp \<longrightarrow>
     func inp blocks iv = map2 (XOR) (take (blocks * 16) inp)
       (concat (map (\<lambda>i. block (take 12 iv @ PUTU32 (GETU32 (drop 12 iv) + of_nat i))) [0..<blocks])))"

definition low_counter :: "nat \<Rightarrow> u32" where
  "low_counter n = GETU32 (be_bytes 4 n)"

lemma unat_low_counter: "unat (low_counter n) = n mod 2 ^ 32"
  using GETU32_value [of "be_bytes 4 n"] by (simp add: low_counter_def be_val_be_bytes)

lemma low_counter_eq: "unat c = n mod 2 ^ 32 \<Longrightarrow> low_counter n = c"
  by (simp add: word_unat_eq_iff unat_low_counter)

lemma counter_parts: "be_bytes 16 n = be_bytes 12 (n div 2 ^ 32) @ be_bytes 4 n"
  using be_bytes_split [of 12 4 n] by simp

lemma counter_take: "take 12 (be_bytes 16 n) = be_bytes 12 (n div 2 ^ 32)" "drop 12 (be_bytes 16 n) = be_bytes 4 n"
  by (simp_all add: counter_parts del: be_bytes.simps)

lemma be_bytes_4_mod: "be_bytes 4 (n mod 2 ^ 32) = be_bytes 4 n"
  using be_bytes_mod [of 4 n] by simp

lemma low_add:
  assumes "n mod 2 ^ 32 + i < 2 ^ 32"
  shows "(n + i) div 2 ^ 32 = n div 2 ^ 32 \<and> (n + i) mod 2 ^ 32 = n mod 2 ^ 32 + (i :: nat)"
proof -
  have "n + i = n div 2 ^ 32 * 2 ^ 32 + (n mod 2 ^ 32 + i)" by simp
  then show ?thesis using assms by (metis div_mult_self3 div_less add_0_right mod_mult_self3 mod_less zero_neq_numeral power_eq_0_iff)
qed

lemma counter_at:
  assumes "n mod 2 ^ 32 + i < 2 ^ 32"
  shows "take 12 (be_bytes 16 n) @ PUTU32 (low_counter n + of_nat i) = be_bytes 16 (n + i)"
proof -
  have "unat (low_counter n + of_nat i) = n mod 2 ^ 32 + i"
    using assms by (subst unat_add_no_overflow) (simp_all add: unat_low_counter)
  then have "PUTU32 (low_counter n + of_nat i) = be_bytes 4 (n + i)"
    using low_add [OF assms] be_bytes_4_mod [of "n + i"] by (simp add: PUTU32_value del: be_bytes.simps)
  then show ?thesis
    using low_add [OF assms] by (simp add: counter_take counter_parts [of "n + i"] del: be_bytes.simps)
qed

lemma carry_over: "n mod k + b = k \<Longrightarrow> n + b = (n div k + 1) * (k :: nat)"
proof -
  assume "n mod k + b = k"
  moreover have "n + b = n div k * k + (n mod k + b)" by simp
  ultimately show ?thesis by simp
qed

lemma put_counter_value:
  assumes "n mod 2 ^ 32 + b \<le> 2 ^ 32" "0 < b" "unat c = (n + b) mod 2 ^ 32"
  shows "put_counter (be_bytes 16 n) c = be_bytes 16 (n + b)"
proof (cases "n mod 2 ^ 32 + b < 2 ^ 32")
  case True
  have l: "unat (low_counter n + of_nat b) = n mod 2 ^ 32 + b"
    using True by (subst unat_add_no_overflow) (simp_all add: unat_low_counter)
  then have c: "c = low_counter n + of_nat b"
    using low_add [OF True] assms(3) by (simp add: word_unat_eq_iff)
  have "c \<noteq> 0" using l c assms(2) by (metis add_is_0 unat_0 not_gr_zero)
  then show ?thesis using counter_at [OF True] c by (simp add: put_counter_def Let_def)
next
  case False
  then have n: "n + b = (n div 2 ^ 32 + 1) * 2 ^ 32"
    using assms(1) by (intro carry_over) simp
  then have "(n + b) mod 2 ^ 32 = 0" "(n + b) div 2 ^ 32 = n div 2 ^ 32 + 1" by simp_all
  then have c: "c = 0" using assms(3) by (simp add: unat_eq_zero)
  have z: "PUTU32 0 = be_bytes 4 (n + b)"
    using be_bytes_4_mod [of "n + b"] \<open>(n + b) mod 2 ^ 32 = 0\<close> by (simp add: PUTU32_value del: be_bytes.simps)
  have "put_counter (be_bytes 16 n) c = ctr96_inc (be_bytes 12 (n div 2 ^ 32) @ be_bytes 4 (n + b))"
    using z c by (simp add: put_counter_def Let_def counter_take del: be_bytes.simps)
  also have "\<dots> = be_bytes 12 (be_val (be_bytes 12 (n div 2 ^ 32)) + 1) @ be_bytes 4 (n + b)"
    by (subst ctr96_inc_value) (simp_all del: be_bytes.simps)
  also have "be_bytes 12 (be_val (be_bytes 12 (n div 2 ^ 32)) + 1) = be_bytes 12 (n div 2 ^ 32 + 1)"
    unfolding be_val_be_bytes by (rule be_bytes_mod_add)
  also have "be_bytes 12 (n div 2 ^ 32 + 1) @ be_bytes 4 (n + b) = be_bytes 16 (n + b)"
    using \<open>(n + b) div 2 ^ 32 = _\<close> by (simp only: counter_parts [of "n + b"])
  finally show ?thesis .
qed

lemma put_counter_next: "put_counter (be_bytes 16 n) (low_counter n + 1) = be_bytes 16 (n + 1)"
proof (rule put_counter_value)
  show "n mod 2 ^ 32 + 1 \<le> 2 ^ 32" using mod_less_divisor [of "2 ^ 32" n] by (simp only: Suc_eq_plus1 [symmetric] Suc_le_eq) simp
  have "unat (low_counter n + 1) = (n mod 2 ^ 32 + 1) mod 2 ^ 32"
    by (simp add: unat_word_ariths unat_low_counter)
  then show "unat (low_counter n + 1) = (n + 1) mod 2 ^ 32" by (simp only: mod_add_left_eq)
qed simp

lemma ctr32_blocks_value:
  assumes "16 \<le> len" "ctr32_blocks (low_counter n) len = (b, c)"
  shows "0 < b \<and> b * 16 \<le> len \<and> n mod 2 ^ 32 + b \<le> 2 ^ 32 \<and> unat c = (n + b) mod 2 ^ 32"
proof -
  define k where "k = (if len div 16 > 2 ^ 28 then 2 ^ 28 else len div 16)"
  have k: "0 < k" "k \<le> 2 ^ 28" "k * 16 \<le> len" using assms(1) by (auto simp: k_def div_greater_zero_iff)
  let ?l = "n mod 2 ^ 32"
  have l: "?l < 2 ^ 32" by simp
  have u: "unat (low_counter n + of_nat k) = (if ?l + k < 2 ^ 32 then ?l + k else ?l + k - 2 ^ 32)"
  proof -
    have "unat (low_counter n + of_nat k) = (?l + k) mod 2 ^ 32"
      using k by (simp add: unat_word_ariths unat_low_counter)
    moreover have "(?l + k) mod 2 ^ 32 = ?l + k - 2 ^ 32" if "\<not> ?l + k < 2 ^ 32"
    proof -
      have "(?l + k) mod 2 ^ 32 = (?l + k - 2 ^ 32) mod 2 ^ 32" using that by (intro le_mod_geq) simp
      also have "\<dots> = ?l + k - 2 ^ 32" using l k(2) by (intro mod_less) (simp add: less_diff_conv2)
      finally show ?thesis .
    qed
    ultimately show ?thesis by simp
  qed
  have r: "(b, c) = (if unat (low_counter n + of_nat k) < k then (k - unat (low_counter n + of_nat k), 0)
       else (k, low_counter n + of_nat k))"
    using assms(2) unfolding ctr32_blocks_def Let_def k_def [symmetric] by (rule sym)
  show ?thesis
  proof (cases "?l + k < 2 ^ 32")
    case True
    then have "b = k" "c = low_counter n + of_nat k" using r u by simp_all
    then show ?thesis using k True u low_add [OF True] by simp
  next
    case False
    have s: "?l + k - 2 ^ 32 < k" "k - (?l + k - 2 ^ 32) = 2 ^ 32 - ?l" using False l k(1) by linarith+
    then have b: "b = 2 ^ 32 - ?l" "c = 0" using r u False by (simp_all only: if_False if_True prod.inject)
    have "n + b = (n div 2 ^ 32 + 1) * 2 ^ 32" using b(1) l by (intro carry_over) simp
    then have "(n + b) mod 2 ^ 32 = 0" by simp
    then show ?thesis using b k l False by simp
  qed
qed

context block_cipher
begin

lemma func_keystream:
  assumes "ctr32_ok block func" "b * 16 \<le> length inp" "n mod 2 ^ 32 + b \<le> 2 ^ 32"
  shows "func inp b (be_bytes 16 n) = map2 (XOR) (take (b * 16) inp) (keystream block n b)"
proof -
  have "map (\<lambda>i. block (take 12 (be_bytes 16 n) @ PUTU32 (low_counter n + of_nat i))) [0..<b] =
      map (\<lambda>i. block (be_bytes 16 (n + i))) [0..<b]"
    using assms(3) by (intro map_cong) (simp_all add: counter_at)
  then have "map (\<lambda>i. block (take 12 (be_bytes 16 n) @ PUTU32 (GETU32 (drop 12 (be_bytes 16 n)) + of_nat i))) [0..<b] =
      map (\<lambda>i. block (be_bytes 16 (n + i))) [0..<b]"
    by (simp only: low_counter_def counter_take)
  moreover have "length (be_bytes 16 n) = 16" by (rule length_be_bytes)
  ultimately show ?thesis using assms(1,2) unfolding ctr32_ok_def keystream_def by metis
qed

lemma ctr32_loop_value:
  assumes "ctr32_ok block func"
  shows "ctr32_loop func (be_bytes 16 n) (low_counter n) inp =
    (map2 (XOR) (take (length inp div 16 * 16) inp) (keystream block n (length inp div 16)),
     be_bytes 16 (n + length inp div 16), low_counter (n + length inp div 16),
     drop (length inp div 16 * 16) inp)"
proof (induction "length inp" arbitrary: inp n rule: less_induct)
  case less
  show ?case
  proof (cases "length inp \<ge> 16")
    case False
    then show ?thesis by (simp add: ctr32_loop.simps [of _ _ _ inp] keystream_def)
  next
    case True
    obtain b c where bc: "ctr32_blocks (low_counter n) (length inp) = (b, c)" by fastforce
    note v = ctr32_blocks_value [OF True bc]
    define y where "y = drop (b * 16) inp"
    define k where "k = length y div 16"
    have "length inp = length y + b * 16" using v by (simp add: y_def)
    then have kb: "length inp div 16 = b + k" by (simp add: k_def)
    have y: "ctr32_loop func (be_bytes 16 (n + b)) (low_counter (n + b)) y =
        (map2 (XOR) (take (k * 16) y) (keystream block (n + b) k),
         be_bytes 16 (n + b + k), low_counter (n + b + k), drop (k * 16) y)"
      unfolding k_def by (rule less) (use v True in \<open>auto simp: y_def\<close>)
    have c: "c = low_counter (n + b)" using v low_counter_eq by metis
    have "take (length inp div 16 * 16) inp = take (b * 16) inp @ take (k * 16) y"
      unfolding kb y_def by (simp add: add_mult_distrib take_add)
    moreover have "zip (take (b * 16) inp @ take (k * 16) y) (keystream block n b @ keystream block (n + b) k) =
        zip (take (b * 16) inp) (keystream block n b) @ zip (take (k * 16) y) (keystream block (n + b) k)"
      by (rule zip_append) (use v in simp)
    moreover have "drop (k * 16) y = drop (length inp div 16 * 16) inp"
      unfolding kb y_def by (simp add: add_mult_distrib add.commute)
    ultimately show ?thesis
      using True bc v func_keystream [OF assms, of b inp n] put_counter_value [of n b c] y
      by (simp add: ctr32_loop.simps [of _ _ _ inp] c y_def [symmetric] kb keystream_add add.assoc)
  qed
qed

end

text \<open>
  The state of the counter mode between calls: \<open>ecount_buf\<close> matters only while bytes of it are left.
\<close>

definition same_ctr :: "u8 list \<times> (u8 list \<times> u8 list) \<times> nat \<Rightarrow> u8 list \<times> (u8 list \<times> u8 list) \<times> nat \<Rightarrow> bool" where
  "same_ctr r1 r2 =
     (case r1 of (out1, (iv1, ec1), n1) \<Rightarrow>
      case r2 of (out2, (iv2, ec2), n2) \<Rightarrow>
        out1 = out2 \<and> iv1 = iv2 \<and> n1 = n2 \<and> (n1 \<noteq> 0 \<longrightarrow> ec1 = ec2))"

lemma map2_take_right: "map2 f xs (take (length xs) ys) = map2 f xs ys"
  by (rule nth_equalityI) simp_all

context block_cipher
begin

lemma ctr_encrypt_bytewise:
  "n < 16 \<Longrightarrow> ctr_ok s \<Longrightarrow> CRYPTO_ctr128_encrypt block s n inp = bytewise (ctr_refill block) ctr_step s n inp"
  unfolding CRYPTO_ctr128_encrypt_def by (rule ctr.e.three_loops_bytewise)

lemma func_zero:
  assumes "ctr32_ok block func"
  shows "func (replicate 16 0) 1 (be_bytes 16 n) = block (be_bytes 16 n)"
proof -
  have b: "length (block (be_bytes 16 n)) = 16" by (rule block_length) (rule length_be_bytes)
  have "func (replicate 16 0) 1 (be_bytes 16 n) = map2 (XOR) (replicate 16 0) (block (be_bytes 16 n))"
    using func_keystream [OF assms, of 1 "replicate 16 0" n] mod_less_divisor [of "2 ^ 32" n]
    by (simp add: keystream_def Suc_le_eq del: mod_less_divisor)
  also have "\<dots> = block (be_bytes 16 n)"
    by (rule nth_equalityI) (simp_all add: b)
  finally show ?thesis .
qed

lemma ctr32_same:
  assumes "ctr32_ok block func" "ctr_ok s" "n < 16"
  shows "same_ctr (CRYPTO_ctr128_encrypt block s n inp) (CRYPTO_ctr128_encrypt_ctr32 func s n inp)"
proof -
  obtain o1 st n1 r1 where "head_loop ctr_step s n inp = (o1, st, n1, r1)" by (metis prod_cases4)
  moreover obtain iv ec where "st = (iv, ec)" by fastforce
  ultimately have h: "head_loop ctr_step s n inp = (o1, (iv, ec), n1, r1)" by simp
  note head = ctr.e.head_bytes [OF assms(3) h]
  have ok: "length iv = 16" "length ec = 16" using head assms(2) by (auto simp: ctr_ok_def)
  define N where "N = be_val iv"
  have iv: "iv = be_bytes 16 N" using be_bytes_be_val [of iv] ok(1) by (simp add: N_def)
  let ?k = "length r1 div 16" and ?bytewise = "bytewise (ctr_refill block) ctr_step"
  let ?r2 = "drop (?k * 16) r1" and ?o2 = "map2 (XOR) (take (?k * 16) r1) (keystream block N ?k)"
  have loop: "ctr32_loop func iv (GETU32 (drop 12 iv)) r1 = (?o2, be_bytes 16 (N + ?k), low_counter (N + ?k), ?r2)"
    using ctr32_loop_value [OF assms(1), of N r1] by (simp only: iv counter_take low_counter_def)
  show ?thesis
  proof (cases "r1 = []")
    case True
    then show ?thesis
      using head loop ctr_encrypt_bytewise [OF assms(3,2), of inp]
      by (simp add: CRYPTO_ctr128_encrypt_ctr32_def h same_ctr_def keystream_def iv [symmetric])
  next
    case False
    then have n1: "n1 = 0" using head by simp
    have "length (take (?k * 16) r1) = 16 * ?k"
      using div_times_less_eq_dividend [of "length r1" 16] by (simp only: length_take min_absorb2)
    then obtain ec' where blocks: "length ec' = 16"
      "?bytewise (iv, ec) 0 (take (?k * 16) r1) = (?o2, (be_bytes 16 (N + ?k), ec'), 0)"
      using ctr_blocks [OF ok(2), of "take (?k * 16) r1" ?k N] by (auto simp: iv)
    have all: "?bytewise (iv, ec) 0 r1 =
        (case ?bytewise (be_bytes 16 (N + ?k), ec') 0 ?r2 of (o3, s, n) \<Rightarrow> (?o2 @ o3, s, n))"
      using bytewise_append [of "ctr_refill block" ctr_step "(iv, ec)" 0 "take (?k * 16) r1" ?r2] blocks by simp
    show ?thesis
    proof (cases "?r2 = []")
      case True
      then show ?thesis using head n1 all loop ctr_encrypt_bytewise [OF assms(3,2), of inp]
        by (simp add: CRYPTO_ctr128_encrypt_ctr32_def h same_ctr_def)
    next
      case False
      have short: "length ?r2 < 16" by (simp add: minus_div_mult_eq_mod)
      have "put_counter (be_bytes 16 (N + ?k)) (low_counter (N + ?k) + 1) = be_bytes 16 (N + ?k + 1)"
        by (rule put_counter_next)
      then have tail: "tail_loop ctr_step (put_counter (be_bytes 16 (N + ?k)) (low_counter (N + ?k) + 1),
          func (replicate 16 0) 1 (be_bytes 16 (N + ?k))) 0 ?r2 = ?bytewise (be_bytes 16 (N + ?k), ec') 0 ?r2"
        using ctr.e.tail_bytes_start [OF False short, of "(be_bytes 16 (N + ?k), ec')"]
        unfolding func_zero [OF assms(1)] \<open>put_counter _ _ = _\<close> by (simp add: ctr_refill_def ctr128_inc_be_bytes)
      show ?thesis using False head n1 all loop tail ctr_encrypt_bytewise [OF assms(3,2), of inp]
        by (simp add: CRYPTO_ctr128_encrypt_ctr32_def h same_ctr_def split_beta)
    qed
  qed
qed

lemma ctr_keystream:
  assumes "length iv = 16" "length ec = 16"
  shows "fst (CRYPTO_ctr128_encrypt block (iv, ec) 0 inp) =
    map2 (XOR) inp (keystream block (be_val iv) ((length inp + 15) div 16))"
proof -
  let ?k = "(length inp + 15) div 16" and ?bytewise = "bytewise (ctr_refill block) ctr_step (iv, ec) 0"
  let ?ks = "keystream block (be_val iv) ?k"
  define pad :: "u8 list" where "pad = replicate (16 * ?k - length inp) 0"
  have k: "length inp \<le> 16 * ?k" using div_mult_mod_eq [of "length inp + 15" 16] by linarith
  then have "length (inp @ pad) = 16 * ?k" by (simp add: pad_def)
  moreover have "be_bytes 16 (be_val iv) = iv" using be_bytes_be_val [of iv] assms(1) by simp
  ultimately have all: "fst (?bytewise (inp @ pad)) = map2 (XOR) (inp @ pad) ?ks"
    using ctr_blocks [OF assms(2), of "inp @ pad" ?k "be_val iv"] by auto
  have "take (length inp) (fst (?bytewise (inp @ pad))) = fst (?bytewise inp)"
    using bytewise_length [of "ctr_refill block" ctr_step "(iv, ec)" 0 inp]
    by (simp add: bytewise_append split_beta)
  then have "fst (?bytewise inp) = map2 (XOR) inp (take (length inp) ?ks)"
    unfolding all by (simp add: take_map take_zip)
  then show ?thesis using ctr_encrypt_bytewise [of 0 "(iv, ec)" inp] assms k
    by (simp add: ctr_ok_def map2_take_right)
qed

end

section \<open>Messages in pieces\<close>

fun crypt_chunks :: "('s \<Rightarrow> nat \<Rightarrow> u8 list \<Rightarrow> u8 list \<times> 's \<times> nat) \<Rightarrow> 's \<Rightarrow> nat \<Rightarrow> u8 list list \<Rightarrow> u8 list" where
  "crypt_chunks f s n [] = []"
| "crypt_chunks f s n (c # cs) = (case f s n c of (out, s, n) \<Rightarrow> out @ crypt_chunks f s n cs)"

context stream_mode
begin

lemma chunks_bytewise:
  "n < 16 \<Longrightarrow> ok s \<Longrightarrow>
   crypt_chunks (three_loops refill step whole) s n chunks = fst (bytewise refill step s n (concat chunks))"
proof (induction chunks arbitrary: s n)
  case (Cons c cs)
  obtain out s' n' where b: "bytewise refill step s n c = (out, s', n')" by (metis prod_cases3)
  have "n' < 16" using bytewise_n [OF Cons.prems(1), of refill step s c] b by simp
  moreover have "ok s'" using ok_bytewise [OF Cons.prems(2), of n c] b by simp
  ultimately show ?case
    using Cons b three_loops_bytewise [OF Cons.prems] by (simp add: bytewise_append split_beta)
qed simp

end

context mode_pair
begin

lemma chunks_undo:
  assumes "n < 16" "ok s" "concat texts = crypt_chunks (three_loops refill step_e whole_e) s n chunks"
  shows "crypt_chunks (three_loops refill step_d whole_d) s n texts = concat chunks"
proof -
  obtain out s' n' where b: "bytewise refill step_e s n (concat chunks) = (out, s', n')" by (metis prod_cases3)
  then have "concat texts = out" using assms(3) e.chunks_bytewise [OF assms(1,2)] by simp
  then show ?thesis using bytewise_undo [OF b] d.chunks_bytewise [OF assms(1,2), of texts] by simp
qed

end

context block_cipher
begin

lemmas ofb_undo = ofb.chunks_undo
lemmas cfb_undo = cfb.chunks_undo
lemmas ctr_undo = ctr.chunks_undo

end

lemma block_cipherI: "block_ok block \<Longrightarrow> block_cipher block"
  by unfold_locales (simp add: block_ok_def)

lemma cfb8_step:
  assumes "length iv = 16" "length (block iv) = 16"
  shows "cfbr_encrypt_block block True [b] 8 iv = ([b XOR block iv ! 0], drop 1 iv @ [b XOR block iv ! 0])"
    "cfbr_encrypt_block block False [b] 8 iv = ([b XOR block iv ! 0], drop 1 iv @ [b])"
  using assms by (simp_all add: cfbr_encrypt_block_def Let_def)

lemma cfb8_undo:
  "block_ok block \<Longrightarrow> length iv = 16 \<Longrightarrow>
   CRYPTO_cfb128_8_encrypt block False (fst (CRYPTO_cfb128_8_encrypt block True inp iv)) iv =
     (inp, snd (CRYPTO_cfb128_8_encrypt block True inp iv))"
proof (induction inp arbitrary: iv)
  case (Cons b inp)
  have b: "length (block iv) = 16" using Cons.prems by (simp add: block_ok_def)
  let ?c = "b XOR block iv ! 0"
  have "?c XOR block iv ! 0 = b" by (simp add: xor.assoc)
  moreover have "length (drop 1 iv @ [?c]) = 16" using Cons.prems by simp
  ultimately show ?case using Cons.IH [of "drop 1 iv @ [?c]"] Cons.prems b
    by (simp add: cfb8_step split_beta)
qed simp

text \<open>A message given to the 8-bit mode in several calls, each going on with the state of the last.\<close>

fun cfb8_chunks :: "block_fun \<Rightarrow> bool \<Rightarrow> u8 list \<Rightarrow> u8 list list \<Rightarrow> u8 list" where
  "cfb8_chunks block enc ivec [] = []"
| "cfb8_chunks block enc ivec (c # cs) =
     (let (out, ivec) = CRYPTO_cfb128_8_encrypt block enc c ivec in out @ cfb8_chunks block enc ivec cs)"

lemma cfb8_append:
  "CRYPTO_cfb128_8_encrypt block enc (xs @ ys) iv =
     (let (out1, iv1) = CRYPTO_cfb128_8_encrypt block enc xs iv;
          (out2, iv2) = CRYPTO_cfb128_8_encrypt block enc ys iv1
      in (out1 @ out2, iv2))"
  by (induction xs arbitrary: iv) (simp_all add: split_beta)

lemma cfb8_chunks_whole:
  "cfb8_chunks block enc iv chunks = fst (CRYPTO_cfb128_8_encrypt block enc (concat chunks) iv)"
  by (induction chunks arbitrary: iv) (simp_all add: cfb8_append split_beta)

section \<open>Properties\<close>

text \<open>
  C33. For every block cipher, a message encrypted in OFB, CFB, CTR or 8-bit CFB mode is recovered by
  decrypting the ciphertext, however the message is split into calls of the encryption and the
  ciphertext into calls of the decryption, and, in the first three, wherever in a block the first call
  begins. In 8-bit CFB mode the two directions also leave the same state behind.
\<close>

theorem stream_modes_roundtrip:
  assumes "block_ok block" "length iv = 16" "length ec = 16" "n < 16"
  shows "(concat ofb = crypt_chunks (CRYPTO_ofb128_encrypt block) iv n chunks \<longrightarrow>
      crypt_chunks (CRYPTO_ofb128_encrypt block) iv n ofb = concat chunks) \<and>
    (concat cfb = crypt_chunks (CRYPTO_cfb128_encrypt block True) iv n chunks \<longrightarrow>
      crypt_chunks (CRYPTO_cfb128_encrypt block False) iv n cfb = concat chunks) \<and>
    (concat ctr = crypt_chunks (CRYPTO_ctr128_encrypt block) (iv, ec) n chunks \<longrightarrow>
      crypt_chunks (CRYPTO_ctr128_encrypt block) (iv, ec) n ctr = concat chunks) \<and>
    (concat cfb8 = cfb8_chunks block True iv chunks \<longrightarrow>
      cfb8_chunks block False iv cfb8 = concat chunks) \<and>
    CRYPTO_cfb128_8_encrypt block False (fst (CRYPTO_cfb128_8_encrypt block True inp iv)) iv =
      (inp, snd (CRYPTO_cfb128_8_encrypt block True inp iv))"
proof -
  note c = block_cipherI [OF assms(1)]
  have ofb: "CRYPTO_ofb128_encrypt block = three_loops block ofb_step (ofb_whole block)"
    and ctr: "CRYPTO_ctr128_encrypt block = three_loops (ctr_refill block) ctr_step (ctr_whole block)"
    and cfb: "CRYPTO_cfb128_encrypt block True = three_loops block cfb_encrypt_step (cfb_encrypt_whole block)"
      "CRYPTO_cfb128_encrypt block False = three_loops block cfb_decrypt_step (cfb_decrypt_whole block)"
    by (simp_all add: fun_eq_iff CRYPTO_ofb128_encrypt_def CRYPTO_ctr128_encrypt_def CRYPTO_cfb128_encrypt_def)
  have ok: "iv_ok iv" "ctr_ok (iv, ec)" using assms by (simp_all add: iv_ok_def ctr_ok_def)
  show ?thesis
    unfolding ofb ctr cfb
    using block_cipher.ofb_undo [OF c assms(4) ok(1)] block_cipher.cfb_undo [OF c assms(4) ok(1)]
      block_cipher.ctr_undo [OF c assms(4) ok(2)] cfb8_undo [OF assms(1,2)]
    by (simp add: cfb8_chunks_whole)
qed

definition toy_block :: block_fun where
  "toy_block xs = rev (map (\<lambda>x. 3 * x + 7) xs)"

definition toy_ctr32 :: ctr128_fun where
  "toy_ctr32 inp blocks iv = map2 (XOR) (take (blocks * 16) inp)
     (concat (map (\<lambda>i. toy_block (take 12 iv @ PUTU32 (GETU32 (drop 12 iv) + of_nat i))) [0..<blocks]))"

lemma toy_block_ok: "block_ok toy_block"
  by (simp add: block_ok_def toy_block_def)

lemma toy_ctr32_ok: "ctr32_ok toy_block toy_ctr32"
  by (simp add: ctr32_ok_def toy_ctr32_def)

lemma stream_modes_roundtrip_witness:
  "crypt_chunks (CRYPTO_cfb128_encrypt toy_block True) (replicate 16 1) 15 [[1, 2], [], [3]] = [0, 5, 9] \<and>
   crypt_chunks (CRYPTO_cfb128_encrypt toy_block False) (replicate 16 1) 15 [[0], [5, 9]] = [1, 2, 3] \<and>
   crypt_chunks (CRYPTO_ofb128_encrypt toy_block) (replicate 16 1) 15
     [crypt_chunks (CRYPTO_ofb128_encrypt toy_block) (replicate 16 1) 15 [[1, 2], [], [3]]] = [1, 2, 3] \<and>
   crypt_chunks (CRYPTO_ctr128_encrypt toy_block) (replicate 16 1, replicate 16 0) 15
     [crypt_chunks (CRYPTO_ctr128_encrypt toy_block) (replicate 16 1, replicate 16 0) 15 [[1, 2], [], [3]]] = [1, 2, 3] \<and>
   cfb8_chunks toy_block True (replicate 16 1) [[1, 2], [], [3]] = [11, 42, 134] \<and>
   cfb8_chunks toy_block False (replicate 16 1) [[11], [42, 134]] = [1, 2, 3]"
proof -
  have cfb: "crypt_chunks (CRYPTO_cfb128_encrypt toy_block True) (replicate 16 1) 15 [[1, 2], [], [3]] = [0, 5, 9]"
    by code_simp
  have cfb8: "cfb8_chunks toy_block True (replicate 16 1) [[1, 2], [], [3]] = [11, 42, 134]"
    by code_simp
  note r = stream_modes_roundtrip [OF toy_block_ok, of "replicate 16 1" "replicate 16 0" 15 _ "[[1, 2], [], [3]]"]
  let ?ofb = "[crypt_chunks (CRYPTO_ofb128_encrypt toy_block) (replicate 16 1) 15 [[1, 2], [], [3]]]"
  let ?ctr = "[crypt_chunks (CRYPTO_ctr128_encrypt toy_block) (replicate 16 1, replicate 16 0) 15 [[1, 2], [], [3]]]"
  from r [of ?ofb "[[0], [5, 9]]" ?ctr "[[11], [42, 134]]"] show ?thesis using cfb cfb8
    by (simp del: crypt_chunks.simps cfb8_chunks.simps CRYPTO_cfb128_8_encrypt.simps)
qed

text \<open>
  C34. The counter mode is the message XORed with the cipher's output on the successive 128-bit
  big-endian counters from the initial vector on, wrapping at 128 bits. The version over a function
  that counts in 32 bits only gives the same bytes and leaves the same state, across the points where
  the 32-bit counter wraps.
\<close>

theorem ctr_is_counter_mode:
  assumes "block_ok block" "length iv = 16" "length ec = 16" "n < 16" "ctr32_ok block func"
  shows "fst (CRYPTO_ctr128_encrypt block (iv, ec) 0 inp) =
      map2 (XOR) inp (keystream block (be_val iv) ((length inp + 15) div 16)) \<and>
    same_ctr (CRYPTO_ctr128_encrypt block (iv, ec) n inp) (CRYPTO_ctr128_encrypt_ctr32 func (iv, ec) n inp)"
  using block_cipher.ctr_keystream [OF block_cipherI [OF assms(1)] assms(2,3)]
    block_cipher.ctr32_same [OF block_cipherI [OF assms(1)] assms(5) _ assms(4), of "(iv, ec)"] assms(2,3)
  by (simp add: ctr_ok_def)

lemma ctr_is_counter_mode_witness:
  "fst (CRYPTO_ctr128_encrypt toy_block (replicate 16 255, replicate 16 0) 0 [1, 2]) =
     map2 (XOR) [1, 2] (keystream toy_block (be_val (replicate 16 255)) 1) \<and>
   fst (CRYPTO_ctr128_encrypt toy_block (replicate 16 255, replicate 16 0) 15 [1, 2, 3]) = [1, 6, 7] \<and>
   same_ctr ([1, 6, 7], (replicate 16 0, replicate 16 4), 2)
     (CRYPTO_ctr128_encrypt_ctr32 toy_ctr32 (replicate 16 255, replicate 16 0) 15 [1, 2, 3])"
proof -
  have plain: "CRYPTO_ctr128_encrypt toy_block (replicate 16 255, replicate 16 0) 15 [1, 2, 3] =
      ([1, 6, 7], (replicate 16 0, replicate 16 4), 2)"
    by code_simp
  note r = ctr_is_counter_mode [OF toy_block_ok, of "replicate 16 255" "replicate 16 0" 15 toy_ctr32, OF _ _ _ toy_ctr32_ok]
  from r [of "[1, 2]"] r [of "[1, 2, 3]"] show ?thesis using plain by simp
qed

end
