(* ===== verification/Bn.thy ===== *)
theory Bn
  imports Mem ConstTime
begin

text \<open>
  BoringSSL \<open>crypto/fipsmodule/bn\<close>: big numbers as arrays of 64-bit words, least significant first
  (\<open>bn.c\<close>, \<open>cmp.c\<close>, \<open>add.c\<close>, and of \<open>generic.c\<close> the loops over words, in the version with a 128-bit
  \<open>BN_ULLONG\<close>). An operation takes its arguments by value and the old result object, and gives the new
  one; every word is written only after the words of the arguments at its position were read, so the
  result may be one of the arguments. An \<open>int\<close> that counts words is a \<open>nat\<close>: it is at most \<open>dmax\<close>.
  What stands in freshly allocated words, and whether there are any, is the parameter \<open>malloc\<close>.
\<close>

unbundle bit_operations_syntax

type_synonym u128 = "128 word"

type_synonym bn_malloc = "u64 \<Rightarrow> u64 list option"

record bignum =
  bn_d :: "u64 list"
  bn_width :: nat
  bn_dmax :: nat
  bn_neg :: bool
  bn_static :: bool

section \<open>Memory\<close>

definition bn_alloc :: "bn_malloc \<Rightarrow> u64 \<Rightarrow> u64 list option" where
  "bn_alloc malloc sz =
     (case malloc (sz + OPENSSL_MALLOC_PREFIX) of
        None \<Rightarrow> None
      | Some ptr \<Rightarrow> Some (drop 1 ptr))"

definition BN_init :: bignum where
  "BN_init = \<lparr>bn_d = [], bn_width = 0, bn_dmax = 0, bn_neg = False, bn_static = False\<rparr>"

definition put_words :: "u64 list \<Rightarrow> nat \<Rightarrow> u64 list \<Rightarrow> u64 list" where
  "put_words d i ws = take i d @ ws @ drop (i + length ws) d"

definition bn_wexpand :: "bn_malloc \<Rightarrow> bignum \<Rightarrow> nat \<Rightarrow> bool \<times> bignum" where
  "bn_wexpand malloc bn words =
     (if words \<le> bn_dmax bn then (True, bn)
      else if words > INT_MAX div (4 * 64) then (False, bn)
      else if bn_static bn then (False, bn)
      else
        (case bn_alloc malloc (8 * of_nat words) of
           None \<Rightarrow> (False, bn)
         | Some a \<Rightarrow>
             (True, bn\<lparr>bn_d := put_words a 0 (take (bn_width bn) (bn_d bn)), bn_dmax := words\<rparr>)))"

definition bn_expand :: "bn_malloc \<Rightarrow> bignum \<Rightarrow> u64 \<Rightarrow> bool \<times> bignum" where
  "bn_expand malloc bn bits =
     (if bits + 64 - 1 < bits then (False, bn)
      else bn_wexpand malloc bn (unat ((bits + 64 - 1) div 64)))"

definition BN_copy :: "bn_malloc \<Rightarrow> bignum \<Rightarrow> bignum \<Rightarrow> bool \<times> bignum" where
  "BN_copy malloc dest src =
     (case bn_wexpand malloc dest (bn_width src) of
        (False, dest) \<Rightarrow> (False, dest)
      | (True, dest) \<Rightarrow>
          (True, dest\<lparr>bn_d := put_words (bn_d dest) 0 (take (bn_width src) (bn_d src)),
                      bn_width := bn_width src, bn_neg := bn_neg src\<rparr>))"

definition BN_zero :: "bignum \<Rightarrow> bignum" where
  "BN_zero bn = bn\<lparr>bn_width := 0, bn_neg := False\<rparr>"

definition BN_clear :: "bignum \<Rightarrow> bignum" where
  "BN_clear bn = bn\<lparr>bn_d := replicate (bn_dmax bn) 0, bn_width := 0, bn_neg := False\<rparr>"

definition BN_set_word :: "bn_malloc \<Rightarrow> bignum \<Rightarrow> u64 \<Rightarrow> bool \<times> bignum" where
  "BN_set_word malloc bn value =
     (if value = 0 then (True, BN_zero bn)
      else
        (case bn_wexpand malloc bn 1 of
           (False, bn) \<Rightarrow> (False, bn)
         | (True, bn) \<Rightarrow> (True, bn\<lparr>bn_neg := False, bn_d := (bn_d bn)[0 := value], bn_width := 1\<rparr>)))"

definition BN_one :: "bn_malloc \<Rightarrow> bignum \<Rightarrow> bool \<times> bignum" where
  "BN_one malloc bn = BN_set_word malloc bn 1"

definition bn_set_words :: "bn_malloc \<Rightarrow> bignum \<Rightarrow> u64 list \<Rightarrow> bool \<times> bignum" where
  "bn_set_words malloc bn words =
     (case bn_wexpand malloc bn (length words) of
        (False, bn) \<Rightarrow> (False, bn)
      | (True, bn) \<Rightarrow>
          (True, bn\<lparr>bn_d := put_words (bn_d bn) 0 words, bn_width := length words, bn_neg := False\<rparr>))"

definition or_words :: "u64 list \<Rightarrow> nat \<Rightarrow> nat \<Rightarrow> u64" where
  "or_words d i n = foldl (\<lambda>acc i. acc OR d ! i) 0 [i..<n]"

definition bn_fits_in_words :: "bignum \<Rightarrow> nat \<Rightarrow> bool" where
  "bn_fits_in_words bn num \<longleftrightarrow> or_words (bn_d bn) num (bn_width bn) = 0"

definition bn_copy_words :: "nat \<Rightarrow> bignum \<Rightarrow> u64 list option" where
  "bn_copy_words num bn =
     (if bn_neg bn then None
      else
        let width = bn_width bn
        in if width > num \<and> \<not> bn_fits_in_words bn num then None
           else
             let width = (if width > num then num else width)
             in Some (put_words (replicate num 0) 0 (take width (bn_d bn))))"

definition BN_is_zero :: "bignum \<Rightarrow> bool" where
  "BN_is_zero bn = bn_fits_in_words bn 0"

definition BN_is_negative :: "bignum \<Rightarrow> bool" where
  "BN_is_negative bn = bn_neg bn"

definition BN_set_negative :: "bignum \<Rightarrow> bool \<Rightarrow> bignum" where
  "BN_set_negative bn sign = bn\<lparr>bn_neg := (sign \<and> \<not> BN_is_zero bn)\<rparr>"

definition bn_resize_words :: "bn_malloc \<Rightarrow> bignum \<Rightarrow> nat \<Rightarrow> bool \<times> bignum" where
  "bn_resize_words malloc bn words =
     (if bn_width bn \<le> words then
        (case bn_wexpand malloc bn words of
           (False, bn) \<Rightarrow> (False, bn)
         | (True, bn) \<Rightarrow>
             (True, bn\<lparr>bn_d := put_words (bn_d bn) (bn_width bn) (replicate (words - bn_width bn) 0),
                       bn_width := words\<rparr>))
      else if \<not> bn_fits_in_words bn words then (False, bn)
      else (True, bn\<lparr>bn_width := words\<rparr>))"

definition bn_select_words :: "u64 \<Rightarrow> u64 list \<Rightarrow> u64 list \<Rightarrow> nat \<Rightarrow> u64 list" where
  "bn_select_words msk a b num = map (\<lambda>i. constant_time_select_w msk (a ! i) (b ! i)) [0..<num]"

fun minimal_width :: "u64 list \<Rightarrow> nat \<Rightarrow> nat" where
  "minimal_width d 0 = 0"
| "minimal_width d (Suc ret) = (if d ! ret = 0 then minimal_width d ret else Suc ret)"

definition bn_minimal_width :: "bignum \<Rightarrow> nat" where
  "bn_minimal_width bn = minimal_width (bn_d bn) (bn_width bn)"

definition bn_set_minimal_width :: "bignum \<Rightarrow> bignum" where
  "bn_set_minimal_width bn =
     (let bn = bn\<lparr>bn_width := bn_minimal_width bn\<rparr>
      in if bn_width bn = 0 then bn\<lparr>bn_neg := False\<rparr> else bn)"

definition BN_get_word :: "bignum \<Rightarrow> u64" where
  "BN_get_word bn =
     (case bn_minimal_width bn of
        0 \<Rightarrow> 0
      | Suc 0 \<Rightarrow> bn_d bn ! 0
      | _ \<Rightarrow> 0xffffffffffffffff)"

definition BN_get_u64 :: "bignum \<Rightarrow> u64 option" where
  "BN_get_u64 bn =
     (case bn_minimal_width bn of
        0 \<Rightarrow> Some 0
      | Suc 0 \<Rightarrow> Some (bn_d bn ! 0)
      | _ \<Rightarrow> None)"

section \<open>Loops over words\<close>

text \<open>
  The loops of \<open>generic.c\<close> take four words at a time while there are four, then one at a time.
  \<open>step\<close> gives the word of the result and the next carry.
\<close>

fun one_word_loop :: "('c \<Rightarrow> u64 \<Rightarrow> u64 \<Rightarrow> u64 \<times> 'c) \<Rightarrow> 'c \<Rightarrow> u64 list \<Rightarrow> u64 list \<Rightarrow> nat \<Rightarrow> u64 list \<times> 'c" where
  "one_word_loop step c a b 0 = ([], c)"
| "one_word_loop step c a b (Suc n) =
     (let (r0, c) = step c (a ! 0) (b ! 0);
          (r, c) = one_word_loop step c (drop 1 a) (drop 1 b) n
      in (r0 # r, c))"

function words_loop :: "('c \<Rightarrow> u64 \<Rightarrow> u64 \<Rightarrow> u64 \<times> 'c) \<Rightarrow> 'c \<Rightarrow> u64 list \<Rightarrow> u64 list \<Rightarrow> nat \<Rightarrow> u64 list \<times> 'c" where
  "words_loop step c a b n =
     (if n \<ge> 4 then
        (let (r0, c) = step c (a ! 0) (b ! 0);
             (r1, c) = step c (a ! 1) (b ! 1);
             (r2, c) = step c (a ! 2) (b ! 2);
             (r3, c) = step c (a ! 3) (b ! 3);
             (r, c) = words_loop step c (drop 4 a) (drop 4 b) (n - 4)
         in (r0 # r1 # r2 # r3 # r, c))
      else one_word_loop step c a b n)"
  by pat_completeness auto
termination by (relation "measure (\<lambda>(step, c, a, b, n). n)") auto

declare words_loop.simps [simp del]

definition add_step :: "u128 \<Rightarrow> u64 \<Rightarrow> u64 \<Rightarrow> u64 \<times> u128" where
  "add_step ll a b = (let ll = ll + (ucast a + ucast b) in (ucast ll, drop_bit 64 ll))"

definition bn_add_words :: "u64 list \<Rightarrow> u64 list \<Rightarrow> nat \<Rightarrow> u64 list \<times> u64" where
  "bn_add_words a b n =
     (if n = 0 then ([], 0) else let (r, ll) = words_loop add_step 0 a b n in (r, ucast ll))"

definition sub_step :: "u64 \<Rightarrow> u64 \<Rightarrow> u64 \<Rightarrow> u64 \<times> u64" where
  "sub_step c t1 t2 = (t1 - t2 - c, if t1 \<noteq> t2 then (if t1 < t2 then 1 else 0) else c)"

definition bn_sub_words :: "u64 list \<Rightarrow> u64 list \<Rightarrow> nat \<Rightarrow> u64 list \<times> u64" where
  "bn_sub_words a b n = (if n = 0 then ([], 0) else words_loop sub_step 0 a b n)"

definition mul_add_step :: "u64 \<Rightarrow> u64 \<Rightarrow> u64 \<Rightarrow> u64 \<Rightarrow> u64 \<times> u64" where
  "mul_add_step w c r a =
     (let t = ucast w * ucast a + ucast r + ucast c :: u128 in (ucast t, ucast (drop_bit 64 t)))"

definition bn_mul_add_words :: "u64 list \<Rightarrow> u64 list \<Rightarrow> nat \<Rightarrow> u64 \<Rightarrow> u64 list \<times> u64" where
  "bn_mul_add_words rp ap num w = (if num = 0 then ([], 0) else words_loop (mul_add_step w) 0 rp ap num)"

definition mul_step :: "u64 \<Rightarrow> u64 \<Rightarrow> u64 \<Rightarrow> u64 \<Rightarrow> u64 \<times> u64" where
  "mul_step w c a _ = (let t = ucast w * ucast a + ucast c :: u128 in (ucast t, ucast (drop_bit 64 t)))"

definition bn_mul_words :: "u64 list \<Rightarrow> nat \<Rightarrow> u64 \<Rightarrow> u64 list \<times> u64" where
  "bn_mul_words ap num w = (if num = 0 then ([], 0) else words_loop (mul_step w) 0 ap ap num)"

section \<open>Comparison\<close>

definition cmp_step :: "u64 list \<Rightarrow> u64 list \<Rightarrow> u32 \<Rightarrow> nat \<Rightarrow> u32" where
  "cmp_step a b ret i =
     (let eq = constant_time_eq_w (a ! i) (b ! i);
          lt = constant_time_lt_w (a ! i) (b ! i)
      in constant_time_select_int eq ret (constant_time_select_int lt (- 1) 1))"

definition bn_cmp_words_consttime :: "u64 list \<Rightarrow> nat \<Rightarrow> u64 list \<Rightarrow> nat \<Rightarrow> u32" where
  "bn_cmp_words_consttime a a_len b b_len =
     (let min_len = (if a_len < b_len then a_len else b_len);
          ret = foldl (cmp_step a b) 0 [0..<min_len]
      in if a_len < b_len then
           constant_time_select_int (constant_time_is_zero_w (or_words b a_len b_len)) ret (- 1)
         else if b_len < a_len then
           constant_time_select_int (constant_time_is_zero_w (or_words a b_len a_len)) ret 1
         else ret)"

definition BN_ucmp :: "bignum \<Rightarrow> bignum \<Rightarrow> u32" where
  "BN_ucmp a b = bn_cmp_words_consttime (bn_d a) (bn_width a) (bn_d b) (bn_width b)"

definition BN_cmp :: "bignum option \<Rightarrow> bignum option \<Rightarrow> u32" where
  "BN_cmp a b =
     (case (a, b) of
        (None, None) \<Rightarrow> 0
      | (Some a, None) \<Rightarrow> - 1
      | (None, Some b) \<Rightarrow> 1
      | (Some a, Some b) \<Rightarrow>
          if bn_neg a \<noteq> bn_neg b then (if bn_neg a then - 1 else 1)
          else let ret = BN_ucmp a b in if bn_neg a then - ret else ret)"

definition bn_less_than_words :: "u64 list \<Rightarrow> u64 list \<Rightarrow> nat \<Rightarrow> bool" where
  "bn_less_than_words a b len = (sint (bn_cmp_words_consttime a len b len) < 0)"

definition BN_abs_is_word :: "bignum \<Rightarrow> u64 \<Rightarrow> bool" where
  "BN_abs_is_word bn w =
     (if bn_width bn = 0 then w = 0
      else foldl (\<lambda>acc i. acc OR bn_d bn ! i) (bn_d bn ! 0 XOR w) [1..<bn_width bn] = 0)"

definition BN_cmp_word :: "bignum \<Rightarrow> u64 \<Rightarrow> u32" where
  "BN_cmp_word a b =
     BN_cmp (Some a)
       (Some (BN_init\<lparr>bn_d := [b], bn_width := (if b > 0 then 1 else 0), bn_dmax := 1, bn_static := True\<rparr>))"

definition BN_is_one :: "bignum \<Rightarrow> bool" where
  "BN_is_one bn \<longleftrightarrow> \<not> bn_neg bn \<and> BN_abs_is_word bn 1"

definition BN_is_word :: "bignum \<Rightarrow> u64 \<Rightarrow> bool" where
  "BN_is_word bn w \<longleftrightarrow> BN_abs_is_word bn w \<and> (w = 0 \<or> \<not> bn_neg bn)"

definition BN_is_odd :: "bignum \<Rightarrow> bool" where
  "BN_is_odd bn \<longleftrightarrow> bn_width bn > 0 \<and> (bn_d bn ! 0) AND 1 = 1"

definition BN_is_pow2 :: "bignum \<Rightarrow> bool" where
  "BN_is_pow2 bn =
     (let width = bn_minimal_width bn
      in if width = 0 \<or> bn_neg bn then False
         else if list_ex (\<lambda>i. bn_d bn ! i \<noteq> 0) [0..<width - 1] then False
         else (bn_d bn ! (width - 1)) AND (bn_d bn ! (width - 1) - 1) = 0)"

definition BN_equal_consttime :: "bignum \<Rightarrow> bignum \<Rightarrow> bool" where
  "BN_equal_consttime a b =
     (let acc = foldl (\<lambda>acc i. acc OR bn_d b ! i) 0 [bn_width a..<bn_width b];
          acc = foldl (\<lambda>acc i. acc OR bn_d a ! i) acc [bn_width b..<bn_width a];
          min_width = (if bn_width a < bn_width b then bn_width a else bn_width b);
          acc = foldl (\<lambda>acc i. acc OR (bn_d a ! i XOR bn_d b ! i)) acc [0..<min_width];
          acc = acc OR (of_bool (bn_neg a) XOR of_bool (bn_neg b))
      in acc = 0)"

section \<open>Addition and subtraction\<close>

text \<open>The loops over the words that only the longer argument has, from \<open>i\<close> on.\<close>

fun carry_loop :: "u64 \<Rightarrow> u64 list \<Rightarrow> u64 list \<times> u64" where
  "carry_loop carry [] = ([], carry)"
| "carry_loop carry (a # as) =
     (let tmp = carry + a;
          (r, carry) = carry_loop (if tmp < a then 1 else 0) as
      in (tmp # r, carry))"

fun borrow_loop :: "u64 \<Rightarrow> u64 list \<Rightarrow> u64 list \<times> u64" where
  "borrow_loop borrow [] = ([], borrow)"
| "borrow_loop borrow (a # as) =
     (let r0 = a - borrow;
          (r, borrow) = borrow_loop (if a < r0 then 1 else 0) as
      in (r0 # r, borrow))"

definition bn_uadd_consttime :: "bn_malloc \<Rightarrow> bignum \<Rightarrow> bignum \<Rightarrow> bignum \<Rightarrow> bool \<times> bignum" where
  "bn_uadd_consttime malloc r a b =
     (let (a, b) = (if bn_width a < bn_width b then (b, a) else (a, b));
          max_width = bn_width a;
          min_width = bn_width b
      in (case bn_wexpand malloc r (max_width + 1) of
            (False, r) \<Rightarrow> (False, r)
          | (True, r) \<Rightarrow>
              let (low, carry) = bn_add_words (bn_d a) (bn_d b) min_width;
                  (high, carry) = carry_loop carry (drop min_width (take max_width (bn_d a)))
              in (True, r\<lparr>bn_d := put_words (bn_d r) 0 (low @ high @ [carry]), bn_width := max_width + 1\<rparr>)))"

definition BN_uadd :: "bn_malloc \<Rightarrow> bignum \<Rightarrow> bignum \<Rightarrow> bignum \<Rightarrow> bool \<times> bignum" where
  "BN_uadd malloc r a b =
     (case bn_uadd_consttime malloc r a b of
        (False, r) \<Rightarrow> (False, r)
      | (True, r) \<Rightarrow> (True, bn_set_minimal_width r))"

definition bn_usub_consttime :: "bn_malloc \<Rightarrow> bignum \<Rightarrow> bignum \<Rightarrow> bignum \<Rightarrow> bool \<times> bignum" where
  "bn_usub_consttime malloc r a b =
     (if bn_width b > bn_width a \<and> \<not> bn_fits_in_words b (bn_width a) then (False, r)
      else
        let b_width = (if bn_width b > bn_width a then bn_width a else bn_width b)
        in (case bn_wexpand malloc r (bn_width a) of
              (False, r) \<Rightarrow> (False, r)
            | (True, r) \<Rightarrow>
                let (low, borrow) = bn_sub_words (bn_d a) (bn_d b) b_width;
                    (high, borrow) = borrow_loop borrow (drop b_width (take (bn_width a) (bn_d a)));
                    r = r\<lparr>bn_d := put_words (bn_d r) 0 (low @ high)\<rparr>
                in if borrow \<noteq> 0 then (False, r)
                   else (True, r\<lparr>bn_width := bn_width a, bn_neg := False\<rparr>)))"

definition BN_usub :: "bn_malloc \<Rightarrow> bignum \<Rightarrow> bignum \<Rightarrow> bignum \<Rightarrow> bool \<times> bignum" where
  "BN_usub malloc r a b =
     (case bn_usub_consttime malloc r a b of
        (False, r) \<Rightarrow> (False, r)
      | (True, r) \<Rightarrow> (True, bn_set_minimal_width r))"

text \<open>The branch that \<open>BN_add\<close> and \<open>BN_sub\<close> share: \<open>a - b\<close> for numbers without sign.\<close>

definition signed_sub :: "bn_malloc \<Rightarrow> bignum \<Rightarrow> bignum \<Rightarrow> bignum \<Rightarrow> bool \<times> bignum" where
  "signed_sub malloc r a b =
     (if sint (BN_ucmp a b) < 0 then
        (case BN_usub malloc r b a of (False, r) \<Rightarrow> (False, r) | (True, r) \<Rightarrow> (True, r\<lparr>bn_neg := True\<rparr>))
      else
        (case BN_usub malloc r a b of (False, r) \<Rightarrow> (False, r) | (True, r) \<Rightarrow> (True, r\<lparr>bn_neg := False\<rparr>)))"

definition BN_add :: "bn_malloc \<Rightarrow> bignum \<Rightarrow> bignum \<Rightarrow> bignum \<Rightarrow> bool \<times> bignum" where
  "BN_add malloc r a b =
     (let a_neg = bn_neg a
      in if a_neg \<noteq> bn_neg b then
           let (a, b) = (if a_neg then (b, a) else (a, b)) in signed_sub malloc r a b
         else
           (case BN_uadd malloc r a b of (ret, r) \<Rightarrow> (ret, r\<lparr>bn_neg := a_neg\<rparr>)))"

definition BN_sub :: "bn_malloc \<Rightarrow> bignum \<Rightarrow> bignum \<Rightarrow> bignum \<Rightarrow> bool \<times> bignum" where
  "BN_sub malloc r a b =
     (let (a, b, add, neg) =
        (if bn_neg a then (if bn_neg b then (b, a, False, False) else (a, b, True, True))
         else if bn_neg b then (a, b, True, False) else (a, b, False, False))
      in if add then
           (case BN_uadd malloc r a b of
              (False, r) \<Rightarrow> (False, r)
            | (True, r) \<Rightarrow> (True, r\<lparr>bn_neg := neg\<rparr>))
         else signed_sub malloc r a b)"

text \<open>The loop of \<open>BN_add_word\<close>: the words, what is left of \<open>w\<close>, and the position.\<close>

function add_word_loop :: "u64 list \<Rightarrow> u64 \<Rightarrow> nat \<Rightarrow> nat \<Rightarrow> u64 list \<times> u64 \<times> nat" where
  "add_word_loop d w i width =
     (if w \<noteq> 0 \<and> i < width then
        let l = d ! i + w
        in add_word_loop (d[i := l]) (if w > l then 1 else 0) (i + 1) width
      else (d, w, i))"
  by pat_completeness auto
termination by (relation "measure (\<lambda>(d, w, i, width). width - i)") auto

declare add_word_loop.simps [simp del]

text \<open>The loop of \<open>BN_sub_word\<close>, which has no bound of its own: \<open>None\<close> is a step past the number.\<close>

function sub_word_loop :: "u64 list \<Rightarrow> u64 \<Rightarrow> nat \<Rightarrow> nat \<Rightarrow> (u64 list \<times> nat) option" where
  "sub_word_loop d w i width =
     (if i \<ge> width then None
      else if d ! i \<ge> w then Some (d[i := d ! i - w], i)
      else sub_word_loop (d[i := d ! i - w]) 1 (i + 1) width)"
  by pat_completeness auto
termination by (relation "measure (\<lambda>(d, w, i, width). width - i)") auto

declare sub_word_loop.simps [simp del]

function BN_add_word :: "bn_malloc \<Rightarrow> bignum \<Rightarrow> u64 \<Rightarrow> (bool \<times> bignum) option"
  and BN_sub_word :: "bn_malloc \<Rightarrow> bignum \<Rightarrow> u64 \<Rightarrow> (bool \<times> bignum) option" where
  "BN_add_word malloc a w =
     (if w = 0 then Some (True, a)
      else if BN_is_zero a then Some (BN_set_word malloc a w)
      else if bn_neg a then
        (case BN_sub_word malloc (a\<lparr>bn_neg := False\<rparr>) w of
           None \<Rightarrow> None
         | Some (i, a) \<Rightarrow> Some (i, if BN_is_zero a then a else a\<lparr>bn_neg := \<not> bn_neg a\<rparr>))
      else
        let (d, w, i) = add_word_loop (bn_d a) w 0 (bn_width a);
            a = a\<lparr>bn_d := d\<rparr>
        in if w \<noteq> 0 \<and> i = bn_width a then
             (case bn_wexpand malloc a (bn_width a + 1) of
                (False, a) \<Rightarrow> Some (False, a)
              | (True, a) \<Rightarrow> Some (True, a\<lparr>bn_width := bn_width a + 1, bn_d := (bn_d a)[i := w]\<rparr>))
           else Some (True, a))"
| "BN_sub_word malloc a w =
     (if w = 0 then Some (True, a)
      else if BN_is_zero a then
        (case BN_set_word malloc a w of
           (i, a) \<Rightarrow> Some (i, if i then BN_set_negative a True else a))
      else if bn_neg a then
        (case BN_add_word malloc (a\<lparr>bn_neg := False\<rparr>) w of
           None \<Rightarrow> None
         | Some (i, a) \<Rightarrow> Some (i, a\<lparr>bn_neg := True\<rparr>))
      else if bn_minimal_width a = 1 \<and> bn_d a ! 0 < w then
        Some (True, a\<lparr>bn_d := (bn_d a)[0 := w - bn_d a ! 0], bn_neg := True\<rparr>)
      else
        (case sub_word_loop (bn_d a) w 0 (bn_width a) of
           None \<Rightarrow> None
         | Some (d, i) \<Rightarrow>
             let a = a\<lparr>bn_d := d\<rparr>
             in if d ! i = 0 \<and> i = bn_width a - 1 then Some (True, a\<lparr>bn_width := bn_width a - 1\<rparr>)
                else Some (True, a)))"
  by pat_completeness auto
termination
  by (relation "measure (\<lambda>x. case x of Inl (m, a, w) \<Rightarrow> of_bool (bn_neg a) | Inr (m, a, w) \<Rightarrow> of_bool (bn_neg a))") auto

declare BN_add_word.simps [simp del] BN_sub_word.simps [simp del]

section \<open>Multiplication by a word\<close>

definition BN_mul_word :: "bn_malloc \<Rightarrow> bignum \<Rightarrow> u64 \<Rightarrow> bool \<times> bignum" where
  "BN_mul_word malloc bn w =
     (if bn_width bn = 0 then (True, bn)
      else if w = 0 then (True, BN_zero bn)
      else
        let (r, ll) = bn_mul_words (bn_d bn) (bn_width bn) w;
            bn = bn\<lparr>bn_d := put_words (bn_d bn) 0 r\<rparr>
        in if ll \<noteq> 0 then
             (case bn_wexpand malloc bn (bn_width bn + 1) of
                (False, bn) \<Rightarrow> (False, bn)
              | (True, bn) \<Rightarrow>
                  (True, bn\<lparr>bn_d := (bn_d bn)[bn_width bn := ll], bn_width := bn_width bn + 1\<rparr>))
           else (True, bn))"

section \<open>Values\<close>

text \<open>The base of the digits, as a constant so that the powers in the equations stay symbolic.\<close>

definition radix :: nat where
  "radix = 2 ^ 64"

lemma radix_pos [simp]: "0 < radix" "radix \<noteq> 0" "Suc 0 < radix"
  by (simp_all add: radix_def)

lemma limb_less [simp]: "unat (w :: u64) < radix"
  using unat_lt_len [of w] by (simp add: radix_def)

fun bn_val :: "u64 list \<Rightarrow> nat" where
  "bn_val [] = 0"
| "bn_val (w # ws) = unat w + radix * bn_val ws"

lemma bn_val_append: "bn_val (xs @ ys) = bn_val xs + radix ^ length xs * bn_val ys"
  by (induction xs) (simp_all add: algebra_simps)

lemma bn_val_less: "bn_val ws < radix ^ length ws"
proof (induction ws)
  case (Cons w ws)
  have "radix * (bn_val ws + 1) \<le> radix * radix ^ length ws" using Cons by (intro mult_le_mono2) simp
  then have "radix * bn_val ws + radix \<le> radix * radix ^ length ws" by (simp only: add_mult_distrib2 mult_1_right)
  moreover have "unat w < radix" by simp
  ultimately show ?case by (simp only: bn_val.simps list.size power_Suc add_0_right add_Suc_right)
qed simp

lemma bn_val_zeros [simp]: "bn_val (replicate n 0) = 0"
  by (induction n) simp_all

lemma bn_val_eq_0: "bn_val ws = 0 \<longleftrightarrow> (\<forall>w \<in> set ws. w = 0)"
  by (induction ws) (auto simp: unat_eq_zero)

text \<open>The value of two arrays combined word by word.\<close>

fun limb_sum :: "(u64 \<Rightarrow> u64 \<Rightarrow> int) \<Rightarrow> u64 list \<Rightarrow> u64 list \<Rightarrow> int" where
  "limb_sum f (x # xs) (y # ys) = f x y + int radix * limb_sum f xs ys"
| "limb_sum f _ _ = 0"

text \<open>
  The contract of a step: what it returns and carries over is the combination of the two words and
  what was carried in.
\<close>

locale carry_chain =
  fixes step :: "'c \<Rightarrow> u64 \<Rightarrow> u64 \<Rightarrow> u64 \<times> 'c"
    and carry :: "'c \<Rightarrow> int"
    and ok :: "'c \<Rightarrow> bool"
    and combine :: "u64 \<Rightarrow> u64 \<Rightarrow> int"
  assumes step_ok: "ok c \<Longrightarrow> step c x y = (r, c') \<Longrightarrow> ok c'"
    and step_value: "ok c \<Longrightarrow> step c x y = (r, c') \<Longrightarrow>
      int (unat r) + int radix * carry c' = combine x y + carry c"
begin

lemma one_word_value:
  "one_word_loop step c xs ys n = (r, c') \<Longrightarrow> ok c \<Longrightarrow> n \<le> length xs \<Longrightarrow> n \<le> length ys \<Longrightarrow>
   ok c' \<and> length r = n \<and>
   int (bn_val r) + int radix ^ n * carry c' = limb_sum combine (take n xs) (take n ys) + carry c"
proof (induction n arbitrary: c xs ys r)
  case (Suc n)
  obtain x xs' y ys' where l: "xs = x # xs'" "ys = y # ys'"
    using Suc.prems(3,4) by (auto simp: Suc_le_length_iff)
  obtain r0 c0 where s: "step c x y = (r0, c0)" by fastforce
  obtain r' where rest: "one_word_loop step c0 xs' ys' n = (r', c')" "r = r0 # r'"
    using Suc.prems(1) by (auto simp: l s split: prod.splits)
  note ih = Suc.IH [OF rest(1) step_ok [OF Suc.prems(2) s]]
  have "int (bn_val r) + int radix ^ Suc n * carry c' =
      int (unat r0) + int radix * (int (bn_val r') + int radix ^ n * carry c')"
    by (simp add: rest algebra_simps)
  also have "\<dots> = int (unat r0) + int radix * carry c0 + int radix * limb_sum combine (take n xs') (take n ys')"
    using ih Suc.prems(3,4) by (simp add: l algebra_simps)
  finally show ?case using ih step_value [OF Suc.prems(2) s] Suc.prems(3,4) by (simp add: l rest)
qed simp

lemma words_loop_unrolled:
  "n \<le> length xs \<Longrightarrow> n \<le> length ys \<Longrightarrow> words_loop step c xs ys n = one_word_loop step c xs ys n"
proof (induction n arbitrary: c xs ys rule: less_induct)
  case (less n)
  show ?case
  proof (cases "n \<ge> 4")
    case True
    then obtain m where n: "n = Suc (Suc (Suc (Suc m)))"
      using le_Suc_ex [OF True] by (auto simp: numeral_eq_Suc)
    obtain x0 x1 x2 x3 xs' y0 y1 y2 y3 ys'
      where "xs = x0 # x1 # x2 # x3 # xs'" "ys = y0 # y1 # y2 # y3 # ys'"
      using less.prems by (auto simp: n Suc_le_length_iff)
    then show ?thesis using less.prems
      by (subst words_loop.simps) (simp add: n less.IH numeral_eq_Suc split_beta)
  qed (simp add: words_loop.simps)
qed

lemma words_loop_value:
  "words_loop step c xs ys n = (r, c') \<Longrightarrow> ok c \<Longrightarrow> n \<le> length xs \<Longrightarrow> n \<le> length ys \<Longrightarrow>
   ok c' \<and> length r = n \<and>
   int (bn_val r) + int radix ^ n * carry c' = limb_sum combine (take n xs) (take n ys) + carry c"
  using one_word_value [of c xs ys n r c'] by (simp add: words_loop_unrolled)

end

lemma limb_halves: "unat (ucast (t :: u128) :: u64) + radix * unat (drop_bit 64 t) = unat t"
  unfolding radix_def unat_drop_bit by (simp add: unsigned_ucast_eq take_bit_eq_mod)

lemma high_limb: "unat (ucast (drop_bit 64 (t :: u128)) :: u64) = unat (drop_bit 64 t)"
proof -
  have "unat t < 2 ^ 64 * 2 ^ 64" using unat_lt_len [of t] by simp
  then have "unat (drop_bit 64 t) < 2 ^ 64" unfolding unat_drop_bit by (rule less_mult_imp_div_less)
  then show ?thesis by (simp add: unsigned_ucast_eq take_bit_nat_eq_self)
qed

lemma unat_limb_up: "unat (ucast (x :: u64) :: u128) = unat x"
  by (rule unat_ucast_up) simp

lemma radix_square: "radix * radix = 2 ^ LENGTH(128)"
  by (simp add: radix_def)

interpretation adder: carry_chain add_step "\<lambda>ll. int (unat ll)" "\<lambda>ll. unat ll \<le> 1"
  "\<lambda>a b. int (unat a) + int (unat b)"
proof
  fix ll :: u128 and a b r :: u64 and ll' :: u128
  assume ll: "unat ll \<le> 1" and s: "add_step ll a b = (r, ll')"
  have bound: "unat ll + (unat a + unat b) < 2 * radix" using ll limb_less [of a] limb_less [of b] by linarith
  have "2 * radix \<le> radix * radix" by (simp add: radix_def)
  then have "unat (ll + (ucast a + ucast b)) = unat ll + (unat a + unat b)"
    using bound unfolding radix_square by (simp add: unat_add_no_overflow unat_limb_up)
  then have v: "unat r + radix * unat ll' = unat ll + (unat a + unat b)"
    using s limb_halves [of "ll + (ucast a + ucast b)"] by (auto simp: add_step_def Let_def)
  have "unat ll' < 2"
  proof (rule ccontr)
    assume "\<not> unat ll' < 2"
    then have "radix * 2 \<le> radix * unat ll'" by (intro mult_le_mono2) simp
    then show False using v bound by linarith
  qed
  then show "unat ll' \<le> 1" by simp
  show "int (unat r) + int radix * int (unat ll') = int (unat a) + int (unat b) + int (unat ll)"
    using v by (simp only: of_nat_add [symmetric] of_nat_mult [symmetric] add_ac)
qed

lemma sub_limbs:
  assumes "unat (c :: u64) \<le> 1"
  shows "int (unat (x - y - c)) = int (unat x) - int (unat y) - int (unat c) +
    (if unat x < unat y + unat c then int radix else 0)"
proof -
  have l: "unat x < radix" "unat y < radix" by simp_all
  have "uint (x - y - c) = (uint x - uint y - uint c) mod int radix"
    by (simp add: uint_word_ariths mod_diff_left_eq radix_def)
  then have e: "int (unat (x - y - c)) = (int (unat x) - int (unat y) - int (unat c)) mod int radix"
    by (simp only: uint_nat)
  show ?thesis
  proof (cases "unat x < unat y + unat c")
    case True
    have "(int (unat x) - int (unat y) - int (unat c)) mod int radix =
        (int (unat x) - int (unat y) - int (unat c) + int radix) mod int radix" by simp
    also have "\<dots> = int (unat x) - int (unat y) - int (unat c) + int radix"
      using True l assms by (intro mod_pos_pos_trivial) linarith+
    finally show ?thesis using e True by simp
  next
    case False
    then have "(int (unat x) - int (unat y) - int (unat c)) mod int radix = int (unat x) - int (unat y) - int (unat c)"
      using l by (intro mod_pos_pos_trivial) linarith+
    then show ?thesis using e False by simp
  qed
qed

interpretation subtractor: carry_chain sub_step "\<lambda>c. - int (unat c)" "\<lambda>c. unat c \<le> 1"
  "\<lambda>a b. int (unat a) - int (unat b)"
proof
  fix c x y r c' :: u64
  assume c: "unat c \<le> 1" and s: "sub_step c x y = (r, c')"
  then show "unat c' \<le> 1" by (auto simp: sub_step_def split: if_splits)
  have r: "r = x - y - c" and c': "c' = (if x \<noteq> y then (if x < y then 1 else 0) else c)"
    using s by (simp_all add: sub_step_def)
  have "unat c = 0 \<or> unat c = 1" using c by auto
  moreover have "x \<noteq> y \<longleftrightarrow> unat x \<noteq> unat y" by (simp add: word_unat_eq_iff)
  ultimately have "(if unat x < unat y + unat c then int radix else 0) = int radix * int (unat c')"
    unfolding c' word_less_nat_alt by (auto simp del: of_nat_unat)
  then show "int (unat r) + int radix * - int (unat c') = int (unat x) - int (unat y) + - int (unat c)"
    using sub_limbs [OF c, of x y] by (simp add: r)
qed

lemma mul_add_limbs:
  "unat (ucast w * ucast a + ucast r + ucast c :: u128) = unat (w :: u64) * unat (a :: u64) + unat (r :: u64) + unat (c :: u64)"
proof -
  have "unat w * unat a \<le> (radix - 1) * (radix - 1)"
    using limb_less [of w] limb_less [of a] by (intro mult_le_mono) linarith+
  moreover have "unat r \<le> radix - 1" "unat c \<le> radix - 1" using limb_less [of r] limb_less [of c] by linarith+
  moreover have "(radix - 1) * (radix - 1) + (radix - 1) + (radix - 1) < radix * radix"
    by (simp add: radix_def)
  ultimately have b: "unat w * unat a + unat r + unat c < 2 ^ LENGTH(128)"
    unfolding radix_square [symmetric] by linarith
  then have "unat (ucast w * ucast a :: u128) = unat w * unat a"
    by (simp add: unat_word_ariths unat_limb_up)
  then show ?thesis using b by (simp add: unat_add_no_overflow unat_limb_up)
qed

interpretation multiplier: carry_chain "mul_add_step w" "\<lambda>c. int (unat c)" "\<lambda>_. True"
  "\<lambda>r a. int (unat r) + int (unat w) * int (unat a)" for w
proof
  fix c x y r c' :: u64
  assume s: "mul_add_step w c x y = (r, c')"
  have "unat r + radix * unat c' = unat w * unat y + unat x + unat c"
    using s limb_halves [of "ucast w * ucast y + ucast x + ucast c"]
    by (auto simp: mul_add_step_def Let_def high_limb mul_add_limbs)
  then show "int (unat r) + int radix * int (unat c') = int (unat x) + int (unat w) * int (unat y) + int (unat c)"
    by (simp only: of_nat_add [symmetric] of_nat_mult [symmetric])
qed simp

interpretation scaler: carry_chain "mul_step w" "\<lambda>c. int (unat c)" "\<lambda>_. True"
  "\<lambda>a _. int (unat w) * int (unat a)" for w
proof
  fix c x y r c' :: u64
  assume s: "mul_step w c x y = (r, c')"
  have "unat r + radix * unat c' = unat w * unat x + unat c"
    using s limb_halves [of "ucast w * ucast x + ucast c"] mul_add_limbs [of w x 0 c]
    by (auto simp: mul_step_def Let_def high_limb)
  then show "int (unat r) + int radix * int (unat c') = int (unat w) * int (unat x) + int (unat c)"
    by (simp only: of_nat_add [symmetric] of_nat_mult [symmetric])
qed simp

lemma limb_sums:
  assumes "length xs = length ys"
  shows "limb_sum (\<lambda>a b. int (unat a) + int (unat b)) xs ys = int (bn_val xs) + int (bn_val ys)"
    "limb_sum (\<lambda>a b. int (unat a) - int (unat b)) xs ys = int (bn_val xs) - int (bn_val ys)"
    "limb_sum (\<lambda>r a. int (unat r) + int w * int (unat a)) xs ys = int (bn_val xs) + int w * int (bn_val ys)"
    "limb_sum (\<lambda>a _. int w * int (unat a)) xs ys = int w * int (bn_val xs)"
  using assms
  by (induction xs ys rule: list_induct2)
    (simp_all only: bn_val.simps limb_sum.simps of_nat_add of_nat_mult, simp_all add: algebra_simps)

lemma bn_add_words_value:
  assumes "bn_add_words a b n = (r, c)" "n \<le> length a" "n \<le> length b"
  shows "length r = n \<and> unat c \<le> 1 \<and> bn_val r + radix ^ n * unat c = bn_val (take n a) + bn_val (take n b)"
proof (cases "n = 0")
  case False
  obtain ll where w: "words_loop add_step 0 a b n = (r, ll)" "c = ucast ll"
    using assms(1) False by (auto simp: bn_add_words_def split: prod.splits)
  note v = adder.words_loop_value [OF w(1) _ assms(2,3)]
  have "unat c = unat ll" using v w(2) by (simp add: unsigned_ucast_eq take_bit_nat_eq_self)
  then have "int (bn_val r + radix ^ n * unat c) = int (bn_val (take n a) + bn_val (take n b))"
    using v assms(2,3) by (simp add: limb_sums del: of_nat_unat)
  then show ?thesis using v \<open>unat c = unat ll\<close> by (simp only: of_nat_eq_iff) simp
qed (use assms(1) in \<open>simp add: bn_add_words_def\<close>)

lemma bn_sub_words_value:
  assumes "bn_sub_words a b n = (r, c)" "n \<le> length a" "n \<le> length b"
  shows "length r = n \<and> unat c \<le> 1 \<and> bn_val r + bn_val (take n b) = bn_val (take n a) + radix ^ n * unat c"
proof (cases "n = 0")
  case False
  have w: "words_loop sub_step 0 a b n = (r, c)" using assms(1) False by (simp add: bn_sub_words_def)
  note v = subtractor.words_loop_value [OF w _ assms(2,3)]
  then have "int (bn_val r + bn_val (take n b)) = int (bn_val (take n a) + radix ^ n * unat c)"
    using assms(2,3) by (simp add: limb_sums del: of_nat_unat)
  then show ?thesis using v by (simp only: of_nat_eq_iff) simp
qed (use assms(1) in \<open>simp add: bn_sub_words_def\<close>)

lemma bn_mul_add_words_value:
  assumes "bn_mul_add_words rp ap n w = (r, c)" "n \<le> length rp" "n \<le> length ap"
  shows "length r = n \<and> bn_val r + radix ^ n * unat c = bn_val (take n rp) + unat w * bn_val (take n ap)"
proof (cases "n = 0")
  case False
  have l: "words_loop (mul_add_step w) 0 rp ap n = (r, c)" using assms(1) False by (simp add: bn_mul_add_words_def)
  note v = multiplier.words_loop_value [OF l _ assms(2,3)]
  then have "int (bn_val r + radix ^ n * unat c) = int (bn_val (take n rp) + unat w * bn_val (take n ap))"
    using assms(2,3) by (simp add: limb_sums del: of_nat_unat)
  then show ?thesis using v by (simp only: of_nat_eq_iff)
qed (use assms(1) in \<open>simp add: bn_mul_add_words_def\<close>)

lemma bn_mul_words_value:
  assumes "bn_mul_words ap n w = (r, c)" "n \<le> length ap"
  shows "length r = n \<and> bn_val r + radix ^ n * unat c = unat w * bn_val (take n ap)"
proof (cases "n = 0")
  case False
  have l: "words_loop (mul_step w) 0 ap ap n = (r, c)" using assms(1) False by (simp add: bn_mul_words_def)
  note v = scaler.words_loop_value [OF l _ assms(2,2)]
  then have "int (bn_val r + radix ^ n * unat c) = int (unat w * bn_val (take n ap))"
    using assms(2) by (simp add: limb_sums del: of_nat_unat)
  then show ?thesis using v by (simp only: of_nat_eq_iff)
qed (use assms(1) in \<open>simp add: bn_mul_words_def\<close>)

text \<open>One more digit in front of two sums that differ by a carry.\<close>

lemma horner_step: "x + R * c = y \<Longrightarrow> v + q = w + c \<Longrightarrow> x + R * v + R * q = y + R * (w :: nat)"
proof -
  assume x: "x + R * c = y" and "v + q = w + c"
  then have "R * (v + q) = R * (w + c)" by simp
  then have "R * v + R * q = R * w + R * c" by (simp only: add_mult_distrib2)
  then show ?thesis using x by simp
qed

lemma carry_loop_value:
  "carry_loop c as = (r, c') \<Longrightarrow> unat c \<le> 1 \<Longrightarrow>
   length r = length as \<and> unat c' \<le> 1 \<and> bn_val r + radix ^ length as * unat c' = bn_val as + unat c"
proof (induction as arbitrary: c r)
  case (Cons a as)
  define c1 :: u64 where "c1 = (if c + a < a then 1 else 0)"
  obtain r1 where r1: "carry_loop c1 as = (r1, c')" "r = (c + a) # r1"
    using Cons.prems(1) by (auto simp: c1_def Let_def split: prod.splits)
  have c: "unat (c + a) + radix * unat c1 = unat a + unat c"
    using Cons.prems(2) limb_less [of a] unfolding c1_def radix_def word_less_nat_alt
    by (auto simp: unat_word_ariths mod_if)
  have "unat c1 \<le> 1" by (simp add: c1_def)
  note ih = Cons.IH [OF r1(1) this]
  then have "unat (c + a) + radix * bn_val r1 + radix * (radix ^ length as * unat c') = unat a + unat c + radix * bn_val as"
    using horner_step [OF c] by blast
  then show ?case using ih r1(2) by (simp add: mult.assoc)
qed simp

lemma borrow_loop_value:
  "borrow_loop c as = (r, c') \<Longrightarrow> unat c \<le> 1 \<Longrightarrow>
   length r = length as \<and> unat c' \<le> 1 \<and> bn_val r + unat c = bn_val as + radix ^ length as * unat c'"
proof (induction as arbitrary: c r)
  case (Cons a as)
  define c1 :: u64 where "c1 = (if a < a - c then 1 else 0)"
  obtain r1 where r1: "borrow_loop c1 as = (r1, c')" "r = (a - c) # r1"
    using Cons.prems(1) by (auto simp: c1_def Let_def split: prod.splits)
  have c: "unat a + radix * unat c1 = unat (a - c) + unat c"
    using Cons.prems(2) limb_less [of a] unfolding c1_def radix_def word_less_nat_alt
    by (auto simp: unat_sub_wrap word_le_nat_alt)
  have "unat c1 \<le> 1" by (simp add: c1_def)
  note ih = Cons.IH [OF r1(1) this]
  then have "bn_val as + radix ^ length as * unat c' = bn_val r1 + unat c1" by simp
  then have "unat a + radix * bn_val as + radix * (radix ^ length as * unat c') = unat (a - c) + unat c + radix * bn_val r1"
    using horner_step [OF c] by blast
  then show ?case using ih r1(2) by (simp add: mult.assoc)
qed simp

end
