(* ===== verification/Comba.thy ===== *)
theory Comba
  imports Bn
begin

text \<open>
  The products of fixed size of \<open>generic.c\<close> (\<open>bn_mul_comba4\<close>, \<open>bn_mul_comba8\<close> and the squares). They are
  written without loops: for each word of the result, the products of the words at positions that sum
  to it are added up in three words \<open>c1\<close>, \<open>c2\<close>, \<open>c3\<close>, which take turns as the lowest one. A column is the
  list of its calls of the macros, in the order of the code, and the lowest word comes first in the
  triple.
\<close>

section \<open>Adding a product to three words\<close>

type_synonym three_words = "u64 \<times> u64 \<times> u64"

definition mul_add_c :: "u64 \<Rightarrow> u64 \<Rightarrow> three_words \<Rightarrow> three_words" where
  "mul_add_c a b c =
     (case c of (c0, c1, c2) \<Rightarrow>
        let t = ucast a * ucast b :: u128;
            t = t + ucast c0;
            c0 = ucast t;
            hi = ucast (drop_bit 64 t);
            c1 = c1 + hi;
            c2 = (if c1 < hi then c2 + 1 else c2)
        in (c0, c1, c2))"

definition mul_add_c2 :: "u64 \<Rightarrow> u64 \<Rightarrow> three_words \<Rightarrow> three_words" where
  "mul_add_c2 a b c =
     (case c of (c0, c1, c2) \<Rightarrow>
        let t = ucast a * ucast b :: u128;
            tt = t + ucast c0;
            c0 = ucast tt :: u64;
            hi = ucast (drop_bit 64 tt);
            c1 = c1 + hi;
            c2 = (if c1 < hi then c2 + 1 else c2);
            t = t + ucast c0;
            c0 = ucast t;
            hi = ucast (drop_bit 64 t);
            c1 = c1 + hi;
            c2 = (if c1 < hi then c2 + 1 else c2)
        in (c0, c1, c2))"

definition sqr_add_c :: "u64 list \<Rightarrow> nat \<Rightarrow> three_words \<Rightarrow> three_words" where
  "sqr_add_c a i c =
     (case c of (c0, c1, c2) \<Rightarrow>
        let t = ucast (a ! i) * ucast (a ! i) :: u128;
            t = t + ucast c0;
            c0 = ucast t;
            hi = ucast (drop_bit 64 t);
            c1 = c1 + hi;
            c2 = (if c1 < hi then c2 + 1 else c2)
        in (c0, c1, c2))"

definition sqr_add_c2 :: "u64 list \<Rightarrow> nat \<Rightarrow> nat \<Rightarrow> three_words \<Rightarrow> three_words" where
  "sqr_add_c2 a i j c = mul_add_c2 (a ! i) (a ! j) c"

section \<open>Columns\<close>

datatype comba_call = MulAdd nat nat | SqrAdd nat | SqrAdd2 nat nat

fun comba_step :: "u64 list \<Rightarrow> u64 list \<Rightarrow> three_words \<Rightarrow> comba_call \<Rightarrow> three_words" where
  "comba_step a b c (MulAdd i j) = mul_add_c (a ! i) (b ! j) c"
| "comba_step a b c (SqrAdd i) = sqr_add_c a i c"
| "comba_step a b c (SqrAdd2 i j) = sqr_add_c2 a i j c"

text \<open>After a column its lowest word is stored and becomes the zero at the top of the next one.\<close>

fun comba :: "u64 list \<Rightarrow> u64 list \<Rightarrow> comba_call list list \<Rightarrow> three_words \<Rightarrow> u64 list" where
  "comba a b [] (c0, c1, c2) = [c0]"
| "comba a b (calls # columns) c =
     (let (c0, c1, c2) = foldl (comba_step a b) c calls in c0 # comba a b columns (c1, c2, 0))"

definition bn_mul_comba8 :: "u64 list \<Rightarrow> u64 list \<Rightarrow> u64 list" where
  "bn_mul_comba8 a b = comba a b
     [[MulAdd 0 0],
      [MulAdd 0 1, MulAdd 1 0],
      [MulAdd 2 0, MulAdd 1 1, MulAdd 0 2],
      [MulAdd 0 3, MulAdd 1 2, MulAdd 2 1, MulAdd 3 0],
      [MulAdd 4 0, MulAdd 3 1, MulAdd 2 2, MulAdd 1 3, MulAdd 0 4],
      [MulAdd 0 5, MulAdd 1 4, MulAdd 2 3, MulAdd 3 2, MulAdd 4 1, MulAdd 5 0],
      [MulAdd 6 0, MulAdd 5 1, MulAdd 4 2, MulAdd 3 3, MulAdd 2 4, MulAdd 1 5, MulAdd 0 6],
      [MulAdd 0 7, MulAdd 1 6, MulAdd 2 5, MulAdd 3 4, MulAdd 4 3, MulAdd 5 2, MulAdd 6 1, MulAdd 7 0],
      [MulAdd 7 1, MulAdd 6 2, MulAdd 5 3, MulAdd 4 4, MulAdd 3 5, MulAdd 2 6, MulAdd 1 7],
      [MulAdd 2 7, MulAdd 3 6, MulAdd 4 5, MulAdd 5 4, MulAdd 6 3, MulAdd 7 2],
      [MulAdd 7 3, MulAdd 6 4, MulAdd 5 5, MulAdd 4 6, MulAdd 3 7],
      [MulAdd 4 7, MulAdd 5 6, MulAdd 6 5, MulAdd 7 4],
      [MulAdd 7 5, MulAdd 6 6, MulAdd 5 7],
      [MulAdd 6 7, MulAdd 7 6],
      [MulAdd 7 7]] (0, 0, 0)"

definition bn_mul_comba4 :: "u64 list \<Rightarrow> u64 list \<Rightarrow> u64 list" where
  "bn_mul_comba4 a b = comba a b
     [[MulAdd 0 0],
      [MulAdd 0 1, MulAdd 1 0],
      [MulAdd 2 0, MulAdd 1 1, MulAdd 0 2],
      [MulAdd 0 3, MulAdd 1 2, MulAdd 2 1, MulAdd 3 0],
      [MulAdd 3 1, MulAdd 2 2, MulAdd 1 3],
      [MulAdd 2 3, MulAdd 3 2],
      [MulAdd 3 3]] (0, 0, 0)"

definition bn_sqr_comba8 :: "u64 list \<Rightarrow> u64 list" where
  "bn_sqr_comba8 a = comba a a
     [[SqrAdd 0],
      [SqrAdd2 1 0],
      [SqrAdd 1, SqrAdd2 2 0],
      [SqrAdd2 3 0, SqrAdd2 2 1],
      [SqrAdd 2, SqrAdd2 3 1, SqrAdd2 4 0],
      [SqrAdd2 5 0, SqrAdd2 4 1, SqrAdd2 3 2],
      [SqrAdd 3, SqrAdd2 4 2, SqrAdd2 5 1, SqrAdd2 6 0],
      [SqrAdd2 7 0, SqrAdd2 6 1, SqrAdd2 5 2, SqrAdd2 4 3],
      [SqrAdd 4, SqrAdd2 5 3, SqrAdd2 6 2, SqrAdd2 7 1],
      [SqrAdd2 7 2, SqrAdd2 6 3, SqrAdd2 5 4],
      [SqrAdd 5, SqrAdd2 6 4, SqrAdd2 7 3],
      [SqrAdd2 7 4, SqrAdd2 6 5],
      [SqrAdd 6, SqrAdd2 7 5],
      [SqrAdd2 7 6],
      [SqrAdd 7]] (0, 0, 0)"

definition bn_sqr_comba4 :: "u64 list \<Rightarrow> u64 list" where
  "bn_sqr_comba4 a = comba a a
     [[SqrAdd 0],
      [SqrAdd2 1 0],
      [SqrAdd 1, SqrAdd2 2 0],
      [SqrAdd2 3 0, SqrAdd2 2 1],
      [SqrAdd 2, SqrAdd2 3 1],
      [SqrAdd2 3 2],
      [SqrAdd 3]] (0, 0, 0)"

section \<open>What a column adds\<close>

fun three_val :: "three_words \<Rightarrow> nat" where
  "three_val (c0, c1, c2) = unat c0 + radix * (unat c1 + radix * unat c2)"

lemma three_val_less: "three_val c < radix * (radix * radix)"
proof -
  obtain c0 c1 c2 where c: "c = (c0, c1, c2)" by (cases c)
  show ?thesis using bn_val_less [of "[c0, c1, c2]"] by (simp add: c)
qed

lemma product_less: "unat (a :: u64) * unat (b :: u64) \<le> (radix - 1) * (radix - 1)"
  using limb_less [of a] limb_less [of b] by (intro mult_le_mono) linarith+

text \<open>One product added to the triple, as both macros do it.\<close>

lemma add_product:
  assumes "three_val (c0, c1, c2) + unat (a :: u64) * unat (b :: u64) < radix * (radix * radix)"
    "t = ucast a * ucast b + ucast c0" "hi = ucast (drop_bit 64 (t :: u128))"
  shows "three_val (ucast t, c1 + hi, if c1 + hi < hi then c2 + 1 else c2) = three_val (c0, c1, c2) + unat a * unat b"
proof -
  have t: "unat (ucast t :: u64) + radix * unat hi = unat a * unat b + unat c0"
    using limb_halves [of t] mul_add_limbs [of a b 0 c0] by (simp add: assms(2,3) high_limb)
  have h: "unat (c1 + hi) + radix * (if c1 + hi < hi then 1 else 0) = unat c1 + unat hi"
    using limb_less [of c1] limb_less [of hi] unfolding radix_def word_less_nat_alt
    by (auto simp: unat_word_ariths mod_if)
  show ?thesis
  proof (cases "c1 + hi < hi")
    case True
    have "unat a * unat b + three_val (c0, c1, c2) = unat (ucast t :: u64) + radix * (unat hi + unat c1 + radix * unat c2)"
      using t by (simp add: distrib_left)
    also have "unat hi + unat c1 + radix * unat c2 = unat (c1 + hi) + radix * (unat c2 + 1)"
      using h True by (simp add: distrib_left)
    finally have v: "unat a * unat b + three_val (c0, c1, c2) = unat (ucast t :: u64) + radix * (unat (c1 + hi) + radix * (unat c2 + 1))" .
    have "unat c2 + 1 < radix"
    proof (rule ccontr)
      assume "\<not> unat c2 + 1 < radix"
      then have "radix * (radix * radix) \<le> radix * (radix * (unat c2 + 1))" by (intro mult_le_mono2) simp
      then show False using v assms(1) by (simp add: distrib_left)
    qed
    then have "unat (c2 + 1) = unat c2 + 1" unfolding radix_def by (simp add: unat_add_no_overflow)
    then show ?thesis using v True by simp
  next
    case False
    then have "unat (c1 + hi) = unat c1 + unat hi" using h by simp
    then show ?thesis using t False by (simp add: distrib_left)
  qed
qed

lemma mul_add_c_value:
  assumes "three_val c + unat a * unat b < radix * (radix * radix)"
  shows "three_val (mul_add_c a b c) = three_val c + unat a * unat b"
proof -
  obtain c0 c1 c2 where c: "c = (c0, c1, c2)" by (cases c)
  show ?thesis using add_product [OF assms [unfolded c] refl refl]
    by (simp only: c mul_add_c_def Let_def prod.case)
qed

lemma mul_add_c2_value:
  assumes "three_val c + 2 * (unat a * unat b) < radix * (radix * radix)"
  shows "three_val (mul_add_c2 a b c) = three_val c + 2 * (unat a * unat b)"
proof -
  have "mul_add_c2 a b c = mul_add_c a b (mul_add_c a b c)"
    by (cases c) (simp add: mul_add_c2_def mul_add_c_def Let_def)
  then show ?thesis using mul_add_c_value [of c a b] mul_add_c_value [of "mul_add_c a b c" a b] assms by simp
qed

lemma sqr_add_c_eq: "sqr_add_c a i c = mul_add_c (a ! i) (a ! i) c"
  by (simp add: sqr_add_c_def mul_add_c_def)

fun call_val :: "u64 list \<Rightarrow> u64 list \<Rightarrow> comba_call \<Rightarrow> nat" where
  "call_val a b (MulAdd i j) = unat (a ! i) * unat (b ! j)"
| "call_val a b (SqrAdd i) = unat (a ! i) * unat (a ! i)"
| "call_val a b (SqrAdd2 i j) = 2 * (unat (a ! i) * unat (a ! j))"

lemma call_val_le: "call_val a b k \<le> 2 * ((radix - 1) * (radix - 1))"
proof (cases k)
  case (MulAdd i j)
  then show ?thesis using product_less [of "a ! i" "b ! j"] by simp
next
  case (SqrAdd i)
  then show ?thesis using product_less [of "a ! i" "a ! i"] by simp
next
  case (SqrAdd2 i j)
  then show ?thesis using product_less [of "a ! i" "a ! j"] by simp
qed

lemma comba_step_value:
  "three_val c + call_val a b k < radix * (radix * radix) \<Longrightarrow>
   three_val (comba_step a b c k) = three_val c + call_val a b k"
  by (cases k) (simp_all add: mul_add_c_value mul_add_c2_value sqr_add_c_eq sqr_add_c2_def)

lemma column_value:
  "three_val c + sum_list (map (call_val a b) ks) < radix * (radix * radix) \<Longrightarrow>
   three_val (foldl (comba_step a b) c ks) = three_val c + sum_list (map (call_val a b) ks)"
  by (induction ks arbitrary: c) (simp_all add: comba_step_value add.assoc)

lemma column_bound: "sum_list (map (call_val a b) ks) \<le> length ks * (2 * ((radix - 1) * (radix - 1)))"
proof (induction ks)
  case (Cons k ks)
  then show ?case using call_val_le [of a b k] by simp
qed simp

section \<open>What all columns add up to\<close>

fun columns_val :: "u64 list \<Rightarrow> u64 list \<Rightarrow> comba_call list list \<Rightarrow> nat" where
  "columns_val a b [] = 0"
| "columns_val a b (ks # kss) = sum_list (map (call_val a b) ks) + radix * columns_val a b kss"

lemma column_fits:
  assumes "three_val c < radix * radix" "length ks \<le> 8"
  shows "three_val c + sum_list (map (call_val a b) ks) < radix * (radix * radix)"
proof -
  have "length ks * (2 * ((radix - 1) * (radix - 1))) \<le> 8 * (2 * ((radix - 1) * (radix - 1)))"
    using assms(2) by (rule mult_le_mono1)
  moreover have "radix * radix + 8 * (2 * ((radix - 1) * (radix - 1))) \<le> radix * (radix * radix)"
    by (simp add: radix_def)
  ultimately show ?thesis using column_bound [of a b ks] assms(1) by linarith
qed

lemma comba_value:
  "\<forall>ks \<in> set kss. length ks \<le> 8 \<Longrightarrow> three_val c < radix * radix \<Longrightarrow>
   length (comba a b kss c) = Suc (length kss) \<and>
   (\<exists>x. three_val c + columns_val a b kss = bn_val (comba a b kss c) + radix ^ Suc (length kss) * x)"
proof (induction kss arbitrary: c)
  case Nil
  obtain c0 c1 c2 where "c = (c0, c1, c2)" by (cases c)
  then show ?case by (auto intro!: exI [of _ "unat c1 + radix * unat c2"])
next
  case (Cons ks kss)
  obtain c0 c1 c2 where f: "foldl (comba_step a b) c ks = (c0, c1, c2)" using prod_cases3 by blast
  have v: "unat c0 + radix * three_val (c1, c2, 0) = three_val c + sum_list (map (call_val a b) ks)"
    using column_value [OF column_fits [OF Cons.prems(2)], of ks a b] Cons.prems(1) f by simp
  have "three_val (c1, c2, 0) < radix * radix" using bn_val_less [of "[c1, c2]"] by simp
  with Cons.IH [of "(c1, c2, 0)"] Cons.prems(1) obtain x where
    x: "three_val (c1, c2, 0) + columns_val a b kss = bn_val (comba a b kss (c1, c2, 0)) + radix ^ Suc (length kss) * x"
    and l: "length (comba a b kss (c1, c2, 0)) = Suc (length kss)" by auto
  have r: "comba a b (ks # kss) c = c0 # comba a b kss (c1, c2, 0)" by (simp add: f)
  have "three_val c + columns_val a b (ks # kss) = unat c0 + radix * (three_val (c1, c2, 0) + columns_val a b kss)"
    using v by (simp add: distrib_left)
  also have "\<dots> = bn_val (comba a b (ks # kss) c) + radix ^ Suc (length (ks # kss)) * x"
    unfolding x r by (simp add: distrib_left)
  finally show ?case unfolding r using l by auto
qed

lemma comba_exact:
  assumes "\<forall>ks \<in> set kss. length ks \<le> 8" "columns_val a b kss < radix ^ Suc (length kss)"
  shows "length (comba a b kss (0, 0, 0)) = Suc (length kss) \<and> bn_val (comba a b kss (0, 0, 0)) = columns_val a b kss"
proof -
  have "three_val (0, 0, 0) = 0" by simp
  then obtain x where x: "columns_val a b kss = bn_val (comba a b kss (0, 0, 0)) + radix ^ Suc (length kss) * x"
    and l: "length (comba a b kss (0, 0, 0)) = Suc (length kss)"
    using comba_value [OF assms(1), of "(0, 0, 0)" a b] by auto
  have "x = 0"
  proof (rule ccontr)
    assume "x \<noteq> 0"
    then have "radix ^ Suc (length kss) * 1 \<le> radix ^ Suc (length kss) * x" by (intro mult_le_mono2) simp
    then show False using x assms(2) by linarith
  qed
  then show ?thesis using x l by simp
qed

lemma list4: "length a = 4 \<Longrightarrow> a = [a ! 0, a ! 1, a ! 2, a ! 3]"
  by (intro nth_equalityI) (auto simp: nth_Cons' less_Suc_eq numeral_eq_Suc)

lemma list8: "length a = 8 \<Longrightarrow> a = [a ! 0, a ! 1, a ! 2, a ! 3, a ! 4, a ! 5, a ! 6, a ! 7]"
  by (intro nth_equalityI) (auto simp: nth_Cons' less_Suc_eq numeral_eq_Suc)

lemma product_fits:
  assumes "length a = n" "length b = m"
  shows "bn_val a * bn_val b < radix ^ (n + m)"
  unfolding power_add using bn_val_less [of a] bn_val_less [of b] assms by (intro mult_strict_mono) simp_all

lemma comba_is:
  assumes "columns_val a b kss = v" "v < radix ^ n" "n = Suc (length kss)" "\<forall>ks \<in> set kss. length ks \<le> 8"
  shows "length (comba a b kss (0, 0, 0)) = n \<and> bn_val (comba a b kss (0, 0, 0)) = v"
  using comba_exact [OF assms(4), of a b] assms(1-3) by simp

lemma bn_mul_comba4_value:
  assumes "length a = 4" "length b = 4"
  shows "length (bn_mul_comba4 a b) = 8 \<and> bn_val (bn_mul_comba4 a b) = bn_val a * bn_val b"
  unfolding bn_mul_comba4_def
proof (rule comba_is)
  note va = arg_cong [OF list4 [OF assms(1)], of bn_val]
  note vb = arg_cong [OF list4 [OF assms(2)], of bn_val]
  show "columns_val a b [[MulAdd 0 0],
      [MulAdd 0 1, MulAdd 1 0],
      [MulAdd 2 0, MulAdd 1 1, MulAdd 0 2],
      [MulAdd 0 3, MulAdd 1 2, MulAdd 2 1, MulAdd 3 0],
      [MulAdd 3 1, MulAdd 2 2, MulAdd 1 3],
      [MulAdd 2 3, MulAdd 3 2],
      [MulAdd 3 3]] =
      bn_val a * bn_val b"
    unfolding vb va by (simp add: algebra_simps)
  show "bn_val a * bn_val b < radix ^ 8" using product_fits [OF assms(1) assms(2)] by simp
qed simp_all

lemma bn_sqr_comba4_value:
  assumes "length a = 4"
  shows "length (bn_sqr_comba4 a) = 8 \<and> bn_val (bn_sqr_comba4 a) = bn_val a * bn_val a"
  unfolding bn_sqr_comba4_def
proof (rule comba_is)
  note va = arg_cong [OF list4 [OF assms(1)], of bn_val]
  show "columns_val a a [[SqrAdd 0],
      [SqrAdd2 1 0],
      [SqrAdd 1, SqrAdd2 2 0],
      [SqrAdd2 3 0, SqrAdd2 2 1],
      [SqrAdd 2, SqrAdd2 3 1],
      [SqrAdd2 3 2],
      [SqrAdd 3]] =
      bn_val a * bn_val a"
    unfolding va by (simp add: algebra_simps)
  show "bn_val a * bn_val a < radix ^ 8" using product_fits [OF assms(1) assms(1)] by simp
qed simp_all

lemma bn_mul_comba8_value:
  assumes "length a = 8" "length b = 8"
  shows "length (bn_mul_comba8 a b) = 16 \<and> bn_val (bn_mul_comba8 a b) = bn_val a * bn_val b"
  unfolding bn_mul_comba8_def
proof (rule comba_is)
  note va = arg_cong [OF list8 [OF assms(1)], of bn_val]
  note vb = arg_cong [OF list8 [OF assms(2)], of bn_val]
  show "columns_val a b [[MulAdd 0 0],
      [MulAdd 0 1, MulAdd 1 0],
      [MulAdd 2 0, MulAdd 1 1, MulAdd 0 2],
      [MulAdd 0 3, MulAdd 1 2, MulAdd 2 1, MulAdd 3 0],
      [MulAdd 4 0, MulAdd 3 1, MulAdd 2 2, MulAdd 1 3, MulAdd 0 4],
      [MulAdd 0 5, MulAdd 1 4, MulAdd 2 3, MulAdd 3 2, MulAdd 4 1, MulAdd 5 0],
      [MulAdd 6 0, MulAdd 5 1, MulAdd 4 2, MulAdd 3 3, MulAdd 2 4, MulAdd 1 5, MulAdd 0 6],
      [MulAdd 0 7, MulAdd 1 6, MulAdd 2 5, MulAdd 3 4, MulAdd 4 3, MulAdd 5 2, MulAdd 6 1, MulAdd 7 0],
      [MulAdd 7 1, MulAdd 6 2, MulAdd 5 3, MulAdd 4 4, MulAdd 3 5, MulAdd 2 6, MulAdd 1 7],
      [MulAdd 2 7, MulAdd 3 6, MulAdd 4 5, MulAdd 5 4, MulAdd 6 3, MulAdd 7 2],
      [MulAdd 7 3, MulAdd 6 4, MulAdd 5 5, MulAdd 4 6, MulAdd 3 7],
      [MulAdd 4 7, MulAdd 5 6, MulAdd 6 5, MulAdd 7 4],
      [MulAdd 7 5, MulAdd 6 6, MulAdd 5 7],
      [MulAdd 6 7, MulAdd 7 6],
      [MulAdd 7 7]] =
      bn_val a * bn_val b"
    unfolding vb va by (simp add: algebra_simps)
  show "bn_val a * bn_val b < radix ^ 16" using product_fits [OF assms(1) assms(2)] by simp
qed simp_all

lemma bn_sqr_comba8_value:
  assumes "length a = 8"
  shows "length (bn_sqr_comba8 a) = 16 \<and> bn_val (bn_sqr_comba8 a) = bn_val a * bn_val a"
  unfolding bn_sqr_comba8_def
proof (rule comba_is)
  note va = arg_cong [OF list8 [OF assms(1)], of bn_val]
  show "columns_val a a [[SqrAdd 0],
      [SqrAdd2 1 0],
      [SqrAdd 1, SqrAdd2 2 0],
      [SqrAdd2 3 0, SqrAdd2 2 1],
      [SqrAdd 2, SqrAdd2 3 1, SqrAdd2 4 0],
      [SqrAdd2 5 0, SqrAdd2 4 1, SqrAdd2 3 2],
      [SqrAdd 3, SqrAdd2 4 2, SqrAdd2 5 1, SqrAdd2 6 0],
      [SqrAdd2 7 0, SqrAdd2 6 1, SqrAdd2 5 2, SqrAdd2 4 3],
      [SqrAdd 4, SqrAdd2 5 3, SqrAdd2 6 2, SqrAdd2 7 1],
      [SqrAdd2 7 2, SqrAdd2 6 3, SqrAdd2 5 4],
      [SqrAdd 5, SqrAdd2 6 4, SqrAdd2 7 3],
      [SqrAdd2 7 4, SqrAdd2 6 5],
      [SqrAdd 6, SqrAdd2 7 5],
      [SqrAdd2 7 6],
      [SqrAdd 7]] =
      bn_val a * bn_val a"
    unfolding va by (simp add: algebra_simps)
  show "bn_val a * bn_val a < radix ^ 16" using product_fits [OF assms(1) assms(1)] by simp
qed simp_all

text \<open>They read no more than the words at these positions.\<close>

fun call_below :: "nat \<Rightarrow> comba_call \<Rightarrow> bool" where
  "call_below n (MulAdd i j) \<longleftrightarrow> i < n \<and> j < n"
| "call_below n (SqrAdd i) \<longleftrightarrow> i < n"
| "call_below n (SqrAdd2 i j) \<longleftrightarrow> i < n \<and> j < n"

lemma comba_step_take: "call_below n k \<Longrightarrow> comba_step (take n a) (take n b) c k = comba_step a b c k"
  by (cases k) (simp_all add: sqr_add_c_def sqr_add_c2_def)

lemma comba_take:
  "\<forall>ks \<in> set kss. \<forall>k \<in> set ks. call_below n k \<Longrightarrow> comba (take n a) (take n b) kss c = comba a b kss c"
proof (induction kss arbitrary: c)
  case Nil
  then show ?case by (cases c) simp
next
  case (Cons ks kss)
  have "foldl (comba_step (take n a) (take n b)) c ks = foldl (comba_step a b) c ks"
    using Cons.prems by (intro foldl_cong) (simp_all add: comba_step_take)
  then show ?case using Cons by (simp split: prod.split)
qed

lemma mul_comba8_prefix:
  assumes "8 \<le> length a" "8 \<le> length b"
  shows "length (bn_mul_comba8 a b) = 16 \<and> bn_val (bn_mul_comba8 a b) = bn_val (take 8 a) * bn_val (take 8 b)"
proof -
  have "bn_mul_comba8 a b = bn_mul_comba8 (take 8 a) (take 8 b)"
    unfolding bn_mul_comba8_def by (subst comba_take) simp_all
  then show ?thesis using bn_mul_comba8_value [of "take 8 a" "take 8 b"] assms by (simp add: min_absorb2)
qed

lemma mul_comba4_prefix:
  assumes "4 \<le> length a" "4 \<le> length b"
  shows "length (bn_mul_comba4 a b) = 8 \<and> bn_val (bn_mul_comba4 a b) = bn_val (take 4 a) * bn_val (take 4 b)"
proof -
  have "bn_mul_comba4 a b = bn_mul_comba4 (take 4 a) (take 4 b)"
    unfolding bn_mul_comba4_def by (subst comba_take) simp_all
  then show ?thesis using bn_mul_comba4_value [of "take 4 a" "take 4 b"] assms by (simp add: min_absorb2)
qed

lemma sqr_comba8_prefix:
  assumes "8 \<le> length a"
  shows "length (bn_sqr_comba8 a) = 16 \<and> bn_val (bn_sqr_comba8 a) = bn_val (take 8 a) * bn_val (take 8 a)"
proof -
  have "bn_sqr_comba8 a = bn_sqr_comba8 (take 8 a)"
    unfolding bn_sqr_comba8_def by (subst comba_take) simp_all
  then show ?thesis using bn_sqr_comba8_value [of "take 8 a"] assms by (simp add: min_absorb2)
qed

lemma sqr_comba4_prefix:
  assumes "4 \<le> length a"
  shows "length (bn_sqr_comba4 a) = 8 \<and> bn_val (bn_sqr_comba4 a) = bn_val (take 4 a) * bn_val (take 4 a)"
proof -
  have "bn_sqr_comba4 a = bn_sqr_comba4 (take 4 a)"
    unfolding bn_sqr_comba4_def by (subst comba_take) simp_all
  then show ?thesis using bn_sqr_comba4_value [of "take 4 a"] assms by (simp add: min_absorb2)
qed

end
