(* ===== verification/Karatsuba.thy ===== *)
theory Karatsuba
  imports Comba
begin

text \<open>
  The products of arrays of words in \<open>crypto/fipsmodule/bn/mul.c\<close>: the schoolbook product
  \<open>bn_mul_normal\<close> and the recursive one after Karatsuba, with its variant for lengths that are not
  powers of two. The arguments are the words from the pointer on. The scratch space \<open>t\<close> holds
  intermediate results only, which appear by the names the comments of the code give its parts. A
  result \<open>None\<close> means that an \<open>assert\<close> fails.
\<close>

unbundle bit_operations_syntax

section \<open>Differences\<close>

definition bn_abs_sub_words :: "u64 list \<Rightarrow> u64 list \<Rightarrow> nat \<Rightarrow> u64 list" where
  "bn_abs_sub_words a b num =
     (let (tmp, borrow) = bn_sub_words a b num;
          (r, _) = bn_sub_words b a num
      in bn_select_words (0 - borrow) r tmp num)"

text \<open>The loop for the words that only \<open>b\<close> has (\<open>dl < 0\<close>).\<close>

fun sub_part_neg :: "u64 \<Rightarrow> u64 list \<Rightarrow> u64 list \<times> u64" where
  "sub_part_neg c [] = ([], c)"
| "sub_part_neg c (t # b) =
     (let r0 = 0 - t - c;
          (r, c) = sub_part_neg (if t \<noteq> 0 then 1 else c) b
      in (r0 # r, c))"

text \<open>
  The loop for the words that only \<open>a\<close> has. It looks at the borrow after every four words; once there
  is none, or no word is left, the rest is copied. (It leaves with \<open>save_dl = dl\<close> or \<open>dl = 0\<close>, so that
  the \<open>switch\<close> never copies anything.)
\<close>

fun sub_part_four :: "nat \<Rightarrow> u64 \<Rightarrow> u64 list \<Rightarrow> u64 list \<times> u64 \<times> u64 list" where
  "sub_part_four 0 c a = ([], c, a)"
| "sub_part_four (Suc n) c [] = ([], c, [])"
| "sub_part_four (Suc n) c (t # a) =
     (let r0 = t - c;
          (r, c, a) = sub_part_four n (if t \<noteq> 0 then 0 else c) a
      in (r0 # r, c, a))"

lemma sub_part_four_shorter: "sub_part_four n c a = (r, c', a') \<Longrightarrow> length a' = length a - n"
  by (induction n c a arbitrary: r rule: sub_part_four.induct) (auto simp: Let_def split: prod.splits)

function sub_part_pos :: "u64 \<Rightarrow> u64 list \<Rightarrow> u64 list \<times> u64" where
  "sub_part_pos c a =
     (if c = 0 \<or> a = [] then (a, c)
      else
        let (r, c, a) = sub_part_four 4 c a;
            (r', c) = sub_part_pos c a
        in (r @ r', c))"
  by pat_completeness auto
termination
proof (relation "measure (length \<circ> snd)")
  fix c :: u64 and a :: "u64 list" and p r q c' a'
  assume "\<not> (c = 0 \<or> a = [])" "p = sub_part_four 4 c a" "(r, q) = p" "(c', a') = q"
  moreover from this have "length a' = length a - 4" using sub_part_four_shorter [of 4 c a r c' a'] by simp
  ultimately show "((c', a'), (c, a)) \<in> measure (length \<circ> snd)" by (auto simp: diff_less)
qed simp

declare sub_part_pos.simps [simp del]

definition bn_sub_part_words :: "u64 list \<Rightarrow> u64 list \<Rightarrow> nat \<Rightarrow> int \<Rightarrow> u64 list \<times> u64" where
  "bn_sub_part_words a b cl dl =
     (let (r, c) = bn_sub_words a b cl
      in if dl = 0 then (r, c)
         else
           let (r', c) = (if dl < 0 then sub_part_neg c (take (nat (- dl)) (drop cl b))
                          else sub_part_pos c (take (nat dl) (drop cl a)))
           in (r @ r', c))"

definition bn_abs_sub_part_words :: "u64 list \<Rightarrow> u64 list \<Rightarrow> nat \<Rightarrow> int \<Rightarrow> u64 list \<times> u64" where
  "bn_abs_sub_part_words a b cl dl =
     (let (tmp, borrow) = bn_sub_part_words a b cl dl;
          (r, _) = bn_sub_part_words b a cl (- dl);
          r_len = cl + nat (if dl < 0 then - dl else dl);
          borrow = 0 - borrow
      in (bn_select_words borrow r tmp r_len, borrow))"

section \<open>The schoolbook product\<close>

text \<open>
  The loop takes four words of \<open>b\<close> before it moves its pointers; the step for each is the same, with
  the words of the result from position \<open>i\<close> on.
\<close>

fun mul_normal_loop :: "u64 list \<Rightarrow> nat \<Rightarrow> u64 list \<Rightarrow> nat \<Rightarrow> u64 list \<Rightarrow> u64 list" where
  "mul_normal_loop r i a na [] = r"
| "mul_normal_loop r i a na (w # b) =
     (let (row, c) = bn_mul_add_words (drop i r) a na w
      in mul_normal_loop (take i r @ row @ [c]) (i + 1) a na b)"

definition bn_mul_normal :: "u64 list \<Rightarrow> nat \<Rightarrow> u64 list \<Rightarrow> nat \<Rightarrow> u64 list" where
  "bn_mul_normal a na b nb =
     (let (a, na, b, nb) = (if na < nb then (b, nb, a, na) else (a, na, b, nb))
      in if nb = 0 then replicate na 0
         else
           let (r, c) = bn_mul_words a na (b ! 0)
           in mul_normal_loop (r @ [c]) 1 a na (take (nb - 1) (drop 1 b)))"

section \<open>The recursive product\<close>

text \<open>
  The end of both recursive functions: \<open>r\<close> holds \<open>a0 * b0\<close> and \<open>a1 * b1\<close>, \<open>t23\<close> the absolute value of
  \<open>(a0 - a1) * (b1 - b0)\<close>, and \<open>neg\<close> its sign. The carry that is left over comes second.
\<close>

definition mul_combine :: "nat \<Rightarrow> u64 list \<Rightarrow> u64 list \<Rightarrow> u64 \<Rightarrow> u64 list \<times> u64" where
  "mul_combine n r t23 neg =
     (let n2 = 2 * n;
          (t01, c) = bn_add_words r (drop n2 r) n2;
          (t45, borrow) = bn_sub_words t01 t23 n2;
          c_neg = c - borrow;
          (t23, carry) = bn_add_words t01 t23 n2;
          c_pos = c + carry;
          t23 = bn_select_words neg t45 t23 n2;
          c = constant_time_select_w neg c_neg c_pos;
          (mid, carry) = bn_add_words (drop n r) t23 n2;
          c = c + carry;
          (high, c) = carry_loop c (take n (drop (n + n2) r))
      in (take n r @ mid @ high, c))"

definition power_of_two :: "nat \<Rightarrow> bool" where
  "power_of_two n \<longleftrightarrow> n \<noteq> 0 \<and> n AND (n - 1) = 0"

function bn_mul_recursive :: "u64 list \<Rightarrow> u64 list \<Rightarrow> nat \<Rightarrow> int \<Rightarrow> int \<Rightarrow> u64 list option" where
  "bn_mul_recursive a b n2 dna dnb =
     (if \<not> power_of_two n2 then None
      else if \<not> (- 8 \<le> dna \<and> dna \<le> 0) then None
      else if \<not> (- 8 \<le> dnb \<and> dnb \<le> 0) then None
      else if n2 = 8 \<and> dna = 0 \<and> dnb = 0 then Some (bn_mul_comba8 a b)
      else if n2 < 16 then
        Some (bn_mul_normal a (nat (int n2 + dna)) b (nat (int n2 + dnb)) @ replicate (nat (- (dna + dnb))) 0)
      else
        let n = n2 div 2;
            tna = int n + dna;
            tnb = int n + dnb;
            (t0, neg) = bn_abs_sub_part_words a (drop n a) (nat tna) (int n - tna);
            (t1, neg') = bn_abs_sub_part_words (drop n b) b (nat tnb) (tnb - int n);
            neg = neg XOR neg'
        in (case
              (if n = 4 \<and> dna = 0 \<and> dnb = 0 then
                 (Some (bn_mul_comba4 t0 t1), Some (bn_mul_comba4 a b), Some (bn_mul_comba4 (drop n a) (drop n b)))
               else if n = 8 \<and> dna = 0 \<and> dnb = 0 then
                 (Some (bn_mul_comba8 t0 t1), Some (bn_mul_comba8 a b), Some (bn_mul_comba8 (drop n a) (drop n b)))
               else
                 (bn_mul_recursive t0 t1 n 0 0, bn_mul_recursive a b n 0 0,
                  bn_mul_recursive (drop n a) (drop n b) n dna dnb)) of
              (Some t23, Some r01, Some r23) \<Rightarrow>
                let (r, c) = mul_combine n (r01 @ r23) t23 neg
                in if c = 0 then Some r else None
            | _ \<Rightarrow> None))"
  by pat_completeness auto
termination by (relation "measure (\<lambda>(a, b, n2, dna, dnb). n2)") (auto simp: power_of_two_def)

declare bn_mul_recursive.simps [simp del]

text \<open>\<open>memset\<close> with a number of bytes that need not be whole words, which are little-endian.\<close>

definition zero_bytes :: "u64 list \<Rightarrow> nat \<Rightarrow> nat \<Rightarrow> u64 list" where
  "zero_bytes r i k =
     (let r = put_words r i (replicate (k div 8) 0);
          j = i + k div 8;
          s = 8 * (k mod 8)
      in if s = 0 then r else r[j := push_bit s (drop_bit s (r ! j))])"

text \<open>
  The loop that halves \<open>i\<close>, and whether it calls \<open>bn_mul_part_recursive\<close> or \<open>bn_mul_recursive\<close>.
\<close>

function part_split :: "nat \<Rightarrow> nat \<Rightarrow> nat \<Rightarrow> nat \<times> bool" where
  "part_split i tna tnb =
     (let i = i div 2
      in if i < tna \<or> i < tnb then (i, True)
         else if i = tna \<or> i = tnb then (i, False)
         else part_split i tna tnb)"
  by pat_completeness auto
termination by (relation "measure (\<lambda>(i, tna, tnb). i)") (auto intro: div_less_dividend)

declare part_split.simps [simp del]

lemma power_of_two_pos: "\<not> \<not> power_of_two n \<Longrightarrow> 0 < n"
  by (simp add: power_of_two_def)

lemma part_split_less: "0 < n \<Longrightarrow> part_split n tna tnb = (i, s) \<Longrightarrow> i < n"
proof (induction n tna tnb rule: part_split.induct)
  case (1 n tna tnb)
  show ?case
  proof (cases "n div 2 < tna \<or> n div 2 < tnb \<or> n div 2 = tna \<or> n div 2 = tnb")
    case True
    then have "i = n div 2" using 1(3) by (subst (asm) part_split.simps) (auto simp: Let_def split: if_splits)
    then show ?thesis using 1(2) by simp
  next
    case False
    then have p: "part_split (n div 2) tna tnb = (i, s)" "0 < n div 2"
      using 1(3) by (subst (asm) part_split.simps, auto simp: Let_def)
    have "i < n div 2" by (rule "1.IH" [OF refl _ _ p(2,1)]) (use False in auto)
    then show ?thesis by simp
  qed
qed

function bn_mul_part_recursive :: "u64 list \<Rightarrow> u64 list \<Rightarrow> u64 list \<Rightarrow> nat \<Rightarrow> int \<Rightarrow> int \<Rightarrow> u64 list option" where
  "bn_mul_part_recursive r a b n tna tnb =
     (if \<not> power_of_two n then None
      else if \<not> (0 \<le> tna \<and> tna < int n) then None
      else if \<not> (0 \<le> tnb \<and> tnb < int n) then None
      else if \<not> (- 1 \<le> tna - tnb \<and> tna - tnb \<le> 1) then None
      else
        let n2 = n * 2
        in if n < 8 then
             let r = put_words r 0 (bn_mul_normal a (n + nat tna) b (n + nat tnb))
             in Some (zero_bytes r (n2 + nat tna + nat tnb) (n2 - nat tna - nat tnb))
           else
             let (t0, neg) = bn_abs_sub_part_words a (drop n a) (nat tna) (int n - tna);
                 (t1, neg') = bn_abs_sub_part_words (drop n b) b (nat tnb) (tnb - int n);
                 neg = neg XOR neg'
             in (case
                   (if n = 8 then
                      (Some (bn_mul_comba8 t0 t1), Some (bn_mul_comba8 a b),
                       Some (bn_mul_normal (drop n a) (nat tna) (drop n b) (nat tnb) @ replicate (n2 - nat tna - nat tnb) 0))
                    else
                      (bn_mul_recursive t0 t1 n 0 0, bn_mul_recursive a b n 0 0,
                       let r23 = replicate n2 0
                       in if tna < 16 \<and> tnb < 16 then
                            Some (put_words r23 0 (bn_mul_normal (drop n a) (nat tna) (drop n b) (nat tnb)))
                          else
                            (case part_split n (nat tna) (nat tnb) of
                               (i, True) \<Rightarrow>
                                 bn_mul_part_recursive r23 (drop n a) (drop n b) i (tna - int i) (tnb - int i)
                             | (i, False) \<Rightarrow>
                                 map_option (put_words r23 0)
                                   (bn_mul_recursive (drop n a) (drop n b) i (tna - int i) (tnb - int i))))) of
                   (Some t23, Some r01, Some r23) \<Rightarrow>
                     let (r', c) = mul_combine n (r01 @ r23) t23 neg
                     in if c = 0 then Some (put_words r 0 r') else None
                 | _ \<Rightarrow> None))"
  by pat_completeness auto
termination
  by (relation "measure (\<lambda>(r, a, b, n, tna, tnb). n)")
    (simp, simp only: in_measure prod.case, rule part_split_less [OF _ sym], erule power_of_two_pos, assumption)

declare bn_mul_part_recursive.simps [simp del]

section \<open>Powers of two\<close>

lemma power_of_two [simp]: "power_of_two (2 ^ k)"
proof -
  have "(2 :: nat) ^ k AND (2 ^ k - 1) = take_bit k (2 ^ k)"
    by (simp only: mask_eq_exp_minus_1 take_bit_eq_mask)
  also have "\<dots> = 0" by (simp add: take_bit_eq_mod)
  finally show ?thesis unfolding power_of_two_def by (intro conjI) simp
qed

section \<open>What the differences compute\<close>

lemma borrow_cases: "unat (c :: u64) \<le> 1 \<Longrightarrow> c = 0 \<or> c = 1"
  by (auto simp: word_unat_eq_iff le_Suc_eq)

lemma sub_part_neg_value:
  "sub_part_neg c b = (r, c') \<Longrightarrow> unat c \<le> 1 \<Longrightarrow>
   length r = length b \<and> unat c' \<le> 1 \<and> bn_val r + bn_val b + unat c = radix ^ length b * unat c'"
proof (induction b arbitrary: c r)
  case (Cons t b)
  define c1 :: u64 where "c1 = (if t \<noteq> 0 then 1 else c)"
  obtain r1 where r1: "sub_part_neg c1 b = (r1, c')" "r = (0 - t - c) # r1"
    using Cons.prems(1) by (auto simp: c1_def Let_def split: prod.splits)
  have "unat c1 \<le> 1" using Cons.prems(2) by (simp add: c1_def)
  note ih = Cons.IH [OF r1(1) this]
  have "int (unat (0 - t - c)) = int (unat (0 :: u64)) - int (unat t) - int (unat c) +
      (if unat (0 :: u64) < unat t + unat c then int radix else 0)"
    by (rule sub_limbs [OF Cons.prems(2)])
  moreover have "unat (0 :: u64) < unat t + unat c \<longleftrightarrow> unat c1 = 1"
    using borrow_cases [OF Cons.prems(2)] by (auto simp: c1_def unat_gt_0)
  ultimately have "unat (0 - t - c) + unat t + unat c = radix * unat c1"
    using \<open>unat c1 \<le> 1\<close> by (cases "unat c1 = 1") (simp_all del: of_nat_unat)
  then have "0 + radix * unat c1 = unat (0 - t - c) + unat t + unat c" by simp
  then have "0 + radix * 0 + radix * (radix ^ length b * unat c') = unat (0 - t - c) + unat t + unat c + radix * (bn_val r1 + bn_val b)"
    by (rule horner_step) (use ih in simp)
  then show ?case using ih r1(2) by (simp add: distrib_left mult.assoc)
qed simp

lemma sub_part_four_value:
  "sub_part_four n c a = (r, c', a') \<Longrightarrow> unat c \<le> 1 \<Longrightarrow>
   length r = min n (length a) \<and> a' = drop n a \<and> unat c' \<le> 1 \<and>
   bn_val r + unat c = bn_val (take n a) + radix ^ min n (length a) * unat c'"
proof (induction n c a arbitrary: r rule: sub_part_four.induct)
  case (3 n c t a)
  define c1 :: u64 where "c1 = (if t \<noteq> 0 then 0 else c)"
  obtain r1 where r1: "sub_part_four n c1 a = (r1, c', a')" "r = (t - c) # r1"
    using "3.prems"(1) by (auto simp: c1_def Let_def split: prod.splits)
  have c1: "unat c1 \<le> 1" using "3.prems"(2) by (simp add: c1_def)
  have ih: "length r1 = min n (length a) \<and> a' = drop n a \<and> unat c' \<le> 1 \<and>
      bn_val r1 + unat c1 = bn_val (take n a) + radix ^ min n (length a) * unat c'"
    by (rule "3.IH" [OF refl r1(1) [unfolded c1_def] c1 [unfolded c1_def], folded c1_def])
  have t0: "t = 0 \<longleftrightarrow> unat t = 0" by (simp add: unat_eq_zero)
  have "unat t + radix * unat c1 = unat (t - c) + unat c"
    using "3.prems"(2) limb_less [of t] unat_sub_wrap [of t c] unfolding c1_def t0 word_le_nat_alt radix_def
    by (cases "unat t = 0"; cases "unat c = 0") (auto split: if_splits)
  then have "unat t + radix * bn_val (take n a) + radix * (radix ^ min n (length a) * unat c') =
      unat (t - c) + unat c + radix * bn_val r1"
    by (rule horner_step) (use ih in simp)
  then show ?case using ih r1(2) by (simp add: mult.assoc)
qed auto

lemma sub_part_pos_value:
  "sub_part_pos c a = (r, c') \<Longrightarrow> unat c \<le> 1 \<Longrightarrow>
   length r = length a \<and> unat c' \<le> 1 \<and> bn_val r + unat c = bn_val a + radix ^ length a * unat c'"
proof (induction c a arbitrary: r rule: sub_part_pos.induct)
  case (1 c a)
  show ?case
  proof (cases "c = 0 \<or> a = []")
    case True
    then have "r = a" "c' = c" using 1(2) by (simp_all add: sub_part_pos.simps)
    then show ?thesis using 1(3) True by auto
  next
    case False
    obtain r1 c1 a1 where f: "sub_part_four 4 c a = (r1, c1, a1)" using prod_cases3 by blast
    obtain r2 where p: "sub_part_pos c1 a1 = (r2, c')" "r = r1 @ r2"
      using 1(2) False by (subst (asm) sub_part_pos.simps) (auto simp: Let_def f split: prod.splits)
    note four = sub_part_four_value [OF f 1(3)]
    have ih: "length r2 = length a1 \<and> unat c' \<le> 1 \<and> bn_val r2 + unat c1 = bn_val a1 + radix ^ length a1 * unat c'"
      using "1.IH" [OF False f [symmetric] refl refl p(1)] four by simp
    have a: "a = take 4 a @ a1" using four by simp
    have l: "length a = length r1 + length a1" using four by auto
    have "bn_val a = bn_val (take 4 a) + radix ^ length r1 * bn_val a1"
      using arg_cong [OF a, of bn_val] four unfolding bn_val_append by (simp add: min.commute)
    moreover have "bn_val (take 4 a) + radix ^ length r1 * unat c1 = bn_val r1 + unat c"
      using four by (simp add: min.commute)
    then have "bn_val (take 4 a) + radix ^ length r1 * bn_val a1 + radix ^ length r1 * (radix ^ length a1 * unat c') =
        bn_val r1 + unat c + radix ^ length r1 * bn_val r2"
      by (rule horner_step) (use ih in simp)
    ultimately have "bn_val r + unat c = bn_val a + radix ^ length a * unat c'"
      unfolding p(2) bn_val_append l power_add by (simp add: mult.assoc)
    then show ?thesis using ih p(2) l by simp
  qed
qed

lemma sub_part_words_value:
  assumes "bn_sub_part_words a b cl dl = (r, c)" "cl + nat dl \<le> length a" "cl + nat (- dl) \<le> length b"
  shows "length r = cl + nat \<bar>dl\<bar> \<and> unat c \<le> 1 \<and>
    bn_val r + bn_val (take (cl + nat (- dl)) b) = bn_val (take (cl + nat dl) a) + radix ^ length r * unat c"
proof -
  obtain r0 c0 where s: "bn_sub_words a b cl = (r0, c0)" by fastforce
  note v = bn_sub_words_value [OF s]
  have t: "bn_val (take (cl + k) x) = bn_val (take cl x) + radix ^ cl * bn_val (take k (drop cl x))"
    if "cl \<le> length x" for x k
    unfolding take_add bn_val_append using that by (simp add: min_absorb2)
  show ?thesis
  proof (cases "dl = 0")
    case True
    then show ?thesis using assms v by (simp add: bn_sub_part_words_def s)
  next
    case nz: False
    obtain r1 where r1: "(if dl < 0 then sub_part_neg c0 (take (nat (- dl)) (drop cl b))
        else sub_part_pos c0 (take (nat dl) (drop cl a))) = (r1, c)" "r = r0 @ r1"
      using assms(1) nz by (auto simp: bn_sub_part_words_def s Let_def split: prod.splits)
    have l: "cl \<le> length a" "cl \<le> length b" using assms(2,3) by simp_all
    have v0: "length r0 = cl" "unat c0 \<le> 1" "bn_val (take cl a) + radix ^ cl * unat c0 = bn_val r0 + bn_val (take cl b)"
      using v l by simp_all
    show ?thesis
    proof (cases "dl < 0")
      case True
      then have "sub_part_neg c0 (take (nat (- dl)) (drop cl b)) = (r1, c)" using r1(1) by simp
      note neg = sub_part_neg_value [OF this v0(2)]
      have lb: "length (take (nat (- dl)) (drop cl b)) = nat (- dl)" using assms(3) by simp
      have "bn_val (take cl a) + radix ^ cl * 0 + radix ^ cl * (radix ^ nat (- dl) * unat c) =
          bn_val r0 + bn_val (take cl b) + radix ^ cl * (bn_val r1 + bn_val (take (nat (- dl)) (drop cl b)))"
        by (rule horner_step [OF v0(3)]) (use neg lb in simp)
      then show ?thesis using True neg lb v0(1) t [OF l(2), of "nat (- dl)"] unfolding r1(2) bn_val_append
        by (simp add: distrib_left power_add mult.assoc)
    next
      case False
      then have "sub_part_pos c0 (take (nat dl) (drop cl a)) = (r1, c)" using r1(1) by simp
      note pos = sub_part_pos_value [OF this v0(2)]
      have la: "length (take (nat dl) (drop cl a)) = nat dl" using assms(2) by simp
      have "bn_val (take cl a) + radix ^ cl * bn_val (take (nat dl) (drop cl a)) + radix ^ cl * (radix ^ nat dl * unat c) =
          bn_val r0 + bn_val (take cl b) + radix ^ cl * bn_val r1"
        by (rule horner_step [OF v0(3)]) (use pos la in simp)
      then show ?thesis using False pos la v0(1) t [OF l(1), of "nat dl"] unfolding r1(2) bn_val_append
        by (simp add: power_add mult.assoc)
    qed
  qed
qed

definition abs_diff :: "nat \<Rightarrow> nat \<Rightarrow> nat" where
  "abs_diff x y = (x - y) + (y - x)"

text \<open>A difference that is not below zero fits and leaves no borrow.\<close>

lemma borrow_value:
  assumes "v + y = x + R * unat (c :: u64)" "unat c \<le> 1" "v < R" "x < R"
  shows "c = (if x < y then 1 else 0) \<and> (y \<le> x \<longrightarrow> v = x - y)"
proof -
  consider "c = 0" | "c = 1" using borrow_cases [OF assms(2)] by blast
  then show ?thesis using assms(1,3,4) by cases auto
qed

lemma select_words_value:
  "length x = n \<Longrightarrow> length y = n \<Longrightarrow> bn_select_words (if P then - 1 else 0) x y n = (if P then x else y)"
  by (auto simp: bn_select_words_def select_w_value intro: nth_equalityI)

lemma abs_sub_part_words_value:
  assumes "bn_abs_sub_part_words a b cl dl = (r, m)" "cl + nat dl \<le> length a" "cl + nat (- dl) \<le> length b"
  shows "length r = cl + nat \<bar>dl\<bar> \<and>
    bn_val r = abs_diff (bn_val (take (cl + nat dl) a)) (bn_val (take (cl + nat (- dl)) b)) \<and>
    m = (if bn_val (take (cl + nat dl) a) < bn_val (take (cl + nat (- dl)) b) then - 1 else 0)"
proof -
  let ?a = "bn_val (take (cl + nat dl) a)" and ?b = "bn_val (take (cl + nat (- dl)) b)" and ?n = "cl + nat \<bar>dl\<bar>"
  obtain t c r' c' where s: "bn_sub_part_words a b cl dl = (t, c)" "bn_sub_part_words b a cl (- dl) = (r', c')"
    by (meson surj_pair)
  have v: "length t = ?n" "unat c \<le> 1" "bn_val t + ?b = ?a + radix ^ ?n * unat c"
    using sub_part_words_value [OF s(1)] assms(2,3) by simp_all
  have v': "length r' = ?n" "unat c' \<le> 1" "bn_val r' + ?a = ?b + radix ^ ?n * unat c'"
    using sub_part_words_value [OF s(2)] assms(2,3) by simp_all
  have le: "cl + nat dl \<le> ?n" "cl + nat (- dl) \<le> ?n" by simp_all
  have "?a < radix ^ (cl + nat dl)" "?b < radix ^ (cl + nat (- dl))"
    using bn_val_less [of "take (cl + nat dl) a"] bn_val_less [of "take (cl + nat (- dl)) b"] assms(2,3) by (simp_all add: min_absorb2)
  moreover have "radix ^ (cl + nat dl) \<le> radix ^ ?n" "radix ^ (cl + nat (- dl)) \<le> radix ^ ?n"
    using le by (auto intro!: power_increasing simp del: add_le_cancel_left)
  ultimately have less: "?a < radix ^ ?n" "?b < radix ^ ?n" by linarith+
  have tl: "bn_val t < radix ^ ?n" "bn_val r' < radix ^ ?n" using bn_val_less [of t] bn_val_less [of r'] v(1) v'(1) by simp_all
  note b = borrow_value [OF v(3,2) tl(1) less(1)] and b' = borrow_value [OF v'(3,2) tl(2) less(2)]
  have m: "m = (if ?a < ?b then - 1 else 0)" "r = bn_select_words m r' t ?n"
    using assms(1) b by (auto simp: bn_abs_sub_part_words_def s Let_def abs_if)
  then have "r = (if ?a < ?b then r' else t)" using v(1) v'(1) by (simp add: select_words_value)
  then show ?thesis using m(1) b b' v(1) v'(1) by (auto simp: abs_diff_def)
qed

section \<open>What the schoolbook product computes\<close>

lemma mul_normal_loop_value:
  "length r = i + na \<Longrightarrow> na \<le> length a \<Longrightarrow>
   length (mul_normal_loop r i a na b) = i + na + length b \<and>
   bn_val (mul_normal_loop r i a na b) = bn_val r + radix ^ i * (bn_val (take na a) * bn_val b)"
proof (induction b arbitrary: r i)
  case (Cons w b)
  obtain row c where row: "bn_mul_add_words (drop i r) a na w = (row, c)" by fastforce
  note v = bn_mul_add_words_value [OF row]
  let ?r = "take i r @ row @ [c]"
  have l: "length row = na" "length ?r = Suc i + na" using v Cons.prems by simp_all
  have "bn_val row + radix ^ na * unat c = bn_val (drop i r) + unat w * bn_val (take na a)"
    using v Cons.prems by simp
  moreover have "bn_val r = bn_val (take i r) + radix ^ i * bn_val (drop i r)"
    using arg_cong [OF append_take_drop_id [of i r, symmetric], of bn_val] Cons.prems(1)
    unfolding bn_val_append by (simp add: min_absorb2)
  moreover have "bn_val ?r = bn_val (take i r) + radix ^ i * (bn_val row + radix ^ na * unat c)"
    using l(1) Cons.prems(1) by (simp add: bn_val_append min_absorb2)
  ultimately have "bn_val ?r = bn_val r + radix ^ i * (unat w * bn_val (take na a))"
    by (simp add: distrib_left)
  then show ?case using Cons.IH [OF l(2) Cons.prems(2)] row by (simp add: algebra_simps)
qed simp

lemma mul_normal_value:
  assumes "na \<le> length a" "nb \<le> length b"
  shows "length (bn_mul_normal a na b nb) = na + nb \<and>
    bn_val (bn_mul_normal a na b nb) = bn_val (take na a) * bn_val (take nb b)"
proof -
  have main: "length (bn_mul_normal a na b nb) = na + nb \<and>
      bn_val (bn_mul_normal a na b nb) = bn_val (take na a) * bn_val (take nb b)"
    if l: "na \<le> length a" "nb \<le> length b" and le: "nb \<le> na" for a b na nb
  proof (cases nb)
    case 0
    then show ?thesis by (simp add: bn_mul_normal_def Let_def)
  next
    case (Suc k)
    obtain w b' where b: "b = w # b'" using l(2) Suc by (cases b) auto
    obtain r c where r: "bn_mul_words a na w = (r, c)" by fastforce
    note v = bn_mul_words_value [OF r l(1)]
    have e: "bn_mul_normal a na b nb = mul_normal_loop (r @ [c]) 1 a na (take k b')"
      using le Suc b r by (simp add: bn_mul_normal_def Let_def)
    have "length (take k b') = k" using l(2) Suc b by simp
    then show ?thesis unfolding e using mul_normal_loop_value [of "r @ [c]" 1 na a "take k b'"] v l(1)
      by (simp add: Suc b bn_val_append algebra_simps)
  qed
  show ?thesis
  proof (cases "na < nb")
    case True
    then have "bn_mul_normal a na b nb = bn_mul_normal b nb a na" by (simp add: bn_mul_normal_def)
    then show ?thesis using main [OF assms(2,1)] True by (simp add: mult.commute)
  qed (use main assms in simp)
qed

section \<open>What the recursive product computes\<close>

lemma carry_loop_any:
  "carry_loop c as = (r, c') \<Longrightarrow> length r = length as \<and> bn_val r + radix ^ length as * unat c' = bn_val as + unat c"
proof (induction as arbitrary: c r)
  case (Cons a as)
  define c1 :: u64 where "c1 = (if c + a < a then 1 else 0)"
  obtain r1 where r1: "carry_loop c1 as = (r1, c')" "r = (c + a) # r1"
    using Cons.prems(1) by (auto simp: c1_def Let_def split: prod.splits)
  have c: "unat (c + a) + radix * unat c1 = unat a + unat c"
    using limb_less [of a] limb_less [of c] unfolding c1_def radix_def word_less_nat_alt
    by (auto simp: unat_word_ariths mod_if)
  note ih = Cons.IH [OF r1(1)]
  have "unat (c + a) + radix * bn_val r1 + radix * (radix ^ length as * unat c') = unat a + unat c + radix * bn_val as"
    by (rule horner_step [OF c]) (use ih in simp)
  then show ?case using ih r1(2) by (simp add: mult.assoc)
qed simp

text \<open>The middle term: the sum of the outer products plus or minus the product of the differences.\<close>

definition middle :: "bool \<Rightarrow> nat \<Rightarrow> nat \<Rightarrow> nat" where
  "middle neg s t = (if neg then s - t else s + t)"

lemma split_words_value:
  "length r = i + k \<Longrightarrow> bn_val r = bn_val (take i r) + radix ^ i * bn_val (drop i r)"
  using arg_cong [OF append_take_drop_id [of i r, symmetric], of bn_val]
  unfolding bn_val_append by (simp add: min_absorb2)

lemma mul_combine_value:
  assumes "length r = 4 * n" "length t23 = 2 * n" "mul_combine n r t23 (if neg then - 1 else 0) = (r', c)"
    "neg \<longrightarrow> bn_val t23 \<le> bn_val (take (2 * n) r) + bn_val (drop (2 * n) r)"
  shows "length r' = 4 * n \<and> bn_val r' + radix ^ (4 * n) * unat c =
    bn_val r + radix ^ n * middle neg (bn_val (take (2 * n) r) + bn_val (drop (2 * n) r)) (bn_val t23)"
proof -
  let ?n2 = "2 * n" and ?S = "bn_val (take (2 * n) r) + bn_val (drop (2 * n) r)" and ?T = "bn_val t23"
  let ?B = "radix ^ (2 * n)"
  obtain t01 c1 where a1: "bn_add_words r (drop ?n2 r) ?n2 = (t01, c1)" by fastforce
  obtain t45 bo where s1: "bn_sub_words t01 t23 ?n2 = (t45, bo)" by fastforce
  obtain u23 ca where a2: "bn_add_words t01 t23 ?n2 = (u23, ca)" by fastforce
  define m where "m = bn_select_words (if neg then - 1 else 0) t45 u23 ?n2"
  define cm where "cm = constant_time_select_w (if neg then - 1 else 0) (c1 - bo) (c1 + ca)"
  obtain mid ca' where a3: "bn_add_words (drop n r) m ?n2 = (mid, ca')" by fastforce
  obtain high where l: "carry_loop (cm + ca') (take n (drop (n + ?n2) r)) = (high, c)" and r': "r' = take n r @ mid @ high"
    using assms(3) by (auto simp: mul_combine_def Let_def a1 s1 a2 a3 m_def [symmetric] cm_def [symmetric] split: prod.splits)
  have v1: "length t01 = ?n2" "unat c1 \<le> 1" "bn_val t01 + ?B * unat c1 = ?S"
    using bn_add_words_value [OF a1] assms(1) by simp_all
  have v2: "length t45 = ?n2" "unat bo \<le> 1" "bn_val t45 + ?T = bn_val t01 + ?B * unat bo"
    using bn_sub_words_value [OF s1] assms(2) v1(1) by simp_all
  have v3: "length u23 = ?n2" "unat ca \<le> 1" "bn_val u23 + ?B * unat ca = bn_val t01 + ?T"
    using bn_add_words_value [OF a2] assms(2) v1(1) by simp_all
  have m: "length m = ?n2" "m = (if neg then t45 else u23)" using v2(1) v3(1) by (simp_all add: m_def select_words_value)
  have cm: "cm = (if neg then c1 - bo else c1 + ca)" unfolding cm_def by (rule select_w_value)
  have mv: "bn_val m + ?B * unat cm = middle neg ?S ?T \<and> unat cm \<le> 2"
  proof (cases neg)
    case True
    have "unat bo \<le> unat c1"
    proof (rule ccontr)
      assume "\<not> unat bo \<le> unat c1"
      then have "c1 = 0" "bo = 1" using borrow_cases [OF v1(2)] borrow_cases [OF v2(2)] by auto
      then show False using v1(3) v2(3) bn_val_less [of t45] v2(1) assms(4) True by simp
    qed
    then have "unat (c1 - bo) = unat c1 - unat bo" by (simp add: unat_sub_le word_le_nat_alt)
    moreover have "bn_val t45 + ?T + ?B * unat c1 = ?S + ?B * unat bo" using v1(3) v2(3) by linarith
    moreover have "?B * unat c1 = ?B * (unat c1 - unat bo) + ?B * unat bo"
      using \<open>unat bo \<le> unat c1\<close> by (simp flip: distrib_left)
    ultimately have "bn_val t45 + ?B * (unat c1 - unat bo) = ?S - ?T" by linarith
    then show ?thesis using m(2) True v1(2) \<open>unat (c1 - bo) = unat c1 - unat bo\<close> by (simp add: cm middle_def)
  next
    case False
    have "unat (c1 + ca) = unat c1 + unat ca" using v1(2) v3(2) by (simp add: unat_add_no_overflow)
    then show ?thesis using m(2) False v1 v3 by (simp add: cm middle_def distrib_left)
  qed
  have v4: "length mid = ?n2" "unat ca' \<le> 1" "bn_val mid + ?B * unat ca' = bn_val (take ?n2 (drop n r)) + bn_val m"
    using bn_add_words_value [OF a3] assms(1) m(1) by simp_all
  have cs: "unat (cm + ca') = unat cm + unat ca'" using mv v4(2) by (simp add: unat_add_no_overflow)
  let ?h = "take n (drop (n + ?n2) r)"
  have lh: "length ?h = n" using assms(1) by simp
  have v5: "length high = n" "bn_val high + radix ^ n * unat c = bn_val ?h + (unat cm + unat ca')"
    using carry_loop_any [OF l] cs lh by simp_all
  have rv: "bn_val r = bn_val (take n r) + radix ^ n * (bn_val (take ?n2 (drop n r)) + ?B * bn_val ?h)"
  proof -
    have "bn_val r = bn_val (take n r) + radix ^ n * bn_val (drop n r)" by (rule split_words_value) (use assms(1) in simp)
    also have "bn_val (drop n r) = bn_val (take ?n2 (drop n r)) + ?B * bn_val (drop ?n2 (drop n r))"
      by (rule split_words_value [where k = n]) (use assms(1) in simp)
    finally show ?thesis using assms(1) by (simp add: add.commute)
  qed
  have "bn_val mid + ?B * bn_val high + ?B * (radix ^ n * unat c) =
      bn_val (take ?n2 (drop n r)) + bn_val m + ?B * (bn_val ?h + unat cm)"
    by (rule horner_step [OF v4(3)]) (use v5(2) in simp)
  then have e: "bn_val mid + ?B * bn_val high + ?B * (radix ^ n * unat c) =
      bn_val (take ?n2 (drop n r)) + ?B * bn_val ?h + middle neg ?S ?T"
    using mv by (simp add: distrib_left)
  have "bn_val r' + radix ^ (4 * n) * unat c =
      bn_val (take n r) + radix ^ n * (bn_val mid + ?B * bn_val high + ?B * (radix ^ n * unat c))"
    unfolding r' bn_val_append using assms(1) v4(1)
    by (simp add: min_absorb2 distrib_left mult.assoc power_add [symmetric] flip: mult.assoc) 
  also have "\<dots> = bn_val r + radix ^ n * middle neg ?S ?T" unfolding e rv by (simp add: distrib_left)
  finally show ?thesis using r' assms(1) v4(1) v5(1) by simp
qed

lemma abs_diff_le: "x \<le> y \<Longrightarrow> y = x + abs_diff x y \<and> x + abs_diff x y = y" "y \<le> x \<Longrightarrow> x = y + abs_diff x y"
  by (simp_all add: abs_diff_def)

lemma karatsuba:
  fixes a0 a1 b0 b1 :: nat
  defines "neg \<equiv> ((a0 < a1) \<noteq> (b1 < b0))" and "s \<equiv> a0 * b0 + a1 * b1" and "t \<equiv> abs_diff a0 a1 * abs_diff b1 b0"
  shows "middle neg s t = a0 * b1 + a1 * b0 \<and> (neg \<longrightarrow> t \<le> s)"
proof -
  obtain d where a: "a0 = a1 + d \<and> abs_diff a0 a1 = d \<and> \<not> a0 < a1 \<or> a1 = a0 + d \<and> abs_diff a0 a1 = d \<and> a0 < a1"
    using le_Suc_ex [of a1 a0] le_Suc_ex [of a0 a1] by (cases "a0 < a1") (auto simp: abs_diff_def)
  obtain e where b: "b1 = b0 + e \<and> abs_diff b1 b0 = e \<and> \<not> b1 < b0 \<or> b0 = b1 + e \<and> abs_diff b1 b0 = e \<and> b1 < b0"
    using le_Suc_ex [of b1 b0] le_Suc_ex [of b0 b1] by (cases "b1 < b0") (auto simp: abs_diff_def)
  show ?thesis unfolding neg_def s_def t_def middle_def
    using a b by (elim disjE conjE) (simp_all add: algebra_simps)
qed

lemma sign_xor: "(if p then - 1 else 0) XOR (if q then - 1 else 0) = (if p \<noteq> q then - 1 else (0 :: u64))"
  by simp

text \<open>One step of the recursion: three products of halves give the product of the wholes.\<close>

lemma split_lengths:
  assumes "tna \<le> n" "tnb \<le> n"
  shows "tna + nat (int n - int tna) = n" "tnb + nat (- (int tnb - int n)) = n"
    "nat (- (int n - int tna)) = 0" "nat (int tnb - int n) = 0"
    "nat \<bar>int n - int tna\<bar> = n - tna" "nat \<bar>int tnb - int n\<bar> = n - tnb"
  using assms by simp_all

lemma halves_difference:
  assumes room: "tna \<le> n" "tnb \<le> n" "n + tna \<le> length a" "n + tnb \<le> length b"
    and sub: "bn_abs_sub_part_words a (drop n a) tna (int n - int tna) = (t0, neg)"
    "bn_abs_sub_part_words (drop n b) b tnb (int tnb - int n) = (t1, neg')"
  shows "length t0 = n" "length t1 = n"
    "bn_val t0 = abs_diff (bn_val (take n a)) (bn_val (take tna (drop n a)))"
    "bn_val t1 = abs_diff (bn_val (take tnb (drop n b))) (bn_val (take n b))"
    "neg XOR neg' = (if (bn_val (take n a) < bn_val (take tna (drop n a))) \<noteq> (bn_val (take tnb (drop n b)) < bn_val (take n b))
       then - 1 else 0)"
  using abs_sub_part_words_value [OF sub(1)] abs_sub_part_words_value [OF sub(2)] room
  unfolding split_lengths [OF room(1,2)] by (simp_all add: sign_xor)

lemma karatsuba_step:
  assumes room: "tna \<le> n" "tnb \<le> n" "n + tna \<le> length a" "n + tnb \<le> length b"
    and step: "bn_abs_sub_part_words a (drop n a) tna (int n - int tna) = (t0, neg)"
    "bn_abs_sub_part_words (drop n b) b tnb (int tnb - int n) = (t1, neg')"
    "length t23 = 2 * n" "bn_val t23 = bn_val t0 * bn_val t1"
    "length r01 = 2 * n" "bn_val r01 = bn_val (take n a) * bn_val (take n b)"
    "length r23 = 2 * n" "bn_val r23 = bn_val (take tna (drop n a)) * bn_val (take tnb (drop n b))"
    "mul_combine n (r01 @ r23) t23 (neg XOR neg') = (r, c)"
  shows "c = 0 \<and> length r = 4 * n \<and> bn_val r = bn_val (take (n + tna) a) * bn_val (take (n + tnb) b)"
proof -
  let ?a0 = "bn_val (take n a)" and ?a1 = "bn_val (take tna (drop n a))"
  let ?b0 = "bn_val (take n b)" and ?b1 = "bn_val (take tnb (drop n b))"
  let ?neg = "(?a0 < ?a1) \<noteq> (?b1 < ?b0)"
  note d = halves_difference [OF room step(1,2)]
  have t: "bn_val t23 = abs_diff ?a0 ?a1 * abs_diff ?b1 ?b0" using step(4) d by simp
  note k = karatsuba [of ?a0 ?a1 ?b1 ?b0, folded t]
  have comb: "mul_combine n (r01 @ r23) t23 (if ?neg then - 1 else 0) = (r, c)" using step(9) d(5) by simp
  have "length (r01 @ r23) = 4 * n" using step(5,7) by simp
  note m = mul_combine_value [OF this step(3) comb]
  have le: "?neg \<longrightarrow> bn_val t23 \<le> bn_val (take (2 * n) (r01 @ r23)) + bn_val (drop (2 * n) (r01 @ r23))"
    using k step(5-8) by simp
  have "bn_val (take (2 * n) (r01 @ r23)) + bn_val (drop (2 * n) (r01 @ r23)) = ?a0 * ?b0 + ?a1 * ?b1"
    using step(5-8) by simp
  then have v: "bn_val r + radix ^ (4 * n) * unat c = bn_val (r01 @ r23) + radix ^ n * (?a0 * ?b1 + ?a1 * ?b0)"
    using m [OF le] k by simp
  have w: "bn_val (take (n + tna) a) = ?a0 + radix ^ n * ?a1" "bn_val (take (n + tnb) b) = ?b0 + radix ^ n * ?b1"
    unfolding take_add bn_val_append using room by (simp_all add: min_absorb2)
  have p: "radix ^ (2 * n) = radix ^ n * radix ^ n" by (simp add: mult_2 power_add)
  have "bn_val (r01 @ r23) = ?a0 * ?b0 + radix ^ (2 * n) * (?a1 * ?b1)" using step(5-8) by (simp add: bn_val_append)
  then have e: "bn_val r + radix ^ (4 * n) * unat c = bn_val (take (n + tna) a) * bn_val (take (n + tnb) b)"
    unfolding v w p by (simp add: algebra_simps)
  have "bn_val (take (n + tna) a) * bn_val (take (n + tnb) b) < radix ^ ((n + tna) + (n + tnb))"
    by (rule product_fits) (use room in simp_all)
  also have "\<dots> \<le> radix ^ (4 * n)" using room by (intro power_increasing) (simp_all add: Suc_le_eq)
  finally have less: "bn_val r + radix ^ (4 * n) * unat c < radix ^ (4 * n)" unfolding e .
  have "unat c = 0"
  proof (rule ccontr)
    assume "unat c \<noteq> 0"
    then have "radix ^ (4 * n) * 1 \<le> radix ^ (4 * n) * unat c" by (intro mult_le_mono2) simp
    then show False using less by linarith
  qed
  then show ?thesis using e m [OF le] by (simp add: unat_eq_zero)
qed

lemma bn_mul_recursive_value:
  "3 \<le> k \<Longrightarrow> - 8 \<le> dna \<Longrightarrow> dna \<le> 0 \<Longrightarrow> - 8 \<le> dnb \<Longrightarrow> dnb \<le> 0 \<Longrightarrow>
   nat (2 ^ k + dna) \<le> length a \<Longrightarrow> nat (2 ^ k + dnb) \<le> length b \<Longrightarrow>
   \<exists>r. bn_mul_recursive a b (2 ^ k) dna dnb = Some r \<and> length r = 2 * 2 ^ k \<and>
     bn_val r = bn_val (take (nat (2 ^ k + dna)) a) * bn_val (take (nat (2 ^ k + dnb)) b)"
proof (induction k arbitrary: a b dna dnb)
  case (Suc k)
  let ?n = "2 ^ k :: nat"
  show ?case
  proof (cases "Suc k = 3")
    case True
    then have n2: "(2 :: nat) ^ Suc k = 8" "(2 :: int) ^ Suc k = 8" by simp_all
    have l: "nat (8 + dna) \<le> length a" "nat (8 + dnb) \<le> length b" using Suc.prems n2 by simp_all
    note p2 = power_of_two [of 3]
    show ?thesis
    proof (cases "dna = 0 \<and> dnb = 0")
      case zero: True
      then have "bn_mul_recursive a b 8 dna dnb = Some (bn_mul_comba8 a b)"
        using p2 by (simp add: bn_mul_recursive.simps)
      then show ?thesis unfolding n2 using mul_comba8_prefix [of a b] zero l by simp
    next
      case False
      then have e: "bn_mul_recursive a b 8 dna dnb =
          Some (bn_mul_normal a (nat (8 + dna)) b (nat (8 + dnb)) @ replicate (nat (- (dna + dnb))) 0)"
        using p2 Suc.prems False by (subst bn_mul_recursive.simps) auto
      have "nat (8 + dna) + nat (8 + dnb) + nat (- (dna + dnb)) = 16" using Suc.prems by simp
      then show ?thesis unfolding n2 e using mul_normal_value [OF l] by (simp add: bn_val_append)
    qed
  next
    case False
    then have k: "3 \<le> k" using Suc.prems(1) by simp
    have n8: "8 \<le> ?n" using power_increasing [OF k, of "2 :: nat"] by simp
    then have n8': "8 \<le> int ?n" by (simp only: of_nat_le_iff [symmetric] of_nat_numeral)
    define tna tnb where "tna = nat (int ?n + dna)" and "tnb = nat (int ?n + dnb)"
    have t: "int ?n + dna = int tna" "int ?n + dnb = int tnb" "tna \<le> ?n" "tnb \<le> ?n"
      using n8' Suc.prems unfolding tna_def tnb_def by simp_all
    have n2: "(2 :: nat) ^ Suc k = 2 * ?n" "(2 :: int) ^ Suc k = 2 * int ?n" by simp_all
    have "2 ^ Suc k + dna = int (?n + tna)" "2 ^ Suc k + dnb = int (?n + tnb)" using t by simp_all
    then have whole: "nat (2 ^ Suc k + dna) = ?n + tna" "nat (2 ^ Suc k + dnb) = ?n + tnb" by (simp_all only: nat_int)
    then have room: "tna \<le> ?n" "tnb \<le> ?n" "?n + tna \<le> length a" "?n + tnb \<le> length b"
      using t Suc.prems(6,7) by simp_all
    obtain t0 neg t1 neg' where s: "bn_abs_sub_part_words a (drop ?n a) tna (int ?n - int tna) = (t0, neg)"
      "bn_abs_sub_part_words (drop ?n b) b tnb (int tnb - int ?n) = (t1, neg')" by (meson surj_pair)
    note d = halves_difference [OF room s]
    let ?P = "if ?n = 4 \<and> dna = 0 \<and> dnb = 0 then
                 (Some (bn_mul_comba4 t0 t1), Some (bn_mul_comba4 a b), Some (bn_mul_comba4 (drop ?n a) (drop ?n b)))
               else if ?n = 8 \<and> dna = 0 \<and> dnb = 0 then
                 (Some (bn_mul_comba8 t0 t1), Some (bn_mul_comba8 a b), Some (bn_mul_comba8 (drop ?n a) (drop ?n b)))
               else
                 (bn_mul_recursive t0 t1 ?n 0 0, bn_mul_recursive a b ?n 0 0,
                  bn_mul_recursive (drop ?n a) (drop ?n b) ?n dna dnb)"
    have "\<exists>t23 r01 r23. ?P = (Some t23, Some r01, Some r23) \<and> length t23 = 2 * ?n \<and> bn_val t23 = bn_val t0 * bn_val t1 \<and>
        length r01 = 2 * ?n \<and> bn_val r01 = bn_val (take ?n a) * bn_val (take ?n b) \<and>
        length r23 = 2 * ?n \<and> bn_val r23 = bn_val (take tna (drop ?n a)) * bn_val (take tnb (drop ?n b))"
    proof (cases "?n = 8 \<and> dna = 0 \<and> dnb = 0")
      case True
      then have "tna = 8" "tnb = 8" using t by simp_all
      then show ?thesis using True room d(1,2) mul_comba8_prefix [of t0 t1] mul_comba8_prefix [of a b]
        mul_comba8_prefix [of "drop 8 a" "drop 8 b"] by simp
    next
      case False
      have n: "nat (2 ^ k + 0) = ?n" "nat (2 ^ k + dna) = tna" "nat (2 ^ k + dnb) = tnb"
        using t by (simp_all add: nat_add_distrib)
      obtain t23 where 1: "bn_mul_recursive t0 t1 ?n 0 0 = Some t23" "length t23 = 2 * ?n" "bn_val t23 = bn_val t0 * bn_val t1"
        using Suc.IH [OF k, of 0 0 t0 t1] d(1,2) unfolding n by auto
      obtain r01 where 2: "bn_mul_recursive a b ?n 0 0 = Some r01" "length r01 = 2 * ?n"
        "bn_val r01 = bn_val (take ?n a) * bn_val (take ?n b)"
        using Suc.IH [OF k, of 0 0 a b] room unfolding n by auto
      obtain r23 where 3: "bn_mul_recursive (drop ?n a) (drop ?n b) ?n dna dnb = Some r23" "length r23 = 2 * ?n"
        "bn_val r23 = bn_val (take tna (drop ?n a)) * bn_val (take tnb (drop ?n b))"
      proof -
        have l: "tna \<le> length (drop ?n a)" "tnb \<le> length (drop ?n b)" using room by simp_all
        show ?thesis using Suc.IH [OF k Suc.prems(2-5), unfolded n, OF l] that by blast
      qed
      have "?n \<noteq> 4" using n8 by simp
      then show ?thesis using False 1 2 3 by (simp only: if_False simp_thms) blast
    qed
    then obtain t23 r01 r23 where p: "?P = (Some t23, Some r01, Some r23)"
      and v: "length t23 = 2 * ?n" "bn_val t23 = bn_val t0 * bn_val t1"
        "length r01 = 2 * ?n" "bn_val r01 = bn_val (take ?n a) * bn_val (take ?n b)"
        "length r23 = 2 * ?n" "bn_val r23 = bn_val (take tna (drop ?n a)) * bn_val (take tnb (drop ?n b))"
      by blast
    obtain r c where r: "mul_combine ?n (r01 @ r23) t23 (neg XOR neg') = (r, c)" by fastforce
    note step = karatsuba_step [OF room s v r]
    have "2 * ?n div 2 = ?n" "\<not> 2 * ?n < 16" "2 * ?n \<noteq> 8" "nat (int tna) = tna" "nat (int tnb) = tnb" using n8 by simp_all
    then have "bn_mul_recursive a b (2 * ?n) dna dnb = Some r"
      using power_of_two [of "Suc k", unfolded n2(1)] Suc.prems(2-5) step
      by (subst bn_mul_recursive.simps)
        (simp only: t Let_def s p r prod.case option.case if_False if_True simp_thms split_conv)
    then show ?thesis using step unfolding whole n2(1) by simp
  qed
qed simp

section \<open>Lengths that are not powers of two\<close>

lemma part_split_value:
  "tna < 2 ^ k \<Longrightarrow> tnb < 2 ^ k \<Longrightarrow> tna \<le> tnb + 1 \<Longrightarrow> tnb \<le> tna + 1 \<Longrightarrow> 16 \<le> tna \<or> 16 \<le> tnb \<Longrightarrow>
   \<exists>j s. part_split (2 ^ k) tna tnb = (2 ^ j, s) \<and> 4 \<le> j \<and> j < k \<and>
     (if s then 2 ^ j \<le> tna \<and> 2 ^ j \<le> tnb \<and> tna < 2 ^ Suc j \<and> tnb < 2 ^ Suc j
      else tna \<le> 2 ^ j \<and> tnb \<le> 2 ^ j \<and> 2 ^ j \<le> tna + 1 \<and> 2 ^ j \<le> tnb + 1)"
proof (induction k)
  case (Suc k)
  let ?i = "2 ^ k :: nat"
  have h: "(2 :: nat) ^ Suc k div 2 = ?i" by simp
  note e = part_split.simps [of "2 ^ Suc k" tna tnb, unfolded Let_def h]
  have four: "4 \<le> k" if "16 \<le> ?i \<or> 16 < 2 * ?i"
  proof (rule ccontr)
    assume "\<not> 4 \<le> k"
    then have "?i \<le> 2 ^ 3" by (intro power_increasing) simp_all
    then show False using that by simp
  qed
  consider "?i < tna \<or> ?i < tnb" | "\<not> (?i < tna \<or> ?i < tnb)" "?i = tna \<or> ?i = tnb" | "tna < ?i" "tnb < ?i"
    by linarith
  then show ?case
  proof cases
    case 1
    then have "part_split (2 ^ Suc k) tna tnb = (2 ^ k, True)" using e by simp
    moreover have "4 \<le> k" using four Suc.prems(1,2,5) by auto
    moreover have "?i \<le> tna" "?i \<le> tnb" using 1 Suc.prems(3,4) by linarith+
    ultimately show ?thesis using Suc.prems(1,2) by (intro exI [of _ k] exI [of _ True]) (simp only: if_True simp_thms lessI)
  next
    case 2
    then have "part_split (2 ^ Suc k) tna tnb = (2 ^ k, False)" using e by simp
    moreover have "4 \<le> k" using four 2 Suc.prems(3-5) by linarith
    moreover have "tna \<le> ?i" "tnb \<le> ?i" "?i \<le> tna + 1" "?i \<le> tnb + 1" using 2 Suc.prems(3,4) by linarith+
    ultimately show ?thesis by (intro exI [of _ k] exI [of _ False]) (simp only: if_False simp_thms lessI)
  next
    case 3
    then have "part_split (2 ^ Suc k) tna tnb = part_split (2 ^ k) tna tnb" using e by simp
    then show ?thesis using Suc.IH [OF 3 Suc.prems(3-5)] less_SucI by metis
  qed
qed simp

lemma put_words_zeros:
  assumes "length ws \<le> n"
  shows "length (put_words (replicate n 0) 0 ws) = n" "bn_val (put_words (replicate n 0) 0 ws) = bn_val ws"
  using assms by (simp_all add: put_words_def bn_val_append)

lemma bn_mul_part_recursive_value:
  "3 \<le> k \<Longrightarrow> tna < 2 ^ k \<Longrightarrow> tnb < 2 ^ k \<Longrightarrow> tna \<le> tnb + 1 \<Longrightarrow> tnb \<le> tna + 1 \<Longrightarrow>
   2 ^ k + tna \<le> length a \<Longrightarrow> 2 ^ k + tnb \<le> length b \<Longrightarrow>
   \<exists>ws. bn_mul_part_recursive r a b (2 ^ k) (int tna) (int tnb) = Some (put_words r 0 ws) \<and> length ws = 4 * 2 ^ k \<and>
     bn_val ws = bn_val (take (2 ^ k + tna) a) * bn_val (take (2 ^ k + tnb) b)"
proof (induction k arbitrary: r a b tna tnb rule: less_induct)
  case (less k)
  let ?n = "2 ^ k :: nat"
  have n8: "8 \<le> ?n" using power_increasing [OF less.prems(1), of "2 :: nat"] by simp
  have room: "tna \<le> ?n" "tnb \<le> ?n" "?n + tna \<le> length a" "?n + tnb \<le> length b" using less.prems by simp_all
  obtain t0 neg t1 neg' where s: "bn_abs_sub_part_words a (drop ?n a) tna (int ?n - int tna) = (t0, neg)"
    "bn_abs_sub_part_words (drop ?n b) b tnb (int tnb - int ?n) = (t1, neg')" by (meson surj_pair)
  note d = halves_difference [OF room s]
  let ?R = "replicate (?n * 2) 0 :: u64 list"
  let ?H = "if int tna < 16 \<and> int tnb < 16 then
      Some (put_words ?R 0 (bn_mul_normal (drop ?n a) tna (drop ?n b) tnb))
    else (case part_split ?n tna tnb of
       (i, True) \<Rightarrow> bn_mul_part_recursive ?R (drop ?n a) (drop ?n b) i (int tna - int i) (int tnb - int i)
     | (i, False) \<Rightarrow> map_option (put_words ?R 0)
         (bn_mul_recursive (drop ?n a) (drop ?n b) i (int tna - int i) (int tnb - int i)))"
  let ?P = "if ?n = 8 then
      (Some (bn_mul_comba8 t0 t1), Some (bn_mul_comba8 a b),
       Some (bn_mul_normal (drop ?n a) tna (drop ?n b) tnb @ replicate (?n * 2 - tna - tnb) 0))
    else (bn_mul_recursive t0 t1 ?n 0 0, bn_mul_recursive a b ?n 0 0, ?H)"
  let ?high = "bn_val (take tna (drop ?n a)) * bn_val (take tnb (drop ?n b))"
  have l: "tna \<le> length (drop ?n a)" "tnb \<le> length (drop ?n b)" using room by simp_all
  note normal = mul_normal_value [OF l]
  have high: "\<exists>r23. ?H = Some r23 \<and> length r23 = 2 * ?n \<and> bn_val r23 = ?high"
  proof (cases "tna < 16 \<and> tnb < 16")
    case True
    then show ?thesis using normal put_words_zeros [of "bn_mul_normal (drop ?n a) tna (drop ?n b) tnb" "?n * 2"] room by simp
  next
    case False
    then obtain j sp where j: "part_split ?n tna tnb = (2 ^ j, sp)" "4 \<le> j" "j < k"
      "if sp then 2 ^ j \<le> tna \<and> 2 ^ j \<le> tnb \<and> tna < 2 ^ Suc j \<and> tnb < 2 ^ Suc j
       else tna \<le> 2 ^ j \<and> tnb \<le> 2 ^ j \<and> 2 ^ j \<le> tna + 1 \<and> 2 ^ j \<le> tnb + 1"
      using part_split_value [OF less.prems(2-5)] by auto
    have fit: "2 * 2 ^ j \<le> ?n" using power_increasing [of "Suc j" k "2 :: nat"] j(3) by simp
    have ge: "\<not> (int tna < 16 \<and> int tnb < 16)" using False by simp
    show ?thesis
    proof (cases sp)
      case True
      then have p: "2 ^ j \<le> tna" "2 ^ j \<le> tnb" "tna < 2 * 2 ^ j" "tnb < 2 * 2 ^ j" using j(4) by simp_all
      then have e: "int tna - int (2 ^ j) = int (tna - 2 ^ j)" "int tnb - int (2 ^ j) = int (tnb - 2 ^ j)"
        "2 ^ j + (tna - 2 ^ j) = tna" "2 ^ j + (tnb - 2 ^ j) = tnb" by simp_all
      have c: "tna - 2 ^ j < 2 ^ j" "tnb - 2 ^ j < 2 ^ j" "tna - 2 ^ j \<le> tnb - 2 ^ j + 1" "tnb - 2 ^ j \<le> tna - 2 ^ j + 1"
        using p less.prems(4,5) by arith+
      obtain ws where ws: "bn_mul_part_recursive ?R (drop ?n a) (drop ?n b) (2 ^ j) (int (tna - 2 ^ j)) (int (tnb - 2 ^ j)) =
          Some (put_words ?R 0 ws)" "length ws = 4 * 2 ^ j" "bn_val ws = ?high"
        using less.IH [OF j(3) _ c, unfolded e(3,4), OF _ l] j(2) by auto
      have "?H = Some (put_words ?R 0 ws)" by (simp only: ge if_False j(1) True prod.case bool.case e(1,2) ws(1))
      moreover have "length (put_words ?R 0 ws) = 2 * ?n" "bn_val (put_words ?R 0 ws) = ?high"
        using put_words_zeros [of ws "?n * 2"] fit ws(2,3) by simp_all
      ultimately show ?thesis by blast
    next
      case False
      then have p: "tna \<le> 2 ^ j" "tnb \<le> 2 ^ j" "2 ^ j \<le> tna + 1" "2 ^ j \<le> tnb + 1" using j(4) by simp_all
      have i: "(2 :: int) ^ j = int (2 ^ j)" by simp
      have c: "- 8 \<le> int tna - int (2 ^ j)" "int tna - int (2 ^ j) \<le> 0" "- 8 \<le> int tnb - int (2 ^ j)" "int tnb - int (2 ^ j) \<le> 0"
        using p by linarith+
      have e: "nat (2 ^ j + (int tna - int (2 ^ j))) = tna" "nat (2 ^ j + (int tnb - int (2 ^ j))) = tnb"
        unfolding i by simp_all
      obtain ws where ws: "bn_mul_recursive (drop ?n a) (drop ?n b) (2 ^ j) (int tna - int (2 ^ j)) (int tnb - int (2 ^ j)) = Some ws"
        "length ws = 2 * 2 ^ j" "bn_val ws = ?high"
        using bn_mul_recursive_value [where k = j, OF _ c, unfolded e, OF _ l] j(2) by auto
      have "?H = Some (put_words ?R 0 ws)" by (simp only: ge if_False j(1) False prod.case bool.case ws(1) option.map)
      moreover have "length (put_words ?R 0 ws) = 2 * ?n" "bn_val (put_words ?R 0 ws) = ?high"
        using put_words_zeros [of ws "?n * 2"] fit ws(2,3) j(3) by simp_all
      ultimately show ?thesis by blast
    qed
  qed
  have "\<exists>t23 r01 r23. ?P = (Some t23, Some r01, Some r23) \<and> length t23 = 2 * ?n \<and> bn_val t23 = bn_val t0 * bn_val t1 \<and>
      length r01 = 2 * ?n \<and> bn_val r01 = bn_val (take ?n a) * bn_val (take ?n b) \<and>
      length r23 = 2 * ?n \<and> bn_val r23 = ?high"
  proof (cases "?n = 8")
    case True
    then show ?thesis using room d(1,2) normal mul_comba8_prefix [of t0 t1] mul_comba8_prefix [of a b]
      by (simp add: bn_val_append)
  next
    case False
    have i: "nat (2 ^ k + 0) = ?n" by (simp add: nat_power_eq)
    obtain t23 where 1: "bn_mul_recursive t0 t1 ?n 0 0 = Some t23" "length t23 = 2 * ?n" "bn_val t23 = bn_val t0 * bn_val t1"
      using bn_mul_recursive_value [OF less.prems(1), of 0 0 t0 t1] d(1,2) unfolding i by auto
    obtain r01 where 2: "bn_mul_recursive a b ?n 0 0 = Some r01" "length r01 = 2 * ?n"
      "bn_val r01 = bn_val (take ?n a) * bn_val (take ?n b)"
      using bn_mul_recursive_value [OF less.prems(1), of 0 0 a b] room unfolding i by auto
    obtain r23 where 3: "?H = Some r23" "length r23 = 2 * ?n" "bn_val r23 = ?high" using high by blast
    have "?P = (Some t23, Some r01, Some r23)" by (simp only: False 1(1) 2(1) 3(1) if_False)
    then show ?thesis using 1 2 3 by blast
  qed
  then obtain t23 r01 r23 where p: "?P = (Some t23, Some r01, Some r23)"
    and v: "length t23 = 2 * ?n" "bn_val t23 = bn_val t0 * bn_val t1"
      "length r01 = 2 * ?n" "bn_val r01 = bn_val (take ?n a) * bn_val (take ?n b)"
      "length r23 = 2 * ?n" "bn_val r23 = ?high"
    by blast
  obtain ws c where w: "mul_combine ?n (r01 @ r23) t23 (neg XOR neg') = (ws, c)" by fastforce
  note step = karatsuba_step [OF room s v w]
  have g: "\<not> ?n < 8" "0 \<le> int tna" "int tna < int ?n" "0 \<le> int tnb" "int tnb < int ?n"
    "- 1 \<le> int tna - int tnb" "int tna - int tnb \<le> 1" "nat (int tna) = tna" "nat (int tnb) = tnb"
    using n8 less.prems(2-5) by (simp_all only: of_nat_less_iff)
  have "bn_mul_part_recursive r a b ?n (int tna) (int tnb) = Some (put_words r 0 ws)"
    using power_of_two [of k] step
    by (subst bn_mul_part_recursive.simps)
      (simp only: g Let_def s p w prod.case option.case if_False if_True simp_thms split_conv)
  then show ?case using step by auto
qed

text \<open>
  Below eight words, which no caller uses, the rest of the result is cleared by a number of bytes where
  it should be one of words.
\<close>

lemma part_recursive_small: "bn_mul_part_recursive [9, 9, 9, 9] [1] [1] 1 0 0 = Some [1, 0, 0, 9]"
  by code_simp

end
