(* ===== verification/BnSquare.thy ===== *)
theory BnSquare
  imports Karatsuba
begin

text \<open>
  The squares of \<open>crypto/fipsmodule/bn/mul.c\<close>, and \<open>bn_sqr_words\<close> of \<open>generic.c\<close>. As for the products,
  the words of the result that are not yet written are absent from the list, and an assertion that
  fails gives \<open>None\<close>.
\<close>

section \<open>Definitions\<close>

definition sqr_word :: "u64 \<Rightarrow> u64 list" where
  "sqr_word a = (let t = ucast a * ucast a :: u128 in [ucast t, ucast (drop_bit 64 t)])"

fun bn_sqr_words :: "u64 list \<Rightarrow> nat \<Rightarrow> u64 list" where
  "bn_sqr_words a n =
     (if n \<ge> 4 then
        sqr_word (a ! 0) @ sqr_word (a ! 1) @ sqr_word (a ! 2) @ sqr_word (a ! 3) @ bn_sqr_words (drop 4 a) (n - 4)
      else if n > 0 then sqr_word (a ! 0) @ bn_sqr_words (drop 1 a) (n - 1)
      else [])"

declare bn_sqr_words.simps [simp del]

text \<open>The row of products with \<open>ap[-1]\<close> goes from \<open>rp\<close> on; the next one starts two words further.\<close>

fun sqr_rows :: "u64 list \<Rightarrow> nat \<Rightarrow> u64 list \<Rightarrow> nat \<Rightarrow> u64 list" where
  "sqr_rows r rp ap 0 = r"
| "sqr_rows r rp ap (Suc i) =
     (let w = ap ! 0;
          ap = drop 1 ap;
          (row, c) = bn_mul_add_words (drop rp r) ap (Suc i) w
      in sqr_rows (take rp r @ row @ [c]) (rp + 2) ap i)"

definition bn_sqr_normal :: "u64 list \<Rightarrow> nat \<Rightarrow> u64 list" where
  "bn_sqr_normal a n =
     (if n = 0 then []
      else
        let mx = n * 2;
            r = [0];
            r = (if n > 1 then let (row, c) = bn_mul_words (drop 1 a) (n - 1) (a ! 0) in r @ row @ [c] else r);
            r = (if n > 2 then sqr_rows r 3 (drop 1 a) (n - 2) else r);
            r = r @ [0];
            (r, _) = bn_add_words r r mx;
            tmp = bn_sqr_words a n;
            (r, _) = bn_add_words r tmp mx
        in r)"

function bn_sqr_recursive :: "u64 list \<Rightarrow> nat \<Rightarrow> u64 list option" where
  "bn_sqr_recursive a n2 =
     (if \<not> power_of_two n2 then None
      else if n2 = 4 then Some (bn_sqr_comba4 a)
      else if n2 = 8 then Some (bn_sqr_comba8 a)
      else if n2 < 16 then Some (bn_sqr_normal a n2)
      else
        let n = n2 div 2;
            t0 = bn_abs_sub_words a (drop n a) n
        in (case (bn_sqr_recursive t0 n, bn_sqr_recursive a n, bn_sqr_recursive (drop n a) n) of
              (Some t23, Some r01, Some r23) \<Rightarrow>
                let r = r01 @ r23;
                    (t01, c) = bn_add_words r (drop n2 r) n2;
                    (t23, borrow) = bn_sub_words t01 t23 n2;
                    c = c - borrow;
                    (mid, carry) = bn_add_words (drop n r) t23 n2;
                    c = c + carry;
                    (high, c) = carry_loop c (take n (drop (n + n2) r))
                in if c = 0 then Some (take n r @ mid @ high) else None
            | _ \<Rightarrow> None))"
  by pat_completeness auto
termination by (relation "measure (\<lambda>(a, n2). n2)") (auto simp: power_of_two_def)

declare bn_sqr_recursive.simps [simp del]

section \<open>What the loops compute\<close>

fun sum_squares :: "u64 list \<Rightarrow> nat" where
  "sum_squares [] = 0"
| "sum_squares (x # xs) = unat x * unat x + radix * radix * sum_squares xs"

text \<open>The products of different words, one digit down.\<close>

fun cross :: "u64 list \<Rightarrow> nat" where
  "cross [] = 0"
| "cross (x # xs) = unat x * bn_val xs + radix * radix * cross xs"

lemma square_value: "bn_val xs * bn_val xs = sum_squares xs + 2 * (radix * cross xs)"
proof (induction xs)
  case (Cons x xs)
  have "bn_val (x # xs) * bn_val (x # xs) =
      unat x * unat x + 2 * (radix * (unat x * bn_val xs)) + radix * radix * (bn_val xs * bn_val xs)"
    by (simp add: algebra_simps)
  then show ?case unfolding Cons by (simp add: algebra_simps)
qed simp

lemma sqr_word_value: "length (sqr_word a) = 2" "bn_val (sqr_word a) = unat a * unat a"
proof -
  have "unat (ucast a * ucast a :: u128) = unat a * unat a" using mul_add_limbs [of a a 0 0] by simp
  then show "length (sqr_word a) = 2" "bn_val (sqr_word a) = unat a * unat a"
    using limb_halves [of "ucast a * ucast a"] by (simp_all add: sqr_word_def Let_def high_limb)
qed

lemma bn_sqr_words_value:
  "n \<le> length a \<Longrightarrow> length (bn_sqr_words a n) = 2 * n \<and> bn_val (bn_sqr_words a n) = sum_squares (take n a)"
proof (induction a n rule: bn_sqr_words.induct)
  case (1 a n)
  have r: "radix ^ 2 = radix * radix" by (simp add: power2_eq_square)
  consider "n \<ge> 4" | "\<not> n \<ge> 4" "n > 0" | "n = 0" by linarith
  then show ?case
  proof cases
    case four: 1
    then obtain m where n: "n = 4 + m" using le_Suc_ex by blast
    obtain x0 x1 x2 x3 a' where a: "a = x0 # x1 # x2 # x3 # a'"
      using "1.prems" by (auto simp: n Suc_le_length_iff numeral_eq_Suc)
    have "n - 4 \<le> length (drop 4 a)" using "1.prems" by simp
    note ih = "1.IH"(1) [OF four this]
    show ?thesis using ih unfolding bn_sqr_words.simps [of a n]
      by (simp add: n a bn_val_append sqr_word_value r numeral_eq_Suc algebra_simps)
  next
    case one: 2
    then obtain m where n: "n = Suc m" by (cases n) auto
    obtain x a' where a: "a = x # a'" using "1.prems" by (cases a) (auto simp: n)
    have "n - 1 \<le> length (drop 1 a)" using "1.prems" by simp
    note ih = "1.IH"(2) [OF one this]
    show ?thesis using ih one unfolding bn_sqr_words.simps [of a n]
      by (simp add: n a bn_val_append sqr_word_value r)
  next
    case 3
    then show ?thesis by (simp add: bn_sqr_words.simps)
  qed
qed

lemma sqr_rows_value:
  "length r = rp + i \<Longrightarrow> i < length ap \<Longrightarrow>
   length (sqr_rows r rp ap i) = rp + 2 * i \<and>
   bn_val (sqr_rows r rp ap i) = bn_val r + radix ^ rp * cross (take (Suc i) ap)"
proof (induction i arbitrary: r rp ap)
  case 0
  then show ?case by (cases ap) auto
next
  case (Suc i)
  obtain w ap' where ap: "ap = w # ap'" using Suc.prems(2) by (cases ap) auto
  obtain row c where row: "bn_mul_add_words (drop rp r) ap' (Suc i) w = (row, c)" by fastforce
  note v = bn_mul_add_words_value [OF row]
  let ?r = "take rp r @ row @ [c]"
  have l: "length row = Suc i" "length ?r = rp + 2 + i" "i < length ap'" using v Suc.prems ap by simp_all
  have "bn_val row + radix ^ Suc i * unat c = bn_val (drop rp r) + unat w * bn_val (take (Suc i) ap')"
    using v Suc.prems ap by simp
  moreover have "bn_val ?r = bn_val (take rp r) + radix ^ rp * (bn_val row + radix ^ Suc i * unat c)"
    using l(1) Suc.prems(1) by (simp add: bn_val_append min_absorb2)
  moreover have "bn_val r = bn_val (take rp r) + radix ^ rp * bn_val (drop rp r)"
    by (rule split_words_value [OF Suc.prems(1)])
  ultimately have "bn_val ?r = bn_val r + radix ^ rp * (unat w * bn_val (take (Suc i) ap'))"
    by (simp add: distrib_left)
  moreover have "sqr_rows r rp ap (Suc i) = sqr_rows ?r (rp + 2) ap' i" using row by (simp add: ap)
  ultimately show ?case using Suc.IH [OF l(2,3)] by (simp add: ap power_add power2_eq_square distrib_left)
qed

text \<open>An addition whose sum has no more words than the arguments.\<close>

lemma add_words_fits:
  assumes "bn_add_words a b n = (r, c)" "length a = n" "length b = n" "bn_val a + bn_val b < radix ^ n"
  shows "length r = n \<and> bn_val r = bn_val a + bn_val b"
proof -
  have v: "length r = n" "bn_val r + radix ^ n * unat c = bn_val a + bn_val b"
    using bn_add_words_value [OF assms(1)] assms(2,3) by simp_all
  have "unat c = 0"
  proof (rule ccontr)
    assume "unat c \<noteq> 0"
    then have "radix ^ n * 1 \<le> radix ^ n * unat c" by (intro mult_le_mono2) simp
    then show False using v assms(4) by linarith
  qed
  then show ?thesis using v by simp
qed

lemma sqr_normal_value:
  assumes "n \<le> length a"
  shows "length (bn_sqr_normal a n) = 2 * n \<and> bn_val (bn_sqr_normal a n) = bn_val (take n a) * bn_val (take n a)"
proof (cases n)
  case 0
  then show ?thesis by (simp add: bn_sqr_normal_def)
next
  case (Suc k)
  obtain x a' where a: "a = x # a'" using assms Suc by (cases a) auto
  define r1 where "r1 = (if n > 1 then let (row, c) = bn_mul_words (drop 1 a) (n - 1) (a ! 0) in [0] @ row @ [c] else [0 :: u64])"
  define r2 where "r2 = (if n > 2 then sqr_rows r1 3 (drop 1 a) (n - 2) else r1)"
  have r1: "length r1 = (if k = 0 then 1 else n + 1) \<and> bn_val r1 = radix * (unat x * bn_val (take k a'))"
  proof (cases "k = 0")
    case False
    obtain row c where row: "bn_mul_words a' k x = (row, c)" by fastforce
    have "length row = k \<and> bn_val row + radix ^ k * unat c = unat x * bn_val (take k a')"
      using bn_mul_words_value [OF row] assms Suc a by simp
    then show ?thesis using row False Suc a by (simp add: r1_def bn_val_append distrib_left mult.assoc)
  qed (simp add: r1_def Suc)
  have r2: "length (r2 @ [0]) = 2 * n \<and> bn_val (r2 @ [0]) = radix * cross (take n a)"
  proof (cases "n > 2")
    case True
    then have "length r1 = 3 + (n - 2)" "n - 2 < length (drop 1 a)" using r1 assms Suc by simp_all
    note rows = sqr_rows_value [OF this]
    have n: "Suc (n - 2) = k" "3 + 2 * (n - 2) = 2 * n - 1" using True Suc by simp_all
    have "radix ^ 3 = radix * (radix * radix)" by (simp add: numeral_eq_Suc)
    then show ?thesis using rows r1 True unfolding n
      by (simp add: r2_def bn_val_append Suc a distrib_left mult.assoc)
  next
    case False
    then have "k = 0 \<or> k = 1" using Suc by auto
    moreover have "cross (take 1 zs) = 0" for zs by (cases zs) simp_all
    ultimately show ?thesis using r1 False by (auto simp: r2_def bn_val_append Suc a)
  qed
  obtain r3 c3 where a3: "bn_add_words (r2 @ [0]) (r2 @ [0]) (n * 2) = (r3, c3)" by fastforce
  obtain r4 c4 where a4: "bn_add_words r3 (bn_sqr_words a n) (n * 2) = (r4, c4)" by fastforce
  have "bn_sqr_normal a n = (if n = 0 then []
      else case bn_add_words (r2 @ [0]) (r2 @ [0]) (n * 2) of
        (r, _) \<Rightarrow> case bn_add_words r (bn_sqr_words a n) (n * 2) of (r, _) \<Rightarrow> r)"
    unfolding bn_sqr_normal_def r2_def r1_def Let_def by (rule refl)
  moreover have "n \<noteq> 0" using Suc by simp
  ultimately have "bn_sqr_normal a n = r4" by (simp only: if_False a3 a4 prod.case)
  note sq = square_value [of "take n a"]
  have "bn_val (take n a) * bn_val (take n a) < radix ^ (n + n)" by (rule product_fits) (use assms in simp_all)
  then have fit: "sum_squares (take n a) + 2 * (radix * cross (take n a)) < radix ^ (n * 2)" unfolding sq by (simp add: mult_2_right)
  note s = bn_sqr_words_value [OF assms]
  have v3: "length r3 = n * 2 \<and> bn_val r3 = 2 * (radix * cross (take n a))"
    using add_words_fits [OF a3] r2 fit by simp
  then have "length r4 = n * 2 \<and> bn_val r4 = bn_val (take n a) * bn_val (take n a)"
    using add_words_fits [OF a4] s fit sq by simp
  then show ?thesis using \<open>bn_sqr_normal a n = r4\<close> by simp
qed

section \<open>What the recursive square computes\<close>

lemma abs_diff_cases: "\<exists>d. x = y + d \<and> abs_diff x y = d \<or> y = x + d \<and> abs_diff x y = d"
  by (rule exI [of _ "abs_diff x y"]) (auto simp: abs_diff_def)

lemma abs_sub_words_eq: "bn_abs_sub_words a b n = fst (bn_abs_sub_part_words a b n 0)"
  by (simp add: bn_abs_sub_words_def bn_abs_sub_part_words_def bn_sub_part_words_def Let_def split: prod.split)

lemma abs_sub_words_value:
  assumes "n \<le> length a" "n \<le> length b"
  shows "length (bn_abs_sub_words a b n) = n \<and>
    bn_val (bn_abs_sub_words a b n) = abs_diff (bn_val (take n a)) (bn_val (take n b))"
  unfolding abs_sub_words_eq
  using abs_sub_part_words_value [OF prod.collapse [symmetric], of n 0 a b] assms by simp

text \<open>The end of the function is that of the product, with the middle term subtracted.\<close>

lemma sqr_combine_eq:
  assumes "bn_add_words r (drop (2 * n) r) (2 * n) = (t01, c)" "bn_sub_words t01 t23 (2 * n) = (u23, borrow)"
    "bn_add_words (drop n r) u23 (2 * n) = (mid, carry)" "carry_loop (c - borrow + carry) (take n (drop (n + 2 * n) r)) = (high, c')"
    "length u23 = 2 * n" "2 * n \<le> length t01" "2 * n \<le> length t23"
  shows "mul_combine n r t23 (if True then - 1 else 0) = (take n r @ mid @ high, c')"
proof -
  obtain p23 ca where a: "bn_add_words t01 t23 (2 * n) = (p23, ca)" by fastforce
  have "length p23 = 2 * n" using bn_add_words_value [OF a] assms(6,7) by simp
  then have "bn_select_words (if True then - 1 else 0) u23 p23 (2 * n) = u23"
    using select_words_value [OF assms(5), of p23 True] by simp
  moreover have "constant_time_select_w (if True then - 1 else 0) (c - borrow) (c + ca) = c - borrow"
    using select_w_value [of True "c - borrow" "c + ca"] by simp
  ultimately show ?thesis unfolding mul_combine_def Let_def assms(1) prod.case assms(2) a
    by (simp only: assms(3,4) prod.case)
qed

lemma bn_sqr_recursive_value:
  "2 \<le> k \<Longrightarrow> 2 ^ k \<le> length a \<Longrightarrow>
   \<exists>r. bn_sqr_recursive a (2 ^ k) = Some r \<and> length r = 2 * 2 ^ k \<and> bn_val r = bn_val (take (2 ^ k) a) * bn_val (take (2 ^ k) a)"
proof (induction k arbitrary: a)
  case (Suc k)
  let ?n = "2 ^ k :: nat"
  have n2: "(2 :: nat) ^ Suc k = 2 * ?n" by simp
  consider "k = 1" | "k = 2" | "3 \<le> k" using Suc.prems(1) by linarith
  then show ?case
  proof cases
    case 1
    then have "(2 :: nat) ^ Suc k = 4" by (simp add: power2_eq_square)
    then show ?thesis using Suc.prems power_of_two [of 2] sqr_comba4_prefix [of a] by (simp add: bn_sqr_recursive.simps)
  next
    case 2
    then have "(2 :: nat) ^ Suc k = 8" by simp
    then show ?thesis using Suc.prems power_of_two [of 3] sqr_comba8_prefix [of a] by (simp add: bn_sqr_recursive.simps)
  next
    case 3
    then have k: "2 \<le> k" by simp
    have n8: "8 \<le> ?n" using power_increasing [OF 3, of "2 :: nat"] by simp
    have room: "?n \<le> length a" "?n \<le> length (drop ?n a)" using Suc.prems(2) unfolding n2 by simp_all
    let ?t0 = "bn_abs_sub_words a (drop ?n a) ?n"
    let ?a0 = "bn_val (take ?n a)" and ?a1 = "bn_val (take ?n (drop ?n a))"
    have t0: "length ?t0 = ?n" "bn_val ?t0 = abs_diff ?a0 ?a1" using abs_sub_words_value [OF room] by simp_all
    obtain t23 where 1: "bn_sqr_recursive ?t0 ?n = Some t23" "length t23 = 2 * ?n" "bn_val t23 = abs_diff ?a0 ?a1 * abs_diff ?a0 ?a1"
      using Suc.IH [OF k, of ?t0] t0 by auto
    obtain r01 where 2: "bn_sqr_recursive a ?n = Some r01" "length r01 = 2 * ?n" "bn_val r01 = ?a0 * ?a0"
      using Suc.IH [OF k room(1)] by auto
    obtain r23 where 3: "bn_sqr_recursive (drop ?n a) ?n = Some r23" "length r23 = 2 * ?n" "bn_val r23 = ?a1 * ?a1"
      using Suc.IH [OF k room(2)] by auto
    let ?r = "r01 @ r23"
    obtain t01 c where a1: "bn_add_words ?r (drop (2 * ?n) ?r) (2 * ?n) = (t01, c)" by fastforce
    obtain u23 bo where s1: "bn_sub_words t01 t23 (2 * ?n) = (u23, bo)" by fastforce
    obtain mid ca where a2: "bn_add_words (drop ?n ?r) u23 (2 * ?n) = (mid, ca)" by fastforce
    obtain high c' where l: "carry_loop (c - bo + ca) (take ?n (drop (?n + 2 * ?n) ?r)) = (high, c')" by fastforce
    have t01: "length t01 = 2 * ?n" using bn_add_words_value [OF a1] 2(2) 3(2) by simp
    have u23: "length u23 = 2 * ?n" using bn_sub_words_value [OF s1] 1(2) t01 by simp
    have comb: "mul_combine ?n ?r t23 (if True then - 1 else 0) = (take ?n ?r @ mid @ high, c')"
      by (rule sqr_combine_eq [OF a1 s1 a2 l u23]) (use t01 1(2) in simp_all)
    have id: "bn_val t23 \<le> ?a0 * ?a0 + ?a1 * ?a1" "?a0 * ?a0 + ?a1 * ?a1 - bn_val t23 = 2 * (?a0 * ?a1)"
    proof -
      obtain d where "?a0 = ?a1 + d \<and> abs_diff ?a0 ?a1 = d \<or> ?a1 = ?a0 + d \<and> abs_diff ?a0 ?a1 = d"
        using abs_diff_cases by blast
      then show "bn_val t23 \<le> ?a0 * ?a0 + ?a1 * ?a1" "?a0 * ?a0 + ?a1 * ?a1 - bn_val t23 = 2 * (?a0 * ?a1)"
        unfolding 1(3) by (elim disjE conjE; simp add: algebra_simps)+
    qed
    have "length ?r = 4 * ?n" using 2(2) 3(2) by simp
    note mc = mul_combine_value [OF this 1(2) comb]
    have "bn_val (take (2 * ?n) ?r) + bn_val (drop (2 * ?n) ?r) = ?a0 * ?a0 + ?a1 * ?a1" using 2 3 by simp
    then have v: "length (take ?n ?r @ mid @ high) = 4 * ?n"
      "bn_val (take ?n ?r @ mid @ high) + radix ^ (4 * ?n) * unat c' = bn_val ?r + radix ^ ?n * (2 * (?a0 * ?a1))"
      using mc id by (simp_all add: middle_def)
    have w: "bn_val (take (2 * ?n) a) = ?a0 + radix ^ ?n * ?a1"
      unfolding mult_2 take_add bn_val_append using room by (simp add: min_absorb2)
    have p: "radix ^ (2 * ?n) = radix ^ ?n * radix ^ ?n" by (simp add: mult_2 power_add)
    have "bn_val ?r = ?a0 * ?a0 + radix ^ (2 * ?n) * (?a1 * ?a1)" using 2 3 by (simp add: bn_val_append)
    then have e: "bn_val (take ?n ?r @ mid @ high) + radix ^ (4 * ?n) * unat c' = bn_val (take (2 * ?n) a) * bn_val (take (2 * ?n) a)"
      unfolding v(2) w p by (simp add: algebra_simps)
    have "bn_val (take (2 * ?n) a) * bn_val (take (2 * ?n) a) < radix ^ (2 * ?n + 2 * ?n)"
      by (rule product_fits) (use room in simp_all)
    then have less: "bn_val (take ?n ?r @ mid @ high) + radix ^ (4 * ?n) * unat c' < radix ^ (4 * ?n)" unfolding e by simp
    have "unat c' = 0"
    proof (rule ccontr)
      assume "unat c' \<noteq> 0"
      then have "radix ^ (4 * ?n) * 1 \<le> radix ^ (4 * ?n) * unat c'" by (intro mult_le_mono2) simp
      then show False using less by linarith
    qed
    then have c0: "c' = 0" by (simp add: unat_eq_zero)
    have g: "2 * ?n div 2 = ?n" "2 * ?n \<noteq> 4" "2 * ?n \<noteq> 8" "\<not> 2 * ?n < 16" using n8 by simp_all
    have "bn_sqr_recursive a (2 * ?n) = Some (take ?n ?r @ mid @ high)"
      using power_of_two [of "Suc k", unfolded n2] c0
      by (subst bn_sqr_recursive.simps)
        (simp only: g Let_def 1(1) 2(1) 3(1) a1 s1 a2 l prod.case option.case if_False if_True simp_thms)
    then show ?thesis using e v(1) c0 unfolding n2 by simp
  qed
qed simp

end
