(* ===== verification/BnArith.thy ===== *)
theory BnArith
  imports Bn
begin

text \<open>
  What the operations of \<open>Bn\<close> compute. A big number stands for an integer; the invariant \<open>bn_wf\<close> says
  that its array is as long as \<open>dmax\<close>, which \<open>bn_wexpand\<close> bounds, and that zero has no sign. The number
  of words need not be minimal.
\<close>

definition bn_malloc_ok :: "bn_malloc \<Rightarrow> bool" where
  "bn_malloc_ok malloc \<longleftrightarrow> (\<forall>sz ws. malloc sz = Some ws \<longrightarrow> length ws = unat sz div 8)"

definition bn_mem :: "bignum \<Rightarrow> bool" where
  "bn_mem bn \<longleftrightarrow> length (bn_d bn) = bn_dmax bn \<and> bn_width bn \<le> bn_dmax bn \<and> bn_dmax bn \<le> INT_MAX div (4 * 64)"

definition bn_words :: "bignum \<Rightarrow> u64 list" where
  "bn_words bn = take (bn_width bn) (bn_d bn)"

definition bn_abs :: "bignum \<Rightarrow> nat" where
  "bn_abs bn = bn_val (bn_words bn)"

definition bn_int :: "bignum \<Rightarrow> int" where
  "bn_int bn = (if bn_neg bn then - int (bn_abs bn) else int (bn_abs bn))"

definition bn_wf :: "bignum \<Rightarrow> bool" where
  "bn_wf bn \<longleftrightarrow> bn_mem bn \<and> (bn_neg bn \<longrightarrow> bn_abs bn \<noteq> 0)"

text \<open>Whether \<open>bn_wexpand\<close> succeeds.\<close>

definition bn_room :: "bn_malloc \<Rightarrow> bignum \<Rightarrow> nat \<Rightarrow> bool" where
  "bn_room malloc bn n \<longleftrightarrow>
     n \<le> bn_dmax bn \<or>
     n \<le> INT_MAX div (4 * 64) \<and> \<not> bn_static bn \<and> malloc (8 * of_nat n + OPENSSL_MALLOC_PREFIX) \<noteq> None"

lemma length_bn_words [simp]: "bn_mem bn \<Longrightarrow> length (bn_words bn) = bn_width bn"
  by (simp add: bn_mem_def bn_words_def)

lemma bn_abs_less: "bn_mem bn \<Longrightarrow> bn_abs bn < radix ^ bn_width bn"
  using bn_val_less [of "bn_words bn"] by (simp add: bn_abs_def)

lemma bn_wf_mem: "bn_wf bn \<Longrightarrow> bn_mem bn"
  by (simp add: bn_wf_def)

lemma wexpand:
  assumes "bn_malloc_ok malloc" "bn_mem bn" "bn_wexpand malloc bn n = (ok, bn')"
  shows "bn_mem bn' \<and> ok = bn_room malloc bn n \<and> bn_width bn' = bn_width bn \<and> bn_neg bn' = bn_neg bn \<and>
    bn_static bn' = bn_static bn \<and> bn_words bn' = bn_words bn \<and> (ok \<longrightarrow> n \<le> bn_dmax bn') \<and> (\<not> ok \<longrightarrow> bn' = bn)"
proof (cases "n \<le> bn_dmax bn \<or> n > INT_MAX div (4 * 64) \<or> bn_static bn \<or>
    malloc (8 * of_nat n + OPENSSL_MALLOC_PREFIX) = None")
  case True
  then show ?thesis using assms(2,3)
    by (auto simp: bn_wexpand_def bn_alloc_def bn_room_def split: if_splits option.splits)
next
  case False
  then obtain ws where ws: "malloc (8 * of_nat n + OPENSSL_MALLOC_PREFIX) = Some ws" by auto
  have n: "8 * n + 8 < 2 ^ 64" using False by (simp add: INT_MAX_def)
  have "unat (8 * of_nat n + OPENSSL_MALLOC_PREFIX) = unat (of_nat (8 * n + 8) :: u64)"
    by (simp add: OPENSSL_MALLOC_PREFIX_def)
  also have "\<dots> = 8 * n + 8" using n by (intro unat_of_nat_small) simp
  finally have l: "length ws = Suc n" using assms(1) ws by (auto simp: bn_malloc_ok_def)
  have "bn_width bn \<le> n" using assms(2) False by (simp add: bn_mem_def)
  then show ?thesis using assms(2,3) False ws l
    by (auto simp: bn_wexpand_def bn_alloc_def bn_room_def bn_mem_def bn_words_def put_words_def min_absorb2)
qed

text \<open>Writing a result into an array that is long enough.\<close>

lemma store_words:
  assumes "bn_mem r" "length ws \<le> bn_dmax r"
  shows "bn_mem (r\<lparr>bn_d := put_words (bn_d r) 0 ws, bn_width := length ws\<rparr>)"
    "bn_words (r\<lparr>bn_d := put_words (bn_d r) 0 ws, bn_width := length ws\<rparr>) = ws"
  using assms by (simp_all add: bn_mem_def bn_words_def put_words_def)

lemma bn_mem_neg [simp]: "bn_mem (bn\<lparr>bn_neg := s\<rparr>) = bn_mem bn"
  by (simp add: bn_mem_def)

lemma bn_words_neg [simp]: "bn_words (bn\<lparr>bn_neg := s\<rparr>) = bn_words bn"
  by (simp add: bn_words_def)

lemma bn_abs_neg [simp]: "bn_abs (bn\<lparr>bn_neg := s\<rparr>) = bn_abs bn"
  by (simp add: bn_abs_def bn_words_def)

section \<open>The minimal width\<close>

lemma minimal_width_le: "minimal_width d n \<le> n"
  by (induction n) auto

lemma minimal_width_value:
  "n \<le> length d \<Longrightarrow> bn_val (take (minimal_width d n) d) = bn_val (take n d)"
proof (induction n)
  case (Suc n)
  then show ?case by (simp add: take_Suc_conv_app_nth bn_val_append)
qed simp

lemma minimal_width_top: "minimal_width d n = Suc k \<Longrightarrow> d ! k \<noteq> 0"
  by (induction n) (auto split: if_splits)

lemma minimal_width_iff: "minimal_width d n \<le> k \<longleftrightarrow> (\<forall>i. k \<le> i \<and> i < n \<longrightarrow> d ! i = 0)"
proof (induction n)
  case (Suc n)
  show ?case
  proof (cases "d ! n = 0")
    case True
    then show ?thesis using Suc by (auto simp: less_Suc_eq)
  next
    case False
    then show ?thesis by (cases "k \<le> n") auto
  qed
qed simp

lemma take_all_zero: "n \<le> length d \<Longrightarrow> bn_val (take n d) = 0 \<longleftrightarrow> (\<forall>i < n. d ! i = 0)"
  unfolding bn_val_eq_0 by (auto simp: all_set_conv_all_nth)

definition bn_minimal :: "bignum \<Rightarrow> bool" where
  "bn_minimal bn \<longleftrightarrow> bn_minimal_width bn = bn_width bn"

lemma minimal_width_idem: "minimal_width d (minimal_width d n) = minimal_width d n"
proof (cases "minimal_width d n")
  case (Suc k)
  then show ?thesis using minimal_width_top [OF Suc] by simp
qed simp

lemma minimal_width_zero: "bn_mem bn \<Longrightarrow> bn_minimal_width bn = 0 \<longleftrightarrow> bn_abs bn = 0"
  using minimal_width_iff [of "bn_d bn" "bn_width bn" 0]
  by (simp add: bn_minimal_width_def bn_abs_def bn_words_def take_all_zero bn_mem_def)

lemma set_minimal_width:
  assumes "bn_mem bn"
  shows "bn_wf (bn_set_minimal_width bn)" "bn_abs (bn_set_minimal_width bn) = bn_abs bn"
    "bn_neg (bn_set_minimal_width bn) \<longleftrightarrow> bn_neg bn \<and> bn_abs bn \<noteq> 0"
    "bn_static (bn_set_minimal_width bn) = bn_static bn" "bn_dmax (bn_set_minimal_width bn) = bn_dmax bn"
    "bn_minimal (bn_set_minimal_width bn)"
proof -
  let ?m = "bn\<lparr>bn_width := bn_minimal_width bn\<rparr>"
  have le: "bn_minimal_width bn \<le> bn_width bn" by (simp add: bn_minimal_width_def minimal_width_le)
  have a: "bn_abs ?m = bn_abs bn"
    using assms minimal_width_value [of "bn_width bn" "bn_d bn"]
    by (simp add: bn_abs_def bn_words_def bn_minimal_width_def bn_mem_def)
  have m: "bn_mem ?m" using assms le by (simp add: bn_mem_def)
  have s: "bn_set_minimal_width bn = ?m\<lparr>bn_neg := bn_neg bn \<and> bn_abs bn \<noteq> 0\<rparr>"
    using minimal_width_zero [OF assms] by (simp add: bn_set_minimal_width_def Let_def)
  show "bn_wf (bn_set_minimal_width bn)" unfolding s bn_wf_def using m a by simp
  show "bn_abs (bn_set_minimal_width bn) = bn_abs bn" unfolding s using a by simp
  show "bn_neg (bn_set_minimal_width bn) \<longleftrightarrow> bn_neg bn \<and> bn_abs bn \<noteq> 0"
    "bn_static (bn_set_minimal_width bn) = bn_static bn" "bn_dmax (bn_set_minimal_width bn) = bn_dmax bn"
    unfolding s by simp_all
  show "bn_minimal (bn_set_minimal_width bn)"
    unfolding s by (simp add: bn_minimal_def bn_minimal_width_def minimal_width_idem)
qed

section \<open>Comparison\<close>

definition order_word :: "'a::linorder \<Rightarrow> 'a \<Rightarrow> u32" where
  "order_word x y = (if x = y then 0 else if x < y then - 1 else 1)"

lemma digit_less: "v < (P :: nat) \<Longrightarrow> w < w' \<Longrightarrow> v + P * w < v' + P * w'"
proof -
  assume v: "v < P" and "w < w'"
  then have "P * (w + 1) \<le> P * w'" by (intro mult_le_mono2) simp
  then have "P * w + P \<le> P * w'" by (simp only: add_mult_distrib2 mult_1_right)
  then show ?thesis using v by linarith
qed

lemma digit_compare:
  assumes "v < (P :: nat)" "v' < P"
  shows "order_word (v + P * w) (v' + P * w') = (if w = w' then order_word v v' else order_word w w')"
proof (cases w w' rule: linorder_cases)
  case less
  then show ?thesis using digit_less [OF assms(1) less, of v'] by (simp add: order_word_def)
next
  case greater
  then show ?thesis using digit_less [OF assms(2) greater, of v] by (simp add: order_word_def)
qed (simp add: order_word_def)

lemma cmp_loop_value:
  "n \<le> length a \<Longrightarrow> n \<le> length b \<Longrightarrow>
   foldl (cmp_step a b) 0 [0..<n] = order_word (bn_val (take n a)) (bn_val (take n b))"
proof (induction n)
  case (Suc n)
  have l: "bn_val (take n a) < radix ^ n" "bn_val (take n b) < radix ^ n"
    using bn_val_less [of "take n a"] bn_val_less [of "take n b"] Suc.prems by simp_all
  have "cmp_step a b ret n = (if unat (a ! n) = unat (b ! n) then ret else order_word (unat (a ! n)) (unat (b ! n)))" for ret
    by (simp add: cmp_step_def Let_def consttime order_word_def word_less_nat_alt word_unat_eq_iff)
  then show ?case using Suc digit_compare [OF l, of "unat (a ! n)" "unat (b ! n)"]
    by (simp add: take_Suc_conv_app_nth bn_val_append min_absorb2)
qed (simp add: order_word_def)

lemma foldl_or_zero: "foldl (\<lambda>acc i. acc OR f i) m is = 0 \<longleftrightarrow> m = 0 \<and> (\<forall>i \<in> set is. f i = (0 :: u64))"
  by (induction "is" arbitrary: m) (auto simp: or_eq_0_iff)

lemma or_words_zero: "or_words d i n = 0 \<longleftrightarrow> (\<forall>j. i \<le> j \<and> j < n \<longrightarrow> d ! j = 0)"
  by (auto simp: or_words_def foldl_or_zero)

lemma split_value:
  assumes "i \<le> n" "n \<le> length d"
  shows "bn_val (take n d) = bn_val (take i d) + radix ^ i * bn_val (drop i (take n d))"
proof -
  have "take n d = take i d @ drop i (take n d)"
    using append_take_drop_id [of i "take n d"] assms(1) by (simp add: min_absorb1)
  then have "bn_val (take n d) = bn_val (take i d @ drop i (take n d))" by simp
  then show ?thesis using assms by (simp only: bn_val_append) (simp add: min_absorb2)
qed

lemma or_words_value:
  assumes "i \<le> n" "n \<le> length d"
  shows "or_words d i n = 0 \<longleftrightarrow> bn_val (take n d) = bn_val (take i d)"
proof -
  have "(\<forall>j. i \<le> j \<and> j < n \<longrightarrow> d ! j = 0) \<longleftrightarrow> (\<forall>k < n - i. d ! (i + k) = 0)"
  proof (intro iffI allI impI)
    fix j assume all: "\<forall>k < n - i. d ! (i + k) = 0" and j: "i \<le> j \<and> j < n"
    then have "j - i < n - i" "i + (j - i) = j" by linarith+
    then show "d ! j = 0" using all by metis
  qed simp
  then have "or_words d i n = 0 \<longleftrightarrow> (\<forall>w \<in> set (drop i (take n d)). w = 0)"
    unfolding or_words_zero using assms by (simp add: all_set_conv_all_nth min_absorb2)
  also have "\<dots> \<longleftrightarrow> bn_val (drop i (take n d)) = 0" by (simp add: bn_val_eq_0)
  finally show ?thesis using split_value [OF assms] by simp
qed

lemma cmp_words_value:
  assumes "m \<le> length a" "n \<le> length b"
  shows "bn_cmp_words_consttime a m b n = order_word (bn_val (take m a)) (bn_val (take n b))"
proof (cases m n rule: linorder_cases)
  case less
  have l: "bn_val (take m a) < radix ^ m" "bn_val (take m b) < radix ^ m"
    using bn_val_less [of "take m a"] bn_val_less [of "take m b"] assms less by (simp_all add: min_absorb2)
  have "bn_val (take n b) = bn_val (take m b) + radix ^ m * bn_val (drop m (take n b))"
    using less assms(2) by (intro split_value) simp_all
  then have "order_word (bn_val (take m a)) (bn_val (take n b)) =
      (if bn_val (take n b) = bn_val (take m b) then order_word (bn_val (take m a)) (bn_val (take m b)) else - 1)"
    using digit_compare [OF l, of 0 "bn_val (drop m (take n b))"] by (simp add: order_word_def)
  moreover have "or_words b m n = 0 \<longleftrightarrow> bn_val (take n b) = bn_val (take m b)"
    using less assms(2) by (intro or_words_value) simp_all
  ultimately show ?thesis using less assms
    by (simp add: bn_cmp_words_consttime_def Let_def consttime cmp_loop_value)
next
  case greater
  have l: "bn_val (take n a) < radix ^ n" "bn_val (take n b) < radix ^ n"
    using bn_val_less [of "take n a"] bn_val_less [of "take n b"] assms greater by (simp_all add: min_absorb2)
  have "bn_val (take m a) = bn_val (take n a) + radix ^ n * bn_val (drop n (take m a))"
    using greater assms(1) by (intro split_value) simp_all
  then have "order_word (bn_val (take m a)) (bn_val (take n b)) =
      (if bn_val (take m a) = bn_val (take n a) then order_word (bn_val (take n a)) (bn_val (take n b)) else 1)"
    using digit_compare [OF l, of "bn_val (drop n (take m a))" 0] by (simp add: order_word_def)
  moreover have "or_words a n m = 0 \<longleftrightarrow> bn_val (take m a) = bn_val (take n a)"
    using greater assms(1) by (intro or_words_value) simp_all
  ultimately show ?thesis using greater assms
    by (simp add: bn_cmp_words_consttime_def Let_def consttime cmp_loop_value)
next
  case equal
  then show ?thesis using assms by (simp add: bn_cmp_words_consttime_def cmp_loop_value)
qed

lemma BN_ucmp_value: "bn_mem a \<Longrightarrow> bn_mem b \<Longrightarrow> BN_ucmp a b = order_word (bn_abs a) (bn_abs b)"
  unfolding BN_ucmp_def bn_abs_def bn_words_def by (rule cmp_words_value) (simp_all add: bn_mem_def)

lemma order_negative: "sint (order_word x y) < 0 \<longleftrightarrow> x < y"
  by (auto simp: order_word_def)

lemma fits_in_words:
  assumes "bn_mem bn"
  shows "bn_fits_in_words bn num \<longleftrightarrow> bn_abs bn < radix ^ num"
proof (cases "num \<le> bn_width bn")
  case True
  let ?low = "bn_val (take num (bn_d bn))" and ?hi = "bn_val (drop num (take (bn_width bn) (bn_d bn)))"
  have n: "bn_width bn \<le> length (bn_d bn)" using assms by (simp add: bn_mem_def)
  have "?low < radix ^ num" using bn_val_less [of "take num (bn_d bn)"] True n by (simp add: min_absorb2)
  moreover have "?hi \<noteq> 0 \<Longrightarrow> radix ^ num \<le> radix ^ num * ?hi" by simp
  ultimately have "?low + radix ^ num * ?hi < radix ^ num \<longleftrightarrow> ?hi = 0" by (cases "?hi = 0"; linarith?; simp)
  then show ?thesis using or_words_value [OF True n] split_value [OF True n]
    by (simp add: bn_fits_in_words_def bn_abs_def bn_words_def)
next
  case False
  then have "radix ^ bn_width bn \<le> radix ^ num" by (intro power_increasing) (simp_all add: Suc_leI)
  then have "bn_abs bn < radix ^ num" using bn_abs_less [OF assms] by linarith
  then show ?thesis using False by (simp add: bn_fits_in_words_def or_words_def)
qed

lemma BN_is_zero_value: "bn_mem bn \<Longrightarrow> BN_is_zero bn \<longleftrightarrow> bn_abs bn = 0"
  by (simp add: BN_is_zero_def fits_in_words)

section \<open>Addition and subtraction\<close>

lemma uadd_ordered:
  assumes "bn_malloc_ok malloc" "bn_mem r" "bn_mem a" "bn_mem b" "bn_width b \<le> bn_width a"
    and x: "(case bn_wexpand malloc r (bn_width a + 1) of
            (False, r) \<Rightarrow> (False, r)
          | (True, r) \<Rightarrow>
              let (low, carry) = bn_add_words (bn_d a) (bn_d b) (bn_width b);
                  (high, carry) = carry_loop carry (drop (bn_width b) (take (bn_width a) (bn_d a)))
              in (True, r\<lparr>bn_d := put_words (bn_d r) 0 (low @ high @ [carry]), bn_width := bn_width a + 1\<rparr>)) = (ok, x)"
  shows "bn_mem x \<and> ok = bn_room malloc r (bn_width a + 1) \<and>
    (ok \<longrightarrow> bn_abs x = bn_abs a + bn_abs b \<and> bn_neg x = bn_neg r)"
proof -
  obtain e r1 where e: "bn_wexpand malloc r (bn_width a + 1) = (e, r1)" by fastforce
  note w = wexpand [OF assms(1,2) e]
  show ?thesis
  proof (cases e)
    case False
    then show ?thesis using w x unfolding e by auto
  next
    case True
    obtain low c where l: "bn_add_words (bn_d a) (bn_d b) (bn_width b) = (low, c)" by fastforce
    let ?as = "drop (bn_width b) (take (bn_width a) (bn_d a))"
    obtain high c' where h: "carry_loop c ?as = (high, c')" by fastforce
    have la: "bn_width b \<le> length (bn_d a)" "bn_width b \<le> length (bn_d b)" "bn_width a \<le> length (bn_d a)"
      using assms by (simp_all add: bn_mem_def)
    note lv = bn_add_words_value [OF l la(1,2)]
    have hv: "length high = bn_width a - bn_width b"
      "bn_val high + radix ^ (bn_width a - bn_width b) * unat c' = bn_val ?as + unat c"
      using carry_loop_value [OF h] lv la by (simp_all add: min_absorb2)
    let ?ws = "low @ high @ [c']"
    have len: "length ?ws = bn_width a + 1" using lv hv assms(5) by simp
    have x': "ok" "x = r1\<lparr>bn_d := put_words (bn_d r1) 0 ?ws, bn_width := length ?ws\<rparr>"
      using x unfolding e l h len by (simp_all add: True l h)
    have "bn_val ?ws = bn_val low + radix ^ bn_width b * (bn_val ?as + unat c)"
      using lv hv by (simp add: bn_val_append)
    also have "\<dots> = bn_val (take (bn_width a) (bn_d a)) + bn_val (take (bn_width b) (bn_d b))"
      using lv split_value [OF assms(5) la(3)] by (simp add: add_mult_distrib2)
    finally have "bn_val ?ws = bn_abs a + bn_abs b" by (simp add: bn_abs_def bn_words_def)
    moreover have "bn_mem x" "bn_words x = ?ws"
      using store_words [of r1 ?ws] w len True unfolding x' by simp_all
    ultimately show ?thesis using w x' True by (simp add: bn_abs_def)
  qed
qed

lemma bn_uadd_value:
  assumes "bn_malloc_ok malloc" "bn_mem r" "bn_mem a" "bn_mem b" "bn_uadd_consttime malloc r a b = (ok, x)"
  shows "bn_mem x \<and> ok = bn_room malloc r (max (bn_width a) (bn_width b) + 1) \<and>
    (ok \<longrightarrow> bn_abs x = bn_abs a + bn_abs b \<and> bn_neg x = bn_neg r)"
proof (cases "bn_width a < bn_width b")
  case True
  then show ?thesis
    using assms(5) uadd_ordered [OF assms(1,2,4,3), of ok x] by (simp add: bn_uadd_consttime_def Let_def max_def)
next
  case False
  then show ?thesis
    using assms(5) uadd_ordered [OF assms(1-4), of ok x] by (simp add: bn_uadd_consttime_def Let_def max_def not_less)
qed

lemma BN_uadd_value:
  assumes "bn_malloc_ok malloc" "bn_mem r" "bn_mem a" "bn_mem b" "BN_uadd malloc r a b = (ok, x)"
  shows "bn_mem x \<and> ok = bn_room malloc r (max (bn_width a) (bn_width b) + 1) \<and>
    (ok \<longrightarrow> bn_wf x \<and> bn_minimal x \<and> bn_abs x = bn_abs a + bn_abs b \<and> bn_neg x = (bn_neg r \<and> bn_abs x \<noteq> 0))"
proof -
  obtain e y where y: "bn_uadd_consttime malloc r a b = (e, y)" by fastforce
  note v = bn_uadd_value [OF assms(1-4) y]
  show ?thesis using assms(5) v set_minimal_width [of y]
    by (cases e) (auto simp: BN_uadd_def y bn_wf_def)
qed

lemma bn_usub_value:
  assumes "bn_malloc_ok malloc" "bn_mem r" "bn_mem a" "bn_mem b" "bn_usub_consttime malloc r a b = (ok, x)"
  shows "bn_mem x \<and> ok = (bn_abs b \<le> bn_abs a \<and> bn_room malloc r (bn_width a)) \<and>
    (ok \<longrightarrow> bn_abs x + bn_abs b = bn_abs a \<and> \<not> bn_neg x)"
proof -
  define k where "k = (if bn_width b > bn_width a then bn_width a else bn_width b)"
  consider (big) "bn_width b > bn_width a" "\<not> bn_fits_in_words b (bn_width a)" |
    (fits) "bn_width b > bn_width a \<Longrightarrow> bn_abs b < radix ^ bn_width a"
    using fits_in_words [OF assms(4)] by blast
  then show ?thesis
  proof cases
    case big
    then have "bn_abs a < bn_abs b"
      using fits_in_words [OF assms(4)] bn_abs_less [OF assms(3)] by (meson less_le_trans not_less)
    then show ?thesis using assms(2,5) big by (simp add: bn_usub_consttime_def)
  next
    case fits
    then have f: "\<not> (bn_width b > bn_width a \<and> \<not> bn_fits_in_words b (bn_width a))"
      using fits_in_words [OF assms(4)] by blast
    obtain e r1 where e: "bn_wexpand malloc r (bn_width a) = (e, r1)" by fastforce
    note w = wexpand [OF assms(1,2) e]
    obtain low c where l: "bn_sub_words (bn_d a) (bn_d b) k = (low, c)" by fastforce
    let ?as = "drop k (take (bn_width a) (bn_d a))"
    obtain high c' where h: "borrow_loop c ?as = (high, c')" by fastforce
    have le: "k \<le> bn_width a" by (simp add: k_def)
    have la: "k \<le> length (bn_d a)" "k \<le> length (bn_d b)" "bn_width a \<le> length (bn_d a)"
      using assms by (auto simp: bn_mem_def k_def)
    note lv = bn_sub_words_value [OF l la(1,2)]
    have hv: "length high = bn_width a - k" "unat c' \<le> 1"
      "bn_val high + unat c = bn_val ?as + radix ^ (bn_width a - k) * unat c'"
      using borrow_loop_value [OF h] lv la by (simp_all add: min_absorb2)
    let ?ws = "low @ high"
    have len: "length ?ws = bn_width a" using lv hv le by simp
    have bw: "bn_val (take k (bn_d b)) = bn_abs b"
    proof (cases "bn_width b > bn_width a")
      case True
      have "bn_fits_in_words b (bn_width a)" using f True by simp
      then show ?thesis using True or_words_value [of "bn_width a" "bn_width b" "bn_d b"] assms(4)
        by (simp add: k_def bn_fits_in_words_def bn_abs_def bn_words_def bn_mem_def)
    qed (simp add: bn_abs_def bn_words_def k_def)
    have "bn_val ?ws + bn_abs b + radix ^ k * unat c =
        bn_val low + bn_val (take k (bn_d b)) + radix ^ k * (bn_val high + unat c)"
      using lv by (simp add: bn_val_append bw add_mult_distrib2)
    also have "\<dots> = bn_val (take k (bn_d a)) + radix ^ k * unat c +
        radix ^ k * (bn_val ?as + radix ^ (bn_width a - k) * unat c')"
      using lv hv(3) by simp
    also have "\<dots> = bn_val (take (bn_width a) (bn_d a)) + radix ^ k * unat c + radix ^ bn_width a * unat c'"
      using split_value [OF le la(3)] le
      by (simp only: add_mult_distrib2 mult.assoc [symmetric] power_add [symmetric] le_add_diff_inverse)
    finally have v: "bn_val ?ws + bn_abs b = bn_abs a + radix ^ bn_width a * unat c'"
      by (simp add: bn_abs_def bn_words_def)
    have small: "bn_val ?ws < radix ^ bn_width a" using bn_val_less [of ?ws] len by simp
    have c0: "c' = 0 \<longleftrightarrow> bn_abs b \<le> bn_abs a"
    proof
      assume "c' = 0"
      then show "bn_abs b \<le> bn_abs a" using v by simp
    next
      assume le: "bn_abs b \<le> bn_abs a"
      show "c' = 0"
      proof (rule ccontr)
        assume "c' \<noteq> 0"
        then have "unat c' = 1" using hv(2) by (simp add: unat_eq_zero le_Suc_eq)
        then show False using v le small by simp
      qed
    qed
    show ?thesis
    proof (cases e)
      case False
      then show ?thesis using w assms(5) f by (auto simp: bn_usub_consttime_def k_def [symmetric] e)
    next
      case True
      let ?y = "r1\<lparr>bn_d := put_words (bn_d r1) 0 ?ws, bn_width := length ?ws\<rparr>"
      have y: "bn_mem ?y" "bn_words ?y = ?ws" using store_words [of r1 ?ws] w len True by simp_all
      have x: "(ok, x) = (if c' \<noteq> 0 then (False, ?y\<lparr>bn_width := bn_width r1\<rparr>) else (True, ?y\<lparr>bn_neg := False\<rparr>))"
        using assms(5) True f unfolding len by (simp add: bn_usub_consttime_def k_def [symmetric] e l h Let_def split: if_splits)
      have "bn_mem (?y\<lparr>bn_width := bn_width r1\<rparr>)" using y(1) w len by (auto simp: bn_mem_def)
      moreover have "bn_abs ?y = bn_val ?ws" using y(2) by (simp add: bn_abs_def)
      ultimately show ?thesis using x y(1) c0 v w True by (cases "c' = 0") (simp_all del: length_append)
    qed
  qed
qed

lemma BN_usub_value:
  assumes "bn_malloc_ok malloc" "bn_mem r" "bn_mem a" "bn_mem b" "BN_usub malloc r a b = (ok, x)"
  shows "bn_mem x \<and> ok = (bn_abs b \<le> bn_abs a \<and> bn_room malloc r (bn_width a)) \<and>
    (ok \<longrightarrow> bn_wf x \<and> bn_minimal x \<and> bn_abs x + bn_abs b = bn_abs a \<and> \<not> bn_neg x)"
proof -
  obtain e y where y: "bn_usub_consttime malloc r a b = (e, y)" by fastforce
  note v = bn_usub_value [OF assms(1-4) y]
  show ?thesis using assms(5) v set_minimal_width [of y]
    by (cases e) (auto simp: BN_usub_def y bn_wf_def)
qed

text \<open>The width that the difference of two numbers without sign is computed at.\<close>

definition sub_width :: "bignum \<Rightarrow> bignum \<Rightarrow> nat" where
  "sub_width a b = (if bn_abs a < bn_abs b then bn_width b else bn_width a)"

lemma bn_minimal_neg [simp]: "bn_minimal (bn\<lparr>bn_neg := s\<rparr>) = bn_minimal bn"
  by (simp add: bn_minimal_def bn_minimal_width_def)

lemma signed_sub_value:
  assumes "bn_malloc_ok malloc" "bn_mem r" "bn_mem a" "bn_mem b" "signed_sub malloc r a b = (ok, x)"
  shows "ok = bn_room malloc r (sub_width a b) \<and>
    (ok \<longrightarrow> bn_wf x \<and> bn_minimal x \<and> bn_int x = int (bn_abs a) - int (bn_abs b))"
proof (cases "bn_abs a < bn_abs b")
  case True
  obtain e y where y: "BN_usub malloc r b a = (e, y)" by fastforce
  show ?thesis using assms(5) True BN_usub_value [OF assms(1,2,4,3) y]
    by (cases e) (auto simp: signed_sub_def y BN_ucmp_value assms(3,4) order_negative sub_width_def bn_wf_def bn_int_def)
next
  case False
  obtain e y where y: "BN_usub malloc r a b = (e, y)" by fastforce
  show ?thesis using assms(5) False BN_usub_value [OF assms(1-4) y]
    by (cases e) (auto simp: signed_sub_def y BN_ucmp_value assms(3,4) order_negative sub_width_def bn_wf_def bn_int_def)
qed

lemma BN_add_value:
  assumes "bn_malloc_ok malloc" "bn_mem r" "bn_wf a" "bn_wf b" "BN_add malloc r a b = (ok, x)"
  shows "ok = bn_room malloc r
      (if bn_neg a = bn_neg b then max (bn_width a) (bn_width b) + 1
       else if bn_neg a then sub_width b a else sub_width a b) \<and>
    (ok \<longrightarrow> bn_wf x \<and> bn_minimal x \<and> bn_int x = bn_int a + bn_int b)"
proof (cases "bn_neg a = bn_neg b")
  case True
  obtain e y where y: "BN_uadd malloc r a b = (e, y)" by fastforce
  then have x: "ok = e" "x = y\<lparr>bn_neg := bn_neg a\<rparr>" using assms(5) True by (simp_all add: BN_add_def)
  show ?thesis using True BN_uadd_value [OF assms(1,2) bn_wf_mem [OF assms(3)] bn_wf_mem [OF assms(4)] y] assms(3)
    unfolding x by (auto simp: bn_wf_def bn_int_def)
next
  case False
  show ?thesis
  proof (cases "bn_neg a")
    case True
    then have "signed_sub malloc r b a = (ok, x)" using False assms(5) by (simp add: BN_add_def)
    from signed_sub_value [OF assms(1,2) bn_wf_mem [OF assms(4)] bn_wf_mem [OF assms(3)] this] True False
    show ?thesis by (simp add: bn_int_def)
  next
    case neg: False
    then have "signed_sub malloc r a b = (ok, x)" using False assms(5) by (simp add: BN_add_def)
    from signed_sub_value [OF assms(1,2) bn_wf_mem [OF assms(3)] bn_wf_mem [OF assms(4)] this] neg False
    show ?thesis by (simp add: bn_int_def)
  qed
qed

lemma BN_sub_value:
  assumes "bn_malloc_ok malloc" "bn_mem r" "bn_wf a" "bn_wf b" "BN_sub malloc r a b = (ok, x)"
  shows "ok = bn_room malloc r
      (if bn_neg a \<noteq> bn_neg b then max (bn_width a) (bn_width b) + 1
       else if bn_neg a then sub_width b a else sub_width a b) \<and>
    (ok \<longrightarrow> bn_wf x \<and> bn_minimal x \<and> bn_int x = bn_int a - bn_int b)"
proof (cases "bn_neg a = bn_neg b")
  case False
  obtain e y where y: "BN_uadd malloc r a b = (e, y)" by fastforce
  then have x: "ok = e" "x = (if e then y\<lparr>bn_neg := bn_neg a\<rparr> else y)"
    using assms(5) False by (cases e; auto simp: BN_sub_def)+
  show ?thesis using False BN_uadd_value [OF assms(1,2) bn_wf_mem [OF assms(3)] bn_wf_mem [OF assms(4)] y] assms(3,4)
    unfolding x by (auto simp: bn_wf_def bn_int_def)
next
  case True
  show ?thesis
  proof (cases "bn_neg a")
    case neg: True
    then have "signed_sub malloc r b a = (ok, x)" using True assms(5) by (simp add: BN_sub_def)
    from signed_sub_value [OF assms(1,2) bn_wf_mem [OF assms(4)] bn_wf_mem [OF assms(3)] this] True neg
    show ?thesis by (simp add: bn_int_def)
  next
    case False
    then have "signed_sub malloc r a b = (ok, x)" using True assms(5) by (simp add: BN_sub_def)
    from signed_sub_value [OF assms(1,2) bn_wf_mem [OF assms(3)] bn_wf_mem [OF assms(4)] this] True False
    show ?thesis by (simp add: bn_int_def)
  qed
qed

section \<open>Words\<close>

lemma bn_val_update:
  "i < length ds \<Longrightarrow> bn_val (ds[i := l]) + radix ^ i * unat (ds ! i) = bn_val ds + radix ^ i * unat l"
proof (induction ds arbitrary: i)
  case (Cons d ds)
  show ?case
  proof (cases i)
    case (Suc j)
    then have "radix * (bn_val (ds[j := l]) + radix ^ j * unat (ds ! j)) = radix * (bn_val ds + radix ^ j * unat l)"
      using Cons by simp
    then show ?thesis by (simp add: Suc algebra_simps)
  qed simp
qed simp

lemma add_word_digit: "unat (x + w :: u64) + radix * unat (if w > x + w then 1 else 0 :: u64) = unat x + unat w"
  using limb_less [of x] limb_less [of w] unfolding radix_def word_less_nat_alt
  by (auto simp: unat_word_ariths mod_if)

lemma add_word_loop_value:
  "add_word_loop d w i width = (d', w', i') \<Longrightarrow> i \<le> width \<Longrightarrow> width \<le> length d \<Longrightarrow>
   length d' = length d \<and> i' \<le> width \<and> (w' \<noteq> 0 \<longrightarrow> i' = width) \<and>
   bn_val (take width d') + radix ^ width * unat w' = bn_val (take width d) + radix ^ i * unat w"
proof (induction d w i width rule: add_word_loop.induct)
  case (1 d w i width)
  show ?case
  proof (cases "w \<noteq> 0 \<and> i < width")
    case False
    then show ?thesis using 1 by (auto simp: add_word_loop.simps [of d w i width])
  next
    case True
    define c :: u64 where "c = (if w > d ! i + w then 1 else 0)"
    have "add_word_loop (d[i := d ! i + w]) c (i + 1) width = (d', w', i')"
      using 1(2) True by (simp add: add_word_loop.simps [of d w i width] Let_def c_def)
    then have ih: "length d' = length d" "i' \<le> width" "w' \<noteq> 0 \<longrightarrow> i' = width"
      "bn_val (take width d') + radix ^ width * unat w' =
        bn_val (take width (d[i := d ! i + w])) + radix ^ (i + 1) * unat c"
      using 1(1) [OF True refl] 1(3,4) True by (simp_all add: c_def)
    have "radix ^ i * (unat (d ! i + w) + radix * unat c) = radix ^ i * (unat (d ! i) + unat w)"
      using add_word_digit [of "d ! i" w] by (simp only: c_def)
    moreover have "bn_val (take width (d[i := d ! i + w])) + radix ^ i * unat (d ! i) =
        bn_val (take width d) + radix ^ i * unat (d ! i + w)"
      using bn_val_update [of i "take width d" "d ! i + w"] True 1(4) by (simp add: take_update_swap)
    ultimately show ?thesis using ih by (simp add: algebra_simps)
  qed
qed

lemma drop_digit:
  assumes "i < width" "width \<le> length d"
  shows "bn_val (drop i (take width d)) = unat (d ! i) + radix * bn_val (drop (Suc i) (take width d))"
proof -
  have "drop i (take width d) = d ! i # drop (Suc i) (take width d)"
    using Cons_nth_drop_Suc [of i "take width d"] assms by simp
  then show ?thesis by (simp only: bn_val.simps)
qed

lemma sub_word_loop_value:
  "unat w \<le> bn_val (drop i (take width d)) \<Longrightarrow> w \<noteq> 0 \<Longrightarrow> width \<le> length d \<Longrightarrow>
   \<exists>d' i'. sub_word_loop d w i width = Some (d', i') \<and> length d' = length d \<and> i' < width \<and>
     bn_val (take width d') + radix ^ i * unat w = bn_val (take width d)"
proof (induction d w i width rule: sub_word_loop.induct)
  case (1 d w i width)
  have i: "i < width"
  proof (rule ccontr)
    assume "\<not> i < width"
    then show False using 1(2,3) by (simp add: unat_eq_zero)
  qed
  have upd: "bn_val (take width (d[i := x])) + radix ^ i * unat (d ! i) = bn_val (take width d) + radix ^ i * unat x" for x
    using bn_val_update [of i "take width d" x] i 1(4) by (simp add: take_update_swap)
  show ?case
  proof (cases "d ! i \<ge> w")
    case True
    then have "unat (d ! i - w) + unat w = unat (d ! i)" by (simp add: unat_sub_le word_le_nat_alt)
    then have "radix ^ i * unat (d ! i - w) + radix ^ i * unat w = radix ^ i * unat (d ! i)"
      by (simp only: add_mult_distrib2 [symmetric])
    then show ?thesis using True i upd [of "d ! i - w"] by (simp add: sub_word_loop.simps [of d w i width])
  next
    case False
    let ?d = "d[i := d ! i - w]"
    have v: "unat (d ! i - w) + unat w = unat (d ! i) + radix"
      using False limb_less [of w] by (simp add: unat_sub_wrap radix_def)
    have "unat (d ! i) < unat w" using False by (simp add: word_le_nat_alt)
    then have "1 \<le> bn_val (drop (Suc i) (take width d))"
      using 1(2) drop_digit [OF i 1(4)] by (cases "bn_val (drop (Suc i) (take width d))") simp_all
    then have "unat (1 :: u64) \<le> bn_val (drop (i + 1) (take width ?d))"
      by (simp add: take_update_swap)
    then obtain d' i' where ih: "sub_word_loop ?d 1 (i + 1) width = Some (d', i')" "length d' = length ?d" "i' < width"
      "bn_val (take width d') + radix ^ (i + 1) * unat (1 :: u64) = bn_val (take width ?d)"
      using 1(1) i False 1(4) by auto
    have "radix ^ i * unat (d ! i - w) + radix ^ i * unat w = radix ^ i * unat (d ! i) + radix ^ (i + 1)"
      using arg_cong [OF v, of "\<lambda>x. radix ^ i * x"] by (simp add: add_mult_distrib2 mult.commute)
    then show ?thesis using False i ih upd [of "d ! i - w"] by (simp add: sub_word_loop.simps [of d w i width])
  qed
qed

lemma BN_zero_value:
  "bn_mem bn \<Longrightarrow> bn_wf (BN_zero bn) \<and> bn_int (BN_zero bn) = 0 \<and> \<not> bn_neg (BN_zero bn) \<and> bn_abs (BN_zero bn) = 0"
  by (simp add: BN_zero_def bn_wf_def bn_mem_def bn_int_def bn_abs_def bn_words_def)

lemma BN_set_word_value:
  assumes "bn_malloc_ok malloc" "bn_mem bn" "BN_set_word malloc bn v = (ok, x)"
  shows "bn_mem x \<and> ok = (v = 0 \<or> bn_room malloc bn 1) \<and>
    (ok \<longrightarrow> bn_wf x \<and> bn_abs x = unat v \<and> \<not> bn_neg x)"
proof (cases "v = 0")
  case True
  then show ?thesis using assms(3) BN_zero_value [OF assms(2)] by (auto simp: BN_set_word_def bn_wf_def)
next
  case False
  obtain e y where e: "bn_wexpand malloc bn 1 = (e, y)" by fastforce
  note w = wexpand [OF assms(1,2) e]
  show ?thesis
  proof (cases e)
    case True
    have x: "ok" "x = y\<lparr>bn_neg := False, bn_d := (bn_d y)[0 := v], bn_width := 1\<rparr>"
      using assms(3) False True unfolding BN_set_word_def e by simp_all
    have "bn_words x = [v]" using w True by (cases "bn_d y") (auto simp: x bn_words_def bn_mem_def)
    moreover have "bn_mem x" using w True by (auto simp: x bn_mem_def)
    ultimately show ?thesis using w True x by (simp add: bn_wf_def bn_abs_def)
  next
    case f: False
    then have "ok = False" "x = y" using assms(3) False unfolding BN_set_word_def e by simp_all
    then show ?thesis using w False f assms(2) by simp
  qed
qed

lemma BN_add_word_pos:
  assumes "bn_malloc_ok malloc" "bn_mem a" "\<not> bn_neg a"
  obtains ok x where "BN_add_word malloc a w = Some (ok, x)" "bn_mem x"
    "bn_room malloc a (bn_width a + 1) \<Longrightarrow> ok"
    "ok \<Longrightarrow> bn_abs x = bn_abs a + unat w \<and> \<not> bn_neg x"
proof -
  consider (w0) "w = 0" | (zero) "w \<noteq> 0" "bn_abs a = 0" | (rest) "w \<noteq> 0" "bn_abs a \<noteq> 0" by blast
  then show ?thesis
  proof cases
    case w0
    then show ?thesis using that [of True a] assms by (simp add: BN_add_word.simps)
  next
    case zero
    obtain ok x where x: "BN_set_word malloc a w = (ok, x)" by fastforce
    note v = BN_set_word_value [OF assms(1,2) x]
    have "bn_room malloc a (bn_width a + 1) \<Longrightarrow> bn_room malloc a 1"
      using assms(2) by (cases "bn_width a") (auto simp: bn_room_def bn_mem_def)
    then show ?thesis using that [of ok x] v zero x assms(2)
      by (simp add: BN_add_word.simps BN_is_zero_value)
  next
    case rest
    obtain d w' i where l: "add_word_loop (bn_d a) w 0 (bn_width a) = (d, w', i)" by (metis prod_cases3)
    have le: "bn_width a \<le> length (bn_d a)" using assms(2) by (simp add: bn_mem_def)
    note v = add_word_loop_value [OF l _ le]
    let ?a = "a\<lparr>bn_d := d\<rparr>"
    have m: "bn_mem ?a" using v assms(2) by (simp add: bn_mem_def)
    have r: "bn_room malloc ?a n = bn_room malloc a n" for n by (simp add: bn_room_def)
    show ?thesis
    proof (cases "w' = 0")
      case True
      then show ?thesis using that [of True ?a] rest assms l v m
        by (simp add: BN_add_word.simps BN_is_zero_value Let_def bn_abs_def bn_words_def)
    next
      case False
      then have i: "i = bn_width a" using v by simp
      obtain e y where e: "bn_wexpand malloc ?a (bn_width a + 1) = (e, y)" by fastforce
      note w = wexpand [OF assms(1) m e]
      have res: "BN_add_word malloc a w = Some (if e then (True, y\<lparr>bn_width := bn_width a + 1, bn_d := (bn_d y)[bn_width a := w']\<rparr>) else (False, y))"
        using rest assms l e w False i
        by (simp add: BN_add_word.simps BN_is_zero_value Let_def)
      show ?thesis
      proof (cases e)
        case True
        let ?x = "y\<lparr>bn_width := bn_width a + 1, bn_d := (bn_d y)[bn_width a := w']\<rparr>"
        have d: "bn_width a < length (bn_d y)" "bn_mem ?x" "take (bn_width a) (bn_d y) = take (bn_width a) d"
          using w True by (auto simp: bn_mem_def bn_words_def)
        then have "bn_words ?x = take (bn_width a) d @ [w']"
          by (simp add: bn_words_def take_Suc_conv_app_nth)
        then have "bn_abs ?x = bn_abs a + unat w"
          using v le by (simp add: bn_abs_def bn_val_append min_absorb2 bn_words_def [of a])
        then show ?thesis using that [of True ?x] res True d(2) w assms(3) by simp
      next
        case f: False
        then show ?thesis using that [of False "a\<lparr>bn_d := d\<rparr>"] res w r m by auto
      qed
    qed
  qed
qed

lemma BN_sub_word_pos:
  assumes "bn_malloc_ok malloc" "bn_mem a" "\<not> bn_neg a"
  obtains ok x where "BN_sub_word malloc a w = Some (ok, x)" "bn_mem x"
    "bn_room malloc a (bn_width a + 1) \<Longrightarrow> ok"
    "ok \<Longrightarrow> bn_wf x \<and> bn_int x = int (bn_abs a) - int (unat w)"
proof -
  have le: "bn_width a \<le> length (bn_d a)" using assms(2) by (simp add: bn_mem_def)
  consider (w0) "w = 0" | (zero) "w \<noteq> 0" "bn_abs a = 0" |
    (small) "w \<noteq> 0" "bn_abs a \<noteq> 0" "bn_minimal_width a = 1" "bn_d a ! 0 < w" |
    (rest) "w \<noteq> 0" "bn_abs a \<noteq> 0" "\<not> (bn_minimal_width a = 1 \<and> bn_d a ! 0 < w)" by blast
  then show ?thesis
  proof cases
    case w0
    then show ?thesis using that [of True a] assms by (simp add: BN_sub_word.simps bn_wf_def bn_int_def)
  next
    case zero
    obtain ok x where x: "BN_set_word malloc a w = (ok, x)" by fastforce
    note v = BN_set_word_value [OF assms(1,2) x]
    have "bn_room malloc a (bn_width a + 1) \<Longrightarrow> bn_room malloc a 1"
      using assms(2) by (cases "bn_width a") (auto simp: bn_room_def bn_mem_def)
    then show ?thesis using that [of ok "if ok then BN_set_negative x True else x"] v zero x assms(2)
      by (simp add: BN_sub_word.simps BN_is_zero_value BN_set_negative_def bn_wf_def bn_int_def unat_eq_zero)
  next
    case small
    let ?x = "a\<lparr>bn_d := (bn_d a)[0 := w - bn_d a ! 0], bn_neg := True\<rparr>"
    have one: "0 < bn_width a" "\<forall>i. 1 \<le> i \<and> i < bn_width a \<longrightarrow> bn_d a ! i = 0"
      using small(3) minimal_width_le [of "bn_d a" "bn_width a"] minimal_width_iff [of "bn_d a" "bn_width a" 1]
      by (auto simp: bn_minimal_width_def)
    then have "or_words (bn_d a) 1 (bn_width a) = 0" by (simp add: or_words_zero)
    then have "bn_abs a = bn_val (take 1 (bn_d a))"
      using or_words_value [of 1 "bn_width a" "bn_d a"] one(1) le by (simp add: bn_abs_def bn_words_def)
    moreover have "take 1 (bn_d a) = [bn_d a ! 0]" using one(1) le by (cases "bn_d a") auto
    ultimately have a: "bn_abs a = unat (bn_d a ! 0)" by simp
    have "bn_abs ?x + unat (bn_d a ! 0) = bn_abs a + unat (w - bn_d a ! 0)"
      using bn_val_update [of 0 "bn_words a" "w - bn_d a ! 0"] one(1) le
      by (cases "bn_d a = []") (simp_all add: bn_abs_def bn_words_def take_update_swap)
    moreover have "unat (w - bn_d a ! 0) = unat w - unat (bn_d a ! 0)" "unat (bn_d a ! 0) < unat w"
      using small(4) by (simp_all add: unat_sub_le word_less_nat_alt word_le_nat_alt)
    ultimately have "bn_abs ?x = unat w - bn_abs a" "bn_abs a < unat w" using a by simp_all
    moreover have "bn_mem ?x" using assms(2) by (simp add: bn_mem_def)
    ultimately show ?thesis using that [of True ?x] small assms
      by (simp add: BN_sub_word.simps BN_is_zero_value bn_wf_def bn_int_def)
  next
    case rest
    have ge: "unat w \<le> bn_abs a"
    proof (cases "bn_minimal_width a")
      case 0
      then show ?thesis using minimal_width_zero [OF assms(2)] rest(2) by simp
    next
      case (Suc k)
      have k: "k < bn_width a" "bn_d a ! k \<noteq> 0"
        using Suc minimal_width_le [of "bn_d a" "bn_width a"] minimal_width_top [of "bn_d a" "bn_width a" k]
        by (simp_all add: bn_minimal_width_def)
      have d: "bn_abs a = bn_val (take k (bn_d a)) + radix ^ k * bn_val (drop k (take (bn_width a) (bn_d a)))"
        using split_value [of k "bn_width a" "bn_d a"] k le by (simp add: bn_abs_def bn_words_def)
      note dk = drop_digit [OF k(1) le]
      show ?thesis
      proof (cases k)
        case 0
        then have "w \<le> bn_d a ! 0" using rest(3) Suc by simp
        then show ?thesis using d dk by (simp add: 0 word_le_nat_alt)
      next
        case (Suc j)
        have "1 \<le> unat (bn_d a ! k)" using k(2) by (simp add: Suc_le_eq unat_gt_0)
        then have "radix ^ k * 1 \<le> radix ^ k * bn_val (drop k (take (bn_width a) (bn_d a)))"
          using dk by (intro mult_le_mono2) linarith
        moreover have "radix * 1 \<le> radix * radix ^ j" by (intro mult_le_mono2) (simp add: Suc_le_eq)
        then have "radix \<le> radix ^ k" by (simp only: Suc power_Suc mult_1_right)
        ultimately show ?thesis using d limb_less [of w] by linarith
      qed
    qed
    then obtain d i where l: "sub_word_loop (bn_d a) w 0 (bn_width a) = Some (d, i)" "length d = length (bn_d a)"
      "i < bn_width a" "bn_val (take (bn_width a) d) + unat w = bn_abs a"
      using sub_word_loop_value [of w 0 "bn_width a" "bn_d a"] rest(1) le by (auto simp: bn_abs_def bn_words_def)
    let ?x = "if d ! i = 0 \<and> i = bn_width a - 1 then a\<lparr>bn_d := d, bn_width := bn_width a - 1\<rparr> else a\<lparr>bn_d := d\<rparr>"
    have res: "BN_sub_word malloc a w = Some (True, ?x)"
      using rest assms l(1) by (auto simp: BN_sub_word.simps BN_is_zero_value Let_def)
    have m: "bn_mem ?x" using assms(2) l by (simp add: bn_mem_def)
    have "bn_val (take (bn_width a - 1) d) = bn_val (take (bn_width a) d)" if "d ! (bn_width a - 1) = 0"
    proof (cases "bn_width a")
      case (Suc k)
      then show ?thesis using that l le by (simp add: take_Suc_conv_app_nth bn_val_append)
    qed simp
    then have v: "bn_abs ?x = bn_val (take (bn_width a) d)" by (auto simp: bn_abs_def bn_words_def)
    have "\<not> bn_neg ?x" using assms(3) by simp
    moreover have "int (bn_val (take (bn_width a) d)) = int (bn_abs a) - int (unat w)" using l(4) by linarith
    ultimately have "bn_wf ?x \<and> bn_int ?x = int (bn_abs a) - int (unat w)"
      using m v by (simp only: bn_wf_def bn_int_def) simp
    then show ?thesis using that res m by blast
  qed
qed

lemma BN_add_word_value:
  assumes "bn_malloc_ok malloc" "bn_wf a"
  shows "\<exists>ok x. BN_add_word malloc a w = Some (ok, x) \<and> (bn_room malloc a (bn_width a + 1) \<longrightarrow> ok) \<and>
    (ok \<longrightarrow> bn_wf x \<and> bn_int x = bn_int a + int (unat w))"
proof (cases "bn_neg a")
  case False
  obtain ok x where "BN_add_word malloc a w = Some (ok, x)" "bn_mem x" "bn_room malloc a (bn_width a + 1) \<Longrightarrow> ok"
    "ok \<Longrightarrow> bn_abs x = bn_abs a + unat w \<and> \<not> bn_neg x"
    using BN_add_word_pos [OF assms(1) bn_wf_mem [OF assms(2)] False] by metis
  then show ?thesis using False by (auto simp: bn_wf_def bn_int_def)
next
  case True
  let ?a = "a\<lparr>bn_neg := False\<rparr>"
  have m: "bn_mem ?a" "\<not> bn_neg ?a" using assms(2) by (simp_all add: bn_wf_def)
  show ?thesis
  proof (cases "w = 0")
    case False
    obtain ok x where x: "BN_sub_word malloc ?a w = Some (ok, x)" "bn_mem x" "bn_room malloc ?a (bn_width ?a + 1) \<Longrightarrow> ok"
      "ok \<Longrightarrow> bn_wf x \<and> bn_int x = int (bn_abs ?a) - int (unat w)"
      using BN_sub_word_pos [OF assms(1) m] by metis
    have r: "bn_room malloc ?a n = bn_room malloc a n" for n by (simp add: bn_room_def)
    let ?x = "if BN_is_zero x then x else x\<lparr>bn_neg := \<not> bn_neg x\<rparr>"
    have "BN_add_word malloc a w = Some (ok, ?x)"
      using True False x(1) assms(2) by (simp add: BN_add_word.simps [of malloc a] BN_is_zero_value bn_wf_def)
    moreover have "bn_wf ?x \<and> bn_int ?x = bn_int a + int (unat w)" if ok
      using x(2) x(4) [OF that] True by (auto simp: BN_is_zero_value bn_wf_def bn_int_def split: if_splits)
    ultimately show ?thesis using x(3) r by simp
  qed (use assms(2) in \<open>auto simp: BN_add_word.simps\<close>)
qed

lemma BN_sub_word_value:
  assumes "bn_malloc_ok malloc" "bn_wf a"
  shows "\<exists>ok x. BN_sub_word malloc a w = Some (ok, x) \<and> (bn_room malloc a (bn_width a + 1) \<longrightarrow> ok) \<and>
    (ok \<longrightarrow> bn_wf x \<and> bn_int x = bn_int a - int (unat w))"
proof (cases "bn_neg a")
  case False
  then show ?thesis using BN_sub_word_pos [OF assms(1) bn_wf_mem [OF assms(2)] False, of w]
    by (simp add: bn_int_def) metis
next
  case True
  let ?a = "a\<lparr>bn_neg := False\<rparr>"
  have m: "bn_mem ?a" "\<not> bn_neg ?a" using assms(2) by (simp_all add: bn_wf_def)
  show ?thesis
  proof (cases "w = 0")
    case False
    obtain ok x where x: "BN_add_word malloc ?a w = Some (ok, x)" "bn_mem x" "bn_room malloc ?a (bn_width ?a + 1) \<Longrightarrow> ok"
      "ok \<Longrightarrow> bn_abs x = bn_abs ?a + unat w \<and> \<not> bn_neg x"
      using BN_add_word_pos [OF assms(1) m] by metis
    have r: "bn_room malloc ?a n = bn_room malloc a n" for n by (simp add: bn_room_def)
    have "BN_sub_word malloc a w = Some (ok, x\<lparr>bn_neg := True\<rparr>)"
      using True False x(1) assms(2) by (simp add: BN_sub_word.simps [of malloc a] BN_is_zero_value bn_wf_def)
    moreover have "bn_wf (x\<lparr>bn_neg := True\<rparr>) \<and> bn_int (x\<lparr>bn_neg := True\<rparr>) = bn_int a - int (unat w)" if ok
      using x(2) x(4) [OF that] True assms(2) by (auto simp: bn_wf_def bn_int_def)
    ultimately show ?thesis using x(3) r by simp
  qed (use assms(2) in \<open>auto simp: BN_sub_word.simps\<close>)
qed

lemma BN_mul_word_value:
  assumes "bn_malloc_ok malloc" "bn_wf bn" "BN_mul_word malloc bn w = (ok, x)"
  shows "(bn_room malloc bn (bn_width bn + 1) \<longrightarrow> ok) \<and>
    (ok \<longrightarrow> bn_wf x \<and> bn_int x = bn_int bn * int (unat w))"
proof -
  have m: "bn_mem bn" "bn_width bn \<le> length (bn_d bn)" using assms(2) by (auto simp: bn_wf_def bn_mem_def)
  consider (none) "bn_width bn = 0" | (w0) "bn_width bn \<noteq> 0" "w = 0" | (rest) "bn_width bn \<noteq> 0" "w \<noteq> 0" by blast
  then show ?thesis
  proof cases
    case none
    then show ?thesis using assms(2,3)
      by (auto simp: BN_mul_word_def bn_wf_def bn_int_def bn_abs_def bn_words_def)
  next
    case w0
    then show ?thesis using assms(3) BN_zero_value [OF m(1)] by (auto simp: BN_mul_word_def)
  next
    case rest
    obtain r ll where l: "bn_mul_words (bn_d bn) (bn_width bn) w = (r, ll)" by fastforce
    note v = bn_mul_words_value [OF l m(2)]
    let ?b = "bn\<lparr>bn_d := put_words (bn_d bn) 0 r\<rparr>"
    have b: "bn_mem ?b" "bn_words ?b = r"
      using store_words [of bn r] m(1) v by (auto simp: bn_mem_def bn_words_def)
    have room: "bn_room malloc ?b n = bn_room malloc bn n" for n by (simp add: bn_room_def)
    show ?thesis
    proof (cases "ll = 0")
      case True
      have "ok" "x = ?b" using assms(3) rest True l by (simp_all add: BN_mul_word_def)
      moreover have "bn_abs ?b = unat w * bn_abs bn" using v True b by (simp add: bn_abs_def bn_words_def [of bn])
      ultimately show ?thesis using assms(2) b rest by (auto simp: bn_wf_def bn_int_def unat_eq_zero)
    next
      case False
      obtain e y where e: "bn_wexpand malloc ?b (bn_width bn + 1) = (e, y)" by fastforce
      note wx = wexpand [OF assms(1) b(1) e]
      let ?x = "y\<lparr>bn_d := (bn_d y)[bn_width y := ll], bn_width := bn_width y + 1\<rparr>"
      have x: "(ok, x) = (if e then (True, ?x) else (False, y))"
        using assms(3) rest False l e by (cases e) (simp_all add: BN_mul_word_def Let_def)
      show ?thesis
      proof (cases e)
        case True
        have "bn_width bn < length (bn_d y)" "bn_mem ?x" "take (bn_width bn) (bn_d y) = r" "bn_width y = bn_width bn"
          using wx True b by (auto simp: bn_mem_def bn_words_def)
        moreover from this have "bn_words ?x = r @ [ll]"
          by (simp add: bn_words_def take_Suc_conv_app_nth)
        ultimately have "bn_abs ?x = unat w * bn_abs bn" "bn_mem ?x" "bn_neg ?x = bn_neg bn"
          using v wx by (simp_all add: bn_abs_def bn_val_append bn_words_def [of bn])
        then show ?thesis using x True assms(2) rest by (auto simp: bn_wf_def bn_int_def unat_eq_zero)
      next
        case f: False
        then show ?thesis using wx x room by auto
      qed
    qed
  qed
qed

section \<open>Predicates\<close>

lemma bn_val_inject: "length xs = length ys \<Longrightarrow> bn_val xs = bn_val ys \<Longrightarrow> xs = ys"
proof (induction xs ys rule: list_induct2)
  case (Cons x xs y ys)
  have "bn_val (x # xs) mod radix = unat x" "bn_val (y # ys) mod radix = unat y"
    "bn_val (x # xs) div radix = bn_val xs" "bn_val (y # ys) div radix = bn_val ys"
    by simp_all
  then have "unat x = unat y" "bn_val xs = bn_val ys" using Cons.prems by metis+
  then show ?case using Cons.IH by (simp add: word_unat_eq_iff)
qed simp

lemma order_word_neg: "- order_word x y = order_word y x"
  by (auto simp: order_word_def)

lemma BN_cmp_value:
  assumes "bn_wf a" "bn_wf b"
  shows "BN_cmp (Some a) (Some b) = order_word (bn_int a) (bn_int b)"
proof -
  have u: "BN_ucmp a b = order_word (bn_abs a) (bn_abs b)"
    by (rule BN_ucmp_value) (use assms in \<open>auto simp: bn_wf_def\<close>)
  have o: "order_word (bn_abs a) (bn_abs b) = order_word (int (bn_abs a)) (int (bn_abs b))"
    "order_word (int (bn_abs b)) (int (bn_abs a)) = order_word (- int (bn_abs a)) (- int (bn_abs b))"
    by (simp_all add: order_word_def)
  show ?thesis
  proof (cases "bn_neg a = bn_neg b")
    case True
    then show ?thesis using u o by (simp add: BN_cmp_def Let_def order_word_neg bn_int_def)
  next
    case False
    then show ?thesis using assms by (auto simp: BN_cmp_def bn_int_def bn_wf_def order_word_def)
  qed
qed

lemma word_operand:
  "bn_wf (BN_init\<lparr>bn_d := [b], bn_width := (if b > 0 then 1 else 0), bn_dmax := 1, bn_static := True\<rparr>)"
  "bn_int (BN_init\<lparr>bn_d := [b], bn_width := (if b > 0 then 1 else 0), bn_dmax := 1, bn_static := True\<rparr>) = int (unat b)"
  by (auto simp: BN_init_def bn_wf_def bn_mem_def bn_int_def bn_abs_def bn_words_def INT_MAX_def word_gt_0)

lemma BN_cmp_word_value: "bn_wf a \<Longrightarrow> BN_cmp_word a w = order_word (bn_int a) (int (unat w))"
  unfolding BN_cmp_word_def by (subst BN_cmp_value) (simp_all only: word_operand)

lemma BN_abs_is_word_value:
  assumes "bn_mem bn"
  shows "BN_abs_is_word bn w \<longleftrightarrow> bn_abs bn = unat w"
proof (cases "bn_width bn")
  case 0
  then show ?thesis by (simp add: BN_abs_is_word_def bn_abs_def bn_words_def unat_eq_zero eq_commute [of 0])
next
  case (Suc n)
  have le: "Suc 0 \<le> bn_width bn" "bn_width bn \<le> length (bn_d bn)" using Suc assms by (auto simp: bn_mem_def)
  have one: "take 1 (bn_d bn) = [bn_d bn ! 0]" using le by (cases "bn_d bn") auto
  let ?hi = "bn_val (drop 1 (take (bn_width bn) (bn_d bn)))"
  have v: "bn_abs bn = unat (bn_d bn ! 0) + radix * ?hi"
    using split_value [of 1 "bn_width bn" "bn_d bn"] le one by (simp add: bn_abs_def bn_words_def)
  have "BN_abs_is_word bn w \<longleftrightarrow> bn_d bn ! 0 = w \<and> or_words (bn_d bn) 1 (bn_width bn) = 0"
    using Suc by (auto simp: BN_abs_is_word_def or_words_def foldl_or_zero xor_zero_iff)
  also have "or_words (bn_d bn) 1 (bn_width bn) = 0 \<longleftrightarrow> ?hi = 0"
    using or_words_value [of 1 "bn_width bn" "bn_d bn"] le one v by (simp add: bn_abs_def bn_words_def)
  also have "bn_d bn ! 0 = w \<and> ?hi = 0 \<longleftrightarrow> bn_abs bn = unat w"
  proof (cases "?hi = 0")
    case False
    then have "radix * 1 \<le> radix * ?hi" by (intro mult_le_mono2) simp
    then have "bn_abs bn \<noteq> unat w" using v limb_less [of w] by linarith
    then show ?thesis using False by simp
  qed (simp add: v word_unat_eq_iff)
  finally show ?thesis .
qed

lemma words_equal:
  assumes "m \<le> length xs" "m \<le> length ys"
  shows "(\<forall>i < m. xs ! i = ys ! i) \<longleftrightarrow> bn_val (take m xs) = bn_val (take m ys)"
proof -
  have "(\<forall>i < m. xs ! i = ys ! i) \<longleftrightarrow> take m xs = take m ys"
    using assms by (simp add: list_eq_iff_nth_eq min_absorb2)
  also have "\<dots> \<longleftrightarrow> bn_val (take m xs) = bn_val (take m ys)"
    using bn_val_inject [of "take m xs" "take m ys"] assms by auto
  finally show ?thesis .
qed

text \<open>Two numbers are equal when they agree on the common words and the others are zero.\<close>

lemma equal_words:
  assumes "m \<le> length xs" "m \<le> n" "n \<le> length ys"
  shows "or_words ys m n = 0 \<and> (\<forall>i < m. xs ! i = ys ! i) \<longleftrightarrow> bn_val (take m xs) = bn_val (take n ys)"
proof -
  let ?hi = "bn_val (drop m (take n ys))"
  have l: "bn_val (take m xs) < radix ^ m" using bn_val_less [of "take m xs"] assms by (simp add: min_absorb2)
  have v: "bn_val (take n ys) = bn_val (take m ys) + radix ^ m * ?hi" by (rule split_value [OF assms(2,3)])
  have "bn_val (take m xs) = bn_val (take n ys) \<longleftrightarrow> ?hi = 0 \<and> bn_val (take m xs) = bn_val (take m ys)"
  proof (cases "?hi = 0")
    case False
    then have "radix ^ m * 1 \<le> radix ^ m * ?hi" by (intro mult_le_mono2) simp
    then have "bn_val (take m xs) \<noteq> bn_val (take n ys)" using v l by linarith
    then show ?thesis using False by simp
  qed (use v in simp)
  moreover have "or_words ys m n = 0 \<longleftrightarrow> ?hi = 0" using or_words_value [OF assms(2,3)] v by simp
  ultimately show ?thesis using words_equal [of m xs ys] assms by auto
qed

lemma BN_equal_value:
  assumes "bn_wf a" "bn_wf b"
  shows "BN_equal_consttime a b \<longleftrightarrow> bn_int a = bn_int b"
proof -
  have le: "bn_width a \<le> length (bn_d a)" "bn_width b \<le> length (bn_d b)" using assms by (auto simp: bn_wf_def bn_mem_def)
  let ?m = "if bn_width a < bn_width b then bn_width a else bn_width b"
  have "BN_equal_consttime a b \<longleftrightarrow> (or_words (bn_d b) (bn_width a) (bn_width b) = 0 \<and>
      or_words (bn_d a) (bn_width b) (bn_width a) = 0 \<and> (\<forall>i < ?m. bn_d a ! i = bn_d b ! i)) \<and> bn_neg a = bn_neg b"
    by (simp add: BN_equal_consttime_def Let_def or_eq_0_iff foldl_or_zero or_words_def xor_zero_iff) auto
  also have "\<dots> \<longleftrightarrow> bn_abs a = bn_abs b \<and> bn_neg a = bn_neg b"
  proof (cases "bn_width a < bn_width b")
    case True
    then have "or_words (bn_d a) (bn_width b) (bn_width a) = 0" by (simp add: or_words_def)
    then show ?thesis using equal_words [of "bn_width a" "bn_d a" "bn_width b" "bn_d b"] le True
      by (auto simp: bn_abs_def bn_words_def)
  next
    case False
    then have "or_words (bn_d b) (bn_width a) (bn_width b) = 0" by (simp add: or_words_def)
    moreover have "(\<forall>i < bn_width b. bn_d a ! i = bn_d b ! i) \<longleftrightarrow> (\<forall>i < bn_width b. bn_d b ! i = bn_d a ! i)" by auto
    ultimately show ?thesis using equal_words [of "bn_width b" "bn_d b" "bn_width a" "bn_d a"] le False
      by (auto simp: bn_abs_def bn_words_def)
  qed
  also have "\<dots> \<longleftrightarrow> bn_int a = bn_int b" using assms by (auto simp: bn_wf_def bn_int_def)
  finally show ?thesis .
qed

lemma odd_unat: "odd (unat (x :: u64)) \<longleftrightarrow> odd x"
proof -
  have "bit (unat x) 0 \<longleftrightarrow> bit x 0" by (simp add: bit_unsigned_iff)
  then show ?thesis by (simp only: bit_0)
qed

lemma BN_is_odd_value:
  assumes "bn_mem bn"
  shows "BN_is_odd bn \<longleftrightarrow> odd (bn_abs bn)"
proof (cases "bn_width bn")
  case (Suc n)
  have le: "1 \<le> bn_width bn" "bn_width bn \<le> length (bn_d bn)" using Suc assms by (auto simp: bn_mem_def)
  then have "take 1 (bn_d bn) = [bn_d bn ! 0]" by (cases "bn_d bn") auto
  then have "bn_abs bn = unat (bn_d bn ! 0) + radix * bn_val (drop 1 (take (bn_width bn) (bn_d bn)))"
    using split_value [of 1 "bn_width bn" "bn_d bn"] le by (simp add: bn_abs_def bn_words_def)
  moreover have "even radix" by (simp add: radix_def)
  moreover have "(bn_d bn ! 0) AND 1 = 1 \<longleftrightarrow> odd (unat (bn_d bn ! 0))"
    unfolding odd_unat by (simp add: and_one_eq odd_iff_mod_2_eq_one [symmetric])
  ultimately show ?thesis using Suc by (simp add: BN_is_odd_def)
qed (simp add: BN_is_odd_def bn_abs_def bn_words_def)

lemma high_bit:
  assumes "2 ^ k \<le> unat (y :: u64)" "unat y < 2 ^ Suc k"
  shows "bit y k"
proof -
  have "unat y div 2 ^ k = 1" using assms by (intro div_nat_eqI) simp_all
  then have "odd (unat y div 2 ^ k)" by simp
  then have "bit (unat y) k" by (simp only: bit_iff_odd not_False_eq_True)
  then show ?thesis by (simp add: bit_unsigned_iff)
qed

lemma word_pow2:
  assumes "x \<noteq> (0 :: u64)"
  shows "x AND (x - 1) = 0 \<longleftrightarrow> (\<exists>k. unat x = 2 ^ k)"
proof -
  have "0 < unat x" using assms by (simp add: unat_gt_0)
  then obtain k where k: "2 ^ k \<le> unat x" "unat x < 2 ^ Suc k" using ex_power_ivl1 [of 2 "unat x"] by auto
  have pred: "unat (x - 1) = unat x - 1" using assms by (simp add: unat_minus_one)
  show ?thesis
  proof (cases "unat x = 2 ^ k")
    case True
    have "\<not> (bit x n \<and> bit (x - 1) n)" for n
    proof
      assume b: "bit x n \<and> bit (x - 1) n"
      then have "bit (unat x) n" "bit (unat (x - 1)) n" by (simp_all add: bit_unsigned_iff)
      then have "n = k" "bit (2 ^ k - 1 :: nat) n" unfolding True pred by (simp_all add: bit_exp_iff)
      then show False by (simp add: bit_iff_odd)
    qed
    then have "x AND (x - 1) = 0" by (auto simp: bit_eq_iff bit_and_iff)
    then show ?thesis using True by auto
  next
    case False
    then have "bit x k" "bit (x - 1) k" using k pred by (auto intro!: high_bit)
    then have "bit (x AND (x - 1)) k" by (simp add: bit_and_iff)
    then have "x AND (x - 1) \<noteq> 0" by (metis bit_0_eq bot_apply bot_bool_def)
    moreover have "unat x \<noteq> 2 ^ j" for j
    proof
      assume j: "unat x = 2 ^ j"
      then have "(2 :: nat) ^ k \<le> 2 ^ j" "(2 :: nat) ^ j < 2 ^ Suc k" using k by simp_all
      then have "k \<le> j" "j < Suc k" by (simp_all only: power_increasing_iff power_strict_increasing_iff one_less_numeral_iff semiring_norm)
      then show False using False j by simp
    qed
    ultimately show ?thesis by blast
  qed
qed

lemma radix_power: "radix ^ n = 2 ^ (64 * n)"
  by (simp add: radix_def power_mult)

lemma digit_pow2:
  assumes "low < radix ^ n" "high \<noteq> 0"
  shows "(\<exists>k. low + radix ^ n * high = 2 ^ k) \<longleftrightarrow> low = 0 \<and> (\<exists>k. high = 2 ^ k)"
proof
  assume "\<exists>k. low + radix ^ n * high = 2 ^ k"
  then obtain k where k: "low + radix ^ n * high = 2 ^ k" by blast
  have "radix ^ n * 1 \<le> radix ^ n * high" using assms(2) by (intro mult_le_mono2) simp
  then have "(2 :: nat) ^ (64 * n) \<le> 2 ^ k" using k radix_power [of n] by linarith
  then have le: "64 * n \<le> k" by (simp only: power_increasing_iff)
  have "radix ^ n * 2 ^ (k - 64 * n) = (2 :: nat) ^ k"
    unfolding radix_power power_add [symmetric] using le by simp
  then have e: "low + radix ^ n * high = radix ^ n * 2 ^ (k - 64 * n)" using k by simp
  then have "(low + radix ^ n * high) mod radix ^ n = 0" by simp
  then have "low = 0" using assms(1) by simp
  then show "low = 0 \<and> (\<exists>k. high = 2 ^ k)" using e by auto
next
  assume "low = 0 \<and> (\<exists>k. high = 2 ^ k)"
  then obtain k where "low = 0" "high = 2 ^ k" by blast
  then have "low + radix ^ n * high = 2 ^ (64 * n + k)" by (simp add: radix_power power_add)
  then show "\<exists>k. low + radix ^ n * high = 2 ^ k" by blast
qed

lemma BN_is_pow2_value:
  assumes "bn_wf bn"
  shows "BN_is_pow2 bn \<longleftrightarrow> (\<exists>k. bn_int bn = 2 ^ k)"
proof -
  have m: "bn_mem bn" "bn_width bn \<le> length (bn_d bn)" using assms by (auto simp: bn_wf_def bn_mem_def)
  have i: "(\<exists>k. bn_int bn = 2 ^ k) \<longleftrightarrow> \<not> bn_neg bn \<and> (\<exists>k. bn_abs bn = 2 ^ k)"
  proof (cases "bn_neg bn")
    case True
    then have "bn_int bn \<le> 0" by (simp add: bn_int_def)
    moreover have "(0 :: int) < 2 ^ k" for k by simp
    ultimately have "bn_int bn \<noteq> 2 ^ k" for k by (metis not_less)
    then show ?thesis using True by simp
  next
    case False
    have "int (bn_abs bn) = 2 ^ k \<longleftrightarrow> bn_abs bn = 2 ^ k" for k
      by (metis of_nat_eq_iff of_nat_numeral of_nat_power)
    then show ?thesis using False by (simp add: bn_int_def)
  qed
  show ?thesis
  proof (cases "bn_minimal_width bn")
    case 0
    then have "bn_abs bn = 0" using minimal_width_zero [OF m(1)] by simp
    then show ?thesis using 0 i by (simp add: BN_is_pow2_def)
  next
    case (Suc n)
    let ?hi = "bn_d bn ! n" and ?low = "bn_val (take n (bn_d bn))"
    have n: "Suc n \<le> bn_width bn" "?hi \<noteq> 0"
      using Suc minimal_width_le [of "bn_d bn" "bn_width bn"] minimal_width_top [of "bn_d bn" "bn_width bn" n]
      by (simp_all add: bn_minimal_width_def)
    have "bn_abs bn = bn_val (take (Suc n) (bn_d bn))"
      using minimal_width_value [OF m(2)] Suc by (simp add: bn_abs_def bn_words_def bn_minimal_width_def)
    then have v: "bn_abs bn = ?low + radix ^ n * unat ?hi"
      using n m(2) by (simp add: take_Suc_conv_app_nth bn_val_append)
    have l: "?low < radix ^ n" using bn_val_less [of "take n (bn_d bn)"] n m(2) by (simp add: min_absorb2)
    have "BN_is_pow2 bn \<longleftrightarrow> \<not> bn_neg bn \<and> ?low = 0 \<and> ?hi AND (?hi - 1) = 0"
      using Suc n m(2) take_all_zero [of n "bn_d bn"] by (auto simp: BN_is_pow2_def list_ex_iff)
    then show ?thesis unfolding i v using digit_pow2 [OF l, of "unat ?hi"] word_pow2 [OF n(2)] n(2)
      by (simp add: unat_eq_zero)
  qed
qed

section \<open>Properties\<close>

text \<open>
  C35. For well-formed numbers of any sign and width, \<open>BN_add\<close>, \<open>BN_sub\<close>, \<open>BN_add_word\<close>, \<open>BN_sub_word\<close>
  and \<open>BN_mul_word\<close> compute the sum, difference or product of the integers exactly and give a
  well-formed number; they fail only if the result object cannot be enlarged, and the loop of
  \<open>BN_sub_word\<close> never runs past the number. \<open>BN_usub\<close> subtracts the absolute values and fails also when
  the second is larger. \<open>BN_uadd\<close> adds the absolute values but leaves the sign that the result object
  had.
\<close>

theorem bn_arithmetic_exact:
  assumes "bn_malloc_ok malloc" "bn_wf r" "bn_wf a" "bn_wf b"
  shows "(case BN_add malloc r a b of (ok, x) \<Rightarrow>
      ok = bn_room malloc r
        (if bn_neg a = bn_neg b then max (bn_width a) (bn_width b) + 1
         else if bn_neg a then sub_width b a else sub_width a b) \<and>
      (ok \<longrightarrow> bn_wf x \<and> bn_minimal x \<and> bn_int x = bn_int a + bn_int b)) \<and>
    (case BN_sub malloc r a b of (ok, x) \<Rightarrow>
      ok = bn_room malloc r
        (if bn_neg a \<noteq> bn_neg b then max (bn_width a) (bn_width b) + 1
         else if bn_neg a then sub_width b a else sub_width a b) \<and>
      (ok \<longrightarrow> bn_wf x \<and> bn_minimal x \<and> bn_int x = bn_int a - bn_int b)) \<and>
    (case BN_uadd malloc r a b of (ok, x) \<Rightarrow>
      ok = bn_room malloc r (max (bn_width a) (bn_width b) + 1) \<and>
      (ok \<longrightarrow> bn_wf x \<and> bn_abs x = bn_abs a + bn_abs b \<and> bn_neg x = (bn_neg r \<and> bn_abs x \<noteq> 0))) \<and>
    (case BN_usub malloc r a b of (ok, x) \<Rightarrow>
      ok = (bn_abs b \<le> bn_abs a \<and> bn_room malloc r (bn_width a)) \<and>
      (ok \<longrightarrow> bn_wf x \<and> bn_int x = int (bn_abs a) - int (bn_abs b))) \<and>
    (\<exists>ok x. BN_add_word malloc a w = Some (ok, x) \<and> (bn_room malloc a (bn_width a + 1) \<longrightarrow> ok) \<and>
      (ok \<longrightarrow> bn_wf x \<and> bn_int x = bn_int a + int (unat w))) \<and>
    (\<exists>ok x. BN_sub_word malloc a w = Some (ok, x) \<and> (bn_room malloc a (bn_width a + 1) \<longrightarrow> ok) \<and>
      (ok \<longrightarrow> bn_wf x \<and> bn_int x = bn_int a - int (unat w))) \<and>
    (case BN_mul_word malloc a w of (ok, x) \<Rightarrow>
      (bn_room malloc a (bn_width a + 1) \<longrightarrow> ok) \<and>
      (ok \<longrightarrow> bn_wf x \<and> bn_int x = bn_int a * int (unat w)))"
proof -
  note m = bn_wf_mem [OF assms(2)] bn_wf_mem [OF assms(3)] bn_wf_mem [OF assms(4)]
  note add = BN_add_value [OF assms(1) m(1) assms(3,4), of "fst (BN_add malloc r a b)" "snd (BN_add malloc r a b)"]
  note sub = BN_sub_value [OF assms(1) m(1) assms(3,4), of "fst (BN_sub malloc r a b)" "snd (BN_sub malloc r a b)"]
  note uadd = BN_uadd_value [OF assms(1) m, of "fst (BN_uadd malloc r a b)" "snd (BN_uadd malloc r a b)"]
  note usub = BN_usub_value [OF assms(1) m, of "fst (BN_usub malloc r a b)" "snd (BN_usub malloc r a b)"]
  note mul = BN_mul_word_value [OF assms(1,3), of w "fst (BN_mul_word malloc a w)" "snd (BN_mul_word malloc a w)"]
  have usub': "fst (BN_usub malloc r a b) \<Longrightarrow>
      bn_int (snd (BN_usub malloc r a b)) = int (bn_abs a) - int (bn_abs b)"
    using usub [OF prod.collapse [symmetric]] by (auto simp: bn_int_def)
  show ?thesis unfolding split_beta
    using add sub uadd usub usub' mul BN_add_word_value [OF assms(1,3), of w] BN_sub_word_value [OF assms(1,3), of w]
    by (intro conjI) simp_all
qed

definition bn_of :: "u64 list \<Rightarrow> nat \<Rightarrow> bool \<Rightarrow> bignum" where
  "bn_of ws spare s = \<lparr>bn_d = ws @ replicate spare 9, bn_width = length ws, bn_dmax = length ws + spare, bn_neg = s, bn_static = False\<rparr>"

definition word_malloc :: bn_malloc where
  "word_malloc sz = Some (replicate (unat sz div 8) 5)"

lemma word_malloc_ok: "bn_malloc_ok word_malloc"
  by (simp add: bn_malloc_ok_def word_malloc_def)

lemma bn_arithmetic_exact_witness:
  "BN_add word_malloc (bn_of [] 3 True) (bn_of [0xffffffffffffffff, 0] 0 False) (bn_of [1] 0 False) =
     (True, \<lparr>bn_d = [0, 1, 0], bn_width = 2, bn_dmax = 3, bn_neg = False, bn_static = False\<rparr>) \<and>
   (case BN_add word_malloc (bn_of [] 3 False) (bn_of [0xffffffffffffffff, 0] 0 False) (bn_of [1] 0 False) of (ok, x) \<Rightarrow>
      ok \<and> bn_int x = 2 ^ 64) \<and>
   (case BN_sub word_malloc (bn_of [] 3 False) (bn_of [0xffffffffffffffff, 0] 0 False) (bn_of [1] 0 False) of (ok, x) \<Rightarrow>
      ok \<and> bn_int x = 2 ^ 64 - 2) \<and>
   (\<exists>x. BN_add_word word_malloc (bn_of [0xffffffffffffffff, 0] 1 False) 5 = Some (True, x) \<and> bn_int x = 2 ^ 64 + 4)"
proof -
  let ?r = "bn_of [] 3 False" and ?a = "bn_of [0xffffffffffffffff, 0] 0 False" and ?a' = "bn_of [0xffffffffffffffff, 0] 1 False" and ?b = "bn_of [1] 0 False"
  have wf: "bn_wf ?r" "bn_wf ?a" "bn_wf ?a'" "bn_wf ?b"
    by (simp_all add: bn_of_def bn_wf_def bn_mem_def INT_MAX_def)
  have v: "bn_int ?a = 2 ^ 64 - 1" "bn_int ?a' = 2 ^ 64 - 1" "bn_int ?b = 1"
    by (simp_all add: bn_of_def bn_int_def bn_abs_def bn_words_def radix_def)
  have eval: "BN_add word_malloc (bn_of [] 3 True) ?a ?b =
     (True, \<lparr>bn_d = [0, 1, 0], bn_width = 2, bn_dmax = 3, bn_neg = False, bn_static = False\<rparr>)"
    by code_simp
  have sign: "\<not> bn_neg ?a" "\<not> bn_neg ?b" by (simp_all add: bn_of_def)
  have room: "bn_room word_malloc ?r (max (bn_width ?a) (bn_width ?b) + 1)"
    "bn_room word_malloc ?r (sub_width ?a ?b)" "bn_room word_malloc ?a' (bn_width ?a' + 1)"
    by (simp_all add: bn_room_def bn_of_def sub_width_def)
  note ab = bn_arithmetic_exact [OF word_malloc_ok wf(1,2,4), of 0] and a' = bn_arithmetic_exact [OF word_malloc_ok wf(1,3,4), of 5]
  have "\<exists>ok x. BN_add_word word_malloc ?a' 5 = Some (ok, x) \<and> ok \<and> bn_int x = 2 ^ 64 + 4"
    using a' room(3) v(2) by auto
  moreover have "case BN_add word_malloc ?r ?a ?b of (ok, x) \<Rightarrow> ok \<and> bn_int x = 2 ^ 64"
    "case BN_sub word_malloc ?r ?a ?b of (ok, x) \<Rightarrow> ok \<and> bn_int x = 2 ^ 64 - 2"
    using ab room sign v by (simp_all add: split_beta)
  ultimately show ?thesis using eval by auto
qed

text \<open>
  C36. Comparisons and predicates read a number's value whatever its width: \<open>BN_cmp\<close> and
  \<open>BN_cmp_word\<close> give the order of the integers, \<open>BN_ucmp\<close> that of the absolute values, the constant-time
  loops over words included; equality, zero, one, a given word, oddness and powers of two are decided
  exactly.
\<close>

theorem bn_predicates_exact:
  assumes "bn_wf a" "bn_wf b"
  shows "BN_cmp (Some a) (Some b) = order_word (bn_int a) (bn_int b) \<and>
    BN_cmp_word a w = order_word (bn_int a) (int (unat w)) \<and>
    BN_ucmp a b = order_word (bn_abs a) (bn_abs b) \<and>
    (BN_equal_consttime a b \<longleftrightarrow> bn_int a = bn_int b) \<and>
    (BN_is_zero a \<longleftrightarrow> bn_int a = 0) \<and>
    (BN_is_one a \<longleftrightarrow> bn_int a = 1) \<and>
    (BN_is_word a w \<longleftrightarrow> bn_int a = int (unat w)) \<and>
    (BN_abs_is_word a w \<longleftrightarrow> bn_abs a = unat w) \<and>
    (BN_is_odd a \<longleftrightarrow> odd (bn_int a)) \<and>
    (BN_is_pow2 a \<longleftrightarrow> (\<exists>k. bn_int a = 2 ^ k)) \<and>
    (bn_fits_in_words a n \<longleftrightarrow> bn_abs a < radix ^ n)"
proof -
  note m = bn_wf_mem [OF assms(1)] bn_wf_mem [OF assms(2)]
  have word: "BN_abs_is_word a v \<and> (v = 0 \<or> \<not> bn_neg a) \<longleftrightarrow> bn_int a = int (unat v)" for v
    using assms(1) unfolding BN_abs_is_word_value [OF m(1)]
    by (auto simp: bn_int_def bn_wf_def unat_eq_zero simp del: of_nat_unat)
  have "odd (bn_int a) \<longleftrightarrow> odd (bn_abs a)" by (simp add: bn_int_def)
  then show ?thesis
    using word [of w] word [of 1]
    by (auto simp: BN_cmp_value [OF assms] BN_cmp_word_value [OF assms(1)] BN_ucmp_value [OF m] BN_equal_value [OF assms]
        BN_is_zero_value [OF m(1)] BN_is_one_def BN_is_word_def BN_abs_is_word_value [OF m(1)] BN_is_odd_value [OF m(1)]
        BN_is_pow2_value [OF assms(1)] fits_in_words [OF m(1)] bn_int_def split: if_splits)
qed

lemma bn_predicates_exact_witness:
  "BN_cmp (Some (bn_of [5, 0] 0 True)) (Some (bn_of [7] 0 False)) = - 1 \<and>
   BN_cmp_word (bn_of [5, 0] 0 True) 5 = - 1 \<and>
   BN_ucmp (bn_of [5, 0] 0 True) (bn_of [7] 0 False) = - 1 \<and>
   BN_is_odd (bn_of [5, 0] 0 True) \<and> \<not> BN_is_zero (bn_of [5, 0] 0 True) \<and>
   BN_equal_consttime (bn_of [0, 4, 0] 0 False) (bn_of [0, 4] 2 False) \<and>
   BN_is_pow2 (bn_of [0, 4, 0] 0 False)"
proof -
  have wf: "bn_wf (bn_of [5, 0] 0 True)" "bn_wf (bn_of [7] 0 False)"
    "bn_wf (bn_of [0, 4, 0] 0 False)" "bn_wf (bn_of [0, 4] 2 False)"
    by (simp_all add: bn_of_def bn_wf_def bn_mem_def bn_abs_def bn_words_def INT_MAX_def)
  have v: "bn_int (bn_of [5, 0] 0 True) = - 5" "bn_int (bn_of [7] 0 False) = 7"
    "bn_abs (bn_of [5, 0] 0 True) = 5" "bn_abs (bn_of [7] 0 False) = 7"
    "bn_int (bn_of [0, 4, 0] 0 False) = 2 ^ 66" "bn_int (bn_of [0, 4] 2 False) = 2 ^ 66"
    by (simp_all add: bn_of_def bn_int_def bn_abs_def bn_words_def radix_def)
  note r = bn_predicates_exact [OF wf(1,2), of 5] and p = bn_predicates_exact [OF wf(3,4)]
  show ?thesis
  proof (intro conjI)
    show "BN_is_pow2 (bn_of [0, 4, 0] 0 False)" using p v(5) by metis
  qed (use r p v in \<open>simp_all add: order_word_def\<close>)
qed

end
