(* ===== verification/BnCtx.thy ===== *)
theory BnCtx
  imports BnArith
begin

text \<open>
  BoringSSL \<open>crypto/fipsmodule/bn/ctx.c\<close>: the temporary big numbers that a function takes between
  \<open>BN_CTX_start\<close> and \<open>BN_CTX_end\<close>. The pool is a linked list of items with sixteen numbers each, which
  only grows at its end; it is the list of all the numbers, and a pointer to an item is the item's
  position, with \<open>-1\<close> for the null pointer in front of the first. A pointer to a number is its position.
  \<open>alloc\<close> says which sizes the allocator grants at the time of the call. The counters are \<open>unsigned\<close> in
  the code; they stay below the number of temporary numbers that fit in memory.
\<close>

section \<open>The stack of frames\<close>

record bn_stack =
  st_indexes :: "nat list"
  st_size :: nat

definition BN_CTX_START_FRAMES :: nat where
  "BN_CTX_START_FRAMES = 32"

definition BN_STACK_init :: bn_stack where
  "BN_STACK_init = \<lparr>st_indexes = [], st_size = 0\<rparr>"

text \<open>\<open>depth\<close> is the number of indexes; the new size is computed in 32 bits.\<close>

definition BN_STACK_push :: "(nat \<Rightarrow> bool) \<Rightarrow> bn_stack \<Rightarrow> nat \<Rightarrow> bool \<times> bn_stack" where
  "BN_STACK_push alloc st idx =
     (if length (st_indexes st) = st_size st then
        let newsize = (if st_size st \<noteq> 0 then st_size st * 3 mod 2 ^ 32 div 2 else BN_CTX_START_FRAMES)
        in if \<not> alloc (newsize * 4) then (False, st)
           else (True, st\<lparr>st_indexes := st_indexes st @ [idx], st_size := newsize\<rparr>)
      else (True, st\<lparr>st_indexes := st_indexes st @ [idx]\<rparr>))"

definition BN_STACK_pop :: "bn_stack \<Rightarrow> nat \<times> bn_stack" where
  "BN_STACK_pop st = (last (st_indexes st), st\<lparr>st_indexes := butlast (st_indexes st)\<rparr>)"

section \<open>The pool\<close>

record bn_pool =
  pool_vals :: "bignum list"
  pool_current :: int
  pool_used :: nat
  pool_size :: nat

definition BN_CTX_POOL_SIZE :: nat where
  "BN_CTX_POOL_SIZE = 16"

definition BN_POOL_init :: bn_pool where
  "BN_POOL_init = \<lparr>pool_vals = [], pool_current = - 1, pool_used = 0, pool_size = 0\<rparr>"

text \<open>The size of a \<open>BN_POOL_ITEM\<close>: sixteen numbers and two pointers.\<close>

definition sizeof_pool_item :: nat where
  "sizeof_pool_item = 16 * 24 + 2 * 8"

definition BN_POOL_get :: "(nat \<Rightarrow> bool) \<Rightarrow> bn_pool \<Rightarrow> nat option \<times> bn_pool" where
  "BN_POOL_get alloc p =
     (if pool_used p = pool_size p then
        if \<not> alloc sizeof_pool_item then (None, p)
        else
          let item = length (pool_vals p) div BN_CTX_POOL_SIZE
          in (Some (item * BN_CTX_POOL_SIZE),
              p\<lparr>pool_vals := pool_vals p @ replicate BN_CTX_POOL_SIZE BN_init,
                pool_current := int item,
                pool_used := pool_used p + 1,
                pool_size := pool_size p + BN_CTX_POOL_SIZE\<rparr>)
      else
        let current = (if pool_used p = 0 then 0
                       else if pool_used p mod BN_CTX_POOL_SIZE = 0 then pool_current p + 1
                       else pool_current p)
        in (Some (nat current * BN_CTX_POOL_SIZE + pool_used p mod BN_CTX_POOL_SIZE),
            p\<lparr>pool_current := current, pool_used := pool_used p + 1\<rparr>))"

fun pool_release_loop :: "nat \<Rightarrow> nat \<Rightarrow> int \<Rightarrow> int" where
  "pool_release_loop 0 offset current = current"
| "pool_release_loop (Suc num) offset current =
     (if offset = 0 then pool_release_loop num (BN_CTX_POOL_SIZE - 1) (current - 1)
      else pool_release_loop num (offset - 1) current)"

definition BN_POOL_release :: "bn_pool \<Rightarrow> nat \<Rightarrow> bn_pool" where
  "BN_POOL_release p num =
     (let offset = (pool_used p + 2 ^ 32 - 1) mod 2 ^ 32 mod BN_CTX_POOL_SIZE
      in p\<lparr>pool_current := pool_release_loop num offset (pool_current p), pool_used := pool_used p - num\<rparr>)"

section \<open>The context\<close>

record bn_ctx =
  ctx_pool :: bn_pool
  ctx_stack :: bn_stack
  ctx_used :: nat
  ctx_err_stack :: nat
  ctx_too_many :: bool

definition BN_CTX_new :: "(nat \<Rightarrow> bool) \<Rightarrow> bn_ctx option" where
  "BN_CTX_new alloc =
     (if \<not> alloc 64 then None
      else Some \<lparr>ctx_pool = BN_POOL_init, ctx_stack = BN_STACK_init, ctx_used = 0, ctx_err_stack = 0,
        ctx_too_many = False\<rparr>)"

definition BN_CTX_start :: "(nat \<Rightarrow> bool) \<Rightarrow> bn_ctx \<Rightarrow> bn_ctx" where
  "BN_CTX_start alloc ctx =
     (if ctx_err_stack ctx \<noteq> 0 \<or> ctx_too_many ctx then ctx\<lparr>ctx_err_stack := ctx_err_stack ctx + 1\<rparr>
      else
        (case BN_STACK_push alloc (ctx_stack ctx) (ctx_used ctx) of
           (False, st) \<Rightarrow> ctx\<lparr>ctx_stack := st, ctx_err_stack := ctx_err_stack ctx + 1\<rparr>
         | (True, st) \<Rightarrow> ctx\<lparr>ctx_stack := st\<rparr>))"

text \<open>The number at a position of the pool, and the assignment to it.\<close>

definition ctx_val :: "bn_ctx \<Rightarrow> nat \<Rightarrow> bignum" where
  "ctx_val ctx i = pool_vals (ctx_pool ctx) ! i"

definition ctx_put :: "nat \<Rightarrow> bignum \<Rightarrow> bn_ctx \<Rightarrow> bn_ctx" where
  "ctx_put i bn ctx = ctx\<lparr>ctx_pool := (ctx_pool ctx)\<lparr>pool_vals := (pool_vals (ctx_pool ctx))[i := bn]\<rparr>\<rparr>"

definition BN_CTX_get :: "(nat \<Rightarrow> bool) \<Rightarrow> bn_ctx \<Rightarrow> nat option \<times> bn_ctx" where
  "BN_CTX_get alloc ctx =
     (if ctx_err_stack ctx \<noteq> 0 \<or> ctx_too_many ctx then (None, ctx)
      else
        (case BN_POOL_get alloc (ctx_pool ctx) of
           (None, p) \<Rightarrow> (None, ctx\<lparr>ctx_pool := p, ctx_too_many := True\<rparr>)
         | (Some i, p) \<Rightarrow>
             let ctx = ctx\<lparr>ctx_pool := p\<rparr>;
                 ctx = ctx_put i (BN_zero (ctx_val ctx i)) ctx
             in (Some i, ctx\<lparr>ctx_used := ctx_used ctx + 1\<rparr>)))"

definition BN_CTX_end :: "bn_ctx \<Rightarrow> bn_ctx" where
  "BN_CTX_end ctx =
     (if ctx_err_stack ctx \<noteq> 0 then ctx\<lparr>ctx_err_stack := ctx_err_stack ctx - 1\<rparr>
      else
        let (fp, st) = BN_STACK_pop (ctx_stack ctx);
            p = (if fp < ctx_used ctx then BN_POOL_release (ctx_pool ctx) (ctx_used ctx - fp) else ctx_pool ctx)
        in ctx\<lparr>ctx_pool := p, ctx_stack := st, ctx_used := fp, ctx_too_many := False\<rparr>)"

section \<open>The invariant\<close>

text \<open>
  The pool consists of whole items, the counters agree, the current item is the one of the last number
  in use, the marks of the frames rise up to the number in use, and every number is in order.
\<close>

definition pool_ok :: "bn_pool \<Rightarrow> bool" where
  "pool_ok p \<longleftrightarrow> length (pool_vals p) = pool_size p \<and> pool_size p mod 16 = 0 \<and> pool_used p \<le> pool_size p \<and>
     (0 < pool_used p \<longrightarrow> pool_current p = int ((pool_used p - 1) div 16)) \<and>
     (\<forall>bn \<in> set (pool_vals p). bn_mem bn \<and> \<not> bn_static bn)"

definition ctx_ok :: "bn_ctx \<Rightarrow> bool" where
  "ctx_ok ctx \<longleftrightarrow> pool_ok (ctx_pool ctx) \<and> ctx_used ctx = pool_used (ctx_pool ctx) \<and>
     sorted (st_indexes (ctx_stack ctx) @ [ctx_used ctx])"

lemma ctx_new_ok: "BN_CTX_new alloc = Some ctx \<Longrightarrow> ctx_ok ctx \<and> ctx_used ctx = 0"
  by (auto simp: BN_CTX_new_def ctx_ok_def pool_ok_def BN_POOL_init_def BN_STACK_init_def split: if_splits)

lemma BN_init_mem: "bn_mem BN_init" "\<not> bn_static BN_init"
  by (simp_all add: bn_mem_def BN_init_def)

lemma pool_get:
  assumes "pool_ok p" "BN_POOL_get alloc p = (r, p')"
  shows "case r of
      None \<Rightarrow> p' = p \<and> pool_used p = pool_size p \<and> \<not> alloc sizeof_pool_item
    | Some i \<Rightarrow> i = pool_used p \<and> pool_ok p' \<and> pool_used p' = Suc (pool_used p) \<and> i < length (pool_vals p') \<and>
        (\<forall>j < pool_used p. pool_vals p' ! j = pool_vals p ! j)"
proof (cases "pool_used p = pool_size p")
  case True
  have l: "length (pool_vals p) = pool_size p" "pool_size p mod 16 = 0" using assms(1) by (simp_all add: pool_ok_def)
  then obtain k where k: "pool_size p = 16 * k" by (auto simp: mod_eq_0_iff_dvd elim: dvdE)
  have "(16 * k + 16) mod 16 = 0" by simp
  then show ?thesis
  proof (cases "alloc sizeof_pool_item")
    case False
    then have "r = None" "p' = p" using assms(2) True by (simp_all add: BN_POOL_get_def)
    then show ?thesis using True False by simp
  next
    case g: True
    then show ?thesis using assms True l(1) BN_init_mem
      by (auto simp: BN_POOL_get_def pool_ok_def BN_CTX_POOL_SIZE_def k nth_append mult.commute)
  qed
next
  case False
  then have u: "pool_used p < pool_size p" using assms(1) by (simp add: pool_ok_def)
  obtain k j where kj: "pool_used p = 16 * k + j" "j < 16"
    by (rule that [of "pool_used p div 16" "pool_used p mod 16"]) simp_all
  let ?c = "if pool_used p = 0 then 0 else if pool_used p mod 16 = 0 then pool_current p + 1 else pool_current p"
  have c: "?c = int k"
  proof (cases j)
    case 0
    show ?thesis
    proof (cases k)
      case (Suc m)
      then have "(pool_used p - 1) div 16 = m" using kj 0 by simp
      then show ?thesis using assms(1) kj 0 Suc by (simp add: pool_ok_def)
    qed (simp add: kj 0)
  next
    case (Suc i)
    then have "(pool_used p - 1) div 16 = k" "pool_used p mod 16 \<noteq> 0" "0 < pool_used p" using kj by simp_all
    then show ?thesis using assms(1) by (simp add: pool_ok_def)
  qed
  have r: "r = Some (nat (int k) * 16 + pool_used p mod 16)" "p' = p\<lparr>pool_current := int k, pool_used := pool_used p + 1\<rparr>"
    using assms(2) False unfolding BN_POOL_get_def BN_CTX_POOL_SIZE_def Let_def c by simp_all
  have "nat (int k) * 16 + pool_used p mod 16 = pool_used p" "pool_used p div 16 = k" using kj by simp_all
  then show ?thesis using r u assms(1) by (simp add: pool_ok_def)
qed

lemma pool_release_loop:
  "num \<le> used \<Longrightarrow> 0 < used \<Longrightarrow>
   pool_release_loop num ((used - 1) mod 16) (int ((used - 1) div 16)) =
     (if num = used then - 1 else int ((used - num - 1) div 16))"
proof (induction num arbitrary: used)
  case (Suc num)
  obtain k j where kj: "used - 1 = 16 * k + j" "j < 16"
    by (rule that [of "(used - 1) div 16" "(used - 1) mod 16"]) simp_all
  have d: "(used - 1) mod 16 = j" "(used - 1) div 16 = k" using kj by simp_all
  show ?case
  proof (cases "used = 1")
    case True
    then have "num = 0" using Suc.prems by simp
    then show ?thesis using True by (simp add: BN_CTX_POOL_SIZE_def)
  next
    case False
    then have u: "num \<le> used - 1" "0 < used - 1" using Suc.prems by simp_all
    show ?thesis
    proof (cases j)
      case 0
      then obtain m where m: "k = Suc m" using kj u by (cases k) simp_all
      have "(used - 1 - 1) mod 16 = 15" "(used - 1 - 1) div 16 = m" using kj 0 m by simp_all
      then have "pool_release_loop num 15 (int m) = (if num = used - 1 then - 1 else int ((used - 1 - num - 1) div 16))"
        using Suc.IH [OF u] by simp
      then show ?thesis unfolding d using 0 m Suc.prems(2) by (auto simp: BN_CTX_POOL_SIZE_def)
    next
      case (Suc i)
      have "used - 1 - 1 = 16 * k + i" "i < 16" using kj Suc by simp_all
      then have "(used - 1 - 1) mod 16 = i" "(used - 1 - 1) div 16 = k" by simp_all
      then have "pool_release_loop num i (int k) = (if num = used - 1 then - 1 else int ((used - 1 - num - 1) div 16))"
        using Suc.IH [OF u] by simp
      then show ?thesis unfolding d using Suc Suc.prems(2) by auto
    qed
  qed
qed simp

lemma pool_release:
  assumes "pool_ok p" "0 < num" "num \<le> pool_used p"
  shows "pool_ok (BN_POOL_release p num) \<and> pool_used (BN_POOL_release p num) = pool_used p - num \<and>
    pool_vals (BN_POOL_release p num) = pool_vals p"
proof -
  have "(pool_used p + 2 ^ 32 - 1) mod 2 ^ 32 mod 16 = (pool_used p + 2 ^ 32 - 1) mod 16"
    by (rule mod_mod_cancel) simp
  moreover have "pool_used p + 2 ^ 32 - 1 = (pool_used p - 1) + 16 * 2 ^ 28" using assms(2,3) by simp
  moreover have "((pool_used p - 1) + 16 * 2 ^ 28) mod 16 = (pool_used p - 1) mod 16" by (rule mod_mult_self2)
  ultimately have o: "(pool_used p + 2 ^ 32 - 1) mod 2 ^ 32 mod BN_CTX_POOL_SIZE = (pool_used p - 1) mod 16"
    by (simp only: BN_CTX_POOL_SIZE_def)
  have c: "pool_current p = int ((pool_used p - 1) div 16)" using assms by (simp add: pool_ok_def)
  have "pool_release_loop num ((pool_used p - 1) mod 16) (pool_current p) =
      (if num = pool_used p then - 1 else int ((pool_used p - num - 1) div 16))"
    unfolding c by (rule pool_release_loop) (use assms(2,3) in simp_all)
  then have "BN_POOL_release p num = p\<lparr>pool_current := if num = pool_used p then - 1 else int ((pool_used p - num - 1) div 16),
      pool_used := pool_used p - num\<rparr>"
    unfolding BN_POOL_release_def Let_def o by (simp only:)
  then show ?thesis using assms by (auto simp: pool_ok_def)
qed

section \<open>Frames\<close>

text \<open>What a context looks like to a function that has been called in between.\<close>

definition ctx_same :: "bn_ctx \<Rightarrow> bn_ctx \<Rightarrow> bool" where
  "ctx_same c c' \<longleftrightarrow> ctx_used c' = ctx_used c \<and> st_indexes (ctx_stack c') = st_indexes (ctx_stack c) \<and>
     ctx_err_stack c' = ctx_err_stack c \<and> ctx_too_many c' = ctx_too_many c \<and>
     (\<forall>i < ctx_used c. ctx_val c' i = ctx_val c i)"

lemma ctx_get:
  assumes "ctx_ok c" "BN_CTX_get alloc c = (r, c')"
  shows "ctx_ok c' \<and> st_indexes (ctx_stack c') = st_indexes (ctx_stack c) \<and> ctx_err_stack c' = ctx_err_stack c \<and>
    (\<forall>i < ctx_used c. ctx_val c' i = ctx_val c i) \<and>
    (ctx_err_stack c \<noteq> 0 \<longrightarrow> r = None) \<and>
    (case r of
       None \<Rightarrow> ctx_used c' = ctx_used c \<and> (ctx_err_stack c \<noteq> 0 \<longrightarrow> ctx_too_many c' = ctx_too_many c)
     | Some i \<Rightarrow> i = ctx_used c \<and> ctx_used c' = Suc (ctx_used c) \<and> ctx_too_many c' = ctx_too_many c \<and>
         bn_wf (ctx_val c' i) \<and> \<not> bn_static (ctx_val c' i) \<and> bn_abs (ctx_val c' i) = 0)"
proof (cases "ctx_err_stack c \<noteq> 0 \<or> ctx_too_many c")
  case True
  then have "r = None" "c' = c" using assms(2) unfolding BN_CTX_get_def by simp_all
  then show ?thesis using assms(1) by simp
next
  case False
  obtain q p where g: "BN_POOL_get alloc (ctx_pool c) = (q, p)" by fastforce
  have ok: "pool_ok (ctx_pool c)" using assms(1) by (simp add: ctx_ok_def)
  note pg = pool_get [OF ok g]
  show ?thesis
  proof (cases q)
    case None
    then have "r = None" "c' = c\<lparr>ctx_pool := p, ctx_too_many := True\<rparr>" "p = ctx_pool c"
      using assms(2) False g pg by (simp_all add: BN_CTX_get_def)
    then show ?thesis using assms(1) False by (auto simp: ctx_ok_def ctx_val_def)
  next
    case (Some i)
    let ?bn = "BN_zero (pool_vals p ! i)"
    let ?p = "p\<lparr>pool_vals := (pool_vals p)[i := ?bn]\<rparr>"
    have r: "r = Some i" "c' = c\<lparr>ctx_pool := ?p, ctx_used := ctx_used c + 1\<rparr>"
      using assms(2) False g Some by (simp_all add: BN_CTX_get_def Let_def ctx_put_def ctx_val_def)
    have i: "i = ctx_used c" "i < length (pool_vals p)" "pool_ok p" "pool_used p = Suc (ctx_used c)"
      "\<forall>j < ctx_used c. pool_vals p ! j = pool_vals (ctx_pool c) ! j"
      using pg Some assms(1) by (simp_all add: ctx_ok_def)
    then have m: "bn_mem (pool_vals p ! i)" "\<not> bn_static (pool_vals p ! i)" by (simp_all add: pool_ok_def)
    then have z: "bn_wf ?bn" "\<not> bn_static ?bn" "bn_abs ?bn = 0"
      by (simp_all add: BN_zero_def bn_wf_def bn_mem_def bn_abs_def bn_words_def)
    then have "pool_ok ?p" using i by (auto simp: pool_ok_def bn_wf_def dest!: set_update_subset_insert [THEN subsetD])
    moreover have "sorted (st_indexes (ctx_stack c) @ [Suc (ctx_used c)])"
      using assms(1) by (auto simp: ctx_ok_def sorted_append intro: le_SucI)
    ultimately show ?thesis using i z r False by (simp add: ctx_ok_def ctx_val_def)
  qed
qed

lemma ctx_put_ok:
  assumes "ctx_ok c" "bn_mem bn" "\<not> bn_static bn"
  shows "ctx_ok (ctx_put i bn c)"
  using assms by (auto simp: ctx_ok_def pool_ok_def ctx_put_def dest!: set_update_subset_insert [THEN subsetD])

lemma ctx_put_simps [simp]:
  "ctx_used (ctx_put i bn c) = ctx_used c" "ctx_stack (ctx_put i bn c) = ctx_stack c"
  "ctx_err_stack (ctx_put i bn c) = ctx_err_stack c" "ctx_too_many (ctx_put i bn c) = ctx_too_many c"
  "j \<noteq> i \<Longrightarrow> ctx_val (ctx_put i bn c) j = ctx_val c j"
  by (simp_all add: ctx_put_def ctx_val_def)

lemma ctx_start:
  assumes "ctx_ok c" "s = BN_CTX_start alloc c"
  shows "ctx_ok s \<and> ctx_used s = ctx_used c \<and> ctx_too_many s = ctx_too_many c \<and> ctx_pool s = ctx_pool c \<and>
    (st_indexes (ctx_stack s) = st_indexes (ctx_stack c) \<and> ctx_err_stack s = Suc (ctx_err_stack c) \<or>
     st_indexes (ctx_stack s) = st_indexes (ctx_stack c) @ [ctx_used c] \<and> ctx_err_stack s = 0 \<and> ctx_err_stack c = 0 \<and>
     \<not> ctx_too_many c)"
proof -
  obtain ok st where p: "BN_STACK_push alloc (ctx_stack c) (ctx_used c) = (ok, st)" by fastforce
  have "st_indexes st = st_indexes (ctx_stack c) @ (if ok then [ctx_used c] else [])"
    using p by (auto simp: BN_STACK_push_def Let_def split: if_splits)
  then show ?thesis using assms p by (cases ok) (auto simp: BN_CTX_start_def ctx_ok_def sorted_append)
qed

lemma ctx_end_overflow: "ctx_err_stack c = Suc e \<Longrightarrow> BN_CTX_end c = c\<lparr>ctx_err_stack := e\<rparr>"
  by (simp add: BN_CTX_end_def)

lemma ctx_end:
  assumes "ctx_ok c" "ctx_err_stack c = 0" "st_indexes (ctx_stack c) = fps @ [fp]"
  shows "ctx_ok (BN_CTX_end c) \<and> ctx_used (BN_CTX_end c) = fp \<and> fp \<le> ctx_used c \<and> st_indexes (ctx_stack (BN_CTX_end c)) = fps \<and>
    ctx_err_stack (BN_CTX_end c) = 0 \<and> \<not> ctx_too_many (BN_CTX_end c) \<and> (\<forall>i. ctx_val (BN_CTX_end c) i = ctx_val c i)"
proof -
  have pop: "BN_STACK_pop (ctx_stack c) = (fp, (ctx_stack c)\<lparr>st_indexes := fps\<rparr>)" using assms(3) by (simp add: BN_STACK_pop_def)
  let ?p = "if fp < ctx_used c then BN_POOL_release (ctx_pool c) (ctx_used c - fp) else ctx_pool c"
  have e: "BN_CTX_end c = c\<lparr>ctx_pool := ?p, ctx_stack := (ctx_stack c)\<lparr>st_indexes := fps\<rparr>, ctx_used := fp, ctx_too_many := False\<rparr>"
    using assms(2) by (simp add: BN_CTX_end_def pop)
  have le: "fp \<le> ctx_used c" "sorted (fps @ [fp])" using assms(1,3) by (auto simp: ctx_ok_def sorted_append)
  have ok: "pool_ok (ctx_pool c)" "ctx_used c = pool_used (ctx_pool c)" using assms(1) by (simp_all add: ctx_ok_def)
  have "pool_ok ?p \<and> pool_used ?p = fp \<and> pool_vals ?p = pool_vals (ctx_pool c)"
    using pool_release [OF ok(1), of "ctx_used c - fp"] ok le(1) by simp
  then show ?thesis unfolding e using le assms(2) by (simp add: ctx_ok_def ctx_val_def)
qed

text \<open>
  What a function may do between its start and its end: take numbers, assign to numbers that it took,
  and call functions that do the same.
\<close>

inductive ctx_steps :: "nat \<Rightarrow> bn_ctx \<Rightarrow> bn_ctx \<Rightarrow> bool" where
  steps_none: "ctx_steps base c c"
| steps_get: "ctx_steps base c c' \<Longrightarrow> ctx_steps base c (snd (BN_CTX_get alloc c'))"
| steps_put: "ctx_steps base c c' \<Longrightarrow> base \<le> i \<Longrightarrow> bn_mem bn \<Longrightarrow> \<not> bn_static bn \<Longrightarrow>
    ctx_steps base c (ctx_put i bn c')"
| steps_call: "ctx_steps base c c' \<Longrightarrow> ctx_steps (ctx_used c') (BN_CTX_start alloc c') c'' \<Longrightarrow>
    ctx_steps base c (BN_CTX_end c'')"

text \<open>What the steps inside a frame, whose first number is at \<open>base\<close>, leave unchanged.\<close>

definition ctx_inside :: "nat \<Rightarrow> bn_ctx \<Rightarrow> bn_ctx \<Rightarrow> bool" where
  "ctx_inside base c c' \<longleftrightarrow> ctx_ok c' \<and> st_indexes (ctx_stack c') = st_indexes (ctx_stack c) \<and>
     ctx_err_stack c' = ctx_err_stack c \<and> ctx_used c \<le> ctx_used c' \<and> (\<forall>i < base. ctx_val c' i = ctx_val c i) \<and>
     (ctx_err_stack c \<noteq> 0 \<longrightarrow> ctx_used c' = ctx_used c \<and> ctx_too_many c' = ctx_too_many c)"

lemma inside_refl: "ctx_ok c \<Longrightarrow> ctx_inside base c c"
  by (simp add: ctx_inside_def)

lemma inside_get:
  assumes "ctx_inside base c c'" "base \<le> ctx_used c" "BN_CTX_get alloc c' = (r, c'')"
  shows "ctx_inside base c c''"
  using ctx_get [OF _ assms(3)] assms(1,2) by (auto simp: ctx_inside_def split: option.splits)

lemma inside_put:
  "ctx_inside base c c' \<Longrightarrow> base \<le> i \<Longrightarrow> bn_mem bn \<Longrightarrow> \<not> bn_static bn \<Longrightarrow> ctx_inside base c (ctx_put i bn c')"
  by (simp add: ctx_inside_def ctx_put_ok)

lemma start_ok: "ctx_ok c \<Longrightarrow> ctx_ok (BN_CTX_start alloc c) \<and> ctx_used (BN_CTX_start alloc c) = ctx_used c"
  using ctx_start [OF _ refl] by blast

lemma ctx_ok_err [simp]: "ctx_ok (c\<lparr>ctx_err_stack := e\<rparr>) = ctx_ok c"
  by (simp add: ctx_ok_def)

lemma end_restores:
  assumes "ctx_ok c" "ctx_inside (ctx_used c) (BN_CTX_start alloc c) c'"
  shows "ctx_ok (BN_CTX_end c') \<and> ctx_same c (BN_CTX_end c')"
proof -
  let ?s = "BN_CTX_start alloc c"
  note st = ctx_start [OF assms(1) refl, of alloc] and ins = assms(2) [unfolded ctx_inside_def]
  have v: "\<forall>i < ctx_used c. ctx_val c' i = ctx_val c i" using ins st by (simp add: ctx_val_def)
  show ?thesis
  proof (cases "ctx_err_stack ?s = 0")
    case True
    then have p: "st_indexes (ctx_stack c') = st_indexes (ctx_stack c) @ [ctx_used c]" "ctx_err_stack c' = 0"
      "ctx_err_stack c = 0" "\<not> ctx_too_many c" using st ins by auto
    show ?thesis using ctx_end [OF conjunct1 [OF ins] p(2,1)] p v by (simp add: ctx_same_def)
  next
    case False
    then have p: "ctx_err_stack c' = Suc (ctx_err_stack c)" "st_indexes (ctx_stack c') = st_indexes (ctx_stack c)"
      "ctx_used c' = ctx_used c" "ctx_too_many c' = ctx_too_many c" using st ins by auto
    have "ctx_val (c'\<lparr>ctx_err_stack := e\<rparr>) i = ctx_val c' i" for e i by (simp add: ctx_val_def)
    then show ?thesis using conjunct1 [OF ins] p v unfolding ctx_end_overflow [OF p(1)] by (simp add: ctx_same_def)
  qed
qed

lemma steps_inside: "ctx_steps base c c' \<Longrightarrow> ctx_ok c \<Longrightarrow> base \<le> ctx_used c \<Longrightarrow> ctx_inside base c c'"
proof (induction rule: ctx_steps.induct)
  case (steps_get base c c' alloc)
  then show ?case using inside_get [OF _ _ prod.collapse [symmetric], of base c c' alloc] by simp
next
  case (steps_call base c c' alloc c'')
  then have ins: "ctx_inside base c c'" by simp
  then have c': "ctx_ok c'" "base \<le> ctx_used c'" using steps_call.prems by (auto simp: ctx_inside_def)
  have "ctx_ok (BN_CTX_end c'') \<and> ctx_same c' (BN_CTX_end c'')"
    by (rule end_restores [OF c'(1)]) (use steps_call.IH(2) start_ok [OF c'(1)] in simp)
  then show ?case using ins c'(2) by (auto simp: ctx_inside_def ctx_same_def)
qed (simp_all add: inside_refl inside_put)

text \<open>
  C39. Frames nest: whatever a function does between \<open>BN_CTX_start\<close> and \<open>BN_CTX_end\<close> by taking numbers,
  assigning to those it took and calling functions that do the same, afterwards the context has the
  same numbers in use with the same values, the same marks and the same error state, even when the pool
  or the stack could not grow at some point. A number that \<open>BN_CTX_get\<close> returns is the next one after
  those in use, and is zero.
\<close>

theorem bn_ctx_frames:
  assumes "ctx_ok c"
  shows "(\<forall>c'. ctx_steps (ctx_used c) (BN_CTX_start alloc c) c' \<longrightarrow> ctx_ok (BN_CTX_end c') \<and> ctx_same c (BN_CTX_end c')) \<and>
    (case BN_CTX_get alloc c of
       (None, c') \<Rightarrow> ctx_ok c' \<and> ctx_used c' = ctx_used c \<and> (\<forall>i < ctx_used c. ctx_val c' i = ctx_val c i)
     | (Some i, c') \<Rightarrow> ctx_ok c' \<and> i = ctx_used c \<and> ctx_used c' = i + 1 \<and> BN_is_zero (ctx_val c' i) \<and>
         (\<forall>j < i. ctx_val c' j = ctx_val c j))"
proof (intro conjI allI impI)
  fix c' assume s: "ctx_steps (ctx_used c) (BN_CTX_start alloc c) c'"
  have "ctx_inside (ctx_used c) (BN_CTX_start alloc c) c'"
    by (rule steps_inside [OF s]) (use start_ok [OF assms] in simp_all)
  then show "ctx_ok (BN_CTX_end c')" "ctx_same c (BN_CTX_end c')" using end_restores [OF assms] by simp_all
next
  obtain r c' where g: "BN_CTX_get alloc c = (r, c')" by fastforce
  show "case BN_CTX_get alloc c of
       (None, c') \<Rightarrow> ctx_ok c' \<and> ctx_used c' = ctx_used c \<and> (\<forall>i < ctx_used c. ctx_val c' i = ctx_val c i)
     | (Some i, c') \<Rightarrow> ctx_ok c' \<and> i = ctx_used c \<and> ctx_used c' = i + 1 \<and> BN_is_zero (ctx_val c' i) \<and>
         (\<forall>j < i. ctx_val c' j = ctx_val c j)"
    using ctx_get [OF assms g] BN_is_zero_value by (cases r) (simp_all add: g bn_wf_def)
qed

definition ctx_one :: bn_ctx where
  "ctx_one = snd (BN_CTX_get (\<lambda>_. True) (BN_CTX_start (\<lambda>_. True) (the (BN_CTX_new (\<lambda>_. True)))))"

lemma bn_ctx_frames_witness:
  "ctx_used ctx_one = 1 \<and> ctx_same ctx_one (BN_CTX_end (ctx_put 1 BN_init (snd (BN_CTX_get (\<lambda>_. True) (BN_CTX_start (\<lambda>_. True) ctx_one)))))"
proof -
  have "ctx_ok (the (BN_CTX_new (\<lambda>_. True)))" using ctx_new_ok [of "\<lambda>_. True"] by (simp add: BN_CTX_new_def)
  then have "ctx_ok (BN_CTX_start (\<lambda>_. True) (the (BN_CTX_new (\<lambda>_. True))))" using start_ok by blast
  then have ok: "ctx_ok ctx_one" unfolding ctx_one_def using ctx_get [OF _ prod.collapse [symmetric]] by blast
  have u: "ctx_used ctx_one = 1" by code_simp
  have "ctx_steps 1 (BN_CTX_start (\<lambda>_. True) ctx_one)
      (ctx_put 1 BN_init (snd (BN_CTX_get (\<lambda>_. True) (BN_CTX_start (\<lambda>_. True) ctx_one))))"
    using BN_init_mem by (intro steps_put steps_get steps_none) simp_all
  then show ?thesis using bn_ctx_frames [OF ok, of "\<lambda>_. True"] u by simp
qed

end
