(* ===== verification/BnShift.thy ===== *)
theory BnShift
  imports BnArith
begin

text \<open>
  The shifts and single bits of \<open>crypto/fipsmodule/bn/shift.c\<close>, and the bit lengths of \<open>bn.c\<close>. A shift
  count is an \<open>int\<close> and may be negative, which the functions refuse.
\<close>

unbundle bit_operations_syntax

section \<open>Left shift\<close>

text \<open>The loops over \<open>i = a->width - 1, ..., 0\<close>.\<close>

fun lshift_copy :: "u64 list \<Rightarrow> nat \<Rightarrow> u64 list \<Rightarrow> nat \<Rightarrow> u64 list" where
  "lshift_copy f nw t 0 = t"
| "lshift_copy f nw t (Suc i) = lshift_copy f nw (t[nw + i := f ! i]) i"

fun lshift_loop :: "u64 list \<Rightarrow> nat \<Rightarrow> nat \<Rightarrow> u64 list \<Rightarrow> nat \<Rightarrow> u64 list" where
  "lshift_loop f nw lb t 0 = t"
| "lshift_loop f nw lb t (Suc i) =
     (let rb = 64 - lb;
          l = f ! i;
          t = t[nw + i + 1 := t ! (nw + i + 1) OR drop_bit rb l];
          t = t[nw + i := push_bit lb l]
      in lshift_loop f nw lb t i)"

definition BN_lshift :: "bn_malloc \<Rightarrow> bignum \<Rightarrow> bignum \<Rightarrow> int \<Rightarrow> bool \<times> bignum" where
  "BN_lshift malloc r a n =
     (if n < 0 then (False, r)
      else
        let r = r\<lparr>bn_neg := bn_neg a\<rparr>;
            nw = nat n div 64
        in (case bn_wexpand malloc r (bn_width a + nw + 1) of
              (False, r) \<Rightarrow> (False, r)
            | (True, r) \<Rightarrow>
                let lb = nat n mod 64;
                    f = bn_d a;
                    t = (bn_d r)[bn_width a + nw := 0];
                    t = (if lb = 0 then lshift_copy f nw t (bn_width a) else lshift_loop f nw lb t (bn_width a));
                    t = put_words t 0 (replicate nw 0)
                in (True, bn_set_minimal_width (r\<lparr>bn_d := t, bn_width := bn_width a + nw + 1\<rparr>))))"

fun lshift1_loop :: "u64 \<Rightarrow> u64 list \<Rightarrow> u64 list \<times> u64" where
  "lshift1_loop c [] = ([], c)"
| "lshift1_loop c (t # ap) =
     (let (rp, c') = lshift1_loop (drop_bit (64 - 1) t) ap in ((push_bit 1 t OR c) # rp, c'))"

definition BN_lshift1 :: "bn_malloc \<Rightarrow> bignum \<Rightarrow> bignum \<Rightarrow> bool \<times> bignum" where
  "BN_lshift1 malloc r a =
     (case bn_wexpand malloc (r\<lparr>bn_neg := bn_neg a\<rparr>) (bn_width a + 1) of
        (False, r) \<Rightarrow> (False, r)
      | (True, r) \<Rightarrow>
          let (rp, c) = lshift1_loop 0 (take (bn_width a) (bn_d a));
              t = put_words (bn_d r) 0 rp
          in if c \<noteq> 0 then (True, r\<lparr>bn_d := t[bn_width a := 1], bn_width := bn_width a + 1\<rparr>)
             else (True, r\<lparr>bn_d := t, bn_width := bn_width a\<rparr>))"

section \<open>Right shift\<close>

definition bn_rshift_words :: "u64 list \<Rightarrow> nat \<Rightarrow> nat \<Rightarrow> u64 list" where
  "bn_rshift_words a shift num =
     (let shift_bits = shift mod 64;
          shift_words = shift div 64
      in if shift_words \<ge> num then replicate num 0
         else
           (if shift_bits = 0 then take (num - shift_words) (drop shift_words a)
            else map (\<lambda>i. drop_bit shift_bits (a ! i) OR push_bit (64 - shift_bits) (a ! (i + 1))) [shift_words..<num - 1] @
              [drop_bit shift_bits (a ! (num - 1))]) @
           replicate shift_words 0)"

definition BN_rshift :: "bn_malloc \<Rightarrow> bignum \<Rightarrow> bignum \<Rightarrow> int \<Rightarrow> bool \<times> bignum" where
  "BN_rshift malloc r a n =
     (if n < 0 then (False, r)
      else
        (case bn_wexpand malloc r (bn_width a) of
           (False, r) \<Rightarrow> (False, r)
         | (True, r) \<Rightarrow>
             let t = put_words (bn_d r) 0 (bn_rshift_words (bn_d a) (nat n) (bn_width a))
             in (True, bn_set_minimal_width (r\<lparr>bn_d := t, bn_neg := bn_neg a, bn_width := bn_width a\<rparr>))))"

definition bn_rshift1_words :: "u64 list \<Rightarrow> nat \<Rightarrow> u64 list" where
  "bn_rshift1_words a num =
     (if num = 0 then []
      else map (\<lambda>i. drop_bit 1 (a ! i) OR push_bit (64 - 1) (a ! (i + 1))) [0..<num - 1] @ [drop_bit 1 (a ! (num - 1))])"

definition BN_rshift1 :: "bn_malloc \<Rightarrow> bignum \<Rightarrow> bignum \<Rightarrow> bool \<times> bignum" where
  "BN_rshift1 malloc r a =
     (case bn_wexpand malloc r (bn_width a) of
        (False, r) \<Rightarrow> (False, r)
      | (True, r) \<Rightarrow>
          let t = put_words (bn_d r) 0 (bn_rshift1_words (bn_d a) (bn_width a))
          in (True, bn_set_minimal_width (r\<lparr>bn_d := t, bn_neg := bn_neg a, bn_width := bn_width a\<rparr>)))"

section \<open>Single bits\<close>

definition BN_set_bit :: "bn_malloc \<Rightarrow> bignum \<Rightarrow> int \<Rightarrow> bool \<times> bignum" where
  "BN_set_bit malloc a n =
     (if n < 0 then (False, a)
      else
        let i = nat n div 64;
            j = nat n mod 64;
            (ok, a) =
              (if bn_width a \<le> i then
                 (case bn_wexpand malloc a (i + 1) of
                    (False, a) \<Rightarrow> (False, a)
                  | (True, a) \<Rightarrow>
                      (True, a\<lparr>bn_d := put_words (bn_d a) (bn_width a) (replicate (i + 1 - bn_width a) 0),
                               bn_width := i + 1\<rparr>))
               else (True, a))
        in if \<not> ok then (False, a)
           else (True, a\<lparr>bn_d := (bn_d a)[i := bn_d a ! i OR push_bit j 1]\<rparr>))"

definition BN_clear_bit :: "bignum \<Rightarrow> int \<Rightarrow> bool \<times> bignum" where
  "BN_clear_bit a n =
     (if n < 0 then (False, a)
      else
        let i = nat n div 64;
            j = nat n mod 64
        in if bn_width a \<le> i then (False, a)
           else (True, bn_set_minimal_width (a\<lparr>bn_d := (bn_d a)[i := bn_d a ! i AND NOT (push_bit j 1)]\<rparr>)))"

definition bn_is_bit_set_words :: "u64 list \<Rightarrow> nat \<Rightarrow> nat \<Rightarrow> bool" where
  "bn_is_bit_set_words a num n =
     (let i = n div 64;
          j = n mod 64
      in if i \<ge> num then False else drop_bit j (a ! i) AND 1 \<noteq> 0)"

definition BN_is_bit_set :: "bignum \<Rightarrow> int \<Rightarrow> bool" where
  "BN_is_bit_set a n = (if n < 0 then False else bn_is_bit_set_words (bn_d a) (bn_width a) (nat n))"

definition BN_mask_bits :: "bignum \<Rightarrow> int \<Rightarrow> bool \<times> bignum" where
  "BN_mask_bits a n =
     (if n < 0 then (False, a)
      else
        let w = nat n div 64;
            b = nat n mod 64
        in if w \<ge> bn_width a then (True, a)
           else
             let a = (if b = 0 then a\<lparr>bn_width := w\<rparr>
                      else a\<lparr>bn_width := w + 1,
                             bn_d := (bn_d a)[w := bn_d a ! w AND NOT (push_bit b 0xffffffffffffffff)]\<rparr>)
             in (True, bn_set_minimal_width a))"

section \<open>Counting bits\<close>

text \<open>The block of \<open>BN_num_bits_word\<close> that looks at the part above the low \<open>k\<close> bits.\<close>

definition num_bits_step :: "u64 \<times> u64 \<Rightarrow> nat \<Rightarrow> u64 \<times> u64" where
  "num_bits_step s k =
     (case s of (bits, l) \<Rightarrow>
        let x = drop_bit k l;
            m = 0 - x;
            m = 0 - drop_bit (64 - 1) m
        in (bits + (of_nat k AND m), l XOR ((x XOR l) AND m)))"

definition BN_num_bits_word :: "u64 \<Rightarrow> nat" where
  "BN_num_bits_word l = unat (fst (foldl num_bits_step (if l \<noteq> 0 then 1 else 0, l) [32, 16, 8, 4, 2, 1]))"

definition BN_num_bits :: "bignum \<Rightarrow> nat" where
  "BN_num_bits bn =
     (let width = bn_minimal_width bn
      in if width = 0 then 0 else (width - 1) * 64 + BN_num_bits_word (bn_d bn ! (width - 1)))"

definition BN_num_bytes :: "bignum \<Rightarrow> nat" where
  "BN_num_bytes bn = (BN_num_bits bn + 7) div 8"

text \<open>The block of \<open>bn_count_low_zero_bits_word\<close> that asks whether the low \<open>k\<close> bits are zero.\<close>

definition low_zero_step :: "u64 \<times> u64 \<Rightarrow> nat \<Rightarrow> u64 \<times> u64" where
  "low_zero_step s k =
     (case s of (bits, l) \<Rightarrow>
        let m = constant_time_is_zero_w (push_bit (64 - k) l)
        in (bits + (of_nat k AND m), constant_time_select_w m (drop_bit k l) l))"

definition bn_count_low_zero_bits_word :: "u64 \<Rightarrow> u64" where
  "bn_count_low_zero_bits_word l = fst (foldl low_zero_step (0, l) [32, 16, 8, 4, 2, 1])"

definition low_zero_word :: "u64 list \<Rightarrow> u64 \<times> u64 \<Rightarrow> nat \<Rightarrow> u64 \<times> u64" where
  "low_zero_word d s i =
     (case s of (ret, saw_nonzero) \<Rightarrow>
        let nonzero = NOT (constant_time_is_zero_w (d ! i));
            first_nonzero = NOT saw_nonzero AND nonzero;
            bits = bn_count_low_zero_bits_word (d ! i)
        in (ret OR (first_nonzero AND (of_nat i * 64 + bits)), saw_nonzero OR nonzero))"

definition BN_count_low_zero_bits :: "bignum \<Rightarrow> nat" where
  "BN_count_low_zero_bits bn = unat (fst (foldl (low_zero_word (bn_d bn)) (0, 0) [0..<bn_width bn]))"

section \<open>Bits of a number\<close>

lemma bit_concat:
  assumes "a < 2 ^ n"
  shows "bit (a + 2 ^ n * b :: nat) k \<longleftrightarrow> (if k < n then bit a k else bit b (k - n))"
proof (cases "k < n")
  case True
  then have p: "(2 :: nat) ^ n = 2 ^ k * 2 ^ (n - k)" by (simp flip: power_add)
  have "(a + 2 ^ n * b) div 2 ^ k = (a + 2 ^ k * (2 ^ (n - k) * b)) div 2 ^ k" by (simp only: p mult.assoc)
  then have "(a + 2 ^ n * b) div 2 ^ k = a div 2 ^ k + 2 ^ (n - k) * b" by simp
  moreover have "even ((2 :: nat) ^ (n - k) * b)" using True by simp
  ultimately show ?thesis using True by (simp add: bit_iff_odd)
next
  case False
  then have "(2 :: nat) ^ k = 2 ^ n * 2 ^ (k - n)" by (simp add: power_add [symmetric])
  then have "(a + 2 ^ n * b) div 2 ^ k = (a + 2 ^ n * b) div 2 ^ n div 2 ^ (k - n)" by (simp add: div_mult2_eq)
  also have "(a + 2 ^ n * b) div 2 ^ n = b" using assms by simp
  finally show ?thesis using False by (simp add: bit_iff_odd)
qed

lemma bit_unat: "bit (unat (w :: u64)) k \<longleftrightarrow> bit w k"
  by (simp add: bit_unsigned_iff)

lemma bit_bn_val: "bit (bn_val ws) k \<longleftrightarrow> k div 64 < length ws \<and> bit (ws ! (k div 64)) (k mod 64)"
proof (induction ws arbitrary: k)
  case (Cons w ws)
  have "unat w < 2 ^ 64" using unat_lt_len [of w] by simp
  from bit_concat [OF this, of "bn_val ws" k]
  have c: "bit (bn_val (w # ws)) k \<longleftrightarrow> (if k < 64 then bit w k else bit (bn_val ws) (k - 64))"
    by (simp add: radix_def bit_unat)
  show ?case
  proof (cases "k < 64")
    case False
    then obtain j where k: "k = j + 64" using le_Suc_ex [of 64 k] by (auto simp: add.commute)
    moreover have "(j + 64) div 64 = Suc (j div 64)" by simp
    ultimately show ?thesis unfolding c using Cons.IH [of j] by (simp only: k) simp
  qed (unfold c, simp)
qed simp

lemma word_position: "J < 64 \<Longrightarrow> (64 * K + J) div 64 = K \<and> (64 * K + J) mod 64 = (J :: nat)"
  by simp

lemma bit_bn_val_at: "J < 64 \<Longrightarrow> bit (bn_val ws) (64 * K + J) \<longleftrightarrow> K < length ws \<and> bit (ws ! K) J"
  using word_position [of J K] by (simp add: bit_bn_val)

section \<open>What the shifts compute\<close>

text \<open>The word at position \<open>k\<close> of a number of \<open>w\<close> words shifted left by \<open>64 * nw + lb\<close> bits.\<close>

definition lshift_word :: "u64 list \<Rightarrow> nat \<Rightarrow> nat \<Rightarrow> nat \<Rightarrow> nat \<Rightarrow> u64" where
  "lshift_word f w nw lb k =
     (if k < nw then 0
      else (if k - nw < w then push_bit lb (f ! (k - nw)) else 0) OR
           (if nw < k \<and> k - nw \<le> w then drop_bit (64 - lb) (f ! (k - nw - 1)) else 0))"

lemma lshift_copy_nth:
  "nw + i \<le> length t \<Longrightarrow> length (lshift_copy f nw t i) = length t \<and>
   (\<forall>k < length t. lshift_copy f nw t i ! k = (if nw \<le> k \<and> k < nw + i then f ! (k - nw) else t ! k))"
proof (induction i arbitrary: t)
  case (Suc i)
  let ?t = "t[nw + i := f ! i]"
  have ih: "length (lshift_copy f nw ?t i) = length t \<and>
     (\<forall>k < length t. lshift_copy f nw ?t i ! k = (if nw \<le> k \<and> k < nw + i then f ! (k - nw) else ?t ! k))"
    using Suc.IH [of ?t] Suc.prems by simp
  show ?case
  proof (intro conjI allI impI)
    fix k assume k: "k < length t"
    consider "k < nw + i" | "k = nw + i" | "nw + i < k" by linarith
    then show "lshift_copy f nw t (Suc i) ! k = (if nw \<le> k \<and> k < nw + Suc i then f ! (k - nw) else t ! k)"
      using ih k by cases auto
  qed (use ih in simp)
qed auto

lemma lshift_loop_nth:
  "nw + i < length t \<Longrightarrow> length (lshift_loop f nw lb t i) = length t \<and>
   (\<forall>k < length t. lshift_loop f nw lb t i ! k =
     (if nw \<le> k \<and> k < nw + i then
        push_bit lb (f ! (k - nw)) OR (if nw < k then drop_bit (64 - lb) (f ! (k - nw - 1)) else 0)
      else t ! k OR (if k = nw + i \<and> 0 < i then drop_bit (64 - lb) (f ! (i - 1)) else 0)))"
proof (induction i arbitrary: t)
  case (Suc i)
  let ?t = "t[nw + i + 1 := t ! (nw + i + 1) OR drop_bit (64 - lb) (f ! i), nw + i := push_bit lb (f ! i)]"
  have "nw + i < length ?t" using Suc.prems by simp
  note ih = Suc.IH [OF this]
  have e: "lshift_loop f nw lb t (Suc i) = lshift_loop f nw lb ?t i" by (simp add: Let_def)
  show ?case
  proof (intro conjI allI impI)
    show "length (lshift_loop f nw lb t (Suc i)) = length t" using ih unfolding e by simp
    fix k assume k: "k < length t"
    consider "k < nw + i" | "k = nw + i" | "k = nw + i + 1" | "nw + i + 1 < k" by linarith
    then show "lshift_loop f nw lb t (Suc i) ! k =
     (if nw \<le> k \<and> k < nw + Suc i then
        push_bit lb (f ! (k - nw)) OR (if nw < k then drop_bit (64 - lb) (f ! (k - nw - 1)) else 0)
      else t ! k OR (if k = nw + Suc i \<and> 0 < Suc i then drop_bit (64 - lb) (f ! (Suc i - 1)) else 0))"
      unfolding e using ih k Suc.prems by cases auto
  qed
qed auto

lemma lshift_words:
  assumes "w + nw < length t" "w \<le> length f" "lb < 64" "k < w + nw + 1"
  shows "put_words (if lb = 0 then lshift_copy f nw (t[w + nw := 0]) w else lshift_loop f nw lb (t[w + nw := 0]) w)
      0 (replicate nw 0) ! k = lshift_word f w nw lb k"
proof -
  let ?t = "t[w + nw := 0]"
  let ?r = "if lb = 0 then lshift_copy f nw ?t w else lshift_loop f nw lb ?t w"
  have len: "length ?r = length t"
    using lshift_copy_nth [of nw w ?t f] lshift_loop_nth [of nw w ?t f lb] assms by auto
  show ?thesis
  proof (cases "k < nw")
    case True
    then show ?thesis using len assms by (simp add: put_words_def nth_append lshift_word_def)
  next
    case False
    have "put_words ?r 0 (replicate nw 0) ! k = ?r ! k"
      using False len assms by (simp add: put_words_def nth_append)
    also have "\<dots> = lshift_word f w nw lb k"
    proof (cases "lb = 0")
      case True
      have "drop_bit (64 - lb) (x :: u64) = 0" for x
        using unat_lt_len [of x] by (simp add: True word_unat_eq_iff unat_drop_bit)
      then show ?thesis using lshift_copy_nth [of nw w ?t f] True False assms
        by (auto simp: lshift_word_def nth_list_update)
    next
      case lb: False
      then show ?thesis using lshift_loop_nth [of nw w ?t f lb] False assms
        by (cases "k = nw + w") (auto simp: lshift_word_def nth_list_update)
    qed
    finally show ?thesis .
  qed
qed

lemma lshift_value:
  assumes "length ws = w + nw + 1" "lb < 64" "w \<le> length f" "\<forall>k < w + nw + 1. ws ! k = lshift_word f w nw lb k"
  shows "bn_val ws = bn_val (take w f) * 2 ^ (64 * nw + lb)"
proof -
  have "bn_val ws = push_bit (64 * nw + lb) (bn_val (take w f))"
  proof (rule bit_eqI)
    fix q
    show "bit (bn_val ws) q = bit (push_bit (64 * nw + lb) (bn_val (take w f))) q"
    proof (cases "64 * nw + lb \<le> q")
      case False
      define K J where "K = q div 64" "J = q mod 64"
      have q: "q = 64 * K + J" "J < 64" by (simp_all add: K_J_def)
      consider "K < nw" | "K = nw" | "nw + 1 \<le> K" by linarith
      then have "K < nw \<or> K = nw \<and> J < lb" by cases (use False q assms(2) in \<open>simp; linarith?\<close>)+
      then have "\<not> (K < length ws \<and> bit (ws ! K) J)"
        using assms(1,4) by (auto simp: lshift_word_def bit_simps)
      then show ?thesis using False bit_bn_val_at [OF q(2), of ws K] by (simp add: q(1) bit_push_bit_iff)
    next
      case True
      then obtain p where p: "q = 64 * nw + lb + p" using le_Suc_ex by blast
      define K J where "K = p div 64" "J = p mod 64"
      have q: "p = 64 * K + J" "J < 64" by (simp_all add: K_J_def)
      have src: "bit (bn_val (take w f)) p \<longleftrightarrow> K < w \<and> bit (f ! K) J"
        using bit_bn_val_at [OF q(2), of "take w f" K] assms(3) by (auto simp: q(1))
      have "bit (bn_val ws) q \<longleftrightarrow> K < w \<and> bit (f ! K) J"
      proof (cases "J + lb < 64")
        case True
        have e: "q = 64 * (nw + K) + (J + lb)" using p q by simp
        have low: "\<not> bit (drop_bit (64 - lb) x) (J + lb)" for x :: u64
          using bit_imp_le_length [of x "64 - lb + (J + lb)"] assms(2) by (auto simp: bit_drop_bit_eq)
        have word: "K \<le> w \<Longrightarrow> ws ! (nw + K) = (if K < w then push_bit lb (f ! K) else 0) OR
            (if 0 < K then drop_bit (64 - lb) (f ! (K - 1)) else 0)"
          using assms(4) [rule_format, of "nw + K"] by (simp add: lshift_word_def)
        have up: "bit (push_bit lb x) (J + lb) \<longleftrightarrow> bit x J" for x :: u64
          using True by (simp add: bit_push_bit_iff)
        have "nw + K < length ws \<longleftrightarrow> K \<le> w" using assms(1) by linarith
        then have "bit (bn_val ws) q \<longleftrightarrow> K \<le> w \<and> bit (ws ! (nw + K)) (J + lb)"
          unfolding e using bit_bn_val_at [OF True, of ws "nw + K"] by simp
        also have "\<dots> \<longleftrightarrow> K < w \<and> bit (f ! K) J"
          using word low up by (cases "K < w") (auto simp: bit_or_iff)
        finally show ?thesis .
      next
        case False
        have e: "q = 64 * (nw + K + 1) + (J + lb - 64)" "J + lb - 64 < 64" "J + lb - 64 < lb" using p q False assms(2) by arith+
        have down: "bit (drop_bit (64 - lb) x) (J + lb - 64) \<longleftrightarrow> bit x J" for x :: u64
          using False assms(2) by (simp add: bit_drop_bit_eq)
        have low: "\<not> bit (push_bit lb x) (J + lb - 64)" for x :: u64
          using e(3) by (simp add: bit_push_bit_iff)
        have word: "K < w \<Longrightarrow> ws ! (nw + K + 1) = (if K + 1 < w then push_bit lb (f ! (K + 1)) else 0) OR drop_bit (64 - lb) (f ! K)"
          using assms(4) [rule_format, of "nw + K + 1"] by (simp add: lshift_word_def)
        have "nw + K + 1 < length ws \<longleftrightarrow> K < w" using assms(1) by linarith
        then have "bit (bn_val ws) q \<longleftrightarrow> K < w \<and> bit (ws ! (nw + K + 1)) (J + lb - 64)"
          unfolding e(1) using bit_bn_val_at [OF e(2), of ws "nw + K + 1"] by simp
        also have "\<dots> \<longleftrightarrow> K < w \<and> bit (f ! K) J"
          using word down low by (cases "K + 1 < w") (auto simp: bit_or_iff)
        finally show ?thesis .
      qed
      then show ?thesis using src by (simp add: p bit_push_bit_iff)
    qed
  qed
  then show ?thesis by (simp add: push_bit_eq_mult)
qed

lemma BN_lshift_value:
  assumes "bn_malloc_ok malloc" "bn_mem r" "bn_wf a" "0 \<le> n" "BN_lshift malloc r a n = (ok, x)"
  shows "ok = bn_room malloc r (bn_width a + nat n div 64 + 1) \<and>
    (ok \<longrightarrow> bn_wf x \<and> bn_minimal x \<and> bn_int x = bn_int a * 2 ^ nat n)"
proof -
  let ?nw = "nat n div 64" and ?lb = "nat n mod 64" and ?w = "bn_width a" and ?r = "r\<lparr>bn_neg := bn_neg a\<rparr>"
  obtain e y where e: "bn_wexpand malloc ?r (?w + ?nw + 1) = (e, y)" by fastforce
  have room: "bn_room malloc ?r k = bn_room malloc r k" for k by (simp add: bn_room_def)
  have "bn_mem ?r" using assms(2) by simp
  note w = wexpand [OF assms(1) this e]
  show ?thesis
  proof (cases e)
    case False
    then have "ok = False" using assms(4,5) unfolding BN_lshift_def Let_def e by simp
    then show ?thesis using False w room by simp
  next
    case True
    let ?t = "(bn_d y)[?w + ?nw := 0]"
    let ?u = "put_words (if ?lb = 0 then lshift_copy (bn_d a) ?nw ?t ?w else lshift_loop (bn_d a) ?nw ?lb ?t ?w) 0 (replicate ?nw 0)"
    let ?y = "y\<lparr>bn_d := ?u, bn_width := ?w + ?nw + 1\<rparr>"
    have x: "ok" "x = bn_set_minimal_width ?y"
      using assms(4,5) True unfolding BN_lshift_def Let_def e by simp_all
    have t: "?w + ?nw < length (bn_d y)" "length (bn_d y) = bn_dmax y" "bn_dmax y \<le> INT_MAX div (4 * 64)"
      using w True by (auto simp: bn_mem_def)
    have f: "?w \<le> length (bn_d a)" using assms(3) by (auto simp: bn_wf_def bn_mem_def)
    have len: "length ?u = length (bn_d y)"
      using lshift_copy_nth [of ?nw ?w ?t "bn_d a"] lshift_loop_nth [of ?nw ?w ?t "bn_d a" ?lb] t(1)
      by (auto simp: put_words_def)
    have m: "bn_mem ?y" using t len by (simp add: bn_mem_def)
    have "bn_abs ?y = bn_abs a * 2 ^ (64 * ?nw + ?lb)"
      unfolding bn_abs_def bn_words_def bignum.simps
      using lshift_words [of ?w ?nw "bn_d y" "bn_d a" ?lb] t len f by (intro lshift_value) (simp_all add: min_absorb2)
    then have v: "bn_abs ?y = bn_abs a * 2 ^ nat n" by simp
    have "bn_neg ?y = bn_neg a" using w by simp
    then have i: "bn_int x = bn_int a * 2 ^ nat n"
      unfolding bn_int_def x(2) set_minimal_width(2,3) [OF m] v using assms(3) by (simp add: bn_wf_def)
    have "bn_wf x" "bn_minimal x" unfolding x(2) by (rule set_minimal_width [OF m])+
    moreover have "bn_room malloc r (bn_width a + nat n div 64 + 1)" using w room True by simp
    ultimately show ?thesis using x(1) i by (simp only: simp_thms)
  qed
qed

lemma lshift1_digit:
  assumes "unat c \<le> 1"
  shows "unat (push_bit 1 t OR c) + radix * unat (drop_bit 63 t) = 2 * unat t + unat (c :: u64)"
proof -
  have c: "c = 0 \<or> c = 1" unfolding word_unat_eq_iff using assms by auto
  have s: "push_bit 1 t OR c = 2 * t + c"
    using c by (auto simp: push_bit_eq_mult or_one_eq mult.commute)
  define M D where "M = unat t mod 2 ^ 63" "D = unat t div 2 ^ 63"
  have "unat t = M + 2 ^ 63 * D" by (simp add: M_D_def)
  then have "2 * unat t + unat c = 2 * M + unat c + radix * D" by (simp add: radix_def)
  then have v: "2 * unat t + unat c = 2 * (unat t mod 2 ^ 63) + unat c + radix * (unat t div 2 ^ 63)"
    by (simp only: M_D_def)
  have "2 * (unat t mod 2 ^ 63) + unat c < radix"
    using assms mod_less_divisor [of "2 ^ 63" "unat t"] by (simp add: radix_def del: mod_less_divisor)
  then have m: "(2 * unat t + unat c) mod radix = 2 * (unat t mod 2 ^ 63) + unat c"
    by (simp only: v mod_mult_self2 mod_less)
  have "unat (2 * t + c) = (2 * unat t + unat c) mod radix"
    by (simp add: unat_word_ariths radix_def mod_simps)
  then show ?thesis using m s v by (simp only: unat_drop_bit)
qed

lemma lshift1_loop_value:
  "lshift1_loop c as = (rp, c') \<Longrightarrow> unat c \<le> 1 \<Longrightarrow>
   length rp = length as \<and> unat c' \<le> 1 \<and> bn_val rp + radix ^ length as * unat c' = 2 * bn_val as + unat c"
proof (induction as arbitrary: c rp)
  case (Cons t as)
  obtain r where r: "lshift1_loop (drop_bit 63 t) as = (r, c')" "rp = (push_bit 1 t OR c) # r"
    using Cons.prems(1) by (auto split: prod.splits)
  have "unat t < 2 * 2 ^ 63" using unat_lt_len [of t] by simp
  then have "unat (drop_bit 63 t) < 2" unfolding unat_drop_bit by (rule less_mult_imp_div_less)
  then have "unat (drop_bit 63 t) \<le> 1" by simp
  note ih = Cons.IH [OF r(1) this]
  have "unat (push_bit 1 t OR c) + radix * bn_val r + radix * (radix ^ length as * unat c') =
      2 * unat t + unat c + radix * (2 * bn_val as)"
    using horner_step [OF lshift1_digit [OF Cons.prems(2)], of "bn_val r"] ih by blast
  then show ?case using ih by (simp add: r(2) algebra_simps)
qed simp

lemma BN_lshift1_value:
  assumes "bn_malloc_ok malloc" "bn_mem r" "bn_wf a" "BN_lshift1 malloc r a = (ok, x)"
  shows "ok = bn_room malloc r (bn_width a + 1) \<and> (ok \<longrightarrow> bn_wf x \<and> bn_int x = bn_int a * 2)"
proof -
  let ?w = "bn_width a" and ?r = "r\<lparr>bn_neg := bn_neg a\<rparr>"
  obtain e y where e: "bn_wexpand malloc ?r (?w + 1) = (e, y)" by fastforce
  have room: "bn_room malloc ?r k = bn_room malloc r k" for k by (simp add: bn_room_def)
  have "bn_mem ?r" using assms(2) by simp
  note w = wexpand [OF assms(1) this e]
  show ?thesis
  proof (cases e)
    case False
    then have "ok = False" using assms(4) unfolding BN_lshift1_def Let_def e by simp
    then show ?thesis using False w room by simp
  next
    case True
    have f: "?w \<le> length (bn_d a)" "?w + 1 \<le> bn_dmax y" "length (bn_d y) = bn_dmax y"
      using assms(3) w True by (auto simp: bn_wf_def bn_mem_def)
    obtain rp c where l: "lshift1_loop 0 (take ?w (bn_d a)) = (rp, c)" by fastforce
    have v: "length rp = ?w" "unat c \<le> 1" "bn_val rp + radix ^ ?w * unat c = 2 * bn_abs a"
      using lshift1_loop_value [OF l] f by (simp_all add: bn_abs_def bn_words_def min_absorb2)
    let ?ws = "if c \<noteq> 0 then rp @ [1] else rp"
    let ?y = "y\<lparr>bn_d := put_words (bn_d y) 0 ?ws, bn_width := length ?ws\<rparr>"
    have "put_words (bn_d y) 0 (rp @ [1]) = (put_words (bn_d y) 0 rp)[?w := 1]"
      using v(1) f by (simp add: put_words_def list_update_append Cons_nth_drop_Suc [symmetric])
    then have x: "ok" "x = ?y"
      using assms(4) True v(1) unfolding BN_lshift1_def Let_def e by (cases "c = 0"; simp add: l)+
    have "length ?ws \<le> bn_dmax y" using v(1) f by simp
    then have y: "bn_mem ?y" "bn_words ?y = ?ws" using store_words [of y ?ws] w by simp_all
    have "c \<noteq> 0 \<Longrightarrow> unat c = 1" using v(2) by (auto simp: le_Suc_eq unat_eq_zero)
    then have "bn_abs ?y = 2 * bn_abs a"
      using v y(2) by (cases "c = 0") (simp_all add: bn_abs_def bn_val_append)
    moreover have "bn_neg ?y = bn_neg a" using w by simp
    moreover have "bn_room malloc r (?w + 1)" using w room True by simp
    ultimately show ?thesis using x y(1) assms(3) by (simp add: bn_wf_def bn_int_def)
  qed
qed

text \<open>The word at position \<open>k\<close> after a right shift.\<close>

lemma rshift_nth:
  assumes "num \<le> length a"
  shows "length (bn_rshift_words a s num) = num"
    "k < num \<Longrightarrow> bn_rshift_words a s num ! k =
      (if k + s div 64 < num then
         drop_bit (s mod 64) (a ! (k + s div 64)) OR
         (if k + s div 64 + 1 < num then push_bit (64 - s mod 64) (a ! (k + s div 64 + 1)) else 0)
       else 0)"
proof -
  show "length (bn_rshift_words a s num) = num"
    using assms by (simp add: bn_rshift_words_def Let_def)
  assume k: "k < num"
  have full: "push_bit 64 (x :: u64) = 0" for x by (simp add: bit_eq_iff bit_push_bit_iff)
  show "bn_rshift_words a s num ! k =
      (if k + s div 64 < num then
         drop_bit (s mod 64) (a ! (k + s div 64)) OR
         (if k + s div 64 + 1 < num then push_bit (64 - s mod 64) (a ! (k + s div 64 + 1)) else 0)
       else 0)"
  proof (cases "s mod 64 = 0")
    case True
    then show ?thesis using k assms full
      by (auto simp: bn_rshift_words_def Let_def nth_append add.commute)
  next
    case False
    consider "k + s div 64 + 1 < num" | "k + s div 64 + 1 = num" | "num \<le> k + s div 64" by linarith
    then show ?thesis
      by cases (use k assms False in \<open>auto simp: bn_rshift_words_def Let_def nth_append add.commute\<close>)
  qed
qed

lemma shift_position: "s + (64 * K + J) = 64 * (K + s div 64) + (J + s mod 64)" for s :: nat
proof -
  obtain a b where "s div 64 = a" "s mod 64 = b" "s = 64 * a + b" by (metis mult_div_mod_eq)
  then show ?thesis by simp
qed

lemma rshift_value:
  assumes "num \<le> length a"
  shows "bn_val (bn_rshift_words a s num) = bn_val (take num a) div 2 ^ s"
proof -
  let ?ws = "bn_rshift_words a s num" and ?sw = "s div 64" and ?sb = "s mod 64"
  have "bn_val ?ws = drop_bit s (bn_val (take num a))"
  proof (rule bit_eqI)
    fix q :: nat
    define K J where "K = q div 64" "J = q mod 64"
    have q: "q = 64 * K + J" "J < 64" by (simp_all add: K_J_def)
    have sb: "?sb < 64" by simp
    have res: "bit (bn_val ?ws) q \<longleftrightarrow> K < num \<and> bit (?ws ! K) J"
      using bit_bn_val_at [OF q(2), of ?ws K] rshift_nth(1) [OF assms] by (simp add: q(1))
    show "bit (bn_val ?ws) q = bit (drop_bit s (bn_val (take num a))) q"
    proof (cases "J + ?sb < 64")
      case True
      have e: "s + q = 64 * (K + ?sw) + (J + ?sb)" by (simp only: q(1) shift_position)
      have "\<not> 64 - ?sb \<le> J" using True by linarith
      then have low: "\<not> bit (push_bit (64 - ?sb) x) J" for x :: u64
        by (simp add: bit_push_bit_iff)
      have "bit (bn_val (take num a)) (s + q) \<longleftrightarrow> K + ?sw < num \<and> bit (a ! (K + ?sw)) (J + ?sb)"
        unfolding e using bit_bn_val_at [OF True, of "take num a" "K + ?sw"] assms by auto
      then show ?thesis using res rshift_nth(2) [OF assms, of K s] low
        by (cases "K + ?sw < num"; cases "K + ?sw + 1 < num") (auto simp: bit_drop_bit_eq bit_or_iff add.commute [of J])
    next
      case False
      have e: "s + q = 64 * (K + ?sw + 1) + (J + ?sb - 64)" "J + ?sb - 64 < 64"
        using shift_position [of s K J] q False sb by simp_all
      have low: "\<not> bit (drop_bit ?sb x) J" for x :: u64
        using bit_imp_le_length [of x "?sb + J"] False by (auto simp: bit_drop_bit_eq)
      have up: "bit (push_bit (64 - ?sb) x) J \<longleftrightarrow> bit x (J + ?sb - 64)" for x :: u64
      proof -
        have "64 - ?sb \<le> J" "J - (64 - ?sb) = J + ?sb - 64" using False sb by linarith+
        then show ?thesis using q(2) by (simp add: bit_push_bit_iff)
      qed
      have "bit (bn_val (take num a)) (s + q) \<longleftrightarrow> K + ?sw + 1 < num \<and> bit (a ! (K + ?sw + 1)) (J + ?sb - 64)"
        unfolding e(1) using bit_bn_val_at [OF e(2), of "take num a" "K + ?sw + 1"] assms by auto
      then show ?thesis using res rshift_nth(2) [OF assms, of K s] low up
        by (cases "K + ?sw < num"; cases "K + ?sw + 1 < num") (auto simp: bit_drop_bit_eq bit_or_iff)
    qed
  qed
  then show ?thesis by (simp add: drop_bit_eq_div)
qed

lemma bn_rshift1_words_eq: "num \<le> length a \<Longrightarrow> bn_rshift1_words a num = bn_rshift_words a 1 num"
  by (cases num) (simp_all add: bn_rshift1_words_def bn_rshift_words_def)

lemma rshift_object:
  assumes "bn_malloc_ok malloc" "bn_mem r" "bn_wf a" "bn_wexpand malloc r (bn_width a) = (True, y)"
    "x = bn_set_minimal_width (y\<lparr>bn_d := put_words (bn_d y) 0 (bn_rshift_words (bn_d a) n (bn_width a)),
      bn_neg := bn_neg a, bn_width := bn_width a\<rparr>)"
  shows "bn_wf x \<and> bn_minimal x \<and> bn_abs x = bn_abs a div 2 ^ n \<and> bn_neg x = (bn_neg a \<and> bn_abs x \<noteq> 0)"
proof -
  let ?ws = "bn_rshift_words (bn_d a) n (bn_width a)"
  let ?y = "y\<lparr>bn_d := put_words (bn_d y) 0 ?ws, bn_neg := bn_neg a, bn_width := bn_width a\<rparr>"
  have le: "bn_width a \<le> length (bn_d a)" using assms(3) by (auto simp: bn_wf_def bn_mem_def)
  note l = rshift_nth(1) [OF le, of n]
  note w = wexpand [OF assms(1,2,4)]
  have m: "bn_mem ?y" "bn_words ?y = ?ws"
    using store_words [of y ?ws] w l by (simp_all add: bn_mem_def bn_words_def)
  then have "bn_abs ?y = bn_abs a div 2 ^ n"
    using rshift_value [OF le, of n] by (simp add: bn_abs_def bn_words_def)
  then show ?thesis using set_minimal_width [OF m(1)] unfolding assms(5) by simp
qed

lemma BN_rshift_value:
  assumes "bn_malloc_ok malloc" "bn_mem r" "bn_wf a" "0 \<le> n" "BN_rshift malloc r a n = (ok, x)"
  shows "ok = bn_room malloc r (bn_width a) \<and>
    (ok \<longrightarrow> bn_wf x \<and> bn_minimal x \<and> bn_abs x = bn_abs a div 2 ^ nat n \<and> bn_neg x = (bn_neg a \<and> bn_abs x \<noteq> 0))"
proof -
  obtain e y where e: "bn_wexpand malloc r (bn_width a) = (e, y)" by fastforce
  note w = wexpand [OF assms(1,2) e]
  show ?thesis
  proof (cases e)
    case True
    have "(ok, x) = (True, bn_set_minimal_width (y\<lparr>bn_d := put_words (bn_d y) 0 (bn_rshift_words (bn_d a) (nat n) (bn_width a)),
        bn_neg := bn_neg a, bn_width := bn_width a\<rparr>))"
      using assms(4,5) True unfolding BN_rshift_def Let_def e by simp
    then show ?thesis using rshift_object [OF assms(1-3), of y x "nat n"] e w True by (simp only: prod.inject simp_thms)
  next
    case False
    then have "ok = False" using assms(4,5) unfolding BN_rshift_def Let_def e by simp
    then show ?thesis using w False by simp
  qed
qed

lemma BN_rshift1_value:
  assumes "bn_malloc_ok malloc" "bn_mem r" "bn_wf a" "BN_rshift1 malloc r a = (ok, x)"
  shows "ok = bn_room malloc r (bn_width a) \<and>
    (ok \<longrightarrow> bn_wf x \<and> bn_minimal x \<and> bn_abs x = bn_abs a div 2 ^ 1 \<and> bn_neg x = (bn_neg a \<and> bn_abs x \<noteq> 0))"
proof -
  obtain e y where e: "bn_wexpand malloc r (bn_width a) = (e, y)" by fastforce
  note w = wexpand [OF assms(1,2) e]
  have "bn_width a \<le> length (bn_d a)" using assms(3) by (auto simp: bn_wf_def bn_mem_def)
  note eq = bn_rshift1_words_eq [OF this]
  show ?thesis
  proof (cases e)
    case True
    have "(ok, x) = (True, bn_set_minimal_width (y\<lparr>bn_d := put_words (bn_d y) 0 (bn_rshift_words (bn_d a) 1 (bn_width a)),
        bn_neg := bn_neg a, bn_width := bn_width a\<rparr>))"
      using assms(4) True unfolding BN_rshift1_def Let_def e eq by simp
    then show ?thesis using rshift_object [OF assms(1-3), of y x 1] e w True by (simp only: prod.inject simp_thms)
  next
    case False
    then have "ok = False" using assms(4) unfolding BN_rshift1_def Let_def e by simp
    then show ?thesis using w False by simp
  qed
qed

section \<open>What the operations on bits compute\<close>

lemma bn_is_bit_set: "bn_mem bn \<Longrightarrow> BN_is_bit_set bn n \<longleftrightarrow> 0 \<le> n \<and> bit (bn_abs bn) (nat n)"
proof -
  assume m: "bn_mem bn"
  have "drop_bit j x AND 1 \<noteq> 0 \<longleftrightarrow> bit x j" for j and x :: u64
    by (simp add: bit_iff_odd_drop_bit and_one_eq odd_iff_mod_2_eq_one)
  then show ?thesis using m
    by (auto simp: BN_is_bit_set_def bn_is_bit_set_words_def Let_def bn_abs_def bit_bn_val bn_words_def bn_mem_def)
qed

lemma update_bit:
  assumes "n div 64 < length ws" "\<And>k. k < 64 \<Longrightarrow> bit w k = (if k = n mod 64 then v else bit (ws ! (n div 64)) k)"
  shows "bit (bn_val (ws[n div 64 := w])) q = (if q = n then v else bit (bn_val ws) q)"
proof -
  have "q = n \<longleftrightarrow> q div 64 = n div 64 \<and> q mod 64 = n mod 64" by (metis div_mult_mod_eq)
  moreover have "q mod 64 < 64" by simp
  ultimately show ?thesis using assms by (auto simp: bit_bn_val nth_list_update)
qed

lemma bn_val_set_bit: "n div 64 < length ws \<Longrightarrow>
  bn_val (ws[n div 64 := ws ! (n div 64) OR push_bit (n mod 64) 1]) = set_bit n (bn_val ws)"
  by (rule bit_eqI, subst update_bit [where v = True])
    (auto simp: bit_or_iff bit_exp_iff bit_set_bit_iff)

lemma bn_val_clear_bit: "n div 64 < length ws \<Longrightarrow>
  bn_val (ws[n div 64 := ws ! (n div 64) AND NOT (push_bit (n mod 64) 1)]) = unset_bit n (bn_val ws)"
  by (rule bit_eqI, subst update_bit [where v = False])
    (auto simp: bit_and_iff bit_not_iff bit_exp_iff bit_unset_bit_iff)

lemma BN_set_bit_value:
  assumes "bn_malloc_ok malloc" "bn_wf a" "0 \<le> n" "BN_set_bit malloc a n = (ok, x)"
  shows "(bn_width a \<le> nat n div 64 \<longrightarrow> ok = bn_room malloc a (nat n div 64 + 1)) \<and> (nat n div 64 < bn_width a \<longrightarrow> ok) \<and>
    (ok \<longrightarrow> bn_wf x \<and> bn_abs x = set_bit (nat n) (bn_abs a) \<and> bn_neg x = bn_neg a)"
proof -
  obtain N i j where n: "n = int N" and i: "N div 64 = i" and j: "N mod 64 = j"
    using assms(3) nonneg_int_cases by blast
  have nn: "nat n = N" "\<not> n < 0" using n by simp_all
  have nz: "set_bit N v \<noteq> 0" for v :: nat
  proof
    assume "set_bit N v = 0"
    then have "bit (0 :: nat) N" using bit_set_bit_iff [of N v N] by simp
    then show False by simp
  qed
  have fin: "bn_wf y \<and> bn_abs y = set_bit N (bn_abs b) \<and> bn_neg y = bn_neg b"
    if "bn_mem b" "i < bn_width b" "y = b\<lparr>bn_d := (bn_d b)[i := bn_d b ! i OR push_bit j 1]\<rparr>" for b y
  proof -
    have "bn_mem y" using that by (simp add: bn_mem_def)
    moreover have "bn_words y = (bn_words b)[i := bn_words b ! i OR push_bit j 1]"
      using that by (simp add: bn_words_def take_update_swap)
    moreover have "i < length (bn_words b)" using that by (simp add: bn_words_def bn_mem_def)
    ultimately have "bn_mem y" "bn_abs y = set_bit N (bn_abs b)"
      using bn_val_set_bit [of N "bn_words b"] by (simp_all add: bn_abs_def i j)
    then show ?thesis using nz that(3) by (simp add: bn_wf_def)
  qed
  have call: "BN_set_bit malloc a n = (let (ok, a) = (if bn_width a \<le> i then
                 (case bn_wexpand malloc a (i + 1) of
                    (False, a) \<Rightarrow> (False, a)
                  | (True, a) \<Rightarrow>
                      (True, a\<lparr>bn_d := put_words (bn_d a) (bn_width a) (replicate (i + 1 - bn_width a) 0),
                               bn_width := i + 1\<rparr>))
               else (True, a))
        in if \<not> ok then (False, a)
           else (True, a\<lparr>bn_d := (bn_d a)[i := bn_d a ! i OR push_bit j 1]\<rparr>))"
    unfolding BN_set_bit_def Let_def nn(1) i j using nn(2) by (simp only: if_False)
  show ?thesis
  proof (cases "bn_width a \<le> i")
    case False
    have "(ok, x) = (True, a\<lparr>bn_d := (bn_d a)[i := bn_d a ! i OR push_bit j 1]\<rparr>)"
      using assms(4) False unfolding call by simp
    then show ?thesis using fin [OF bn_wf_mem [OF assms(2)], of x] False unfolding nn(1) i by simp
  next
    case True
    obtain e y where e: "bn_wexpand malloc a (i + 1) = (e, y)" by fastforce
    note w = wexpand [OF assms(1) bn_wf_mem [OF assms(2)] e]
    show ?thesis
    proof (cases e)
      case f: False
      then have "ok = False" using assms(4) True unfolding call e by simp
      then show ?thesis using w f True unfolding nn(1) i by simp
    next
      case t: True
      let ?ws = "bn_words a @ replicate (i + 1 - bn_width a) 0"
      let ?b = "y\<lparr>bn_d := put_words (bn_d y) (bn_width y) (replicate (i + 1 - bn_width y) 0), bn_width := i + 1\<rparr>"
      have l: "length (bn_d y) = bn_dmax y" "i + 1 \<le> bn_dmax y" using w t by (auto simp: bn_mem_def)
      have wd: "bn_width y = bn_width a" using w t by simp
      have tk: "take (bn_width a) (bn_d y) = take (bn_width a) (bn_d a)"
        using w t wd by (simp only: simp_thms bn_words_def)
      have m: "bn_mem ?b" using w t True l by (simp add: bn_mem_def put_words_def)
      have "bn_width a \<le> length (bn_d a)" using assms(2) by (simp add: bn_wf_def bn_mem_def)
      then have "bn_words ?b = ?ws" using True l wd tk by (simp add: bn_words_def put_words_def)
      then have v: "bn_abs ?b = bn_abs a" by (simp add: bn_abs_def bn_val_append)
      have g: "bn_neg ?b = bn_neg a" "i < bn_width ?b" using w by simp_all
      have x: "(ok, x) = (True, ?b\<lparr>bn_d := (bn_d ?b)[i := bn_d ?b ! i OR push_bit j 1]\<rparr>)"
        using assms(4) True t unfolding call e by (simp only: if_True prod.case bool.case Let_def simp_thms if_False split_conv)
      have "ok" "x = ?b\<lparr>bn_d := (bn_d ?b)[i := bn_d ?b ! i OR push_bit j 1]\<rparr>" using x by (simp_all only: prod.inject)
      moreover have "bn_room malloc a (i + 1)" using w t by simp
      ultimately show ?thesis using fin [OF m g(2), of x] True unfolding nn(1) i v g(1)
        by (simp only: simp_thms not_less [symmetric])
    qed
  qed
qed

lemma BN_clear_bit_value:
  assumes "bn_wf a" "0 \<le> n" "BN_clear_bit a n = (ok, x)"
  shows "ok = (nat n div 64 < bn_width a) \<and>
    (ok \<longrightarrow> bn_wf x \<and> bn_abs x = unset_bit (nat n) (bn_abs a) \<and> bn_neg x = (bn_neg a \<and> bn_abs x \<noteq> 0)) \<and> (\<not> ok \<longrightarrow> x = a)"
proof (cases "nat n div 64 < bn_width a")
  case True
  let ?i = "nat n div 64"
  let ?b = "a\<lparr>bn_d := (bn_d a)[?i := bn_d a ! ?i AND NOT (push_bit (nat n mod 64) 1)]\<rparr>"
  have "bn_words ?b = (bn_words a)[?i := bn_words a ! ?i AND NOT (push_bit (nat n mod 64) 1)]"
    using True by (simp add: bn_words_def take_update_swap)
  moreover have m: "bn_mem ?b" using assms(1) by (simp add: bn_wf_def bn_mem_def)
  ultimately have "bn_abs ?b = unset_bit (nat n) (bn_abs a)"
    using True bn_val_clear_bit [of "nat n" "bn_words a"] assms(1) by (simp add: bn_abs_def bn_wf_def)
  moreover have "ok" "x = bn_set_minimal_width ?b" using assms(2,3) True unfolding BN_clear_bit_def Let_def by simp_all
  moreover have "bn_neg ?b = bn_neg a" by simp
  ultimately show ?thesis using True set_minimal_width(1-3) [OF m] by (simp only: simp_thms)
next
  case False
  then show ?thesis using assms(2,3) unfolding BN_clear_bit_def Let_def by simp
qed

lemma bit_low_mask:
  assumes "b < 64"
  shows "bit (x AND NOT (push_bit b 0xffffffffffffffff)) J \<longleftrightarrow> J < b \<and> bit (x :: u64) J"
proof -
  have e: "(0xffffffffffffffff :: u64) = - 1" by simp
  have f: "bit (0xffffffffffffffff :: u64) i \<longleftrightarrow> i < 64" for i
    unfolding e by (simp add: bit_minus_1_iff)
  have p: "possible_bit TYPE(64 word) J \<longleftrightarrow> J < 64" by simp
  show ?thesis unfolding bit_and_iff bit_not_iff bit_push_bit_iff f p
    using bit_imp_le_length [of x J] assms by (cases "J < b") auto
qed

lemma low_mask_0: "x AND NOT (push_bit 0 0xffffffffffffffff) = (0 :: u64)"
  by (rule bit_word_eqI) (simp only: bit_low_mask [of 0] bit_0_eq bot_apply, simp)

lemma take_bit_words:
  assumes "w < length ws" "b < 64"
  shows "bn_val (take w ws @ [ws ! w AND NOT (push_bit b 0xffffffffffffffff)]) = take_bit (64 * w + b) (bn_val ws)"
proof (rule bit_eqI)
  fix q
  note m = bit_low_mask [OF assms(2)]
  obtain K J where q: "q = 64 * K + (J :: nat)" "J < 64" by (rule that [of "q div 64" "q mod 64"]) simp_all
  have len: "length (take w ws) = w" using assms(1) by simp
  have lt: "64 * K + J < 64 * w + b \<longleftrightarrow> K < w \<or> K = w \<and> J < b" using q(2) assms(2) by arith
  show "bit (bn_val (take w ws @ [ws ! w AND NOT (push_bit b 0xffffffffffffffff)])) q = bit (take_bit (64 * w + b) (bn_val ws)) q"
    unfolding q(1) bit_take_bit_iff lt bit_bn_val_at [OF q(2)] using assms(1) len m
    by (cases "K = w") (auto simp: nth_append)
qed

lemma take_bit_full: "64 * length ws \<le> n \<Longrightarrow> take_bit n (bn_val ws) = bn_val ws"
proof (rule take_bit_nat_eq_self)
  assume le: "64 * length ws \<le> n"
  have "bn_val ws < 2 ^ (64 * length ws)" using bn_val_less [of ws] by (simp only: radix_power)
  also have "\<dots> \<le> 2 ^ n" using le by (intro power_increasing) simp_all
  finally show "bn_val ws < 2 ^ n" .
qed

lemma BN_mask_bits_value:
  assumes "bn_wf a" "0 \<le> n" "BN_mask_bits a n = (ok, x)"
  shows "ok \<and> bn_wf x \<and> bn_abs x = take_bit (nat n) (bn_abs a) \<and> bn_neg x = (bn_neg a \<and> bn_abs x \<noteq> 0)"
proof -
  obtain N w b where n: "n = int N" and w: "N div 64 = w" and b: "N mod 64 = b"
    using assms(2) nonneg_int_cases by blast
  have nn: "nat n = N" "\<not> n < 0" using n by simp_all
  have N: "N = 64 * w + b" "b < 64" using w b by auto
  have mem: "bn_mem a" using assms(1) by (rule bn_wf_mem)
  show ?thesis
  proof (cases "bn_width a \<le> w")
    case True
    then have "ok" "x = a" using assms(3) nn w unfolding BN_mask_bits_def Let_def by simp_all
    moreover have "take_bit N (bn_abs a) = bn_abs a"
      using take_bit_full [of "bn_words a" N] True N mem by (simp add: bn_abs_def)
    ultimately show ?thesis using assms(1) nn(1) by (auto simp: bn_wf_def)
  next
    case False
    let ?a = "if b = 0 then a\<lparr>bn_width := w\<rparr>
      else a\<lparr>bn_width := w + 1, bn_d := (bn_d a)[w := bn_d a ! w AND NOT (push_bit b 0xffffffffffffffff)]\<rparr>"
    have "(ok, x) = (True, bn_set_minimal_width ?a)"
      using assms(3) False unfolding BN_mask_bits_def Let_def nn(1) w b using nn(2) by (simp only: if_False)
    then have r: "ok" "x = bn_set_minimal_width ?a" by (simp_all only: prod.inject)
    have m: "bn_mem ?a" using mem False by (simp add: bn_mem_def)
    have g: "bn_neg ?a = bn_neg a" by simp
    have wl: "w < length (bn_words a)" "w < length (bn_d a)" using mem False by (simp_all add: bn_mem_def bn_words_def)
    have tw: "take w (bn_words a) = take w (bn_d a)" "bn_words a ! w = bn_d a ! w"
      using False by (simp_all add: bn_words_def min_absorb2)
    have "bn_words (a\<lparr>bn_width := w + 1, bn_d := (bn_d a)[w := y]\<rparr>) = take w (bn_words a) @ [y]" for y
      using wl(2) tw by (simp add: bn_words_def take_Suc_conv_app_nth)
    moreover have "take_bit N (bn_abs a) = bn_val (take w (bn_words a) @ [bn_words a ! w AND NOT (push_bit b 0xffffffffffffffff)])"
      using take_bit_words [OF wl(1) N(2)] by (simp only: bn_abs_def N(1))
    moreover have "bn_val (take w (bn_words a) @ [x AND NOT (push_bit 0 0xffffffffffffffff)]) = bn_val (take w (bn_words a))" for x
      unfolding low_mask_0 by (simp add: bn_val_append)
    moreover have "bn_words (a\<lparr>bn_width := w\<rparr>) = take w (bn_words a)" using tw by (simp add: bn_words_def)
    ultimately have "bn_abs ?a = take_bit N (bn_abs a)"
      using tw by (cases "b = 0") (simp_all only: bn_abs_def if_True if_False simp_thms)
    then show ?thesis using set_minimal_width(1-3) [OF m] r(1) unfolding r(2) nn(1) g by (simp only: simp_thms)
  qed
qed

section \<open>What counting the bits computes\<close>

lemma unat_drop_div: "unat (drop_bit k (l :: u64)) = unat l div 2 ^ k"
  unfolding unat_drop_bit by (simp add: drop_bit_eq_div)

lemma steps_of_two: "[32, 16, 8, 4, 2, 1] = map ((^) (2 :: nat)) (rev [0..<6])"
  by (simp add: upt_rec)

lemma num_bits_step:
  assumes "0 < k" "k \<le> 32" "unat l < 2 ^ (2 * k)"
  shows "num_bits_step (b, l) k = (if drop_bit k l = 0 then (b, l) else (b + of_nat k, drop_bit k l))"
proof -
  let ?x = "drop_bit k l"
  have "unat ?x < 2 ^ k" using assms(3) unfolding unat_drop_div
    by (simp add: less_mult_imp_div_less mult_2 power_add)
  also have "(2 :: nat) ^ k \<le> 2 ^ 32" using assms(2) by (intro power_increasing) simp_all
  finally have x: "unat ?x < 2 ^ 32" .
  have "bit (0 - ?x) 63 \<longleftrightarrow> ?x \<noteq> 0"
  proof (cases "?x = 0")
    case False
    then have "0 < unat ?x" by (simp add: unat_gt_0)
    then show ?thesis using x False unat_sub_wrap [of 0 ?x] unfolding bit63 by (simp add: word_le_nat_alt)
  qed simp
  then have "0 - drop_bit (64 - 1) (0 - ?x) = (if ?x = 0 then 0 else - 1)"
    using msb_w_value [of "0 - ?x"] by (simp add: constant_time_msb_w_def)
  moreover have "l XOR ((y XOR l) AND - 1) = y" for y :: u64 by (rule bit_word_eqI) (auto simp: bit_simps)
  ultimately show ?thesis by (simp add: num_bits_step_def Let_def)
qed

lemma num_bits_steps:
  "n \<le> 6 \<Longrightarrow> unat l < 2 ^ 2 ^ n \<Longrightarrow>
   \<exists>s < 2 ^ n. foldl num_bits_step (b, l) (map ((^) 2) (rev [0..<n])) = (b + of_nat s, drop_bit s l) \<and>
     unat (drop_bit s l) < 2 \<and> (if l = 0 then s = 0 else drop_bit s l \<noteq> 0)"
proof (induction n arbitrary: b l)
  case (Suc n)
  let ?k = "2 ^ n :: nat"
  have k: "0 < ?k" "?k \<le> 32" using Suc.prems(1) power_increasing [of n 5 "2 :: nat"] by simp_all
  have lt: "unat l < 2 ^ (2 * ?k)" using Suc.prems(2) by simp
  note st = num_bits_step [OF k lt, of b]
  have "foldl num_bits_step (b, l) (map ((^) 2) (rev [0..<Suc n])) =
      foldl num_bits_step (num_bits_step (b, l) ?k) (map ((^) 2) (rev [0..<n]))" by simp
  note fo = this [unfolded st]
  have dl: "unat (drop_bit ?k l) < 2 ^ ?k" using lt unfolding unat_drop_div
    by (simp add: less_mult_imp_div_less mult_2 power_add)
  show ?case
  proof (cases "drop_bit ?k l = 0")
    case True
    have "unat l < 2 ^ ?k"
    proof -
      have "unat l div 2 ^ ?k = 0" using True by (simp flip: unat_drop_div)
      then show ?thesis by (simp add: div_eq_0_iff)
    qed
    with Suc.IH [of l b] Suc.prems(1) obtain s where s: "s < ?k"
      "foldl num_bits_step (b, l) (map ((^) 2) (rev [0..<n])) = (b + of_nat s, drop_bit s l)"
      "unat (drop_bit s l) < 2" "if l = 0 then s = 0 else drop_bit s l \<noteq> 0" by auto
    then show ?thesis unfolding fo using True by (intro exI [of _ s]) simp
  next
    case False
    with Suc.IH [of "drop_bit ?k l" "b + of_nat ?k"] Suc.prems(1) dl obtain s where s: "s < ?k"
      "foldl num_bits_step (b + of_nat ?k, drop_bit ?k l) (map ((^) 2) (rev [0..<n])) =
         (b + of_nat ?k + of_nat s, drop_bit s (drop_bit ?k l))"
      "unat (drop_bit s (drop_bit ?k l)) < 2" "drop_bit s (drop_bit ?k l) \<noteq> 0" by auto
    moreover have "l \<noteq> 0" using False by auto
    ultimately show ?thesis unfolding fo using False
      by (intro exI [of _ "?k + s"]) (simp add: add.commute [of ?k] add.assoc)
  qed
qed auto

lemma num_bits_word:
  "BN_num_bits_word l = 0 \<and> l = 0 \<or>
   0 < BN_num_bits_word l \<and> BN_num_bits_word l \<le> 64 \<and> 2 ^ (BN_num_bits_word l - 1) \<le> unat l \<and> unat l < 2 ^ BN_num_bits_word l"
proof -
  let ?b = "if l \<noteq> 0 then 1 else 0 :: u64"
  have "unat l < 2 ^ 2 ^ 6" using unat_lt_len [of l] by simp
  with num_bits_steps [of 6 l ?b] obtain s where s: "s < 2 ^ 6"
    "foldl num_bits_step (?b, l) [32, 16, 8, 4, 2, 1] = (?b + of_nat s, drop_bit s l)"
    "unat (drop_bit s l) < 2" "if l = 0 then s = 0 else drop_bit s l \<noteq> 0"
    unfolding steps_of_two by auto
  have r: "BN_num_bits_word l = unat (?b + of_nat s)" unfolding BN_num_bits_word_def s(2) by simp
  show ?thesis
  proof (cases "l = 0")
    case True
    then show ?thesis using r s(4) by simp
  next
    case False
    have "unat (1 + of_nat s :: u64) = unat (of_nat (1 + s) :: u64)" by simp
    also have "\<dots> = 1 + s" using s(1) by (intro unat_of_nat_small) simp
    finally have r: "BN_num_bits_word l = Suc s" using r False by simp
    have "drop_bit s l \<noteq> 0" using s(4) False by simp
    then have "unat l div 2 ^ s \<noteq> 0"
      by (simp only: unat_drop_div [symmetric] unat_eq_zero not_False_eq_True)
    moreover have "unat l div 2 ^ s < 2" using s(3) by (simp only: unat_drop_div)
    ultimately have "unat l div 2 ^ s = 1" by linarith
    then have "2 ^ s \<le> unat l" "unat l < 2 * 2 ^ s"
      using div_less_iff_less_mult [of "2 ^ s" "unat l" 2] by (auto simp: div_eq_0_iff not_less [symmetric])
    then show ?thesis using r s(1) by simp
  qed
qed

lemma BN_num_bits_value:
  assumes "bn_mem bn"
  shows "if bn_abs bn = 0 then BN_num_bits bn = 0
    else 0 < BN_num_bits bn \<and> 2 ^ (BN_num_bits bn - 1) \<le> bn_abs bn \<and> bn_abs bn < 2 ^ BN_num_bits bn"
proof (cases "bn_minimal_width bn")
  case 0
  then show ?thesis using minimal_width_zero [OF assms] by (simp add: BN_num_bits_def)
next
  case (Suc k)
  let ?t = "bn_d bn ! k" and ?v = "bn_val (take k (bn_d bn))"
  have nz: "bn_abs bn \<noteq> 0" using minimal_width_zero [OF assms] Suc by simp
  have top: "?t \<noteq> 0" using minimal_width_top Suc by (simp add: bn_minimal_width_def)
  have le: "bn_width bn \<le> length (bn_d bn)" using assms by (simp add: bn_mem_def)
  have "Suc k \<le> bn_width bn" using Suc minimal_width_le [of "bn_d bn" "bn_width bn"] by (simp add: bn_minimal_width_def)
  with le have k: "k < length (bn_d bn)" by simp
  have v: "bn_abs bn = ?v + radix ^ k * unat ?t"
    using minimal_width_value [OF le] Suc k
    by (simp add: bn_abs_def bn_words_def bn_minimal_width_def take_Suc_conv_app_nth bn_val_append min_absorb2)
  obtain m where m: "BN_num_bits_word ?t = Suc m" using num_bits_word [of ?t] top by (cases "BN_num_bits_word ?t") auto
  then have w: "2 ^ m \<le> unat ?t" "Suc (unat ?t) \<le> 2 ^ Suc m" using num_bits_word [of ?t] by simp_all
  have n: "BN_num_bits bn = Suc (64 * k + m)" using Suc m by (simp add: BN_num_bits_def Let_def)
  note r = radix_power [of k]
  have "?v < radix ^ k" using bn_val_less [of "take k (bn_d bn)"] k by (simp add: min_absorb2)
  then have "bn_abs bn < radix ^ k * Suc (unat ?t)" using v by simp
  also have "\<dots> \<le> radix ^ k * 2 ^ Suc m" using w(2) by (intro mult_le_mono2)
  also have "\<dots> = 2 ^ BN_num_bits bn" unfolding n r by (simp add: power_add)
  finally have up: "bn_abs bn < 2 ^ BN_num_bits bn" .
  have "2 ^ (BN_num_bits bn - 1) = radix ^ k * 2 ^ m" unfolding n r by (simp add: power_add)
  also have "\<dots> \<le> bn_abs bn" unfolding v by (rule order_trans [OF mult_le_mono2 [OF w(1)]]) simp
  finally show ?thesis using up nz n by simp
qed

text \<open>A number that ends in exactly \<open>r\<close> zero bits.\<close>

definition ends_in_zeros :: "nat \<Rightarrow> nat \<Rightarrow> bool" where
  "ends_in_zeros r v \<longleftrightarrow> 2 ^ r dvd v \<and> odd (v div 2 ^ r)"

lemma push_bit_0_iff:
  assumes "k \<le> 64"
  shows "push_bit (64 - k) (l :: u64) = 0 \<longleftrightarrow> 2 ^ k dvd unat l"
proof -
  have "push_bit (64 - k) l = 0 \<longleftrightarrow> take_bit 64 (push_bit (64 - k) (unat l)) = 0"
    by (simp add: word_unat_eq_iff unsigned_push_bit_eq)
  also have "take_bit 64 (push_bit (64 - k) (unat l)) = push_bit (64 - k) (take_bit k (unat l))"
    using assms by (simp add: take_bit_push_bit)
  finally show ?thesis by (simp add: take_bit_eq_mod dvd_eq_mod_eq_0)
qed

lemma low_zero_step:
  "k \<le> 64 \<Longrightarrow> low_zero_step (b, l) k = (if 2 ^ k dvd unat l then (b + of_nat k, drop_bit k l) else (b, l))"
  by (simp add: low_zero_step_def Let_def is_zero_w_value select_w_value push_bit_0_iff)

lemma low_zero_steps:
  "n \<le> 6 \<Longrightarrow> \<not> 2 ^ 2 ^ n dvd unat l \<Longrightarrow>
   \<exists>s < 2 ^ n. fst (foldl low_zero_step (b, l) (map ((^) 2) (rev [0..<n]))) = b + of_nat s \<and> ends_in_zeros s (unat l)"
proof (induction n arbitrary: b l)
  case (Suc n)
  let ?k = "2 ^ n :: nat"
  have "?k \<le> 64" using Suc.prems(1) power_increasing [of n 6 "2 :: nat"] by simp
  note st = low_zero_step [OF this, of b l]
  have "foldl low_zero_step (b, l) (map ((^) 2) (rev [0..<Suc n])) =
      foldl low_zero_step (low_zero_step (b, l) ?k) (map ((^) 2) (rev [0..<n]))" by simp
  note fo = this [unfolded st]
  show ?case
  proof (cases "2 ^ ?k dvd unat l")
    case False
    with Suc.IH [of l b] Suc.prems(1) obtain s where "s < ?k"
      "fst (foldl low_zero_step (b, l) (map ((^) 2) (rev [0..<n]))) = b + of_nat s" "ends_in_zeros s (unat l)" by auto
    then show ?thesis unfolding fo using False by (intro exI [of _ s]) simp
  next
    case True
    have l: "unat l = 2 ^ ?k * unat (drop_bit ?k l)" unfolding unat_drop_div using True by simp
    have "\<not> 2 ^ ?k dvd unat (drop_bit ?k l)"
    proof
      assume "2 ^ ?k dvd unat (drop_bit ?k l)"
      then have "2 ^ ?k * 2 ^ ?k dvd unat l" unfolding l by (rule mult_dvd_mono [OF dvd_refl])
      then show False using Suc.prems(2) by (simp add: mult_2 power_add)
    qed
    with Suc.IH [of "drop_bit ?k l" "b + of_nat ?k"] Suc.prems(1) obtain s where s: "s < ?k"
      "fst (foldl low_zero_step (b + of_nat ?k, drop_bit ?k l) (map ((^) 2) (rev [0..<n]))) = b + of_nat ?k + of_nat s"
      "ends_in_zeros s (unat (drop_bit ?k l))" by auto
    have "ends_in_zeros (?k + s) (unat l)" using s(3) l by (simp add: ends_in_zeros_def power_add)
    then show ?thesis unfolding fo using True s(1,2)
      by (intro exI [of _ "?k + s"]) (simp add: add.assoc)
  qed
qed (simp add: ends_in_zeros_def)

lemma low_zero_bits_word:
  assumes "l \<noteq> 0"
  shows "\<exists>s < 64. bn_count_low_zero_bits_word l = of_nat s \<and> ends_in_zeros s (unat l)"
proof -
  have "\<not> 2 ^ 2 ^ 6 dvd unat l"
  proof
    assume "2 ^ 2 ^ 6 dvd unat l"
    then have "2 ^ 2 ^ 6 \<le> unat l" using assms by (intro dvd_imp_le) (simp_all add: unat_gt_0)
    then show False using unat_lt_len [of l] by simp
  qed
  then show ?thesis using low_zero_steps [of 6 l 0] unfolding bn_count_low_zero_bits_word_def steps_of_two by simp
qed

lemma ends_in_zeros_shift:
  "ends_in_zeros r u \<Longrightarrow> ends_in_zeros (n + r) (2 ^ n * u)"
  by (simp add: ends_in_zeros_def power_add)

lemma ends_in_zeros_add:
  assumes "ends_in_zeros r v" "r < n"
  shows "ends_in_zeros r (v + 2 ^ n * u)"
proof -
  obtain m where "n = r + Suc m" using assms(2) less_iff_Suc_add by auto
  then have e: "2 ^ n * u = 2 ^ r * (2 * (2 ^ m * u))" by (simp add: power_add)
  obtain c where "v = 2 ^ r * c" using assms(1) by (auto simp: ends_in_zeros_def)
  then have "v + 2 ^ n * u = 2 ^ r * (c + 2 * (2 ^ m * u))" "odd c" "v div 2 ^ r = c"
    using assms(1) by (simp_all add: e ends_in_zeros_def distrib_left)
  then show ?thesis by (simp add: ends_in_zeros_def)
qed

lemma low_zero_words:
  "i \<le> length d \<Longrightarrow> i < 2 ^ 56 \<Longrightarrow>
   (if bn_val (take i d) = 0 then foldl (low_zero_word d) (0, 0) [0..<i] = (0, 0)
    else \<exists>r < 64 * i. foldl (low_zero_word d) (0, 0) [0..<i] = (of_nat r, - 1) \<and> ends_in_zeros r (bn_val (take i d)))"
proof (induction i)
  case (Suc i)
  let ?v = "bn_val (take i d)"
  have st: "low_zero_word d (r, s) i = (if s = 0 then if d ! i = 0 then (r, 0)
      else (r OR (of_nat i * 64 + bn_count_low_zero_bits_word (d ! i)), - 1) else (r, - 1))" if "s = 0 \<or> s = - 1" for r s
    using that by (auto simp: low_zero_word_def Let_def is_zero_w_value)
  have v: "bn_val (take (Suc i) d) = ?v + 2 ^ (64 * i) * unat (d ! i)"
    using Suc.prems(1) radix_power [of i] by (simp add: take_Suc_conv_app_nth bn_val_append min_absorb2)
  show ?case
  proof (cases "?v = 0")
    case True
    then have ih: "foldl (low_zero_word d) (0, 0) [0..<i] = (0, 0)" using Suc by simp
    show ?thesis
    proof (cases "d ! i = 0")
      case False
      then obtain s where s: "s < 64" "bn_count_low_zero_bits_word (d ! i) = of_nat s" "ends_in_zeros s (unat (d ! i))"
        using low_zero_bits_word by blast
      have "ends_in_zeros (64 * i + s) (bn_val (take (Suc i) d))"
        using ends_in_zeros_shift [OF s(3)] v True by simp
      moreover have "foldl (low_zero_word d) (0, 0) [0..<Suc i] = (of_nat (64 * i + s), - 1)"
        using ih st [of 0 0] s(2) False by (simp add: mult.commute)
      moreover have "bn_val (take (Suc i) d) \<noteq> 0" using v False by (simp add: unat_eq_zero)
      ultimately show ?thesis using s(1) by (auto intro!: exI [of _ "64 * i + s"] simp del: of_nat_add)
    qed (use ih st [of 0 0] v True in simp)
  next
    case False
    then obtain r where r: "r < 64 * i" "foldl (low_zero_word d) (0, 0) [0..<i] = (of_nat r, - 1)" "ends_in_zeros r ?v"
      using Suc by auto
    then have "ends_in_zeros r (bn_val (take (Suc i) d))" using ends_in_zeros_add [OF r(3,1)] v by simp
    moreover have "foldl (low_zero_word d) (0, 0) [0..<Suc i] = (of_nat r, - 1)"
      using r(2) st [of "- 1" "of_nat r"] by simp
    moreover have "bn_val (take (Suc i) d) \<noteq> 0" using v False by simp
    ultimately show ?thesis using r(1) by (intro if_not_P [THEN iffD2] exI [of _ r]) simp_all
  qed
qed simp

lemma BN_count_low_zero_bits_value:
  assumes "bn_mem bn"
  shows "if bn_abs bn = 0 then BN_count_low_zero_bits bn = 0 else ends_in_zeros (BN_count_low_zero_bits bn) (bn_abs bn)"
proof -
  have le: "bn_width bn \<le> length (bn_d bn)" and w: "bn_width bn < 2 ^ 56"
    using assms by (simp_all add: bn_mem_def INT_MAX_def)
  note lz = low_zero_words [OF le w, folded bn_words_def bn_abs_def]
  show ?thesis
  proof (cases "bn_abs bn = 0")
    case False
    then obtain r where r: "r < 64 * bn_width bn"
      "foldl (low_zero_word (bn_d bn)) (0, 0) [0..<bn_width bn] = (of_nat r, - 1)" "ends_in_zeros r (bn_abs bn)"
      using lz by auto
    have "unat (of_nat r :: u64) = r" using r(1) w by (intro unat_of_nat_small) simp
    then show ?thesis using r(2,3) False by (simp add: BN_count_low_zero_bits_def)
  qed (use lz in \<open>simp add: BN_count_low_zero_bits_def\<close>)
qed

lemma shift_refused:
  "n < 0 \<Longrightarrow> \<not> fst (BN_lshift malloc r a n) \<and> \<not> fst (BN_rshift malloc r a n) \<and> \<not> fst (BN_set_bit malloc a n) \<and>
     \<not> fst (BN_clear_bit a n) \<and> \<not> BN_is_bit_set a n \<and> \<not> fst (BN_mask_bits a n)"
  by (simp add: BN_lshift_def BN_rshift_def BN_set_bit_def BN_clear_bit_def BN_is_bit_set_def BN_mask_bits_def)

lemma BN_num_bytes_value:
  assumes "bn_mem bn"
  shows "bn_abs bn < 256 ^ BN_num_bytes bn"
proof -
  have "bn_abs bn < 2 ^ BN_num_bits bn" using BN_num_bits_value [OF assms] by (auto split: if_splits)
  also have "BN_num_bits bn \<le> 8 * BN_num_bytes bn" unfolding BN_num_bytes_def by arith
  then have "(2 :: nat) ^ BN_num_bits bn \<le> 2 ^ (8 * BN_num_bytes bn)" by (intro power_increasing) simp_all
  also have "\<dots> = (2 ^ 8) ^ BN_num_bytes bn" by (simp only: power_mult)
  finally show ?thesis by simp
qed

lemma BN_num_bytes_least:
  assumes "bn_mem bn" "bn_abs bn < 256 ^ k"
  shows "BN_num_bytes bn \<le> k"
proof (cases "bn_abs bn = 0")
  case True
  then show ?thesis using BN_num_bits_value [OF assms(1)] by (simp add: BN_num_bytes_def)
next
  case False
  have "(256 :: nat) ^ k = (2 ^ 8) ^ k" by simp
  then have p: "(256 :: nat) ^ k = 2 ^ (8 * k)" by (simp only: power_mult)
  have "2 ^ (BN_num_bits bn - 1) \<le> bn_abs bn" using BN_num_bits_value [OF assms(1)] False by simp
  with assms(2) have "(2 :: nat) ^ (BN_num_bits bn - 1) < 2 ^ (8 * k)" unfolding p by (rule le_less_trans [rotated])
  then have "BN_num_bits bn - 1 < 8 * k" by (rule power_less_imp_less_exp [rotated]) simp
  then show ?thesis unfolding BN_num_bytes_def by arith
qed

text \<open>
  C37. \<open>BN_lshift\<close> and \<open>BN_lshift1\<close> multiply the integer by the power of two exactly, \<open>BN_rshift\<close> and
  \<open>BN_rshift1\<close> divide its absolute value and round towards zero, and the result is again well-formed;
  a negative count is refused, and otherwise they fail only if the result object cannot be enlarged to
  the words of the result.
\<close>

theorem bn_shifts_exact:
  assumes "bn_malloc_ok malloc" "bn_wf r" "bn_wf a"
  shows "(case BN_lshift malloc r a n of (ok, x) \<Rightarrow>
      ok = (0 \<le> n \<and> bn_room malloc r (bn_width a + nat n div 64 + 1)) \<and>
      (ok \<longrightarrow> bn_wf x \<and> bn_minimal x \<and> bn_int x = bn_int a * 2 ^ nat n)) \<and>
    (case BN_lshift1 malloc r a of (ok, x) \<Rightarrow>
      ok = bn_room malloc r (bn_width a + 1) \<and> (ok \<longrightarrow> bn_wf x \<and> bn_int x = bn_int a * 2)) \<and>
    (case BN_rshift malloc r a n of (ok, x) \<Rightarrow>
      ok = (0 \<le> n \<and> bn_room malloc r (bn_width a)) \<and>
      (ok \<longrightarrow> bn_wf x \<and> bn_minimal x \<and> bn_int x = sgn (bn_int a) * (\<bar>bn_int a\<bar> div 2 ^ nat n))) \<and>
    (case BN_rshift1 malloc r a of (ok, x) \<Rightarrow>
      ok = bn_room malloc r (bn_width a) \<and>
      (ok \<longrightarrow> bn_wf x \<and> bn_minimal x \<and> bn_int x = sgn (bn_int a) * (\<bar>bn_int a\<bar> div 2)))"
proof -
  note m = bn_wf_mem [OF assms(2)]
  have q: "bn_int x = sgn (bn_int a) * (\<bar>bn_int a\<bar> div 2 ^ k)"
    if "bn_abs x = bn_abs a div 2 ^ k" "bn_neg x = (bn_neg a \<and> bn_abs x \<noteq> 0)" for x k
  proof -
    have "int (bn_abs x) = int (bn_abs a) div 2 ^ k" using that(1) by (simp add: zdiv_int)
    then show ?thesis using that(2) assms(3) by (auto simp: bn_int_def bn_wf_def sgn_if)
  qed
  have l: "fst (BN_lshift malloc r a n) = (0 \<le> n \<and> bn_room malloc r (bn_width a + nat n div 64 + 1)) \<and>
      (fst (BN_lshift malloc r a n) \<longrightarrow> bn_wf (snd (BN_lshift malloc r a n)) \<and> bn_minimal (snd (BN_lshift malloc r a n)) \<and>
         bn_int (snd (BN_lshift malloc r a n)) = bn_int a * 2 ^ nat n)"
    using BN_lshift_value [OF assms(1) m assms(3) _ prod.collapse [symmetric], of n] shift_refused [of n malloc r a]
    by (cases "n < 0") simp_all
  have r: "fst (BN_rshift malloc r a n) = (0 \<le> n \<and> bn_room malloc r (bn_width a)) \<and>
      (fst (BN_rshift malloc r a n) \<longrightarrow> bn_wf (snd (BN_rshift malloc r a n)) \<and> bn_minimal (snd (BN_rshift malloc r a n)) \<and>
         bn_int (snd (BN_rshift malloc r a n)) = sgn (bn_int a) * (\<bar>bn_int a\<bar> div 2 ^ nat n))"
    using BN_rshift_value [OF assms(1) m assms(3) _ prod.collapse [symmetric], of n] shift_refused [of n malloc r a]
      q [of "snd (BN_rshift malloc r a n)" "nat n"]
    by (cases "n < 0") simp_all
  show ?thesis unfolding split_beta
    using l r BN_lshift1_value [OF assms(1) m assms(3) prod.collapse [symmetric]]
      BN_rshift1_value [OF assms(1) m assms(3) prod.collapse [symmetric]] q [of "snd (BN_rshift1 malloc r a)" 1]
    by (intro conjI) simp_all
qed

lemma bn_shifts_exact_witness:
  "BN_lshift word_malloc (bn_of [] 3 False) (bn_of [0x8000000000000001] 0 True) 65 =
     (True, \<lparr>bn_d = [0, 2, 1], bn_width = 3, bn_dmax = 3, bn_neg = True, bn_static = False\<rparr>) \<and>
   (case BN_rshift word_malloc (bn_of [] 3 False) (bn_of [0x8000000000000001] 0 True) 1 of (ok, x) \<Rightarrow>
      ok \<and> bn_int x = - (2 ^ 62)) \<and>
   (case BN_lshift1 word_malloc (bn_of [] 3 False) (bn_of [0x8000000000000001] 0 True) of (ok, x) \<Rightarrow>
      ok \<and> bn_int x = - (2 ^ 64) - 2) \<and>
   \<not> fst (BN_rshift word_malloc (bn_of [] 3 False) (bn_of [0x8000000000000001] 0 True) (- 1))"
proof -
  let ?r = "bn_of [] 3 False" and ?a = "bn_of [0x8000000000000001] 0 True"
  have wf: "bn_wf ?r" "bn_wf ?a"
    by (simp_all add: bn_of_def bn_wf_def bn_mem_def bn_abs_def bn_words_def INT_MAX_def)
  have v: "bn_int ?a = - (2 ^ 63) - 1" by (simp add: bn_of_def bn_int_def bn_abs_def bn_words_def)
  have eval: "BN_lshift word_malloc ?r ?a 65 =
     (True, \<lparr>bn_d = [0, 2, 1], bn_width = 3, bn_dmax = 3, bn_neg = True, bn_static = False\<rparr>)"
    by code_simp
  have room: "bn_room word_malloc ?r (bn_width ?a + 1)" "bn_room word_malloc ?r (bn_width ?a)"
    by (simp_all add: bn_room_def bn_of_def)
  note s = bn_shifts_exact [OF word_malloc_ok wf, of 1] and s' = bn_shifts_exact [OF word_malloc_ok wf, of "- 1"]
  show ?thesis
  proof (intro conjI)
    show "\<not> fst (BN_rshift word_malloc ?r ?a (- 1))" using s' by (simp add: split_beta)
    show "case BN_rshift word_malloc ?r ?a 1 of (ok, x) \<Rightarrow> ok \<and> bn_int x = - (2 ^ 62)"
      using s room v by (simp add: split_beta)
    show "case BN_lshift1 word_malloc ?r ?a of (ok, x) \<Rightarrow> ok \<and> bn_int x = - (2 ^ 64) - 2"
      using s room v by (simp add: split_beta)
  qed (rule eval)
qed

text \<open>
  C38. The functions on bits agree with the binary expansion of the absolute value: \<open>BN_set_bit\<close>,
  \<open>BN_clear_bit\<close> and \<open>BN_mask_bits\<close> change exactly the bits they name and keep the number well-formed
  (\<open>BN_clear_bit\<close> reports failure for a bit beyond the words the number has), \<open>BN_is_bit_set\<close> reads a bit,
  \<open>BN_num_bits\<close> and \<open>BN_num_bytes\<close> are the least lengths that hold the number, and
  \<open>BN_count_low_zero_bits\<close>, which looks at every word, is the exponent of the largest power of two that
  divides it.
\<close>

theorem bn_bits_exact:
  assumes "bn_malloc_ok malloc" "bn_wf a" "0 \<le> n"
  shows "(case BN_set_bit malloc a n of (ok, x) \<Rightarrow>
      (ok \<longleftrightarrow> nat n div 64 < bn_width a \<or> bn_room malloc a (nat n div 64 + 1)) \<and>
      (ok \<longrightarrow> bn_wf x \<and> bn_abs x = set_bit (nat n) (bn_abs a) \<and> bn_neg x = bn_neg a)) \<and>
    (case BN_clear_bit a n of (ok, x) \<Rightarrow>
      (ok \<longleftrightarrow> nat n div 64 < bn_width a) \<and> (\<not> ok \<longrightarrow> x = a) \<and>
      (ok \<longrightarrow> bn_wf x \<and> bn_abs x = unset_bit (nat n) (bn_abs a) \<and> bn_neg x = (bn_neg a \<and> bn_abs x \<noteq> 0))) \<and>
    (case BN_mask_bits a n of (ok, x) \<Rightarrow>
      ok \<and> bn_wf x \<and> bn_abs x = bn_abs a mod 2 ^ nat n \<and> bn_neg x = (bn_neg a \<and> bn_abs x \<noteq> 0)) \<and>
    (BN_is_bit_set a n \<longleftrightarrow> bit (bn_abs a) (nat n)) \<and>
    (\<forall>k. bn_abs a < 2 ^ k \<longleftrightarrow> BN_num_bits a \<le> k) \<and>
    (\<forall>k. bn_abs a < 256 ^ k \<longleftrightarrow> BN_num_bytes a \<le> k) \<and>
    (bn_abs a = 0 \<and> BN_count_low_zero_bits a = 0 \<or>
     2 ^ BN_count_low_zero_bits a dvd bn_abs a \<and> odd (bn_abs a div 2 ^ BN_count_low_zero_bits a))"
proof -
  note m = bn_wf_mem [OF assms(2)]
  have "bn_abs a < 2 ^ k \<longleftrightarrow> BN_num_bits a \<le> k" for k
  proof
    assume l: "bn_abs a < 2 ^ k"
    show "BN_num_bits a \<le> k"
    proof (cases "bn_abs a = 0")
      case False
      then have "2 ^ (BN_num_bits a - 1) \<le> bn_abs a" using BN_num_bits_value [OF m] by simp
      with l have "(2 :: nat) ^ (BN_num_bits a - 1) < 2 ^ k" by (rule le_less_trans [rotated])
      then have "BN_num_bits a - 1 < k" by (rule power_less_imp_less_exp [rotated]) simp
      then show ?thesis by arith
    qed (use BN_num_bits_value [OF m] in simp)
  next
    assume "BN_num_bits a \<le> k"
    then have "(2 :: nat) ^ BN_num_bits a \<le> 2 ^ k" by (intro power_increasing) simp_all
    then show "bn_abs a < 2 ^ k" using BN_num_bits_value [OF m] by (auto split: if_splits intro: less_le_trans)
  qed
  moreover have "bn_abs a < 256 ^ k \<longleftrightarrow> BN_num_bytes a \<le> k" for k
  proof
    assume "BN_num_bytes a \<le> k"
    then have "(256 :: nat) ^ BN_num_bytes a \<le> 256 ^ k" by (intro power_increasing) simp_all
    then show "bn_abs a < 256 ^ k" using BN_num_bytes_value [OF m] by (rule less_le_trans [rotated])
  qed (rule BN_num_bytes_least [OF m])
  moreover note set = BN_set_bit_value [OF assms prod.collapse [symmetric]]
  have "fst (BN_set_bit malloc a n) \<longleftrightarrow> nat n div 64 < bn_width a \<or> bn_room malloc a (nat n div 64 + 1)"
    using set not_less [of "nat n div 64" "bn_width a"] by blast
  moreover note clear = BN_clear_bit_value [OF assms(2,3) prod.collapse [symmetric]]
  moreover note msk = BN_mask_bits_value [OF assms(2,3) prod.collapse [symmetric], unfolded take_bit_eq_mod]
  moreover have "BN_is_bit_set a n \<longleftrightarrow> bit (bn_abs a) (nat n)" using bn_is_bit_set [OF m, of n] assms(3) by blast
  moreover have "bn_abs a = 0 \<and> BN_count_low_zero_bits a = 0 \<or>
     2 ^ BN_count_low_zero_bits a dvd bn_abs a \<and> odd (bn_abs a div 2 ^ BN_count_low_zero_bits a)"
    using BN_count_low_zero_bits_value [OF m] unfolding ends_in_zeros_def by (simp split: if_splits)
  ultimately show ?thesis unfolding split_beta using set by (intro conjI) blast+
qed

lemma odd_dvd_power: "odd v \<Longrightarrow> 2 ^ c dvd v \<Longrightarrow> c = (0 :: nat)"
  by (cases c) (auto dest: dvd_mult_left)

lemma bn_bits_exact_witness:
  "BN_set_bit word_malloc (bn_of [1] 2 True) 65 =
     (True, \<lparr>bn_d = [1, 2, 9], bn_width = 2, bn_dmax = 3, bn_neg = True, bn_static = False\<rparr>) \<and>
   BN_clear_bit (bn_of [1] 2 True) 65 = (False, bn_of [1] 2 True) \<and>
   BN_is_bit_set (bn_of [1, 2, 0] 0 False) 65 \<and>
   bn_abs (snd (BN_mask_bits (bn_of [1, 2, 0] 0 False) 65)) = 1 \<and>
   (\<forall>k. BN_num_bits (bn_of [1, 2, 0] 0 False) \<le> k \<longleftrightarrow> 2 ^ 65 + 1 < (2 :: nat) ^ k) \<and>
   BN_num_bits (bn_of [1, 2, 0] 0 False) = 66 \<and>
   BN_count_low_zero_bits (bn_of [1, 2, 0] 0 False) = 0"
proof -
  let ?a = "bn_of [1] 2 True" and ?b = "bn_of [1, 2, 0] 0 False"
  have wf: "bn_wf ?a" "bn_wf ?b"
    by (simp_all add: bn_of_def bn_wf_def bn_mem_def bn_abs_def bn_words_def INT_MAX_def)
  have v: "bn_abs ?b = 2 ^ 65 + 1" by (simp add: bn_of_def bn_abs_def bn_words_def radix_def)
  have eval: "BN_set_bit word_malloc ?a 65 =
     (True, \<lparr>bn_d = [1, 2, 9], bn_width = 2, bn_dmax = 3, bn_neg = True, bn_static = False\<rparr>)"
    "BN_is_bit_set ?b 65"
    by code_simp+
  have n: "0 \<le> (65 :: int)" by simp
  note a = bn_bits_exact [OF word_malloc_ok wf(1) n] and b = bn_bits_exact [OF word_malloc_ok wf(2) n]
  have "\<not> nat 65 div 64 < bn_width ?a" by (simp add: bn_of_def)
  then have "BN_clear_bit ?a 65 = (False, ?a)" using a by (auto simp: split_beta prod_eq_iff)
  moreover have "bn_abs (snd (BN_mask_bits ?b 65)) = 1" using b v by (simp add: split_beta)
  moreover have "BN_num_bits ?b \<le> k \<longleftrightarrow> 2 ^ 65 + 1 < (2 :: nat) ^ k" for k using b v by simp
  moreover from this [of 65] this [of 66] have "BN_num_bits ?b = 66" by simp
  moreover have odd: "odd (bn_abs ?b)" unfolding v by simp
  then have nz: "bn_abs ?b \<noteq> 0" by (intro notI) simp
  note low = b [THEN conjunct2, THEN conjunct2, THEN conjunct2, THEN conjunct2, THEN conjunct2, THEN conjunct2]
  have "2 ^ BN_count_low_zero_bits ?b dvd bn_abs ?b"
    using low nz by blast
  from odd_dvd_power [OF odd this] have "BN_count_low_zero_bits ?b = 0" .
  ultimately show ?thesis using eval by (simp only: simp_thms)
qed

end
