(* ===== verification/BnMul.thy ===== *)
theory BnMul
  imports BnSquare BnCtx BnShift
begin

text \<open>
  \<open>BN_mul\<close>, \<open>BN_sqr\<close> and their variants in \<open>crypto/fipsmodule/bn/mul.c\<close>: the choice between the products
  of words, with the temporary numbers of a \<open>BN_CTX\<close>. \<open>same\<close> says that the result object is one of the
  arguments. The result \<open>None\<close> means that an assertion fails or a null pointer is followed. The words
  that stay in the scratch number \<open>t\<close> are not followed further: \<open>BN_CTX_get\<close> empties it before the
  next use.
\<close>

unbundle bit_operations_syntax

section \<open>Products\<close>

definition store_result :: "bignum \<Rightarrow> u64 list \<Rightarrow> nat \<Rightarrow> bignum" where
  "store_result rr ws width = rr\<lparr>bn_d := put_words (bn_d rr) 0 ws, bn_width := width\<rparr>"

text \<open>The body of \<open>bn_mul_impl\<close> from the choice of the method to the label \<open>end\<close>.\<close>

definition bn_mul_into ::
    "bn_malloc \<Rightarrow> (nat \<Rightarrow> bool) \<Rightarrow> bn_ctx \<Rightarrow> bignum \<Rightarrow> bignum \<Rightarrow> bignum \<Rightarrow> (bool \<times> bignum \<times> bn_ctx) option" where
  "bn_mul_into malloc alloc ctx rr a b =
     (let al = bn_width a;
          bl = bn_width b;
          i = int al - int bl;
          top = al + bl
      in if i = 0 \<and> al = 8 then
           (case bn_wexpand malloc rr 16 of
              (False, rr) \<Rightarrow> Some (False, rr, ctx)
            | (True, rr) \<Rightarrow> Some (True, store_result rr (bn_mul_comba8 (bn_d a) (bn_d b)) 16, ctx))
         else if al \<ge> 16 \<and> bl \<ge> 16 \<and> - 1 \<le> i \<and> i \<le> 1 then
           let j = (if i \<ge> 0 then BN_num_bits_word (of_nat al) else BN_num_bits_word (of_nat bl));
               j = 2 ^ (j - 1)
           in if \<not> (j \<le> al \<or> j \<le> bl) then None
              else
                (case BN_CTX_get alloc ctx of
                   (None, ctx) \<Rightarrow> Some (False, rr, ctx)
                 | (Some t, ctx) \<Rightarrow>
                     if al > j \<or> bl > j then
                       if \<not> (al \<ge> j \<and> bl \<ge> j) then None
                       else
                         (case bn_wexpand malloc (ctx_val ctx t) (j * 8) of
                            (False, tv) \<Rightarrow> Some (False, rr, ctx_put t tv ctx)
                          | (True, tv) \<Rightarrow>
                              (case bn_wexpand malloc rr (j * 4) of
                                 (False, rr) \<Rightarrow> Some (False, rr, ctx_put t tv ctx)
                               | (True, rr) \<Rightarrow>
                                   (case bn_mul_part_recursive (bn_d rr) (bn_d a) (bn_d b) j (int al - int j) (int bl - int j) of
                                      None \<Rightarrow> None
                                    | Some d \<Rightarrow> Some (True, rr\<lparr>bn_d := d, bn_width := top\<rparr>, ctx_put t tv ctx))))
                     else
                       (case bn_wexpand malloc (ctx_val ctx t) (j * 4) of
                          (False, tv) \<Rightarrow> Some (False, rr, ctx_put t tv ctx)
                        | (True, tv) \<Rightarrow>
                            (case bn_wexpand malloc rr (j * 2) of
                               (False, rr) \<Rightarrow> Some (False, rr, ctx_put t tv ctx)
                             | (True, rr) \<Rightarrow>
                                 (case bn_mul_recursive (bn_d a) (bn_d b) j (int al - int j) (int bl - int j) of
                                    None \<Rightarrow> None
                                  | Some ws \<Rightarrow> Some (True, store_result rr ws top, ctx_put t tv ctx)))))
         else
           (case bn_wexpand malloc rr top of
              (False, rr) \<Rightarrow> Some (False, rr, ctx)
            | (True, rr) \<Rightarrow> Some (True, store_result rr (bn_mul_normal (bn_d a) al (bn_d b) bl) top, ctx)))"

text \<open>The check after \<open>BN_CTX_get\<close> looks at \<open>r\<close> instead of \<open>rr\<close>, which is then written through.\<close>

definition bn_mul_impl ::
    "bn_malloc \<Rightarrow> (nat \<Rightarrow> bool) \<Rightarrow> bn_ctx \<Rightarrow> bignum \<Rightarrow> bool \<Rightarrow> bignum \<Rightarrow> bignum \<Rightarrow> (bool \<times> bignum \<times> bn_ctx) option" where
  "bn_mul_impl malloc alloc ctx r same a b =
     (if bn_width a = 0 \<or> bn_width b = 0 then Some (True, BN_zero r, ctx)
      else
        let ctx = BN_CTX_start alloc ctx;
            neg = (bn_neg a \<noteq> bn_neg b)
        in if same then
             (case BN_CTX_get alloc ctx of
                (None, ctx) \<Rightarrow> None
              | (Some i, ctx) \<Rightarrow>
                  (case bn_mul_into malloc alloc ctx (ctx_val ctx i\<lparr>bn_neg := neg\<rparr>) a b of
                     None \<Rightarrow> None
                   | Some (ok, rr, ctx) \<Rightarrow>
                       let (ok, r) = (if ok then BN_copy malloc r rr else (False, r))
                       in Some (ok, r, BN_CTX_end (ctx_put i rr ctx))))
           else
             (case bn_mul_into malloc alloc ctx (r\<lparr>bn_neg := neg\<rparr>) a b of
                None \<Rightarrow> None
              | Some (ok, r, ctx) \<Rightarrow> Some (ok, r, BN_CTX_end ctx)))"

definition BN_mul ::
    "bn_malloc \<Rightarrow> (nat \<Rightarrow> bool) \<Rightarrow> bn_ctx \<Rightarrow> bignum \<Rightarrow> bool \<Rightarrow> bignum \<Rightarrow> bignum \<Rightarrow> (bool \<times> bignum \<times> bn_ctx) option" where
  "BN_mul malloc alloc ctx r same a b =
     (case bn_mul_impl malloc alloc ctx r same a b of
        None \<Rightarrow> None
      | Some (False, r, ctx) \<Rightarrow> Some (False, r, ctx)
      | Some (True, r, ctx) \<Rightarrow> Some (True, bn_set_minimal_width r, ctx))"

definition bn_mul_consttime ::
    "bn_malloc \<Rightarrow> (nat \<Rightarrow> bool) \<Rightarrow> bn_ctx \<Rightarrow> bignum \<Rightarrow> bool \<Rightarrow> bignum \<Rightarrow> bignum \<Rightarrow> (bool \<times> bignum \<times> bn_ctx) option" where
  "bn_mul_consttime malloc alloc ctx r same a b =
     (if bn_neg a \<or> bn_neg b then Some (False, r, ctx) else bn_mul_impl malloc alloc ctx r same a b)"

definition bn_mul_small :: "nat \<Rightarrow> u64 list \<Rightarrow> nat \<Rightarrow> u64 list \<Rightarrow> nat \<Rightarrow> u64 list option" where
  "bn_mul_small num_r a num_a b num_b =
     (if num_r \<noteq> num_a + num_b then None
      else if num_a = 8 \<and> num_b = 8 then Some (bn_mul_comba8 a b)
      else Some (bn_mul_normal a num_a b num_b))"

section \<open>Squares\<close>

definition BN_SMALL_MAX_WORDS :: nat where
  "BN_SMALL_MAX_WORDS = 9"

text \<open>The body of \<open>bn_sqr_consttime\<close> between the allocation of \<open>rr\<close> and the end.\<close>

definition bn_sqr_words_into :: "bn_malloc \<Rightarrow> bn_ctx \<Rightarrow> nat \<Rightarrow> bignum \<Rightarrow> bignum \<Rightarrow> (bool \<times> bignum \<times> bn_ctx) option" where
  "bn_sqr_words_into malloc ctx tmp rr a =
     (let al = bn_width a;
          mx = 2 * al;
          put = (\<lambda>ws. rr\<lparr>bn_d := put_words (bn_d rr) 0 ws, bn_width := mx, bn_neg := False\<rparr>)
      in if al = 4 then Some (True, put (bn_sqr_comba4 (bn_d a)), ctx)
         else if al = 8 then Some (True, put (bn_sqr_comba8 (bn_d a)), ctx)
         else if al < 16 then Some (True, put (bn_sqr_normal (bn_d a) al), ctx)
         else if al \<noteq> 0 \<and> al AND (al - 1) = 0 then
           (case bn_wexpand malloc (ctx_val ctx tmp) (al * 4) of
              (False, tv) \<Rightarrow> Some (False, rr, ctx_put tmp tv ctx)
            | (True, tv) \<Rightarrow>
                (case bn_sqr_recursive (bn_d a) al of
                   None \<Rightarrow> None
                 | Some ws \<Rightarrow> Some (True, put ws, ctx_put tmp tv ctx)))
         else
           (case bn_wexpand malloc (ctx_val ctx tmp) mx of
              (False, tv) \<Rightarrow> Some (False, rr, ctx_put tmp tv ctx)
            | (True, tv) \<Rightarrow> Some (True, put (bn_sqr_normal (bn_d a) al), ctx_put tmp tv ctx)))"

definition bn_sqr_consttime ::
    "bn_malloc \<Rightarrow> (nat \<Rightarrow> bool) \<Rightarrow> bn_ctx \<Rightarrow> bignum \<Rightarrow> bool \<Rightarrow> bignum \<Rightarrow> (bool \<times> bignum \<times> bn_ctx) option" where
  "bn_sqr_consttime malloc alloc ctx r same a =
     (if bn_width a = 0 then Some (True, r\<lparr>bn_width := 0, bn_neg := False\<rparr>, ctx)
      else
        let ctx = BN_CTX_start alloc ctx;
            (rr, ctx) = (if same then BN_CTX_get alloc ctx else (None, ctx));
            (tmp, ctx) = BN_CTX_get alloc ctx
        in (case (if same then map_option (ctx_val ctx) rr else Some r, tmp) of
              (Some rv, Some tmp) \<Rightarrow>
                (case bn_wexpand malloc rv (2 * bn_width a) of
                   (False, rv) \<Rightarrow>
                     (case rr of
                        None \<Rightarrow> Some (False, rv, BN_CTX_end ctx)
                      | Some i \<Rightarrow> Some (False, r, BN_CTX_end (ctx_put i rv ctx)))
                 | (True, rv) \<Rightarrow>
                     (case bn_sqr_words_into malloc ctx tmp rv a of
                        None \<Rightarrow> None
                      | Some (ok, rv, ctx) \<Rightarrow>
                          (case rr of
                             None \<Rightarrow> Some (ok, rv, BN_CTX_end ctx)
                           | Some i \<Rightarrow>
                               let (ok, r) = (if ok then BN_copy malloc r rv else (False, r))
                               in Some (ok, r, BN_CTX_end (ctx_put i rv ctx)))))
            | _ \<Rightarrow> Some (False, r, BN_CTX_end ctx)))"

definition BN_sqr ::
    "bn_malloc \<Rightarrow> (nat \<Rightarrow> bool) \<Rightarrow> bn_ctx \<Rightarrow> bignum \<Rightarrow> bool \<Rightarrow> bignum \<Rightarrow> (bool \<times> bignum \<times> bn_ctx) option" where
  "BN_sqr malloc alloc ctx r same a =
     (case bn_sqr_consttime malloc alloc ctx r same a of
        None \<Rightarrow> None
      | Some (False, r, ctx) \<Rightarrow> Some (False, r, ctx)
      | Some (True, r, ctx) \<Rightarrow> Some (True, bn_set_minimal_width r, ctx))"

definition bn_sqr_small :: "nat \<Rightarrow> u64 list \<Rightarrow> nat \<Rightarrow> u64 list option" where
  "bn_sqr_small num_r a num_a =
     (if num_r \<noteq> 2 * num_a \<or> num_a > BN_SMALL_MAX_WORDS then None
      else if num_a = 4 then Some (bn_sqr_comba4 a)
      else if num_a = 8 then Some (bn_sqr_comba8 a)
      else Some (bn_sqr_normal a num_a))"

section \<open>What the products compute\<close>

lemma copy_value:
  assumes "bn_malloc_ok malloc" "bn_mem dest" "bn_mem src" "BN_copy malloc dest src = (ok, x)"
  shows "bn_mem x \<and> bn_static x = bn_static dest \<and>
    (ok \<longrightarrow> bn_words x = bn_words src \<and> bn_width x = bn_width src \<and> bn_neg x = bn_neg src) \<and>
    ok = bn_room malloc dest (bn_width src)"
proof -
  obtain e y where e: "bn_wexpand malloc dest (bn_width src) = (e, y)" by fastforce
  note w = wexpand [OF assms(1,2) e]
  show ?thesis
  proof (cases e)
    case False
    then show ?thesis using assms(4) w e assms(2) by (simp add: BN_copy_def)
  next
    case True
    let ?ws = "take (bn_width src) (bn_d src)"
    have l: "length ?ws = bn_width src" using assms(3) by (simp add: bn_mem_def min_absorb2)
    have "x = y\<lparr>bn_d := put_words (bn_d y) 0 ?ws, bn_width := bn_width src, bn_neg := bn_neg src\<rparr>" "ok"
      using assms(4) True e by (simp_all add: BN_copy_def)
    then show ?thesis using store_words [of y ?ws] w l True by (simp add: bn_mem_def bn_words_def)
  qed
qed

lemma store_result_value:
  assumes "bn_mem rr" "length ws = n" "width \<le> n" "n \<le> bn_dmax rr"
  shows "bn_mem (store_result rr ws width)" "bn_words (store_result rr ws width) = take width ws"
  using assms by (simp_all add: store_result_def bn_mem_def bn_words_def put_words_def)

lemma take_value:
  assumes "bn_val ws < radix ^ k" "k \<le> length ws"
  shows "bn_val (take k ws) = bn_val ws"
proof -
  have v: "bn_val ws = bn_val (take k ws) + radix ^ k * bn_val (drop k ws)"
    by (rule split_words_value [OF le_add_diff_inverse [OF assms(2), symmetric]])
  have "bn_val (drop k ws) = 0"
  proof (rule ccontr)
    assume "bn_val (drop k ws) \<noteq> 0"
    then have "radix ^ k * 1 \<le> radix ^ k * bn_val (drop k ws)" by (intro mult_le_mono2) simp
    then show False using v assms(1) by linarith
  qed
  then show ?thesis using v by simp
qed

text \<open>A result object that holds the product of \<open>a\<close> and \<open>b\<close>, and the object before.\<close>

definition holds_product :: "bignum \<Rightarrow> bignum \<Rightarrow> bignum \<Rightarrow> bignum \<Rightarrow> bool" where
  "holds_product rr a b x \<longleftrightarrow> bn_width x = bn_width a + bn_width b \<and> bn_abs x = bn_abs a * bn_abs b \<and>
     bn_neg x = bn_neg rr"

lemma expand_store:
  assumes "bn_malloc_ok malloc" "bn_mem rr" "bn_wexpand malloc rr n = (True, y)"
    "length ws = n" "bn_width a + bn_width b \<le> n" "bn_val ws = bn_abs a * bn_abs b" "bn_mem a" "bn_mem b"
  shows "bn_mem (store_result y ws (bn_width a + bn_width b)) \<and>
    holds_product rr a b (store_result y ws (bn_width a + bn_width b)) \<and>
    bn_static (store_result y ws (bn_width a + bn_width b)) = bn_static rr"
proof -
  let ?x = "store_result y ws (bn_width a + bn_width b)"
  note w = wexpand [OF assms(1-3)]
  have s: "bn_mem ?x" "bn_words ?x = take (bn_width a + bn_width b) ws"
    using store_result_value [of y ws n "bn_width a + bn_width b"] w assms(4,5) by simp_all
  have "bn_val ws < radix ^ (bn_width a + bn_width b)"
    unfolding assms(6) bn_abs_def by (rule product_fits) (use assms(7,8) in simp_all)
  then have "bn_abs ?x = bn_abs a * bn_abs b" using take_value s(2) assms(4,5,6) by (simp add: bn_abs_def)
  then show ?thesis using s w by (simp add: holds_product_def store_result_def)
qed

text \<open>Enough memory for everything, and a context that can give a number.\<close>

definition ample :: "bn_malloc \<Rightarrow> (nat \<Rightarrow> bool) \<Rightarrow> bool" where
  "ample malloc alloc \<longleftrightarrow> (\<forall>sz. malloc sz \<noteq> None) \<and> (\<forall>n. alloc n)"

lemma ample_room: "ample malloc alloc \<Longrightarrow> \<not> bn_static bn \<Longrightarrow> n \<le> INT_MAX div (4 * 64) \<Longrightarrow> bn_room malloc bn n"
  by (simp add: bn_room_def ample_def)

lemma ample_get:
  assumes "ample malloc alloc" "ctx_err_stack c = 0" "\<not> ctx_too_many c"
  shows "fst (BN_CTX_get alloc c) \<noteq> None"
proof -
  have "fst (BN_POOL_get alloc (ctx_pool c)) \<noteq> None" using assms(1) by (simp add: BN_POOL_get_def ample_def Let_def)
  then show ?thesis using assms(2,3) by (auto simp: BN_CTX_get_def Let_def split: prod.splits option.splits)
qed

lemma leading_power:
  assumes "16 \<le> m" "m < 2 ^ 32" "j = 2 ^ (BN_num_bits_word (of_nat m) - 1)"
  shows "\<exists>k. j = 2 ^ k \<and> 4 \<le> k \<and> j \<le> m \<and> m < 2 * j"
proof -
  let ?B = "BN_num_bits_word (of_nat m)"
  have u: "unat (of_nat m :: u64) = m" using assms(2) by (intro unat_of_nat_small) simp
  then have b: "0 < ?B" "2 ^ (?B - 1) \<le> m" "m < 2 ^ ?B" using num_bits_word [of "of_nat m"] assms(1) by auto
  then obtain k where k: "?B = Suc k" by (cases ?B) auto
  have "4 \<le> k"
  proof (rule ccontr)
    assume "\<not> 4 \<le> k"
    then have "(2 :: nat) ^ Suc k \<le> 2 ^ 4" by (intro power_increasing) simp_all
    then show False using b(3) assms(1) unfolding k by simp
  qed
  then show ?thesis using b assms(3) unfolding k by auto
qed

lemma ctx_got:
  assumes "ctx_ok c" "BN_CTX_get alloc c = (Some i, c')"
  shows "i = ctx_used c" "bn_mem (ctx_val c' i)" "\<not> bn_static (ctx_val c' i)" "ctx_ok c'" "ctx_used c' = Suc i"
    "ctx_err_stack c' = ctx_err_stack c" "ctx_too_many c' = ctx_too_many c"
  using ctx_get [OF assms] unfolding bn_wf_def option.case by blast+

lemma scratch_inside:
  assumes "bn_malloc_ok malloc" "ctx_inside base s c" "base \<le> ctx_used s" "BN_CTX_get alloc c = (Some t, c')"
    "bn_wexpand malloc (ctx_val c' t) n = (e, tv)"
  shows "ctx_inside base s (ctx_put t tv c') \<and> (\<forall>i < ctx_used c. ctx_val (ctx_put t tv c') i = ctx_val c i) \<and>
    (ample malloc alloc \<longrightarrow> n \<le> INT_MAX div (4 * 64) \<longrightarrow> e)"
proof -
  have ok: "ctx_ok c" "ctx_used s \<le> ctx_used c" using assms(2) by (simp_all add: ctx_inside_def)
  note g = ctx_get [OF ok(1) assms(4)]
  note t = ctx_got [OF ok(1) assms(4)]
  note w = wexpand [OF assms(1) t(2) assms(5)]
  have "ctx_inside base s (ctx_put t tv c')"
    by (rule inside_put [OF inside_get [OF assms(2,3,4)]]) (use t w ok(2) assms(3) in simp_all)
  then show ?thesis using g t w ample_room [OF _ t(3)] by auto
qed

lemma mul_into_value:
  assumes "bn_malloc_ok malloc" "ctx_inside base s c" "base \<le> ctx_used s" "bn_mem rr" "bn_mem a" "bn_mem b"
  shows "\<exists>ok x c'. bn_mul_into malloc alloc c rr a b = Some (ok, x, c') \<and> bn_mem x \<and> bn_static x = bn_static rr \<and>
    ctx_inside base s c' \<and> (\<forall>i < ctx_used c. ctx_val c' i = ctx_val c i) \<and> (ok \<longrightarrow> holds_product rr a b x) \<and>
    (ample malloc alloc \<longrightarrow> ctx_err_stack c = 0 \<longrightarrow> \<not> ctx_too_many c \<longrightarrow> \<not> bn_static rr \<longrightarrow>
     8 * (bn_width a + bn_width b) \<le> INT_MAX div (4 * 64) \<longrightarrow> ok)"
    (is "\<exists>ok x c'. ?call = Some (ok, x, c') \<and> ?post ok x c'")
proof -
  let ?al = "bn_width a" and ?bl = "bn_width b" and ?n = "bn_width a + bn_width b"
  have la: "?al \<le> length (bn_d a)" "?bl \<le> length (bn_d b)" and small: "?al < 2 ^ 32" "?bl < 2 ^ 32"
    using assms(5,6) by (simp_all add: bn_mem_def INT_MAX_def)
  have room: "ample malloc alloc \<longrightarrow> \<not> bn_static rr \<longrightarrow> 8 * ?n \<le> INT_MAX div (4 * 64) \<longrightarrow> k \<le> 8 * ?n \<longrightarrow> bn_room malloc rr k" for k
    using ample_room [of malloc alloc rr k] by simp
  have direct: "?thesis"
    if ws: "length ws = ?n" "bn_val ws = bn_abs a * bn_abs b"
      and call: "?call = (case bn_wexpand malloc rr ?n of
         (False, rr) \<Rightarrow> Some (False, rr, c) | (True, rr) \<Rightarrow> Some (True, store_result rr ws ?n, c))" for ws
  proof -
    obtain e y where e: "bn_wexpand malloc rr ?n = (e, y)" by fastforce
    note w = wexpand [OF assms(1,4) e]
    show ?thesis
    proof (cases e)
      case True
      then show ?thesis using expand_store [OF assms(1,4) _ ws(1) order_refl ws(2) assms(5,6), of y] e call assms(2)
        by (intro exI [of _ True] exI [of _ "store_result y ws ?n"] exI [of _ c]) simp
    next
      case False
      then show ?thesis using w room [of ?n] e call assms(2,4) by auto
    qed
  qed
  consider "?al = ?bl" "?al = 8" | "\<not> (?al = ?bl \<and> ?al = 8)" "16 \<le> ?al" "16 \<le> ?bl" "?al \<le> ?bl + 1" "?bl \<le> ?al + 1"
    | "\<not> (?al = ?bl \<and> ?al = 8)" "\<not> (16 \<le> ?al \<and> 16 \<le> ?bl \<and> ?al \<le> ?bl + 1 \<and> ?bl \<le> ?al + 1)" by blast
  then show ?thesis
  proof cases
    case 1
    then have n16: "?n = 16" by simp
    show ?thesis
    proof (rule direct)
      show "length (bn_mul_comba8 (bn_d a) (bn_d b)) = ?n" "bn_val (bn_mul_comba8 (bn_d a) (bn_d b)) = bn_abs a * bn_abs b"
        using mul_comba8_prefix [of "bn_d a" "bn_d b"] la 1 by (simp_all add: bn_abs_def bn_words_def)
      show "?call = (case bn_wexpand malloc rr ?n of (False, rr) \<Rightarrow> Some (False, rr, c)
          | (True, rr) \<Rightarrow> Some (True, store_result rr (bn_mul_comba8 (bn_d a) (bn_d b)) ?n, c))"
        unfolding n16 using 1 by (simp add: bn_mul_into_def Let_def)
    qed
  next
    case 3
    show ?thesis
    proof (rule direct)
      show "length (bn_mul_normal (bn_d a) ?al (bn_d b) ?bl) = ?n"
        "bn_val (bn_mul_normal (bn_d a) ?al (bn_d b) ?bl) = bn_abs a * bn_abs b"
        using mul_normal_value [OF la] by (simp_all add: bn_abs_def bn_words_def)
      have c: "\<not> (int ?al - int ?bl = 0 \<and> ?al = 8)" "\<not> (?al \<ge> 16 \<and> ?bl \<ge> 16 \<and> - 1 \<le> int ?al - int ?bl \<and> int ?al - int ?bl \<le> 1)"
        using 3 by auto
      show "?call = (case bn_wexpand malloc rr ?n of (False, rr) \<Rightarrow> Some (False, rr, c)
          | (True, rr) \<Rightarrow> Some (True, store_result rr (bn_mul_normal (bn_d a) ?al (bn_d b) ?bl) ?n, c))"
        unfolding bn_mul_into_def Let_def using c by (simp only: if_False)
    qed
  next
    case 2
    define m where "m = (if int ?al - int ?bl \<ge> 0 then ?al else ?bl)"
    define j :: nat where "j = 2 ^ (BN_num_bits_word (of_nat m) - 1)"
    have m: "16 \<le> m" "m < 2 ^ 32" "?al \<le> m" "?bl \<le> m" "m \<le> ?al + 1" "m \<le> ?bl + 1" "m = ?al \<or> m = ?bl"
      using 2 small by (auto simp: m_def)
    obtain k where k: "j = 2 ^ k" "4 \<le> k" "j \<le> m" "m < 2 * j" using leading_power [OF m(1,2) j_def] by blast
    have jj: "2 ^ ((if int ?al - int ?bl \<ge> 0 then BN_num_bits_word (of_nat ?al) else BN_num_bits_word (of_nat ?bl)) - 1) = j"
      by (simp add: j_def m_def)
    have c: "\<not> (int ?al - int ?bl = 0 \<and> ?al = 8)" "?al \<ge> 16 \<and> ?bl \<ge> 16 \<and> - 1 \<le> int ?al - int ?bl \<and> int ?al - int ?bl \<le> 1"
      "\<not> \<not> (j \<le> ?al \<or> j \<le> ?bl)" using 2 m(7) k(3) by auto
    obtain g c1 where g: "BN_CTX_get alloc c = (g, c1)" by fastforce
    have ok: "ctx_ok c" using assms(2) by (simp add: ctx_inside_def)
    note gv = ctx_get [OF ok g]
    show ?thesis
    proof (cases g)
      case None
      then have "?call = Some (False, rr, c1)"
        unfolding bn_mul_into_def Let_def jj g using c by (simp only: simp_thms if_False if_True prod.case option.case)
      moreover have "ctx_inside base s c1" by (rule inside_get [OF assms(2,3) g])
      moreover have "\<not> (ample malloc alloc \<and> ctx_err_stack c = 0 \<and> \<not> ctx_too_many c)"
        using ample_get [of malloc alloc c] g None by auto
      ultimately show ?thesis using assms(4) gv None by (intro exI [of _ False] exI [of _ rr] exI [of _ c1]) auto
    next
      case (Some t)
      have rec: "?thesis"
        if ws: "\<And>y. n \<le> bn_dmax y \<Longrightarrow> \<exists>ws. length ws = n \<and> bn_val ws = bn_abs a * bn_abs b \<and> res y = Some (store_result y ws ?n)"
          and n: "?n \<le> n" "n \<le> 8 * ?n" "tn \<le> 8 * ?n"
          and call: "?call = (case bn_wexpand malloc (ctx_val c1 t) tn of
             (False, tv) \<Rightarrow> Some (False, rr, ctx_put t tv c1)
           | (True, tv) \<Rightarrow>
               (case bn_wexpand malloc rr n of
                  (False, rr) \<Rightarrow> Some (False, rr, ctx_put t tv c1)
                | (True, rr) \<Rightarrow> (case res rr of None \<Rightarrow> None | Some x \<Rightarrow> Some (True, x, ctx_put t tv c1))))" for res n tn
      proof -
        obtain et tv where et: "bn_wexpand malloc (ctx_val c1 t) tn = (et, tv)" by fastforce
        note sc = scratch_inside [OF assms(1-3) g [unfolded Some] et]
        obtain e y where e: "bn_wexpand malloc rr n = (e, y)" by fastforce
        note w = wexpand [OF assms(1,4) e]
        show ?thesis
        proof (cases "et \<and> e")
          case True
          then obtain ws where r: "length ws = n" "bn_val ws = bn_abs a * bn_abs b" "res y = Some (store_result y ws ?n)"
            using ws [of y] w by auto
          have "?call = Some (True, store_result y ws ?n, ctx_put t tv c1)" using True r(3) by (simp add: call et e)
          then show ?thesis using expand_store [OF assms(1,4) _ r(1) n(1) r(2) assms(5,6), of y] e True sc
            by (intro exI [of _ True] exI [of _ "store_result y ws ?n"] exI [of _ "ctx_put t tv c1"]) simp
        next
          case False
          then have "?call = Some (False, rr, ctx_put t tv c1)" using w by (auto simp: call et e split: bool.splits)
          then show ?thesis using False sc w room [of n] n assms(4)
            by (intro exI [of _ False] exI [of _ rr] exI [of _ "ctx_put t tv c1"]) auto
        qed
      qed
      show ?thesis
      proof (cases "?al > j \<or> ?bl > j")
        case True
        then have p: "?al = j + (?al - j)" "?bl = j + (?bl - j)" "int ?al - int j = int (?al - j)" "int ?bl - int j = int (?bl - j)"
          "?al - j < j" "?bl - j < j" "?al - j \<le> ?bl - j + 1" "?bl - j \<le> ?al - j + 1" using 2 m k(4) by auto
        have pre: "3 \<le> k" "2 ^ k + (?al - j) \<le> length (bn_d a)" "2 ^ k + (?bl - j) \<le> length (bn_d b)"
          using k(2) la p(1,2) unfolding k(1) by simp_all
        have lt: "?al - j < 2 ^ k" "?bl - j < 2 ^ k" using p(5,6) by (simp_all only: k(1))
        show ?thesis
        proof (rule rec [where n = "j * 4" and tn = "j * 8"
              and res = "\<lambda>y. map_option (\<lambda>d. y\<lparr>bn_d := d, bn_width := ?n\<rparr>)
                (bn_mul_part_recursive (bn_d y) (bn_d a) (bn_d b) j (int ?al - int j) (int ?bl - int j))"])
          fix y :: bignum
          obtain ws where "bn_mul_part_recursive (bn_d y) (bn_d a) (bn_d b) j (int (?al - j)) (int (?bl - j)) =
              Some (put_words (bn_d y) 0 ws)" "length ws = 4 * j" "bn_val ws = bn_abs a * bn_abs b"
            using bn_mul_part_recursive_value [OF pre(1) lt p(7,8) pre(2,3), of "bn_d y"] p(1,2)
            by (auto simp: k(1) [symmetric] bn_abs_def bn_words_def)
          then show "\<exists>ws. length ws = j * 4 \<and> bn_val ws = bn_abs a * bn_abs b \<and>
              map_option (\<lambda>d. y\<lparr>bn_d := d, bn_width := ?n\<rparr>)
                (bn_mul_part_recursive (bn_d y) (bn_d a) (bn_d b) j (int ?al - int j) (int ?bl - int j)) = Some (store_result y ws ?n)"
            by (intro exI [of _ ws]) (simp add: p(3,4) store_result_def)
        next
          show "?n \<le> j * 4" "j * 4 \<le> 8 * ?n" "j * 8 \<le> 8 * ?n" using m k(3,4) by auto
          have d: "?al > j \<or> ?bl > j" "\<not> \<not> (?al \<ge> j \<and> ?bl \<ge> j)" using True p(1,2) by auto
          show "?call = (case bn_wexpand malloc (ctx_val c1 t) (j * 8) of
             (False, tv) \<Rightarrow> Some (False, rr, ctx_put t tv c1)
           | (True, tv) \<Rightarrow>
               (case bn_wexpand malloc rr (j * 4) of
                  (False, rr) \<Rightarrow> Some (False, rr, ctx_put t tv c1)
                | (True, rr) \<Rightarrow> (case map_option (\<lambda>d. rr\<lparr>bn_d := d, bn_width := ?n\<rparr>)
                    (bn_mul_part_recursive (bn_d rr) (bn_d a) (bn_d b) j (int ?al - int j) (int ?bl - int j)) of
                     None \<Rightarrow> None | Some x \<Rightarrow> Some (True, x, ctx_put t tv c1))))"
            unfolding bn_mul_into_def Let_def jj g Some using c d
            by (simp only: simp_thms if_False if_True prod.case option.case case_map_option o_def)
        qed
      next
        case False
        then have e: "m = j" "?al \<le> j" "?bl \<le> j" using m k(3) by auto
        have i: "(2 :: int) ^ k = int j" by (simp add: k(1))
        have dn: "- 8 \<le> int ?al - int j" "int ?al - int j \<le> 0" "- 8 \<le> int ?bl - int j" "int ?bl - int j \<le> 0"
          using e m(5,6) by linarith+
        have w: "nat (2 ^ k + (int ?al - int j)) = ?al" "nat (2 ^ k + (int ?bl - int j)) = ?bl" unfolding i by simp_all
        have k3: "3 \<le> k" using k(2) by simp
        show ?thesis
        proof (rule rec [where n = "j * 2" and tn = "j * 4"
              and res = "\<lambda>y. map_option (\<lambda>ws. store_result y ws ?n)
                (bn_mul_recursive (bn_d a) (bn_d b) j (int ?al - int j) (int ?bl - int j))"])
          fix y :: bignum
          obtain ws where "bn_mul_recursive (bn_d a) (bn_d b) j (int ?al - int j) (int ?bl - int j) = Some ws"
            "length ws = 2 * j" "bn_val ws = bn_abs a * bn_abs b"
            using bn_mul_recursive_value [OF k3 dn, unfolded w, OF la] by (auto simp: k(1) [symmetric] bn_abs_def bn_words_def)
          then show "\<exists>ws. length ws = j * 2 \<and> bn_val ws = bn_abs a * bn_abs b \<and>
              map_option (\<lambda>ws. store_result y ws ?n)
                (bn_mul_recursive (bn_d a) (bn_d b) j (int ?al - int j) (int ?bl - int j)) = Some (store_result y ws ?n)"
            by (intro exI [of _ ws]) simp
        next
          show "?n \<le> j * 2" "j * 2 \<le> 8 * ?n" "j * 4 \<le> 8 * ?n" using e m k(3) by auto
          show "?call = (case bn_wexpand malloc (ctx_val c1 t) (j * 4) of
             (False, tv) \<Rightarrow> Some (False, rr, ctx_put t tv c1)
           | (True, tv) \<Rightarrow>
               (case bn_wexpand malloc rr (j * 2) of
                  (False, rr) \<Rightarrow> Some (False, rr, ctx_put t tv c1)
                | (True, rr) \<Rightarrow> (case map_option (\<lambda>ws. store_result rr ws ?n)
                    (bn_mul_recursive (bn_d a) (bn_d b) j (int ?al - int j) (int ?bl - int j)) of
                     None \<Rightarrow> None | Some x \<Rightarrow> Some (True, x, ctx_put t tv c1))))"
            unfolding bn_mul_into_def Let_def jj g Some using c False
            by (simp only: simp_thms if_False if_True prod.case option.case case_map_option o_def)
        qed
      qed
    qed
  qed
qed

lemma ample_start:
  assumes "ctx_ok c" "ample malloc alloc" "ctx_err_stack c = 0" "\<not> ctx_too_many c"
  shows "ctx_err_stack (BN_CTX_start alloc c) = 0 \<and> \<not> ctx_too_many (BN_CTX_start alloc c)"
  using assms by (auto simp: BN_CTX_start_def BN_STACK_push_def ample_def Let_def split: prod.splits bool.splits)

text \<open>What the functions for products have in common.\<close>

definition product_of :: "bignum \<Rightarrow> bignum \<Rightarrow> bignum \<Rightarrow> bool" where
  "product_of a b x \<longleftrightarrow> bn_mem x \<and> bn_abs x = bn_abs a * bn_abs b \<and>
     (bn_abs x \<noteq> 0 \<longrightarrow> bn_neg x = (bn_neg a \<noteq> bn_neg b)) \<and> (\<not> bn_neg a \<and> \<not> bn_neg b \<longrightarrow> \<not> bn_neg x)"

lemma zero_width: "bn_mem a \<Longrightarrow> bn_width a = 0 \<Longrightarrow> bn_abs a = 0"
  by (simp add: bn_abs_def bn_words_def)

lemma inside_start: "ctx_ok c \<Longrightarrow> ctx_inside (ctx_used c) (BN_CTX_start alloc c) (BN_CTX_start alloc c)"
  using start_ok by (simp add: inside_refl)

lemma mul_impl_value:
  assumes "bn_malloc_ok malloc" "ctx_ok c" "bn_mem r" "bn_mem a" "bn_mem b"
    and same: "\<not> (same \<and> bn_width a \<noteq> 0 \<and> bn_width b \<noteq> 0 \<and> fst (BN_CTX_get alloc (BN_CTX_start alloc c)) = None)"
  shows "\<exists>ok x c'. bn_mul_impl malloc alloc c r same a b = Some (ok, x, c') \<and> bn_mem x \<and> ctx_ok c' \<and> ctx_same c c' \<and>
    (ok \<longrightarrow> product_of a b x) \<and>
    (ample malloc alloc \<longrightarrow> ctx_err_stack c = 0 \<longrightarrow> \<not> ctx_too_many c \<longrightarrow> \<not> bn_static r \<longrightarrow>
     8 * (bn_width a + bn_width b) \<le> INT_MAX div (4 * 64) \<longrightarrow> ok)"
    (is "\<exists>ok x c'. ?call = Some (ok, x, c') \<and> ?post ok x c'")
proof (cases "bn_width a = 0 \<or> bn_width b = 0")
  case True
  then have "?call = Some (True, BN_zero r, c)" by (simp add: bn_mul_impl_def)
  moreover have "bn_mem (BN_zero r)" "bn_abs (BN_zero r) = 0" "\<not> bn_neg (BN_zero r)"
    using assms(3) by (simp_all add: BN_zero_def bn_mem_def bn_abs_def bn_words_def)
  moreover have "bn_abs a * bn_abs b = 0" using True zero_width assms(4,5) by auto
  ultimately show ?thesis using assms(2) by (auto simp: product_of_def ctx_same_def)
next
  case nz: False
  let ?s = "BN_CTX_start alloc c" and ?neg = "bn_neg a \<noteq> bn_neg b"
  have st: "ctx_ok ?s" "ctx_used ?s = ctx_used c" using start_ok [OF assms(2)] by blast+
  have base: "ctx_used c \<le> ctx_used ?s" using st by simp
  note ins = inside_start [OF assms(2), of alloc]
  note am = ample_start [OF assms(2), of malloc alloc]
  show ?thesis
  proof (cases same)
    case False
    have "bn_mem (r\<lparr>bn_neg := ?neg\<rparr>)" using assms(3) by simp
    from mul_into_value [OF assms(1) ins base this assms(4,5), of alloc] obtain ok x c' where
      m: "bn_mul_into malloc alloc ?s (r\<lparr>bn_neg := ?neg\<rparr>) a b = Some (ok, x, c')" "bn_mem x"
        "ctx_inside (ctx_used c) ?s c'" "ok \<longrightarrow> holds_product (r\<lparr>bn_neg := ?neg\<rparr>) a b x"
        "ample malloc alloc \<longrightarrow> ctx_err_stack ?s = 0 \<longrightarrow> \<not> ctx_too_many ?s \<longrightarrow> \<not> bn_static r \<longrightarrow>
         8 * (bn_width a + bn_width b) \<le> INT_MAX div (4 * 64) \<longrightarrow> ok" by auto
    have "?call = Some (ok, x, BN_CTX_end c')"
      unfolding bn_mul_impl_def Let_def using nz False by (simp only: if_False m(1) option.case prod.case)
    moreover note end_restores [OF assms(2) m(3)]
    moreover have "ok \<longrightarrow> product_of a b x" using m(2,4) by (auto simp: product_of_def holds_product_def)
    ultimately show ?thesis using m(2,5) am by (intro exI [of _ ok] exI [of _ x] exI [of _ "BN_CTX_end c'"]) simp
  next
    case True
    then obtain i c1 where g: "BN_CTX_get alloc ?s = (Some i, c1)" using same nz by (cases "BN_CTX_get alloc ?s") auto
    note gv = ctx_got [OF st(1) g]
    have i: "ctx_used c \<le> i" "bn_mem (ctx_val c1 i)" "\<not> bn_static (ctx_val c1 i)" "ctx_err_stack c1 = ctx_err_stack ?s"
      "ctx_too_many c1 = ctx_too_many ?s" using gv st(2) by simp_all
    note ins1 = inside_get [OF ins base g]
    have "bn_mem (ctx_val c1 i\<lparr>bn_neg := ?neg\<rparr>)" using i(2) by simp
    from mul_into_value [OF assms(1) ins1 base this assms(4,5), of alloc] obtain ok x c' where
      m: "bn_mul_into malloc alloc c1 (ctx_val c1 i\<lparr>bn_neg := ?neg\<rparr>) a b = Some (ok, x, c')" "bn_mem x"
        "\<not> bn_static x" "ctx_inside (ctx_used c) ?s c'" "ok \<longrightarrow> holds_product (ctx_val c1 i\<lparr>bn_neg := ?neg\<rparr>) a b x"
        "ample malloc alloc \<longrightarrow> ctx_err_stack c1 = 0 \<longrightarrow> \<not> ctx_too_many c1 \<longrightarrow>
         8 * (bn_width a + bn_width b) \<le> INT_MAX div (4 * 64) \<longrightarrow> ok" using i(3) by auto
    obtain ok' r' where cp: "(if ok then BN_copy malloc r x else (False, r)) = (ok', r')" by fastforce
    have "?call = Some (ok', r', BN_CTX_end (ctx_put i x c'))"
      unfolding bn_mul_impl_def Let_def using nz True
      by (simp only: if_False if_True g m(1) option.case prod.case cp)
    moreover note end_restores [OF assms(2) inside_put [OF m(4) i(1) m(2,3)]]
    moreover have "bn_mem r' \<and> (ok' \<longrightarrow> product_of a b r') \<and> (ok \<longrightarrow> ok' = bn_room malloc r (bn_width a + bn_width b)) \<and> (\<not> ok \<longrightarrow> \<not> ok')"
    proof (cases ok)
      case True
      then have "BN_copy malloc r x = (ok', r')" using cp by simp
      then show ?thesis using copy_value [OF assms(1,3) m(2)] m(5) True
        by (auto simp: product_of_def holds_product_def bn_abs_def)
    qed (use cp assms(3) in simp)
    ultimately show ?thesis using m(6) am i(4,5) ample_room [of malloc alloc r "bn_width a + bn_width b"] by auto
  qed
qed

lemma mul_impl_null:
  "same \<Longrightarrow> bn_width a \<noteq> 0 \<Longrightarrow> bn_width b \<noteq> 0 \<Longrightarrow> fst (BN_CTX_get alloc (BN_CTX_start alloc c)) = None \<Longrightarrow>
   bn_mul_impl malloc alloc c r same a b = None"
  by (cases "BN_CTX_get alloc (BN_CTX_start alloc c)") (simp add: bn_mul_impl_def)

lemma product_int:
  assumes "product_of a b x"
  shows "bn_wf (bn_set_minimal_width x) \<and> bn_minimal (bn_set_minimal_width x) \<and>
    bn_int (bn_set_minimal_width x) = bn_int a * bn_int b"
proof -
  have m: "bn_mem x" using assms by (simp add: product_of_def)
  have "bn_int a * bn_int b = (if bn_neg a \<noteq> bn_neg b then - int (bn_abs a * bn_abs b) else int (bn_abs a * bn_abs b))"
    by (simp add: bn_int_def)
  then show ?thesis using set_minimal_width [OF m] assms by (auto simp: product_of_def bn_int_def)
qed

lemma mul_small_value:
  assumes "na \<le> length a" "nb \<le> length b"
  shows "(case bn_mul_small n a na b nb of
       None \<Rightarrow> n \<noteq> na + nb
     | Some r \<Rightarrow> n = na + nb \<and> length r = n \<and> bn_val r = bn_val (take na a) * bn_val (take nb b))"
  using mul_normal_value [OF assms] mul_comba8_prefix [of a b] assms by (simp add: bn_mul_small_def)

section \<open>What the squares compute\<close>

lemma sqr_small_value:
  assumes "na \<le> length a"
  shows "(case bn_sqr_small n a na of
       None \<Rightarrow> n \<noteq> 2 * na \<or> 9 < na
     | Some r \<Rightarrow> n = 2 * na \<and> length r = n \<and> bn_val r = bn_val (take na a) * bn_val (take na a))"
  using sqr_normal_value [OF assms] sqr_comba8_prefix [of a] sqr_comba4_prefix [of a] assms
  by (simp add: bn_sqr_small_def BN_SMALL_MAX_WORDS_def)

lemma power_of_two_exp:
  assumes "n \<noteq> 0" "n AND (n - 1) = (0 :: nat)"
  shows "\<exists>k. n = 2 ^ k"
proof -
  obtain k where k: "2 ^ k \<le> n" "n < 2 ^ Suc k" using ex_power_ivl1 [of 2 n] assms(1) by auto
  have top: "bit m k" if "2 ^ k \<le> m" "m < 2 ^ Suc k" for m :: nat
  proof -
    have "m div 2 ^ k = 1" using that by (intro div_nat_eqI) simp_all
    then show ?thesis by (simp add: bit_iff_odd)
  qed
  have "n = 2 ^ k"
  proof (rule ccontr)
    assume "n \<noteq> 2 ^ k"
    then have "2 ^ k \<le> n - 1" "n - 1 < 2 ^ Suc k" using k by simp_all
    then have "bit (n AND (n - 1)) k" using top [OF k] top by (simp add: bit_and_iff)
    then show False unfolding assms(2) by simp
  qed
  then show ?thesis ..
qed

text \<open>A square in the result object.\<close>

definition square_of :: "bignum \<Rightarrow> bignum \<Rightarrow> bool" where
  "square_of a x \<longleftrightarrow> bn_mem x \<and> bn_abs x = bn_abs a * bn_abs a \<and> \<not> bn_neg x"

lemma store_square:
  assumes "bn_mem rr" "length ws = 2 * bn_width a" "2 * bn_width a \<le> bn_dmax rr" "bn_val ws = bn_abs a * bn_abs a"
    "x = rr\<lparr>bn_d := put_words (bn_d rr) 0 ws, bn_width := 2 * bn_width a, bn_neg := False\<rparr>"
  shows "square_of a x \<and> bn_static x = bn_static rr \<and> bn_width x = 2 * bn_width a"
  using assms by (simp add: square_of_def bn_mem_def bn_abs_def bn_words_def put_words_def)

lemma sqr_words_into_value:
  assumes "bn_malloc_ok malloc" "ctx_inside base s c" "base \<le> tmp" "bn_mem (ctx_val c tmp)" "\<not> bn_static (ctx_val c tmp)"
    "bn_mem rr" "2 * bn_width a \<le> bn_dmax rr" "bn_mem a" "bn_width a \<noteq> 0"
  shows "\<exists>ok x c'. bn_sqr_words_into malloc c tmp rr a = Some (ok, x, c') \<and> bn_mem x \<and> bn_static x = bn_static rr \<and>
    ctx_inside base s c' \<and> (ok \<longrightarrow> square_of a x \<and> bn_width x = 2 * bn_width a) \<and>
    (ample malloc alloc \<longrightarrow> 4 * bn_width a \<le> INT_MAX div (4 * 64) \<longrightarrow> ok)"
    (is "\<exists>ok x c'. ?call = Some (ok, x, c') \<and> _")
proof -
  let ?al = "bn_width a"
  let ?put = "\<lambda>ws. rr\<lparr>bn_d := put_words (bn_d rr) 0 ws, bn_width := 2 * ?al, bn_neg := False\<rparr>"
  have la: "?al \<le> length (bn_d a)" using assms(8) by (simp add: bn_mem_def)
  have abs: "bn_val (take ?al (bn_d a)) = bn_abs a" by (simp add: bn_abs_def bn_words_def)
  have direct: ?thesis
    if ws: "length ws = 2 * ?al" "bn_val ws = bn_abs a * bn_abs a" and call: "?call = Some (True, ?put ws, c)" for ws
    using store_square [OF assms(6) ws(1) assms(7) ws(2) refl] call assms(2)
    by (intro exI [of _ True] exI [of _ "?put ws"] exI [of _ c]) (simp add: square_of_def)
  have scratch: ?thesis
    if ws: "length ws = 2 * ?al" "bn_val ws = bn_abs a * bn_abs a" and n: "n \<le> 4 * ?al"
      and call: "?call = (case bn_wexpand malloc (ctx_val c tmp) n of
         (False, tv) \<Rightarrow> Some (False, rr, ctx_put tmp tv c) | (True, tv) \<Rightarrow> Some (True, ?put ws, ctx_put tmp tv c))" for ws n
  proof -
    obtain e tv where e: "bn_wexpand malloc (ctx_val c tmp) n = (e, tv)" by fastforce
    note w = wexpand [OF assms(1,4) e]
    have ins: "ctx_inside base s (ctx_put tmp tv c)" using inside_put [OF assms(2,3)] w assms(5) by simp
    show ?thesis
    proof (cases e)
      case True
      then show ?thesis using store_square [OF assms(6) ws(1) assms(7) ws(2) refl] call ins
        by (intro exI [of _ True] exI [of _ "?put ws"] exI [of _ "ctx_put tmp tv c"]) (simp add: e square_of_def)
    next
      case False
      then show ?thesis using call ins assms(6) w n ample_room [OF _ assms(5), of malloc alloc n]
        by (intro exI [of _ False] exI [of _ rr] exI [of _ "ctx_put tmp tv c"]) (auto simp: e)
    qed
  qed
  consider "?al = 4" | "?al = 8" | "?al \<noteq> 4" "?al \<noteq> 8" "?al < 16"
    | "\<not> ?al < 16" "?al \<noteq> 0 \<and> ?al AND (?al - 1) = 0" | "\<not> ?al < 16" "\<not> (?al \<noteq> 0 \<and> ?al AND (?al - 1) = 0)" by blast
  then show ?thesis
  proof cases
    case 1
    show ?thesis by (rule direct [of "bn_sqr_comba4 (bn_d a)"])
      (use 1 la abs sqr_comba4_prefix [of "bn_d a"] in \<open>simp_all add: bn_sqr_words_into_def Let_def\<close>)
  next
    case 2
    show ?thesis by (rule direct [of "bn_sqr_comba8 (bn_d a)"])
      (use 2 la abs sqr_comba8_prefix [of "bn_d a"] in \<open>simp_all add: bn_sqr_words_into_def Let_def\<close>)
  next
    case 3
    show ?thesis by (rule direct [of "bn_sqr_normal (bn_d a) ?al"])
      (use 3 la abs sqr_normal_value [of ?al "bn_d a"] in \<open>simp_all add: bn_sqr_words_into_def Let_def\<close>)
  next
    case 4
    then obtain k where k: "?al = 2 ^ k" using power_of_two_exp by blast
    have "2 \<le> k"
    proof (rule ccontr)
      assume "\<not> 2 \<le> k"
      then have "(2 :: nat) ^ k \<le> 2 ^ 1" by (intro power_increasing) simp_all
      then show False using 4(1) k by simp
    qed
    then obtain ws where ws: "bn_sqr_recursive (bn_d a) ?al = Some ws" "length ws = 2 * ?al" "bn_val ws = bn_abs a * bn_abs a"
      using bn_sqr_recursive_value [of k "bn_d a"] la abs unfolding k by auto
    have c: "?al \<noteq> 4" "?al \<noteq> 8" using 4(1) by auto
    show ?thesis
    proof (rule scratch [OF ws(2,3), of "?al * 4"])
      show "?call = (case bn_wexpand malloc (ctx_val c tmp) (?al * 4) of
         (False, tv) \<Rightarrow> Some (False, rr, ctx_put tmp tv c) | (True, tv) \<Rightarrow> Some (True, ?put ws, ctx_put tmp tv c))"
        unfolding bn_sqr_words_into_def Let_def using 4 c by (simp only: if_False if_True ws(1) option.case simp_thms)
    qed simp
  next
    case 5
    have c: "?al \<noteq> 4" "?al \<noteq> 8" using 5(1) by auto
    show ?thesis
    proof (rule scratch [of "bn_sqr_normal (bn_d a) ?al" "2 * ?al"])
      show "?call = (case bn_wexpand malloc (ctx_val c tmp) (2 * ?al) of
         (False, tv) \<Rightarrow> Some (False, rr, ctx_put tmp tv c)
       | (True, tv) \<Rightarrow> Some (True, ?put (bn_sqr_normal (bn_d a) ?al), ctx_put tmp tv c))"
        unfolding bn_sqr_words_into_def Let_def using 5 c by (simp only: if_False)
    qed (use la abs sqr_normal_value [of ?al "bn_d a"] in simp_all)
  qed
qed

lemma sqr_consttime_value:
  assumes "bn_malloc_ok malloc" "ctx_ok c" "bn_mem r" "bn_mem a"
  shows "\<exists>ok x c'. bn_sqr_consttime malloc alloc c r same a = Some (ok, x, c') \<and> bn_mem x \<and> ctx_ok c' \<and> ctx_same c c' \<and>
    (ok \<longrightarrow> square_of a x) \<and>
    (ample malloc alloc \<longrightarrow> ctx_err_stack c = 0 \<longrightarrow> \<not> ctx_too_many c \<longrightarrow> \<not> bn_static r \<longrightarrow>
     4 * bn_width a \<le> INT_MAX div (4 * 64) \<longrightarrow> ok)"
    (is "\<exists>ok x c'. ?call = Some (ok, x, c') \<and> ?post ok x c'")
proof (cases "bn_width a = 0")
  case True
  then have "?call = Some (True, r\<lparr>bn_width := 0, bn_neg := False\<rparr>, c)" by (simp add: bn_sqr_consttime_def)
  moreover have "square_of a (r\<lparr>bn_width := 0, bn_neg := False\<rparr>)"
    using assms(3) zero_width [OF assms(4) True] by (simp add: square_of_def bn_mem_def bn_abs_def bn_words_def)
  ultimately show ?thesis using assms(2) by (auto simp: square_of_def ctx_same_def)
next
  case nz: False
  let ?s = "BN_CTX_start alloc c" and ?n = "2 * bn_width a"
  have st: "ctx_ok ?s" "ctx_used ?s = ctx_used c" using start_ok [OF assms(2)] by blast+
  have base: "ctx_used c \<le> ctx_used ?s" using st by simp
  note am = ample_start [OF assms(2), of malloc alloc]
  obtain rr c1 where rr: "(if same then BN_CTX_get alloc ?s else (None, ?s)) = (rr, c1)" by fastforce
  obtain tmp c2 where tmp: "BN_CTX_get alloc c1 = (tmp, c2)" by fastforce
  have ins1: "ctx_inside (ctx_used c) ?s c1"
  proof (cases same)
    case True
    then show ?thesis using inside_get [OF inside_start [OF assms(2)] base] rr by simp
  qed (use rr inside_start [OF assms(2), of alloc] in auto)
  note ins2 = inside_get [OF ins1 base tmp]
  have ok1: "ctx_ok c1" using ins1 by (simp add: ctx_inside_def)
  have room: "bn_room malloc y k" if "ample malloc alloc" "\<not> bn_static y" "4 * bn_width a \<le> INT_MAX div (4 * 64)" "k \<le> 4 * bn_width a" for y k
    by (rule ample_room [OF that(1,2)]) (use that(3,4) in linarith)
  have get: "ample malloc alloc \<Longrightarrow> ctx_err_stack c = 0 \<Longrightarrow> \<not> ctx_too_many c \<Longrightarrow> (same \<longrightarrow> rr \<noteq> None) \<and> tmp \<noteq> None"
  proof -
    assume a: "ample malloc alloc" "ctx_err_stack c = 0" "\<not> ctx_too_many c"
    note s0 = am [OF a]
    have r: "same \<longrightarrow> rr \<noteq> None" using ample_get [OF a(1), of ?s] s0 rr by auto
    have "ctx_err_stack c1 = 0 \<and> \<not> ctx_too_many c1"
    proof (cases same)
      case True
      then obtain i where "rr = Some i" "BN_CTX_get alloc ?s = (Some i, c1)" using r rr by auto
      then show ?thesis using ctx_got(6,7) [OF st(1)] s0 by simp
    qed (use rr s0 in auto)
    then show ?thesis using r ample_get [OF a(1), of c1] tmp by auto
  qed
  note call = bn_sqr_consttime_def [of malloc alloc c r same a, unfolded Let_def rr prod.case tmp]
  show ?thesis
  proof (cases "(same \<longrightarrow> rr \<noteq> None) \<and> tmp \<noteq> None")
    case False
    then have "?call = Some (False, r, BN_CTX_end c2)" unfolding call using nz by (auto split: option.splits)
    then show ?thesis using end_restores [OF assms(2) ins2] assms(3) get False
      by (intro exI [of _ False] exI [of _ r] exI [of _ "BN_CTX_end c2"]) auto
  next
    case True
    then obtain t where t: "tmp = Some t" by auto
    note tv = ctx_got [OF ok1 tmp [unfolded t]]
    have bt: "ctx_used c \<le> t" using tv(1) ins1 base by (simp add: ctx_inside_def)
    show ?thesis
    proof (cases same)
      case ns: False
      then have rn: "rr = None" using rr by auto
      obtain e y where e: "bn_wexpand malloc r ?n = (e, y)" by fastforce
      note w = wexpand [OF assms(1,3) e]
      show ?thesis
      proof (cases e)
        case False
        then have "?call = Some (False, r, BN_CTX_end c2)" unfolding call using nz ns rn t e w by simp
        then show ?thesis using end_restores [OF assms(2) ins2] assms(3) w False room [of r ?n]
          by (intro exI [of _ False] exI [of _ r] exI [of _ "BN_CTX_end c2"]) auto
      next
        case e': True
        have y: "bn_mem y" "?n \<le> bn_dmax y" using w e' by simp_all
        from sqr_words_into_value [OF assms(1) ins2 bt tv(2,3) y assms(4) nz, of alloc] obtain ok x c3 where
          m: "bn_sqr_words_into malloc c2 t y a = Some (ok, x, c3)" "bn_mem x" "ctx_inside (ctx_used c) ?s c3"
            "ok \<longrightarrow> square_of a x" "ample malloc alloc \<longrightarrow> 4 * bn_width a \<le> INT_MAX div (4 * 64) \<longrightarrow> ok" by auto
        have "?call = Some (ok, x, BN_CTX_end c3)" unfolding call using nz ns rn t e e' m(1) by simp
        then show ?thesis using end_restores [OF assms(2) m(3)] m(2,4,5)
          by (intro exI [of _ ok] exI [of _ x] exI [of _ "BN_CTX_end c3"]) simp
      qed
    next
      case sm: True
      then obtain i where i: "rr = Some i" using True by auto
      have g: "BN_CTX_get alloc ?s = (Some i, c1)" using rr sm i by simp
      note gv = ctx_got [OF st(1) g]
      have bi: "ctx_used c \<le> i" using gv(1) st(2) by simp
      have "ctx_val c2 i = ctx_val c1 i" using ctx_get [OF ok1 tmp] gv(5) by simp
      then have v: "bn_mem (ctx_val c2 i)" "\<not> bn_static (ctx_val c2 i)" using gv(2,3) by simp_all
      obtain e y where e: "bn_wexpand malloc (ctx_val c2 i) ?n = (e, y)" by fastforce
      note w = wexpand [OF assms(1) v(1) e]
      have ys: "bn_mem y" "\<not> bn_static y" using w v(2) by simp_all
      show ?thesis
      proof (cases e)
        case False
        then have "?call = Some (False, r, BN_CTX_end (ctx_put i y c2))" unfolding call using nz sm i t e by simp
        then show ?thesis using end_restores [OF assms(2) inside_put [OF ins2 bi ys]] assms(3) w False room [of _ ?n, OF _ v(2)]
          by (intro exI [of _ False] exI [of _ r] exI [of _ "BN_CTX_end (ctx_put i y c2)"]) auto
      next
        case e': True
        have y: "bn_mem y" "?n \<le> bn_dmax y" using w e' by simp_all
        from sqr_words_into_value [OF assms(1) ins2 bt tv(2,3) y assms(4) nz, of alloc] obtain ok x c3 where
          m: "bn_sqr_words_into malloc c2 t y a = Some (ok, x, c3)" "bn_mem x" "bn_static x = bn_static y" "ctx_inside (ctx_used c) ?s c3"
            "ok \<longrightarrow> square_of a x \<and> bn_width x = ?n" "ample malloc alloc \<longrightarrow> 4 * bn_width a \<le> INT_MAX div (4 * 64) \<longrightarrow> ok" by auto
        obtain ok' r' where cp: "(if ok then BN_copy malloc r x else (False, r)) = (ok', r')" by fastforce
        have "?call = Some (ok', r', BN_CTX_end (ctx_put i x c3))" unfolding call using nz sm i t e e' m(1) cp by simp
        moreover have "bn_mem r' \<and> (ok' \<longrightarrow> square_of a r') \<and> (ok \<longrightarrow> ok' = bn_room malloc r ?n) \<and> (\<not> ok \<longrightarrow> \<not> ok')"
        proof (cases ok)
          case True
          then have "BN_copy malloc r x = (ok', r')" using cp by simp
          then show ?thesis using copy_value [OF assms(1,3) m(2)] m(5) True
            by (auto simp: square_of_def bn_abs_def)
        qed (use cp assms(3) in simp)
        moreover have "\<not> bn_static x" using m(3) ys(2) by simp
        note end_restores [OF assms(2) inside_put [OF m(4) bi m(2) this]]
        ultimately show ?thesis using m(6) room [of r ?n]
          by (intro exI [of _ ok'] exI [of _ r'] exI [of _ "BN_CTX_end (ctx_put i x c3)"]) auto
      qed
    qed
  qed
qed

lemma square_int:
  assumes "square_of a x"
  shows "bn_wf (bn_set_minimal_width x) \<and> bn_minimal (bn_set_minimal_width x) \<and>
    bn_int (bn_set_minimal_width x) = bn_int a * bn_int a"
proof -
  have "product_of a a x" using assms by (simp add: square_of_def product_of_def)
  then show ?thesis by (rule product_int)
qed

text \<open>
  C40. \<open>BN_mul\<close> and \<open>BN_sqr\<close> compute the product and the square of the integers exactly, by whichever of
  the schoolbook, fixed-size and recursive methods the widths select, whether or not the result object
  is one of the arguments; no assertion on the way fails, and the context is left as it was found. They
  succeed when memory is available and the product is not too large. \<open>BN_mul\<close> follows a null pointer
  exactly when the result object is an argument, neither has width zero and the context has no number
  left. The variants for constant time and for arrays compute the same products.
\<close>

theorem bn_product_exact:
  assumes "bn_malloc_ok malloc" "ctx_ok c" "bn_wf r" "bn_wf a" "bn_wf b"
  shows "(if same \<and> bn_width a \<noteq> 0 \<and> bn_width b \<noteq> 0 \<and> fst (BN_CTX_get alloc (BN_CTX_start alloc c)) = None
     then BN_mul malloc alloc c r same a b = None
     else \<exists>ok x c'. BN_mul malloc alloc c r same a b = Some (ok, x, c') \<and> ctx_ok c' \<and> ctx_same c c' \<and>
       (ok \<longrightarrow> bn_wf x \<and> bn_minimal x \<and> bn_int x = bn_int a * bn_int b) \<and>
       (ample malloc alloc \<and> ctx_err_stack c = 0 \<and> \<not> ctx_too_many c \<and> \<not> bn_static r \<and>
        8 * (bn_width a + bn_width b) \<le> INT_MAX div (4 * 64) \<longrightarrow> ok)) \<and>
    (\<exists>ok x c'. BN_sqr malloc alloc c r same a = Some (ok, x, c') \<and> ctx_ok c' \<and> ctx_same c c' \<and>
       (ok \<longrightarrow> bn_wf x \<and> bn_minimal x \<and> bn_int x = (bn_int a)\<^sup>2) \<and>
       (ample malloc alloc \<and> ctx_err_stack c = 0 \<and> \<not> ctx_too_many c \<and> \<not> bn_static r \<and>
        4 * bn_width a \<le> INT_MAX div (4 * 64) \<longrightarrow> ok)) \<and>
    (\<forall>x c'. bn_mul_consttime malloc alloc c r same a b = Some (True, x, c') \<longrightarrow> bn_wf x \<and> bn_int x = bn_int a * bn_int b) \<and>
    (\<forall>x c'. bn_sqr_consttime malloc alloc c r same a = Some (True, x, c') \<longrightarrow> bn_wf x \<and> bn_int x = (bn_int a)\<^sup>2) \<and>
    (\<forall>n. case bn_mul_small n (bn_d a) (bn_width a) (bn_d b) (bn_width b) of
       None \<Rightarrow> n \<noteq> bn_width a + bn_width b
     | Some ws \<Rightarrow> n = bn_width a + bn_width b \<and> length ws = n \<and> bn_val ws = bn_abs a * bn_abs b) \<and>
    (\<forall>n. case bn_sqr_small n (bn_d a) (bn_width a) of
       None \<Rightarrow> n \<noteq> 2 * bn_width a \<or> 9 < bn_width a
     | Some ws \<Rightarrow> n = 2 * bn_width a \<and> length ws = n \<and> bn_val ws = bn_abs a * bn_abs a)"
proof (intro conjI)
  note m = bn_wf_mem [OF assms(3)] bn_wf_mem [OF assms(4)] bn_wf_mem [OF assms(5)]
  let ?null = "same \<and> bn_width a \<noteq> 0 \<and> bn_width b \<noteq> 0 \<and> fst (BN_CTX_get alloc (BN_CTX_start alloc c)) = None"
  show "if ?null then BN_mul malloc alloc c r same a b = None
     else \<exists>ok x c'. BN_mul malloc alloc c r same a b = Some (ok, x, c') \<and> ctx_ok c' \<and> ctx_same c c' \<and>
       (ok \<longrightarrow> bn_wf x \<and> bn_minimal x \<and> bn_int x = bn_int a * bn_int b) \<and>
       (ample malloc alloc \<and> ctx_err_stack c = 0 \<and> \<not> ctx_too_many c \<and> \<not> bn_static r \<and>
        8 * (bn_width a + bn_width b) \<le> INT_MAX div (4 * 64) \<longrightarrow> ok)"
  proof (cases ?null)
    case True
    then show ?thesis by (simp add: BN_mul_def mul_impl_null)
  next
    case False
    from mul_impl_value [OF assms(1,2) m False] obtain ok x c' where
      i: "bn_mul_impl malloc alloc c r same a b = Some (ok, x, c')" "ctx_ok c'" "ctx_same c c'" "ok \<longrightarrow> product_of a b x"
        "ample malloc alloc \<longrightarrow> ctx_err_stack c = 0 \<longrightarrow> \<not> ctx_too_many c \<longrightarrow> \<not> bn_static r \<longrightarrow>
         8 * (bn_width a + bn_width b) \<le> INT_MAX div (4 * 64) \<longrightarrow> ok" by (elim exE conjE)
    have "BN_mul malloc alloc c r same a b = Some (ok, if ok then bn_set_minimal_width x else x, c')"
      by (cases ok) (simp_all add: BN_mul_def i(1))
    then show ?thesis using i product_int [of a b x] False by auto
  qed
  from sqr_consttime_value [OF assms(1,2) m(1,2), of alloc same] obtain ok x c' where
    i: "bn_sqr_consttime malloc alloc c r same a = Some (ok, x, c')" "ctx_ok c'" "ctx_same c c'" "ok \<longrightarrow> square_of a x"
      "ample malloc alloc \<longrightarrow> ctx_err_stack c = 0 \<longrightarrow> \<not> ctx_too_many c \<longrightarrow> \<not> bn_static r \<longrightarrow>
       4 * bn_width a \<le> INT_MAX div (4 * 64) \<longrightarrow> ok" by (elim exE conjE)
  have "BN_sqr malloc alloc c r same a = Some (ok, if ok then bn_set_minimal_width x else x, c')"
    by (cases ok) (simp_all add: BN_sqr_def i(1))
  then show "\<exists>ok x c'. BN_sqr malloc alloc c r same a = Some (ok, x, c') \<and> ctx_ok c' \<and> ctx_same c c' \<and>
       (ok \<longrightarrow> bn_wf x \<and> bn_minimal x \<and> bn_int x = (bn_int a)\<^sup>2) \<and>
       (ample malloc alloc \<and> ctx_err_stack c = 0 \<and> \<not> ctx_too_many c \<and> \<not> bn_static r \<and>
        4 * bn_width a \<le> INT_MAX div (4 * 64) \<longrightarrow> ok)"
    using i square_int [of a x] by (auto simp: power2_eq_square)
  show "\<forall>x c'. bn_sqr_consttime malloc alloc c r same a = Some (True, x, c') \<longrightarrow> bn_wf x \<and> bn_int x = (bn_int a)\<^sup>2"
    using i(1,4) by (auto simp: square_of_def bn_wf_def bn_int_def power2_eq_square)
  show "\<forall>x c'. bn_mul_consttime malloc alloc c r same a b = Some (True, x, c') \<longrightarrow> bn_wf x \<and> bn_int x = bn_int a * bn_int b"
  proof (intro allI impI)
    fix x c' assume t: "bn_mul_consttime malloc alloc c r same a b = Some (True, x, c')"
    have n: "\<not> bn_neg a" "\<not> bn_neg b" "bn_mul_impl malloc alloc c r same a b = Some (True, x, c')"
      using t by (simp_all add: bn_mul_consttime_def split: if_splits)
    have ok: "\<not> ?null"
    proof
      assume "?null"
      then have "bn_mul_impl malloc alloc c r same a b = None" by (intro mul_impl_null) simp_all
      then show False using n(3) by simp
    qed
    have "product_of a b x" using mul_impl_value [OF assms(1,2) m ok] n(3) by auto
    then show "bn_wf x \<and> bn_int x = bn_int a * bn_int b" using n(1,2) by (simp add: product_of_def bn_wf_def bn_int_def)
  qed
  have l: "bn_width a \<le> length (bn_d a)" "bn_width b \<le> length (bn_d b)" using m by (simp_all add: bn_mem_def)
  show "\<forall>n. case bn_mul_small n (bn_d a) (bn_width a) (bn_d b) (bn_width b) of
       None \<Rightarrow> n \<noteq> bn_width a + bn_width b
     | Some ws \<Rightarrow> n = bn_width a + bn_width b \<and> length ws = n \<and> bn_val ws = bn_abs a * bn_abs b"
    unfolding bn_abs_def bn_words_def by (intro allI mul_small_value l)
  show "\<forall>n. case bn_sqr_small n (bn_d a) (bn_width a) of
       None \<Rightarrow> n \<noteq> 2 * bn_width a \<or> 9 < bn_width a
     | Some ws \<Rightarrow> n = 2 * bn_width a \<and> length ws = n \<and> bn_val ws = bn_abs a * bn_abs a"
    unfolding bn_abs_def bn_words_def by (intro allI sqr_small_value l)
qed

definition new_ctx :: bn_ctx where
  "new_ctx = \<lparr>ctx_pool = BN_POOL_init, ctx_stack = BN_STACK_init, ctx_used = 0, ctx_err_stack = 0, ctx_too_many = False\<rparr>"

text \<open>Sixteen words by seventeen, which is the recursive method, into a new number and into an argument.\<close>

lemma bn_product_exact_witness:
  "(\<exists>x c'. BN_mul word_malloc (\<lambda>_. True) new_ctx (bn_of [] 0 False) False (bn_of (replicate 16 1) 0 True) (bn_of (replicate 17 1) 0 False) =
     Some (True, x, c') \<and> bn_int x = - int (bn_val (replicate 16 1)) * int (bn_val (replicate 17 1))) \<and>
   (\<exists>x c'. BN_sqr word_malloc (\<lambda>_. True) new_ctx (bn_of [5] 0 True) True (bn_of [5] 0 True) = Some (True, x, c') \<and> bn_int x = 25) \<and>
   BN_mul word_malloc (\<lambda>_. False) new_ctx (bn_of [5] 0 True) True (bn_of [5] 0 True) (bn_of [5] 0 True) = None"
proof -
  let ?r = "bn_of [] 0 False" and ?a = "bn_of (replicate 16 1) 0 True" and ?b = "bn_of (replicate 17 1) 0 False" and ?f = "bn_of [5] 0 True"
  have "bn_val (replicate 16 1) \<noteq> 0" by (simp add: bn_val_eq_0)
  then have wf: "bn_wf ?r" "bn_wf ?a" "bn_wf ?b" "bn_wf ?f"
    by (simp_all add: bn_of_def bn_wf_def bn_mem_def bn_abs_def bn_words_def INT_MAX_def)
  have ctx: "ctx_ok new_ctx" "ctx_err_stack new_ctx = 0" "\<not> ctx_too_many new_ctx"
    using ctx_new_ok [of "\<lambda>_. True"] by (simp_all add: BN_CTX_new_def new_ctx_def)
  have amp: "ample word_malloc (\<lambda>_. True)" by (simp add: ample_def word_malloc_def)
  have v: "bn_int ?a = - int (bn_val (replicate 16 1))" "bn_int ?b = int (bn_val (replicate 17 1))" "bn_int ?f = - 5"
    by (simp_all add: bn_of_def bn_int_def bn_abs_def bn_words_def)
  have w: "bn_width ?a = 16" "bn_width ?b = 17" "bn_width ?f = 1" "\<not> bn_static ?r" "\<not> bn_static ?f" by (simp_all add: bn_of_def)
  have full: "fst (BN_CTX_get (\<lambda>_. False) (BN_CTX_start (\<lambda>_. False) new_ctx)) = None" by code_simp
  have null: "BN_mul word_malloc (\<lambda>_. False) new_ctx ?f True ?f ?f = None"
    using bn_product_exact [OF word_malloc_ok ctx(1) wf(4,4,4), of True "\<lambda>_. False"] full w(3) by simp
  have mul: "\<exists>x c'. BN_mul word_malloc (\<lambda>_. True) new_ctx ?r False ?a ?b = Some (True, x, c') \<and> bn_int x = bn_int ?a * bn_int ?b"
    using bn_product_exact [OF word_malloc_ok ctx(1) wf(1,2,3), of False "\<lambda>_. True"] amp ctx(2,3) w by (auto simp: INT_MAX_def)
  have "\<exists>x c'. BN_sqr word_malloc (\<lambda>_. True) new_ctx ?f True ?f = Some (True, x, c') \<and> bn_int x = (bn_int ?f)\<^sup>2"
    using bn_product_exact [OF word_malloc_ok ctx(1) wf(4,4,4), of True "\<lambda>_. True"] amp ctx(2,3) w by (auto simp: INT_MAX_def)
  then show ?thesis using mul null unfolding v by simp
qed

end
