(* ===== verification/Spec2Isabelle.thy ===== *)
theory Spec2Isabelle
  imports PbMessage CbbProps Stack Pool Base64 Modes BnMul
begin

text \<open>
  This library models the C code that the app ChaDas5 is built on, under \<open>src/ChaDas5/Pods\<close>. The app
  itself is a small Swift client (screens, a feed of stories and a chat) of the Firebase pods. Those
  talk to their server through gRPC, with its messages encoded by nanopb and its connections secured
  by BoringSSL. The logic in C is that of the last two, and this is what is modelled: how bytes are
  written and read, how buffers and containers keep their state, and how data is enciphered in modes.

  Parts, bottom up; each theory holds the definitions of one C file, named after its functions, then
  the lemmas about them. The theories without code of their own say so.

  \<^item> \<open>Prelude\<close>: the C integer types as words of their width, big- and little-endian numbers, slices.
  \<^item> \<open>PbOstream\<close>, \<open>PbIstream\<close>: nanopb \<open>pb_encode.c\<close> and \<open>pb_decode.c\<close> up to single fields. A stream is a
    record with its callback, the callback's state and the byte counters of \<open>pb_ostream_t\<close> and
    \<open>pb_istream_t\<close>; the buffer callbacks \<open>buf_write\<close> and \<open>buf_read\<close> work on a memory from addresses to
    bytes. \<open>PbVarint\<close> has the laws of the encoders and decoders over any lawful sink and source, which
    are locales; \<open>PbVarintExact\<close> says what the varint decoders do on bytes that no encoder wrote;
    \<open>PbBuffer\<close> interprets the laws on the memory buffers and states the properties.
  \<^item> \<open>PbField\<close>, \<open>PbEncode\<close>, \<open>PbDecode\<close>: nanopb's messages. \<open>pb_field_t\<close> and the iterator of \<open>pb_common.c\<close>
    work on a byte-addressed memory that holds the structs; \<open>pb_encode\<close> and \<open>pb_decode\<close> are the rest of
    \<open>pb_encode.c\<close> and \<open>pb_decode.c\<close>, allocated fields, extensions and callbacks included. For structs
    with static fields, \<open>PbWire\<close> specifies the wire format and proves that \<open>pb_encode\<close> writes it,
    \<open>PbSafe\<close> that \<open>pb_decode\<close> stays inside the struct and returns on every input, \<open>PbFuel\<close> that its
    result does not depend on the fuel. \<open>PbFrame\<close>, \<open>PbRound\<close> and \<open>PbRestore\<close> prove that \<open>pb_decode\<close> restores
    what was encoded: which bytes a field's content depends on, one item, and the fields one after the
    other, for messages of static fields without required fields, unions and fixed-count arrays, under the
    conditions that \<open>PbMessage\<close> lists. \<open>PbLayout\<close> has the macros of \<open>pb.h\<close> that make descriptors from
    the layout of a struct; \<open>PbMessage\<close> has the properties and messages of gRPC's load balancer.
  \<^item> \<open>CLib\<close>: \<open>memcmp\<close>, \<open>qsort\<close> and \<open>bsearch\<close> as BoringSSL uses them, and the contracts of a comparison
    function and of the search of a sorted array. \<open>Mem\<close>: \<open>crypto/mem.c\<close>, allocation with the length
    prefix that is cleansed on free, and the string functions. \<open>Buf\<close>: \<open>crypto/buf/buf.c\<close>.
  \<^item> \<open>Cbs\<close>: \<open>bytestring/cbs.c\<close>, a byte string as the list of the bytes not yet read. \<open>Der\<close> and \<open>DerValues\<close>
    define the DER encodings (X.690) and prove which inputs the parsers accept.
  \<^item> \<open>Cbb\<close>, \<open>CbbAsn1\<close>: \<open>bytestring/cbb.c\<close>. The chain of open children (\<open>cbb->child\<close>) is a list over one
    shared \<open>cbb_buffer_st\<close>, and an operation names the depth of the child it is called on. \<open>CbbSpec\<close>
    has the abstract builder, a stack of open segments; \<open>CbbOps\<close> refines every operation to it;
    \<open>CbbProps\<close> runs whole programs of operations and reads their output back with \<open>Cbs\<close>.
  \<^item> \<open>Stack\<close>, \<open>Lhash\<close>, \<open>Pool\<close>: \<open>stack.c\<close>, \<open>lhash.c\<close> and \<open>pool.c\<close> with \<open>refcount_c11.c\<close>. The pool uses the
    hash table of \<open>Lhash\<close> through the laws of its locale, and several threads interleave the sections
    that the pool's lock makes atomic.
  \<^item> \<open>ConstTime\<close>: the masks of \<open>crypto/internal.h\<close>. \<open>Base64\<close>: \<open>base64.c\<close>, which selects its characters
    with them.
  \<^item> \<open>Modes\<close>: \<open>ofb.c\<close>, \<open>cfb.c\<close> and \<open>ctr.c\<close> of \<open>fipsmodule/modes\<close>.
  \<^item> \<open>Bn\<close>: the big numbers of \<open>fipsmodule/bn\<close>, with \<open>bn.c\<close>, \<open>cmp.c\<close>, \<open>add.c\<close> and the word loops of
    \<open>generic.c\<close>, whose carries a locale describes. \<open>BnArith\<close> has their specification, the integer that a
    number stands for; \<open>BnShift\<close> has \<open>shift.c\<close> and the bit lengths. \<open>Comba\<close> has the fixed-size
    products of \<open>generic.c\<close>, \<open>Karatsuba\<close> and \<open>BnSquare\<close> the word products and squares of \<open>mul.c\<close>,
    \<open>BnCtx\<close> the pool of temporary numbers of \<open>ctx.c\<close>, and \<open>BnMul\<close> the products of \<open>BIGNUM\<close>s over all
    of them. The scratch words that the recursion is handed are not tracked, since every call writes
    what it later reads; each assertion on the carries is a branch to \<open>None\<close>, proved unreachable.

  Conventions. A struct is a record, a null pointer \<open>None\<close>, an array a list. An operation takes the
  state and returns its result with the new state; a parser that fails returns \<open>None\<close> with the \<open>CBS\<close>
  the caller is left with. Sizes are 64-bit words, so that sums wrap as \<open>size_t\<close> does; a list index
  is a \<open>nat\<close> once the code has compared it with a length. Calls to \<open>abort\<close>, failed assertions and
  use of freed memory are \<open>None\<close> where the code can meet them. The allocator is a parameter: a
  predicate on sizes, or for \<open>realloc\<close> the bytes that stand in the new block, so that every allocation
  may fail; \<open>malloc_total\<close> and \<open>sk_total\<close> say of an allocator that it does not run out of memory, where a
  theorem claims that a call succeeds. So are comparison and hash functions, the elements of containers, and the block cipher.

  The lemmas of a component come in this order: laws of its helpers, the invariant with its
  preservation by each operation, the functional result on each branch. The properties, marked with
  their number, stand at the end of the theory of the component, after the locale they rest on has
  been interpreted: round trips of nanopb, base64 and the stream modes; equivalence of parsers with the
  DER encodings; refinement of the builder to segments, of the stack to a list and of the hash table
  to a set, over all sequences of operations; object identifiers to DER and back to text; the invariant of the pool over all interleavings; sizes
  that wrap. Several properties state behaviour that a caller would not expect: the varints that
  are out of range or too long and accepted, a byte count that wraps in \<open>pb_write\<close> and in \<open>OPENSSL_malloc\<close>.

  Bounds and fuel. Loops are recursion on a measure and need no fuel, but for \<open>CBB_flush_asn1_set_of\<close>,
  whose loop over the elements gets the number of bytes plus one, more than it can take since each
  element has at least two bytes, and for nanopb's messages. There a fuel bounds the nesting of
  messages and the length of lists of extensions, and another one the rounds of the loop over the
  input, each of which reads a byte: more than the number of bytes is enough, as \<open>PbSafe\<close> proves. The
  search for a field is a partial function, whose return on well-formed descriptors \<open>PbField\<close> proves.
  Results that exceed 64 bits are excluded by hypotheses on lengths
  where the theorem needs it, and stated where the code goes wrong.

  Not modelled. The Swift app, Firebase, gRPC, Protobuf for Objective-C and leveldb are not C, and
  none of their code is part of the model. The descriptors and callbacks of nanopb's messages are parameters,
  but for three messages whose generated files are translated; the theorems on whole messages are
  about static fields, while allocated and callback fields and extensions are modelled only. In BoringSSL the other directories are left: the handshake and records
  in \<open>ssl\<close> (C++), X.509 and ASN.1 templates, division and exponentiation of big numbers and the public-key algorithms over them, hash
  functions, ciphers with assembly, the random generator, BIO, error queue and threads. Of the modelled files,
  functions that only pass their arguments to another one of the list, and those that print, are left
  out, as the manifest says.

  Plan. Allocated fields of nanopb's messages; conversion of big numbers from and to bytes,
  their division; the block modes CBC, CCM and GCM beside the stream modes; memory BIOs and BIO pairs
  over \<open>Buf\<close>; the error queue; ChaCha20 and RC4 as further stream ciphers.
\<close>

end
